(* ===== verification/Plibsys_Prelude.thy ===== *)
theory Plibsys_Prelude
  imports Main "HOL-Library.Word"
begin

text \<open>
  Shared vocabulary of the development: the fixed-width types of
  \<^verbatim>\<open>src/include/ptypes.h\<close> on the configuration of \<^verbatim>\<open>plibsysconfig.h\<close> (64-bit pointers and
  \<^verbatim>\<open>size_t\<close>, 32-bit \<^verbatim>\<open>int\<close>), comparison callbacks (\<^verbatim>\<open>PCompareDataFunc\<close>), and ordered
  association lists, the abstract contents that the tree components refine.
\<close>

section \<open>Types of ptypes.h\<close>

type_synonym puchar = "8 word"
type_synonym puint32 = "32 word"
type_synonym puint64 = "64 word"
type_synonym psize = "64 word"
type_synonym pint = "32 word"
type_synonym ppointer = "64 word"

abbreviation NULL :: ppointer where
  "NULL \<equiv> 0"

section \<open>Counters of two words\<close>

text \<open>Adding to the low half carries exactly when the sum wraps below the addend.\<close>

lemma div_add_carry:
  fixes n d W :: nat
  assumes "d < W"
  shows "(n + d) div W = n div W + (if (n + d) mod W < d then 1 else 0)"
proof -
  have div: "(n + d) div W = n div W + (n mod W + d) div W"
    using div_add1_eq[of n d W] assms by simp
  have mod: "(n + d) mod W = (n mod W + d) mod W" by (simp add: mod_add_left_eq)
  have less: "n mod W < W" using assms by simp
  show ?thesis
  proof (cases "n mod W + d < W")
    case True
    then show ?thesis unfolding div mod by simp
  next
    case False
    then have *: "n mod W + d - W < W" "W \<le> n mod W + d" "n mod W + d - W < d"
      using less assms by linarith+
    then have "(n mod W + d) div W = 1" "(n mod W + d) mod W = n mod W + d - W"
      using assms by (simp_all add: le_div_geq le_mod_geq)
    then show ?thesis
      unfolding div mod using *(3) by simp
  qed
qed

lemma low_high_mod:
  fixes s W X M :: nat
  assumes "s < W"
  shows "s + W * (X mod M) = (s + W * X) mod (W * M)"
  using assms by (simp add: mod_mult2_eq)

lemma unat_less_32: "unat (w :: puint32) < 2 ^ 32"
  using unsigned_less[of w] by simp

lemma mod_add_inj:
  fixes a S k l :: nat
  assumes "(a + k) mod S = (a + l) mod S" "k < S" "l < S"
  shows "k = l"
proof -
  have "k = l" if "k \<le> l" "(a + l) mod S = (a + k) mod S" "l < S" for k l
  proof -
    have "S dvd (a + l) - (a + k)" using that mod_eq_dvd_iff_nat[of "a + k" "a + l" S] by simp
    then have "S dvd l - k" by simp
    moreover have "l - k < S" using that by simp
    ultimately show ?thesis using that(1) nat_dvd_not_less[of "l - k" S] by linarith
  qed
  from this[of k l] this[of l k] assms show ?thesis by (cases k l rule: linorder_le_cases) auto
qed

section \<open>Comparison callbacks\<close>

text \<open>
  A \<^verbatim>\<open>PCompareDataFunc\<close> returns a negative, zero or positive \<^verbatim>\<open>pint\<close>.
  \<open>compare_ok\<close> is what every tree relies on: the sign of the result describes a
  total preorder. Two keys may compare equal without being the same pointer.
\<close>

definition compare_ok :: "('k \<Rightarrow> 'k \<Rightarrow> int) \<Rightarrow> bool" where
  "compare_ok cmp \<longleftrightarrow>
     (\<forall>a b. cmp a b < 0 \<longleftrightarrow> 0 < cmp b a) \<and>
     (\<forall>a b c. cmp a b \<le> 0 \<longrightarrow> cmp b c \<le> 0 \<longrightarrow> cmp a c \<le> 0)"

lemma compare_sym_less: "compare_ok cmp \<Longrightarrow> 0 < cmp a b \<longleftrightarrow> cmp b a < 0"
  unfolding compare_ok_def by blast

lemma compare_refl:
  assumes "compare_ok cmp"
  shows "cmp a a = 0"
  using compare_sym_less[OF assms, of a a] by linarith

lemma compare_sym_eq:
  assumes "compare_ok cmp"
  shows "cmp a b = 0 \<longleftrightarrow> cmp b a = 0"
  using compare_sym_less[OF assms, of a b] compare_sym_less[OF assms, of b a] by linarith

lemma compare_le_trans: "compare_ok cmp \<Longrightarrow> cmp a b \<le> 0 \<Longrightarrow> cmp b c \<le> 0 \<Longrightarrow> cmp a c \<le> 0"
  unfolding compare_ok_def by blast

lemma compare_less_le_trans:
  assumes "compare_ok cmp" "cmp a b < 0" "cmp b c \<le> 0"
  shows "cmp a c < 0"
proof (rule ccontr)
  assume "\<not> cmp a c < 0"
  then have "cmp c a \<le> 0"
    using assms(1) by (metis compare_sym_less not_less)
  then have "cmp b a \<le> 0"
    using assms by (blast intro: compare_le_trans)
  then show False
    using assms(1,2) by (metis compare_sym_less not_less)
qed

lemma compare_le_less_trans:
  assumes "compare_ok cmp" "cmp a b \<le> 0" "cmp b c < 0"
  shows "cmp a c < 0"
proof (rule ccontr)
  assume "\<not> cmp a c < 0"
  then have "cmp c a \<le> 0"
    using assms(1) by (metis compare_sym_less not_less)
  then have "cmp c b \<le> 0"
    using assms by (blast intro: compare_le_trans)
  then show False
    using assms(1,3) by (metis compare_sym_less not_less)
qed

lemma compare_less_trans:
  "compare_ok cmp \<Longrightarrow> cmp a b < 0 \<Longrightarrow> cmp b c < 0 \<Longrightarrow> cmp a c < 0"
  using compare_less_le_trans[of cmp a b c] by simp

lemmas compare_trans =
  compare_less_trans compare_less_le_trans compare_le_less_trans compare_le_trans

lemma compare_ok_diff: "compare_ok (\<lambda>a b. a - b)"
  by (auto simp: compare_ok_def)

section \<open>Ordered association lists\<close>

definition sorted_keys :: "('k \<Rightarrow> 'k \<Rightarrow> int) \<Rightarrow> ('k \<times> 'v) list \<Rightarrow> bool" where
  "sorted_keys cmp xs \<longleftrightarrow> sorted_wrt (\<lambda>p q. cmp (fst p) (fst q) < 0) xs"

definition keys_below :: "('k \<Rightarrow> 'k \<Rightarrow> int) \<Rightarrow> 'k \<Rightarrow> ('k \<times> 'v) list \<Rightarrow> bool" where
  "keys_below cmp k xs \<longleftrightarrow> list_all (\<lambda>p. 0 < cmp k (fst p)) xs"

definition keys_above :: "('k \<Rightarrow> 'k \<Rightarrow> int) \<Rightarrow> 'k \<Rightarrow> ('k \<times> 'v) list \<Rightarrow> bool" where
  "keys_above cmp k xs \<longleftrightarrow> list_all (\<lambda>p. cmp k (fst p) < 0) xs"

text \<open>The specification of insertion, removal and search on the ordered contents.\<close>

fun alist_insert :: "('k \<Rightarrow> 'k \<Rightarrow> int) \<Rightarrow> 'k \<Rightarrow> 'v \<Rightarrow> ('k \<times> 'v) list \<Rightarrow> ('k \<times> 'v) list" where
  "alist_insert cmp k v [] = [(k, v)]"
| "alist_insert cmp k v ((a, b) # xs) =
     (if cmp k a < 0 then (k, v) # (a, b) # xs
      else if 0 < cmp k a then (a, b) # alist_insert cmp k v xs
      else (k, v) # xs)"

fun alist_remove :: "('k \<Rightarrow> 'k \<Rightarrow> int) \<Rightarrow> 'k \<Rightarrow> ('k \<times> 'v) list \<Rightarrow> ('k \<times> 'v) list" where
  "alist_remove cmp k [] = []"
| "alist_remove cmp k ((a, b) # xs) = (if cmp k a = 0 then xs else (a, b) # alist_remove cmp k xs)"

fun alist_find :: "('k \<Rightarrow> 'k \<Rightarrow> int) \<Rightarrow> 'k \<Rightarrow> ('k \<times> 'v) list \<Rightarrow> ('k \<times> 'v) option" where
  "alist_find cmp k [] = None"
| "alist_find cmp k ((a, b) # xs) = (if cmp k a = 0 then Some (a, b) else alist_find cmp k xs)"

lemma keys_below_simps [simp]:
  "keys_below cmp k []"
  "keys_below cmp k (p # xs) \<longleftrightarrow> 0 < cmp k (fst p) \<and> keys_below cmp k xs"
  "keys_below cmp k (xs @ ys) \<longleftrightarrow> keys_below cmp k xs \<and> keys_below cmp k ys"
  by (auto simp: keys_below_def)

lemma keys_above_simps [simp]:
  "keys_above cmp k []"
  "keys_above cmp k (p # xs) \<longleftrightarrow> cmp k (fst p) < 0 \<and> keys_above cmp k xs"
  "keys_above cmp k (xs @ ys) \<longleftrightarrow> keys_above cmp k xs \<and> keys_above cmp k ys"
  by (auto simp: keys_above_def)

lemma sorted_keys_Nil [simp]: "sorted_keys cmp []"
  by (simp add: sorted_keys_def)

lemma sorted_keys_Cons:
  "sorted_keys cmp (p # xs) \<longleftrightarrow> keys_above cmp (fst p) xs \<and> sorted_keys cmp xs"
  by (auto simp: sorted_keys_def keys_above_def list_all_iff)

lemma sorted_keys_append:
  "sorted_keys cmp (xs @ ys) \<longleftrightarrow>
     sorted_keys cmp xs \<and> sorted_keys cmp ys \<and> (\<forall>p\<in>set xs. keys_above cmp (fst p) ys)"
  by (auto simp: sorted_keys_def keys_above_def list_all_iff sorted_wrt_append)

lemma keys_above_trans:
  "compare_ok cmp \<Longrightarrow> cmp k a \<le> 0 \<Longrightarrow> keys_above cmp a xs \<Longrightarrow> keys_above cmp k xs"
  by (auto simp: keys_above_def list_all_iff intro: compare_le_less_trans)

lemma keys_below_trans:
  assumes "compare_ok cmp" "cmp a k \<le> 0" "keys_below cmp a xs"
  shows "keys_below cmp k xs"
  using assms unfolding keys_below_def list_all_iff
  by (metis compare_sym_less compare_less_le_trans)

lemma keys_below_iff:
  "compare_ok cmp \<Longrightarrow> keys_below cmp k xs \<longleftrightarrow> (\<forall>p\<in>set xs. cmp (fst p) k < 0)"
  by (simp add: keys_below_def list_all_iff compare_sym_less)

lemma sorted_keys_mid:
  assumes "compare_ok cmp"
  shows "sorted_keys cmp (xs @ p # ys) \<longleftrightarrow>
     sorted_keys cmp xs \<and> keys_below cmp (fst p) xs \<and> keys_above cmp (fst p) ys \<and> sorted_keys cmp ys"
  using assms
  by (auto simp: sorted_keys_append sorted_keys_Cons keys_below_iff
      dest: bspec intro: keys_above_trans less_imp_le)

lemma alist_find_mid:
  "keys_below cmp k xs \<Longrightarrow> alist_find cmp k (xs @ ys) = alist_find cmp k ys"
  by (induction xs) auto

lemma alist_find_above: "keys_above cmp k xs \<Longrightarrow> alist_find cmp k xs = None"
  by (induction xs) auto

lemma alist_find_ctx:
  "keys_below cmp k xs \<Longrightarrow> keys_above cmp k zs \<Longrightarrow>
   alist_find cmp k (xs @ ys @ zs) = alist_find cmp k ys"
  by (induction ys) (auto simp: alist_find_mid alist_find_above)

lemma alist_insert_above: "keys_above cmp k xs \<Longrightarrow> alist_insert cmp k v xs = (k, v) # xs"
  by (cases xs) auto

lemma alist_insert_below:
  "keys_below cmp k xs \<Longrightarrow> alist_insert cmp k v (xs @ ys) = xs @ alist_insert cmp k v ys"
  by (induction xs) auto

lemma alist_remove_below:
  "keys_below cmp k xs \<Longrightarrow> alist_remove cmp k (xs @ ys) = xs @ alist_remove cmp k ys"
  by (induction xs) auto

lemma alist_remove_absent: "alist_find cmp k xs = None \<Longrightarrow> alist_remove cmp k xs = xs"
  by (induction cmp k xs rule: alist_find.induct) (auto split: if_splits)

lemma set_alist_insert: "set (alist_insert cmp k v xs) \<subseteq> insert (k, v) (set xs)"
  by (induction cmp k v xs rule: alist_insert.induct) auto

lemma set_alist_remove: "set (alist_remove cmp k xs) \<subseteq> set xs"
  by (induction cmp k xs rule: alist_remove.induct) auto

lemma keys_above_subset: "keys_above cmp a ys \<Longrightarrow> set xs \<subseteq> set ys \<Longrightarrow> keys_above cmp a xs"
  by (auto simp: keys_above_def list_all_iff)

lemma keys_above_insert:
  assumes "keys_above cmp a xs" "cmp a k < 0"
  shows "keys_above cmp a (alist_insert cmp k v xs)"
  using assms set_alist_insert[of cmp k v xs] by (auto simp: keys_above_def list_all_iff)

lemma sorted_alist_insert:
  assumes "compare_ok cmp" "sorted_keys cmp xs"
  shows "sorted_keys cmp (alist_insert cmp k v xs)"
  using assms
proof (induction cmp k v xs rule: alist_insert.induct)
  case (2 cmp k v a b xs)
  consider (lt) "cmp k a < 0" | (gt) "0 < cmp k a" | (eq) "cmp k a = 0" by linarith
  then show ?case
  proof cases
    case lt
    with 2 show ?thesis
      by (auto simp: sorted_keys_Cons intro: keys_above_trans[of cmp k a])
  next
    case gt
    then have "cmp a k < 0"
      using "2.prems"(1) by (simp add: compare_sym_less[of cmp k a])
    with gt 2 show ?thesis
      by (auto simp: sorted_keys_Cons intro: keys_above_insert)
  next
    case eq
    with 2 show ?thesis
      by (auto simp: sorted_keys_Cons intro: keys_above_trans[of cmp k a])
  qed
qed (simp add: sorted_keys_Cons)

lemma sorted_alist_remove: "sorted_keys cmp xs \<Longrightarrow> sorted_keys cmp (alist_remove cmp k xs)"
  by (induction cmp k xs rule: alist_remove.induct)
    (auto simp: sorted_keys_Cons intro: keys_above_subset[OF _ set_alist_remove])

text \<open>Lookup after insertion and removal: the contract of a map keyed up to \<open>cmp\<close>.\<close>

lemma compare_eq_cong:
  assumes "compare_ok cmp" "cmp q k = 0"
  shows "cmp q a = 0 \<longleftrightarrow> cmp k a = 0" "cmp q a < 0 \<longleftrightarrow> cmp k a < 0" "0 < cmp q a \<longleftrightarrow> 0 < cmp k a"
proof -
  have k: "cmp k q = 0"
    using assms by (simp add: compare_sym_eq)
  show less: "cmp q a < 0 \<longleftrightarrow> cmp k a < 0"
    using assms k by (metis compare_le_less_trans order.refl)
  show grt: "0 < cmp q a \<longleftrightarrow> 0 < cmp k a"
    using assms k compare_sym_less compare_less_le_trans by (metis order.refl)
  show "cmp q a = 0 \<longleftrightarrow> cmp k a = 0"
    using less grt by linarith
qed

lemma alist_find_insert:
  assumes "compare_ok cmp" "sorted_keys cmp xs"
  shows "alist_find cmp q (alist_insert cmp k v xs) =
     (if cmp q k = 0 then Some (k, v) else alist_find cmp q xs)"
  using assms
proof (induction cmp k v xs rule: alist_insert.induct)
  case (2 cmp k v a b xs)
  have "cmp q a \<noteq> 0" if "cmp q k = 0" "cmp k a \<noteq> 0"
    using that "2.prems"(1) compare_eq_cong(1)[of cmp q k a] by simp
  moreover have "cmp q a \<noteq> 0" if "cmp q k \<noteq> 0" "cmp k a = 0"
    using that "2.prems"(1) compare_eq_cong(1)[of cmp k a q] compare_sym_eq[of cmp q k]
      compare_sym_eq[of cmp q a] by blast
  ultimately show ?case
    using 2 by (auto simp: sorted_keys_Cons)
qed simp

lemma alist_find_remove:
  assumes "compare_ok cmp" "sorted_keys cmp xs"
  shows "alist_find cmp q (alist_remove cmp k xs) =
     (if cmp q k = 0 then None else alist_find cmp q xs)"
  using assms
proof (induction cmp k xs rule: alist_remove.induct)
  case (2 cmp k a b xs)
  have "keys_above cmp q xs" if "cmp q a = 0"
    using that "2.prems" by (auto simp: sorted_keys_Cons intro: keys_above_trans[of cmp q a])
  moreover have "cmp q a = 0 \<longleftrightarrow> cmp q k = 0" if "cmp k a = 0"
    using that "2.prems"(1) compare_eq_cong(1) compare_sym_eq by metis
  ultimately show ?case
    using 2 compare_eq_cong(1)[of cmp q k a]
    by (auto simp: sorted_keys_Cons alist_find_above)
qed simp

end
