(* ===== verification/PTree_Base.thy ===== *)
theory PTree_Base
  imports Plibsys_Prelude
begin

text \<open>
  Nodes and cursors shared by the three tree variants of plibsys
  (\<^verbatim>\<open>ptree-bst.c\<close>, \<^verbatim>\<open>ptree-avl.c\<close>, \<^verbatim>\<open>ptree-rb.c\<close>), and the contract between a
  variant and the container \<^verbatim>\<open>ptree.c\<close>.

  A node is a \<^verbatim>\<open>PTreeBaseNode\<close> with a variant-specific extension \<open>'x\<close>: nothing for the
  plain binary tree, the balance factor for AVL, the colour for red-black. The
  \<^verbatim>\<open>parent\<close> pointers of the AVL and red-black nodes are the list of \<open>frame\<close>s from a node
  up to the root: the head of the list is the parent with the hole where the node hangs,
  \<open>[]\<close> is a \<^verbatim>\<open>NULL\<close> parent. Following \<^verbatim>\<open>left\<close>/\<^verbatim>\<open>right\<close> pushes a frame, following
  \<^verbatim>\<open>parent\<close> pops one, \<open>plug\<close> is the tree reachable from the root.
\<close>

section \<open>Nodes and cursors\<close>

datatype ('k, 'v, 'x) tnode =
    Null
  | TNode "('k, 'v, 'x) tnode" 'k 'v 'x "('k, 'v, 'x) tnode"

datatype ('k, 'v, 'x) frame =
    InLeft 'k 'v 'x "('k, 'v, 'x) tnode"
  | InRight "('k, 'v, 'x) tnode" 'k 'v 'x

type_synonym ('k, 'v, 'x) path = "('k, 'v, 'x) frame list"

fun inorder :: "('k, 'v, 'x) tnode \<Rightarrow> ('k \<times> 'v) list" where
  "inorder Null = []"
| "inorder (TNode l k v x r) = inorder l @ (k, v) # inorder r"

fun theight :: "('k, 'v, 'x) tnode \<Rightarrow> nat" where
  "theight Null = 0"
| "theight (TNode l k v x r) = Suc (max (theight l) (theight r))"

fun plug1 :: "('k, 'v, 'x) tnode \<Rightarrow> ('k, 'v, 'x) frame \<Rightarrow> ('k, 'v, 'x) tnode" where
  "plug1 t (InLeft k v x r) = TNode t k v x r"
| "plug1 t (InRight l k v x) = TNode l k v x t"

fun plug :: "('k, 'v, 'x) tnode \<Rightarrow> ('k, 'v, 'x) path \<Rightarrow> ('k, 'v, 'x) tnode" where
  "plug t [] = t"
| "plug t (f # ps) = plug (plug1 t f) ps"

fun ctx_before :: "('k, 'v, 'x) path \<Rightarrow> ('k \<times> 'v) list" where
  "ctx_before [] = []"
| "ctx_before (InLeft k v x r # ps) = ctx_before ps"
| "ctx_before (InRight l k v x # ps) = ctx_before ps @ inorder l @ [(k, v)]"

fun ctx_after :: "('k, 'v, 'x) path \<Rightarrow> ('k \<times> 'v) list" where
  "ctx_after [] = []"
| "ctx_after (InLeft k v x r # ps) = (k, v) # inorder r @ ctx_after ps"
| "ctx_after (InRight l k v x # ps) = ctx_after ps"

section \<open>The search loops\<close>

text \<open>
  \<open>find_link\<close> is the loop at the head of every insertion and removal: it follows the
  comparison result until it reaches a \<^verbatim>\<open>NULL\<close> link or an equal key, and returns the node
  reached with its path. \<open>rightmost\<close> is the loop \<^verbatim>\<open>while (prev_node->right != NULL)\<close>.
\<close>

fun find_link :: "('k \<Rightarrow> 'k \<Rightarrow> int) \<Rightarrow> 'k \<Rightarrow> ('k, 'v, 'x) tnode \<Rightarrow> ('k, 'v, 'x) path \<Rightarrow>
    ('k, 'v, 'x) tnode \<times> ('k, 'v, 'x) path" where
  "find_link cmp key Null ps = (Null, ps)"
| "find_link cmp key (TNode l k v x r) ps =
     (if cmp key k < 0 then find_link cmp key l (InLeft k v x r # ps)
      else if 0 < cmp key k then find_link cmp key r (InRight l k v x # ps)
      else (TNode l k v x r, ps))"

fun rightmost :: "('k, 'v, 'x) tnode \<Rightarrow> ('k, 'v, 'x) path \<Rightarrow>
    ('k, 'v, 'x) tnode \<times> ('k, 'v, 'x) path" where
  "rightmost Null ps = (Null, ps)"
| "rightmost (TNode l k v x r) ps =
     (if r = Null then (TNode l k v x r, ps) else rightmost r (InRight l k v x # ps))"

text \<open>
  The block that every removal runs on the node found: a node with two children takes the
  key and the value of its in-order predecessor, and the predecessor is the node that is
  unlinked instead.
\<close>

definition unlink_target :: "('k, 'v, 'x) tnode \<Rightarrow> ('k, 'v, 'x) path \<Rightarrow>
    ('k, 'v, 'x) tnode \<times> ('k, 'v, 'x) path" where
  "unlink_target cur ps =
     (case cur of
        TNode l k v x r \<Rightarrow>
          (if l \<noteq> Null \<and> r \<noteq> Null then
             (case rightmost l [] of
                (TNode pl pk pv px pr, sub) \<Rightarrow>
                  (TNode pl pk pv px pr, sub @ InLeft pk pv x r # ps)
              | (Null, sub) \<Rightarrow> (Null, sub @ InLeft k v x r # ps))
           else (cur, ps))
      | Null \<Rightarrow> (Null, ps))"

text \<open>Calls of the destroy notifications, in the order they are made.\<close>

datatype ('k, 'v) destroy_call = KeyDestroy 'k | ValueDestroy 'v

definition destroy_pair :: "bool \<Rightarrow> bool \<Rightarrow> 'k \<Rightarrow> 'v \<Rightarrow> ('k, 'v) destroy_call list" where
  "destroy_pair key_destroy value_destroy k v =
     (if key_destroy then [KeyDestroy k] else []) @
     (if value_destroy then [ValueDestroy v] else [])"

text \<open>
  Result of an insertion or a removal: the new root, the \<^verbatim>\<open>pboolean\<close> returned and the
  destroy calls made. \<open>None\<close> is a dereference of a \<^verbatim>\<open>NULL\<close> pointer.
\<close>

type_synonym ('k, 'v, 'x) node_result =
  "(('k, 'v, 'x) tnode \<times> bool \<times> ('k, 'v) destroy_call list) option"

type_synonym ('k, 'v, 'd, 'x) insert_fun =
  "('k \<Rightarrow> 'k \<Rightarrow> 'd \<Rightarrow> int) \<Rightarrow> 'd \<Rightarrow> bool \<Rightarrow> bool \<Rightarrow> bool \<Rightarrow> 'k \<Rightarrow> 'v \<Rightarrow>
     ('k, 'v, 'x) tnode \<Rightarrow> ('k, 'v, 'x) node_result"

type_synonym ('k, 'v, 'd, 'x) remove_fun =
  "('k \<Rightarrow> 'k \<Rightarrow> 'd \<Rightarrow> int) \<Rightarrow> 'd \<Rightarrow> bool \<Rightarrow> bool \<Rightarrow> 'k \<Rightarrow>
     ('k, 'v, 'x) tnode \<Rightarrow> ('k, 'v, 'x) node_result"

section \<open>Facts about cursors\<close>

named_theorems cursor_simps

lemma inorder_plug [cursor_simps]: "inorder (plug t ps) = ctx_before ps @ inorder t @ ctx_after ps"
proof (induction ps arbitrary: t)
  case (Cons f ps)
  then show ?case by (cases f) simp_all
qed simp

lemma plug_append [cursor_simps]: "plug t (ps @ qs) = plug (plug t ps) qs"
  by (induction ps arbitrary: t) simp_all

lemma ctx_before_append [cursor_simps]: "ctx_before (ps @ qs) = ctx_before qs @ ctx_before ps"
proof (induction ps)
  case (Cons f ps)
  then show ?case by (cases f) simp_all
qed simp

lemma ctx_after_append [cursor_simps]: "ctx_after (ps @ qs) = ctx_after ps @ ctx_after qs"
proof (induction ps)
  case (Cons f ps)
  then show ?case by (cases f) simp_all
qed simp

lemma inorder_eq_Nil [simp]: "inorder t = [] \<longleftrightarrow> t = Null"
  by (cases t) auto

lemma find_link_plug: "find_link cmp key t ps = (c, qs) \<Longrightarrow> plug c qs = plug t ps"
  by (induction cmp key t ps rule: find_link.induct) (auto split: if_splits)

lemma find_link_root:
  "find_link cmp key t ps = (TNode l k v x r, qs) \<Longrightarrow> cmp key k = 0"
  by (induction cmp key t ps rule: find_link.induct) (auto split: if_splits)

text \<open>The cursor splits the contents around the key it was sent for.\<close>

definition located :: "('k \<Rightarrow> 'k \<Rightarrow> int) \<Rightarrow> 'k \<Rightarrow> ('k, 'v, 'x) tnode \<Rightarrow> ('k, 'v, 'x) path \<Rightarrow> bool" where
  "located cmp key c qs \<longleftrightarrow> keys_below cmp key (ctx_before qs) \<and> keys_above cmp key (ctx_after qs) \<and>
     sorted_keys cmp (inorder c)"

lemma located_children:
  assumes "compare_ok cmp" "located cmp key (TNode l k v x r) ps"
  shows "cmp key k < 0 \<Longrightarrow> located cmp key l (InLeft k v x r # ps)"
    and "0 < cmp key k \<Longrightarrow> located cmp key r (InRight l k v x # ps)"
proof -
  have sorted: "sorted_keys cmp (inorder l)" "keys_below cmp k (inorder l)"
      "keys_above cmp k (inorder r)" "sorted_keys cmp (inorder r)"
    using assms by (simp_all add: located_def sorted_keys_mid)
  show "located cmp key l (InLeft k v x r # ps)" if "cmp key k < 0"
    using that assms sorted keys_above_trans[of cmp key k "inorder r"] by (simp add: located_def)
  show "located cmp key r (InRight l k v x # ps)" if "0 < cmp key k"
    using that assms sorted keys_below_trans[of cmp k key "inorder l"]
      compare_sym_less[of cmp key k] by (simp add: located_def)
qed

lemma find_link_located:
  assumes "compare_ok cmp" "located cmp key t ps" "find_link cmp key t ps = (c, qs)"
  shows "located cmp key c qs"
  using assms
  by (induction cmp key t ps rule: find_link.induct)
    (auto split: if_splits dest: located_children)

lemma located_start: "sorted_keys cmp (inorder t) \<Longrightarrow> located cmp key t []"
  by (simp add: located_def)

text \<open>What the search loop returns on an ordered tree, for a miss and for a hit.\<close>

lemma find_link_miss:
  assumes "compare_ok cmp" "sorted_keys cmp (inorder t)" "find_link cmp key t [] = (Null, qs)"
  shows "inorder t = ctx_before qs @ ctx_after qs"
    and "alist_find cmp key (inorder t) = None"
    and "alist_insert cmp key v (inorder t) = ctx_before qs @ (key, v) # ctx_after qs"
proof -
  have loc: "located cmp key Null qs"
    using assms by (blast intro: find_link_located located_start)
  show t: "inorder t = ctx_before qs @ ctx_after qs"
    using find_link_plug[OF assms(3)] inorder_plug[of Null qs] by simp
  show "alist_find cmp key (inorder t) = None"
    using loc unfolding t by (simp add: located_def alist_find_mid alist_find_above)
  show "alist_insert cmp key v (inorder t) = ctx_before qs @ (key, v) # ctx_after qs"
    using loc unfolding t by (simp add: located_def alist_insert_below alist_insert_above)
qed

lemma find_link_hit:
  assumes "compare_ok cmp" "sorted_keys cmp (inorder t)"
    and "find_link cmp key t [] = (TNode l k v x r, qs)"
  shows "inorder t = ctx_before qs @ inorder l @ (k, v) # inorder r @ ctx_after qs"
    and "alist_find cmp key (inorder t) = Some (k, v)"
    and "alist_insert cmp key w (inorder t) =
           ctx_before qs @ inorder l @ (key, w) # inorder r @ ctx_after qs"
    and "alist_remove cmp key (inorder t) = ctx_before qs @ inorder l @ inorder r @ ctx_after qs"
proof -
  have loc: "located cmp key (TNode l k v x r) qs"
    using assms by (blast intro: find_link_located located_start)
  have eq: "cmp key k = 0" "cmp k key = 0"
    using find_link_root[OF assms(3)] compare_sym_eq[OF assms(1)] by simp_all
  have below: "keys_below cmp key (ctx_before qs @ inorder l)"
    using loc assms(1) eq keys_below_trans[of cmp k key "inorder l"]
    by (simp add: located_def sorted_keys_mid)
  show t: "inorder t = ctx_before qs @ inorder l @ (k, v) # inorder r @ ctx_after qs"
    using find_link_plug[OF assms(3)] inorder_plug[of "TNode l k v x r" qs] by simp
  then have t': "inorder t = (ctx_before qs @ inorder l) @ (k, v) # inorder r @ ctx_after qs"
    by simp
  show "alist_find cmp key (inorder t) = Some (k, v)"
    unfolding t' by (subst alist_find_mid[OF below]) (simp add: eq)
  show "alist_insert cmp key w (inorder t) =
           ctx_before qs @ inorder l @ (key, w) # inorder r @ ctx_after qs"
    unfolding t' by (subst alist_insert_below[OF below]) (simp add: eq)
  show "alist_remove cmp key (inorder t) = ctx_before qs @ inorder l @ inorder r @ ctx_after qs"
    unfolding t' by (subst alist_remove_below[OF below]) (simp add: eq)
qed

text \<open>The two outcomes as one case rule, the first step of every proof about a variant.\<close>

lemma find_link_cases:
  assumes "compare_ok cmp" "sorted_keys cmp (inorder t)"
  obtains (miss) ps where "find_link cmp key t [] = (Null, ps)" "plug Null ps = t"
      "alist_find cmp key (inorder t) = None"
      "\<And>w. alist_insert cmp key w (inorder t) = ctx_before ps @ (key, w) # ctx_after ps"
    | (hit) l k v x r ps where "find_link cmp key t [] = (TNode l k v x r, ps)"
      "plug (TNode l k v x r) ps = t"
      "alist_find cmp key (inorder t) = Some (k, v)"
      "\<And>w. alist_insert cmp key w (inorder t) =
         ctx_before ps @ inorder l @ (key, w) # inorder r @ ctx_after ps"
      "alist_remove cmp key (inorder t) = ctx_before ps @ inorder l @ inorder r @ ctx_after ps"
proof (cases "find_link cmp key t []")
  case (Pair c ps)
  show ?thesis
  proof (cases c)
    case Null
    with Pair have fl: "find_link cmp key t [] = (Null, ps)" by simp
    show ?thesis
      by (rule miss[OF fl]) (use find_link_miss[OF assms fl] find_link_plug[OF fl] in simp_all)
  next
    case (TNode l k v x r)
    with Pair have fl: "find_link cmp key t [] = (TNode l k v x r, ps)" by simp
    show ?thesis
      by (rule hit[OF fl]) (use find_link_hit[OF assms fl] find_link_plug[OF fl] in simp_all)
  qed
qed

text \<open>The predecessor loop, and the node that a removal unlinks.\<close>

lemma rightmost_spec:
  assumes "t \<noteq> Null"
  shows "\<exists>pl pk pv px sub. rightmost t ps = (TNode pl pk pv px Null, sub @ ps) \<and>
     t = plug (TNode pl pk pv px Null) sub \<and> ctx_after sub = []"
  using assms
proof (induction t ps rule: rightmost.induct)
  case (2 l k v x r ps)
  show ?case
  proof (cases "r = Null")
    case True
    then show ?thesis by (auto intro!: exI[of _ "[]"])
  next
    case False
    then obtain pl pk pv px sub where
      IH: "rightmost r (InRight l k v x # ps) = (TNode pl pk pv px Null, sub @ InRight l k v x # ps)"
        "r = plug (TNode pl pk pv px Null) sub" "ctx_after sub = []"
      using 2 by blast
    then show ?thesis
      using False by (auto simp: cursor_simps intro!: exI[of _ "sub @ [InRight l k v x]"])
  qed
qed simp

lemma unlink_target_cases:
  assumes "unlink_target (TNode l k v x r) ps = (cur, qs)"
  obtains (single) "l = Null \<or> r = Null" "cur = TNode l k v x r" "qs = ps"
    | (double) pl pk pv px sub where "l \<noteq> Null" "r \<noteq> Null"
        "l = plug (TNode pl pk pv px Null) sub" "ctx_after sub = []"
        "cur = TNode pl pk pv px Null" "qs = sub @ InLeft pk pv x r # ps"
proof (cases "l = Null \<or> r = Null")
  case True
  then show ?thesis
    using assms single by (auto simp: unlink_target_def)
next
  case False
  then obtain pl pk pv px sub where
    "rightmost l [] = (TNode pl pk pv px Null, sub)" "l = plug (TNode pl pk pv px Null) sub"
    "ctx_after sub = []"
    using rightmost_spec[of l "[]"] by auto
  then show ?thesis
    using assms False double by (auto simp: unlink_target_def)
qed

text \<open>
  The node to unlink always exists, has at most one child, and dropping it from its path
  removes exactly the entry of the node that was found.
\<close>

lemma unlink_target_spec:
  assumes "unlink_target (TNode l k v x r) ps = (cur, qs)"
  shows "\<exists>cl ck cv cx cr. cur = TNode cl ck cv cx cr \<and> (cl = Null \<or> cr = Null) \<and>
     ctx_before qs @ inorder (if cl = Null then cr else cl) @ ctx_after qs =
     ctx_before ps @ inorder l @ inorder r @ ctx_after ps"
  using assms
proof (cases rule: unlink_target_cases)
  case single
  then show ?thesis by auto
next
  case (double pl pk pv px sub)
  then show ?thesis by (auto simp: cursor_simps)
qed

section \<open>The contract of a tree variant\<close>

text \<open>
  \<^verbatim>\<open>ptree.c\<close> reaches a variant through \<^verbatim>\<open>insert_node_func\<close> and \<^verbatim>\<open>remove_node_func\<close>. The
  contract: on a tree that satisfies the variant's shape invariant and is ordered, both
  return without touching a \<^verbatim>\<open>NULL\<close> pointer, keep the invariant, and act on the ordered
  contents as \<open>alist_insert\<close> and \<open>alist_remove\<close>. The flag \<open>mem\<close> says whether
  \<^verbatim>\<open>zmalloc0\<close> finds memory for a new node.
\<close>

locale ptree_backend =
  fixes insert_node :: "('k, 'v, 'd, 'x) insert_fun"
    and remove_node :: "('k, 'v, 'd, 'x) remove_fun"
    and balanced :: "('k, 'v, 'x) tnode \<Rightarrow> bool"
  assumes balanced_Null: "balanced Null"
    and insert_node_spec:
      "compare_ok (\<lambda>a b. cf a b d) \<Longrightarrow> balanced t \<Longrightarrow> sorted_keys (\<lambda>a b. cf a b d) (inorder t) \<Longrightarrow>
       \<exists>t'. insert_node cf d mem kd vd k v t =
              Some (t', mem \<and> alist_find (\<lambda>a b. cf a b d) k (inorder t) = None,
                (case alist_find (\<lambda>a b. cf a b d) k (inorder t) of
                   None \<Rightarrow> [] | Some (k0, v0) \<Rightarrow> destroy_pair kd vd k0 v0)) \<and>
            balanced t' \<and>
            inorder t' = (if \<not> mem \<and> alist_find (\<lambda>a b. cf a b d) k (inorder t) = None then inorder t
                          else alist_insert (\<lambda>a b. cf a b d) k v (inorder t))"
    and remove_node_spec:
      "compare_ok (\<lambda>a b. cf a b d) \<Longrightarrow> balanced t \<Longrightarrow> sorted_keys (\<lambda>a b. cf a b d) (inorder t) \<Longrightarrow>
       \<exists>t' ev. remove_node cf d kd vd k t =
              Some (t', alist_find (\<lambda>a b. cf a b d) k (inorder t) \<noteq> None, ev) \<and>
            balanced t' \<and>
            inorder t' = alist_remove (\<lambda>a b. cf a b d) k (inorder t)"

end
