(* ===== verification/PTree_BST.thy ===== *)
theory PTree_BST
  imports PTree_Base
begin

text \<open>
  The plain binary search tree of \<^verbatim>\<open>src/src/lib/ptree-bst.c\<close>. Its nodes carry no
  extension and keep no shape invariant; the theory shows that it implements the variant
  contract \<open>ptree_backend\<close>.
\<close>

section \<open>Operations\<close>

definition ztree_bst_insert :: "('k, 'v, 'd, unit) insert_fun" where
  "ztree_bst_insert compare_func data mem key_destroy value_destroy key value root =
     (case find_link (\<lambda>a b. compare_func a b data) key root [] of
        (Null, ps) \<Rightarrow>
          (if mem then Some (plug (TNode Null key value () Null) ps, True, [])
           else Some (plug Null ps, False, []))
      | (TNode l k v x r, ps) \<Rightarrow>
          Some (plug (TNode l key value x r) ps, False,
            destroy_pair key_destroy value_destroy k v))"

definition ztree_bst_remove :: "('k, 'v, 'd, unit) remove_fun" where
  "ztree_bst_remove compare_func data key_destroy value_destroy key root =
     (case find_link (\<lambda>a b. compare_func a b data) key root [] of
        (Null, ps) \<Rightarrow> Some (root, False, [])
      | (TNode l k v x r, ps) \<Rightarrow>
          (case unlink_target (TNode l k v x r) ps of
             (TNode cl ck cv cx cr, qs) \<Rightarrow>
               Some (plug (if cl = Null then cr else cl) qs, True,
                 destroy_pair key_destroy value_destroy ck cv)
           | (Null, qs) \<Rightarrow> None))"

section \<open>The variant contract\<close>

lemma ztree_bst_insert_spec:
  assumes "compare_ok (\<lambda>a b. cf a b d)" "sorted_keys (\<lambda>a b. cf a b d) (inorder t)"
  shows "\<exists>t'. ztree_bst_insert cf d mem kd vd k v t =
      Some (t', mem \<and> alist_find (\<lambda>a b. cf a b d) k (inorder t) = None,
        (case alist_find (\<lambda>a b. cf a b d) k (inorder t) of
           None \<Rightarrow> [] | Some (k0, v0) \<Rightarrow> destroy_pair kd vd k0 v0)) \<and>
      inorder t' = (if \<not> mem \<and> alist_find (\<lambda>a b. cf a b d) k (inorder t) = None then inorder t
                    else alist_insert (\<lambda>a b. cf a b d) k v (inorder t))"
  using assms
  by (cases rule: find_link_cases[where key = k]) (simp_all add: ztree_bst_insert_def cursor_simps)

lemma ztree_bst_remove_spec:
  assumes "compare_ok (\<lambda>a b. cf a b d)" "sorted_keys (\<lambda>a b. cf a b d) (inorder t)"
  shows "\<exists>t' ev. ztree_bst_remove cf d kd vd k t =
      Some (t', alist_find (\<lambda>a b. cf a b d) k (inorder t) \<noteq> None, ev) \<and>
      inorder t' = alist_remove (\<lambda>a b. cf a b d) k (inorder t)"
  using assms
proof (cases rule: find_link_cases[where key = k])
  case (miss ps)
  then show ?thesis by (simp add: ztree_bst_remove_def alist_remove_absent)
next
  case (hit l k0 v0 x r ps)
  obtain cur qs where ut: "unlink_target (TNode l k0 v0 x r) ps = (cur, qs)"
    by fastforce
  from hit ut unlink_target_spec[OF ut] show ?thesis
    by (auto simp: ztree_bst_remove_def cursor_simps)
qed

interpretation bst: ptree_backend ztree_bst_insert ztree_bst_remove "\<lambda>_. True"
  by unfold_locales (simp, simp add: ztree_bst_insert_spec, simp only: ztree_bst_remove_spec simp_thms)

end
