(* ===== verification/PTree_AVL.thy ===== *)
theory PTree_AVL
  imports PTree_Base
begin

text \<open>
  The AVL tree of \<^verbatim>\<open>src/src/lib/ptree-avl.c\<close>. The extension of a node is its
  \<^verbatim>\<open>balance_factor\<close>, the height of the left subtree minus the height of the right one.
  A rotation takes the subtree of the parent of the rotated node and returns the subtree
  that replaces it; \<open>None\<close> is a dereference of a \<^verbatim>\<open>NULL\<close> child.
\<close>

type_synonym ('k, 'v) avl_node = "('k, 'v, int) tnode"
type_synonym ('k, 'v) avl_path = "('k, 'v, int) path"

section \<open>Rotations\<close>

fun pztree_avl_rotate_left :: "('k, 'v) avl_node \<Rightarrow> ('k, 'v) avl_node option" where
  "pztree_avl_rotate_left (TNode pl pk pv pb (TNode l k v b r)) =
     Some (TNode (TNode pl pk pv (- (b + 1)) l) k v (b + 1) r)"
| "pztree_avl_rotate_left _ = None"

fun pztree_avl_rotate_right :: "('k, 'v) avl_node \<Rightarrow> ('k, 'v) avl_node option" where
  "pztree_avl_rotate_right (TNode (TNode l k v b r) pk pv pb pr) =
     Some (TNode l k v (b - 1) (TNode r pk pv (- (b - 1)) pr))"
| "pztree_avl_rotate_right _ = None"

definition avl_split_left :: "int \<Rightarrow> int" where
  "avl_split_left mb = (if mb = 1 then 0 else if mb = -1 then 1 else 0)"

definition avl_split_right :: "int \<Rightarrow> int" where
  "avl_split_right mb = (if mb = 1 then -1 else if mb = -1 then 0 else 0)"

fun pztree_avl_rotate_left_right :: "('k, 'v) avl_node \<Rightarrow> ('k, 'v) avl_node option" where
  "pztree_avl_rotate_left_right (TNode (TNode l k v b (TNode ml mk mv mb mr)) pk pv pb pr) =
     Some (TNode (TNode l k v (avl_split_left mb) ml) mk mv 0
            (TNode mr pk pv (avl_split_right mb) pr))"
| "pztree_avl_rotate_left_right _ = None"

fun pztree_avl_rotate_right_left :: "('k, 'v) avl_node \<Rightarrow> ('k, 'v) avl_node option" where
  "pztree_avl_rotate_right_left (TNode pl pk pv pb (TNode (TNode ml mk mv mb mr) k v b r)) =
     Some (TNode (TNode pl pk pv (avl_split_left mb) ml) mk mv 0
            (TNode mr k v (avl_split_right mb) r))"
| "pztree_avl_rotate_right_left _ = None"

section \<open>Rebalancing\<close>

text \<open>The loop after an insertion climbs from the new node; each step pops one frame.\<close>

fun pztree_avl_balance_insert :: "('k, 'v) avl_node \<Rightarrow> ('k, 'v) avl_path \<Rightarrow> ('k, 'v) avl_node option" where
  "pztree_avl_balance_insert Null ps = None"
| "pztree_avl_balance_insert (TNode l k v b r) [] = Some (TNode l k v b r)"
| "pztree_avl_balance_insert (TNode l k v b r) (InLeft pk pv pb pr # ps) =
     (if pb = 1 then
        (if b = -1 then map_option (\<lambda>t. plug t ps)
            (pztree_avl_rotate_left_right (TNode (TNode l k v b r) pk pv pb pr))
         else map_option (\<lambda>t. plug t ps)
            (pztree_avl_rotate_right (TNode (TNode l k v b r) pk pv pb pr)))
      else if pb = -1 then Some (plug (TNode (TNode l k v b r) pk pv 0 pr) ps)
      else pztree_avl_balance_insert (TNode (TNode l k v b r) pk pv 1 pr) ps)"
| "pztree_avl_balance_insert (TNode l k v b r) (InRight pl pk pv pb # ps) =
     (if pb = -1 then
        (if b = 1 then map_option (\<lambda>t. plug t ps)
            (pztree_avl_rotate_right_left (TNode pl pk pv pb (TNode l k v b r)))
         else map_option (\<lambda>t. plug t ps)
            (pztree_avl_rotate_left (TNode pl pk pv pb (TNode l k v b r))))
      else if pb = 1 then Some (plug (TNode pl pk pv 0 (TNode l k v b r)) ps)
      else pztree_avl_balance_insert (TNode pl pk pv (-1) (TNode l k v b r)) ps)"

text \<open>
  The loop of a removal climbs from a node whose subtree has become one level lower (or
  is about to: a leaf is rebalanced away before it is unlinked). It never reads that node,
  so it acts on the node's path alone and returns the path after the rotations. The
  \<open>sibling\<close> rotations below act on the frame of the parent; \<open>sibling_frames\<close> says that
  they are the rotations of the whole subtree, seen from the node.
\<close>

fun avl_rotate_left_frames :: "('k, 'v, int) frame \<Rightarrow> ('k, 'v) avl_path option" where
  "avl_rotate_left_frames (InLeft k v b (TNode sl sk sv sb sr)) =
     Some [InLeft k v (- (sb + 1)) sl, InLeft sk sv (sb + 1) sr]"
| "avl_rotate_left_frames _ = None"

fun avl_rotate_right_left_frames :: "('k, 'v, int) frame \<Rightarrow> ('k, 'v) avl_path option" where
  "avl_rotate_right_left_frames (InLeft k v b (TNode (TNode ml mk mv mb mr) sk sv sb sr)) =
     Some [InLeft k v (avl_split_left mb) ml, InLeft mk mv 0 (TNode mr sk sv (avl_split_right mb) sr)]"
| "avl_rotate_right_left_frames _ = None"

fun avl_rotate_right_frames :: "('k, 'v, int) frame \<Rightarrow> ('k, 'v) avl_path option" where
  "avl_rotate_right_frames (InRight (TNode sl sk sv sb sr) k v b) =
     Some [InRight sr k v (- (sb - 1)), InRight sl sk sv (sb - 1)]"
| "avl_rotate_right_frames _ = None"

fun avl_rotate_left_right_frames :: "('k, 'v, int) frame \<Rightarrow> ('k, 'v) avl_path option" where
  "avl_rotate_left_right_frames (InRight (TNode sl sk sv sb (TNode ml mk mv mb mr)) k v b) =
     Some [InRight mr k v (avl_split_right mb), InRight (TNode sl sk sv (avl_split_left mb) ml) mk mv 0]"
| "avl_rotate_left_right_frames _ = None"

lemma rotate_left_frames:
  "avl_rotate_left_frames f = Some fs \<Longrightarrow> pztree_avl_rotate_left (plug1 t f) = Some (plug t fs)"
  by (cases f rule: avl_rotate_left_frames.cases; auto)

lemma rotate_right_left_frames:
  "avl_rotate_right_left_frames f = Some fs \<Longrightarrow>
     pztree_avl_rotate_right_left (plug1 t f) = Some (plug t fs)"
  by (cases f rule: avl_rotate_right_left_frames.cases; auto)

lemma rotate_right_frames:
  "avl_rotate_right_frames f = Some fs \<Longrightarrow> pztree_avl_rotate_right (plug1 t f) = Some (plug t fs)"
  by (cases f rule: avl_rotate_right_frames.cases; auto)

lemma rotate_left_right_frames:
  "avl_rotate_left_right_frames f = Some fs \<Longrightarrow>
     pztree_avl_rotate_left_right (plug1 t f) = Some (plug t fs)"
  by (cases f rule: avl_rotate_left_right_frames.cases; auto)

lemmas sibling_frames = rotate_left_frames rotate_right_left_frames rotate_right_frames
  rotate_left_right_frames

fun pztree_avl_balance_remove :: "('k, 'v) avl_path \<Rightarrow> ('k, 'v) avl_path option" where
  "pztree_avl_balance_remove [] = Some []"
| "pztree_avl_balance_remove (InLeft k v b r # ps) =
     (if b = -1 then
        (case r of
           Null \<Rightarrow> None
         | TNode sl sk sv sb sr \<Rightarrow>
             (case (if sb = 1 then avl_rotate_right_left_frames (InLeft k v b r)
                    else avl_rotate_left_frames (InLeft k v b r)) of
                None \<Rightarrow> None
              | Some fs \<Rightarrow>
                  (if sb = 0 then Some (fs @ ps)
                   else map_option (\<lambda>qs. fs @ qs) (pztree_avl_balance_remove ps))))
      else if b = 0 then Some (InLeft k v (-1) r # ps)
      else map_option (\<lambda>qs. InLeft k v 0 r # qs) (pztree_avl_balance_remove ps))"
| "pztree_avl_balance_remove (InRight l k v b # ps) =
     (if b = 1 then
        (case l of
           Null \<Rightarrow> None
         | TNode sl sk sv sb sr \<Rightarrow>
             (case (if sb = -1 then avl_rotate_left_right_frames (InRight l k v b)
                    else avl_rotate_right_frames (InRight l k v b)) of
                None \<Rightarrow> None
              | Some fs \<Rightarrow>
                  (if sb = 0 then Some (fs @ ps)
                   else map_option (\<lambda>qs. fs @ qs) (pztree_avl_balance_remove ps))))
      else if b = 0 then Some (InRight l k v 1 # ps)
      else map_option (\<lambda>qs. InRight l k v 0 # qs) (pztree_avl_balance_remove ps))"

section \<open>Operations\<close>

definition ztree_avl_insert :: "('k, 'v, 'd, int) insert_fun" where
  "ztree_avl_insert compare_func data mem key_destroy value_destroy key value root =
     (case find_link (\<lambda>a b. compare_func a b data) key root [] of
        (TNode l k v x r, ps) \<Rightarrow>
          Some (plug (TNode l key value x r) ps, False,
            destroy_pair key_destroy value_destroy k v)
      | (Null, ps) \<Rightarrow>
          (if mem then
             map_option (\<lambda>t. (t, True, []))
               (pztree_avl_balance_insert (TNode Null key value 0 Null) ps)
           else Some (plug Null ps, False, [])))"

definition ztree_avl_remove :: "('k, 'v, 'd, int) remove_fun" where
  "ztree_avl_remove compare_func data key_destroy value_destroy key root =
     (case find_link (\<lambda>a b. compare_func a b data) key root [] of
        (Null, ps) \<Rightarrow> Some (root, False, [])
      | (TNode l k v x r, ps) \<Rightarrow>
          (case unlink_target (TNode l k v x r) ps of
             (TNode cl ck cv cx cr, qs) \<Rightarrow>
               (let child = (if cl = Null then cr else cl) in
                case (if child = Null then pztree_avl_balance_remove qs else Some qs) of
                  None \<Rightarrow> None
                | Some qs1 \<Rightarrow>
                    (case (if child \<noteq> Null then pztree_avl_balance_remove qs1 else Some qs1) of
                       None \<Rightarrow> None
                     | Some qs2 \<Rightarrow>
                         Some (plug child qs2, True,
                           destroy_pair key_destroy value_destroy ck cv)))
           | (Null, qs) \<Rightarrow> None))"

section \<open>The shape invariant\<close>

definition bf_ok :: "int \<Rightarrow> nat \<Rightarrow> nat \<Rightarrow> bool" where
  "bf_ok b hl hr \<longleftrightarrow> b = int hl - int hr \<and> -1 \<le> b \<and> b \<le> 1"

fun avl :: "('k, 'v) avl_node \<Rightarrow> bool" where
  "avl Null = True"
| "avl (TNode l k v b r) = (bf_ok b (theight l) (theight r) \<and> avl l \<and> avl r)"

text \<open>\<open>avl_ctx ps h\<close>: the path is balanced around a subtree of height \<open>h\<close>.\<close>

fun avl_ctx :: "('k, 'v) avl_path \<Rightarrow> nat \<Rightarrow> bool" where
  "avl_ctx [] h = True"
| "avl_ctx (InLeft k v b r # ps) h =
     (bf_ok b h (theight r) \<and> avl r \<and> avl_ctx ps (Suc (max h (theight r))))"
| "avl_ctx (InRight l k v b # ps) h =
     (bf_ok b (theight l) h \<and> avl l \<and> avl_ctx ps (Suc (max (theight l) h)))"

lemma avl_plug: "avl (plug t ps) \<longleftrightarrow> avl t \<and> avl_ctx ps (theight t)"
proof (induction ps arbitrary: t)
  case (Cons f ps)
  then show ?case by (cases f) auto
qed simp

lemma avl_ctx_append:
  "avl_ctx (ps @ qs) (theight t) \<longleftrightarrow> avl_ctx ps (theight t) \<and> avl_ctx qs (theight (plug t ps))"
proof (induction ps arbitrary: t)
  case (Cons f ps)
  then show ?case
    using Cons.IH[of "plug1 t f"] by (cases f) auto
qed simp

lemma theight_0 [simp]: "theight t = 0 \<longleftrightarrow> t = Null"
  by (cases t) auto

section \<open>Insertion keeps the invariant\<close>

text \<open>Each rotation of an insertion, on the subtree of the unbalanced parent.\<close>

lemma avl_insert_rotate_right:
  assumes "avl (TNode l k v b r)" "theight (TNode l k v b r) = Suc h" "bf_ok 1 h (theight pr)"
    "avl pr" "b \<noteq> -1" "b \<noteq> 0"
  shows "\<exists>t. pztree_avl_rotate_right (TNode (TNode l k v b r) pk pv 1 pr) = Some t \<and> avl t \<and>
     theight t = Suc h \<and> inorder t = inorder (TNode (TNode l k v b r) pk pv 1 pr)"
  using assms by (auto simp: bf_ok_def max_def)

lemma avl_insert_rotate_left:
  assumes "avl (TNode l k v b r)" "theight (TNode l k v b r) = Suc h" "bf_ok (-1) (theight pl) h"
    "avl pl" "b \<noteq> 1" "b \<noteq> 0"
  shows "\<exists>t. pztree_avl_rotate_left (TNode pl pk pv (-1) (TNode l k v b r)) = Some t \<and> avl t \<and>
     theight t = Suc h \<and> inorder t = inorder (TNode pl pk pv (-1) (TNode l k v b r))"
  using assms by (auto simp: bf_ok_def max_def)

lemma avl_insert_rotate_left_right:
  assumes "avl (TNode l k v (-1) r)" "theight (TNode l k v (-1) r) = Suc h"
    "bf_ok 1 h (theight pr)" "avl pr"
  shows "\<exists>t. pztree_avl_rotate_left_right (TNode (TNode l k v (-1) r) pk pv 1 pr) = Some t \<and> avl t \<and>
     theight t = Suc h \<and> inorder t = inorder (TNode (TNode l k v (-1) r) pk pv 1 pr)"
proof (cases r)
  case Null
  with assms show ?thesis by (auto simp: bf_ok_def)
next
  case (TNode ml mk mv mb mr)
  with assms show ?thesis
    by (auto simp: bf_ok_def avl_split_left_def avl_split_right_def max_def split: if_splits)
qed

lemma avl_insert_rotate_right_left:
  assumes "avl (TNode l k v 1 r)" "theight (TNode l k v 1 r) = Suc h"
    "bf_ok (-1) (theight pl) h" "avl pl"
  shows "\<exists>t. pztree_avl_rotate_right_left (TNode pl pk pv (-1) (TNode l k v 1 r)) = Some t \<and> avl t \<and>
     theight t = Suc h \<and> inorder t = inorder (TNode pl pk pv (-1) (TNode l k v 1 r))"
proof (cases l)
  case Null
  with assms show ?thesis by (auto simp: bf_ok_def)
next
  case (TNode ml mk mv mb mr)
  with assms show ?thesis
    by (auto simp: bf_ok_def avl_split_left_def avl_split_right_def max_def split: if_splits)
qed

lemma bf_ok_cases: "bf_ok b hl hr \<Longrightarrow> b = 1 \<or> b = 0 \<or> b = -1"
  by (auto simp: bf_ok_def)

lemma bf_ok_heights:
  "bf_ok 1 hl hr \<longleftrightarrow> hl = Suc hr" "bf_ok 0 hl hr \<longleftrightarrow> hl = hr" "bf_ok (-1) hl hr \<longleftrightarrow> hr = Suc hl"
  by (auto simp: bf_ok_def)

definition avl_rebalanced :: "('k, 'v) avl_node option \<Rightarrow> ('k \<times> 'v) list \<Rightarrow> bool" where
  "avl_rebalanced res xs \<longleftrightarrow> (\<exists>t. res = Some t \<and> avl t \<and> inorder t = xs)"

lemma avl_rebalanced_plug:
  assumes "\<exists>t. res = Some t \<and> avl t \<and> theight t = h \<and> inorder t = xs" "avl_ctx ps h"
  shows "avl_rebalanced (map_option (\<lambda>t. plug t ps) res) (ctx_before ps @ xs @ ctx_after ps)"
  using assms by (auto simp: avl_rebalanced_def avl_plug cursor_simps)

text \<open>One step of the loop, for a node hanging on the left and on the right of its parent.\<close>

lemma avl_balance_insert_left:
  assumes t: "avl (TNode l k v b r)" "theight (TNode l k v b r) = Suc h" "h = 0 \<or> b \<noteq> 0"
    and ctx: "bf_ok pb h (theight pr)" "avl pr" "avl_ctx ps (Suc (max h (theight pr)))"
    and IH: "\<lbrakk>avl (TNode (TNode l k v b r) pk pv 1 pr);
        theight (TNode (TNode l k v b r) pk pv 1 pr) = Suc (Suc h); avl_ctx ps (Suc h)\<rbrakk> \<Longrightarrow>
      avl_rebalanced (pztree_avl_balance_insert (TNode (TNode l k v b r) pk pv 1 pr) ps)
        (ctx_before ps @ inorder (TNode (TNode l k v b r) pk pv 1 pr) @ ctx_after ps)"
  shows "avl_rebalanced (pztree_avl_balance_insert (TNode l k v b r) (InLeft pk pv pb pr # ps))
     (ctx_before ps @ inorder (TNode (TNode l k v b r) pk pv pb pr) @ ctx_after ps)"
proof -
  consider (lr) "pb = 1" "b = -1" | (rr) "pb = 1" "b \<noteq> -1" | (stop) "pb = -1" | (up) "pb = 0"
    using bf_ok_cases[OF ctx(1)] by blast
  then show ?thesis
  proof cases
    case lr
    then have "avl_ctx ps (Suc h)" using ctx by (simp add: bf_ok_heights)
    with lr t ctx show ?thesis
      using avl_rebalanced_plug[OF avl_insert_rotate_left_right] by simp
  next
    case rr
    then have "avl_ctx ps (Suc h)" "b \<noteq> 0" using t(3) ctx by (auto simp: bf_ok_heights)
    with rr t ctx show ?thesis
      using avl_rebalanced_plug[OF avl_insert_rotate_right] by simp
  next
    case stop
    with t ctx show ?thesis
      by (simp add: avl_rebalanced_def avl_plug cursor_simps bf_ok_heights)
  next
    case up
    with t ctx IH show ?thesis by (simp add: bf_ok_heights)
  qed
qed

lemma avl_balance_insert_right:
  assumes t: "avl (TNode l k v b r)" "theight (TNode l k v b r) = Suc h" "h = 0 \<or> b \<noteq> 0"
    and ctx: "bf_ok pb (theight pl) h" "avl pl" "avl_ctx ps (Suc (max (theight pl) h))"
    and IH: "\<lbrakk>avl (TNode pl pk pv (-1) (TNode l k v b r));
        theight (TNode pl pk pv (-1) (TNode l k v b r)) = Suc (Suc h); avl_ctx ps (Suc h)\<rbrakk> \<Longrightarrow>
      avl_rebalanced (pztree_avl_balance_insert (TNode pl pk pv (-1) (TNode l k v b r)) ps)
        (ctx_before ps @ inorder (TNode pl pk pv (-1) (TNode l k v b r)) @ ctx_after ps)"
  shows "avl_rebalanced (pztree_avl_balance_insert (TNode l k v b r) (InRight pl pk pv pb # ps))
     (ctx_before ps @ inorder (TNode pl pk pv pb (TNode l k v b r)) @ ctx_after ps)"
proof -
  consider (rl) "pb = -1" "b = 1" | (ll) "pb = -1" "b \<noteq> 1" | (stop) "pb = 1" | (up) "pb = 0"
    using bf_ok_cases[OF ctx(1)] by blast
  then show ?thesis
  proof cases
    case rl
    then have "avl_ctx ps (Suc h)" using ctx by (simp add: bf_ok_heights)
    with rl t ctx show ?thesis
      using avl_rebalanced_plug[OF avl_insert_rotate_right_left] by simp
  next
    case ll
    then have "avl_ctx ps (Suc h)" "b \<noteq> 0" using t(3) ctx by (auto simp: bf_ok_heights)
    with ll t ctx show ?thesis
      using avl_rebalanced_plug[OF avl_insert_rotate_left] by simp
  next
    case stop
    with t ctx show ?thesis
      by (simp add: avl_rebalanced_def avl_plug cursor_simps bf_ok_heights)
  next
    case up
    with t ctx IH show ?thesis by (simp add: bf_ok_heights)
  qed
qed

lemma avl_balance_insert:
  assumes "avl (TNode l k v b r)" "theight (TNode l k v b r) = Suc h" "avl_ctx ps h" "h = 0 \<or> b \<noteq> 0"
  shows "avl_rebalanced (pztree_avl_balance_insert (TNode l k v b r) ps)
     (ctx_before ps @ inorder (TNode l k v b r) @ ctx_after ps)"
  using assms
proof (induction ps arbitrary: l k v b r h)
  case Nil
  then show ?case by (simp add: avl_rebalanced_def)
next
  case (Cons f ps)
  show ?case
  proof (cases f)
    case (InLeft pk pv pb pr)
    have "avl_rebalanced (pztree_avl_balance_insert (TNode l k v b r) (InLeft pk pv pb pr # ps))
       (ctx_before ps @ inorder (TNode (TNode l k v b r) pk pv pb pr) @ ctx_after ps)"
      by (rule avl_balance_insert_left[OF Cons.prems(1,2,4)])
        (use Cons.prems(3) InLeft Cons.IH[of "TNode l k v b r" pk pv 1 pr "Suc h"] in simp_all)
    with InLeft show ?thesis by simp
  next
    case (InRight pl pk pv pb)
    have "avl_rebalanced (pztree_avl_balance_insert (TNode l k v b r) (InRight pl pk pv pb # ps))
       (ctx_before ps @ inorder (TNode pl pk pv pb (TNode l k v b r)) @ ctx_after ps)"
      by (rule avl_balance_insert_right[OF Cons.prems(1,2,4)])
        (use Cons.prems(3) InRight Cons.IH[of pl pk pv "-1" "TNode l k v b r" "Suc h"] in simp_all)
    with InRight show ?thesis by simp
  qed
qed

section \<open>Removal keeps the invariant\<close>

text \<open>
  \<open>avl_shrunk ps h ps'\<close>: the path \<open>ps'\<close> is balanced around a subtree of height \<open>h\<close> and has
  the contents of \<open>ps\<close>.
\<close>

definition avl_shrunk :: "('k, 'v) avl_path \<Rightarrow> nat \<Rightarrow> ('k, 'v) avl_path \<Rightarrow> bool" where
  "avl_shrunk ps h ps' \<longleftrightarrow> avl_ctx ps' h \<and> ctx_before ps' = ctx_before ps \<and> ctx_after ps' = ctx_after ps"

lemma avl_remove_rotate_left:
  assumes "bf_ok (-1) (Suc h) (theight (TNode sl sk sv sb sr))" "avl (TNode sl sk sv sb sr)" "sb \<noteq> 1"
    and "avl_ctx qs (if sb = 0 then Suc (Suc (Suc h)) else Suc (Suc h))"
    "ctx_before qs = ctx_before ps" "ctx_after qs = ctx_after ps"
  shows "\<exists>fs. avl_rotate_left_frames (InLeft k v b (TNode sl sk sv sb sr)) = Some fs \<and>
     avl_shrunk (InLeft k v b (TNode sl sk sv sb sr) # ps) h (fs @ qs)"
proof -
  have "sb = 0 \<or> sb = -1" using assms(2,3) bf_ok_cases by auto
  then show ?thesis
    using assms by (elim disjE) (auto simp: avl_shrunk_def bf_ok_heights max_def)
qed

lemma avl_remove_rotate_right:
  assumes "bf_ok 1 (theight (TNode sl sk sv sb sr)) (Suc h)" "avl (TNode sl sk sv sb sr)" "sb \<noteq> -1"
    and "avl_ctx qs (if sb = 0 then Suc (Suc (Suc h)) else Suc (Suc h))"
    "ctx_before qs = ctx_before ps" "ctx_after qs = ctx_after ps"
  shows "\<exists>fs. avl_rotate_right_frames (InRight (TNode sl sk sv sb sr) k v b) = Some fs \<and>
     avl_shrunk (InRight (TNode sl sk sv sb sr) k v b # ps) h (fs @ qs)"
proof -
  have "sb = 0 \<or> sb = 1" using assms(2,3) bf_ok_cases by auto
  then show ?thesis
    using assms by (elim disjE) (auto simp: avl_shrunk_def bf_ok_heights max_def)
qed

lemma avl_remove_rotate_right_left:
  assumes "bf_ok (-1) (Suc h) (theight (TNode sl sk sv 1 sr))" "avl (TNode sl sk sv 1 sr)"
    and "avl_ctx qs (Suc (Suc h))" "ctx_before qs = ctx_before ps" "ctx_after qs = ctx_after ps"
  shows "\<exists>fs. avl_rotate_right_left_frames (InLeft k v b (TNode sl sk sv 1 sr)) = Some fs \<and>
     avl_shrunk (InLeft k v b (TNode sl sk sv 1 sr) # ps) h (fs @ qs)"
proof (cases sl)
  case Null
  with assms show ?thesis by (simp add: bf_ok_heights)
next
  case (TNode ml mk mv mb mr)
  have "theight sl = Suc h" "theight sr = h"
    using assms(1,2) by (auto simp: bf_ok_heights)
  moreover have "mb = 1 \<or> mb = 0 \<or> mb = -1"
    using TNode assms(2) bf_ok_cases by auto
  ultimately show ?thesis
    using TNode assms(2-) by (elim disjE)
      (auto simp: avl_shrunk_def bf_ok_heights max_def avl_split_left_def avl_split_right_def)
qed

lemma avl_remove_rotate_left_right:
  assumes "bf_ok 1 (theight (TNode sl sk sv (-1) sr)) (Suc h)" "avl (TNode sl sk sv (-1) sr)"
    and "avl_ctx qs (Suc (Suc h))" "ctx_before qs = ctx_before ps" "ctx_after qs = ctx_after ps"
  shows "\<exists>fs. avl_rotate_left_right_frames (InRight (TNode sl sk sv (-1) sr) k v b) = Some fs \<and>
     avl_shrunk (InRight (TNode sl sk sv (-1) sr) k v b # ps) h (fs @ qs)"
proof (cases sr)
  case Null
  with assms show ?thesis by (simp add: bf_ok_heights)
next
  case (TNode ml mk mv mb mr)
  have "theight sr = Suc h" "theight sl = h"
    using assms(1,2) by (auto simp: bf_ok_heights)
  moreover have "mb = 1 \<or> mb = 0 \<or> mb = -1"
    using TNode assms(2) bf_ok_cases by auto
  ultimately show ?thesis
    using TNode assms(2-) by (elim disjE)
      (auto simp: avl_shrunk_def bf_ok_heights max_def avl_split_left_def avl_split_right_def)
qed

lemma avl_balance_remove_left:
  assumes ctx: "avl_ctx (InLeft k v b r # ps) (Suc h)"
    and IH: "\<And>h. avl_ctx ps (Suc h) \<Longrightarrow>
      \<exists>qs. pztree_avl_balance_remove ps = Some qs \<and> avl_shrunk ps h qs"
  shows "\<exists>qs. pztree_avl_balance_remove (InLeft k v b r # ps) = Some qs \<and>
     avl_shrunk (InLeft k v b r # ps) h qs"
proof -
  consider (rot) "b = -1" | (stop) "b = 0" | (up) "b = 1"
    using ctx bf_ok_cases by auto
  then show ?thesis
  proof cases
    case rot
    with ctx obtain sl sk sv sb sr where r: "r = TNode sl sk sv sb sr"
      and hr: "bf_ok (-1) (Suc h) (theight r)" and "avl r" "avl_ctx ps (Suc (Suc (Suc h)))"
      by (cases r) (auto simp: bf_ok_heights)
    then obtain qs where qs: "pztree_avl_balance_remove ps = Some qs" "avl_shrunk ps (Suc (Suc h)) qs"
      using IH by blast
    with rot r hr \<open>avl r\<close> \<open>avl_ctx ps (Suc (Suc (Suc h)))\<close> show ?thesis
      using avl_remove_rotate_left[of h sl sk sv sb sr "if sb = 0 then ps else qs" ps k v b]
        avl_remove_rotate_right_left[of h sl sk sv sr qs ps k v b]
      by (auto simp: avl_shrunk_def[of ps] split: if_splits)
  next
    case stop
    with ctx show ?thesis by (auto simp: avl_shrunk_def bf_ok_heights)
  next
    case up
    with ctx IH[of "Suc h"] show ?thesis by (auto simp: avl_shrunk_def bf_ok_heights)
  qed
qed

lemma avl_balance_remove_right:
  assumes ctx: "avl_ctx (InRight l k v b # ps) (Suc h)"
    and IH: "\<And>h. avl_ctx ps (Suc h) \<Longrightarrow>
      \<exists>qs. pztree_avl_balance_remove ps = Some qs \<and> avl_shrunk ps h qs"
  shows "\<exists>qs. pztree_avl_balance_remove (InRight l k v b # ps) = Some qs \<and>
     avl_shrunk (InRight l k v b # ps) h qs"
proof -
  consider (rot) "b = 1" | (stop) "b = 0" | (up) "b = -1"
    using ctx bf_ok_cases by auto
  then show ?thesis
  proof cases
    case rot
    with ctx obtain sl sk sv sb sr where l: "l = TNode sl sk sv sb sr"
      and hl: "bf_ok 1 (theight l) (Suc h)" and "avl l" "avl_ctx ps (Suc (Suc (Suc h)))"
      by (cases l) (auto simp: bf_ok_heights)
    then obtain qs where qs: "pztree_avl_balance_remove ps = Some qs" "avl_shrunk ps (Suc (Suc h)) qs"
      using IH by blast
    with rot l hl \<open>avl l\<close> \<open>avl_ctx ps (Suc (Suc (Suc h)))\<close> show ?thesis
      using avl_remove_rotate_right[of sl sk sv sb sr h "if sb = 0 then ps else qs" ps k v b]
        avl_remove_rotate_left_right[of sl sk sv sr h qs ps k v b]
      by (auto simp: avl_shrunk_def[of ps] split: if_splits)
  next
    case stop
    with ctx show ?thesis by (auto simp: avl_shrunk_def bf_ok_heights)
  next
    case up
    with ctx IH[of "Suc h"] show ?thesis by (auto simp: avl_shrunk_def bf_ok_heights)
  qed
qed

lemma avl_balance_remove:
  "avl_ctx ps (Suc h) \<Longrightarrow> \<exists>qs. pztree_avl_balance_remove ps = Some qs \<and> avl_shrunk ps h qs"
proof (induction ps arbitrary: h)
  case Nil
  then show ?case by (simp add: avl_shrunk_def)
next
  case (Cons f ps)
  then show ?case
    by (cases f) (blast intro: avl_balance_remove_left avl_balance_remove_right)+
qed

section \<open>The variant contract\<close>

lemma ztree_avl_insert_spec:
  assumes "compare_ok (\<lambda>a b. cf a b d)" "avl t" "sorted_keys (\<lambda>a b. cf a b d) (inorder t)"
  shows "\<exists>t'. ztree_avl_insert cf d mem kd vd k v t =
      Some (t', mem \<and> alist_find (\<lambda>a b. cf a b d) k (inorder t) = None,
        (case alist_find (\<lambda>a b. cf a b d) k (inorder t) of
           None \<Rightarrow> [] | Some (k0, v0) \<Rightarrow> destroy_pair kd vd k0 v0)) \<and>
      avl t' \<and>
      inorder t' = (if \<not> mem \<and> alist_find (\<lambda>a b. cf a b d) k (inorder t) = None then inorder t
                    else alist_insert (\<lambda>a b. cf a b d) k v (inorder t))"
  using assms(1,3)
proof (cases rule: find_link_cases[where key = k])
  case (miss ps)
  then have "avl_ctx ps 0" using assms(2) avl_plug[of Null ps] by simp
  then have "avl_rebalanced (pztree_avl_balance_insert (TNode Null k v 0 Null) ps)
      (ctx_before ps @ (k, v) # ctx_after ps)"
    using avl_balance_insert[of Null k v 0 Null 0 ps] by (simp add: bf_ok_def)
  with miss show ?thesis
    using assms(2) by (auto simp: ztree_avl_insert_def avl_rebalanced_def)
next
  case (hit l k0 v0 x r ps)
  then have "avl (plug (TNode l k v x r) ps)"
    using assms(2) by (auto simp: avl_plug)
  with hit show ?thesis by (simp add: ztree_avl_insert_def cursor_simps)
qed

lemma avl_unlink_target:
  assumes "unlink_target (TNode l k v x r) ps = (TNode cl ck cv cx cr, qs)"
    and "avl (plug (TNode l k v x r) ps)"
  shows "avl (TNode cl ck cv cx cr)" "avl_ctx qs (theight (TNode cl ck cv cx cr))"
proof -
  have "avl (TNode cl ck cv cx cr) \<and> avl_ctx qs (theight (TNode cl ck cv cx cr))"
    using assms(1)
  proof (cases rule: unlink_target_cases)
    case single
    then show ?thesis using assms(2) by (simp add: avl_plug)
  next
    case (double pl pk pv px sub)
    then have "avl (plug (TNode pl pk pv px Null) sub)" "avl_ctx sub (theight (TNode pl pk pv px Null))"
      using assms(2) by (auto simp: avl_plug)
    moreover have "avl_ctx (InLeft pk pv x r # ps) (theight (plug (TNode pl pk pv px Null) sub))"
      using assms(2) double(3) by (auto simp: avl_plug)
    ultimately have "avl_ctx qs (theight (TNode pl pk pv px Null))"
      unfolding double(6) avl_ctx_append by blast
    with double(5) \<open>avl (plug (TNode pl pk pv px Null) sub)\<close> show ?thesis by (simp add: avl_plug)
  qed
  then show "avl (TNode cl ck cv cx cr)" "avl_ctx qs (theight (TNode cl ck cv cx cr))"
    by blast+
qed

lemma ztree_avl_remove_spec:
  assumes "compare_ok (\<lambda>a b. cf a b d)" "avl t" "sorted_keys (\<lambda>a b. cf a b d) (inorder t)"
  shows "\<exists>t' ev. ztree_avl_remove cf d kd vd k t =
      Some (t', alist_find (\<lambda>a b. cf a b d) k (inorder t) \<noteq> None, ev) \<and>
      avl t' \<and> inorder t' = alist_remove (\<lambda>a b. cf a b d) k (inorder t)"
  using assms(1,3)
proof (cases rule: find_link_cases[where key = k])
  case (miss ps)
  then show ?thesis
    using assms(2) by (simp add: ztree_avl_remove_def alist_remove_absent)
next
  case (hit l k0 v0 x r ps)
  obtain cur qs where ut: "unlink_target (TNode l k0 v0 x r) ps = (cur, qs)"
    by fastforce
  from unlink_target_spec[OF ut]
  obtain cl ck cv cx cr where cur: "cur = TNode cl ck cv cx cr" "cl = Null \<or> cr = Null"
    and io: "ctx_before qs @ inorder (if cl = Null then cr else cl) @ ctx_after qs =
      ctx_before ps @ inorder l @ inorder r @ ctx_after ps"
    by blast
  define child where "child = (if cl = Null then cr else cl)"
  have "avl child" "avl_ctx qs (Suc (theight child))"
    using avl_unlink_target[OF ut[unfolded cur(1)]] hit(2) assms(2) cur(2)
    by (auto simp: child_def split: if_splits)
  then obtain qs' where qs': "pztree_avl_balance_remove qs = Some qs'" "avl_shrunk qs (theight child) qs'"
    using avl_balance_remove by blast
  then have "avl (plug child qs')" "inorder (plug child qs') = ctx_before qs @ inorder child @ ctx_after qs"
    using \<open>avl child\<close> by (auto simp: avl_shrunk_def avl_plug cursor_simps)
  with hit ut cur(1) qs' io show ?thesis
    by (auto simp: ztree_avl_remove_def child_def[symmetric] Let_def)
qed

section \<open>Height\<close>

lemma avl_height:
  "avl t \<Longrightarrow> 2 ^ (theight t div 2) \<le> length (inorder t) + 1"
proof (induction "theight t" arbitrary: t rule: less_induct)
  case less
  show ?case
  proof (cases t)
    case (TNode l k v b r)
    let ?h = "theight t - 2"
    have sub: "2 ^ (theight l div 2) \<le> length (inorder l) + 1" "2 ^ (theight r div 2) \<le> length (inorder r) + 1"
      using less TNode by auto
    have "?h div 2 \<le> theight l div 2" "?h div 2 \<le> theight r div 2"
      using less.prems TNode by (auto simp: bf_ok_def intro!: div_le_mono)
    then have "(2::nat) ^ (?h div 2) \<le> length (inorder l) + 1" "(2::nat) ^ (?h div 2) \<le> length (inorder r) + 1"
      by (blast intro: order_trans[OF power_increasing sub(1)] order_trans[OF power_increasing sub(2)]
          one_le_numeral)+
    moreover have "length (inorder t) = length (inorder l) + length (inorder r) + 1"
      using TNode by simp
    ultimately have "2 * 2 ^ (?h div 2) \<le> length (inorder t) + 1"
      by linarith
    moreover have "theight t div 2 = Suc (?h div 2)" if "2 \<le> theight t"
      using that by linarith
    ultimately show ?thesis
      by (cases "2 \<le> theight t") simp_all
  qed simp
qed

interpretation avl: ptree_backend ztree_avl_insert ztree_avl_remove avl
  by unfold_locales (simp, rule ztree_avl_insert_spec, assumption+, rule ztree_avl_remove_spec, assumption+)

end
