(* ===== verification/PTree_RB.thy ===== *)
theory PTree_RB
  imports PTree_Base
begin

text \<open>
  The red-black tree of \<^verbatim>\<open>src/src/lib/ptree-rb.c\<close>. The extension of a node is its
  colour. As in the other variants, parent pointers are frames, and \<open>None\<close> is a dereference
  of a \<^verbatim>\<open>NULL\<close> pointer: the code reads a grandparent, a sibling and a sibling's child
  without testing them, so that \<open>None\<close> never occurs on a red-black tree is part of what is
  proved here.
\<close>

datatype PTreeRBColor = P_TREE_RB_COLOR_RED | P_TREE_RB_COLOR_BLACK

abbreviation RED :: PTreeRBColor where "RED \<equiv> P_TREE_RB_COLOR_RED"
abbreviation BLACK :: PTreeRBColor where "BLACK \<equiv> P_TREE_RB_COLOR_BLACK"

type_synonym ('k, 'v) rb_node = "('k, 'v, PTreeRBColor) tnode"
type_synonym ('k, 'v) rb_frame = "('k, 'v, PTreeRBColor) frame"
type_synonym ('k, 'v) rb_path = "('k, 'v, PTreeRBColor) path"

section \<open>Colours, relatives and rotations\<close>

fun pztree_rb_is_black :: "('k, 'v) rb_node \<Rightarrow> bool" where
  "pztree_rb_is_black Null = True"
| "pztree_rb_is_black (TNode l k v c r) = (c = BLACK)"

fun pztree_rb_is_red :: "('k, 'v) rb_node \<Rightarrow> bool option" where
  "pztree_rb_is_red Null = None"
| "pztree_rb_is_red (TNode l k v c r) = Some (c = RED)"

text \<open>Assignments \<^verbatim>\<open>node->color = c\<close>, to a node and to the node of a frame.\<close>

fun set_color :: "PTreeRBColor \<Rightarrow> ('k, 'v) rb_node \<Rightarrow> ('k, 'v) rb_node option" where
  "set_color c Null = None"
| "set_color c (TNode l k v c0 r) = Some (TNode l k v c r)"

fun frame_color :: "('k, 'v) rb_frame \<Rightarrow> PTreeRBColor" where
  "frame_color (InLeft k v c r) = c"
| "frame_color (InRight l k v c) = c"

fun set_frame_color :: "PTreeRBColor \<Rightarrow> ('k, 'v) rb_frame \<Rightarrow> ('k, 'v) rb_frame" where
  "set_frame_color c (InLeft k v c0 r) = InLeft k v c r"
| "set_frame_color c (InRight l k v c0) = InRight l k v c"

text \<open>
  The other child of the node of a frame: the sibling of the node whose parent the frame
  is, and the uncle of the nodes below it.
\<close>

fun pztree_rb_get_sibling :: "('k, 'v) rb_frame \<Rightarrow> ('k, 'v) rb_node" where
  "pztree_rb_get_sibling (InLeft k v c r) = r"
| "pztree_rb_get_sibling (InRight l k v c) = l"

fun set_sibling :: "('k, 'v) rb_node \<Rightarrow> ('k, 'v) rb_frame \<Rightarrow> ('k, 'v) rb_frame" where
  "set_sibling s (InLeft k v c r) = InLeft k v c s"
| "set_sibling s (InRight l k v c) = InRight s k v c"

text \<open>The uncle, through the grandparent; a node whose parent is the root has none to read.\<close>

fun pztree_rb_get_uncle :: "('k, 'v) rb_path \<Rightarrow> ('k, 'v) rb_node option" where
  "pztree_rb_get_uncle (p # g # ps) = Some (pztree_rb_get_sibling g)"
| "pztree_rb_get_uncle _ = None"

fun pztree_rb_rotate_left :: "('k, 'v) rb_node \<Rightarrow> ('k, 'v) rb_node option" where
  "pztree_rb_rotate_left (TNode l k v c (TNode rl rk rv rc rr)) =
     Some (TNode (TNode l k v c rl) rk rv rc rr)"
| "pztree_rb_rotate_left _ = None"

fun pztree_rb_rotate_right :: "('k, 'v) rb_node \<Rightarrow> ('k, 'v) rb_node option" where
  "pztree_rb_rotate_right (TNode (TNode ll lk lv lc lr) k v c r) =
     Some (TNode ll lk lv lc (TNode lr k v c r))"
| "pztree_rb_rotate_right _ = None"

section \<open>Rebalancing after an insertion\<close>

text \<open>
  Cases 4 and 5, for a red parent with a black uncle: \<open>p\<close> is the frame of the parent, \<open>g\<close>
  the frame of the grandparent, the result is the subtree that replaces the grandparent.
\<close>

fun rb_insert_rotate :: "('k, 'v) rb_node \<Rightarrow> ('k, 'v) rb_frame \<Rightarrow> ('k, 'v) rb_frame \<Rightarrow>
    ('k, 'v) rb_node option" where
  "rb_insert_rotate t p (InLeft gk gv gc gr) =
     Option.bind (case p of InRight _ _ _ _ \<Rightarrow> pztree_rb_rotate_left (plug1 t p)
                          | InLeft _ _ _ _ \<Rightarrow> Some (plug1 t p)) (\<lambda>top.
     Option.bind (set_color BLACK top) (\<lambda>top.
     pztree_rb_rotate_right (TNode top gk gv RED gr)))"
| "rb_insert_rotate t p (InRight gl gk gv gc) =
     Option.bind (case p of InLeft _ _ _ _ \<Rightarrow> pztree_rb_rotate_right (plug1 t p)
                          | InRight _ _ _ _ \<Rightarrow> Some (plug1 t p)) (\<lambda>top.
     Option.bind (set_color BLACK top) (\<lambda>top.
     pztree_rb_rotate_left (TNode gl gk gv RED top)))"

fun pztree_rb_balance_insert :: "('k, 'v) rb_node \<Rightarrow> ('k, 'v) rb_path \<Rightarrow> ('k, 'v) rb_node option" where
  "pztree_rb_balance_insert t [] = set_color BLACK t"
| "pztree_rb_balance_insert t [p] =
     (if frame_color p = BLACK then Some (plug t [p]) else None)"
| "pztree_rb_balance_insert t (p # g # ps) =
     (if frame_color p = BLACK then Some (plug t (p # g # ps))
      else
        Option.bind (pztree_rb_get_uncle (p # g # ps)) (\<lambda>uncle.
         if uncle \<noteq> Null \<and> pztree_rb_is_red uncle = Some True then
           Option.bind (set_color BLACK uncle) (\<lambda>uncle'.
             pztree_rb_balance_insert
               (plug1 (plug1 t (set_frame_color BLACK p))
                 (set_sibling uncle' (set_frame_color RED g))) ps)
         else map_option (\<lambda>s. plug s ps) (rb_insert_rotate t p g)))"

section \<open>Rebalancing before a removal\<close>

text \<open>
  As for AVL, the loop works on the path of the node that loses a black level. Case 2: a
  red sibling is rotated above the parent, which gives the node a black sibling.
\<close>

fun rb_rotate_red_sibling :: "('k, 'v) rb_frame \<Rightarrow> ('k, 'v) rb_path option" where
  "rb_rotate_red_sibling (InLeft k v c (TNode sl sk sv sc sr)) =
     Some [InLeft k v RED sl, InLeft sk sv BLACK sr]"
| "rb_rotate_red_sibling (InRight (TNode sl sk sv sc sr) k v c) =
     Some [InRight sr k v RED, InRight sl sk sv BLACK]"
| "rb_rotate_red_sibling _ = None"

text \<open>
  Case 4: a sibling whose far child is black is rotated away from the node. Case 5: the
  sibling is rotated above the parent and the colours are settled.
\<close>

fun rb_straighten_sibling :: "('k, 'v) rb_frame \<Rightarrow> ('k, 'v) rb_frame option" where
  "rb_straighten_sibling (InLeft k v c s) =
     (case s of
        Null \<Rightarrow> None
      | TNode sl sk sv sc sr \<Rightarrow>
          (if pztree_rb_is_black sr then
             Option.bind (set_color BLACK sl) (\<lambda>sl'.
               map_option (InLeft k v c) (pztree_rb_rotate_right (TNode sl' sk sv RED sr)))
           else Some (InLeft k v c s)))"
| "rb_straighten_sibling (InRight s k v c) =
     (case s of
        Null \<Rightarrow> None
      | TNode sl sk sv sc sr \<Rightarrow>
          (if pztree_rb_is_black sl then
             Option.bind (set_color BLACK sr) (\<lambda>sr'.
               map_option (\<lambda>s'. InRight s' k v c) (pztree_rb_rotate_left (TNode sl sk sv RED sr')))
           else Some (InRight s k v c)))"

fun rb_lift_sibling :: "('k, 'v) rb_frame \<Rightarrow> ('k, 'v) rb_path option" where
  "rb_lift_sibling (InLeft k v c (TNode sl sk sv sc sr)) =
     Option.bind (set_color BLACK sr) (\<lambda>sr'. Some [InLeft k v BLACK sl, InLeft sk sv c sr'])"
| "rb_lift_sibling (InRight (TNode sl sk sv sc sr) k v c) =
     Option.bind (set_color BLACK sl) (\<lambda>sl'. Some [InRight sr k v BLACK, InRight sl' sk sv c])"
| "rb_lift_sibling _ = None"

text \<open>
  One pass of cases 3 to 5 on the frame of the parent: the frames that replace it and
  whether the loop continues at the parent.
\<close>

definition rb_remove_step :: "('k, 'v) rb_frame \<Rightarrow> (('k, 'v) rb_path \<times> bool) option" where
  "rb_remove_step f =
     (case pztree_rb_get_sibling f of
        Null \<Rightarrow> None
      | TNode sl sk sv sc sr \<Rightarrow>
          (if pztree_rb_is_black sl \<and> pztree_rb_is_black sr then
             (let f' = set_sibling (TNode sl sk sv RED sr) f in
              if frame_color f' = BLACK then Some ([f'], True)
              else Some ([set_frame_color BLACK f'], False))
           else
             Option.bind (rb_straighten_sibling f) (\<lambda>f'.
               map_option (\<lambda>fs. (fs, False)) (rb_lift_sibling f'))))"

lemma rb_remove_step_continue: "rb_remove_step f = Some (fs, True) \<Longrightarrow> frame_color f = BLACK"
  by (cases f) (auto simp: rb_remove_step_def Let_def bind_eq_Some_conv split: tnode.splits if_splits)

lemma rb_rotate_red_sibling_frames:
  "rb_rotate_red_sibling f = Some fs \<Longrightarrow> \<exists>f1 g1. fs = [f1, g1] \<and> frame_color f1 = RED"
  by (cases f rule: rb_rotate_red_sibling.cases) auto

function pztree_rb_balance_remove :: "('k, 'v) rb_path \<Rightarrow> ('k, 'v) rb_path option" where
  "pztree_rb_balance_remove [] = Some []"
| "pztree_rb_balance_remove (f # ps) =
     (case pztree_rb_is_red (pztree_rb_get_sibling f) of
        None \<Rightarrow> None
      | Some red \<Rightarrow>
          (case (if red then map_option (\<lambda>fs. fs @ ps) (rb_rotate_red_sibling f) else Some (f # ps)) of
             Some (f1 # ps1) \<Rightarrow>
               (case rb_remove_step f1 of
                  None \<Rightarrow> None
                | Some (fs, continue) \<Rightarrow>
                    (if continue then map_option (\<lambda>qs. fs @ qs) (pztree_rb_balance_remove ps1)
                     else Some (fs @ ps1)))
           | _ \<Rightarrow> None))"
  by pat_completeness auto
termination
proof (relation "measure length", goal_cases)
  case (2 f ps red p f1 ps1 q fs continue)
  then show ?case
    by (auto split: if_splits dest!: rb_rotate_red_sibling_frames rb_remove_step_continue)
qed simp

section \<open>Operations\<close>

definition ztree_rb_insert :: "('k, 'v, 'd, PTreeRBColor) insert_fun" where
  "ztree_rb_insert compare_func data mem key_destroy value_destroy key value root =
     (case find_link (\<lambda>a b. compare_func a b data) key root [] of
        (TNode l k v x r, ps) \<Rightarrow>
          Some (plug (TNode l key value x r) ps, False,
            destroy_pair key_destroy value_destroy k v)
      | (Null, ps) \<Rightarrow>
          (if mem then
             map_option (\<lambda>t. (t, True, []))
               (pztree_rb_balance_insert (TNode Null key value RED Null) ps)
           else Some (plug Null ps, False, [])))"

definition ztree_rb_remove :: "('k, 'v, 'd, PTreeRBColor) remove_fun" where
  "ztree_rb_remove compare_func data key_destroy value_destroy key root =
     (case find_link (\<lambda>a b. compare_func a b data) key root [] of
        (Null, ps) \<Rightarrow> Some (root, False, [])
      | (TNode l k v x r, ps) \<Rightarrow>
          (case unlink_target (TNode l k v x r) ps of
             (TNode cl ck cv cx cr, qs) \<Rightarrow>
               (let child = (if cl = Null then cr else cl) in
                case (if child = Null \<and> cx = BLACK then pztree_rb_balance_remove qs else Some qs) of
                  None \<Rightarrow> None
                | Some qs1 \<Rightarrow>
                    (case (if child \<noteq> Null \<and> cx = BLACK then set_color BLACK child else Some child) of
                       None \<Rightarrow> None
                     | Some child' \<Rightarrow>
                         Some (plug child' qs1, True,
                           destroy_pair key_destroy value_destroy ck cv)))
           | (Null, qs) \<Rightarrow> None))"

section \<open>The shape invariant\<close>

fun bheight :: "('k, 'v) rb_node \<Rightarrow> nat" where
  "bheight Null = 0"
| "bheight (TNode l k v c r) = (if c = BLACK then Suc (bheight l) else bheight l)"

fun color_of :: "('k, 'v) rb_node \<Rightarrow> PTreeRBColor" where
  "color_of Null = BLACK"
| "color_of (TNode l k v c r) = c"

text \<open>No red node has a red child, and every path has the same number of black nodes.\<close>

fun rb_sub :: "('k, 'v) rb_node \<Rightarrow> bool" where
  "rb_sub Null = True"
| "rb_sub (TNode l k v c r) =
     (rb_sub l \<and> rb_sub r \<and> bheight l = bheight r \<and>
      (c = RED \<longrightarrow> color_of l = BLACK \<and> color_of r = BLACK))"

definition rb_tree :: "('k, 'v) rb_node \<Rightarrow> bool" where
  "rb_tree t \<longleftrightarrow> rb_sub t \<and> color_of t = BLACK"

text \<open>\<open>rb_ctx ps c h\<close>: a red-black subtree of root colour \<open>c\<close> and black height \<open>h\<close> fits.\<close>

fun rb_ctx :: "('k, 'v) rb_path \<Rightarrow> PTreeRBColor \<Rightarrow> nat \<Rightarrow> bool" where
  "rb_ctx [] c h = (c = BLACK)"
| "rb_ctx (f # ps) c h =
     (rb_sub (pztree_rb_get_sibling f) \<and> bheight (pztree_rb_get_sibling f) = h \<and>
      (frame_color f = RED \<longrightarrow> c = BLACK \<and> color_of (pztree_rb_get_sibling f) = BLACK) \<and>
      rb_ctx ps (frame_color f) (if frame_color f = BLACK then Suc h else h))"

lemma is_black_color_of: "pztree_rb_is_black t \<longleftrightarrow> color_of t = BLACK"
  by (cases t) auto

lemma not_BLACK [simp]: "c \<noteq> BLACK \<longleftrightarrow> c = RED"
  by (cases c) auto

lemma not_RED [simp]: "c \<noteq> RED \<longleftrightarrow> c = BLACK"
  by (cases c) auto

lemma rb_tree_plug: "rb_tree (plug t ps) \<longleftrightarrow> rb_sub t \<and> rb_ctx ps (color_of t) (bheight t)"
proof (induction ps arbitrary: t)
  case (Cons f ps)
  then show ?case by (cases f) auto
qed (simp add: rb_tree_def)

lemma rb_ctx_black: "rb_ctx ps c h \<Longrightarrow> rb_ctx ps BLACK h"
  by (cases ps) auto

section \<open>Insertion keeps the invariant\<close>

definition rb_rebalanced :: "('k, 'v) rb_node option \<Rightarrow> ('k \<times> 'v) list \<Rightarrow> bool" where
  "rb_rebalanced res xs \<longleftrightarrow> (\<exists>t. res = Some t \<and> rb_tree t \<and> inorder t = xs)"

lemma rb_insert_rotate_spec:
  assumes "rb_sub (TNode l k v RED r)" "frame_color p = RED"
    and "rb_ctx (p # g # ps) BLACK (bheight l)" "color_of (pztree_rb_get_sibling g) = BLACK"
  shows "\<exists>s. rb_insert_rotate (TNode l k v RED r) p g = Some s \<and> rb_sub s \<and>
     color_of s = BLACK \<and> bheight s = Suc (bheight l) \<and>
     ctx_before ps @ inorder s @ ctx_after ps =
       ctx_before (p # g # ps) @ inorder (TNode l k v RED r) @ ctx_after (p # g # ps)"
  using assms by (cases p; cases g) auto

text \<open>Case 3: after the colour flip the grandparent is a red subtree of unchanged black height.\<close>

lemma rb_insert_flip_spec:
  assumes "rb_sub (TNode l k v RED r)" "frame_color p = RED"
    and "rb_ctx (p # g # ps) BLACK (bheight l)" "pztree_rb_get_sibling g = TNode ul uk uv RED ur"
  obtains gl gk gv gr where
    "plug1 (plug1 (TNode l k v RED r) (set_frame_color BLACK p))
       (set_sibling (TNode ul uk uv BLACK ur) (set_frame_color RED g)) = TNode gl gk gv RED gr"
    "rb_sub (TNode gl gk gv RED gr)" "rb_ctx ps BLACK (bheight gl)"
    "ctx_before ps @ inorder (TNode gl gk gv RED gr) @ ctx_after ps =
       ctx_before (p # g # ps) @ inorder (TNode l k v RED r) @ ctx_after (p # g # ps)"
  using assms by (cases p; cases g) auto

lemma rb_balance_insert:
  assumes "rb_sub (TNode l k v RED r)" "rb_ctx ps BLACK (bheight l)"
  shows "rb_rebalanced (pztree_rb_balance_insert (TNode l k v RED r) ps)
     (ctx_before ps @ inorder (TNode l k v RED r) @ ctx_after ps)"
  using assms
proof (induction ps arbitrary: l k v r rule: length_induct)
  case (1 ps)
  consider (root) "ps = []" | (child) p where "ps = [p]" | (deep) p g qs where "ps = p # g # qs"
    by (cases ps rule: pztree_rb_get_uncle.cases) auto
  then show ?case
  proof cases
    case root
    with 1 show ?thesis by (simp add: rb_rebalanced_def rb_tree_def)
  next
    case (child p)
    with 1 show ?thesis by (cases p) (auto simp: rb_rebalanced_def rb_tree_def)
  next
    case (deep p g qs)
    consider (black) "frame_color p = BLACK"
      | (flip) ul uk uv ur where "frame_color p = RED" "pztree_rb_get_sibling g = TNode ul uk uv RED ur"
      | (rotate) "frame_color p = RED" "color_of (pztree_rb_get_sibling g) = BLACK"
      by (cases "frame_color p"; cases "pztree_rb_get_sibling g";
          cases "color_of (pztree_rb_get_sibling g)") auto
    then show ?thesis
    proof cases
      case black
      then have "rb_tree (plug (TNode l k v RED r) ps)"
        using "1.prems" deep unfolding rb_tree_plug by simp
      with black deep show ?thesis
        using inorder_plug[of "TNode l k v RED r" ps] by (simp add: rb_rebalanced_def)
    next
      case flip
      from rb_insert_flip_spec[OF "1.prems"(1) flip(1) "1.prems"(2)[unfolded deep] flip(2)]
      obtain gl gk gv gr where up:
        "plug1 (plug1 (TNode l k v RED r) (set_frame_color BLACK p))
           (set_sibling (TNode ul uk uv BLACK ur) (set_frame_color RED g)) = TNode gl gk gv RED gr"
        "rb_sub (TNode gl gk gv RED gr)" "rb_ctx qs BLACK (bheight gl)"
        "ctx_before qs @ inorder (TNode gl gk gv RED gr) @ ctx_after qs =
           ctx_before ps @ inorder (TNode l k v RED r) @ ctx_after ps"
        unfolding deep .
      have "length qs < length ps" using deep by simp
      from "1.IH"[rule_format, OF this up(2,3)]
      have "rb_rebalanced (pztree_rb_balance_insert (TNode gl gk gv RED gr) qs)
          (ctx_before ps @ inorder (TNode l k v RED r) @ ctx_after ps)"
        unfolding up(4) .
      with up(1) flip deep show ?thesis by simp
    next
      case rotate
      then have "pztree_rb_is_red (pztree_rb_get_sibling g) \<noteq> Some True"
        by (cases "pztree_rb_get_sibling g") auto
      moreover have "rb_ctx qs BLACK (Suc (bheight l))"
        using "1.prems" deep rotate by (auto split: if_splits)
      ultimately show ?thesis
        using rb_insert_rotate_spec[OF "1.prems"(1) rotate(1) "1.prems"(2)[unfolded deep] rotate(2)]
          rotate deep
        by (auto simp: rb_rebalanced_def rb_tree_plug cursor_simps)
    qed
  qed
qed

section \<open>Removal keeps the invariant\<close>

text \<open>The rotations seen from the node are the rotations of the whole subtree.\<close>

lemma rb_rotate_red_sibling_tree:
  "rb_rotate_red_sibling (InLeft k v c (TNode sl sk sv sc sr)) = Some fs \<Longrightarrow>
     pztree_rb_rotate_left (TNode t k v RED (TNode sl sk sv BLACK sr)) = Some (plug t fs)"
  "rb_rotate_red_sibling (InRight (TNode sl sk sv sc sr) k v c) = Some fs \<Longrightarrow>
     pztree_rb_rotate_right (TNode (TNode sl sk sv BLACK sr) k v RED t) = Some (plug t fs)"
  by auto

lemma rb_lift_sibling_tree:
  "rb_lift_sibling (InLeft k v c (TNode sl sk sv sc sr)) = Some fs \<Longrightarrow> set_color BLACK sr = Some sr' \<Longrightarrow>
     pztree_rb_rotate_left (TNode t k v BLACK (TNode sl sk sv c sr')) = Some (plug t fs)"
  "rb_lift_sibling (InRight (TNode sl sk sv sc sr) k v c) = Some fs \<Longrightarrow> set_color BLACK sl = Some sl' \<Longrightarrow>
     pztree_rb_rotate_right (TNode (TNode sl' sk sv c sr) k v BLACK t) = Some (plug t fs)"
  by auto

definition rb_shrunk :: "('k, 'v) rb_path \<Rightarrow> nat \<Rightarrow> ('k, 'v) rb_path \<Rightarrow> bool" where
  "rb_shrunk ps h qs \<longleftrightarrow> rb_ctx qs BLACK h \<and> ctx_before qs = ctx_before ps \<and> ctx_after qs = ctx_after ps"

lemma color_of_RED: "color_of t = RED \<longleftrightarrow> (\<exists>l k v r. t = TNode l k v RED r)"
  by (cases t) auto

text \<open>Cases 3 to 5 with a black sibling, for the node on either side of its parent.\<close>

lemma rb_remove_step_spec:
  assumes "rb_ctx (f # ps) BLACK (Suc h)" "color_of (pztree_rb_get_sibling f) = BLACK"
  shows "(\<exists>f'. rb_remove_step f = Some ([f'], True) \<and> frame_color f = BLACK \<and>
           rb_ctx ps BLACK (Suc (Suc h)) \<and>
           (\<forall>qs. rb_shrunk ps (Suc h) qs \<longrightarrow> rb_shrunk (f # ps) h (f' # qs))) \<or>
         (\<exists>fs. rb_remove_step f = Some (fs, False) \<and> rb_shrunk (f # ps) h (fs @ ps))"
proof (cases f)
  case (InLeft k v c s)
  with assms obtain sl sk sv sr where s: "s = TNode sl sk sv BLACK sr"
    by (cases s) auto
  show ?thesis
    using assms InLeft s
    by (cases sl; cases sr; auto simp: rb_remove_step_def rb_shrunk_def is_black_color_of color_of_RED
        split: if_splits intro: rb_ctx_black)
next
  case (InRight s k v c)
  with assms obtain sl sk sv sr where s: "s = TNode sl sk sv BLACK sr"
    by (cases s) auto
  show ?thesis
    using assms InRight s
    by (cases sl; cases sr; auto simp: rb_remove_step_def rb_shrunk_def is_black_color_of color_of_RED
        split: if_splits intro: rb_ctx_black)
qed

text \<open>Case 2 leaves a black sibling and a red parent.\<close>

lemma rb_rotate_red_sibling_spec:
  assumes "rb_ctx (f # ps) BLACK (Suc h)" "color_of (pztree_rb_get_sibling f) = RED"
  obtains f1 g1 where "rb_rotate_red_sibling f = Some [f1, g1]" "frame_color f1 = RED"
    "rb_ctx (f1 # g1 # ps) BLACK (Suc h)" "color_of (pztree_rb_get_sibling f1) = BLACK"
    "\<And>qs. rb_shrunk (f1 # g1 # ps) h qs \<Longrightarrow> rb_shrunk (f # ps) h qs"
proof (cases f)
  case (InLeft k v c s)
  with assms obtain sl sk sv sr where "s = TNode sl sk sv RED sr"
    by (auto simp: color_of_RED)
  with assms InLeft show ?thesis
    by (intro that[of "InLeft k v RED sl" "InLeft sk sv BLACK sr"])
      (auto simp: rb_shrunk_def intro: rb_ctx_black)
next
  case (InRight s k v c)
  with assms obtain sl sk sv sr where "s = TNode sl sk sv RED sr"
    by (auto simp: color_of_RED)
  with assms InRight show ?thesis
    by (intro that[of "InRight sr k v RED" "InRight sl sk sv BLACK"])
      (auto simp: rb_shrunk_def intro: rb_ctx_black)
qed

lemma rb_balance_remove:
  "rb_ctx ps BLACK (Suc h) \<Longrightarrow> \<exists>qs. pztree_rb_balance_remove ps = Some qs \<and> rb_shrunk ps h qs"
proof (induction ps arbitrary: h)
  case Nil
  then show ?case by (simp add: rb_shrunk_def)
next
  case (Cons f ps)
  obtain sl sk sv sc sr where s: "pztree_rb_get_sibling f = TNode sl sk sv sc sr"
    using Cons.prems by (cases "pztree_rb_get_sibling f") auto
  show ?case
  proof (cases sc)
    case P_TREE_RB_COLOR_RED
    then have "color_of (pztree_rb_get_sibling f) = RED" using s by simp
    with Cons.prems obtain f1 g1 where red: "rb_rotate_red_sibling f = Some [f1, g1]"
      "frame_color f1 = RED" "rb_ctx (f1 # g1 # ps) BLACK (Suc h)"
      "color_of (pztree_rb_get_sibling f1) = BLACK"
      "\<And>qs. rb_shrunk (f1 # g1 # ps) h qs \<Longrightarrow> rb_shrunk (f # ps) h qs"
      by (rule rb_rotate_red_sibling_spec) blast
    with rb_remove_step_spec[OF red(3,4)] s P_TREE_RB_COLOR_RED show ?thesis by auto
  next
    case P_TREE_RB_COLOR_BLACK
    then have "color_of (pztree_rb_get_sibling f) = BLACK" using s by simp
    from rb_remove_step_spec[OF Cons.prems this] Cons.IH[of "Suc h"] s P_TREE_RB_COLOR_BLACK
    show ?thesis by auto
  qed
qed

section \<open>The variant contract\<close>

lemma ztree_rb_insert_spec:
  assumes "compare_ok (\<lambda>a b. cf a b d)" "rb_tree t" "sorted_keys (\<lambda>a b. cf a b d) (inorder t)"
  shows "\<exists>t'. ztree_rb_insert cf d mem kd vd k v t =
      Some (t', mem \<and> alist_find (\<lambda>a b. cf a b d) k (inorder t) = None,
        (case alist_find (\<lambda>a b. cf a b d) k (inorder t) of
           None \<Rightarrow> [] | Some (k0, v0) \<Rightarrow> destroy_pair kd vd k0 v0)) \<and>
      rb_tree t' \<and>
      inorder t' = (if \<not> mem \<and> alist_find (\<lambda>a b. cf a b d) k (inorder t) = None then inorder t
                    else alist_insert (\<lambda>a b. cf a b d) k v (inorder t))"
  using assms(1,3)
proof (cases rule: find_link_cases[where key = k])
  case (miss ps)
  then have "rb_ctx ps BLACK 0" using assms(2) rb_tree_plug[of Null ps] by simp
  then have "rb_rebalanced (pztree_rb_balance_insert (TNode Null k v RED Null) ps)
      (ctx_before ps @ (k, v) # ctx_after ps)"
    using rb_balance_insert[of Null k v Null ps] by simp
  with miss show ?thesis
    using assms(2) by (auto simp: ztree_rb_insert_def rb_rebalanced_def)
next
  case (hit l k0 v0 x r ps)
  then have "rb_tree (plug (TNode l k v x r) ps)"
    using assms(2) by (auto simp: rb_tree_plug)
  with hit show ?thesis by (simp add: ztree_rb_insert_def cursor_simps)
qed

lemma rb_tree_unlink_target:
  assumes "unlink_target (TNode l k v x r) ps = (TNode cl ck cv cx cr, qs)"
    and "rb_tree (plug (TNode l k v x r) ps)"
  shows "rb_tree (plug (TNode cl ck cv cx cr) qs)"
  using assms(1)
proof (cases rule: unlink_target_cases)
  case single
  then show ?thesis using assms(2) by simp
next
  case (double pl pk pv px sub)
  then have "rb_tree (plug (TNode l pk pv x r) ps)"
    using assms(2) by (auto simp: rb_tree_plug)
  with double show ?thesis by (simp add: plug_append)
qed

text \<open>The three ways a node with at most one child leaves a red-black tree.\<close>

lemma rb_unlink:
  assumes "rb_tree (plug (TNode cl ck cv cx cr) qs)" "cl = Null \<or> cr = Null"
  defines "child \<equiv> (if cl = Null then cr else cl)"
  obtains (black_leaf) qs' where "child = Null" "cx = BLACK" "pztree_rb_balance_remove qs = Some qs'"
      "rb_shrunk qs 0 qs'"
    | (red_leaf) "child = Null" "cx = RED" "rb_ctx qs BLACK 0"
    | (red_child) l k v r where "child = TNode l k v RED r" "cx = BLACK"
      "set_color BLACK child = Some (TNode l k v BLACK r)" "rb_tree (plug (TNode l k v BLACK r) qs)"
proof -
  have sub: "rb_sub (TNode cl ck cv cx cr)" and ctx: "rb_ctx qs cx (bheight (TNode cl ck cv cx cr))"
    using assms(1) by (simp_all add: rb_tree_plug)
  have bh: "bheight child = 0"
    using sub assms(2) by (auto simp: child_def)
  show ?thesis
  proof (cases child)
    case Null
    then have "bheight cl = 0" using assms(2) by (auto simp: child_def split: if_splits)
    then show ?thesis
      using Null ctx black_leaf red_leaf rb_balance_remove[of qs 0]
      by (cases cx) (auto intro: rb_ctx_black)
  next
    case (TNode l k v c r)
    then have c: "c = RED" using bh by (cases c) auto
    then have "cx = BLACK" using sub TNode assms(2) by (cases cx) (auto simp: child_def split: if_splits)
    with c TNode sub ctx bh assms(2) show ?thesis
      by (intro red_child[of l k v r]) (auto simp: rb_tree_plug child_def split: if_splits)
  qed
qed

lemma ztree_rb_remove_spec:
  assumes "compare_ok (\<lambda>a b. cf a b d)" "rb_tree t" "sorted_keys (\<lambda>a b. cf a b d) (inorder t)"
  shows "\<exists>t' ev. ztree_rb_remove cf d kd vd k t =
      Some (t', alist_find (\<lambda>a b. cf a b d) k (inorder t) \<noteq> None, ev) \<and>
      rb_tree t' \<and> inorder t' = alist_remove (\<lambda>a b. cf a b d) k (inorder t)"
  using assms(1,3)
proof (cases rule: find_link_cases[where key = k])
  case (miss ps)
  then show ?thesis
    using assms(2) by (simp add: ztree_rb_remove_def alist_remove_absent)
next
  case (hit l k0 v0 x r ps)
  obtain cur qs where ut: "unlink_target (TNode l k0 v0 x r) ps = (cur, qs)"
    by fastforce
  from unlink_target_spec[OF ut]
  obtain cl ck cv cx cr where cur: "cur = TNode cl ck cv cx cr" "cl = Null \<or> cr = Null"
    and io: "ctx_before qs @ inorder (if cl = Null then cr else cl) @ ctx_after qs =
      ctx_before ps @ inorder l @ inorder r @ ctx_after ps"
    by blast
  have "rb_tree (plug (TNode cl ck cv cx cr) qs)"
    using rb_tree_unlink_target[OF ut[unfolded cur(1)]] hit(2) assms(2) by simp
  from this cur(2) show ?thesis
  proof (cases rule: rb_unlink)
    case (black_leaf qs')
    with hit ut cur(1) io show ?thesis
      by (auto simp: ztree_rb_remove_def Let_def rb_shrunk_def rb_tree_plug cursor_simps)
  next
    case red_leaf
    with hit ut cur(1) io show ?thesis
      by (auto simp: ztree_rb_remove_def Let_def rb_tree_plug cursor_simps)
  next
    case (red_child l' k' v' r')
    with hit ut cur(1) io show ?thesis
      by (auto simp: ztree_rb_remove_def Let_def cursor_simps)
  qed
qed

section \<open>Height\<close>

lemma rb_bheight_size: "rb_sub t \<Longrightarrow> 2 ^ bheight t \<le> length (inorder t) + 1"
  by (induction t) auto

lemma rb_height_bheight:
  "rb_sub t \<Longrightarrow> theight t \<le> 2 * bheight t + (if color_of t = RED then 1 else 0)"
  by (induction t) (auto split: if_splits)

lemma rb_height:
  assumes "rb_tree t"
  shows "2 ^ (theight t div 2) \<le> length (inorder t) + 1"
proof -
  have "theight t div 2 \<le> bheight t"
    using rb_height_bheight[of t] assms by (simp add: rb_tree_def)
  then have "(2::nat) ^ (theight t div 2) \<le> 2 ^ bheight t"
    by (simp add: power_increasing)
  also have "\<dots> \<le> length (inorder t) + 1"
    using rb_bheight_size[of t] assms by (simp add: rb_tree_def)
  finally show ?thesis .
qed

interpretation rb: ptree_backend ztree_rb_insert ztree_rb_remove rb_tree
  by unfold_locales (simp add: rb_tree_def, rule ztree_rb_insert_spec, assumption+,
      rule ztree_rb_remove_spec, assumption+)

end
