(* ===== verification/PTree.thy ===== *)
theory PTree
  imports PTree_BST PTree_AVL PTree_RB
begin

text \<open>
  The tree container of \<^verbatim>\<open>src/src/lib/ptree.c\<close>: the \<^verbatim>\<open>PTree\<close> structure with its function
  pointers, construction, insertion, removal, lookup and counting. \<^verbatim>\<open>ztree_foreach\<close> and
  \<^verbatim>\<open>ztree_clear\<close>, which rewire the nodes while they walk, are in \<open>PTree_Heap\<close>.
  The container's lemmas are proved once for any variant that satisfies \<open>ptree_backend\<close>.

  A pointer that may be \<^verbatim>\<open>NULL\<close> is an \<open>option\<close>; a result of \<open>None\<close> at the outside is a
  dereference of \<^verbatim>\<open>NULL\<close> inside a variant.
\<close>

section \<open>The structure\<close>

record ('k, 'd, 'x) PTree =
  tree_root :: "('k, ppointer, 'x) tnode"
  insert_node_func :: "('k, ppointer, 'd, 'x) insert_fun"
  remove_node_func :: "('k, ppointer, 'd, 'x) remove_fun"
  key_destroy_func :: bool
  value_destroy_func :: bool
  compare_func :: "'k \<Rightarrow> 'k \<Rightarrow> 'd \<Rightarrow> int"
  tree_data :: 'd
  tree_type :: int
  nnodes :: pint

definition P_TREE_TYPE_BINARY :: int where "P_TREE_TYPE_BINARY = 0"
definition P_TREE_TYPE_RB :: int where "P_TREE_TYPE_RB = 1"
definition P_TREE_TYPE_AVL :: int where "P_TREE_TYPE_AVL = 2"

lemmas tree_types = P_TREE_TYPE_BINARY_def P_TREE_TYPE_RB_def P_TREE_TYPE_AVL_def

text \<open>
  The three variants have different node structures behind one \<^verbatim>\<open>PTree *\<close>; the switch of
  \<^verbatim>\<open>ztree_new_full\<close> picks one of them for good.
\<close>

datatype ('k, 'd) ptree_handle =
    BinaryTree "('k, 'd, unit) PTree"
  | RBTree "('k, 'd, PTreeRBColor) PTree"
  | AVLTree "('k, 'd, int) PTree"

definition tree_init :: "('k, ppointer, 'd, 'x) insert_fun \<Rightarrow> ('k, ppointer, 'd, 'x) remove_fun \<Rightarrow>
    int \<Rightarrow> ('k \<Rightarrow> 'k \<Rightarrow> 'd \<Rightarrow> int) \<Rightarrow> 'd \<Rightarrow> bool \<Rightarrow> bool \<Rightarrow> ('k, 'd, 'x) PTree" where
  "tree_init ins rem type func data key_destroy value_destroy =
     \<lparr>tree_root = Null, insert_node_func = ins, remove_node_func = rem,
      key_destroy_func = key_destroy, value_destroy_func = value_destroy,
      compare_func = func, tree_data = data, tree_type = type, nnodes = 0\<rparr>"

definition ztree_new_full :: "bool \<Rightarrow> int \<Rightarrow> ('k \<Rightarrow> 'k \<Rightarrow> 'd \<Rightarrow> int) option \<Rightarrow> 'd \<Rightarrow> bool \<Rightarrow> bool \<Rightarrow>
    ('k, 'd) ptree_handle option" where
  "ztree_new_full mem type func data key_destroy value_destroy =
     (if \<not> (P_TREE_TYPE_BINARY \<le> type \<and> type \<le> P_TREE_TYPE_AVL) then None
      else case func of
        None \<Rightarrow> None
      | Some f \<Rightarrow>
          (if \<not> mem then None
           else if type = P_TREE_TYPE_BINARY then
             Some (BinaryTree (tree_init ztree_bst_insert ztree_bst_remove type f data key_destroy value_destroy))
           else if type = P_TREE_TYPE_RB then
             Some (RBTree (tree_init ztree_rb_insert ztree_rb_remove type f data key_destroy value_destroy))
           else
             Some (AVLTree (tree_init ztree_avl_insert ztree_avl_remove type f data key_destroy value_destroy))))"

text \<open>A \<^verbatim>\<open>PCompareFunc\<close> cast to a \<^verbatim>\<open>PCompareDataFunc\<close> ignores the additional data.\<close>

definition ztree_new :: "bool \<Rightarrow> int \<Rightarrow> ('k \<Rightarrow> 'k \<Rightarrow> int) option \<Rightarrow> ('k, ppointer) ptree_handle option" where
  "ztree_new mem type func = ztree_new_full mem type (map_option (\<lambda>f a b _. f a b) func) NULL False False"

definition ztree_new_with_data :: "bool \<Rightarrow> int \<Rightarrow> ('k \<Rightarrow> 'k \<Rightarrow> 'd \<Rightarrow> int) option \<Rightarrow> 'd \<Rightarrow>
    ('k, 'd) ptree_handle option" where
  "ztree_new_with_data mem type func data = ztree_new_full mem type func data False False"

section \<open>Operations\<close>

type_synonym ('k, 'd, 'x) tree_result =
  "(('k, 'd, 'x) PTree option \<times> bool \<times> ('k, ppointer) destroy_call list) option"

definition ztree_insert :: "bool \<Rightarrow> ('k, 'd, 'x) PTree option \<Rightarrow> 'k \<Rightarrow> ppointer \<Rightarrow>
    (('k, 'd, 'x) PTree option \<times> ('k, ppointer) destroy_call list) option" where
  "ztree_insert mem tree key value =
     (case tree of
        None \<Rightarrow> Some (None, [])
      | Some t \<Rightarrow>
          (case insert_node_func t (compare_func t) (tree_data t) mem (key_destroy_func t)
                  (value_destroy_func t) key value (tree_root t) of
             None \<Rightarrow> None
           | Some (root', result, calls) \<Rightarrow>
               Some (Some (t\<lparr>tree_root := root',
                             nnodes := (if result then nnodes t + 1 else nnodes t)\<rparr>), calls)))"

definition ztree_remove :: "('k, 'd, 'x) PTree option \<Rightarrow> 'k \<Rightarrow> ('k, 'd, 'x) tree_result" where
  "ztree_remove tree key =
     (case tree of
        None \<Rightarrow> Some (None, False, [])
      | Some t \<Rightarrow>
          (if tree_root t = Null then Some (Some t, False, [])
           else case remove_node_func t (compare_func t) (tree_data t) (key_destroy_func t)
                  (value_destroy_func t) key (tree_root t) of
             None \<Rightarrow> None
           | Some (root', result, calls) \<Rightarrow>
               Some (Some (t\<lparr>tree_root := root',
                             nnodes := (if result then nnodes t - 1 else nnodes t)\<rparr>), result, calls)))"

fun lookup_loop :: "('k \<Rightarrow> 'k \<Rightarrow> int) \<Rightarrow> 'k \<Rightarrow> ('k, ppointer, 'x) tnode \<Rightarrow> ppointer" where
  "lookup_loop cmp key Null = NULL"
| "lookup_loop cmp key (TNode l k v x r) =
     (if cmp key k < 0 then lookup_loop cmp key l
      else if 0 < cmp key k then lookup_loop cmp key r
      else v)"

definition ztree_lookup :: "('k, 'd, 'x) PTree option \<Rightarrow> 'k \<Rightarrow> ppointer" where
  "ztree_lookup tree key =
     (case tree of None \<Rightarrow> NULL
      | Some t \<Rightarrow> lookup_loop (\<lambda>a b. compare_func t a b (tree_data t)) key (tree_root t))"

definition ztree_get_type :: "('k, 'd, 'x) PTree option \<Rightarrow> int" where
  "ztree_get_type tree = (case tree of None \<Rightarrow> -1 | Some t \<Rightarrow> tree_type t)"

definition ztree_get_nnodes :: "('k, 'd, 'x) PTree option \<Rightarrow> pint" where
  "ztree_get_nnodes tree = (case tree of None \<Rightarrow> 0 | Some t \<Rightarrow> nnodes t)"

section \<open>Sequences of operations and their abstract counterpart\<close>

text \<open>
  A client's calls, each insertion with the outcome of its allocation. \<open>tree_run\<close> performs
  them on the container, \<open>spec_run\<close> on the ordered association list.
\<close>

datatype 'k tree_op = Insert bool 'k ppointer | Remove 'k

fun tree_run :: "('k, 'd, 'x) PTree \<Rightarrow> 'k tree_op list \<Rightarrow> ('k, 'd, 'x) PTree option" where
  "tree_run t [] = Some t"
| "tree_run t (Insert mem k v # ops) =
     (case ztree_insert mem (Some t) k v of Some (Some t', _) \<Rightarrow> tree_run t' ops | _ \<Rightarrow> None)"
| "tree_run t (Remove k # ops) =
     (case ztree_remove (Some t) k of Some (Some t', _) \<Rightarrow> tree_run t' ops | _ \<Rightarrow> None)"

fun spec_run :: "('k \<Rightarrow> 'k \<Rightarrow> int) \<Rightarrow> ('k \<times> ppointer) list \<Rightarrow> 'k tree_op list \<Rightarrow> ('k \<times> ppointer) list" where
  "spec_run cmp xs [] = xs"
| "spec_run cmp xs (Insert mem k v # ops) =
     spec_run cmp (if \<not> mem \<and> alist_find cmp k xs = None then xs else alist_insert cmp k v xs) ops"
| "spec_run cmp xs (Remove k # ops) = spec_run cmp (alist_remove cmp k xs) ops"

abbreviation tree_cmp :: "('k, 'd, 'x) PTree \<Rightarrow> 'k \<Rightarrow> 'k \<Rightarrow> int" where
  "tree_cmp t \<equiv> (\<lambda>a b. compare_func t a b (tree_data t))"

abbreviation contents :: "('k, 'd, 'x) PTree \<Rightarrow> ('k \<times> ppointer) list" where
  "contents t \<equiv> inorder (tree_root t)"

text \<open>
  The invariant of a container over a variant with shape invariant \<open>balanced\<close>: the contents
  are ordered and the counter is their number, modulo the width of \<^verbatim>\<open>pint\<close>.
\<close>

definition tree_inv :: "(('k, ppointer, 'x) tnode \<Rightarrow> bool) \<Rightarrow> ('k, 'd, 'x) PTree \<Rightarrow> bool" where
  "tree_inv balanced t \<longleftrightarrow> balanced (tree_root t) \<and> sorted_keys (tree_cmp t) (contents t) \<and>
     nnodes t = of_nat (length (contents t))"

definition tree_uses :: "('k, ppointer, 'd, 'x) insert_fun \<Rightarrow> ('k, ppointer, 'd, 'x) remove_fun \<Rightarrow>
    ('k, 'd, 'x) PTree \<Rightarrow> bool" where
  "tree_uses ins rem t \<longleftrightarrow> insert_node_func t = ins \<and> remove_node_func t = rem"

section \<open>Lookup and counting\<close>

lemma lookup_loop_find:
  assumes "compare_ok cmp" "sorted_keys cmp (inorder t)"
  shows "lookup_loop cmp k t = (case alist_find cmp k (inorder t) of None \<Rightarrow> NULL | Some (_, v) \<Rightarrow> v)"
proof -
  have "lookup_loop cmp k t = (case fst (find_link cmp k t ps) of Null \<Rightarrow> NULL | TNode l a v x r \<Rightarrow> v)" for ps
    by (induction cmp k t arbitrary: ps rule: lookup_loop.induct) auto
  note loop = this[of "[]"]
  show ?thesis
    using assms by (cases rule: find_link_cases[where key = k]) (simp_all add: loop)
qed

lemma length_alist_insert:
  assumes "compare_ok cmp" "sorted_keys cmp xs"
  shows "length (alist_insert cmp k v xs) = (if alist_find cmp k xs = None then Suc (length xs) else length xs)"
  using assms
proof (induction cmp k v xs rule: alist_insert.induct)
  case (2 cmp k v a b xs)
  then have "keys_above cmp k xs" if "cmp k a < 0"
    using that keys_above_trans[of cmp k a xs] by (simp add: sorted_keys_Cons)
  with 2 show ?case by (auto simp: sorted_keys_Cons alist_find_above)
qed simp

lemma length_alist_remove:
  "length (alist_remove cmp k xs) = (if alist_find cmp k xs = None then length xs else length xs - 1)"
proof (induction cmp k xs rule: alist_remove.induct)
  case (2 cmp k a b xs)
  then show ?case by (cases xs) auto
qed simp

section \<open>The container over any variant\<close>

locale ptree_container = ptree_backend insert_node remove_node balanced
  for insert_node :: "('k, ppointer, 'd, 'x) insert_fun"
    and remove_node :: "('k, ppointer, 'd, 'x) remove_fun"
    and balanced :: "('k, ppointer, 'x) tnode \<Rightarrow> bool"
begin

lemma init_inv:
  "tree_inv balanced (tree_init insert_node remove_node type f d kd vd)"
  "tree_uses insert_node remove_node (tree_init insert_node remove_node type f d kd vd)"
  "contents (tree_init insert_node remove_node type f d kd vd) = []"
  by (simp_all add: tree_init_def tree_inv_def tree_uses_def balanced_Null)

lemma insert_refines:
  assumes ok: "compare_ok (tree_cmp t)" and uses: "tree_uses insert_node remove_node t"
    and inv: "tree_inv balanced t"
  obtains t' where "ztree_insert mem (Some t) k v = Some (Some t',
      (case alist_find (tree_cmp t) k (contents t) of
         None \<Rightarrow> [] | Some (k0, v0) \<Rightarrow> destroy_pair (key_destroy_func t) (value_destroy_func t) k0 v0))"
    "tree_inv balanced t'" "tree_uses insert_node remove_node t'" "tree_cmp t' = tree_cmp t"
    "contents t' = (if \<not> mem \<and> alist_find (tree_cmp t) k (contents t) = None then contents t
       else alist_insert (tree_cmp t) k v (contents t))"
proof -
  note inv' = inv[unfolded tree_inv_def]
  obtain t1 where t1: "insert_node (compare_func t) (tree_data t) mem (key_destroy_func t)
        (value_destroy_func t) k v (tree_root t) =
      Some (t1, mem \<and> alist_find (tree_cmp t) k (contents t) = None,
        (case alist_find (tree_cmp t) k (contents t) of
           None \<Rightarrow> [] | Some (k0, v0) \<Rightarrow> destroy_pair (key_destroy_func t) (value_destroy_func t) k0 v0))"
      "balanced t1"
      "inorder t1 = (if \<not> mem \<and> alist_find (tree_cmp t) k (contents t) = None then contents t
         else alist_insert (tree_cmp t) k v (contents t))"
    using insert_node_spec[of "compare_func t" "tree_data t" "tree_root t" mem "key_destroy_func t"
        "value_destroy_func t" k v] ok inv' by blast
  show ?thesis
    by (rule that[of "t\<lparr>tree_root := t1, nnodes := (if mem \<and> alist_find (tree_cmp t) k (contents t) = None
        then nnodes t + 1 else nnodes t)\<rparr>"])
      (use t1 uses inv' in \<open>simp_all add: ztree_insert_def tree_uses_def tree_inv_def
         sorted_alist_insert[OF ok] length_alist_insert[OF ok]\<close>)
qed

lemma remove_refines:
  assumes ok: "compare_ok (tree_cmp t)" and uses: "tree_uses insert_node remove_node t"
    and inv: "tree_inv balanced t"
  obtains t' calls where
    "ztree_remove (Some t) k = Some (Some t', alist_find (tree_cmp t) k (contents t) \<noteq> None, calls)"
    "tree_inv balanced t'" "tree_uses insert_node remove_node t'" "tree_cmp t' = tree_cmp t"
    "contents t' = alist_remove (tree_cmp t) k (contents t)"
proof (cases "tree_root t = Null")
  case True
  then show ?thesis
    by (intro that[of t "[]"]) (use uses inv in \<open>simp_all add: ztree_remove_def\<close>)
next
  case False
  note inv' = inv[unfolded tree_inv_def]
  obtain t1 calls where t1: "remove_node (compare_func t) (tree_data t) (key_destroy_func t)
        (value_destroy_func t) k (tree_root t) =
      Some (t1, alist_find (tree_cmp t) k (contents t) \<noteq> None, calls)"
      "balanced t1" "inorder t1 = alist_remove (tree_cmp t) k (contents t)"
    using remove_node_spec[of "compare_func t" "tree_data t" "tree_root t" "key_destroy_func t"
        "value_destroy_func t" k] ok inv' by blast
  have "contents t \<noteq> []" using False by simp
  then have "of_nat (length (contents t) - 1) = (of_nat (length (contents t)) - 1 :: pint)"
    by (simp add: of_nat_diff Suc_le_eq)
  then show ?thesis
    by (intro that[of "t\<lparr>tree_root := t1, nnodes := (if alist_find (tree_cmp t) k (contents t) \<noteq> None
        then nnodes t - 1 else nnodes t)\<rparr>" calls])
      (use t1 uses inv' False in \<open>simp_all add: ztree_remove_def tree_uses_def tree_inv_def
         sorted_alist_remove length_alist_remove\<close>)
qed

lemma run_refines:
  assumes "compare_ok (tree_cmp t)" "tree_uses insert_node remove_node t" "tree_inv balanced t"
  shows "\<exists>t'. tree_run t ops = Some t' \<and> tree_inv balanced t' \<and> tree_cmp t' = tree_cmp t \<and>
     contents t' = spec_run (tree_cmp t) (contents t) ops"
  using assms
proof (induction t ops rule: tree_run.induct)
  case (2 t mem k v ops)
  from "2.prems" obtain t' where t': "tree_inv balanced t'" "tree_uses insert_node remove_node t'"
    "tree_cmp t' = tree_cmp t"
    "contents t' = (if \<not> mem \<and> alist_find (tree_cmp t) k (contents t) = None then contents t
       else alist_insert (tree_cmp t) k v (contents t))"
    and ins: "\<exists>calls. ztree_insert mem (Some t) k v = Some (Some t', calls)"
    by (rule insert_refines) blast
  from ins obtain calls where ins: "ztree_insert mem (Some t) k v = Some (Some t', calls)" ..
  have "compare_ok (tree_cmp t')" using "2.prems"(1) t'(3) by simp
  from "2.IH"[OF ins refl refl this t'(2,1)] ins t'(3,4) show ?case by simp
next
  case (3 t k ops)
  from "3.prems" obtain t' calls where t': "tree_inv balanced t'" "tree_uses insert_node remove_node t'"
    "tree_cmp t' = tree_cmp t" "contents t' = alist_remove (tree_cmp t) k (contents t)"
    and rem: "ztree_remove (Some t) k = Some (Some t', alist_find (tree_cmp t) k (contents t) \<noteq> None, calls)"
    by (rule remove_refines) blast
  have "compare_ok (tree_cmp t')" using "3.prems"(1) t'(3) by simp
  from "3.IH"[OF rem refl refl this t'(2,1)] rem t'(3,4) show ?case by simp
qed simp

lemma lookup_refines:
  assumes "compare_ok (tree_cmp t)" "tree_inv balanced t"
  shows "ztree_lookup (Some t) k =
     (case alist_find (tree_cmp t) k (contents t) of None \<Rightarrow> NULL | Some (_, v) \<Rightarrow> v)"
  using assms by (simp add: ztree_lookup_def tree_inv_def lookup_loop_find)

lemma run_init_refines:
  assumes "compare_ok (\<lambda>a b. f a b d)"
  shows "\<exists>t. tree_run (tree_init insert_node remove_node type f d kd vd) ops = Some t \<and>
     tree_inv balanced t \<and> contents t = spec_run (\<lambda>a b. f a b d) [] ops"
  using run_refines[of "tree_init insert_node remove_node type f d kd vd" ops]
    init_inv[of type f d kd vd] assms
  by (auto simp: tree_init_def)

lemma lookup_after_insert:
  assumes "compare_ok (tree_cmp t)" "tree_uses insert_node remove_node t" "tree_inv balanced t"
  shows "\<exists>t' calls. ztree_insert True (Some t) k v = Some (Some t', calls) \<and>
     (\<forall>q. ztree_lookup (Some t') q = (if tree_cmp t q k = 0 then v else ztree_lookup (Some t) q))"
  using assms
proof (rule insert_refines[of t True k v])
  fix t' :: "('k, 'd, 'x) PTree"
  assume "tree_inv balanced t'" and cmp: "tree_cmp t' = tree_cmp t"
    and "contents t' = (if \<not> True \<and> alist_find (tree_cmp t) k (contents t) = None then contents t
       else alist_insert (tree_cmp t) k v (contents t))"
  then have "ztree_lookup (Some t') q = (if tree_cmp t q k = 0 then v else ztree_lookup (Some t) q)" for q
    using assms lookup_refines[of t' q] lookup_refines[of t q]
    by (simp add: alist_find_insert tree_inv_def)
  moreover assume "ztree_insert True (Some t) k v = Some (Some t',
      (case alist_find (tree_cmp t) k (contents t) of
         None \<Rightarrow> [] | Some (k0, v0) \<Rightarrow> destroy_pair (key_destroy_func t) (value_destroy_func t) k0 v0))"
  ultimately show ?thesis by blast
qed

lemma lookup_after_remove:
  assumes "compare_ok (tree_cmp t)" "tree_uses insert_node remove_node t" "tree_inv balanced t"
  shows "\<exists>t' found calls. ztree_remove (Some t) k = Some (Some t', found, calls) \<and>
     (\<forall>q. ztree_lookup (Some t') q = (if tree_cmp t q k = 0 then NULL else ztree_lookup (Some t) q))"
  using assms
proof (rule remove_refines[of t k])
  fix t' :: "('k, 'd, 'x) PTree" and calls
  assume "tree_inv balanced t'" and cmp: "tree_cmp t' = tree_cmp t"
    and "contents t' = alist_remove (tree_cmp t) k (contents t)"
  then have "ztree_lookup (Some t') q = (if tree_cmp t q k = 0 then NULL else ztree_lookup (Some t) q)" for q
    using assms lookup_refines[of t' q] lookup_refines[of t q]
    by (simp add: alist_find_remove tree_inv_def)
  moreover assume "ztree_remove (Some t) k =
    Some (Some t', alist_find (tree_cmp t) k (contents t) \<noteq> None, calls)"
  ultimately show ?thesis by blast
qed

end

interpretation bst_tree: ptree_container ztree_bst_insert ztree_bst_remove "\<lambda>_. True"
  by unfold_locales

interpretation avl_tree: ptree_container ztree_avl_insert ztree_avl_remove avl
  by unfold_locales

interpretation rb_tree: ptree_container ztree_rb_insert ztree_rb_remove rb_tree
  by unfold_locales

section \<open>Properties of the container\<close>

lemma new_full_simps:
  "ztree_new_full True P_TREE_TYPE_BINARY (Some f) d kd vd =
     Some (BinaryTree (tree_init ztree_bst_insert ztree_bst_remove P_TREE_TYPE_BINARY f d kd vd))"
  "ztree_new_full True P_TREE_TYPE_RB (Some f) d kd vd =
     Some (RBTree (tree_init ztree_rb_insert ztree_rb_remove P_TREE_TYPE_RB f d kd vd))"
  "ztree_new_full True P_TREE_TYPE_AVL (Some f) d kd vd =
     Some (AVLTree (tree_init ztree_avl_insert ztree_avl_remove P_TREE_TYPE_AVL f d kd vd))"
  by (simp_all add: ztree_new_full_def tree_types)

text \<open>
  C1: any sequence of insertions (with or without memory) and removals on a new AVL tree runs
  without dereferencing \<^verbatim>\<open>NULL\<close>; the stored balance factors stay exact and within one, the
  contents are those of the ordered map, \<^verbatim>\<open>nnodes\<close> counts them, and the height is
  logarithmic in their number.
\<close>

theorem avl_tree_refines_map:
  assumes "compare_ok (\<lambda>a b. f a b d)"
  shows "\<exists>t0 t. ztree_new_full True P_TREE_TYPE_AVL (Some f) d kd vd = Some (AVLTree t0) \<and>
     tree_run t0 ops = Some t \<and> avl (tree_root t) \<and>
     inorder (tree_root t) = spec_run (\<lambda>a b. f a b d) [] ops \<and>
     ztree_get_nnodes (Some t) = of_nat (length (spec_run (\<lambda>a b. f a b d) [] ops)) \<and>
     2 ^ (theight (tree_root t) div 2) \<le> length (spec_run (\<lambda>a b. f a b d) [] ops) + 1"
proof -
  obtain t where "tree_run (tree_init ztree_avl_insert ztree_avl_remove P_TREE_TYPE_AVL f d kd vd) ops = Some t"
    "tree_inv avl t" "contents t = spec_run (\<lambda>a b. f a b d) [] ops"
    using avl_tree.run_init_refines[of f d P_TREE_TYPE_AVL kd vd ops] assms by blast
  with avl_height[of "tree_root t"] show ?thesis
    by (simp add: new_full_simps tree_inv_def ztree_get_nnodes_def)
qed

theorem avl_tree_refines_map_witness:
  "\<exists>t0 t. ztree_new_full True P_TREE_TYPE_AVL (Some (\<lambda>a b (_::unit). a - b)) () False False = Some (AVLTree t0) \<and>
     tree_run t0 [Insert True (1::int) 10, Insert True 2 20, Insert True 3 30, Remove 2] = Some t \<and>
     inorder (tree_root t) = [(1, 10), (3, 30)]"
  using avl_tree_refines_map[OF compare_ok_diff, of "()" False False
      "[Insert True (1::int) 10, Insert True 2 20, Insert True 3 30, Remove 2]"]
  by auto

text \<open>
  C2: the same for a new red-black tree: no red node gets a red child, all paths keep the same
  number of black nodes, the root stays black, and the height is logarithmic.
\<close>

theorem rb_tree_refines_map:
  assumes "compare_ok (\<lambda>a b. f a b d)"
  shows "\<exists>t0 t. ztree_new_full True P_TREE_TYPE_RB (Some f) d kd vd = Some (RBTree t0) \<and>
     tree_run t0 ops = Some t \<and> rb_tree (tree_root t) \<and>
     inorder (tree_root t) = spec_run (\<lambda>a b. f a b d) [] ops \<and>
     ztree_get_nnodes (Some t) = of_nat (length (spec_run (\<lambda>a b. f a b d) [] ops)) \<and>
     2 ^ (theight (tree_root t) div 2) \<le> length (spec_run (\<lambda>a b. f a b d) [] ops) + 1"
proof -
  obtain t where "tree_run (tree_init ztree_rb_insert ztree_rb_remove P_TREE_TYPE_RB f d kd vd) ops = Some t"
    "tree_inv rb_tree t" "contents t = spec_run (\<lambda>a b. f a b d) [] ops"
    using rb_tree.run_init_refines[of f d P_TREE_TYPE_RB kd vd ops] assms by blast
  with rb_height[of "tree_root t"] show ?thesis
    by (simp add: new_full_simps tree_inv_def ztree_get_nnodes_def)
qed

theorem rb_tree_refines_map_witness:
  "\<exists>t0 t. ztree_new_full True P_TREE_TYPE_RB (Some (\<lambda>a b (_::unit). a - b)) () False False = Some (RBTree t0) \<and>
     tree_run t0 [Insert True (1::int) 10, Insert True 2 20, Insert False 3 30, Remove 1] = Some t \<and>
     inorder (tree_root t) = [(2, 20)]"
  using rb_tree_refines_map[OF compare_ok_diff, of "()" False False
      "[Insert True (1::int) 10, Insert True 2 20, Insert False 3 30, Remove 1]"]
  by auto

text \<open>
  The plain binary tree refines the ordered map as well (without a bound on the height).
\<close>

theorem bst_tree_refines_map:
  assumes "compare_ok (\<lambda>a b. f a b d)"
  shows "\<exists>t0 t. ztree_new_full True P_TREE_TYPE_BINARY (Some f) d kd vd = Some (BinaryTree t0) \<and>
     tree_run t0 ops = Some t \<and>
     inorder (tree_root t) = spec_run (\<lambda>a b. f a b d) [] ops \<and>
     ztree_get_nnodes (Some t) = of_nat (length (spec_run (\<lambda>a b. f a b d) [] ops))"
proof -
  obtain t where "tree_run (tree_init ztree_bst_insert ztree_bst_remove P_TREE_TYPE_BINARY f d kd vd) ops = Some t"
    "tree_inv (\<lambda>_. True) t" "contents t = spec_run (\<lambda>a b. f a b d) [] ops"
    using bst_tree.run_init_refines[of f d P_TREE_TYPE_BINARY kd vd ops] assms by blast
  then show ?thesis
    by (simp add: new_full_simps tree_inv_def ztree_get_nnodes_def)
qed

theorem bst_tree_refines_map_witness:
  "\<exists>t0 t. ztree_new_full True P_TREE_TYPE_BINARY (Some (\<lambda>a b (_::unit). a - b)) () True True = Some (BinaryTree t0) \<and>
     tree_run t0 [Insert True (5::int) 10, Insert True 2 20, Insert True 2 30, Remove 9] = Some t \<and>
     inorder (tree_root t) = [(2, 30), (5, 10)] \<and> ztree_get_nnodes (Some t) = 2"
  using bst_tree_refines_map[OF compare_ok_diff, of "()" True True
      "[Insert True (5::int) 10, Insert True 2 20, Insert True 2 30, Remove 9]"]
  by auto

text \<open>
  On an AVL tree, a lookup after \<^verbatim>\<open>ztree_insert\<close> returns the new value for every key
  that compares equal to the inserted one and the old answer for every other key.
\<close>

theorem avl_lookup_after_insert:
  assumes "compare_ok (tree_cmp t)" "tree_uses ztree_avl_insert ztree_avl_remove t" "tree_inv avl t"
  shows "\<exists>t' calls. ztree_insert True (Some t) k v = Some (Some t', calls) \<and>
     (\<forall>q. ztree_lookup (Some t') q = (if tree_cmp t q k = 0 then v else ztree_lookup (Some t) q))"
  using assms by (rule avl_tree.lookup_after_insert)

text \<open>A three-node tree for the examples: 2 at the root, 1 and 3 below.\<close>

definition sample_tree :: "int \<Rightarrow> 'x \<Rightarrow> 'x \<Rightarrow>
    (int, ppointer, unit, 'x) insert_fun \<Rightarrow> (int, ppointer, unit, 'x) remove_fun \<Rightarrow> (int, unit, 'x) PTree" where
  "sample_tree type x y ins rem =
     (tree_init ins rem type (\<lambda>a b _. a - b) () True True)
       \<lparr>tree_root := TNode (TNode Null 1 10 y Null) 2 20 x (TNode Null 3 30 y Null), nnodes := 3\<rparr>"

lemmas sample_simps = sample_tree_def tree_init_def tree_uses_def tree_inv_def
  compare_ok_diff sorted_keys_def

theorem avl_lookup_after_insert_witness:
  "\<exists>t' calls. ztree_insert True (Some (sample_tree 2 0 0 ztree_avl_insert ztree_avl_remove)) 4 40 =
     Some (Some t', calls) \<and> ztree_lookup (Some t') 4 = 40 \<and> ztree_lookup (Some t') 1 = 10"
  using avl_lookup_after_insert[of "sample_tree 2 0 0 ztree_avl_insert ztree_avl_remove" 4 40]
  by (auto simp: sample_simps bf_ok_def ztree_lookup_def)

text \<open>
  On a red-black tree, a lookup after \<^verbatim>\<open>ztree_remove\<close> returns \<^verbatim>\<open>NULL\<close> for every key
  that compares equal to the removed one and the old answer for every other key.
\<close>

theorem rb_lookup_after_remove:
  assumes "compare_ok (tree_cmp t)" "tree_uses ztree_rb_insert ztree_rb_remove t" "tree_inv rb_tree t"
  shows "\<exists>t' found calls. ztree_remove (Some t) k = Some (Some t', found, calls) \<and>
     (\<forall>q. ztree_lookup (Some t') q = (if tree_cmp t q k = 0 then NULL else ztree_lookup (Some t) q))"
  using assms by (rule rb_tree.lookup_after_remove)

theorem rb_lookup_after_remove_witness:
  "\<exists>t' found calls. ztree_remove (Some (sample_tree 1 BLACK RED ztree_rb_insert ztree_rb_remove)) 2 =
     Some (Some t', found, calls) \<and> ztree_lookup (Some t') 2 = NULL \<and> ztree_lookup (Some t') 3 = 30"
  using rb_lookup_after_remove[of "sample_tree 1 BLACK RED ztree_rb_insert ztree_rb_remove" 2]
  by (auto simp: sample_simps rb_tree_def ztree_lookup_def)

text \<open>
  A removal that finds a node with two children calls the destroy notifications on the key
  and the value of its in-order predecessor, whose pair stays in the tree, and not on the
  pair that leaves the tree: the container keeps a pointer that the caller was told is gone.
\<close>

theorem remove_destroys_predecessor:
  assumes "find_link (\<lambda>a b. cf a b d) key t [] = (TNode l k v x r, ps)" "l \<noteq> Null" "r \<noteq> Null"
  shows "\<exists>t' pk pv. (pk, pv) = last (inorder l) \<and>
     ztree_bst_remove cf d True True key t = Some (t', True, [KeyDestroy pk, ValueDestroy pv]) \<and>
     (pk, pv) \<in> set (inorder t')"
proof -
  obtain cur qs where ut: "unlink_target (TNode l k v x r) ps = (cur, qs)"
    by fastforce
  from ut assms(2,3) obtain pl pk pv px sub where l: "l = plug (TNode pl pk pv px Null) sub" "ctx_after sub = []"
    and cur: "cur = TNode pl pk pv px Null" "qs = sub @ InLeft pk pv x r # ps"
    by (cases rule: unlink_target_cases) auto
  have "last (inorder l) = (pk, pv)"
    using l by (simp add: cursor_simps)
  moreover have "ztree_bst_remove cf d True True key t =
      Some (plug (if pl = Null then Null else pl) qs, True, [KeyDestroy pk, ValueDestroy pv])"
    using assms(1) ut cur by (simp add: ztree_bst_remove_def destroy_pair_def)
  moreover have "(pk, pv) \<in> set (inorder (plug (if pl = Null then Null else pl) qs))"
    using cur by (simp add: cursor_simps)
  ultimately show ?thesis by auto
qed

theorem remove_destroys_predecessor_witness:
  "\<exists>t'. ztree_bst_remove (\<lambda>a b (_::unit). a - b) () True True (2::int)
     (TNode (TNode Null 1 (10::ppointer) () Null) 2 20 () (TNode Null 3 30 () Null)) =
       Some (t', True, [KeyDestroy 1, ValueDestroy 10]) \<and> (1, 10) \<in> set (inorder t')"
  using remove_destroys_predecessor[of "\<lambda>a b (_::unit). a - b" "()" "2::int"
      "TNode (TNode Null 1 (10::ppointer) () Null) 2 20 () (TNode Null 3 30 () Null)"
      "TNode Null 1 10 () Null" 2 20 "()" "TNode Null 3 30 () Null" "[]"]
  by auto

end
