(* ===== verification/PTree_Heap.thy ===== *)
theory PTree_Heap
  imports PTree_Base
begin

text \<open>
  The two walks of \<^verbatim>\<open>src/src/lib/ptree.c\<close> that rewire the tree: the Morris traversal
  \<^verbatim>\<open>ztree_foreach\<close>, which threads the rightmost node of every left subtree to its successor
  and takes the thread out again, and \<^verbatim>\<open>ztree_clear\<close>, which threads in the same way and
  frees the nodes as it goes. Both are modelled on an explicit heap of nodes, because the
  intermediate structures are graphs and not trees. A node of a \<open>tnode\<close> over addresses
  carries its own address as extension.
\<close>

section \<open>The heap of nodes\<close>

record 'k PTreeBaseNode =
  left :: ppointer
  right :: ppointer
  node_key :: 'k
  node_value :: ppointer

type_synonym 'k node_heap = "ppointer \<Rightarrow> 'k PTreeBaseNode option"
type_synonym 'k addr_tree = "('k, ppointer, ppointer) tnode"

text \<open>
  The loop \<^verbatim>\<open>while (prev_node->right != NULL && prev_node->right != cur_node)\<close>; \<open>None\<close> is a
  dereference of a pointer that is not a live node, or a loop that does not end.
\<close>

partial_function (option) find_prev :: "'k node_heap \<Rightarrow> ppointer \<Rightarrow> ppointer \<Rightarrow> ppointer option" where
  "find_prev h cur prev =
     (case h prev of
        None \<Rightarrow> None
      | Some n \<Rightarrow> (if right n \<noteq> NULL \<and> right n \<noteq> cur then find_prev h cur (right n) else Some prev))"

definition set_right :: "'k node_heap \<Rightarrow> ppointer \<Rightarrow> ppointer \<Rightarrow> 'k node_heap" where
  "set_right h p q = h(p := map_option (\<lambda>n. n\<lparr>right := q\<rparr>) (h p))"

definition set_left :: "'k node_heap \<Rightarrow> ppointer \<Rightarrow> ppointer \<Rightarrow> 'k node_heap" where
  "set_left h p q = h(p := map_option (\<lambda>n. n\<lparr>left := q\<rparr>) (h p))"

section \<open>ztree\_foreach\<close>

text \<open>
  The callback takes the user data and returns it changed, with \<^verbatim>\<open>TRUE\<close> to stop. After a
  stop the loop goes on without calls until no thread is left in the tree.
\<close>

definition visit :: "('k \<Rightarrow> ppointer \<Rightarrow> 'u \<Rightarrow> bool \<times> 'u) \<Rightarrow> 'k \<Rightarrow> ppointer \<Rightarrow> bool \<times> 'u \<Rightarrow> bool \<times> 'u" where
  "visit f k v s = (if fst s then s else f k v (snd s))"

partial_function (option) foreach_loop :: "('k \<Rightarrow> ppointer \<Rightarrow> 'u \<Rightarrow> bool \<times> 'u) \<Rightarrow>
    'k node_heap \<Rightarrow> ppointer \<Rightarrow> int \<Rightarrow> bool \<times> 'u \<Rightarrow> ('k node_heap \<times> bool \<times> 'u) option" where
  "foreach_loop f h cur mod_counter s =
     (if cur = NULL then Some (h, s)
      else case h cur of
        None \<Rightarrow> None
      | Some n \<Rightarrow>
          (if left n = NULL then
             foreach_loop f h (right n) mod_counter (visit f (node_key n) (node_value n) s)
           else
             (case find_prev h cur (left n) of
                None \<Rightarrow> None
              | Some prev \<Rightarrow>
                  (case h prev of
                     None \<Rightarrow> None
                   | Some pn \<Rightarrow>
                       (if right pn = NULL then
                          foreach_loop f (set_right h prev cur) (left n) (mod_counter + 1) s
                        else
                          (let s' = visit f (node_key n) (node_value n) s in
                           if fst s' \<and> mod_counter - 1 = 0 then Some (set_right h prev NULL, s')
                           else foreach_loop f (set_right h prev NULL) (right n) (mod_counter - 1) s'))))))"

definition ztree_foreach :: "'k node_heap \<Rightarrow> ppointer option \<Rightarrow> ('k \<Rightarrow> ppointer \<Rightarrow> 'u \<Rightarrow> bool \<times> 'u) option \<Rightarrow>
    'u \<Rightarrow> ('k node_heap \<times> 'u) option" where
  "ztree_foreach h tree traverse_func user_data =
     (case (tree, traverse_func) of
        (Some root, Some f) \<Rightarrow>
          (if root = NULL then Some (h, user_data)
           else map_option (\<lambda>(h', s). (h', snd s)) (foreach_loop f h root 0 (False, user_data)))
      | _ \<Rightarrow> Some (h, user_data))"

section \<open>ztree\_clear\<close>

partial_function (option) clear_find_prev :: "'k node_heap \<Rightarrow> ppointer \<Rightarrow> ppointer option" where
  "clear_find_prev h prev =
     (case h prev of
        None \<Rightarrow> None
      | Some n \<Rightarrow> (if right n \<noteq> NULL then clear_find_prev h (right n) else Some prev))"

text \<open>The state of the loop: heap, current node, node counter and destroy calls so far.\<close>

partial_function (option) clear_loop :: "bool \<Rightarrow> bool \<Rightarrow> 'k node_heap \<Rightarrow> ppointer \<Rightarrow> pint \<Rightarrow>
    ('k, ppointer) destroy_call list \<Rightarrow> ('k node_heap \<times> pint \<times> ('k, ppointer) destroy_call list) option" where
  "clear_loop key_destroy value_destroy h cur nnodes calls =
     (if cur = NULL then Some (h, nnodes, calls)
      else case h cur of
        None \<Rightarrow> None
      | Some n \<Rightarrow>
          (if left n = NULL then
             clear_loop key_destroy value_destroy (h(cur := None)) (right n) (nnodes - 1)
               (calls @ destroy_pair key_destroy value_destroy (node_key n) (node_value n))
           else
             (case clear_find_prev h (left n) of
                None \<Rightarrow> None
              | Some prev \<Rightarrow>
                  clear_loop key_destroy value_destroy
                    (set_left (set_right h prev cur) cur NULL) (left n) nnodes calls)))"

text \<open>
  The caller's \<^verbatim>\<open>tree\<close> is its root and node counter, or \<^verbatim>\<open>NULL\<close>. The results are the tree,
  the heap and the destroy calls after the function.
\<close>

definition ztree_clear :: "bool \<Rightarrow> bool \<Rightarrow> 'k node_heap \<Rightarrow> (ppointer \<times> pint) option \<Rightarrow>
    ((ppointer \<times> pint) option \<times> 'k node_heap \<times> ('k, ppointer) destroy_call list) option" where
  "ztree_clear key_destroy value_destroy h tree =
     (case tree of
        None \<Rightarrow> Some (tree, h, [])
      | Some (root, nnodes) \<Rightarrow>
          (if root = NULL then Some (tree, h, [])
           else map_option (\<lambda>(h', nnodes', calls). (Some (NULL, nnodes'), h', calls))
                  (clear_loop key_destroy value_destroy h root nnodes [])))"

text \<open>\<^verbatim>\<open>ztree_free\<close> clears the tree and gives its header back: no tree is left.\<close>

definition ztree_free :: "bool \<Rightarrow> bool \<Rightarrow> 'k node_heap \<Rightarrow> (ppointer \<times> pint) option \<Rightarrow>
    ((ppointer \<times> pint) option \<times> 'k node_heap \<times> ('k, ppointer) destroy_call list) option" where
  "ztree_free key_destroy value_destroy h tree =
     map_option (\<lambda>(_, h', calls). (None, h', calls)) (ztree_clear key_destroy value_destroy h tree)"

section \<open>Trees in the heap\<close>

fun addr :: "'k addr_tree \<Rightarrow> ppointer" where
  "addr Null = NULL"
| "addr (TNode l k v a r) = a"

fun addrs :: "'k addr_tree \<Rightarrow> ppointer list" where
  "addrs Null = []"
| "addrs (TNode l k v a r) = addrs l @ a # addrs r"

text \<open>
  \<open>tree_at h t q\<close>: the nodes of \<open>t\<close> are live in \<open>h\<close>, and the rightmost one points to \<open>q\<close>
  (\<^verbatim>\<open>NULL\<close>, or the successor it is threaded to).
\<close>

definition next_of :: "'k addr_tree \<Rightarrow> ppointer \<Rightarrow> ppointer" where
  "next_of t q = (if t = Null then q else addr t)"

fun tree_at :: "'k node_heap \<Rightarrow> 'k addr_tree \<Rightarrow> ppointer \<Rightarrow> bool" where
  "tree_at h Null q = True"
| "tree_at h (TNode l k v a r) q =
     (a \<noteq> NULL \<and> h a = Some \<lparr>left = addr l, right = next_of r q, node_key = k, node_value = v\<rparr> \<and>
      tree_at h l NULL \<and> tree_at h r q)"

fun last_addr :: "'k addr_tree \<Rightarrow> ppointer" where
  "last_addr Null = NULL"
| "last_addr (TNode l k v a r) = (if r = Null then a else last_addr r)"

lemma addr_neq_NULL: "tree_at h t q \<Longrightarrow> addr t = NULL \<longleftrightarrow> t = Null"
  by (cases t) auto

lemma NULL_notin_addrs: "tree_at h t q \<Longrightarrow> NULL \<notin> set (addrs t)"
  by (induction t arbitrary: q) auto

lemma last_addr_in: "t \<noteq> Null \<Longrightarrow> last_addr t \<in> set (addrs t)"
  by (induction t) auto

lemma tree_at_cong: "(\<And>a. a \<in> set (addrs t) \<Longrightarrow> h' a = h a) \<Longrightarrow> tree_at h' t q = tree_at h t q"
  by (induction t arbitrary: q) auto

lemma tree_at_live: "tree_at h t q \<Longrightarrow> a \<in> set (addrs t) \<Longrightarrow> h a \<noteq> None"
  by (induction t arbitrary: q) auto

lemma set_right_apply: "set_right h p q a = (if a = p then map_option (\<lambda>n. n\<lparr>right := q\<rparr>) (h p) else h a)"
  by (simp add: set_right_def)

lemma set_left_apply: "set_left h p q a = (if a = p then map_option (\<lambda>n. n\<lparr>left := q\<rparr>) (h p) else h a)"
  by (simp add: set_left_def)

text \<open>Writes outside a tree leave it alone.\<close>

lemma tree_at_frame [simp]:
  "p \<notin> set (addrs t) \<Longrightarrow> tree_at (set_right h p x) t q = tree_at h t q"
  "p \<notin> set (addrs t) \<Longrightarrow> tree_at (set_left h p x) t q = tree_at h t q"
  "p \<notin> set (addrs t) \<Longrightarrow> tree_at (h(p := y)) t q = tree_at h t q"
  by (auto intro!: tree_at_cong simp: set_right_apply set_left_apply)

text \<open>The rightmost node, the loop that finds it, and the thread written to it.\<close>

lemma last_addr_cell:
  "tree_at h t q \<Longrightarrow> t \<noteq> Null \<Longrightarrow> \<exists>n. h (last_addr t) = Some n \<and> right n = q"
  by (induction t) (auto simp: next_of_def)

lemma tree_at_thread:
  assumes "tree_at h t q" "distinct (addrs t)" "t \<noteq> Null"
  shows "tree_at (set_right h (last_addr t) q') t q'"
  using assms
proof (induction t arbitrary: q)
  case (TNode l k v a r)
  show ?case
  proof (cases "r = Null")
    case True
    with TNode.prems have "tree_at (set_right h a q') l NULL"
      "set_right h a q' a = Some \<lparr>left = addr l, right = q', node_key = k, node_value = v\<rparr>"
      by (simp_all add: set_right_def next_of_def)
    with True TNode.prems show ?thesis
      by (simp add: next_of_def)
  next
    case False
    with last_addr_in[of r] TNode.prems have "last_addr r \<notin> set (addrs l)" "last_addr r \<noteq> a"
      by auto
    with TNode.prems have "tree_at (set_right h (last_addr r) q') l NULL"
      "set_right h (last_addr r) q' a = h a"
      by (simp_all add: set_right_def)
    moreover have "tree_at (set_right h (last_addr r) q') r q'"
      using TNode.IH(2)[of q] TNode.prems False by simp
    ultimately show ?thesis
      using False TNode.prems by (simp add: next_of_def)
  qed
qed simp

lemma set_right_undo:
  "h p = Some n \<Longrightarrow> right n = q \<Longrightarrow> set_right (set_right h p x) p q = h"
  by (auto simp: set_right_def fun_eq_iff)

lemma find_prev_last:
  assumes "tree_at h t q" "t \<noteq> Null" "q = NULL \<or> q = cur" "cur \<notin> set (addrs t)"
  shows "find_prev h cur (addr t) = Some (last_addr t)"
  using assms
proof (induction t)
  case (TNode l k v a r)
  show ?case
  proof (cases "r = Null")
    case True
    with TNode.prems show ?thesis
      by (subst find_prev.simps) (auto simp: next_of_def)
  next
    case False
    then have "addr r \<noteq> NULL" "addr r \<noteq> cur"
      using TNode.prems by (cases r; auto)+
    with False TNode show ?thesis
      by (subst find_prev.simps) (simp add: next_of_def)
  qed
qed simp

lemma clear_find_prev_last:
  assumes "tree_at h t NULL" "t \<noteq> Null"
  shows "clear_find_prev h (addr t) = Some (last_addr t)"
  using assms
proof (induction t)
  case (TNode l k v a r)
  show ?case
  proof (cases "r = Null")
    case True
    with TNode.prems show ?thesis
      by (subst clear_find_prev.simps) (auto simp: next_of_def)
  next
    case False
    then have "addr r \<noteq> NULL"
      using TNode.prems by (cases r) auto
    with False TNode show ?thesis
      by (subst clear_find_prev.simps) (simp add: next_of_def)
  qed
qed simp

section \<open>The traversal visits the contents in order and restores the tree\<close>

definition visit_all :: "('k \<Rightarrow> ppointer \<Rightarrow> 'u \<Rightarrow> bool \<times> 'u) \<Rightarrow> ('k \<times> ppointer) list \<Rightarrow> bool \<times> 'u \<Rightarrow> bool \<times> 'u" where
  "visit_all f xs s = fold (\<lambda>(k, v). visit f k v) xs s"

lemma visit_all_simps [simp]:
  "visit_all f [] s = s"
  "visit_all f ((k, v) # xs) s = visit_all f xs (visit f k v s)"
  "visit_all f (xs @ ys) s = visit_all f ys (visit_all f xs s)"
  by (simp_all add: visit_all_def)

lemma visit_all_stopped: "fst s \<Longrightarrow> visit_all f xs s = s"
  by (induction xs) (auto simp: visit_def)

text \<open>One iteration of the loop, for each of the branches taken inside a tree.\<close>

lemma foreach_leftless:
  "h a = Some \<lparr>left = NULL, right = p, node_key = k, node_value = v\<rparr> \<Longrightarrow> a \<noteq> NULL \<Longrightarrow>
   foreach_loop f h a c s = foreach_loop f h p c (visit f k v s)"
  by (subst foreach_loop.simps) simp

lemma foreach_descend:
  assumes "h a = Some \<lparr>left = addr l, right = p, node_key = k, node_value = v\<rparr>" "a \<noteq> NULL"
    and "tree_at h l NULL" "l \<noteq> Null" "a \<notin> set (addrs l)"
  shows "foreach_loop f h a c s = foreach_loop f (set_right h (last_addr l) a) (addr l) (c + 1) s"
  using assms find_prev_last[OF assms(3,4), of a] last_addr_cell[OF assms(3,4)]
    addr_neq_NULL[OF assms(3)]
  by (subst foreach_loop.simps) auto

lemma foreach_return:
  assumes "h a = Some \<lparr>left = addr l, right = p, node_key = k, node_value = v\<rparr>" "a \<noteq> NULL"
    and "tree_at h l NULL" "l \<noteq> Null" "a \<notin> set (addrs l)" "distinct (addrs l)"
  shows "foreach_loop f (set_right h (last_addr l) a) a (c + 1) s =
     (if fst (visit f k v s) \<and> c = 0 then Some (h, visit f k v s)
      else foreach_loop f h p c (visit f k v s))"
proof -
  let ?h = "set_right h (last_addr l) a"
  have l: "tree_at ?h l a"
    using tree_at_thread[OF assms(3,6,4)] .
  have "last_addr l \<noteq> a"
    using last_addr_in[OF assms(4)] assms(5) by auto
  then have "?h a = h a"
    by (simp add: set_right_apply)
  moreover have "find_prev ?h a (addr l) = Some (last_addr l)"
    using find_prev_last[OF l assms(4)] assms(5) by simp
  moreover have "set_right ?h (last_addr l) NULL = h"
    using last_addr_cell[OF assms(3,4)] by (auto intro: set_right_undo)
  ultimately show ?thesis
    using last_addr_cell[OF l assms(4)] addr_neq_NULL[OF assms(3)] assms(1,2,4)
    by (subst foreach_loop.simps) (auto simp: Let_def)
qed

lemma foreach_walk:
  assumes "tree_at h t q" "distinct (addrs t)" "q \<notin> set (addrs t)" "0 \<le> c"
  shows "foreach_loop f h (next_of t q) c s = foreach_loop f h q c (visit_all f (inorder t) s) \<or>
     c = 0 \<and> fst (visit_all f (inorder t) s) \<and>
     foreach_loop f h (next_of t q) c s = Some (h, visit_all f (inorder t) s)"
  using assms
proof (induction t arbitrary: h q c s)
  case Null
  then show ?case by (simp add: next_of_def)
next
  case (TNode l k v a r)
  have a: "h a = Some \<lparr>left = addr l, right = next_of r q, node_key = k, node_value = v\<rparr>" "a \<noteq> NULL"
    and l: "tree_at h l NULL" "distinct (addrs l)" "a \<notin> set (addrs l)"
    and r: "tree_at h r q" "distinct (addrs r)" "q \<notin> set (addrs r)"
    using TNode.prems by auto
  show ?case
  proof (cases "l = Null")
    case True
    with foreach_leftless[of h a "next_of r q" k v f c s] a TNode.IH(2)[OF r TNode.prems(4)]
    show ?thesis by (simp add: next_of_def)
  next
    case False
    let ?s = "visit_all f (inorder l) s"
    have "foreach_loop f (set_right h (last_addr l) a) (addr l) (c + 1) s =
        foreach_loop f (set_right h (last_addr l) a) a (c + 1) ?s"
      using TNode.IH(1)[OF tree_at_thread[OF l(1,2) False] l(2,3), of "c + 1" s] TNode.prems(4) False
      by (simp add: next_of_def)
    then have "foreach_loop f h a c s =
        (if fst (visit f k v ?s) \<and> c = 0 then Some (h, visit f k v ?s)
         else foreach_loop f h (next_of r q) c (visit f k v ?s))"
      using foreach_descend[OF a l(1) False l(3), of f c s]
        foreach_return[OF a l(1) False l(3,2), of f c ?s] by simp
    then show ?thesis
      using TNode.IH(2)[OF r TNode.prems(4), of "visit f k v ?s"]
      by (auto simp: next_of_def visit_all_stopped split: if_splits)
  qed
qed

lemma foreach_loop_NULL: "foreach_loop f h NULL c s = Some (h, s)"
  by (subst foreach_loop.simps) simp

lemma foreach_loop_tree:
  assumes "tree_at h t NULL" "distinct (addrs t)"
  shows "foreach_loop f h (addr t) 0 s = Some (h, visit_all f (inorder t) s)"
  using foreach_walk[OF assms, of 0 f s] NULL_notin_addrs[OF assms(1)]
  by (auto simp: next_of_def foreach_loop_NULL split: if_splits)

section \<open>Clearing frees every node once\<close>

definition destroy_all :: "bool \<Rightarrow> bool \<Rightarrow> ('k \<times> ppointer) list \<Rightarrow> ('k, ppointer) destroy_call list" where
  "destroy_all key_destroy value_destroy xs =
     concat (map (\<lambda>(k, v). destroy_pair key_destroy value_destroy k v) xs)"

lemma destroy_all_simps [simp]:
  "destroy_all kd vd [] = []"
  "destroy_all kd vd ((k, v) # xs) = destroy_pair kd vd k v @ destroy_all kd vd xs"
  "destroy_all kd vd (xs @ ys) = destroy_all kd vd xs @ destroy_all kd vd ys"
  by (simp_all add: destroy_all_def)

lemma clear_leftless:
  "h a = Some \<lparr>left = NULL, right = p, node_key = k, node_value = v\<rparr> \<Longrightarrow> a \<noteq> NULL \<Longrightarrow>
   clear_loop kd vd h a n cs = clear_loop kd vd (h(a := None)) p (n - 1) (cs @ destroy_pair kd vd k v)"
  by (subst clear_loop.simps) simp

lemma clear_descend:
  assumes "h a = Some \<lparr>left = addr l, right = p, node_key = k, node_value = v\<rparr>" "a \<noteq> NULL"
    and "tree_at h l NULL" "l \<noteq> Null"
  shows "clear_loop kd vd h a n cs =
    clear_loop kd vd (set_left (set_right h (last_addr l) a) a NULL) (addr l) n cs"
  using assms clear_find_prev_last[OF assms(3,4)] addr_neq_NULL[OF assms(3)]
  by (subst clear_loop.simps) auto

lemma clear_walk:
  assumes "tree_at h t q" "distinct (addrs t)" "q \<notin> set (addrs t)"
  shows "clear_loop kd vd h (next_of t q) n cs =
    clear_loop kd vd (h |` (- set (addrs t))) q (n - of_nat (length (addrs t)))
      (cs @ destroy_all kd vd (inorder t))"
  using assms
proof (induction t arbitrary: h q n cs)
  case Null
  then show ?case by (simp add: next_of_def restrict_map_def)
next
  case (TNode l k v a r)
  have a: "h a = Some \<lparr>left = addr l, right = next_of r q, node_key = k, node_value = v\<rparr>" "a \<noteq> NULL"
    and l: "tree_at h l NULL" "distinct (addrs l)" "a \<notin> set (addrs l)"
    and r: "tree_at h r q" "distinct (addrs r)" "q \<notin> set (addrs r)"
    and disj: "set (addrs l) \<inter> set (addrs r) = {}" "a \<notin> set (addrs r)"
    using TNode.prems by auto
  let ?L = "h |` (- set (addrs l))" and ?n = "n - of_nat (length (addrs l))"
    and ?cs = "cs @ destroy_all kd vd (inorder l)"
  have root: "clear_loop kd vd h a n cs =
    clear_loop kd vd (?L(a := None)) (next_of r q) (?n - 1) (?cs @ destroy_pair kd vd k v)"
  proof (cases "l = Null")
    case True
    with clear_leftless[of h a "next_of r q" k v kd vd n cs] a show ?thesis
      by (simp add: restrict_map_def)
  next
    case False
    let ?h = "set_left (set_right h (last_addr l) a) a NULL"
    have last: "last_addr l \<in> set (addrs l)" "last_addr l \<noteq> a"
      using last_addr_in[OF False] l(3) by auto
    have "tree_at ?h l a"
      using tree_at_thread[OF l(1,2) False] l(3) by simp
    from TNode.IH(1)[OF this l(2,3), of n cs]
    have "clear_loop kd vd h a n cs = clear_loop kd vd (?h |` (- set (addrs l))) a ?n ?cs"
      using clear_descend[OF a l(1) False, of kd vd n cs] False by (simp add: next_of_def)
    moreover have "(?h |` (- set (addrs l))) a =
        Some \<lparr>left = NULL, right = next_of r q, node_key = k, node_value = v\<rparr>"
      using a last l(3) by (simp add: restrict_map_def set_left_apply set_right_apply)
    moreover have "(?h |` (- set (addrs l)))(a := None) = ?L(a := None)"
      using last by (auto simp: fun_eq_iff restrict_map_def set_left_apply set_right_apply)
    ultimately show ?thesis
      using clear_leftless a(2) by metis
  qed
  have "tree_at (?L(a := None)) r q"
    using r(1) disj by (subst tree_at_cong[of r _ h]) (auto simp: restrict_map_def)
  moreover have "(?L(a := None)) |` (- set (addrs r)) = h |` (- set (addrs (TNode l k v a r)))"
    by (auto simp: fun_eq_iff restrict_map_def)
  ultimately show ?case
    using root TNode.IH(2)[of "?L(a := None)" q "?n - 1" "?cs @ destroy_pair kd vd k v"] r
    by (simp add: next_of_def algebra_simps)
qed

lemma clear_loop_tree:
  assumes "tree_at h t NULL" "distinct (addrs t)"
  shows "clear_loop kd vd h (addr t) n [] =
    Some (h |` (- set (addrs t)), n - of_nat (length (addrs t)), destroy_all kd vd (inorder t))"
proof -
  have "clear_loop kd vd h (next_of t NULL) n [] =
    clear_loop kd vd (h |` (- set (addrs t))) NULL (n - of_nat (length (addrs t)))
      ([] @ destroy_all kd vd (inorder t))"
    using clear_walk[OF assms, of kd vd n "[]"] NULL_notin_addrs[OF assms(1)] by simp
  then show ?thesis
    by (cases t) (simp_all add: next_of_def clear_loop.simps[of _ _ _ NULL])
qed

section \<open>Properties of the walks\<close>

text \<open>
  C19: \<^verbatim>\<open>ztree_foreach\<close> terminates on every tree, calls the callback on the pairs in key order
  until it asks to stop and never again after, and leaves every node as it was: all
  threads that it wrote are taken out.
\<close>

theorem ztree_foreach_inorder:
  assumes "tree_at h t NULL" "distinct (addrs t)"
  shows "ztree_foreach h (Some (addr t)) (Some f) u = Some (h, snd (visit_all f (inorder t) (False, u)))"
proof (cases t)
  case Null
  then show ?thesis by (simp add: ztree_foreach_def)
next
  case (TNode l k v a r)
  with addr_neq_NULL[OF assms(1)] have "addr t \<noteq> NULL" by simp
  then show ?thesis
    using foreach_loop_tree[OF assms, of f "(False, u)"]
    by (simp add: ztree_foreach_def split_def)
qed

text \<open>Node 8 holds key 2; its children at 16 and 24 hold 1 and 3.\<close>

definition sample_nodes :: "int addr_tree" where
  "sample_nodes = TNode (TNode Null 1 10 16 Null) 2 20 8 (TNode Null 3 30 24 Null)"

definition sample_heap :: "int node_heap" where
  "sample_heap = [8 \<mapsto> \<lparr>left = 16, right = 24, node_key = 2, node_value = 20\<rparr>,
     16 \<mapsto> \<lparr>left = NULL, right = NULL, node_key = 1, node_value = 10\<rparr>,
     24 \<mapsto> \<lparr>left = NULL, right = NULL, node_key = 3, node_value = 30\<rparr>]"

lemma sample_heap_nodes: "tree_at sample_heap sample_nodes NULL" "distinct (addrs sample_nodes)"
  by (simp_all add: sample_heap_def sample_nodes_def next_of_def)

theorem ztree_foreach_inorder_witness:
  "ztree_foreach sample_heap (Some 8) (Some (\<lambda>k v u. (k = 2, u @ [k]))) [] = Some (sample_heap, [1, 2])"
  using ztree_foreach_inorder[OF sample_heap_nodes, of "\<lambda>k v u. (k = 2, u @ [k])" "[]"]
  by (simp add: sample_nodes_def visit_def)

text \<open>
  C20: \<^verbatim>\<open>ztree_clear\<close> terminates on every tree, never touches a node it has freed, frees every
  node and nothing else, calls the destroy notifications once on each pair in key order,
  resets the root and brings the counter down by the number of nodes.
\<close>

theorem ztree_clear_frees_all:
  assumes "tree_at h t NULL" "distinct (addrs t)"
  shows "ztree_clear kd vd h (Some (addr t, n)) =
    Some (Some (NULL, n - of_nat (length (inorder t))), h |` (- set (addrs t)), destroy_all kd vd (inorder t))"
proof -
  have len: "length (addrs t) = length (inorder t)"
    by (induction t) auto
  show ?thesis
  proof (cases t)
    case Null
    then show ?thesis by (simp add: ztree_clear_def restrict_map_def)
  next
    case (TNode l k v a r)
    with addr_neq_NULL[OF assms(1)] have "addr t \<noteq> NULL" by simp
    then show ?thesis
      using clear_loop_tree[OF assms, of kd vd n] by (simp add: ztree_clear_def len)
  qed
qed

theorem ztree_clear_frees_all_witness:
  "ztree_clear True False sample_heap (Some (8, 3)) =
    Some (Some (NULL, 0), Map.empty, [KeyDestroy 1, KeyDestroy 2, KeyDestroy 3])"
proof -
  have "sample_heap |` (- {16, 8, 24}) = Map.empty"
    by (auto simp: fun_eq_iff restrict_map_def sample_heap_def)
  then show ?thesis
    using ztree_clear_frees_all[OF sample_heap_nodes, of True False 3]
    by (simp add: sample_nodes_def destroy_pair_def)
qed

end
