(* ===== verification/PBytes.thy ===== *)
theory PBytes
  imports Plibsys_Prelude
begin

text \<open>
  Bytes and words in memory: reading a word from its bytes and writing it back in either
  byte order, the byte swapping macros of \<^verbatim>\<open>src/include/ptypes.h\<close>, and \<^verbatim>\<open>memcpy\<close> into a
  buffer. The byte order of the host (\<^verbatim>\<open>PLIBSYS_IS_BIGENDIAN\<close>) is the flag \<open>be\<close>.
\<close>

unbundle bit_operations_syntax

section \<open>Words and bytes\<close>

fun word_le :: "puchar list \<Rightarrow> 'w::len word" where
  "word_le [] = 0"
| "word_le (b # bs) = ucast b OR push_bit 8 (word_le bs)"

definition word_be :: "puchar list \<Rightarrow> 'w::len word" where
  "word_be bs = word_le (rev bs)"

fun bytes_le :: "nat \<Rightarrow> 'w::len word \<Rightarrow> puchar list" where
  "bytes_le 0 w = []"
| "bytes_le (Suc n) w = ucast w # bytes_le n (drop_bit 8 w)"

definition bytes_be :: "nat \<Rightarrow> 'w::len word \<Rightarrow> puchar list" where
  "bytes_be n w = rev (bytes_le n w)"

text \<open>The same in the byte order of the host: how a union of bytes and words is read and written.\<close>

definition word_host :: "bool \<Rightarrow> puchar list \<Rightarrow> 'w::len word" where
  "word_host be bs = (if be then word_be bs else word_le bs)"

definition bytes_host :: "bool \<Rightarrow> nat \<Rightarrow> 'w::len word \<Rightarrow> puchar list" where
  "bytes_host be n w = (if be then bytes_be n w else bytes_le n w)"

text \<open>An array of words over a buffer of bytes, each word of \<open>n\<close> bytes.\<close>

fun chunks :: "nat \<Rightarrow> 'a list \<Rightarrow> 'a list list" where
  "chunks n xs = (if 0 < n \<and> n \<le> length xs then take n xs # chunks n (drop n xs) else [])"

declare chunks.simps [simp del]

definition words_of :: "(puchar list \<Rightarrow> 'w::len word) \<Rightarrow> nat \<Rightarrow> puchar list \<Rightarrow> 'w word list" where
  "words_of rd n bs = map rd (chunks n bs)"

section \<open>The macros of ptypes.h\<close>

definition PUINT32_SWAP_BYTES :: "puint32 \<Rightarrow> puint32" where
  "PUINT32_SWAP_BYTES val =
     drop_bit 24 val OR
     (push_bit 8 val AND 0x00FF0000) OR
     (drop_bit 8 val AND 0x0000FF00) OR
     push_bit 24 val"

definition PUINT64_SWAP_BYTES :: "puint64 \<Rightarrow> puint64" where
  "PUINT64_SWAP_BYTES val =
     drop_bit 56 val OR
     (push_bit 40 val AND 0x00FF000000000000) OR
     (push_bit 24 val AND 0x0000FF0000000000) OR
     (push_bit 8 val AND 0x000000FF00000000) OR
     (drop_bit 8 val AND 0x00000000FF000000) OR
     (drop_bit 24 val AND 0x0000000000FF0000) OR
     (drop_bit 40 val AND 0x000000000000FF00) OR
     push_bit 56 val"

section \<open>Copying into a buffer\<close>

text \<open>A copy that runs past the end of the buffer shows as a longer list.\<close>

definition memcpy :: "'a list \<Rightarrow> nat \<Rightarrow> 'a list \<Rightarrow> 'a list" where
  "memcpy dst off src = take off dst @ src @ drop (off + length src) dst"

lemma length_memcpy [simp]: "off + length src \<le> length dst \<Longrightarrow> length (memcpy dst off src) = length dst"
  by (simp add: memcpy_def)

lemma take_memcpy [simp]:
  "off + length src \<le> length dst \<Longrightarrow> take (off + length src) (memcpy dst off src) = take off dst @ src"
  by (simp add: memcpy_def)

lemma memcpy_all: "length src = length dst \<Longrightarrow> memcpy dst 0 src = src"
  by (simp add: memcpy_def)

section \<open>Bits of words and bytes\<close>

lemma length_bytes_le [simp]: "length (bytes_le n w) = n"
  by (induction n arbitrary: w) simp_all

lemma length_bytes_be [simp]: "length (bytes_be n w) = n"
  by (simp add: bytes_be_def)

lemma length_bytes_host [simp]: "length (bytes_host be n w) = n"
  by (simp add: bytes_host_def)

lemma bit_word_le:
  "bit (word_le bs :: 'w::len word) n \<longleftrightarrow>
     n < LENGTH('w) \<and> n div 8 < length bs \<and> bit (bs ! (n div 8)) (n mod 8)"
proof (induction bs arbitrary: n)
  case (Cons b bs)
  show ?case
  proof (cases "n < 8")
    case True
    then show ?thesis by (auto simp: bit_simps)
  next
    case False
    then have "\<not> bit b n"
      by (metis bit_imp_le_length len_num0 len_num1 len_bit0 mult_2 one_add_one numeral_Bit0)
    moreover from False have "n div 8 = Suc ((n - 8) div 8)" "n mod 8 = (n - 8) mod 8"
      by (simp_all add: le_div_geq le_mod_geq)
    ultimately show ?thesis
      using False Cons.IH[of "n - 8"] by (auto simp: bit_simps)
  qed
qed simp

lemma bit_bytes_le:
  "i < n \<Longrightarrow> bit (bytes_le n w ! i) j \<longleftrightarrow> j < 8 \<and> bit w (8 * i + j)"
proof (induction n arbitrary: i w)
  case (Suc n)
  then show ?case
    by (cases i) (auto simp: bit_simps add.assoc)
qed simp

lemma word_le_bytes_le:
  assumes "LENGTH('w::len) = 8 * n"
  shows "word_le (bytes_le n w) = (w :: 'w word)"
proof (rule bit_word_eqI)
  fix m assume "m < LENGTH('w)"
  moreover from this assms have "m div 8 < n"
    by (simp add: div_less_iff_less_mult mult.commute)
  ultimately show "bit (word_le (bytes_le n w) :: 'w word) m \<longleftrightarrow> bit w m"
    by (simp add: bit_word_le bit_bytes_le)
qed

lemma bytes_le_word_le:
  assumes "8 * length bs \<le> LENGTH('w::len)"
  shows "bytes_le (length bs) (word_le bs :: 'w word) = bs"
proof (rule nth_equalityI)
  fix i assume "i < length (bytes_le (length bs) (word_le bs :: 'w word))"
  then have i: "i < length bs" by simp
  show "bytes_le (length bs) (word_le bs :: 'w word) ! i = bs ! i"
  proof (rule bit_word_eqI)
    fix j assume "j < LENGTH(8)"
    then have "j < 8" by simp
    moreover from this i assms have "8 * i + j < LENGTH('w)" by linarith
    ultimately show "bit (bytes_le (length bs) (word_le bs :: 'w word) ! i) j \<longleftrightarrow> bit (bs ! i) j"
      using i by (simp add: bit_bytes_le bit_word_le)
  qed
qed simp

lemma word_be_bytes_be:
  assumes "LENGTH('w::len) = 8 * n"
  shows "word_be (bytes_be n w) = (w :: 'w word)"
  using word_le_bytes_le[OF assms] by (simp add: word_be_def bytes_be_def)

lemma bytes_be_word_be:
  assumes "8 * length bs \<le> LENGTH('w::len)"
  shows "bytes_be (length bs) (word_be bs :: 'w word) = bs"
  using bytes_le_word_le[where 'w = 'w, of "rev bs"] assms by (simp add: word_be_def bytes_be_def)

lemma word_host_bytes_host:
  assumes "LENGTH('w::len) = 8 * n"
  shows "word_host be (bytes_host be n w) = (w :: 'w word)"
  using word_le_bytes_le[OF assms] word_be_bytes_be[OF assms] by (simp add: word_host_def bytes_host_def)

section \<open>The swaps reverse the bytes\<close>

text \<open>A word of four or eight bytes, spelled out by its bits.\<close>

lemma nat_less_32_cases:
  "(n::nat) < 32 \<Longrightarrow> P 0 \<Longrightarrow> P 1 \<Longrightarrow> P 2 \<Longrightarrow> P 3 \<Longrightarrow> P 4 \<Longrightarrow> P 5 \<Longrightarrow> P 6 \<Longrightarrow> P 7 \<Longrightarrow>
   P 8 \<Longrightarrow> P 9 \<Longrightarrow> P 10 \<Longrightarrow> P 11 \<Longrightarrow> P 12 \<Longrightarrow> P 13 \<Longrightarrow> P 14 \<Longrightarrow> P 15 \<Longrightarrow>
   P 16 \<Longrightarrow> P 17 \<Longrightarrow> P 18 \<Longrightarrow> P 19 \<Longrightarrow> P 20 \<Longrightarrow> P 21 \<Longrightarrow> P 22 \<Longrightarrow> P 23 \<Longrightarrow>
   P 24 \<Longrightarrow> P 25 \<Longrightarrow> P 26 \<Longrightarrow> P 27 \<Longrightarrow> P 28 \<Longrightarrow> P 29 \<Longrightarrow> P 30 \<Longrightarrow> P 31 \<Longrightarrow> P n"
  by (simp add: less_eq_Suc_le eval_nat_numeral le_Suc_eq) (elim disjE; simp)

lemma swap32_word_le: "length bs = 4 \<Longrightarrow> PUINT32_SWAP_BYTES (word_le bs) = word_be bs"
  apply (rule bit_word_eqI)
  apply (simp add: PUINT32_SWAP_BYTES_def word_be_def bit_simps bit_word_le rev_nth)
  subgoal for n
    by (rule nat_less_32_cases[of n]) (simp_all add: bit_simps)
  done

lemma swap64_word_le: "length bs = 8 \<Longrightarrow> PUINT64_SWAP_BYTES (word_le bs) = word_be bs"
  apply (rule bit_word_eqI)
  apply (simp add: PUINT64_SWAP_BYTES_def word_be_def bit_simps bit_word_le rev_nth)
  subgoal for n
    apply (cases "n < 32")
    subgoal by (rule nat_less_32_cases[of n]) (simp_all add: bit_simps)
    subgoal premises prems
    proof -
      obtain m where m: "n = 32 + m" "m < 32"
        using prems by (metis add_diff_inverse_nat less_diff_conv2 not_less numeral_Bit0 add_less_cancel_left)
      show ?thesis
        unfolding m(1) by (rule nat_less_32_cases[OF m(2)]) (simp_all add: bit_simps prems)
    qed
    done
  done

lemma swap32_word_be: "length bs = 4 \<Longrightarrow> PUINT32_SWAP_BYTES (word_be bs) = word_le bs"
  using swap32_word_le[of "rev bs"] by (simp add: word_be_def)

lemma swap64_word_be: "length bs = 8 \<Longrightarrow> PUINT64_SWAP_BYTES (word_be bs) = word_le bs"
  using swap64_word_le[of "rev bs"] by (simp add: word_be_def)

lemma swap32_bytes:
  "bytes_le 4 (PUINT32_SWAP_BYTES w) = bytes_be 4 w"
  "bytes_be 4 (PUINT32_SWAP_BYTES w) = bytes_le 4 w"
proof -
  have w: "word_le (bytes_le 4 w) = w" by (simp add: word_le_bytes_le)
  have "PUINT32_SWAP_BYTES w = word_be (bytes_le 4 w)"
    using swap32_word_le[of "bytes_le 4 w"] w by simp
  then show "bytes_le 4 (PUINT32_SWAP_BYTES w) = bytes_be 4 w"
    using bytes_le_word_le[where 'w = 32, of "rev (bytes_le 4 w)"]
    by (simp add: word_be_def bytes_be_def)
  then show "bytes_be 4 (PUINT32_SWAP_BYTES w) = bytes_le 4 w"
    by (simp add: bytes_be_def)
qed

lemma swap64_bytes:
  "bytes_le 8 (PUINT64_SWAP_BYTES w) = bytes_be 8 w"
  "bytes_be 8 (PUINT64_SWAP_BYTES w) = bytes_le 8 w"
proof -
  have w: "word_le (bytes_le 8 w) = w" by (simp add: word_le_bytes_le)
  have "PUINT64_SWAP_BYTES w = word_be (bytes_le 8 w)"
    using swap64_word_le[of "bytes_le 8 w"] w by simp
  then show "bytes_le 8 (PUINT64_SWAP_BYTES w) = bytes_be 8 w"
    using bytes_le_word_le[where 'w = 64, of "rev (bytes_le 8 w)"]
    by (simp add: word_be_def bytes_be_def)
  then show "bytes_be 8 (PUINT64_SWAP_BYTES w) = bytes_le 8 w"
    by (simp add: bytes_be_def)
qed

text \<open>
  The conversions \<^verbatim>\<open>PUINT32_TO_BE\<close> and its siblings, and what makes the hashes independent
  of the host: swapping host words to an order is reading or writing them in that order.
\<close>

definition PUINT32_TO_LE :: "bool \<Rightarrow> puint32 \<Rightarrow> puint32" where
  "PUINT32_TO_LE be val = (if be then PUINT32_SWAP_BYTES val else val)"

definition PUINT32_TO_BE :: "bool \<Rightarrow> puint32 \<Rightarrow> puint32" where
  "PUINT32_TO_BE be val = (if be then val else PUINT32_SWAP_BYTES val)"

definition PUINT64_TO_LE :: "bool \<Rightarrow> puint64 \<Rightarrow> puint64" where
  "PUINT64_TO_LE be val = (if be then PUINT64_SWAP_BYTES val else val)"

definition PUINT64_TO_BE :: "bool \<Rightarrow> puint64 \<Rightarrow> puint64" where
  "PUINT64_TO_BE be val = (if be then val else PUINT64_SWAP_BYTES val)"

lemmas order_defs = PUINT32_TO_LE_def PUINT32_TO_BE_def PUINT64_TO_LE_def PUINT64_TO_BE_def
  word_host_def bytes_host_def

lemma order_id [simp]:
  "PUINT32_TO_LE False = id" "PUINT32_TO_BE True = id" "PUINT64_TO_LE False = id" "PUINT64_TO_BE True = id"
  by (simp_all add: fun_eq_iff order_defs)

lemma order_of_host_word:
  "length bs = 4 \<Longrightarrow> PUINT32_TO_LE be (word_host be bs) = word_le bs"
  "length bs = 4 \<Longrightarrow> PUINT32_TO_BE be (word_host be bs) = word_be bs"
  "length bs = 8 \<Longrightarrow> PUINT64_TO_LE be (word_host be bs) = word_le bs"
  "length bs = 8 \<Longrightarrow> PUINT64_TO_BE be (word_host be bs) = word_be bs"
  by (simp_all add: order_defs swap32_word_le swap32_word_be swap64_word_le swap64_word_be)

lemma host_bytes_of_order:
  "bytes_host be 4 (PUINT32_TO_LE be w) = bytes_le 4 w"
  "bytes_host be 4 (PUINT32_TO_BE be w) = bytes_be 4 w"
  "bytes_host be 8 (PUINT64_TO_LE be v) = bytes_le 8 v"
  "bytes_host be 8 (PUINT64_TO_BE be v) = bytes_be 8 v"
  by (simp_all add: order_defs swap32_bytes swap64_bytes)

section \<open>Arrays of words over bytes\<close>

lemma chunks_less: "length xs < n \<Longrightarrow> chunks n xs = []"
  by (subst chunks.simps) simp

lemma chunks_append: "length xs = n \<Longrightarrow> 0 < n \<Longrightarrow> chunks n (xs @ ys) = xs # chunks n ys"
  by (subst chunks.simps) simp

lemma chunks_concat:
  "0 < n \<Longrightarrow> \<forall>xs \<in> set xss. length xs = n \<Longrightarrow> chunks n (concat xss) = xss"
  by (induction xss) (auto simp: chunks_less chunks_append)

lemma length_in_chunks: "xs \<in> set (chunks n ys) \<Longrightarrow> length xs = n"
  by (induction n ys rule: chunks.induct) (subst (asm) chunks.simps, auto split: if_splits)

lemma length_chunks: "length (chunks n xs) = length xs div n"
proof (induction n xs rule: chunks.induct)
  case (1 n xs)
  then show ?case
    by (subst chunks.simps) (auto simp: le_div_geq not_le)
qed

lemma chunks_append_mult:
  assumes "0 < n" "n dvd length xs"
  shows "chunks n (xs @ ys) = chunks n xs @ chunks n ys"
  using assms
proof (induction n xs rule: chunks.induct)
  case (1 n xs)
  show ?case
  proof (cases "xs = []")
    case True
    with 1 show ?thesis by (simp add: chunks_less)
  next
    case False
    with 1 have le: "n \<le> length xs" by (auto dest: dvd_imp_le)
    with 1 have "chunks n (drop n xs @ ys) = chunks n (drop n xs) @ chunks n ys"
      by (simp add: dvd_diff_nat)
    with le 1(2) show ?thesis
      by (subst (1 2) chunks.simps) simp
  qed
qed

lemma take_concat_chunks:
  "(\<And>x. x \<in> set xs \<Longrightarrow> length (f x) = w) \<Longrightarrow> take (w * n) (concat (map f xs)) = concat (map f (take n xs))"
proof (induction xs arbitrary: n)
  case (Cons x xs)
  then show ?case by (cases n) simp_all
qed simp

lemma length_words_of [simp]: "length (words_of rd n bs) = length bs div n"
  by (simp add: words_of_def length_chunks)

lemma words_of_append:
  "0 < n \<Longrightarrow> n dvd length xs \<Longrightarrow> words_of rd n (xs @ ys) = words_of rd n xs @ words_of rd n ys"
  by (simp add: words_of_def chunks_append_mult)

lemma words_of_one: "0 < n \<Longrightarrow> length bs = n \<Longrightarrow> words_of rd n bs = [rd bs]"
  using chunks_append[of bs n "[]"] by (simp add: words_of_def chunks_less)

lemma map_words_of:
  assumes "\<And>bs. length bs = n \<Longrightarrow> f (rd bs) = rd' bs"
  shows "map f (words_of rd n bs) = words_of rd' n bs"
  using assms length_in_chunks[of _ n bs] by (auto simp: words_of_def)

lemma take_words_of:
  assumes "0 < n" "j * n \<le> length bs"
  shows "take j (words_of rd n bs) = words_of rd n (take (j * n) bs)"
proof -
  have "words_of rd n bs = words_of rd n (take (j * n) bs) @ words_of rd n (drop (j * n) bs)"
    using assms words_of_append[of n "take (j * n) bs" rd "drop (j * n) bs"] by simp
  with assms show ?thesis by simp
qed

section \<open>Rotations\<close>

lemma rotl_shifts:
  fixes val :: "'w::len word"
  assumes "s < LENGTH('w)"
  shows "push_bit s val OR drop_bit (LENGTH('w) - s) val = word_rotl s val"
proof (rule bit_word_eqI)
  fix n assume n: "n < LENGTH('w)"
  have idx: "(n + LENGTH('w) - s) mod LENGTH('w) = (if s \<le> n then n - s else n + LENGTH('w) - s)"
    using n assms by (auto simp: le_mod_geq)
  have "\<not> bit val (LENGTH('w) + n - s)" if "s \<le> n"
    using that n assms by (intro notI) (auto dest!: bit_imp_le_length)
  with n assms show "bit (push_bit s val OR drop_bit (LENGTH('w) - s) val) n = bit (word_rotl s val) n"
    by (auto simp: bit_simps idx add.commute)
qed

lemma word_rotl_0 [simp]: "word_rotl 0 (w :: 'w::len word) = w"
  by (rule bit_word_eqI) (simp add: bit_simps)

lemma rotr_shifts:
  fixes val :: "'w::len word"
  assumes "s < LENGTH('w)"
  shows "drop_bit s val OR push_bit (LENGTH('w) - s) val = word_rotr s val"
proof (rule bit_word_eqI)
  fix n assume n: "n < LENGTH('w)"
  have idx: "(n + s) mod LENGTH('w) = (if n + s < LENGTH('w) then n + s else n + s - LENGTH('w))"
    using n assms by (auto simp: le_mod_geq)
  have "\<not> bit val (s + n)" if "LENGTH('w) \<le> n + s"
    using that by (intro notI) (auto dest!: bit_imp_le_length)
  with n assms show "bit (drop_bit s val OR push_bit (LENGTH('w) - s) val) n = bit (word_rotr s val) n"
    by (auto simp: bit_simps idx add.commute)
qed

end
