(* ===== verification/Hash_Block.thy ===== *)
theory Hash_Block
  imports PBytes
begin

text \<open>
  The block machinery that \<^verbatim>\<open>pcryptohash-md5.c\<close>, \<^verbatim>\<open>pcryptohash-sha1.c\<close>,
  \<^verbatim>\<open>pcryptohash-sha2-256.c\<close> and \<^verbatim>\<open>pcryptohash-sha2-512.c\<close> repeat with other names: a buffer
  of one block, a two-word byte counter, an update that processes whole blocks, and a finish
  that pads. The parameters are the block size, the byte-swapping routine and the
  compression function. The locale \<open>md_hash\<close> states what a hash has to provide and proves
  that feeding a message in pieces is hashing it in one go, on hosts of either byte order.
\<close>

section \<open>Context and operations\<close>

record 'a md_ctx =
  buf :: "puchar list"
  hash :: "'a list"
  len_high :: 'a
  len_low :: 'a

text \<open>
  \<open>swazbytes ws n\<close> converts the first \<open>n\<close> words of an array in place; \<open>process h ws\<close> is
  the hash array after compressing the block \<open>ws\<close>.
\<close>

type_synonym 'w swaz_fun = "'w word list \<Rightarrow> nat \<Rightarrow> 'w word list"
type_synonym 'w process_fun = "'w word list \<Rightarrow> 'w word list \<Rightarrow> 'w word list"

definition buf_w :: "bool \<Rightarrow> puchar list \<Rightarrow> 'w::len word list" where
  "buf_w be bs = words_of (word_host be) (LENGTH('w) div 8) bs"

definition store_w :: "bool \<Rightarrow> 'w::len word list \<Rightarrow> puchar list" where
  "store_w be ws = concat (map (bytes_host be (LENGTH('w) div 8)) ws)"

text \<open>The pair of calls \<^verbatim>\<open>swazbytes (buf_w, 16); process (ctx, buf_w)\<close> on a full buffer.\<close>

definition md_block :: "bool \<Rightarrow> 'w::len swaz_fun \<Rightarrow> 'w process_fun \<Rightarrow> ('w word, 'z) md_ctx_scheme \<Rightarrow>
    ('w word, 'z) md_ctx_scheme" where
  "md_block be swazbytes process ctx =
     (let w = swazbytes (buf_w be (buf ctx)) 16
      in ctx\<lparr>buf := store_w be w, hash := process (hash ctx) w\<rparr>)"

text \<open>The loop \<^verbatim>\<open>while (len >= 64)\<close> over whole blocks; \<open>data\<close> is the rest of the input.\<close>

fun md_blocks :: "nat \<Rightarrow> (('w::len word, 'z) md_ctx_scheme \<Rightarrow> ('w word, 'z) md_ctx_scheme) \<Rightarrow>
    ('w word, 'z) md_ctx_scheme \<Rightarrow> puchar list \<Rightarrow> ('w word, 'z) md_ctx_scheme \<times> puchar list" where
  "md_blocks B block ctx data =
     (if 0 < B \<and> B \<le> length data
      then md_blocks B block (block (ctx\<lparr>buf := memcpy (buf ctx) 0 (take B data)\<rparr>)) (drop B data)
      else (ctx, data))"

declare md_blocks.simps [simp del]

text \<open>
  The update. The cast \<^verbatim>\<open>(puint32) len\<close> (\<^verbatim>\<open>(puint64) len\<close> for SHA-512) is \<open>len\<close>, the
  length at the width of the counter words.
\<close>

definition md_left :: "nat \<Rightarrow> ('w::len word, 'z) md_ctx_scheme \<Rightarrow> nat" where
  "md_left B ctx = unat (len_low ctx AND of_nat (B - 1))"

definition md_count_add :: "('w::len word, 'z) md_ctx_scheme \<Rightarrow> 'w word \<Rightarrow> ('w word, 'z) md_ctx_scheme" where
  "md_count_add ctx len =
     (let ctx1 = ctx\<lparr>len_low := len_low ctx + len\<rparr>
      in if len_low ctx1 < len then ctx1\<lparr>len_high := len_high ctx1 + 1\<rparr> else ctx1)"

definition md_fill :: "nat \<Rightarrow> (('w::len word, 'z) md_ctx_scheme \<Rightarrow> ('w word, 'z) md_ctx_scheme) \<Rightarrow>
    ('w word, 'z) md_ctx_scheme \<Rightarrow> puchar list \<Rightarrow> nat \<Rightarrow> ('w word, 'z) md_ctx_scheme \<times> puchar list \<times> nat" where
  "md_fill B block ctx data left =
     (let to_fill = B - left
      in if left \<noteq> 0 \<and> of_nat to_fill \<le> (of_nat (length data) :: 'w word)
         then (block (ctx\<lparr>buf := memcpy (buf ctx) left (take to_fill data)\<rparr>), drop to_fill data, 0)
         else (ctx, data, left))"

definition md_update :: "nat \<Rightarrow> (('w::len word, 'z) md_ctx_scheme \<Rightarrow> ('w word, 'z) md_ctx_scheme) \<Rightarrow>
    ('w word, 'z) md_ctx_scheme \<Rightarrow> puchar list \<Rightarrow> ('w word, 'z) md_ctx_scheme" where
  "md_update B block ctx data =
     (let (ctx3, data3, left3) =
            md_fill B block (md_count_add ctx (of_nat (length data))) data (md_left B ctx);
          (ctx4, data4) = md_blocks B block ctx3 data3
      in if data4 \<noteq> [] then ctx4\<lparr>buf := memcpy (buf ctx4) left3 data4\<rparr> else ctx4)"

text \<open>
  The finish: \<open>P\<close> is where the length goes (56 of 64, 112 of 128), \<open>order high low\<close> the
  two length words in the order of the algorithm, \<open>n\<close> the number of hash words swapped.
\<close>

definition md_finish :: "bool \<Rightarrow> nat \<Rightarrow> nat \<Rightarrow> 'w::len swaz_fun \<Rightarrow> 'w process_fun \<Rightarrow>
    ('w word \<Rightarrow> 'w word \<Rightarrow> 'w word list) \<Rightarrow> nat \<Rightarrow> puchar list \<Rightarrow>
    ('w word, 'z) md_ctx_scheme \<Rightarrow> ('w word, 'z) md_ctx_scheme" where
  "md_finish be B P swazbytes process order n pad ctx =
     (let left = md_left B ctx;
          last = (if left < P then P - left else B + P - left);
          low = push_bit 3 (len_low ctx);
          high = push_bit 3 (len_high ctx) OR drop_bit (LENGTH('w) - 3) (len_low ctx);
          ctx1 = (if 0 < last then md_update B (md_block be swazbytes process) ctx (take last pad) else ctx);
          w = swazbytes (take 14 (buf_w be (buf ctx1)) @ order high low) 14
      in ctx1\<lparr>buf := store_w be w, hash := swazbytes (process (hash ctx1) w) n\<rparr>)"

definition md_digest :: "bool \<Rightarrow> ('w::len word, 'z) md_ctx_scheme \<Rightarrow> puchar list" where
  "md_digest be ctx = store_w be (hash ctx)"

definition md_pad :: "nat \<Rightarrow> puchar list" where
  "md_pad B = 0x80 # replicate (B - 1) 0"

lemma digest_prefix:
  fixes h :: "'w::len word list"
  assumes "n \<le> length h"
    and "\<And>w :: 'w word. bytes_host be (LENGTH('w) div 8) (to_order w) = bytes w"
  shows "take (LENGTH('w) div 8 * n) (store_w be (map to_order (take n h) @ drop n h)) =
    take (LENGTH('w) div 8 * n) (concat (map bytes h))"
proof -
  have len: "length (bytes w) = LENGTH('w) div 8" for w :: "'w word"
    using assms(2)[of w] by (metis length_bytes_host)
  then have "length (concat (map bytes (take n h))) = LENGTH('w) div 8 * n"
    using assms(1) by (simp add: length_concat o_def sum_list_triv mult.commute)
  then show ?thesis
    using take_concat_chunks[of h bytes "LENGTH('w) div 8" n] len
    by (simp add: store_w_def assms(2) o_def)
qed

section \<open>The specification\<close>

text \<open>
  \<open>absorb\<close> compresses the whole blocks of a message and returns the rest, \<open>md_message\<close> is
  the padded message, its length in bits at the end.
\<close>

fun absorb :: "nat \<Rightarrow> ('h \<Rightarrow> puchar list \<Rightarrow> 'h) \<Rightarrow> 'h \<Rightarrow> puchar list \<Rightarrow> 'h \<times> puchar list" where
  "absorb B f h m = (if 0 < B \<and> B \<le> length m then absorb B f (f h (take B m)) (drop B m) else (h, m))"

declare absorb.simps [simp del]

definition md_zeros :: "nat \<Rightarrow> nat \<Rightarrow> nat \<Rightarrow> nat" where
  "md_zeros B P n = (if n mod B < P then P - n mod B else B + P - n mod B) - 1"

text \<open>\<open>enc high low\<close> are the bytes of the two words of the bit length.\<close>

definition md_message :: "nat \<Rightarrow> nat \<Rightarrow> ('w::len word \<Rightarrow> 'w word \<Rightarrow> puchar list) \<Rightarrow> puchar list \<Rightarrow> puchar list" where
  "md_message B P enc m = m @ 0x80 # replicate (md_zeros B P (length m)) 0 @
     enc (of_nat (8 * length m div 2 ^ LENGTH('w))) (of_nat (8 * length m))"

definition md_spec :: "nat \<Rightarrow> nat \<Rightarrow> ('h \<Rightarrow> puchar list \<Rightarrow> 'h) \<Rightarrow>
    ('w::len word \<Rightarrow> 'w word \<Rightarrow> puchar list) \<Rightarrow> 'h \<Rightarrow> puchar list \<Rightarrow> 'h" where
  "md_spec B P blk enc h0 m = fst (absorb B blk h0 (md_message B P enc m))"

lemma absorb_less: "length m < B \<Longrightarrow> absorb B f h m = (h, m)"
  by (subst absorb.simps) simp

lemma absorb_step: "length b = B \<Longrightarrow> 0 < B \<Longrightarrow> absorb B f h (b @ m) = absorb B f (f h b) m"
  by (subst absorb.simps) simp

lemma md_spec_one:
  "length (md_message B P enc m) = B \<Longrightarrow> 0 < B \<Longrightarrow>
   md_spec B P blk enc h m = blk h (md_message B P enc m)"
  using absorb_step[of "md_message B P enc m" B blk h "[]"] by (simp add: md_spec_def absorb_less)

lemma absorb_append:
  "absorb B f h (m @ d) = (case absorb B f h m of (h', t) \<Rightarrow> absorb B f h' (t @ d))"
proof (induction B f h m rule: absorb.induct)
  case (1 B f h m)
  show ?case
  proof (cases "0 < B \<and> B \<le> length m")
    case True
    with 1 show ?thesis by (subst (1 2) absorb.simps) simp
  next
    case False
    then have "absorb B f h m = (h, m)" by (subst absorb.simps) auto
    then show ?thesis by simp
  qed
qed

lemma absorb_inv: "I h \<Longrightarrow> (\<And>h b. I h \<Longrightarrow> I (f h b)) \<Longrightarrow> I (fst (absorb B f h m))"
proof (induction B f h m rule: absorb.induct)
  case (1 B f h m)
  then show ?case by (subst absorb.simps) simp
qed

lemma length_absorb_tail:
  assumes "0 < B" "absorb B f h m = (h', t)"
  shows "length t = length m mod B"
  using assms
proof (induction B f h m rule: absorb.induct)
  case (1 B f h m)
  then show ?case
    by (cases "B \<le> length m") (simp_all add: absorb.simps[of B f h m] le_mod_geq)
qed

section \<open>The contract of a compression function\<close>

text \<open>
  \<open>process\<close> after \<open>swazbytes\<close> on a buffer of the host is the block function \<open>blk\<close> on
  its bytes, whatever the byte order; the counter is wide enough for its mask.
\<close>

definition md_shape :: "nat \<Rightarrow> ('w::len word, 'z) md_ctx_scheme \<Rightarrow> bool" where
  "md_shape B ctx \<longleftrightarrow> length (buf ctx) = B"

definition md_count :: "('w::len word, 'z) md_ctx_scheme \<Rightarrow> nat \<Rightarrow> bool" where
  "md_count ctx n \<longleftrightarrow> len_low ctx = of_nat n \<and> len_high ctx = of_nat (n div 2 ^ LENGTH('w))"

locale md_hash =
  fixes be :: bool and B k :: nat
    and swazbytes :: "'w::len swaz_fun" and process :: "'w process_fun"
    and blk :: "'w word list \<Rightarrow> puchar list \<Rightarrow> 'w word list"
  assumes B_power: "B = 2 ^ k" and B_fits: "k < LENGTH('w)"
    and B_words: "B = 16 * (LENGTH('w) div 8)"
    and length_swazbytes: "length (swazbytes ws n) = length ws"
    and process_blk: "length bs = B \<Longrightarrow> process h (swazbytes (buf_w be bs) 16) = blk h bs"
begin

abbreviation block :: "('w word, 'z) md_ctx_scheme \<Rightarrow> ('w word, 'z) md_ctx_scheme" where
  "block \<equiv> md_block be swazbytes process"

lemma B_pos: "0 < B"
  by (simp add: B_power)

lemma block_spec:
  assumes "md_shape B ctx"
  shows "hash (block ctx) = blk (hash ctx) (buf ctx)" "md_shape B (block ctx)"
    "len_low (block ctx) = len_low ctx" "len_high (block ctx) = len_high ctx"
    "md_ctx.more (block ctx) = md_ctx.more ctx"
proof -
  have wb: "0 < LENGTH('w) div 8" using B_pos B_words by simp
  have "length (store_w be ws) = length ws * (LENGTH('w) div 8)" for ws :: "'w word list"
    by (simp add: store_w_def length_concat o_def sum_list_triv)
  moreover have "length (buf_w be (buf ctx) :: 'w word list) = 16"
    using assms wb B_words by (simp add: buf_w_def md_shape_def)
  ultimately show "md_shape B (block ctx)"
    using B_words by (simp add: md_block_def md_shape_def Let_def length_swazbytes)
qed (use assms in \<open>simp_all add: md_block_def md_shape_def Let_def process_blk\<close>)

lemma blocks_spec:
  assumes "md_shape B ctx" "md_blocks B block ctx data = (ctx', rest)"
  shows "absorb B blk (hash ctx) data = (hash ctx', rest) \<and> md_shape B ctx' \<and>
    len_low ctx' = len_low ctx \<and> len_high ctx' = len_high ctx \<and>
    md_ctx.more ctx' = md_ctx.more ctx \<and> (length data < B \<longrightarrow> ctx' = ctx)"
  using assms
proof (induction data arbitrary: ctx rule: length_induct)
  case (1 data)
  show ?case
  proof (cases "B \<le> length data")
    case True
    let ?c = "ctx\<lparr>buf := memcpy (buf ctx) 0 (take B data)\<rparr>"
    have c: "md_shape B ?c" "buf ?c = take B data"
      using True "1.prems"(1) by (simp_all add: md_shape_def memcpy_all)
    have "md_blocks B block (block ?c) (drop B data) = (ctx', rest)"
      using "1.prems"(2) True B_pos by (subst (asm) md_blocks.simps) simp
    with "1.IH" True B_pos block_spec(2)[OF c(1)]
    have "absorb B blk (hash (block ?c)) (drop B data) = (hash ctx', rest) \<and> md_shape B ctx' \<and>
      len_low ctx' = len_low (block ?c) \<and> len_high ctx' = len_high (block ?c) \<and>
      md_ctx.more ctx' = md_ctx.more (block ?c)"
      by (auto dest!: spec[of _ "drop B data"])
    then show ?thesis
      using True B_pos block_spec[OF c(1)] c(2) by (subst absorb.simps) simp
  next
    case False
    with "1.prems" show ?thesis
      by (subst absorb.simps) (auto simp: md_blocks.simps[of B])
  qed
qed

lemma left_mod:
  fixes ctx :: "('w word, 'z) md_ctx_scheme"
  assumes "md_count ctx n"
  shows "md_left B ctx = n mod B"
proof -
  have "of_nat (B - 1) = (mask k :: 'w word)"
    using B_power by (simp add: mask_eq_exp_minus_1 of_nat_diff)
  moreover have "unat (take_bit k (of_nat n :: 'w word)) = n mod 2 ^ k"
    unfolding unsigned_take_bit_eq
    using B_fits by (simp add: unsigned_of_nat take_bit_eq_mod mod_mod_cancel le_imp_power_dvd)
  ultimately show ?thesis
    using assms B_power by (simp add: md_left_def md_count_def take_bit_eq_mask)
qed

lemma count_add:
  fixes ctx :: "('w word, 'z) md_ctx_scheme"
  assumes "md_count ctx n" "d < 2 ^ LENGTH('w)"
  shows "md_count (md_count_add ctx (of_nat d)) (n + d)"
proof -
  let ?W = "2 ^ LENGTH('w) :: nat"
  have carry: "of_nat (n + d) < (of_nat d :: 'w word) \<longleftrightarrow> (n + d) mod ?W < d"
    using assms(2) by (simp add: word_less_nat_alt unsigned_of_nat take_bit_eq_mod del: of_nat_add)
  note div_add_carry[OF assms(2), of n]
  with assms(1) carry show ?thesis
    by (simp add: md_count_add_def md_count_def Let_def)
qed

lemma count_add_same [simp]:
  "buf (md_count_add ctx len) = buf ctx" "hash (md_count_add ctx len) = hash ctx"
  "md_shape b (md_count_add ctx len) = md_shape b ctx"
  "md_ctx.more (md_count_add ctx len) = md_ctx.more ctx"
  by (simp_all add: md_count_add_def md_shape_def Let_def)

text \<open>The context represents a message: whole blocks in the hash, the rest in the buffer.\<close>

definition md_rep :: "'w word list \<Rightarrow> ('w word, 'z) md_ctx_scheme \<Rightarrow> puchar list \<Rightarrow> bool" where
  "md_rep h0 ctx m \<longleftrightarrow> md_shape B ctx \<and> md_count ctx (length m) \<and>
     absorb B blk h0 m = (hash ctx, take (length m mod B) (buf ctx))"

text \<open>
  The stages of the update after the counter: filling a started block, then whole blocks
  from the input and the copy of the rest.
\<close>

lemma fill_stage:
  assumes "md_shape B ctx" "left < B" "length data < 2 ^ LENGTH('w)"
    and "md_fill B block ctx data left = (ctx', data', left')"
  shows "absorb B blk (hash ctx) (take left (buf ctx) @ data) =
      absorb B blk (hash ctx') (take left' (buf ctx') @ data')"
    and "md_shape B ctx'" "len_low ctx' = len_low ctx" "len_high ctx' = len_high ctx"
    and "left' = 0 \<or> left' + length data' < B" "left' < B"
    and "(left' + length data') mod B = (left + length data) mod B"
    and "length data' \<le> length data"
    and "md_ctx.more ctx' = md_ctx.more ctx"
proof -
  let ?full = "left \<noteq> 0 \<and> B - left \<le> length data"
  let ?c = "ctx\<lparr>buf := memcpy (buf ctx) left (take (B - left) data)\<rparr>"
  have "B < 2 ^ LENGTH('w)" using B_power B_fits by simp
  then have "of_nat (B - left) \<le> (of_nat (length data) :: 'w word) \<longleftrightarrow> B - left \<le> length data"
    using assms(3) by (simp add: take_bit_eq_mod word_le_nat_alt unsigned_of_nat)
  then have res: "(ctx', data', left') = (if ?full then (block ?c, drop (B - left) data, 0) else (ctx, data, left))"
    using assms(4) by (simp add: md_fill_def Let_def)
  have c: "md_shape B ?c" "buf ?c = take left (buf ctx) @ take (B - left) data" "hash ?c = hash ctx" if ?full
    using that assms(1,2) by (simp_all add: md_shape_def memcpy_def)
  have "absorb B blk (hash ctx) (take left (buf ctx) @ data) =
      absorb B blk (blk (hash ctx) (buf ?c)) (drop (B - left) data)" if ?full
    using absorb_step[of "buf ?c" B blk "hash ctx" "drop (B - left) data"] c[OF that] B_pos
    by (simp add: md_shape_def)
  then show "absorb B blk (hash ctx) (take left (buf ctx) @ data) =
      absorb B blk (hash ctx') (take left' (buf ctx') @ data')"
    using res block_spec(1)[of ?c] c by (auto split: if_splits)
  show "md_shape B ctx'" "len_low ctx' = len_low ctx" "len_high ctx' = len_high ctx"
    "md_ctx.more ctx' = md_ctx.more ctx"
    using res block_spec[of ?c] c assms(1) by (auto split: if_splits)
  show "left' = 0 \<or> left' + length data' < B" "left' < B" "length data' \<le> length data"
    using res assms(2) by (auto split: if_splits)
  have "(left + length data) mod B = (length data - (B - left)) mod B" if ?full
    using that assms(2) le_mod_geq[of B "left + length data"] by (auto simp: diff_diff_right add.commute le_diff_conv)
  then show "(left' + length data') mod B = (left + length data) mod B"
    using res by (auto split: if_splits)
qed

lemma tail_stage:
  assumes "md_shape B ctx" "left = 0 \<or> left + length data < B" "left < B"
    and "md_blocks B block ctx data = (ctx', rest)"
    and "res = (if rest \<noteq> [] then ctx'\<lparr>buf := memcpy (buf ctx') left rest\<rparr> else ctx')"
  shows "absorb B blk (hash ctx) (take left (buf ctx) @ data) =
      (hash res, take ((left + length data) mod B) (buf res))"
    and "md_shape B res" "len_low res = len_low ctx" "len_high res = len_high ctx"
    and "md_ctx.more res = md_ctx.more ctx"
proof -
  note spec = blocks_spec[OF assms(1,4)]
  have rest: "length rest = length data mod B"
    using spec by (blast intro: length_absorb_tail[OF B_pos])
  have fits: "left + length rest \<le> B"
    using assms(2,3) rest B_pos by (auto simp: less_imp_le)
  then show "md_shape B res" "len_low res = len_low ctx" "len_high res = len_high ctx"
    "md_ctx.more res = md_ctx.more ctx"
    using spec assms(5) by (auto simp: md_shape_def)
  have buf: "take (left + length rest) (buf res) = take left (buf ctx') @ rest"
    using fits spec assms(5) by (auto simp: md_shape_def)
  have hash: "hash res = hash ctx'" using assms(5) by simp
  show "absorb B blk (hash ctx) (take left (buf ctx) @ data) =
      (hash res, take ((left + length data) mod B) (buf res))"
    using assms(2)
  proof
    assume "left = 0"
    with spec rest buf hash show ?thesis by simp
  next
    assume less: "left + length data < B"
    then have "length data < B" by simp
    then have same: "ctx' = ctx" "rest = data"
      using spec absorb_less[of data B blk "hash ctx"] by (blast, metis prod.inject)
    have "length (take left (buf ctx)) = left"
      using assms(1,3) by (simp add: md_shape_def)
    then have "absorb B blk (hash ctx) (take left (buf ctx) @ data) = (hash ctx, take left (buf ctx) @ data)"
      using less by (intro absorb_less) simp
    moreover have "(left + length data) mod B = left + length data"
      using less by (rule mod_less)
    ultimately show ?thesis
      using buf hash unfolding same by (simp only:)
  qed
qed

lemma update_stages:
  assumes "md_shape B ctx" "md_left B ctx < B" "length data < 2 ^ LENGTH('w)"
  defines "res \<equiv> md_update B block ctx data"
  shows "absorb B blk (hash ctx) (take (md_left B ctx) (buf ctx) @ data) =
      (hash res, take ((md_left B ctx + length data) mod B) (buf res))"
    and "md_shape B res"
    and "len_low res = len_low (md_count_add ctx (of_nat (length data)))"
    and "len_high res = len_high (md_count_add ctx (of_nat (length data)))"
    and "md_ctx.more res = md_ctx.more ctx"
proof -
  let ?ctx = "md_count_add ctx (of_nat (length data))"
  obtain c3 d3 l3 where fill: "md_fill B block ?ctx data (md_left B ctx) = (c3, d3, l3)"
    by (metis prod_cases3)
  obtain c4 d4 where blocks: "md_blocks B block c3 d3 = (c4, d4)" by fastforce
  have res: "res = (if d4 \<noteq> [] then c4\<lparr>buf := memcpy (buf c4) l3 d4\<rparr> else c4)"
    using fill blocks by (simp add: res_def md_update_def)
  have "md_shape B ?ctx" using assms(1) by simp
  note fs = fill_stage[OF this assms(2,3) fill]
  note ts = tail_stage[OF fs(2,5,6) blocks res]
  show "absorb B blk (hash ctx) (take (md_left B ctx) (buf ctx) @ data) =
      (hash res, take ((md_left B ctx + length data) mod B) (buf res))"
    using fs(1,7) ts(1) by simp
  show "md_shape B res" "len_low res = len_low ?ctx" "len_high res = len_high ?ctx"
    "md_ctx.more res = md_ctx.more ctx"
    using fs ts by simp_all
qed

lemma update_rep:
  assumes rep: "md_rep h0 ctx m" and len: "length data < 2 ^ LENGTH('w)"
  shows "md_rep h0 (md_update B block ctx data) (m @ data)"
    and "md_ctx.more (md_update B block ctx data) = md_ctx.more ctx"
proof -
  have left: "md_left B ctx = length m mod B"
    using left_mod[of ctx] rep by (simp add: md_rep_def)
  then have "md_left B ctx < B" using B_pos by simp
  moreover have shape: "md_shape B ctx" using rep by (simp add: md_rep_def)
  ultimately have st: "absorb B blk (hash ctx) (take (md_left B ctx) (buf ctx) @ data) =
      (hash (md_update B block ctx data),
       take ((md_left B ctx + length data) mod B) (buf (md_update B block ctx data)))"
    "md_shape B (md_update B block ctx data)"
    "len_low (md_update B block ctx data) = len_low (md_count_add ctx (of_nat (length data)))"
    "len_high (md_update B block ctx data) = len_high (md_count_add ctx (of_nat (length data)))"
    "md_ctx.more (md_update B block ctx data) = md_ctx.more ctx"
    using update_stages[of ctx data] len by blast+
  show "md_ctx.more (md_update B block ctx data) = md_ctx.more ctx" by (rule st(5))
  have "md_count (md_count_add ctx (of_nat (length data))) (length (m @ data))"
    using count_add[OF _ len, of ctx "length m"] rep by (simp add: md_rep_def)
  then have cnt: "md_count (md_update B block ctx data) (length (m @ data))"
    unfolding md_count_def st(3,4) .
  have left': "(md_left B ctx + length data) mod B = length (m @ data) mod B"
    by (simp add: left mod_add_left_eq)
  have abs: "absorb B blk h0 (m @ data) = absorb B blk (hash ctx) (take (md_left B ctx) (buf ctx) @ data)"
    using rep by (subst absorb_append) (simp add: md_rep_def left)
  show "md_rep h0 (md_update B block ctx data) (m @ data)"
    unfolding md_rep_def using st(2) cnt abs[unfolded st(1) left'] by blast
qed

text \<open>Any number of updates.\<close>

lemma updates_rep:
  assumes "md_rep h0 ctx m" "\<forall>d \<in> set ds. length d < 2 ^ LENGTH('w)"
  shows "md_rep h0 (foldl (md_update B block) ctx ds) (m @ concat ds)"
    and "md_ctx.more (foldl (md_update B block) ctx ds) = md_ctx.more ctx"
  using assms
proof (induction ds arbitrary: ctx m)
  case (Cons d ds)
  case 1
  with Cons.IH(1)[of "md_update B block ctx d" "m @ d"] update_rep(1)[of h0 ctx m d] show ?case by simp
  case 2
  with Cons.IH(2)[of "md_update B block ctx d" "m @ d"] update_rep[of h0 ctx m d] show ?case by simp
qed simp_all

end

section \<open>Padding and finish\<close>

lemma bit_length_words:
  fixes n :: nat
  assumes "3 \<le> LENGTH('w::len)"
  shows "push_bit 3 (of_nat n :: 'w word) = of_nat (8 * n)"
    and "push_bit 3 (of_nat (n div 2 ^ LENGTH('w))) OR drop_bit (LENGTH('w) - 3) (of_nat n) =
      (of_nat (8 * n div 2 ^ LENGTH('w)) :: 'w word)"
proof -
  show "push_bit 3 (of_nat n :: 'w word) = of_nat (8 * n)"
    by (simp add: push_bit_eq_mult)
  have "n div 2 ^ LENGTH('w) = drop_bit LENGTH('w) n"
    "8 * n div 2 ^ LENGTH('w) = drop_bit LENGTH('w) (push_bit 3 n)"
    by (simp_all add: drop_bit_eq_div push_bit_eq_mult mult.commute)
  then show "push_bit 3 (of_nat (n div 2 ^ LENGTH('w))) OR drop_bit (LENGTH('w) - 3) (of_nat n) =
      (of_nat (8 * n div 2 ^ LENGTH('w)) :: 'w word)"
    using assms by (intro bit_word_eqI) (auto simp: bit_simps)
qed

locale md_hash_pad = md_hash be B k swazbytes process blk
  for be B k and swazbytes :: "'w::len swaz_fun" and process blk +
  fixes P :: nat and order :: "'w word \<Rightarrow> 'w word \<Rightarrow> 'w word list"
    and enc :: "'w word \<Rightarrow> 'w word \<Rightarrow> puchar list"
  assumes P_words: "P = 14 * (LENGTH('w) div 8)"
    and length_enc: "length (enc high low) = 2 * (LENGTH('w) div 8)"
    and process_last: "length bs = P \<Longrightarrow>
      process h (swazbytes (buf_w be bs @ order high low) 14) = blk h (bs @ enc high low)"
begin

lemma finish_spec:
  assumes "md_rep h0 ctx m"
  shows "hash (md_finish be B P swazbytes process order n (md_pad B) ctx) =
      swazbytes (md_spec B P blk enc h0 m) n"
    and "md_ctx.more (md_finish be B P swazbytes process order n (md_pad B) ctx) = md_ctx.more ctx"
proof -
  let ?n = "length m" and ?up = "md_update B block ctx"
  have wb: "0 < LENGTH('w) div 8" using B_pos B_words by simp
  have BP: "B = P + 2 * (LENGTH('w) div 8)" "P < B" "0 < P"
    using P_words B_words wb by simp_all
  have W: "3 \<le> LENGTH('w)" using wb by (simp add: div_greater_zero_iff)
  have count: "md_count ctx ?n" using assms by (simp add: md_rep_def)
  have left: "md_left B ctx = ?n mod B" by (rule left_mod[OF count])
  define last where "last = (if ?n mod B < P then P - ?n mod B else B + P - ?n mod B)"
  have less: "?n mod B < B" using B_pos by simp
  then have last: "0 < last" "last \<le> B" using BP(2,3) unfolding last_def
    by (split if_split; linarith)+
  then have pad: "take last (md_pad B) = 0x80 # replicate (md_zeros B P ?n) 0" (is "_ = ?pad")
    by (cases last) (auto simp: md_pad_def md_zeros_def simp flip: last_def)
  have len_pad: "length ?pad = last" using last by (simp add: md_zeros_def flip: last_def)
  have "B < 2 ^ LENGTH('w)" using B_power B_fits by simp
  then have rep: "md_rep h0 (?up ?pad) (m @ ?pad)" "md_ctx.more (?up ?pad) = md_ctx.more ctx"
    using update_rep[OF assms, of ?pad] len_pad last by simp_all
  have "length (m @ ?pad) mod B = (?n mod B + last) mod B"
    unfolding length_append len_pad by (simp add: mod_add_left_eq)
  also have "\<dots> = P"
  proof -
    have "?n mod B + last = P \<or> ?n mod B + last = P + B"
      using less unfolding last_def by (split if_split; linarith)
    then show ?thesis using BP(2) by (elim disjE) (simp_all only: mod_add_self2 mod_less)
  qed
  finally have P: "length (m @ ?pad) mod B = P" .
  let ?high = "of_nat (8 * ?n div 2 ^ LENGTH('w)) :: 'w word" and ?low = "of_nat (8 * ?n) :: 'w word"
  have bits: "push_bit 3 (len_low ctx) = ?low"
    "push_bit 3 (len_high ctx) OR drop_bit (LENGTH('w) - 3) (len_low ctx) = ?high"
    using bit_length_words[OF W, of ?n] count by (simp_all add: md_count_def)
  have bs: "length (take P (buf (?up ?pad))) = P"
    using rep(1) BP(2) by (simp add: md_rep_def md_shape_def)
  have "take 14 (buf_w be (buf (?up ?pad)) :: 'w word list) = buf_w be (take P (buf (?up ?pad)))"
    unfolding buf_w_def P_words
    using rep(1) BP(2) wb P_words by (intro take_words_of) (simp_all add: md_rep_def md_shape_def)
  then have fin: "hash (md_finish be B P swazbytes process order n (md_pad B) ctx) =
      swazbytes (blk (hash (?up ?pad)) (take P (buf (?up ?pad)) @ enc ?high ?low)) n"
    using process_last[OF bs] last
    by (simp add: md_finish_def Let_def left bits pad flip: last_def)
  have "absorb B blk h0 (m @ ?pad @ enc ?high ?low) =
      absorb B blk (hash (?up ?pad)) (take P (buf (?up ?pad)) @ enc ?high ?low)"
    using rep(1) P absorb_append[of B blk h0 "m @ ?pad" "enc ?high ?low"] by (simp add: md_rep_def)
  also have "\<dots> = (blk (hash (?up ?pad)) (take P (buf (?up ?pad)) @ enc ?high ?low), [])"
    using absorb_step[of "take P (buf (?up ?pad)) @ enc ?high ?low" B blk _ "[]"] bs length_enc BP(1) B_pos
    by (simp add: absorb_less)
  finally show "hash (md_finish be B P swazbytes process order n (md_pad B) ctx) =
      swazbytes (md_spec B P blk enc h0 m) n"
    using fin by (simp add: md_spec_def md_message_def)
  show "md_ctx.more (md_finish be B P swazbytes process order n (md_pad B) ctx) = md_ctx.more ctx"
    using rep(2) last by (simp add: md_finish_def Let_def left pad flip: last_def)
qed

end

end
