(* ===== verification/PCryptoHash_MD5.thy ===== *)
theory PCryptoHash_MD5
  imports Hash_Block
begin

text \<open>
  MD5 of \<^verbatim>\<open>src/src/lib/pcryptohash-md5.c\<close>: the context operations over the block
  machinery, the unrolled compression function with its four round macros, and its
  equivalence with the 64-step loop of RFC 1321.
\<close>

section \<open>The round macros\<close>

definition P_MD5_ROTL :: "puint32 \<Rightarrow> nat \<Rightarrow> puint32" where
  "P_MD5_ROTL val shift = push_bit shift val OR drop_bit (32 - shift) val"

definition P_MD5_F :: "puint32 \<Rightarrow> puint32 \<Rightarrow> puint32 \<Rightarrow> puint32" where
  "P_MD5_F x y z = z XOR (x AND (y XOR z))"

definition P_MD5_G :: "puint32 \<Rightarrow> puint32 \<Rightarrow> puint32 \<Rightarrow> puint32" where
  "P_MD5_G x y z = P_MD5_F z x y"

definition P_MD5_H :: "puint32 \<Rightarrow> puint32 \<Rightarrow> puint32 \<Rightarrow> puint32" where
  "P_MD5_H x y z = x XOR y XOR z"

definition P_MD5_I :: "puint32 \<Rightarrow> puint32 \<Rightarrow> puint32 \<Rightarrow> puint32" where
  "P_MD5_I x y z = y XOR (x OR NOT z)"

text \<open>
  The local variables \<^verbatim>\<open>A\<close> to \<^verbatim>\<open>D\<close> are an array of registers; a call of a round macro
  names four of them, the data word, the constant and the shift.
\<close>

abbreviation (input) rA :: nat where "rA \<equiv> 0"
abbreviation (input) rB :: nat where "rB \<equiv> 1"
abbreviation (input) rC :: nat where "rC \<equiv> 2"
abbreviation (input) rD :: nat where "rD \<equiv> 3"

type_synonym md5_call = "nat \<times> nat \<times> nat \<times> nat \<times> nat \<times> puint32 \<times> nat"

fun P_MD5_ROUND :: "(puint32 \<Rightarrow> puint32 \<Rightarrow> puint32 \<Rightarrow> puint32) \<Rightarrow> puint32 list \<Rightarrow> md5_call \<Rightarrow>
    puint32 list \<Rightarrow> puint32 list" where
  "P_MD5_ROUND f data (a, b, c, d, k, i, s) r =
     (let r1 = r[a := r ! a + (f (r ! b) (r ! c) (r ! d) + data ! k + i)]
      in r1[a := P_MD5_ROTL (r1 ! a) s + r1 ! b])"

definition md5_calls_0 :: "md5_call list" where
  "md5_calls_0 = [
    (rA, rB, rC, rD, 0, 0xD76AA478, 7), (rD, rA, rB, rC, 1, 0xE8C7B756, 12),
    (rC, rD, rA, rB, 2, 0x242070DB, 17), (rB, rC, rD, rA, 3, 0xC1BDCEEE, 22),
    (rA, rB, rC, rD, 4, 0xF57C0FAF, 7), (rD, rA, rB, rC, 5, 0x4787C62A, 12),
    (rC, rD, rA, rB, 6, 0xA8304613, 17), (rB, rC, rD, rA, 7, 0xFD469501, 22),
    (rA, rB, rC, rD, 8, 0x698098D8, 7), (rD, rA, rB, rC, 9, 0x8B44F7AF, 12),
    (rC, rD, rA, rB, 10, 0xFFFF5BB1, 17), (rB, rC, rD, rA, 11, 0x895CD7BE, 22),
    (rA, rB, rC, rD, 12, 0x6B901122, 7), (rD, rA, rB, rC, 13, 0xFD987193, 12),
    (rC, rD, rA, rB, 14, 0xA679438E, 17), (rB, rC, rD, rA, 15, 0x49B40821, 22)]"

definition md5_calls_1 :: "md5_call list" where
  "md5_calls_1 = [
    (rA, rB, rC, rD, 1, 0xF61E2562, 5), (rD, rA, rB, rC, 6, 0xC040B340, 9),
    (rC, rD, rA, rB, 11, 0x265E5A51, 14), (rB, rC, rD, rA, 0, 0xE9B6C7AA, 20),
    (rA, rB, rC, rD, 5, 0xD62F105D, 5), (rD, rA, rB, rC, 10, 0x02441453, 9),
    (rC, rD, rA, rB, 15, 0xD8A1E681, 14), (rB, rC, rD, rA, 4, 0xE7D3FBC8, 20),
    (rA, rB, rC, rD, 9, 0x21E1CDE6, 5), (rD, rA, rB, rC, 14, 0xC33707D6, 9),
    (rC, rD, rA, rB, 3, 0xF4D50D87, 14), (rB, rC, rD, rA, 8, 0x455A14ED, 20),
    (rA, rB, rC, rD, 13, 0xA9E3E905, 5), (rD, rA, rB, rC, 2, 0xFCEFA3F8, 9),
    (rC, rD, rA, rB, 7, 0x676F02D9, 14), (rB, rC, rD, rA, 12, 0x8D2A4C8A, 20)]"

definition md5_calls_2 :: "md5_call list" where
  "md5_calls_2 = [
    (rA, rB, rC, rD, 5, 0xFFFA3942, 4), (rD, rA, rB, rC, 8, 0x8771F681, 11),
    (rC, rD, rA, rB, 11, 0x6D9D6122, 16), (rB, rC, rD, rA, 14, 0xFDE5380C, 23),
    (rA, rB, rC, rD, 1, 0xA4BEEA44, 4), (rD, rA, rB, rC, 4, 0x4BDECFA9, 11),
    (rC, rD, rA, rB, 7, 0xF6BB4B60, 16), (rB, rC, rD, rA, 10, 0xBEBFBC70, 23),
    (rA, rB, rC, rD, 13, 0x289B7EC6, 4), (rD, rA, rB, rC, 0, 0xEAA127FA, 11),
    (rC, rD, rA, rB, 3, 0xD4EF3085, 16), (rB, rC, rD, rA, 6, 0x04881D05, 23),
    (rA, rB, rC, rD, 9, 0xD9D4D039, 4), (rD, rA, rB, rC, 12, 0xE6DB99E5, 11),
    (rC, rD, rA, rB, 15, 0x1FA27CF8, 16), (rB, rC, rD, rA, 2, 0xC4AC5665, 23)]"

definition md5_calls_3 :: "md5_call list" where
  "md5_calls_3 = [
    (rA, rB, rC, rD, 0, 0xF4292244, 6), (rD, rA, rB, rC, 7, 0x432AFF97, 10),
    (rC, rD, rA, rB, 14, 0xAB9423A7, 15), (rB, rC, rD, rA, 5, 0xFC93A039, 21),
    (rA, rB, rC, rD, 12, 0x655B59C3, 6), (rD, rA, rB, rC, 3, 0x8F0CCC92, 10),
    (rC, rD, rA, rB, 10, 0xFFEFF47D, 15), (rB, rC, rD, rA, 1, 0x85845DD1, 21),
    (rA, rB, rC, rD, 8, 0x6FA87E4F, 6), (rD, rA, rB, rC, 15, 0xFE2CE6E0, 10),
    (rC, rD, rA, rB, 6, 0xA3014314, 15), (rB, rC, rD, rA, 13, 0x4E0811A1, 21),
    (rA, rB, rC, rD, 4, 0xF7537E82, 6), (rD, rA, rB, rC, 11, 0xBD3AF235, 10),
    (rC, rD, rA, rB, 2, 0x2AD7D2BB, 15), (rB, rC, rD, rA, 9, 0xEB86D391, 21)]"

section \<open>The operations\<close>

type_synonym PHashMD5 = "puint32 md_ctx"

definition pzcrypto_hash_md5_swazbytes :: "bool \<Rightarrow> 32 swaz_fun" where
  "pzcrypto_hash_md5_swazbytes be data words =
     (if \<not> be then data else map (PUINT32_TO_LE be) (take words data) @ drop words data)"

definition pzcrypto_hash_md5_process :: "32 process_fun" where
  "pzcrypto_hash_md5_process h data =
     (let r0 = [h ! 0, h ! 1, h ! 2, h ! 3];
          r1 = fold (P_MD5_ROUND P_MD5_F data) md5_calls_0 r0;
          r2 = fold (P_MD5_ROUND P_MD5_G data) md5_calls_1 r1;
          r3 = fold (P_MD5_ROUND P_MD5_H data) md5_calls_2 r2;
          r4 = fold (P_MD5_ROUND P_MD5_I data) md5_calls_3 r3
      in [h ! 0 + r4 ! rA, h ! 1 + r4 ! rB, h ! 2 + r4 ! rC, h ! 3 + r4 ! rD])"

definition zcrypto_hash_md5_reset :: "PHashMD5 \<Rightarrow> PHashMD5" where
  "zcrypto_hash_md5_reset ctx =
     ctx\<lparr>buf := replicate 64 0, len_low := 0, len_high := 0,
         hash := [0x67452301, 0xEFCDAB89, 0x98BADCFE, 0x10325476]\<rparr>"

text \<open>The flag \<open>mem\<close> is the outcome of \<^verbatim>\<open>zmalloc0\<close>, whose block is zero.\<close>

definition zcrypto_hash_md5_new :: "bool \<Rightarrow> PHashMD5 option" where
  "zcrypto_hash_md5_new mem =
     (if \<not> mem then None
      else Some (zcrypto_hash_md5_reset
        \<lparr>buf = replicate 64 0, hash = replicate 4 0, len_high = 0, len_low = 0\<rparr>))"

definition zcrypto_hash_md5_update :: "bool \<Rightarrow> PHashMD5 \<Rightarrow> puchar list \<Rightarrow> PHashMD5" where
  "zcrypto_hash_md5_update be =
     md_update 64 (md_block be (pzcrypto_hash_md5_swazbytes be) pzcrypto_hash_md5_process)"

definition zcrypto_hash_md5_finish :: "bool \<Rightarrow> PHashMD5 \<Rightarrow> PHashMD5" where
  "zcrypto_hash_md5_finish be =
     md_finish be 64 56 (pzcrypto_hash_md5_swazbytes be) pzcrypto_hash_md5_process
       (\<lambda>high low. [low, high]) 4 (md_pad 64)"

definition zcrypto_hash_md5_digest :: "bool \<Rightarrow> PHashMD5 \<Rightarrow> puchar list" where
  "zcrypto_hash_md5_digest be ctx = md_digest be ctx"

section \<open>RFC 1321\<close>

definition md5_T :: "puint32 list" where
  "md5_T = [
    0xD76AA478, 0xE8C7B756, 0x242070DB, 0xC1BDCEEE, 0xF57C0FAF, 0x4787C62A,
    0xA8304613, 0xFD469501, 0x698098D8, 0x8B44F7AF, 0xFFFF5BB1, 0x895CD7BE,
    0x6B901122, 0xFD987193, 0xA679438E, 0x49B40821, 0xF61E2562, 0xC040B340,
    0x265E5A51, 0xE9B6C7AA, 0xD62F105D, 0x02441453, 0xD8A1E681, 0xE7D3FBC8,
    0x21E1CDE6, 0xC33707D6, 0xF4D50D87, 0x455A14ED, 0xA9E3E905, 0xFCEFA3F8,
    0x676F02D9, 0x8D2A4C8A, 0xFFFA3942, 0x8771F681, 0x6D9D6122, 0xFDE5380C,
    0xA4BEEA44, 0x4BDECFA9, 0xF6BB4B60, 0xBEBFBC70, 0x289B7EC6, 0xEAA127FA,
    0xD4EF3085, 0x04881D05, 0xD9D4D039, 0xE6DB99E5, 0x1FA27CF8, 0xC4AC5665,
    0xF4292244, 0x432AFF97, 0xAB9423A7, 0xFC93A039, 0x655B59C3, 0x8F0CCC92,
    0xFFEFF47D, 0x85845DD1, 0x6FA87E4F, 0xFE2CE6E0, 0xA3014314, 0x4E0811A1,
    0xF7537E82, 0xBD3AF235, 0x2AD7D2BB, 0xEB86D391]"

definition md5_f :: "nat \<Rightarrow> puint32 \<Rightarrow> puint32 \<Rightarrow> puint32 \<Rightarrow> puint32" where
  "md5_f i x y z =
     (if i < 16 then (x AND y) OR (NOT x AND z)
      else if i < 32 then (x AND z) OR (y AND NOT z)
      else if i < 48 then x XOR y XOR z
      else y XOR (x OR NOT z))"

definition md5_g :: "nat \<Rightarrow> nat" where
  "md5_g i = (if i < 16 then i else if i < 32 then (5 * i + 1) mod 16
     else if i < 48 then (3 * i + 5) mod 16 else 7 * i mod 16)"

definition md5_s :: "nat \<Rightarrow> nat" where
  "md5_s i = [[7, 12, 17, 22], [5, 9, 14, 20], [4, 11, 16, 23], [6, 10, 15, 21]] ! (i div 16) ! (i mod 4)"

fun md5_step :: "puint32 list \<Rightarrow> nat \<Rightarrow> puint32 \<times> puint32 \<times> puint32 \<times> puint32 \<Rightarrow>
    puint32 \<times> puint32 \<times> puint32 \<times> puint32" where
  "md5_step X i (a, b, c, d) = (d, b + word_rotl (md5_s i) (a + md5_f i b c d + X ! md5_g i + md5_T ! i), b, c)"

definition md5_compress :: "puint32 list \<Rightarrow> puint32 list \<Rightarrow> puint32 list" where
  "md5_compress h X =
     (let (a, b, c, d) = fold (md5_step X) [0..<64] (h ! 0, h ! 1, h ! 2, h ! 3)
      in [h ! 0 + a, h ! 1 + b, h ! 2 + c, h ! 3 + d])"

definition md5_blk :: "puint32 list \<Rightarrow> puchar list \<Rightarrow> puint32 list" where
  "md5_blk h bs = md5_compress h (words_of word_le 4 bs)"

definition md5_digest :: "puchar list \<Rightarrow> puchar list" where
  "md5_digest m = concat (map (bytes_le 4)
     (md_spec 64 56 md5_blk (\<lambda>(high :: puint32) (low :: puint32). bytes_le 4 low @ bytes_le 4 high)
        [0x67452301, 0xEFCDAB89, 0x98BADCFE, 0x10325476] m))"

section \<open>The unrolled code is the loop\<close>

lemma ROTL_rotl: "shift < 32 \<Longrightarrow> P_MD5_ROTL val shift = word_rotl shift val"
  using rotl_shifts[of shift val] by (simp add: P_MD5_ROTL_def)

lemma md5_f_macros:
  "i < 16 \<Longrightarrow> md5_f i x y z = P_MD5_F x y z"
  "16 \<le> i \<Longrightarrow> i < 32 \<Longrightarrow> md5_f i x y z = P_MD5_G x y z"
  "32 \<le> i \<Longrightarrow> i < 48 \<Longrightarrow> md5_f i x y z = P_MD5_H x y z"
  "48 \<le> i \<Longrightarrow> md5_f i x y z = P_MD5_I x y z"
  by (auto simp: md5_f_def P_MD5_F_def P_MD5_G_def P_MD5_H_def P_MD5_I_def bit_simps intro!: bit_word_eqI)

text \<open>Four calls of a round macro, with the registers rotating, are four steps of the loop.\<close>

definition md5_call_at :: "nat \<Rightarrow> md5_call list" where
  "md5_call_at i =
     [(rA, rB, rC, rD, md5_g i, md5_T ! i, md5_s i),
      (rD, rA, rB, rC, md5_g (i + 1), md5_T ! (i + 1), md5_s (i + 1)),
      (rC, rD, rA, rB, md5_g (i + 2), md5_T ! (i + 2), md5_s (i + 2)),
      (rB, rC, rD, rA, md5_g (i + 3), md5_T ! (i + 3), md5_s (i + 3))]"

lemma md5_calls_regular:
  "md5_calls_0 = concat (map md5_call_at [0, 4, 8, 12])"
  "md5_calls_1 = concat (map md5_call_at [16, 20, 24, 28])"
  "md5_calls_2 = concat (map md5_call_at [32, 36, 40, 44])"
  "md5_calls_3 = concat (map md5_call_at [48, 52, 56, 60])"
  by (simp_all add: md5_calls_0_def md5_calls_1_def md5_calls_2_def md5_calls_3_def
      md5_call_at_def md5_g_def md5_s_def md5_T_def)

lemma md5_s_less: "i < 64 \<Longrightarrow> md5_s i < 32"
proof -
  assume "i < 64"
  then have "i div 16 \<in> {0, 1, 2, 3}" "i mod 4 \<in> {0, 1, 2, 3}" by auto
  then show ?thesis by (auto simp: md5_s_def)
qed

definition regs :: "'a \<times> 'a \<times> 'a \<times> 'a \<Rightarrow> 'a list" where
  "regs t = (case t of (a, b, c, d) \<Rightarrow> [a, b, c, d])"

lemma md5_four_calls:
  assumes f: "\<And>j x y z. i \<le> j \<Longrightarrow> j < i + 4 \<Longrightarrow> md5_f j x y z = f x y z" and i: "i + 3 < 64"
  shows "fold (P_MD5_ROUND f X) (md5_call_at i) (regs t) = regs (fold (md5_step X) [i..<i + 4] t)"
proof (cases t)
  case (fields a b c d)
  have "[i..<i + 4] = [i, i + 1, i + 2, i + 3]"
    by (simp add: upt_conv_Cons numeral_eq_Suc)
  with fields i show ?thesis
    by (simp add: md5_call_at_def regs_def f ROTL_rotl md5_s_less Let_def add.commute add.left_commute
        numeral_3_eq_3 numeral_2_eq_2)
qed

lemma md5_round:
  assumes f: "\<And>j x y z. i \<le> j \<Longrightarrow> j < i + 16 \<Longrightarrow> md5_f j x y z = f x y z" and i: "i + 15 < 64"
  shows "fold (P_MD5_ROUND f X) (concat (map md5_call_at [i, i + 4, i + 8, i + 12])) (regs t) =
    regs (fold (md5_step X) [i..<i + 16] t)"
proof -
  have four: "fold (P_MD5_ROUND f X) (md5_call_at j) (regs t) = regs (fold (md5_step X) [j..<j + 4] t)"
    if "i \<le> j" "j + 3 < i + 16" for j t
    using that i by (intro md5_four_calls f) auto
  have "[i..<i + 16] = [i..<i + 4] @ [i + 4..<i + 8] @ [i + 8..<i + 12] @ [i + 12..<i + 16]"
    using upt_add_eq_append[of i "i + 4" 12] upt_add_eq_append[of "i + 4" "i + 8" 8]
      upt_add_eq_append[of "i + 8" "i + 12" 4] by (simp add: add.assoc)
  then show ?thesis
    using four[of i] four[of "i + 4"] four[of "i + 8"] four[of "i + 12"] by (simp add: add.assoc)
qed

lemma md5_process_compress: "pzcrypto_hash_md5_process h X = md5_compress h X"
proof -
  let ?t = "(h ! 0, h ! 1, h ! 2, h ! 3)"
  have "[0..<64] = [0..<16] @ [16..<32] @ [32..<48] @ [48..<64::nat]"
    using upt_add_eq_append[of 0 16 48] upt_add_eq_append[of 16 32 32] upt_add_eq_append[of 32 48 16] by simp
  moreover have "fold (P_MD5_ROUND P_MD5_F X) md5_calls_0 (regs t) = regs (fold (md5_step X) [0..<16] t)"
    "fold (P_MD5_ROUND P_MD5_G X) md5_calls_1 (regs t) = regs (fold (md5_step X) [16..<32] t)"
    "fold (P_MD5_ROUND P_MD5_H X) md5_calls_2 (regs t) = regs (fold (md5_step X) [32..<48] t)"
    "fold (P_MD5_ROUND P_MD5_I X) md5_calls_3 (regs t) = regs (fold (md5_step X) [48..<64] t)" for t
    unfolding md5_calls_regular
    using md5_round[of 0 P_MD5_F X t] md5_round[of 16 P_MD5_G X t] md5_round[of 32 P_MD5_H X t]
      md5_round[of 48 P_MD5_I X t] by (simp_all add: md5_f_macros)
  ultimately have "fold (P_MD5_ROUND P_MD5_I X) md5_calls_3 (fold (P_MD5_ROUND P_MD5_H X) md5_calls_2
      (fold (P_MD5_ROUND P_MD5_G X) md5_calls_1 (fold (P_MD5_ROUND P_MD5_F X) md5_calls_0 (regs ?t)))) =
    regs (fold (md5_step X) [0..<64] ?t)"
    by simp
  then show ?thesis
    by (simp add: pzcrypto_hash_md5_process_def md5_compress_def regs_def Let_def split: prod.splits)
qed

section \<open>Streaming\<close>

lemma md5_swazbytes_alt:
  "pzcrypto_hash_md5_swazbytes be ws n = map (PUINT32_TO_LE be) (take n ws) @ drop n ws"
  by (cases be) (simp_all add: pzcrypto_hash_md5_swazbytes_def)

interpretation md5: md_hash_pad be 64 6 "pzcrypto_hash_md5_swazbytes be" pzcrypto_hash_md5_process md5_blk
    56 "\<lambda>high low. [low, high]" "\<lambda>high low. bytes_le 4 low @ bytes_le 4 high" for be
proof
  fix bs :: "puchar list" and h
  show "pzcrypto_hash_md5_process h (pzcrypto_hash_md5_swazbytes be (buf_w be bs) 16) = md5_blk h bs"
    if "length bs = 64"
    using that
    by (simp add: md5_swazbytes_alt md5_blk_def md5_process_compress buf_w_def map_words_of order_of_host_word)
  show "pzcrypto_hash_md5_process h (pzcrypto_hash_md5_swazbytes be (buf_w be bs @ [low, high]) 14) =
      md5_blk h (bs @ bytes_le 4 low @ bytes_le 4 high)" if "length bs = 56" for low high
    using that
    by (simp add: md5_swazbytes_alt md5_blk_def md5_process_compress buf_w_def map_words_of order_of_host_word
        words_of_append words_of_one word_le_bytes_le)
qed (simp_all add: md5_swazbytes_alt)

lemma md5_new_rep: "zcrypto_hash_md5_new True = Some ctx \<Longrightarrow>
    md5.md_rep [0x67452301, 0xEFCDAB89, 0x98BADCFE, 0x10325476] ctx []"
  by (auto simp: zcrypto_hash_md5_new_def zcrypto_hash_md5_reset_def md5.md_rep_def md_shape_def
      md_count_def absorb_less)

lemma md5_stream:
  assumes "zcrypto_hash_md5_new True = Some ctx" "\<forall>d \<in> set ds. length d < 2 ^ 32"
  shows "zcrypto_hash_md5_digest be (zcrypto_hash_md5_finish be (foldl (zcrypto_hash_md5_update be) ctx ds)) =
    md5_digest (concat ds)"
proof -
  have rep: "md5.md_rep [0x67452301, 0xEFCDAB89, 0x98BADCFE, 0x10325476]
      (foldl (zcrypto_hash_md5_update be) ctx ds) ([] @ concat ds)"
    unfolding zcrypto_hash_md5_update_def
    using md5_new_rep[OF assms(1)] assms(2) by (intro md5.updates_rep) simp_all
  have len: "length (md_spec 64 56 md5_blk enc h m) = 4"
    if "length h = 4" for enc :: "puint32 \<Rightarrow> puint32 \<Rightarrow> _" and h m
    unfolding md_spec_def using that
    by (rule absorb_inv) (simp add: md5_blk_def md5_compress_def split_def Let_def)
  show ?thesis
    using md5.finish_spec(1)[OF rep, of be 4]
    by (simp add: zcrypto_hash_md5_digest_def md_digest_def zcrypto_hash_md5_finish_def md5_digest_def
      md5_swazbytes_alt store_w_def len host_bytes_of_order o_def)
qed

text \<open>
  C28: MD5 fed in any pieces, each below 4 GiB, is the MD5 of RFC 1321 of the whole message, on
  little-endian and on big-endian hosts.
\<close>

theorem md5_streaming:
  assumes "zcrypto_hash_md5_new True = Some ctx" "\<forall>d \<in> set ds. length d < 2 ^ 32"
  shows "zcrypto_hash_md5_digest be (zcrypto_hash_md5_finish be (foldl (zcrypto_hash_md5_update be) ctx ds)) =
    md5_digest (concat ds)"
  by (rule md5_stream[OF assms])

text \<open>The test vector of RFC 1321 for \<^verbatim>\<open>abc\<close>.\<close>

lemma md5_abc:
  "md5_digest [0x61, 0x62, 0x63] =
    [0x90, 0x01, 0x50, 0x98, 0x3C, 0xD2, 0x4F, 0xB0, 0xD6, 0x96, 0x3F, 0x7D, 0x28, 0xE1, 0x7F, 0x72]"
proof -
  let ?m = "[0x61, 0x62, 0x63] :: puchar list"
  let ?enc = "\<lambda>(high :: puint32) (low :: puint32). bytes_le 4 low @ bytes_le 4 high"
  have m: "md_message 64 56 ?enc ?m = ?m @ 0x80 # replicate 52 0 @ bytes_le 4 (24 :: puint32) @ bytes_le 4 (0 :: puint32)"
    by (simp add: md_message_def md_zeros_def)
  then have "md_spec 64 56 md5_blk ?enc h ?m = md5_blk h (md_message 64 56 ?enc ?m)" for h
    by (intro md_spec_one) simp_all
  then have "md5_digest ?m = concat (map (bytes_le 4) (md5_blk [0x67452301, 0xEFCDAB89, 0x98BADCFE, 0x10325476]
      (?m @ 0x80 # replicate 52 0 @ bytes_le 4 (24 :: puint32) @ bytes_le 4 (0 :: puint32))))"
    unfolding md5_digest_def m by simp
  also have "\<dots> = [0x90, 0x01, 0x50, 0x98, 0x3C, 0xD2, 0x4F, 0xB0, 0xD6, 0x96, 0x3F, 0x7D, 0x28, 0xE1, 0x7F, 0x72]"
    by code_simp
  finally show ?thesis .
qed

theorem md5_streaming_witness:
  "zcrypto_hash_md5_digest True (zcrypto_hash_md5_finish True
     (foldl (zcrypto_hash_md5_update True) (the (zcrypto_hash_md5_new True)) [[0x61], [0x62, 0x63]])) =
    [0x90, 0x01, 0x50, 0x98, 0x3C, 0xD2, 0x4F, 0xB0, 0xD6, 0x96, 0x3F, 0x7D, 0x28, 0xE1, 0x7F, 0x72]"
  using md5_streaming[of "the (zcrypto_hash_md5_new True)" "[[0x61], [0x62, 0x63]]" True] md5_abc
  by (simp add: zcrypto_hash_md5_new_def)

end
