(* ===== verification/PCryptoHash_SHA1.thy ===== *)
theory PCryptoHash_SHA1
  imports Hash_Block
begin

text \<open>
  SHA-1 of \<^verbatim>\<open>src/src/lib/pcryptohash-sha1.c\<close>: the compression function, which keeps only the
  last 16 words of the message schedule in a circular array, its equivalence with the
  80-word schedule of FIPS 180-4, and the context operations over the block machinery.
\<close>

section \<open>The macros\<close>

definition P_SHA1_ROTL :: "puint32 \<Rightarrow> nat \<Rightarrow> puint32" where
  "P_SHA1_ROTL val shift = push_bit shift val OR drop_bit (32 - shift) val"

definition P_SHA1_F1 :: "puint32 \<Rightarrow> puint32 \<Rightarrow> puint32 \<Rightarrow> puint32" where
  "P_SHA1_F1 x y z = (x AND y) OR (NOT x AND z)"

definition P_SHA1_F2 :: "puint32 \<Rightarrow> puint32 \<Rightarrow> puint32 \<Rightarrow> puint32" where
  "P_SHA1_F2 x y z = x XOR y XOR z"

definition P_SHA1_F3 :: "puint32 \<Rightarrow> puint32 \<Rightarrow> puint32 \<Rightarrow> puint32" where
  "P_SHA1_F3 x y z = (x AND y) OR (x AND z) OR (y AND z)"

text \<open>The last argument of a round macro: \<^verbatim>\<open>W[i]\<close>, or \<^verbatim>\<open>P_SHA1_W (W, i)\<close>, which also writes.\<close>

datatype sha1_w = WAt nat | WNext nat

definition P_SHA1_W :: "puint32 list \<Rightarrow> nat \<Rightarrow> puint32 list \<times> puint32" where
  "P_SHA1_W W i =
     (let w = P_SHA1_ROTL (W ! ((i - 3) mod 16) XOR W ! ((i - 8) mod 16) XOR
                           W ! ((i - 14) mod 16) XOR W ! ((i - 16) mod 16)) 1
      in (W[i mod 16 := w], w))"

fun sha1_arg :: "puint32 list \<Rightarrow> sha1_w \<Rightarrow> puint32 list \<times> puint32" where
  "sha1_arg W (WAt i) = (W, W ! i)"
| "sha1_arg W (WNext i) = P_SHA1_W W i"

abbreviation (input) rA :: nat where "rA \<equiv> 0"
abbreviation (input) rB :: nat where "rB \<equiv> 1"
abbreviation (input) rC :: nat where "rC \<equiv> 2"
abbreviation (input) rD :: nat where "rD \<equiv> 3"
abbreviation (input) rE :: nat where "rE \<equiv> 4"

type_synonym sha1_call = "nat \<times> nat \<times> nat \<times> nat \<times> nat \<times> sha1_w"

text \<open>The four round macros differ in the function and the constant.\<close>

fun P_SHA1_ROUND :: "(puint32 \<Rightarrow> puint32 \<Rightarrow> puint32 \<Rightarrow> puint32) \<Rightarrow> puint32 \<Rightarrow> sha1_call \<Rightarrow>
    puint32 list \<times> puint32 list \<Rightarrow> puint32 list \<times> puint32 list" where
  "P_SHA1_ROUND f K (a, b, c, d, e, arg) (r, W) =
     (let (W', w) = sha1_arg W arg;
          r1 = r[e := r ! e + (P_SHA1_ROTL (r ! a) 5 + f (r ! b) (r ! c) (r ! d) + K + w)];
          r2 = r1[b := P_SHA1_ROTL (r1 ! b) 30]
      in (r2, W'))"

definition sha1_calls_0 :: "sha1_call list" where
  "sha1_calls_0 = [
    (rA, rB, rC, rD, rE, WAt 0), (rE, rA, rB, rC, rD, WAt 1), (rD, rE, rA, rB, rC, WAt 2),
    (rC, rD, rE, rA, rB, WAt 3), (rB, rC, rD, rE, rA, WAt 4), (rA, rB, rC, rD, rE, WAt 5),
    (rE, rA, rB, rC, rD, WAt 6), (rD, rE, rA, rB, rC, WAt 7), (rC, rD, rE, rA, rB, WAt 8),
    (rB, rC, rD, rE, rA, WAt 9), (rA, rB, rC, rD, rE, WAt 10), (rE, rA, rB, rC, rD, WAt 11),
    (rD, rE, rA, rB, rC, WAt 12), (rC, rD, rE, rA, rB, WAt 13), (rB, rC, rD, rE, rA, WAt 14),
    (rA, rB, rC, rD, rE, WAt 15), (rE, rA, rB, rC, rD, WNext 16), (rD, rE, rA, rB, rC, WNext 17),
    (rC, rD, rE, rA, rB, WNext 18), (rB, rC, rD, rE, rA, WNext 19)]"

definition sha1_calls_1 :: "sha1_call list" where
  "sha1_calls_1 = [
    (rA, rB, rC, rD, rE, WNext 20), (rE, rA, rB, rC, rD, WNext 21), (rD, rE, rA, rB, rC, WNext 22),
    (rC, rD, rE, rA, rB, WNext 23), (rB, rC, rD, rE, rA, WNext 24), (rA, rB, rC, rD, rE, WNext 25),
    (rE, rA, rB, rC, rD, WNext 26), (rD, rE, rA, rB, rC, WNext 27), (rC, rD, rE, rA, rB, WNext 28),
    (rB, rC, rD, rE, rA, WNext 29), (rA, rB, rC, rD, rE, WNext 30), (rE, rA, rB, rC, rD, WNext 31),
    (rD, rE, rA, rB, rC, WNext 32), (rC, rD, rE, rA, rB, WNext 33), (rB, rC, rD, rE, rA, WNext 34),
    (rA, rB, rC, rD, rE, WNext 35), (rE, rA, rB, rC, rD, WNext 36), (rD, rE, rA, rB, rC, WNext 37),
    (rC, rD, rE, rA, rB, WNext 38), (rB, rC, rD, rE, rA, WNext 39)]"

definition sha1_calls_2 :: "sha1_call list" where
  "sha1_calls_2 = [
    (rA, rB, rC, rD, rE, WNext 40), (rE, rA, rB, rC, rD, WNext 41), (rD, rE, rA, rB, rC, WNext 42),
    (rC, rD, rE, rA, rB, WNext 43), (rB, rC, rD, rE, rA, WNext 44), (rA, rB, rC, rD, rE, WNext 45),
    (rE, rA, rB, rC, rD, WNext 46), (rD, rE, rA, rB, rC, WNext 47), (rC, rD, rE, rA, rB, WNext 48),
    (rB, rC, rD, rE, rA, WNext 49), (rA, rB, rC, rD, rE, WNext 50), (rE, rA, rB, rC, rD, WNext 51),
    (rD, rE, rA, rB, rC, WNext 52), (rC, rD, rE, rA, rB, WNext 53), (rB, rC, rD, rE, rA, WNext 54),
    (rA, rB, rC, rD, rE, WNext 55), (rE, rA, rB, rC, rD, WNext 56), (rD, rE, rA, rB, rC, WNext 57),
    (rC, rD, rE, rA, rB, WNext 58), (rB, rC, rD, rE, rA, WNext 59)]"

definition sha1_calls_3 :: "sha1_call list" where
  "sha1_calls_3 = [
    (rA, rB, rC, rD, rE, WNext 60), (rE, rA, rB, rC, rD, WNext 61), (rD, rE, rA, rB, rC, WNext 62),
    (rC, rD, rE, rA, rB, WNext 63), (rB, rC, rD, rE, rA, WNext 64), (rA, rB, rC, rD, rE, WNext 65),
    (rE, rA, rB, rC, rD, WNext 66), (rD, rE, rA, rB, rC, WNext 67), (rC, rD, rE, rA, rB, WNext 68),
    (rB, rC, rD, rE, rA, WNext 69), (rA, rB, rC, rD, rE, WNext 70), (rE, rA, rB, rC, rD, WNext 71),
    (rD, rE, rA, rB, rC, WNext 72), (rC, rD, rE, rA, rB, WNext 73), (rB, rC, rD, rE, rA, WNext 74),
    (rA, rB, rC, rD, rE, WNext 75), (rE, rA, rB, rC, rD, WNext 76), (rD, rE, rA, rB, rC, WNext 77),
    (rC, rD, rE, rA, rB, WNext 78), (rB, rC, rD, rE, rA, WNext 79)]"

section \<open>The operations\<close>

type_synonym PHashSHA1 = "puint32 md_ctx"

definition pzcrypto_hash_sha1_swazbytes :: "bool \<Rightarrow> 32 swaz_fun" where
  "pzcrypto_hash_sha1_swazbytes be data words =
     (if be then data else map (PUINT32_TO_BE be) (take words data) @ drop words data)"

definition pzcrypto_hash_sha1_process :: "32 process_fun" where
  "pzcrypto_hash_sha1_process h data =
     (let s0 = ([h ! 0, h ! 1, h ! 2, h ! 3, h ! 4], data);
          s1 = fold (P_SHA1_ROUND P_SHA1_F1 0x5A827999) sha1_calls_0 s0;
          s2 = fold (P_SHA1_ROUND P_SHA1_F2 0x6ED9EBA1) sha1_calls_1 s1;
          s3 = fold (P_SHA1_ROUND P_SHA1_F3 0x8F1BBCDC) sha1_calls_2 s2;
          s4 = fold (P_SHA1_ROUND P_SHA1_F2 0xCA62C1D6) sha1_calls_3 s3;
          r = fst s4
      in [h ! 0 + r ! rA, h ! 1 + r ! rB, h ! 2 + r ! rC, h ! 3 + r ! rD, h ! 4 + r ! rE])"

definition zcrypto_hash_sha1_reset :: "PHashSHA1 \<Rightarrow> PHashSHA1" where
  "zcrypto_hash_sha1_reset ctx =
     ctx\<lparr>buf := replicate 64 0, len_low := 0, len_high := 0,
         hash := [0x67452301, 0xEFCDAB89, 0x98BADCFE, 0x10325476, 0xC3D2E1F0]\<rparr>"

definition zcrypto_hash_sha1_new :: "bool \<Rightarrow> PHashSHA1 option" where
  "zcrypto_hash_sha1_new mem =
     (if \<not> mem then None
      else Some (zcrypto_hash_sha1_reset
        \<lparr>buf = replicate 64 0, hash = replicate 5 0, len_high = 0, len_low = 0\<rparr>))"

definition zcrypto_hash_sha1_update :: "bool \<Rightarrow> PHashSHA1 \<Rightarrow> puchar list \<Rightarrow> PHashSHA1" where
  "zcrypto_hash_sha1_update be =
     md_update 64 (md_block be (pzcrypto_hash_sha1_swazbytes be) pzcrypto_hash_sha1_process)"

definition zcrypto_hash_sha1_finish :: "bool \<Rightarrow> PHashSHA1 \<Rightarrow> PHashSHA1" where
  "zcrypto_hash_sha1_finish be =
     md_finish be 64 56 (pzcrypto_hash_sha1_swazbytes be) pzcrypto_hash_sha1_process
       (\<lambda>high low. [high, low]) 5 (md_pad 64)"

definition zcrypto_hash_sha1_digest :: "bool \<Rightarrow> PHashSHA1 \<Rightarrow> puchar list" where
  "zcrypto_hash_sha1_digest be ctx = md_digest be ctx"

section \<open>FIPS 180-4\<close>

definition sha1_next_w :: "puint32 list \<Rightarrow> nat \<Rightarrow> puint32" where
  "sha1_next_w ws t = word_rotl 1 (ws ! (t - 3) XOR ws ! (t - 8) XOR ws ! (t - 14) XOR ws ! (t - 16))"

fun sha1_schedule :: "puint32 list \<Rightarrow> nat \<Rightarrow> puint32 list" where
  "sha1_schedule ws 0 = ws"
| "sha1_schedule ws (Suc n) = (let ws' = sha1_schedule ws n in ws' @ [sha1_next_w ws' (length ws')])"

definition sha1_f :: "nat \<Rightarrow> puint32 \<Rightarrow> puint32 \<Rightarrow> puint32 \<Rightarrow> puint32" where
  "sha1_f t x y z =
     (if t < 20 then (x AND y) XOR (NOT x AND z)
      else if 40 \<le> t \<and> t < 60 then (x AND y) XOR (x AND z) XOR (y AND z)
      else x XOR y XOR z)"

definition sha1_K :: "nat \<Rightarrow> puint32" where
  "sha1_K t = (if t < 20 then 0x5A827999 else if t < 40 then 0x6ED9EBA1 else if t < 60 then 0x8F1BBCDC else 0xCA62C1D6)"

fun sha1_step :: "puint32 list \<Rightarrow> nat \<Rightarrow> puint32 \<times> puint32 \<times> puint32 \<times> puint32 \<times> puint32 \<Rightarrow>
    puint32 \<times> puint32 \<times> puint32 \<times> puint32 \<times> puint32" where
  "sha1_step ws t (a, b, c, d, e) =
     (word_rotl 5 a + sha1_f t b c d + e + sha1_K t + ws ! t, a, word_rotl 30 b, c, d)"

definition sha1_compress :: "puint32 list \<Rightarrow> puint32 list \<Rightarrow> puint32 list" where
  "sha1_compress h M =
     (let (a, b, c, d, e) = fold (sha1_step (sha1_schedule M 64)) [0..<80] (h ! 0, h ! 1, h ! 2, h ! 3, h ! 4)
      in [a + h ! 0, b + h ! 1, c + h ! 2, d + h ! 3, e + h ! 4])"

definition sha1_blk :: "puint32 list \<Rightarrow> puchar list \<Rightarrow> puint32 list" where
  "sha1_blk h bs = sha1_compress h (words_of word_be 4 bs)"

definition sha1_digest :: "puchar list \<Rightarrow> puchar list" where
  "sha1_digest m = concat (map (bytes_be 4)
     (md_spec 64 56 sha1_blk (\<lambda>(high :: puint32) (low :: puint32). bytes_be 4 high @ bytes_be 4 low)
        [0x67452301, 0xEFCDAB89, 0x98BADCFE, 0x10325476, 0xC3D2E1F0] m))"

section \<open>The circular schedule\<close>

lemma sha1_ROTL_rotl: "shift < 32 \<Longrightarrow> P_SHA1_ROTL val shift = word_rotl shift val"
  using rotl_shifts[of shift val] by (simp add: P_SHA1_ROTL_def)

lemma length_sha1_schedule [simp]: "length (sha1_schedule ws n) = length ws + n"
  by (induction n) (simp_all add: Let_def)

lemma sha1_schedule_prefix: "t < length ws + n \<Longrightarrow> sha1_schedule ws (n + k) ! t = sha1_schedule ws n ! t"
  by (induction k) (simp_all add: Let_def nth_append)

lemma sha1_schedule_init: "t < length ws \<Longrightarrow> sha1_schedule ws n ! t = ws ! t"
  using sha1_schedule_prefix[of t ws 0 n] by simp

lemma sha1_schedule_rec:
  assumes "length ws = 16" "16 \<le> t" "t < 16 + n"
  shows "sha1_schedule ws n ! t = sha1_next_w (sha1_schedule ws n) t"
proof -
  obtain j where t: "t = 16 + j" using assms(2) le_Suc_ex by blast
  then have n: "n = Suc j + (n - Suc j)" using assms(3) by simp
  have "sha1_schedule ws n ! s = sha1_schedule ws j ! s" if "s < t" for s
    using sha1_schedule_prefix[of s ws j "n - j"] that t assms(1,3) by simp
  moreover have "sha1_schedule ws n ! t = sha1_schedule ws (Suc j) ! t"
    using sha1_schedule_prefix[of t ws "Suc j" "n - Suc j"] t assms(1) n by simp
  ultimately show ?thesis
    using t assms(1) by (simp add: sha1_next_w_def Let_def nth_append)
qed

text \<open>Before round \<open>t\<close> the array holds the last 16 words of the schedule.\<close>

definition sha1_ring :: "puint32 list \<Rightarrow> nat \<Rightarrow> puint32 list \<Rightarrow> bool" where
  "sha1_ring ws t W \<longleftrightarrow> length W = 16 \<and> (\<forall>s. s < max t 16 \<and> max t 16 \<le> s + 16 \<longrightarrow> W ! (s mod 16) = ws ! s)"

definition sha1_arg_at :: "nat \<Rightarrow> sha1_w" where
  "sha1_arg_at t = (if t < 16 then WAt t else WNext t)"

lemma sha1_ring_step:
  assumes M: "length M = 16" and ring: "sha1_ring (sha1_schedule M 64) t W" and t: "t < 80" "t' = Suc t"
  obtains W' where "sha1_arg W (sha1_arg_at t) = (W', sha1_schedule M 64 ! t)"
    "sha1_ring (sha1_schedule M 64) t' W'"
proof (cases "t < 16")
  case True
  with ring t(2) show ?thesis
    by (intro that[of W]) (auto simp: sha1_arg_at_def sha1_ring_def max_def)
next
  case False
  let ?ws = "sha1_schedule M 64"
  have at: "W ! (s mod 16) = ?ws ! s" if "s < t" "t \<le> s + 16" for s
    using ring that False by (auto simp: sha1_ring_def max_def)
  have "P_SHA1_ROTL (W ! ((t - 3) mod 16) XOR W ! ((t - 8) mod 16) XOR
      W ! ((t - 14) mod 16) XOR W ! ((t - 16) mod 16)) 1 = ?ws ! t"
    using at[of "t - 3"] at[of "t - 8"] at[of "t - 14"] at[of "t - 16"] False
      sha1_schedule_rec[OF M, of t 64] t by (simp add: sha1_ROTL_rotl sha1_next_w_def)
  moreover have "sha1_ring ?ws (Suc t) (W[t mod 16 := ?ws ! t])"
    unfolding sha1_ring_def
  proof (intro conjI allI impI)
    show "length (W[t mod 16 := ?ws ! t]) = 16" using ring by (simp add: sha1_ring_def)
    fix s assume s: "s < max (Suc t) 16 \<and> max (Suc t) 16 \<le> s + 16"
    show "W[t mod 16 := ?ws ! t] ! (s mod 16) = ?ws ! s"
    proof (cases "s = t")
      case True
      then show ?thesis using ring by (simp add: sha1_ring_def)
    next
      case less: False
      then have "s < t" "t - s < 16" using s False by auto
      then have "s mod 16 \<noteq> t mod 16"
        using mod_eq_dvd_iff_nat[of s t 16] nat_dvd_not_less[of "t - s" 16] by auto
      with at[of s] s less False show ?thesis by simp
    qed
  qed
  ultimately show ?thesis
    using False t(2) by (intro that) (auto simp: sha1_arg_at_def P_SHA1_W_def Let_def)
qed

section \<open>The unrolled code is the loop\<close>

lemma sha1_f_macros:
  "t < 20 \<Longrightarrow> sha1_f t x y z = P_SHA1_F1 x y z"
  "20 \<le> t \<Longrightarrow> t < 40 \<Longrightarrow> sha1_f t x y z = P_SHA1_F2 x y z"
  "40 \<le> t \<Longrightarrow> t < 60 \<Longrightarrow> sha1_f t x y z = P_SHA1_F3 x y z"
  "60 \<le> t \<Longrightarrow> sha1_f t x y z = P_SHA1_F2 x y z"
  by (auto simp: sha1_f_def P_SHA1_F1_def P_SHA1_F2_def P_SHA1_F3_def bit_simps intro!: bit_word_eqI)

definition sha1_calls_at :: "nat \<Rightarrow> sha1_call list" where
  "sha1_calls_at t =
     [(rA, rB, rC, rD, rE, sha1_arg_at t), (rE, rA, rB, rC, rD, sha1_arg_at (t + 1)),
      (rD, rE, rA, rB, rC, sha1_arg_at (t + 2)), (rC, rD, rE, rA, rB, sha1_arg_at (t + 3)),
      (rB, rC, rD, rE, rA, sha1_arg_at (t + 4))]"

lemma sha1_calls_regular:
  "sha1_calls_0 = concat (map sha1_calls_at [0, 5, 10, 15])"
  "sha1_calls_1 = concat (map sha1_calls_at [20, 25, 30, 35])"
  "sha1_calls_2 = concat (map sha1_calls_at [40, 45, 50, 55])"
  "sha1_calls_3 = concat (map sha1_calls_at [60, 65, 70, 75])"
  by (simp_all add: sha1_calls_0_def sha1_calls_1_def sha1_calls_2_def sha1_calls_3_def
      sha1_calls_at_def sha1_arg_at_def)

definition sha1_regs :: "'a \<times> 'a \<times> 'a \<times> 'a \<times> 'a \<Rightarrow> 'a list" where
  "sha1_regs s = (case s of (a, b, c, d, e) \<Rightarrow> [a, b, c, d, e])"

text \<open>The word that a round computes, and the five register assignments of the calls.\<close>

definition sha1_T :: "(puint32 \<Rightarrow> puint32 \<Rightarrow> puint32 \<Rightarrow> puint32) \<Rightarrow> puint32 \<Rightarrow>
    puint32 \<Rightarrow> puint32 \<Rightarrow> puint32 \<Rightarrow> puint32 \<Rightarrow> puint32 \<Rightarrow> puint32 \<Rightarrow> puint32" where
  "sha1_T f K w a b c d e = word_rotl 5 a + f b c d + e + K + w"

lemma sha1_round_calls:
  assumes "sha1_arg W arg = (W', w)"
  shows "P_SHA1_ROUND f K (rA, rB, rC, rD, rE, arg) ([a, b, c, d, e], W) =
      ([a, word_rotl 30 b, c, d, sha1_T f K w a b c d e], W')"
    "P_SHA1_ROUND f K (rE, rA, rB, rC, rD, arg) ([b, c, d, e, a], W) =
      ([word_rotl 30 b, c, d, sha1_T f K w a b c d e, a], W')"
    "P_SHA1_ROUND f K (rD, rE, rA, rB, rC, arg) ([c, d, e, a, b], W) =
      ([c, d, sha1_T f K w a b c d e, a, word_rotl 30 b], W')"
    "P_SHA1_ROUND f K (rC, rD, rE, rA, rB, arg) ([d, e, a, b, c], W) =
      ([d, sha1_T f K w a b c d e, a, word_rotl 30 b, c], W')"
    "P_SHA1_ROUND f K (rB, rC, rD, rE, rA, arg) ([e, a, b, c, d], W) =
      ([sha1_T f K w a b c d e, a, word_rotl 30 b, c, d], W')"
  using assms by (simp_all add: sha1_T_def sha1_ROTL_rotl Let_def ac_simps)

text \<open>
  \<open>sha1_sim M t s st\<close>: before round \<open>t\<close> (a multiple of five) the code's registers are those
  of the loop and its array is the ring of the schedule.
\<close>

definition sha1_sim :: "puint32 list \<Rightarrow> nat \<Rightarrow> puint32 \<times> puint32 \<times> puint32 \<times> puint32 \<times> puint32 \<Rightarrow>
    puint32 list \<times> puint32 list \<Rightarrow> bool" where
  "sha1_sim M t s st \<longleftrightarrow> fst st = sha1_regs s \<and> sha1_ring (sha1_schedule M 64) t (snd st)"

lemma sha1_five_calls:
  assumes M: "length M = 16" and sim: "sha1_sim M t s st" and t: "t + 4 < 80"
    and f: "\<And>j x y z. t \<le> j \<Longrightarrow> j < t + 5 \<Longrightarrow> sha1_f j x y z = f x y z"
    and K: "\<And>j. t \<le> j \<Longrightarrow> j < t + 5 \<Longrightarrow> sha1_K j = K"
  shows "sha1_sim M (t + 5) (fold (sha1_step (sha1_schedule M 64)) [t..<t + 5] s)
    (fold (P_SHA1_ROUND f K) (sha1_calls_at t) st)"
proof (cases s)
  case (fields a b c d e)
  obtain W0 where st: "st = (sha1_regs s, W0)" and r0: "sha1_ring (sha1_schedule M 64) t W0"
    using sim by (cases st) (simp add: sha1_sim_def)
  obtain W1 where 1: "sha1_arg W0 (sha1_arg_at t) = (W1, sha1_schedule M 64 ! t)"
    "sha1_ring (sha1_schedule M 64) (t + 1) W1"
    using sha1_ring_step[OF M r0, of "t + 1"] t by auto
  obtain W2 where 2: "sha1_arg W1 (sha1_arg_at (t + 1)) = (W2, sha1_schedule M 64 ! (t + 1))"
    "sha1_ring (sha1_schedule M 64) (t + 2) W2"
    using sha1_ring_step[OF M 1(2), of "t + 2"] t by auto
  obtain W3 where 3: "sha1_arg W2 (sha1_arg_at (t + 2)) = (W3, sha1_schedule M 64 ! (t + 2))"
    "sha1_ring (sha1_schedule M 64) (t + 3) W3"
    using sha1_ring_step[OF M 2(2), of "t + 3"] t by auto
  obtain W4 where 4: "sha1_arg W3 (sha1_arg_at (t + 3)) = (W4, sha1_schedule M 64 ! (t + 3))"
    "sha1_ring (sha1_schedule M 64) (t + 4) W4"
    using sha1_ring_step[OF M 3(2), of "t + 4"] t by auto
  obtain W5 where 5: "sha1_arg W4 (sha1_arg_at (t + 4)) = (W5, sha1_schedule M 64 ! (t + 4))"
    "sha1_ring (sha1_schedule M 64) (t + 5) W5"
    using sha1_ring_step[OF M 4(2), of "t + 5"] t by auto
  have upt: "[t..<t + 5] = [t, t + 1, t + 2, t + 3, t + 4]"
    by (simp add: upt_conv_Cons numeral_eq_Suc)
  have step: "sha1_step ws j (a, b, c, d, e) = (sha1_T f K (ws ! j) a b c d e, a, word_rotl 30 b, c, d)"
    if "t \<le> j" "j < t + 5" for ws j a b c d e
    using that by (simp add: sha1_T_def f K)
  have "fold (P_SHA1_ROUND f K) (sha1_calls_at t) st =
      (sha1_regs (fold (sha1_step (sha1_schedule M 64)) [t..<t + 5] s), W5)"
    unfolding upt st fields
    by (simp add: sha1_calls_at_def sha1_regs_def step sha1_round_calls[OF 1(1)] sha1_round_calls[OF 2(1)]
        sha1_round_calls[OF 3(1)] sha1_round_calls[OF 4(1)] sha1_round_calls[OF 5(1)]
        del: P_SHA1_ROUND.simps sha1_step.simps One_nat_def add_2_eq_Suc add_2_eq_Suc')
  with 5(2) show ?thesis by (simp add: sha1_sim_def)
qed

lemma sha1_round:
  assumes "length M = 16" "sha1_sim M t s st" "t + 19 < 80"
    and f: "\<And>j x y z. t \<le> j \<Longrightarrow> j < t + 20 \<Longrightarrow> sha1_f j x y z = f x y z"
    and K: "\<And>j. t \<le> j \<Longrightarrow> j < t + 20 \<Longrightarrow> sha1_K j = K"
  shows "sha1_sim M (t + 20) (fold (sha1_step (sha1_schedule M 64)) [t..<t + 20] s)
    (fold (P_SHA1_ROUND f K) (concat (map sha1_calls_at [t, t + 5, t + 10, t + 15])) st)"
proof -
  have five: "sha1_sim M (j + 5) (fold (sha1_step (sha1_schedule M 64)) [j..<j + 5] s)
      (fold (P_SHA1_ROUND f K) (sha1_calls_at j) st)"
    if "sha1_sim M j s st" "t \<le> j" "j + 4 < t + 20" for j s st
    using that assms(3) by (intro sha1_five_calls[OF assms(1)] f K) auto
  have "[t..<t + 20] = [t..<t + 5] @ [t + 5..<t + 10] @ [t + 10..<t + 15] @ [t + 15..<t + 20]"
    using upt_add_eq_append[of t "t + 5" 15] upt_add_eq_append[of "t + 5" "t + 10" 10]
      upt_add_eq_append[of "t + 10" "t + 15" 5] by (simp add: add.assoc)
  then show ?thesis
    using five[OF five[OF five[OF five[OF assms(2)]]]] by (simp add: add.assoc)
qed

lemma sha1_process_compress:
  assumes "length M = 16"
  shows "pzcrypto_hash_sha1_process h M = sha1_compress h M"
proof -
  let ?s = "(h ! 0, h ! 1, h ! 2, h ! 3, h ! 4)" and ?step = "sha1_step (sha1_schedule M 64)"
  have upt: "[0..<80] = [0..<20] @ [20..<40] @ [40..<60] @ [60..<80::nat]"
    using upt_add_eq_append[of 0 20 60] upt_add_eq_append[of 20 40 40] upt_add_eq_append[of 40 60 20] by simp
  have "sha1_sim M 0 ?s ([h ! 0, h ! 1, h ! 2, h ! 3, h ! 4], M)"
    using assms by (simp add: sha1_sim_def sha1_regs_def sha1_ring_def sha1_schedule_init)
  from sha1_round[OF assms this, where f = P_SHA1_F1 and K = "0x5A827999"] have
    "sha1_sim M 20 (fold ?step [0..<20] ?s)
      (fold (P_SHA1_ROUND P_SHA1_F1 0x5A827999) sha1_calls_0 ([h ! 0, h ! 1, h ! 2, h ! 3, h ! 4], M))"
    by (simp add: sha1_f_macros sha1_K_def sha1_calls_regular)
  from sha1_round[OF assms this, where f = P_SHA1_F2 and K = "0x6ED9EBA1"] have
    "sha1_sim M 40 (fold ?step [20..<40] (fold ?step [0..<20] ?s))
      (fold (P_SHA1_ROUND P_SHA1_F2 0x6ED9EBA1) sha1_calls_1
        (fold (P_SHA1_ROUND P_SHA1_F1 0x5A827999) sha1_calls_0 ([h ! 0, h ! 1, h ! 2, h ! 3, h ! 4], M)))"
    by (simp add: sha1_f_macros sha1_K_def sha1_calls_regular(2))
  from sha1_round[OF assms this, where f = P_SHA1_F3 and K = "0x8F1BBCDC"] have
    "sha1_sim M 60 (fold ?step [40..<60] (fold ?step [20..<40] (fold ?step [0..<20] ?s)))
      (fold (P_SHA1_ROUND P_SHA1_F3 0x8F1BBCDC) sha1_calls_2 (fold (P_SHA1_ROUND P_SHA1_F2 0x6ED9EBA1) sha1_calls_1
        (fold (P_SHA1_ROUND P_SHA1_F1 0x5A827999) sha1_calls_0 ([h ! 0, h ! 1, h ! 2, h ! 3, h ! 4], M))))"
    by (simp add: sha1_f_macros sha1_K_def sha1_calls_regular(3))
  from sha1_round[OF assms this, where f = P_SHA1_F2 and K = "0xCA62C1D6"] have
    "sha1_sim M 80 (fold ?step [0..<80] ?s)
      (fold (P_SHA1_ROUND P_SHA1_F2 0xCA62C1D6) sha1_calls_3 (fold (P_SHA1_ROUND P_SHA1_F3 0x8F1BBCDC) sha1_calls_2
        (fold (P_SHA1_ROUND P_SHA1_F2 0x6ED9EBA1) sha1_calls_1
        (fold (P_SHA1_ROUND P_SHA1_F1 0x5A827999) sha1_calls_0 ([h ! 0, h ! 1, h ! 2, h ! 3, h ! 4], M)))))"
    unfolding upt by (simp add: sha1_f_macros sha1_K_def sha1_calls_regular(4))
  then show ?thesis
    by (simp add: pzcrypto_hash_sha1_process_def sha1_compress_def sha1_sim_def sha1_regs_def Let_def
        add.commute split: prod.splits)
qed

section \<open>Streaming\<close>

lemma sha1_swazbytes_alt:
  "pzcrypto_hash_sha1_swazbytes be ws n = map (PUINT32_TO_BE be) (take n ws) @ drop n ws"
  by (cases be) (simp_all add: pzcrypto_hash_sha1_swazbytes_def)

interpretation sha1: md_hash_pad be 64 6 "pzcrypto_hash_sha1_swazbytes be" pzcrypto_hash_sha1_process sha1_blk
    56 "\<lambda>high low. [high, low]" "\<lambda>high low. bytes_be 4 high @ bytes_be 4 low" for be
proof
  fix bs :: "puchar list" and h
  show "pzcrypto_hash_sha1_process h (pzcrypto_hash_sha1_swazbytes be (buf_w be bs) 16) = sha1_blk h bs"
    if "length bs = 64"
    using that
    by (simp add: sha1_swazbytes_alt sha1_blk_def sha1_process_compress buf_w_def map_words_of order_of_host_word)
  show "pzcrypto_hash_sha1_process h (pzcrypto_hash_sha1_swazbytes be (buf_w be bs @ [high, low]) 14) =
      sha1_blk h (bs @ bytes_be 4 high @ bytes_be 4 low)" if "length bs = 56" for low high
    using that
    by (simp add: sha1_swazbytes_alt sha1_blk_def sha1_process_compress buf_w_def map_words_of order_of_host_word
        words_of_append words_of_one word_be_bytes_be)
qed (simp_all add: sha1_swazbytes_alt)

lemma sha1_new_rep: "zcrypto_hash_sha1_new True = Some ctx \<Longrightarrow>
    sha1.md_rep [0x67452301, 0xEFCDAB89, 0x98BADCFE, 0x10325476, 0xC3D2E1F0] ctx []"
  by (auto simp: zcrypto_hash_sha1_new_def zcrypto_hash_sha1_reset_def sha1.md_rep_def md_shape_def
      md_count_def absorb_less)

lemma sha1_stream:
  assumes "zcrypto_hash_sha1_new True = Some ctx" "\<forall>d \<in> set ds. length d < 2 ^ 32"
  shows "zcrypto_hash_sha1_digest be (zcrypto_hash_sha1_finish be (foldl (zcrypto_hash_sha1_update be) ctx ds)) =
    sha1_digest (concat ds)"
proof -
  have rep: "sha1.md_rep [0x67452301, 0xEFCDAB89, 0x98BADCFE, 0x10325476, 0xC3D2E1F0]
      (foldl (zcrypto_hash_sha1_update be) ctx ds) ([] @ concat ds)"
    unfolding zcrypto_hash_sha1_update_def
    using sha1_new_rep[OF assms(1)] assms(2) by (intro sha1.updates_rep) simp_all
  have len: "length (md_spec 64 56 sha1_blk enc h m) = 5"
    if "length h = 5" for enc :: "puint32 \<Rightarrow> puint32 \<Rightarrow> _" and h m
    unfolding md_spec_def using that
    by (rule absorb_inv) (simp add: sha1_blk_def sha1_compress_def split_def Let_def)
  show ?thesis
    using sha1.finish_spec(1)[OF rep, of be 5]
    by (simp add: zcrypto_hash_sha1_digest_def md_digest_def zcrypto_hash_sha1_finish_def sha1_digest_def
      sha1_swazbytes_alt store_w_def len host_bytes_of_order o_def)
qed

text \<open>
  C27: SHA-1 fed in any pieces, each below 4 GiB, is the SHA-1 of FIPS 180-4 of the whole
  message, on little-endian and on big-endian hosts.
\<close>

theorem sha1_streaming:
  assumes "zcrypto_hash_sha1_new True = Some ctx" "\<forall>d \<in> set ds. length d < 2 ^ 32"
  shows "zcrypto_hash_sha1_digest be (zcrypto_hash_sha1_finish be (foldl (zcrypto_hash_sha1_update be) ctx ds)) =
    sha1_digest (concat ds)"
  by (rule sha1_stream[OF assms])

theorem sha1_streaming_witness:
  "zcrypto_hash_sha1_digest False (zcrypto_hash_sha1_finish False
     (foldl (zcrypto_hash_sha1_update False) (the (zcrypto_hash_sha1_new True)) [[0x61, 0x62], [], [0x63]])) =
    sha1_digest [0x61, 0x62, 0x63]"
  using sha1_streaming[of "the (zcrypto_hash_sha1_new True)" "[[0x61, 0x62], [], [0x63]]" False]
  by (simp add: zcrypto_hash_sha1_new_def)

end
