(* ===== verification/Hash_SHA2.thy ===== *)
theory Hash_SHA2
  imports Hash_Block
begin

text \<open>
  The round structure shared by \<^verbatim>\<open>pcryptohash-sha2-256.c\<close> and \<^verbatim>\<open>pcryptohash-sha2-512.c\<close>:
  the macro \<^verbatim>\<open>P\<close>, called eight times per loop iteration with rotating registers, and the
  rounds and the message schedule of FIPS 180-4 that it implements. The functions of the
  algorithm are parameters.
\<close>

section \<open>The code\<close>

type_synonym sha2_regs = "nat \<times> nat \<times> nat \<times> nat \<times> nat \<times> nat \<times> nat \<times> nat"

text \<open>The macro \<^verbatim>\<open>P (a, b, c, d, e, f, g, h, x, K)\<close> on the array \<^verbatim>\<open>A\<close> of registers.\<close>

fun sha2_P :: "('w::len word \<Rightarrow> 'w word) \<Rightarrow> ('w word \<Rightarrow> 'w word) \<Rightarrow>
    ('w word \<Rightarrow> 'w word \<Rightarrow> 'w word \<Rightarrow> 'w word) \<Rightarrow> ('w word \<Rightarrow> 'w word \<Rightarrow> 'w word \<Rightarrow> 'w word) \<Rightarrow>
    sha2_regs \<Rightarrow> 'w word \<Rightarrow> 'w word \<Rightarrow> 'w word list \<Rightarrow> 'w word list" where
  "sha2_P S2 S3 F0 F1 (a, b, c, d, e, f, g, h) x K A =
     (let tmzsum1 = A ! h + S3 (A ! e) + F1 (A ! e) (A ! f) (A ! g) + K + x;
          tmzsum2 = S2 (A ! a) + F0 (A ! a) (A ! b) (A ! c)
      in (A[d := A ! d + tmzsum1])[h := tmzsum1 + tmzsum2])"

text \<open>The eight calls in the body of a loop: the offset from \<^verbatim>\<open>i\<close> and the registers.\<close>

definition sha2_calls :: "(nat \<times> sha2_regs) list" where
  "sha2_calls =
     [(0, (0, 1, 2, 3, 4, 5, 6, 7)), (1, (7, 0, 1, 2, 3, 4, 5, 6)),
      (2, (6, 7, 0, 1, 2, 3, 4, 5)), (3, (5, 6, 7, 0, 1, 2, 3, 4)),
      (4, (4, 5, 6, 7, 0, 1, 2, 3)), (5, (3, 4, 5, 6, 7, 0, 1, 2)),
      (6, (2, 3, 4, 5, 6, 7, 0, 1)), (7, (1, 2, 3, 4, 5, 6, 7, 0))]"

text \<open>
  A loop body whose calls read \<^verbatim>\<open>W[i + j]\<close>, and one whose calls compute it first
  (\<^verbatim>\<open>P_SHA2_256_R (i + j)\<close>, the parameter \<open>R\<close>).
\<close>

definition sha2_body :: "(sha2_regs \<Rightarrow> 'w::len word \<Rightarrow> 'w word \<Rightarrow> 'w word list \<Rightarrow> 'w word list) \<Rightarrow>
    'w word list \<Rightarrow> 'w word list \<Rightarrow> nat \<Rightarrow> 'w word list \<Rightarrow> 'w word list" where
  "sha2_body P K W i A = fold (\<lambda>(j, regs) A. P regs (W ! (i + j)) (K ! (i + j)) A) sha2_calls A"

definition sha2_body_next :: "(sha2_regs \<Rightarrow> 'w::len word \<Rightarrow> 'w word \<Rightarrow> 'w word list \<Rightarrow> 'w word list) \<Rightarrow>
    ('w word list \<Rightarrow> nat \<Rightarrow> 'w word list) \<Rightarrow> 'w word list \<Rightarrow> nat \<Rightarrow>
    'w word list \<times> 'w word list \<Rightarrow> 'w word list \<times> 'w word list" where
  "sha2_body_next P R K i st =
     fold (\<lambda>(j, regs) (A, W). let W' = R W (i + j) in (P regs (W' ! (i + j)) (K ! (i + j)) A, W')) sha2_calls st"

section \<open>FIPS 180-4\<close>

fun sha2_schedule :: "('w::len word \<Rightarrow> 'w word) \<Rightarrow> ('w word \<Rightarrow> 'w word) \<Rightarrow> 'w word list \<Rightarrow> nat \<Rightarrow> 'w word list" where
  "sha2_schedule s0 s1 ws 0 = ws"
| "sha2_schedule s0 s1 ws (Suc n) =
     (let ws' = sha2_schedule s0 s1 ws n; t = length ws'
      in ws' @ [s1 (ws' ! (t - 2)) + ws' ! (t - 7) + s0 (ws' ! (t - 15)) + ws' ! (t - 16)])"

definition Ch :: "'w::len word \<Rightarrow> 'w word \<Rightarrow> 'w word \<Rightarrow> 'w word" where
  "Ch x y z = (x AND y) XOR (NOT x AND z)"

definition Maj :: "'w::len word \<Rightarrow> 'w word \<Rightarrow> 'w word \<Rightarrow> 'w word" where
  "Maj x y z = (x AND y) XOR (x AND z) XOR (y AND z)"

type_synonym 'a eight = "'a \<times> 'a \<times> 'a \<times> 'a \<times> 'a \<times> 'a \<times> 'a \<times> 'a"

fun sha2_step :: "('w::len word \<Rightarrow> 'w word) \<Rightarrow> ('w word \<Rightarrow> 'w word) \<Rightarrow> 'w word list \<Rightarrow> 'w word list \<Rightarrow> nat \<Rightarrow>
    'w word eight \<Rightarrow> 'w word eight" where
  "sha2_step S0 S1 K W t (a, b, c, d, e, f, g, h) =
     (let T1 = h + S1 e + Ch e f g + K ! t + W ! t;
          T2 = S0 a + Maj a b c
      in (T1 + T2, a, b, c, d + T1, e, f, g))"

definition sha2_compress :: "('w::len word \<Rightarrow> 'w word) \<Rightarrow> ('w word \<Rightarrow> 'w word) \<Rightarrow>
    ('w word \<Rightarrow> 'w word) \<Rightarrow> ('w word \<Rightarrow> 'w word) \<Rightarrow> 'w word list \<Rightarrow> nat \<Rightarrow>
    'w word list \<Rightarrow> 'w word list \<Rightarrow> 'w word list" where
  "sha2_compress s0 s1 S0 S1 K n H M =
     (let W = sha2_schedule s0 s1 M (n - 16);
          (a, b, c, d, e, f, g, h) = fold (sha2_step S0 S1 K W) [0..<n]
            (H ! 0, H ! 1, H ! 2, H ! 3, H ! 4, H ! 5, H ! 6, H ! 7)
      in [H ! 0 + a, H ! 1 + b, H ! 2 + c, H ! 3 + d, H ! 4 + e, H ! 5 + f, H ! 6 + g, H ! 7 + h])"

section \<open>Eight calls are eight rounds\<close>

lemma length_sha2_schedule [simp]: "length (sha2_schedule s0 s1 ws n) = length ws + n"
  by (induction n) (simp_all add: Let_def)

lemma sha2_schedule_prefix:
  "t < length ws + n \<Longrightarrow> sha2_schedule s0 s1 ws (n + k) ! t = sha2_schedule s0 s1 ws n ! t"
  by (induction k) (simp_all add: Let_def nth_append)

text \<open>The registers of call \<open>j\<close>, and the state they show before it.\<close>

definition sha2_regs_at :: "nat \<Rightarrow> sha2_regs" where
  "sha2_regs_at j = ((8 - j) mod 8, (9 - j) mod 8, (10 - j) mod 8, (11 - j) mod 8,
     (12 - j) mod 8, (13 - j) mod 8, (14 - j) mod 8, (15 - j) mod 8)"

definition sha2_view :: "nat \<Rightarrow> 'a list \<Rightarrow> 'a eight" where
  "sha2_view j A = (A ! ((8 - j) mod 8), A ! ((9 - j) mod 8), A ! ((10 - j) mod 8), A ! ((11 - j) mod 8),
     A ! ((12 - j) mod 8), A ! ((13 - j) mod 8), A ! ((14 - j) mod 8), A ! ((15 - j) mod 8))"

lemma sha2_calls_regular: "sha2_calls = map (\<lambda>j. (j, sha2_regs_at j)) [0..<8]"
  by (simp add: sha2_calls_def sha2_regs_at_def upt_rec)

lemma sha2_view_8: "length A = 8 \<Longrightarrow> sha2_view 8 A = sha2_view 0 A"
  by (simp add: sha2_view_def)

lemma length_sha2_P [simp]: "length (sha2_P S2 S3 F0 F1 regs x K A) = length A"
  by (induction S2 S3 F0 F1 regs x K A rule: sha2_P.induct) (simp add: Let_def)

lemma list8_cases:
  assumes "length A = 8"
  obtains a b c d e f g h where "A = [a, b, c, d, e, f, g, h]"
  using assms by (auto simp: numeral_eq_Suc length_Suc_conv)

lemma nat_less_8: "j < 8 \<Longrightarrow> j \<in> {0, 1, 2, 3, 4, 5, 6, 7 :: nat}"
  by auto

lemma sha2_P_view:
  assumes "j < 8" "length A = 8" "F0 = Maj" "F1 = Ch" "K ! t = k" "W ! t = w"
  shows "sha2_view (Suc j) (sha2_P S0 S1 F0 F1 (sha2_regs_at j) w k A) = sha2_step S0 S1 K W t (sha2_view j A)"
  using nat_less_8[OF assms(1)] assms(2-)
  by (elim list8_cases insertE; simp add: sha2_regs_at_def sha2_view_def Let_def)

lemma sha2_body_rounds:
  assumes "length A = 8" "F0 = Maj" "F1 = Ch"
  shows "length (sha2_body (sha2_P S0 S1 F0 F1) K W i A) = 8"
    and "sha2_view 0 (sha2_body (sha2_P S0 S1 F0 F1) K W i A) =
      fold (sha2_step S0 S1 K W) [i..<i + 8] (sha2_view 0 A)"
proof -
  let ?f = "\<lambda>j A. sha2_P S0 S1 F0 F1 (sha2_regs_at j) (W ! (i + j)) (K ! (i + j)) A"
  have len: "length (fold ?f [0..<n] A) = 8" for n
    using assms(1) by (induction n) simp_all
  have view: "sha2_view n (fold ?f [0..<n] A) = fold (sha2_step S0 S1 K W) [i..<i + n] (sha2_view 0 A)"
    if "n \<le> 8" for n
    using that
  proof (induction n)
    case (Suc n)
    with sha2_P_view[of n "fold ?f [0..<n] A" F0 F1 K "i + n" _ W _ S0 S1] len[of n] assms(2,3)
    show ?case by simp
  qed simp
  have body: "sha2_body (sha2_P S0 S1 F0 F1) K W i A = fold ?f [0..<8] A"
    by (simp add: sha2_body_def sha2_calls_regular fold_map o_def)
  show "length (sha2_body (sha2_P S0 S1 F0 F1) K W i A) = 8"
    using len[of 8] body by simp
  show "sha2_view 0 (sha2_body (sha2_P S0 S1 F0 F1) K W i A) =
      fold (sha2_step S0 S1 K W) [i..<i + 8] (sha2_view 0 A)"
    using view[of 8] sha2_view_8[OF len[of 8]] body by simp
qed

lemma sha2_body_next_rounds:
  assumes "length A = 8" "F0 = Maj" "F1 = Ch"
    and R: "\<And>n. R (sha2_schedule s0 s1 M n) (16 + n) = sha2_schedule s0 s1 M (Suc n)"
    and M: "length M = 16" and i: "16 \<le> i" "i + 8 \<le> 16 + N"
    and W: "W = sha2_schedule s0 s1 M (i - 16)"
  shows "snd (sha2_body_next (sha2_P S0 S1 F0 F1) R K i (A, W)) = sha2_schedule s0 s1 M (i + 8 - 16)"
    and "fst (sha2_body_next (sha2_P S0 S1 F0 F1) R K i (A, W)) =
      sha2_body (sha2_P S0 S1 F0 F1) K (sha2_schedule s0 s1 M N) i A"
proof -
  let ?S = "sha2_schedule s0 s1 M"
  let ?f = "\<lambda>j A. sha2_P S0 S1 F0 F1 (sha2_regs_at j) (?S N ! (i + j)) (K ! (i + j)) A"
  let ?g = "\<lambda>j (A, W). let W' = R W (i + j) in
      (sha2_P S0 S1 F0 F1 (sha2_regs_at j) (W' ! (i + j)) (K ! (i + j)) A, W')"
  have fold: "fold ?g [0..<n] (A, W) = (fold ?f [0..<n] A, ?S (i - 16 + n))" if "n \<le> 8" for n
    using that
  proof (induction n)
    case 0
    then show ?case by (simp add: W)
  next
    case (Suc n)
    have "R (?S (i - 16 + n)) (i + n) = ?S (Suc (i - 16 + n))"
      using R[of "i - 16 + n"] i(1) by simp
    moreover have "?S (Suc (i - 16 + n)) ! (i + n) = ?S N ! (i + n)"
      using sha2_schedule_prefix[of "i + n" M "Suc (i - 16 + n)" s0 s1 "N - Suc (i - 16 + n)"] Suc.prems i M
      by simp
    ultimately show ?case
      using Suc by simp
  qed
  have "sha2_body_next (sha2_P S0 S1 F0 F1) R K i (A, W) = fold ?g [0..<8] (A, W)"
    by (simp add: sha2_body_next_def sha2_calls_regular fold_map o_def)
  with fold[of 8] i show "snd (sha2_body_next (sha2_P S0 S1 F0 F1) R K i (A, W)) = ?S (i + 8 - 16)"
    "fst (sha2_body_next (sha2_P S0 S1 F0 F1) R K i (A, W)) = sha2_body (sha2_P S0 S1 F0 F1) K (?S N) i A"
    by (simp_all add: sha2_body_def sha2_calls_regular fold_map o_def)
qed

text \<open>A loop of such bodies, with \<^verbatim>\<open>i\<close> stepping by eight.\<close>

lemma sha2_bodies_rounds:
  assumes "length A = 8" "F0 = Maj" "F1 = Ch"
  shows "length (fold (sha2_body (sha2_P S0 S1 F0 F1) K W) (map ((*) 8) [k..<k + n]) A) = 8"
    and "sha2_view 0 (fold (sha2_body (sha2_P S0 S1 F0 F1) K W) (map ((*) 8) [k..<k + n]) A) =
      fold (sha2_step S0 S1 K W) [8 * k..<8 * (k + n)] (sha2_view 0 A)"
proof (induction n)
  case (Suc n)
  have "[8 * k..<8 * (k + Suc n)] = [8 * k..<8 * (k + n)] @ [8 * (k + n)..<8 * (k + n) + 8]"
    using upt_add_eq_append[of "8 * k" "8 * (k + n)" 8] by (simp add: algebra_simps)
  case 1
  with Suc.IH(1) show ?case by (simp add: sha2_body_rounds assms)
  case 2
  show ?case
    unfolding \<open>[8 * k..<8 * (k + Suc n)] = _\<close>
    using Suc.IH by (simp add: sha2_body_rounds assms)
qed (use assms in simp_all)

end
