(* ===== verification/PCryptoHash_SHA256.thy ===== *)
theory PCryptoHash_SHA256
  imports Hash_SHA2
begin

text \<open>
  SHA-256 and SHA-224 of \<^verbatim>\<open>src/src/lib/pcryptohash-sha2-256.c\<close>: the compression function
  with its equivalence to FIPS 180-4, and the context operations over the block machinery.
\<close>

section \<open>The macros\<close>

definition P_SHA2_256_SHR :: "puint32 \<Rightarrow> nat \<Rightarrow> puint32" where
  "P_SHA2_256_SHR val shift = drop_bit shift (val AND 0xFFFFFFFF)"

definition P_SHA2_256_ROTR :: "puint32 \<Rightarrow> nat \<Rightarrow> puint32" where
  "P_SHA2_256_ROTR val shift = P_SHA2_256_SHR val shift OR push_bit (32 - shift) val"

definition P_SHA2_256_S0 :: "puint32 \<Rightarrow> puint32" where
  "P_SHA2_256_S0 x = P_SHA2_256_ROTR x 7 XOR P_SHA2_256_ROTR x 18 XOR P_SHA2_256_SHR x 3"

definition P_SHA2_256_S1 :: "puint32 \<Rightarrow> puint32" where
  "P_SHA2_256_S1 x = P_SHA2_256_ROTR x 17 XOR P_SHA2_256_ROTR x 19 XOR P_SHA2_256_SHR x 10"

definition P_SHA2_256_S2 :: "puint32 \<Rightarrow> puint32" where
  "P_SHA2_256_S2 x = P_SHA2_256_ROTR x 2 XOR P_SHA2_256_ROTR x 13 XOR P_SHA2_256_ROTR x 22"

definition P_SHA2_256_S3 :: "puint32 \<Rightarrow> puint32" where
  "P_SHA2_256_S3 x = P_SHA2_256_ROTR x 6 XOR P_SHA2_256_ROTR x 11 XOR P_SHA2_256_ROTR x 25"

definition P_SHA2_256_F0 :: "puint32 \<Rightarrow> puint32 \<Rightarrow> puint32 \<Rightarrow> puint32" where
  "P_SHA2_256_F0 x y z = (x AND y) OR (z AND (x OR y))"

definition P_SHA2_256_F1 :: "puint32 \<Rightarrow> puint32 \<Rightarrow> puint32 \<Rightarrow> puint32" where
  "P_SHA2_256_F1 x y z = z XOR (x AND (y XOR z))"

text \<open>
  The macro \<^verbatim>\<open>P_SHA2_256_R (t)\<close> writes \<^verbatim>\<open>W[t]\<close>. It is used for rising \<open>t\<close> from 16, so the array
  written so far has \<open>t\<close> elements and the new word is appended.
\<close>

definition P_SHA2_256_R :: "puint32 list \<Rightarrow> nat \<Rightarrow> puint32 list" where
  "P_SHA2_256_R W t = W @ [P_SHA2_256_S1 (W ! (t - 2)) + W ! (t - 7) + P_SHA2_256_S0 (W ! (t - 15)) + W ! (t - 16)]"

definition P_SHA2_256_P :: "sha2_regs \<Rightarrow> puint32 \<Rightarrow> puint32 \<Rightarrow> puint32 list \<Rightarrow> puint32 list" where
  "P_SHA2_256_P = sha2_P P_SHA2_256_S2 P_SHA2_256_S3 P_SHA2_256_F0 P_SHA2_256_F1"

definition pzcrypto_hash_sha2_256_K :: "puint32 list" where
  "pzcrypto_hash_sha2_256_K = [
    0x428A2F98, 0x71374491, 0xB5C0FBCF, 0xE9B5DBA5, 0x3956C25B, 0x59F111F1,
    0x923F82A4, 0xAB1C5ED5, 0xD807AA98, 0x12835B01, 0x243185BE, 0x550C7DC3,
    0x72BE5D74, 0x80DEB1FE, 0x9BDC06A7, 0xC19BF174, 0xE49B69C1, 0xEFBE4786,
    0x0FC19DC6, 0x240CA1CC, 0x2DE92C6F, 0x4A7484AA, 0x5CB0A9DC, 0x76F988DA,
    0x983E5152, 0xA831C66D, 0xB00327C8, 0xBF597FC7, 0xC6E00BF3, 0xD5A79147,
    0x06CA6351, 0x14292967, 0x27B70A85, 0x2E1B2138, 0x4D2C6DFC, 0x53380D13,
    0x650A7354, 0x766A0ABB, 0x81C2C92E, 0x92722C85, 0xA2BFE8A1, 0xA81A664B,
    0xC24B8B70, 0xC76C51A3, 0xD192E819, 0xD6990624, 0xF40E3585, 0x106AA070,
    0x19A4C116, 0x1E376C08, 0x2748774C, 0x34B0BCB5, 0x391C0CB3, 0x4ED8AA4A,
    0x5B9CCA4F, 0x682E6FF3, 0x748F82EE, 0x78A5636F, 0x84C87814, 0x8CC70208,
    0x90BEFFFA, 0xA4506CEB, 0xBEF9A3F7, 0xC67178F2]"

section \<open>The operations\<close>

record PHashSHA2_256 = "puint32 md_ctx" +
  is224 :: bool

definition pzcrypto_hash_sha2_256_swazbytes :: "bool \<Rightarrow> 32 swaz_fun" where
  "pzcrypto_hash_sha2_256_swazbytes be data words =
     (if be then data else map (PUINT32_TO_BE be) (take words data) @ drop words data)"

definition pzcrypto_hash_sha2_256_process :: "32 process_fun" where
  "pzcrypto_hash_sha2_256_process h data =
     (let A0 = [h ! 0, h ! 1, h ! 2, h ! 3, h ! 4, h ! 5, h ! 6, h ! 7];
          A1 = fold (sha2_body P_SHA2_256_P pzcrypto_hash_sha2_256_K data) [0, 8] A0;
          (A, W) = fold (sha2_body_next P_SHA2_256_P P_SHA2_256_R pzcrypto_hash_sha2_256_K)
            [16, 24, 32, 40, 48, 56] (A1, data)
      in map (\<lambda>i. h ! i + A ! i) [0..<8])"

definition sha256_iv :: "puint32 list" where
  "sha256_iv = [0x6A09E667, 0xBB67AE85, 0x3C6EF372, 0xA54FF53A,
    0x510E527F, 0x9B05688C, 0x1F83D9AB, 0x5BE0CD19]"

definition sha224_iv :: "puint32 list" where
  "sha224_iv = [0xC1059ED8, 0x367CD507, 0x3070DD17, 0xF70E5939,
    0xFFC00B31, 0x68581511, 0x64F98FA7, 0xBEFA4FA4]"

definition zcrypto_hash_sha2_256_reset :: "PHashSHA2_256 \<Rightarrow> PHashSHA2_256" where
  "zcrypto_hash_sha2_256_reset ctx =
     ctx\<lparr>buf := replicate 64 0, len_low := 0, len_high := 0,
         hash := (if is224 ctx = False then sha256_iv else sha224_iv)\<rparr>"

definition pzcrypto_hash_sha2_256_new_internal :: "bool \<Rightarrow> bool \<Rightarrow> PHashSHA2_256 option" where
  "pzcrypto_hash_sha2_256_new_internal mem is224_arg =
     (if \<not> mem then None
      else Some (zcrypto_hash_sha2_256_reset
        \<lparr>buf = replicate 64 0, hash = replicate 8 0, len_high = 0, len_low = 0, is224 = is224_arg\<rparr>))"

definition zcrypto_hash_sha2_256_new :: "bool \<Rightarrow> PHashSHA2_256 option" where
  "zcrypto_hash_sha2_256_new mem = pzcrypto_hash_sha2_256_new_internal mem False"

definition zcrypto_hash_sha2_224_new :: "bool \<Rightarrow> PHashSHA2_256 option" where
  "zcrypto_hash_sha2_224_new mem = pzcrypto_hash_sha2_256_new_internal mem True"

definition zcrypto_hash_sha2_256_update :: "bool \<Rightarrow> PHashSHA2_256 \<Rightarrow> puchar list \<Rightarrow> PHashSHA2_256" where
  "zcrypto_hash_sha2_256_update be =
     md_update 64 (md_block be (pzcrypto_hash_sha2_256_swazbytes be) pzcrypto_hash_sha2_256_process)"

definition zcrypto_hash_sha2_256_finish :: "bool \<Rightarrow> PHashSHA2_256 \<Rightarrow> PHashSHA2_256" where
  "zcrypto_hash_sha2_256_finish be ctx =
     md_finish be 64 56 (pzcrypto_hash_sha2_256_swazbytes be) pzcrypto_hash_sha2_256_process
       (\<lambda>high low. [high, low]) (if is224 ctx = False then 8 else 7) (md_pad 64) ctx"

definition zcrypto_hash_sha2_256_digest :: "bool \<Rightarrow> PHashSHA2_256 \<Rightarrow> puchar list" where
  "zcrypto_hash_sha2_256_digest be ctx = md_digest be ctx"

section \<open>FIPS 180-4\<close>

definition sha256_compress :: "puint32 list \<Rightarrow> puint32 list \<Rightarrow> puint32 list" where
  "sha256_compress = sha2_compress
     (\<lambda>x. word_rotr 7 x XOR word_rotr 18 x XOR drop_bit 3 x)
     (\<lambda>x. word_rotr 17 x XOR word_rotr 19 x XOR drop_bit 10 x)
     (\<lambda>x. word_rotr 2 x XOR word_rotr 13 x XOR word_rotr 22 x)
     (\<lambda>x. word_rotr 6 x XOR word_rotr 11 x XOR word_rotr 25 x)
     pzcrypto_hash_sha2_256_K 64"

definition sha256_blk :: "puint32 list \<Rightarrow> puchar list \<Rightarrow> puint32 list" where
  "sha256_blk h bs = sha256_compress h (words_of word_be 4 bs)"

definition sha256_digest_from :: "puint32 list \<Rightarrow> puchar list \<Rightarrow> puchar list" where
  "sha256_digest_from iv m = concat (map (bytes_be 4)
     (md_spec 64 56 sha256_blk (\<lambda>(high :: puint32) (low :: puint32). bytes_be 4 high @ bytes_be 4 low) iv m))"

definition sha256_digest :: "puchar list \<Rightarrow> puchar list" where
  "sha256_digest m = sha256_digest_from sha256_iv m"

definition sha224_digest :: "puchar list \<Rightarrow> puchar list" where
  "sha224_digest m = take 28 (sha256_digest_from sha224_iv m)"

section \<open>The compression function\<close>

lemma sha256_SHR: "P_SHA2_256_SHR val shift = drop_bit shift val"
proof -
  have "(0xFFFFFFFF :: puint32) = - 1" by simp
  then have "val AND 0xFFFFFFFF = val" by (simp only: and.right_neutral)
  then show ?thesis by (simp add: P_SHA2_256_SHR_def)
qed

lemma sha256_ROTR: "shift < 32 \<Longrightarrow> P_SHA2_256_ROTR val shift = word_rotr shift val"
  using rotr_shifts[of shift val] by (simp add: P_SHA2_256_ROTR_def sha256_SHR)

lemma sha256_functions:
  "P_SHA2_256_S0 = (\<lambda>x. word_rotr 7 x XOR word_rotr 18 x XOR drop_bit 3 x)"
  "P_SHA2_256_S1 = (\<lambda>x. word_rotr 17 x XOR word_rotr 19 x XOR drop_bit 10 x)"
  "P_SHA2_256_S2 = (\<lambda>x. word_rotr 2 x XOR word_rotr 13 x XOR word_rotr 22 x)"
  "P_SHA2_256_S3 = (\<lambda>x. word_rotr 6 x XOR word_rotr 11 x XOR word_rotr 25 x)"
  "P_SHA2_256_F0 = Maj" "P_SHA2_256_F1 = Ch"
proof -
  show "P_SHA2_256_F0 = Maj" "P_SHA2_256_F1 = Ch"
    by (intro ext bit_word_eqI, auto simp: P_SHA2_256_F0_def P_SHA2_256_F1_def Maj_def Ch_def bit_simps)+
qed (simp_all add: fun_eq_iff P_SHA2_256_S0_def P_SHA2_256_S1_def P_SHA2_256_S2_def P_SHA2_256_S3_def sha256_ROTR sha256_SHR)

lemma sha256_compress_macros:
  "sha256_compress = sha2_compress P_SHA2_256_S0 P_SHA2_256_S1 P_SHA2_256_S2 P_SHA2_256_S3 pzcrypto_hash_sha2_256_K 64"
  by (simp only: sha256_compress_def sha256_functions)

abbreviation sha256_W :: "puint32 list \<Rightarrow> nat \<Rightarrow> puint32 list" where
  "sha256_W \<equiv> sha2_schedule P_SHA2_256_S0 P_SHA2_256_S1"

lemma sha256_next: "length M = 16 \<Longrightarrow> P_SHA2_256_R (sha256_W M n) (16 + n) = sha256_W M (Suc n)"
  by (simp add: P_SHA2_256_R_def Let_def)

lemma sha256_process_compress:
  assumes "length M = 16"
  shows "pzcrypto_hash_sha2_256_process h M = sha256_compress h M"
proof -
  let ?start = "[h ! 0, h ! 1, h ! 2, h ! 3, h ! 4, h ! 5, h ! 6, h ! 7]"
  let ?W = "sha256_W M 48" and ?K = "pzcrypto_hash_sha2_256_K"
  let ?body = "sha2_body P_SHA2_256_P ?K ?W" and ?next = "sha2_body_next P_SHA2_256_P P_SHA2_256_R ?K"
  let ?A = "fold ?body (map ((*) 8) [0..<8]) ?start"
  have idx: "map ((*) 8) [0..<8] = [0, 8, 16, 24, 32, 40, 48, 56 :: nat]"
    by (simp add: upt_rec)
  have read: "sha2_body P_SHA2_256_P ?K M i B = ?body i B" if "i + 8 \<le> 16" for i B
  proof -
    have "M ! j = ?W ! j" if "j < 16" for j
      using that sha2_schedule_prefix[of j M 0 P_SHA2_256_S0 P_SHA2_256_S1 48] assms by simp
    with that show ?thesis
      unfolding sha2_body_def by (intro fold_cong) (auto simp: sha2_calls_def)
  qed
  have "?next i (B, sha256_W M (i - 16)) = (?body i B, sha256_W M (i + 8 - 16))"
    if "16 \<le> i" "i + 8 \<le> 64" "length B = 8" for i B
    using sha2_body_next_rounds[of B P_SHA2_256_F0 P_SHA2_256_F1 P_SHA2_256_R P_SHA2_256_S0 P_SHA2_256_S1 M i 48
        "sha256_W M (i - 16)" P_SHA2_256_S2 P_SHA2_256_S3 ?K] that assms sha256_next[OF assms]
    by (simp add: P_SHA2_256_P_def sha256_functions(5,6) prod_eq_iff)
  note this[of 16] this[of 24] this[of 32] this[of 40] this[of 48] this[of 56]
  moreover have len: "length (?body i B) = 8" if "length B = 8" for i B
    using sha2_body_rounds(1)[OF that sha256_functions(5,6)] by (simp add: P_SHA2_256_P_def)
  ultimately have loops: "fold ?next [16, 24, 32, 40, 48, 56] (fold (sha2_body P_SHA2_256_P ?K M) [0, 8] ?start, M) =
      (?A, ?W)"
    by (simp add: idx read)
  have "length ?A = 8" "sha2_view 0 ?A = fold (sha2_step P_SHA2_256_S2 P_SHA2_256_S3 ?K ?W) [0..<64] (sha2_view 0 ?start)"
    using sha2_bodies_rounds[of ?start P_SHA2_256_F0 P_SHA2_256_F1 P_SHA2_256_S2 P_SHA2_256_S3 ?K ?W 0 8]
    by (simp_all add: P_SHA2_256_P_def sha256_functions(5,6))
  moreover from this(1) obtain a b c d e f g i where A: "?A = [a, b, c, d, e, f, g, i]"
    by (rule list8_cases)
  ultimately have "fold (sha2_step P_SHA2_256_S2 P_SHA2_256_S3 ?K ?W) [0..<64] (h ! 0, h ! 1, h ! 2, h ! 3, h ! 4, h ! 5, h ! 6, h ! 7) =
      (a, b, c, d, e, f, g, i)"
    by (simp add: sha2_view_def)
  moreover have "[0..<8] = [0, 1, 2, 3, 4, 5, 6, 7 :: nat]" by (simp add: upt_rec)
  ultimately show ?thesis
    using loops A
    by (simp add: pzcrypto_hash_sha2_256_process_def sha256_compress_macros sha2_compress_def Let_def)
qed

section \<open>Streaming\<close>

lemma sha256_swazbytes_alt:
  "pzcrypto_hash_sha2_256_swazbytes be ws n = map (PUINT32_TO_BE be) (take n ws) @ drop n ws"
  by (cases be) (simp_all add: pzcrypto_hash_sha2_256_swazbytes_def)

interpretation sha256: md_hash_pad be 64 6 "pzcrypto_hash_sha2_256_swazbytes be"
    pzcrypto_hash_sha2_256_process sha256_blk 56 "\<lambda>high low. [high, low]"
    "\<lambda>high low. bytes_be 4 high @ bytes_be 4 low" for be
proof
  fix bs :: "puchar list" and h
  show "pzcrypto_hash_sha2_256_process h (pzcrypto_hash_sha2_256_swazbytes be (buf_w be bs) 16) = sha256_blk h bs"
    if "length bs = 64"
    using that
    by (simp add: sha256_swazbytes_alt sha256_blk_def sha256_process_compress buf_w_def map_words_of order_of_host_word)
  show "pzcrypto_hash_sha2_256_process h (pzcrypto_hash_sha2_256_swazbytes be (buf_w be bs @ [high, low]) 14) =
      sha256_blk h (bs @ bytes_be 4 high @ bytes_be 4 low)" if "length bs = 56" for low high
    using that
    by (simp add: sha256_swazbytes_alt sha256_blk_def sha256_process_compress buf_w_def map_words_of order_of_host_word
        words_of_append words_of_one word_be_bytes_be)
qed (simp_all add: sha256_swazbytes_alt)

lemma sha256_new_rep:
  assumes "pzcrypto_hash_sha2_256_new_internal True alt = Some ctx"
  shows "sha256.md_rep (if alt then sha224_iv else sha256_iv) ctx []" "is224 ctx = alt"
  using assms
  by (auto simp: pzcrypto_hash_sha2_256_new_internal_def zcrypto_hash_sha2_256_reset_def sha256.md_rep_def
      md_shape_def md_count_def absorb_less)

lemma sha256_more: "md_ctx.more ctx = md_ctx.more ctx' \<Longrightarrow> is224 ctx = is224 ctx'"
  by (cases ctx; cases ctx') simp

lemma length_sha256_spec:
  "length h = 8 \<Longrightarrow> length (md_spec 64 56 sha256_blk (enc :: puint32 \<Rightarrow> puint32 \<Rightarrow> _) h m) = 8"
  unfolding md_spec_def
  by (rule absorb_inv) (simp_all add: sha256_blk_def sha256_compress_def sha2_compress_def split_def Let_def)

text \<open>Both variants at once: the digest array holds the digest in its first bytes.\<close>

lemma sha256_streaming_gen:
  assumes "pzcrypto_hash_sha2_256_new_internal True alt = Some ctx" "\<forall>d \<in> set ds. length d < 2 ^ 32"
  defines "iv \<equiv> if alt then sha224_iv else sha256_iv" and "n \<equiv> if alt then 7 else 8"
  shows "take (4 * n) (zcrypto_hash_sha2_256_digest be (zcrypto_hash_sha2_256_finish be
      (foldl (zcrypto_hash_sha2_256_update be) ctx ds))) = take (4 * n) (sha256_digest_from iv (concat ds))"
proof -
  let ?ctx = "foldl (zcrypto_hash_sha2_256_update be) ctx ds"
  let ?h = "md_spec 64 56 sha256_blk (\<lambda>(high :: puint32) (low :: puint32). bytes_be 4 high @ bytes_be 4 low) iv (concat ds)"
  have rep: "sha256.md_rep iv ?ctx ([] @ concat ds)" and "md_ctx.more ?ctx = md_ctx.more ctx"
    unfolding zcrypto_hash_sha2_256_update_def iv_def
    using sha256_new_rep(1)[OF assms(1)] assms(2) by (intro sha256.updates_rep; simp)+
  then have alt: "is224 ?ctx = alt"
    using sha256_more[of ?ctx ctx] sha256_new_rep(2)[OF assms(1)] by simp
  have "hash (zcrypto_hash_sha2_256_finish be ?ctx) = pzcrypto_hash_sha2_256_swazbytes be ?h n"
    using sha256.finish_spec(1)[OF rep, of be n] alt
    by (cases alt) (simp_all add: zcrypto_hash_sha2_256_finish_def n_def)
  moreover have "length ?h = 8"
    by (rule length_sha256_spec) (simp add: iv_def sha256_iv_def sha224_iv_def)
  moreover have "n \<le> 8" by (simp add: n_def)
  ultimately show ?thesis
    using digest_prefix[of n ?h be "PUINT32_TO_BE be" "bytes_be 4"]
    by (simp add: zcrypto_hash_sha2_256_digest_def md_digest_def sha256_digest_from_def sha256_swazbytes_alt
        host_bytes_of_order)
qed

lemma length_sha256_digest_from: "length iv = 8 \<Longrightarrow> length (sha256_digest_from iv m) = 32"
  by (simp add: sha256_digest_from_def length_concat o_def length_sha256_spec sum_list_triv)



text \<open>
  The same for SHA-224, whose digest is the first 28 bytes of the array that
  \<^verbatim>\<open>zcrypto_hash_sha2_256_digest\<close> returns.
\<close>

theorem sha224_streaming:
  assumes "zcrypto_hash_sha2_224_new True = Some ctx" "\<forall>d \<in> set ds. length d < 2 ^ 32"
  shows "take 28 (zcrypto_hash_sha2_256_digest be (zcrypto_hash_sha2_256_finish be
      (foldl (zcrypto_hash_sha2_256_update be) ctx ds))) = sha224_digest (concat ds)"
  using sha256_streaming_gen[of True ctx ds be] assms
  by (simp add: zcrypto_hash_sha2_224_new_def sha224_digest_def)

theorem sha224_streaming_witness:
  "take 28 (zcrypto_hash_sha2_256_digest True (zcrypto_hash_sha2_256_finish True
     (foldl (zcrypto_hash_sha2_256_update True) (the (zcrypto_hash_sha2_224_new True)) [[0x61], [0x62, 0x63]]))) =
    sha224_digest [0x61, 0x62, 0x63]"
  using sha224_streaming[of "the (zcrypto_hash_sha2_224_new True)" "[[0x61], [0x62, 0x63]]" True]
  by (simp add: zcrypto_hash_sha2_224_new_def pzcrypto_hash_sha2_256_new_internal_def)

end
