(* ===== verification/PCryptoHash_SHA512.thy ===== *)
theory PCryptoHash_SHA512
  imports Hash_SHA2
begin

text \<open>
  SHA-512 and SHA-384 of \<^verbatim>\<open>src/src/lib/pcryptohash-sha2-512.c\<close>: the compression function
  with its equivalence to FIPS 180-4, and the context operations over the block machinery.
\<close>

section \<open>The macros\<close>

definition P_SHA2_512_SHR :: "puint64 \<Rightarrow> nat \<Rightarrow> puint64" where
  "P_SHA2_512_SHR val shift = drop_bit shift val"

definition P_SHA2_512_ROTR :: "puint64 \<Rightarrow> nat \<Rightarrow> puint64" where
  "P_SHA2_512_ROTR val shift = P_SHA2_512_SHR val shift OR push_bit (64 - shift) val"

definition P_SHA2_512_S0 :: "puint64 \<Rightarrow> puint64" where
  "P_SHA2_512_S0 x = P_SHA2_512_ROTR x 1 XOR P_SHA2_512_ROTR x 8 XOR P_SHA2_512_SHR x 7"

definition P_SHA2_512_S1 :: "puint64 \<Rightarrow> puint64" where
  "P_SHA2_512_S1 x = P_SHA2_512_ROTR x 19 XOR P_SHA2_512_ROTR x 61 XOR P_SHA2_512_SHR x 6"

definition P_SHA2_512_S2 :: "puint64 \<Rightarrow> puint64" where
  "P_SHA2_512_S2 x = P_SHA2_512_ROTR x 28 XOR P_SHA2_512_ROTR x 34 XOR P_SHA2_512_ROTR x 39"

definition P_SHA2_512_S3 :: "puint64 \<Rightarrow> puint64" where
  "P_SHA2_512_S3 x = P_SHA2_512_ROTR x 14 XOR P_SHA2_512_ROTR x 18 XOR P_SHA2_512_ROTR x 41"

definition P_SHA2_512_F0 :: "puint64 \<Rightarrow> puint64 \<Rightarrow> puint64 \<Rightarrow> puint64" where
  "P_SHA2_512_F0 x y z = (x AND y) OR (z AND (x OR y))"

definition P_SHA2_512_F1 :: "puint64 \<Rightarrow> puint64 \<Rightarrow> puint64 \<Rightarrow> puint64" where
  "P_SHA2_512_F1 x y z = z XOR (x AND (y XOR z))"

text \<open>
  The assignment to \<^verbatim>\<open>W[i]\<close> in the schedule loop. It runs for rising \<open>i\<close> from 16, so the array
  written so far has \<open>i\<close> elements and the new word is appended.
\<close>

definition sha2_512_W :: "puint64 list \<Rightarrow> nat \<Rightarrow> puint64 list" where
  "sha2_512_W W t = W @ [P_SHA2_512_S1 (W ! (t - 2)) + W ! (t - 7) + P_SHA2_512_S0 (W ! (t - 15)) + W ! (t - 16)]"

definition P_SHA2_512_P :: "sha2_regs \<Rightarrow> puint64 \<Rightarrow> puint64 \<Rightarrow> puint64 list \<Rightarrow> puint64 list" where
  "P_SHA2_512_P = sha2_P P_SHA2_512_S2 P_SHA2_512_S3 P_SHA2_512_F0 P_SHA2_512_F1"

definition pzcrypto_hash_sha2_512_K :: "puint64 list" where
  "pzcrypto_hash_sha2_512_K = [
    0x428A2F98D728AE22, 0x7137449123EF65CD, 0xB5C0FBCFEC4D3B2F, 0xE9B5DBA58189DBBC,
    0x3956C25BF348B538, 0x59F111F1B605D019, 0x923F82A4AF194F9B, 0xAB1C5ED5DA6D8118,
    0xD807AA98A3030242, 0x12835B0145706FBE, 0x243185BE4EE4B28C, 0x550C7DC3D5FFB4E2,
    0x72BE5D74F27B896F, 0x80DEB1FE3B1696B1, 0x9BDC06A725C71235, 0xC19BF174CF692694,
    0xE49B69C19EF14AD2, 0xEFBE4786384F25E3, 0x0FC19DC68B8CD5B5, 0x240CA1CC77AC9C65,
    0x2DE92C6F592B0275, 0x4A7484AA6EA6E483, 0x5CB0A9DCBD41FBD4, 0x76F988DA831153B5,
    0x983E5152EE66DFAB, 0xA831C66D2DB43210, 0xB00327C898FB213F, 0xBF597FC7BEEF0EE4,
    0xC6E00BF33DA88FC2, 0xD5A79147930AA725, 0x06CA6351E003826F, 0x142929670A0E6E70,
    0x27B70A8546D22FFC, 0x2E1B21385C26C926, 0x4D2C6DFC5AC42AED, 0x53380D139D95B3DF,
    0x650A73548BAF63DE, 0x766A0ABB3C77B2A8, 0x81C2C92E47EDAEE6, 0x92722C851482353B,
    0xA2BFE8A14CF10364, 0xA81A664BBC423001, 0xC24B8B70D0F89791, 0xC76C51A30654BE30,
    0xD192E819D6EF5218, 0xD69906245565A910, 0xF40E35855771202A, 0x106AA07032BBD1B8,
    0x19A4C116B8D2D0C8, 0x1E376C085141AB53, 0x2748774CDF8EEB99, 0x34B0BCB5E19B48A8,
    0x391C0CB3C5C95A63, 0x4ED8AA4AE3418ACB, 0x5B9CCA4F7763E373, 0x682E6FF3D6B2B8A3,
    0x748F82EE5DEFB2FC, 0x78A5636F43172F60, 0x84C87814A1F0AB72, 0x8CC702081A6439EC,
    0x90BEFFFA23631E28, 0xA4506CEBDE82BDE9, 0xBEF9A3F7B2C67915, 0xC67178F2E372532B,
    0xCA273ECEEA26619C, 0xD186B8C721C0C207, 0xEADA7DD6CDE0EB1E, 0xF57D4F7FEE6ED178,
    0x06F067AA72176FBA, 0x0A637DC5A2C898A6, 0x113F9804BEF90DAE, 0x1B710B35131C471B,
    0x28DB77F523047D84, 0x32CAAB7B40C72493, 0x3C9EBE0A15C9BEBC, 0x431D67C49C100D4C,
    0x4CC5D4BECB3E42B6, 0x597F299CFC657E2A, 0x5FCB6FAB3AD6FAEC, 0x6C44198C4A475817]"

section \<open>The operations\<close>

record PHashSHA2_512 = "puint64 md_ctx" +
  is384 :: bool

definition pzcrypto_hash_sha2_512_swazbytes :: "bool \<Rightarrow> 64 swaz_fun" where
  "pzcrypto_hash_sha2_512_swazbytes be data words =
     (if be then data else map (PUINT64_TO_BE be) (take words data) @ drop words data)"

definition pzcrypto_hash_sha2_512_process :: "64 process_fun" where
  "pzcrypto_hash_sha2_512_process h data =
     (let A0 = [h ! 0, h ! 1, h ! 2, h ! 3, h ! 4, h ! 5, h ! 6, h ! 7];
          W = fold (\<lambda>i W. sha2_512_W W i) [16..<80] data;
          A = fold (sha2_body P_SHA2_512_P pzcrypto_hash_sha2_512_K W) [0, 8, 16, 24, 32, 40, 48, 56, 64, 72] A0
      in map (\<lambda>i. h ! i + A ! i) [0..<8])"

definition sha512_iv :: "puint64 list" where
  "sha512_iv = [0x6A09E667F3BCC908, 0xBB67AE8584CAA73B, 0x3C6EF372FE94F82B, 0xA54FF53A5F1D36F1,
    0x510E527FADE682D1, 0x9B05688C2B3E6C1F, 0x1F83D9ABFB41BD6B, 0x5BE0CD19137E2179]"

definition sha384_iv :: "puint64 list" where
  "sha384_iv = [0xCBBB9D5DC1059ED8, 0x629A292A367CD507, 0x9159015A3070DD17, 0x152FECD8F70E5939,
    0x67332667FFC00B31, 0x8EB44A8768581511, 0xDB0C2E0D64F98FA7, 0x47B5481DBEFA4FA4]"

definition zcrypto_hash_sha2_512_reset :: "PHashSHA2_512 \<Rightarrow> PHashSHA2_512" where
  "zcrypto_hash_sha2_512_reset ctx =
     ctx\<lparr>buf := replicate 128 0, len_low := 0, len_high := 0,
         hash := (if is384 ctx = False then sha512_iv else sha384_iv)\<rparr>"

definition pzcrypto_hash_sha2_512_new_internal :: "bool \<Rightarrow> bool \<Rightarrow> PHashSHA2_512 option" where
  "pzcrypto_hash_sha2_512_new_internal mem is384_arg =
     (if \<not> mem then None
      else Some (zcrypto_hash_sha2_512_reset
        \<lparr>buf = replicate 128 0, hash = replicate 8 0, len_high = 0, len_low = 0, is384 = is384_arg\<rparr>))"

definition zcrypto_hash_sha2_512_new :: "bool \<Rightarrow> PHashSHA2_512 option" where
  "zcrypto_hash_sha2_512_new mem = pzcrypto_hash_sha2_512_new_internal mem False"

definition zcrypto_hash_sha2_384_new :: "bool \<Rightarrow> PHashSHA2_512 option" where
  "zcrypto_hash_sha2_384_new mem = pzcrypto_hash_sha2_512_new_internal mem True"

definition zcrypto_hash_sha2_512_update :: "bool \<Rightarrow> PHashSHA2_512 \<Rightarrow> puchar list \<Rightarrow> PHashSHA2_512" where
  "zcrypto_hash_sha2_512_update be =
     md_update 128 (md_block be (pzcrypto_hash_sha2_512_swazbytes be) pzcrypto_hash_sha2_512_process)"

definition zcrypto_hash_sha2_512_finish :: "bool \<Rightarrow> PHashSHA2_512 \<Rightarrow> PHashSHA2_512" where
  "zcrypto_hash_sha2_512_finish be ctx =
     md_finish be 128 112 (pzcrypto_hash_sha2_512_swazbytes be) pzcrypto_hash_sha2_512_process
       (\<lambda>high low. [high, low]) (if is384 ctx = False then 8 else 6) (md_pad 128) ctx"

definition zcrypto_hash_sha2_512_digest :: "bool \<Rightarrow> PHashSHA2_512 \<Rightarrow> puchar list" where
  "zcrypto_hash_sha2_512_digest be ctx = md_digest be ctx"

section \<open>FIPS 180-4\<close>

definition sha512_compress :: "puint64 list \<Rightarrow> puint64 list \<Rightarrow> puint64 list" where
  "sha512_compress = sha2_compress
     (\<lambda>x. word_rotr 1 x XOR word_rotr 8 x XOR drop_bit 7 x)
     (\<lambda>x. word_rotr 19 x XOR word_rotr 61 x XOR drop_bit 6 x)
     (\<lambda>x. word_rotr 28 x XOR word_rotr 34 x XOR word_rotr 39 x)
     (\<lambda>x. word_rotr 14 x XOR word_rotr 18 x XOR word_rotr 41 x)
     pzcrypto_hash_sha2_512_K 80"

definition sha512_blk :: "puint64 list \<Rightarrow> puchar list \<Rightarrow> puint64 list" where
  "sha512_blk h bs = sha512_compress h (words_of word_be 8 bs)"

definition sha512_digest_from :: "puint64 list \<Rightarrow> puchar list \<Rightarrow> puchar list" where
  "sha512_digest_from iv m = concat (map (bytes_be 8)
     (md_spec 128 112 sha512_blk (\<lambda>(high :: puint64) (low :: puint64). bytes_be 8 high @ bytes_be 8 low) iv m))"

definition sha512_digest :: "puchar list \<Rightarrow> puchar list" where
  "sha512_digest m = sha512_digest_from sha512_iv m"

definition sha384_digest :: "puchar list \<Rightarrow> puchar list" where
  "sha384_digest m = take 48 (sha512_digest_from sha384_iv m)"

section \<open>The compression function\<close>

lemma sha512_SHR: "P_SHA2_512_SHR val shift = drop_bit shift val"
  by (simp add: P_SHA2_512_SHR_def)

lemma sha512_ROTR: "shift < 64 \<Longrightarrow> P_SHA2_512_ROTR val shift = word_rotr shift val"
  using rotr_shifts[of shift val] by (simp add: P_SHA2_512_ROTR_def sha512_SHR)

lemma sha512_functions:
  "P_SHA2_512_S0 = (\<lambda>x. word_rotr 1 x XOR word_rotr 8 x XOR drop_bit 7 x)"
  "P_SHA2_512_S1 = (\<lambda>x. word_rotr 19 x XOR word_rotr 61 x XOR drop_bit 6 x)"
  "P_SHA2_512_S2 = (\<lambda>x. word_rotr 28 x XOR word_rotr 34 x XOR word_rotr 39 x)"
  "P_SHA2_512_S3 = (\<lambda>x. word_rotr 14 x XOR word_rotr 18 x XOR word_rotr 41 x)"
  "P_SHA2_512_F0 = Maj" "P_SHA2_512_F1 = Ch"
proof -
  show "P_SHA2_512_F0 = Maj" "P_SHA2_512_F1 = Ch"
    by (intro ext bit_word_eqI, auto simp: P_SHA2_512_F0_def P_SHA2_512_F1_def Maj_def Ch_def bit_simps)+
qed (simp_all add: fun_eq_iff P_SHA2_512_S0_def P_SHA2_512_S1_def P_SHA2_512_S2_def P_SHA2_512_S3_def sha512_ROTR sha512_SHR)

lemma sha512_compress_macros:
  "sha512_compress = sha2_compress P_SHA2_512_S0 P_SHA2_512_S1 P_SHA2_512_S2 P_SHA2_512_S3 pzcrypto_hash_sha2_512_K 80"
  by (simp only: sha512_compress_def sha512_functions)

abbreviation sha512_W :: "puint64 list \<Rightarrow> nat \<Rightarrow> puint64 list" where
  "sha512_W \<equiv> sha2_schedule P_SHA2_512_S0 P_SHA2_512_S1"

lemma sha512_next: "length M = 16 \<Longrightarrow> sha2_512_W (sha512_W M n) (16 + n) = sha512_W M (Suc n)"
  by (simp add: sha2_512_W_def Let_def)

lemma sha512_process_compress:
  assumes "length M = 16"
  shows "pzcrypto_hash_sha2_512_process h M = sha512_compress h M"
proof -
  let ?start = "[h ! 0, h ! 1, h ! 2, h ! 3, h ! 4, h ! 5, h ! 6, h ! 7]"
  let ?W = "sha512_W M 64" and ?K = "pzcrypto_hash_sha2_512_K"
  let ?A = "fold (sha2_body P_SHA2_512_P ?K ?W) (map ((*) 8) [0..<10]) ?start"
  have idx: "map ((*) 8) [0..<10] = [0, 8, 16, 24, 32, 40, 48, 56, 64, 72 :: nat]"
    by (simp add: upt_rec)
  have "fold (\<lambda>i W. sha2_512_W W i) [16..<16 + n] M = sha512_W M n" for n
  proof (induction n)
    case (Suc n)
    have "[16..<16 + Suc n] = [16..<16 + n] @ [16 + n]"
      by (metis add_Suc_right le_add1 upt_Suc_append)
    with Suc show ?case by (simp only: fold_append o_apply fold_simps sha512_next[OF assms])
  qed simp
  from this[of 64] have W: "fold (\<lambda>i W. sha2_512_W W i) [16..<80] M = ?W" by simp
  have "length ?A = 8" "sha2_view 0 ?A = fold (sha2_step P_SHA2_512_S2 P_SHA2_512_S3 ?K ?W) [0..<80] (sha2_view 0 ?start)"
    using sha2_bodies_rounds[of ?start P_SHA2_512_F0 P_SHA2_512_F1 P_SHA2_512_S2 P_SHA2_512_S3 ?K ?W 0 10]
    by (simp_all add: P_SHA2_512_P_def sha512_functions(5,6))
  moreover from this(1) obtain a b c d e f g i where A: "?A = [a, b, c, d, e, f, g, i]"
    by (rule list8_cases)
  ultimately have "fold (sha2_step P_SHA2_512_S2 P_SHA2_512_S3 ?K ?W) [0..<80] (h ! 0, h ! 1, h ! 2, h ! 3, h ! 4, h ! 5, h ! 6, h ! 7) =
      (a, b, c, d, e, f, g, i)"
    by (simp add: sha2_view_def)
  moreover have "[0..<8] = [0, 1, 2, 3, 4, 5, 6, 7 :: nat]" by (simp add: upt_rec)
  ultimately show ?thesis
    using W A[unfolded idx]
    by (simp add: pzcrypto_hash_sha2_512_process_def sha512_compress_macros sha2_compress_def Let_def)
qed

section \<open>Streaming\<close>

lemma sha512_swazbytes_alt:
  "pzcrypto_hash_sha2_512_swazbytes be ws n = map (PUINT64_TO_BE be) (take n ws) @ drop n ws"
  by (cases be) (simp_all add: pzcrypto_hash_sha2_512_swazbytes_def)

interpretation sha512: md_hash_pad be 128 7 "pzcrypto_hash_sha2_512_swazbytes be"
    pzcrypto_hash_sha2_512_process sha512_blk 112 "\<lambda>high low. [high, low]"
    "\<lambda>high low. bytes_be 8 high @ bytes_be 8 low" for be
proof
  fix bs :: "puchar list" and h
  show "pzcrypto_hash_sha2_512_process h (pzcrypto_hash_sha2_512_swazbytes be (buf_w be bs) 16) = sha512_blk h bs"
    if "length bs = 128"
    using that
    by (simp add: sha512_swazbytes_alt sha512_blk_def sha512_process_compress buf_w_def map_words_of order_of_host_word)
  show "pzcrypto_hash_sha2_512_process h (pzcrypto_hash_sha2_512_swazbytes be (buf_w be bs @ [high, low]) 14) =
      sha512_blk h (bs @ bytes_be 8 high @ bytes_be 8 low)" if "length bs = 112" for low high
    using that
    by (simp add: sha512_swazbytes_alt sha512_blk_def sha512_process_compress buf_w_def map_words_of order_of_host_word
        words_of_append words_of_one word_be_bytes_be)
qed (simp_all add: sha512_swazbytes_alt)

lemma sha512_new_rep:
  assumes "pzcrypto_hash_sha2_512_new_internal True alt = Some ctx"
  shows "sha512.md_rep (if alt then sha384_iv else sha512_iv) ctx []" "is384 ctx = alt"
  using assms
  by (auto simp: pzcrypto_hash_sha2_512_new_internal_def zcrypto_hash_sha2_512_reset_def sha512.md_rep_def
      md_shape_def md_count_def absorb_less)

lemma sha512_more: "md_ctx.more ctx = md_ctx.more ctx' \<Longrightarrow> is384 ctx = is384 ctx'"
  by (cases ctx; cases ctx') simp

lemma length_sha512_spec:
  "length h = 8 \<Longrightarrow> length (md_spec 128 112 sha512_blk (enc :: puint64 \<Rightarrow> puint64 \<Rightarrow> _) h m) = 8"
  unfolding md_spec_def
  by (rule absorb_inv) (simp_all add: sha512_blk_def sha512_compress_def sha2_compress_def split_def Let_def)

text \<open>Both variants at once: the digest array holds the digest in its first bytes.\<close>

lemma sha512_streaming_gen:
  assumes "pzcrypto_hash_sha2_512_new_internal True alt = Some ctx" "\<forall>d \<in> set ds. length d < 2 ^ 64"
  defines "iv \<equiv> if alt then sha384_iv else sha512_iv" and "n \<equiv> if alt then 6 else 8"
  shows "take (8 * n) (zcrypto_hash_sha2_512_digest be (zcrypto_hash_sha2_512_finish be
      (foldl (zcrypto_hash_sha2_512_update be) ctx ds))) = take (8 * n) (sha512_digest_from iv (concat ds))"
proof -
  let ?ctx = "foldl (zcrypto_hash_sha2_512_update be) ctx ds"
  let ?h = "md_spec 128 112 sha512_blk (\<lambda>(high :: puint64) (low :: puint64). bytes_be 8 high @ bytes_be 8 low) iv (concat ds)"
  have rep: "sha512.md_rep iv ?ctx ([] @ concat ds)" and "md_ctx.more ?ctx = md_ctx.more ctx"
    unfolding zcrypto_hash_sha2_512_update_def iv_def
    using sha512_new_rep(1)[OF assms(1)] assms(2) by (intro sha512.updates_rep; simp)+
  then have alt: "is384 ?ctx = alt"
    using sha512_more[of ?ctx ctx] sha512_new_rep(2)[OF assms(1)] by simp
  have "hash (zcrypto_hash_sha2_512_finish be ?ctx) = pzcrypto_hash_sha2_512_swazbytes be ?h n"
    using sha512.finish_spec(1)[OF rep, of be n] alt
    by (cases alt) (simp_all add: zcrypto_hash_sha2_512_finish_def n_def)
  moreover have "length ?h = 8"
    by (rule length_sha512_spec) (simp add: iv_def sha512_iv_def sha384_iv_def)
  moreover have "n \<le> 8" by (simp add: n_def)
  ultimately show ?thesis
    using digest_prefix[of n ?h be "PUINT64_TO_BE be" "bytes_be 8"]
    by (simp add: zcrypto_hash_sha2_512_digest_def md_digest_def sha512_digest_from_def sha512_swazbytes_alt
        host_bytes_of_order)
qed

lemma length_sha512_digest_from: "length iv = 8 \<Longrightarrow> length (sha512_digest_from iv m) = 64"
  by (simp add: sha512_digest_from_def length_concat o_def length_sha512_spec sum_list_triv)



text \<open>
  The same for SHA-384, whose digest is the first 48 bytes of the array that
  \<^verbatim>\<open>zcrypto_hash_sha2_512_digest\<close> returns.
\<close>

theorem sha384_streaming:
  assumes "zcrypto_hash_sha2_384_new True = Some ctx" "\<forall>d \<in> set ds. length d < 2 ^ 64"
  shows "take 48 (zcrypto_hash_sha2_512_digest be (zcrypto_hash_sha2_512_finish be
      (foldl (zcrypto_hash_sha2_512_update be) ctx ds))) = sha384_digest (concat ds)"
  using sha512_streaming_gen[of True ctx ds be] assms
  by (simp add: zcrypto_hash_sha2_384_new_def sha384_digest_def)

theorem sha384_streaming_witness:
  "take 48 (zcrypto_hash_sha2_512_digest True (zcrypto_hash_sha2_512_finish True
     (foldl (zcrypto_hash_sha2_512_update True) (the (zcrypto_hash_sha2_384_new True)) [[0x61], [0x62, 0x63]]))) =
    sha384_digest [0x61, 0x62, 0x63]"
  using sha384_streaming[of "the (zcrypto_hash_sha2_384_new True)" "[[0x61], [0x62, 0x63]]" True]
  by (simp add: zcrypto_hash_sha2_384_new_def pzcrypto_hash_sha2_512_new_internal_def)

end
