(* ===== verification/Hash_Buffer.thy ===== *)
theory Hash_Buffer
  imports Hash_Block
begin

text \<open>
  The buffering of \<^verbatim>\<open>pcryptohash-sha3.c\<close> and \<^verbatim>\<open>pcryptohash-gost3411.c\<close>: a buffer that may
  be larger than a block and a hash state of any type. The loops have the same shape as
  those of \<open>Hash_Block\<close>, but each algorithm keeps its own counter.
\<close>

section \<open>The loops of an update\<close>

fun bb_blocks :: "nat \<Rightarrow> (puchar list \<times> 'h \<Rightarrow> puchar list \<times> 'h) \<Rightarrow> puchar list \<times> 'h \<Rightarrow> puchar list \<Rightarrow>
    (puchar list \<times> 'h) \<times> puchar list" where
  "bb_blocks B block (bf, h) data =
     (if 0 < B \<and> B \<le> length data
      then bb_blocks B block (block (memcpy bf 0 (take B data), h)) (drop B data)
      else ((bf, h), data))"

declare bb_blocks.simps [simp del]

text \<open>\<open>full\<close> is the outcome of the test \<^verbatim>\<open>len >= to_fill\<close>.\<close>

definition bb_update :: "nat \<Rightarrow> (puchar list \<times> 'h \<Rightarrow> puchar list \<times> 'h) \<Rightarrow> bool \<Rightarrow> nat \<Rightarrow>
    puchar list \<times> 'h \<Rightarrow> puchar list \<Rightarrow> puchar list \<times> 'h" where
  "bb_update B block full left st data =
     (let to_fill = B - left;
          (st1, data1, left1) =
            (if left \<noteq> 0 \<and> full
             then (block (memcpy (fst st) left (take to_fill data), snd st), drop to_fill data, 0)
             else (st, data, left));
          (st2, data2) = bb_blocks B block st1 data1
      in if data2 \<noteq> [] then (memcpy (fst st2) left1 data2, snd st2) else st2)"

section \<open>Streaming through a buffer\<close>

locale block_buffer =
  fixes B cap :: nat and block :: "puchar list \<times> 'h \<Rightarrow> puchar list \<times> 'h" and blk :: "'h \<Rightarrow> puchar list \<Rightarrow> 'h"
    and ok :: "'h \<Rightarrow> bool"
  assumes B_pos: "0 < B" and B_cap: "B \<le> cap"
    and blk_ok: "ok h \<Longrightarrow> ok (blk h bs)"
    and block_hash: "length bf = cap \<Longrightarrow> ok h \<Longrightarrow> snd (block (bf, h)) = blk h (take B bf)"
    and block_buf: "length bf = cap \<Longrightarrow> ok h \<Longrightarrow> length (fst (block (bf, h))) = cap"
begin

lemma blocks_spec:
  assumes "length bf = cap" "ok h" "bb_blocks B block (bf, h) data = ((bf', h'), rest)"
  shows "absorb B blk h data = (h', rest) \<and> length bf' = cap \<and> (length data < B \<longrightarrow> bf' = bf)"
  using assms
proof (induction data arbitrary: bf h rule: length_induct)
  case (1 data)
  show ?case
  proof (cases "B \<le> length data")
    case True
    let ?bf = "memcpy bf 0 (take B data)"
    obtain bf1 h1 where b: "block (?bf, h) = (bf1, h1)" by fastforce
    have len: "length ?bf = cap" "take B ?bf = take B data"
      using True B_cap "1.prems"(1) by (simp_all add: memcpy_def)
    have "bb_blocks B block (bf1, h1) (drop B data) = ((bf', h'), rest)"
      using "1.prems"(3) True B_pos b by (subst (asm) bb_blocks.simps) simp
    moreover have "length bf1 = cap" "h1 = blk h (take B data)" "ok h1"
      using block_buf[OF len(1), of h] block_hash[OF len(1), of h] b len(2) "1.prems"(2) blk_ok by simp_all
    ultimately have "absorb B blk h1 (drop B data) = (h', rest) \<and> length bf' = cap"
      using "1.IH"[rule_format, of "drop B data" bf1 h1] True B_pos by simp
    then show ?thesis
      using True B_pos \<open>h1 = _\<close> by (subst absorb.simps) simp
  next
    case False
    with "1.prems" show ?thesis
      by (subst absorb.simps) (auto simp: bb_blocks.simps[of B])
  qed
qed

lemma tail_stage:
  assumes "length bf = cap" "left = 0 \<or> left + length data < B" "left < B" "ok h"
    and "bb_blocks B block (bf, h) data = ((bf', h'), rest)"
    and "res = (if rest \<noteq> [] then memcpy bf' left rest else bf')"
  shows "absorb B blk h (take left bf @ data) = (h', take ((left + length data) mod B) res)"
    and "length res = cap"
proof -
  note spec = blocks_spec[OF assms(1,4,5)]
  have rest: "length rest = length data mod B"
    using spec by (blast intro: length_absorb_tail[OF B_pos])
  have "left + length rest \<le> B"
    using assms(2,3) rest B_pos by (auto simp: less_imp_le)
  then have fits: "left + length rest \<le> cap" using B_cap by simp
  then show "length res = cap"
    using spec assms(6) by auto
  have buf: "take (left + length rest) res = take left bf' @ rest"
    using fits spec assms(6) by auto
  show "absorb B blk h (take left bf @ data) = (h', take ((left + length data) mod B) res)"
    using assms(2)
  proof
    assume "left = 0"
    with spec rest buf show ?thesis by simp
  next
    assume less: "left + length data < B"
    then have "length data < B" by simp
    then have same: "bf' = bf" "rest = data" "h' = h"
      using spec absorb_less[of data B blk h] by (blast, metis prod.inject, metis prod.inject)
    have "length (take left bf) = left"
      using assms(1,3) B_cap by simp
    then have "absorb B blk h (take left bf @ data) = (h, take left bf @ data)"
      using less by (intro absorb_less) simp
    moreover have "(left + length data) mod B = left + length data"
      using less by (rule mod_less)
    ultimately show ?thesis
      using buf unfolding same by (simp only:)
  qed
qed

lemma update_spec:
  assumes "length bf = cap" "left < B" "full \<longleftrightarrow> B - left \<le> length data" "ok h"
    and "bb_update B block full left (bf, h) data = (bf', h')"
  shows "absorb B blk h (take left bf @ data) = (h', take ((left + length data) mod B) bf')"
    and "length bf' = cap" "ok h'"
proof -
  let ?full = "left \<noteq> 0 \<and> B - left \<le> length data"
  let ?c = "memcpy bf left (take (B - left) data)"
  obtain bf1 h1 where st1: "(bf1, h1) = (if ?full then block (?c, h) else (bf, h))"
    by (metis surj_pair)
  define data1 left1 where "data1 = (if ?full then drop (B - left) data else data)"
    and "left1 = (if ?full then 0 else left)"
  obtain bf2 h2 data2 where blocks: "bb_blocks B block (bf1, h1) data1 = ((bf2, h2), data2)"
    by (metis surj_pair)
  have res: "(bf', h') = (if data2 \<noteq> [] then memcpy bf2 left1 data2 else bf2, h2)"
    using assms(3,5) blocks st1
    by (cases ?full) (auto simp: bb_update_def Let_def data1_def left1_def split: if_splits)
  have c: "length ?c = cap" "take B ?c = take left bf @ take (B - left) data" if ?full
    using that assms(1,2) B_cap by (auto simp: memcpy_def)
  have s1: "length bf1 = cap"
    using st1 assms(1,4) block_buf[OF c(1), of h] by (cases ?full) (auto simp: prod_eq_iff)
  have ok1: "ok h1"
    using st1 assms(4) block_hash[OF c(1), of h] blk_ok by (cases ?full) (auto simp: prod_eq_iff)
  have l1: "left1 = 0 \<or> left1 + length data1 < B" "left1 < B"
    using assms(2) B_pos by (auto simp: left1_def data1_def)
  have m1: "(left1 + length data1) mod B = (left + length data) mod B"
    using assms(2) le_mod_geq[of B "left + length data"]
    by (auto simp: left1_def data1_def diff_diff_right add.commute le_diff_conv)
  have "absorb B blk h (take left bf @ data) = absorb B blk (blk h (take B ?c)) (drop (B - left) data)" if ?full
  proof -
    have "length (take left bf @ take (B - left) data) = B"
      using that assms(1,2) B_cap by simp
    from absorb_step[OF this B_pos, of blk h "drop (B - left) data"] c(2)[OF that] show ?thesis by simp
  qed
  then have a1: "absorb B blk h (take left bf @ data) = absorb B blk h1 (take left1 bf1 @ data1)"
    using st1 block_hash[OF c(1), of h] assms(4)
    by (cases ?full) (auto simp: left1_def data1_def prod_eq_iff)
  note ts = tail_stage[OF s1 l1 ok1 blocks refl]
  show "absorb B blk h (take left bf @ data) = (h', take ((left + length data) mod B) bf')"
    using ts(1) a1 m1 res by simp
  show "length bf' = cap" using ts(2) res by simp
  have "ok (fst (absorb B blk h (take left bf @ data)))"
    using assms(4) blk_ok by (rule absorb_inv)
  then show "ok h'" using ts(1) a1 res by simp
qed

end

end
