(* ===== verification/PCryptoHash_SHA3.thy ===== *)
theory PCryptoHash_SHA3
  imports Hash_Buffer
begin

text \<open>
  SHA-3 of \<^verbatim>\<open>src/src/lib/pcryptohash-sha3.c\<close> with its four digest sizes: the Keccak
  permutation as the code unrolls it, its equivalence with the step mappings of FIPS 202,
  and the sponge over a buffer of 200 bytes of which one rate block is used.
\<close>

section \<open>The permutation\<close>

definition P_SHA3_ROTL :: "puint64 \<Rightarrow> nat \<Rightarrow> puint64" where
  "P_SHA3_ROTL val shift = push_bit shift val OR drop_bit (64 - shift) val"

definition pzcrypto_hash_sha3_K :: "puint64 list" where
  "pzcrypto_hash_sha3_K = [
    0x0000000000000001, 0x0000000000008082, 0x800000000000808A, 0x8000000080008000,
    0x000000000000808B, 0x0000000080000001, 0x8000000080008081, 0x8000000000008009,
    0x000000000000008A, 0x0000000000000088, 0x0000000080008009, 0x000000008000000A,
    0x000000008000808B, 0x800000000000008B, 0x8000000000008089, 0x8000000000008003,
    0x8000000000008002, 0x8000000000000080, 0x000000000000800A, 0x800000008000000A,
    0x8000000080008081, 0x8000000000008080, 0x0000000080000001, 0x8000000080008008]"

definition pzcrypto_hash_sha3_keccak_theta :: "puint64 list \<Rightarrow> puint64 list" where
  "pzcrypto_hash_sha3_keccak_theta h =
     (let C = map (\<lambda>i. h ! i XOR h ! (i + 5) XOR h ! (i + 10) XOR h ! (i + 15) XOR h ! (i + 20)) [0, 1, 2, 3, 4];
          D = [P_SHA3_ROTL (C ! 1) 1 XOR C ! 4,
               P_SHA3_ROTL (C ! 2) 1 XOR C ! 0,
               P_SHA3_ROTL (C ! 3) 1 XOR C ! 1,
               P_SHA3_ROTL (C ! 4) 1 XOR C ! 2,
               P_SHA3_ROTL (C ! 0) 1 XOR C ! 3]
      in fold (\<lambda>i h. h[i := h ! i XOR D ! i,
                       i + 5 := h ! (i + 5) XOR D ! i,
                       i + 10 := h ! (i + 10) XOR D ! i,
                       i + 15 := h ! (i + 15) XOR D ! i,
                       i + 20 := h ! (i + 20) XOR D ! i]) [0, 1, 2, 3, 4] h)"

text \<open>The unrolled assignments \<^verbatim>\<open>hash[d] = P_SHA3_ROTL (hash[s], r)\<close> in their order.\<close>

definition rho_pi_steps :: "(nat \<times> nat \<times> nat) list" where
  "rho_pi_steps = [
    (1, 6, 44), (6, 9, 20), (9, 22, 61), (22, 14, 39), (14, 20, 18), (20, 2, 62),
    (2, 12, 43), (12, 13, 25), (13, 19, 8), (19, 23, 56), (23, 15, 41), (15, 4, 27),
    (4, 24, 14), (24, 21, 2), (21, 8, 55), (8, 16, 45), (16, 5, 36), (5, 3, 28),
    (3, 18, 21), (18, 17, 15), (17, 11, 10), (11, 7, 6), (7, 10, 3)]"

definition pzcrypto_hash_sha3_keccak_rho_pi :: "puint64 list \<Rightarrow> puint64 list" where
  "pzcrypto_hash_sha3_keccak_rho_pi h =
     (let tmzA = h ! 1;
          h1 = fold (\<lambda>(d, s, r) h. h[d := P_SHA3_ROTL (h ! s) r]) rho_pi_steps h
      in h1[10 := P_SHA3_ROTL tmzA 1])"

definition keccak_chi_row :: "nat \<Rightarrow> puint64 list \<Rightarrow> puint64 list" where
  "keccak_chi_row i h0 =
     (let tmzA1 = h0 ! (i + 0);
          tmzA2 = h0 ! (i + 1);
          h1 = h0[i + 0 := h0 ! (i + 0) XOR (NOT tmzA2 AND h0 ! (i + 2))];
          h2 = h1[i + 1 := h1 ! (i + 1) XOR (NOT (h1 ! (i + 2)) AND h1 ! (i + 3))];
          h3 = h2[i + 2 := h2 ! (i + 2) XOR (NOT (h2 ! (i + 3)) AND h2 ! (i + 4))];
          h4 = h3[i + 3 := h3 ! (i + 3) XOR (NOT (h3 ! (i + 4)) AND tmzA1)]
      in h4[i + 4 := h4 ! (i + 4) XOR (NOT tmzA1 AND tmzA2)])"

definition pzcrypto_hash_sha3_keccak_chi :: "puint64 list \<Rightarrow> puint64 list" where
  "pzcrypto_hash_sha3_keccak_chi h = fold keccak_chi_row [0, 5, 10, 15, 20] h"

definition pzcrypto_hash_sha3_keccak_permutate :: "puint64 list \<Rightarrow> puint64 list" where
  "pzcrypto_hash_sha3_keccak_permutate h =
     fold (\<lambda>i h.
       let h1 = pzcrypto_hash_sha3_keccak_theta h;
           h2 = pzcrypto_hash_sha3_keccak_rho_pi h1;
           h3 = pzcrypto_hash_sha3_keccak_chi h2
       in h3[0 := h3 ! 0 XOR pzcrypto_hash_sha3_K ! i]) [0..<24] h"

section \<open>The operations\<close>

record PHashSHA3 =
  sha3_buf :: "puchar list"
  sha3_hash :: "puint64 list"
  sha3_len :: puint32
  block_size :: puint32

definition pzcrypto_hash_sha3_swazbytes :: "bool \<Rightarrow> puint64 list \<Rightarrow> nat \<Rightarrow> puint64 list" where
  "pzcrypto_hash_sha3_swazbytes be data words =
     (if \<not> be then data else map (PUINT64_TO_LE be) (take words data) @ drop words data)"

definition pzcrypto_hash_sha3_process :: "nat \<Rightarrow> puint64 list \<Rightarrow> puint64 list \<Rightarrow> puint64 list" where
  "pzcrypto_hash_sha3_process block_sz h data =
     (let qwords = block_sz div 8
      in pzcrypto_hash_sha3_keccak_permutate (fold (\<lambda>i h. h[i := h ! i XOR data ! i]) [0..<qwords] h))"

text \<open>The calls \<^verbatim>\<open>swazbytes (buf_w, block_size >> 3); process (ctx, buf_w)\<close>.\<close>

definition sha3_block :: "bool \<Rightarrow> nat \<Rightarrow> puchar list \<times> puint64 list \<Rightarrow> puchar list \<times> puint64 list" where
  "sha3_block be block_sz st =
     (let w = pzcrypto_hash_sha3_swazbytes be (buf_w be (fst st)) (block_sz div 8)
      in (store_w be w, pzcrypto_hash_sha3_process block_sz (snd st) w))"

definition pzcrypto_hash_sha3_new_internal :: "bool \<Rightarrow> puint32 \<Rightarrow> PHashSHA3 option" where
  "pzcrypto_hash_sha3_new_internal mem bits =
     (if \<not> mem then None
      else Some \<lparr>sha3_buf = replicate 200 0, sha3_hash = replicate 25 0, sha3_len = 0,
                 block_size = (1600 - bits * 2) div 8\<rparr>)"

definition zcrypto_hash_sha3_reset :: "PHashSHA3 \<Rightarrow> PHashSHA3" where
  "zcrypto_hash_sha3_reset ctx =
     ctx\<lparr>sha3_buf := replicate 200 0, sha3_hash := replicate 25 0, sha3_len := 0\<rparr>"

definition zcrypto_hash_sha3_224_new :: "bool \<Rightarrow> PHashSHA3 option" where
  "zcrypto_hash_sha3_224_new mem = pzcrypto_hash_sha3_new_internal mem 224"

definition zcrypto_hash_sha3_256_new :: "bool \<Rightarrow> PHashSHA3 option" where
  "zcrypto_hash_sha3_256_new mem = pzcrypto_hash_sha3_new_internal mem 256"

definition zcrypto_hash_sha3_384_new :: "bool \<Rightarrow> PHashSHA3 option" where
  "zcrypto_hash_sha3_384_new mem = pzcrypto_hash_sha3_new_internal mem 384"

definition zcrypto_hash_sha3_512_new :: "bool \<Rightarrow> PHashSHA3 option" where
  "zcrypto_hash_sha3_512_new mem = pzcrypto_hash_sha3_new_internal mem 512"

definition zcrypto_hash_sha3_update :: "bool \<Rightarrow> PHashSHA3 \<Rightarrow> puchar list \<Rightarrow> PHashSHA3" where
  "zcrypto_hash_sha3_update be ctx data =
     (let left = sha3_len ctx;
          to_fill = block_size ctx - left;
          len = of_nat (length data) :: psize;
          full = (ucast to_fill \<le> len);
          (buf', hash') = bb_update (unat (block_size ctx)) (sha3_block be (unat (block_size ctx))) full
            (unat left) (sha3_buf ctx, sha3_hash ctx) data
      in ctx\<lparr>sha3_len := ucast ((ucast left + len) mod ucast (block_size ctx)),
             sha3_buf := buf', sha3_hash := hash'\<rparr>)"

definition zcrypto_hash_sha3_finish :: "bool \<Rightarrow> PHashSHA3 \<Rightarrow> PHashSHA3" where
  "zcrypto_hash_sha3_finish be ctx =
     (let len = unat (sha3_len ctx);
          block_sz = unat (block_size ctx);
          buf1 = memcpy (sha3_buf ctx) len (replicate (block_sz - len) 0);
          buf2 = buf1[len := buf1 ! len OR 0x06];
          buf3 = buf2[block_sz - 1 := buf2 ! (block_sz - 1) OR 0x80];
          (buf', hash') = sha3_block be block_sz (buf3, sha3_hash ctx)
      in ctx\<lparr>sha3_buf := buf',
             sha3_hash := pzcrypto_hash_sha3_swazbytes be hash' ((100 - block_sz div 4) div 8)\<rparr>)"

definition zcrypto_hash_sha3_digest :: "bool \<Rightarrow> PHashSHA3 \<Rightarrow> puchar list" where
  "zcrypto_hash_sha3_digest be ctx = store_w be (sha3_hash ctx)"

section \<open>FIPS 202\<close>

text \<open>The lane \<open>A[x, y]\<close> is word \<open>5 y + x\<close> of the state.\<close>

definition lane :: "puint64 list \<Rightarrow> nat \<Rightarrow> nat \<Rightarrow> puint64" where
  "lane A x y = A ! (5 * (y mod 5) + x mod 5)"

definition from_lanes :: "(nat \<Rightarrow> nat \<Rightarrow> puint64) \<Rightarrow> puint64 list" where
  "from_lanes f = map (\<lambda>i. f (i mod 5) (i div 5)) [0..<25]"

definition keccak_parity :: "puint64 list \<Rightarrow> nat \<Rightarrow> puint64" where
  "keccak_parity A x = lane A x 0 XOR lane A x 1 XOR lane A x 2 XOR lane A x 3 XOR lane A x 4"

definition theta :: "puint64 list \<Rightarrow> puint64 list" where
  "theta A = from_lanes (\<lambda>x y. lane A x y XOR (keccak_parity A (x + 4) XOR word_rotl 1 (keccak_parity A (x + 1))))"

text \<open>The rotation offsets by the walk over the lanes that the standard describes.\<close>

fun rho_walk :: "nat \<Rightarrow> nat \<Rightarrow> nat \<times> nat \<Rightarrow> ((nat \<times> nat) \<times> nat) list" where
  "rho_walk 0 t p = []"
| "rho_walk (Suc n) t (x, y) = ((x, y), (t + 1) * (t + 2) div 2 mod 64) # rho_walk n (t + 1) (y, (2 * x + 3 * y) mod 5)"

definition rho_offset :: "nat \<Rightarrow> nat \<Rightarrow> nat" where
  "rho_offset x y = (case map_of (rho_walk 24 0 (1, 0)) (x mod 5, y mod 5) of None \<Rightarrow> 0 | Some r \<Rightarrow> r)"

definition rho :: "puint64 list \<Rightarrow> puint64 list" where
  "rho A = from_lanes (\<lambda>x y. word_rotl (rho_offset x y) (lane A x y))"

definition kpi :: "puint64 list \<Rightarrow> puint64 list" where
  "kpi A = from_lanes (\<lambda>x y. lane A (x + 3 * y) x)"

definition chi :: "puint64 list \<Rightarrow> puint64 list" where
  "chi A = from_lanes (\<lambda>x y. lane A x y XOR (NOT (lane A (x + 1) y) AND lane A (x + 2) y))"

definition iota :: "nat \<Rightarrow> puint64 list \<Rightarrow> puint64 list" where
  "iota r A = A[0 := A ! 0 XOR pzcrypto_hash_sha3_K ! r]"

definition keccak_f :: "puint64 list \<Rightarrow> puint64 list" where
  "keccak_f A = fold (\<lambda>r A. iota r (chi (kpi (rho (theta A))))) [0..<24] A"

text \<open>Absorbing a block of the rate, the domain and padding bits, and the digest.\<close>

definition sha3_blk :: "nat \<Rightarrow> puint64 list \<Rightarrow> puchar list \<Rightarrow> puint64 list" where
  "sha3_blk rate A bs =
     (let ws = words_of word_le 8 bs
      in keccak_f (map (\<lambda>i. if i < rate div 8 then A ! i XOR ws ! i else A ! i) [0..<25]))"

definition sha3_pad :: "nat \<Rightarrow> nat \<Rightarrow> puchar list" where
  "sha3_pad rate n =
     (let q = rate - n mod rate
      in if q = 1 then [0x86] else 0x06 # replicate (q - 2) 0 @ [0x80])"

definition sha3_digest :: "nat \<Rightarrow> puchar list \<Rightarrow> puchar list" where
  "sha3_digest bits m =
     (let rate = 200 - bits div 4
      in take (bits div 8) (concat (map (bytes_le 8)
        (fst (absorb rate (sha3_blk rate) (replicate 25 0) (m @ sha3_pad rate (length m)))))))"

section \<open>The unrolled permutation is Keccak\<close>

lemma sha3_ROTL_rotl: "shift < 64 \<Longrightarrow> P_SHA3_ROTL val shift = word_rotl shift val"
  using rotl_shifts[of shift val] by (simp add: P_SHA3_ROTL_def)

lemma list25_cases:
  assumes "length A = 25"
  obtains a0 a1 a2 a3 a4 a5 a6 a7 a8 a9 a10 a11 a12 a13 a14 a15 a16 a17 a18 a19 a20 a21 a22 a23 a24 where
    "A = [a0, a1, a2, a3, a4, a5, a6, a7, a8, a9, a10, a11, a12, a13, a14, a15, a16, a17, a18, a19, a20, a21, a22, a23, a24]"
  using assms by (auto simp: numeral_eq_Suc length_Suc_conv)

lemma upt25: "[0..<25] = [0, 1, 2, 3, 4, 5, 6, 7, 8, 9, 10, 11, 12, 13, 14, 15, 16, 17, 18, 19, 20, 21, 22, 23, 24 :: nat]"
  by (simp add: upt_rec)

lemma length_from_lanes [simp]: "length (from_lanes f) = 25"
  by (simp add: from_lanes_def)

lemma theta_code:
  assumes "length A = 25"
  shows "pzcrypto_hash_sha3_keccak_theta A = theta A"
  using assms
  by (elim list25_cases)
    (simp add: pzcrypto_hash_sha3_keccak_theta_def theta_def from_lanes_def upt25 keccak_parity_def lane_def
      sha3_ROTL_rotl Let_def xor.assoc xor.commute xor.left_commute)

lemma rho_walk_table:
  "rho_walk 24 0 (1, 0) = [
    ((1, 0), 1), ((0, 2), 3), ((2, 1), 6), ((1, 2), 10), ((2, 3), 15), ((3, 3), 21),
    ((3, 0), 28), ((0, 1), 36), ((1, 3), 45), ((3, 1), 55), ((1, 4), 2), ((4, 4), 14),
    ((4, 0), 27), ((0, 3), 41), ((3, 4), 56), ((4, 3), 8), ((3, 2), 25), ((2, 2), 43),
    ((2, 0), 62), ((0, 4), 18), ((4, 2), 39), ((2, 4), 61), ((4, 1), 20), ((1, 1), 44)]"
  by code_simp

lemma rho_pi_code:
  assumes "length A = 25"
  shows "pzcrypto_hash_sha3_keccak_rho_pi A = kpi (rho A)"
  using assms
  by (elim list25_cases)
    (simp add: pzcrypto_hash_sha3_keccak_rho_pi_def rho_pi_steps_def rho_def kpi_def from_lanes_def upt25 lane_def
      rho_offset_def rho_walk_table[unfolded One_nat_def] sha3_ROTL_rotl Let_def)

lemma chi_code:
  assumes "length A = 25"
  shows "pzcrypto_hash_sha3_keccak_chi A = chi A"
  using assms
  by (elim list25_cases)
    (simp add: pzcrypto_hash_sha3_keccak_chi_def keccak_chi_row_def chi_def from_lanes_def upt25 lane_def Let_def)

lemma length_keccak_f: "length A = 25 \<Longrightarrow> length (keccak_f A) = 25"
proof -
  have "length (fold (\<lambda>r A. iota r (chi (kpi (rho (theta A))))) rs A) = 25" if "length A = 25" for rs A
    using that by (induction rs arbitrary: A) (simp_all add: iota_def chi_def)
  then show "length A = 25 \<Longrightarrow> length (keccak_f A) = 25" by (simp add: keccak_f_def)
qed

lemma keccak_code:
  assumes "length A = 25"
  shows "pzcrypto_hash_sha3_keccak_permutate A = keccak_f A"
proof -
  have "fold (\<lambda>i h.
       let h1 = pzcrypto_hash_sha3_keccak_theta h;
           h2 = pzcrypto_hash_sha3_keccak_rho_pi h1;
           h3 = pzcrypto_hash_sha3_keccak_chi h2
       in h3[0 := h3 ! 0 XOR pzcrypto_hash_sha3_K ! i]) rs A =
     fold (\<lambda>r A. iota r (chi (kpi (rho (theta A))))) rs A" if "length A = 25" for rs A
    using that
  proof (induction rs arbitrary: A)
    case (Cons r rs)
    have "length (theta A) = 25" "length (kpi (rho (theta A))) = 25" "length (chi (kpi (rho (theta A)))) = 25"
      by (simp_all add: theta_def kpi_def chi_def)
    with Cons show ?case
      by (simp add: Let_def theta_code rho_pi_code chi_code iota_def)
  qed simp
  with assms show ?thesis
    by (simp add: pzcrypto_hash_sha3_keccak_permutate_def keccak_f_def)
qed

section \<open>The sponge\<close>

lemma sha3_swazbytes_alt:
  "pzcrypto_hash_sha3_swazbytes be ws n = map (PUINT64_TO_LE be) (take n ws) @ drop n ws"
  by (cases be) (simp_all add: pzcrypto_hash_sha3_swazbytes_def)

lemma xor_prefix:
  "n \<le> length h \<Longrightarrow> fold (\<lambda>i h. h[i := h ! i XOR ws ! i]) [0..<n] h =
    map (\<lambda>i. if i < n then h ! i XOR ws ! i else h ! i :: puint64) [0..<length h]"
proof (induction n)
  case 0
  then show ?case by (simp add: map_nth)
next
  case (Suc n)
  then show ?case by (auto intro!: nth_equalityI simp: nth_list_update)
qed

definition sha3_rates :: "nat set" where
  "sha3_rates = {144, 136, 104, 72}"

lemma sha3_rate_cases:
  assumes "rate \<in> sha3_rates"
  shows "0 < rate" "rate < 200" "8 dvd rate"
  using assms by (auto simp: sha3_rates_def)

lemma sha3_block_spec:
  assumes "rate \<in> sha3_rates" "length bf = 200" "length h = 25"
  shows "snd (sha3_block be rate (bf, h)) = sha3_blk rate h (take rate bf)"
    and "length (fst (sha3_block be rate (bf, h))) = 200"
proof -
  note rate = sha3_rate_cases[OF assms(1)]
  let ?w = "pzcrypto_hash_sha3_swazbytes be (buf_w be bf) (rate div 8)"
  have len: "length (buf_w be bf :: puint64 list) = 25" using assms(2) by (simp add: buf_w_def)
  then show "length (fst (sha3_block be rate (bf, h))) = 200"
    using assms(1)
    by (auto simp: sha3_block_def sha3_swazbytes_alt store_w_def length_concat o_def sum_list_triv Let_def sha3_rates_def)
  have "take (rate div 8) (buf_w be bf :: puint64 list) = words_of (word_host be) 8 (take rate bf)"
    using take_words_of[of 8 "rate div 8" bf "word_host be :: _ \<Rightarrow> puint64"] rate assms(2)
    by (simp add: buf_w_def)
  then have "take (rate div 8) ?w = words_of word_le 8 (take rate bf)"
    using len rate assms(2) by (simp add: sha3_swazbytes_alt min_def map_words_of order_of_host_word)
  then have "?w ! i = words_of word_le 8 (take rate bf) ! i" if "i < rate div 8" for i
    using that by (metis nth_take)
  moreover have "rate div 8 \<le> 25" using rate by linarith
  ultimately show "snd (sha3_block be rate (bf, h)) = sha3_blk rate h (take rate bf)"
    using xor_prefix[of "rate div 8" h ?w] assms(3)
    by (simp add: sha3_block_def pzcrypto_hash_sha3_process_def sha3_blk_def Let_def keccak_code cong: if_cong)
qed

lemma length_sha3_blk [simp]: "length (sha3_blk rate h bs) = 25"
  by (simp add: sha3_blk_def Let_def length_keccak_f)

lemma sha3_buffer:
  assumes "rate \<in> sha3_rates"
  shows "block_buffer rate 200 (sha3_block be rate) (sha3_blk rate) (\<lambda>h. length h = 25)"
  using sha3_block_spec[OF assms] sha3_rate_cases[OF assms] by unfold_locales (simp_all add: less_imp_le)

interpretation sha3_224: block_buffer 144 200 "sha3_block be 144" "sha3_blk 144" "\<lambda>h. length h = 25" for be
  by (rule sha3_buffer) (simp add: sha3_rates_def)

interpretation sha3_256: block_buffer 136 200 "sha3_block be 136" "sha3_blk 136" "\<lambda>h. length h = 25" for be
  by (rule sha3_buffer) (simp add: sha3_rates_def)

interpretation sha3_384: block_buffer 104 200 "sha3_block be 104" "sha3_blk 104" "\<lambda>h. length h = 25" for be
  by (rule sha3_buffer) (simp add: sha3_rates_def)

interpretation sha3_512: block_buffer 72 200 "sha3_block be 72" "sha3_blk 72" "\<lambda>h. length h = 25" for be
  by (rule sha3_buffer) (simp add: sha3_rates_def)

text \<open>The context represents a message fed so far.\<close>

definition sha3_rep :: "nat \<Rightarrow> PHashSHA3 \<Rightarrow> puchar list \<Rightarrow> bool" where
  "sha3_rep rate ctx m \<longleftrightarrow> unat (block_size ctx) = rate \<and> length (sha3_buf ctx) = 200 \<and>
     length (sha3_hash ctx) = 25 \<and> unat (sha3_len ctx) = length m mod rate \<and>
     absorb rate (sha3_blk rate) (replicate 25 0) m = (sha3_hash ctx, take (length m mod rate) (sha3_buf ctx))"

lemma sha3_update_rep:
  assumes rate: "rate \<in> sha3_rates" and rep: "sha3_rep rate ctx m" and len: "length data < 2 ^ 63"
  shows "sha3_rep rate (zcrypto_hash_sha3_update be ctx data) (m @ data)"
proof -
  let ?l = "length m mod rate" and ?n = "length data"
  note rt = sha3_rate_cases[OF rate]
  have bs: "unat (block_size ctx) = rate" and l: "unat (sha3_len ctx) = ?l"
    and buf: "length (sha3_buf ctx) = 200" and h: "length (sha3_hash ctx) = 25"
    and abs: "absorb rate (sha3_blk rate) (replicate 25 0) m = (sha3_hash ctx, take ?l (sha3_buf ctx))"
    using rep by (simp_all add: sha3_rep_def)
  have less: "?l < rate" using rt by simp
  have "sha3_len ctx \<le> block_size ctx"
    using less bs l by (simp add: word_le_nat_alt)
  then have fill: "unat (block_size ctx - sha3_len ctx) = rate - ?l"
    using bs l by (simp add: unat_sub)
  have n64: "unat (of_nat ?n :: psize) = ?n"
    using len by (simp add: unsigned_of_nat take_bit_eq_mod)
  have full: "(ucast (block_size ctx - sha3_len ctx) :: psize) \<le> of_nat ?n \<longleftrightarrow> rate - ?l \<le> ?n"
    using fill n64 rt(2) by (simp add: word_le_nat_alt unsigned_ucast_eq take_bit_nat_eq_self)
  obtain bf' h' where upd: "bb_update rate (sha3_block be rate) (rate - ?l \<le> ?n) ?l
      (sha3_buf ctx, sha3_hash ctx) data = (bf', h')"
    by fastforce
  note us = block_buffer.update_spec[OF sha3_buffer[OF rate] buf less refl h upd]
  have new: "unat (ucast ((ucast (sha3_len ctx) + of_nat ?n :: psize) mod ucast (block_size ctx)) :: puint32) =
      (?l + ?n) mod rate"
  proof -
    have "?l < 200" using less rt(2) by linarith
    moreover have "(2::nat) ^ 64 = 2 ^ 63 + 2 ^ 63" "(200::nat) \<le> 2 ^ 63" by simp_all
    ultimately have sum: "?l + ?n < 2 ^ 64" using len by linarith
    have "take_bit 64 ?l = ?l" using sum by (intro take_bit_nat_eq_self) linarith
    then have "unat (ucast (sha3_len ctx) :: psize) = ?l"
      using l by (simp add: unsigned_ucast_eq)
    with sum n64 have "unat (ucast (sha3_len ctx) + of_nat ?n :: psize) = ?l + ?n"
      by (subst unat_add_lem[THEN iffD1]) simp_all
    then have "unat ((ucast (sha3_len ctx) + of_nat ?n :: psize) mod ucast (block_size ctx)) = (?l + ?n) mod rate"
      using bs rt(2) by (simp add: unat_mod unsigned_ucast_eq take_bit_nat_eq_self)
    moreover have "(?l + ?n) mod rate < 2 ^ 32"
    proof -
      have "(?l + ?n) mod rate < 200" using rt mod_less_divisor[of rate "?l + ?n"] by linarith
      then show ?thesis by simp
    qed
    ultimately show ?thesis
      by (simp add: unsigned_ucast_eq take_bit_eq_mod)
  qed
  have "zcrypto_hash_sha3_update be ctx data =
      ctx\<lparr>sha3_len := ucast ((ucast (sha3_len ctx) + of_nat ?n :: psize) mod ucast (block_size ctx)),
          sha3_buf := bf', sha3_hash := h'\<rparr>"
    using upd by (simp add: zcrypto_hash_sha3_update_def Let_def full bs l)
  moreover have "absorb rate (sha3_blk rate) (replicate 25 0) (m @ data) = (h', take (length (m @ data) mod rate) bf')"
    using us(1) abs by (subst absorb_append) (simp add: mod_add_left_eq)
  ultimately show ?thesis
    using us(2,3) new bs by (simp add: sha3_rep_def mod_add_left_eq)
qed

lemma sha3_updates_rep:
  assumes "rate \<in> sha3_rates" "sha3_rep rate ctx m" "\<forall>d \<in> set ds. length d < 2 ^ 63"
  shows "sha3_rep rate (foldl (zcrypto_hash_sha3_update be) ctx ds) (m @ concat ds)"
  using assms(2,3)
proof (induction ds arbitrary: ctx m)
  case (Cons d ds)
  then show ?case
    using Cons.IH[OF sha3_update_rep[OF assms(1) Cons.prems(1), of d]] by simp
qed simp

text \<open>The last block: what the two assignments after \<^verbatim>\<open>memset\<close> leave in the buffer.\<close>

lemma sha3_last_block:
  fixes bf :: "puchar list"
  assumes "n < rate" "rate \<le> length bf"
  defines "b1 \<equiv> memcpy bf n (replicate (rate - n) 0)"
  defines "b2 \<equiv> b1[n := b1 ! n OR 0x06]"
  shows "take rate (b2[rate - 1 := b2 ! (rate - 1) OR 0x80]) = take n bf @
      (if rate - n = 1 then [0x86] else 0x06 # replicate (rate - n - 2) 0 @ [0x80])"
    and "length (b2[rate - 1 := b2 ! (rate - 1) OR 0x80]) = length bf"
proof -
  show "length (b2[rate - 1 := b2 ! (rate - 1) OR 0x80]) = length bf"
    using assms(1,2) by (simp add: b2_def b1_def)
  have b1: "b1 = take n bf @ replicate (rate - n) 0 @ drop rate bf"
    using assms(1) by (simp add: b1_def memcpy_def)
  obtain q where q: "rate = n + Suc q" using assms(1) less_imp_Suc_add by auto
  have n: "length (take n bf) = n" using assms(1,2) by simp
  show "take rate (b2[rate - 1 := b2 ! (rate - 1) OR 0x80]) = take n bf @
      (if rate - n = 1 then [0x86] else 0x06 # replicate (rate - n - 2) 0 @ [0x80])"
  proof (cases q)
    case 0
    with n b1 q show ?thesis by (simp add: b2_def list_update_append nth_append)
  next
    case (Suc k)
    let ?pre = "take n bf @ 0x06 # replicate k 0"
    have "b2 = take n bf @ 0x06 # replicate (Suc k) 0 @ drop rate bf"
      using n b1 q Suc by (simp add: b2_def list_update_append nth_append)
    then have b2: "b2 = ?pre @ 0 # drop rate bf"
      by (simp add: replicate_append_same[symmetric])
    have pre: "length ?pre = rate - 1" using n q Suc by simp
    then have "b2[rate - 1 := b2 ! (rate - 1) OR 0x80] = ?pre @ 0x80 # drop rate bf"
      unfolding b2 by (metis list_update_length nth_append_length or.left_neutral)
    moreover have "take rate (xs @ x # ys) = xs @ [x]" if "length xs = rate - 1" for xs ys and x :: puchar
      using that q by simp
    ultimately have "take rate (b2[rate - 1 := b2 ! (rate - 1) OR 0x80]) = ?pre @ [0x80]"
      using pre by presburger
    with q Suc show ?thesis by simp
  qed
qed

lemma sha3_finish_spec:
  assumes rate: "rate \<in> sha3_rates" and rep: "sha3_rep rate ctx m"
  shows "sha3_hash (zcrypto_hash_sha3_finish be ctx) = pzcrypto_hash_sha3_swazbytes be
    (fst (absorb rate (sha3_blk rate) (replicate 25 0) (m @ sha3_pad rate (length m)))) ((100 - rate div 4) div 8)"
proof -
  let ?n = "length m mod rate"
  note rt = sha3_rate_cases[OF rate]
  have n: "?n < rate" using rt by simp
  have buf: "length (sha3_buf ctx) = 200" and h: "length (sha3_hash ctx) = 25"
    using rep by (simp_all add: sha3_rep_def)
  define b1 where "b1 = memcpy (sha3_buf ctx) ?n (replicate (rate - ?n) 0)"
  define b2 where "b2 = b1[?n := b1 ! ?n OR 0x06]"
  define b3 where "b3 = b2[rate - 1 := b2 ! (rate - 1) OR 0x80]"
  have b3: "take rate b3 = take ?n (sha3_buf ctx) @ sha3_pad rate (length m)" "length b3 = 200"
    using sha3_last_block[OF n, of "sha3_buf ctx"] rt buf
    by (simp_all add: b1_def b2_def b3_def sha3_pad_def Let_def)
  have "sha3_hash (zcrypto_hash_sha3_finish be ctx) =
      pzcrypto_hash_sha3_swazbytes be (snd (sha3_block be rate (b3, sha3_hash ctx))) ((100 - rate div 4) div 8)"
    using rep by (simp add: zcrypto_hash_sha3_finish_def sha3_rep_def b1_def b2_def b3_def Let_def split_def)
  also have "snd (sha3_block be rate (b3, sha3_hash ctx)) =
      sha3_blk rate (sha3_hash ctx) (take ?n (sha3_buf ctx) @ sha3_pad rate (length m))"
    using sha3_block_spec(1)[OF rate b3(2) h] b3(1) by simp
  also have "\<dots> = fst (absorb rate (sha3_blk rate) (replicate 25 0) (m @ sha3_pad rate (length m)))"
  proof -
    have "length (take ?n (sha3_buf ctx) @ sha3_pad rate (length m)) = rate"
      using b3 rt by (metis length_take min.absorb2 less_imp_le)
    from absorb_step[OF this rt(1), of "sha3_blk rate" "sha3_hash ctx" "[]"] rep rt(1) show ?thesis
      by (subst absorb_append) (simp add: sha3_rep_def absorb_less)
  qed
  finally show ?thesis .
qed

lemma sha3_new_rep:
  assumes "pzcrypto_hash_sha3_new_internal True (of_nat bits) = Some ctx" "bits \<in> {224, 256, 384, 512}"
  shows "sha3_rep (200 - bits div 4) ctx []"
  using assms by (auto simp: pzcrypto_hash_sha3_new_internal_def sha3_rep_def absorb_less unat_div unat_sub_if')

lemma sha3_stream:
  assumes "pzcrypto_hash_sha3_new_internal True (of_nat bits) = Some ctx" "bits \<in> {224, 256, 384, 512}"
    and "\<forall>d \<in> set ds. length d < 2 ^ 63"
  shows "take (bits div 8) (zcrypto_hash_sha3_digest be (zcrypto_hash_sha3_finish be
    (foldl (zcrypto_hash_sha3_update be) ctx ds))) = sha3_digest bits (concat ds)"
proof -
  let ?rate = "200 - bits div 4"
  have rate: "?rate \<in> sha3_rates" using assms(2) by (auto simp: sha3_rates_def)
  define h where "h = fst (absorb ?rate (sha3_blk ?rate) (replicate 25 0) (concat ds @ sha3_pad ?rate (length (concat ds))))"
  have len: "length h = 25"
    unfolding h_def by (rule absorb_inv) simp_all
  let ?w = "(100 - ?rate div 4) div 8"
  have "sha3_hash (zcrypto_hash_sha3_finish be (foldl (zcrypto_hash_sha3_update be) ctx ds)) =
      map (PUINT64_TO_LE be) (take ?w h) @ drop ?w h"
    using sha3_finish_spec[OF rate sha3_updates_rep[OF rate sha3_new_rep[OF assms(1,2)] assms(3)], of be be]
    by (simp add: h_def sha3_swazbytes_alt)
  then have eq: "take (8 * ?w) (zcrypto_hash_sha3_digest be (zcrypto_hash_sha3_finish be
      (foldl (zcrypto_hash_sha3_update be) ctx ds))) = take (8 * ?w) (concat (map (bytes_le 8) h))"
    using digest_prefix[of ?w h be "PUINT64_TO_LE be" "bytes_le 8"] len assms(2)
    by (auto simp: zcrypto_hash_sha3_digest_def host_bytes_of_order)
  have "bits div 8 \<le> 8 * ?w" using assms(2) by auto
  then have "take (bits div 8) (zcrypto_hash_sha3_digest be (zcrypto_hash_sha3_finish be
      (foldl (zcrypto_hash_sha3_update be) ctx ds))) = take (bits div 8) (concat (map (bytes_le 8) h))"
    using arg_cong[OF eq, of "take (bits div 8)"] by (simp only: take_take min_absorb1)
  then show ?thesis
    by (simp add: sha3_digest_def h_def Let_def)
qed



end
