(* ===== verification/PCryptoHash_GOST.thy ===== *)
theory PCryptoHash_GOST
  imports Hash_Buffer
begin

text \<open>
  GOST R 34.11-94 of \<^verbatim>\<open>src/src/lib/pcryptohash-gost3411.c\<close>: the step function with its
  unrolled shift-register rounds and key generation, the 256-bit sum and length, and the
  context operations over the block buffer.
\<close>

section \<open>The step function\<close>

definition pzcrypto_hash_gost3411_K_block :: "puint32 list list" where
  "pzcrypto_hash_gost3411_K_block = [
    [10, 4, 5, 6, 8, 1, 3, 7, 13, 12, 14, 0, 9, 2, 11, 15],
    [5, 15, 4, 0, 2, 13, 11, 9, 1, 7, 6, 3, 12, 14, 10, 8],
    [7, 15, 12, 14, 9, 4, 1, 0, 3, 11, 5, 2, 6, 10, 8, 13],
    [4, 10, 7, 12, 0, 15, 2, 8, 14, 1, 6, 5, 13, 11, 9, 3],
    [7, 6, 4, 11, 9, 12, 2, 10, 1, 8, 0, 14, 15, 13, 3, 5],
    [7, 6, 2, 4, 13, 9, 15, 0, 10, 1, 5, 11, 8, 14, 12, 3],
    [13, 14, 4, 1, 7, 0, 5, 10, 3, 12, 8, 15, 6, 2, 9, 11],
    [1, 3, 10, 9, 5, 11, 4, 15, 8, 6, 7, 14, 13, 0, 2, 12]]"

abbreviation gost_sub :: "nat \<Rightarrow> puint32 \<Rightarrow> puint32" where
  "gost_sub i x \<equiv> push_bit (4 * i) (pzcrypto_hash_gost3411_K_block ! i ! unat (drop_bit (4 * i) x AND 0xF))"

definition P_GOST_28147_ROUND :: "puint32 \<times> puint32 \<Rightarrow> puint32 \<Rightarrow> puint32 \<times> puint32" where
  "P_GOST_28147_ROUND N key =
     (let CM1 = fst N + key;
          CM1' = gost_sub 0 CM1 OR gost_sub 1 CM1 OR gost_sub 2 CM1 OR gost_sub 3 CM1 OR
                 gost_sub 4 CM1 OR gost_sub 5 CM1 OR gost_sub 6 CM1 OR gost_sub 7 CM1
      in ((push_bit 11 CM1' OR drop_bit 21 CM1') XOR snd N, fst N))"

text \<open>The 32 rounds: the eight key words three times upwards and once downwards.\<close>

definition P_GOST_28147_E :: "puint32 \<times> puint32 \<Rightarrow> puint32 list \<Rightarrow> puint32 \<times> puint32" where
  "P_GOST_28147_E data key =
     (let N = fold (\<lambda>i N. P_GOST_28147_ROUND N (key ! i))
        [0, 1, 2, 3, 4, 5, 6, 7, 0, 1, 2, 3, 4, 5, 6, 7, 0, 1, 2, 3, 4, 5, 6, 7, 7, 6, 5, 4, 3, 2, 1, 0] data
      in (snd N, fst N))"

definition P_GOST_3411_P :: "puint32 list \<Rightarrow> puint32 list" where
  "P_GOST_3411_P D =
     [(D ! 0 AND 0x000000FF) OR (push_bit 8 (D ! 2) AND 0x0000FF00) OR
      (push_bit 16 (D ! 4) AND 0x00FF0000) OR (push_bit 24 (D ! 6) AND 0xFF000000),
      (drop_bit 8 (D ! 0) AND 0x000000FF) OR (D ! 2 AND 0x0000FF00) OR
      (push_bit 8 (D ! 4) AND 0x00FF0000) OR (push_bit 16 (D ! 6) AND 0xFF000000),
      (drop_bit 16 (D ! 0) AND 0x000000FF) OR (drop_bit 8 (D ! 2) AND 0x0000FF00) OR
      (D ! 4 AND 0x00FF0000) OR (push_bit 8 (D ! 6) AND 0xFF000000),
      (drop_bit 24 (D ! 0) AND 0x000000FF) OR (drop_bit 16 (D ! 2) AND 0x0000FF00) OR
      (drop_bit 8 (D ! 4) AND 0x00FF0000) OR (D ! 6 AND 0xFF000000),
      (D ! 1 AND 0x000000FF) OR (push_bit 8 (D ! 3) AND 0x0000FF00) OR
      (push_bit 16 (D ! 5) AND 0x00FF0000) OR (push_bit 24 (D ! 7) AND 0xFF000000),
      (drop_bit 8 (D ! 1) AND 0x000000FF) OR (D ! 3 AND 0x0000FF00) OR
      (push_bit 8 (D ! 5) AND 0x00FF0000) OR (push_bit 16 (D ! 7) AND 0xFF000000),
      (drop_bit 16 (D ! 1) AND 0x000000FF) OR (drop_bit 8 (D ! 3) AND 0x0000FF00) OR
      (D ! 5 AND 0x00FF0000) OR (push_bit 8 (D ! 7) AND 0xFF000000),
      (drop_bit 24 (D ! 1) AND 0x000000FF) OR (drop_bit 16 (D ! 3) AND 0x0000FF00) OR
      (drop_bit 8 (D ! 5) AND 0x00FF0000) OR (D ! 7 AND 0xFF000000)]"

text \<open>
  The four keys: \<^verbatim>\<open>U\<close> and \<^verbatim>\<open>V\<close> are updated between them, each update reading the words
  that are not yet overwritten.
\<close>

definition gost_keys :: "puint32 list \<Rightarrow> puint32 list \<Rightarrow> puint32 list list" where
  "gost_keys U0 V0 =
     (let W0 = [U0 ! 0 XOR V0 ! 0, U0 ! 1 XOR V0 ! 1, U0 ! 2 XOR V0 ! 2, U0 ! 3 XOR V0 ! 3,
                U0 ! 4 XOR V0 ! 4, U0 ! 5 XOR V0 ! 5, U0 ! 6 XOR V0 ! 6, U0 ! 7 XOR V0 ! 7];
          V1 = V0[0 := V0 ! 0 XOR V0 ! 2, 1 := V0 ! 1 XOR V0 ! 3, 2 := V0 ! 2 XOR V0 ! 4, 3 := V0 ! 3 XOR V0 ! 5];
          U1 = U0[0 := U0 ! 0 XOR U0 ! 2, 1 := U0 ! 1 XOR U0 ! 3];
          W1 = [U0 ! 2 XOR V0 ! 4, U0 ! 3 XOR V0 ! 5, U0 ! 4 XOR V0 ! 6, U0 ! 5 XOR V0 ! 7,
                U0 ! 6 XOR V1 ! 0, U0 ! 7 XOR V1 ! 1, U1 ! 0 XOR V1 ! 2, U1 ! 1 XOR V1 ! 3];
          U2 = U1[2 := U1 ! 2 XOR (U1 ! 4 XOR 0x000000FF), 3 := U1 ! 3 XOR (U1 ! 5 XOR 0xFF00FFFF),
                  4 := U1 ! 4 XOR 0xFF00FF00, 5 := U1 ! 5 XOR 0xFF00FF00,
                  6 := U1 ! 6 XOR 0x00FF00FF, 7 := U1 ! 7 XOR 0x00FF00FF,
                  0 := U1 ! 0 XOR 0x00FFFF00, 1 := U1 ! 1 XOR 0xFF0000FF];
          V2 = V1[4 := V1 ! 4 XOR V1 ! 6, 6 := V1 ! 6 XOR V1 ! 0, 5 := V1 ! 5 XOR V1 ! 7, 7 := V1 ! 7 XOR V1 ! 1];
          W2 = [U2 ! 4 XOR V1 ! 0, U2 ! 5 XOR V1 ! 1, U2 ! 6 XOR V1 ! 2, U2 ! 7 XOR V1 ! 3,
                U2 ! 0 XOR V2 ! 4, U2 ! 1 XOR V2 ! 5, U2 ! 2 XOR V2 ! 6, U2 ! 3 XOR V2 ! 7];
          V3 = V2[0 := V2 ! 0 XOR V2 ! 2, 1 := V2 ! 1 XOR V2 ! 3, 2 := V2 ! 2 XOR V2 ! 4, 3 := V2 ! 3 XOR V2 ! 5];
          U3 = U2[4 := U2 ! 4 XOR U2 ! 6, 5 := U2 ! 5 XOR U2 ! 7];
          W3 = [U2 ! 6 XOR V2 ! 4, U2 ! 7 XOR V2 ! 5, U2 ! 0 XOR V2 ! 6, U2 ! 1 XOR V2 ! 7,
                U2 ! 2 XOR V3 ! 0, U2 ! 3 XOR V3 ! 1, U3 ! 4 XOR V3 ! 2, U3 ! 5 XOR V3 ! 3]
      in [P_GOST_3411_P W0, P_GOST_3411_P W1, P_GOST_3411_P W2, P_GOST_3411_P W3])"

definition gost_encrypt :: "puint32 list \<Rightarrow> puint32 list list \<Rightarrow> puint32 list" where
  "gost_encrypt h K =
     (let s0 = P_GOST_28147_E (h ! 0, h ! 1) (K ! 0);
          s1 = P_GOST_28147_E (h ! 2, h ! 3) (K ! 1);
          s2 = P_GOST_28147_E (h ! 4, h ! 5) (K ! 2);
          s3 = P_GOST_28147_E (h ! 6, h ! 7) (K ! 3)
      in [fst s0, snd s0, fst s1, snd s1, fst s2, snd s2, fst s3, snd s3])"

text \<open>The unrolled shift-register rounds: 12 and the message, one and the old hash, 61.\<close>

definition gost_lfsr_12 :: "puint32 list \<Rightarrow> puint32 list \<Rightarrow> puint32 list" where
  "gost_lfsr_12 M S =
     [M ! 0 XOR S ! 6,
      M ! 1 XOR S ! 7,
      M ! 2 XOR (S ! 0 AND 0x0000FFFF) XOR drop_bit 16 (S ! 0) XOR push_bit 16 (S ! 0) XOR
        (S ! 1 AND 0x0000FFFF) XOR drop_bit 16 (S ! 1) XOR push_bit 16 (S ! 2) XOR
        (S ! 7 AND 0xFFFF0000) XOR push_bit 16 (S ! 6) XOR drop_bit 16 (S ! 7) XOR S ! 6,
      M ! 3 XOR (S ! 0 AND 0x0000FFFF) XOR push_bit 16 (S ! 0) XOR push_bit 16 (S ! 2) XOR
        (S ! 1 AND 0x0000FFFF) XOR push_bit 16 (S ! 1) XOR drop_bit 16 (S ! 1) XOR
        (S ! 7 AND 0x0000FFFF) XOR drop_bit 16 (S ! 2) XOR push_bit 16 (S ! 3) XOR
        push_bit 16 (S ! 6) XOR drop_bit 16 (S ! 6) XOR push_bit 16 (S ! 7) XOR
        drop_bit 16 (S ! 7) XOR S ! 6,
      M ! 4 XOR (S ! 0 AND 0xFFFF0000) XOR push_bit 16 (S ! 0) XOR drop_bit 16 (S ! 0) XOR
        (S ! 1 AND 0xFFFF0000) XOR drop_bit 16 (S ! 1) XOR push_bit 16 (S ! 2) XOR
        (S ! 7 AND 0x0000FFFF) XOR push_bit 16 (S ! 3) XOR drop_bit 16 (S ! 3) XOR
        push_bit 16 (S ! 4) XOR push_bit 16 (S ! 6) XOR drop_bit 16 (S ! 6) XOR
        drop_bit 16 (S ! 2) XOR push_bit 16 (S ! 7) XOR drop_bit 16 (S ! 7),
      M ! 5 XOR (S ! 0 AND 0xFFFF0000) XOR drop_bit 16 (S ! 0) XOR push_bit 16 (S ! 0) XOR
        (S ! 1 AND 0x0000FFFF) XOR drop_bit 16 (S ! 7) XOR drop_bit 16 (S ! 2) XOR
        (S ! 7 AND 0xFFFF0000) XOR drop_bit 16 (S ! 3) XOR push_bit 16 (S ! 4) XOR
        drop_bit 16 (S ! 4) XOR push_bit 16 (S ! 5) XOR push_bit 16 (S ! 6) XOR
        drop_bit 16 (S ! 6) XOR push_bit 16 (S ! 3) XOR push_bit 16 (S ! 7) XOR S ! 2,
      M ! 6 XOR drop_bit 16 (S ! 4) XOR drop_bit 16 (S ! 1) XOR push_bit 16 (S ! 2) XOR
        push_bit 16 (S ! 7) XOR drop_bit 16 (S ! 3) XOR push_bit 16 (S ! 4) XOR
        push_bit 16 (S ! 5) XOR drop_bit 16 (S ! 5) XOR push_bit 16 (S ! 6) XOR
        drop_bit 16 (S ! 6) XOR S ! 6 XOR S ! 0 XOR S ! 3,
      M ! 7 XOR (S ! 0 AND 0xFFFF0000) XOR push_bit 16 (S ! 0) XOR push_bit 16 (S ! 1) XOR
        (S ! 1 AND 0x0000FFFF) XOR drop_bit 16 (S ! 2) XOR push_bit 16 (S ! 3) XOR
        (S ! 7 AND 0x0000FFFF) XOR drop_bit 16 (S ! 4) XOR push_bit 16 (S ! 5) XOR
        drop_bit 16 (S ! 5) XOR drop_bit 16 (S ! 6) XOR push_bit 16 (S ! 7) XOR
        drop_bit 16 (S ! 7) XOR S ! 4]"

definition gost_lfsr_1 :: "puint32 list \<Rightarrow> puint32 list \<Rightarrow> puint32 list" where
  "gost_lfsr_1 h U =
     [h ! 0 XOR push_bit 16 (U ! 1) XOR drop_bit 16 (U ! 0),
      h ! 1 XOR push_bit 16 (U ! 2) XOR drop_bit 16 (U ! 1),
      h ! 2 XOR push_bit 16 (U ! 3) XOR drop_bit 16 (U ! 2),
      h ! 3 XOR push_bit 16 (U ! 4) XOR drop_bit 16 (U ! 3),
      h ! 4 XOR push_bit 16 (U ! 5) XOR drop_bit 16 (U ! 4),
      h ! 5 XOR push_bit 16 (U ! 6) XOR drop_bit 16 (U ! 5),
      h ! 6 XOR push_bit 16 (U ! 7) XOR drop_bit 16 (U ! 6),
      h ! 7 XOR drop_bit 16 (U ! 7) XOR push_bit 16 (U ! 0) XOR (U ! 1 AND 0xFFFF0000) XOR
        push_bit 16 (U ! 1) XOR (U ! 7 AND 0xFFFF0000) XOR push_bit 16 (U ! 6) XOR
        (U ! 0 AND 0xFFFF0000)]"

definition gost_lfsr_61 :: "puint32 list \<Rightarrow> puint32 list" where
  "gost_lfsr_61 V =
     [(V ! 0 AND 0xFFFF0000) XOR push_bit 16 (V ! 0) XOR drop_bit 16 (V ! 0) XOR
        (V ! 1 AND 0xFFFF0000) XOR drop_bit 16 (V ! 1) XOR push_bit 16 (V ! 2) XOR
        (V ! 7 AND 0x0000FFFF) XOR drop_bit 16 (V ! 3) XOR push_bit 16 (V ! 4) XOR
        drop_bit 16 (V ! 5) XOR drop_bit 16 (V ! 6) XOR push_bit 16 (V ! 7) XOR
        drop_bit 16 (V ! 7) XOR V ! 5,
      (V ! 0 AND 0xFFFF0000) XOR push_bit 16 (V ! 0) XOR drop_bit 16 (V ! 0) XOR
        (V ! 1 AND 0x0000FFFF) XOR drop_bit 16 (V ! 2) XOR push_bit 16 (V ! 3) XOR
        (V ! 7 AND 0xFFFF0000) XOR drop_bit 16 (V ! 4) XOR push_bit 16 (V ! 5) XOR
        push_bit 16 (V ! 6) XOR drop_bit 16 (V ! 7) XOR V ! 6 XOR V ! 2,
      (V ! 0 AND 0x0000FFFF) XOR push_bit 16 (V ! 0) XOR push_bit 16 (V ! 1) XOR
        (V ! 7 AND 0x0000FFFF) XOR drop_bit 16 (V ! 1) XOR push_bit 16 (V ! 2) XOR
        (V ! 1 AND 0xFFFF0000) XOR drop_bit 16 (V ! 3) XOR push_bit 16 (V ! 4) XOR
        drop_bit 16 (V ! 5) XOR drop_bit 16 (V ! 6) XOR push_bit 16 (V ! 7) XOR
        drop_bit 16 (V ! 7) XOR V ! 3 XOR V ! 6,
      (V ! 0 AND 0xFFFF0000) XOR push_bit 16 (V ! 0) XOR drop_bit 16 (V ! 0) XOR
        (V ! 1 AND 0xFFFF0000) XOR drop_bit 16 (V ! 1) XOR push_bit 16 (V ! 2) XOR
        (V ! 7 AND 0x0000FFFF) XOR drop_bit 16 (V ! 2) XOR push_bit 16 (V ! 3) XOR
        drop_bit 16 (V ! 4) XOR push_bit 16 (V ! 5) XOR push_bit 16 (V ! 6) XOR
        drop_bit 16 (V ! 7) XOR V ! 2 XOR V ! 4,
      drop_bit 16 (V ! 0) XOR push_bit 16 (V ! 1) XOR drop_bit 16 (V ! 2) XOR
        push_bit 16 (V ! 3) XOR drop_bit 16 (V ! 3) XOR push_bit 16 (V ! 4) XOR
        drop_bit 16 (V ! 5) XOR push_bit 16 (V ! 6) XOR drop_bit 16 (V ! 6) XOR
        push_bit 16 (V ! 7) XOR V ! 1 XOR V ! 2 XOR V ! 3 XOR V ! 5,
      (V ! 0 AND 0xFFFF0000) XOR push_bit 16 (V ! 0) XOR push_bit 16 (V ! 1) XOR
        (V ! 1 AND 0xFFFF0000) XOR drop_bit 16 (V ! 1) XOR push_bit 16 (V ! 2) XOR
        (V ! 7 AND 0xFFFF0000) XOR drop_bit 16 (V ! 3) XOR push_bit 16 (V ! 4) XOR
        drop_bit 16 (V ! 4) XOR push_bit 16 (V ! 5) XOR push_bit 16 (V ! 6) XOR
        drop_bit 16 (V ! 6) XOR push_bit 16 (V ! 7) XOR drop_bit 16 (V ! 7) XOR V ! 2 XOR
        V ! 3 XOR V ! 4 XOR V ! 6,
      drop_bit 16 (V ! 2) XOR push_bit 16 (V ! 3) XOR drop_bit 16 (V ! 4) XOR
        push_bit 16 (V ! 5) XOR drop_bit 16 (V ! 5) XOR push_bit 16 (V ! 6) XOR
        drop_bit 16 (V ! 6) XOR push_bit 16 (V ! 7) XOR V ! 7 XOR V ! 0 XOR V ! 2 XOR
        V ! 3 XOR V ! 4 XOR V ! 5 XOR V ! 6,
      drop_bit 16 (V ! 0) XOR push_bit 16 (V ! 1) XOR drop_bit 16 (V ! 1) XOR
        push_bit 16 (V ! 2) XOR drop_bit 16 (V ! 3) XOR push_bit 16 (V ! 4) XOR
        drop_bit 16 (V ! 5) XOR push_bit 16 (V ! 6) XOR drop_bit 16 (V ! 6) XOR
        push_bit 16 (V ! 7) XOR V ! 7 XOR V ! 0 XOR V ! 3 XOR V ! 4 XOR V ! 5]"

definition pzcrypto_hash_gost3411_process :: "puint32 list \<Rightarrow> puint32 list \<Rightarrow> puint32 list" where
  "pzcrypto_hash_gost3411_process h M =
     (let S = gost_encrypt h (gost_keys h M);
          U = gost_lfsr_12 M S;
          V = gost_lfsr_1 h U
      in gost_lfsr_61 V)"

text \<open>The loop of the 256-bit sum: carry, words of the first operand replaced from the left.\<close>

fun gost_sum_loop :: "bool \<Rightarrow> puint32 list \<Rightarrow> puint32 list \<Rightarrow> puint32 list" where
  "gost_sum_loop carry (old # a) (b # bs) =
     (let s = old + b + (if carry then 1 else 0)
      in s # gost_sum_loop (s < old \<or> s < b) a bs)"
| "gost_sum_loop carry a bs = a"

definition pzcrypto_hash_gost3411_sum_256 :: "puint32 list \<Rightarrow> puint32 list \<Rightarrow> puint32 list" where
  "pzcrypto_hash_gost3411_sum_256 a b = gost_sum_loop False a b"

section \<open>The operations\<close>

record PHashGOST3411 =
  gost_buf :: "puchar list"
  gost_hash :: "puint32 list"
  gost_len :: "puint32 list"
  gost_sum :: "puint32 list"

definition pzcrypto_hash_gost3411_swazbytes :: "bool \<Rightarrow> puint32 list \<Rightarrow> nat \<Rightarrow> puint32 list" where
  "pzcrypto_hash_gost3411_swazbytes be data words =
     (if \<not> be then data else map (PUINT32_TO_LE be) (take words data) @ drop words data)"

text \<open>The three calls on a full buffer: \<^verbatim>\<open>swazbytes\<close>, \<^verbatim>\<open>process\<close>, \<^verbatim>\<open>sum_256\<close>.\<close>

definition gost_block :: "bool \<Rightarrow> puchar list \<times> puint32 list \<times> puint32 list \<Rightarrow>
    puchar list \<times> puint32 list \<times> puint32 list" where
  "gost_block be st =
     (let (bf, h, s) = st;
          w = pzcrypto_hash_gost3411_swazbytes be (buf_w be bf) 8
      in (store_w be w, pzcrypto_hash_gost3411_process h w, pzcrypto_hash_gost3411_sum_256 s w))"

definition zcrypto_hash_gost3411_reset :: "PHashGOST3411 \<Rightarrow> PHashGOST3411" where
  "zcrypto_hash_gost3411_reset ctx =
     ctx\<lparr>gost_buf := replicate 32 0, gost_hash := replicate 8 0, gost_len := replicate 8 0, gost_sum := replicate 8 0\<rparr>"

definition zcrypto_hash_gost3411_new :: "bool \<Rightarrow> PHashGOST3411 option" where
  "zcrypto_hash_gost3411_new mem =
     (if \<not> mem then None
      else Some (zcrypto_hash_gost3411_reset
        \<lparr>gost_buf = replicate 32 0, gost_hash = replicate 8 0, gost_len = replicate 8 0, gost_sum = replicate 8 0\<rparr>))"

definition zcrypto_hash_gost3411_update :: "bool \<Rightarrow> PHashGOST3411 \<Rightarrow> puchar list \<Rightarrow> PHashGOST3411" where
  "zcrypto_hash_gost3411_update be ctx data =
     (let left = unat (drop_bit 3 (gost_len ctx ! 0 AND 0xFF));
          to_fill = 32 - left;
          len = of_nat (length data) :: psize;
          len256 = [ucast (push_bit 3 len), ucast (drop_bit 29 len), 0, 0, 0, 0, 0, 0];
          full = (of_nat to_fill \<le> (ucast len :: puint32));
          (buf', hash', sum') = bb_update 32 (gost_block be) full left
            (gost_buf ctx, gost_hash ctx, gost_sum ctx) data
      in ctx\<lparr>gost_len := pzcrypto_hash_gost3411_sum_256 (gost_len ctx) len256,
             gost_buf := buf', gost_hash := hash', gost_sum := sum'\<rparr>)"

definition zcrypto_hash_gost3411_finish :: "bool \<Rightarrow> PHashGOST3411 \<Rightarrow> PHashGOST3411" where
  "zcrypto_hash_gost3411_finish be ctx =
     (let left = gost_len ctx ! 0 AND 0xFF;
          last = 32 - unat (drop_bit 3 left);
          (buf1, hash1, sum1) =
            (if last mod 32 \<noteq> 0
             then gost_block be (memcpy (gost_buf ctx) (unat (drop_bit 3 left)) (replicate last 0),
                    gost_hash ctx, gost_sum ctx)
             else (gost_buf ctx, gost_hash ctx, gost_sum ctx));
          hash2 = pzcrypto_hash_gost3411_process hash1 (gost_len ctx);
          hash3 = pzcrypto_hash_gost3411_process hash2 sum1
      in ctx\<lparr>gost_buf := buf1, gost_sum := sum1,
             gost_hash := pzcrypto_hash_gost3411_swazbytes be hash3 8\<rparr>)"

definition zcrypto_hash_gost3411_digest :: "bool \<Rightarrow> PHashGOST3411 \<Rightarrow> puchar list" where
  "zcrypto_hash_gost3411_digest be ctx = store_w be (gost_hash ctx)"

section \<open>The standard's transformations\<close>

text \<open>
  The shift register \<open>psi\<close> on sixteen 16-bit words, the least significant first, and the
  transformation \<open>A\<close> on the four 64-bit quarters.
\<close>

definition halves :: "puint32 list \<Rightarrow> 16 word list" where
  "halves ws = concat (map (\<lambda>w. [ucast w, ucast (drop_bit 16 w)]) ws)"

definition psi :: "16 word list \<Rightarrow> 16 word list" where
  "psi y = drop 1 y @ [y ! 0 XOR y ! 1 XOR y ! 2 XOR y ! 3 XOR y ! 12 XOR y ! 15]"

definition gost_A :: "puint32 list \<Rightarrow> puint32 list" where
  "gost_A u = [u ! 2, u ! 3, u ! 4, u ! 5, u ! 6, u ! 7, u ! 0 XOR u ! 2, u ! 1 XOR u ! 3]"

definition xor_list :: "'a::semiring_bit_operations list \<Rightarrow> 'a list \<Rightarrow> 'a list" where
  "xor_list = map2 (XOR)"

definition gost_C3 :: "puint32 list" where
  "gost_C3 = [0xFF00FF00, 0xFF00FF00, 0x00FF00FF, 0x00FF00FF, 0x00FFFF00, 0xFF0000FF, 0x000000FF, 0xFF00FFFF]"

definition unhalves :: "16 word list \<Rightarrow> puint32 list" where
  "unhalves y = map (\<lambda>i. ucast (y ! (2 * i)) OR push_bit 16 (ucast (y ! (2 * i + 1)))) [0..<8]"

definition gost_step :: "puint32 list \<Rightarrow> puint32 list \<Rightarrow> puint32 list" where
  "gost_step h M =
     (let U1 = gost_A h; U2 = xor_list (gost_A U1) gost_C3; U3 = gost_A U2;
          V1 = gost_A (gost_A M); V2 = gost_A (gost_A V1); V3 = gost_A (gost_A V2);
          S = gost_encrypt h [P_GOST_3411_P (xor_list h M), P_GOST_3411_P (xor_list U1 V1),
                P_GOST_3411_P (xor_list U2 V2), P_GOST_3411_P (xor_list U3 V3)]
      in unhalves ((psi ^^ 61) (xor_list (halves h) (psi (xor_list (halves M) ((psi ^^ 12) (halves S)))))))"

text \<open>The number that an array of words stands for, and its words.\<close>

fun gost_num :: "puint32 list \<Rightarrow> nat" where
  "gost_num [] = 0"
| "gost_num (w # ws) = unat w + 2 ^ 32 * gost_num ws"

fun gost_words :: "nat \<Rightarrow> nat \<Rightarrow> puint32 list" where
  "gost_words 0 k = []"
| "gost_words (Suc n) k = of_nat k # gost_words n (k div 2 ^ 32)"

definition gost_blk :: "puint32 list \<times> puint32 list \<Rightarrow> puchar list \<Rightarrow> puint32 list \<times> puint32 list" where
  "gost_blk hs bs =
     (let w = words_of word_le 4 bs
      in (gost_step (fst hs) w, pzcrypto_hash_gost3411_sum_256 (snd hs) w))"

text \<open>
  The hash of a message: whole blocks, the rest padded with zeros, the bit length, the sum.
\<close>

definition gost_digest :: "puchar list \<Rightarrow> puchar list" where
  "gost_digest m =
     (let (hs, t) = absorb 32 gost_blk (replicate 8 0, replicate 8 0) m;
          hs1 = (if t = [] then hs else gost_blk hs (t @ replicate (32 - length t) 0));
          h2 = gost_step (fst hs1) (gost_words 8 (8 * length m))
      in concat (map (bytes_le 4) (gost_step h2 (snd hs1))))"

section \<open>The unrolled code\<close>

lemma gost_list8_cases:
  assumes "length A = 8"
  obtains a0 a1 a2 a3 a4 a5 a6 a7 where "A = [a0, a1, a2, a3, a4, a5, a6, a7]"
  using assms by (auto simp: numeral_eq_Suc length_Suc_conv)

lemma xor_cancel [simp]: "(a :: 'w::len word) XOR (a XOR b) = b"
  by (simp flip: xor.assoc)

text \<open>The keys of the code are \<open>P (A^i U xor A^2i V)\<close> with the constant added at the third.\<close>

lemma gost_keys_spec:
  assumes "length U = 8" "length V = 8"
  shows "gost_keys U V =
    (let U1 = gost_A U; U2 = xor_list (gost_A U1) gost_C3; U3 = gost_A U2;
         V1 = gost_A (gost_A V); V2 = gost_A (gost_A V1); V3 = gost_A (gost_A V2)
     in [P_GOST_3411_P (xor_list U V), P_GOST_3411_P (xor_list U1 V1),
         P_GOST_3411_P (xor_list U2 V2), P_GOST_3411_P (xor_list U3 V3)])"
  using assms
  by (elim gost_list8_cases) (simp add: gost_keys_def gost_A_def gost_C3_def xor_list_def Let_def
      xor.assoc xor.commute xor.left_commute)

lemma half_simps:
  fixes v w :: puint32
  shows "(ucast (push_bit 16 w) :: 16 word) = 0"
    "(ucast (drop_bit 16 (push_bit 16 w)) :: 16 word) = ucast w"
    "(ucast (drop_bit 16 (drop_bit 16 w)) :: 16 word) = 0"
    "(ucast (w AND 0x0000FFFF) :: 16 word) = ucast w"
    "(ucast (drop_bit 16 (w AND 0x0000FFFF)) :: 16 word) = 0"
    "(ucast (w AND 0xFFFF0000) :: 16 word) = 0"
    "(ucast (drop_bit 16 (w AND 0xFFFF0000)) :: 16 word) = ucast (drop_bit 16 w)"
    "(ucast (v XOR w) :: 16 word) = ucast v XOR ucast w"
    "(drop_bit 16 (v XOR w)) = drop_bit 16 v XOR drop_bit 16 w"
proof -
  have m: "(0x0000FFFF :: puint32) = mask 16" "(0xFFFF0000 :: puint32) = push_bit 16 (mask 16)"
    by (simp_all add: mask_eq_exp_minus_1)
  show "(ucast (push_bit 16 w) :: 16 word) = 0"
    "(ucast (drop_bit 16 (push_bit 16 w)) :: 16 word) = ucast w"
    "(ucast (drop_bit 16 (drop_bit 16 w)) :: 16 word) = 0"
    "(ucast (w AND 0x0000FFFF) :: 16 word) = ucast w"
    "(ucast (drop_bit 16 (w AND 0x0000FFFF)) :: 16 word) = 0"
    "(ucast (w AND 0xFFFF0000) :: 16 word) = 0"
    "(ucast (drop_bit 16 (w AND 0xFFFF0000)) :: 16 word) = ucast (drop_bit 16 w)"
    "(ucast (v XOR w) :: 16 word) = ucast v XOR ucast w"
    "(drop_bit 16 (v XOR w)) = drop_bit 16 v XOR drop_bit 16 w"
    unfolding m by (rule bit_word_eqI; auto simp: bit_simps dest: bit_imp_le_length)+
qed

lemma psi_list:
  "psi [y0, y1, y2, y3, y4, y5, y6, y7, y8, y9, y10, y11, y12, y13, y14, y15] =
    [y1, y2, y3, y4, y5, y6, y7, y8, y9, y10, y11, y12, y13, y14, y15,
     y0 XOR y1 XOR y2 XOR y3 XOR y12 XOR y15]"
  by (simp add: psi_def)

lemmas xor_ac = xor.assoc xor.commute xor.left_commute

text \<open>Each unrolled block of assignments is the shift register run that its comment claims.\<close>

lemma gost_lfsr_12_psi:
  "length S = 8 \<Longrightarrow> length M = 8 \<Longrightarrow>
   halves (gost_lfsr_12 M S) = xor_list (halves M) ((psi ^^ 12) (halves S))"
  by (elim gost_list8_cases, simp add: gost_lfsr_12_def halves_def half_simps)
    (simp add: psi_list funpow_swap1 numeral_eq_Suc xor_ac xor_list_def)

lemma gost_lfsr_1_psi:
  "length U = 8 \<Longrightarrow> length h = 8 \<Longrightarrow> halves (gost_lfsr_1 h U) = xor_list (halves h) (psi (halves U))"
  by (elim gost_list8_cases, simp add: gost_lfsr_1_def halves_def half_simps)
    (simp add: psi_list xor_ac xor_list_def)

lemma gost_lfsr_61_psi: "length V = 8 \<Longrightarrow> halves (gost_lfsr_61 V) = (psi ^^ 61) (halves V)"
  by (elim gost_list8_cases, simp add: gost_lfsr_61_def halves_def half_simps)
    (simp add: psi_list funpow_swap1 numeral_eq_Suc xor_ac)

lemma unhalves_halves:
  assumes "length ws = 8"
  shows "unhalves (halves ws) = ws"
proof -
  have "ucast (ucast w :: 16 word) OR push_bit 16 (ucast (ucast (drop_bit 16 w) :: 16 word)) = w" for w :: puint32
    by (rule bit_word_eqI) (auto simp: bit_simps)
  then show ?thesis
    using assms by (elim gost_list8_cases) (simp add: unhalves_def halves_def upt_rec)
qed

lemma gost_process_step:
  assumes "length h = 8" "length M = 8"
  shows "pzcrypto_hash_gost3411_process h M = gost_step h M"
proof -
  let ?S = "gost_encrypt h (gost_keys h M)"
  have S: "length ?S = 8" by (simp add: gost_encrypt_def Let_def)
  have U: "length (gost_lfsr_12 M ?S) = 8" by (simp add: gost_lfsr_12_def)
  have V: "length (gost_lfsr_1 h (gost_lfsr_12 M ?S)) = 8" by (simp add: gost_lfsr_1_def)
  have "length (gost_lfsr_61 V) = 8" for V by (simp add: gost_lfsr_61_def)
  then have "pzcrypto_hash_gost3411_process h M =
      unhalves (halves (gost_lfsr_61 (gost_lfsr_1 h (gost_lfsr_12 M ?S))))"
    by (simp add: pzcrypto_hash_gost3411_process_def unhalves_halves)
  then show ?thesis
    unfolding gost_lfsr_61_psi[OF V] gost_lfsr_1_psi[OF U assms(1)] gost_lfsr_12_psi[OF S assms(2)]
    by (simp add: gost_step_def gost_keys_spec[OF assms] Let_def)
qed

section \<open>The 256-bit sum\<close>

text \<open>The carry test is right unless a carry meets two words of all ones.\<close>

lemma gost_sum_loop_num:
  assumes "list_all2 (\<lambda>x y. \<not> (x = - 1 \<and> y = - 1)) a b"
  shows "gost_num (gost_sum_loop c a b) = (gost_num a + gost_num b + (if c then 1 else 0)) mod 2 ^ (32 * length a)"
  using assms
proof (induction a b arbitrary: c rule: list_all2_induct)
  case (Cons old a b bs)
  let ?c = "if c then 1 else 0 :: nat" and ?t = "unat old + unat b + (if c then 1 else 0)"
  define s where "s = old + b + (if c then 1 else 0)"
  have s: "unat s = ?t mod 2 ^ 32"
    by (simp add: s_def unat_word_ariths mod_simps)
  have bounds: "unat old < 2 ^ 32" "unat b < 2 ^ 32"
    using unsigned_less[of old] unsigned_less[of b] by simp_all
  have max: "x = - 1 \<longleftrightarrow> unat x = 2 ^ 32 - 1" for x :: puint32
    by (simp add: word_unat_eq_iff unsigned_minus_1_eq_mask mask_eq_exp_minus_1)
  have carry: "(s < old \<or> s < b) \<longleftrightarrow> 2 ^ 32 \<le> ?t"
  proof (cases "2 ^ 32 \<le> ?t")
    case True
    then have "unat s = ?t - 2 ^ 32"
      using bounds unfolding s by (subst le_mod_geq) (auto split: if_splits)
    moreover have "unat old \<noteq> 2 ^ 32 - 1 \<or> unat b \<noteq> 2 ^ 32 - 1"
      using Cons.hyps(1) by (simp only: max) blast
    ultimately show ?thesis
      using True bounds by (auto simp: word_less_nat_alt split: if_splits)
  next
    case False
    then have "unat s = ?t" unfolding s by simp
    with False show ?thesis by (auto simp: word_less_nat_alt)
  qed
  let ?c' = "if 2 ^ 32 \<le> ?t then 1 else 0 :: nat" and ?X = "gost_num a + gost_num bs"
  have t: "?t = unat s + 2 ^ 32 * ?c'"
    using bounds unfolding s by (auto simp: le_mod_geq split: if_splits)
  have "gost_num (gost_sum_loop c (old # a) (b # bs)) = unat s + 2 ^ 32 * ((?X + ?c') mod 2 ^ (32 * length a))"
    using Cons.IH[of "2 ^ 32 \<le> ?t"] carry by (simp add: s_def Let_def)
  also have "\<dots> = (unat s + 2 ^ 32 * (?X + ?c')) mod (2 ^ 32 * 2 ^ (32 * length a))"
    by (rule low_high_mod) (use unsigned_less[of s] in simp)
  also have "unat s + 2 ^ 32 * (?X + ?c') = gost_num (old # a) + gost_num (b # bs) + ?c"
    using t by (simp add: algebra_simps)
  also have "(2::nat) ^ 32 * 2 ^ (32 * length a) = 2 ^ (32 * length (old # a))"
    by (simp add: power_add)
  finally show ?case .
qed simp

lemma replicate_explicit:
  "replicate 7 x = [x, x, x, x, x, x, x]" "replicate 8 x = [x, x, x, x, x, x, x, x]"
  by (simp_all add: numeral_eq_Suc)

text \<open>
  \<^verbatim>\<open>sum_256\<close> adds modulo \<open>2^256\<close> whenever no position holds all ones in both operands.
\<close>

theorem gost_sum_256_adds:
  assumes "length a = 8" "length b = 8" "\<forall>i < 8. \<not> (a ! i = 0xFFFFFFFF \<and> b ! i = 0xFFFFFFFF)"
  shows "gost_num (pzcrypto_hash_gost3411_sum_256 a b) = (gost_num a + gost_num b) mod 2 ^ 256"
proof -
  have "(0xFFFFFFFF :: puint32) = - 1" by simp
  then have "list_all2 (\<lambda>x y. \<not> (x = - 1 \<and> y = - 1)) a b"
    using assms unfolding list_all2_conv_all_nth by metis
  from gost_sum_loop_num[OF this, of False] assms(1) show ?thesis
    by (simp add: pzcrypto_hash_gost3411_sum_256_def)
qed

theorem gost_sum_256_adds_witness:
  "gost_num (pzcrypto_hash_gost3411_sum_256 (0xFFFFFFFF # replicate 7 0) (1 # replicate 7 0)) = 2 ^ 32"
proof -
  have "gost_num (replicate 7 0) = 0" by (simp add: replicate_explicit)
  moreover have "\<forall>i < 8. \<not> ((0xFFFFFFFF # replicate 7 0) ! i = (0xFFFFFFFF :: puint32) \<and>
      (1 # replicate 7 0) ! i = (0xFFFFFFFF :: puint32))"
    by (auto simp: nth_Cons')
  ultimately show ?thesis
    using gost_sum_256_adds[of "0xFFFFFFFF # replicate 7 0" "1 # replicate 7 0"] by simp
qed

text \<open>
  The carry out of a position where both words are all ones is lost when a carry comes in:
  adding the block of 32 bytes \<^verbatim>\<open>0xFF\<close> to itself gives a sum that is not twice its value,
  so the digest of 64 such bytes is not the one of the standard.
\<close>

theorem gost_sum_256_carry_lost:
  "pzcrypto_hash_gost3411_sum_256 (replicate 8 0xFFFFFFFF) (replicate 8 0xFFFFFFFF) =
     [0xFFFFFFFE, 0xFFFFFFFF, 0xFFFFFFFE, 0xFFFFFFFF, 0xFFFFFFFE, 0xFFFFFFFF, 0xFFFFFFFE, 0xFFFFFFFF] \<and>
   gost_num (pzcrypto_hash_gost3411_sum_256 (replicate 8 0xFFFFFFFF) (replicate 8 0xFFFFFFFF)) \<noteq>
     (2 * gost_num (replicate 8 0xFFFFFFFF)) mod 2 ^ 256"
  by (simp add: pzcrypto_hash_gost3411_sum_256_def replicate_explicit)

lemma length_gost_sum [simp]: "length (pzcrypto_hash_gost3411_sum_256 a b) = length a"
proof -
  have "length (gost_sum_loop c a b) = length a" for c
    by (induction c a b rule: gost_sum_loop.induct) (simp_all add: Let_def)
  then show ?thesis by (simp add: pzcrypto_hash_gost3411_sum_256_def)
qed

section \<open>Streaming\<close>

lemma gost_swazbytes_alt:
  "pzcrypto_hash_gost3411_swazbytes be ws n = map (PUINT32_TO_LE be) (take n ws) @ drop n ws"
  by (cases be) (simp_all add: pzcrypto_hash_gost3411_swazbytes_def)

definition gost_ok :: "puint32 list \<times> puint32 list \<Rightarrow> bool" where
  "gost_ok hs \<longleftrightarrow> length (fst hs) = 8 \<and> length (snd hs) = 8"

lemma length_gost_step [simp]: "length (gost_step h M) = 8"
  by (simp add: gost_step_def unhalves_def Let_def)

lemma gost_block_words:
  assumes "length bf = 32"
  shows "pzcrypto_hash_gost3411_swazbytes be (buf_w be bf) 8 = words_of word_le 4 bf"
  using assms by (simp add: gost_swazbytes_alt buf_w_def map_words_of order_of_host_word)

interpretation gost: block_buffer 32 32 "gost_block be" gost_blk gost_ok for be
proof
  fix bf :: "puchar list" and h :: "puint32 list \<times> puint32 list"
  assume len: "length bf = 32" and "gost_ok h"
  then show "snd (gost_block be (bf, h)) = gost_blk h (take 32 bf)"
    by (simp add: gost_block_def gost_blk_def gost_ok_def gost_block_words gost_process_step split_def Let_def)
  from len show "length (fst (gost_block be (bf, h))) = 32"
    by (simp add: gost_block_def gost_block_words store_w_def length_concat o_def sum_list_triv split_def Let_def)
next
  show "gost_ok (gost_blk h bs)" if "gost_ok h" for h bs
    using that by (simp add: gost_ok_def gost_blk_def Let_def)
qed simp_all

text \<open>The length array as a number.\<close>

lemma gost_num_less: "gost_num ws < 2 ^ (32 * length ws)"
proof (induction ws)
  case (Cons w ws)
  have "unat w + 2 ^ 32 * gost_num ws < 2 ^ 32 + 2 ^ 32 * gost_num ws"
    using unsigned_less[of w] by simp
  also have "\<dots> = 2 ^ 32 * Suc (gost_num ws)" by simp
  also have "\<dots> \<le> 2 ^ 32 * 2 ^ (32 * length ws)"
    using Cons by (intro mult_le_mono2) simp
  finally show ?case by (simp add: power_add)
qed simp

lemma gost_words_num: "gost_words (length ws) (gost_num ws + 2 ^ (32 * length ws) * k) = ws"
proof (induction ws)
  case (Cons w ws)
  let ?x = "gost_num ws + 2 ^ (32 * length ws) * k"
  have x: "gost_num (w # ws) + 2 ^ (32 * length (w # ws)) * k = unat w + 2 ^ 32 * ?x"
    by (simp add: algebra_simps power_add)
  have "(unat w + 2 ^ 32 * ?x) div 2 ^ 32 = ?x"
    using unat_less_32[of w] by (subst div_mult_self2) simp_all
  moreover have "of_nat (unat w + 2 ^ 32 * ?x) = w"
  proof -
    have "(2 :: puint32) ^ 32 = 0" by simp
    then show ?thesis
      by (simp only: of_nat_add of_nat_mult of_nat_power of_nat_numeral) simp
  qed
  ultimately show ?case
    unfolding x using Cons by (simp only: list.size gost_words.simps Suc_eq_plus1 [symmetric]) simp
qed simp

definition gost_rep :: "PHashGOST3411 \<Rightarrow> puchar list \<Rightarrow> bool" where
  "gost_rep ctx m \<longleftrightarrow> length (gost_buf ctx) = 32 \<and> gost_ok (gost_hash ctx, gost_sum ctx) \<and>
     length (gost_len ctx) = 8 \<and> gost_num (gost_len ctx) = 8 * length m mod 2 ^ 256 \<and>
     absorb 32 gost_blk (replicate 8 0, replicate 8 0) m =
       ((gost_hash ctx, gost_sum ctx), take (length m mod 32) (gost_buf ctx))"

lemma gost_len_words:
  assumes "gost_rep ctx m"
  shows "gost_len ctx = gost_words 8 (8 * length m)"
proof -
  have num: "gost_num (gost_len ctx) = 8 * length m mod 2 ^ 256" and len: "length (gost_len ctx) = 8"
    using assms unfolding gost_rep_def by blast+
  have "gost_num (gost_len ctx) + 2 ^ (32 * length (gost_len ctx)) * (8 * length m div 2 ^ 256) = 8 * length m"
    unfolding num len using mod_mult_div_eq[of "8 * length m" "2 ^ 256"] by simp
  with gost_words_num[of "gost_len ctx" "8 * length m div 2 ^ 256"] show ?thesis
    unfolding len by simp
qed

lemma gost_words_8_0: "gost_words 8 k ! 0 = of_nat k"
  using gost_words.simps(2)[of 7 k] by simp

lemma gost_left:
  assumes "gost_rep ctx m"
  shows "unat (drop_bit 3 (gost_len ctx ! 0 AND 0xFF)) = length m mod 32"
proof -
  have "gost_len ctx ! 0 = of_nat (8 * length m)"
    by (simp only: gost_len_words[OF assms] gost_words_8_0)
  moreover have "(0xFF :: puint32) = mask 8" by (simp add: mask_eq_exp_minus_1)
  moreover have "unat (drop_bit 3 (take_bit 8 (of_nat (8 * length m) :: puint32))) = (8 * length m) mod 256 div 8"
    unfolding unsigned_drop_bit_eq unsigned_take_bit_eq unsigned_of_nat
    by (simp only: take_bit_take_bit) (simp add: take_bit_eq_mod drop_bit_eq_div mod_mod_cancel)
  moreover have "(8 * length m) mod 256 div 8 = length m mod 32"
    using mult_mod_right[of 8 "length m" 32] by simp
  ultimately show ?thesis
    by (simp add: take_bit_eq_mask)
qed

text \<open>The 64-bit length of a piece as a 256-bit number, below 4 GiB.\<close>

lemma no_double_ones:
  "length a = length b \<Longrightarrow> \<forall>x \<in> set b. x \<noteq> - 1 \<Longrightarrow> list_all2 (\<lambda>x y. \<not> (x = - 1 \<and> y = - 1)) a (b :: puint32 list)"
  by (simp add: list_all2_conv_all_nth)

lemma gost_len256:
  assumes "d < 2 ^ 32"
  defines "l \<equiv> [ucast (push_bit 3 (of_nat d :: psize)), ucast (drop_bit 29 (of_nat d :: psize)), 0, 0, 0, 0, 0, 0] :: puint32 list"
  shows "gost_num l = 8 * d" "\<forall>x \<in> set l. x \<noteq> - 1"
proof -
  have d64: "unat (of_nat d :: psize) = d"
    using assms(1) by (simp add: unsigned_of_nat take_bit_eq_mod)
  let ?lo = "ucast (push_bit 3 (of_nat d :: psize)) :: puint32" and ?hi = "ucast (drop_bit 29 (of_nat d :: psize)) :: puint32"
  have low: "unat ?lo = 8 * d mod 2 ^ 32"
  proof -
    have "unat (push_bit 3 (of_nat d :: psize)) = 8 * d"
      using assms(1) by (simp only: unsigned_push_bit_eq d64) (simp add: take_bit_eq_mod push_bit_eq_mult)
    then show ?thesis
      by (simp only: unsigned_ucast_eq) (simp add: take_bit_eq_mod unsigned_take_bit_eq)
  qed
  have "d div 2 ^ 29 < 8" using assms(1) by (simp add: div_less_iff_less_mult)
  then have high: "unat ?hi = d div 2 ^ 29"
    by (simp add: unsigned_ucast_eq unat_div d64 take_bit_eq_mod drop_bit_eq_div)
  have "8 * d div 2 ^ 32 = d div 2 ^ 29"
    using div_mult_mult1[of 8 d "2 ^ 29"] by simp
  with low high mod_mult_div_eq[of "8 * d" "2 ^ 32"] show "gost_num l = 8 * d"
    unfolding l_def gost_num.simps by simp
  have "(8 * d) mod 2 ^ 32 \<noteq> 2 ^ 32 - 1"
  proof
    assume eq: "(8 * d) mod 2 ^ 32 = 2 ^ 32 - 1"
    have "even ((8 * d) mod 2 ^ 32)" by (simp add: dvd_mod)
    then show False unfolding eq by simp
  qed
  then have "?lo \<noteq> - 1"
    using low by (auto simp: unsigned_minus_1_eq_mask mask_eq_exp_minus_1)
  moreover have "?hi \<noteq> - 1"
    using high \<open>d div 2 ^ 29 < 8\<close> by (auto simp: unsigned_minus_1_eq_mask mask_eq_exp_minus_1)
  ultimately show "\<forall>x \<in> set l. x \<noteq> - 1"
    by (simp add: l_def)
qed

lemma gost_update_rep:
  assumes rep: "gost_rep ctx m" and len: "length data < 2 ^ 32"
  shows "gost_rep (zcrypto_hash_gost3411_update be ctx data) (m @ data)"
proof -
  let ?l = "length m mod 32" and ?d = "length data"
  let ?len256 = "[ucast (push_bit 3 (of_nat ?d :: psize)), ucast (drop_bit 29 (of_nat ?d :: psize)), 0, 0, 0, 0, 0, 0] :: puint32 list"
  have buf: "length (gost_buf ctx) = 32" and ok: "gost_ok (gost_hash ctx, gost_sum ctx)"
    and len8: "length (gost_len ctx) = 8" and num: "gost_num (gost_len ctx) = 8 * length m mod 2 ^ 256"
    and abs: "absorb 32 gost_blk (replicate 8 0, replicate 8 0) m =
       ((gost_hash ctx, gost_sum ctx), take ?l (gost_buf ctx))"
    using rep unfolding gost_rep_def by blast+
  have full: "of_nat (32 - ?l) \<le> (ucast (of_nat ?d :: psize) :: puint32) \<longleftrightarrow> 32 - ?l \<le> ?d"
  proof -
    have "unat (ucast (of_nat ?d :: psize) :: puint32) = ?d"
      using len by (simp add: unsigned_ucast_eq unsigned_of_nat take_bit_eq_mod)
    moreover have "unat (of_nat (32 - ?l) :: puint32) = 32 - ?l"
      by (simp only: unsigned_of_nat take_bit_eq_mod of_nat_id) (rule mod_less, simp add: less_imp_diff_less)
    ultimately show ?thesis by (simp only: word_le_nat_alt)
  qed
  obtain bf' h' s' where upd: "bb_update 32 (gost_block be) (32 - ?l \<le> ?d) ?l
      (gost_buf ctx, gost_hash ctx, gost_sum ctx) data = (bf', h', s')"
    by (metis prod_cases3)
  have less: "?l < 32" by simp
  note us = gost.update_spec[OF buf less refl ok upd]
  have "zcrypto_hash_gost3411_update be ctx data =
      ctx\<lparr>gost_len := pzcrypto_hash_gost3411_sum_256 (gost_len ctx) ?len256,
          gost_buf := bf', gost_hash := h', gost_sum := s'\<rparr>"
    using upd by (simp only: zcrypto_hash_gost3411_update_def Let_def full gost_left[OF rep] prod.case)
  moreover have "absorb 32 gost_blk (replicate 8 0, replicate 8 0) (m @ data) =
      ((h', s'), take (length (m @ data) mod 32) bf')"
    using us(1) abs by (subst absorb_append) (simp add: mod_add_left_eq)
  moreover have "gost_num (pzcrypto_hash_gost3411_sum_256 (gost_len ctx) ?len256) = 8 * length (m @ data) mod 2 ^ 256"
  proof -
    note l = gost_len256[OF len]
    have "list_all2 (\<lambda>x y. \<not> (x = - 1 \<and> y = - 1)) (gost_len ctx) ?len256"
      using l(2) len8 by (intro no_double_ones) simp_all
    from gost_sum_loop_num[OF this, of False] len8 show ?thesis
      unfolding pzcrypto_hash_gost3411_sum_256_def l(1) num
      by (simp add: mod_add_left_eq)
  qed
  ultimately show ?thesis
    unfolding gost_rep_def using us(2,3) len8 by simp
qed

lemma gost_updates_rep:
  "gost_rep ctx m \<Longrightarrow> \<forall>d \<in> set ds. length d < 2 ^ 32 \<Longrightarrow>
   gost_rep (foldl (zcrypto_hash_gost3411_update be) ctx ds) (m @ concat ds)"
proof (induction ds arbitrary: ctx m)
  case (Cons d ds)
  then show ?case
    using gost_update_rep[of ctx m d be] Cons.IH[of _ "m @ d"] by simp
qed simp

lemma gost_new_rep: "zcrypto_hash_gost3411_new True = Some ctx \<Longrightarrow> gost_rep ctx []"
  by (auto simp: zcrypto_hash_gost3411_new_def zcrypto_hash_gost3411_reset_def gost_rep_def gost_ok_def
      absorb_less replicate_explicit)

lemma gost_block_spec:
  assumes "length bf = 32" "gost_ok hs"
  shows "snd (gost_block be (bf, hs)) = gost_blk hs bf"
  using gost.block_hash[OF assms, of be] assms(1) by simp

lemma gost_finish_spec:
  assumes rep: "gost_rep ctx m"
  shows "zcrypto_hash_gost3411_digest be (zcrypto_hash_gost3411_finish be ctx) = gost_digest m"
proof -
  let ?l = "length m mod 32" and ?h = "(gost_hash ctx, gost_sum ctx)"
  have buf: "length (gost_buf ctx) = 32" and ok: "gost_ok ?h"
    and abs: "absorb 32 gost_blk (replicate 8 0, replicate 8 0) m = (?h, take ?l (gost_buf ctx))"
    using rep unfolding gost_rep_def by blast+
  let ?t = "take ?l (gost_buf ctx)"
  have l: "?l < 32" by simp
  have t: "length ?t = ?l" using buf l by simp
  let ?pad = "memcpy (gost_buf ctx) ?l (replicate (32 - ?l) 0)"
  have pad: "?pad = ?t @ replicate (32 - ?l) 0" "length ?pad = 32"
    using buf l by (simp_all add: memcpy_def)
  define hs1 where "hs1 = (if ?t = [] then ?h else gost_blk ?h (?t @ replicate (32 - length ?t) 0))"
  obtain b1 h1 s1 where fin: "(if (32 - ?l) mod 32 \<noteq> 0 then gost_block be (?pad, ?h) else (gost_buf ctx, ?h)) = (b1, h1, s1)"
    by (metis prod_cases3)
  have z: "(32 - ?l) mod 32 = 0 \<longleftrightarrow> ?t = []"
    using t l by (cases "?l = 0") auto
  have hs: "(h1, s1) = hs1"
    using fin gost_block_spec[OF pad(2) ok, of be] unfolding hs1_def z t
    by (auto simp: pad(1) split: if_splits)
  have "gost_ok (h1, s1)"
    unfolding hs hs1_def using ok gost.blk_ok[OF ok] by simp
  then have ok1: "length h1 = 8" "length s1 = 8"
    by (simp_all add: gost_ok_def)
  have len: "length (gost_words 8 (8 * length m)) = 8"
    using gost_len_words[OF rep] rep by (simp add: gost_rep_def)
  have "gost_hash (zcrypto_hash_gost3411_finish be ctx) = map (PUINT32_TO_LE be)
      (gost_step (gost_step h1 (gost_words 8 (8 * length m))) s1)"
  proof -
    have "zcrypto_hash_gost3411_finish be ctx = ctx\<lparr>gost_buf := b1, gost_sum := s1,
        gost_hash := pzcrypto_hash_gost3411_swazbytes be (pzcrypto_hash_gost3411_process
          (pzcrypto_hash_gost3411_process h1 (gost_len ctx)) s1) 8\<rparr>"
      using fin by (simp only: zcrypto_hash_gost3411_finish_def Let_def gost_left[OF rep] prod.case)
    then show ?thesis
      by (simp add: gost_len_words[OF rep] gost_process_step len ok1 gost_swazbytes_alt)
  qed
  then show ?thesis
    unfolding zcrypto_hash_gost3411_digest_def gost_digest_def abs Let_def prod.case
    by (simp add: hs1_def[symmetric] hs[symmetric] store_w_def host_bytes_of_order o_def del: take_eq_Nil take_eq_Nil2)
qed



end
