(* ===== verification/PCryptoHash.thy ===== *)
theory PCryptoHash
  imports PCryptoHash_MD5 PCryptoHash_SHA1 PCryptoHash_SHA256 PCryptoHash_SHA512 PCryptoHash_SHA3 PCryptoHash_GOST
begin

text \<open>
  The hash object of \<^verbatim>\<open>src/src/lib/pcryptohash.c\<close>: the table of function pointers that
  \<^verbatim>\<open>zcrypto_hash_new\<close> fills in, and the operations with their closed flag. The locale
  \<open>hash_algorithm\<close> is what the object needs from an algorithm; it is interpreted on the six
  contexts of the library, and the object refines a message buffer with a flag.
\<close>

section \<open>The object\<close>

text \<open>The values of the enumeration, in the order of \<^verbatim>\<open>pcryptohash.h\<close>.\<close>

datatype PCryptoHashType = P_CRYPTO_HASH_TYPE_MD5 | P_CRYPTO_HASH_TYPE_SHA1
  | P_CRYPTO_HASH_TYPE_SHA2_224 | P_CRYPTO_HASH_TYPE_SHA2_256
  | P_CRYPTO_HASH_TYPE_SHA2_384 | P_CRYPTO_HASH_TYPE_SHA2_512
  | P_CRYPTO_HASH_TYPE_SHA3_224 | P_CRYPTO_HASH_TYPE_SHA3_256
  | P_CRYPTO_HASH_TYPE_SHA3_384 | P_CRYPTO_HASH_TYPE_SHA3_512
  | P_CRYPTO_HASH_TYPE_GOST

definition PCryptoHashTypes :: "PCryptoHashType list" where
  "PCryptoHashTypes = [P_CRYPTO_HASH_TYPE_MD5, P_CRYPTO_HASH_TYPE_SHA1,
     P_CRYPTO_HASH_TYPE_SHA2_224, P_CRYPTO_HASH_TYPE_SHA2_256,
     P_CRYPTO_HASH_TYPE_SHA2_384, P_CRYPTO_HASH_TYPE_SHA2_512,
     P_CRYPTO_HASH_TYPE_SHA3_224, P_CRYPTO_HASH_TYPE_SHA3_256,
     P_CRYPTO_HASH_TYPE_SHA3_384, P_CRYPTO_HASH_TYPE_SHA3_512, P_CRYPTO_HASH_TYPE_GOST]"

text \<open>What the untyped pointer \<^verbatim>\<open>context\<close> may point to.\<close>

datatype hash_ctx = Ctx_MD5 PHashMD5 | Ctx_SHA1 PHashSHA1 | Ctx_SHA2_256 PHashSHA2_256
  | Ctx_SHA2_512 PHashSHA2_512 | Ctx_SHA3 PHashSHA3 | Ctx_GOST PHashGOST3411

text \<open>
  The function pointers. A call through a pointer of another type than the context is
  undefined in C; the casts below return the context unchanged there.
\<close>

record hash_funcs =
  hf_create :: "bool \<Rightarrow> hash_ctx option"
  hf_update :: "hash_ctx \<Rightarrow> puchar list \<Rightarrow> hash_ctx"
  hf_finish :: "hash_ctx \<Rightarrow> hash_ctx"
  hf_digest :: "hash_ctx \<Rightarrow> puchar list option"
  hf_reset :: "hash_ctx \<Rightarrow> hash_ctx"

record PCryptoHash = hash_funcs +
  ch_type :: PCryptoHashType
  ch_context :: hash_ctx
  hash_len :: puint32
  closed :: bool

definition funcs_md5 :: "bool \<Rightarrow> hash_funcs" where
  "funcs_md5 be = \<lparr>
     hf_create = \<lambda>mem. map_option Ctx_MD5 (zcrypto_hash_md5_new mem),
     hf_update = \<lambda>c d. case c of Ctx_MD5 x \<Rightarrow> Ctx_MD5 (zcrypto_hash_md5_update be x d) | _ \<Rightarrow> c,
     hf_finish = \<lambda>c. case c of Ctx_MD5 x \<Rightarrow> Ctx_MD5 (zcrypto_hash_md5_finish be x) | _ \<Rightarrow> c,
     hf_digest = \<lambda>c. case c of Ctx_MD5 x \<Rightarrow> Some (zcrypto_hash_md5_digest be x) | _ \<Rightarrow> None,
     hf_reset = \<lambda>c. case c of Ctx_MD5 x \<Rightarrow> Ctx_MD5 (zcrypto_hash_md5_reset x) | _ \<Rightarrow> c\<rparr>"

definition funcs_sha1 :: "bool \<Rightarrow> hash_funcs" where
  "funcs_sha1 be = \<lparr>
     hf_create = \<lambda>mem. map_option Ctx_SHA1 (zcrypto_hash_sha1_new mem),
     hf_update = \<lambda>c d. case c of Ctx_SHA1 x \<Rightarrow> Ctx_SHA1 (zcrypto_hash_sha1_update be x d) | _ \<Rightarrow> c,
     hf_finish = \<lambda>c. case c of Ctx_SHA1 x \<Rightarrow> Ctx_SHA1 (zcrypto_hash_sha1_finish be x) | _ \<Rightarrow> c,
     hf_digest = \<lambda>c. case c of Ctx_SHA1 x \<Rightarrow> Some (zcrypto_hash_sha1_digest be x) | _ \<Rightarrow> None,
     hf_reset = \<lambda>c. case c of Ctx_SHA1 x \<Rightarrow> Ctx_SHA1 (zcrypto_hash_sha1_reset x) | _ \<Rightarrow> c\<rparr>"

text \<open>
  The headers define the names of SHA-224, SHA-384 and the SHA-3 sizes as those of the
  larger algorithm, except for the constructor.
\<close>

definition funcs_sha2_256 :: "bool \<Rightarrow> (bool \<Rightarrow> PHashSHA2_256 option) \<Rightarrow> hash_funcs" where
  "funcs_sha2_256 be create = \<lparr>
     hf_create = \<lambda>mem. map_option Ctx_SHA2_256 (create mem),
     hf_update = \<lambda>c d. case c of Ctx_SHA2_256 x \<Rightarrow> Ctx_SHA2_256 (zcrypto_hash_sha2_256_update be x d) | _ \<Rightarrow> c,
     hf_finish = \<lambda>c. case c of Ctx_SHA2_256 x \<Rightarrow> Ctx_SHA2_256 (zcrypto_hash_sha2_256_finish be x) | _ \<Rightarrow> c,
     hf_digest = \<lambda>c. case c of Ctx_SHA2_256 x \<Rightarrow> Some (zcrypto_hash_sha2_256_digest be x) | _ \<Rightarrow> None,
     hf_reset = \<lambda>c. case c of Ctx_SHA2_256 x \<Rightarrow> Ctx_SHA2_256 (zcrypto_hash_sha2_256_reset x) | _ \<Rightarrow> c\<rparr>"

definition funcs_sha2_512 :: "bool \<Rightarrow> (bool \<Rightarrow> PHashSHA2_512 option) \<Rightarrow> hash_funcs" where
  "funcs_sha2_512 be create = \<lparr>
     hf_create = \<lambda>mem. map_option Ctx_SHA2_512 (create mem),
     hf_update = \<lambda>c d. case c of Ctx_SHA2_512 x \<Rightarrow> Ctx_SHA2_512 (zcrypto_hash_sha2_512_update be x d) | _ \<Rightarrow> c,
     hf_finish = \<lambda>c. case c of Ctx_SHA2_512 x \<Rightarrow> Ctx_SHA2_512 (zcrypto_hash_sha2_512_finish be x) | _ \<Rightarrow> c,
     hf_digest = \<lambda>c. case c of Ctx_SHA2_512 x \<Rightarrow> Some (zcrypto_hash_sha2_512_digest be x) | _ \<Rightarrow> None,
     hf_reset = \<lambda>c. case c of Ctx_SHA2_512 x \<Rightarrow> Ctx_SHA2_512 (zcrypto_hash_sha2_512_reset x) | _ \<Rightarrow> c\<rparr>"

definition funcs_sha3 :: "bool \<Rightarrow> (bool \<Rightarrow> PHashSHA3 option) \<Rightarrow> hash_funcs" where
  "funcs_sha3 be create = \<lparr>
     hf_create = \<lambda>mem. map_option Ctx_SHA3 (create mem),
     hf_update = \<lambda>c d. case c of Ctx_SHA3 x \<Rightarrow> Ctx_SHA3 (zcrypto_hash_sha3_update be x d) | _ \<Rightarrow> c,
     hf_finish = \<lambda>c. case c of Ctx_SHA3 x \<Rightarrow> Ctx_SHA3 (zcrypto_hash_sha3_finish be x) | _ \<Rightarrow> c,
     hf_digest = \<lambda>c. case c of Ctx_SHA3 x \<Rightarrow> Some (zcrypto_hash_sha3_digest be x) | _ \<Rightarrow> None,
     hf_reset = \<lambda>c. case c of Ctx_SHA3 x \<Rightarrow> Ctx_SHA3 (zcrypto_hash_sha3_reset x) | _ \<Rightarrow> c\<rparr>"

definition funcs_gost3411 :: "bool \<Rightarrow> hash_funcs" where
  "funcs_gost3411 be = \<lparr>
     hf_create = \<lambda>mem. map_option Ctx_GOST (zcrypto_hash_gost3411_new mem),
     hf_update = \<lambda>c d. case c of Ctx_GOST x \<Rightarrow> Ctx_GOST (zcrypto_hash_gost3411_update be x d) | _ \<Rightarrow> c,
     hf_finish = \<lambda>c. case c of Ctx_GOST x \<Rightarrow> Ctx_GOST (zcrypto_hash_gost3411_finish be x) | _ \<Rightarrow> c,
     hf_digest = \<lambda>c. case c of Ctx_GOST x \<Rightarrow> Some (zcrypto_hash_gost3411_digest be x) | _ \<Rightarrow> None,
     hf_reset = \<lambda>c. case c of Ctx_GOST x \<Rightarrow> Ctx_GOST (zcrypto_hash_gost3411_reset x) | _ \<Rightarrow> c\<rparr>"

text \<open>The \<^verbatim>\<open>switch\<close> of \<^verbatim>\<open>zcrypto_hash_new\<close>: the functions and the digest length of a type.\<close>

fun hash_funcs_of :: "bool \<Rightarrow> PCryptoHashType \<Rightarrow> hash_funcs \<times> puint32" where
  "hash_funcs_of be P_CRYPTO_HASH_TYPE_MD5 = (funcs_md5 be, 16)"
| "hash_funcs_of be P_CRYPTO_HASH_TYPE_SHA1 = (funcs_sha1 be, 20)"
| "hash_funcs_of be P_CRYPTO_HASH_TYPE_SHA2_224 = (funcs_sha2_256 be zcrypto_hash_sha2_224_new, 28)"
| "hash_funcs_of be P_CRYPTO_HASH_TYPE_SHA2_256 = (funcs_sha2_256 be zcrypto_hash_sha2_256_new, 32)"
| "hash_funcs_of be P_CRYPTO_HASH_TYPE_SHA2_384 = (funcs_sha2_512 be zcrypto_hash_sha2_384_new, 48)"
| "hash_funcs_of be P_CRYPTO_HASH_TYPE_SHA2_512 = (funcs_sha2_512 be zcrypto_hash_sha2_512_new, 64)"
| "hash_funcs_of be P_CRYPTO_HASH_TYPE_SHA3_224 = (funcs_sha3 be zcrypto_hash_sha3_224_new, 28)"
| "hash_funcs_of be P_CRYPTO_HASH_TYPE_SHA3_256 = (funcs_sha3 be zcrypto_hash_sha3_256_new, 32)"
| "hash_funcs_of be P_CRYPTO_HASH_TYPE_SHA3_384 = (funcs_sha3 be zcrypto_hash_sha3_384_new, 48)"
| "hash_funcs_of be P_CRYPTO_HASH_TYPE_SHA3_512 = (funcs_sha3 be zcrypto_hash_sha3_512_new, 64)"
| "hash_funcs_of be P_CRYPTO_HASH_TYPE_GOST = (funcs_gost3411 be, 32)"

text \<open>
  The constructor; the type argument is an integer, as in C, and the two flags are the
  outcomes of the two allocations.
\<close>

definition zcrypto_hash_new :: "bool \<Rightarrow> bool \<Rightarrow> bool \<Rightarrow> int \<Rightarrow> PCryptoHash option" where
  "zcrypto_hash_new be mem mem_ctx type =
     (if \<not> (0 \<le> type \<and> type \<le> 10) then None
      else if \<not> mem then None
      else let t = PCryptoHashTypes ! nat type; (fs, n) = hash_funcs_of be t
           in case hf_create fs mem_ctx of
                None \<Rightarrow> None
              | Some c \<Rightarrow> Some (hash_funcs.extend fs
                  \<lparr>ch_type = t, ch_context = c, hash_len = n, closed = False\<rparr>))"

text \<open>A null pointer is \<open>None\<close>; \<open>data\<close> is the memory from the pointer on.\<close>

definition zcrypto_hash_update :: "PCryptoHash option \<Rightarrow> puchar list option \<Rightarrow> psize \<Rightarrow> PCryptoHash option" where
  "zcrypto_hash_update hp data len =
     (case (hp, data) of
        (Some h, Some d) \<Rightarrow>
          if len = 0 then hp
          else if closed h then hp
          else Some (h\<lparr>ch_context := hf_update h (ch_context h) (take (unat len) d)\<rparr>)
      | _ \<Rightarrow> hp)"

definition zcrypto_hash_reset :: "PCryptoHash option \<Rightarrow> PCryptoHash option" where
  "zcrypto_hash_reset hp = map_option (\<lambda>h. h\<lparr>ch_context := hf_reset h (ch_context h), closed := False\<rparr>) hp"

text \<open>The statement \<^verbatim>\<open>if (!hash->closed) ...\<close> of both getters.\<close>

definition hash_close :: "PCryptoHash \<Rightarrow> PCryptoHash" where
  "hash_close h =
     (if \<not> closed h then h\<lparr>ch_context := hf_finish h (ch_context h), closed := True\<rparr> else h)"

definition pzcrypto_hash_hex_str :: "char list" where
  "pzcrypto_hash_hex_str = ''0123456789abcdef''"

definition pzcrypto_hash_digest_to_hex :: "puchar list \<Rightarrow> nat \<Rightarrow> char list \<Rightarrow> char list" where
  "pzcrypto_hash_digest_to_hex digest len out =
     foldl (\<lambda>out i. out[push_bit 1 i := pzcrypto_hash_hex_str ! unat (drop_bit 4 (digest ! i) AND 0x0F),
                        push_bit 1 i + 1 := pzcrypto_hash_hex_str ! unat (digest ! i AND 0x0F)])
       out [0..<len]"

definition zcrypto_hash_get_string :: "bool \<Rightarrow> PCryptoHash option \<Rightarrow> PCryptoHash option \<times> char list option" where
  "zcrypto_hash_get_string mem hp =
     (case hp of
        None \<Rightarrow> (None, None)
      | Some h \<Rightarrow>
          let h1 = hash_close h
          in case hf_digest h1 (ch_context h1) of
               None \<Rightarrow> (Some h1, None)
             | Some digest \<Rightarrow>
                 if \<not> mem then (Some h1, None)
                 else (Some h1, Some (pzcrypto_hash_digest_to_hex digest (unat (hash_len h1))
                   (replicate (unat (hash_len h1 * 2 + 1)) (CHR 0x00)))))"

text \<open>The buffer and the length that \<^verbatim>\<open>len\<close> points to are returned as they are left.\<close>

definition zcrypto_hash_get_digest :: "PCryptoHash option \<Rightarrow> puchar list option \<Rightarrow> psize option \<Rightarrow>
    PCryptoHash option \<times> puchar list option \<times> psize option" where
  "zcrypto_hash_get_digest hp bf len =
     (case len of
        None \<Rightarrow> (hp, bf, None)
      | Some l \<Rightarrow>
          (case (hp, bf) of
             (Some h, Some b) \<Rightarrow>
               if l < ucast (hash_len h) then (hp, bf, Some 0)
               else let h1 = hash_close h
                    in (case hf_digest h1 (ch_context h1) of
                          None \<Rightarrow> (Some h1, bf, Some 0)
                        | Some digest \<Rightarrow>
                            (Some h1, Some (memcpy b 0 (take (unat (hash_len h1)) digest)), Some (ucast (hash_len h1))))
           | _ \<Rightarrow> (hp, bf, Some 0)))"

definition zcrypto_hash_get_length :: "PCryptoHash option \<Rightarrow> 64 word" where
  "zcrypto_hash_get_length hp = (case hp of None \<Rightarrow> 0 | Some h \<Rightarrow> ucast (hash_len h))"

text \<open>\<open>None\<close> is the value -1, which no type has.\<close>

definition zcrypto_hash_get_type :: "PCryptoHash option \<Rightarrow> PCryptoHashType option" where
  "zcrypto_hash_get_type hp = map_option ch_type hp"

section \<open>The abstract object\<close>

text \<open>
  Abstractly a hash object is the message given so far and a flag. An update appends to the
  message while the flag is not set, the getters set it, a reset starts over.
\<close>

datatype hash_op = Op_Update "puchar list" | Op_Reset | Op_Get_String bool | Op_Get_Digest "puchar list" psize

datatype hash_out = Out_None | Out_String "char list option" | Out_Digest "puchar list option" "psize option"

fun hash_step :: "hash_op \<Rightarrow> PCryptoHash option \<Rightarrow> PCryptoHash option \<times> hash_out" where
  "hash_step (Op_Update d) hp = (zcrypto_hash_update hp (Some d) (of_nat (length d)), Out_None)"
| "hash_step Op_Reset hp = (zcrypto_hash_reset hp, Out_None)"
| "hash_step (Op_Get_String mem) hp =
     (let (hp', s) = zcrypto_hash_get_string mem hp in (hp', Out_String s))"
| "hash_step (Op_Get_Digest b l) hp =
     (let (hp', b', l') = zcrypto_hash_get_digest hp (Some b) (Some l) in (hp', Out_Digest b' l'))"

definition hex_byte :: "puchar \<Rightarrow> char list" where
  "hex_byte b = [pzcrypto_hash_hex_str ! (unat b div 16), pzcrypto_hash_hex_str ! (unat b mod 16)]"

fun spec_hash_step :: "(puchar list \<Rightarrow> puchar list) \<Rightarrow> nat \<Rightarrow> hash_op \<Rightarrow> puchar list \<times> bool \<Rightarrow>
    (puchar list \<times> bool) \<times> hash_out" where
  "spec_hash_step H n (Op_Update d) (m, c) = ((if c then m else m @ d, c), Out_None)"
| "spec_hash_step H n Op_Reset (m, c) = (([], False), Out_None)"
| "spec_hash_step H n (Op_Get_String mem) (m, c) =
     ((m, True), Out_String (if mem then Some (concat (map hex_byte (H m)) @ [CHR 0x00]) else None))"
| "spec_hash_step H n (Op_Get_Digest b l) (m, c) =
     (if unat l < n then ((m, c), Out_Digest (Some b) (Some 0))
      else ((m, True), Out_Digest (Some (memcpy b 0 (H m))) (Some (of_nat n))))"

fun run_ops :: "('o \<Rightarrow> 's \<Rightarrow> 's \<times> 'r) \<Rightarrow> 'o list \<Rightarrow> 's \<Rightarrow> 's \<times> 'r list" where
  "run_ops step [] s = (s, [])"
| "run_ops step (x # xs) s =
     (let (s1, r) = step x s; (s2, rs) = run_ops step xs s1 in (s2, r # rs))"

fun hash_spec_of :: "PCryptoHashType \<Rightarrow> puchar list \<Rightarrow> puchar list" where
  "hash_spec_of P_CRYPTO_HASH_TYPE_MD5 = md5_digest"
| "hash_spec_of P_CRYPTO_HASH_TYPE_SHA1 = sha1_digest"
| "hash_spec_of P_CRYPTO_HASH_TYPE_SHA2_224 = sha224_digest"
| "hash_spec_of P_CRYPTO_HASH_TYPE_SHA2_256 = sha256_digest"
| "hash_spec_of P_CRYPTO_HASH_TYPE_SHA2_384 = sha384_digest"
| "hash_spec_of P_CRYPTO_HASH_TYPE_SHA2_512 = sha512_digest"
| "hash_spec_of P_CRYPTO_HASH_TYPE_SHA3_224 = sha3_digest 224"
| "hash_spec_of P_CRYPTO_HASH_TYPE_SHA3_256 = sha3_digest 256"
| "hash_spec_of P_CRYPTO_HASH_TYPE_SHA3_384 = sha3_digest 384"
| "hash_spec_of P_CRYPTO_HASH_TYPE_SHA3_512 = sha3_digest 512"
| "hash_spec_of P_CRYPTO_HASH_TYPE_GOST = gost_digest"

definition op_small :: "hash_op \<Rightarrow> bool" where
  "op_small op \<longleftrightarrow> (case op of Op_Update d \<Rightarrow> length d < 2 ^ 32 | _ \<Rightarrow> True)"

section \<open>The hex string\<close>

lemma hex_byte_code:
  "hex_byte b = [pzcrypto_hash_hex_str ! unat (drop_bit 4 b AND 0x0F), pzcrypto_hash_hex_str ! unat (b AND 0x0F)]"
proof -
  have m: "(0x0F :: puchar) = mask 4" by (simp add: mask_eq_exp_minus_1)
  have "unat b < 256" using unsigned_less[of b] by simp
  then have "unat b div 16 mod 16 = unat b div 16"
    by (simp add: div_less_iff_less_mult)
  then have "unat (drop_bit 4 b AND 0x0F) = unat b div 16"
    unfolding m by (simp add: unsigned_take_bit_eq unsigned_drop_bit_eq take_bit_eq_mod drop_bit_eq_div unat_div unat_mod flip: take_bit_eq_mask)
  moreover have "unat (b AND 0x0F) = unat b mod 16"
    unfolding m by (simp add: unsigned_take_bit_eq take_bit_eq_mod unat_mod flip: take_bit_eq_mask)
  ultimately show ?thesis by (simp add: hex_byte_def)
qed

lemma hex_write:
  assumes "2 * n + 2 \<le> length out" "length A = 2 * n"
  shows "(A @ drop (2 * n) out)[2 * n := x, 2 * n + 1 := y] = (A @ [x, y]) @ drop (2 * Suc n) out"
proof -
  obtain u v where "drop (2 * n) out = u # v # drop (2 * n + 2) out"
    using assms(1) by (metis Cons_nth_drop_Suc Suc_le_lessD add_2_eq_Suc' le_SucI Suc_leD)
  with assms(2) show ?thesis by (simp add: list_update_append)
qed

lemma digest_to_hex:
  assumes "n \<le> length digest" "2 * n \<le> length out"
  shows "pzcrypto_hash_digest_to_hex digest n out = concat (map hex_byte (take n digest)) @ drop (2 * n) out"
  using assms
proof (induction n)
  case (Suc n)
  have "length (concat (map hex_byte (take n digest))) = 2 * n"
    using Suc.prems(1) by (simp add: length_concat o_def hex_byte_def sum_list_triv)
  note wr = hex_write[OF _ this, of out]
  have "pzcrypto_hash_digest_to_hex digest (Suc n) out =
      (pzcrypto_hash_digest_to_hex digest n out)
        [2 * n := hex_byte (digest ! n) ! 0, 2 * n + 1 := hex_byte (digest ! n) ! 1]"
    by (simp add: pzcrypto_hash_digest_to_hex_def hex_byte_code push_bit_eq_mult mult.commute)
  also have "\<dots> = (concat (map hex_byte (take n digest)) @ drop (2 * n) out)
        [2 * n := hex_byte (digest ! n) ! 0, 2 * n + 1 := hex_byte (digest ! n) ! 1]"
    using Suc by simp
  also have "\<dots> = (concat (map hex_byte (take n digest)) @ hex_byte (digest ! n)) @ drop (2 * Suc n) out"
    using Suc.prems by (subst wr) (simp_all add: hex_byte_def)
  finally show ?case
    using Suc.prems(1) by (simp add: take_Suc_conv_app_nth)
qed (simp add: pzcrypto_hash_digest_to_hex_def)

section \<open>What an algorithm provides\<close>

locale hash_algorithm =
  fixes fs :: hash_funcs and n :: puint32 and H :: "puchar list \<Rightarrow> puchar list"
  assumes stream: "hf_create fs True = Some c \<Longrightarrow> \<forall>d \<in> set ds. length d < 2 ^ 32 \<Longrightarrow>
      \<exists>bs. hf_digest fs (hf_finish fs (foldl (hf_update fs) c ds)) = Some bs \<and> take (unat n) bs = H (concat ds)"
    and size: "length (H m) = unat n" "unat n < 2 ^ 16"
    and reset_open: "hf_create fs True = Some c \<Longrightarrow> \<forall>d \<in> set ds. length d < 2 ^ 32 \<Longrightarrow>
      hf_reset fs (foldl (hf_update fs) c ds) = c"
    and reset_closed: "hf_create fs True = Some c \<Longrightarrow> \<forall>d \<in> set ds. length d < 2 ^ 32 \<Longrightarrow>
      hf_reset fs (hf_finish fs (foldl (hf_update fs) c ds)) = c"
begin

definition hash_rel :: "PCryptoHash option \<Rightarrow> puchar list \<times> bool \<Rightarrow> bool" where
  "hash_rel hp mc \<longleftrightarrow> (\<exists>h c ds. hp = Some h \<and> hash_funcs.truncate h = fs \<and> hash_len h = n \<and>
     closed h = snd mc \<and> hf_create fs True = Some c \<and> (\<forall>d \<in> set ds. length d < 2 ^ 32) \<and>
     fst mc = concat ds \<and>
     ch_context h = (if snd mc then hf_finish fs (foldl (hf_update fs) c ds) else foldl (hf_update fs) c ds))"

lemma hash_relI:
  "hash_funcs.truncate h = fs \<Longrightarrow> hash_len h = n \<Longrightarrow> closed h = cl \<Longrightarrow> hf_create fs True = Some c \<Longrightarrow>
   \<forall>d \<in> set ds. length d < 2 ^ 32 \<Longrightarrow> m = concat ds \<Longrightarrow>
   ch_context h = (if cl then hf_finish fs (foldl (hf_update fs) c ds) else foldl (hf_update fs) c ds) \<Longrightarrow>
   hash_rel (Some h) (m, cl)"
  unfolding hash_rel_def fst_conv snd_conv by blast

lemma hash_relE:
  assumes "hash_rel hp (m, cl)"
  obtains h c ds where "hp = Some h" "hash_funcs.truncate h = fs" "hash_len h = n" "closed h = cl"
    "hf_create fs True = Some c" "\<forall>d \<in> set ds. length d < 2 ^ 32" "m = concat ds"
    "ch_context h = (if cl then hf_finish fs (foldl (hf_update fs) c ds) else foldl (hf_update fs) c ds)"
  using assms unfolding hash_rel_def fst_conv snd_conv by blast

lemma funcs_of:
  fixes h :: PCryptoHash
  assumes "hash_funcs.truncate h = fs"
  shows "hf_create h = hf_create fs" "hf_update h = hf_update fs" "hf_finish h = hf_finish fs"
    "hf_digest h = hf_digest fs" "hf_reset h = hf_reset fs"
  using assms by (cases h; auto simp: hash_funcs.truncate_def)+

lemma close_rel:
  assumes "hash_rel (Some h) (m, cl)"
  shows "hash_rel (Some (hash_close h)) (m, True)"
    and "\<exists>bs. hf_digest (hash_close h) (ch_context (hash_close h)) = Some bs \<and> take (unat n) bs = H m"
    and "hash_len (hash_close h) = n"
proof -
  obtain c ds where h: "hash_funcs.truncate h = fs" "hash_len h = n" "closed h = cl"
    and c: "hf_create fs True = Some c" and ds: "\<forall>d \<in> set ds. length d < 2 ^ 32" "m = concat ds"
    and ctx: "ch_context h = (if cl then hf_finish fs (foldl (hf_update fs) c ds) else foldl (hf_update fs) c ds)"
    using assms by (elim hash_relE) (metis option.inject)
  have ctx': "ch_context (hash_close h) = hf_finish fs (foldl (hf_update fs) c ds)"
    using ctx h by (simp add: hash_close_def funcs_of)
  have keep: "hash_funcs.truncate (hash_close h) = fs" "hash_len (hash_close h) = n" "closed (hash_close h)"
    using h by (simp_all add: hash_close_def hash_funcs.truncate_def)
  from keep(1,2) show "hash_rel (Some (hash_close h)) (m, True)"
    by (rule hash_relI[OF _ _ _ c ds]) (simp_all add: keep(3) ctx')
  show "hash_len (hash_close h) = n" by (rule keep(2))
  show "\<exists>bs. hf_digest (hash_close h) (ch_context (hash_close h)) = Some bs \<and> take (unat n) bs = H m"
    using stream[OF c ds(1)] ds(2) keep ctx' by (simp add: funcs_of)
qed

lemma update_rel:
  assumes "hash_rel hp (m, cl)" "length d < 2 ^ 32"
  shows "hash_rel (zcrypto_hash_update hp (Some d) (of_nat (length d))) (if cl then m else m @ d, cl)"
proof -
  obtain h c ds where hp: "hp = Some h" "hash_funcs.truncate h = fs" "hash_len h = n" "closed h = cl"
    and c: "hf_create fs True = Some c" and ds: "\<forall>d \<in> set ds. length d < 2 ^ 32" "m = concat ds"
    and ctx: "ch_context h = (if cl then hf_finish fs (foldl (hf_update fs) c ds) else foldl (hf_update fs) c ds)"
    using assms(1) by (elim hash_relE) blast
  have len: "unat (of_nat (length d) :: psize) = length d"
    using assms(2) by (simp add: unsigned_of_nat take_bit_eq_mod)
  then have zero: "(of_nat (length d) :: psize) = 0 \<longleftrightarrow> d = []"
    using unsigned_eq_0_iff[of "of_nat (length d) :: psize", where ?'a = nat] by simp
  show ?thesis
  proof (cases "d = [] \<or> cl")
    case True
    then show ?thesis using assms(1) hp zero by (auto simp: zcrypto_hash_update_def)
  next
    case False
    then have "zcrypto_hash_update hp (Some d) (of_nat (length d)) =
        Some (h\<lparr>ch_context := foldl (hf_update fs) c (ds @ [d])\<rparr>)"
      using hp ctx zero len by (simp add: zcrypto_hash_update_def funcs_of)
    moreover have "hash_rel (Some (h\<lparr>ch_context := foldl (hf_update fs) c (ds @ [d])\<rparr>)) (m @ d, cl)"
      using False hp c ds assms(2) by (intro hash_relI[of _ _ c "ds @ [d]"]) (auto simp: hash_funcs.truncate_def)
    ultimately show ?thesis using False by simp
  qed
qed

lemma reset_rel:
  assumes "hash_rel hp (m, cl)"
  shows "hash_rel (zcrypto_hash_reset hp) ([], False)"
proof -
  obtain h c ds where hp: "hp = Some h" "hash_funcs.truncate h = fs" "hash_len h = n"
    and c: "hf_create fs True = Some c" and ds: "\<forall>d \<in> set ds. length d < 2 ^ 32"
    and ctx: "ch_context h = (if cl then hf_finish fs (foldl (hf_update fs) c ds) else foldl (hf_update fs) c ds)"
    using assms by (elim hash_relE) (metis option.inject)
  have "hf_reset fs (ch_context h) = c"
    using ctx reset_open[OF c ds] reset_closed[OF c ds] by (cases cl) simp_all
  with hp have "zcrypto_hash_reset hp = Some (h\<lparr>ch_context := c, closed := False\<rparr>)"
    by (simp add: zcrypto_hash_reset_def funcs_of)
  moreover have "hash_rel (Some (h\<lparr>ch_context := c, closed := False\<rparr>)) ([], False)"
    using hp c by (intro hash_relI[of _ _ c "[]"]) (simp_all add: hash_funcs.truncate_def)
  ultimately show ?thesis by simp
qed

lemma step_rel:
  assumes "hash_rel hp s" "op_small op"
  shows "hash_rel (fst (hash_step op hp)) (fst (spec_hash_step H (unat n) op s)) \<and>
    snd (hash_step op hp) = snd (spec_hash_step H (unat n) op s)"
proof -
  obtain m cl where s: "s = (m, cl)" by fastforce
  obtain h where hp: "hp = Some h" using assms(1) unfolding hash_rel_def by blast
  have n: "hash_len h = n" using assms(1) unfolding s hp by (elim hash_relE) simp
  note rel = assms(1)[unfolded s hp]
  obtain bs where bs: "hf_digest (hash_close h) (ch_context (hash_close h)) = Some bs" "take (unat n) bs = H m"
    using close_rel(2)[OF rel] by blast
  then have len: "unat n \<le> length bs" using size(1)[of m] by (metis length_take min.cobounded1)
  show ?thesis
  proof (cases op)
    case (Op_Update d)
    with update_rel[OF rel, of d] assms(2) show ?thesis by (simp add: s hp op_small_def)
  next
    case Op_Reset
    with reset_rel[OF rel] show ?thesis by (simp add: s hp)
  next
    case (Op_Get_String mem)
    have "unat (n * 2 + 1) = 2 * unat n + 1"
      using size(2) by (simp add: unat_word_ariths)
    then have "pzcrypto_hash_digest_to_hex bs (unat n) (replicate (unat (n * 2 + 1)) (CHR 0x00)) =
        concat (map hex_byte (H m)) @ [CHR 0x00]"
      using digest_to_hex[OF len, of "replicate (2 * unat n + 1) (CHR 0x00)"] bs(2)
      by (simp only: length_replicate drop_replicate) simp
    with Op_Get_String bs(1) close_rel[OF rel] show ?thesis
      by (simp add: s hp zcrypto_hash_get_string_def Let_def)
  next
    case (Op_Get_Digest b l)
    have less: "l < of_nat (unat n) \<longleftrightarrow> unat l < unat n"
    proof -
      have "unat (of_nat (unat n) :: psize) = unat n mod 2 ^ 64"
        by (simp only: unsigned_of_nat take_bit_eq_mod of_nat_id) simp
      then show ?thesis using size(2) by (simp only: word_less_nat_alt) simp
    qed
    have len: "(ucast n :: psize) = of_nat (unat n)"
      by (simp add: unsigned_of_nat word_unat_eq_iff unsigned_ucast_eq)
    have "zcrypto_hash_get_digest (Some h) (Some b) (Some l) =
        (if unat l < unat n then (Some h, Some b, Some 0)
         else (Some (hash_close h), Some (memcpy b 0 (H m)), Some (of_nat (unat n))))"
      unfolding zcrypto_hash_get_digest_def Let_def
      by (simp only: option.case prod.case n close_rel(3)[OF rel] bs less len)
    with rel close_rel(1)[OF rel] show ?thesis
      unfolding Op_Get_Digest s hp by (cases "unat l < unat n") simp_all
  qed
qed

lemma run_rel:
  "hash_rel hp s \<Longrightarrow> \<forall>op \<in> set ops. op_small op \<Longrightarrow>
   snd (run_ops hash_step ops hp) = snd (run_ops (spec_hash_step H (unat n)) ops s)"
proof (induction ops arbitrary: hp s)
  case (Cons op ops)
  then show ?case
    using step_rel[of hp s op] Cons.IH[of "fst (hash_step op hp)" "fst (spec_hash_step H (unat n) op s)"]
    by (simp add: split_def Let_def)
qed simp

lemma new_rel:
  assumes "hf_create fs True = Some c"
  shows "hash_rel (Some (hash_funcs.extend fs \<lparr>ch_type = t, ch_context = c, hash_len = n, closed = False\<rparr>)) ([], False)"
  using assms by (intro hash_relI[of _ _ c "[]"]) (simp_all add: hash_funcs.truncate_def hash_funcs.extend_def)

end

section \<open>The algorithms of the library\<close>

lemma foldl_hom: "(\<And>x d. f (g x) d = g (f' x d)) \<Longrightarrow> foldl f (g x) ds = g (foldl f' x ds)"
  by (induction ds arbitrary: x) simp_all

lemma reset_eq_new:
  "zcrypto_hash_md5_reset x = the (zcrypto_hash_md5_new True)"
  "zcrypto_hash_sha1_reset y = the (zcrypto_hash_sha1_new True)"
  "zcrypto_hash_gost3411_reset z = the (zcrypto_hash_gost3411_new True)"
  by (simp_all add: zcrypto_hash_md5_reset_def zcrypto_hash_md5_new_def zcrypto_hash_sha1_reset_def
      zcrypto_hash_sha1_new_def zcrypto_hash_gost3411_reset_def zcrypto_hash_gost3411_new_def)

lemma length_bytes_concat: "length (concat (map (bytes_le k) ws)) = k * length ws"
  "length (concat (map (bytes_be k) ws)) = k * length ws"
  by (simp_all add: length_concat o_def sum_list_triv mult.commute)

lemma length_md_spec:
  assumes "\<And>h bs. length (blk h bs) = k" "length h = k"
  shows "length (md_spec B P blk enc h m) = k"
  unfolding md_spec_def by (rule absorb_inv[where I = "\<lambda>h. length h = k"]) (simp_all only: assms)

lemma length_digests:
  "length (md5_digest m) = 16" "length (sha1_digest m) = 20"
  "length (sha256_digest m) = 32" "length (sha224_digest m) = 28"
  "length (sha512_digest m) = 64" "length (sha384_digest m) = 48"
proof -
  have "length (md5_blk h bs) = 4" for h bs
    by (simp add: md5_blk_def md5_compress_def split_def Let_def)
  then show "length (md5_digest m) = 16"
    by (simp add: md5_digest_def length_bytes_concat length_md_spec[where k = 4])
  have "length (sha1_blk h bs) = 5" for h bs
    by (simp add: sha1_blk_def sha1_compress_def split_def Let_def)
  then show "length (sha1_digest m) = 20"
    by (simp add: sha1_digest_def length_bytes_concat length_md_spec[where k = 5])
  show "length (sha256_digest m) = 32" "length (sha224_digest m) = 28"
    by (simp_all add: sha256_digest_def sha224_digest_def length_sha256_digest_from sha256_iv_def sha224_iv_def)
  show "length (sha512_digest m) = 64" "length (sha384_digest m) = 48"
    by (simp_all add: sha512_digest_def sha384_digest_def length_sha512_digest_from sha512_iv_def sha384_iv_def)
qed

lemma length_sha3_digest: "bits \<in> {224, 256, 384, 512} \<Longrightarrow> length (sha3_digest bits m) = bits div 8"
proof -
  have "length (fst (absorb r (sha3_blk r) (replicate 25 0) m)) = 25" for r m
    by (rule absorb_inv) simp_all
  then show "bits \<in> {224, 256, 384, 512} \<Longrightarrow> length (sha3_digest bits m) = bits div 8"
    by (auto simp: sha3_digest_def length_bytes_concat)
qed

lemma length_gost_digest: "length (gost_digest m) = 32"
  by (simp add: gost_digest_def length_bytes_concat split_def Let_def)

interpretation alg_md5: hash_algorithm "funcs_md5 be" 16 md5_digest for be
proof
  let ?fs = "funcs_md5 be"
  have fold: "foldl (hf_update ?fs) (Ctx_MD5 x) ds = Ctx_MD5 (foldl (zcrypto_hash_md5_update be) x ds)" for x ds
    by (rule foldl_hom) (simp add: funcs_md5_def)
  fix c :: hash_ctx and ds :: "puchar list list"
  assume "hf_create ?fs True = Some c" and ds: "\<forall>d \<in> set ds. length d < 2 ^ 32"
  then obtain x where c: "c = Ctx_MD5 x" "zcrypto_hash_md5_new True = Some x" by (auto simp: funcs_md5_def)
  show "\<exists>bs. hf_digest ?fs (hf_finish ?fs (foldl (hf_update ?fs) c ds)) = Some bs \<and>
      take (unat (16 :: puint32)) bs = md5_digest (concat ds)"
    using md5_stream[OF c(2) ds, of be] by (simp add: c(1) fold) (simp add: funcs_md5_def length_digests)
  show "hf_reset ?fs (foldl (hf_update ?fs) c ds) = c"
    "hf_reset ?fs (hf_finish ?fs (foldl (hf_update ?fs) c ds)) = c"
    unfolding c(1) fold by (simp_all add: funcs_md5_def reset_eq_new c(2))
qed (simp_all add: length_digests)

interpretation alg_sha1: hash_algorithm "funcs_sha1 be" 20 sha1_digest for be
proof
  let ?fs = "funcs_sha1 be"
  have fold: "foldl (hf_update ?fs) (Ctx_SHA1 x) ds = Ctx_SHA1 (foldl (zcrypto_hash_sha1_update be) x ds)" for x ds
    by (rule foldl_hom) (simp add: funcs_sha1_def)
  fix c :: hash_ctx and ds :: "puchar list list"
  assume "hf_create ?fs True = Some c" and ds: "\<forall>d \<in> set ds. length d < 2 ^ 32"
  then obtain x where c: "c = Ctx_SHA1 x" "zcrypto_hash_sha1_new True = Some x" by (auto simp: funcs_sha1_def)
  show "\<exists>bs. hf_digest ?fs (hf_finish ?fs (foldl (hf_update ?fs) c ds)) = Some bs \<and>
      take (unat (20 :: puint32)) bs = sha1_digest (concat ds)"
    using sha1_stream[OF c(2) ds, of be] by (simp add: c(1) fold) (simp add: funcs_sha1_def length_digests)
  show "hf_reset ?fs (foldl (hf_update ?fs) c ds) = c"
    "hf_reset ?fs (hf_finish ?fs (foldl (hf_update ?fs) c ds)) = c"
    unfolding c(1) fold by (simp_all add: funcs_sha1_def reset_eq_new c(2))
qed (simp_all add: length_digests)

interpretation alg_gost: hash_algorithm "funcs_gost3411 be" 32 gost_digest for be
proof
  let ?fs = "funcs_gost3411 be"
  have fold: "foldl (hf_update ?fs) (Ctx_GOST x) ds = Ctx_GOST (foldl (zcrypto_hash_gost3411_update be) x ds)" for x ds
    by (rule foldl_hom) (simp add: funcs_gost3411_def)
  fix c :: hash_ctx and ds :: "puchar list list"
  assume "hf_create ?fs True = Some c" and ds: "\<forall>d \<in> set ds. length d < 2 ^ 32"
  then obtain x where c: "c = Ctx_GOST x" "zcrypto_hash_gost3411_new True = Some x"
    by (auto simp: funcs_gost3411_def)
  show "\<exists>bs. hf_digest ?fs (hf_finish ?fs (foldl (hf_update ?fs) c ds)) = Some bs \<and>
      take (unat (32 :: puint32)) bs = gost_digest (concat ds)"
    using gost_finish_spec[OF gost_updates_rep[OF gost_new_rep[OF c(2)] ds, of be], of be]
    by (simp add: c(1) fold) (simp add: funcs_gost3411_def length_gost_digest)
  show "hf_reset ?fs (foldl (hf_update ?fs) c ds) = c"
    "hf_reset ?fs (hf_finish ?fs (foldl (hf_update ?fs) c ds)) = c"
    unfolding c(1) fold by (simp_all add: funcs_gost3411_def reset_eq_new c(2))
qed (simp_all add: length_gost_digest)


text \<open>The flag of the SHA-2 contexts and the block size of SHA-3 survive every operation.\<close>

lemma sha256_reset_back:
  fixes be :: bool
  assumes new: "pzcrypto_hash_sha2_256_new_internal True alt = Some x" and ds: "\<forall>d \<in> set ds. length d < 2 ^ 32"
  defines "y \<equiv> foldl (zcrypto_hash_sha2_256_update be) x ds"
  shows "zcrypto_hash_sha2_256_reset y = x" "zcrypto_hash_sha2_256_reset (zcrypto_hash_sha2_256_finish be y) = x"
proof -
  have "\<forall>d \<in> set ds. length d < 2 ^ LENGTH(32)" using ds by simp
  note up = sha256.updates_rep[OF sha256_new_rep(1)[OF new] this, of be, folded zcrypto_hash_sha2_256_update_def, folded y_def]
  have alt: "is224 y = alt" "is224 (zcrypto_hash_sha2_256_finish be y) = alt"
    using sha256_more[OF up(2)] sha256_more[of "zcrypto_hash_sha2_256_finish be y" y] sha256.finish_spec(2)[OF up(1)]
      sha256_new_rep(2)[OF new] by (simp_all add: zcrypto_hash_sha2_256_finish_def)
  have "zcrypto_hash_sha2_256_reset z = x" if "is224 z = alt" for z
    using new that by (cases z) (auto simp: pzcrypto_hash_sha2_256_new_internal_def zcrypto_hash_sha2_256_reset_def)
  with alt show "zcrypto_hash_sha2_256_reset y = x" "zcrypto_hash_sha2_256_reset (zcrypto_hash_sha2_256_finish be y) = x"
    by simp_all
qed

lemma sha512_reset_back:
  fixes be :: bool
  assumes new: "pzcrypto_hash_sha2_512_new_internal True alt = Some x" and ds: "\<forall>d \<in> set ds. length d < 2 ^ 32"
  defines "y \<equiv> foldl (zcrypto_hash_sha2_512_update be) x ds"
  shows "zcrypto_hash_sha2_512_reset y = x" "zcrypto_hash_sha2_512_reset (zcrypto_hash_sha2_512_finish be y) = x"
proof -
  have "\<forall>d \<in> set ds. length d < 2 ^ LENGTH(64)" using ds by fastforce
  note up = sha512.updates_rep[OF sha512_new_rep(1)[OF new] this, of be, folded zcrypto_hash_sha2_512_update_def, folded y_def]
  have alt: "is384 y = alt" "is384 (zcrypto_hash_sha2_512_finish be y) = alt"
    using sha512_more[OF up(2)] sha512_more[of "zcrypto_hash_sha2_512_finish be y" y] sha512.finish_spec(2)[OF up(1)]
      sha512_new_rep(2)[OF new] by (simp_all add: zcrypto_hash_sha2_512_finish_def)
  have "zcrypto_hash_sha2_512_reset z = x" if "is384 z = alt" for z
    using new that by (cases z) (auto simp: pzcrypto_hash_sha2_512_new_internal_def zcrypto_hash_sha2_512_reset_def)
  with alt show "zcrypto_hash_sha2_512_reset y = x" "zcrypto_hash_sha2_512_reset (zcrypto_hash_sha2_512_finish be y) = x"
    by simp_all
qed

lemma sha3_reset_back:
  assumes "pzcrypto_hash_sha3_new_internal True bits = Some x"
  shows "zcrypto_hash_sha3_reset (foldl (zcrypto_hash_sha3_update be) x ds) = x"
    "zcrypto_hash_sha3_reset (zcrypto_hash_sha3_finish be (foldl (zcrypto_hash_sha3_update be) x ds)) = x"
proof -
  have "block_size (zcrypto_hash_sha3_update be c d) = block_size c" for c d
    by (simp add: zcrypto_hash_sha3_update_def Let_def split_def)
  then have up: "block_size (foldl (zcrypto_hash_sha3_update be) x ds) = block_size x"
    by (induction ds rule: rev_induct) simp_all
  have fin: "block_size (zcrypto_hash_sha3_finish be c) = block_size c" for c
    by (simp add: zcrypto_hash_sha3_finish_def Let_def split_def)
  have "zcrypto_hash_sha3_reset z = x" if "block_size z = block_size x" for z
    using assms that by (cases z) (auto simp: pzcrypto_hash_sha3_new_internal_def zcrypto_hash_sha3_reset_def)
  with up fin show "zcrypto_hash_sha3_reset (foldl (zcrypto_hash_sha3_update be) x ds) = x"
    "zcrypto_hash_sha3_reset (zcrypto_hash_sha3_finish be (foldl (zcrypto_hash_sha3_update be) x ds)) = x"
    by simp_all
qed

lemma hash_algorithm_sha256:
  assumes "\<And>mem. create mem = pzcrypto_hash_sha2_256_new_internal mem alt"  "\<And>m. length (H m) = unat n" "unat n < 2 ^ 16"
    and "\<And>x ds. create True = Some x \<Longrightarrow> \<forall>d \<in> set ds. length d < 2 ^ 32 \<Longrightarrow>
      take (unat n) (zcrypto_hash_sha2_256_digest be (zcrypto_hash_sha2_256_finish be
        (foldl (zcrypto_hash_sha2_256_update be) x ds))) = H (concat ds)"
  shows "hash_algorithm (funcs_sha2_256 be create) n H"
proof
  let ?fs = "funcs_sha2_256 be create"
  have fold: "foldl (hf_update ?fs) (Ctx_SHA2_256 x) ds = Ctx_SHA2_256 (foldl (zcrypto_hash_sha2_256_update be) x ds)" for x ds
    by (rule foldl_hom) (simp add: funcs_sha2_256_def)
  fix c :: hash_ctx and ds :: "puchar list list"
  assume "hf_create ?fs True = Some c" and ds: "\<forall>d \<in> set ds. length d < 2 ^ 32"
  then obtain x where c: "c = Ctx_SHA2_256 x" and x: "create True = Some x" by (auto simp: funcs_sha2_256_def)
  show "\<exists>bs. hf_digest ?fs (hf_finish ?fs (foldl (hf_update ?fs) c ds)) = Some bs \<and>
      take (unat n) bs = H (concat ds)"
    unfolding c fold using assms(4)[OF x ds] by (simp add: funcs_sha2_256_def)
  note bk = sha256_reset_back[OF x[unfolded assms(1)] ds, of be]
  show "hf_reset ?fs (foldl (hf_update ?fs) c ds) = c"
    "hf_reset ?fs (hf_finish ?fs (foldl (hf_update ?fs) c ds)) = c"
    unfolding c fold using bk by (simp_all add: funcs_sha2_256_def)
qed (use assms in simp_all)

lemma hash_algorithm_sha512:
  assumes "\<And>mem. create mem = pzcrypto_hash_sha2_512_new_internal mem alt"  "\<And>m. length (H m) = unat n" "unat n < 2 ^ 16"
    and "\<And>x ds. create True = Some x \<Longrightarrow> \<forall>d \<in> set ds. length d < 2 ^ 64 \<Longrightarrow>
      take (unat n) (zcrypto_hash_sha2_512_digest be (zcrypto_hash_sha2_512_finish be
        (foldl (zcrypto_hash_sha2_512_update be) x ds))) = H (concat ds)"
  shows "hash_algorithm (funcs_sha2_512 be create) n H"
proof
  let ?fs = "funcs_sha2_512 be create"
  have fold: "foldl (hf_update ?fs) (Ctx_SHA2_512 x) ds = Ctx_SHA2_512 (foldl (zcrypto_hash_sha2_512_update be) x ds)" for x ds
    by (rule foldl_hom) (simp add: funcs_sha2_512_def)
  fix c :: hash_ctx and ds :: "puchar list list"
  assume "hf_create ?fs True = Some c" and ds: "\<forall>d \<in> set ds. length d < 2 ^ 32"
  then obtain x where c: "c = Ctx_SHA2_512 x" and x: "create True = Some x" by (auto simp: funcs_sha2_512_def)
  have "\<forall>d \<in> set ds. length d < 2 ^ 64" using ds by fastforce
  then show "\<exists>bs. hf_digest ?fs (hf_finish ?fs (foldl (hf_update ?fs) c ds)) = Some bs \<and>
      take (unat n) bs = H (concat ds)"
    unfolding c fold using assms(4)[OF x, of ds] by (simp add: funcs_sha2_512_def)
  note bk = sha512_reset_back[OF x[unfolded assms(1)] ds, of be]
  show "hf_reset ?fs (foldl (hf_update ?fs) c ds) = c"
    "hf_reset ?fs (hf_finish ?fs (foldl (hf_update ?fs) c ds)) = c"
    unfolding c fold using bk by (simp_all add: funcs_sha2_512_def)
qed (use assms in simp_all)

lemma hash_algorithm_sha3:
  assumes "\<And>mem. create mem = pzcrypto_hash_sha3_new_internal mem bits"  "\<And>m. length (H m) = unat n" "unat n < 2 ^ 16"
    and "\<And>x ds. create True = Some x \<Longrightarrow> \<forall>d \<in> set ds. length d < 2 ^ 32 \<Longrightarrow>
      take (unat n) (zcrypto_hash_sha3_digest be (zcrypto_hash_sha3_finish be
        (foldl (zcrypto_hash_sha3_update be) x ds))) = H (concat ds)"
  shows "hash_algorithm (funcs_sha3 be create) n H"
proof
  let ?fs = "funcs_sha3 be create"
  have fold: "foldl (hf_update ?fs) (Ctx_SHA3 x) ds = Ctx_SHA3 (foldl (zcrypto_hash_sha3_update be) x ds)" for x ds
    by (rule foldl_hom) (simp add: funcs_sha3_def)
  fix c :: hash_ctx and ds :: "puchar list list"
  assume "hf_create ?fs True = Some c" and ds: "\<forall>d \<in> set ds. length d < 2 ^ 32"
  then obtain x where c: "c = Ctx_SHA3 x" and x: "create True = Some x" by (auto simp: funcs_sha3_def)
  show "\<exists>bs. hf_digest ?fs (hf_finish ?fs (foldl (hf_update ?fs) c ds)) = Some bs \<and>
      take (unat n) bs = H (concat ds)"
    unfolding c fold using assms(4)[OF x ds] by (simp add: funcs_sha3_def)
  note bk = sha3_reset_back[OF x[unfolded assms(1)], of be ds]
  show "hf_reset ?fs (foldl (hf_update ?fs) c ds) = c"
    "hf_reset ?fs (hf_finish ?fs (foldl (hf_update ?fs) c ds)) = c"
    unfolding c fold using bk by (simp_all add: funcs_sha3_def)
qed (use assms in simp_all)

interpretation alg_sha224: hash_algorithm "funcs_sha2_256 be zcrypto_hash_sha2_224_new" 28 sha224_digest for be
  by (rule hash_algorithm_sha256[where alt = True])
    (use sha256_streaming_gen[of True] in \<open>simp_all add: zcrypto_hash_sha2_224_new_def sha224_digest_def
       length_sha256_digest_from sha224_iv_def\<close>)

interpretation alg_sha256: hash_algorithm "funcs_sha2_256 be zcrypto_hash_sha2_256_new" 32 sha256_digest for be
  by (rule hash_algorithm_sha256[where alt = False])
    (use sha256_streaming_gen[of False] in \<open>simp_all add: zcrypto_hash_sha2_256_new_def sha256_digest_def
       length_sha256_digest_from sha256_iv_def\<close>)

interpretation alg_sha384: hash_algorithm "funcs_sha2_512 be zcrypto_hash_sha2_384_new" 48 sha384_digest for be
  by (rule hash_algorithm_sha512[where alt = True])
    (use sha512_streaming_gen[of True] in \<open>simp_all add: zcrypto_hash_sha2_384_new_def sha384_digest_def
       length_sha512_digest_from sha384_iv_def\<close>)

interpretation alg_sha512: hash_algorithm "funcs_sha2_512 be zcrypto_hash_sha2_512_new" 64 sha512_digest for be
  by (rule hash_algorithm_sha512[where alt = False])
    (use sha512_streaming_gen[of False] in \<open>simp_all add: zcrypto_hash_sha2_512_new_def sha512_digest_def
       length_sha512_digest_from sha512_iv_def\<close>)

lemma sha3_pieces: "\<forall>d \<in> set ds. length d < 4294967296 \<Longrightarrow> \<forall>d \<in> set ds. length (d :: puchar list) < 9223372036854775808"
  by fastforce

interpretation alg_sha3_224: hash_algorithm "funcs_sha3 be zcrypto_hash_sha3_224_new" 28 "sha3_digest 224" for be
  by (rule hash_algorithm_sha3[where bits = 224])
    (use sha3_stream[of 224] in \<open>simp_all add: zcrypto_hash_sha3_224_new_def length_sha3_digest sha3_pieces\<close>)

interpretation alg_sha3_256: hash_algorithm "funcs_sha3 be zcrypto_hash_sha3_256_new" 32 "sha3_digest 256" for be
  by (rule hash_algorithm_sha3[where bits = 256])
    (use sha3_stream[of 256] in \<open>simp_all add: zcrypto_hash_sha3_256_new_def length_sha3_digest sha3_pieces\<close>)

interpretation alg_sha3_384: hash_algorithm "funcs_sha3 be zcrypto_hash_sha3_384_new" 48 "sha3_digest 384" for be
  by (rule hash_algorithm_sha3[where bits = 384])
    (use sha3_stream[of 384] in \<open>simp_all add: zcrypto_hash_sha3_384_new_def length_sha3_digest sha3_pieces\<close>)

interpretation alg_sha3_512: hash_algorithm "funcs_sha3 be zcrypto_hash_sha3_512_new" 64 "sha3_digest 512" for be
  by (rule hash_algorithm_sha3[where bits = 512])
    (use sha3_stream[of 512] in \<open>simp_all add: zcrypto_hash_sha3_512_new_def length_sha3_digest sha3_pieces\<close>)

lemma hash_algorithm_of: "hash_algorithm (fst (hash_funcs_of be t)) (snd (hash_funcs_of be t)) (hash_spec_of t)"
  by (cases t) (simp_all add: alg_md5.hash_algorithm_axioms alg_sha1.hash_algorithm_axioms
      alg_sha224.hash_algorithm_axioms alg_sha256.hash_algorithm_axioms alg_sha384.hash_algorithm_axioms
      alg_sha512.hash_algorithm_axioms alg_sha3_224.hash_algorithm_axioms alg_sha3_256.hash_algorithm_axioms
      alg_sha3_384.hash_algorithm_axioms alg_sha3_512.hash_algorithm_axioms alg_gost.hash_algorithm_axioms)

lemma create_iff: "hf_create (fst (hash_funcs_of be t)) mem \<noteq> None \<longleftrightarrow> mem"
  by (cases t) (simp_all add: funcs_md5_def funcs_sha1_def funcs_sha2_256_def funcs_sha2_512_def funcs_sha3_def
      funcs_gost3411_def zcrypto_hash_md5_new_def zcrypto_hash_sha1_new_def zcrypto_hash_sha2_224_new_def
      zcrypto_hash_sha2_256_new_def zcrypto_hash_sha2_384_new_def zcrypto_hash_sha2_512_new_def
      zcrypto_hash_sha3_224_new_def zcrypto_hash_sha3_256_new_def zcrypto_hash_sha3_384_new_def
      zcrypto_hash_sha3_512_new_def zcrypto_hash_gost3411_new_def pzcrypto_hash_sha2_256_new_internal_def
      pzcrypto_hash_sha2_512_new_internal_def pzcrypto_hash_sha3_new_internal_def)

section \<open>The object as a whole\<close>

text \<open>
  C3: whatever sequence of updates, resets and getters is called on a new hash object of any
  of the eleven types, every result is that of the abstract object: the getters return the
  digest (in binary or as a hexadecimal string) of the pieces given since the last reset,
  updates after a getter change nothing, repeated getters agree, and a short buffer gives
  length 0 without closing the object.
\<close>

theorem crypto_hash_refines:
  assumes "zcrypto_hash_new be True True t = Some h" "\<forall>op \<in> set ops. op_small op"
  shows "snd (run_ops hash_step ops (Some h)) =
    snd (run_ops (spec_hash_step (hash_spec_of (ch_type h)) (unat (hash_len h))) ops ([], False))"
proof -
  define ty where "ty = PCryptoHashTypes ! nat t"
  let ?fs = "fst (hash_funcs_of be ty)" and ?n = "snd (hash_funcs_of be ty)"
  obtain c where c: "hf_create ?fs True = Some c"
    and h: "h = hash_funcs.extend ?fs \<lparr>ch_type = ty, ch_context = c, hash_len = ?n, closed = False\<rparr>"
    using assms(1) unfolding zcrypto_hash_new_def ty_def[symmetric]
    by (auto simp: Let_def split_def split: if_splits option.splits)
  have "ch_type h = ty" "hash_len h = ?n" by (simp_all add: h hash_funcs.extend_def)
  moreover note alg = hash_algorithm_of[of be ty]
  from hash_algorithm.run_rel[OF alg hash_algorithm.new_rel[OF alg c] assms(2)]
  have "snd (run_ops hash_step ops (Some h)) = snd (run_ops (spec_hash_step (hash_spec_of ty) (unat ?n)) ops ([], False))"
    unfolding h .
  ultimately show ?thesis by simp
qed

theorem crypto_hash_refines_witness:
  "snd (run_ops hash_step [Op_Update [0x61], Op_Update [0x62, 0x63], Op_Get_String True, Op_Update [0x64], Op_Get_String True]
     (zcrypto_hash_new True True True 0)) =
   [Out_None, Out_None, Out_String (Some (''900150983cd24fb0d6963f7d28e17f72'' @ [CHR 0x00])), Out_None,
    Out_String (Some (''900150983cd24fb0d6963f7d28e17f72'' @ [CHR 0x00]))]"
proof -
  obtain h where h: "zcrypto_hash_new True True True 0 = Some h"
    using create_iff[of True P_CRYPTO_HASH_TYPE_MD5 True]
    by (auto simp: zcrypto_hash_new_def PCryptoHashTypes_def)
  then have "ch_type h = P_CRYPTO_HASH_TYPE_MD5"
    by (auto simp: zcrypto_hash_new_def PCryptoHashTypes_def hash_funcs.extend_def split: option.splits)
  moreover have "concat (map hex_byte (md5_digest [0x61, 0x62, 0x63])) = ''900150983cd24fb0d6963f7d28e17f72''"
    unfolding md5_abc by (simp add: hex_byte_def pzcrypto_hash_hex_str_def)
  ultimately show ?thesis
    using crypto_hash_refines[OF h, of "[Op_Update [0x61], Op_Update [0x62, 0x63], Op_Get_String True, Op_Update [0x64], Op_Get_String True]"]
    by (simp add: h op_small_def)
qed

text \<open>
  The constructor fails for an integer that is no hash type and for a failed allocation
  of the object or of the context, and for nothing else; the object it returns is open and
  announces the length of the digests it will give.
\<close>

theorem crypto_hash_new_result:
  "(zcrypto_hash_new be mem mem_ctx t = None \<longleftrightarrow> \<not> (0 \<le> t \<and> t \<le> 10 \<and> mem \<and> mem_ctx)) \<and>
   (\<forall>h. zcrypto_hash_new be mem mem_ctx t = Some h \<longrightarrow>
      \<not> closed h \<and> zcrypto_hash_get_type (Some h) = Some (PCryptoHashTypes ! nat t) \<and>
      (\<forall>m. length (hash_spec_of (PCryptoHashTypes ! nat t) m) = unat (zcrypto_hash_get_length (Some h))))"
proof -
  let ?t = "PCryptoHashTypes ! nat t"
  have size: "length (hash_spec_of ?t m) = unat (ucast (snd (hash_funcs_of be ?t)) :: 64 word)" for m
    using hash_algorithm.size(1)[OF hash_algorithm_of[of be ?t], of m] unat_less_32[of "snd (hash_funcs_of be ?t)"]
    by (simp add: unsigned_ucast_eq take_bit_eq_mod)
  have "zcrypto_hash_new be mem mem_ctx t = None \<longleftrightarrow> \<not> (0 \<le> t \<and> t \<le> 10 \<and> mem \<and> mem_ctx)"
    using create_iff[of be ?t mem_ctx]
    by (auto simp: zcrypto_hash_new_def Let_def split_def split: option.splits)
  moreover have "\<not> closed h \<and> zcrypto_hash_get_type (Some h) = Some ?t \<and>
      (\<forall>m. length (hash_spec_of ?t m) = unat (zcrypto_hash_get_length (Some h)))"
    if "zcrypto_hash_new be mem mem_ctx t = Some h" for h
    using that size
    by (auto simp: zcrypto_hash_new_def Let_def split_def hash_funcs.extend_def zcrypto_hash_get_type_def
        zcrypto_hash_get_length_def split: option.splits if_splits)
  ultimately show ?thesis by blast
qed

theorem crypto_hash_new_result_witness:
  "zcrypto_hash_get_type (zcrypto_hash_new False True True 10) = Some P_CRYPTO_HASH_TYPE_GOST \<and>
   zcrypto_hash_new False True True 11 = None"
proof -
  obtain h where h: "zcrypto_hash_new False True True 10 = Some h"
    using crypto_hash_new_result[of False True True 10] by auto
  then show ?thesis
    using crypto_hash_new_result[of False True True 10] crypto_hash_new_result[of False True True 11]
    by (simp add: PCryptoHashTypes_def)
qed

end
