(* ===== verification/Linked_Nodes.thy ===== *)
theory Linked_Nodes
  imports Plibsys_Prelude
begin

text \<open>
  Singly linked nodes on an explicit heap, shared by \<^verbatim>\<open>plist.c\<close> and \<^verbatim>\<open>phashtable.c\<close>. The
  heap maps addresses of live nodes to their contents; the locale \<open>linked_node\<close> fixes how a
  node gives its successor and its item, and carries the lemmas on traversing, extending and
  unlinking a chain.
\<close>

type_synonym 'n heap = "ppointer \<Rightarrow> 'n option"

text \<open>
  \<^verbatim>\<open>zmalloc0\<close> is a parameter of the model: a function from the heap to an address, null when
  there is no memory. All that is asked of it is that the address is not in use.
\<close>

definition good_alloc :: "('n heap \<Rightarrow> ppointer) \<Rightarrow> bool" where
  "good_alloc alloc \<longleftrightarrow> (\<forall>h. alloc h \<noteq> NULL \<longrightarrow> h (alloc h) = None)"

lemma good_allocD: "good_alloc alloc \<Longrightarrow> alloc h \<noteq> NULL \<Longrightarrow> h (alloc h) = None"
  by (simp add: good_alloc_def)

text \<open>An allocator of at most three nodes.\<close>

definition alloc_three :: "'n heap \<Rightarrow> ppointer" where
  "alloc_three h = (if h 1 = None then 1 else if h 2 = None then 2 else if h 3 = None then 3 else NULL)"

lemma good_alloc_three: "good_alloc alloc_three"
  by (simp add: good_alloc_def alloc_three_def)

locale linked_node =
  fixes nxt :: "'n \<Rightarrow> ppointer" and set_nxt :: "ppointer \<Rightarrow> 'n \<Rightarrow> 'n" and item :: "'n \<Rightarrow> 'a"
  assumes nxt_set [simp]: "nxt (set_nxt q n) = q" and item_set [simp]: "item (set_nxt q n) = item n"
begin

text \<open>The chain of nodes from one address to another.\<close>

fun seg :: "'n heap \<Rightarrow> ppointer \<Rightarrow> ppointer list \<Rightarrow> ppointer \<Rightarrow> bool" where
  "seg h p [] q \<longleftrightarrow> p = q"
| "seg h p (a # ps) q \<longleftrightarrow> p = a \<and> a \<noteq> NULL \<and> (\<exists>n. h a = Some n \<and> seg h (nxt n) ps q)"

definition items :: "'n heap \<Rightarrow> ppointer list \<Rightarrow> 'a list" where
  "items h ps = map (\<lambda>p. item (the (h p))) ps"

definition chain :: "'n heap \<Rightarrow> ppointer \<Rightarrow> ppointer list \<Rightarrow> bool" where
  "chain h p ps \<longleftrightarrow> seg h p ps NULL"

definition link :: "'n heap \<Rightarrow> ppointer \<Rightarrow> ppointer \<Rightarrow> 'n heap" where
  "link h p q = h(p := map_option (set_nxt q) (h p))"

lemma seg_frame: "a \<notin> set ps \<Longrightarrow> seg (h(a := x)) p ps q \<longleftrightarrow> seg h p ps q"
  by (induction ps arbitrary: p) auto

lemma seg_append: "seg h p (ps @ qs) q \<longleftrightarrow> (\<exists>r. seg h p ps r \<and> seg h r qs q)"
  by (induction ps arbitrary: p) auto

lemma seg_unique: "seg h p ps NULL \<Longrightarrow> seg h p qs NULL \<Longrightarrow> ps = qs"
proof (induction ps arbitrary: p qs)
  case Nil
  then show ?case by (cases qs) auto
next
  case (Cons a ps)
  then show ?case by (cases qs) auto
qed

lemma chain_distinct: "chain h p ps \<Longrightarrow> distinct ps"
proof (induction ps arbitrary: p)
  case (Cons a ps)
  then obtain n where n: "h a = Some n" "chain h (nxt n) ps" by (auto simp: chain_def)
  have "a \<notin> set ps"
  proof
    assume "a \<in> set ps"
    then obtain us vs where ps: "ps = us @ a # vs" by (meson split_list)
    with n(2) have "seg h a (a # vs) NULL" by (auto simp: chain_def seg_append)
    moreover have "seg h a (a # ps) NULL" using Cons.prems by (auto simp: chain_def)
    ultimately have "a # vs = a # ps" by (rule seg_unique)
    with ps show False by simp
  qed
  with Cons.IH n(2) show ?case by simp
qed simp

lemma chain_Nil [simp]: "chain h p [] \<longleftrightarrow> p = NULL"
  by (simp add: chain_def)

lemma chain_NULL [simp]: "chain h NULL ps \<longleftrightarrow> ps = []"
  by (cases ps) (auto simp: chain_def)

lemma chain_Cons: "chain h p (a # ps) \<longleftrightarrow> p = a \<and> a \<noteq> NULL \<and> (\<exists>n. h a = Some n \<and> chain h (nxt n) ps)"
  by (simp add: chain_def)

lemma chain_live: "chain h p ps \<Longrightarrow> a \<in> set ps \<Longrightarrow> a \<noteq> NULL \<and> h a \<noteq> None"
  by (induction ps arbitrary: p) (auto simp: chain_Cons)

lemma chain_cases:
  assumes "chain h p ps"
  obtains (empty) "p = NULL" "ps = []"
    | (node) n qs where "p \<noteq> NULL" "ps = p # qs" "h p = Some n" "chain h (nxt n) qs"
proof (cases ps)
  case Nil
  with assms empty show thesis by simp
next
  case (Cons a qs)
  with assms obtain n where "p = a" "a \<noteq> NULL" "h a = Some n" "chain h (nxt n) qs" by (auto simp: chain_Cons)
  with Cons node show thesis by blast
qed

lemma chain_frame: "a \<notin> set ps \<Longrightarrow> chain (h(a := x)) p ps \<longleftrightarrow> chain h p ps"
  by (simp add: chain_def seg_frame)

lemma items_frame: "a \<notin> set ps \<Longrightarrow> items (h(a := x)) ps = items h ps"
  by (auto simp: items_def)

lemma chain_cong: "(\<And>q. q \<in> set ps \<Longrightarrow> h' q = h q) \<Longrightarrow> chain h p ps \<Longrightarrow> chain h' p ps"
  by (induction ps arbitrary: p) (auto simp: chain_Cons)

lemma items_cong: "(\<And>q. q \<in> set ps \<Longrightarrow> h' q = h q) \<Longrightarrow> items h' ps = items h ps"
  by (auto simp: items_def)

lemma chain_same_next: "h a = Some n \<Longrightarrow> nxt n' = nxt n \<Longrightarrow> chain h p ps \<Longrightarrow> chain (h(a := Some n')) p ps"
  by (induction ps arbitrary: p) (auto simp: chain_Cons)

lemma link_frame: "a \<notin> set ps \<Longrightarrow> chain (link h a q) p ps \<longleftrightarrow> chain h p ps"
  by (simp add: link_def chain_frame)

lemma items_link [simp]: "h a \<noteq> None \<Longrightarrow> items (link h a q) ps = items h ps"
  by (auto simp: items_def link_def)

lemma items_Cons [simp]: "items h (a # ps) = item (the (h a)) # items h ps"
  by (simp add: items_def)

lemma items_append [simp]: "items h (ps @ qs) = items h ps @ items h qs"
  by (simp add: items_def)

lemma items_Nil [simp]: "items h [] = []"
  by (simp add: items_def)

lemma length_items [simp]: "length (items h ps) = length ps"
  by (simp add: items_def)

lemma seg_relink:
  assumes "seg h p (ps @ [a]) q" "a \<notin> set ps"
  shows "seg (link h a r) p (ps @ [a]) r"
  using assms by (auto simp: seg_append link_def seg_frame)

text \<open>A new last node.\<close>

lemma chain_snoc:
  assumes "chain h p (ps @ [a])" "h c = Some n" "nxt n = NULL" "c \<noteq> NULL" "c \<notin> set (ps @ [a])"
  shows "chain (link h a c) p ((ps @ [a]) @ [c])"
proof -
  have "a \<notin> set ps" using chain_distinct[OF assms(1)] by simp
  with assms(1) have "seg (link h a c) p (ps @ [a]) c"
    unfolding chain_def by (rule seg_relink)
  moreover have "seg (link h a c) c [c] NULL"
    using assms(2-5) by (auto simp: link_def)
  ultimately show ?thesis
    unfolding chain_def seg_append by blast
qed

text \<open>Taking a node out: at the head, or behind its predecessor.\<close>

lemma chain_unlink_head:
  assumes "chain h p (c # ps)" "h c = Some n"
  shows "chain (h(c := None)) (nxt n) ps" "items (h(c := None)) ps = items h ps"
  using assms chain_distinct[OF assms(1)] by (auto simp: chain_Cons chain_frame items_frame)

lemma chain_unlink_next:
  assumes "chain h p (ps @ a # c # qs)" "h c = Some n"
  defines "h' \<equiv> (link h a (nxt n))(c := None)"
  shows "chain h' p (ps @ a # qs)" "items h' (ps @ a # qs) = items h (ps @ a # qs)"
proof -
  have dist: "distinct (ps @ a # c # qs)" by (rule chain_distinct[OF assms(1)])
  have live: "h a \<noteq> None" using chain_live[OF assms(1), of a] by simp
  obtain r where r: "seg h p (ps @ [a]) r" "seg h r (c # qs) NULL"
    using assms(1) seg_append[of h p "ps @ [a]" "c # qs" NULL] by (auto simp: chain_def)
  have "seg (link h a (nxt n)) p (ps @ [a]) (nxt n)"
    using r(1) dist by (intro seg_relink) auto
  moreover have "seg (link h a (nxt n)) (nxt n) qs NULL"
    using r(2) assms(2) dist by (auto simp: link_def seg_frame)
  ultimately have "chain (link h a (nxt n)) p (ps @ a # qs)"
    using seg_append[of "link h a (nxt n)" p "ps @ [a]" qs NULL] by (auto simp: chain_def)
  then show "chain h' p (ps @ a # qs)"
    using dist unfolding h'_def by (subst chain_frame) auto
  have "items h' (ps @ a # qs) = items (link h a (nxt n)) (ps @ a # qs)"
    using dist unfolding h'_def by (intro items_frame) auto
  also have "\<dots> = items h (ps @ a # qs)" using live by (rule items_link)
  finally show "items h' (ps @ a # qs) = items h (ps @ a # qs)" .
qed

text \<open>
  The two cases at once: the heap and the head after unlinking the node \<open>c\<close> behind \<open>prev\<close>
  (null for the head) and freeing it.
\<close>

definition unlink :: "'n heap \<Rightarrow> ppointer \<Rightarrow> ppointer \<Rightarrow> ppointer \<Rightarrow> 'n \<Rightarrow> 'n heap \<times> ppointer" where
  "unlink h head prev c n =
     (if prev = NULL then (h(c := None), nxt n) else ((link h prev (nxt n))(c := None), head))"

lemma chain_unlink:
  assumes "chain h head (qs @ c # ps)" "h c = Some n" "prev = (if qs = [] then NULL else last qs)"
    and "unlink h head prev c n = (h', head')"
  shows "chain h' head' (qs @ ps)" "items h' (qs @ ps) = items h (qs @ ps)" "h' c = None"
    "q \<notin> set (qs @ c # ps) \<Longrightarrow> h' q = h q"
proof -
  have "chain h' head' (qs @ ps) \<and> items h' (qs @ ps) = items h (qs @ ps) \<and> h' c = None \<and>
      (q \<notin> set (qs @ c # ps) \<longrightarrow> h' q = h q)"
  proof (cases qs rule: rev_cases)
    case Nil
    with assms chain_unlink_head[of h head c ps n] show ?thesis by (auto simp: unlink_def)
  next
    case (snoc us b)
    with assms(1) have ch: "chain h head (us @ b # c # ps)" by simp
    then have "b \<noteq> NULL" using chain_live[OF ch, of b] by simp
    then show ?thesis
      using snoc assms(3,4) chain_unlink_next[OF ch assms(2)] by (auto simp: unlink_def link_def)
  qed
  then show "chain h' head' (qs @ ps)" "items h' (qs @ ps) = items h (qs @ ps)" "h' c = None"
    "q \<notin> set (qs @ c # ps) \<Longrightarrow> h' q = h q" by blast+
qed

end

end
