(* ===== verification/PList.thy ===== *)
theory PList
  imports Linked_Nodes
begin

text \<open>
  The singly linked list of \<^verbatim>\<open>src/src/lib/plist.c\<close> on a heap of nodes. A result \<open>None\<close> is a
  dereference of an address that is no live node, or a loop that does not end; the
  properties show that neither happens on a proper list.
\<close>

section \<open>Operations\<close>

record PList =
  data :: ppointer
  "next" :: ppointer

definition set_next :: "PList heap \<Rightarrow> ppointer \<Rightarrow> ppointer \<Rightarrow> PList heap option" where
  "set_next h p q = (case h p of None \<Rightarrow> None | Some n \<Rightarrow> Some (h(p := Some (n\<lparr>next := q\<rparr>))))"

text \<open>The loop \<^verbatim>\<open>for (cur = list; cur->next != NULL; cur = cur->next)\<close>.\<close>

partial_function (option) last_loop :: "PList heap \<Rightarrow> ppointer \<Rightarrow> ppointer option" where
  "last_loop h cur =
     (case h cur of
        None \<Rightarrow> None
      | Some n \<Rightarrow> (if next n \<noteq> NULL then last_loop h (next n) else Some cur))"

definition zlist_append :: "(PList heap \<Rightarrow> ppointer) \<Rightarrow> PList heap \<Rightarrow> ppointer \<Rightarrow> ppointer \<Rightarrow>
    (PList heap \<times> ppointer) option" where
  "zlist_append alloc h list d =
     (let it = alloc h in
      if it = NULL then Some (h, list)
      else let h1 = h(it := Some \<lparr>data = d, next = NULL\<rparr>) in
        if list = NULL then Some (h1, it)
        else case last_loop h1 list of
               None \<Rightarrow> None
             | Some cur \<Rightarrow> map_option (\<lambda>h2. (h2, list)) (set_next h1 cur it))"

partial_function (option) remove_loop :: "PList heap \<Rightarrow> ppointer \<Rightarrow> ppointer \<Rightarrow> ppointer \<Rightarrow> ppointer \<Rightarrow>
    (PList heap \<times> ppointer) option" where
  "remove_loop h d head prev cur =
     (if cur = NULL then Some (h, head)
      else case h cur of
        None \<Rightarrow> None
      | Some n \<Rightarrow>
          (if data n = d then
             (if prev = NULL then Some (h(cur := None), next n)
              else map_option (\<lambda>h1. (h1(cur := None), head)) (set_next h prev (next n)))
           else remove_loop h d head cur (next n)))"

definition zlist_remove :: "PList heap \<Rightarrow> ppointer \<Rightarrow> ppointer \<Rightarrow> (PList heap \<times> ppointer) option" where
  "zlist_remove h list d =
     (if list = NULL then Some (h, NULL) else remove_loop h d list NULL list)"

text \<open>The callback changes the user data; a null callback is \<open>None\<close>.\<close>

partial_function (option) foreach_list :: "PList heap \<Rightarrow> (ppointer \<Rightarrow> 'u \<Rightarrow> 'u) \<Rightarrow> ppointer \<Rightarrow> 'u \<Rightarrow> 'u option" where
  "foreach_list h func cur u =
     (if cur = NULL then Some u
      else case h cur of
        None \<Rightarrow> None
      | Some n \<Rightarrow> foreach_list h func (next n) (func (data n) u))"

definition zlist_foreach :: "PList heap \<Rightarrow> ppointer \<Rightarrow> (ppointer \<Rightarrow> 'u \<Rightarrow> 'u) option \<Rightarrow> 'u \<Rightarrow> 'u option" where
  "zlist_foreach h list func u =
     (case func of
        None \<Rightarrow> Some u
      | Some f \<Rightarrow> if list = NULL then Some u else foreach_list h f list u)"

partial_function (option) free_loop :: "PList heap \<Rightarrow> ppointer \<Rightarrow> ppointer \<Rightarrow> PList heap option" where
  "free_loop h cur nxt =
     (if cur \<noteq> NULL \<and> nxt \<noteq> NULL then
        (case h cur of
           None \<Rightarrow> None
         | Some n \<Rightarrow> free_loop (h(cur := None)) (next n) (next n))
      else Some h)"

definition zlist_free :: "PList heap \<Rightarrow> ppointer \<Rightarrow> PList heap option" where
  "zlist_free h list = (if list = NULL then Some h else free_loop h list list)"

definition zlist_last :: "PList heap \<Rightarrow> ppointer \<Rightarrow> ppointer option" where
  "zlist_last h list = (if list = NULL then Some NULL else last_loop h list)"

partial_function (option) length_loop :: "PList heap \<Rightarrow> ppointer \<Rightarrow> psize \<Rightarrow> psize option" where
  "length_loop h cur ret =
     (case h cur of
        None \<Rightarrow> None
      | Some n \<Rightarrow> (if next n \<noteq> NULL then length_loop h (next n) (ret + 1) else Some ret))"

definition zlist_length :: "PList heap \<Rightarrow> ppointer \<Rightarrow> psize option" where
  "zlist_length h list = (if list = NULL then Some 0 else length_loop h list 1)"

definition zlist_prepend :: "(PList heap \<Rightarrow> ppointer) \<Rightarrow> PList heap \<Rightarrow> ppointer \<Rightarrow> ppointer \<Rightarrow>
    (PList heap \<times> ppointer) option" where
  "zlist_prepend alloc h list d =
     (let it = alloc h in
      if it = NULL then Some (h, list)
      else let h1 = h(it := Some \<lparr>data = d, next = NULL\<rparr>) in
        if list = NULL then Some (h1, it)
        else map_option (\<lambda>h2. (h2, it)) (set_next h1 it list))"

partial_function (option) reverse_loop :: "PList heap \<Rightarrow> ppointer \<Rightarrow> ppointer \<Rightarrow> (PList heap \<times> ppointer) option" where
  "reverse_loop h prev cur =
     (if cur = NULL then Some (h, prev)
      else case h cur of
        None \<Rightarrow> None
      | Some n \<Rightarrow> reverse_loop (h(cur := Some (n\<lparr>next := prev\<rparr>))) cur (next n))"

definition zlist_reverse :: "PList heap \<Rightarrow> ppointer \<Rightarrow> (PList heap \<times> ppointer) option" where
  "zlist_reverse h list =
     (if list = NULL then Some (h, NULL)
      else case h list of
        None \<Rightarrow> None
      | Some n \<Rightarrow> reverse_loop (h(list := Some (n\<lparr>next := NULL\<rparr>))) list (next n))"

section \<open>Chains of list nodes\<close>

interpretation pl: linked_node "next" "\<lambda>q n. n\<lparr>next := q\<rparr>" data
  by unfold_locales simp_all

lemma set_next_link: "h p \<noteq> None \<Longrightarrow> set_next h p q = Some (pl.link h p q)"
  by (auto simp: set_next_def pl.link_def)

lemma last_loop_chain: "pl.chain h p (ps @ [a]) \<Longrightarrow> last_loop h p = Some a"
proof (induction ps arbitrary: p)
  case Nil
  then show ?case by (subst last_loop.simps) (auto simp: pl.chain_Cons)
next
  case (Cons b ps)
  then obtain n where n: "p = b" "h b = Some n" "pl.chain h (next n) (ps @ [a])" by (auto simp: pl.chain_Cons)
  then have "next n \<noteq> NULL" by auto
  with Cons.IH[OF n(3)] n(1,2) show ?case by (subst last_loop.simps) simp
qed

lemma length_loop_chain: "pl.chain h p (a # ps) \<Longrightarrow> length_loop h p r = Some (r + of_nat (length ps))"
proof (induction ps arbitrary: p a r)
  case Nil
  then show ?case by (subst length_loop.simps) (auto simp: pl.chain_Cons)
next
  case (Cons b ps)
  then obtain n where n: "p = a" "h a = Some n" "pl.chain h (next n) (b # ps)" by (auto simp: pl.chain_Cons)
  then have "next n \<noteq> NULL" by auto
  with Cons.IH[OF n(3)] n(1,2) show ?case by (subst length_loop.simps) (simp add: algebra_simps)
qed

lemma foreach_list_chain: "pl.chain h p ps \<Longrightarrow> foreach_list h f p u = Some (foldl (\<lambda>u d. f d u) u (pl.items h ps))"
proof (induction ps arbitrary: p u)
  case Nil
  then show ?case by (subst foreach_list.simps) simp
next
  case (Cons a ps)
  then show ?case by (subst foreach_list.simps) (auto simp: pl.chain_Cons)
qed

lemma free_loop_chain:
  "pl.chain h p ps \<Longrightarrow> free_loop h p p = Some (\<lambda>q. if q \<in> set ps then None else h q)"
proof (induction ps arbitrary: h p)
  case Nil
  then show ?case by (subst free_loop.simps) simp
next
  case (Cons a ps)
  then obtain n where n: "p = a" "a \<noteq> NULL" "h a = Some n" by (auto simp: pl.chain_Cons)
  note IH = Cons.IH[OF pl.chain_unlink_head(1)[OF Cons.prems n(3)]]
  have "free_loop h p p = free_loop (h(a := None)) (next n) (next n)"
    using n by (subst free_loop.simps) simp
  also note IH
  also have "(\<lambda>q. if q \<in> set ps then None else (h(a := None)) q) = (\<lambda>q. if q \<in> set (a # ps) then None else h q)"
    by auto
  finally show ?case .
qed

lemma reverse_loop_chain:
  assumes "pl.chain h cur ps" "pl.chain h prev qs" "set ps \<inter> set qs = {}"
  shows "\<exists>h' p'. reverse_loop h prev cur = Some (h', p') \<and> pl.chain h' p' (rev ps @ qs) \<and>
    pl.items h' (rev ps @ qs) = rev (pl.items h ps) @ pl.items h qs \<and> (\<forall>q. q \<notin> set ps \<longrightarrow> h' q = h q)"
  using assms
proof (induction ps arbitrary: h cur prev qs)
  case Nil
  then show ?case by (subst reverse_loop.simps) auto
next
  case (Cons a ps)
  then obtain n where n: "cur = a" "a \<noteq> NULL" "h a = Some n" "pl.chain h (next n) ps" by (auto simp: pl.chain_Cons)
  let ?h = "pl.link h a prev"
  have h: "?h = h(a := Some (n\<lparr>next := prev\<rparr>))" using n(3) by (simp add: pl.link_def)
  have dist: "a \<notin> set ps" "a \<notin> set qs" using pl.chain_distinct[OF Cons.prems(1)] Cons.prems(3) by auto
  have chains: "pl.chain ?h (next n) ps" "pl.chain ?h a (a # qs)"
    using n dist Cons.prems(2) by (auto simp: pl.link_frame pl.chain_Cons) (simp_all add: h pl.chain_frame)
  have "pl.items ?h xs = pl.items h xs" for xs using n(3) by (intro pl.items_link) simp
  moreover have "data (the (?h a)) = data (the (h a))" using n(3) by (simp add: h)
  ultimately obtain h' p' where
    "reverse_loop ?h a (next n) = Some (h', p')" "pl.chain h' p' (rev ps @ a # qs)"
    "pl.items h' (rev ps @ a # qs) = rev (pl.items h ps) @ pl.items h (a # qs)"
    "\<forall>q. q \<notin> set ps \<longrightarrow> h' q = ?h q"
    using Cons.IH[OF chains] Cons.prems(3) dist by auto
  then show ?case
    using n(1-3) by (subst reverse_loop.simps) (auto simp: h)
qed

lemma remove_loop_chain:
  assumes "pl.chain h head (qs @ ps)" "pl.chain h cur ps" "prev = (if qs = [] then NULL else last qs)"
    and "d \<notin> set (pl.items h qs)"
  shows "\<exists>h' p' rs. remove_loop h d head prev cur = Some (h', p') \<and> pl.chain h' p' rs \<and>
    pl.items h' rs = pl.items h qs @ remove1 d (pl.items h ps) \<and> set rs \<subseteq> set (qs @ ps) \<and>
    (\<forall>q. q \<notin> set (qs @ ps) \<longrightarrow> h' q = h q) \<and> (\<forall>q. q \<in> set (qs @ ps) - set rs \<longrightarrow> h' q = None)"
  using assms
proof (induction ps arbitrary: qs prev cur)
  case Nil
  then show ?case by (subst remove_loop.simps) (auto intro!: exI[of _ qs])
next
  case (Cons a ps)
  then obtain n where n: "cur = a" "a \<noteq> NULL" "h a = Some n" "pl.chain h (next n) ps" by (auto simp: pl.chain_Cons)
  show ?case
  proof (cases "data n = d")
    case False
    with n Cons.prems Cons.IH[of "qs @ [a]" "next n" a] show ?thesis
      by (subst remove_loop.simps) auto
  next
    case True
    obtain h' p' where un: "pl.unlink h head prev a n = (h', p')" by fastforce
    have live: "prev = NULL \<or> h prev \<noteq> None"
      using Cons.prems(1,3) pl.chain_live[OF Cons.prems(1), of prev] by (cases qs rule: rev_cases) auto
    have "remove_loop h d head prev cur = Some (h', p')"
      using n True un live by (subst remove_loop.simps) (auto simp: pl.unlink_def set_next_link)
    with pl.chain_unlink[OF Cons.prems(1) n(3) Cons.prems(3) un] True n show ?thesis
      by (auto intro!: exI[of _ "qs @ ps"])
  qed
qed

section \<open>The operations as list functions\<close>

text \<open>
  The calls that change a list held in a variable; after \<^verbatim>\<open>zlist_free\<close> the variable is
  set to null, as its old value must not be used again.
\<close>

datatype list_op = List_Append ppointer | List_Prepend ppointer | List_Remove ppointer | List_Reverse | List_Free

fun list_step :: "(PList heap \<Rightarrow> ppointer) \<Rightarrow> list_op \<Rightarrow> PList heap \<times> ppointer \<Rightarrow> (PList heap \<times> ppointer) option" where
  "list_step alloc (List_Append d) (h, l) = zlist_append alloc h l d"
| "list_step alloc (List_Prepend d) (h, l) = zlist_prepend alloc h l d"
| "list_step alloc (List_Remove d) (h, l) = zlist_remove h l d"
| "list_step alloc List_Reverse (h, l) = zlist_reverse h l"
| "list_step alloc List_Free (h, l) = map_option (\<lambda>h'. (h', NULL)) (zlist_free h l)"

fun list_spec :: "bool \<Rightarrow> list_op \<Rightarrow> ppointer list \<Rightarrow> ppointer list" where
  "list_spec mem (List_Append d) xs = (if mem then xs @ [d] else xs)"
| "list_spec mem (List_Prepend d) xs = (if mem then d # xs else xs)"
| "list_spec mem (List_Remove d) xs = remove1 d xs"
| "list_spec mem List_Reverse xs = rev xs"
| "list_spec mem List_Free xs = []"

text \<open>
  \<open>list_at h l frame xs\<close>: the heap holds the nodes of a list with contents \<open>xs\<close> at \<open>l\<close>, and
  beside them exactly the nodes of \<open>frame\<close>.
\<close>

definition list_at :: "PList heap \<Rightarrow> ppointer \<Rightarrow> PList heap \<Rightarrow> ppointer list \<Rightarrow> bool" where
  "list_at h l frame xs \<longleftrightarrow> (\<exists>ps. pl.chain h l ps \<and> pl.items h ps = xs \<and>
     (\<forall>q. frame q = (if q \<in> set ps then None else h q)))"

lemma list_atI:
  "pl.chain h l ps \<Longrightarrow> pl.items h ps = xs \<Longrightarrow> (\<And>q. q \<in> set ps \<Longrightarrow> frame q = None) \<Longrightarrow>
   (\<And>q. q \<notin> set ps \<Longrightarrow> h q = frame q) \<Longrightarrow> list_at h l frame xs"
  by (auto simp: list_at_def)

lemma append_at:
  assumes "good_alloc alloc" "list_at h l frame xs"
  shows "\<exists>h' l'. zlist_append alloc h l d = Some (h', l') \<and>
    list_at h' l' frame (if alloc h \<noteq> NULL then xs @ [d] else xs)"
proof (cases "alloc h = NULL")
  case True
  with assms(2) show ?thesis by (auto simp: zlist_append_def)
next
  case False
  let ?it = "alloc h" and ?n = "\<lparr>data = d, next = NULL\<rparr>"
  let ?h = "h(?it := Some ?n)"
  have fresh: "h ?it = None" using good_allocD[OF assms(1) False] .
  obtain ps where ps: "pl.chain h l ps" "pl.items h ps = xs" and fr: "\<forall>q. frame q = (if q \<in> set ps then None else h q)"
    using assms(2) by (auto simp: list_at_def)
  have it: "?it \<notin> set ps" using pl.chain_live[OF ps(1)] fresh by blast
  show ?thesis
  proof (cases ps rule: rev_cases)
    case Nil
    then have "list_at ?h ?it frame (xs @ [d])"
      using ps fr fresh False by (intro list_atI[of _ _ "[?it]"]) (auto simp: pl.chain_Cons)
    with Nil ps False show ?thesis by (simp add: zlist_append_def Let_def)
  next
    case (snoc qs a)
    have "pl.chain ?h l (qs @ [a])" using ps(1) it snoc by (auto simp: pl.chain_frame)
    from pl.chain_snoc[OF this, of ?it ?n] last_loop_chain[OF this] pl.chain_live[OF this, of a] it snoc False
    have run: "last_loop ?h l = Some a" "?h a \<noteq> None" "pl.chain (pl.link ?h a ?it) l ((qs @ [a]) @ [?it])"
      by auto
    have "l \<noteq> NULL" using ps(1) snoc by auto
    then have "zlist_append alloc h l d = Some (pl.link ?h a ?it, l)"
      using False run(1,2) set_next_link[of ?h a ?it] by (simp add: zlist_append_def Let_def)
    moreover have "list_at (pl.link ?h a ?it) l frame (xs @ [d])"
    proof (rule list_atI[OF run(3)])
      show "pl.items (pl.link ?h a ?it) ((qs @ [a]) @ [?it]) = xs @ [d]"
        using ps(2) it snoc pl.items_link[of ?h a ?it "(qs @ [a]) @ [?it]"] run(2) by (auto simp: pl.items_frame)
    qed (use fr fresh snoc it in \<open>auto simp: pl.link_def\<close>)
    ultimately show ?thesis using False by simp
  qed
qed

lemma prepend_at:
  assumes "good_alloc alloc" "list_at h l frame xs"
  shows "\<exists>h' l'. zlist_prepend alloc h l d = Some (h', l') \<and>
    list_at h' l' frame (if alloc h \<noteq> NULL then d # xs else xs)"
proof (cases "alloc h = NULL")
  case True
  with assms(2) show ?thesis by (auto simp: zlist_prepend_def)
next
  case False
  let ?it = "alloc h"
  let ?h = "h(?it := Some \<lparr>data = d, next = l\<rparr>)"
  have fresh: "h ?it = None" using good_allocD[OF assms(1) False] .
  obtain ps where ps: "pl.chain h l ps" "pl.items h ps = xs" and fr: "\<forall>q. frame q = (if q \<in> set ps then None else h q)"
    using assms(2) by (auto simp: list_at_def)
  have it: "?it \<notin> set ps" using pl.chain_live[OF ps(1)] fresh by blast
  have "zlist_prepend alloc h l d = Some (?h, ?it)"
    using False by (simp add: zlist_prepend_def set_next_def Let_def)
  moreover have "list_at ?h ?it frame (d # xs)"
    using ps fr fresh it False
    by (intro list_atI[of _ _ "?it # ps"]) (auto simp: pl.chain_Cons pl.chain_frame pl.items_frame)
  ultimately show ?thesis using False by simp
qed

lemma remove_at:
  assumes "list_at h l frame xs"
  shows "\<exists>h' l'. zlist_remove h l d = Some (h', l') \<and> list_at h' l' frame (remove1 d xs)"
proof -
  obtain ps where ps: "pl.chain h l ps" "pl.items h ps = xs" and fr: "\<forall>q. frame q = (if q \<in> set ps then None else h q)"
    using assms by (auto simp: list_at_def)
  show ?thesis
  proof (cases "l = NULL")
    case True
    with ps assms show ?thesis by (auto simp: zlist_remove_def)
  next
    case False
    obtain h' p' rs where r: "remove_loop h d l NULL l = Some (h', p')" "pl.chain h' p' rs"
      "pl.items h' rs = remove1 d xs" "set rs \<subseteq> set ps" "\<forall>q. q \<notin> set ps \<longrightarrow> h' q = h q"
      "\<forall>q. q \<in> set ps - set rs \<longrightarrow> h' q = None"
      using remove_loop_chain[of h l "[]" ps l NULL d] ps by auto
    have "list_at h' p' frame (remove1 d xs)"
      using r fr by (intro list_atI[OF r(2,3)]) auto
    with r(1) False show ?thesis by (simp add: zlist_remove_def)
  qed
qed

lemma reverse_at:
  assumes "list_at h l frame xs"
  shows "\<exists>h' l'. zlist_reverse h l = Some (h', l') \<and> list_at h' l' frame (rev xs)"
proof -
  obtain ps where ps: "pl.chain h l ps" "pl.items h ps = xs" and fr: "\<forall>q. frame q = (if q \<in> set ps then None else h q)"
    using assms by (auto simp: list_at_def)
  from ps(1) show ?thesis
  proof (cases rule: pl.chain_cases)
    case empty
    with ps assms show ?thesis by (auto simp: zlist_reverse_def)
  next
    case (node n qs)
    have dist: "l \<notin> set qs" using pl.chain_distinct[OF ps(1)] node by simp
    have "zlist_reverse h l = reverse_loop h NULL l"
      using node by (subst reverse_loop.simps) (simp add: zlist_reverse_def)
    with reverse_loop_chain[OF ps(1), of NULL "[]"] obtain h' p' where
      r: "zlist_reverse h l = Some (h', p')" "pl.chain h' p' (rev ps)" "pl.items h' (rev ps) = rev xs"
        "\<forall>q. q \<notin> set ps \<longrightarrow> h' q = h q" using ps(2) by auto
    have "list_at h' p' frame (rev xs)"
      using r fr by (intro list_atI[OF r(2,3)]) auto
    with r(1) show ?thesis by simp
  qed
qed

lemma free_at:
  assumes "list_at h l frame xs"
  shows "zlist_free h l = Some frame"
proof -
  obtain ps where ps: "pl.chain h l ps" and fr: "frame = (\<lambda>q. if q \<in> set ps then None else h q)"
    using assms by (auto simp: list_at_def)
  then show ?thesis
    using free_loop_chain[OF ps] by (cases "l = NULL") (auto simp: zlist_free_def)
qed

text \<open>
  C17: appending, prepending, removing, reversing and freeing never touch a dead node, end, and
  change the list as the functions on sequences do (a failed allocation leaves it as it is);
  the nodes of the heap are afterwards exactly those of the list and those that were there
  beside it, so nothing leaks and nothing else changes.
\<close>

theorem zlist_ops_refine:
  assumes "good_alloc alloc" "list_at h l frame xs"
  shows "\<exists>h' l'. list_step alloc op (h, l) = Some (h', l') \<and> list_at h' l' frame (list_spec (alloc h \<noteq> NULL) op xs)"
proof (cases op)
  case List_Free
  have "list_at frame NULL frame []" by (simp add: list_at_def)
  with List_Free free_at[OF assms(2)] show ?thesis by simp
qed (use append_at[OF assms] prepend_at[OF assms] remove_at[OF assms(2)] reverse_at[OF assms(2)] in simp_all)

theorem zlist_ops_refine_witness:
  "\<exists>h l. list_step alloc_three (List_Append 7) (Map.empty, NULL) = Some (h, l) \<and> list_at h l Map.empty [7]"
proof -
  have "list_at Map.empty NULL Map.empty []" by (simp add: list_at_def)
  moreover have "alloc_three (Map.empty :: PList heap) \<noteq> NULL" by (simp add: alloc_three_def)
  ultimately show ?thesis
    using zlist_ops_refine[OF good_alloc_three, of Map.empty NULL Map.empty "[]" "List_Append 7"] by simp
qed

text \<open>
  On a proper list the observers end and agree with its contents: the length modulo the
  range of \<^verbatim>\<open>psize\<close>, the callback of a traversal on every element in order, and the address of
  the last node.
\<close>

theorem zlist_observers:
  assumes "list_at h l frame xs"
  shows "zlist_length h l = Some (of_nat (length xs)) \<and>
    zlist_foreach h l (Some f) u = Some (foldl (\<lambda>u d. f d u) u xs) \<and>
    (\<exists>a. zlist_last h l = Some a \<and> (if xs = [] then a = NULL else \<exists>n. h a = Some n \<and> data n = last xs \<and> next n = NULL))"
proof (intro conjI)
  obtain ps where ps: "pl.chain h l ps" "pl.items h ps = xs"
    using assms by (auto simp: list_at_def)
  show "zlist_length h l = Some (of_nat (length xs))"
    using ps length_loop_chain[of h l _ _ 1] by (cases ps) (auto simp: zlist_length_def pl.chain_Cons)
  show "zlist_foreach h l (Some f) u = Some (foldl (\<lambda>u d. f d u) u xs)"
    using ps foreach_list_chain[OF ps(1), of f u] by (auto simp: zlist_foreach_def)
  show "\<exists>a. zlist_last h l = Some a \<and> (if xs = [] then a = NULL else \<exists>n. h a = Some n \<and> data n = last xs \<and> next n = NULL)"
  proof (cases ps rule: rev_cases)
    case Nil
    with ps show ?thesis by (auto simp: zlist_last_def)
  next
    case (snoc qs a)
    then have "l \<noteq> NULL" using ps(1) by auto
    moreover have "last_loop h l = Some a" using ps(1) snoc by (intro last_loop_chain) simp
    moreover obtain n where "h a = Some n" "next n = NULL"
      using ps(1) snoc by (auto simp: pl.chain_def pl.seg_append)
    ultimately show ?thesis using ps(2) snoc by (auto simp: zlist_last_def)
  qed
qed

theorem zlist_observers_witness:
  "zlist_length [2 \<mapsto> \<lparr>data = 5, next = NULL\<rparr>] 2 = Some 1"
proof -
  have "list_at [2 \<mapsto> \<lparr>data = 5, next = NULL\<rparr>] 2 Map.empty [5]"
    by (rule list_atI[of _ _ "[2]"]) (auto simp: pl.chain_Cons)
  from zlist_observers[OF this, of "\<lambda>d u. u" "()"] show ?thesis by simp
qed

end
