(* ===== verification/PHashTable.thy ===== *)
theory PHashTable
  imports PList
begin

text \<open>
  The hash table of \<^verbatim>\<open>src/src/lib/phashtable.c\<close>: an array of 101 chains of nodes on a heap.
  The nodes live in one heap, the lists of keys and values that the table returns in the
  heap of \<open>PList\<close>. It is proved to be a map from pointers to pointers.
\<close>

section \<open>Operations\<close>

record PHashTableNode =
  ht_next :: ppointer
  ht_key :: ppointer
  ht_value :: ppointer

record PHashTable =
  ht_table :: "ppointer list"
  ht_size :: psize

definition P_HASH_TABLE_SIZE :: nat where
  "P_HASH_TABLE_SIZE = 101"

text \<open>
  \<^verbatim>\<open>P_POINTER_TO_INT\<close> keeps the low 32 bits, the addition is on \<^verbatim>\<open>int\<close> (wrapping here, undefined
  in C for the 37 largest values) and the conversion to \<^verbatim>\<open>psize\<close> extends the sign.
\<close>

definition pzhash_table_calc_hash :: "ppointer \<Rightarrow> psize \<Rightarrow> puint32" where
  "pzhash_table_calc_hash p m = ucast ((scast ((ucast p :: 32 word) + 37) :: psize) mod m)"

text \<open>Reading and writing \<^verbatim>\<open>table->table[hash]\<close>; \<open>None\<close> is an access out of bounds.\<close>

definition bucket :: "PHashTable \<Rightarrow> puint32 \<Rightarrow> ppointer option" where
  "bucket t i = (if unat i < length (ht_table t) then Some (ht_table t ! unat i) else None)"

definition set_bucket :: "PHashTable \<Rightarrow> puint32 \<Rightarrow> ppointer \<Rightarrow> PHashTable" where
  "set_bucket t i p = t\<lparr>ht_table := (ht_table t)[unat i := p]\<rparr>"

partial_function (option) find_node_loop :: "PHashTableNode heap \<Rightarrow> ppointer \<Rightarrow> ppointer \<Rightarrow> ppointer option" where
  "find_node_loop h key ret =
     (if ret = NULL then Some NULL
      else case h ret of
        None \<Rightarrow> None
      | Some n \<Rightarrow> (if ht_key n = key then Some ret else find_node_loop h key (ht_next n)))"

definition pzhash_table_find_node :: "PHashTableNode heap \<Rightarrow> PHashTable \<Rightarrow> ppointer \<Rightarrow> puint32 \<Rightarrow> ppointer option" where
  "pzhash_table_find_node h t key i = Option.bind (bucket t i) (find_node_loop h key)"

text \<open>The two flags are the outcomes of the allocations of the object and of the array.\<close>

definition zhash_table_new :: "bool \<Rightarrow> bool \<Rightarrow> PHashTable option" where
  "zhash_table_new mem1 mem2 =
     (if \<not> mem1 then None
      else if \<not> mem2 then None
      else Some \<lparr>ht_table = replicate P_HASH_TABLE_SIZE NULL, ht_size = of_nat P_HASH_TABLE_SIZE\<rparr>)"

text \<open>A null table is \<open>None\<close>; the outer option of a result is a failed dereference.\<close>

definition zhash_table_insert :: "(PHashTableNode heap \<Rightarrow> ppointer) \<Rightarrow> PHashTableNode heap \<Rightarrow>
    PHashTable option \<Rightarrow> ppointer \<Rightarrow> ppointer \<Rightarrow> (PHashTableNode heap \<times> PHashTable option) option" where
  "zhash_table_insert alloc h tp key v =
     (case tp of
        None \<Rightarrow> Some (h, tp)
      | Some t \<Rightarrow>
          let i = pzhash_table_calc_hash key (ht_size t) in
          Option.bind (pzhash_table_find_node h t key i) (\<lambda>node.
            if node = NULL then
              let nw = alloc h in
              if nw = NULL then Some (h, tp)
              else Option.bind (bucket t i) (\<lambda>first.
                Some (h(nw := Some \<lparr>ht_next = first, ht_key = key, ht_value = v\<rparr>), Some (set_bucket t i nw)))
            else Option.bind (h node) (\<lambda>n. Some (h(node := Some (n\<lparr>ht_value := v\<rparr>)), tp))))"

definition zhash_table_lookup :: "PHashTableNode heap \<Rightarrow> PHashTable option \<Rightarrow> ppointer \<Rightarrow> ppointer option" where
  "zhash_table_lookup h tp key =
     (case tp of
        None \<Rightarrow> Some NULL
      | Some t \<Rightarrow>
          Option.bind (pzhash_table_find_node h t key (pzhash_table_calc_hash key (ht_size t))) (\<lambda>node.
            if node = NULL then Some (- 1) else map_option ht_value (h node)))"

text \<open>The walk of one chain that appends to a list what \<open>f\<close> selects from each node.\<close>

partial_function (option) collect_chain :: "(PList heap \<Rightarrow> ppointer) \<Rightarrow> (PHashTableNode \<Rightarrow> ppointer option) \<Rightarrow>
    PHashTableNode heap \<Rightarrow> ppointer \<Rightarrow> PList heap \<times> ppointer \<Rightarrow> (PList heap \<times> ppointer) option" where
  "collect_chain alloc f h node s =
     (if node = NULL then Some s
      else case h node of
        None \<Rightarrow> None
      | Some n \<Rightarrow>
          (case f n of
             None \<Rightarrow> collect_chain alloc f h (ht_next n) s
           | Some d \<Rightarrow>
               (case zlist_append alloc (fst s) (snd s) d of
                  None \<Rightarrow> None
                | Some s' \<Rightarrow> collect_chain alloc f h (ht_next n) s')))"

text \<open>The outer loop \<^verbatim>\<open>for (i = 0; i < table->size; ++i)\<close>, from \<open>i\<close> on.\<close>

function collect_table :: "(PList heap \<Rightarrow> ppointer) \<Rightarrow> (PHashTableNode \<Rightarrow> ppointer option) \<Rightarrow>
    PHashTableNode heap \<Rightarrow> PHashTable \<Rightarrow> nat \<Rightarrow> PList heap \<times> ppointer \<Rightarrow> (PList heap \<times> ppointer) option" where
  "collect_table alloc f h t i s =
     (if i < unat (ht_size t) then
        Option.bind (bucket t (of_nat i)) (\<lambda>node.
          Option.bind (collect_chain alloc f h node s) (collect_table alloc f h t (i + 1)))
      else Some s)"
  by pat_completeness auto

termination
  by (relation "measure (\<lambda>(alloc, f, h, t, i, s). unat (ht_size t) - i)") auto

definition zhash_table_keys :: "(PList heap \<Rightarrow> ppointer) \<Rightarrow> PHashTableNode heap \<Rightarrow> PHashTable option \<Rightarrow> PList heap \<Rightarrow>
    (PList heap \<times> ppointer) option" where
  "zhash_table_keys alloc h tp lh =
     (case tp of None \<Rightarrow> Some (lh, NULL) | Some t \<Rightarrow> collect_table alloc (Some \<circ> ht_key) h t 0 (lh, NULL))"

definition zhash_table_values :: "(PList heap \<Rightarrow> ppointer) \<Rightarrow> PHashTableNode heap \<Rightarrow> PHashTable option \<Rightarrow> PList heap \<Rightarrow>
    (PList heap \<times> ppointer) option" where
  "zhash_table_values alloc h tp lh =
     (case tp of None \<Rightarrow> Some (lh, NULL) | Some t \<Rightarrow> collect_table alloc (Some \<circ> ht_value) h t 0 (lh, NULL))"

definition zhash_table_lookuzby_value :: "(PList heap \<Rightarrow> ppointer) \<Rightarrow> PHashTableNode heap \<Rightarrow> PHashTable option \<Rightarrow>
    ppointer \<Rightarrow> (ppointer \<Rightarrow> ppointer \<Rightarrow> pint) option \<Rightarrow> PList heap \<Rightarrow> (PList heap \<times> ppointer) option" where
  "zhash_table_lookuzby_value alloc h tp val func lh =
     (case tp of
        None \<Rightarrow> Some (lh, NULL)
      | Some t \<Rightarrow>
          collect_table alloc
            (\<lambda>n. let res = (case func of None \<Rightarrow> ht_value n = val | Some f \<Rightarrow> f (ht_value n) val = 0)
                 in if res then Some (ht_key n) else None)
            h t 0 (lh, NULL))"

partial_function (option) free_chain :: "PHashTableNode heap \<Rightarrow> ppointer \<Rightarrow> PHashTableNode heap option" where
  "free_chain h node =
     (if node = NULL then Some h
      else case h node of
        None \<Rightarrow> None
      | Some n \<Rightarrow> free_chain (h(node := None)) (ht_next n))"

function free_table :: "PHashTableNode heap \<Rightarrow> PHashTable \<Rightarrow> nat \<Rightarrow> PHashTableNode heap option" where
  "free_table h t i =
     (if i < unat (ht_size t) then
        Option.bind (bucket t (of_nat i)) (\<lambda>node.
          Option.bind (free_chain h node) (\<lambda>h'. free_table h' t (i + 1)))
      else Some h)"
  by pat_completeness auto

termination
  by (relation "measure (\<lambda>(h, t, i). unat (ht_size t) - i)") auto

declare collect_table.simps [simp del] free_table.simps [simp del]

text \<open>The array and the object are freed as well.\<close>

definition zhash_table_free :: "PHashTableNode heap \<Rightarrow> PHashTable option \<Rightarrow> PHashTableNode heap option" where
  "zhash_table_free h tp = (case tp of None \<Rightarrow> Some h | Some t \<Rightarrow> free_table h t 0)"

partial_function (option) remove_node_loop :: "PHashTableNode heap \<Rightarrow> PHashTable \<Rightarrow> puint32 \<Rightarrow> ppointer \<Rightarrow>
    ppointer \<Rightarrow> ppointer \<Rightarrow> (PHashTableNode heap \<times> PHashTable) option" where
  "remove_node_loop h t i key prev node =
     (if node = NULL then Some (h, t)
      else case h node of
        None \<Rightarrow> None
      | Some n \<Rightarrow>
          (if ht_key n = key then
             (if prev = NULL then Some (h(node := None), set_bucket t i (ht_next n))
              else case h prev of
                None \<Rightarrow> None
              | Some pn \<Rightarrow> Some (h(prev := Some (pn\<lparr>ht_next := ht_next n\<rparr>), node := None), t))
           else remove_node_loop h t i key node (ht_next n)))"

definition zhash_table_remove :: "PHashTableNode heap \<Rightarrow> PHashTable option \<Rightarrow> ppointer \<Rightarrow>
    (PHashTableNode heap \<times> PHashTable option) option" where
  "zhash_table_remove h tp key =
     (case tp of
        None \<Rightarrow> Some (h, tp)
      | Some t \<Rightarrow>
          let i = pzhash_table_calc_hash key (ht_size t) in
          Option.bind (pzhash_table_find_node h t key i) (\<lambda>found.
            if found \<noteq> NULL then
              Option.bind (bucket t i) (\<lambda>node.
                map_option (\<lambda>(h', t'). (h', Some t')) (remove_node_loop h t i key NULL node))
            else Some (h, tp)))"

section \<open>The chains of a table\<close>

interpretation hn: linked_node ht_next "\<lambda>q n. n\<lparr>ht_next := q\<rparr>" "\<lambda>n. (ht_key n, ht_value n)"
  by unfold_locales simp_all

definition bucket_of :: "ppointer \<Rightarrow> nat" where
  "bucket_of key = unat (pzhash_table_calc_hash key (of_nat P_HASH_TABLE_SIZE))"

lemma bucket_of_less: "bucket_of key < 101"
proof -
  let ?x = "(scast ((ucast key :: 32 word) + 37) :: psize) mod 101"
  have "unat ?x < 101"
    by (simp add: unat_mod)
  then have "unat (ucast ?x :: puint32) < 101"
    by (simp add: unsigned_ucast_eq take_bit_eq_mod)
  then show ?thesis
    by (simp add: bucket_of_def pzhash_table_calc_hash_def P_HASH_TABLE_SIZE_def)
qed

text \<open>
  \<open>ht_at h t frame kvs\<close>: the table holds in bucket \<open>i\<close> the pairs \<open>kvs i\<close>, each key in the
  bucket of its hash and once, and the heap holds beside its nodes exactly \<open>frame\<close>.
\<close>

definition kvs_ok :: "(nat \<Rightarrow> (ppointer \<times> ppointer) list) \<Rightarrow> bool" where
  "kvs_ok kvs \<longleftrightarrow> (\<forall>i < 101. distinct (map fst (kvs i)) \<and> (\<forall>k \<in> fst ` set (kvs i). bucket_of k = i))"

definition ht_rep :: "PHashTableNode heap \<Rightarrow> PHashTable \<Rightarrow> PHashTableNode heap \<Rightarrow>
    (nat \<Rightarrow> (ppointer \<times> ppointer) list) \<Rightarrow> (nat \<Rightarrow> ppointer list) \<Rightarrow> bool" where
  "ht_rep h t frame kvs pss \<longleftrightarrow> length (ht_table t) = 101 \<and> ht_size t = 101 \<and> kvs_ok kvs \<and>
     (\<forall>i < 101. hn.chain h (ht_table t ! i) (pss i) \<and> hn.items h (pss i) = kvs i) \<and>
     (\<forall>i < 101. \<forall>j < 101. i \<noteq> j \<longrightarrow> set (pss i) \<inter> set (pss j) = {}) \<and>
     (\<forall>q. frame q = (if \<exists>i < 101. q \<in> set (pss i) then None else h q))"

definition ht_at :: "PHashTableNode heap \<Rightarrow> PHashTable \<Rightarrow> PHashTableNode heap \<Rightarrow>
    (nat \<Rightarrow> (ppointer \<times> ppointer) list) \<Rightarrow> bool" where
  "ht_at h t frame kvs \<longleftrightarrow> (\<exists>pss. ht_rep h t frame kvs pss)"

definition ht_map :: "(nat \<Rightarrow> (ppointer \<times> ppointer) list) \<Rightarrow> ppointer \<rightharpoonup> ppointer" where
  "ht_map kvs k = map_of (kvs (bucket_of k)) k"

text \<open>A change of one bucket.\<close>

lemma ht_rep_change:
  assumes rep: "ht_rep h t frame kvs pss" and i: "unat i < 101"
    and new: "hn.chain h' p' ps'" "hn.items h' ps' = kv'"
    and same: "\<And>q. q \<notin> set (pss (unat i)) \<Longrightarrow> q \<notin> set ps' \<Longrightarrow> h' q = h q"
    and freed: "\<And>q. q \<in> set (pss (unat i)) \<Longrightarrow> q \<notin> set ps' \<Longrightarrow> h' q = None"
    and fresh: "\<And>q. q \<in> set ps' \<Longrightarrow> q \<notin> set (pss (unat i)) \<Longrightarrow> h q = None"
    and ok: "kvs_ok (kvs(unat i := kv'))"
  shows "ht_rep h' (set_bucket t i p') frame (kvs(unat i := kv')) (pss(unat i := ps'))"
proof -
  let ?i = "unat i"
  have tab: "length (ht_table t) = 101" "ht_size t = 101"
    and ch: "\<And>j. j < 101 \<Longrightarrow> hn.chain h (ht_table t ! j) (pss j) \<and> hn.items h (pss j) = kvs j"
    and dis: "\<And>j k. j < 101 \<Longrightarrow> k < 101 \<Longrightarrow> j \<noteq> k \<Longrightarrow> set (pss j) \<inter> set (pss k) = {}"
    and fr: "\<And>q. frame q = (if \<exists>j < 101. q \<in> set (pss j) then None else h q)"
    using rep unfolding ht_rep_def by blast+
  have live: "h q \<noteq> None" if "j < 101" "q \<in> set (pss j)" for j q
    using ch[OF that(1)] hn.chain_live[of h _ "pss j" q] that(2) by blast
  have apart: "set (pss j) \<inter> set ps' = {}" if "j < 101" "j \<noteq> ?i" for j
    using fresh live[OF that(1)] dis[OF that(1) i that(2)] by fastforce
  have keep: "h' q = h q" if "j < 101" "j \<noteq> ?i" "q \<in> set (pss j)" for j q
    using same[of q] apart[OF that(1,2)] dis[OF that(1) i that(2)] that(3) by blast
  have "hn.chain h' ((ht_table t)[?i := p'] ! j) ((pss(?i := ps')) j) \<and>
      hn.items h' ((pss(?i := ps')) j) = (kvs(?i := kv')) j" if "j < 101" for j
    using that tab i new ch[OF that] keep[OF that] hn.chain_cong[of "pss j" h' h] hn.items_cong[of "pss j" h' h]
    by (cases "j = ?i") auto
  moreover have "set ((pss(?i := ps')) j) \<inter> set ((pss(?i := ps')) k) = {}" if "j < 101" "k < 101" "j \<noteq> k" for j k
    using that dis[OF that] apart[of j] apart[of k] by auto
  moreover have "frame q = (if \<exists>j < 101. q \<in> set ((pss(?i := ps')) j) then None else h' q)" for q
  proof (cases "\<exists>j < 101. j \<noteq> ?i \<and> q \<in> set (pss j)")
    case True
    then show ?thesis using fr[of q] by auto
  next
    case False
    then have ex: "(\<exists>j < 101. q \<in> set (pss j)) \<longleftrightarrow> q \<in> set (pss ?i)"
      "(\<exists>j < 101. q \<in> set ((pss(?i := ps')) j)) \<longleftrightarrow> q \<in> set ps'"
      using i by (auto split: if_splits)
    show ?thesis
      unfolding fr[of q] ex using same[of q] freed[of q] fresh[of q] by auto
  qed
  ultimately show ?thesis
    using tab ok by (simp add: ht_rep_def set_bucket_def)
qed

lemma find_node_chain:
  assumes "hn.chain h p ps"
  shows "(key \<notin> fst ` set (hn.items h ps) \<and> find_node_loop h key p = Some NULL) \<or>
    (\<exists>qs a rs n. ps = qs @ a # rs \<and> a \<noteq> NULL \<and> h a = Some n \<and> ht_key n = key \<and>
       key \<notin> fst ` set (hn.items h qs) \<and> find_node_loop h key p = Some a)"
  using assms
proof (induction ps arbitrary: p)
  case Nil
  then show ?case by (subst find_node_loop.simps) simp
next
  case (Cons a ps)
  then obtain n where n: "p = a" "a \<noteq> NULL" "h a = Some n" "hn.chain h (ht_next n) ps" by (auto simp: hn.chain_Cons)
  show ?case
  proof (cases "ht_key n = key")
    case True
    with n have "find_node_loop h key p = Some a" by (subst find_node_loop.simps) simp
    with True n have "a # ps = [] @ a # ps \<and> a \<noteq> NULL \<and> h a = Some n \<and> ht_key n = key \<and>
       key \<notin> fst ` set (hn.items h []) \<and> find_node_loop h key p = Some a" by simp
    then show ?thesis by blast
  next
    case False
    with n have run: "find_node_loop h key p = find_node_loop h key (ht_next n)"
      by (subst find_node_loop.simps) simp
    from Cons.IH[OF n(4)] show ?thesis
    proof (elim disjE exE)
      fix qs b rs m
      assume "ps = qs @ b # rs \<and> b \<noteq> NULL \<and> h b = Some m \<and> ht_key m = key \<and>
        key \<notin> fst ` set (hn.items h qs) \<and> find_node_loop h key (ht_next n) = Some b"
      then have "a # ps = (a # qs) @ b # rs \<and> b \<noteq> NULL \<and> h b = Some m \<and> ht_key m = key \<and>
        key \<notin> fst ` set (hn.items h (a # qs)) \<and> find_node_loop h key p = Some b"
        using False n run by auto
      then show ?thesis by blast
    qed (use False n run in auto)
  qed
qed

text \<open>What a call finds in the table of a key.\<close>

lemma ht_find_cases:
  fixes key :: ppointer
  assumes "ht_rep h t frame kvs pss"
  defines "i \<equiv> pzhash_table_calc_hash key (ht_size t)"
  obtains (absent) "unat i = bucket_of key" "bucket t i = Some (ht_table t ! bucket_of key)"
      "pzhash_table_find_node h t key i = Some NULL" "key \<notin> fst ` set (kvs (bucket_of key))"
    | (present) qs a rs n where "unat i = bucket_of key" "bucket t i = Some (ht_table t ! bucket_of key)"
      "pzhash_table_find_node h t key i = Some a" "a \<noteq> NULL" "pss (bucket_of key) = qs @ a # rs" "h a = Some n"
      "ht_key n = key" "kvs (bucket_of key) = hn.items h qs @ (key, ht_value n) # hn.items h rs"
      "key \<notin> fst ` set (hn.items h qs)" "key \<notin> fst ` set (hn.items h rs)"
proof -
  let ?i = "bucket_of key"
  have less: "?i < 101" by (rule bucket_of_less)
  have tab: "length (ht_table t) = 101" "ht_size t = 101"
    and ch: "hn.chain h (ht_table t ! ?i) (pss ?i)" "hn.items h (pss ?i) = kvs ?i"
    and dist: "distinct (map fst (kvs ?i))"
    using assms(1) less unfolding ht_rep_def kvs_ok_def by blast+
  have i: "unat i = ?i" by (simp add: i_def bucket_of_def tab P_HASH_TABLE_SIZE_def)
  then have b: "bucket t i = Some (ht_table t ! ?i)" using tab less by (simp add: bucket_def)
  then have f: "pzhash_table_find_node h t key i = find_node_loop h key (ht_table t ! ?i)"
    by (simp add: pzhash_table_find_node_def)
  from find_node_chain[OF ch(1), of key] show thesis
  proof (elim disjE exE)
    fix qs a rs n
    assume *: "pss ?i = qs @ a # rs \<and> a \<noteq> NULL \<and> h a = Some n \<and> ht_key n = key \<and>
      key \<notin> fst ` set (hn.items h qs) \<and> find_node_loop h key (ht_table t ! ?i) = Some a"
    then have kv: "kvs ?i = hn.items h qs @ (key, ht_value n) # hn.items h rs" using ch(2) by auto
    then have "key \<notin> fst ` set (hn.items h rs)" using dist by auto
    then show thesis using * kv i b f by (intro present[of a qs rs n]) simp_all
  qed (use i b f absent ch(2) in auto)
qed

definition ht_put :: "ppointer \<Rightarrow> ppointer \<Rightarrow> (ppointer \<times> ppointer) list \<Rightarrow> (ppointer \<times> ppointer) list" where
  "ht_put k v kv = (if k \<in> fst ` set kv then map (\<lambda>p. if fst p = k then (k, v) else p) kv else (k, v) # kv)"

lemma ht_put_split:
  "k \<notin> fst ` set xs \<Longrightarrow> k \<notin> fst ` set ys \<Longrightarrow> ht_put k v (xs @ (k, w) # ys) = xs @ (k, v) # ys"
  by (auto simp: ht_put_def image_iff intro!: map_idI)

lemma ht_filter_split:
  fixes xs ys :: "('a \<times> 'b) list"
  shows
  "k \<notin> fst ` set xs \<Longrightarrow> k \<notin> fst ` set ys \<Longrightarrow> filter (\<lambda>p. fst p \<noteq> k) (xs @ (k, w) # ys) = xs @ ys"
proof -
  have "filter (\<lambda>p. fst p \<noteq> k) zs = zs" if "k \<notin> fst ` set zs" for zs :: "('a \<times> 'b) list"
    using that by (auto simp: filter_id_conv)
  then show "k \<notin> fst ` set xs \<Longrightarrow> k \<notin> fst ` set ys \<Longrightarrow> filter (\<lambda>p. fst p \<noteq> k) (xs @ (k, w) # ys) = xs @ ys"
    by simp
qed

lemma ht_put_keys: "fst ` set (ht_put k v kv) = insert k (fst ` set kv)"
proof -
  have "fst ` set (map (\<lambda>p. if fst p = k then (k, v) else p) kv) = fst ` set kv"
    by (induction kv) auto
  then show ?thesis unfolding ht_put_def by (simp only: split: if_split) auto
qed

lemma ht_put_map_of: "map_of (ht_put k v kv) = (map_of kv)(k \<mapsto> v)"
proof -
  have "map_of (map (\<lambda>p. if fst p = k then (k, v) else p) kv) x = (if x = k \<and> k \<in> fst ` set kv then Some v else map_of kv x)" for x
  proof (induction kv)
    case (Cons p kv)
    then show ?case by (cases p) (auto simp: image_iff, fastforce)
  qed simp
  then show ?thesis by (auto simp: ht_put_def fun_eq_iff)
qed

lemma distinct_ht_put: "distinct (map fst kv) \<Longrightarrow> distinct (map fst (ht_put k v kv))"
proof -
  have "map fst (map (\<lambda>p. if fst p = k then (k, v) else p) kv) = map fst kv" by auto
  then show "distinct (map fst kv) \<Longrightarrow> distinct (map fst (ht_put k v kv))"
    unfolding ht_put_def by (simp only: split: if_split) auto
qed

lemma kvs_ok_put: "kvs_ok kvs \<Longrightarrow> kvs_ok (kvs(bucket_of k := ht_put k v (kvs (bucket_of k))))"
proof -
  assume ok: "kvs_ok kvs"
  then have "\<forall>x \<in> fst ` set (ht_put k v (kvs (bucket_of k))). bucket_of x = bucket_of k"
    using bucket_of_less[of k] unfolding ht_put_keys kvs_ok_def by blast
  then show "kvs_ok (kvs(bucket_of k := ht_put k v (kvs (bucket_of k))))"
    using ok unfolding kvs_ok_def by (simp add: distinct_ht_put)
qed

lemma kvs_ok_filter: "kvs_ok kvs \<Longrightarrow> kvs_ok (kvs(bucket_of k := filter (\<lambda>p. fst p \<noteq> k) (kvs (bucket_of k))))"
  using bucket_of_less[of k] by (auto simp: kvs_ok_def distinct_map_filter)

lemma ht_map_put: "ht_map (kvs(bucket_of k := ht_put k v (kvs (bucket_of k)))) = (ht_map kvs)(k \<mapsto> v)"
  by (auto simp: ht_map_def ht_put_map_of fun_eq_iff)

lemma map_of_filter_key: "map_of (filter (\<lambda>p. fst p \<noteq> k) kv) = (map_of kv)(k := None)"
  by (induction kv) (auto simp: fun_eq_iff)

lemma ht_map_filter:
  "ht_map (kvs(bucket_of k := filter (\<lambda>p. fst p \<noteq> k) (kvs (bucket_of k)))) = (ht_map kvs)(k := None)"
  by (auto simp: ht_map_def map_of_filter_key fun_eq_iff)

section \<open>The operations on a table\<close>

lemma ht_rep_bucket_ok:
  "ht_rep h t frame kvs pss \<Longrightarrow> hn.chain h (ht_table t ! bucket_of k) (pss (bucket_of k)) \<and>
     hn.items h (pss (bucket_of k)) = kvs (bucket_of k) \<and> kvs_ok kvs \<and> length (ht_table t) = 101"
  using bucket_of_less[of k] by (simp add: ht_rep_def)

lemma insert_rep:
  fixes key :: ppointer
  assumes "good_alloc alloc" "ht_rep h t frame kvs pss"
  defines "full \<equiv> key \<notin> fst ` set (kvs (bucket_of key)) \<and> alloc h = NULL"
  shows "\<exists>h' t'. zhash_table_insert alloc h (Some t) key v = Some (h', Some t') \<and>
    ht_at h' t' frame (if full then kvs else kvs(bucket_of key := ht_put key v (kvs (bucket_of key))))"
  using assms(2)
proof (cases rule: ht_find_cases[where key = key])
  case absent
  let ?i = "pzhash_table_calc_hash key (ht_size t)" and ?nw = "alloc h"
  show ?thesis
  proof (cases "?nw = NULL")
    case True
    with absent assms(2) show ?thesis
      by (auto simp: zhash_table_insert_def full_def ht_at_def)
  next
    case False
    let ?n = "\<lparr>ht_next = ht_table t ! bucket_of key, ht_key = key, ht_value = v\<rparr>"
    have fresh: "h ?nw = None" using good_allocD[OF assms(1) False] .
    note b = ht_rep_bucket_ok[OF assms(2), of key]
    have nin: "?nw \<notin> set (pss (bucket_of key))"
      using b hn.chain_live fresh by blast
    have ch: "hn.chain (h(?nw := Some ?n)) ?nw (?nw # pss (bucket_of key))"
      using b nin False by (simp add: hn.chain_Cons hn.chain_frame)
    have put: "ht_put key v (kvs (bucket_of key)) = (key, v) # kvs (bucket_of key)"
      using absent(4) by (simp add: ht_put_def)
    have "ht_rep (h(?nw := Some ?n)) (set_bucket t ?i ?nw) frame
        (kvs(unat ?i := ht_put key v (kvs (bucket_of key)))) (pss(unat ?i := ?nw # pss (bucket_of key)))"
    proof (rule ht_rep_change[OF assms(2) _ ch])
      show "hn.items (h(?nw := Some ?n)) (?nw # pss (bucket_of key)) = ht_put key v (kvs (bucket_of key))"
        using b nin by (simp add: hn.items_frame put)
      show "kvs_ok (kvs(unat ?i := ht_put key v (kvs (bucket_of key))))"
        using kvs_ok_put[of kvs key v] b absent(1) by simp
    qed (use absent(1) bucket_of_less[of key] fresh in auto)
    then show ?thesis
      using absent False unfolding ht_at_def zhash_table_insert_def full_def by (auto simp: Let_def)
  qed
next
  case (present qs a rs n)
  let ?i = "pzhash_table_calc_hash key (ht_size t)" and ?n = "n\<lparr>ht_value := v\<rparr>"
  note b = ht_rep_bucket_ok[OF assms(2), of key]
  have dist: "distinct (qs @ a # rs)" using b hn.chain_distinct present(5) by metis
  have ch: "hn.chain (h(a := Some ?n)) (ht_table t ! bucket_of key) (pss (bucket_of key))"
    using b present(6) by (intro hn.chain_same_next[of h a n]) simp_all
  have put: "ht_put key v (kvs (bucket_of key)) = hn.items h qs @ (key, v) # hn.items h rs"
    unfolding present(8) by (rule ht_put_split) (use present in auto)
  have "ht_rep (h(a := Some ?n)) (set_bucket t ?i (ht_table t ! bucket_of key)) frame
      (kvs(unat ?i := ht_put key v (kvs (bucket_of key)))) (pss(unat ?i := pss (bucket_of key)))"
  proof (rule ht_rep_change[OF assms(2) _ ch])
    show "hn.items (h(a := Some ?n)) (pss (bucket_of key)) = ht_put key v (kvs (bucket_of key))"
      using dist present(5,7) by (simp add: put hn.items_frame)
    show "kvs_ok (kvs(unat ?i := ht_put key v (kvs (bucket_of key))))"
      using kvs_ok_put[of kvs key v] b present(1) by simp
  qed (use present(1,5) bucket_of_less[of key] in auto)
  moreover have "set_bucket t ?i (ht_table t ! bucket_of key) = t"
    using present(1) by (simp add: set_bucket_def)
  moreover have "\<not> full" using present(8) by (simp add: full_def)
  ultimately show ?thesis
    using present unfolding ht_at_def zhash_table_insert_def by (auto simp: Let_def)
qed

lemma lookup_rep:
  assumes "ht_rep h t frame kvs pss"
  shows "zhash_table_lookup h (Some t) key = Some (case ht_map kvs key of None \<Rightarrow> - 1 | Some v \<Rightarrow> v)"
  using assms
proof (cases rule: ht_find_cases[where key = key])
  case absent
  then have "ht_map kvs key = None" by (simp add: ht_map_def map_of_eq_None_iff)
  with absent show ?thesis by (simp add: zhash_table_lookup_def)
next
  case (present qs a rs n)
  then have "map_of (hn.items h qs) key = None" by (simp add: map_of_eq_None_iff)
  then have "ht_map kvs key = Some (ht_value n)" using present(8) by (simp add: ht_map_def map_add_def)
  with present show ?thesis by (simp add: zhash_table_lookup_def)
qed

lemma remove_node_loop_chain:
  assumes "hn.chain h head (qs @ us @ a # rs)" "prev = (if qs = [] then NULL else last qs)"
    and "hn.chain h p (us @ a # rs)" "h a = Some n" "ht_key n = key" "key \<notin> fst ` set (hn.items h us)"
    and "hn.unlink h head (if qs @ us = [] then NULL else last (qs @ us)) a n = (h', head')"
  shows "remove_node_loop h t i key prev p = Some (h', if qs @ us = [] then set_bucket t i head' else t) \<and>
    (qs @ us \<noteq> [] \<longrightarrow> head' = head)"
  using assms
proof (induction us arbitrary: p qs prev)
  case Nil
  have p: "p = a" "a \<noteq> NULL" using Nil.prems(3) by (auto simp: hn.chain_Cons)
  show ?case
  proof (cases qs rule: rev_cases)
    case Nil': Nil
    with Nil p show ?thesis by (subst remove_node_loop.simps) (auto simp: hn.unlink_def)
  next
    case (snoc xs x)
    have "x \<noteq> NULL \<and> h x \<noteq> None" using hn.chain_live[OF Nil.prems(1), of x] snoc by simp
    with Nil p snoc show ?thesis by (subst remove_node_loop.simps) (auto simp: hn.unlink_def hn.link_def)
  qed
next
  case (Cons b us)
  then obtain m where m: "p = b" "b \<noteq> NULL" "h b = Some m" "hn.chain h (ht_next m) (us @ a # rs)"
    by (auto simp: hn.chain_Cons)
  then have "remove_node_loop h t i key prev p = remove_node_loop h t i key b (ht_next m)"
    using Cons.prems(6) by (subst remove_node_loop.simps) auto
  with Cons.IH[of "qs @ [b]" b "ht_next m"] Cons.prems m show ?case by auto
qed

lemma remove_rep:
  assumes "ht_rep h t frame kvs pss"
  shows "\<exists>h' t'. zhash_table_remove h (Some t) key = Some (h', Some t') \<and>
    ht_at h' t' frame (kvs(bucket_of key := filter (\<lambda>p. fst p \<noteq> key) (kvs (bucket_of key))))"
  using assms
proof (cases rule: ht_find_cases[where key = key])
  case absent
  then have "filter (\<lambda>p. fst p \<noteq> key) (kvs (bucket_of key)) = kvs (bucket_of key)"
    by (auto simp: filter_id_conv)
  with absent assms show ?thesis by (auto simp: zhash_table_remove_def ht_at_def)
next
  case (present qs a rs n)
  let ?i = "pzhash_table_calc_hash key (ht_size t)"
  let ?prev = "if qs = [] then NULL else last qs" and ?head = "ht_table t ! bucket_of key"
  note b = ht_rep_bucket_ok[OF assms, of key]
  have ch: "hn.chain h ?head (qs @ a # rs)" using b present(5) by simp
  obtain h' head' where un: "hn.unlink h ?head ?prev a n = (h', head')" by fastforce
  note cu = hn.chain_unlink[OF ch present(6) refl un]
  have same: "set_bucket t ?i ?head = t" using present(1) by (simp add: set_bucket_def)
  have run: "remove_node_loop h t ?i key NULL ?head = Some (h', set_bucket t ?i head')"
    using remove_node_loop_chain[of h ?head "[]" qs a rs NULL ?head n key h' head' t ?i] ch present(6,7,9) un same
    by (cases "qs = []") auto
  have fl: "filter (\<lambda>p. fst p \<noteq> key) (kvs (bucket_of key)) = hn.items h qs @ hn.items h rs"
    unfolding present(8) by (rule ht_filter_split) (use present in auto)
  have "a \<notin> set (qs @ rs)" using hn.chain_distinct[OF ch] by simp
  have "ht_rep h' (set_bucket t ?i head') frame
      (kvs(unat ?i := filter (\<lambda>p. fst p \<noteq> key) (kvs (bucket_of key)))) (pss(unat ?i := qs @ rs))"
  proof (rule ht_rep_change[OF assms _ cu(1)])
    show "hn.items h' (qs @ rs) = filter (\<lambda>p. fst p \<noteq> key) (kvs (bucket_of key))"
      using cu(2) fl by simp
    show "kvs_ok (kvs(unat ?i := filter (\<lambda>p. fst p \<noteq> key) (kvs (bucket_of key))))"
      using kvs_ok_filter[of kvs key] b present(1) by simp
  qed (use present(1,5) bucket_of_less[of key] cu(3,4) in auto)
  with run present show ?thesis
    unfolding ht_at_def zhash_table_remove_def by (auto simp: Let_def)
qed

lemma free_chain_chain:
  "hn.chain h p ps \<Longrightarrow> free_chain h p = Some (\<lambda>q. if q \<in> set ps then None else h q)"
proof (induction ps arbitrary: h p)
  case Nil
  then show ?case by (subst free_chain.simps) simp
next
  case (Cons a ps)
  then obtain n where n: "p = a" "a \<noteq> NULL" "h a = Some n" by (auto simp: hn.chain_Cons)
  have "free_chain h p = free_chain (h(a := None)) (ht_next n)"
    using n by (subst free_chain.simps) simp
  also note Cons.IH[OF hn.chain_unlink_head(1)[OF Cons.prems n(3)]]
  also have "(\<lambda>q. if q \<in> set ps then None else (h(a := None)) q) = (\<lambda>q. if q \<in> set (a # ps) then None else h q)"
    by auto
  finally show ?case .
qed

lemma bucket_nth: "length (ht_table t) = 101 \<Longrightarrow> i < 101 \<Longrightarrow> bucket t (of_nat i) = Some (ht_table t ! i)"
  by (simp add: bucket_def unsigned_of_nat take_bit_eq_mod)

lemma free_table_chains:
  assumes "length (ht_table t) = 101" "ht_size t = 101" "i \<le> 101"
    and "\<And>j. i \<le> j \<Longrightarrow> j < 101 \<Longrightarrow> hn.chain h (ht_table t ! j) (pss j)"
    and "\<And>j k. j < 101 \<Longrightarrow> k < 101 \<Longrightarrow> j \<noteq> k \<Longrightarrow> set (pss j) \<inter> set (pss k) = {}"
  shows "free_table h t i = Some (\<lambda>q. if \<exists>j. i \<le> j \<and> j < 101 \<and> q \<in> set (pss j) then None else h q)"
  using assms(3,4)
proof (induction "101 - i" arbitrary: i h)
  case 0
  then show ?case using assms(2) by (subst free_table.simps) (auto simp: fun_eq_iff)
next
  case (Suc m)
  then have i: "i < 101" by simp
  let ?h = "\<lambda>q. if q \<in> set (pss i) then None else h q"
  have "free_chain h (ht_table t ! i) = Some ?h"
    using Suc.prems(2)[of i] i by (intro free_chain_chain) simp
  then have run: "free_table h t i = free_table ?h t (i + 1)"
    using i assms(1,2) by (subst free_table.simps) (simp add: bucket_nth)
  have "hn.chain ?h (ht_table t ! j) (pss j)" if "i + 1 \<le> j" "j < 101" for j
    using Suc.prems(2)[of j] that assms(5)[of i j] i by (intro hn.chain_cong[of "pss j" ?h h]) auto
  from Suc.hyps(1)[of "i + 1" ?h, OF _ _ this] Suc.hyps(2) i
  have "free_table ?h t (i + 1) = Some (\<lambda>q. if \<exists>j. i + 1 \<le> j \<and> j < 101 \<and> q \<in> set (pss j) then None else ?h q)"
    by simp
  also have "(\<lambda>q. if \<exists>j. i + 1 \<le> j \<and> j < 101 \<and> q \<in> set (pss j) then None else ?h q) =
      (\<lambda>q. if \<exists>j. i \<le> j \<and> j < 101 \<and> q \<in> set (pss j) then None else h q)"
  proof
    fix q
    have "(\<exists>j. i \<le> j \<and> j < 101 \<and> q \<in> set (pss j)) \<longleftrightarrow>
        q \<in> set (pss i) \<or> (\<exists>j. i + 1 \<le> j \<and> j < 101 \<and> q \<in> set (pss j))"
      using i by (metis Suc_eq_plus1 Suc_leD le_refl not_less_eq_eq order_antisym)
    then show "(if \<exists>j. i + 1 \<le> j \<and> j < 101 \<and> q \<in> set (pss j) then None else ?h q) =
        (if \<exists>j. i \<le> j \<and> j < 101 \<and> q \<in> set (pss j) then None else h q)" by auto
  qed
  finally show ?case using run by simp
qed

lemma free_rep:
  assumes "ht_rep h t frame kvs pss"
  shows "zhash_table_free h (Some t) = Some frame"
proof -
  have "free_table h t 0 = Some (\<lambda>q. if \<exists>j. 0 \<le> j \<and> j < 101 \<and> q \<in> set (pss j) then None else h q)"
    using assms unfolding ht_rep_def by (intro free_table_chains) auto
  moreover have "frame = (\<lambda>q. if \<exists>j < 101. q \<in> set (pss j) then None else h q)"
    using assms unfolding ht_rep_def by blast
  ultimately show ?thesis by (simp add: zhash_table_free_def)
qed

text \<open>
  C5: the hash table is a map from keys to values. On a well-formed table an insertion changes
  the map at the key (or nothing, when a new node is needed and there is no memory), a
  removal deletes the key, a lookup returns the value or -1, and freeing releases exactly
  the nodes of the table; every call ends without touching a dead node or leaving the array,
  and the rest of the heap stays as it is.
\<close>

theorem hash_table_refines_map:
  assumes "good_alloc alloc" "ht_at h t frame kvs"
  shows "(\<exists>h' t' kvs'. zhash_table_insert alloc h (Some t) k v = Some (h', Some t') \<and> ht_at h' t' frame kvs' \<and>
      ht_map kvs' = (if ht_map kvs k = None \<and> alloc h = NULL then ht_map kvs else (ht_map kvs)(k \<mapsto> v))) \<and>
    (\<exists>h' t' kvs'. zhash_table_remove h (Some t) k = Some (h', Some t') \<and> ht_at h' t' frame kvs' \<and>
      ht_map kvs' = (ht_map kvs)(k := None)) \<and>
    zhash_table_lookup h (Some t) k = Some (case ht_map kvs k of None \<Rightarrow> - 1 | Some w \<Rightarrow> w) \<and>
    zhash_table_free h (Some t) = Some frame"
proof -
  obtain pss where rep: "ht_rep h t frame kvs pss" using assms(2) by (auto simp: ht_at_def)
  have absent: "ht_map kvs k = None \<longleftrightarrow> k \<notin> fst ` set (kvs (bucket_of k))"
    by (simp add: ht_map_def map_of_eq_None_iff)
  have "\<exists>h' t' kvs'. zhash_table_insert alloc h (Some t) k v = Some (h', Some t') \<and> ht_at h' t' frame kvs' \<and>
      ht_map kvs' = (if ht_map kvs k = None \<and> alloc h = NULL then ht_map kvs else (ht_map kvs)(k \<mapsto> v))"
    using insert_rep[OF assms(1) rep, of k v] ht_map_put[of kvs k v] unfolding absent by (auto split: if_splits)
  moreover have "\<exists>h' t' kvs'. zhash_table_remove h (Some t) k = Some (h', Some t') \<and> ht_at h' t' frame kvs' \<and>
      ht_map kvs' = (ht_map kvs)(k := None)"
    using remove_rep[OF rep, of k] ht_map_filter[of kvs k] by blast
  ultimately show ?thesis
    using lookup_rep[OF rep] free_rep[OF rep] by blast
qed

lemma ht_at_new: "zhash_table_new True True = Some t \<Longrightarrow> ht_at h t h (\<lambda>_. [])"
  by (auto simp: zhash_table_new_def ht_at_def ht_rep_def kvs_ok_def P_HASH_TABLE_SIZE_def intro!: exI[of _ "\<lambda>_. []"])

theorem hash_table_refines_map_witness:
  "\<exists>h t. zhash_table_insert alloc_three Map.empty (zhash_table_new True True) 5 9 = Some (h, Some t) \<and>
     zhash_table_lookup h (Some t) 5 = Some 9 \<and> zhash_table_lookup h (Some t) 106 = Some (- 1)"
proof -
  obtain t where t: "zhash_table_new True True = Some t" by (simp add: zhash_table_new_def)
  note at = ht_at_new[OF t, of Map.empty]
  obtain h t' kvs' where ins: "zhash_table_insert alloc_three Map.empty (Some t) 5 9 = Some (h, Some t')"
    "ht_at h t' Map.empty kvs'" "ht_map kvs' = (ht_map (\<lambda>_. []))(5 \<mapsto> 9)"
    using hash_table_refines_map[OF good_alloc_three at, of 5 9] by (auto simp: alloc_three_def)
  have "ht_map kvs' 5 = Some 9" "ht_map kvs' 106 = None" unfolding ins(3) by (simp_all add: ht_map_def)
  with ins t hash_table_refines_map[OF good_alloc_three ins(2)] show ?thesis by auto
qed

section \<open>Listings\<close>

text \<open>An allocator that serves at least \<open>N\<close> nodes.\<close>

definition alloc_capacity :: "('n heap \<Rightarrow> ppointer) \<Rightarrow> nat \<Rightarrow> bool" where
  "alloc_capacity alloc N \<longleftrightarrow> (\<forall>h. finite (dom h) \<and> card (dom h) < N \<longrightarrow> alloc h \<noteq> NULL)"

lemma alloc_capacity_three: "alloc_capacity (alloc_three :: 'n heap \<Rightarrow> ppointer) 3"
proof -
  have "\<not> {1, 2, 3} \<subseteq> dom h" if "finite (dom h)" "card (dom h) < 3" for h :: "'n heap"
    using card_mono[OF that(1), of "{1, 2, 3}"] that(2) by auto
  then show ?thesis by (auto simp: alloc_capacity_def alloc_three_def)
qed

lemma list_at_card:
  assumes "list_at h l frame xs" "finite (dom frame)"
  shows "finite (dom h)" "card (dom h) = card (dom frame) + length xs"
proof -
  obtain ps where ps: "pl.chain h l ps" "pl.items h ps = xs" and fr: "\<forall>q. frame q = (if q \<in> set ps then None else h q)"
    using assms(1) by (auto simp: list_at_def)
  have dom: "dom h = dom frame \<union> set ps"
    using fr pl.chain_live[OF ps(1)] by (auto simp: dom_def split: if_splits)
  moreover have "dom frame \<inter> set ps = {}" using fr by (auto simp: dom_def split: if_splits)
  ultimately have "card (dom h) = card (dom frame) + card (set ps)"
    using assms(2) by (simp add: card_Un_disjoint)
  then show "card (dom h) = card (dom frame) + length xs"
    using distinct_card[OF pl.chain_distinct[OF ps(1)]] ps(2) pl.length_items[of h ps] by simp
  show "finite (dom h)" using dom assms(2) by simp
qed

lemma append_at_capacity:
  assumes "good_alloc alloc" "alloc_capacity alloc N" "finite (dom frame)" "list_at h l frame xs"
    and "card (dom frame) + length xs < N"
  shows "\<exists>h' l'. zlist_append alloc h l d = Some (h', l') \<and> list_at h' l' frame (xs @ [d])"
proof -
  have "alloc h \<noteq> NULL"
    using assms(2,5) list_at_card[OF assms(4,3)] by (simp add: alloc_capacity_def)
  with append_at[OF assms(1,4), of d] show ?thesis by simp
qed

lemma map_filter_Cons: "List.map_filter g (x # xs) = (case g x of None \<Rightarrow> [] | Some y \<Rightarrow> [y]) @ List.map_filter g xs"
  by (simp add: List.map_filter_def split: option.splits)

lemma map_filter_append: "List.map_filter g (xs @ ys) = List.map_filter g xs @ List.map_filter g ys"
  by (simp add: List.map_filter_def)

lemma collect_chain_list:
  assumes "good_alloc alloc" "alloc_capacity alloc N" "finite (dom frame)"
  shows "hn.chain h p ps \<Longrightarrow> list_at lh l frame xs \<Longrightarrow>
    card (dom frame) + length xs + length (List.map_filter g (hn.items h ps)) \<le> N \<Longrightarrow>
    \<exists>lh' l'. collect_chain alloc (\<lambda>n. g (ht_key n, ht_value n)) h p (lh, l) = Some (lh', l') \<and>
      list_at lh' l' frame (xs @ List.map_filter g (hn.items h ps))"
proof (induction ps arbitrary: p lh l xs)
  case Nil
  then show ?case by (subst collect_chain.simps) (simp add: List.map_filter_def)
next
  case (Cons a ps)
  then obtain n where n: "p = a" "a \<noteq> NULL" "h a = Some n" "hn.chain h (ht_next n) ps" by (auto simp: hn.chain_Cons)
  show ?case
  proof (cases "g (ht_key n, ht_value n)")
    case None
    with n Cons.IH[OF n(4) Cons.prems(2)] Cons.prems(3) show ?thesis
      by (subst collect_chain.simps) (simp add: map_filter_Cons)
  next
    case (Some d)
    then have "card (dom frame) + length xs < N" using Cons.prems(3) n by (simp add: map_filter_Cons)
    from append_at_capacity[OF assms Cons.prems(2) this, of d] obtain lh1 l1 where
      one: "zlist_append alloc lh l d = Some (lh1, l1)" "list_at lh1 l1 frame (xs @ [d])" by blast
    with n Some Cons.IH[OF n(4) one(2)] Cons.prems(3) show ?thesis
      by (subst collect_chain.simps) (simp add: map_filter_Cons)
  qed
qed

lemma collect_table_list:
  assumes "good_alloc alloc" "alloc_capacity alloc N" "finite (dom frame)"
    and "length (ht_table t) = 101" "ht_size t = 101"
    and "\<And>j. j < 101 \<Longrightarrow> hn.chain h (ht_table t ! j) (pss j) \<and> hn.items h (pss j) = kvs j"
  shows "i \<le> 101 \<Longrightarrow> list_at lh l frame xs \<Longrightarrow>
    card (dom frame) + length xs + length (List.map_filter g (concat (map kvs [i..<101]))) \<le> N \<Longrightarrow>
    \<exists>lh' l'. collect_table alloc (\<lambda>n. g (ht_key n, ht_value n)) h t i (lh, l) = Some (lh', l') \<and>
      list_at lh' l' frame (xs @ List.map_filter g (concat (map kvs [i..<101])))"
proof (induction "101 - i" arbitrary: i lh l xs)
  case 0
  then show ?case using assms(5) by (subst collect_table.simps) (simp add: List.map_filter_def)
next
  case (Suc m)
  then have i: "i < 101" by simp
  then have split: "concat (map kvs [i..<101]) = kvs i @ concat (map kvs [i + 1..<101])"
    by (simp add: upt_conv_Cons)
  note ch = assms(6)[OF i]
  have "card (dom frame) + length xs + length (List.map_filter g (hn.items h (pss i))) \<le> N"
    using Suc.prems(3) ch unfolding split by (simp add: map_filter_append)
  from collect_chain_list[OF assms(1-3) conjunct1[OF ch] Suc.prems(2) this] obtain lh1 l1 where
    one: "collect_chain alloc (\<lambda>n. g (ht_key n, ht_value n)) h (ht_table t ! i) (lh, l) = Some (lh1, l1)"
      "list_at lh1 l1 frame (xs @ List.map_filter g (kvs i))" using ch by auto
  have run: "collect_table alloc (\<lambda>n. g (ht_key n, ht_value n)) h t i (lh, l) =
      collect_table alloc (\<lambda>n. g (ht_key n, ht_value n)) h t (i + 1) (lh1, l1)"
    using i one(1) assms(4,5) by (subst collect_table.simps) (simp add: bucket_nth)
  show ?case
    using Suc.hyps(1)[of "i + 1", OF _ _ one(2)] Suc.hyps(2) Suc.prems(3) i
    unfolding split run by (simp add: map_filter_append)
qed

lemma concat_kvs_map:
  assumes "kvs_ok kvs"
  shows "distinct (map fst (concat (map kvs [0..<101])))" "map_of (concat (map kvs [0..<101])) = ht_map kvs"
proof -
  have ok: "distinct (map fst (kvs i))" "\<And>k. k \<in> fst ` set (kvs i) \<Longrightarrow> bucket_of k = i" if "i < 101" for i
    using assms that unfolding kvs_ok_def by blast+
  have "distinct (map fst (concat (map kvs [0..<n]))) \<and>
      (\<forall>k. map_of (concat (map kvs [0..<n])) k = (if bucket_of k < n then ht_map kvs k else None))" if "n \<le> 101" for n
    using that
  proof (induction n)
    case (Suc n)
    have keys: "fst ` set (concat (map kvs [0..<n])) \<subseteq> {k. bucket_of k < n}"
    proof
      fix k
      assume "k \<in> fst ` set (concat (map kvs [0..<n]))"
      then obtain p where "p \<in> set (concat (map kvs [0..<n]))" "k = fst p" by blast
      then obtain i where "i < n" "k \<in> fst ` set (kvs i)" by auto
      with ok(2)[of i k] Suc.prems show "k \<in> {k. bucket_of k < n}" by simp
    qed
    have last: "map_of (kvs n) k = (if bucket_of k = n then ht_map kvs k else None)" for k
      using ok(2)[of n k] Suc.prems by (auto simp: ht_map_def map_of_eq_None_iff)
    have "distinct (map fst (concat (map kvs [0..<Suc n])))"
      using Suc keys ok[of n] by (auto simp: image_iff)
    moreover have "map_of (concat (map kvs [0..<Suc n])) k = (if bucket_of k < Suc n then ht_map kvs k else None)" for k
      using Suc last[of k] by (auto simp: map_add_def split: option.splits)
    ultimately show ?case by blast
  qed simp
  from this[of 101] bucket_of_less show "distinct (map fst (concat (map kvs [0..<101])))"
    "map_of (concat (map kvs [0..<101])) = ht_map kvs" by (auto simp: fun_eq_iff)
qed

lemma map_filter_Some: "List.map_filter (\<lambda>x. Some (f x)) xs = map f xs"
  by (induction xs) (simp_all add: List.map_filter_def)

lemma map_filter_if: "List.map_filter (\<lambda>x. if P x then Some (f x) else None) xs = map f (filter P xs)"
  by (induction xs) (simp_all add: List.map_filter_def)

text \<open>
  With memory for the nodes, the listings of a table are new lists that hold each key of
  the map once, the values in the same order, and the keys whose value is the given one
  (or equal to it by the comparison function). The pairs \<open>kv\<close> are the association list of
  the map.
\<close>

theorem hash_table_listings:
  assumes "good_alloc alloc" "alloc_capacity alloc N" "finite (dom lh)" "ht_at h t frame kvs"
    and "card (dom lh) + length (concat (map kvs [0..<101])) \<le> N"
  shows "\<exists>kv. distinct (map fst kv) \<and> map_of kv = ht_map kvs \<and>
    (\<exists>lh' l. zhash_table_keys alloc h (Some t) lh = Some (lh', l) \<and> list_at lh' l lh (map fst kv)) \<and>
    (\<exists>lh' l. zhash_table_values alloc h (Some t) lh = Some (lh', l) \<and> list_at lh' l lh (map snd kv)) \<and>
    (\<exists>lh' l. zhash_table_lookuzby_value alloc h (Some t) val func lh = Some (lh', l) \<and>
       list_at lh' l lh (map fst (filter (\<lambda>p. case func of None \<Rightarrow> snd p = val | Some f \<Rightarrow> f (snd p) val = 0) kv)))"
proof -
  obtain pss where rep: "ht_rep h t frame kvs pss" using assms(4) by (auto simp: ht_at_def)
  define kv where "kv = concat (map kvs [0..<101])"
  have empty: "list_at lh NULL lh []" by (simp add: list_at_def)
  have ok: "kvs_ok kvs" and tab: "length (ht_table t) = 101" "ht_size t = 101"
    and ch: "\<And>j. j < 101 \<Longrightarrow> hn.chain h (ht_table t ! j) (pss j) \<and> hn.items h (pss j) = kvs j"
    using rep unfolding ht_rep_def by blast+
  have run: "\<exists>lh' l. collect_table alloc (\<lambda>n. g (ht_key n, ht_value n)) h t 0 (lh, NULL) = Some (lh', l) \<and>
      list_at lh' l lh (List.map_filter g kv)" for g
  proof -
    have "length (List.map_filter g kv) \<le> length kv" by (simp add: List.map_filter_def)
    then show ?thesis
      using collect_table_list[where t = t and h = h and frame = lh and i = 0, OF assms(1-3) tab ch _ empty, of g] assms(5)
      by (simp add: kv_def)
  qed
  have "(\<exists>lh' l. zhash_table_keys alloc h (Some t) lh = Some (lh', l) \<and> list_at lh' l lh (map fst kv))"
    using run[of "\<lambda>p. Some (fst p)"] by (simp add: zhash_table_keys_def o_def map_filter_Some)
  moreover have "(\<exists>lh' l. zhash_table_values alloc h (Some t) lh = Some (lh', l) \<and> list_at lh' l lh (map snd kv))"
    using run[of "\<lambda>p. Some (snd p)"] by (simp add: zhash_table_values_def o_def map_filter_Some)
  moreover have "(\<exists>lh' l. zhash_table_lookuzby_value alloc h (Some t) val func lh = Some (lh', l) \<and>
       list_at lh' l lh (map fst (filter (\<lambda>p. case func of None \<Rightarrow> snd p = val | Some f \<Rightarrow> f (snd p) val = 0) kv)))"
    using run[of "\<lambda>p. if case func of None \<Rightarrow> snd p = val | Some f \<Rightarrow> f (snd p) val = 0 then Some (fst p) else None",
        unfolded fst_conv snd_conv]
    by (simp add: zhash_table_lookuzby_value_def Let_def map_filter_if)
  ultimately show ?thesis
    using concat_kvs_map[OF ok] unfolding kv_def[symmetric] by blast
qed

theorem hash_table_listings_witness:
  "\<exists>lh l. zhash_table_keys alloc_three Map.empty (zhash_table_new True True) Map.empty = Some (lh, l) \<and> list_at lh l Map.empty []"
proof -
  obtain t where t: "zhash_table_new True True = Some t" by (simp add: zhash_table_new_def)
  have cap: "finite (dom (Map.empty :: PList heap))"
    "card (dom (Map.empty :: PList heap)) + length (concat (map (\<lambda>_. [] :: (ppointer \<times> ppointer) list) [0..<101])) \<le> 3"
    by (simp_all add: concat_eq_Nil_conv[THEN iffD2])
  obtain kv lh l where kv: "map_of kv = ht_map (\<lambda>_. [])"
    and run: "zhash_table_keys alloc_three Map.empty (Some t) Map.empty = Some (lh, l)" "list_at lh l Map.empty (map fst kv)"
    using hash_table_listings[OF good_alloc_three alloc_capacity_three cap(1) ht_at_new[OF t] cap(2)] by blast
  have "map_of kv = Map.empty" unfolding kv by (simp add: ht_map_def fun_eq_iff)
  then have "kv = []" by simp
  with run t show ?thesis by auto
qed

end
