(* ===== verification/PString.thy ===== *)
theory PString
  imports Main
begin

text \<open>
  The string functions of \<^verbatim>\<open>src/src/lib/pstring.c\<close>. A C string is the list of its characters
  before the terminating zero; a null pointer is \<open>None\<close>. The flag \<open>mem\<close> is the outcome of an
  allocation.
\<close>

section \<open>Characters\<close>

text \<open>\<^verbatim>\<open>isspace\<close> and \<^verbatim>\<open>isdigit\<close> of the C locale.\<close>

definition isspace :: "char \<Rightarrow> bool" where
  "isspace c \<longleftrightarrow> (let n = of_char c :: nat in n = 32 \<or> (9 \<le> n \<and> n \<le> 13))"

definition isdigit :: "char \<Rightarrow> bool" where
  "isdigit c \<longleftrightarrow> (let n = of_char c :: nat in 48 \<le> n \<and> n \<le> 57)"

text \<open>The C string at the start of a buffer.\<close>

definition c_string :: "string \<Rightarrow> string" where
  "c_string s = takeWhile (\<lambda>c. c \<noteq> CHR 0x00) s"

section \<open>Copying and trimming\<close>

definition zstrdup :: "bool \<Rightarrow> string option \<Rightarrow> string option" where
  "zstrdup mem str = (case str of None \<Rightarrow> None | Some s \<Rightarrow> if \<not> mem then None else Some s)"

text \<open>The two loops; the pointer is the string at the position.\<close>

function chomp_start :: "string \<Rightarrow> int \<Rightarrow> int \<Rightarrow> int" where
  "chomp_start s pos_start pos_end =
     (if pos_start < pos_end \<and> isspace (s ! nat pos_start) then chomp_start s (pos_start + 1) pos_end else pos_start)"
  by pat_completeness auto

termination
  by (relation "measure (\<lambda>(s, a, b). nat (b - a))") auto

function chomp_end :: "string \<Rightarrow> int \<Rightarrow> int" where
  "chomp_end s pos_end =
     (if pos_end > 0 \<and> isspace (s ! nat pos_end) then chomp_end s (pos_end - 1) else pos_end)"
  by pat_completeness auto

termination
  by (relation "measure (\<lambda>(s, b). nat b)") auto

declare chomp_start.simps [simp del] chomp_end.simps [simp del]

definition zstrchomp :: "bool \<Rightarrow> string option \<Rightarrow> string option" where
  "zstrchomp mem str =
     (case str of
        None \<Rightarrow> None
      | Some s \<Rightarrow>
          let pos_end0 = int (length s) - 1;
              pos_start = chomp_start s 0 pos_end0;
              pos_end = chomp_end s pos_end0
          in if pos_end < pos_start then zstrdup mem (Some '''')
             else if pos_end = pos_start \<and> isspace (s ! nat pos_end) then zstrdup mem (Some '''')
             else let str_len = nat (pos_end - pos_start + 2)
                  in if \<not> mem then None else Some (take (str_len - 1) (drop (nat pos_start) s)))"

section \<open>Tokens\<close>

text \<open>
  \<^verbatim>\<open>zstrtok\<close> on a system with \<^verbatim>\<open>strtok_r\<close>: delimiters are skipped, the token goes up to the next
  delimiter, and what follows that is kept in \<open>buf\<close> for the next call with a null string. A
  result is the returned string and the new contents of \<open>buf\<close>.
\<close>

definition strtok_r :: "string option \<Rightarrow> string \<Rightarrow> string option \<Rightarrow> string option \<times> string option" where
  "strtok_r str delim save =
     (case (case str of Some s \<Rightarrow> Some s | None \<Rightarrow> save) of
        None \<Rightarrow> (None, None)
      | Some s \<Rightarrow>
          let s1 = dropWhile (\<lambda>c. c \<in> set delim) s
          in if s1 = [] then (None, None)
             else let tok = takeWhile (\<lambda>c. c \<notin> set delim) s1; rest = dropWhile (\<lambda>c. c \<notin> set delim) s1
                  in (Some tok, if rest = [] then None else Some (tl rest)))"

text \<open>The outer option of \<open>buf\<close> is the null pointer to pointer.\<close>

definition zstrtok :: "string option \<Rightarrow> string option \<Rightarrow> string option option \<Rightarrow> string option \<times> string option option" where
  "zstrtok str delim bf =
     (case delim of
        None \<Rightarrow> (str, bf)
      | Some d \<Rightarrow>
          (case bf of
             None \<Rightarrow> (str, bf)
           | Some save \<Rightarrow> let (r, save') = strtok_r str d save in (r, Some save')))"

section \<open>Trimming\<close>

definition trim :: "string \<Rightarrow> string" where
  "trim s = rev (dropWhile isspace (rev (dropWhile isspace s)))"

lemma trim_unique:
  assumes "\<forall>c \<in> set a. isspace c" "\<forall>c \<in> set e. isspace c" "b = [] \<or> (\<not> isspace (hd b) \<and> \<not> isspace (last b))"
  shows "trim (a @ b @ e) = b"
proof (cases "b = []")
  case True
  with assms have "\<forall>c \<in> set (a @ b @ e). isspace c" by auto
  then have dw: "dropWhile isspace (a @ b @ e) = []" by (simp only: dropWhile_eq_Nil_conv)
  show ?thesis unfolding trim_def dw using True by simp
next
  case False
  then obtain c b' where b: "b = c # b'" by (cases b) auto
  have "dropWhile isspace (a @ b @ e) = b @ e"
    using assms b by (simp add: dropWhile_append2)
  moreover have "dropWhile isspace (rev (b @ e)) = rev b"
  proof -
    have "dropWhile isspace (rev e @ rev b) = dropWhile isspace (rev b)"
      using assms(2) by (intro dropWhile_append2) auto
    moreover have "dropWhile isspace (rev b) = rev b"
      using assms(3) False by (cases b rule: rev_cases) auto
    ultimately show ?thesis by simp
  qed
  ultimately show ?thesis by (simp add: trim_def)
qed

lemma chomp_start_spec:
  "0 \<le> i \<Longrightarrow> i \<le> e \<Longrightarrow> i \<le> chomp_start s i e \<and> chomp_start s i e \<le> e \<and>
   (\<forall>k. i \<le> k \<and> k < chomp_start s i e \<longrightarrow> isspace (s ! nat k)) \<and>
   (chomp_start s i e = e \<or> \<not> isspace (s ! nat (chomp_start s i e)))"
proof (induction s i e rule: chomp_start.induct)
  case (1 s i e)
  show ?case
  proof (cases "i < e \<and> isspace (s ! nat i)")
    case True
    then have eq: "chomp_start s i e = chomp_start s (i + 1) e" by (subst chomp_start.simps) simp
    have IH: "i + 1 \<le> chomp_start s (i + 1) e \<and> chomp_start s (i + 1) e \<le> e \<and>
       (\<forall>k. i + 1 \<le> k \<and> k < chomp_start s (i + 1) e \<longrightarrow> isspace (s ! nat k)) \<and>
       (chomp_start s (i + 1) e = e \<or> \<not> isspace (s ! nat (chomp_start s (i + 1) e)))"
      using "1.IH"[OF True] True "1.prems" by simp
    have "isspace (s ! nat k)" if "i \<le> k" "k < chomp_start s (i + 1) e" for k
      using IH that True by (cases "k = i") auto
    with IH show ?thesis unfolding eq by auto
  next
    case False
    then have "chomp_start s i e = i" by (subst chomp_start.simps) auto
    with False "1.prems" show ?thesis by auto
  qed
qed

lemma chomp_end_spec:
  "0 \<le> e \<Longrightarrow> 0 \<le> chomp_end s e \<and> chomp_end s e \<le> e \<and>
   (\<forall>k. chomp_end s e < k \<and> k \<le> e \<longrightarrow> isspace (s ! nat k)) \<and>
   (chomp_end s e = 0 \<or> \<not> isspace (s ! nat (chomp_end s e)))"
proof (induction s e rule: chomp_end.induct)
  case (1 s e)
  show ?case
  proof (cases "e > 0 \<and> isspace (s ! nat e)")
    case True
    then have eq: "chomp_end s e = chomp_end s (e - 1)" by (subst chomp_end.simps) simp
    have IH: "0 \<le> chomp_end s (e - 1) \<and> chomp_end s (e - 1) \<le> e - 1 \<and>
       (\<forall>k. chomp_end s (e - 1) < k \<and> k \<le> e - 1 \<longrightarrow> isspace (s ! nat k)) \<and>
       (chomp_end s (e - 1) = 0 \<or> \<not> isspace (s ! nat (chomp_end s (e - 1))))"
      using "1.IH"[OF True] True "1.prems" by simp
    have "isspace (s ! nat k)" if "chomp_end s (e - 1) < k" "k \<le> e" for k
      using IH that True by (cases "k = e") auto
    with IH show ?thesis unfolding eq by auto
  next
    case False
    then have "chomp_end s e = e" by (subst chomp_end.simps) auto
    with False "1.prems" show ?thesis by auto
  qed
qed

lemma trim_all_space: "\<forall>k < length s. isspace (s ! k) \<Longrightarrow> trim s = []"
  using trim_unique[of s "[]" "[]"] by (simp add: all_set_conv_all_nth)

text \<open>What the loops leave is the trimmed string.\<close>

lemma zstrchomp_trim: "zstrchomp True (Some s) = Some (trim s)"
proof (cases "s = []")
  case True
  then show ?thesis by (simp add: zstrchomp_def zstrdup_def trim_def chomp_start.simps[of _ 0] chomp_end.simps[of _ "- 1"])
next
  case False
  let ?l = "int (length s) - 1"
  have l: "0 \<le> ?l" using False by (cases s) auto
  obtain P where P: "chomp_start s 0 ?l = int P"
    using chomp_start_spec[of 0 ?l s] l by (metis nat_eq_iff2 order.refl)
  obtain E where E: "chomp_end s ?l = int E"
    using chomp_end_spec[of ?l s] l by (metis nat_eq_iff2)
  note cs = chomp_start_spec[of 0 ?l s, unfolded P]
  note ce = chomp_end_spec[of ?l s, unfolded E]
  have p: "P < length s" "P = length s - 1 \<or> \<not> isspace (s ! P)" "\<And>k. k < P \<Longrightarrow> isspace (s ! k)"
  proof -
    show "P < length s" "P = length s - 1 \<or> \<not> isspace (s ! P)" using cs l by auto
    show "isspace (s ! k)" if "k < P" for k
      using cs l that by (auto dest: spec[of _ "int k"])
  qed
  have e: "E < length s" "E = 0 \<or> \<not> isspace (s ! E)" "\<And>k. E < k \<Longrightarrow> k < length s \<Longrightarrow> isspace (s ! k)"
  proof -
    show "E < length s" "E = 0 \<or> \<not> isspace (s ! E)" using ce l by auto
    show "isspace (s ! k)" if "E < k" "k < length s" for k
    proof -
      have "int E < int k \<and> int k \<le> ?l" using that by simp
      then show ?thesis using ce l by (metis nat_int)
    qed
  qed
  show ?thesis
  proof (cases "E < P \<or> (E = P \<and> isspace (s ! E))")
    case True
    have "isspace (s ! k)" if "k < length s" for k
      using True p(3)[of k] e(3)[of k] e(2) p(3)[of E] that by (cases "k < P"; cases "k = E") auto
    then have "trim s = []" by (intro trim_all_space) simp
    with True show ?thesis by (auto simp: zstrchomp_def zstrdup_def P E Let_def)
  next
    case False
    have ne: "\<not> isspace (s ! P)" using False p e by (cases "P = length s - 1") auto
    have ee: "\<not> isspace (s ! E)" using False e(2) ne by (cases "E = 0") auto
    let ?b = "take (E - P + 1) (drop P s)"
    have PE: "P \<le> E" using False by simp
    have b: "?b \<noteq> []" "hd ?b = s ! P" "last ?b = s ! E"
      using PE e(1) p(1) by (auto simp: hd_drop_conv_nth last_conv_nth nth_take)
    have "drop (E - P + 1) (drop P s) = drop (E + 1) s" using PE by simp
    then have s: "s = take P s @ ?b @ drop (E + 1) s" by (metis append_take_drop_id)
    have "trim s = ?b"
      by (subst s, rule trim_unique) (use p(3) e(3) e(1) b ne ee in \<open>auto simp: in_set_conv_nth\<close>)
    moreover have "nat (int E - int P + 2) - 1 = E - P + 1" using PE by simp
    ultimately show ?thesis using False PE by (auto simp: zstrchomp_def P E Let_def)
  qed
qed

text \<open>
  \<^verbatim>\<open>zstrchomp\<close> returns a copy of the string without the white space at its two ends, the empty
  string for a string of white space only, and null for null or without memory.
\<close>

theorem zstrchomp_trims:
  "zstrchomp True (Some s) = Some (trim s) \<and> zstrchomp mem None = None \<and> zstrchomp False (Some s) = None"
  using zstrchomp_trim by (simp add: zstrchomp_def zstrdup_def Let_def)

section \<open>Splitting into tokens\<close>

text \<open>The usual loop over the tokens of a string; \<open>None\<close> is a loop that does not end.\<close>

partial_function (option) tok_loop :: "string \<Rightarrow> string option \<Rightarrow> string option option \<Rightarrow> string list option" where
  "tok_loop d str bf =
     (case zstrtok str (Some d) bf of
        (None, _) \<Rightarrow> Some []
      | (Some t, bf') \<Rightarrow> Option.bind (tok_loop d None bf') (\<lambda>ts. Some (t # ts)))"

text \<open>The pieces of a string between its delimiters.\<close>

fun split_on :: "char set \<Rightarrow> string \<Rightarrow> string list" where
  "split_on d [] = [[]]"
| "split_on d (c # s) =
     (if c \<in> d then [] # split_on d s else (c # hd (split_on d s)) # tl (split_on d s))"

lemma split_on_ne [simp]: "split_on d s \<noteq> []"
  by (cases s) simp_all

lemma split_on_delims: "\<forall>c \<in> set a. c \<in> d \<Longrightarrow> filter (\<lambda>w. w \<noteq> []) (split_on d (a @ s)) = filter (\<lambda>w. w \<noteq> []) (split_on d s)"
  by (induction a) simp_all

lemma split_on_token: "\<forall>c \<in> set t. c \<notin> d \<Longrightarrow> split_on d (t @ s) = (t @ hd (split_on d s)) # tl (split_on d s)"
  by (induction t) simp_all

lemma tok_loop_split: "tok_loop d None (Some (Some s)) = Some (filter (\<lambda>w. w \<noteq> []) (split_on (set d) s))"
proof (induction s rule: length_induct)
  case (1 s)
  define s1 where "s1 = dropWhile (\<lambda>c. c \<in> set d) s"
  have s: "s = takeWhile (\<lambda>c. c \<in> set d) s @ s1" by (simp add: s1_def)
  have split: "filter (\<lambda>w. w \<noteq> []) (split_on (set d) s) = filter (\<lambda>w. w \<noteq> []) (split_on (set d) s1)"
    by (subst s) (rule split_on_delims, auto dest: set_takeWhileD)
  show ?case
  proof (cases "s1 = []")
    case True
    then show ?thesis
      using split by (subst tok_loop.simps) (simp add: zstrtok_def strtok_r_def flip: s1_def)
  next
    case False
    define t rest where "t = takeWhile (\<lambda>c. c \<notin> set d) s1" and "rest = dropWhile (\<lambda>c. c \<notin> set d) s1"
    have s1: "s1 = t @ rest" by (simp add: t_def rest_def)
    have t: "\<forall>c \<in> set t. c \<notin> set d" by (auto simp: t_def dest: set_takeWhileD)
    have "t \<noteq> []" using False hd_dropWhile[of "\<lambda>c. c \<in> set d" s] by (auto simp: t_def s1_def takeWhile_eq_Nil_iff)
    have call: "zstrtok None (Some d) (Some (Some s)) = (Some t, Some (if rest = [] then None else Some (tl rest)))"
      using False by (simp add: zstrtok_def strtok_r_def t_def rest_def flip: s1_def)
    show ?thesis
    proof (cases rest)
      case Nil
      have "tok_loop d None (Some None) = Some []"
        by (subst tok_loop.simps) (simp add: zstrtok_def strtok_r_def)
      moreover have "split_on (set d) s1 = [t]" using split_on_token[OF t, of "[]"] s1 Nil by simp
      ultimately show ?thesis using split call Nil \<open>t \<noteq> []\<close> by (subst tok_loop.simps) simp
    next
      case (Cons c s2)
      have "c \<in> set d" using Cons by (simp add: rest_def dropWhile_eq_Cons_conv)
      then have sp: "split_on (set d) s1 = t # split_on (set d) s2"
        using split_on_token[OF t, of "c # s2"] s1 Cons by simp
      have "length s2 < length s" using arg_cong[OF s, of length] s1 Cons by simp
      with "1.IH" have "tok_loop d None (Some (Some s2)) = Some (filter (\<lambda>w. w \<noteq> []) (split_on (set d) s2))" by blast
      then show ?thesis using split call Cons sp \<open>t \<noteq> []\<close> by (subst tok_loop.simps) simp
    qed
  qed
qed

text \<open>
  The loop of \<^verbatim>\<open>zstrtok\<close> calls on a string ends and gives its non-empty pieces between
  delimiters, in order; without delimiters or without a buffer a call returns its argument.
\<close>

theorem zstrtok_tokens:
  "tok_loop d (Some s) (Some None) = Some (filter (\<lambda>w. w \<noteq> []) (split_on (set d) s)) \<and>
   zstrtok str None bf = (str, bf) \<and> zstrtok str (Some d) None = (str, None)"
proof -
  have "zstrtok (Some s) (Some d) (Some None) = zstrtok None (Some d) (Some (Some s))"
    by (simp add: zstrtok_def strtok_r_def)
  then have "tok_loop d (Some s) (Some None) = tok_loop d None (Some (Some s))"
    by (subst (1 2) tok_loop.simps) simp
  then show ?thesis by (simp add: tok_loop_split zstrtok_def)
qed

end
