(* ===== verification/PError.thy ===== *)
theory PError
  imports Plibsys_Prelude PString
begin

text \<open>
  Errors, \<^verbatim>\<open>src/src/lib/perror.c\<close> on a POSIX system: the error codes of the library with their domains,
  the tables from the error numbers of the system, and the error object. The numbers of \<^verbatim>\<open>errno.h\<close>
  are a parameter, since each system has its own and not every system has all of them. The
  flags \<open>mem\<close> and \<open>str_mem\<close> are the outcomes of the allocations of an object and of its message.
\<close>

section \<open>Codes\<close>

definition P_ERROR_DOMAIN_NONE :: int where "P_ERROR_DOMAIN_NONE = 0"

definition P_ERROR_DOMAIN_IO :: int where "P_ERROR_DOMAIN_IO = 500"

definition P_ERROR_DOMAIN_IPC :: int where "P_ERROR_DOMAIN_IPC = 600"

definition P_ERROR_IO_NONE :: int where "P_ERROR_IO_NONE = 500"

definition P_ERROR_IO_NO_RESOURCES :: int where "P_ERROR_IO_NO_RESOURCES = 501"

definition P_ERROR_IO_NOT_AVAILABLE :: int where "P_ERROR_IO_NOT_AVAILABLE = 502"

definition P_ERROR_IO_ACCESS_DENIED :: int where "P_ERROR_IO_ACCESS_DENIED = 503"

definition P_ERROR_IO_CONNECTED :: int where "P_ERROR_IO_CONNECTED = 504"

definition P_ERROR_IO_IN_PROGRESS :: int where "P_ERROR_IO_IN_PROGRESS = 505"

definition P_ERROR_IO_ABORTED :: int where "P_ERROR_IO_ABORTED = 506"

definition P_ERROR_IO_INVALID_ARGUMENT :: int where "P_ERROR_IO_INVALID_ARGUMENT = 507"

definition P_ERROR_IO_NOT_SUPPORTED :: int where "P_ERROR_IO_NOT_SUPPORTED = 508"

definition P_ERROR_IO_TIMED_OUT :: int where "P_ERROR_IO_TIMED_OUT = 509"

definition P_ERROR_IO_WOULD_BLOCK :: int where "P_ERROR_IO_WOULD_BLOCK = 510"

definition P_ERROR_IO_ADDRESS_IN_USE :: int where "P_ERROR_IO_ADDRESS_IN_USE = 511"

definition P_ERROR_IO_CONNECTION_REFUSED :: int where "P_ERROR_IO_CONNECTION_REFUSED = 512"

definition P_ERROR_IO_NOT_CONNECTED :: int where "P_ERROR_IO_NOT_CONNECTED = 513"

definition P_ERROR_IO_QUOTA :: int where "P_ERROR_IO_QUOTA = 514"

definition P_ERROR_IO_IS_DIRECTORY :: int where "P_ERROR_IO_IS_DIRECTORY = 515"

definition P_ERROR_IO_NOT_DIRECTORY :: int where "P_ERROR_IO_NOT_DIRECTORY = 516"

definition P_ERROR_IO_NAMETOOLONG :: int where "P_ERROR_IO_NAMETOOLONG = 517"

definition P_ERROR_IO_EXISTS :: int where "P_ERROR_IO_EXISTS = 518"

definition P_ERROR_IO_NOT_EXISTS :: int where "P_ERROR_IO_NOT_EXISTS = 519"

definition P_ERROR_IO_NO_MORE :: int where "P_ERROR_IO_NO_MORE = 520"

definition P_ERROR_IO_NOT_IMPLEMENTED :: int where "P_ERROR_IO_NOT_IMPLEMENTED = 521"

definition P_ERROR_IO_FAILED :: int where "P_ERROR_IO_FAILED = 522"

definition P_ERROR_IPC_NONE :: int where "P_ERROR_IPC_NONE = 600"

definition P_ERROR_IPC_ACCESS :: int where "P_ERROR_IPC_ACCESS = 601"

definition P_ERROR_IPC_EXISTS :: int where "P_ERROR_IPC_EXISTS = 602"

definition P_ERROR_IPC_NOT_EXISTS :: int where "P_ERROR_IPC_NOT_EXISTS = 603"

definition P_ERROR_IPC_NO_RESOURCES :: int where "P_ERROR_IPC_NO_RESOURCES = 604"

definition P_ERROR_IPC_OVERFLOW :: int where "P_ERROR_IPC_OVERFLOW = 605"

definition P_ERROR_IPC_NAMETOOLONG :: int where "P_ERROR_IPC_NAMETOOLONG = 606"

definition P_ERROR_IPC_INVALID_ARGUMENT :: int where "P_ERROR_IPC_INVALID_ARGUMENT = 607"

definition P_ERROR_IPC_NOT_IMPLEMENTED :: int where "P_ERROR_IPC_NOT_IMPLEMENTED = 608"

definition P_ERROR_IPC_DEADLOCK :: int where "P_ERROR_IPC_DEADLOCK = 609"

definition P_ERROR_IPC_FAILED :: int where "P_ERROR_IPC_FAILED = 610"

lemmas error_code_defs =
  P_ERROR_DOMAIN_NONE_def P_ERROR_DOMAIN_IO_def P_ERROR_DOMAIN_IPC_def P_ERROR_IO_NONE_def
  P_ERROR_IO_NO_RESOURCES_def P_ERROR_IO_NOT_AVAILABLE_def P_ERROR_IO_ACCESS_DENIED_def P_ERROR_IO_CONNECTED_def
  P_ERROR_IO_IN_PROGRESS_def P_ERROR_IO_ABORTED_def P_ERROR_IO_INVALID_ARGUMENT_def P_ERROR_IO_NOT_SUPPORTED_def
  P_ERROR_IO_TIMED_OUT_def P_ERROR_IO_WOULD_BLOCK_def P_ERROR_IO_ADDRESS_IN_USE_def
  P_ERROR_IO_CONNECTION_REFUSED_def P_ERROR_IO_NOT_CONNECTED_def P_ERROR_IO_QUOTA_def P_ERROR_IO_IS_DIRECTORY_def
  P_ERROR_IO_NOT_DIRECTORY_def P_ERROR_IO_NAMETOOLONG_def P_ERROR_IO_EXISTS_def P_ERROR_IO_NOT_EXISTS_def
  P_ERROR_IO_NO_MORE_def P_ERROR_IO_NOT_IMPLEMENTED_def P_ERROR_IO_FAILED_def P_ERROR_IPC_NONE_def
  P_ERROR_IPC_ACCESS_def P_ERROR_IPC_EXISTS_def P_ERROR_IPC_NOT_EXISTS_def P_ERROR_IPC_NO_RESOURCES_def
  P_ERROR_IPC_OVERFLOW_def P_ERROR_IPC_NAMETOOLONG_def P_ERROR_IPC_INVALID_ARGUMENT_def
  P_ERROR_IPC_NOT_IMPLEMENTED_def P_ERROR_IPC_DEADLOCK_def P_ERROR_IPC_FAILED_def

section \<open>From the error numbers of the system\<close>

text \<open>The cases of \<^verbatim>\<open>zerror_get_io_from_system\<close> in their order, by the name of the error number.\<close>

definition io_cases :: "(string \<times> int) list" where
  "io_cases =
     [(''EACCES'', P_ERROR_IO_ACCESS_DENIED),
      (''EPERM'', P_ERROR_IO_ACCESS_DENIED),
      (''ENOMEM'', P_ERROR_IO_NO_RESOURCES),
      (''ENOSR'', P_ERROR_IO_NO_RESOURCES),
      (''ENOBUFS'', P_ERROR_IO_NO_RESOURCES),
      (''ENFILE'', P_ERROR_IO_NO_RESOURCES),
      (''ENOSPC'', P_ERROR_IO_NO_RESOURCES),
      (''EMFILE'', P_ERROR_IO_NO_RESOURCES),
      (''EINVAL'', P_ERROR_IO_INVALID_ARGUMENT),
      (''EBADF'', P_ERROR_IO_INVALID_ARGUMENT),
      (''ENOTSOCK'', P_ERROR_IO_INVALID_ARGUMENT),
      (''EFAULT'', P_ERROR_IO_INVALID_ARGUMENT),
      (''EPROTOTYPE'', P_ERROR_IO_INVALID_ARGUMENT),
      (''ENOTSUP'', P_ERROR_IO_NOT_SUPPORTED),
      (''ENOPROTOOPT'', P_ERROR_IO_NOT_SUPPORTED),
      (''EPROTONOSUPPORT'', P_ERROR_IO_NOT_SUPPORTED),
      (''EAFNOSUPPORT'', P_ERROR_IO_NOT_SUPPORTED),
      (''EOPNOTSUPP'', P_ERROR_IO_NOT_SUPPORTED),
      (''EADDRNOTAVAIL'', P_ERROR_IO_NOT_AVAILABLE),
      (''ENETUNREACH'', P_ERROR_IO_NOT_AVAILABLE),
      (''ENETDOWN'', P_ERROR_IO_NOT_AVAILABLE),
      (''EHOSTDOWN'', P_ERROR_IO_NOT_AVAILABLE),
      (''ENONET'', P_ERROR_IO_NOT_AVAILABLE),
      (''EHOSTUNREACH'', P_ERROR_IO_NOT_AVAILABLE),
      (''EINPROGRESS'', P_ERROR_IO_IN_PROGRESS),
      (''EALREADY'', P_ERROR_IO_IN_PROGRESS),
      (''EISCONN'', P_ERROR_IO_CONNECTED),
      (''ECONNREFUSED'', P_ERROR_IO_CONNECTION_REFUSED),
      (''ENOTCONN'', P_ERROR_IO_NOT_CONNECTED),
      (''ECONNABORTED'', P_ERROR_IO_ABORTED),
      (''EADDRINUSE'', P_ERROR_IO_ADDRESS_IN_USE),
      (''ETIMEDOUT'', P_ERROR_IO_TIMED_OUT),
      (''EDQUOT'', P_ERROR_IO_QUOTA),
      (''EISDIR'', P_ERROR_IO_IS_DIRECTORY),
      (''ENOTDIR'', P_ERROR_IO_NOT_DIRECTORY),
      (''EEXIST'', P_ERROR_IO_EXISTS),
      (''ENOENT'', P_ERROR_IO_NOT_EXISTS),
      (''ENAMETOOLONG'', P_ERROR_IO_NAMETOOLONG),
      (''ENOSYS'', P_ERROR_IO_NOT_IMPLEMENTED),
      (''EAGAIN'', P_ERROR_IO_WOULD_BLOCK),
      (''EWOULDBLOCK'', P_ERROR_IO_WOULD_BLOCK)]"

text \<open>The cases of \<^verbatim>\<open>zerror_get_ipc_from_system\<close>.\<close>

definition ipc_cases :: "(string \<times> int) list" where
  "ipc_cases =
     [(''EACCES'', P_ERROR_IPC_ACCESS),
      (''EPERM'', P_ERROR_IPC_ACCESS),
      (''EEXIST'', P_ERROR_IPC_EXISTS),
      (''E2BIG'', P_ERROR_IPC_INVALID_ARGUMENT),
      (''EFAULT'', P_ERROR_IPC_INVALID_ARGUMENT),
      (''EFBIG'', P_ERROR_IPC_INVALID_ARGUMENT),
      (''EINVAL'', P_ERROR_IPC_INVALID_ARGUMENT),
      (''ELOOP'', P_ERROR_IPC_INVALID_ARGUMENT),
      (''ERANGE'', P_ERROR_IPC_INVALID_ARGUMENT),
      (''ENOMEM'', P_ERROR_IPC_NO_RESOURCES),
      (''EMFILE'', P_ERROR_IPC_NO_RESOURCES),
      (''ENFILE'', P_ERROR_IPC_NO_RESOURCES),
      (''ENOSPC'', P_ERROR_IPC_NO_RESOURCES),
      (''EIDRM'', P_ERROR_IPC_NOT_EXISTS),
      (''ENOENT'', P_ERROR_IPC_NOT_EXISTS),
      (''EOVERFLOW'', P_ERROR_IPC_OVERFLOW),
      (''ENOSYS'', P_ERROR_IPC_NOT_IMPLEMENTED),
      (''EDEADLK'', P_ERROR_IPC_DEADLOCK),
      (''ENAMETOOLONG'', P_ERROR_IPC_NAMETOOLONG)]"

text \<open>
  A \<^verbatim>\<open>switch\<close> over the error numbers that the system defines: \<open>sys\<close> gives the number of a name. Two
  names with one number have one result in both tables.
\<close>

definition switch_on :: "(string \<Rightarrow> int option) \<Rightarrow> (string \<times> int) list \<Rightarrow> int \<Rightarrow> int \<Rightarrow> int" where
  "switch_on sys rows dflt err_code =
     (case List.find (\<lambda>(name, r). sys name = Some err_code) rows of Some (name, r) \<Rightarrow> r | None \<Rightarrow> dflt)"

definition zerror_get_io_from_system :: "(string \<Rightarrow> int option) \<Rightarrow> int \<Rightarrow> int" where
  "zerror_get_io_from_system sys err_code =
     (if err_code = 0 then P_ERROR_IO_NONE else switch_on sys io_cases P_ERROR_IO_FAILED err_code)"

definition zerror_get_ipc_from_system :: "(string \<Rightarrow> int option) \<Rightarrow> int \<Rightarrow> int" where
  "zerror_get_ipc_from_system sys err_code =
     (if err_code = 0 then P_ERROR_IPC_NONE else switch_on sys ipc_cases P_ERROR_IPC_FAILED err_code)"

text \<open>The last error of the system is \<^verbatim>\<open>errno\<close>.\<close>

definition zerror_get_last_system :: "int \<Rightarrow> int" where
  "zerror_get_last_system errno = errno"

definition zerror_get_last_net :: "int \<Rightarrow> int" where
  "zerror_get_last_net errno = zerror_get_last_system errno"

definition zerror_get_last_io :: "(string \<Rightarrow> int option) \<Rightarrow> int \<Rightarrow> int" where
  "zerror_get_last_io sys errno = zerror_get_io_from_system sys (zerror_get_last_system errno)"

definition zerror_get_last_ipc :: "(string \<Rightarrow> int option) \<Rightarrow> int \<Rightarrow> int" where
  "zerror_get_last_ipc sys errno = zerror_get_ipc_from_system sys (zerror_get_last_system errno)"

section \<open>The error object\<close>

record PError =
  err_code :: pint
  err_native :: pint
  err_message :: "string option"

definition zerror_new :: "bool \<Rightarrow> PError option" where
  "zerror_new mem = (if \<not> mem then None else Some \<lparr>err_code = 0, err_native = 0, err_message = None\<rparr>)"

definition zerror_new_literal :: "bool \<Rightarrow> bool \<Rightarrow> pint \<Rightarrow> pint \<Rightarrow> string option \<Rightarrow> PError option" where
  "zerror_new_literal mem str_mem c n message =
     (case zerror_new mem of
        None \<Rightarrow> None
      | Some e \<Rightarrow> Some (e\<lparr>err_code := c, err_native := n, err_message := zstrdup str_mem message\<rparr>))"

definition zerror_get_message :: "PError option \<Rightarrow> string option" where
  "zerror_get_message e = (case e of None \<Rightarrow> None | Some x \<Rightarrow> err_message x)"

definition zerror_get_code :: "PError option \<Rightarrow> pint" where
  "zerror_get_code e = (case e of None \<Rightarrow> 0 | Some x \<Rightarrow> err_code x)"

definition zerror_get_native_code :: "PError option \<Rightarrow> pint" where
  "zerror_get_native_code e = (case e of None \<Rightarrow> 0 | Some x \<Rightarrow> err_native x)"

definition zerror_get_domain :: "PError option \<Rightarrow> int" where
  "zerror_get_domain e =
     (case e of
        None \<Rightarrow> P_ERROR_DOMAIN_NONE
      | Some x \<Rightarrow>
          if sint (err_code x) \<ge> P_ERROR_DOMAIN_IPC then P_ERROR_DOMAIN_IPC
          else if sint (err_code x) \<ge> P_ERROR_DOMAIN_IO then P_ERROR_DOMAIN_IO
          else P_ERROR_DOMAIN_NONE)"

definition zerror_copy :: "bool \<Rightarrow> bool \<Rightarrow> PError option \<Rightarrow> PError option" where
  "zerror_copy mem str_mem e =
     (case e of None \<Rightarrow> None | Some x \<Rightarrow> zerror_new_literal mem str_mem (err_code x) (err_native x) (err_message x))"

definition zerror_set_error :: "bool \<Rightarrow> PError option \<Rightarrow> pint \<Rightarrow> pint \<Rightarrow> string option \<Rightarrow> PError option" where
  "zerror_set_error str_mem e c n message =
     (case e of
        None \<Rightarrow> None
      | Some x \<Rightarrow> Some (x\<lparr>err_code := c, err_native := n, err_message := zstrdup str_mem message\<rparr>))"

text \<open>The pointer to a pointer: \<open>None\<close> is a null pointer, \<open>Some None\<close> points to one.\<close>

definition zerror_set_error_p ::
    "bool \<Rightarrow> bool \<Rightarrow> PError option option \<Rightarrow> pint \<Rightarrow> pint \<Rightarrow> string option \<Rightarrow> PError option option" where
  "zerror_set_error_p mem str_mem ep c n message =
     (case ep of
        None \<Rightarrow> None
      | Some (Some x) \<Rightarrow> ep
      | Some None \<Rightarrow> Some (zerror_new_literal mem str_mem c n message))"

definition zerror_set_code :: "PError option \<Rightarrow> pint \<Rightarrow> PError option" where
  "zerror_set_code e c = map_option (\<lambda>x. x\<lparr>err_code := c\<rparr>) e"

definition zerror_set_native_code :: "PError option \<Rightarrow> pint \<Rightarrow> PError option" where
  "zerror_set_native_code e n = map_option (\<lambda>x. x\<lparr>err_native := n\<rparr>) e"

definition zerror_set_message :: "bool \<Rightarrow> PError option \<Rightarrow> string option \<Rightarrow> PError option" where
  "zerror_set_message str_mem e message = map_option (\<lambda>x. x\<lparr>err_message := zstrdup str_mem message\<rparr>) e"

definition zerror_clear :: "PError option \<Rightarrow> PError option" where
  "zerror_clear e = map_option (\<lambda>x. x\<lparr>err_message := None, err_code := 0, err_native := 0\<rparr>) e"

section \<open>Properties\<close>

lemma io_cases_range: "\<forall>(name, r) \<in> set io_cases. P_ERROR_IO_NONE < r \<and> r < P_ERROR_DOMAIN_IPC"
  by code_simp

lemma ipc_cases_range: "\<forall>(name, r) \<in> set ipc_cases. P_ERROR_IPC_NONE < r \<and> r \<le> P_ERROR_IPC_FAILED"
  by code_simp

lemma find_hit: "List.find P xs = Some x \<Longrightarrow> x \<in> set xs \<and> P x"
  by (induction xs) (auto split: if_splits)

lemma switch_on_cases: "switch_on sys rows dflt c = dflt \<or> (\<exists>name. (name, switch_on sys rows dflt c) \<in> set rows \<and> sys name = Some c)"
proof (cases "List.find (\<lambda>(name, r). sys name = Some c) rows")
  case (Some p)
  with find_hit[OF Some] show ?thesis by (cases p) (auto simp: switch_on_def)
qed (simp add: switch_on_def)

lemma io_range:
  "P_ERROR_IO_NONE \<le> zerror_get_io_from_system sys c \<and> zerror_get_io_from_system sys c < P_ERROR_DOMAIN_IPC"
  "zerror_get_io_from_system sys c = P_ERROR_IO_NONE \<longleftrightarrow> c = 0"
  using switch_on_cases[of sys io_cases P_ERROR_IO_FAILED c] io_cases_range
  by (auto simp: zerror_get_io_from_system_def error_code_defs)

lemma ipc_range:
  "P_ERROR_IPC_NONE \<le> zerror_get_ipc_from_system sys c \<and> zerror_get_ipc_from_system sys c \<le> P_ERROR_IPC_FAILED"
  "zerror_get_ipc_from_system sys c = P_ERROR_IPC_NONE \<longleftrightarrow> c = 0"
  using switch_on_cases[of sys ipc_cases P_ERROR_IPC_FAILED c] ipc_cases_range
  by (auto simp: zerror_get_ipc_from_system_def error_code_defs)

lemma sint_small: "0 \<le> x \<Longrightarrow> x < 2 ^ 31 \<Longrightarrow> sint (word_of_int x :: pint) = x"
  by (simp add: signed_of_int signed_take_bit_int_eq_self)


text \<open>Some of the error numbers of Linux.\<close>

definition errno_sample :: "string \<Rightarrow> int option" where
  "errno_sample = map_of [(''EACCES'', 13), (''EAGAIN'', 11), (''EWOULDBLOCK'', 11), (''EEXIST'', 17), (''ENOENT'', 2)]"


end
