(* ===== verification/PShmBuffer.thy ===== *)
theory PShmBuffer
  imports PBytes PError
begin

text \<open>
  The ring buffer in shared memory of \<^verbatim>\<open>src/src/lib/pshmbuffer.c\<close>. The segment is an array of
  bytes that begins with the read and the write position in the byte order of the host. What
  the operations of the segment answer (its address, the lock) are parameters of a call.
  Under the lock the buffer is proved to be a bounded queue of bytes. The codes of its errors are
  those of \<open>PError\<close>.
\<close>

section \<open>Operations\<close>

record PShmBuffer =
  shm_size :: psize

text \<open>The answers of \<^verbatim>\<open>zshm_get_address\<close>, \<^verbatim>\<open>zshm_lock\<close> and \<^verbatim>\<open>zshm_unlock\<close> during a call.\<close>

record shm_call =
  addr_ok :: bool
  lock_ok :: bool
  unlock_ok :: bool

text \<open>
  What is reported: an error with its code and message, or the failure of an operation of
  the segment, which reports it itself.
\<close>

datatype shm_error = IPC_Error int string | Shm_New_Failed | Shm_Lock_Failed | Shm_Unlock_Failed

definition P_SHM_BUFFER_READ_OFFSET :: nat where
  "P_SHM_BUFFER_READ_OFFSET = 0"

definition P_SHM_BUFFER_WRITE_OFFSET :: nat where
  "P_SHM_BUFFER_WRITE_OFFSET = 8"

definition P_SHM_BUFFER_DATA_OFFSET :: nat where
  "P_SHM_BUFFER_DATA_OFFSET = 16"

definition get_pos :: "bool \<Rightarrow> puchar list \<Rightarrow> nat \<Rightarrow> psize" where
  "get_pos be m off = word_host be (take 8 (drop off m))"

definition put_pos :: "bool \<Rightarrow> puchar list \<Rightarrow> nat \<Rightarrow> psize \<Rightarrow> puchar list" where
  "put_pos be m off v = memcpy m off (bytes_host be 8 v)"

definition pzshm_buffer_get_free_space :: "bool \<Rightarrow> PShmBuffer \<Rightarrow> puchar list \<Rightarrow> psize" where
  "pzshm_buffer_get_free_space be b m =
     (let read_pos = get_pos be m P_SHM_BUFFER_READ_OFFSET;
          write_pos = get_pos be m P_SHM_BUFFER_WRITE_OFFSET
      in if write_pos < read_pos then read_pos - write_pos - 1
         else if write_pos > read_pos then shm_size b - (write_pos - read_pos) - 1
         else shm_size b - 1)"

definition pzshm_buffer_get_used_space :: "bool \<Rightarrow> PShmBuffer \<Rightarrow> puchar list \<Rightarrow> psize" where
  "pzshm_buffer_get_used_space be b m =
     (let read_pos = get_pos be m P_SHM_BUFFER_READ_OFFSET;
          write_pos = get_pos be m P_SHM_BUFFER_WRITE_OFFSET
      in if write_pos > read_pos then write_pos - read_pos
         else if write_pos < read_pos then shm_size b - (read_pos - write_pos)
         else 0)"

text \<open>
  The constructor: \<open>shm_new\<close> stands for \<^verbatim>\<open>zshm_new\<close> followed by \<^verbatim>\<open>zshm_get_size\<close>, it takes the
  requested size and gives the size of the segment.
\<close>

definition zshm_buffer_new :: "(psize \<Rightarrow> psize option) \<Rightarrow> bool \<Rightarrow> string option \<Rightarrow> psize \<Rightarrow> shm_error + PShmBuffer" where
  "zshm_buffer_new shm_new mem name sz =
     (if name = None then Inl (IPC_Error P_ERROR_IPC_INVALID_ARGUMENT ''Invalid input argument'')
      else case shm_new (if sz \<noteq> 0 then sz + of_nat P_SHM_BUFFER_DATA_OFFSET + 1 else 0) of
        None \<Rightarrow> Inl Shm_New_Failed
      | Some seg \<Rightarrow>
          if seg \<le> of_nat P_SHM_BUFFER_DATA_OFFSET + 1
          then Inl (IPC_Error P_ERROR_IPC_INVALID_ARGUMENT ''Too small memory segment to hold required data'')
          else if \<not> mem
          then Inl (IPC_Error P_ERROR_IPC_NO_RESOURCES ''Failed to allocate memory for shared buffer'')
          else Inr \<lparr>shm_size = seg - of_nat P_SHM_BUFFER_DATA_OFFSET\<rparr>)"

text \<open>
  The copying loops count with a 32-bit \<^verbatim>\<open>puint\<close>, the bound is a \<^verbatim>\<open>psize\<close>: \<open>None\<close> is a loop that
  does not end.
\<close>

partial_function (option) read_loop :: "puchar list \<Rightarrow> psize \<Rightarrow> psize \<Rightarrow> psize \<Rightarrow> puint32 \<Rightarrow> puchar list \<Rightarrow> puchar list option" where
  "read_loop m sz read_pos to_copy i storage =
     (if ucast i < to_copy
      then read_loop m sz read_pos to_copy (i + 1)
        (storage[unat i := m ! (P_SHM_BUFFER_DATA_OFFSET + unat ((read_pos + ucast i) mod sz))])
      else Some storage)"

definition zshm_buffer_read :: "bool \<Rightarrow> shm_call \<Rightarrow> PShmBuffer option \<Rightarrow> puchar list option \<Rightarrow> psize \<Rightarrow> puchar list \<Rightarrow>
    (puchar list \<times> puchar list option \<times> pint \<times> shm_error option) option" where
  "zshm_buffer_read be call bp storage len m =
     (case (bp, storage) of
        (Some b, Some st) \<Rightarrow>
          if len = 0 then Some (m, storage, - 1, Some (IPC_Error P_ERROR_IPC_INVALID_ARGUMENT ''Invalid input argument''))
          else if \<not> addr_ok call
          then Some (m, storage, - 1, Some (IPC_Error P_ERROR_IPC_INVALID_ARGUMENT ''Unable to get shared memory address''))
          else if \<not> lock_ok call then Some (m, storage, - 1, Some Shm_Lock_Failed)
          else
            let read_pos = get_pos be m P_SHM_BUFFER_READ_OFFSET;
                write_pos = get_pos be m P_SHM_BUFFER_WRITE_OFFSET
            in if read_pos = write_pos
               then (if \<not> unlock_ok call then Some (m, storage, - 1, Some Shm_Unlock_Failed)
                     else Some (m, storage, 0, None))
               else
                 let data_aval = pzshm_buffer_get_used_space be b m;
                     to_copy = (if data_aval \<le> len then data_aval else len)
                 in case read_loop m (shm_size b) read_pos to_copy 0 st of
                      None \<Rightarrow> None
                    | Some st' \<Rightarrow>
                        let m' = put_pos be m P_SHM_BUFFER_READ_OFFSET ((read_pos + to_copy) mod shm_size b)
                        in if \<not> unlock_ok call then Some (m', Some st', - 1, Some Shm_Unlock_Failed)
                           else Some (m', Some st', ucast to_copy, None)
      | _ \<Rightarrow> Some (m, storage, - 1, Some (IPC_Error P_ERROR_IPC_INVALID_ARGUMENT ''Invalid input argument'')))"

partial_function (option) write_loop :: "psize \<Rightarrow> psize \<Rightarrow> psize \<Rightarrow> puchar list \<Rightarrow> puint32 \<Rightarrow> puchar list \<Rightarrow> puchar list option" where
  "write_loop sz write_pos len data i m =
     (if ucast i < len
      then write_loop sz write_pos len data (i + 1)
        (m[P_SHM_BUFFER_DATA_OFFSET + unat ((write_pos + ucast i) mod sz) := data ! unat i])
      else Some m)"

definition zshm_buffer_write :: "bool \<Rightarrow> shm_call \<Rightarrow> PShmBuffer option \<Rightarrow> puchar list option \<Rightarrow> psize \<Rightarrow> puchar list \<Rightarrow>
    (puchar list \<times> 64 word \<times> shm_error option) option" where
  "zshm_buffer_write be call bp dp len m =
     (case (bp, dp) of
        (Some b, Some data) \<Rightarrow>
          if len = 0 then Some (m, - 1, Some (IPC_Error P_ERROR_IPC_INVALID_ARGUMENT ''Invalid input argument''))
          else if \<not> addr_ok call
          then Some (m, - 1, Some (IPC_Error P_ERROR_IPC_INVALID_ARGUMENT ''Unable to get shared memory address''))
          else if \<not> lock_ok call then Some (m, - 1, Some Shm_Lock_Failed)
          else
            let write_pos = get_pos be m P_SHM_BUFFER_WRITE_OFFSET
            in if pzshm_buffer_get_free_space be b m < len
               then (if \<not> unlock_ok call then Some (m, - 1, Some Shm_Unlock_Failed) else Some (m, 0, None))
               else
                 case write_loop (shm_size b) write_pos len data 0 m of
                   None \<Rightarrow> None
                 | Some m1 \<Rightarrow>
                     let m' = put_pos be m1 P_SHM_BUFFER_WRITE_OFFSET ((write_pos + len) mod shm_size b)
                     in if \<not> unlock_ok call then Some (m', - 1, Some Shm_Unlock_Failed)
                        else Some (m', len, None)
      | _ \<Rightarrow> Some (m, - 1, Some (IPC_Error P_ERROR_IPC_INVALID_ARGUMENT ''Invalid input argument'')))"

definition zshm_buffer_get_free_space :: "bool \<Rightarrow> shm_call \<Rightarrow> PShmBuffer option \<Rightarrow> puchar list \<Rightarrow> 64 word \<times> shm_error option" where
  "zshm_buffer_get_free_space be call bp m =
     (case bp of
        None \<Rightarrow> (- 1, Some (IPC_Error P_ERROR_IPC_INVALID_ARGUMENT ''Invalid input argument''))
      | Some b \<Rightarrow>
          if \<not> lock_ok call then (- 1, Some Shm_Lock_Failed)
          else let space = pzshm_buffer_get_free_space be b m
               in if \<not> unlock_ok call then (- 1, Some Shm_Unlock_Failed) else (space, None))"

definition zshm_buffer_get_used_space :: "bool \<Rightarrow> shm_call \<Rightarrow> PShmBuffer option \<Rightarrow> puchar list \<Rightarrow> 64 word \<times> shm_error option" where
  "zshm_buffer_get_used_space be call bp m =
     (case bp of
        None \<Rightarrow> (- 1, Some (IPC_Error P_ERROR_IPC_INVALID_ARGUMENT ''Invalid input argument''))
      | Some b \<Rightarrow>
          if \<not> lock_ok call then (- 1, Some Shm_Lock_Failed)
          else let space = pzshm_buffer_get_used_space be b m
               in if \<not> unlock_ok call then (- 1, Some Shm_Unlock_Failed) else (space, None))"

text \<open>The segment has the size that \<^verbatim>\<open>zshm_get_size\<close> reports.\<close>

definition zshm_buffer_clear :: "shm_call \<Rightarrow> PShmBuffer option \<Rightarrow> puchar list \<Rightarrow> puchar list" where
  "zshm_buffer_clear call bp m =
     (case bp of
        None \<Rightarrow> m
      | Some b \<Rightarrow>
          if \<not> addr_ok call then m
          else if \<not> lock_ok call then m
          else replicate (length m) 0)"

section \<open>The queue in the segment\<close>

definition ring_ok :: "bool \<Rightarrow> PShmBuffer \<Rightarrow> puchar list \<Rightarrow> bool" where
  "ring_ok be b m \<longleftrightarrow> 1 < unat (shm_size b) \<and> unat (shm_size b) < 2 ^ 31 \<and> length m = 16 + unat (shm_size b) \<and>
     get_pos be m 0 < shm_size b \<and> get_pos be m 8 < shm_size b"

abbreviation rd_pos :: "bool \<Rightarrow> puchar list \<Rightarrow> nat" where
  "rd_pos be m \<equiv> unat (get_pos be m 0)"

abbreviation wr_pos :: "bool \<Rightarrow> puchar list \<Rightarrow> nat" where
  "wr_pos be m \<equiv> unat (get_pos be m 8)"

definition ring_used :: "bool \<Rightarrow> PShmBuffer \<Rightarrow> puchar list \<Rightarrow> nat" where
  "ring_used be b m = (wr_pos be m + unat (shm_size b) - rd_pos be m) mod unat (shm_size b)"

definition ring_queue :: "bool \<Rightarrow> PShmBuffer \<Rightarrow> puchar list \<Rightarrow> puchar list" where
  "ring_queue be b m = map (\<lambda>i. m ! (16 + (rd_pos be m + i) mod unat (shm_size b))) [0..<ring_used be b m]"

lemmas shm_offsets = P_SHM_BUFFER_READ_OFFSET_def P_SHM_BUFFER_WRITE_OFFSET_def P_SHM_BUFFER_DATA_OFFSET_def

text \<open>Positions and data bytes are apart.\<close>

lemma get_put_pos:
  assumes "16 \<le> length m"
  shows "get_pos be (put_pos be m 0 v) 0 = v" "get_pos be (put_pos be m 8 v) 8 = v"
    "get_pos be (put_pos be m 0 v) 8 = get_pos be m 8" "get_pos be (put_pos be m 8 v) 0 = get_pos be m 0"
    "length (put_pos be m 0 v) = length m" "length (put_pos be m 8 v) = length m"
    "put_pos be m 0 v ! (16 + k) = m ! (16 + k)" "put_pos be m 8 v ! (16 + k) = m ! (16 + k)"
proof -
  have w: "word_host be (bytes_host be 8 v) = v" by (rule word_host_bytes_host) simp
  show "get_pos be (put_pos be m 0 v) 0 = v" "get_pos be (put_pos be m 8 v) 8 = v"
    "get_pos be (put_pos be m 0 v) 8 = get_pos be m 8" "get_pos be (put_pos be m 8 v) 0 = get_pos be m 0"
    "length (put_pos be m 0 v) = length m" "length (put_pos be m 8 v) = length m"
    "put_pos be m 0 v ! (16 + k) = m ! (16 + k)" "put_pos be m 8 v ! (16 + k) = m ! (16 + k)"
    using assms w by (simp_all add: get_pos_def put_pos_def memcpy_def nth_append min_def)
qed

lemma word_host_zeros: "word_host be (replicate n 0) = 0"
proof -
  have "word_le (replicate n 0) = 0" by (induction n) simp_all
  then show ?thesis by (simp add: word_host_def word_be_def)
qed

lemma get_pos_data: "get_pos be (m[16 + k := x]) 0 = get_pos be m 0" "get_pos be (m[16 + k := x]) 8 = get_pos be m 8"
  by (simp_all add: get_pos_def drop_update_swap)

section \<open>Positions modulo the size\<close>

lemma ring_facts:
  assumes "ring_ok be b m"
  shows "1 < unat (shm_size b)" "unat (shm_size b) < 2 ^ 31" "length m = 16 + unat (shm_size b)" "16 \<le> length m"
    "rd_pos be m < unat (shm_size b)" "wr_pos be m < unat (shm_size b)" "ring_used be b m < unat (shm_size b)"
    "wr_pos be m = (rd_pos be m + ring_used be b m) mod unat (shm_size b)"
proof -
  let ?S = "unat (shm_size b)" and ?r = "rd_pos be m" and ?w = "wr_pos be m"
  show S: "1 < ?S" "?S < 2 ^ 31" "length m = 16 + ?S" "16 \<le> length m" "?r < ?S" "?w < ?S"
    using assms by (simp_all add: ring_ok_def word_less_nat_alt)
  then show "ring_used be b m < ?S" by (simp add: ring_used_def)
  have "(?r + ring_used be b m) mod ?S = (?r + (?w + ?S - ?r)) mod ?S"
    by (simp add: ring_used_def mod_add_right_eq)
  also have "?r + (?w + ?S - ?r) = ?w + ?S" using S by simp
  finally show "?w = (?r + ring_used be b m) mod ?S" using S by simp
qed

lemma ring_used_value:
  assumes "ring_ok be b m"
  shows "rd_pos be m < wr_pos be m \<Longrightarrow> ring_used be b m = wr_pos be m - rd_pos be m"
    "wr_pos be m < rd_pos be m \<Longrightarrow> ring_used be b m = unat (shm_size b) - (rd_pos be m - wr_pos be m)"
proof -
  note f = ring_facts(1-6)[OF assms]
  show "ring_used be b m = wr_pos be m - rd_pos be m" if "rd_pos be m < wr_pos be m"
  proof -
    have eq: "wr_pos be m + unat (shm_size b) - rd_pos be m = (wr_pos be m - rd_pos be m) + unat (shm_size b)"
      using that by simp
    show ?thesis unfolding ring_used_def eq mod_add_self2 using f by simp
  qed
  show "ring_used be b m = unat (shm_size b) - (rd_pos be m - wr_pos be m)" if "wr_pos be m < rd_pos be m"
    using f that by (simp add: ring_used_def)
qed

lemma used_space_ring:
  assumes "ring_ok be b m"
  shows "unat (pzshm_buffer_get_used_space be b m) = ring_used be b m"
proof -
  note f = ring_facts(1-6)[OF assms]
  let ?S = "unat (shm_size b)" and ?r = "rd_pos be m" and ?w = "wr_pos be m"
  consider "?r < ?w" | "?w < ?r" | "?w = ?r" by linarith
  then show ?thesis
  proof cases
    case 1
    then have used: "ring_used be b m = ?w - ?r" by (rule ring_used_value(1)[OF assms])
    with 1 show ?thesis unfolding used
      by (simp add: pzshm_buffer_get_used_space_def shm_offsets Let_def word_less_nat_alt unat_sub word_le_nat_alt)
  next
    case 2
    then have used: "ring_used be b m = ?S - (?r - ?w)" by (rule ring_used_value(2)[OF assms])
    with 2 f show ?thesis unfolding used
      by (simp add: pzshm_buffer_get_used_space_def shm_offsets Let_def word_less_nat_alt unat_sub word_le_nat_alt)
  next
    case 3
    with f show ?thesis
      by (simp add: pzshm_buffer_get_used_space_def shm_offsets Let_def word_less_nat_alt ring_used_def)
  qed
qed

lemma free_space_ring:
  assumes "ring_ok be b m"
  shows "unat (pzshm_buffer_get_free_space be b m) = unat (shm_size b) - 1 - ring_used be b m"
proof -
  note f = ring_facts(1-6)[OF assms]
  let ?S = "unat (shm_size b)" and ?r = "rd_pos be m" and ?w = "wr_pos be m"
  have one: "unat (x - 1) = unat x - 1" if "0 < unat x" for x :: psize
    using that by (simp add: unat_sub word_le_nat_alt)
  consider "?r < ?w" | "?w < ?r" | "?w = ?r" by linarith
  then show ?thesis
  proof cases
    case 1
    then have used: "ring_used be b m = ?w - ?r" by (rule ring_used_value(1)[OF assms])
    have "unat (shm_size b - (get_pos be m 8 - get_pos be m 0)) = ?S - (?w - ?r)"
      using 1 f by (simp add: unat_sub word_le_nat_alt)
    then show ?thesis
      unfolding used using 1 f one[of "shm_size b - (get_pos be m 8 - get_pos be m 0)"]
      by (simp add: pzshm_buffer_get_free_space_def shm_offsets Let_def word_less_nat_alt)
  next
    case 2
    then have used: "ring_used be b m = ?S - (?r - ?w)" by (rule ring_used_value(2)[OF assms])
    have "unat (get_pos be m 0 - get_pos be m 8) = ?r - ?w"
      using 2 by (simp add: unat_sub word_le_nat_alt)
    then show ?thesis
      unfolding used using 2 f one[of "get_pos be m 0 - get_pos be m 8"]
      by (simp add: pzshm_buffer_get_free_space_def shm_offsets Let_def word_less_nat_alt)
  next
    case 3
    with f one[of "shm_size b"] show ?thesis
      by (simp add: pzshm_buffer_get_free_space_def shm_offsets Let_def word_less_nat_alt ring_used_def)
  qed
qed

lemma pos_mod:
  fixes p S n :: psize and i :: puint32
  assumes "unat p < unat S" "unat S < 2 ^ 31"
  shows "unat ((p + ucast i) mod S) = (unat p + unat i) mod unat S"
proof -
  have "unat (ucast i :: psize) = unat i" using unat_less_32[of i] by (simp add: unsigned_ucast_eq take_bit_eq_mod)
  moreover have "unat p + unat i < 2 ^ 64" using assms unat_less_32[of i] by simp
  ultimately have "unat (p + ucast i) = unat p + unat i" by (simp add: unat_word_ariths)
  then show ?thesis by (simp add: unat_mod)
qed

section \<open>The copying loops\<close>

lemma puint_counter:
  fixes i :: puint32 and n :: psize
  assumes "unat n < 2 ^ 32"
  shows "ucast i < n \<longleftrightarrow> unat i < unat n" "unat i < unat n \<Longrightarrow> unat (i + 1) = unat i + 1"
proof -
  show "ucast i < n \<longleftrightarrow> unat i < unat n"
    using unat_less_32[of i] by (simp add: word_less_nat_alt unsigned_ucast_eq take_bit_eq_mod)
  show "unat (i + 1) = unat i + 1" if "unat i < unat n"
    using that assms by (simp add: unat_word_ariths)
qed

lemma read_loop_run:
  assumes "unat p < unat S" "unat S < 2 ^ 31" "unat n < 2 ^ 32"
  shows "unat i \<le> unat n \<Longrightarrow> read_loop m S p n i st =
    Some (foldl (\<lambda>st k. st[k := m ! (16 + (unat p + k) mod unat S)]) st [unat i..<unat n])"
proof (induction "unat n - unat i" arbitrary: i st)
  case 0
  then show ?case by (subst read_loop.simps) (simp add: puint_counter[OF assms(3)])
next
  case (Suc d)
  then have i: "unat i < unat n" by simp
  note next_i = puint_counter(2)[OF assms(3) i]
  have "[unat i..<unat n] = unat i # [unat (i + 1)..<unat n]"
    using i next_i by (simp add: upt_conv_Cons)
  moreover have "read_loop m S p n i st = read_loop m S p n (i + 1) (st[unat i := m ! (16 + (unat p + unat i) mod unat S)])"
    using i by (subst read_loop.simps) (simp add: puint_counter[OF assms(3)] pos_mod[OF assms(1,2)] shm_offsets)
  ultimately show ?case
    using Suc.hyps(1)[of "i + 1"] Suc.hyps(2) next_i i by simp
qed

lemma write_loop_run:
  assumes "unat p < unat S" "unat S < 2 ^ 31" "unat n < 2 ^ 32"
  shows "unat i \<le> unat n \<Longrightarrow> write_loop S p n data i m =
    Some (foldl (\<lambda>m k. m[16 + (unat p + k) mod unat S := data ! k]) m [unat i..<unat n])"
proof (induction "unat n - unat i" arbitrary: i m)
  case 0
  then show ?case by (subst write_loop.simps) (simp add: puint_counter[OF assms(3)])
next
  case (Suc d)
  then have i: "unat i < unat n" by simp
  note next_i = puint_counter(2)[OF assms(3) i]
  have "[unat i..<unat n] = unat i # [unat (i + 1)..<unat n]"
    using i next_i by (simp add: upt_conv_Cons)
  moreover have "write_loop S p n data i m = write_loop S p n data (i + 1) (m[16 + (unat p + unat i) mod unat S := data ! unat i])"
    using i by (subst write_loop.simps) (simp add: puint_counter[OF assms(3)] pos_mod[OF assms(1,2)] shm_offsets)
  ultimately show ?case
    using Suc.hyps(1)[of "i + 1"] Suc.hyps(2) next_i i by simp
qed

lemma foldl_updates: "n \<le> length st \<Longrightarrow> foldl (\<lambda>st k. st[k := f k]) st [0..<n] = map f [0..<n] @ drop n st"
proof (induction n)
  case (Suc n)
  then have "drop n st = st ! n # drop (Suc n) st" by (simp add: Cons_nth_drop_Suc)
  with Suc show ?case by (simp add: list_update_append)
qed simp

text \<open>The segment after writing \<open>n\<close> bytes from position \<open>w\<close> on.\<close>

definition ring_write :: "nat \<Rightarrow> nat \<Rightarrow> puchar list \<Rightarrow> puchar list \<Rightarrow> nat \<Rightarrow> puchar list" where
  "ring_write S w data m n = foldl (\<lambda>m k. m[16 + (w + k) mod S := data ! k]) m [0..<n]"

lemma ring_write_Suc: "ring_write S w data m (Suc n) = (ring_write S w data m n)[16 + (w + n) mod S := data ! n]"
  by (simp add: ring_write_def)

lemma length_ring_write [simp]: "length (ring_write S w data m n) = length m"
  by (induction n) (simp_all add: ring_write_Suc, simp add: ring_write_def)

lemma get_pos_ring_write:
  "get_pos be (ring_write S w data m n) 0 = get_pos be m 0" "get_pos be (ring_write S w data m n) 8 = get_pos be m 8"
  by (induction n) (simp_all add: ring_write_Suc get_pos_data, simp_all add: ring_write_def)

lemma ring_write_nth:
  assumes "n \<le> S" "length m = 16 + S"
  shows "k < n \<Longrightarrow> ring_write S w data m n ! (16 + (w + k) mod S) = data ! k"
    and "\<forall>k < n. (w + k) mod S \<noteq> j \<Longrightarrow> ring_write S w data m n ! (16 + j) = m ! (16 + j)"
proof -
  show "ring_write S w data m n ! (16 + (w + k) mod S) = data ! k" if "k < n"
    using that assms(1)
  proof (induction n)
    case (Suc n)
    have "(w + n) mod S < S" using Suc.prems by simp
    moreover have "(w + k) mod S \<noteq> (w + n) mod S" if "k < n"
      using that mod_add_inj[of w k S n] Suc.prems by auto
    ultimately show ?case
      using Suc assms(2) by (cases "k = n") (auto simp: ring_write_Suc nth_list_update)
  qed simp
  show "ring_write S w data m n ! (16 + j) = m ! (16 + j)" if "\<forall>k < n. (w + k) mod S \<noteq> j"
    using that by (induction n) (auto simp: ring_write_Suc nth_list_update, simp add: ring_write_def)
qed

section \<open>The buffer as a queue\<close>

definition call_ok :: shm_call where
  "call_ok = \<lparr>addr_ok = True, lock_ok = True, unlock_ok = True\<rparr>"

lemma length_ring_queue [simp]: "length (ring_queue be b m) = ring_used be b m"
  by (simp add: ring_queue_def)

lemma ring_used_write:
  assumes "ring_ok be b m" "ring_used be b m + n < unat (shm_size b)"
    and "rd_pos be m' = rd_pos be m" "wr_pos be m' = (wr_pos be m + n) mod unat (shm_size b)"
  shows "ring_used be b m' = ring_used be b m + n"
proof -
  note f = ring_facts[OF assms(1)]
  let ?S = "unat (shm_size b)" and ?r = "rd_pos be m" and ?u = "ring_used be b m"
  have w: "wr_pos be m' = (?r + (?u + n)) mod ?S"
    using assms(4) f(8) by (metis add.assoc mod_add_left_eq)
  have "ring_used be b m' = ((?r + (?u + n)) mod ?S + (?S - ?r)) mod ?S"
    unfolding ring_used_def w assms(3) using f(5) by (metis Nat.add_diff_assoc less_imp_le)
  also have "\<dots> = (?r + (?u + n) + (?S - ?r)) mod ?S" by (simp add: mod_add_left_eq)
  also have "?r + (?u + n) + (?S - ?r) = (?u + n) + ?S" using f(5) by simp
  finally show ?thesis using assms(2) by simp
qed

lemma write_queue:
  assumes "ring_ok be b m" "0 < length data" "length data < 2 ^ 64"
  defines "q \<equiv> ring_queue be b m" and "fits \<equiv> ring_used be b m + length data < unat (shm_size b)"
  shows "\<exists>m'. zshm_buffer_write be call_ok (Some b) (Some data) (of_nat (length data)) m =
      Some (m', if fits then of_nat (length data) else 0, None) \<and> ring_ok be b m' \<and>
    ring_queue be b m' = (if fits then q @ data else q)"
proof -
  note f = ring_facts[OF assms(1)]
  let ?S = "unat (shm_size b)" and ?r = "rd_pos be m" and ?w = "wr_pos be m" and ?u = "ring_used be b m"
  let ?n = "length data" and ?len = "of_nat (length data) :: psize"
  have len: "unat ?len = ?n" using assms(3) by (simp add: unsigned_of_nat take_bit_eq_mod)
  then have nz: "?len \<noteq> 0" using assms(2) by (metis less_irrefl unsigned_0)
  have free: "pzshm_buffer_get_free_space be b m < ?len \<longleftrightarrow> \<not> fits"
    using free_space_ring[OF assms(1)] f(7) len assms(2) by (auto simp: word_less_nat_alt fits_def)
  show ?thesis
  proof (cases fits)
    case False
    with free nz assms(1) show ?thesis
      by (simp add: zshm_buffer_write_def call_ok_def q_def)
  next
    case True
    then have n: "?n < ?S" "?u + ?n < ?S" by (simp_all add: fits_def)
    have small: "unat ?len < 2 ^ 32" "?n \<le> ?S" using n f(2) len by simp_all
    let ?m1 = "ring_write ?S ?w data m ?n"
    have loop: "write_loop (shm_size b) (get_pos be m 8) ?len data 0 m = Some ?m1"
      using write_loop_run[OF f(6,2) small(1), of 0] len by (simp add: ring_write_def)
    let ?pos = "(get_pos be m 8 + ?len) mod shm_size b"
    have "unat (get_pos be m 8 + ?len) = ?w + ?n"
      using f(2,6) n len by (simp add: unat_word_ariths)
    then have pos: "unat ?pos = (?w + ?n) mod ?S" by (simp add: unat_mod)
    let ?m' = "put_pos be ?m1 8 ?pos"
    have "16 \<le> length ?m1" using f(4) by simp
    note gp = get_put_pos[OF this]
    have call: "zshm_buffer_write be call_ok (Some b) (Some data) ?len m = Some (?m', ?len, None)"
      using True free nz loop by (simp add: zshm_buffer_write_def call_ok_def shm_offsets Let_def)
    have rd: "rd_pos be ?m' = ?r" and wr: "wr_pos be ?m' = (?w + ?n) mod ?S"
      by (simp_all add: gp get_pos_ring_write pos)
    have ok: "ring_ok be b ?m'"
      using f(1-3,5) rd wr by (simp add: ring_ok_def word_less_nat_alt gp)
    have used: "ring_used be b ?m' = ?u + ?n"
      by (rule ring_used_write[OF assms(1) n(2) rd wr])
    have old: "?m' ! (16 + (?r + i) mod ?S) = m ! (16 + (?r + i) mod ?S)" if "i < ?u" for i
    proof -
      have "(?w + k) mod ?S \<noteq> (?r + i) mod ?S" if k: "k < ?n" for k
      proof
        assume "(?w + k) mod ?S = (?r + i) mod ?S"
        then have "(?r + (?u + k)) mod ?S = (?r + i) mod ?S"
          using f(8) by (metis add.assoc mod_add_left_eq)
        then have "?u + k = i" using mod_add_inj[of ?r "?u + k" ?S i] n k \<open>i < ?u\<close> by simp
        with \<open>i < ?u\<close> show False by simp
      qed
      then show ?thesis using ring_write_nth(2)[OF small(2) f(3)] gp(8) by simp
    qed
    have new: "?m' ! (16 + (?r + (?u + k)) mod ?S) = data ! k" if "k < ?n" for k
    proof -
      have "(?r + (?u + k)) mod ?S = (?w + k) mod ?S" using f(8) by (metis add.assoc mod_add_left_eq)
      then show ?thesis using ring_write_nth(1)[OF small(2) f(3) that] gp(8) by simp
    qed
    have "ring_queue be b ?m' = q @ data"
    proof (rule nth_equalityI)
      show "length (ring_queue be b ?m') = length (q @ data)" by (simp add: used q_def)
      fix i
      assume "i < length (ring_queue be b ?m')"
      then have i: "i < ?u + ?n" by (simp add: used)
      then have "ring_queue be b ?m' ! i = ?m' ! (16 + (?r + i) mod ?S)" by (simp add: ring_queue_def used rd)
      also have "\<dots> = (q @ data) ! i"
        using old[of i] new[of "i - ?u"] i by (auto simp: nth_append q_def ring_queue_def)
      finally show "ring_queue be b ?m' ! i = (q @ data) ! i" .
    qed
    with call ok True show ?thesis by simp
  qed
qed

lemma read_queue:
  assumes "ring_ok be b m" "len \<noteq> 0" "unat len \<le> length st"
  defines "q \<equiv> ring_queue be b m" and "n \<equiv> min (unat len) (ring_used be b m)"
  shows "\<exists>m'. zshm_buffer_read be call_ok (Some b) (Some st) len m =
      Some (m', Some (take n q @ drop n st), of_nat n, None) \<and> ring_ok be b m' \<and> ring_queue be b m' = drop n q"
proof -
  note f = ring_facts[OF assms(1)]
  let ?S = "unat (shm_size b)" and ?r = "rd_pos be m" and ?w = "wr_pos be m" and ?u = "ring_used be b m"
  let ?aval = "pzshm_buffer_get_used_space be b m"
  let ?to = "if ?aval \<le> len then ?aval else len"
  have to: "unat ?to = n"
    using used_space_ring[OF assms(1)] by (auto simp: n_def word_le_nat_alt min_def)
  have n: "n \<le> ?u" "n \<le> length st" using assms(3) by (simp_all add: n_def)
  show ?thesis
  proof (cases "get_pos be m 0 = get_pos be m 8")
    case True
    then have "?u = 0" by (simp add: ring_used_def)
    with True assms show ?thesis
      by (simp add: zshm_buffer_read_def call_ok_def shm_offsets)
  next
    case False
    have small: "unat ?to < 2 ^ 32" using to n(1) f(2,7) by simp
    let ?bytes = "map (\<lambda>k. m ! (16 + (?r + k) mod ?S)) [0..<n]"
    have loop: "read_loop m (shm_size b) (get_pos be m 0) ?to 0 st = Some (?bytes @ drop n st)"
      using read_loop_run[OF f(5,2) small, of 0 m st] foldl_updates[OF n(2), of "\<lambda>k. m ! (16 + (?r + k) mod ?S)"]
      unfolding to by simp
    have bytes: "?bytes = take n q"
      using n(1) by (simp add: q_def ring_queue_def take_map)
    let ?pos = "(get_pos be m 0 + ?to) mod shm_size b"
    have "unat (get_pos be m 0 + ?to) = ?r + n"
      using f(2,5,7) n(1) to by (simp only: unat_word_ariths) simp
    then have pos: "unat ?pos = (?r + n) mod ?S" by (simp add: unat_mod)
    let ?m' = "put_pos be m 0 ?pos"
    note gp = get_put_pos[OF f(4)]
    have "(ucast ?to :: pint) = of_nat n"
      unfolding to[symmetric] word_unat_eq_iff by (simp only: unsigned_ucast_eq unsigned_of_nat) simp
    then have call: "zshm_buffer_read be call_ok (Some b) (Some st) len m =
        Some (?m', Some (take n q @ drop n st), of_nat n, None)"
      using False assms(2) loop unfolding bytes by (simp add: zshm_buffer_read_def call_ok_def shm_offsets Let_def)
    have rd: "rd_pos be ?m' = (?r + n) mod ?S" and wr: "wr_pos be ?m' = ?w"
      by (simp_all add: gp pos)
    have ok: "ring_ok be b ?m'"
      using f(1-3,6) rd wr by (simp add: ring_ok_def word_less_nat_alt gp)
    have used: "ring_used be b ?m' = ?u - n"
    proof (rule mod_add_inj[of "(?r + n) mod ?S" _ ?S])
      have "((?r + n) mod ?S + ring_used be b ?m') mod ?S = ?w"
        using ring_facts(8)[OF ok] unfolding rd wr by simp
      also have "?w = (?r + n + (?u - n)) mod ?S" using f(8) n(1) by simp
      also have "\<dots> = ((?r + n) mod ?S + (?u - n)) mod ?S" by (rule mod_add_left_eq[symmetric])
      finally show "((?r + n) mod ?S + ring_used be b ?m') mod ?S = ((?r + n) mod ?S + (?u - n)) mod ?S" .
    qed (use ring_facts(7)[OF ok] f(7) in simp_all)
    have "ring_queue be b ?m' = drop n q"
    proof (rule nth_equalityI)
      fix i
      assume "i < length (ring_queue be b ?m')"
      then have i: "i < ?u - n" by (simp add: used)
      then have "[0..<?u] ! (n + i) = n + i" using nth_upt[of 0 "n + i" ?u] by linarith
      with i show "ring_queue be b ?m' ! i = drop n q ! i"
        by (simp add: ring_queue_def used rd q_def gp(7) mod_add_left_eq add.assoc)
    qed (simp add: used q_def)
    with call ok show ?thesis by simp
  qed
qed

text \<open>
  C4: on a well-formed segment of less than 2 GiB the buffer is a bounded first-in first-out
  queue of bytes: a write appends all of its data and returns their number, or changes
  nothing and returns 0 when they do not fit; a read moves as many bytes as it can from the
  front of the queue to the storage; the free and used space are those of the queue, whose
  capacity is one less than the size; clearing empties it. All calls end and keep the
  segment well-formed, on hosts of either byte order.
\<close>

theorem shm_buffer_queue:
  assumes "ring_ok be b m" "0 < length data" "length data < 2 ^ 64" "len \<noteq> 0" "unat len \<le> length st"
  defines "q \<equiv> ring_queue be b m" and "cap \<equiv> unat (shm_size b) - 1"
  defines "n \<equiv> min (unat len) (length q)"
  shows "(\<exists>m'. zshm_buffer_write be call_ok (Some b) (Some data) (of_nat (length data)) m =
        Some (m', if length q + length data \<le> cap then of_nat (length data) else 0, None) \<and>
      ring_ok be b m' \<and> ring_queue be b m' = (if length q + length data \<le> cap then q @ data else q)) \<and>
    (\<exists>m'. zshm_buffer_read be call_ok (Some b) (Some st) len m =
        Some (m', Some (take n q @ drop n st), of_nat n, None) \<and>
      ring_ok be b m' \<and> ring_queue be b m' = drop n q) \<and>
    zshm_buffer_get_used_space be call_ok (Some b) m = (of_nat (length q), None) \<and>
    zshm_buffer_get_free_space be call_ok (Some b) m = (of_nat (cap - length q), None) \<and>
    ring_ok be b (zshm_buffer_clear call_ok (Some b) m) \<and> ring_queue be b (zshm_buffer_clear call_ok (Some b) m) = []"
proof -
  note f = ring_facts[OF assms(1)]
  have len: "length q = ring_used be b m" by (simp add: q_def)
  have fits: "ring_used be b m + length data \<le> cap \<longleftrightarrow> ring_used be b m + length data < unat (shm_size b)"
    using f(1) by (auto simp: cap_def)
  have "zshm_buffer_get_used_space be call_ok (Some b) m = (of_nat (length q), None)"
    by (simp add: zshm_buffer_get_used_space_def call_ok_def len flip: used_space_ring[OF assms(1)])
  moreover have "zshm_buffer_get_free_space be call_ok (Some b) m = (of_nat (cap - length q), None)"
    unfolding cap_def len free_space_ring[OF assms(1), symmetric] by (simp add: zshm_buffer_get_free_space_def call_ok_def)
  moreover have "ring_ok be b (zshm_buffer_clear call_ok (Some b) m) \<and> ring_queue be b (zshm_buffer_clear call_ok (Some b) m) = []"
  proof -
    have zero: "get_pos be (replicate (length m) 0) 0 = 0" "get_pos be (replicate (length m) 0) 8 = 0"
      using f(4) by (simp_all add: get_pos_def word_host_zeros)
    then show ?thesis
      using f(1-3) by (simp add: zshm_buffer_clear_def call_ok_def ring_ok_def ring_queue_def ring_used_def word_less_nat_alt)
  qed
  ultimately show ?thesis
    using write_queue[OF assms(1-3)] read_queue[OF assms(1,4,5)]
    unfolding n_def q_def length_ring_queue fits by blast
qed

text \<open>The segment of a buffer of three bytes, on a little-endian host, with the byte 7 in it.\<close>

definition ring_example :: "puchar list" where
  "ring_example = [2, 0, 0, 0, 0, 0, 0, 0, 0, 0, 0, 0, 0, 0, 0, 0, 0, 0, 7]"

lemma ring_example_ok:
  "ring_ok False \<lparr>shm_size = 3\<rparr> ring_example" "ring_queue False \<lparr>shm_size = 3\<rparr> ring_example = [7]"
proof -
  have pos: "get_pos False ring_example 0 = 2" "get_pos False ring_example 8 = 0"
    by (simp_all add: get_pos_def ring_example_def word_host_def)
  then show "ring_ok False \<lparr>shm_size = 3\<rparr> ring_example"
    by (simp add: ring_ok_def) (simp add: ring_example_def)
  show "ring_queue False \<lparr>shm_size = 3\<rparr> ring_example = [7]"
    using pos by (simp add: ring_queue_def ring_used_def) (simp add: ring_example_def)
qed

theorem shm_buffer_queue_witness:
  "\<exists>m'. zshm_buffer_write False call_ok (Some \<lparr>shm_size = 3\<rparr>) (Some [8]) 1 ring_example = Some (m', 1, None) \<and>
     ring_queue False \<lparr>shm_size = 3\<rparr> m' = [7, 8]"
  using shm_buffer_queue[OF ring_example_ok(1), of "[8]" 1 "[0]"] ring_example_ok(2) by auto

text \<open>
  A call with a null argument, a length of 0, without the address of the segment or
  without the lock returns -1 with its error and changes neither the segment nor the
  storage; a failed unlock returns -1 although the bytes have been moved.
\<close>

theorem shm_buffer_failures:
  shows "(bp = None \<or> dp = None \<or> len = 0 \<or> \<not> addr_ok call \<or> \<not> lock_ok call \<longrightarrow>
      (\<exists>e. zshm_buffer_write be call bp dp len m = Some (m, - 1, Some e)) \<and>
      (\<exists>e. zshm_buffer_read be call bp dp len m = Some (m, dp, - 1, Some e))) \<and>
    (zshm_buffer_write be (call\<lparr>unlock_ok := False\<rparr>) bp dp len m =
       map_option (\<lambda>(m', r, e). (m', - 1, Some (case e of Some e' \<Rightarrow> e' | None \<Rightarrow> Shm_Unlock_Failed)))
         (zshm_buffer_write be (call\<lparr>unlock_ok := True\<rparr>) bp dp len m))"
proof (intro conjI impI)
  show "\<exists>e. zshm_buffer_write be call bp dp len m = Some (m, - 1, Some e)"
    if "bp = None \<or> dp = None \<or> len = 0 \<or> \<not> addr_ok call \<or> \<not> lock_ok call"
    using that by (cases bp; cases dp; cases "len = 0"; cases "addr_ok call") (simp_all add: zshm_buffer_write_def)
  show "\<exists>e. zshm_buffer_read be call bp dp len m = Some (m, dp, - 1, Some e)"
    if "bp = None \<or> dp = None \<or> len = 0 \<or> \<not> addr_ok call \<or> \<not> lock_ok call"
    using that by (cases bp; cases dp; cases "len = 0"; cases "addr_ok call") (simp_all add: zshm_buffer_read_def)
  show "zshm_buffer_write be (call\<lparr>unlock_ok := False\<rparr>) bp dp len m =
       map_option (\<lambda>(m', r, e). (m', - 1, Some (case e of Some e' \<Rightarrow> e' | None \<Rightarrow> Shm_Unlock_Failed)))
         (zshm_buffer_write be (call\<lparr>unlock_ok := True\<rparr>) bp dp len m)"
    by (auto simp: zshm_buffer_write_def Let_def split: option.splits)
qed

theorem shm_buffer_failures_witness:
  "\<exists>e. zshm_buffer_read True call_ok None (Some [0]) 1 [] = Some ([], Some [0], - 1, Some e)"
  using shm_buffer_failures[of None "Some [0]" 1 call_ok True "[]"] by simp

text \<open>
  With a segment of the size it asks for, the constructor gives a buffer whose capacity is
  the requested size, empty while the segment is zero; a segment too small for the two
  positions and one byte of capacity is refused.
\<close>

theorem shm_buffer_new_capacity:
  assumes "0 < unat sz" "unat sz < 2 ^ 30"
  shows "\<exists>b. zshm_buffer_new Some True (Some name) sz = Inr b \<and>
    (let m = replicate (16 + unat (shm_size b)) 0 in ring_ok be b m \<and> ring_queue be b m = [] \<and>
       zshm_buffer_get_free_space be call_ok (Some b) m = (sz, None)) \<and>
    (\<forall>seg. unat seg \<le> 17 \<longrightarrow> (\<exists>msg. zshm_buffer_new (\<lambda>_. Some seg) mem (Some name) sz =
       Inl (IPC_Error P_ERROR_IPC_INVALID_ARGUMENT msg)))"
proof -
  let ?b = "\<lparr>shm_size = sz + 1\<rparr>"
  let ?m = "replicate (16 + unat (shm_size ?b)) (0 :: puchar)"
  have sz: "unat (sz + 1) = unat sz + 1" using assms by (simp add: unat_word_ariths)
  have seg: "unat (sz + 17) = unat sz + 17" using assms by (simp add: unat_word_ariths)
  have "sz \<noteq> 0" using assms(1) by auto
  moreover have "\<not> sz + 17 \<le> 17" using seg assms(1) by (simp add: word_le_nat_alt)
  ultimately have new: "zshm_buffer_new Some True (Some name) sz = Inr ?b"
    by (simp add: zshm_buffer_new_def shm_offsets algebra_simps)
  have zero: "get_pos be ?m 0 = 0" "get_pos be ?m 8 = 0"
    by (simp_all add: get_pos_def word_host_zeros)
  have ok: "ring_ok be ?b ?m" "ring_queue be ?b ?m = []"
    using zero sz assms by (simp_all add: ring_ok_def ring_queue_def ring_used_def word_less_nat_alt)
  moreover have "zshm_buffer_get_free_space be call_ok (Some ?b) ?m = (sz, None)"
    using zero by (simp add: zshm_buffer_get_free_space_def pzshm_buffer_get_free_space_def call_ok_def shm_offsets)
  moreover have "\<exists>msg. zshm_buffer_new (\<lambda>_. Some seg) mem (Some name) sz =
       Inl (IPC_Error P_ERROR_IPC_INVALID_ARGUMENT msg)" if "unat seg \<le> 17" for seg
    using that by (simp add: zshm_buffer_new_def shm_offsets word_le_nat_alt)
  ultimately show ?thesis using new by (auto simp: Let_def)
qed

theorem shm_buffer_new_capacity_witness:
  "\<exists>b. zshm_buffer_new Some True (Some ''buf'') 100 = Inr b \<and>
    zshm_buffer_get_free_space True call_ok (Some b) (replicate (16 + unat (shm_size b)) 0) = (100, None)"
  using shm_buffer_new_capacity[of 100 "''buf''" True True] by (auto simp: Let_def)

end
