(* ===== verification/PIniFile.thy ===== *)
theory PIniFile
  imports Plibsys_Prelude PString "HOL-Library.Multiset"
begin

text \<open>
  The INI file parser and its queries of \<^verbatim>\<open>src/src/lib/pinifile.c\<close>. The lists of sections and
  parameters are HOL lists (what \<open>PList\<close> shows its operations to be), allocations succeed,
  and the file is the string of its characters, \<open>None\<close> when it cannot be opened.
\<close>

section \<open>Reading lines\<close>

definition P_INI_FILE_MAX_LINE :: nat where
  "P_INI_FILE_MAX_LINE = 1024"

record PIniParameter =
  param_name :: string
  param_value :: string

record PIniSection =
  section_name :: string
  section_keys :: "PIniParameter list"

record PIniFile =
  ini_path :: string
  ini_sections :: "PIniSection list"
  is_parsed :: bool

abbreviation newline :: char where
  "newline \<equiv> CHR 0x0A"

text \<open>\<^verbatim>\<open>fgets\<close> with room for \<open>n\<close> characters: the line with its newline, and the rest of the file.\<close>

definition fgets :: "nat \<Rightarrow> string \<Rightarrow> (string \<times> string) option" where
  "fgets n s =
     (if s = [] then None
      else let l = take n s; k = takeWhile (\<lambda>c. c \<noteq> newline) l
           in if length k < length l then Some (k @ [newline], drop (length k + 1) s) else Some (l, drop n s))"

text \<open>The lines that the loop sees. The buffer has one byte more than the longest line.\<close>

function ini_lines :: "string \<Rightarrow> string list" where
  "ini_lines s = (case fgets P_INI_FILE_MAX_LINE s of None \<Rightarrow> [] | Some (l, rest) \<Rightarrow> l # ini_lines rest)"
  by pat_completeness auto

termination
  by (relation "measure length") (auto simp: fgets_def P_INI_FILE_MAX_LINE_def Let_def split: if_splits)

declare ini_lines.simps [simp del]

text \<open>The zero-filled line buffer.\<close>

definition line_byte :: "string \<Rightarrow> nat \<Rightarrow> nat" where
  "line_byte l i = (if i < length l then of_char (l ! i) else 0)"

definition bom_shift :: "string \<Rightarrow> nat" where
  "bom_shift l =
     (if line_byte l 0 = 0xEF \<and> line_byte l 1 = 0xBB \<and> line_byte l 2 = 0xBF then 3
      else if (line_byte l 0 = 0xFE \<and> line_byte l 1 = 0xFF) \<or> (line_byte l 0 = 0xFF \<and> line_byte l 1 = 0xFE) then 2
      else if line_byte l 0 = 0x00 \<and> line_byte l 1 = 0x00 \<and> line_byte l 2 = 0xFE \<and> line_byte l 3 = 0xFF then 4
      else if line_byte l 0 = 0xFF \<and> line_byte l 1 = 0xFE \<and> line_byte l 2 = 0x00 \<and> line_byte l 3 = 0x00 then 4
      else 0)"

section \<open>Scanning a line\<close>

text \<open>\<^verbatim>\<open>sscanf (dst_line, "[%[^]]", key) == 1\<close>: the key.\<close>

definition scan_section :: "string \<Rightarrow> string option" where
  "scan_section s =
     (case s of
        [] \<Rightarrow> None
      | c # r \<Rightarrow>
          if c \<noteq> CHR ''['' then None
          else let key = takeWhile (\<lambda>c. c \<noteq> CHR '']'') r in if key = [] then None else Some key)"

text \<open>The common part \<^verbatim>\<open>%[^=] = \<close> of the three formats: the key and the rest of the line.\<close>

definition scan_key :: "string \<Rightarrow> (string \<times> string) option" where
  "scan_key s =
     (let key = takeWhile (\<lambda>c. c \<noteq> CHR ''='') s;
          rest = dropWhile isspace (drop (length key) s)
      in if key = [] then None
         else case rest of [] \<Rightarrow> None | c # r \<Rightarrow> if c \<noteq> CHR ''='' then None else Some (key, dropWhile isspace r))"

text \<open>The formats with quotes: \<^verbatim>\<open>%[^=] = "%[^"]"\<close> and the same with an apostrophe.\<close>

definition scan_quoted :: "char \<Rightarrow> string \<Rightarrow> (string \<times> string) option" where
  "scan_quoted q s =
     (case scan_key s of
        None \<Rightarrow> None
      | Some (key, r) \<Rightarrow>
          (case r of
             [] \<Rightarrow> None
           | c # v \<Rightarrow>
               if c \<noteq> q then None
               else let val = takeWhile (\<lambda>c. c \<noteq> q) v in if val = [] then None else Some (key, val)))"

text \<open>The format \<^verbatim>\<open>%[^=] = %[^;#]\<close>.\<close>

definition scan_plain :: "string \<Rightarrow> (string \<times> string) option" where
  "scan_plain s =
     (case scan_key s of
        None \<Rightarrow> None
      | Some (key, r) \<Rightarrow>
          let val = takeWhile (\<lambda>c. c \<noteq> CHR '';'' \<and> c \<noteq> CHR ''#'') r in if val = [] then None else Some (key, val))"

definition scan_parameter :: "string \<Rightarrow> (string \<times> string) option" where
  "scan_parameter s =
     (case scan_quoted (CHR 0x22) s of
        Some kv \<Rightarrow> Some kv
      | None \<Rightarrow> (case scan_quoted (CHR 0x27) s of Some kv \<Rightarrow> Some kv | None \<Rightarrow> scan_plain s))"

section \<open>Parsing\<close>

text \<open>The copies of at most \<open>P_INI_FILE_MAX_LINE\<close> characters.\<close>

definition chomp_max :: "string \<Rightarrow> string" where
  "chomp_max s = take P_INI_FILE_MAX_LINE (the (zstrchomp True (Some s)))"

text \<open>The state of the loop: the sections of the file, and the open section.\<close>

type_synonym ini_state = "PIniSection list \<times> PIniSection option"

definition new_section :: "string \<Rightarrow> ini_state \<Rightarrow> ini_state" where
  "new_section key st =
     ((case snd st of
         None \<Rightarrow> fst st
       | Some sec \<Rightarrow> if section_keys sec = [] then fst st else sec # fst st),
      Some \<lparr>section_name = key, section_keys = []\<rparr>)"

definition new_parameter :: "string \<Rightarrow> string \<Rightarrow> ini_state \<Rightarrow> ini_state" where
  "new_parameter key value st =
     (let value1 = (if value = [CHR 0x22, CHR 0x22] \<or> value = [CHR 0x27, CHR 0x27] then [] else value)
      in case snd st of
           None \<Rightarrow> st
         | Some sec \<Rightarrow>
             (fst st, Some (sec\<lparr>section_keys := \<lparr>param_name = key, param_value = value1\<rparr> # section_keys sec\<rparr>)))"

definition ini_line :: "ini_state \<Rightarrow> string \<Rightarrow> ini_state" where
  "ini_line st line =
     (let dst_line = chomp_max (c_string (drop (bom_shift line) line));
          sec = (if dst_line \<noteq> [] \<and> hd dst_line = CHR ''['' \<and> last dst_line = CHR '']'' then scan_section dst_line else None)
      in case sec of
           Some key \<Rightarrow> new_section (chomp_max key) st
         | None \<Rightarrow>
             (case scan_parameter dst_line of
                Some (key, value) \<Rightarrow> new_parameter (chomp_max key) (chomp_max value) st
              | None \<Rightarrow> st))"

text \<open>After the loop the open section goes to the end of the list.\<close>

definition ini_finish :: "ini_state \<Rightarrow> PIniSection list" where
  "ini_finish st =
     (case snd st of
        None \<Rightarrow> fst st
      | Some sec \<Rightarrow> if section_keys sec = [] then fst st else fst st @ [sec])"

datatype ini_error = Ini_Invalid_Argument | Ini_Open_Failed

definition zini_file_new :: "string option \<Rightarrow> PIniFile option" where
  "zini_file_new path = map_option (\<lambda>p. \<lparr>ini_path = p, ini_sections = [], is_parsed = False\<rparr>) path"

definition zini_file_parse :: "(string \<Rightarrow> string option) \<Rightarrow> PIniFile option \<Rightarrow> PIniFile option \<times> bool \<times> ini_error option" where
  "zini_file_parse fopen fp =
     (case fp of
        None \<Rightarrow> (None, False, Some Ini_Invalid_Argument)
      | Some f \<Rightarrow>
          if is_parsed f then (fp, True, None)
          else case fopen (ini_path f) of
            None \<Rightarrow> (fp, False, Some Ini_Open_Failed)
          | Some content \<Rightarrow>
              (Some (f\<lparr>ini_sections := ini_finish (foldl ini_line (ini_sections f, None) (ini_lines content)),
                       is_parsed := True\<rparr>), True, None))"

section \<open>Queries\<close>

definition find_section :: "PIniFile \<Rightarrow> string \<Rightarrow> PIniSection option" where
  "find_section f sec = List.find (\<lambda>s. section_name s = sec) (ini_sections f)"

definition pzini_file_find_parameter :: "PIniFile option \<Rightarrow> string option \<Rightarrow> string option \<Rightarrow> string option" where
  "pzini_file_find_parameter fp sec key =
     (case (fp, sec, key) of
        (Some f, Some sn, Some k) \<Rightarrow>
          if \<not> is_parsed f then None
          else (case find_section f sn of
                  None \<Rightarrow> None
                | Some s \<Rightarrow> map_option param_value (List.find (\<lambda>p. param_name p = k) (section_keys s)))
      | _ \<Rightarrow> None)"

definition zini_file_is_parsed :: "PIniFile option \<Rightarrow> bool" where
  "zini_file_is_parsed fp = (case fp of None \<Rightarrow> False | Some f \<Rightarrow> is_parsed f)"

text \<open>The listings prepend each name to the result.\<close>

definition zini_file_sections :: "PIniFile option \<Rightarrow> string list" where
  "zini_file_sections fp =
     (case fp of
        None \<Rightarrow> []
      | Some f \<Rightarrow> if \<not> is_parsed f then [] else foldl (\<lambda>ret s. section_name s # ret) [] (ini_sections f))"

definition zini_file_keys :: "PIniFile option \<Rightarrow> string option \<Rightarrow> string list" where
  "zini_file_keys fp sec =
     (case (fp, sec) of
        (Some f, Some sn) \<Rightarrow>
          if \<not> is_parsed f then []
          else (case find_section f sn of
                  None \<Rightarrow> []
                | Some s \<Rightarrow> foldl (\<lambda>ret p. param_name p # ret) [] (section_keys s))
      | _ \<Rightarrow> [])"

definition zini_file_is_key_exists :: "PIniFile option \<Rightarrow> string option \<Rightarrow> string option \<Rightarrow> bool" where
  "zini_file_is_key_exists fp sec key =
     (case (fp, sec, key) of
        (Some f, Some sn, Some k) \<Rightarrow>
          if \<not> is_parsed f then False
          else (case find_section f sn of
                  None \<Rightarrow> False
                | Some s \<Rightarrow> List.find (\<lambda>p. param_name p = k) (section_keys s) \<noteq> None)
      | _ \<Rightarrow> False)"

definition zini_file_parameter_string :: "PIniFile option \<Rightarrow> string option \<Rightarrow> string option \<Rightarrow> string option \<Rightarrow> string option" where
  "zini_file_parameter_string fp sec key default_val =
     (case pzini_file_find_parameter fp sec key of
        None \<Rightarrow> zstrdup True default_val
      | Some val \<Rightarrow> Some val)"

text \<open>\<^verbatim>\<open>atoi\<close>: white space, a sign, digits; a value that does not fit is undefined in C and wraps here.\<close>

definition digits_value :: "string \<Rightarrow> int" where
  "digits_value ds = foldl (\<lambda>n c. 10 * n + (of_char c - 48)) 0 ds"

definition atoi :: "string \<Rightarrow> pint" where
  "atoi s =
     (let s1 = dropWhile isspace s
      in case s1 of
           [] \<Rightarrow> 0
         | c # r \<Rightarrow>
             if c = CHR ''-'' then word_of_int (- digits_value (takeWhile isdigit r))
             else if c = CHR ''+'' then word_of_int (digits_value (takeWhile isdigit r))
             else word_of_int (digits_value (takeWhile isdigit s1)))"

definition zini_file_parameter_int :: "PIniFile option \<Rightarrow> string option \<Rightarrow> string option \<Rightarrow> pint \<Rightarrow> pint" where
  "zini_file_parameter_int fp sec key default_val =
     (case pzini_file_find_parameter fp sec key of
        None \<Rightarrow> default_val
      | Some val \<Rightarrow> atoi val)"

definition zini_file_parameter_boolean :: "PIniFile option \<Rightarrow> string option \<Rightarrow> string option \<Rightarrow> bool \<Rightarrow> bool" where
  "zini_file_parameter_boolean fp sec key default_val =
     (case pzini_file_find_parameter fp sec key of
        None \<Rightarrow> default_val
      | Some val \<Rightarrow>
          if val = ''true'' \<or> val = ''TRUE'' then True
          else if val = ''false'' \<or> val = ''FALSE'' then False
          else if sint (atoi val) > 0 then True
          else False)"

text \<open>The loop over the words in braces; \<open>bf\<close> are the first \<^verbatim>\<open>buf_cnt\<close> characters of the buffer.\<close>

fun list_loop :: "string \<Rightarrow> string \<Rightarrow> string list \<Rightarrow> string list" where
  "list_loop [] bf ret = (if bf \<noteq> [] then ret @ [bf] else ret)"
| "list_loop (c # str) bf ret =
     (if c = CHR ''}'' then (if bf \<noteq> [] then ret @ [bf] else ret)
      else if \<not> isspace c then list_loop str (bf @ [c]) ret
      else list_loop str [] (if bf \<noteq> [] then ret @ [bf] else ret))"

definition zini_file_parameter_list :: "PIniFile option \<Rightarrow> string option \<Rightarrow> string option \<Rightarrow> string list" where
  "zini_file_parameter_list fp sec key =
     (case pzini_file_find_parameter fp sec key of
        None \<Rightarrow> []
      | Some val \<Rightarrow>
          if length val < 3 \<or> val ! 0 \<noteq> CHR ''{'' \<or> val ! (length val - 1) \<noteq> CHR ''}'' then []
          else list_loop (drop 1 val) [] [])"

section \<open>Well-formed files\<close>

text \<open>
  A file as a person writes it: lines without meaning, and sections of entries, each an unquoted
  or quoted value with an optional comment behind it and lines without meaning after it.
\<close>

record ini_entry =
  entry_key :: string
  entry_quote :: "char option"
  entry_value :: string
  entry_comment :: string
  entry_junk :: "string list"

record ini_block =
  block_name :: string
  block_junk :: "string list"
  block_entries :: "ini_entry list"

definition entry_line :: "ini_entry \<Rightarrow> string" where
  "entry_line e =
     entry_key e @ '' = '' @
     (case entry_quote e of None \<Rightarrow> entry_value e | Some q \<Rightarrow> q # entry_value e @ [q]) @ entry_comment e"

definition block_lines :: "ini_block \<Rightarrow> string list" where
  "block_lines b =
     (''['' @ block_name b @ '']'') # block_junk b @
     concat (map (\<lambda>e. entry_line e # entry_junk e) (block_entries b))"

definition render_ini :: "string list \<Rightarrow> ini_block list \<Rightarrow> string" where
  "render_ini junk bs = concat (map (\<lambda>l. l @ [newline]) (junk @ concat (map block_lines bs)))"

definition trimmed :: "string \<Rightarrow> bool" where
  "trimmed s \<longleftrightarrow> s \<noteq> [] \<and> \<not> isspace (hd s) \<and> \<not> isspace (last s)"

definition plain_line :: "string \<Rightarrow> bool" where
  "plain_line l \<longleftrightarrow>
     newline \<notin> set l \<and> CHR 0x00 \<notin> set l \<and> length l < P_INI_FILE_MAX_LINE \<and>
     (l = [] \<or> (of_char (hd l) :: nat) < 128)"

definition junk_line :: "string \<Rightarrow> bool" where
  "junk_line l \<longleftrightarrow> plain_line l \<and> CHR ''['' \<notin> set l \<and> CHR ''='' \<notin> set l"

definition comment_ok :: "string \<Rightarrow> bool" where
  "comment_ok c \<longleftrightarrow>
     c = [] \<or> (\<not> isspace (last c) \<and> dropWhile isspace c \<noteq> [] \<and> hd (dropWhile isspace c) \<in> {CHR '';'', CHR ''#''})"

definition value_ok :: "char option \<Rightarrow> string \<Rightarrow> bool" where
  "value_ok q v =
     (case q of
        None \<Rightarrow> trimmed v \<and> CHR '';'' \<notin> set v \<and> CHR ''#'' \<notin> set v \<and> hd v \<noteq> CHR 0x22 \<and> hd v \<noteq> CHR 0x27
      | Some q \<Rightarrow>
          (q = CHR 0x22 \<or> q = CHR 0x27) \<and> q \<notin> set v \<and> (v = [] \<or> trimmed v) \<and>
          v \<noteq> [CHR 0x22, CHR 0x22] \<and> v \<noteq> [CHR 0x27, CHR 0x27])"

definition entry_ok :: "ini_entry \<Rightarrow> bool" where
  "entry_ok e \<longleftrightarrow>
     trimmed (entry_key e) \<and> CHR ''='' \<notin> set (entry_key e) \<and> hd (entry_key e) \<noteq> CHR ''['' \<and>
     value_ok (entry_quote e) (entry_value e) \<and> comment_ok (entry_comment e) \<and>
     plain_line (entry_line e) \<and> list_all junk_line (entry_junk e)"

definition block_ok :: "ini_block \<Rightarrow> bool" where
  "block_ok b \<longleftrightarrow>
     trimmed (block_name b) \<and> CHR '']'' \<notin> set (block_name b) \<and> plain_line (''['' @ block_name b @ '']'') \<and>
     list_all junk_line (block_junk b) \<and> block_entries b \<noteq> [] \<and> list_all entry_ok (block_entries b)"

section \<open>Parsing a well-formed file\<close>

lemma ini_lines_Nil [simp]: "ini_lines [] = []"
  by (subst ini_lines.simps) (simp add: fgets_def)

lemma ini_lines_line:
  assumes "newline \<notin> set l" "length l < P_INI_FILE_MAX_LINE"
  shows "ini_lines (l @ newline # s) = (l @ [newline]) # ini_lines s"
proof -
  let ?n = P_INI_FILE_MAX_LINE
  have t: "take ?n (l @ newline # s) = l @ newline # take (?n - length l - 1) s"
    using assms(2) by (cases "?n - length l") auto
  have tw: "takeWhile (\<lambda>c. c \<noteq> newline) (l @ newline # r) = l" for r
    using assms(1) by (subst takeWhile_append2) auto
  have "fgets ?n (l @ newline # s) = Some (l @ [newline], s)"
    unfolding fgets_def t tw Let_def by simp
  then show ?thesis by (subst ini_lines.simps) simp
qed

lemma ini_lines_render:
  "list_all plain_line ls \<Longrightarrow> ini_lines (concat (map (\<lambda>l. l @ [newline]) ls)) = map (\<lambda>l. l @ [newline]) ls"
  by (induction ls) (simp_all add: ini_lines_line plain_line_def)

lemma chomp_max_trim: "chomp_max s = take P_INI_FILE_MAX_LINE (trim s)"
  by (simp add: chomp_max_def zstrchomp_trim)

lemma isspace_newline [simp]: "isspace newline"
  by (simp add: isspace_def)

lemma bom_shift_ascii: "s \<noteq> [] \<Longrightarrow> (of_char (hd s) :: nat) < 128 \<Longrightarrow> of_char (hd s) \<noteq> (0 :: nat) \<Longrightarrow> bom_shift s = 0"
  by (cases s) (auto simp: bom_shift_def line_byte_def)

lemma of_char_zero: "of_char c = (0 :: nat) \<longleftrightarrow> c = CHR 0x00"
  using of_char_eq_iff[of c "CHR 0x00"] by simp

lemma dst_line_plain:
  assumes "plain_line l"
  shows "bom_shift (l @ [newline]) = 0" "c_string (l @ [newline]) = l @ [newline]"
proof -
  show "c_string (l @ [newline]) = l @ [newline]"
    using assms by (auto simp: c_string_def plain_line_def takeWhile_eq_all_conv)
  show "bom_shift (l @ [newline]) = 0"
  proof (cases l)
    case (Cons c r)
    then have "c \<noteq> CHR 0x00" "(of_char c :: nat) < 128" using assms by (auto simp: plain_line_def)
    then show ?thesis using Cons bom_shift_ascii[of "l @ [newline]"] by (simp add: of_char_zero)
  qed (simp add: bom_shift_def line_byte_def)
qed

lemma trim_line: "trimmed l \<Longrightarrow> trim (l @ [newline]) = l"
  using trim_unique[of "[]" "[newline]" l] by (simp add: trimmed_def)

lemma trim_id: "trimmed l \<Longrightarrow> trim l = l"
  using trim_unique[of "[]" "[]" l] by (simp add: trimmed_def)

lemma trim_set: "set (trim s) \<subseteq> set s"
  unfolding trim_def by (auto dest!: set_dropWhileD)

lemma chomp_max_line:
  assumes "trimmed l" "length l \<le> P_INI_FILE_MAX_LINE"
  shows "chomp_max (l @ [newline]) = l" "chomp_max l = l"
  using assms by (simp_all add: chomp_max_trim trim_line trim_id)

text \<open>A line without an equals sign or a bracket changes nothing.\<close>

lemma scan_key_no_eq: "CHR ''='' \<notin> set s \<Longrightarrow> scan_key s = None"
proof -
  assume "CHR ''='' \<notin> set s"
  then have "takeWhile (\<lambda>c. c \<noteq> CHR ''='') s = s" by (auto simp: takeWhile_eq_all_conv)
  then show ?thesis unfolding scan_key_def by (simp only: Let_def) simp
qed

lemma ini_line_junk:
  assumes "junk_line l"
  shows "ini_line st (l @ [newline]) = st"
proof -
  let ?d = "chomp_max (l @ [newline])"
  have sub: "set ?d \<subseteq> set l \<union> {newline}"
    using set_take_subset[of P_INI_FILE_MAX_LINE "trim (l @ [newline])"] trim_set[of "l @ [newline]"]
    unfolding chomp_max_trim by auto
  have "CHR ''='' \<notin> set ?d" "\<not> (?d \<noteq> [] \<and> hd ?d = CHR ''['')"
    using sub assms hd_in_set[of ?d] by (fastforce simp: junk_line_def)+
  moreover have "plain_line l" using assms by (simp add: junk_line_def)
  ultimately show ?thesis
    by (auto simp: ini_line_def dst_line_plain scan_parameter_def scan_quoted_def scan_plain_def scan_key_no_eq)
qed

lemma ini_lines_junk: "list_all junk_line ls \<Longrightarrow> foldl ini_line st (map (\<lambda>l. l @ [newline]) ls) = st"
  by (induction ls) (simp_all add: ini_line_junk)

text \<open>A section header opens the section.\<close>

lemma ini_line_section:
  assumes "trimmed n" "CHR '']'' \<notin> set n" "plain_line (''['' @ n @ '']'')"
  shows "ini_line st ((''['' @ n @ '']'') @ [newline]) = new_section n st"
proof -
  have br: "\<not> isspace (CHR ''['')" "\<not> isspace (CHR '']'')" by (simp_all add: isspace_def)
  then have "trimmed (''['' @ n @ '']'')" by (simp add: trimmed_def)
  then have d: "chomp_max ((''['' @ n @ '']'') @ [newline]) = ''['' @ n @ '']''"
    using assms(3) by (intro chomp_max_line) (auto simp: plain_line_def)
  have tw: "takeWhile (\<lambda>c. c \<noteq> CHR '']'') (n @ '']'') = n" using assms(2) by (subst takeWhile_append2) auto
  have ne: "n \<noteq> []" using assms(1) by (simp add: trimmed_def)
  have "chomp_max n = n" using assms by (intro chomp_max_line) (auto simp: plain_line_def)
  then show ?thesis
    using dst_line_plain[OF assms(3)] d tw ne by (simp add: ini_line_def scan_section_def)
qed

text \<open>A parameter line stores the key and the value.\<close>

lemma scan_key_eq:
  assumes "trimmed k" "CHR ''='' \<notin> set k" "w \<noteq> []" "\<not> isspace (hd w)"
  shows "scan_key (k @ '' = '' @ w) = Some (k @ '' '', w)"
proof -
  have tw: "takeWhile (\<lambda>c. c \<noteq> CHR ''='') (k @ '' = '' @ w) = k @ '' ''"
    using assms(2) by (subst takeWhile_append2) auto
  have "dropWhile isspace w = w" using assms(3,4) by (cases w) auto
  moreover have "isspace (CHR '' '')" "\<not> isspace (CHR ''='')" by (simp_all add: isspace_def)
  ultimately show ?thesis unfolding scan_key_def tw by simp
qed

definition entry_text :: "ini_entry \<Rightarrow> string" where
  "entry_text e = (case entry_quote e of None \<Rightarrow> entry_value e | Some q \<Rightarrow> q # entry_value e @ [q]) @ entry_comment e"

lemma entry_line_text: "entry_line e = entry_key e @ '' = '' @ entry_text e"
  by (simp add: entry_line_def entry_text_def)

lemma quote_not_space [simp]: "\<not> isspace (CHR 0x22)" "\<not> isspace (CHR 0x27)"
  by (simp_all add: isspace_def)

lemma entry_text_trimmed:
  assumes "value_ok (entry_quote e) (entry_value e)" "comment_ok (entry_comment e)"
  shows "trimmed (entry_text e)"
proof -
  let ?v = "case entry_quote e of None \<Rightarrow> entry_value e | Some q \<Rightarrow> q # entry_value e @ [q]"
  have v: "trimmed ?v" using assms(1) by (auto simp: value_ok_def trimmed_def split: option.splits)
  show ?thesis
  proof (cases "entry_comment e = []")
    case True
    with v show ?thesis by (simp add: entry_text_def)
  next
    case False
    with assms(2) have "\<not> isspace (last (entry_comment e))" by (simp add: comment_ok_def)
    with v False show ?thesis by (simp add: entry_text_def trimmed_def del: list.case option.case)
  qed
qed

lemma takeWhile_before_comment:
  assumes "CHR '';'' \<notin> set v" "CHR ''#'' \<notin> set v" "comment_ok c"
  obtains sp where "takeWhile (\<lambda>c. c \<noteq> CHR '';'' \<and> c \<noteq> CHR ''#'') (v @ c) = v @ sp" "\<forall>c \<in> set sp. isspace c"
proof -
  let ?P = "\<lambda>c. c \<noteq> CHR '';'' \<and> c \<noteq> CHR ''#''"
  define sp r where "sp = takeWhile isspace c" and "r = dropWhile isspace c"
  have c: "c = sp @ r" by (simp add: sp_def r_def)
  have sp: "\<forall>c \<in> set sp. isspace c" by (auto simp: sp_def dest: set_takeWhileD)
  moreover have "\<not> isspace (CHR '';'')" "\<not> isspace (CHR ''#'')" by (simp_all add: isspace_def)
  ultimately have "\<forall>c \<in> set sp. ?P c" by auto
  moreover have "takeWhile ?P r = []"
  proof (cases r)
    case (Cons a r')
    then have "c \<noteq> []" using c by auto
    then show ?thesis using assms(3) Cons by (auto simp: comment_ok_def r_def[symmetric])
  qed simp
  ultimately have "takeWhile ?P (v @ c) = v @ sp"
    unfolding c using assms(1,2) by (subst takeWhile_append2, fastforce)+ simp
  with sp that show thesis by blast
qed

lemma scan_plain_entry:
  assumes "trimmed k" "CHR ''='' \<notin> set k" "v \<noteq> []" "\<not> isspace (hd v)" "CHR '';'' \<notin> set v" "CHR ''#'' \<notin> set v" "comment_ok c"
  obtains sp where "scan_plain (k @ '' = '' @ v @ c) = Some (k @ '' '', v @ sp)" "\<forall>c \<in> set sp. isspace c"
proof -
  obtain sp where sp: "takeWhile (\<lambda>c. c \<noteq> CHR '';'' \<and> c \<noteq> CHR ''#'') (v @ c) = v @ sp" "\<forall>c \<in> set sp. isspace c"
    using takeWhile_before_comment assms(5-7) by blast
  have "scan_key (k @ '' = '' @ v @ c) = Some (k @ '' '', v @ c)"
    using assms by (intro scan_key_eq) auto
  with sp(1) assms(3) have "scan_plain (k @ '' = '' @ v @ c) = Some (k @ '' '', v @ sp)"
    unfolding scan_plain_def by (simp del: takeWhile_append)
  with sp(2) that show thesis by blast
qed

lemma trim_trailing: "trimmed v \<Longrightarrow> \<forall>c \<in> set sp. isspace c \<Longrightarrow> trim (v @ sp) = v"
  using trim_unique[of "[]" sp v] by (simp add: trimmed_def)

text \<open>What the three formats find in an entry, up to white space and the empty quotes.\<close>

lemma scan_parameter_entry:
  assumes "entry_ok e"
  obtains v where "scan_parameter (entry_line e) = Some (entry_key e @ '' '', v)"
    "trim v = entry_value e \<or> (entry_value e = [] \<and> trim v \<in> {[CHR 0x22, CHR 0x22], [CHR 0x27, CHR 0x27]})"
proof -
  let ?k = "entry_key e" and ?v = "entry_value e"
  let ?c = "entry_comment e"
  have k: "trimmed ?k" "CHR ''='' \<notin> set ?k" and c: "comment_ok ?c" and vo: "value_ok (entry_quote e) ?v"
    using assms by (auto simp: entry_ok_def)
  have txt0: "trimmed (entry_text e)" using vo c by (rule entry_text_trimmed)
  have key: "scan_key (entry_line e) = Some (?k @ '' '', entry_text e)"
    unfolding entry_line_text using k txt0 by (intro scan_key_eq) (auto simp: trimmed_def)
  show thesis
  proof (cases "entry_quote e")
    case None
    then have v: "trimmed ?v" "CHR '';'' \<notin> set ?v" "CHR ''#'' \<notin> set ?v" "hd ?v \<noteq> CHR 0x22" "hd ?v \<noteq> CHR 0x27"
      using vo by (auto simp: value_ok_def)
    have line: "entry_line e = ?k @ '' = '' @ ?v @ ?c" using None by (simp add: entry_line_def)
    obtain sp where sp: "scan_plain (entry_line e) = Some (?k @ '' '', ?v @ sp)" "\<forall>c \<in> set sp. isspace c"
      using scan_plain_entry[of ?k ?v ?c] k v c unfolding line by (auto simp: trimmed_def)
    have "scan_quoted q (entry_line e) = None" if "q = CHR 0x22 \<or> q = CHR 0x27" for q
      using key None v that by (cases ?v) (auto simp: scan_quoted_def entry_text_def trimmed_def)
    then have "scan_parameter (entry_line e) = Some (?k @ '' '', ?v @ sp)"
      using sp by (simp add: scan_parameter_def)
    then show thesis using that trim_trailing[OF v(1) sp(2)] by blast
  next
    case (Some q)
    then have q: "q = CHR 0x22 \<or> q = CHR 0x27" "q \<notin> set ?v" "?v = [] \<or> trimmed ?v" using vo by (auto simp: value_ok_def)
    have tx: "entry_text e = q # ?v @ q # ?c" using Some by (simp add: entry_text_def)
    have tw: "takeWhile (\<lambda>c. c \<noteq> q) (?v @ q # ?c) = ?v" using q(2) by (subst takeWhile_append2) auto
    have other: "scan_quoted q' (entry_line e) = None" if "q' \<noteq> q" for q'
      using that key tx by (simp add: scan_quoted_def)
    have formats: "scan_parameter (entry_line e) =
        (case scan_quoted q (entry_line e) of Some kv \<Rightarrow> Some kv | None \<Rightarrow> scan_plain (entry_line e))"
      using q(1) other[of "CHR 0x22"] other[of "CHR 0x27"]
      by (elim disjE) (simp_all add: scan_parameter_def split: option.splits)
    have self: "scan_quoted q (entry_line e) = (if ?v = [] then None else Some (?k @ '' '', ?v))"
      using key tx tw by (simp add: scan_quoted_def)
    show thesis
    proof (cases "?v = []")
      case False
      then have "scan_parameter (entry_line e) = Some (?k @ '' '', ?v)"
        using self formats by simp
      then show thesis using that trim_id q(3) False by blast
    next
      case True
      have line: "entry_line e = ?k @ '' = '' @ [q, q] @ ?c" using Some True by (simp add: entry_line_def)
      have qq: "\<not> isspace (hd [q, q])" "CHR '';'' \<notin> set [q, q]" "CHR ''#'' \<notin> set [q, q]" using q(1) by auto
      obtain sp where sp: "scan_plain (entry_line e) = Some (?k @ '' '', [q, q] @ sp)" "\<forall>c \<in> set sp. isspace c"
        unfolding line by (rule scan_plain_entry[OF k _ qq c]) simp
      have "trimmed [q, q]" using q(1) by (auto simp: trimmed_def)
      with sp(2) have "trim ([q, q] @ sp) = [q, q]" by (rule trim_trailing[rotated])
      moreover have "scan_parameter (entry_line e) = Some (?k @ '' '', [q, q] @ sp)"
        using True self formats sp(1) by simp
      ultimately show thesis using that True q(1) by blast
    qed
  qed
qed

lemma ini_line_entry:
  assumes "entry_ok e"
  shows "ini_line (secs, Some s) (entry_line e @ [newline]) =
    (secs, Some (s\<lparr>section_keys := \<lparr>param_name = entry_key e, param_value = entry_value e\<rparr> # section_keys s\<rparr>))"
proof -
  let ?k = "entry_key e"
  have k: "trimmed ?k" and pl: "plain_line (entry_line e)" and hd: "hd ?k \<noteq> CHR ''[''"
    and vo: "value_ok (entry_quote e) (entry_value e)"
    using assms by (auto simp: entry_ok_def)
  have tx: "trimmed (entry_text e)" using assms by (auto simp: entry_ok_def intro: entry_text_trimmed)
  have ln: "trimmed (entry_line e)" using k tx by (simp add: entry_line_text trimmed_def)
  have len: "length ?k + length (entry_value e) < P_INI_FILE_MAX_LINE"
    using pl by (auto simp: plain_line_def entry_line_def split: option.splits)
  have d: "chomp_max (entry_line e @ [newline]) = entry_line e"
    using ln pl by (intro chomp_max_line) (auto simp: plain_line_def)
  have "\<not> (entry_line e \<noteq> [] \<and> hd (entry_line e) = CHR ''['' \<and> last (entry_line e) = CHR '']'')"
    using hd k by (simp add: entry_line_text trimmed_def)
  obtain v where v: "scan_parameter (entry_line e) = Some (?k @ '' '', v)"
    "trim v = entry_value e \<or> (entry_value e = [] \<and> trim v \<in> {[CHR 0x22, CHR 0x22], [CHR 0x27, CHR 0x27]})"
    using scan_parameter_entry assms by blast
  have "trim (?k @ '' '') = ?k" using k by (intro trim_trailing) (auto simp: isspace_def)
  then have ck: "chomp_max (?k @ '' '') = ?k" using len by (simp add: chomp_max_trim)
  have "entry_value e \<noteq> [CHR 0x22, CHR 0x22] \<and> entry_value e \<noteq> [CHR 0x27, CHR 0x27]"
    using vo by (auto simp: value_ok_def split: option.splits)
  moreover have "trim v = entry_value e \<Longrightarrow> chomp_max v = entry_value e" using len by (simp add: chomp_max_trim)
  moreover have "trim v \<in> {[CHR 0x22, CHR 0x22], [CHR 0x27, CHR 0x27]} \<Longrightarrow> chomp_max v = trim v"
    by (auto simp: chomp_max_trim P_INI_FILE_MAX_LINE_def)
  ultimately have np: "new_parameter ?k (chomp_max v) (secs, Some s) =
      (secs, Some (s\<lparr>section_keys := \<lparr>param_name = ?k, param_value = entry_value e\<rparr> # section_keys s\<rparr>))"
    using v(2) by (auto simp: new_parameter_def)
  show ?thesis
    using dst_line_plain[OF pl] d hd k v(1) ck np by (simp add: ini_line_def entry_line_text trimmed_def)
qed

text \<open>The sections that the blocks describe; keys stand in the reverse order.\<close>

definition entry_parameter :: "ini_entry \<Rightarrow> PIniParameter" where
  "entry_parameter e = \<lparr>param_name = entry_key e, param_value = entry_value e\<rparr>"

definition block_section :: "ini_block \<Rightarrow> PIniSection" where
  "block_section b = \<lparr>section_name = block_name b, section_keys = rev (map entry_parameter (block_entries b))\<rparr>"

lemma ini_lines_entries:
  "list_all entry_ok es \<Longrightarrow>
   foldl ini_line (secs, Some s) (map (\<lambda>l. l @ [newline]) (concat (map (\<lambda>e. entry_line e # entry_junk e) es))) =
   (secs, Some (s\<lparr>section_keys := rev (map entry_parameter es) @ section_keys s\<rparr>))"
proof (induction es arbitrary: s)
  case (Cons e es)
  then have "list_all junk_line (entry_junk e)" by (simp add: entry_ok_def)
  then show ?case using Cons
    by (simp add: ini_line_entry ini_lines_junk entry_parameter_def)
qed simp

lemma ini_lines_block:
  assumes "block_ok b"
  shows "foldl ini_line st (map (\<lambda>l. l @ [newline]) (block_lines b)) =
    (fst (new_section (block_name b) st), Some (block_section b))"
proof -
  have "ini_line st ((''['' @ block_name b @ '']'') @ [newline]) = new_section (block_name b) st"
    using assms by (intro ini_line_section) (auto simp: block_ok_def)
  then have hd: "ini_line st (CHR ''['' # block_name b @ [CHR '']'', newline]) =
      (fst (new_section (block_name b) st), Some \<lparr>section_name = block_name b, section_keys = []\<rparr>)"
    by (simp add: new_section_def)
  have "list_all junk_line (block_junk b)" "list_all entry_ok (block_entries b)"
    using assms by (auto simp: block_ok_def)
  then show ?thesis
    using ini_lines_entries[of "block_entries b"]
    by (simp add: block_lines_def hd ini_lines_junk block_section_def)
qed

text \<open>All sections but the last are prepended, the last is appended.\<close>

lemma ini_lines_blocks:
  "list_all block_ok bs \<Longrightarrow> section_keys s \<noteq> [] \<Longrightarrow>
   ini_finish (foldl ini_line (secs, Some s) (map (\<lambda>l. l @ [newline]) (concat (map block_lines bs)))) =
   (let all = s # map block_section bs in rev (butlast all) @ secs @ [last all])"
proof (induction bs arbitrary: secs s)
  case (Cons b bs)
  then have "block_ok b" "block_entries b \<noteq> []" by (auto simp: block_ok_def)
  then show ?case
    using Cons by (simp add: ini_lines_block new_section_def block_section_def Let_def)
qed (simp add: ini_finish_def)

lemma ini_parse_blocks:
  assumes "list_all junk_line junk" "list_all block_ok bs"
  shows "ini_finish (foldl ini_line ([], None) (ini_lines (render_ini junk bs))) =
    (if bs = [] then [] else rev (map block_section (butlast bs)) @ [block_section (last bs)])"
proof -
  have "list_all plain_line (block_lines b)" if "block_ok b" for b
    using that unfolding block_lines_def block_ok_def
    by (induction "block_entries b" arbitrary: b) (auto simp: entry_ok_def junk_line_def list_all_iff)
  then have "list_all plain_line (junk @ concat (map block_lines bs))"
    using assms by (auto simp: list_all_iff junk_line_def)
  then have "ini_lines (render_ini junk bs) = map (\<lambda>l. l @ [newline]) (junk @ concat (map block_lines bs))"
    unfolding render_ini_def by (rule ini_lines_render)
  moreover have "ini_finish (foldl ini_line ([], None) (map (\<lambda>l. l @ [newline]) (concat (map block_lines bs)))) =
      (if bs = [] then [] else rev (map block_section (butlast bs)) @ [block_section (last bs)])"
  proof (cases bs)
    case (Cons b bs')
    then have b: "block_ok b" "section_keys (block_section b) \<noteq> []" "list_all block_ok bs'"
      using assms(2) by (auto simp: block_ok_def block_section_def)
    then show ?thesis
      using ini_lines_blocks[of bs' "block_section b" "[]"] Cons
      by (simp add: ini_lines_block new_section_def Let_def last_map map_butlast)
  qed (simp add: ini_finish_def)
  ultimately show ?thesis using assms(1) by (simp add: ini_lines_junk)
qed

section \<open>Reading back\<close>

lemma find_distinct:
  "distinct (map f xs) \<Longrightarrow> x \<in> set xs \<Longrightarrow> List.find (\<lambda>y. f y = f x) xs = Some x"
  by (induction xs) (auto simp: image_iff)

lemma find_SomeD: "List.find P xs = Some x \<Longrightarrow> x \<in> set xs"
  by (induction xs) (auto split: if_splits)

lemma find_map_of: "map_option snd (List.find (\<lambda>p. fst p = k) ps) = map_of ps k"
  by (induction ps) auto

lemma find_map: "List.find P (map f xs) = map_option f (List.find (P \<circ> f) xs)"
  by (induction xs) auto

lemma foldl_Cons_map: "foldl (\<lambda>ret x. f x # ret) acc xs = rev (map f xs) @ acc"
  by (induction xs arbitrary: acc) simp_all

definition block_pairs :: "ini_block \<Rightarrow> (string \<times> string) list" where
  "block_pairs b = map (\<lambda>e. (entry_key e, entry_value e)) (block_entries b)"

lemma find_section_parameter:
  "map_option param_value (List.find (\<lambda>p. param_name p = k) (section_keys (block_section b))) = map_of (rev (block_pairs b)) k"
proof -
  have eq: "section_keys (block_section b) = map (\<lambda>(k, v). \<lparr>param_name = k, param_value = v\<rparr>) (rev (block_pairs b))"
    by (simp add: block_section_def block_pairs_def entry_parameter_def rev_map)
  show ?thesis
    unfolding eq find_map find_map_of[symmetric]
    by (simp add: option.map_comp comp_def case_prod_beta)
qed


definition sample_blocks :: "ini_block list" where
  "sample_blocks =
     [\<lparr>block_name = ''net'', block_junk = [''; comment''],
       block_entries =
         [\<lparr>entry_key = ''host'', entry_quote = None, entry_value = ''a b'', entry_comment = '' # c'', entry_junk = [[]]\<rparr>,
          \<lparr>entry_key = ''host'', entry_quote = Some (CHR 0x22), entry_value = ''x;y'', entry_comment = [], entry_junk = []\<rparr>]\<rparr>,
      \<lparr>block_name = ''log'', block_junk = [],
       block_entries = [\<lparr>entry_key = ''on'', entry_quote = None, entry_value = ''true'', entry_comment = [], entry_junk = []\<rparr>]\<rparr>]"


section \<open>Any file\<close>

text \<open>What is stored of any file: trimmed strings of at most \<open>P_INI_FILE_MAX_LINE\<close> characters.\<close>

definition stored :: "string \<Rightarrow> bool" where
  "stored s \<longleftrightarrow> (s = [] \<or> \<not> isspace (hd s)) \<and> length s \<le> P_INI_FILE_MAX_LINE \<and> CHR 0x00 \<notin> set s"

definition section_ok :: "PIniSection \<Rightarrow> bool" where
  "section_ok s \<longleftrightarrow> stored (section_name s) \<and> CHR '']'' \<notin> set (section_name s) \<and>
     (\<forall>p \<in> set (section_keys s). stored (param_name p) \<and> param_name p \<noteq> [] \<and> CHR ''='' \<notin> set (param_name p) \<and>
        stored (param_value p))"

definition ini_state_ok :: "ini_state \<Rightarrow> bool" where
  "ini_state_ok st \<longleftrightarrow>
     (\<forall>s \<in> set (fst st). section_ok s \<and> section_keys s \<noteq> []) \<and> (\<forall>s. snd st = Some s \<longrightarrow> section_ok s)"

lemma trim_hd: "trim s = [] \<or> \<not> isspace (hd (trim s))"
proof -
  let ?d = "dropWhile isspace s"
  show ?thesis
  proof (cases "trim s = []")
    case False
    then have "?d \<noteq> []" unfolding trim_def by (metis dropWhile.simps(1) rev.simps(1))
    then have "\<not> isspace (hd ?d)" by (rule hd_dropWhile)
    moreover have "?d = trim s @ rev (takeWhile isspace (rev ?d))"
      unfolding trim_def by (metis rev_append rev_rev_ident takeWhile_dropWhile_id)
    then have "hd ?d = hd (trim s)" using False by (metis hd_append)
    ultimately show ?thesis by simp
  qed simp
qed

lemma chomp_max_stored: "CHR 0x00 \<notin> set s \<Longrightarrow> stored (chomp_max s)"
  using trim_hd[of s] trim_set[of s]
  by (cases "trim s") (auto simp: stored_def chomp_max_trim P_INI_FILE_MAX_LINE_def dest: in_set_takeD)

lemma chomp_max_set: "set (chomp_max s) \<subseteq> set s"
  using trim_set[of s] by (auto simp: chomp_max_trim dest: in_set_takeD)

lemma trim_ne: "s \<noteq> [] \<Longrightarrow> \<not> isspace (hd s) \<Longrightarrow> trim s \<noteq> []"
  by (cases s) (auto simp: trim_def)

lemma scan_section_SomeD:
  "scan_section s = Some key \<Longrightarrow> set key \<subseteq> set s \<and> CHR '']'' \<notin> set key"
  by (auto simp: scan_section_def Let_def split: list.splits if_splits dest: set_takeWhileD)

lemma scan_key_SomeD:
  "scan_key s = Some (key, r) \<Longrightarrow> key \<noteq> [] \<and> hd key = hd s \<and> CHR ''='' \<notin> set key \<and> set key \<subseteq> set s \<and> set r \<subseteq> set s"
  by (cases s) (auto simp: scan_key_def Let_def split: list.splits if_splits dest!: set_takeWhileD set_dropWhileD in_set_dropD arg_cong[of "dropWhile _ _" _ set])

lemma scan_parameter_SomeD:
  assumes "scan_parameter s = Some (key, v)"
  shows "key \<noteq> [] \<and> hd key = hd s \<and> CHR ''='' \<notin> set key \<and> set key \<subseteq> set s \<and> set v \<subseteq> set s"
  using assms
  by (fastforce simp: scan_parameter_def scan_quoted_def scan_plain_def Let_def
      split: option.splits list.splits if_splits dest: set_takeWhileD scan_key_SomeD)

lemma ini_line_ok:
  assumes "ini_state_ok st"
  shows "ini_state_ok (ini_line st line)"
proof -
  define d where "d = chomp_max (c_string (drop (bom_shift line) line))"
  have nz: "CHR 0x00 \<notin> set (c_string s)" for s by (auto simp: c_string_def dest: set_takeWhileD)
  then have d: "stored d" by (simp add: d_def chomp_max_stored)
  have sec: "ini_state_ok (new_section (chomp_max key) st)" if "scan_section d = Some key" for key
  proof -
    have "set key \<subseteq> set d" "CHR '']'' \<notin> set key" using scan_section_SomeD[OF that] by auto
    then have "CHR 0x00 \<notin> set key" "CHR '']'' \<notin> set (chomp_max key)"
      using d chomp_max_set[of key] by (auto simp: stored_def)
    then show ?thesis
      using assms by (auto simp: ini_state_ok_def new_section_def section_ok_def chomp_max_stored split: option.splits)
  qed
  have par: "ini_state_ok (new_parameter (chomp_max key) (chomp_max v) st)" if "scan_parameter d = Some (key, v)" for key v
  proof -
    have kv: "key \<noteq> []" "hd key = hd d" "CHR ''='' \<notin> set key" "set key \<subseteq> set d" "set v \<subseteq> set d"
      using scan_parameter_SomeD[OF that] by auto
    then have "d \<noteq> []" by auto
    then have "trim key \<noteq> []" using kv d by (intro trim_ne) (auto simp: stored_def)
    then have "chomp_max key \<noteq> []" by (simp add: chomp_max_trim P_INI_FILE_MAX_LINE_def)
    moreover have "stored (chomp_max key)" "stored (chomp_max v)" "CHR ''='' \<notin> set (chomp_max key)"
      using kv d chomp_max_set[of key] by (auto simp: stored_def intro!: chomp_max_stored[unfolded stored_def])
    moreover have "stored []" by (simp add: stored_def)
    ultimately show ?thesis
      using assms by (auto simp: ini_state_ok_def new_parameter_def section_ok_def Let_def split: option.splits)
  qed
  show ?thesis
    using assms sec par unfolding ini_line_def d_def[symmetric]
    by (auto simp: Let_def split: option.splits if_splits prod.splits)
qed

lemma ini_lines_ok: "ini_state_ok st \<Longrightarrow> ini_state_ok (foldl ini_line st ls)"
  by (induction ls arbitrary: st) (simp_all add: ini_line_ok)

lemma ini_finish_ok: "ini_state_ok st \<Longrightarrow> \<forall>s \<in> set (ini_finish st). section_ok s \<and> section_keys s \<noteq> []"
  by (auto simp: ini_state_ok_def ini_finish_def split: option.splits)

lemma parse_sections_ok:
  assumes "zini_file_parse fopen (zini_file_new (Some path)) = (Some f, r, err)"
  shows "\<forall>s \<in> set (ini_sections f). section_ok s \<and> section_keys s \<noteq> []"
proof -
  have "ini_state_ok ([], None)" by (simp add: ini_state_ok_def)
  then show ?thesis
    using assms ini_finish_ok[OF ini_lines_ok, of "([], None)"]
    by (auto simp: zini_file_parse_def zini_file_new_def split: option.splits)
qed



section \<open>Lists of words\<close>

abbreviation spaces :: "char set" where
  "spaces \<equiv> {c. isspace c}"

lemma list_loop_append: "list_loop s bf (ret @ ret') = ret @ list_loop s bf ret'"
proof (induction s arbitrary: bf ret')
  case (Cons c s)
  then show ?case using Cons[of "[]" "ret' @ [bf]"] by simp
qed simp

lemma list_loop_words:
  "list_loop s bf [] =
   (let ws = split_on spaces (takeWhile (\<lambda>c. c \<noteq> CHR ''}'') s) in filter (\<lambda>w. w \<noteq> []) ((bf @ hd ws) # tl ws))"
proof (induction s arbitrary: bf)
  case (Cons c s)
  show ?case
  proof (cases "c = CHR ''}'' \<or> \<not> isspace c")
    case True
    then show ?thesis using Cons by (auto simp: Let_def)
  next
    case False
    have "list_loop s [] [bf] = bf # list_loop s [] []" using list_loop_append[of s "[]" "[bf]" "[]"] by simp
    moreover have "list_loop s [] [] = filter (\<lambda>w. w \<noteq> []) (split_on spaces (takeWhile (\<lambda>c. c \<noteq> CHR ''}'') s))"
      using Cons[of "[]"] by (simp only: append_Nil Let_def list.collapse[OF split_on_ne])
    ultimately show ?thesis using False by (simp add: Let_def)
  qed
qed (simp add: Let_def)

lemma list_loop_start:
  "list_loop s [] [] = filter (\<lambda>w. w \<noteq> []) (split_on spaces (takeWhile (\<lambda>c. c \<noteq> CHR ''}'') s))"
  using list_loop_words[of s "[]"] by (simp only: append_Nil Let_def list.collapse[OF split_on_ne])

lemma set_tl_subset: "set (tl xs) \<subseteq> set xs"
  by (cases xs) auto

lemma split_on_length: "w \<in> set (split_on d s) \<Longrightarrow> length w \<le> length s"
proof (induction s arbitrary: w)
  case (Cons c s)
  have "hd (split_on d s) \<in> set (split_on d s)" "set (tl (split_on d s)) \<subseteq> set (split_on d s)"
    by (simp_all add: set_tl_subset)
  with Cons show ?case by (fastforce split: if_splits)
qed simp

text \<open>
  C35: the list query. A value in braces of at least three characters gives its words, the
  non-empty pieces between white space up to the first closing brace, in order; any other value
  gives no list. In a file that was parsed each word is at most 1024 characters long, so with its
  zero it fits the buffer of 1025 bytes that the loop fills.
\<close>

theorem ini_list_words:
  assumes "zini_file_parse fopen (zini_file_new (Some path)) = (Some f, r, err)"
    "pzini_file_find_parameter (Some f) sec key = Some val"
  shows "zini_file_parameter_list (Some f) sec key =
    (if length val < 3 \<or> hd val \<noteq> CHR ''{'' \<or> last val \<noteq> CHR ''}'' then []
     else filter (\<lambda>w. w \<noteq> []) (split_on spaces (takeWhile (\<lambda>c. c \<noteq> CHR ''}'') (tl val)))) \<and>
    (\<forall>w \<in> set (zini_file_parameter_list (Some f) sec key). length w \<le> P_INI_FILE_MAX_LINE)"
proof -
  have eq: "zini_file_parameter_list (Some f) sec key =
    (if length val < 3 \<or> hd val \<noteq> CHR ''{'' \<or> last val \<noteq> CHR ''}'' then []
     else filter (\<lambda>w. w \<noteq> []) (split_on spaces (takeWhile (\<lambda>c. c \<noteq> CHR ''}'') (tl val))))"
  proof (cases "length val < 3")
    case False
    then have "val \<noteq> []" by auto
    then show ?thesis
      using assms(2) False
      by (simp add: zini_file_parameter_list_def list_loop_start hd_conv_nth last_conv_nth drop_Suc)
  qed (use assms(2) in \<open>simp add: zini_file_parameter_list_def\<close>)
  have "stored val"
    using parse_sections_ok[OF assms(1)] assms(2)
    by (auto simp: pzini_file_find_parameter_def find_section_def section_ok_def
        split: option.splits if_splits dest!: find_SomeD)
  then have "length (takeWhile (\<lambda>c. c \<noteq> CHR ''}'') (tl val)) \<le> P_INI_FILE_MAX_LINE"
    using length_takeWhile_le[of "\<lambda>c. c \<noteq> CHR ''}''" "tl val"] unfolding stored_def length_tl by linarith
  then show ?thesis
    unfolding eq by (auto dest!: split_on_length)
qed

definition sample_list_file :: PIniFile where
  "sample_list_file = \<lparr>ini_path = ''p'',
     ini_sections = [\<lparr>section_name = ''s'', section_keys = [\<lparr>param_name = ''l'', param_value = ''{a  bc}''\<rparr>]\<rparr>], is_parsed = True\<rparr>"

theorem ini_list_words_witness:
  "zini_file_parse (\<lambda>_. Some (''[s]'' @ [newline] @ ''l = {a  bc}'')) (zini_file_new (Some ''p'')) = (Some sample_list_file, True, None) \<and>
   zini_file_parameter_list (Some sample_list_file) (Some ''s'') (Some ''l'') = [''a'', ''bc'']"
proof -
  have parse: "zini_file_parse (\<lambda>_. Some (''[s]'' @ [newline] @ ''l = {a  bc}'')) (zini_file_new (Some ''p'')) = (Some sample_list_file, True, None)"
    by code_simp
  have "pzini_file_find_parameter (Some sample_list_file) (Some ''s'') (Some ''l'') = Some ''{a  bc}''" by code_simp
  from ini_list_words[OF parse this] parse show ?thesis by (simp add: isspace_def)
qed

text \<open>
  A comment line is not skipped when it contains an equals sign: the line \<^verbatim>\<open>;a = 1\<close> stores the
  key \<^verbatim>\<open>;a\<close>.
\<close>

theorem ini_comment_line_stored:
  "zini_file_keys (fst (zini_file_parse (\<lambda>_. Some (''[s]'' @ [newline] @ '';a = 1'')) (zini_file_new (Some ''p'')))) (Some ''s'') = ['';a'']"
  by code_simp

end
