(* ===== verification/PSocketAddress.thy ===== *)
theory PSocketAddress
  imports PBytes PString
begin

text \<open>
  Socket addresses, \<^verbatim>\<open>src/src/lib/psocketaddress.c\<close> on a POSIX system with IPv6. A native address is the
  bytes of its \<^verbatim>\<open>struct sockaddr_in\<close> or \<^verbatim>\<open>struct sockaddr_in6\<close> in the layout of Linux. A read past the
  end of the caller's memory has no result (the outer \<open>None\<close>). The functions \<^verbatim>\<open>getaddrinfo\<close>,
  \<^verbatim>\<open>inet_pton\<close> and \<^verbatim>\<open>inet_ntop\<close> of the system are parameters.
\<close>

unbundle bit_operations_syntax

type_synonym puint16 = "16 word"

section \<open>Byte order of 16-bit words\<close>

definition PUINT16_SWAP_BYTES :: "puint16 \<Rightarrow> puint16" where
  "PUINT16_SWAP_BYTES val = drop_bit 8 val OR push_bit 8 val"

definition PUINT16_TO_BE :: "bool \<Rightarrow> puint16 \<Rightarrow> puint16" where
  "PUINT16_TO_BE be val = (if be then val else PUINT16_SWAP_BYTES val)"

section \<open>Addresses\<close>

datatype PSocketFamily = P_SOCKET_FAMILY_UNKNOWN | P_SOCKET_FAMILY_INET | P_SOCKET_FAMILY_INET6

definition AF_INET :: puint16 where "AF_INET = 2"

definition AF_INET6 :: puint16 where "AF_INET6 = 10"

text \<open>The sizes of \<^verbatim>\<open>struct sockaddr_in\<close> and \<^verbatim>\<open>struct sockaddr_in6\<close>.\<close>

definition size_in :: nat where "size_in = 16"

definition size_in6 :: nat where "size_in6 = 28"

text \<open>The union of the two address types is its 16 bytes.\<close>

record PSocketAddress =
  family :: PSocketFamily
  addr :: "puchar list"
  port :: puint16
  flowinfo :: puint32
  scope_id :: puint32

definition addr_zero :: PSocketAddress where
  "addr_zero = \<lparr>family = P_SOCKET_FAMILY_UNKNOWN, addr = replicate 16 0, port = 0, flowinfo = 0, scope_id = 0\<rparr>"

text \<open>The build configuration: byte order, and the \<^verbatim>\<open>PLIBSYS_SOCKADDR_IN6_HAS\<close> and \<^verbatim>\<open>GETADDRINFO\<close> switches.\<close>

record sock_config =
  big_endian :: bool
  has_flowinfo :: bool
  has_scopeid :: bool
  has_getaddrinfo :: bool

definition native_word :: "sock_config \<Rightarrow> puchar list \<Rightarrow> nat \<Rightarrow> nat \<Rightarrow> 'w::len word" where
  "native_word cfg m off n = word_host (big_endian cfg) (take n (drop off m))"

definition put_word :: "sock_config \<Rightarrow> puchar list \<Rightarrow> nat \<Rightarrow> nat \<Rightarrow> 'w::len word \<Rightarrow> puchar list" where
  "put_word cfg m off n w = memcpy m off (bytes_host (big_endian cfg) n w)"

section \<open>Construction\<close>

definition zsocket_address_new_from_native ::
    "sock_config \<Rightarrow> bool \<Rightarrow> puchar list option \<Rightarrow> psize \<Rightarrow> PSocketAddress option option" where
  "zsocket_address_new_from_native cfg mem native len =
     (case native of
        None \<Rightarrow> Some None
      | Some m \<Rightarrow>
          if len = 0 then Some None
          else if \<not> mem then Some None
          else if length m < 2 then None
          else
            let fam = native_word cfg m 0 2
            in if fam = AF_INET then
                 (if unat len < size_in then Some None
                  else if length m < size_in then None
                  else Some (Some (addr_zero\<lparr>addr := memcpy (addr addr_zero) 0 (take 4 (drop 4 m)),
                          family := P_SOCKET_FAMILY_INET, port := PUINT16_TO_BE (big_endian cfg) (native_word cfg m 2 2)\<rparr>)))
               else if fam = AF_INET6 then
                 (if unat len < size_in6 then Some None
                  else if length m < size_in6 then None
                  else Some (Some (addr_zero\<lparr>addr := memcpy (addr addr_zero) 0 (take 16 (drop 8 m)),
                          family := P_SOCKET_FAMILY_INET6, port := PUINT16_TO_BE (big_endian cfg) (native_word cfg m 2 2),
                          flowinfo := (if has_flowinfo cfg then native_word cfg m 4 4 else 0),
                          scope_id := (if has_scopeid cfg then native_word cfg m 24 4 else 0)\<rparr>)))
               else Some None)"

text \<open>
  \<open>gai\<close> is the family and the native address of the first result of \<^verbatim>\<open>getaddrinfo\<close>; \<open>pton4\<close> and
  \<open>pton6\<close> are the bytes that \<^verbatim>\<open>inet_pton\<close> writes. Without the scope field \<^verbatim>\<open>getaddrinfo\<close> is not used.
\<close>

definition zsocket_address_new ::
    "sock_config \<Rightarrow> (string \<Rightarrow> (puint16 \<times> puchar list) option) \<Rightarrow> (string \<Rightarrow> puchar list option) \<Rightarrow>
     (string \<Rightarrow> puchar list option) \<Rightarrow> bool \<Rightarrow> string option \<Rightarrow> puint16 \<Rightarrow> PSocketAddress option option" where
  "zsocket_address_new cfg gai pton4 pton6 mem address prt =
     (case address of
        None \<Rightarrow> Some None
      | Some s \<Rightarrow>
          if has_getaddrinfo cfg \<and> has_scopeid cfg \<and> CHR '':'' \<in> set s then
            (case gai s of
               None \<Rightarrow> Some None
             | Some (fam, ai_addr) \<Rightarrow>
                 if fam = AF_INET6 \<and> length ai_addr = size_in6
                 then zsocket_address_new_from_native cfg mem
                        (Some (put_word cfg ai_addr 2 2 (PUINT16_TO_BE (big_endian cfg) prt))) (of_nat (length ai_addr))
                 else Some None)
          else if \<not> mem then Some None
          else
            let ret = addr_zero\<lparr>port := prt\<rparr>
            in case pton4 s of
                 Some b \<Rightarrow> Some (Some (ret\<lparr>addr := memcpy (addr ret) 0 b, family := P_SOCKET_FAMILY_INET\<rparr>))
               | None \<Rightarrow>
                   (case pton6 s of
                      Some b \<Rightarrow> Some (Some (ret\<lparr>addr := memcpy (addr ret) 0 b, family := P_SOCKET_FAMILY_INET6\<rparr>))
                    | None \<Rightarrow> Some None))"

definition zsocket_address_new_any :: "bool \<Rightarrow> PSocketFamily \<Rightarrow> puint16 \<Rightarrow> PSocketAddress option" where
  "zsocket_address_new_any mem fam prt =
     (if \<not> mem then None
      else case fam of
        P_SOCKET_FAMILY_INET \<Rightarrow> Some (addr_zero\<lparr>addr := memcpy (addr addr_zero) 0 [0, 0, 0, 0], family := fam, port := prt\<rparr>)
      | P_SOCKET_FAMILY_INET6 \<Rightarrow>
          Some (addr_zero\<lparr>addr := memcpy (addr addr_zero) 0 (replicate 16 0), family := fam, port := prt\<rparr>)
      | P_SOCKET_FAMILY_UNKNOWN \<Rightarrow> None)"

definition zsocket_address_new_loopback :: "bool \<Rightarrow> PSocketFamily \<Rightarrow> puint16 \<Rightarrow> PSocketAddress option" where
  "zsocket_address_new_loopback mem fam prt =
     (if \<not> mem then None
      else case fam of
        P_SOCKET_FAMILY_INET \<Rightarrow> Some (addr_zero\<lparr>addr := memcpy (addr addr_zero) 0 [127, 0, 0, 0], family := fam, port := prt\<rparr>)
      | P_SOCKET_FAMILY_INET6 \<Rightarrow>
          Some (addr_zero\<lparr>addr := memcpy (addr addr_zero) 0 (replicate 15 0 @ [1]), family := fam, port := prt\<rparr>)
      | P_SOCKET_FAMILY_UNKNOWN \<Rightarrow> None)"

section \<open>Access\<close>

text \<open>The result: the memory of the destination, and success.\<close>

definition zsocket_address_to_native ::
    "sock_config \<Rightarrow> PSocketAddress option \<Rightarrow> puchar list option \<Rightarrow> psize \<Rightarrow> puchar list option \<times> bool" where
  "zsocket_address_to_native cfg ap dest destlen =
     (case (ap, dest) of
        (Some a, Some m) \<Rightarrow>
          if destlen = 0 then (dest, False)
          else case family a of
            P_SOCKET_FAMILY_INET \<Rightarrow>
              if unat destlen < size_in then (dest, False)
              else
                let m1 = memcpy m 4 (take 4 (addr a));
                    m2 = put_word cfg m1 0 2 AF_INET;
                    m3 = put_word cfg m2 2 2 (PUINT16_TO_BE (big_endian cfg) (port a))
                in (Some (memcpy m3 8 (replicate 8 0)), True)
          | P_SOCKET_FAMILY_INET6 \<Rightarrow>
              if unat destlen < size_in6 then (dest, False)
              else
                let m1 = memcpy m 8 (take 16 (addr a));
                    m2 = put_word cfg m1 0 2 AF_INET6;
                    m3 = put_word cfg m2 2 2 (PUINT16_TO_BE (big_endian cfg) (port a));
                    m4 = (if has_flowinfo cfg then put_word cfg m3 4 4 (flowinfo a) else m3)
                in (Some (if has_scopeid cfg then put_word cfg m4 24 4 (scope_id a) else m4), True)
          | P_SOCKET_FAMILY_UNKNOWN \<Rightarrow> (dest, False)
      | _ \<Rightarrow> (dest, False))"

definition zsocket_address_get_native_size :: "PSocketAddress option \<Rightarrow> psize" where
  "zsocket_address_get_native_size ap =
     (case ap of
        None \<Rightarrow> 0
      | Some a \<Rightarrow>
          (case family a of
             P_SOCKET_FAMILY_INET \<Rightarrow> of_nat size_in
           | P_SOCKET_FAMILY_INET6 \<Rightarrow> of_nat size_in6
           | P_SOCKET_FAMILY_UNKNOWN \<Rightarrow> 0))"

definition zsocket_address_get_family :: "PSocketAddress option \<Rightarrow> PSocketFamily" where
  "zsocket_address_get_family ap = (case ap of None \<Rightarrow> P_SOCKET_FAMILY_UNKNOWN | Some a \<Rightarrow> family a)"

definition zsocket_address_get_address ::
    "(puchar list \<Rightarrow> string) \<Rightarrow> (puchar list \<Rightarrow> string) \<Rightarrow> bool \<Rightarrow> PSocketAddress option \<Rightarrow> string option" where
  "zsocket_address_get_address ntop4 ntop6 mem ap =
     (case ap of
        None \<Rightarrow> None
      | Some a \<Rightarrow>
          if family a = P_SOCKET_FAMILY_UNKNOWN then None
          else if family a = P_SOCKET_FAMILY_INET then zstrdup mem (Some (ntop4 (take 4 (addr a))))
          else zstrdup mem (Some (ntop6 (addr a))))"

definition zsocket_address_get_port :: "PSocketAddress option \<Rightarrow> puint16" where
  "zsocket_address_get_port ap = (case ap of None \<Rightarrow> 0 | Some a \<Rightarrow> port a)"

definition zsocket_address_get_flow_info :: "sock_config \<Rightarrow> PSocketAddress option \<Rightarrow> puint32" where
  "zsocket_address_get_flow_info cfg ap =
     (case ap of
        None \<Rightarrow> 0
      | Some a \<Rightarrow> if \<not> has_flowinfo cfg then 0 else if family a \<noteq> P_SOCKET_FAMILY_INET6 then 0 else flowinfo a)"

definition zsocket_address_get_scope_id :: "sock_config \<Rightarrow> PSocketAddress option \<Rightarrow> puint32" where
  "zsocket_address_get_scope_id cfg ap =
     (case ap of
        None \<Rightarrow> 0
      | Some a \<Rightarrow> if \<not> has_scopeid cfg then 0 else if family a \<noteq> P_SOCKET_FAMILY_INET6 then 0 else scope_id a)"

definition zsocket_address_set_flow_info :: "sock_config \<Rightarrow> PSocketAddress option \<Rightarrow> puint32 \<Rightarrow> PSocketAddress option" where
  "zsocket_address_set_flow_info cfg ap fl =
     (case ap of
        None \<Rightarrow> None
      | Some a \<Rightarrow> if \<not> has_flowinfo cfg then ap else if family a \<noteq> P_SOCKET_FAMILY_INET6 then ap else Some (a\<lparr>flowinfo := fl\<rparr>))"

definition zsocket_address_set_scope_id :: "sock_config \<Rightarrow> PSocketAddress option \<Rightarrow> puint32 \<Rightarrow> PSocketAddress option" where
  "zsocket_address_set_scope_id cfg ap sc =
     (case ap of
        None \<Rightarrow> None
      | Some a \<Rightarrow> if \<not> has_scopeid cfg then ap else if family a \<noteq> P_SOCKET_FAMILY_INET6 then ap else Some (a\<lparr>scope_id := sc\<rparr>))"

definition zsocket_address_is_flow_info_supported :: "sock_config \<Rightarrow> bool" where
  "zsocket_address_is_flow_info_supported cfg = has_flowinfo cfg"

definition zsocket_address_is_scope_id_supported :: "sock_config \<Rightarrow> bool" where
  "zsocket_address_is_scope_id_supported cfg = has_scopeid cfg"

definition zsocket_address_is_any :: "sock_config \<Rightarrow> PSocketAddress option \<Rightarrow> bool" where
  "zsocket_address_is_any cfg ap =
     (case ap of
        None \<Rightarrow> False
      | Some a \<Rightarrow>
          if family a = P_SOCKET_FAMILY_UNKNOWN then False
          else if family a = P_SOCKET_FAMILY_INET
          then PUINT32_TO_BE (big_endian cfg) (native_word cfg (addr a) 0 4) = 0
          else addr a = replicate 16 0)"

definition zsocket_address_is_loopback :: "sock_config \<Rightarrow> PSocketAddress option \<Rightarrow> bool" where
  "zsocket_address_is_loopback cfg ap =
     (case ap of
        None \<Rightarrow> False
      | Some a \<Rightarrow>
          if family a = P_SOCKET_FAMILY_UNKNOWN then False
          else if family a = P_SOCKET_FAMILY_INET
          then PUINT32_TO_BE (big_endian cfg) (native_word cfg (addr a) 0 4) AND 0xff000000 = 0x7f000000
          else addr a = replicate 15 0 @ [1])"

section \<open>Fields of a buffer\<close>

lemma read_memcpy_same: "off \<le> length m \<Longrightarrow> take (length src) (drop off (memcpy m off src)) = src"
  by (simp add: memcpy_def)

lemma read_memcpy_other:
  assumes "off + n \<le> off' \<or> off' + length src \<le> off" "off' + length src \<le> length m"
  shows "take n (drop off (memcpy m off' src)) = take n (drop off m)"
proof (rule nth_equalityI)
  have len: "length (memcpy m off' src) = length m" using assms(2) by simp
  then show "length (take n (drop off (memcpy m off' src))) = length (take n (drop off m))" by simp
  fix i assume "i < length (take n (drop off (memcpy m off' src)))"
  then have i: "i < n" "off + i < length m" using len by auto
  have "memcpy m off' src ! (off + i) = m ! (off + i)"
    using assms i by (auto simp: memcpy_def nth_append)
  then show "take n (drop off (memcpy m off' src)) ! i = take n (drop off m) ! i"
    using i len by simp
qed

lemma put_word_same:
  "off + n \<le> length m \<Longrightarrow> LENGTH('w::len) = 8 * n \<Longrightarrow> native_word cfg (put_word cfg m off n (w :: 'w word)) off n = w"
  using read_memcpy_same[of off m "bytes_host (big_endian cfg) n w"]
  by (simp add: native_word_def put_word_def word_host_bytes_host)

lemma put_word_other:
  "off + k \<le> off' \<or> off' + n \<le> off \<Longrightarrow> off' + n \<le> length m \<Longrightarrow>
   take k (drop off (put_word cfg m off' n w)) = take k (drop off m)"
  by (simp add: put_word_def read_memcpy_other)

lemma length_put_word [simp]: "off + n \<le> length m \<Longrightarrow> length (put_word cfg m off n w) = length m"
  by (simp add: put_word_def)

lemma swap16_swap16: "PUINT16_SWAP_BYTES (PUINT16_SWAP_BYTES v) = v"
proof (rule bit_word_eqI)
  fix n assume "n < LENGTH(16)"
  then show "bit (PUINT16_SWAP_BYTES (PUINT16_SWAP_BYTES v)) n = bit v n"
    by (cases "n < 8") (auto simp: PUINT16_SWAP_BYTES_def bit_simps dest: bit_imp_le_length)
qed

lemma to_be16_inverse: "PUINT16_TO_BE be (PUINT16_TO_BE be v) = v"
  by (simp add: PUINT16_TO_BE_def swap16_swap16)

section \<open>Well-formed addresses\<close>

definition addr_ok :: "sock_config \<Rightarrow> PSocketAddress \<Rightarrow> bool" where
  "addr_ok cfg a \<longleftrightarrow>
     length (addr a) = 16 \<and> family a \<noteq> P_SOCKET_FAMILY_UNKNOWN \<and>
     (family a = P_SOCKET_FAMILY_INET \<longrightarrow> drop 4 (addr a) = replicate 12 0 \<and> flowinfo a = 0 \<and> scope_id a = 0) \<and>
     (\<not> has_flowinfo cfg \<longrightarrow> flowinfo a = 0) \<and> (\<not> has_scopeid cfg \<longrightarrow> scope_id a = 0)"

lemma from_native_ok:
  "zsocket_address_new_from_native cfg mem native len = Some (Some a) \<Longrightarrow> addr_ok cfg a"
  by (auto simp: zsocket_address_new_from_native_def Let_def memcpy_def addr_ok_def addr_zero_def size_in_def size_in6_def
      split: option.splits if_splits)


definition pton4_sample :: "string \<Rightarrow> puchar list option" where
  "pton4_sample s = (if s = ''10.0.0.1'' then Some [10, 0, 0, 1] else None)"


section \<open>Round trip through the native form\<close>

lemma to_native_inet:
  assumes "family a = P_SOCKET_FAMILY_INET" "length (addr a) = 16" "size_in \<le> length m" "length m = unat len"
  obtains m' where "zsocket_address_to_native cfg (Some a) (Some m) len = (Some m', True)" "length m' = length m"
    "native_word cfg m' 0 2 = AF_INET" "PUINT16_TO_BE (big_endian cfg) (native_word cfg m' 2 2) = port a"
    "take 4 (drop 4 m') = take 4 (addr a)" "drop size_in m' = drop size_in m"
proof -
  define m1 where "m1 = memcpy m 4 (take 4 (addr a))"
  define m2 where "m2 = put_word cfg m1 0 2 AF_INET"
  define m3 where "m3 = put_word cfg m2 2 2 (PUINT16_TO_BE (big_endian cfg) (port a))"
  define m4 where "m4 = memcpy m3 8 (replicate 8 (0 :: puchar))"
  have sz: "16 \<le> length m" using assms(3) by (simp add: size_in_def)
  have l: "length m1 = length m" "length m2 = length m" "length m3 = length m" "length m4 = length m"
    using sz assms(2) by (simp_all add: m1_def m2_def m3_def m4_def)
  have "len \<noteq> 0" "\<not> unat len < size_in" using assms(3,4) sz by (auto simp: size_in_def)
  then have run: "zsocket_address_to_native cfg (Some a) (Some m) len = (Some m4, True)"
    using assms(1) by (simp add: zsocket_address_to_native_def m1_def m2_def m3_def m4_def Let_def)
  have fam: "native_word cfg m4 0 2 = AF_INET"
  proof -
    have "take 2 (drop 0 m4) = take 2 (drop 0 m3)" unfolding m4_def by (rule read_memcpy_other) (use sz l in simp_all)
    also have "\<dots> = take 2 (drop 0 m2)" unfolding m3_def by (rule put_word_other) (use sz l in simp_all)
    finally show ?thesis using put_word_same[of 0 2 m1 cfg AF_INET] sz l by (simp add: native_word_def m2_def)
  qed
  have prt: "native_word cfg m4 2 2 = PUINT16_TO_BE (big_endian cfg) (port a)"
  proof -
    have "take 2 (drop 2 m4) = take 2 (drop 2 m3)" using sz l by (simp add: m4_def read_memcpy_other)
    then show ?thesis
      using put_word_same[of 2 2 m2 cfg "PUINT16_TO_BE (big_endian cfg) (port a)"] sz l by (simp add: native_word_def m3_def)
  qed
  have adr: "take 4 (drop 4 m4) = take 4 (addr a)"
  proof -
    have "take 4 (drop 4 m4) = take 4 (drop 4 m1)"
      using sz l by (simp add: m4_def m3_def m2_def read_memcpy_other put_word_other)
    then show ?thesis using read_memcpy_same[of 4 m "take 4 (addr a)"] sz assms(2) by (simp add: m1_def)
  qed
  have rest: "drop 16 m4 = drop 16 m" for k
    using sz l assms(2) by (simp add: m4_def m3_def m2_def m1_def memcpy_def put_word_def)
  show thesis
    by (rule that[OF run l(4) fam _ adr]) (use prt rest in \<open>simp_all add: to_be16_inverse size_in_def\<close>)
qed

lemma to_native_inet6:
  assumes "family a = P_SOCKET_FAMILY_INET6" "length (addr a) = 16" "size_in6 \<le> length m" "length m = unat len"
  obtains m' where "zsocket_address_to_native cfg (Some a) (Some m) len = (Some m', True)" "length m' = length m"
    "native_word cfg m' 0 2 = AF_INET6" "PUINT16_TO_BE (big_endian cfg) (native_word cfg m' 2 2) = port a"
    "take 16 (drop 8 m') = addr a" "drop size_in6 m' = drop size_in6 m"
    "has_flowinfo cfg \<Longrightarrow> native_word cfg m' 4 4 = flowinfo a" "has_scopeid cfg \<Longrightarrow> native_word cfg m' 24 4 = scope_id a"
proof -
  define m1 where "m1 = memcpy m 8 (addr a)"
  define m2 where "m2 = put_word cfg m1 0 2 AF_INET6"
  define m3 where "m3 = put_word cfg m2 2 2 (PUINT16_TO_BE (big_endian cfg) (port a))"
  define m4 where "m4 = (if has_flowinfo cfg then put_word cfg m3 4 4 (flowinfo a) else m3)"
  define m5 where "m5 = (if has_scopeid cfg then put_word cfg m4 24 4 (scope_id a) else m4)"
  have sz: "28 \<le> length m" using assms(3) by (simp add: size_in6_def)
  have l: "length m1 = length m" "length m2 = length m" "length m3 = length m" "length m4 = length m" "length m5 = length m"
    using sz assms(2) by (simp_all add: m1_def m2_def m3_def m4_def m5_def)
  have "len \<noteq> 0" "\<not> unat len < size_in6" using assms(3,4) sz by (auto simp: size_in6_def)
  then have run: "zsocket_address_to_native cfg (Some a) (Some m) len = (Some m5, True)"
    using assms(1,2) by (simp add: zsocket_address_to_native_def m1_def m2_def m3_def m4_def m5_def Let_def)
  have 5: "take k (drop off m5) = take k (drop off m4)" if "off + k \<le> 24" for off k
    unfolding m5_def using that sz l by (auto intro: put_word_other)
  have 4: "take k (drop off m4) = take k (drop off m3)" if "off + k \<le> 4 \<or> 8 \<le> off" for off k
    unfolding m4_def using that sz l by (auto intro: put_word_other)
  have 3: "take k (drop off m3) = take k (drop off m2)" if "off + k \<le> 2 \<or> 4 \<le> off" for off k
    unfolding m3_def using that sz l by (auto intro: put_word_other)
  have 2: "take k (drop off m2) = take k (drop off m1)" if "2 \<le> off" for off k
    unfolding m2_def using that sz l by (auto intro: put_word_other)
  have fam: "native_word cfg m5 0 2 = AF_INET6"
    using put_word_same[of 0 2 m1 cfg AF_INET6] sz l 5[of 0 2] 4[of 0 2] 3[of 0 2] by (simp add: native_word_def m2_def)
  have prt: "native_word cfg m5 2 2 = PUINT16_TO_BE (big_endian cfg) (port a)"
    using put_word_same[of 2 2 m2 cfg "PUINT16_TO_BE (big_endian cfg) (port a)"] sz l 5[of 2 2] 4[of 2 2]
    by (simp add: native_word_def m3_def)
  have adr: "take 16 (drop 8 m5) = addr a"
    using read_memcpy_same[of 8 m "addr a"] sz assms(2) 5[of 8 16] 4[of 8 16] 3[of 8 16] 2[of 8 16] by (simp add: m1_def)
  have flow: "native_word cfg m5 4 4 = flowinfo a" if "has_flowinfo cfg"
    using put_word_same[of 4 4 m3 cfg "flowinfo a"] sz l 5[of 4 4] that by (simp add: native_word_def m4_def)
  have scope: "native_word cfg m5 24 4 = scope_id a" if "has_scopeid cfg"
    using put_word_same[of 24 4 m4 cfg "scope_id a"] sz l that by (simp add: m5_def)
  have rest: "drop 28 m5 = drop 28 m"
    using sz l assms(2) by (simp add: m5_def m4_def m3_def m2_def m1_def memcpy_def put_word_def)
  show thesis
    by (rule that[OF run l(5) fam _ adr _ flow scope]) (use prt rest in \<open>simp_all add: to_be16_inverse size_in6_def\<close>)
qed

text \<open>
  C23: an address survives the native form. Written to a buffer of the announced length, at least
  the native size of the address, and read back from it, it is the same address; the bytes
  after the structure are left alone. A shorter buffer is refused and left alone.
\<close>

theorem socket_address_native_roundtrip:
  assumes "addr_ok cfg a" "length m = unat len"
  shows "if zsocket_address_get_native_size (Some a) \<le> len
    then \<exists>m'. zsocket_address_to_native cfg (Some a) (Some m) len = (Some m', True) \<and>
      zsocket_address_new_from_native cfg True (Some m') len = Some (Some a) \<and> length m' = length m \<and>
      drop (unat (zsocket_address_get_native_size (Some a))) m' = drop (unat (zsocket_address_get_native_size (Some a))) m
    else zsocket_address_to_native cfg (Some a) (Some m) len = (Some m, False)"
proof (cases "family a")
  case P_SOCKET_FAMILY_UNKNOWN
  with assms(1) show ?thesis by (simp add: addr_ok_def)
next
  case P_SOCKET_FAMILY_INET
  have sz: "zsocket_address_get_native_size (Some a) = 16" "size_in = 16"
    using P_SOCKET_FAMILY_INET by (simp_all add: zsocket_address_get_native_size_def size_in_def)
  have ok: "length (addr a) = 16" "drop 4 (addr a) = replicate 12 0" "flowinfo a = 0" "scope_id a = 0"
    using assms(1) P_SOCKET_FAMILY_INET by (auto simp: addr_ok_def)
  have z: "take 4 (addr a) @ replicate 12 0 = addr a" using ok(2) by (metis append_take_drop_id)
  show ?thesis
  proof (cases "16 \<le> len")
    case True
    then have len: "16 \<le> unat len" by (simp add: word_le_nat_alt)
    obtain m' where m': "zsocket_address_to_native cfg (Some a) (Some m) len = (Some m', True)" "length m' = length m"
      "native_word cfg m' 0 2 = AF_INET" "PUINT16_TO_BE (big_endian cfg) (native_word cfg m' 2 2) = port a"
      "take 4 (drop 4 m') = take 4 (addr a)" "drop size_in m' = drop size_in m"
      using to_native_inet[OF P_SOCKET_FAMILY_INET ok(1)] assms(2) len sz by metis
    have "len \<noteq> 0" using len by auto
    then have "zsocket_address_new_from_native cfg True (Some m') len = Some (Some a)"
      using m' len assms(2) ok z P_SOCKET_FAMILY_INET
      by (simp add: zsocket_address_new_from_native_def sz addr_zero_def memcpy_def)
    with m' True show ?thesis by (simp add: sz)
  next
    case False
    then have "unat len < 16" by (simp add: word_le_nat_alt not_le)
    with False show ?thesis using P_SOCKET_FAMILY_INET by (simp add: sz zsocket_address_to_native_def)
  qed
next
  case P_SOCKET_FAMILY_INET6
  have sz: "zsocket_address_get_native_size (Some a) = 28" "size_in6 = 28"
    using P_SOCKET_FAMILY_INET6 by (simp_all add: zsocket_address_get_native_size_def size_in6_def)
  have ok: "length (addr a) = 16" "\<not> has_flowinfo cfg \<Longrightarrow> flowinfo a = 0" "\<not> has_scopeid cfg \<Longrightarrow> scope_id a = 0"
    using assms(1) by (auto simp: addr_ok_def)
  have fam: "AF_INET6 \<noteq> AF_INET" by (simp add: AF_INET_def AF_INET6_def)
  show ?thesis
  proof (cases "28 \<le> len")
    case True
    then have len: "28 \<le> unat len" by (simp add: word_le_nat_alt)
    obtain m' where m': "zsocket_address_to_native cfg (Some a) (Some m) len = (Some m', True)" "length m' = length m"
      "native_word cfg m' 0 2 = AF_INET6" "PUINT16_TO_BE (big_endian cfg) (native_word cfg m' 2 2) = port a"
      "take 16 (drop 8 m') = addr a" "drop size_in6 m' = drop size_in6 m"
      "has_flowinfo cfg \<Longrightarrow> native_word cfg m' 4 4 = flowinfo a" "has_scopeid cfg \<Longrightarrow> native_word cfg m' 24 4 = scope_id a"
      using to_native_inet6[OF P_SOCKET_FAMILY_INET6 ok(1)] assms(2) len sz by metis
    have "len \<noteq> 0" using len by auto
    then have "zsocket_address_new_from_native cfg True (Some m') len = Some (Some a)"
      using m' len assms(2) ok fam P_SOCKET_FAMILY_INET6
      by (simp add: zsocket_address_new_from_native_def sz addr_zero_def memcpy_def)
    with m' True show ?thesis by (simp add: sz)
  next
    case False
    then have "unat len < 28" by (simp add: word_le_nat_alt not_le)
    with False show ?thesis using P_SOCKET_FAMILY_INET6 by (simp add: sz zsocket_address_to_native_def)
  qed
qed

theorem socket_address_native_roundtrip_witness:
  "\<exists>a m'. zsocket_address_new_loopback True P_SOCKET_FAMILY_INET 80 = Some a \<and>
    zsocket_address_to_native \<lparr>big_endian = False, has_flowinfo = True, has_scopeid = True, has_getaddrinfo = True\<rparr>
      (Some a) (Some (replicate 20 7)) 20 = (Some m', True) \<and> length m' = 20"
proof -
  let ?cfg = "\<lparr>big_endian = False, has_flowinfo = True, has_scopeid = True, has_getaddrinfo = True\<rparr>"
  define a where "a = addr_zero\<lparr>addr := [127, 0, 0, 0] @ replicate 12 0, family := P_SOCKET_FAMILY_INET, port := 80\<rparr>"
  have new: "zsocket_address_new_loopback True P_SOCKET_FAMILY_INET 80 = Some a"
    by (simp add: zsocket_address_new_loopback_def a_def memcpy_def addr_zero_def)
  have ok: "addr_ok ?cfg a" by (simp add: addr_ok_def a_def addr_zero_def)
  have "zsocket_address_get_native_size (Some a) \<le> 20"
    by (simp add: zsocket_address_get_native_size_def a_def addr_zero_def size_in_def)
  with socket_address_native_roundtrip[OF ok, of "replicate 20 7" 20] new show ?thesis by auto
qed

section \<open>Special addresses\<close>

lemma top_byte_eq:
  fixes w :: puint32
  shows "w AND 0xff000000 = 0x7f000000 \<longleftrightarrow> (ucast (drop_bit 24 w) :: puchar) = 127"
proof -
  have c: "(0xff000000 :: puint32) = push_bit 24 (mask 8)" "(0x7f000000 :: puint32) = push_bit 24 0x7f" by code_simp+
  have "w AND push_bit 24 (mask 8) = push_bit 24 (ucast (ucast (drop_bit 24 w) :: puchar))"
    by (rule bit_word_eqI) (auto simp: bit_simps)
  moreover have inj: "push_bit 24 (ucast b :: puint32) = push_bit 24 (ucast b') \<longleftrightarrow> b = b'" for b b' :: puchar
  proof
    assume eq: "push_bit 24 (ucast b :: puint32) = push_bit 24 (ucast b')"
    show "b = b'"
    proof (rule bit_word_eqI)
      fix n assume "n < LENGTH(8)"
      then show "bit b n = bit b' n" using arg_cong[OF eq, of "\<lambda>w. bit w (24 + n)"] by (simp add: bit_simps)
    qed
  qed simp
  ultimately show ?thesis
    unfolding c using inj[of "ucast (drop_bit 24 w)" 127] by simp
qed

lemma word_be_top: "length bs = 4 \<Longrightarrow> (ucast (drop_bit 24 (word_be bs :: puint32)) :: puchar) = hd bs"
proof -
  assume "length bs = 4"
  then obtain b0 b1 b2 b3 where bs: "bs = [b0, b1, b2, b3]" by (auto simp: length_Suc_conv numeral_eq_Suc)
  have "bytes_be 4 (word_be bs :: puint32) = bs" using bytes_be_word_be[where 'w = 32, of bs] bs by (simp add: numeral_eq_Suc)
  then show ?thesis using bs by (simp add: bytes_be_def numeral_eq_Suc drop_bit_drop_bit)
qed

lemma word_be_zero: "length bs = 4 \<Longrightarrow> (word_be bs :: puint32) = 0 \<longleftrightarrow> bs = replicate 4 0"
proof -
  assume len: "length bs = 4"
  have "bytes_be 4 (word_be bs :: puint32) = bs" using bytes_be_word_be[where 'w = 32, of bs] len by simp
  moreover have "bytes_be 4 (0 :: puint32) = replicate 4 0" by (simp add: bytes_be_def numeral_eq_Suc)
  moreover have "word_be (replicate 4 0) = (0 :: puint32)" by (simp add: word_be_def numeral_eq_Suc)
  ultimately show ?thesis by metis
qed

text \<open>
  The tests for special addresses, on a host of either byte order. An address is the
  any-address exactly when all its bytes are zero, and a loopback address exactly when its first byte
  is 127 (IPv4) or it is \<^verbatim>\<open>::1\<close> (IPv6).
\<close>

theorem socket_address_classification:
  assumes "addr_ok cfg a"
  shows "zsocket_address_is_any cfg (Some a) = (addr a = replicate 16 0) \<and>
    zsocket_address_is_loopback cfg (Some a) =
      (if family a = P_SOCKET_FAMILY_INET then hd (addr a) = 127 else addr a = replicate 15 0 @ [1])"
proof (cases "family a")
  case P_SOCKET_FAMILY_INET
  have ok: "length (addr a) = 16" "drop 4 (addr a) = replicate 12 0"
    using assms P_SOCKET_FAMILY_INET by (auto simp: addr_ok_def)
  let ?b = "take 4 (addr a)"
  have b: "length ?b = 4" "hd ?b = hd (addr a)" using ok(1) by (auto simp: hd_conv_nth)
  have w: "PUINT32_TO_BE (big_endian cfg) (native_word cfg (addr a) 0 4) = word_be ?b"
    using order_of_host_word(2)[OF b(1)] by (simp add: native_word_def)
  have "addr a = ?b @ replicate 12 0" using ok(2) by (metis append_take_drop_id)
  moreover have "replicate 16 (0 :: puchar) = replicate 4 0 @ replicate 12 0" by (simp flip: replicate_add)
  ultimately have "?b = replicate 4 0 \<longleftrightarrow> addr a = replicate 16 0"
    by (metis append_same_eq)
  then show ?thesis
    using P_SOCKET_FAMILY_INET w top_byte_eq[of "word_be ?b"] word_be_top[OF b(1)] word_be_zero[OF b(1)] b(2)
    by (simp add: zsocket_address_is_any_def zsocket_address_is_loopback_def)
qed (use assms in \<open>simp_all add: addr_ok_def zsocket_address_is_any_def zsocket_address_is_loopback_def\<close>)

theorem socket_address_classification_witness:
  "\<exists>a. zsocket_address_new_loopback True P_SOCKET_FAMILY_INET 80 = Some a \<and>
     zsocket_address_is_loopback \<lparr>big_endian = True, has_flowinfo = False, has_scopeid = False, has_getaddrinfo = False\<rparr> (Some a)"
proof -
  let ?cfg = "\<lparr>big_endian = True, has_flowinfo = False, has_scopeid = False, has_getaddrinfo = False\<rparr>"
  define a where "a = addr_zero\<lparr>addr := [127, 0, 0, 0] @ replicate 12 0, family := P_SOCKET_FAMILY_INET, port := 80\<rparr>"
  have "zsocket_address_new_loopback True P_SOCKET_FAMILY_INET 80 = Some a"
    by (simp add: zsocket_address_new_loopback_def memcpy_def addr_zero_def a_def)
  moreover have "addr_ok ?cfg a" by (simp add: addr_ok_def a_def addr_zero_def)
  then have "zsocket_address_is_loopback ?cfg (Some a)"
    using socket_address_classification[of ?cfg a] by (simp add: a_def)
  ultimately show ?thesis by blast
qed

end
