(* ===== verification/Thread_Counts.thy ===== *)
theory Thread_Counts
  imports Plibsys_Prelude
begin

text \<open>
  Counters of fifteen bits and the threads that they count: what the two implementations of the read-write
  lock share.
\<close>

unbundle bit_operations_syntax

section \<open>Small numbers in words\<close>

lemma bit_small: "r < 2 ^ 15 \<Longrightarrow> bit r n \<Longrightarrow> n < 15" for r :: nat
  by (metis bit_take_bit_iff take_bit_nat_eq_self)

lemma mask_bits:
  "bit (0x7FFF :: puint32) n \<longleftrightarrow> n < 15" "bit (0x3FFF8000 :: puint32) n \<longleftrightarrow> 15 \<le> n \<and> n < 30"
proof -
  have "(0x7FFF :: puint32) = mask 15" "(0x3FFF8000 :: puint32) = push_bit 15 (mask 15)" by code_simp+
  then have m: "bit (0x7FFF :: puint32) n = bit (mask 15 :: puint32) n"
      "bit (0x3FFF8000 :: puint32) n = bit (push_bit 15 (mask 15) :: puint32) n" by (simp_all only:)
  show "bit (0x7FFF :: puint32) n \<longleftrightarrow> n < 15" "bit (0x3FFF8000 :: puint32) n \<longleftrightarrow> 15 \<le> n \<and> n < 30"
    unfolding m bit_mask_iff bit_push_bit_iff possible_bit_word by auto
qed

lemma of_nat_32_inj: "r < 2 ^ 15 \<Longrightarrow> k < 2 ^ 15 \<Longrightarrow> (of_nat r :: puint32) = of_nat k \<longleftrightarrow> r = k"
proof -
  have u: "unat (of_nat n :: puint32) = n" if "n < 2 ^ 15" for n using that by (simp add: unat_of_nat)
  assume "r < 2 ^ 15" "k < 2 ^ 15"
  then show ?thesis using u[of r] u[of k] by metis
qed

lemma of_nat_32_zero: "r < 2 ^ 15 \<Longrightarrow> (of_nat r :: puint32) = 0 \<longleftrightarrow> r = 0"
  using of_nat_32_inj[of r 0] by simp

lemma of_nat_32_one: "r < 2 ^ 15 \<Longrightarrow> (of_nat r :: puint32) = 1 \<longleftrightarrow> r = 1"
  using of_nat_32_inj[of r 1] by simp

lemma of_nat_minus1: "0 < n \<Longrightarrow> (of_nat n :: puint32) - 1 = of_nat (n - 1)"
  by (cases n) simp_all

lemma unat_of_nat_15: "n < 2 ^ 15 \<Longrightarrow> unat (of_nat n :: puint32) = n"
  by (simp add: unat_of_nat)

text \<open>Two counters in one word.\<close>

definition pack :: "nat \<Rightarrow> nat \<Rightarrow> puint32" where
  "pack r w = of_nat r OR push_bit 15 (of_nat w)"

lemma bit_pack:
  assumes "r < 2 ^ 15" "w < 2 ^ 15"
  shows "bit (pack r w) n \<longleftrightarrow> bit r n \<or> 15 \<le> n \<and> bit w (n - 15)"
  using bit_small[OF assms(1), of n] bit_small[OF assms(2), of "n - 15"]
  by (auto simp: pack_def bit_or_iff bit_push_bit_iff bit_of_nat_iff possible_bit_word)

section \<open>Counting threads\<close>

text \<open>The number of threads below \<open>N\<close> whose state is in a set.\<close>

definition threads :: "nat \<Rightarrow> (nat \<Rightarrow> 'p) \<Rightarrow> 'p set \<Rightarrow> nat" where
  "threads N f S = card {i. i < N \<and> f i \<in> S}"

lemma threads_le: "threads N f S \<le> N"
proof -
  have "card {i. i < N \<and> f i \<in> S} \<le> card {..<N}" by (rule card_mono) auto
  then show ?thesis by (simp add: threads_def)
qed

lemma threads_upd:
  assumes "i < N"
  shows "threads N (f(i := p)) S + (if f i \<in> S then 1 else 0) = threads N f S + (if p \<in> S then 1 else 0)"
proof -
  let ?A = "{k. k < N \<and> k \<noteq> i \<and> f k \<in> S}"
  have *: "threads N g S = card ?A + (if g i \<in> S then 1 else 0)" if "\<forall>k. k \<noteq> i \<longrightarrow> g k = f k" for g
  proof (cases "g i \<in> S")
    case True
    then have "{k. k < N \<and> g k \<in> S} = insert i ?A" using that assms by auto
    then show ?thesis using True by (simp add: threads_def)
  next
    case False
    then have "{k. k < N \<and> g k \<in> S} = ?A" using that assms by auto
    then show ?thesis using False by (simp add: threads_def)
  qed
  show ?thesis using *[of f] *[of "f(i := p)"] by simp
qed

lemma threads_pos: "0 < threads N f S \<longleftrightarrow> (\<exists>i < N. f i \<in> S)"
  by (auto simp: threads_def card_gt_0_iff)

lemma threads_zero: "threads N f S = 0 \<longleftrightarrow> (\<forall>i < N. f i \<notin> S)"
  using threads_pos[of N f S] by auto

lemma threads_in_pos: "i < N \<Longrightarrow> f i \<in> S \<Longrightarrow> 0 < threads N f S"
  by (auto simp: threads_pos)

lemma threads_room:
  assumes "i < N" "f i \<notin> S"
  shows "threads N f S + 1 \<le> N"
proof -
  have "card {k. k < N \<and> f k \<in> S} \<le> card ({..<N} - {i})" using assms by (intro card_mono) auto
  then show ?thesis using assms(1) by (simp add: threads_def)
qed

lemma threads_upd_eq:
  "i < N \<Longrightarrow> threads N (f(i := p)) S =
   (if p \<in> S then (if f i \<in> S then threads N f S else threads N f S + 1)
    else (if f i \<in> S then threads N f S - 1 else threads N f S))"
  using threads_upd[of i N f p S] by (auto split: if_splits)

lemma threads_one_alone:
  assumes "threads N f S = 1" "i < N" "j < N" "f i \<in> S" "f j \<in> S"
  shows "i = j"
proof -
  obtain k where k: "{i. i < N \<and> f i \<in> S} = {k}"
    using assms(1) unfolding threads_def by (rule card_1_singletonE)
  have "i \<in> {i. i < N \<and> f i \<in> S}" "j \<in> {i. i < N \<and> f i \<in> S}" using assms(2-5) by simp_all
  then show ?thesis unfolding k by simp
qed

end
