(* ===== verification/PRWLock.thy ===== *)
theory PRWLock
  imports Thread_Counts
begin

text \<open>
  The general read-write lock of \<^verbatim>\<open>src/src/tmp/prwlock-general.c\<close>, built from a mutex and two
  condition variables. The code between taking the mutex and giving it up, by unlocking it or by
  waiting on a condition variable, runs alone and is one function here; a lock function is
  cut at its wait. The outcomes of the calls to the mutex and the condition variables are
  parameters. On top of these functions a step relation interleaves any number of threads.
\<close>

unbundle bit_operations_syntax

section \<open>The counters\<close>

definition P_RWLOCK_SET_READERS :: "puint32 \<Rightarrow> puint32 \<Rightarrow> puint32" where
  "P_RWLOCK_SET_READERS lock readers = (lock AND NOT 0x00007FFF) OR readers"

definition P_RWLOCK_READER_COUNT :: "puint32 \<Rightarrow> puint32" where
  "P_RWLOCK_READER_COUNT lock = lock AND 0x00007FFF"

definition P_RWLOCK_SET_WRITERS :: "puint32 \<Rightarrow> puint32 \<Rightarrow> puint32" where
  "P_RWLOCK_SET_WRITERS lock writers = (lock AND NOT 0x3FFF8000) OR push_bit 15 writers"

definition P_RWLOCK_WRITER_COUNT :: "puint32 \<Rightarrow> puint32" where
  "P_RWLOCK_WRITER_COUNT lock = drop_bit 15 (lock AND 0x3FFF8000)"

record PRWLock =
  active_threads :: puint32
  waiting_threads :: puint32

text \<open>The outcomes of \<^verbatim>\<open>zmutex_lock\<close>, \<^verbatim>\<open>zmutex_unlock\<close> and of a signal or broadcast.\<close>

record rw_call =
  mutex_lock_ok :: bool
  mutex_unlock_ok :: bool
  cond_ok :: bool

section \<open>Construction\<close>

text \<open>
  The flags are the outcomes of the allocation, of \<^verbatim>\<open>zmutex_new\<close> and of the two calls to
  \<^verbatim>\<open>zcond_variable_new\<close>. The branches for the last three free the lock and go on.
\<close>

datatype new_outcome = New_Null | New_Lock PRWLock | Write_After_Free | Freed_Pointer

definition zrwlock_new :: "bool \<Rightarrow> bool \<Rightarrow> bool \<Rightarrow> bool \<Rightarrow> new_outcome" where
  "zrwlock_new mem mutex read_cv write_cv =
     (if \<not> mem then New_Null
      else if \<not> mutex then Write_After_Free
      else if \<not> read_cv then Write_After_Free
      else if \<not> write_cv then Freed_Pointer
      else New_Lock \<lparr>active_threads = 0, waiting_threads = 0\<rparr>)"

section \<open>Readers\<close>

text \<open>A lock function returns or stops at its wait.\<close>

datatype progress = Returned bool | Cond_Wait

definition reader_lock_end :: "rw_call \<Rightarrow> bool \<Rightarrow> PRWLock \<Rightarrow> PRWLock \<times> progress" where
  "reader_lock_end c wait_ok l =
     (if wait_ok
      then l\<lparr>active_threads := P_RWLOCK_SET_READERS (active_threads l) (P_RWLOCK_READER_COUNT (active_threads l) + 1)\<rparr>
      else l,
      Returned (if \<not> mutex_unlock_ok c then False else wait_ok))"

text \<open>After \<^verbatim>\<open>zcond_variable_wait\<close> returned \<open>wait_ok\<close>: the loop test and what follows the loop.\<close>

definition reader_lock_resume :: "rw_call \<Rightarrow> bool \<Rightarrow> PRWLock \<Rightarrow> PRWLock \<times> progress" where
  "reader_lock_resume c wait_ok l =
     (if wait_ok \<and> P_RWLOCK_WRITER_COUNT (active_threads l) \<noteq> 0 then (l, Cond_Wait)
      else reader_lock_end c wait_ok
        (l\<lparr>waiting_threads := P_RWLOCK_SET_READERS (waiting_threads l) (P_RWLOCK_READER_COUNT (waiting_threads l) - 1)\<rparr>))"

definition zrwlock_reader_lock :: "rw_call \<Rightarrow> PRWLock option \<Rightarrow> PRWLock option \<times> progress" where
  "zrwlock_reader_lock c lp =
     (case lp of
        None \<Rightarrow> (None, Returned False)
      | Some l \<Rightarrow>
          if \<not> mutex_lock_ok c then (lp, Returned False)
          else if P_RWLOCK_WRITER_COUNT (active_threads l) \<noteq> 0
          then (Some (l\<lparr>waiting_threads :=
                  P_RWLOCK_SET_READERS (waiting_threads l) (P_RWLOCK_READER_COUNT (waiting_threads l) + 1)\<rparr>), Cond_Wait)
          else map_prod Some id (reader_lock_end c True l))"

definition zrwlock_reader_trylock :: "rw_call \<Rightarrow> PRWLock option \<Rightarrow> PRWLock option \<times> bool" where
  "zrwlock_reader_trylock c lp =
     (case lp of
        None \<Rightarrow> (None, False)
      | Some l \<Rightarrow>
          if \<not> mutex_lock_ok c then (lp, False)
          else if P_RWLOCK_WRITER_COUNT (active_threads l) \<noteq> 0 then (lp, False)
          else (Some (l\<lparr>active_threads :=
                  P_RWLOCK_SET_READERS (active_threads l) (P_RWLOCK_READER_COUNT (active_threads l) + 1)\<rparr>),
                mutex_unlock_ok c))"

text \<open>What an unlock function asks of the condition variables.\<close>

datatype wakeup = No_Wakeup | Signal_Write_Cv | Broadcast_Read_Cv

definition zrwlock_reader_unlock :: "rw_call \<Rightarrow> PRWLock option \<Rightarrow> PRWLock option \<times> wakeup \<times> bool" where
  "zrwlock_reader_unlock c lp =
     (case lp of
        None \<Rightarrow> (None, No_Wakeup, False)
      | Some l \<Rightarrow>
          if \<not> mutex_lock_ok c then (lp, No_Wakeup, False)
          else
            let reader_count = P_RWLOCK_READER_COUNT (active_threads l)
            in if reader_count = 0 then (lp, No_Wakeup, True)
               else
                 let l' = l\<lparr>active_threads := P_RWLOCK_SET_READERS (active_threads l) (reader_count - 1)\<rparr>;
                     signal = (reader_count = 1 \<and> P_RWLOCK_WRITER_COUNT (waiting_threads l) \<noteq> 0)
                 in (Some l', if signal then Signal_Write_Cv else No_Wakeup,
                     if \<not> mutex_unlock_ok c then False else signal \<longrightarrow> cond_ok c))"

section \<open>Writers\<close>

definition writer_lock_end :: "rw_call \<Rightarrow> bool \<Rightarrow> PRWLock \<Rightarrow> PRWLock \<times> progress" where
  "writer_lock_end c wait_ok l =
     (if wait_ok then l\<lparr>active_threads := P_RWLOCK_SET_WRITERS (active_threads l) 1\<rparr> else l,
      Returned (if \<not> mutex_unlock_ok c then False else wait_ok))"

definition writer_lock_resume :: "rw_call \<Rightarrow> bool \<Rightarrow> PRWLock \<Rightarrow> PRWLock \<times> progress" where
  "writer_lock_resume c wait_ok l =
     (if wait_ok \<and> active_threads l \<noteq> 0 then (l, Cond_Wait)
      else writer_lock_end c wait_ok
        (l\<lparr>waiting_threads := P_RWLOCK_SET_WRITERS (waiting_threads l) (P_RWLOCK_WRITER_COUNT (waiting_threads l) - 1)\<rparr>))"

definition zrwlock_writer_lock :: "rw_call \<Rightarrow> PRWLock option \<Rightarrow> PRWLock option \<times> progress" where
  "zrwlock_writer_lock c lp =
     (case lp of
        None \<Rightarrow> (None, Returned False)
      | Some l \<Rightarrow>
          if \<not> mutex_lock_ok c then (lp, Returned False)
          else if active_threads l \<noteq> 0
          then (Some (l\<lparr>waiting_threads :=
                  P_RWLOCK_SET_WRITERS (waiting_threads l) (P_RWLOCK_WRITER_COUNT (waiting_threads l) + 1)\<rparr>), Cond_Wait)
          else map_prod Some id (writer_lock_end c True l))"

definition zrwlock_writer_trylock :: "rw_call \<Rightarrow> PRWLock option \<Rightarrow> PRWLock option \<times> bool" where
  "zrwlock_writer_trylock c lp =
     (case lp of
        None \<Rightarrow> (None, False)
      | Some l \<Rightarrow>
          if \<not> mutex_lock_ok c then (lp, False)
          else if active_threads l \<noteq> 0 then (lp, False)
          else (Some (l\<lparr>active_threads := P_RWLOCK_SET_WRITERS (active_threads l) 1\<rparr>), mutex_unlock_ok c))"

definition zrwlock_writer_unlock :: "rw_call \<Rightarrow> PRWLock option \<Rightarrow> PRWLock option \<times> wakeup \<times> bool" where
  "zrwlock_writer_unlock c lp =
     (case lp of
        None \<Rightarrow> (None, No_Wakeup, False)
      | Some l \<Rightarrow>
          if \<not> mutex_lock_ok c then (lp, No_Wakeup, False)
          else
            let l' = l\<lparr>active_threads := P_RWLOCK_SET_WRITERS (active_threads l) 0\<rparr>;
                wake = (if P_RWLOCK_WRITER_COUNT (waiting_threads l) \<noteq> 0 then Signal_Write_Cv
                        else if P_RWLOCK_READER_COUNT (waiting_threads l) \<noteq> 0 then Broadcast_Read_Cv
                        else No_Wakeup)
            in (Some l', wake, if \<not> mutex_unlock_ok c then False else wake \<noteq> No_Wakeup \<longrightarrow> cond_ok c))"

section \<open>Threads\<close>

text \<open>
  Threads \<open>0 .. N - 1\<close> use the lock. A waiting thread is asleep or has been woken and not yet run.
\<close>

datatype rw_pc = Idle | Reading | Writing | Read_Sleep | Read_Woken | Write_Sleep | Write_Woken

record rw_sys =
  rwlock :: PRWLock
  pcs :: "nat \<Rightarrow> rw_pc"

definition rw_init :: "rw_sys \<Rightarrow> bool" where
  "rw_init s \<longleftrightarrow> zrwlock_new True True True True = New_Lock (rwlock s) \<and> pcs s = (\<lambda>_. Idle)"

abbreviation calls_ok :: rw_call where
  "calls_ok \<equiv> \<lparr>mutex_lock_ok = True, mutex_unlock_ok = True, cond_ok = True\<rparr>"

text \<open>A signal wakes one sleeping thread if there is one, a broadcast all.\<close>

inductive wakes :: "nat \<Rightarrow> wakeup \<Rightarrow> (nat \<Rightarrow> rw_pc) \<Rightarrow> (nat \<Rightarrow> rw_pc) \<Rightarrow> bool" for N where
  wakes_none: "wakes N No_Wakeup f f"
| wakes_writer: "j < N \<Longrightarrow> f j = Write_Sleep \<Longrightarrow> wakes N Signal_Write_Cv f (f(j := Write_Woken))"
| wakes_nobody: "\<forall>j < N. f j \<noteq> Write_Sleep \<Longrightarrow> wakes N Signal_Write_Cv f f"
| wakes_readers: "wakes N Broadcast_Read_Cv f (\<lambda>j. if f j = Read_Sleep then Read_Woken else f j)"

text \<open>
  One critical section of one thread, or a wake-up without a signal. With \<open>fails\<close> a wait may also
  return an error.
\<close>

inductive rw_step :: "nat \<Rightarrow> bool \<Rightarrow> rw_sys \<Rightarrow> rw_sys \<Rightarrow> bool" for N fails where
  rd_lock: "i < N \<Longrightarrow> pcs s i = Idle \<Longrightarrow> zrwlock_reader_lock calls_ok (Some (rwlock s)) = (Some l, r) \<Longrightarrow>
    rw_step N fails s \<lparr>rwlock = l, pcs = (pcs s)(i := if r = Cond_Wait then Read_Sleep else Reading)\<rparr>"
| rd_resume: "i < N \<Longrightarrow> pcs s i = Read_Woken \<Longrightarrow> reader_lock_resume calls_ok True (rwlock s) = (l, r) \<Longrightarrow>
    rw_step N fails s \<lparr>rwlock = l, pcs = (pcs s)(i := if r = Cond_Wait then Read_Sleep else Reading)\<rparr>"
| rd_fail: "fails \<Longrightarrow> i < N \<Longrightarrow> pcs s i \<in> {Read_Sleep, Read_Woken} \<Longrightarrow> reader_lock_resume calls_ok False (rwlock s) = (l, r) \<Longrightarrow>
    rw_step N fails s \<lparr>rwlock = l, pcs = (pcs s)(i := Idle)\<rparr>"
| rd_try: "i < N \<Longrightarrow> pcs s i = Idle \<Longrightarrow> zrwlock_reader_trylock calls_ok (Some (rwlock s)) = (Some l, b) \<Longrightarrow>
    rw_step N fails s \<lparr>rwlock = l, pcs = (pcs s)(i := if b then Reading else Idle)\<rparr>"
| rd_unlock: "i < N \<Longrightarrow> pcs s i = Reading \<Longrightarrow> zrwlock_reader_unlock calls_ok (Some (rwlock s)) = (Some l, w, b) \<Longrightarrow>
    wakes N w ((pcs s)(i := Idle)) f \<Longrightarrow> rw_step N fails s \<lparr>rwlock = l, pcs = f\<rparr>"
| wr_lock: "i < N \<Longrightarrow> pcs s i = Idle \<Longrightarrow> zrwlock_writer_lock calls_ok (Some (rwlock s)) = (Some l, r) \<Longrightarrow>
    rw_step N fails s \<lparr>rwlock = l, pcs = (pcs s)(i := if r = Cond_Wait then Write_Sleep else Writing)\<rparr>"
| wr_resume: "i < N \<Longrightarrow> pcs s i = Write_Woken \<Longrightarrow> writer_lock_resume calls_ok True (rwlock s) = (l, r) \<Longrightarrow>
    rw_step N fails s \<lparr>rwlock = l, pcs = (pcs s)(i := if r = Cond_Wait then Write_Sleep else Writing)\<rparr>"
| wr_fail: "fails \<Longrightarrow> i < N \<Longrightarrow> pcs s i \<in> {Write_Sleep, Write_Woken} \<Longrightarrow> writer_lock_resume calls_ok False (rwlock s) = (l, r) \<Longrightarrow>
    rw_step N fails s \<lparr>rwlock = l, pcs = (pcs s)(i := Idle)\<rparr>"
| wr_try: "i < N \<Longrightarrow> pcs s i = Idle \<Longrightarrow> zrwlock_writer_trylock calls_ok (Some (rwlock s)) = (Some l, b) \<Longrightarrow>
    rw_step N fails s \<lparr>rwlock = l, pcs = (pcs s)(i := if b then Writing else Idle)\<rparr>"
| wr_unlock: "i < N \<Longrightarrow> pcs s i = Writing \<Longrightarrow> zrwlock_writer_unlock calls_ok (Some (rwlock s)) = (Some l, w, b) \<Longrightarrow>
    wakes N w ((pcs s)(i := Idle)) f \<Longrightarrow> rw_step N fails s \<lparr>rwlock = l, pcs = f\<rparr>"
| rd_spurious: "i < N \<Longrightarrow> pcs s i = Read_Sleep \<Longrightarrow> rw_step N fails s (s\<lparr>pcs := (pcs s)(i := Read_Woken)\<rparr>)"
| wr_spurious: "i < N \<Longrightarrow> pcs s i = Write_Sleep \<Longrightarrow> rw_step N fails s (s\<lparr>pcs := (pcs s)(i := Write_Woken)\<rparr>)"

inductive rw_reachable :: "nat \<Rightarrow> bool \<Rightarrow> rw_sys \<Rightarrow> bool" for N fails where
  rw_start: "rw_init s \<Longrightarrow> rw_reachable N fails s"
| rw_next: "rw_reachable N fails s \<Longrightarrow> rw_step N fails s t \<Longrightarrow> rw_reachable N fails t"

section \<open>Packed counters\<close>

lemma pack_counts:
  assumes "r < 2 ^ 15" "w < 2 ^ 15"
  shows "P_RWLOCK_READER_COUNT (pack r w) = of_nat r" "P_RWLOCK_WRITER_COUNT (pack r w) = of_nat w"
    "r' < 2 ^ 15 \<Longrightarrow> P_RWLOCK_SET_READERS (pack r w) (of_nat r') = pack r' w"
    "w' < 2 ^ 15 \<Longrightarrow> P_RWLOCK_SET_WRITERS (pack r w) (of_nat w') = pack r w'"
proof -
  note b = bit_small[OF assms(1)] bit_small[OF assms(2)]
  note simps = bit_and_iff bit_or_iff bit_not_iff bit_push_bit_iff bit_drop_bit_eq mask_bits bit_of_nat_iff possible_bit_word comp_def
  show "P_RWLOCK_READER_COUNT (pack r w) = of_nat r"
    by (rule bit_word_eqI) (unfold P_RWLOCK_READER_COUNT_def bit_pack[OF assms] simps, use b in auto)
  show "P_RWLOCK_WRITER_COUNT (pack r w) = of_nat w"
    by (rule bit_word_eqI) (unfold P_RWLOCK_WRITER_COUNT_def bit_pack[OF assms] simps, use b in fastforce)
  show "P_RWLOCK_SET_READERS (pack r w) (of_nat r') = pack r' w" if "r' < 2 ^ 15"
    by (rule bit_word_eqI)
      (unfold P_RWLOCK_SET_READERS_def bit_pack[OF assms] bit_pack[OF that assms(2)] simps, use b bit_small[OF that] in fastforce)
  show "P_RWLOCK_SET_WRITERS (pack r w) (of_nat w') = pack r w'" if "w' < 2 ^ 15"
    by (rule bit_word_eqI)
      (unfold P_RWLOCK_SET_WRITERS_def bit_pack[OF assms] bit_pack[OF assms(1) that] simps, use b bit_small[OF that] in fastforce)
qed

lemma pack_zero: "r < 2 ^ 15 \<Longrightarrow> w < 2 ^ 15 \<Longrightarrow> pack r w = 0 \<longleftrightarrow> r = 0 \<and> w = 0"
  using pack_counts(1,2)[of r w] by (auto simp: P_RWLOCK_READER_COUNT_def P_RWLOCK_WRITER_COUNT_def of_nat_32_zero pack_def)

section \<open>The invariant\<close>

abbreviation rd_waiting :: "rw_pc set" where
  "rd_waiting \<equiv> {Read_Sleep, Read_Woken}"

abbreviation wr_waiting :: "rw_pc set" where
  "wr_waiting \<equiv> {Write_Sleep, Write_Woken}"

text \<open>The counters count the threads, and a writer is alone.\<close>

definition rw_inv :: "nat \<Rightarrow> rw_sys \<Rightarrow> bool" where
  "rw_inv N s \<longleftrightarrow>
     active_threads (rwlock s) = pack (threads N (pcs s) {Reading}) (threads N (pcs s) {Writing}) \<and>
     waiting_threads (rwlock s) = pack (threads N (pcs s) rd_waiting) (threads N (pcs s) wr_waiting) \<and>
     (threads N (pcs s) {Writing} = 0 \<or> threads N (pcs s) {Writing} = 1 \<and> threads N (pcs s) {Reading} = 0)"

text \<open>Waking threads up leaves the four counts as they are.\<close>

lemma wakes_threads:
  assumes "wakes N w f g"
  shows "threads N g {Reading} = threads N f {Reading}" "threads N g {Writing} = threads N f {Writing}"
    "threads N g rd_waiting = threads N f rd_waiting" "threads N g wr_waiting = threads N f wr_waiting"
proof -
  have "\<forall>i. (g i = Reading) = (f i = Reading) \<and> (g i = Writing) = (f i = Writing) \<and>
    (g i \<in> rd_waiting) = (f i \<in> rd_waiting) \<and> (g i \<in> wr_waiting) = (f i \<in> wr_waiting)"
    using assms by (cases rule: wakes.cases) auto
  then show "threads N g {Reading} = threads N f {Reading}" "threads N g {Writing} = threads N f {Writing}"
    "threads N g rd_waiting = threads N f rd_waiting" "threads N g wr_waiting = threads N f wr_waiting"
    by (simp_all add: threads_def)
qed

lemma rw_inv_init: "rw_init s \<Longrightarrow> rw_inv N s"
proof -
  assume "rw_init s"
  then have "rwlock s = \<lparr>active_threads = 0, waiting_threads = 0\<rparr>" "pcs s = (\<lambda>_. Idle)"
    by (simp_all add: rw_init_def zrwlock_new_def)
  then show ?thesis by (simp add: rw_inv_def threads_def pack_def)
qed

text \<open>What each critical section does to the counters, in terms of the counts.\<close>

definition packed :: "PRWLock \<Rightarrow> nat \<Rightarrow> nat \<Rightarrow> nat \<Rightarrow> nat \<Rightarrow> bool" where
  "packed l r w rw ww \<longleftrightarrow>
     active_threads l = pack r w \<and> waiting_threads l = pack rw ww \<and>
     r < 2 ^ 15 \<and> w < 2 ^ 15 \<and> rw < 2 ^ 15 \<and> ww < 2 ^ 15"

lemmas packed_simps = pack_counts of_nat_32_zero of_nat_32_one pack_zero

lemma set_readers_plus: "r + 1 < 2 ^ 15 \<Longrightarrow> w < 2 ^ 15 \<Longrightarrow> P_RWLOCK_SET_READERS (pack r w) (of_nat r + 1) = pack (r + 1) w"
  using pack_counts(3)[of r w "r + 1"] by (simp add: add.commute)

lemma set_readers_minus: "0 < r \<Longrightarrow> r < 2 ^ 15 \<Longrightarrow> w < 2 ^ 15 \<Longrightarrow> P_RWLOCK_SET_READERS (pack r w) (of_nat r - 1) = pack (r - 1) w"
  unfolding of_nat_minus1 by (rule pack_counts(3)) simp_all

lemma set_writers_minus: "r < 2 ^ 15 \<Longrightarrow> 0 < w \<Longrightarrow> w < 2 ^ 15 \<Longrightarrow> P_RWLOCK_SET_WRITERS (pack r w) (of_nat w - 1) = pack r (w - 1)"
  unfolding of_nat_minus1 by (rule pack_counts(4)) simp_all

lemma set_writers_plus: "r < 2 ^ 15 \<Longrightarrow> w + 1 < 2 ^ 15 \<Longrightarrow> P_RWLOCK_SET_WRITERS (pack r w) (of_nat w + 1) = pack r (w + 1)"
  using pack_counts(4)[of r w "w + 1"] by (simp add: add.commute)

lemma set_writers_const:
  assumes "r < 2 ^ 15" "w < 2 ^ 15"
  shows "P_RWLOCK_SET_WRITERS (pack r w) 1 = pack r 1" "P_RWLOCK_SET_WRITERS (pack r w) 0 = pack r 0"
  using pack_counts(4)[OF assms, of 1] pack_counts(4)[OF assms, of 0] by simp_all

lemma reader_ops_packed:
  assumes "packed l r w rw ww"
  shows "r + 1 < 2 ^ 15 \<Longrightarrow> rw + 1 < 2 ^ 15 \<Longrightarrow> zrwlock_reader_lock calls_ok (Some l) =
      (if w = 0 then (Some (l\<lparr>active_threads := pack (r + 1) w\<rparr>), Returned True)
       else (Some (l\<lparr>waiting_threads := pack (rw + 1) ww\<rparr>), Cond_Wait))"
    "r + 1 < 2 ^ 15 \<Longrightarrow> 0 < rw \<Longrightarrow> reader_lock_resume calls_ok True l =
      (if w = 0 then (l\<lparr>active_threads := pack (r + 1) w, waiting_threads := pack (rw - 1) ww\<rparr>, Returned True)
       else (l, Cond_Wait))"
    "0 < rw \<Longrightarrow> reader_lock_resume calls_ok False l = (l\<lparr>waiting_threads := pack (rw - 1) ww\<rparr>, Returned False)"
    "r + 1 < 2 ^ 15 \<Longrightarrow> zrwlock_reader_trylock calls_ok (Some l) =
      (if w = 0 then (Some (l\<lparr>active_threads := pack (r + 1) w\<rparr>), True) else (Some l, False))"
    "0 < r \<Longrightarrow> zrwlock_reader_unlock calls_ok (Some l) =
      (Some (l\<lparr>active_threads := pack (r - 1) w\<rparr>), if r = 1 \<and> 0 < ww then Signal_Write_Cv else No_Wakeup, True)"
proof -
  have b: "active_threads l = pack r w" "waiting_threads l = pack rw ww" "r < 2 ^ 15" "w < 2 ^ 15" "rw < 2 ^ 15" "ww < 2 ^ 15"
    using assms by (simp_all only: packed_def)
  note ops = zrwlock_reader_lock_def reader_lock_resume_def reader_lock_end_def zrwlock_reader_trylock_def zrwlock_reader_unlock_def
  note rules = packed_simps set_readers_plus set_readers_minus
  show "r + 1 < 2 ^ 15 \<Longrightarrow> rw + 1 < 2 ^ 15 \<Longrightarrow> zrwlock_reader_lock calls_ok (Some l) =
      (if w = 0 then (Some (l\<lparr>active_threads := pack (r + 1) w\<rparr>), Returned True)
       else (Some (l\<lparr>waiting_threads := pack (rw + 1) ww\<rparr>), Cond_Wait))"
    using b by (cases "w = 0") (simp_all add: ops rules)
  show "r + 1 < 2 ^ 15 \<Longrightarrow> 0 < rw \<Longrightarrow> reader_lock_resume calls_ok True l =
      (if w = 0 then (l\<lparr>active_threads := pack (r + 1) w, waiting_threads := pack (rw - 1) ww\<rparr>, Returned True)
       else (l, Cond_Wait))"
    using b by (cases "w = 0") (simp_all add: ops rules)
  show "0 < rw \<Longrightarrow> reader_lock_resume calls_ok False l = (l\<lparr>waiting_threads := pack (rw - 1) ww\<rparr>, Returned False)"
    using b by (cases "w = 0") (simp_all add: ops rules)
  show "r + 1 < 2 ^ 15 \<Longrightarrow> zrwlock_reader_trylock calls_ok (Some l) =
      (if w = 0 then (Some (l\<lparr>active_threads := pack (r + 1) w\<rparr>), True) else (Some l, False))"
    using b by (cases "w = 0") (simp_all add: ops rules)
  show "0 < r \<Longrightarrow> zrwlock_reader_unlock calls_ok (Some l) =
      (Some (l\<lparr>active_threads := pack (r - 1) w\<rparr>), if r = 1 \<and> 0 < ww then Signal_Write_Cv else No_Wakeup, True)"
    using b by (simp add: ops rules Let_def)
qed

lemma writer_ops_packed:
  assumes "packed l r w rw ww"
  shows "ww + 1 < 2 ^ 15 \<Longrightarrow> zrwlock_writer_lock calls_ok (Some l) =
      (if r = 0 \<and> w = 0 then (Some (l\<lparr>active_threads := pack r 1\<rparr>), Returned True)
       else (Some (l\<lparr>waiting_threads := pack rw (ww + 1)\<rparr>), Cond_Wait))"
    "0 < ww \<Longrightarrow> writer_lock_resume calls_ok True l =
      (if r = 0 \<and> w = 0 then (l\<lparr>active_threads := pack r 1, waiting_threads := pack rw (ww - 1)\<rparr>, Returned True)
       else (l, Cond_Wait))"
    "0 < ww \<Longrightarrow> writer_lock_resume calls_ok False l = (l\<lparr>waiting_threads := pack rw (ww - 1)\<rparr>, Returned False)"
    "zrwlock_writer_trylock calls_ok (Some l) =
      (if r = 0 \<and> w = 0 then (Some (l\<lparr>active_threads := pack r 1\<rparr>), True) else (Some l, False))"
    "zrwlock_writer_unlock calls_ok (Some l) =
      (Some (l\<lparr>active_threads := pack r 0\<rparr>),
       if 0 < ww then Signal_Write_Cv else if 0 < rw then Broadcast_Read_Cv else No_Wakeup, True)"
proof -
  have b: "active_threads l = pack r w" "waiting_threads l = pack rw ww" "r < 2 ^ 15" "w < 2 ^ 15" "rw < 2 ^ 15" "ww < 2 ^ 15"
    using assms by (simp_all only: packed_def)
  note ops = zrwlock_writer_lock_def writer_lock_resume_def writer_lock_end_def zrwlock_writer_trylock_def zrwlock_writer_unlock_def
  note rules = packed_simps set_writers_plus set_writers_minus set_writers_const
  show "ww + 1 < 2 ^ 15 \<Longrightarrow> zrwlock_writer_lock calls_ok (Some l) =
      (if r = 0 \<and> w = 0 then (Some (l\<lparr>active_threads := pack r 1\<rparr>), Returned True)
       else (Some (l\<lparr>waiting_threads := pack rw (ww + 1)\<rparr>), Cond_Wait))"
    using b by (cases "r = 0"; cases "w = 0") (simp_all add: ops rules)
  show "0 < ww \<Longrightarrow> writer_lock_resume calls_ok True l =
      (if r = 0 \<and> w = 0 then (l\<lparr>active_threads := pack r 1, waiting_threads := pack rw (ww - 1)\<rparr>, Returned True)
       else (l, Cond_Wait))"
    using b by (cases "r = 0"; cases "w = 0") (simp_all add: ops rules)
  show "0 < ww \<Longrightarrow> writer_lock_resume calls_ok False l = (l\<lparr>waiting_threads := pack rw (ww - 1)\<rparr>, Returned False)"
    using b by (cases "r = 0"; cases "w = 0") (simp_all add: ops rules)
  show "zrwlock_writer_trylock calls_ok (Some l) =
      (if r = 0 \<and> w = 0 then (Some (l\<lparr>active_threads := pack r 1\<rparr>), True) else (Some l, False))"
    using b by (cases "r = 0"; cases "w = 0") (simp_all add: ops rules)
  show "zrwlock_writer_unlock calls_ok (Some l) =
      (Some (l\<lparr>active_threads := pack r 0\<rparr>),
       if 0 < ww then Signal_Write_Cv else if 0 < rw then Broadcast_Read_Cv else No_Wakeup, True)"
    using b by (simp add: ops rules Let_def)
qed

text \<open>Every step keeps the invariant.\<close>

lemma rw_inv_packed:
  assumes "rw_inv N s" "N < 2 ^ 15"
  shows "packed (rwlock s) (threads N (pcs s) {Reading}) (threads N (pcs s) {Writing})
    (threads N (pcs s) rd_waiting) (threads N (pcs s) wr_waiting)"
  using assms threads_le[of N "pcs s"] by (auto simp: rw_inv_def packed_def intro: le_less_trans)

text \<open>The critical sections of a thread in a state that satisfies the invariant.\<close>

abbreviation readers :: "nat \<Rightarrow> rw_sys \<Rightarrow> nat" where
  "readers N s \<equiv> threads N (pcs s) {Reading}"

abbreviation writers :: "nat \<Rightarrow> rw_sys \<Rightarrow> nat" where
  "writers N s \<equiv> threads N (pcs s) {Writing}"

abbreviation waiting_readers :: "nat \<Rightarrow> rw_sys \<Rightarrow> nat" where
  "waiting_readers N s \<equiv> threads N (pcs s) rd_waiting"

abbreviation waiting_writers :: "nat \<Rightarrow> rw_sys \<Rightarrow> nat" where
  "waiting_writers N s \<equiv> threads N (pcs s) wr_waiting"

lemma reader_steps:
  assumes "rw_inv N s" "N < 2 ^ 15" "i < N"
  shows "pcs s i = Idle \<Longrightarrow> zrwlock_reader_lock calls_ok (Some (rwlock s)) =
      (if writers N s = 0 then (Some (rwlock s\<lparr>active_threads := pack (readers N s + 1) (writers N s)\<rparr>), Returned True)
       else (Some (rwlock s\<lparr>waiting_threads := pack (waiting_readers N s + 1) (waiting_writers N s)\<rparr>), Cond_Wait))"
    "pcs s i = Read_Woken \<Longrightarrow> reader_lock_resume calls_ok True (rwlock s) =
      (if writers N s = 0 then (rwlock s\<lparr>active_threads := pack (readers N s + 1) (writers N s),
          waiting_threads := pack (waiting_readers N s - 1) (waiting_writers N s)\<rparr>, Returned True)
       else (rwlock s, Cond_Wait))"
    "pcs s i \<in> rd_waiting \<Longrightarrow> reader_lock_resume calls_ok False (rwlock s) =
      (rwlock s\<lparr>waiting_threads := pack (waiting_readers N s - 1) (waiting_writers N s)\<rparr>, Returned False)"
    "pcs s i = Idle \<Longrightarrow> zrwlock_reader_trylock calls_ok (Some (rwlock s)) =
      (if writers N s = 0 then (Some (rwlock s\<lparr>active_threads := pack (readers N s + 1) (writers N s)\<rparr>), True)
       else (Some (rwlock s), False))"
    "pcs s i = Reading \<Longrightarrow> zrwlock_reader_unlock calls_ok (Some (rwlock s)) =
      (Some (rwlock s\<lparr>active_threads := pack (readers N s - 1) (writers N s)\<rparr>),
       if readers N s = 1 \<and> 0 < waiting_writers N s then Signal_Write_Cv else No_Wakeup, True)"
  using reader_ops_packed[OF rw_inv_packed[OF assms(1,2)]] threads_room[of i N "pcs s" rd_waiting] threads_room[of i N "pcs s" "{Reading}"]
    threads_in_pos[of i N "pcs s" rd_waiting] threads_in_pos[of i N "pcs s" "{Reading}"] assms(2,3)
  by auto

lemma writer_steps:
  assumes "rw_inv N s" "N < 2 ^ 15" "i < N"
  shows "pcs s i = Idle \<Longrightarrow> zrwlock_writer_lock calls_ok (Some (rwlock s)) =
      (if readers N s = 0 \<and> writers N s = 0 then (Some (rwlock s\<lparr>active_threads := pack (readers N s) 1\<rparr>), Returned True)
       else (Some (rwlock s\<lparr>waiting_threads := pack (waiting_readers N s) (waiting_writers N s + 1)\<rparr>), Cond_Wait))"
    "pcs s i = Write_Woken \<Longrightarrow> writer_lock_resume calls_ok True (rwlock s) =
      (if readers N s = 0 \<and> writers N s = 0 then (rwlock s\<lparr>active_threads := pack (readers N s) 1,
          waiting_threads := pack (waiting_readers N s) (waiting_writers N s - 1)\<rparr>, Returned True)
       else (rwlock s, Cond_Wait))"
    "pcs s i \<in> wr_waiting \<Longrightarrow> writer_lock_resume calls_ok False (rwlock s) =
      (rwlock s\<lparr>waiting_threads := pack (waiting_readers N s) (waiting_writers N s - 1)\<rparr>, Returned False)"
    "zrwlock_writer_trylock calls_ok (Some (rwlock s)) =
      (if readers N s = 0 \<and> writers N s = 0 then (Some (rwlock s\<lparr>active_threads := pack (readers N s) 1\<rparr>), True)
       else (Some (rwlock s), False))"
    "zrwlock_writer_unlock calls_ok (Some (rwlock s)) =
      (Some (rwlock s\<lparr>active_threads := pack (readers N s) 0\<rparr>),
       if 0 < waiting_writers N s then Signal_Write_Cv
       else if 0 < waiting_readers N s then Broadcast_Read_Cv else No_Wakeup, True)"
  using writer_ops_packed[OF rw_inv_packed[OF assms(1,2)]] threads_room[of i N "pcs s" wr_waiting]
    threads_in_pos[of i N "pcs s" wr_waiting] assms(2,3)
  by auto

lemma rw_step_inv:
  assumes "rw_step N fails s t" "rw_inv N s" "N < 2 ^ 15"
  shows "rw_inv N t"
  using assms(1)
proof (cases rule: rw_step.cases)
  case (rd_lock i l r)
  then show ?thesis
    using reader_steps(1)[OF assms(2,3)] assms(2) by (auto simp: rw_inv_def threads_upd_eq split: if_splits)
next
  case (rd_resume i l r)
  then show ?thesis
    using reader_steps(2)[OF assms(2,3)] assms(2) by (auto simp: rw_inv_def threads_upd_eq split: if_splits)
next
  case (rd_fail i l r)
  then show ?thesis
    using reader_steps(3)[OF assms(2,3)] assms(2) by (auto simp: rw_inv_def threads_upd_eq split: if_splits)
next
  case (rd_try i l b)
  then show ?thesis
    using reader_steps(4)[OF assms(2,3)] assms(2) by (auto simp: rw_inv_def threads_upd_eq split: if_splits)
next
  case (rd_unlock i l w b f)
  then show ?thesis
    using reader_steps(5)[OF assms(2,3)] assms(2) wakes_threads[OF rd_unlock(5)] threads_in_pos[of i N "pcs s" "{Reading}"]
    by (auto simp: rw_inv_def threads_upd_eq split: if_splits)
next
  case (wr_lock i l r)
  then show ?thesis
    using writer_steps(1)[OF assms(2,3)] assms(2) by (auto simp: rw_inv_def threads_upd_eq split: if_splits)
next
  case (wr_resume i l r)
  then show ?thesis
    using writer_steps(2)[OF assms(2,3)] assms(2) by (auto simp: rw_inv_def threads_upd_eq split: if_splits)
next
  case (wr_fail i l r)
  then show ?thesis
    using writer_steps(3)[OF assms(2,3)] assms(2) by (auto simp: rw_inv_def threads_upd_eq split: if_splits)
next
  case (wr_try i l b)
  then show ?thesis
    using writer_steps(4)[OF assms(2,3)] assms(2) by (auto simp: rw_inv_def threads_upd_eq split: if_splits)
next
  case (wr_unlock i l w b f)
  then show ?thesis
    using writer_steps(5)[OF assms(2,3)] assms(2) wakes_threads[OF wr_unlock(5)] threads_in_pos[of i N "pcs s" "{Writing}"]
    by (auto simp: rw_inv_def threads_upd_eq split: if_splits)
qed (use assms(2) in \<open>auto simp: rw_inv_def threads_upd_eq\<close>)

lemma rw_reachable_inv: "rw_reachable N fails s \<Longrightarrow> N < 2 ^ 15 \<Longrightarrow> rw_inv N s"
  by (induction rule: rw_reachable.induct) (blast intro: rw_inv_init rw_step_inv)+

section \<open>No wake-up is lost\<close>

text \<open>
  As long as no wait fails: when the lock is free and threads wait, one of them has been woken; and
  readers sleep without a writer in the lock only while writers wait.
\<close>

definition rw_live :: "nat \<Rightarrow> rw_sys \<Rightarrow> bool" where
  "rw_live N s \<longleftrightarrow>
     (readers N s = 0 \<and> writers N s = 0 \<and> 0 < waiting_readers N s + waiting_writers N s \<longrightarrow>
        0 < threads N (pcs s) {Read_Woken, Write_Woken}) \<and>
     (writers N s = 0 \<and> 0 < threads N (pcs s) {Read_Sleep} \<longrightarrow> 0 < waiting_writers N s)"

lemma wakes_live:
  assumes "wakes N w f g"
  shows "w = Signal_Write_Cv \<Longrightarrow> 0 < threads N f wr_waiting \<Longrightarrow> 0 < threads N g {Read_Woken, Write_Woken}"
    "w = Broadcast_Read_Cv \<Longrightarrow> threads N g {Read_Sleep} = 0"
    "w = Broadcast_Read_Cv \<Longrightarrow> 0 < threads N f rd_waiting \<Longrightarrow> 0 < threads N g {Read_Woken, Write_Woken}"
    "w \<noteq> Broadcast_Read_Cv \<Longrightarrow> threads N g {Read_Sleep} = threads N f {Read_Sleep}"
    "w = No_Wakeup \<Longrightarrow> g = f"
  using assms
  by (cases rule: wakes.cases; auto simp: threads_pos threads_zero threads_upd_eq)+

lemma rw_live_init: "rw_init s \<Longrightarrow> rw_live N s"
  by (auto simp: rw_init_def rw_live_def threads_def)

lemma threads_pair:
  assumes "a \<noteq> b"
  shows "threads N f {a, b} = threads N f {a} + threads N f {b}"
proof -
  have "{i. i < N \<and> f i \<in> {a, b}} = {i. i < N \<and> f i \<in> {a}} \<union> {i. i < N \<and> f i \<in> {b}}" by auto
  moreover have "{i. i < N \<and> f i \<in> {a}} \<inter> {i. i < N \<and> f i \<in> {b}} = {}" using assms by auto
  ultimately show ?thesis by (simp only: threads_def) (subst card_Un_disjoint; simp)
qed

lemma rw_step_live:
  assumes "rw_step N False s t" "rw_inv N s" "N < 2 ^ 15" "rw_live N s"
  shows "rw_live N t"
  using assms(1)
proof (cases rule: rw_step.cases)
  case (rd_lock i l r)
  then show ?thesis
    using reader_steps(1)[OF assms(2,3)] assms(4) by (auto simp: rw_live_def threads_upd_eq split: if_splits)
next
  case (rd_resume i l r)
  then show ?thesis
    using reader_steps(2)[OF assms(2,3)] assms(4) by (auto simp: rw_live_def threads_upd_eq split: if_splits)
next
  case (rd_try i l b)
  then show ?thesis
    using reader_steps(4)[OF assms(2,3)] assms(4) by (auto simp: rw_live_def threads_upd_eq split: if_splits)
next
  case (rd_unlock i l w b f)
  let ?f = "(pcs s)(i := Idle)"
  have pos: "0 < readers N s" using rd_unlock threads_in_pos[of i N "pcs s" "{Reading}"] by simp
  then have excl: "writers N s = 0" using assms(2) by (simp add: rw_inv_def)
  have w: "w = (if readers N s = 1 \<and> 0 < waiting_writers N s then Signal_Write_Cv else No_Wakeup)"
    using reader_steps(5)[OF assms(2,3)] rd_unlock by simp
  note wk = wakes_live[OF rd_unlock(5)] wakes_threads[OF rd_unlock(5)]
  show ?thesis
    using rd_unlock(1-3) assms(4) pos excl w wk
    by (auto simp: rw_live_def threads_upd_eq threads_pair split: if_splits)
next
  case (wr_lock i l r)
  then show ?thesis
    using writer_steps(1)[OF assms(2,3)] assms(4) by (auto simp: rw_live_def threads_upd_eq split: if_splits)
next
  case (wr_resume i l r)
  then show ?thesis
    using writer_steps(2)[OF assms(2,3)] assms(4) by (auto simp: rw_live_def threads_upd_eq split: if_splits)
next
  case (wr_try i l b)
  then show ?thesis
    using writer_steps(4)[OF assms(2,3)] assms(4) by (auto simp: rw_live_def threads_upd_eq split: if_splits)
next
  case (wr_unlock i l w b f)
  have w: "w = (if 0 < waiting_writers N s then Signal_Write_Cv else if 0 < waiting_readers N s then Broadcast_Read_Cv else No_Wakeup)"
    using writer_steps(5)[OF assms(2,3) wr_unlock(2)] wr_unlock by simp
  note wk = wakes_live[OF wr_unlock(5)] wakes_threads[OF wr_unlock(5)]
  show ?thesis
    using wr_unlock(1-3) w wk
    by (auto simp: rw_live_def threads_upd_eq threads_pair split: if_splits)
qed (use assms(4) in \<open>auto simp: rw_live_def threads_upd_eq threads_pair\<close>)

lemma rw_reachable_live: "rw_reachable N False s \<Longrightarrow> N < 2 ^ 15 \<Longrightarrow> rw_live N s"
  by (induction rule: rw_reachable.induct) (blast intro: rw_live_init rw_step_live rw_reachable_inv)+

section \<open>A run of two threads\<close>

text \<open>Thread 0 takes the lock as a writer, thread 1 waits as a reader, thread 0 unlocks.\<close>

definition run_start :: rw_sys where
  "run_start = \<lparr>rwlock = \<lparr>active_threads = 0, waiting_threads = 0\<rparr>, pcs = (\<lambda>_. Idle)\<rparr>"

definition run_writing :: rw_sys where
  "run_writing = \<lparr>rwlock = \<lparr>active_threads = 0x8000, waiting_threads = 0\<rparr>, pcs = (\<lambda>_. Idle)(0 := Writing)\<rparr>"

definition run_waiting :: rw_sys where
  "run_waiting = \<lparr>rwlock = \<lparr>active_threads = 0x8000, waiting_threads = 1\<rparr>, pcs = (\<lambda>_. Idle)(0 := Writing, 1 := Read_Sleep)\<rparr>"

definition run_woken :: rw_sys where
  "run_woken = \<lparr>rwlock = \<lparr>active_threads = 0, waiting_threads = 1\<rparr>, pcs = (\<lambda>_. Idle)(1 := Read_Woken)\<rparr>"

lemma run_calls:
  "zrwlock_writer_lock calls_ok (Some (rwlock run_start)) = (Some (rwlock run_writing), Returned True)"
  "zrwlock_reader_lock calls_ok (Some (rwlock run_writing)) = (Some (rwlock run_waiting), Cond_Wait)"
  "zrwlock_writer_unlock calls_ok (Some (rwlock run_waiting)) = (Some (rwlock run_woken), Broadcast_Read_Cv, True)"
  unfolding run_start_def run_writing_def run_waiting_def run_woken_def rw_sys.simps by code_simp+

lemma run_reachable:
  "rw_reachable 2 False run_waiting" "rw_reachable 2 False run_woken"
proof -
  have 0: "rw_reachable 2 False run_start" by (rule rw_start) (simp add: rw_init_def run_start_def zrwlock_new_def)
  have "rw_step 2 False run_start run_writing"
    using rw_step.wr_lock[OF _ _ run_calls(1), of 0 2 False] by (simp add: run_start_def run_writing_def)
  with 0 have 1: "rw_reachable 2 False run_writing" by (rule rw_next)
  have "rw_step 2 False run_writing run_waiting"
    using rw_step.rd_lock[OF _ _ run_calls(2), of 1 2 False] by (simp add: run_writing_def run_waiting_def)
  with 1 show 2: "rw_reachable 2 False run_waiting" by (rule rw_next)
  have "pcs run_woken = (\<lambda>j. if ((pcs run_waiting)(0 := Idle)) j = Read_Sleep then Read_Woken else ((pcs run_waiting)(0 := Idle)) j)"
    by (auto simp: run_waiting_def run_woken_def)
  then have "rw_step 2 False run_waiting run_woken"
    using rw_step.wr_unlock[OF _ _ run_calls(3) wakes_readers, of 0 2 False] by (simp add: run_waiting_def run_woken_def)
  with 2 show "rw_reachable 2 False run_woken" by (rule rw_next)
qed

section \<open>Properties\<close>

text \<open>
  C6: mutual exclusion. However fewer than 32768 threads interleave their lock, trylock and
  unlock calls, with wake-ups at any time and waits that may fail, a thread in the lock as a
  writer is alone there, and the packed counters are the numbers of threads that read, write, wait
  to read and wait to write.
\<close>

theorem rwlock_exclusion:
  assumes "rw_reachable N fails s" "N < 2 ^ 15"
  shows "(\<forall>i j. i < N \<and> j < N \<and> i \<noteq> j \<and> pcs s i = Writing \<longrightarrow> pcs s j \<noteq> Reading \<and> pcs s j \<noteq> Writing) \<and>
    unat (P_RWLOCK_READER_COUNT (active_threads (rwlock s))) = card {i. i < N \<and> pcs s i = Reading} \<and>
    unat (P_RWLOCK_WRITER_COUNT (active_threads (rwlock s))) = card {i. i < N \<and> pcs s i = Writing} \<and>
    unat (P_RWLOCK_READER_COUNT (waiting_threads (rwlock s))) = card {i. i < N \<and> pcs s i \<in> rd_waiting} \<and>
    unat (P_RWLOCK_WRITER_COUNT (waiting_threads (rwlock s))) = card {i. i < N \<and> pcs s i \<in> wr_waiting}"
proof -
  have inv: "rw_inv N s" using assms by (rule rw_reachable_inv)
  note p = rw_inv_packed[OF inv assms(2), unfolded packed_def]
  have "pcs s j \<noteq> Reading \<and> pcs s j \<noteq> Writing" if "i < N" "j < N" "i \<noteq> j" "pcs s i = Writing" for i j
    using inv that threads_in_pos[of i N "pcs s" "{Writing}"] threads_one_alone[of N "pcs s" "{Writing}" i j]
    by (auto simp: rw_inv_def threads_zero)
  then have alone: "\<forall>i j. i < N \<and> j < N \<and> i \<noteq> j \<and> pcs s i = Writing \<longrightarrow> pcs s j \<noteq> Reading \<and> pcs s j \<noteq> Writing" by blast
  show ?thesis
    by (intro conjI alone) (use p in \<open>simp_all only: pack_counts unat_of_nat_15\<close>, simp_all add: threads_def)
qed

theorem rwlock_exclusion_witness:
  "pcs run_waiting 0 = Writing \<and> pcs run_waiting 1 \<noteq> Reading \<and> pcs run_waiting 1 \<noteq> Writing \<and>
   unat (P_RWLOCK_WRITER_COUNT (active_threads (rwlock run_waiting))) = card {i. i < 2 \<and> pcs run_waiting i = Writing}"
proof -
  have w: "pcs run_waiting 0 = Writing" by (simp add: run_waiting_def)
  have "(2 :: nat) < 2 ^ 15" by simp
  note ex = rwlock_exclusion[OF run_reachable(1) this]
  have "pcs run_waiting 1 \<noteq> Reading \<and> pcs run_waiting 1 \<noteq> Writing"
    by (rule mp[OF spec[OF spec[OF conjunct1[OF ex]], of 0 1]]) (simp add: w)
  with w ex show ?thesis by blast
qed

text \<open>
  C21: no wake-up is lost. As long as no wait fails, in every state in which no thread is in
  the lock but some thread waits for it, a waiting thread has been woken, and its next step takes
  the lock.
\<close>

theorem rwlock_no_lost_wakeup:
  assumes "rw_reachable N False s" "N < 2 ^ 15"
    and "\<forall>k < N. pcs s k \<noteq> Reading \<and> pcs s k \<noteq> Writing"
    and "i < N" "pcs s i \<in> rd_waiting \<union> wr_waiting"
  shows "\<exists>j t. j < N \<and> pcs s j \<in> {Read_Woken, Write_Woken} \<and> rw_step N False s t \<and> pcs t j \<in> {Reading, Writing}"
proof -
  have inv: "rw_inv N s" and live: "rw_live N s"
    using assms(1,2) by (simp_all add: rw_reachable_inv rw_reachable_live)
  have free: "readers N s = 0" "writers N s = 0" using assms(3) by (simp_all add: threads_zero)
  have "0 < waiting_readers N s + waiting_writers N s" using assms(4,5) by (auto simp: threads_pos)
  then have "0 < threads N (pcs s) {Read_Woken, Write_Woken}" using live free by (simp add: rw_live_def)
  then obtain j where j: "j < N" "pcs s j \<in> {Read_Woken, Write_Woken}" by (auto simp: threads_pos)
  have "\<exists>t. rw_step N False s t \<and> pcs t j \<in> {Reading, Writing}"
  proof (cases "pcs s j = Read_Woken")
    case True
    show ?thesis
      using rw_step.rd_resume[OF j(1) True surjective_pairing[of "reader_lock_resume calls_ok True (rwlock s)"], where fails = False]
        reader_steps(2)[OF inv assms(2) j(1) True] free by (intro exI conjI) auto
  next
    case False
    then have w: "pcs s j = Write_Woken" using j(2) by simp
    show ?thesis
      using rw_step.wr_resume[OF j(1) w surjective_pairing[of "writer_lock_resume calls_ok True (rwlock s)"], where fails = False]
        writer_steps(2)[OF inv assms(2) j(1) w] free by (intro exI conjI) auto
  qed
  with j show ?thesis by blast
qed

theorem rwlock_no_lost_wakeup_witness:
  "\<exists>j t. j < 2 \<and> pcs run_woken j \<in> {Read_Woken, Write_Woken} \<and> rw_step 2 False run_woken t \<and> pcs t j \<in> {Reading, Writing}"
proof (rule rwlock_no_lost_wakeup[OF run_reachable(2), of 1])
  show "\<forall>k < 2. pcs run_woken k \<noteq> Reading \<and> pcs run_woken k \<noteq> Writing" by (simp add: run_woken_def)
  show "pcs run_woken 1 \<in> rd_waiting \<union> wr_waiting" by (simp add: run_woken_def)
qed simp_all

text \<open>
  The 32768th reader overflows its counter. It is let in, and the lock then counts no
  reader and one writer, so that every later reader waits and a reader that unlocks changes nothing.
\<close>

theorem rwlock_reader_overflow:
  "let l = \<lparr>active_threads = 0x7FFF, waiting_threads = 0\<rparr>;
       l' = \<lparr>active_threads = 0x8000, waiting_threads = 0\<rparr>
   in P_RWLOCK_READER_COUNT (active_threads l) = 0x7FFF \<and> P_RWLOCK_WRITER_COUNT (active_threads l) = 0 \<and>
      zrwlock_reader_lock calls_ok (Some l) = (Some l', Returned True) \<and>
      P_RWLOCK_READER_COUNT (active_threads l') = 0 \<and> P_RWLOCK_WRITER_COUNT (active_threads l') = 1 \<and>
      zrwlock_reader_unlock calls_ok (Some l') = (Some l', No_Wakeup, True)"
  by code_simp

text \<open>
  The constructor gives a lock exactly when everything it needs is created. When only the
  memory for the lock is missing it returns null; when the mutex or a condition variable cannot be
  created it frees the lock and then writes to it or returns it.
\<close>

theorem rwlock_new_outcomes:
  "((\<exists>l. zrwlock_new mem mutex read_cv write_cv = New_Lock l) \<longleftrightarrow> mem \<and> mutex \<and> read_cv \<and> write_cv) \<and>
   (zrwlock_new mem mutex read_cv write_cv = New_Null \<longleftrightarrow> \<not> mem) \<and>
   (zrwlock_new mem mutex read_cv write_cv \<in> {Write_After_Free, Freed_Pointer} \<longleftrightarrow> mem \<and> \<not> (mutex \<and> read_cv \<and> write_cv))"
  by (auto simp: zrwlock_new_def)

end
