(* ===== verification/PIPC.thy ===== *)
theory PIPC
  imports PCryptoHash PString
begin

text \<open>
  The names of interprocess objects, \<^verbatim>\<open>src/src/lib/pipc.c\<close> on a Unix system: the directory for temporary
  files and the key made from the SHA-1 hash of an object's name. The outer \<open>None\<close> of a result is
  an access outside a string or through a null pointer.
\<close>

section \<open>The temporary directory\<close>

text \<open>
  The outcomes of the allocations, the constant \<^verbatim>\<open>P_tmpdir\<close> if the system defines it, and the variable
  \<^verbatim>\<open>TMPDIR\<close> of the environment.
\<close>

record ipc_env =
  hash_mem :: bool
  ctx_mem :: bool
  str_mem :: bool
  dup_mem :: bool
  dir_mem :: bool
  path_mem :: bool
  P_tmpdir :: "string option"
  env_tmpdir :: "string option"

text \<open>The loop over the trailing slashes, which starts one before \<open>len\<close>; the result is the length kept.\<close>

fun strip_slashes :: "string \<Rightarrow> nat \<Rightarrow> nat option" where
  "strip_slashes str 0 = None"
| "strip_slashes str (Suc len) = (if str ! len = CHR ''/'' then strip_slashes str len else Some (Suc len))"

definition zipc_unix_get_temzdir :: "ipc_env \<Rightarrow> string option option" where
  "zipc_unix_get_temzdir e =
     (case (case P_tmpdir e of
              Some d \<Rightarrow> if length d > 0 then Some d else None
            | None \<Rightarrow> env_tmpdir e) of
        None \<Rightarrow> Some (zstrdup (dup_mem e) (Some ''/tmp/''))
      | Some d \<Rightarrow>
          (case zstrdup (dup_mem e) (Some d) of
             None \<Rightarrow> None
           | Some str \<Rightarrow>
               (case strip_slashes str (length str) of
                  None \<Rightarrow> None
                | Some len \<Rightarrow> if \<not> dir_mem e then Some None else Some (Some (take len str @ ''/'')))))"

text \<open>
  The key file. \<open>open_fd\<close> is the result of \<^verbatim>\<open>open\<close>, with the error number where it fails, \<open>close_fd\<close>
  that of closing.
\<close>

definition EEXIST :: int where "EEXIST = 17"

definition zipc_unix_create_key_file :: "(string \<Rightarrow> int + int) \<Rightarrow> (int \<Rightarrow> int) \<Rightarrow> string option \<Rightarrow> int" where
  "zipc_unix_create_key_file open_fd close_fd file_name =
     (case file_name of
        None \<Rightarrow> - 1
      | Some f \<Rightarrow>
          (case open_fd f of
             Inl errno \<Rightarrow> if errno = EEXIST then 1 else - 1
           | Inr fd \<Rightarrow> close_fd fd))"

definition zipc_unix_get_ftok_key :: "(string \<Rightarrow> bool) \<Rightarrow> (string \<Rightarrow> char \<Rightarrow> int) \<Rightarrow> string option \<Rightarrow> int" where
  "zipc_unix_get_ftok_key stat_ok ftok file_name =
     (case file_name of
        None \<Rightarrow> - 1
      | Some f \<Rightarrow> if \<not> stat_ok f then - 1 else ftok f (CHR ''P''))"

section \<open>Keys\<close>

definition string_bytes :: "string \<Rightarrow> puchar list" where
  "string_bytes s = map (\<lambda>c. of_nat (of_char c)) s"

definition zipc_get_platform_key :: "bool \<Rightarrow> ipc_env \<Rightarrow> string option \<Rightarrow> bool \<Rightarrow> string option option" where
  "zipc_get_platform_key be e name posix =
     (case name of
        None \<Rightarrow> Some None
      | Some s \<Rightarrow>
          (case zcrypto_hash_new be (hash_mem e) (ctx_mem e) 1 of
             None \<Rightarrow> Some None
           | Some sha1 \<Rightarrow>
               let upd = zcrypto_hash_update (Some sha1) (Some (string_bytes s)) (of_nat (length s))
               in case snd (zcrypto_hash_get_string (str_mem e) upd) of
                    None \<Rightarrow> Some None
                  | Some bf \<Rightarrow>
                      let hash_str = c_string bf
                      in if posix
                         then if \<not> path_mem e then Some None else Some (Some (''/'' @ take 13 hash_str))
                         else (case zipc_unix_get_temzdir e of
                                 None \<Rightarrow> None
                               | Some None \<Rightarrow> None
                               | Some (Some tmzpath) \<Rightarrow>
                                   if \<not> path_mem e then Some None else Some (Some (tmzpath @ hash_str)))))"

section \<open>Properties\<close>

definition strip_end :: "string \<Rightarrow> string" where
  "strip_end s = rev (dropWhile (\<lambda>c. c = CHR ''/'') (rev s))"

lemma strip_slashes_spec:
  "n \<le> length s \<Longrightarrow> strip_slashes s n = (if strip_end (take n s) = [] then None else Some (length (strip_end (take n s))))"
proof (induction n)
  case (Suc n)
  then show ?case by (simp add: strip_end_def take_Suc_conv_app_nth)
qed (simp add: strip_end_def)

lemma take_strip_end: "take (length (strip_end s)) s = strip_end s"
proof -
  have "s = strip_end s @ rev (takeWhile (\<lambda>c. c = CHR ''/'') (rev s))"
    unfolding strip_end_def by (metis rev_append rev_rev_ident takeWhile_dropWhile_id)
  then show ?thesis by (metis append_eq_conv_conj)
qed

text \<open>The directory without its trailing slashes and with one slash.\<close>

lemma get_temzdir_result:
  assumes "dup_mem e" "dir_mem e"
  shows "zipc_unix_get_temzdir e =
    (case (case P_tmpdir e of Some d \<Rightarrow> if d = [] then None else Some d | None \<Rightarrow> env_tmpdir e) of
       None \<Rightarrow> Some (Some ''/tmp/'')
     | Some d \<Rightarrow> if strip_end d = [] then None else Some (Some (strip_end d @ ''/'')))"
  using assms
  by (auto simp: zipc_unix_get_temzdir_def zstrdup_def strip_slashes_spec take_strip_end split: option.splits)

text \<open>The loop leaves the string at its front when the directory is empty or has slashes only.\<close>

lemma temzdir_underflow:
  assumes "P_tmpdir e = None" "env_tmpdir e = Some (replicate n (CHR ''/''))"
  shows "zipc_unix_get_temzdir e = None"
proof -
  have "strip_end (replicate n (CHR ''/'')) = []" by (simp add: strip_end_def)
  then show ?thesis
    using assms strip_slashes_spec[of n "replicate n (CHR ''/'')"]
    by (simp add: zipc_unix_get_temzdir_def zstrdup_def split: option.splits)
qed

lemma hex_byte_ne_zero: "CHR 0x00 \<notin> set (hex_byte b)"
proof -
  have "unat b < 2 ^ 8" using unsigned_less[of b] by simp
  then have "unat b div 16 < 16" "unat b mod 16 < 16" by simp_all
  then have "pzcrypto_hash_hex_str ! (unat b div 16) \<in> set pzcrypto_hash_hex_str"
      "pzcrypto_hash_hex_str ! (unat b mod 16) \<in> set pzcrypto_hash_hex_str"
    by (simp_all add: pzcrypto_hash_hex_str_def del: set_simps)
  moreover have "CHR 0x00 \<notin> set pzcrypto_hash_hex_str" by code_simp
  ultimately have "CHR 0x00 \<noteq> pzcrypto_hash_hex_str ! (unat b div 16)" "CHR 0x00 \<noteq> pzcrypto_hash_hex_str ! (unat b mod 16)" by metis+
  then show ?thesis by (simp add: hex_byte_def)
qed

lemma c_string_hex: "c_string (concat (map hex_byte bs) @ [CHR 0x00]) = concat (map hex_byte bs)"
proof -
  have "CHR 0x00 \<notin> set (concat (map hex_byte bs))" using hex_byte_ne_zero by auto
  then show ?thesis unfolding c_string_def by (subst takeWhile_append2) auto
qed

lemma hash_string_sha1:
  assumes "zcrypto_hash_new be True True 1 = Some h" "length s < 2 ^ 32"
  shows "snd (zcrypto_hash_get_string True (zcrypto_hash_update (Some h) (Some (string_bytes s)) (of_nat (length s)))) =
    Some (concat (map hex_byte (sha1_digest (string_bytes s))) @ [CHR 0x00])"
proof -
  obtain c where c: "hf_create (funcs_sha1 be) True = Some c"
    and h: "h = hash_funcs.extend (funcs_sha1 be) \<lparr>ch_type = P_CRYPTO_HASH_TYPE_SHA1, ch_context = c, hash_len = 20, closed = False\<rparr>"
    using assms(1) by (auto simp: zcrypto_hash_new_def PCryptoHashTypes_def split: option.splits)
  have len: "length (string_bytes s) = length s" by (simp add: string_bytes_def)
  let ?u = "zcrypto_hash_update (Some h) (Some (string_bytes s)) (of_nat (length s))"
  have "alg_sha1.hash_rel be ?u (string_bytes s, False)"
    using alg_sha1.update_rel[OF alg_sha1.new_rel[OF c], of "string_bytes s"] assms(2) by (simp add: h len)
  from alg_sha1.step_rel[OF this, of "Op_Get_String True"]
  show ?thesis by (simp add: op_small_def split_def Let_def)
qed

lemma platform_key_posix:
  assumes "length s < 2 ^ 32" "hash_mem e" "ctx_mem e" "str_mem e" "path_mem e"
  shows "\<exists>k. zipc_get_platform_key be e (Some s) True = Some (Some k) \<and> length k \<le> 14"
proof -
  have "zcrypto_hash_new be True True 1 \<noteq> None"
    using create_iff[of be P_CRYPTO_HASH_TYPE_SHA1 True]
    by (auto simp: zcrypto_hash_new_def PCryptoHashTypes_def split: option.splits)
  then obtain h where h: "zcrypto_hash_new be True True 1 = Some h" by auto
  show ?thesis using h hash_string_sha1[OF h assms(1)] assms(2-) by (simp add: zipc_get_platform_key_def)
qed

text \<open>
  The key of an object. With enough memory a name shorter than 4 GiB gives, for POSIX
  objects, a slash and the first 13 hexadecimal digits of the SHA-1 hash of the name, 14 characters
  in all; otherwise the path of a file, named by all 40 digits, in the directory for temporary
  files, with exactly one slash between them.
\<close>

theorem ipc_platform_key:
  assumes "length s < 2 ^ 32" "hash_mem e" "ctx_mem e" "str_mem e" "dup_mem e" "dir_mem e" "path_mem e"
    and "P_tmpdir e = Some d" "strip_end d \<noteq> []"
  defines "hex \<equiv> concat (map hex_byte (sha1_digest (string_bytes s)))"
  shows "zipc_get_platform_key be e (Some s) True = Some (Some (''/'' @ take 13 hex)) \<and> length (''/'' @ take 13 hex) = 14 \<and>
    zipc_get_platform_key be e (Some s) False = Some (Some (strip_end d @ ''/'' @ hex)) \<and> length hex = 40 \<and>
    zipc_get_platform_key be e None posix = Some None"
proof -
  have "zcrypto_hash_new be True True 1 \<noteq> None"
    using create_iff[of be P_CRYPTO_HASH_TYPE_SHA1 True]
    by (auto simp: zcrypto_hash_new_def PCryptoHashTypes_def split: option.splits)
  then obtain h where h: "zcrypto_hash_new be True True 1 = Some h" by auto
  have str: "snd (zcrypto_hash_get_string True (zcrypto_hash_update (Some h) (Some (string_bytes s)) (of_nat (length s)))) =
      Some (hex @ [CHR 0x00])"
    unfolding hex_def by (rule hash_string_sha1[OF h assms(1)])
  have cs: "c_string (hex @ [CHR 0x00]) = hex" unfolding hex_def by (rule c_string_hex)
  have "length (hex_byte b) = 2" for b by (simp add: hex_byte_def)
  then have len: "length hex = 40" using alg_sha1.size(1)
    by (simp add: hex_def length_concat comp_def sum_list_triv)
  have "d \<noteq> []" using assms(9) by (auto simp: strip_end_def)
  then have "zipc_unix_get_temzdir e = Some (Some (strip_end d @ ''/''))"
    using get_temzdir_result[OF assms(5,6)] assms(8,9) by simp
  with h str cs len assms(2-7) show ?thesis by (simp add: zipc_get_platform_key_def)
qed

definition ipc_env_linux :: ipc_env where
  "ipc_env_linux = \<lparr>hash_mem = True, ctx_mem = True, str_mem = True, dup_mem = True, dir_mem = True, path_mem = True,
     P_tmpdir = Some ''/tmp'', env_tmpdir = None\<rparr>"

theorem ipc_platform_key_witness:
  "zipc_get_platform_key False ipc_env_linux (Some ''sem'') True =
     Some (Some (''/'' @ take 13 (concat (map hex_byte (sha1_digest (string_bytes ''sem''))))))"
  using ipc_platform_key[of "''sem''" ipc_env_linux "''/tmp''" False True]
  by (simp add: ipc_env_linux_def strip_end_def)

end
