(* ===== verification/PMem.thy ===== *)
theory PMem
  imports Plibsys_Prelude
begin

text \<open>
  The allocation functions of \<^verbatim>\<open>src/src/lib/pmem.c\<close>: a table of three function pointers that a program
  may replace, and the calls through it. A function of the table changes the state \<open>'h\<close> of its
  allocator and the bytes of memory. A call through a null pointer has no result.
\<close>

section \<open>The table\<close>

type_synonym bytes = "ppointer \<Rightarrow> puchar"

record 'h PMemVTable =
  vt_malloc :: "(psize \<Rightarrow> 'h \<times> bytes \<Rightarrow> ppointer \<times> 'h \<times> bytes) option"
  vt_realloc :: "(ppointer \<Rightarrow> psize \<Rightarrow> 'h \<times> bytes \<Rightarrow> ppointer \<times> 'h \<times> bytes) option"
  vt_free :: "(ppointer \<Rightarrow> 'h \<times> bytes \<Rightarrow> 'h \<times> bytes) option"

text \<open>The two static variables.\<close>

record 'h mem_state =
  zmem_table_inited :: bool
  zmem_table :: "'h PMemVTable"

definition mem_start :: "'h mem_state" where
  "mem_start = \<lparr>zmem_table_inited = False, zmem_table = \<lparr>vt_malloc = None, vt_realloc = None, vt_free = None\<rparr>\<rparr>"

text \<open>\<open>libc\<close> is the table of \<^verbatim>\<open>malloc\<close>, \<^verbatim>\<open>realloc\<close> and \<^verbatim>\<open>free\<close>.\<close>

definition zmem_restore_vtable :: "'h PMemVTable \<Rightarrow> 'h mem_state \<Rightarrow> 'h mem_state" where
  "zmem_restore_vtable libc st = st\<lparr>zmem_table := libc, zmem_table_inited := True\<rparr>"

definition zmem_init :: "'h PMemVTable \<Rightarrow> 'h mem_state \<Rightarrow> 'h mem_state" where
  "zmem_init libc st = (if zmem_table_inited st then st else zmem_restore_vtable libc st)"

definition zmem_shutdown :: "'h mem_state \<Rightarrow> 'h mem_state" where
  "zmem_shutdown st =
     (if \<not> zmem_table_inited st then st
      else st\<lparr>zmem_table := \<lparr>vt_malloc = None, vt_realloc = None, vt_free = None\<rparr>, zmem_table_inited := False\<rparr>)"

definition zmem_set_vtable :: "'h PMemVTable option \<Rightarrow> 'h mem_state \<Rightarrow> 'h mem_state \<times> bool" where
  "zmem_set_vtable table st =
     (case table of
        None \<Rightarrow> (st, False)
      | Some t \<Rightarrow>
          if vt_free t = None \<or> vt_malloc t = None \<or> vt_realloc t = None then (st, False)
          else (st\<lparr>zmem_table := \<lparr>vt_malloc = vt_malloc t, vt_realloc = vt_realloc t, vt_free = vt_free t\<rparr>,
                   zmem_table_inited := True\<rparr>, True))"

section \<open>Allocation\<close>

definition zmalloc :: "'h mem_state \<Rightarrow> psize \<Rightarrow> 'h \<times> bytes \<Rightarrow> (ppointer \<times> 'h \<times> bytes) option" where
  "zmalloc st n_bytes h =
     (if n_bytes > 0 then Option.bind (vt_malloc (zmem_table st)) (\<lambda>f. Some (f n_bytes h)) else Some (NULL, h))"

definition memset0 :: "ppointer \<Rightarrow> psize \<Rightarrow> bytes \<Rightarrow> bytes" where
  "memset0 p n m = (\<lambda>a. if a - p < n then 0 else m a)"

definition zmalloc0 :: "'h mem_state \<Rightarrow> psize \<Rightarrow> 'h \<times> bytes \<Rightarrow> (ppointer \<times> 'h \<times> bytes) option" where
  "zmalloc0 st n_bytes h =
     (if n_bytes > 0 then
        Option.bind (vt_malloc (zmem_table st)) (\<lambda>f.
          let (ret, a, m) = f n_bytes h
          in if ret = NULL then Some (NULL, a, m) else Some (ret, a, memset0 ret n_bytes m))
      else Some (NULL, h))"

definition zrealloc :: "'h mem_state \<Rightarrow> ppointer \<Rightarrow> psize \<Rightarrow> 'h \<times> bytes \<Rightarrow> (ppointer \<times> 'h \<times> bytes) option" where
  "zrealloc st p n_bytes h =
     (if n_bytes = 0 then Some (NULL, h)
      else if p = NULL then Option.bind (vt_malloc (zmem_table st)) (\<lambda>f. Some (f n_bytes h))
      else Option.bind (vt_realloc (zmem_table st)) (\<lambda>f. Some (f p n_bytes h)))"

definition zfree :: "'h mem_state \<Rightarrow> ppointer \<Rightarrow> 'h \<times> bytes \<Rightarrow> ('h \<times> bytes) option" where
  "zfree st p h =
     (if p \<noteq> NULL then Option.bind (vt_free (zmem_table st)) (\<lambda>f. Some (f p h)) else Some h)"

section \<open>Sequences of calls\<close>

datatype 'h mem_op = Mem_Init | Mem_Restore | Mem_Set "'h PMemVTable option" | Mem_Shutdown

fun mem_step :: "'h PMemVTable \<Rightarrow> 'h mem_op \<Rightarrow> 'h mem_state \<Rightarrow> 'h mem_state" where
  "mem_step libc Mem_Init st = zmem_init libc st"
| "mem_step libc Mem_Restore st = zmem_restore_vtable libc st"
| "mem_step libc (Mem_Set t) st = fst (zmem_set_vtable t st)"
| "mem_step libc Mem_Shutdown st = zmem_shutdown st"

definition mem_run :: "'h PMemVTable \<Rightarrow> 'h mem_op list \<Rightarrow> 'h mem_state" where
  "mem_run libc ops = foldl (\<lambda>st op. mem_step libc op st) mem_start ops"

definition full_table :: "'h PMemVTable \<Rightarrow> bool" where
  "full_table t \<longleftrightarrow> vt_malloc t \<noteq> None \<and> vt_realloc t \<noteq> None \<and> vt_free t \<noteq> None"

text \<open>The table in use according to the history: the last one that was installed, if any.\<close>

fun installed :: "'h PMemVTable \<Rightarrow> 'h mem_op list \<Rightarrow> 'h PMemVTable option" where
  "installed libc [] = None"
| "installed libc (op # past) =
     (case op of
        Mem_Init \<Rightarrow> Some (case installed libc past of None \<Rightarrow> libc | Some t \<Rightarrow> t)
      | Mem_Restore \<Rightarrow> Some libc
      | Mem_Set (Some t) \<Rightarrow> if full_table t then Some t else installed libc past
      | Mem_Set None \<Rightarrow> installed libc past
      | Mem_Shutdown \<Rightarrow> None)"

lemma vtable_copy: "\<lparr>vt_malloc = vt_malloc t, vt_realloc = vt_realloc t, vt_free = vt_free t\<rparr> = (t :: 'h PMemVTable)"
  by simp

lemma mem_run_installed:
  "mem_run libc (rev past) =
   \<lparr>zmem_table_inited = (installed libc past \<noteq> None),
    zmem_table = (case installed libc past of None \<Rightarrow> zmem_table mem_start | Some t \<Rightarrow> t)\<rparr>"
proof (induction past)
  case (Cons op past)
  have "mem_run libc (rev (op # past)) = mem_step libc op (mem_run libc (rev past))" by (simp add: mem_run_def)
  then show ?case
    unfolding Cons
    by (cases op) (auto simp: zmem_init_def zmem_restore_vtable_def zmem_set_vtable_def zmem_shutdown_def full_table_def
        mem_start_def split: option.splits)
qed (simp add: mem_run_def mem_start_def)

lemma installed_full: "full_table libc \<Longrightarrow> installed libc past = Some t \<Longrightarrow> full_table t"
  by (induction past arbitrary: t) (auto split: mem_op.splits option.splits if_splits)

text \<open>
  Which allocator is called. After any calls that initialise, replace, restore and shut down, the
  table in use is the last complete one that was installed and not shut down since: an
  initialisation keeps a table of the program, and an incomplete table is refused. As long as
  there is one, the allocation functions call its functions and never a null pointer, ask
  nothing of it for a size of zero or a null pointer to free, and the zeroing one returns zeroed
  memory.
\<close>

theorem allocation_goes_to_table:
  fixes libc :: "'h PMemVTable"
  assumes "full_table libc" "installed libc past = Some t"
  defines "st \<equiv> mem_run libc (rev past)"
  shows "(\<exists>f. vt_malloc t = Some f \<and> (\<forall>n h. zmalloc st n h = Some (if n = 0 then (NULL, h) else f n h)) \<and>
      (\<forall>n h p a m. f n h = (p, a, m) \<and> n \<noteq> 0 \<and> p \<noteq> NULL \<longrightarrow>
         (\<exists>m'. zmalloc0 st n h = Some (p, a, m') \<and> (\<forall>i. i < n \<longrightarrow> m' (p + i) = 0) \<and> (\<forall>x. \<not> x - p < n \<longrightarrow> m' x = m x))) \<and>
      (\<exists>g. vt_realloc t = Some g \<and>
        (\<forall>n h p. zrealloc st p n h = Some (if n = 0 then (NULL, h) else if p = NULL then f n h else g p n h)))) \<and>
    (\<exists>fr. vt_free t = Some fr \<and> (\<forall>p h. zfree st p h = Some (if p = NULL then h else fr p h)))"
proof -
  have tab: "zmem_table st = t" using assms(2) mem_run_installed[of libc past] by (simp add: st_def)
  obtain f g fr where t: "vt_malloc t = Some f" "vt_realloc t = Some g" "vt_free t = Some fr"
    using installed_full[OF assms(1,2)] by (auto simp: full_table_def)
  have "\<exists>m'. zmalloc0 st n h = Some (p, a, m') \<and> (\<forall>i. i < n \<longrightarrow> m' (p + i) = 0) \<and> (\<forall>x. \<not> x - p < n \<longrightarrow> m' x = m x)"
    if "f n h = (p, a, m)" "n \<noteq> 0" "p \<noteq> NULL" for n h p a m
    using that t tab word_neq_0_conv[of n] by (simp add: zmalloc0_def memset0_def)
  then show ?thesis
    using t tab by (auto simp: zmalloc_def zrealloc_def zfree_def word_neq_0_conv)
qed

definition libc_sample :: "nat PMemVTable" where
  "libc_sample = \<lparr>vt_malloc = Some (\<lambda>n (a, m). (4096, a + 1, m)), vt_realloc = Some (\<lambda>p n h. (p, h)), vt_free = Some (\<lambda>p (a, m). (a - 1, m))\<rparr>"

theorem allocation_goes_to_table_witness:
  "zmalloc (mem_run libc_sample [Mem_Init, Mem_Set None]) 8 (0, \<lambda>_. 7) = Some (4096, 1, \<lambda>_. 7)"
proof -
  have "full_table libc_sample" "installed libc_sample [Mem_Set None, Mem_Init] = Some libc_sample"
    by (simp_all add: full_table_def libc_sample_def)
  from allocation_goes_to_table[OF this] show ?thesis by (auto simp: libc_sample_def)
qed

end
