(* ===== verification/PUThread.thy ===== *)
theory PUThread
  imports Linked_Nodes PString
begin

text \<open>
  The life of thread objects, \<^verbatim>\<open>src/src/lib/puthread.c\<close>: reference counts shared between the program and
  the threads, whose own reference sits in a thread-local slot. Threads of the system are numbers.
  A thread that is created has its slot set before its routine runs, and the system calls
  the cleanup function on the slot of a thread that ends; both belong to the step that creates or
  ends the thread. An access to a freed object has no result.
\<close>

section \<open>Objects\<close>

record PUThreadBase =
  ref_count :: pint
  ret_code :: pint
  ours :: bool
  joinable :: bool
  thread_name :: "string option"

text \<open>\<open>slot\<close> is the thread-local variable \<^verbatim>\<open>pzuthread_specific_data\<close> of each thread of the system.\<close>

record ut_state =
  objects :: "PUThreadBase heap"
  slot :: "nat \<Rightarrow> ppointer"

definition zuthread_ref :: "ppointer \<Rightarrow> ut_state \<Rightarrow> ut_state option" where
  "zuthread_ref p st =
     (if p = NULL then Some st
      else case objects st p of
        None \<Rightarrow> None
      | Some b \<Rightarrow> Some (st\<lparr>objects := (objects st)(p := Some (b\<lparr>ref_count := ref_count b + 1\<rparr>))\<rparr>))"

text \<open>The atomic decrement returns whether the old value was 1; the object is then freed.\<close>

definition zuthread_unref :: "ppointer \<Rightarrow> ut_state \<Rightarrow> ut_state option" where
  "zuthread_unref p st =
     (if p = NULL then Some st
      else case objects st p of
        None \<Rightarrow> None
      | Some b \<Rightarrow>
          if ref_count b = 1 then Some (st\<lparr>objects := (objects st)(p := None)\<rparr>)
          else Some (st\<lparr>objects := (objects st)(p := Some (b\<lparr>ref_count := ref_count b - 1\<rparr>))\<rparr>))"

definition pzuthread_cleanup :: "ppointer \<Rightarrow> ut_state \<Rightarrow> ut_state option" where
  "pzuthread_cleanup data st = zuthread_unref data st"

text \<open>The end of a thread: the system clears its slot and calls the cleanup on the old value.\<close>

definition thread_end :: "nat \<Rightarrow> ut_state \<Rightarrow> ut_state option" where
  "thread_end t st =
     (let p = slot st t; st1 = st\<lparr>slot := (slot st)(t := NULL)\<rparr>
      in if p = NULL then Some st1 else pzuthread_cleanup p st1)"

text \<open>
  Creation: \<open>alloc\<close> gives the object that \<^verbatim>\<open>zuthread_create_internal\<close> returns, null when it fails, and
  \<open>t\<close> is the new thread.
\<close>

definition zuthread_create_full ::
    "(PUThreadBase heap \<Rightarrow> ppointer) \<Rightarrow> bool \<Rightarrow> bool \<Rightarrow> nat \<Rightarrow> bool \<Rightarrow> string option \<Rightarrow> ut_state \<Rightarrow> ut_state \<times> ppointer" where
  "zuthread_create_full alloc func str_mem t jn nm st =
     (if \<not> func then (st, NULL)
      else
        let p = alloc (objects st)
        in if p = NULL then (st, NULL)
           else (st\<lparr>objects := (objects st)(p := Some \<lparr>ref_count = 2, ret_code = 0, ours = True, joinable = jn,
                     thread_name = zstrdup str_mem nm\<rparr>),
                    slot := (slot st)(t := p)\<rparr>, p))"

text \<open>The object of the calling thread \<open>t\<close>, made on the first call from a thread of the program's own.\<close>

definition zuthread_current :: "(PUThreadBase heap \<Rightarrow> ppointer) \<Rightarrow> nat \<Rightarrow> ut_state \<Rightarrow> ut_state \<times> ppointer" where
  "zuthread_current alloc t st =
     (if slot st t = NULL then
        let p = alloc (objects st)
        in if p = NULL then (st, NULL)
           else (st\<lparr>objects := (objects st)(p := Some \<lparr>ref_count = 1, ret_code = 0, ours = False, joinable = False,
                     thread_name = None\<rparr>),
                    slot := (slot st)(t := p)\<rparr>, p)
      else (st, slot st t))"

definition zuthread_exit :: "(PUThreadBase heap \<Rightarrow> ppointer) \<Rightarrow> nat \<Rightarrow> pint \<Rightarrow> ut_state \<Rightarrow> ut_state option" where
  "zuthread_exit alloc t code st =
     (let (st1, p) = zuthread_current alloc t st
      in if p = NULL then Some st1
         else case objects st1 p of
           None \<Rightarrow> None
         | Some b \<Rightarrow>
             if \<not> ours b then Some st1
             else thread_end t (st1\<lparr>objects := (objects st1)(p := Some (b\<lparr>ret_code := code\<rparr>))\<rparr>))"

text \<open>The result of a join, after the wait for the thread.\<close>

definition zuthread_join :: "ppointer \<Rightarrow> ut_state \<Rightarrow> pint option" where
  "zuthread_join p st =
     (if p = NULL then Some (- 1)
      else case objects st p of
        None \<Rightarrow> None
      | Some b \<Rightarrow> if \<not> joinable b then Some (- 1) else Some (ret_code b))"

section \<open>Programs\<close>

datatype ut_op = Ut_Create nat bool | Ut_Current nat | Ut_Ref ppointer | Ut_Unref ppointer
  | Ut_Exit nat pint | Ut_End nat | Ut_Join ppointer

fun ut_step :: "(PUThreadBase heap \<Rightarrow> ppointer) \<Rightarrow> ut_op \<Rightarrow> ut_state \<Rightarrow> ut_state option" where
  "ut_step alloc (Ut_Create t jn) st = Some (fst (zuthread_create_full alloc True True t jn None st))"
| "ut_step alloc (Ut_Current t) st = Some (fst (zuthread_current alloc t st))"
| "ut_step alloc (Ut_Ref p) st = zuthread_ref p st"
| "ut_step alloc (Ut_Unref p) st = zuthread_unref p st"
| "ut_step alloc (Ut_Exit t c) st = zuthread_exit alloc t c st"
| "ut_step alloc (Ut_End t) st = thread_end t st"
| "ut_step alloc (Ut_Join p) st = map_option (\<lambda>_. st) (zuthread_join p st)"

text \<open>
  The references that the program holds: one for an object it created, one for each reference it
  took. It may take a reference to an object it holds or that is the current object of a
  thread, and give up or join with only what it holds. A new thread has an empty slot.
\<close>

fun own_after :: "(PUThreadBase heap \<Rightarrow> ppointer) \<Rightarrow> ut_op \<Rightarrow> ut_state \<Rightarrow> (ppointer \<Rightarrow> nat) \<Rightarrow> ppointer \<Rightarrow> nat" where
  "own_after alloc (Ut_Create t jn) st own =
     (let p = alloc (objects st) in if p = NULL then own else own(p := own p + 1))"
| "own_after alloc (Ut_Ref p) st own = (if p = NULL then own else own(p := own p + 1))"
| "own_after alloc (Ut_Unref p) st own = (if p = NULL then own else own(p := own p - 1))"
| "own_after alloc op st own = own"

fun allowed :: "ut_op \<Rightarrow> ut_state \<Rightarrow> (ppointer \<Rightarrow> nat) \<Rightarrow> bool" where
  "allowed (Ut_Create t jn) st own \<longleftrightarrow> slot st t = NULL"
| "allowed (Ut_Ref p) st own \<longleftrightarrow> p = NULL \<or> 0 < own p \<or> (\<exists>t. slot st t = p)"
| "allowed (Ut_Unref p) st own \<longleftrightarrow> p = NULL \<or> 0 < own p"
| "allowed (Ut_Join p) st own \<longleftrightarrow> p = NULL \<or> 0 < own p"
| "allowed op st own \<longleftrightarrow> True"

text \<open>A run with the final state and the references held, or an access to a freed object.\<close>

fun ut_run :: "(PUThreadBase heap \<Rightarrow> ppointer) \<Rightarrow> ut_op list \<Rightarrow> ut_state \<Rightarrow> (ppointer \<Rightarrow> nat) \<Rightarrow> (ut_state \<times> (ppointer \<Rightarrow> nat)) option" where
  "ut_run alloc [] st own = Some (st, own)"
| "ut_run alloc (op # ops) st own =
     (case ut_step alloc op st of None \<Rightarrow> None | Some st' \<Rightarrow> ut_run alloc ops st' (own_after alloc op st own))"

text \<open>Every operation of the run is allowed where it is done.\<close>

fun disciplined :: "(PUThreadBase heap \<Rightarrow> ppointer) \<Rightarrow> ut_op list \<Rightarrow> ut_state \<Rightarrow> (ppointer \<Rightarrow> nat) \<Rightarrow> bool" where
  "disciplined alloc [] st own \<longleftrightarrow> True"
| "disciplined alloc (op # ops) st own \<longleftrightarrow>
     allowed op st own \<and>
     (case ut_step alloc op st of None \<Rightarrow> True | Some st' \<Rightarrow> disciplined alloc ops st' (own_after alloc op st own))"

definition ut_start :: ut_state where
  "ut_start = \<lparr>objects = Map.empty, slot = (\<lambda>_. NULL)\<rparr>"

section \<open>The invariant\<close>

definition in_slot :: "ut_state \<Rightarrow> ppointer \<Rightarrow> nat" where
  "in_slot st p = (if p \<noteq> NULL \<and> (\<exists>t. slot st t = p) then 1 else 0)"

definition obj_ok :: "PUThreadBase option \<Rightarrow> ppointer \<Rightarrow> nat \<Rightarrow> bool" where
  "obj_ok x p k \<longleftrightarrow> (case x of None \<Rightarrow> k = 0 | Some b \<Rightarrow> p \<noteq> NULL \<and> 0 < k \<and> unat (ref_count b) = k)"

definition ut_inv :: "ut_state \<Rightarrow> (ppointer \<Rightarrow> nat) \<Rightarrow> bool" where
  "ut_inv st own \<longleftrightarrow>
     (\<forall>p. obj_ok (objects st p) p (own p + in_slot st p)) \<and>
     (\<forall>t t'. slot st t = slot st t' \<and> slot st t \<noteq> NULL \<longrightarrow> t = t')"

lemma ut_inv_object:
  assumes "ut_inv st own" "0 < own p + in_slot st p"
  obtains b where "objects st p = Some b" "p \<noteq> NULL" "unat (ref_count b) = own p + in_slot st p"
proof -
  have "obj_ok (objects st p) p (own p + in_slot st p)" using assms(1) by (simp add: ut_inv_def)
  then show thesis using assms(2) that by (auto simp: obj_ok_def split: option.splits)
qed

lemma in_slot_objects [simp]: "in_slot (st\<lparr>objects := h\<rparr>) p = in_slot st p"
  by (simp add: in_slot_def)

lemma in_slot_le: "in_slot st p \<le> 1"
  by (simp add: in_slot_def)

text \<open>A change at one address.\<close>

lemma ut_inv_upd:
  assumes "ut_inv st own" "obj_ok x p (k + in_slot st p)"
  shows "ut_inv (st\<lparr>objects := (objects st)(p := x)\<rparr>) (own(p := k))"
  using assms unfolding ut_inv_def in_slot_objects by auto

lemma ref_inv:
  assumes "ut_inv st own" "p \<noteq> NULL" "0 < own p + in_slot st p" "own p + 2 < 2 ^ 32"
  obtains st' where "zuthread_ref p st = Some st'" "ut_inv st' (own(p := own p + 1))"
proof -
  obtain b where b: "objects st p = Some b" "unat (ref_count b) = own p + in_slot st p"
    using ut_inv_object[OF assms(1,3)] by metis
  let ?b = "b\<lparr>ref_count := ref_count b + 1\<rparr>"
  have "unat (ref_count b) + 1 < 2 ^ 32" using b(2) assms(4) in_slot_le[of st p] by simp
  then have "unat (ref_count b + 1) = unat (ref_count b) + 1" by (simp add: unat_word_ariths)
  then have "obj_ok (Some ?b) p (own p + 1 + in_slot st p)" using assms(2) b(2) by (simp add: obj_ok_def)
  then have "ut_inv (st\<lparr>objects := (objects st)(p := Some ?b)\<rparr>) (own(p := own p + 1))" by (rule ut_inv_upd[OF assms(1)])
  then show thesis using that b(1) assms(2) by (simp add: zuthread_ref_def)
qed

text \<open>Giving up one of the references, held by the program or, after its slot was cleared, by a thread.\<close>

lemma unref_inv:
  assumes obj: "objects st p = Some b" "p \<noteq> NULL" "unat (ref_count b) = k + 1" "k = own' + in_slot st p"
    and others: "\<And>q. q \<noteq> p \<Longrightarrow> obj_ok (objects st q) q (own q + in_slot st q)"
    and inj: "\<forall>t t'. slot st t = slot st t' \<and> slot st t \<noteq> NULL \<longrightarrow> t = t'"
  obtains st' where "zuthread_unref p st = Some st'" "ut_inv st' (own(p := own'))"
proof (cases "k = 0")
  case True
  then have "ref_count b = 1" using obj(3) by (simp add: word_unat_eq_iff)
  then have "zuthread_unref p st = Some (st\<lparr>objects := (objects st)(p := None)\<rparr>)" using obj by (simp add: zuthread_unref_def)
  moreover have "ut_inv (st\<lparr>objects := (objects st)(p := None)\<rparr>) (own(p := own'))"
    using others inj obj(4) True by (simp add: ut_inv_def obj_ok_def)
  ultimately show thesis by (rule that)
next
  case False
  let ?b = "b\<lparr>ref_count := ref_count b - 1\<rparr>"
  have "ref_count b \<noteq> 1" using obj(3) False by (auto simp: word_unat_eq_iff)
  then have "zuthread_unref p st = Some (st\<lparr>objects := (objects st)(p := Some ?b)\<rparr>)" using obj by (simp add: zuthread_unref_def)
  moreover have "unat (ref_count b - 1) = k"
    using obj(3) unat_minus_one[of "ref_count b"] by (metis add_diff_cancel_right' add_is_0 unat_0 zero_neq_one)
  then have "ut_inv (st\<lparr>objects := (objects st)(p := Some ?b)\<rparr>) (own(p := own'))"
    using others inj obj False by (simp add: ut_inv_def obj_ok_def)
  ultimately show thesis by (rule that)
qed

lemma thread_end_inv:
  assumes "ut_inv st own"
  obtains st' where "thread_end t st = Some st'" "ut_inv st' own"
proof (cases "slot st t = NULL")
  case True
  then have "st\<lparr>slot := (slot st)(t := NULL)\<rparr> = st" by (cases st) auto
  with True that assms show thesis by (simp add: thread_end_def)
next
  case False
  let ?p = "slot st t"
  let ?st = "st\<lparr>slot := (slot st)(t := NULL)\<rparr>"
  have inj: "\<forall>t t'. slot st t = slot st t' \<and> slot st t \<noteq> NULL \<longrightarrow> t = t'" using assms unfolding ut_inv_def by blast
  have one: "in_slot st ?p = 1" using False by (auto simp: in_slot_def)
  obtain b where b: "objects st ?p = Some b" "unat (ref_count b) = own ?p + in_slot st ?p"
    using ut_inv_object[OF assms, of ?p] one by auto
  have zero: "in_slot ?st ?p = 0" using inj False by (auto simp: in_slot_def)
  have same: "in_slot ?st q = in_slot st q" if "q \<noteq> ?p" for q using that by (auto simp: in_slot_def)
  have others: "obj_ok (objects ?st q) q (own q + in_slot ?st q)" if "q \<noteq> ?p" for q
    using assms same[OF that] by (simp add: ut_inv_def)
  have inj': "\<forall>t t'. slot ?st t = slot ?st t' \<and> slot ?st t \<noteq> NULL \<longrightarrow> t = t'" using inj by (auto split: if_splits)
  have b': "objects ?st ?p = Some b" "unat (ref_count b) = own ?p + 1" "own ?p = own ?p + in_slot ?st ?p"
    using b one zero by simp_all
  obtain st' where "zuthread_unref ?p ?st = Some st'" "ut_inv st' (own(?p := own ?p))"
    using unref_inv[OF b'(1) False b'(2,3) others inj'] by metis
  then show thesis using that False by (simp add: thread_end_def pzuthread_cleanup_def)
qed

lemma new_object_inv:
  assumes "ut_inv st own" "good_alloc alloc" "p = alloc (objects st)" "p \<noteq> NULL" "slot st t = NULL"
    and "unat (ref_count b) = k + 1"
  shows "ut_inv (st\<lparr>objects := (objects st)(p := Some b), slot := (slot st)(t := p)\<rparr>) (own(p := own p + k))"
proof -
  let ?st = "st\<lparr>objects := (objects st)(p := Some b), slot := (slot st)(t := p)\<rparr>"
  have new: "objects st p = None" using good_allocD[OF assms(2)] assms(3,4) by simp
  then have z: "own p = 0" "in_slot st p = 0" using assms(1) unfolding ut_inv_def obj_ok_def by (auto dest: spec[of _ p])
  then have ns: "slot st u \<noteq> p" for u using assms(4) by (auto simp: in_slot_def split: if_splits)
  have sl: "in_slot ?st q = (if q = p then 1 else in_slot st q)" for q
    using assms(4,5) by (auto simp: in_slot_def)
  have "obj_ok (objects ?st q) q ((own(p := own p + k)) q + in_slot ?st q)" for q
    using assms(1,4,6) z unfolding sl ut_inv_def by (auto simp: obj_ok_def)
  moreover have "\<forall>u u'. slot ?st u = slot ?st u' \<and> slot ?st u \<noteq> NULL \<longrightarrow> u = u'"
    using assms(1) ns unfolding ut_inv_def by (auto split: if_splits)
  ultimately show ?thesis unfolding ut_inv_def by blast
qed

lemma current_inv:
  assumes "ut_inv st own" "good_alloc alloc"
  shows "ut_inv (fst (zuthread_current alloc t st)) own"
    "snd (zuthread_current alloc t st) \<noteq> NULL \<Longrightarrow> slot (fst (zuthread_current alloc t st)) t = snd (zuthread_current alloc t st)"
proof -
  let ?p = "alloc (objects st)"
  show "ut_inv (fst (zuthread_current alloc t st)) own"
  proof (cases "slot st t = NULL \<and> ?p \<noteq> NULL")
    case True
    then show ?thesis
      using new_object_inv[OF assms refl, of t "\<lparr>ref_count = 1, ret_code = 0, ours = False, joinable = False, thread_name = None\<rparr>" 0]
      by (simp add: zuthread_current_def Let_def)
  next
    case False
    then show ?thesis using assms(1) by (auto simp: zuthread_current_def Let_def)
  qed
  show "snd (zuthread_current alloc t st) \<noteq> NULL \<Longrightarrow> slot (fst (zuthread_current alloc t st)) t = snd (zuthread_current alloc t st)"
    by (auto simp: zuthread_current_def Let_def split: if_splits)
qed

lemma exit_inv:
  assumes "ut_inv st own" "good_alloc alloc"
  obtains st' where "zuthread_exit alloc t c st = Some st'" "ut_inv st' own"
proof -
  obtain st1 p where cur: "zuthread_current alloc t st = (st1, p)" by fastforce
  have inv: "ut_inv st1 own" and sl: "p \<noteq> NULL \<Longrightarrow> slot st1 t = p" using current_inv[OF assms, of t] cur by auto
  show thesis
  proof (cases "p = NULL")
    case True
    then show thesis using that inv cur by (simp add: zuthread_exit_def)
  next
    case False
    then have "0 < own p + in_slot st1 p" using sl by (auto simp: in_slot_def)
    then obtain b where b: "objects st1 p = Some b" "unat (ref_count b) = own p + in_slot st1 p"
      using ut_inv_object[OF inv, of p] by metis
    have "ut_inv (st1\<lparr>objects := (objects st1)(p := Some (b\<lparr>ret_code := c\<rparr>))\<rparr>) (own(p := own p))"
      using inv b False sl by (intro ut_inv_upd) (auto simp: obj_ok_def in_slot_def)
    then have inv2: "ut_inv (st1\<lparr>objects := (objects st1)(p := Some (b\<lparr>ret_code := c\<rparr>))\<rparr>) own" by simp
    obtain st' where "thread_end t (st1\<lparr>objects := (objects st1)(p := Some (b\<lparr>ret_code := c\<rparr>))\<rparr>) = Some st'" "ut_inv st' own"
      using thread_end_inv[OF inv2] by blast
    then show thesis using that inv cur b False by (cases "ours b") (auto simp: zuthread_exit_def)
  qed
qed

lemma ut_step_inv:
  assumes "ut_inv st own" "good_alloc alloc" "allowed op st own" "\<forall>p. own p + 2 < 2 ^ 32"
  shows "\<exists>st'. ut_step alloc op st = Some st' \<and> ut_inv st' (own_after alloc op st own)"
proof (cases op)
  case (Ut_Create t jn)
  then show ?thesis
    using assms(1,3) new_object_inv[OF assms(1,2) refl, of t "\<lparr>ref_count = 2, ret_code = 0, ours = True, joinable = jn, thread_name = None\<rparr>" 1]
    by (auto simp: zuthread_create_full_def Let_def zstrdup_def)
next
  case (Ut_Current t)
  then show ?thesis using current_inv(1)[OF assms(1,2)] by simp
next
  case (Ut_Ref p)
  have "p \<noteq> NULL \<Longrightarrow> 0 < own p + in_slot st p" using Ut_Ref assms(3) by (auto simp: in_slot_def)
  then show ?thesis
    using Ut_Ref assms(1,4) ref_inv[OF assms(1), of p] by (cases "p = NULL") (auto simp: zuthread_ref_def)
next
  case (Ut_Unref p)
  show ?thesis
  proof (cases "p = NULL")
    case False
    then have pos: "0 < own p" using Ut_Unref assms(3) by simp
    then obtain b where b: "objects st p = Some b" "unat (ref_count b) = own p + in_slot st p"
      using ut_inv_object[OF assms(1), of p] by auto
    have u: "unat (ref_count b) = own p - 1 + in_slot st p + 1" using b(2) pos by simp
    have inv: "obj_ok (objects st q) q (own q + in_slot st q)"
      "\<forall>t t'. slot st t = slot st t' \<and> slot st t \<noteq> NULL \<longrightarrow> t = t'" for q
      using assms(1) unfolding ut_inv_def by blast+
    obtain st' where "zuthread_unref p st = Some st'" "ut_inv st' (own(p := own p - 1))"
      using unref_inv[OF b(1) False u refl inv] by metis
    then show ?thesis using Ut_Unref False by simp
  qed (use Ut_Unref assms(1) in \<open>simp add: zuthread_unref_def\<close>)
next
  case (Ut_Exit t c)
  then show ?thesis using exit_inv[OF assms(1,2), of t c] by auto
next
  case (Ut_End t)
  then show ?thesis using thread_end_inv[OF assms(1), of t] by auto
next
  case (Ut_Join p)
  have "p \<noteq> NULL \<Longrightarrow> objects st p \<noteq> None" using Ut_Join assms(1,3) ut_inv_object[OF assms(1), of p] by auto
  then show ?thesis using Ut_Join assms(1) by (auto simp: zuthread_join_def)
qed

lemma own_after_le: "own_after alloc op st own p \<le> own p + 1"
  by (cases op) (auto simp: Let_def)

lemma ut_run_inv:
  "ut_inv st own \<Longrightarrow> good_alloc alloc \<Longrightarrow> disciplined alloc ops st own \<Longrightarrow> \<forall>p. own p + length ops + 2 < 2 ^ 32 \<Longrightarrow>
   \<exists>st' own'. ut_run alloc ops st own = Some (st', own') \<and> ut_inv st' own'"
proof (induction ops arbitrary: st own)
  case (Cons op ops)
  have "\<forall>p. own p + 2 < 2 ^ 32" 
  proof
    show "own p + 2 < 2 ^ 32" for p using Cons.prems(4)[rule_format, of p] by simp
  qed
  then obtain st1 where st1: "ut_step alloc op st = Some st1" "ut_inv st1 (own_after alloc op st own)"
    using ut_step_inv[OF Cons.prems(1,2)] Cons.prems(3) by auto
  have "own_after alloc op st own p + length ops + 2 < 2 ^ 32" for p
    using Cons.prems(4)[rule_format, of p] own_after_le[of alloc op st own p] by simp
  then show ?case using Cons.IH[OF st1(2) Cons.prems(2)] Cons.prems(3) st1(1) by simp
qed simp

text \<open>
  C22: thread objects live exactly as long as they are referenced. In every run of fewer than
  \<open>2 ^ 31\<close> operations of a program that gives up and joins only what it holds, with threads
  that start, ask for their own object, exit and end in any order, no freed object is ever touched;
  an object exists exactly while the program holds a reference or it is the object of a
  thread that has not ended, and its counter is the number of these references.
\<close>

theorem thread_objects_counted:
  assumes "good_alloc alloc" "disciplined alloc ops ut_start (\<lambda>_. 0)" "length ops < 2 ^ 31"
  shows "\<exists>st own. ut_run alloc ops ut_start (\<lambda>_. 0) = Some (st, own) \<and>
    (\<forall>p. p \<noteq> NULL \<longrightarrow>
      (objects st p = None \<longleftrightarrow> own p = 0 \<and> (\<forall>t. slot st t \<noteq> p)) \<and>
      (\<forall>b. objects st p = Some b \<longrightarrow> unat (ref_count b) = own p + (if \<exists>t. slot st t = p then 1 else 0)))"
proof -
  have "ut_inv ut_start (\<lambda>_. 0)" by (simp add: ut_inv_def ut_start_def obj_ok_def in_slot_def)
  then obtain st own where run: "ut_run alloc ops ut_start (\<lambda>_. 0) = Some (st, own)" and inv: "ut_inv st own"
    using ut_run_inv[of ut_start "\<lambda>_. 0" alloc ops] assms by auto
  have "(objects st p = None \<longleftrightarrow> own p = 0 \<and> (\<forall>t. slot st t \<noteq> p)) \<and>
      (\<forall>b. objects st p = Some b \<longrightarrow> unat (ref_count b) = own p + (if \<exists>t. slot st t = p then 1 else 0))" if "p \<noteq> NULL" for p
  proof -
    have "obj_ok (objects st p) p (own p + in_slot st p)" using inv by (simp add: ut_inv_def)
    then show ?thesis using that by (cases "objects st p") (auto simp: obj_ok_def in_slot_def split: if_splits)
  qed
  with run show ?thesis by blast
qed

theorem thread_objects_counted_witness:
  "\<exists>st own. ut_run alloc_three [Ut_Create 1 True, Ut_Exit 1 5, Ut_Join 1, Ut_Unref 1] ut_start (\<lambda>_. 0) = Some (st, own) \<and> objects st 1 = None"
proof -
  let ?ops = "[Ut_Create 1 True, Ut_Exit 1 5, Ut_Join 1, Ut_Unref 1]"
  have d: "disciplined alloc_three ?ops ut_start (\<lambda>_. 0)"
    by (simp add: ut_start_def alloc_three_def zuthread_create_full_def zuthread_exit_def zuthread_current_def thread_end_def
        pzuthread_cleanup_def zuthread_unref_def zuthread_join_def)
  obtain st own where run: "ut_run alloc_three ?ops ut_start (\<lambda>_. 0) = Some (st, own)"
    and free: "objects st 1 = None \<longleftrightarrow> own 1 = 0 \<and> (\<forall>t. slot st t \<noteq> 1)"
    using thread_objects_counted[OF good_alloc_three d] by (auto dest: spec[of _ 1])
  have "own 1 = 0 \<and> (\<forall>t. slot st t \<noteq> 1)"
    using run by (auto simp: ut_start_def alloc_three_def zuthread_create_full_def zuthread_exit_def zuthread_current_def thread_end_def
        pzuthread_cleanup_def zuthread_unref_def zuthread_join_def)
  with run free show ?thesis by blast
qed

end
