(* ===== verification/System_Calls.thy ===== *)
theory System_Calls
  imports PError "HOL-Library.Monad_Syntax"
begin

text \<open>
  Programs that talk to the operating system. The behaviour of the system is the list \<open>todo\<close> of the
  answers that it will give, which the theorems quantify over; a call takes the next answer and
  is recorded with it in \<open>log\<close>. A function that asks for more answers than there are has no
  result: within these answers it does not return. The values of C type \<^verbatim>\<open>int\<close> that are
  only passed on and compared are integers.
\<close>

section \<open>Calls and answers\<close>

text \<open>
  What a call returns, the value of \<^verbatim>\<open>errno\<close> after it, and what it stores through its pointers: a
  number, a length and bytes.
\<close>

record answer =
  a_ret :: int
  a_errno :: int
  a_val :: int
  a_len :: nat
  a_data :: "puchar list"

text \<open>\<open>err\<close> is the error pointer that the caller passed.\<close>

record 'c sys =
  todo :: "answer list"
  log :: "('c \<times> answer) list"
  errno :: int
  err :: "PError option option"

definition sys_call :: "'c \<Rightarrow> 'c sys \<Rightarrow> (answer \<times> 'c sys) option" where
  "sys_call c s =
     (case todo s of
        [] \<Rightarrow> None
      | a # as \<Rightarrow> Some (a, s\<lparr>todo := as, log := log s @ [(c, a)], errno := a_errno a\<rparr>))"

text \<open>The error numbers of the system, and the outcomes of the allocations of a call.\<close>

record sys_env =
  names :: "string \<Rightarrow> int option"
  err_mem :: bool
  msg_mem :: bool
  obj_mem :: bool

definition is_eintr :: "sys_env \<Rightarrow> int \<Rightarrow> bool" where
  "is_eintr e n \<longleftrightarrow> names e ''EINTR'' = Some n"

definition report :: "sys_env \<Rightarrow> int \<Rightarrow> int \<Rightarrow> string \<Rightarrow> 'c sys \<Rightarrow> 'c sys" where
  "report e c n m s =
     s\<lparr>err := zerror_set_error_p (err_mem e) (msg_mem e) (err s) (word_of_int c) (word_of_int n) (Some m)\<rparr>"

text \<open>A call that is repeated as long as the answer asks for it.\<close>

function retry :: "(answer \<Rightarrow> bool) \<Rightarrow> 'c \<Rightarrow> 'c sys \<Rightarrow> (answer \<times> 'c sys) option" where
  "retry again c s =
     (case sys_call c s of
        None \<Rightarrow> None
      | Some (a, s1) \<Rightarrow> if again a then retry again c s1 else Some (a, s1))"
  by pat_completeness auto

termination
  by (relation "measure (\<lambda>(again, c, s). length (todo s))") (auto simp: sys_call_def split: list.splits)

declare retry.simps [simp del]

section \<open>What a function consumes\<close>

text \<open>From \<open>s\<close> to \<open>t\<close> the calls and answers \<open>l\<close> were exchanged.\<close>

definition consumes :: "'c sys \<Rightarrow> ('c \<times> answer) list \<Rightarrow> 'c sys \<Rightarrow> bool" where
  "consumes s l t \<longleftrightarrow>
     log t = log s @ l \<and> todo s = map snd l @ todo t \<and> errno t = (if l = [] then errno s else a_errno (snd (last l)))"

lemma consumes_refl [simp, intro]: "consumes s [] s"
  by (simp add: consumes_def)

lemma consumes_trans: "consumes s l t \<Longrightarrow> consumes t k u \<Longrightarrow> consumes s (l @ k) u"
  by (auto simp: consumes_def)

lemma consumes_err [simp]: "consumes (s\<lparr>err := x\<rparr>) l t = consumes s l t" "consumes s l (t\<lparr>err := x\<rparr>) = consumes s l t"
  by (simp_all add: consumes_def)

lemma consumes_report [simp]: "consumes s l (report e c n m t) = consumes s l t" "consumes (report e c n m s) l t = consumes s l t"
  by (simp_all add: report_def)

lemma consumes_length: "consumes s l t \<Longrightarrow> length (todo t) \<le> length (todo s)"
  by (simp add: consumes_def)

lemma sys_callD:
  assumes "sys_call c s = Some (a, t)"
  shows "consumes s [(c, a)] t" "err t = err s" "errno t = a_errno a" "todo s = a # todo t"
  using assms by (auto simp: sys_call_def consumes_def split: list.splits)

lemma sys_call_less: "sys_call c s = Some (a, t) \<Longrightarrow> length (todo t) < length (todo s)"
  by (drule sys_callD(4)) simp

lemma sys_call_Cons [simp]: "todo s = a # as \<Longrightarrow> sys_call c s = Some (a, s\<lparr>todo := as, log := log s @ [(c, a)], errno := a_errno a\<rparr>)"
  by (simp add: sys_call_def)

lemma sys_call_Nil [simp]: "sys_call c s = None \<longleftrightarrow> todo s = []"
  by (simp add: sys_call_def split: list.splits)

text \<open>The repeated call takes all answers up to the first that ends it, or never returns.\<close>

lemma retryD:
  "retry again c s = Some (a, t) \<Longrightarrow>
   \<exists>as. consumes s (map (Pair c) as @ [(c, a)]) t \<and> (\<forall>b \<in> set as. again b) \<and> \<not> again a \<and> err t = err s"
proof (induction again c s rule: retry.induct)
  case (1 again c s)
  obtain b s1 where call: "sys_call c s = Some (b, s1)"
    using "1.prems" by (subst (asm) retry.simps) (auto split: option.splits)
  show ?case
  proof (cases "again b")
    case True
    then have "retry again c s1 = Some (a, t)" using "1.prems" call by (subst (asm) retry.simps) simp
    then obtain as where as: "consumes s1 (map (Pair c) as @ [(c, a)]) t" "\<forall>b \<in> set as. again b" "\<not> again a" "err t = err s1"
      using "1.IH"[OF call refl True] by blast
    have "consumes s (map (Pair c) (b # as) @ [(c, a)]) t" using consumes_trans[OF sys_callD(1)[OF call] as(1)] by simp
    then show ?thesis using as True sys_callD(2)[OF call] by (intro exI[of _ "b # as"]) auto
  next
    case False
    then have "b = a" "s1 = t" using "1.prems" call by (subst (asm) retry.simps, simp)+
    then show ?thesis using call False sys_callD[OF call] by (intro exI[of _ "[]"]) auto
  qed
qed

lemma retry_None: "retry again c s = None \<longleftrightarrow> (\<forall>a \<in> set (todo s). again a)"
proof (induction again c s rule: retry.induct)
  case (1 again c s)
  show ?case
  proof (cases "todo s")
    case (Cons a as)
    then show ?thesis using "1.IH"[of "(a, s\<lparr>todo := as, log := log s @ [(c, a)], errno := a_errno a\<rparr>)"]
      by (subst retry.simps) (auto simp: sys_call_def)
  qed (subst retry.simps, simp add: sys_call_def)
qed

section \<open>Functions that return\<close>

text \<open>A result exists and has a property; the rules follow the structure of a program.\<close>

definition returns :: "('x \<Rightarrow> bool) \<Rightarrow> 'x option \<Rightarrow> bool" where
  "returns Q r \<longleftrightarrow> (\<exists>x. r = Some x \<and> Q x)"

lemma returns_Some [simp]: "returns Q (Some x) = Q x"
  by (simp add: returns_def)

lemma returns_bind: "returns P m \<Longrightarrow> (\<And>x. P x \<Longrightarrow> returns Q (f x)) \<Longrightarrow> returns Q (m \<bind> f)"
  by (auto simp: returns_def)

lemma returns_mono: "returns P m \<Longrightarrow> (\<And>x. P x \<Longrightarrow> Q x) \<Longrightarrow> returns Q m"
  by (auto simp: returns_def)

text \<open>Of \<open>k + 1\<close> answers a call leaves \<open>k\<close>.\<close>

lemma returns_call:
  assumes "k < length (todo s)"
  shows "returns (\<lambda>(a, t). k \<le> length (todo t)) (sys_call c s)"
  using assms by (cases "todo s") (auto simp: sys_call_def)

lemma returns_call_then:
  assumes "k < length (todo s)" "\<And>a t. k \<le> length (todo t) \<Longrightarrow> returns Q (f a t)"
  shows "returns Q (sys_call c s \<bind> (\<lambda>(a, t). f a t))"
  using assms by (intro returns_bind[OF returns_call]) auto

end
