(* ===== verification/PSocket.thy ===== *)
theory PSocket
  imports System_Calls PSocketAddress
begin

unbundle bit_operations_syntax

text \<open>
  Sockets, \<^verbatim>\<open>src/src/lib/psocket.c\<close> on Linux: the object with its flags, and every operation with the
  calls that it makes to the system, in their order. A null socket is \<open>None\<close>; operations on a
  socket that the code may change return it. A caller's buffer is its bytes, and the unset buffer
  into which a native address is written starts with zeros.
\<close>

section \<open>Types\<close>

datatype PSocketProtocol = P_SOCKET_PROTOCOL_UNKNOWN | P_SOCKET_PROTOCOL_DEFAULT | P_SOCKET_PROTOCOL_TCP
  | P_SOCKET_PROTOCOL_UDP | P_SOCKET_PROTOCOL_SCTP

datatype PSocketType = P_SOCKET_TYPE_UNKNOWN | P_SOCKET_TYPE_STREAM | P_SOCKET_TYPE_DATAGRAM | P_SOCKET_TYPE_SEQPACKET

datatype PSocketDirection = P_SOCKET_DIRECTION_SND | P_SOCKET_DIRECTION_RCV

datatype PSocketIOCondition = P_SOCKET_IO_CONDITION_POLLIN | P_SOCKET_IO_CONDITION_POLLOUT

record PSocket =
  sk_family :: PSocketFamily
  sk_protocol :: PSocketProtocol
  sk_type :: PSocketType
  sk_fd :: int
  sk_listen_backlog :: int
  sk_timeout :: int
  sk_blocking :: bool
  sk_keepalive :: bool
  sk_closed :: bool
  sk_connected :: bool
  sk_listening :: bool

definition socket_zero :: PSocket where
  "socket_zero = \<lparr>sk_family = P_SOCKET_FAMILY_UNKNOWN, sk_protocol = P_SOCKET_PROTOCOL_DEFAULT, sk_type = P_SOCKET_TYPE_UNKNOWN,
     sk_fd = 0, sk_listen_backlog = 0, sk_timeout = 0, sk_blocking = False, sk_keepalive = False, sk_closed = False,
     sk_connected = False, sk_listening = False\<rparr>"

definition P_SOCKET_DEFAULT_BACKLOG :: int where "P_SOCKET_DEFAULT_BACKLOG = 5"

text \<open>The numbers of the headers of Linux.\<close>

fun family_number :: "PSocketFamily \<Rightarrow> int" where
  "family_number P_SOCKET_FAMILY_UNKNOWN = 0"
| "family_number P_SOCKET_FAMILY_INET = 2"
| "family_number P_SOCKET_FAMILY_INET6 = 10"

fun protocol_number :: "PSocketProtocol \<Rightarrow> int" where
  "protocol_number P_SOCKET_PROTOCOL_UNKNOWN = - 1"
| "protocol_number P_SOCKET_PROTOCOL_DEFAULT = 0"
| "protocol_number P_SOCKET_PROTOCOL_TCP = 6"
| "protocol_number P_SOCKET_PROTOCOL_UDP = 17"
| "protocol_number P_SOCKET_PROTOCOL_SCTP = 132"

definition SOCK_STREAM :: int where "SOCK_STREAM = 1"

definition SOCK_DGRAM :: int where "SOCK_DGRAM = 2"

definition SOCK_SEQPACKET :: int where "SOCK_SEQPACKET = 5"

definition SOCK_CLOEXEC :: int where "SOCK_CLOEXEC = 0x80000"

definition O_NONBLOCK :: int where "O_NONBLOCK = 0x800"

definition FD_CLOEXEC :: int where "FD_CLOEXEC = 1"

definition POLLIN :: int where "POLLIN = 1"

definition POLLOUT :: int where "POLLOUT = 4"

definition SHUT_RD :: int where "SHUT_RD = 0"

definition SHUT_WR :: int where "SHUT_WR = 1"

definition SHUT_RDWR :: int where "SHUT_RDWR = 2"

definition P_SOCKET_DEFAULT_SEND_FLAGS :: int where "P_SOCKET_DEFAULT_SEND_FLAGS = 0x4000"

text \<open>The calls of the system that the code makes.\<close>

datatype fcntl_cmd = F_GETFL | F_SETFL | F_GETFD | F_SETFD

datatype sock_opt = SO_TYPE | SO_DOMAIN | SO_KEEPALIVE | SO_ERROR | SO_REUSEADDR | SO_REUSEPORT | SO_RCVBUF | SO_SNDBUF

datatype sock_call =
    C_socket int int int
  | C_fcntl int fcntl_cmd int
  | C_getsockopt int sock_opt
  | C_setsockopt int sock_opt int
  | C_getsockname int
  | C_getpeername int
  | C_bind int "puchar list" nat
  | C_connect int "puchar list" nat
  | C_listen int int
  | C_accept int
  | C_recv int nat
  | C_recvfrom int nat
  | C_send int "puchar list" int
  | C_sendto int "puchar list" int "puchar list" nat
  | C_close int
  | C_shutdown int int
  | C_poll int int int

type_synonym sk_sys = "sock_call sys"

record sk_env = sys_env +
  addr_mem :: bool
  sk_cfg :: sock_config

text \<open>The messages of the error reports.\<close>

datatype sk_msg = M_Argument | M_Blocking | M_Closed | M_Type | M_Type_Length | M_Name | M_Domain | M_Bad_Fd | M_Memory
  | M_Family | M_Unknown | M_Socket | M_Local | M_Remote | M_Native | M_Status | M_Layer | M_Convert | M_Bind
  | M_Couldnt_Block | M_Connect | M_Listen | M_Accept | M_Recv | M_Recvfrom | M_Send | M_Sendto | M_Close | M_Shutdown
  | M_Buffer | M_Timed_Out | M_Poll

primrec msg_text :: "sk_msg \<Rightarrow> string" where
  "msg_text M_Argument = ''Invalid input argument''"
| "msg_text M_Blocking = ''Failed to set socket blocking flags''"
| "msg_text M_Closed = ''Socket is already closed''"
| "msg_text M_Type = ''Failed to call getsockopt() to get socket info for fd''"
| "msg_text M_Type_Length = ''Failed to get socket info for fd, bad option length''"
| "msg_text M_Name = ''Failed to call getsockname() to get socket address info''"
| "msg_text M_Domain = ''Failed to call getsockopt() to get socket SO_DOMAIN option''"
| "msg_text M_Bad_Fd = ''Unable to create socket from bad fd''"
| "msg_text M_Memory = ''Failed to allocate memory for socket''"
| "msg_text M_Family = ''Invalid input socket family, type or protocol''"
| "msg_text M_Unknown = ''Unable to create socket with unknown family''"
| "msg_text M_Socket = ''Failed to call socket() to create socket''"
| "msg_text M_Local = ''Failed to call getsockname() to get local socket address''"
| "msg_text M_Remote = ''Failed to call getpeername() to get remote socket address''"
| "msg_text M_Native = ''Failed to create socket address from native structure''"
| "msg_text M_Status = ''Failed to call getsockopt() to get connection status''"
| "msg_text M_Layer = ''Error in socket layer''"
| "msg_text M_Convert = ''Failed to convert socket address to native structure''"
| "msg_text M_Bind = ''Failed to call bind() on socket''"
| "msg_text M_Couldnt_Block = ''Couldn't block non-blocking socket''"
| "msg_text M_Connect = ''Failed to call connect() on socket''"
| "msg_text M_Listen = ''Failed to call listen() on socket''"
| "msg_text M_Accept = ''Failed to call accept() on socket''"
| "msg_text M_Recv = ''Failed to call recv() on socket''"
| "msg_text M_Recvfrom = ''Failed to call recvfrom() on socket''"
| "msg_text M_Send = ''Failed to call send() on socket''"
| "msg_text M_Sendto = ''Failed to call sendto() on socket''"
| "msg_text M_Close = ''Failed to close socket''"
| "msg_text M_Shutdown = ''Failed to call shutdown() on socket''"
| "msg_text M_Buffer = ''Failed to call setsockopt() on socket to set buffer size''"
| "msg_text M_Timed_Out = ''Timed out while waiting socket condition''"
| "msg_text M_Poll = ''Failed to call poll() on socket''"

definition sk_report :: "sk_env \<Rightarrow> int \<Rightarrow> int \<Rightarrow> sk_msg \<Rightarrow> sk_sys \<Rightarrow> sk_sys" where
  "sk_report e c n m s = report (sys_env.truncate e) c n (msg_text m) s"

text \<open>The report that most failures of a call end with.\<close>

definition io_code :: "sk_env \<Rightarrow> int \<Rightarrow> int" where
  "io_code e n = zerror_get_io_from_system (names e) n"

definition sk_report_net :: "sk_env \<Rightarrow> sk_msg \<Rightarrow> sk_sys \<Rightarrow> sk_sys" where
  "sk_report_net e m s = sk_report e (io_code e (zerror_get_last_net (errno s))) (zerror_get_last_net (errno s)) m s"

definition sk_eintr :: "sk_env \<Rightarrow> int \<Rightarrow> bool" where
  "sk_eintr e n \<longleftrightarrow> is_eintr (sys_env.truncate e) n"

text \<open>The contents of a \<^verbatim>\<open>struct sockaddr_storage\<close> after a call that may have filled it.\<close>

definition sa_buffer :: "answer \<Rightarrow> puchar list" where
  "sa_buffer a = take 128 (a_data a @ replicate 128 0)"

section \<open>Construction\<close>

definition pzsocket_set_fd_blocking :: "sk_env \<Rightarrow> int \<Rightarrow> bool \<Rightarrow> sk_sys \<Rightarrow> (bool \<times> sk_sys) option" where
  "pzsocket_set_fd_blocking e fd blocking s = do {
     (a, s1) \<leftarrow> sys_call (C_fcntl fd F_GETFL 0) s;
     let arg = (if a_ret a < 0 then 0 else a_ret a);
     let arg' = (if \<not> blocking then arg OR O_NONBLOCK else arg AND NOT O_NONBLOCK);
     (b, s2) \<leftarrow> sys_call (C_fcntl fd F_SETFL arg') s1;
     if a_ret b < 0 then Some (False, sk_report_net e M_Blocking s2) else Some (True, s2)
   }"

definition pzsocket_check :: "sk_env \<Rightarrow> PSocket \<Rightarrow> sk_sys \<Rightarrow> bool \<times> sk_sys" where
  "pzsocket_check e sk s =
     (if sk_closed sk then (False, sk_report e P_ERROR_IO_NOT_AVAILABLE 0 M_Closed s) else (True, s))"

definition type_of_number :: "int \<Rightarrow> PSocketType" where
  "type_of_number v =
     (if v = SOCK_STREAM then P_SOCKET_TYPE_STREAM
      else if v = SOCK_DGRAM then P_SOCKET_TYPE_DATAGRAM
      else if v = SOCK_SEQPACKET then P_SOCKET_TYPE_SEQPACKET
      else P_SOCKET_TYPE_UNKNOWN)"

definition family_of_number :: "puint16 \<Rightarrow> PSocketFamily" where
  "family_of_number n =
     (if n = AF_INET then P_SOCKET_FAMILY_INET
      else if n = AF_INET6 then P_SOCKET_FAMILY_INET6
      else P_SOCKET_FAMILY_UNKNOWN)"

fun protocol_of_type :: "PSocketProtocol \<Rightarrow> PSocketType \<Rightarrow> PSocketProtocol" where
  "protocol_of_type old P_SOCKET_TYPE_STREAM = P_SOCKET_PROTOCOL_TCP"
| "protocol_of_type old P_SOCKET_TYPE_DATAGRAM = P_SOCKET_PROTOCOL_UDP"
| "protocol_of_type old P_SOCKET_TYPE_SEQPACKET = P_SOCKET_PROTOCOL_SCTP"
| "protocol_of_type old P_SOCKET_TYPE_UNKNOWN = old"

text \<open>
  The details of a descriptor that is not the library's. The family is that of the local address; what
  \<^verbatim>\<open>SO_DOMAIN\<close> gives is not used. The code runs in three parts.
\<close>

definition details_type :: "sk_env \<Rightarrow> PSocket \<Rightarrow> sk_sys \<Rightarrow> (PSocket option \<times> sk_sys) option" where
  "details_type e sk s = do {
     (a, s1) \<leftarrow> sys_call (C_getsockopt (sk_fd sk) SO_TYPE) s;
     if a_ret a \<noteq> 0 then Some (None, sk_report_net e M_Type s1)
     else if a_len a \<noteq> 4 then Some (None, sk_report e P_ERROR_IO_INVALID_ARGUMENT 0 M_Type_Length s1)
     else Some (Some (sk\<lparr>sk_type := type_of_number (a_val a)\<rparr>), s1)
   }"

definition details_family :: "sk_env \<Rightarrow> PSocket \<Rightarrow> sk_sys \<Rightarrow> (PSocket option \<times> sk_sys) option" where
  "details_family e sk s = do {
     (b, s1) \<leftarrow> sys_call (C_getsockname (sk_fd sk)) s;
     if a_ret b \<noteq> 0 then Some (None, sk_report_net e M_Name s1)
     else do {
       (ok, s2) \<leftarrow> (if a_len b = 0
          then do {
            (c, t) \<leftarrow> sys_call (C_getsockopt (sk_fd sk) SO_DOMAIN) s1;
            if a_ret c \<noteq> 0 then Some (False, sk_report_net e M_Domain t) else Some (True, t)
          }
          else Some (True, s1));
       if \<not> ok then Some (None, s2)
       else
         let fam = family_of_number (native_word (sk_cfg e) (sa_buffer b) 0 2)
         in Some (Some (sk\<lparr>sk_family := fam,
              sk_protocol := (if fam = P_SOCKET_FAMILY_INET6 \<or> fam = P_SOCKET_FAMILY_INET
                then protocol_of_type (sk_protocol sk) (sk_type sk) else sk_protocol sk)\<rparr>), s2)
     }
   }"

definition details_state :: "PSocket \<Rightarrow> sk_sys \<Rightarrow> (PSocket \<times> sk_sys) option" where
  "details_state sk s = do {
     (sk1, s1) \<leftarrow> (if sk_family sk \<noteq> P_SOCKET_FAMILY_UNKNOWN
        then do {
          (a, t) \<leftarrow> sys_call (C_getpeername (sk_fd sk)) s;
          Some (if a_ret a \<ge> 0 then sk\<lparr>sk_connected := True\<rparr> else sk, t)
        }
        else Some (sk, s));
     (b, s2) \<leftarrow> sys_call (C_getsockopt (sk_fd sk) SO_KEEPALIVE) s1;
     Some (sk1\<lparr>sk_keepalive := (a_ret b = 0 \<and> a_val b \<noteq> 0)\<rparr>, s2)
   }"

definition pzsocket_set_details_from_fd :: "sk_env \<Rightarrow> PSocket \<Rightarrow> sk_sys \<Rightarrow> (PSocket option \<times> sk_sys) option" where
  "pzsocket_set_details_from_fd e sk s = do {
     (x, s1) \<leftarrow> details_type e sk s;
     case x of
       None \<Rightarrow> Some (None, s1)
     | Some sk1 \<Rightarrow> do {
         (y, s2) \<leftarrow> details_family e sk1 s1;
         case y of
           None \<Rightarrow> Some (None, s2)
         | Some sk2 \<Rightarrow> do {
             (sk3, s3) \<leftarrow> details_state sk2 s2;
             Some (Some sk3, s3)
           }
       }
   }"

definition zsocket_set_listen_backlog :: "PSocket option \<Rightarrow> int \<Rightarrow> PSocket option" where
  "zsocket_set_listen_backlog sp backlog =
     (case sp of
        None \<Rightarrow> None
      | Some sk \<Rightarrow> if sk_listening sk then sp else Some (sk\<lparr>sk_listen_backlog := backlog\<rparr>))"

definition zsocket_new_from_fd :: "sk_env \<Rightarrow> int \<Rightarrow> sk_sys \<Rightarrow> (PSocket option \<times> sk_sys) option" where
  "zsocket_new_from_fd e fd s =
     (if fd < 0 then Some (None, sk_report e P_ERROR_IO_INVALID_ARGUMENT 0 M_Bad_Fd s)
      else if \<not> obj_mem e then Some (None, sk_report e P_ERROR_IO_NO_RESOURCES 0 M_Memory s)
      else do {
        (x, s1) \<leftarrow> pzsocket_set_details_from_fd e (socket_zero\<lparr>sk_fd := fd\<rparr>) s;
        case x of
          None \<Rightarrow> Some (None, s1)
        | Some sk \<Rightarrow> do {
            (ok, s2) \<leftarrow> pzsocket_set_fd_blocking e (sk_fd sk) False s1;
            if \<not> ok then Some (None, s2)
            else Some (map_option (\<lambda>k. k\<lparr>sk_timeout := 0, sk_blocking := True\<rparr>)
                         (zsocket_set_listen_backlog (Some sk) P_SOCKET_DEFAULT_BACKLOG), s2)
          }
      })"

definition zsys_close :: "int \<Rightarrow> sk_sys \<Rightarrow> (int \<times> sk_sys) option" where
  "zsys_close fd s = do { (a, s1) \<leftarrow> sys_call (C_close fd) s; Some (a_ret a, s1) }"

definition zsocket_close :: "sk_env \<Rightarrow> PSocket option \<Rightarrow> sk_sys \<Rightarrow> (bool \<times> PSocket option \<times> sk_sys) option" where
  "zsocket_close e sp s =
     (case sp of
        None \<Rightarrow> Some (False, None, sk_report e P_ERROR_IO_INVALID_ARGUMENT 0 M_Argument s)
      | Some sk \<Rightarrow>
          if sk_closed sk then Some (True, sp, s)
          else do {
            (r, s1) \<leftarrow> zsys_close (sk_fd sk) s;
            if r = 0
            then Some (True, Some (sk\<lparr>sk_connected := False, sk_closed := True, sk_listening := False, sk_fd := - 1\<rparr>), s1)
            else Some (False, sp, sk_report_net e M_Close s1)
          })"

text \<open>Freeing closes with a null error pointer.\<close>

definition zsocket_free :: "sk_env \<Rightarrow> PSocket option \<Rightarrow> sk_sys \<Rightarrow> sk_sys option" where
  "zsocket_free e sp s =
     (case sp of
        None \<Rightarrow> Some s
      | Some sk \<Rightarrow> do {
          (r, sp', s1) \<leftarrow> zsocket_close e sp (s\<lparr>err := None\<rparr>);
          Some (s1\<lparr>err := err s\<rparr>)
        })"

definition set_cloexec :: "int \<Rightarrow> sk_sys \<Rightarrow> sk_sys option" where
  "set_cloexec fd s = do {
     (f, s1) \<leftarrow> sys_call (C_fcntl fd F_GETFD 0) s;
     if a_ret f \<noteq> - 1 \<and> a_ret f AND FD_CLOEXEC = 0
     then do { (b, s2) \<leftarrow> sys_call (C_fcntl fd F_SETFD (a_ret f OR FD_CLOEXEC)) s1; Some s2 }
     else Some s1
   }"

fun native_type :: "PSocketType \<Rightarrow> int option" where
  "native_type P_SOCKET_TYPE_STREAM = Some SOCK_STREAM"
| "native_type P_SOCKET_TYPE_DATAGRAM = Some SOCK_DGRAM"
| "native_type P_SOCKET_TYPE_SEQPACKET = Some SOCK_SEQPACKET"
| "native_type P_SOCKET_TYPE_UNKNOWN = None"

definition zsocket_new ::
    "sk_env \<Rightarrow> PSocketFamily \<Rightarrow> PSocketType \<Rightarrow> PSocketProtocol \<Rightarrow> sk_sys \<Rightarrow> (PSocket option \<times> sk_sys) option" where
  "zsocket_new e fam ty proto s =
     (if fam = P_SOCKET_FAMILY_UNKNOWN \<or> ty = P_SOCKET_TYPE_UNKNOWN \<or> proto = P_SOCKET_PROTOCOL_UNKNOWN
      then Some (None, sk_report e P_ERROR_IO_INVALID_ARGUMENT 0 M_Family s)
      else case native_type ty of
        None \<Rightarrow> Some (None, sk_report e P_ERROR_IO_INVALID_ARGUMENT 0 M_Unknown s)
      | Some nt \<Rightarrow>
          if \<not> obj_mem e then Some (None, sk_report e P_ERROR_IO_NO_RESOURCES 0 M_Memory s)
          else do {
            (a, s1) \<leftarrow> sys_call (C_socket (family_number fam) (nt OR SOCK_CLOEXEC) (protocol_number proto)) s;
            if a_ret a < 0 then Some (None, sk_report_net e M_Socket s1)
            else do {
              s2 \<leftarrow> set_cloexec (a_ret a) s1;
              let sk = socket_zero\<lparr>sk_fd := a_ret a\<rparr>;
              (ok, s3) \<leftarrow> pzsocket_set_fd_blocking e (sk_fd sk) False s2;
              if \<not> ok then do { s4 \<leftarrow> zsocket_free e (Some sk) s3; Some (None, s4) }
              else Some (zsocket_set_listen_backlog
                     (Some (sk\<lparr>sk_timeout := 0, sk_blocking := True, sk_family := fam, sk_protocol := proto, sk_type := ty\<rparr>))
                     P_SOCKET_DEFAULT_BACKLOG, s3)
            }
          })"

section \<open>Properties of the object\<close>

definition zsocket_get_fd :: "PSocket option \<Rightarrow> int" where
  "zsocket_get_fd sp = (case sp of None \<Rightarrow> - 1 | Some sk \<Rightarrow> sk_fd sk)"

definition zsocket_get_family :: "PSocket option \<Rightarrow> PSocketFamily" where
  "zsocket_get_family sp = (case sp of None \<Rightarrow> P_SOCKET_FAMILY_UNKNOWN | Some sk \<Rightarrow> sk_family sk)"

definition zsocket_get_type :: "PSocket option \<Rightarrow> PSocketType" where
  "zsocket_get_type sp = (case sp of None \<Rightarrow> P_SOCKET_TYPE_UNKNOWN | Some sk \<Rightarrow> sk_type sk)"

definition zsocket_get_protocol :: "PSocket option \<Rightarrow> PSocketProtocol" where
  "zsocket_get_protocol sp = (case sp of None \<Rightarrow> P_SOCKET_PROTOCOL_UNKNOWN | Some sk \<Rightarrow> sk_protocol sk)"

definition zsocket_get_keepalive :: "PSocket option \<Rightarrow> bool" where
  "zsocket_get_keepalive sp = (case sp of None \<Rightarrow> False | Some sk \<Rightarrow> sk_keepalive sk)"

definition zsocket_get_blocking :: "PSocket option \<Rightarrow> bool" where
  "zsocket_get_blocking sp = (case sp of None \<Rightarrow> False | Some sk \<Rightarrow> sk_blocking sk)"

definition zsocket_get_listen_backlog :: "PSocket option \<Rightarrow> int" where
  "zsocket_get_listen_backlog sp = (case sp of None \<Rightarrow> - 1 | Some sk \<Rightarrow> sk_listen_backlog sk)"

definition zsocket_get_timeout :: "PSocket option \<Rightarrow> int" where
  "zsocket_get_timeout sp = (case sp of None \<Rightarrow> - 1 | Some sk \<Rightarrow> sk_timeout sk)"

definition zsocket_is_connected :: "PSocket option \<Rightarrow> bool" where
  "zsocket_is_connected sp = (case sp of None \<Rightarrow> False | Some sk \<Rightarrow> sk_connected sk)"

definition zsocket_is_closed :: "PSocket option \<Rightarrow> bool" where
  "zsocket_is_closed sp = (case sp of None \<Rightarrow> True | Some sk \<Rightarrow> sk_closed sk)"

text \<open>The two addresses are got in the same way, with different calls and messages.\<close>

definition get_address :: "sk_env \<Rightarrow> (int \<Rightarrow> sock_call) \<Rightarrow> sk_msg \<Rightarrow> PSocket option \<Rightarrow> sk_sys \<Rightarrow> (PSocketAddress option \<times> sk_sys) option" where
  "get_address e call m sp s =
     (case sp of
        None \<Rightarrow> Some (None, sk_report e P_ERROR_IO_INVALID_ARGUMENT 0 M_Argument s)
      | Some sk \<Rightarrow> do {
          (a, s1) \<leftarrow> sys_call (call (sk_fd sk)) s;
          if a_ret a < 0 then Some (None, sk_report_net e m s1)
          else do {
            r \<leftarrow> zsocket_address_new_from_native (sk_cfg e) (addr_mem e) (Some (sa_buffer a)) (of_nat (a_len a));
            Some (r, if r = None then sk_report e P_ERROR_IO_FAILED 0 M_Native s1 else s1)
          }
        })"

definition zsocket_get_local_address :: "sk_env \<Rightarrow> PSocket option \<Rightarrow> sk_sys \<Rightarrow> (PSocketAddress option \<times> sk_sys) option" where
  "zsocket_get_local_address e sp s = get_address e C_getsockname M_Local sp s"

definition zsocket_get_remote_address :: "sk_env \<Rightarrow> PSocket option \<Rightarrow> sk_sys \<Rightarrow> (PSocketAddress option \<times> sk_sys) option" where
  "zsocket_get_remote_address e sp s = get_address e C_getpeername M_Remote sp s"

definition zsocket_check_connect_result :: "sk_env \<Rightarrow> PSocket option \<Rightarrow> sk_sys \<Rightarrow> (bool \<times> PSocket option \<times> sk_sys) option" where
  "zsocket_check_connect_result e sp s =
     (case sp of
        None \<Rightarrow> Some (False, None, sk_report e P_ERROR_IO_INVALID_ARGUMENT 0 M_Argument s)
      | Some sk \<Rightarrow> do {
          (a, s1) \<leftarrow> sys_call (C_getsockopt (sk_fd sk) SO_ERROR) s;
          if a_ret a < 0 then Some (False, sp, sk_report_net e M_Status s1)
          else
            let s2 = (if a_val a \<noteq> 0 then sk_report e (io_code e (a_val a)) (a_val a) M_Layer s1 else s1)
            in Some (a_val a = 0, Some (sk\<lparr>sk_connected := (a_val a = 0)\<rparr>), s2)
        })"

definition zsocket_set_keepalive :: "PSocket option \<Rightarrow> bool \<Rightarrow> sk_sys \<Rightarrow> (PSocket option \<times> sk_sys) option" where
  "zsocket_set_keepalive sp k s =
     (case sp of
        None \<Rightarrow> Some (None, s)
      | Some sk \<Rightarrow>
          if sk_keepalive sk = k then Some (sp, s)
          else do {
            (a, s1) \<leftarrow> sys_call (C_setsockopt (sk_fd sk) SO_KEEPALIVE (if k then 1 else 0)) s;
            if a_ret a < 0 then Some (sp, s1) else Some (Some (sk\<lparr>sk_keepalive := k\<rparr>), s1)
          })"

definition zsocket_set_blocking :: "PSocket option \<Rightarrow> bool \<Rightarrow> PSocket option" where
  "zsocket_set_blocking sp b = map_option (\<lambda>sk. sk\<lparr>sk_blocking := b\<rparr>) sp"

definition zsocket_set_timeout :: "PSocket option \<Rightarrow> int \<Rightarrow> PSocket option" where
  "zsocket_set_timeout sp t = map_option (\<lambda>sk. sk\<lparr>sk_timeout := (if t < 0 then 0 else t)\<rparr>) sp"

text \<open>The value is cast to \<^verbatim>\<open>int\<close>.\<close>

definition zsocket_set_buffer_size :: "sk_env \<Rightarrow> PSocket option \<Rightarrow> PSocketDirection \<Rightarrow> psize \<Rightarrow> sk_sys \<Rightarrow> (bool \<times> sk_sys) option" where
  "zsocket_set_buffer_size e sp dir n s =
     (case sp of
        None \<Rightarrow> Some (False, sk_report e P_ERROR_IO_INVALID_ARGUMENT 0 M_Argument s)
      | Some sk \<Rightarrow>
          let (ok, s1) = pzsocket_check e sk s
          in if \<not> ok then Some (False, s1)
             else do {
               (a, s2) \<leftarrow> sys_call (C_setsockopt (sk_fd sk) (if dir = P_SOCKET_DIRECTION_RCV then SO_RCVBUF else SO_SNDBUF)
                             (sint (ucast n :: pint))) s1;
               if a_ret a \<noteq> 0 then Some (False, sk_report_net e M_Buffer s2) else Some (True, s2)
             })"

section \<open>Waiting\<close>

definition zsocket_io_condition_wait :: "sk_env \<Rightarrow> PSocket option \<Rightarrow> PSocketIOCondition \<Rightarrow> sk_sys \<Rightarrow> (bool \<times> sk_sys) option" where
  "zsocket_io_condition_wait e sp cond s =
     (case sp of
        None \<Rightarrow> Some (False, sk_report e P_ERROR_IO_INVALID_ARGUMENT 0 M_Argument s)
      | Some sk \<Rightarrow>
          let (ok, s1) = pzsocket_check e sk s
          in if \<not> ok then Some (False, s1)
             else do {
               (a, s2) \<leftarrow> retry (\<lambda>a. a_ret a = - 1 \<and> sk_eintr e (zerror_get_last_net (a_errno a)))
                 (C_poll (sk_fd sk) (if cond = P_SOCKET_IO_CONDITION_POLLIN then POLLIN else POLLOUT)
                    (if sk_timeout sk > 0 then sk_timeout sk else - 1)) s1;
               if a_ret a = 1 then Some (True, s2)
               else if a_ret a = 0 then Some (False, sk_report e P_ERROR_IO_TIMED_OUT (zerror_get_last_net (errno s2)) M_Timed_Out s2)
               else Some (False, sk_report_net e M_Poll s2)
             })"

section \<open>Connections\<close>

definition zsocket_bind :: "sk_env \<Rightarrow> PSocket option \<Rightarrow> PSocketAddress option \<Rightarrow> bool \<Rightarrow> sk_sys \<Rightarrow> (bool \<times> sk_sys) option" where
  "zsocket_bind e sp ap allow_reuse s =
     (case (sp, ap) of
        (Some sk, Some a) \<Rightarrow>
          let (ok, s1) = pzsocket_check e sk s
          in if \<not> ok then Some (False, s1)
             else do {
               (x, s2) \<leftarrow> sys_call (C_setsockopt (sk_fd sk) SO_REUSEADDR (if allow_reuse then 1 else 0)) s1;
               (y, s3) \<leftarrow> sys_call (C_setsockopt (sk_fd sk) SO_REUSEPORT
                 (if allow_reuse \<and> sk_type sk = P_SOCKET_TYPE_DATAGRAM then 1 else 0)) s2;
               case zsocket_address_to_native (sk_cfg e) ap (Some (replicate 128 0)) 128 of
                 (Some m, True) \<Rightarrow> do {
                   (b, s4) \<leftarrow> sys_call (C_bind (sk_fd sk) m (unat (zsocket_address_get_native_size ap))) s3;
                   if a_ret b < 0 then Some (False, sk_report_net e M_Bind s4) else Some (True, s4)
                 }
               | _ \<Rightarrow> Some (False, sk_report e P_ERROR_IO_FAILED 0 M_Convert s3)
             }
      | _ \<Rightarrow> Some (False, sk_report e P_ERROR_IO_INVALID_ARGUMENT 0 M_Argument s))"

text \<open>After a connect call that did not succeed at once.\<close>

definition connect_pending :: "sk_env \<Rightarrow> PSocket \<Rightarrow> int \<Rightarrow> sk_sys \<Rightarrow> (bool \<times> PSocket option \<times> sk_sys) option" where
  "connect_pending e sk ec s =
     (let sock_err = io_code e ec
      in if sock_err = P_ERROR_IO_WOULD_BLOCK \<or> sock_err = P_ERROR_IO_IN_PROGRESS then
           (if sk_blocking sk then do {
              (ok, s1) \<leftarrow> zsocket_io_condition_wait e (Some sk) P_SOCKET_IO_CONDITION_POLLOUT s;
              if \<not> ok then Some (False, Some sk, s1)
              else do {
                (r, sp, s2) \<leftarrow> zsocket_check_connect_result e (Some sk) s1;
                if r then Some (True, map_option (\<lambda>k. k\<lparr>sk_connected := True\<rparr>) sp, s2) else Some (False, sp, s2)
              }
            }
            else Some (False, Some sk, sk_report e sock_err ec M_Couldnt_Block s))
         else Some (False, Some sk, sk_report e sock_err ec M_Connect s))"

definition zsocket_connect :: "sk_env \<Rightarrow> PSocket option \<Rightarrow> PSocketAddress option \<Rightarrow> sk_sys \<Rightarrow> (bool \<times> PSocket option \<times> sk_sys) option" where
  "zsocket_connect e sp ap s =
     (case (sp, ap) of
        (Some sk, Some a) \<Rightarrow>
          let (ok, s1) = pzsocket_check e sk s
          in if \<not> ok then Some (False, sp, s1)
             else (case zsocket_address_to_native (sk_cfg e) ap (Some (replicate 128 0)) 128 of
                 (Some m, True) \<Rightarrow> do {
                   (c, s2) \<leftarrow> retry (\<lambda>c. a_ret c \<noteq> 0 \<and> sk_eintr e (zerror_get_last_net (a_errno c)))
                     (C_connect (sk_fd sk) m (unat (zsocket_address_get_native_size ap))) s1;
                   if a_ret c = 0 then Some (True, Some (sk\<lparr>sk_connected := True\<rparr>), s2)
                   else connect_pending e sk (zerror_get_last_net (errno s2)) s2
                 }
               | _ \<Rightarrow> Some (False, sp, sk_report e P_ERROR_IO_FAILED 0 M_Convert s1))
      | _ \<Rightarrow> Some (False, sp, sk_report e P_ERROR_IO_INVALID_ARGUMENT 0 M_Argument s))"

definition zsocket_listen :: "sk_env \<Rightarrow> PSocket option \<Rightarrow> sk_sys \<Rightarrow> (bool \<times> PSocket option \<times> sk_sys) option" where
  "zsocket_listen e sp s =
     (case sp of
        None \<Rightarrow> Some (False, None, sk_report e P_ERROR_IO_INVALID_ARGUMENT 0 M_Argument s)
      | Some sk \<Rightarrow>
          let (ok, s1) = pzsocket_check e sk s
          in if \<not> ok then Some (False, sp, s1)
             else do {
               (a, s2) \<leftarrow> sys_call (C_listen (sk_fd sk) (sk_listen_backlog sk)) s1;
               if a_ret a < 0 then Some (False, sp, sk_report_net e M_Listen s2)
               else Some (True, Some (sk\<lparr>sk_listening := True\<rparr>), s2)
             })"

definition zsocket_shutdown :: "sk_env \<Rightarrow> PSocket option \<Rightarrow> bool \<Rightarrow> bool \<Rightarrow> sk_sys \<Rightarrow> (bool \<times> PSocket option \<times> sk_sys) option" where
  "zsocket_shutdown e sp rd wr s =
     (case sp of
        None \<Rightarrow> Some (False, None, sk_report e P_ERROR_IO_INVALID_ARGUMENT 0 M_Argument s)
      | Some sk \<Rightarrow>
          let (ok, s1) = pzsocket_check e sk s
          in if \<not> ok then Some (False, sp, s1)
             else if \<not> rd \<and> \<not> wr then Some (True, sp, s1)
             else do {
               (a, s2) \<leftarrow> sys_call (C_shutdown (sk_fd sk) (if rd \<and> wr then SHUT_RDWR else if rd then SHUT_RD else SHUT_WR)) s1;
               if a_ret a \<noteq> 0 then Some (False, sp, sk_report_net e M_Shutdown s2)
               else Some (True, Some (if rd \<and> wr then sk\<lparr>sk_connected := False\<rparr> else sk), s2)
             })"

section \<open>Data\<close>

text \<open>What a wait on an open socket does; the loop below ends because the answers run out.\<close>

lemma consumes_sk_report [simp]: "consumes s l (sk_report e c n m t) = consumes s l t"
  by (simp add: sk_report_def)

lemma consumes_sk_report_net [simp]: "consumes s l (sk_report_net e m t) = consumes s l t"
  by (simp add: sk_report_net_def)

definition poll_call :: "PSocket \<Rightarrow> PSocketIOCondition \<Rightarrow> sock_call" where
  "poll_call sk cond =
     C_poll (sk_fd sk) (if cond = P_SOCKET_IO_CONDITION_POLLIN then POLLIN else POLLOUT)
       (if sk_timeout sk > 0 then sk_timeout sk else - 1)"

definition interrupted :: "sk_env \<Rightarrow> answer \<Rightarrow> bool" where
  "interrupted e a \<longleftrightarrow> a_ret a = - 1 \<and> sk_eintr e (zerror_get_last_net (a_errno a))"

definition wait_end :: "sk_env \<Rightarrow> answer \<Rightarrow> sk_sys \<Rightarrow> sk_sys" where
  "wait_end e a t =
     (if a_ret a = 1 then t
      else if a_ret a = 0 then sk_report e P_ERROR_IO_TIMED_OUT (zerror_get_last_net (errno t)) M_Timed_Out t
      else sk_report_net e M_Poll t)"

lemma wait_open:
  assumes "\<not> sk_closed sk"
  shows "zsocket_io_condition_wait e (Some sk) cond s =
    map_option (\<lambda>(a, t). (a_ret a = 1, wait_end e a t)) (retry (interrupted e) (poll_call sk cond) s)"
  using assms
  by (cases "retry (interrupted e) (poll_call sk cond) s")
    (auto simp: zsocket_io_condition_wait_def pzsocket_check_def interrupted_def[abs_def] poll_call_def wait_end_def)

lemma consumes_wait_end [simp]: "consumes s l (wait_end e a t) = consumes s l t"
  by (simp add: wait_end_def)

lemma wait_consumes:
  assumes "zsocket_io_condition_wait e (Some sk) cond s = Some (r, t)"
  shows "\<exists>l. consumes s l t"
proof (cases "sk_closed sk")
  case True
  then have "consumes s [] t" using assms by (auto simp: zsocket_io_condition_wait_def pzsocket_check_def)
  then show ?thesis ..
next
  case False
  then obtain a u where "retry (interrupted e) (poll_call sk cond) s = Some (a, u)" "t = wait_end e a u"
    using assms by (auto simp: wait_open)
  then show ?thesis using retryD[of "interrupted e"] by fastforce
qed

text \<open>
  The loop of the functions that accept, receive and send: wait if the socket blocks, make the call
  \<open>c\<close>, and start again when it was interrupted or, on a socket that blocks, would have
  blocked. The result is the answer to the call, or \<open>None\<close> after a failure.
\<close>

function io_loop :: "sk_env \<Rightarrow> PSocket \<Rightarrow> PSocketIOCondition \<Rightarrow> sock_call \<Rightarrow> sk_msg \<Rightarrow> sk_sys \<Rightarrow> (answer option \<times> sk_sys) option" where
  "io_loop e sk cond c m s = do {
     (ok, s1) \<leftarrow> (if sk_blocking sk then zsocket_io_condition_wait e (Some sk) cond s else Some (True, s));
     if \<not> ok then Some (None, s1)
     else do {
       (a, s2) \<leftarrow> sys_call c s1;
       if a_ret a < 0 then
         (let ec = zerror_get_last_net (errno s2); sock_err = io_code e ec
          in if sk_eintr e ec then io_loop e sk cond c m s2
             else if sk_blocking sk \<and> sock_err = P_ERROR_IO_WOULD_BLOCK then io_loop e sk cond c m s2
             else Some (None, sk_report e sock_err ec m s2))
       else Some (Some a, s2)
     }
   }"
  by pat_completeness auto

termination
proof (relation "measure (\<lambda>(e, sk, cond, c, m, s). length (todo s))", goal_cases)
  case (2 e sk cond c m s x ok s1 y a s2)
  then have "length (todo s1) \<le> length (todo s)"
    by (auto split: if_splits dest!: wait_consumes intro: consumes_length)
  moreover have "length (todo s2) < length (todo s1)" using 2 by (auto dest: sys_call_less)
  ultimately show ?case by simp
next
  case (3 e sk cond c m s x ok s1 y a s2)
  then have "length (todo s1) \<le> length (todo s)"
    by (auto split: if_splits dest!: wait_consumes intro: consumes_length)
  moreover have "length (todo s2) < length (todo s1)" using 3 by (auto dest: sys_call_less)
  ultimately show ?case by simp
qed simp

declare io_loop.simps [simp del]

definition zsocket_accept :: "sk_env \<Rightarrow> PSocket option \<Rightarrow> sk_sys \<Rightarrow> (PSocket option \<times> sk_sys) option" where
  "zsocket_accept e sp s =
     (case sp of
        None \<Rightarrow> Some (None, sk_report e P_ERROR_IO_INVALID_ARGUMENT 0 M_Argument s)
      | Some sk \<Rightarrow>
          let (ok, s1) = pzsocket_check e sk s
          in if \<not> ok then Some (None, s1)
             else do {
               (x, s2) \<leftarrow> io_loop e sk P_SOCKET_IO_CONDITION_POLLIN (C_accept (sk_fd sk)) M_Accept s1;
               case x of
                 None \<Rightarrow> Some (None, s2)
               | Some a \<Rightarrow> do {
                   s3 \<leftarrow> set_cloexec (a_ret a) s2;
                   (r, s4) \<leftarrow> zsocket_new_from_fd e (a_ret a) s3;
                   case r of
                     None \<Rightarrow> do { (q, s5) \<leftarrow> zsys_close (a_ret a) s4; Some (None, s5) }
                   | Some k \<Rightarrow> Some (Some (k\<lparr>sk_protocol := sk_protocol sk\<rparr>), s4)
                 }
             })"

text \<open>The lengths are cast to \<^verbatim>\<open>socklen_t\<close>, which has 32 bits. The result has the buffer after the call.\<close>

definition cast_len :: "psize \<Rightarrow> nat" where
  "cast_len n = unat (ucast n :: puint32)"

definition zsocket_receive ::
    "sk_env \<Rightarrow> PSocket option \<Rightarrow> puchar list option \<Rightarrow> psize \<Rightarrow> sk_sys \<Rightarrow> (int \<times> puchar list option \<times> sk_sys) option" where
  "zsocket_receive e sp bp buflen s =
     (case (sp, bp) of
        (Some sk, Some bf) \<Rightarrow>
          let (ok, s1) = pzsocket_check e sk s
          in if \<not> ok then Some (- 1, bp, s1)
             else do {
               (x, s2) \<leftarrow> io_loop e sk P_SOCKET_IO_CONDITION_POLLIN (C_recv (sk_fd sk) (cast_len buflen)) M_Recv s1;
               case x of
                 None \<Rightarrow> Some (- 1, bp, s2)
               | Some a \<Rightarrow> Some (a_ret a, Some (memcpy bf 0 (take (nat (a_ret a)) (a_data a))), s2)
             }
      | _ \<Rightarrow> Some (- 1, bp, sk_report e P_ERROR_IO_INVALID_ARGUMENT 0 M_Argument s))"

text \<open>For datagrams the answer has the native address in front of the data: \<open>a_len\<close> is its length.\<close>

definition zsocket_receive_from ::
    "sk_env \<Rightarrow> PSocket option \<Rightarrow> bool \<Rightarrow> puchar list option \<Rightarrow> psize \<Rightarrow> sk_sys \<Rightarrow>
     (int \<times> PSocketAddress option \<times> puchar list option \<times> sk_sys) option" where
  "zsocket_receive_from e sp address bp buflen s =
     (case (sp, bp) of
        (Some sk, Some bf) \<Rightarrow>
          if buflen = 0 then Some (- 1, None, bp, sk_report e P_ERROR_IO_INVALID_ARGUMENT 0 M_Argument s)
          else
            let (ok, s1) = pzsocket_check e sk s
            in if \<not> ok then Some (- 1, None, bp, s1)
               else do {
                 (x, s2) \<leftarrow> io_loop e sk P_SOCKET_IO_CONDITION_POLLIN (C_recvfrom (sk_fd sk) (cast_len buflen)) M_Recvfrom s1;
                 case x of
                   None \<Rightarrow> Some (- 1, None, bp, s2)
                 | Some a \<Rightarrow> do {
                     let bf' = memcpy bf 0 (take (nat (a_ret a)) (drop 128 (a_data a)));
                     ad \<leftarrow> (if address
                       then zsocket_address_new_from_native (sk_cfg e) (addr_mem e) (Some (sa_buffer a)) (of_nat (a_len a))
                       else Some None);
                     Some (a_ret a, ad, Some bf', s2)
                   }
               }
      | _ \<Rightarrow> Some (- 1, None, bp, sk_report e P_ERROR_IO_INVALID_ARGUMENT 0 M_Argument s))"

definition zsocket_send ::
    "sk_env \<Rightarrow> PSocket option \<Rightarrow> puchar list option \<Rightarrow> psize \<Rightarrow> sk_sys \<Rightarrow> (int \<times> sk_sys) option" where
  "zsocket_send e sp bp buflen s =
     (case (sp, bp) of
        (Some sk, Some bf) \<Rightarrow>
          if buflen = 0 then Some (- 1, sk_report e P_ERROR_IO_INVALID_ARGUMENT 0 M_Argument s)
          else
            let (ok, s1) = pzsocket_check e sk s
            in if \<not> ok then Some (- 1, s1)
               else do {
                 (x, s2) \<leftarrow> io_loop e sk P_SOCKET_IO_CONDITION_POLLOUT
                   (C_send (sk_fd sk) (take (cast_len buflen) bf) P_SOCKET_DEFAULT_SEND_FLAGS) M_Send s1;
                 Some (case x of None \<Rightarrow> - 1 | Some a \<Rightarrow> a_ret a, s2)
               }
      | _ \<Rightarrow> Some (- 1, sk_report e P_ERROR_IO_INVALID_ARGUMENT 0 M_Argument s))"

definition zsocket_send_to ::
    "sk_env \<Rightarrow> PSocket option \<Rightarrow> PSocketAddress option \<Rightarrow> puchar list option \<Rightarrow> psize \<Rightarrow> sk_sys \<Rightarrow> (int \<times> sk_sys) option" where
  "zsocket_send_to e sp ap bp buflen s =
     (case (sp, ap, bp) of
        (Some sk, Some a, Some bf) \<Rightarrow>
          let (ok, s1) = pzsocket_check e sk s
          in if \<not> ok then Some (- 1, s1)
             else (case zsocket_address_to_native (sk_cfg e) ap (Some (replicate 128 0)) 128 of
                 (Some m, True) \<Rightarrow> do {
                   (x, s2) \<leftarrow> io_loop e sk P_SOCKET_IO_CONDITION_POLLOUT
                     (C_sendto (sk_fd sk) (take (cast_len buflen) bf) 0 m (unat (zsocket_address_get_native_size ap))) M_Sendto s1;
                   Some (case x of None \<Rightarrow> - 1 | Some r \<Rightarrow> a_ret r, s2)
                 }
               | _ \<Rightarrow> Some (- 1, sk_report e P_ERROR_IO_FAILED 0 M_Convert s1))
      | _ \<Rightarrow> Some (- 1, sk_report e P_ERROR_IO_INVALID_ARGUMENT 0 M_Argument s))"

end
