(* ===== verification/PSocket_Props.thy ===== *)
theory PSocket_Props
  imports PSocket
begin

text \<open>
  Properties of the operations of \<open>PSocket\<close>: what is exchanged with the system while data are
  transferred, the flags of the object, error reports, and the ownership of descriptors in programs
  with any number of sockets.
\<close>

section \<open>Transfers\<close>

text \<open>An exchange after which the loop goes on, and the call that follows it.\<close>

definition goes_on :: "sk_env \<Rightarrow> PSocket \<Rightarrow> sock_call \<Rightarrow> sock_call \<Rightarrow> sock_call \<times> answer \<Rightarrow> bool" where
  "goes_on e sk p c x \<longleftrightarrow>
     fst x = p \<and> (a_ret (snd x) = 1 \<or> a_ret (snd x) = - 1 \<and> sk_eintr e (a_errno (snd x))) \<or>
     fst x = c \<and> a_ret (snd x) < 0 \<and>
       (sk_eintr e (a_errno (snd x)) \<or> sk_blocking sk \<and> io_code e (a_errno (snd x)) = P_ERROR_IO_WOULD_BLOCK)"

definition next_call :: "PSocket \<Rightarrow> sock_call \<Rightarrow> sock_call \<Rightarrow> sock_call \<times> answer \<Rightarrow> sock_call" where
  "next_call sk p c x = (if sk_blocking sk \<and> \<not> (fst x = p \<and> a_ret (snd x) = 1) then p else c)"

fun follows :: "('c \<times> answer \<Rightarrow> 'c) \<Rightarrow> 'c \<Rightarrow> ('c \<times> answer) list \<Rightarrow> bool" where
  "follows nxt c [] \<longleftrightarrow> True"
| "follows nxt c (x # xs) \<longleftrightarrow> fst x = c \<and> follows nxt (nxt x) xs"

definition first_call :: "PSocket \<Rightarrow> sock_call \<Rightarrow> sock_call \<Rightarrow> sock_call" where
  "first_call sk p c = (if sk_blocking sk then p else c)"

text \<open>What the caller's error pointer becomes when an exchange ends the loop with a failure.\<close>

definition set_err :: "sk_env \<Rightarrow> int \<Rightarrow> int \<Rightarrow> sk_msg \<Rightarrow> PError option option \<Rightarrow> PError option option" where
  "set_err e c n m ep = zerror_set_error_p (err_mem e) (msg_mem e) ep (word_of_int c) (word_of_int n) (Some (msg_text m))"

definition loop_err :: "sk_env \<Rightarrow> sock_call \<Rightarrow> sk_msg \<Rightarrow> sock_call \<times> answer \<Rightarrow> PError option option \<Rightarrow> PError option option" where
  "loop_err e p m x ep =
     (if fst x \<noteq> p then set_err e (io_code e (a_errno (snd x))) (a_errno (snd x)) m ep
      else if a_ret (snd x) = 0 then set_err e P_ERROR_IO_TIMED_OUT (a_errno (snd x)) M_Timed_Out ep
      else set_err e (io_code e (a_errno (snd x))) (a_errno (snd x)) M_Poll ep)"

lemma err_sk_report [simp]: "err (sk_report e c n m s) = set_err e c n m (err s)"
  by (simp add: sk_report_def report_def set_err_def sys_env.defs)

lemma errno_sk_report [simp]: "errno (sk_report e c n m s) = errno s"
  by (simp add: sk_report_def report_def)

lemma err_sk_report_net [simp]: "err (sk_report_net e m s) = set_err e (io_code e (errno s)) (errno s) m (err s)"
  by (simp add: sk_report_net_def zerror_get_last_net_def zerror_get_last_system_def)

lemma last_net_id [simp]: "zerror_get_last_net n = n"
  by (simp add: zerror_get_last_net_def zerror_get_last_system_def)

lemma follows_repeat: "(\<And>b. b \<in> set as \<Longrightarrow> nxt (p, b) = p) \<Longrightarrow> follows nxt p (map (Pair p) as @ ys) = follows nxt p ys"
  by (induction as) auto

text \<open>The exchanges that lead on from state \<open>s\<close>, beginning with the call that is due.\<close>

definition leads_on :: "sk_env \<Rightarrow> PSocket \<Rightarrow> sock_call \<Rightarrow> sock_call \<Rightarrow> (sock_call \<times> answer) list \<Rightarrow> bool" where
  "leads_on e sk p c l \<longleftrightarrow> (\<forall>x \<in> set l. goes_on e sk p c x) \<and> follows (next_call sk p c) (first_call sk p c) l"

lemma follows_append:
  "follows nxt c (xs @ ys) \<longleftrightarrow> follows nxt c xs \<and> follows nxt (if xs = [] then c else nxt (last xs)) ys"
  by (induction xs arbitrary: c) auto

lemma next_first:
  assumes "goes_on e sk p c x" "fst x = c" "c \<noteq> p"
  shows "next_call sk p c x = first_call sk p c"
  using assms by (auto simp: next_call_def first_call_def)

lemma poll_leads:
  assumes "sk_blocking sk" "\<forall>b \<in> set as. interrupted e b"
  shows "leads_on e sk p c (map (Pair p) as)"
    "follows (next_call sk p c) (first_call sk p c) (map (Pair p) as @ (p, a) # ys) =
       follows (next_call sk p c) (next_call sk p c (p, a)) ys"
proof -
  have n: "next_call sk p c (p, b) = p" if "b \<in> set as" for b
    using assms that by (auto simp: next_call_def interrupted_def)
  show "leads_on e sk p c (map (Pair p) as)"
    using assms follows_repeat[where as = as and nxt = "next_call sk p c" and p = p and ys = "[]"] n
    by (auto simp: leads_on_def goes_on_def interrupted_def first_call_def)
  show "follows (next_call sk p c) (first_call sk p c) (map (Pair p) as @ (p, a) # ys) =
       follows (next_call sk p c) (next_call sk p c (p, a)) ys"
    using assms(1) follows_repeat[where as = as and nxt = "next_call sk p c" and p = p, OF n] by (simp add: first_call_def)
qed

text \<open>
  One round: the wait, and if it ends well the call. Either it ends the loop with exchange \<open>x\<close> after the
  exchanges \<open>l\<close>, or all of them lead on.
\<close>

lemma wait_round:
  assumes "\<not> sk_closed sk" "c \<noteq> poll_call sk cond"
    and "(if sk_blocking sk then zsocket_io_condition_wait e (Some sk) cond s else Some (True, s)) = Some (ok, t)"
  shows "\<exists>l. consumes s l t \<and> (ok \<longrightarrow> err t = err s \<and> leads_on e sk (poll_call sk cond) c l \<and>
      (\<forall>ys. follows (next_call sk (poll_call sk cond) c) (first_call sk (poll_call sk cond) c) (l @ ys) =
        follows (next_call sk (poll_call sk cond) c) c ys)) \<and>
    (\<not> ok \<longrightarrow> (\<exists>k x. l = k @ [x] \<and> leads_on e sk (poll_call sk cond) c k \<and> \<not> goes_on e sk (poll_call sk cond) c x \<and>
      follows (next_call sk (poll_call sk cond) c) (first_call sk (poll_call sk cond) c) l \<and>
      fst x = poll_call sk cond \<and> err t = loop_err e (poll_call sk cond) m x (err s)))"
proof (cases "sk_blocking sk")
  case False
  then show ?thesis using assms(3) by (intro exI[of _ "[]"]) (auto simp: leads_on_def first_call_def)
next
  case True
  let ?p = "poll_call sk cond"
  obtain a u where r: "retry (interrupted e) ?p s = Some (a, u)" and ok: "ok \<longleftrightarrow> a_ret a = 1" and t: "t = wait_end e a u"
    using assms(1,3) True by (auto simp: wait_open)
  obtain as where as: "consumes s (map (Pair ?p) as @ [(?p, a)]) u" "\<forall>b \<in> set as. interrupted e b"
      "\<not> interrupted e a" "err u = err s"
    using retryD[OF r] by blast
  let ?l = "map (Pair ?p) as @ [(?p, a)]"
  have eno: "errno u = a_errno a" using as(1) by (simp add: consumes_def)
  have k: "leads_on e sk ?p c (map (Pair ?p) as)" by (rule poll_leads(1)[OF True as(2)])
  have f: "follows (next_call sk ?p c) (first_call sk ?p c) (?l @ ys) = follows (next_call sk ?p c) (next_call sk ?p c (?p, a)) ys" for ys
    using poll_leads(2)[OF True as(2)] by simp
  show ?thesis
  proof (cases ok)
    case ok': True
    then have n: "next_call sk ?p c (?p, a) = c" "goes_on e sk ?p c (?p, a)" using ok by (simp_all add: next_call_def goes_on_def)
    have "leads_on e sk ?p c ?l" using k n f[of "[]"] by (auto simp: leads_on_def)
    then show ?thesis using ok' f n as ok t by (intro exI[of _ ?l]) (auto simp: wait_end_def)
  next
    case False
    then have "\<not> goes_on e sk ?p c (?p, a)" using as(3) ok assms(2) by (auto simp: goes_on_def interrupted_def)
    moreover have "err t = loop_err e ?p m (?p, a) (err s)"
      using False ok as(4) eno by (simp add: t wait_end_def loop_err_def Let_def)
    ultimately show ?thesis using False k f[of "[]"] as(1) t by (intro exI[of _ ?l]) auto
  qed
qed

text \<open>The loop as a whole.\<close>

lemma leads_on_append:
  "leads_on e sk p c (xs @ ys) \<longleftrightarrow> leads_on e sk p c xs \<and> (\<forall>y \<in> set ys. goes_on e sk p c y) \<and>
     follows (next_call sk p c) (if xs = [] then first_call sk p c else next_call sk p c (last xs)) ys"
  by (auto simp: leads_on_def follows_append)

definition loop_ends :: "sk_env \<Rightarrow> PSocket \<Rightarrow> sock_call \<Rightarrow> sock_call \<Rightarrow> (sock_call \<times> answer) list \<Rightarrow> sock_call \<times> answer \<Rightarrow> bool" where
  "loop_ends e sk p c l x \<longleftrightarrow> leads_on e sk p c l \<and> \<not> goes_on e sk p c x \<and>
     fst x = (if l = [] then first_call sk p c else next_call sk p c (last l))"

lemma loop_endsI:
  assumes "leads_on e sk p c l" "\<not> goes_on e sk p c x" "follows (next_call sk p c) (first_call sk p c) (l @ [x])"
  shows "loop_ends e sk p c l x"
  using assms by (auto simp: loop_ends_def follows_append split: if_splits)

lemma loop_ends_prepend:
  assumes "leads_on e sk p c (k @ [y])" "fst y = c" "c \<noteq> p" "loop_ends e sk p c l x"
  shows "loop_ends e sk p c (k @ [y] @ l) x"
proof -
  have "goes_on e sk p c y" using assms(1) by (simp add: leads_on_append)
  then have n: "next_call sk p c y = first_call sk p c" using assms(2,3) by (rule next_first)
  then have "leads_on e sk p c ((k @ [y]) @ l)"
    using assms(1,4) unfolding leads_on_append[of _ _ _ _ "k @ [y]"] by (simp add: loop_ends_def leads_on_def)
  then show ?thesis using assms(4) n by (auto simp: loop_ends_def)
qed

definition loop_result :: "sk_env \<Rightarrow> sock_call \<Rightarrow> sock_call \<Rightarrow> sk_msg \<Rightarrow> sk_sys \<Rightarrow> sock_call \<times> answer \<Rightarrow> answer option \<times> sk_sys \<Rightarrow> bool" where
  "loop_result e p c m s x rt \<longleftrightarrow>
     fst rt = (if fst x = c \<and> a_ret (snd x) \<ge> 0 then Some (snd x) else None) \<and>
     err (snd rt) = (if fst rt = None then loop_err e p m x (err s) else err s)"

text \<open>One round of the loop: it ends, or goes on from a state with fewer answers.\<close>

lemma io_loop_round:
  assumes "io_loop e sk cond c m s = Some rt" "\<not> sk_closed sk" "c \<noteq> poll_call sk cond"
  shows "(\<exists>l x. consumes s (l @ [x]) (snd rt) \<and> loop_ends e sk (poll_call sk cond) c l x \<and> loop_result e (poll_call sk cond) c m s x rt) \<or>
    (\<exists>l a s2. consumes s (l @ [(c, a)]) s2 \<and> leads_on e sk (poll_call sk cond) c (l @ [(c, a)]) \<and> err s2 = err s \<and>
       io_loop e sk cond c m s2 = Some rt)"
proof -
  let ?p = "poll_call sk cond"
  obtain ok s1 where w: "(if sk_blocking sk then zsocket_io_condition_wait e (Some sk) cond s else Some (True, s)) = Some (ok, s1)"
    using assms(1) by (subst (asm) io_loop.simps) (auto split: Option.bind_splits)
  note round = wait_round[OF assms(2,3) w]
  show ?thesis
  proof (cases ok)
    case False
    then have rt: "rt = (None, s1)" using assms(1) w by (subst (asm) io_loop.simps) simp
    obtain k x where kx: "consumes s (k @ [x]) s1" "leads_on e sk ?p c k" "\<not> goes_on e sk ?p c x"
        "follows (next_call sk ?p c) (first_call sk ?p c) (k @ [x])" "fst x = ?p" "err s1 = loop_err e ?p m x (err s)"
      using round[of m] False by blast
    have "loop_ends e sk ?p c k x" using kx(2-4) by (rule loop_endsI)
    moreover have "loop_result e ?p c m s x rt" using kx(5,6) rt assms(3) by (simp add: loop_result_def)
    ultimately show ?thesis using kx(1) rt by (metis snd_conv)
  next
    case True
    obtain l where l: "consumes s l s1" "err s1 = err s" "leads_on e sk ?p c l"
        "\<And>ys. follows (next_call sk ?p c) (first_call sk ?p c) (l @ ys) = follows (next_call sk ?p c) c ys"
      using round[of m] True by blast
    obtain a s2 where call: "sys_call c s1 = Some (a, s2)"
      using assms(1) w True by (subst (asm) io_loop.simps) (auto split: Option.bind_splits)
    have con: "consumes s (l @ [(c, a)]) s2" "err s2 = err s" "errno s2 = a_errno a"
      using consumes_trans[OF l(1) sys_callD(1)[OF call]] sys_callD(2,3)[OF call] l(2) by simp_all
    have fol: "follows (next_call sk ?p c) (first_call sk ?p c) (l @ [(c, a)])" using l(4) by simp
    have eq: "io_loop e sk cond c m s =
        (if goes_on e sk ?p c (c, a) then io_loop e sk cond c m s2
         else if a_ret a < 0 then Some (None, sk_report e (io_code e (a_errno a)) (a_errno a) m s2) else Some (Some a, s2))"
      using w True call con(3) assms(3) by (subst io_loop.simps) (auto simp: goes_on_def Let_def)
    show ?thesis
    proof (cases "goes_on e sk ?p c (c, a)")
      case go: True
      then have "leads_on e sk ?p c (l @ [(c, a)])" using l(3) fol by (auto simp: leads_on_def)
      moreover have "io_loop e sk cond c m s2 = Some rt" using eq go assms(1) by simp
      ultimately show ?thesis using con(1,2) by blast
    next
      case False
      then have "loop_ends e sk ?p c l (c, a)" using l(3) fol by (intro loop_endsI)
      moreover have "consumes s (l @ [(c, a)]) (snd rt)" "loop_result e ?p c m s (c, a) rt"
        using False eq assms(1,3) con by (auto simp: loop_result_def loop_err_def split: if_splits)
      ultimately show ?thesis by blast
    qed
  qed
qed

lemma io_loop_trace:
  assumes "\<not> sk_closed sk" "c \<noteq> poll_call sk cond"
  shows "io_loop e sk cond c m s = Some rt \<Longrightarrow>
    \<exists>l x. consumes s (l @ [x]) (snd rt) \<and> loop_ends e sk (poll_call sk cond) c l x \<and> loop_result e (poll_call sk cond) c m s x rt"
proof (induction "length (todo s)" arbitrary: s rule: less_induct)
  case less
  let ?p = "poll_call sk cond"
  consider (ends) l x where "consumes s (l @ [x]) (snd rt)" "loop_ends e sk ?p c l x" "loop_result e ?p c m s x rt"
    | (more) l a s2 where "consumes s (l @ [(c, a)]) s2" "leads_on e sk ?p c (l @ [(c, a)])" "err s2 = err s" "io_loop e sk cond c m s2 = Some rt"
    using io_loop_round[OF less.prems assms] by blast
  then show ?case
  proof cases
    case more
    then have "length (todo s2) < length (todo s)" by (simp add: consumes_def)
    then obtain l' x where x: "consumes s2 (l' @ [x]) (snd rt)" "loop_ends e sk ?p c l' x" "loop_result e ?p c m s2 x rt"
      using less.hyps more(4) by blast
    have "loop_ends e sk ?p c (l @ [(c, a)] @ l') x" using loop_ends_prepend[OF more(2) _ assms(2) x(2)] by simp
    moreover have "consumes s ((l @ [(c, a)] @ l') @ [x]) (snd rt)" using consumes_trans[OF more(1) x(1)] by simp
    moreover have "loop_result e ?p c m s x rt" using x(3) more(3) by (simp add: loop_result_def)
    ultimately show ?thesis by blast
  qed blast
qed

text \<open>The loop does not return only if every answer of the system leads on.\<close>

lemma io_loop_stuck:
  assumes "\<not> sk_closed sk" "c \<noteq> poll_call sk cond"
  shows "io_loop e sk cond c m s = None \<Longrightarrow> \<exists>l. map snd l = todo s \<and> leads_on e sk (poll_call sk cond) c l"
proof (induction "length (todo s)" arbitrary: s rule: less_induct)
  case less
  let ?p = "poll_call sk cond"
  let ?w = "if sk_blocking sk then zsocket_io_condition_wait e (Some sk) cond s else Some (True, s)"
  show ?case
  proof (cases ?w)
    case None
    then have "sk_blocking sk" "retry (interrupted e) ?p s = None" using assms(1) by (auto simp: wait_open split: if_splits)
    then have "leads_on e sk ?p c (map (Pair ?p) (todo s))" by (intro poll_leads(1)) (simp_all add: retry_None)
    then show ?thesis by (intro exI[of _ "map (Pair ?p) (todo s)"]) (simp add: comp_def)
  next
    case (Some y)
    obtain ok s1 where w: "?w = Some (ok, s1)" using Some by (cases y) auto
    have ok: ok using less.prems w by (subst (asm) io_loop.simps) (auto split: if_splits)
    obtain l where l: "consumes s l s1" "leads_on e sk ?p c l"
        "\<And>ys. follows (next_call sk ?p c) (first_call sk ?p c) (l @ ys) = follows (next_call sk ?p c) c ys"
      using wait_round[OF assms w, of m] ok by blast
    show ?thesis
    proof (cases "sys_call c s1")
      case None
      then show ?thesis using l by (intro exI[of _ l]) (simp add: consumes_def)
    next
      case (Some z)
      obtain a s2 where call: "sys_call c s1 = Some (a, s2)" using Some by (cases z) auto
      have con: "consumes s (l @ [(c, a)]) s2" by (rule consumes_trans[OF l(1) sys_callD(1)[OF call]])
      have go: "goes_on e sk ?p c (c, a)" "io_loop e sk cond c m s2 = None"
        using less.prems w ok call assms(2) sys_callD(3)[OF call]
        by (subst (asm) io_loop.simps, force simp: goes_on_def Let_def split: if_splits)+
      obtain k where k: "map snd k = todo s2" "leads_on e sk ?p c k" using less.hyps[of s2] go(2) con by (auto simp: consumes_def)
      have "leads_on e sk ?p c (l @ [(c, a)])" using l(2,3) go(1) by (auto simp: leads_on_def)
      then have "leads_on e sk ?p c ((l @ [(c, a)]) @ k)"
        using k(2) next_first[OF go(1)] assms(2) unfolding leads_on_append[of _ _ _ _ "l @ [(c, a)]"] by (auto simp: leads_on_def)
      then show ?thesis using k(1) con by (intro exI[of _ "(l @ [(c, a)]) @ k"]) (auto simp: consumes_def)
    qed
  qed
qed

text \<open>
  C16: receiving and sending. On an open socket the exchange with the system is: while the socket
  blocks, waits for readiness that are repeated when interrupted, each followed by the
  transfer; a transfer that was interrupted, or that would block on a blocking socket, is
  repeated. The first answer of another kind ends it: a transfer that succeeded gives its
  result and leaves the error pointer alone, and a failed wait or transfer gives -1 with the report
  of that failure. So exactly one transfer succeeds, or none. There is no result only if
  all answers of the system ask to go on. Lengths are taken modulo \<open>2 ^ 32\<close>.
\<close>

theorem socket_transfer:
  fixes bf :: "puchar list"
  assumes "\<not> sk_closed sk" "blen \<noteq> 0"
  defines "n \<equiv> unat blen mod 2 ^ 32"
  defines "rc \<equiv> C_recv (sk_fd sk) n" and "rp \<equiv> poll_call sk P_SOCKET_IO_CONDITION_POLLIN"
  defines "sc \<equiv> C_send (sk_fd sk) (take n bf) P_SOCKET_DEFAULT_SEND_FLAGS" and "sp \<equiv> poll_call sk P_SOCKET_IO_CONDITION_POLLOUT"
  shows "(case zsocket_receive e (Some sk) (Some bf) blen s of
      None \<Rightarrow> \<exists>l. map snd l = todo s \<and> leads_on e sk rp rc l
    | Some (r, bf', t) \<Rightarrow> \<exists>l k a. consumes s (l @ [(k, a)]) t \<and> loop_ends e sk rp rc l (k, a) \<and>
        (if k = rc \<and> 0 \<le> a_ret a
         then r = a_ret a \<and> bf' = Some (memcpy bf 0 (take (nat r) (a_data a))) \<and> err t = err s
         else r = - 1 \<and> bf' = Some bf \<and> err t = loop_err e rp M_Recv (k, a) (err s))) \<and>
    (case zsocket_send e (Some sk) (Some bf) blen s of
      None \<Rightarrow> \<exists>l. map snd l = todo s \<and> leads_on e sk sp sc l
    | Some (r, t) \<Rightarrow> \<exists>l k a. consumes s (l @ [(k, a)]) t \<and> loop_ends e sk sp sc l (k, a) \<and>
        (if k = sc \<and> 0 \<le> a_ret a then r = a_ret a \<and> err t = err s
         else r = - 1 \<and> err t = loop_err e sp M_Send (k, a) (err s)))" (is "?receive \<and> ?send")
proof -
  have n: "cast_len blen = n" by (simp add: cast_len_def n_def unsigned_ucast_eq take_bit_eq_mod)
  have ne: "rc \<noteq> rp" "sc \<noteq> sp" by (simp_all add: rc_def rp_def sc_def sp_def poll_call_def)
  note recv = io_loop_trace[OF assms(1) ne(1)[unfolded rp_def], folded rp_def] io_loop_stuck[OF assms(1) ne(1)[unfolded rp_def], folded rp_def]
  note send = io_loop_trace[OF assms(1) ne(2)[unfolded sp_def], folded sp_def] io_loop_stuck[OF assms(1) ne(2)[unfolded sp_def], folded sp_def]
  have ?receive
  proof (cases "io_loop e sk P_SOCKET_IO_CONDITION_POLLIN rc M_Recv s")
    case None
    then show ?thesis using assms(1) n recv(2)[OF None] by (simp add: zsocket_receive_def pzsocket_check_def rc_def)
  next
    case (Some rt)
    then show ?thesis using recv(1)[OF Some] assms(1) n
      by (cases rt) (fastforce simp: zsocket_receive_def pzsocket_check_def loop_result_def rc_def split: if_splits)
  qed
  moreover have ?send
  proof (cases "io_loop e sk P_SOCKET_IO_CONDITION_POLLOUT sc M_Send s")
    case None
    then show ?thesis using assms(1,2) n send(2)[OF None] by (simp add: zsocket_send_def pzsocket_check_def sc_def)
  next
    case (Some rt)
    then show ?thesis using send(1)[OF Some] assms(1,2) n
      by (cases rt) (fastforce simp: zsocket_send_def pzsocket_check_def loop_result_def sc_def split: if_splits)
  qed
  ultimately show ?thesis ..
qed

text \<open>A blocking socket: the wait is interrupted, is then ready, and four bytes arrive.\<close>

definition env_sample :: sk_env where
  "env_sample = \<lparr>names = map_of [(''EINTR'', 4), (''EAGAIN'', 11), (''EBADF'', 9)], err_mem = True, msg_mem = True, obj_mem = True,
     addr_mem = True, sk_cfg = \<lparr>big_endian = False, has_flowinfo = True, has_scopeid = True, has_getaddrinfo = True\<rparr>\<rparr>"

definition ans :: "int \<Rightarrow> int \<Rightarrow> puchar list \<Rightarrow> answer" where
  "ans r n d = \<lparr>a_ret = r, a_errno = n, a_val = 0, a_len = 4, a_data = d\<rparr>"

definition sys_sample :: "answer list \<Rightarrow> sk_sys" where
  "sys_sample as = \<lparr>todo = as, log = [], errno = 0, err = Some None\<rparr>"

definition socket_sample :: PSocket where
  "socket_sample = socket_zero\<lparr>sk_fd := 5, sk_blocking := True, sk_type := P_SOCKET_TYPE_STREAM\<rparr>"

theorem socket_transfer_witness:
  "\<exists>t l k a. zsocket_receive env_sample (Some socket_sample) (Some [0, 0, 0, 0]) 4 (sys_sample [ans (- 1) 4 [], ans 1 4 [], ans 4 4 [1, 2, 3, 4]]) =
     Some (4, Some [1, 2, 3, 4], t) \<and> consumes (sys_sample [ans (- 1) 4 [], ans 1 4 [], ans 4 4 [1, 2, 3, 4]]) (l @ [(k, a)]) t \<and> length l = 2"
proof -
  let ?s = "sys_sample [ans (- 1) 4 [], ans 1 4 [], ans 4 4 [1, 2, 3, 4]]"
  let ?t = "\<lparr>todo = [], log = [(C_poll 5 1 (- 1), ans (- 1) 4 []), (C_poll 5 1 (- 1), ans 1 4 []), (C_recv 5 4, ans 4 4 [1, 2, 3, 4])],
      errno = 4, err = Some None\<rparr>"
  have ev: "zsocket_receive env_sample (Some socket_sample) (Some [0, 0, 0, 0]) 4 ?s = Some (4, Some [1, 2, 3, 4], ?t)"
    by code_simp
  have h: "\<not> sk_closed socket_sample" "(4 :: psize) \<noteq> 0" by (simp_all add: socket_sample_def socket_zero_def)
  obtain l k a where l: "consumes ?s (l @ [(k, a)]) ?t"
    using socket_transfer[OF h, where e = env_sample and bf = "[0, 0, 0, 0]" and s = ?s, THEN conjunct1] unfolding ev by auto
  then have "length l = 2" unfolding consumes_def by (auto simp: sys_sample_def)
  with ev l show ?thesis by blast
qed

end
