(* ===== verification/PSocket_Ops.thy ===== *)
theory PSocket_Ops
  imports PSocket_Props
begin

text \<open>
  All operations on a socket as one type, and what they have in common: how failures are reported,
  which flags the object can have, and that a closed socket is left alone.
\<close>

section \<open>Operations\<close>

datatype sk_op = Op_Bind "PSocketAddress option" bool | Op_Connect "PSocketAddress option" | Op_Listen | Op_Accept
  | Op_Receive "puchar list option" psize | Op_Receive_From bool "puchar list option" psize
  | Op_Send "puchar list option" psize | Op_Send_To "PSocketAddress option" "puchar list option" psize
  | Op_Close | Op_Shutdown bool bool | Op_Wait PSocketIOCondition | Op_Check_Connect | Op_Buffer_Size PSocketDirection psize
  | Op_Local | Op_Remote | Op_Keepalive bool | Op_Blocking bool | Op_Timeout int | Op_Backlog int

text \<open>The result: whether the operation succeeded, the socket, the socket accepted, and the state.\<close>

type_synonym op_result = "(bool \<times> PSocket option \<times> PSocket option \<times> sk_sys) option"

fun sk_apply :: "sk_env \<Rightarrow> sk_op \<Rightarrow> PSocket option \<Rightarrow> sk_sys \<Rightarrow> op_result" where
  "sk_apply e (Op_Bind ap ru) sp s = map_option (\<lambda>(r, t). (r, sp, None, t)) (zsocket_bind e sp ap ru s)"
| "sk_apply e (Op_Connect ap) sp s = map_option (\<lambda>(r, sp', t). (r, sp', None, t)) (zsocket_connect e sp ap s)"
| "sk_apply e Op_Listen sp s = map_option (\<lambda>(r, sp', t). (r, sp', None, t)) (zsocket_listen e sp s)"
| "sk_apply e Op_Accept sp s = map_option (\<lambda>(k, t). (k \<noteq> None, sp, k, t)) (zsocket_accept e sp s)"
| "sk_apply e (Op_Receive bp n) sp s = map_option (\<lambda>(r, bf, t). (r \<ge> 0, sp, None, t)) (zsocket_receive e sp bp n s)"
| "sk_apply e (Op_Receive_From ad bp n) sp s =
     map_option (\<lambda>(r, a, bf, t). (r \<ge> 0, sp, None, t)) (zsocket_receive_from e sp ad bp n s)"
| "sk_apply e (Op_Send bp n) sp s = map_option (\<lambda>(r, t). (r \<ge> 0, sp, None, t)) (zsocket_send e sp bp n s)"
| "sk_apply e (Op_Send_To ap bp n) sp s = map_option (\<lambda>(r, t). (r \<ge> 0, sp, None, t)) (zsocket_send_to e sp ap bp n s)"
| "sk_apply e Op_Close sp s = map_option (\<lambda>(r, sp', t). (r, sp', None, t)) (zsocket_close e sp s)"
| "sk_apply e (Op_Shutdown rd wr) sp s = map_option (\<lambda>(r, sp', t). (r, sp', None, t)) (zsocket_shutdown e sp rd wr s)"
| "sk_apply e (Op_Wait cond) sp s = map_option (\<lambda>(r, t). (r, sp, None, t)) (zsocket_io_condition_wait e sp cond s)"
| "sk_apply e Op_Check_Connect sp s = map_option (\<lambda>(r, sp', t). (r, sp', None, t)) (zsocket_check_connect_result e sp s)"
| "sk_apply e (Op_Buffer_Size dir n) sp s = map_option (\<lambda>(r, t). (r, sp, None, t)) (zsocket_set_buffer_size e sp dir n s)"
| "sk_apply e Op_Local sp s = map_option (\<lambda>(a, t). (a \<noteq> None, sp, None, t)) (zsocket_get_local_address e sp s)"
| "sk_apply e Op_Remote sp s = map_option (\<lambda>(a, t). (a \<noteq> None, sp, None, t)) (zsocket_get_remote_address e sp s)"
| "sk_apply e (Op_Keepalive k) sp s = map_option (\<lambda>(sp', t). (True, sp', None, t)) (zsocket_set_keepalive sp k s)"
| "sk_apply e (Op_Blocking b) sp s = Some (True, zsocket_set_blocking sp b, None, s)"
| "sk_apply e (Op_Timeout n) sp s = Some (True, zsocket_set_timeout sp n, None, s)"
| "sk_apply e (Op_Backlog n) sp s = Some (True, zsocket_set_listen_backlog sp n, None, s)"

section \<open>Error reports\<close>

text \<open>The error pointer is left alone by success and set by failure, with a code of the input/output domain.\<close>

definition io_dom :: "int \<Rightarrow> bool" where
  "io_dom c \<longleftrightarrow> P_ERROR_IO_NONE \<le> c \<and> c < P_ERROR_DOMAIN_IPC"

lemma io_dom_code [simp]: "io_dom (io_code e n)"
  unfolding io_dom_def io_code_def using io_range(1) by blast

lemma io_dom_const [simp]:
  "io_dom P_ERROR_IO_INVALID_ARGUMENT" "io_dom P_ERROR_IO_NOT_AVAILABLE" "io_dom P_ERROR_IO_NO_RESOURCES"
  "io_dom P_ERROR_IO_TIMED_OUT" "io_dom P_ERROR_IO_FAILED" "io_dom P_ERROR_IO_WOULD_BLOCK" "io_dom P_ERROR_IO_IN_PROGRESS"
  by (simp_all add: io_dom_def error_code_defs)

definition reports :: "sk_env \<Rightarrow> bool \<Rightarrow> sk_sys \<Rightarrow> sk_sys \<Rightarrow> bool" where
  "reports e ok s t \<longleftrightarrow> (if ok then err t = err s else \<exists>c n m. err t = set_err e c n m (err s) \<and> io_dom c)"

lemma reports_True [simp]: "reports e True s t \<longleftrightarrow> err t = err s"
  by (simp add: reports_def)

lemma reports_report [simp]: "err t = err s \<Longrightarrow> io_dom c \<Longrightarrow> reports e False s (sk_report e c n m t)"
  by (auto simp: reports_def)

lemma reports_net [simp]: "err t = err s \<Longrightarrow> reports e False s (sk_report_net e m t)"
  by (simp add: sk_report_net_def)

lemma reports_step: "reports e ok u t \<Longrightarrow> err u = err s \<Longrightarrow> reports e ok s t"
  by (auto simp: reports_def split: if_splits)

lemma reports_then: "reports e ok u v \<Longrightarrow> err u = err s \<Longrightarrow> err t = err v \<Longrightarrow> reports e ok s t"
  by (auto simp: reports_def split: if_splits)

text \<open>Unfolding a definition and splitting its branches leaves goals on the last report.\<close>

lemmas op_splits = Option.bind_splits if_splits option.splits prod.splits

lemma blocking_reports: "pzsocket_set_fd_blocking e fd b s = Some (ok, t) \<Longrightarrow> reports e ok s t"
  by (auto simp: pzsocket_set_fd_blocking_def Let_def dest!: sys_callD(2) split: op_splits)

lemma check_reports: "pzsocket_check e sk s = (ok, t) \<Longrightarrow> reports e ok s t"
  by (auto simp: pzsocket_check_def split: if_splits)

lemma details_reports:
  "details_type e sk s = Some (x, t) \<Longrightarrow> reports e (x \<noteq> None) s t"
  "details_family e sk s = Some (x, t) \<Longrightarrow> reports e (x \<noteq> None) s t"
  "details_state sk s = Some (k, t) \<Longrightarrow> err t = err s"
  "pzsocket_set_details_from_fd e sk s = Some (x, t) \<Longrightarrow> reports e (x \<noteq> None) s t"
proof -
  show 1: "details_type e sk s = Some (x, t) \<Longrightarrow> reports e (x \<noteq> None) s t" for sk s x t
    by (auto simp: details_type_def dest!: sys_callD(2) split: op_splits)
  show 2: "details_family e sk s = Some (x, t) \<Longrightarrow> reports e (x \<noteq> None) s t" for sk s x t
    by (auto simp: details_family_def Let_def dest!: sys_callD(2) split: op_splits)
  show 3: "details_state sk s = Some (k, t) \<Longrightarrow> err t = err s" for sk s k t
    by (auto simp: details_state_def dest!: sys_callD(2) split: op_splits)
  show "pzsocket_set_details_from_fd e sk s = Some (x, t) \<Longrightarrow> reports e (x \<noteq> None) s t"
    by (auto simp: pzsocket_set_details_from_fd_def dest!: 1 2 3 intro: reports_step split: op_splits)
qed

lemma new_from_fd_reports: "zsocket_new_from_fd e fd s = Some (x, t) \<Longrightarrow> reports e (x \<noteq> None) s t"
  by (auto simp: zsocket_new_from_fd_def zsocket_set_listen_backlog_def dest!: details_reports(4) blocking_reports
      intro: reports_step split: op_splits)

lemma close_reports: "zsocket_close e sp s = Some (ok, sp', t) \<Longrightarrow> reports e ok s t"
  by (auto simp: zsocket_close_def zsys_close_def dest!: sys_callD(2) split: op_splits)

lemma free_err: "zsocket_free e sp s = Some t \<Longrightarrow> err t = err s"
  by (auto simp: zsocket_free_def split: op_splits)

lemma cloexec_err: "set_cloexec fd s = Some t \<Longrightarrow> err t = err s"
  by (auto simp: set_cloexec_def dest!: sys_callD(2) split: op_splits)

lemma new_reports: "zsocket_new e fam ty proto s = Some (x, t) \<Longrightarrow> reports e (x \<noteq> None) s t"
  by (auto simp: zsocket_new_def zsocket_set_listen_backlog_def Let_def dest!: sys_callD(2) cloexec_err blocking_reports free_err
      intro: reports_step reports_then split: op_splits)

lemma wait_reports: "zsocket_io_condition_wait e sp cond s = Some (ok, t) \<Longrightarrow> reports e ok s t"
proof (cases sp)
  case (Some sk)
  assume w: "zsocket_io_condition_wait e sp cond s = Some (ok, t)"
  show ?thesis
  proof (cases "sk_closed sk")
    case False
    then obtain a u where r: "retry (interrupted e) (poll_call sk cond) s = Some (a, u)" and ok: "ok = (a_ret a = 1)" and t: "t = wait_end e a u"
      using w Some by (auto simp: wait_open)
    have "err u = err s" using retryD[OF r] by blast
    then show ?thesis by (auto simp: ok t wait_end_def)
  qed (use w Some in \<open>auto simp: zsocket_io_condition_wait_def pzsocket_check_def\<close>)
qed (auto simp: zsocket_io_condition_wait_def)

lemma loop_reports:
  assumes "io_loop e sk cond c m s = Some (x, t)" "\<not> sk_closed sk" "c \<noteq> poll_call sk cond"
  shows "reports e (x \<noteq> None) s t" "x = Some a \<Longrightarrow> 0 \<le> a_ret a"
proof -
  obtain l y where y: "loop_result e (poll_call sk cond) c m s y (x, t)" using io_loop_trace[OF assms(2,3,1)] by auto
  have "\<exists>c' n' m'. loop_err e (poll_call sk cond) m y (err s) = set_err e c' n' m' (err s) \<and> io_dom c'"
    unfolding loop_err_def by (metis io_dom_code io_dom_const(4))
  with y show "reports e (x \<noteq> None) s t" by (auto simp: loop_result_def reports_def)
  show "x = Some a \<Longrightarrow> 0 \<le> a_ret a" using y by (auto simp: loop_result_def split: if_splits)
qed

lemma loop_Some_reports:
  assumes "io_loop e sk cond c m s = Some (Some a, t)" "\<not> sk_closed sk" "c \<noteq> poll_call sk cond"
  shows "reports e (0 \<le> a_ret a) s t"
  using loop_reports[OF assms] by simp

lemma check_connect_reports: "zsocket_check_connect_result e sp s = Some (ok, sp', t) \<Longrightarrow> reports e ok s t"
  by (auto simp: zsocket_check_connect_result_def Let_def dest!: sys_callD(2) split: op_splits)

lemma pending_reports: "connect_pending e sk n s = Some (ok, sp', t) \<Longrightarrow> reports e ok s t"
  by (auto simp: connect_pending_def Let_def dest!: wait_reports check_connect_reports intro: reports_step split: op_splits)

lemma connect_reports: "zsocket_connect e sp ap s = Some (ok, sp', t) \<Longrightarrow> reports e ok s t"
proof (cases "\<exists>sk a m. sp = Some sk \<and> ap = Some a \<and> \<not> sk_closed sk \<and>
    zsocket_address_to_native (sk_cfg e) ap (Some (replicate 128 0)) 128 = (Some m, True)")
  case True
  assume c: "zsocket_connect e sp ap s = Some (ok, sp', t)"
  obtain sk a m where sk: "sp = Some sk" "ap = Some a" "\<not> sk_closed sk"
      "zsocket_address_to_native (sk_cfg e) (Some a) (Some (replicate 128 0)) 128 = (Some m, True)" using True by auto
  let ?r = "retry (\<lambda>c. a_ret c \<noteq> 0 \<and> sk_eintr e (zerror_get_last_net (a_errno c)))
    (C_connect (sk_fd sk) m (unat (zsocket_address_get_native_size (Some a)))) s"
  obtain b u where r: "?r = Some (b, u)" using c sk by (auto simp: zsocket_connect_def pzsocket_check_def split: Option.bind_splits)
  have u: "err u = err s" using retryD[OF r] by blast
  show ?thesis
  proof (cases "a_ret b = 0")
    case True
    then show ?thesis using c sk r u by (simp add: zsocket_connect_def pzsocket_check_def)
  next
    case False
    then have "connect_pending e sk (errno u) u = Some (ok, sp', t)" using c sk r by (simp add: zsocket_connect_def pzsocket_check_def)
    then show ?thesis using pending_reports u reports_step by blast
  qed
next
  case False
  then show "zsocket_connect e sp ap s = Some (ok, sp', t) \<Longrightarrow> ?thesis"
    by (auto simp: zsocket_connect_def pzsocket_check_def split: option.splits prod.splits bool.splits if_splits)
qed

lemma call_poll_ne [simp]:
  "C_recv f n \<noteq> poll_call sk cond" "C_recvfrom f n \<noteq> poll_call sk cond" "C_send f d g \<noteq> poll_call sk cond"
  "C_sendto f d g b n \<noteq> poll_call sk cond" "C_accept f \<noteq> poll_call sk cond"
  by (simp_all add: poll_call_def)

lemma accept_reports: "zsocket_accept e sp s = Some (x, t) \<Longrightarrow> reports e (x \<noteq> None) s t"
proof (cases "\<exists>sk. sp = Some sk \<and> \<not> sk_closed sk")
  case True
  assume acc: "zsocket_accept e sp s = Some (x, t)"
  obtain sk where sk: "sp = Some sk" "\<not> sk_closed sk" using True by blast
  let ?l = "io_loop e sk P_SOCKET_IO_CONDITION_POLLIN (C_accept (sk_fd sk)) M_Accept s"
  obtain y u where l: "?l = Some (y, u)" using acc sk by (auto simp: zsocket_accept_def pzsocket_check_def split: Option.bind_splits)
  note rep = loop_reports(1)[OF l sk(2) call_poll_ne(5)]
  show ?thesis
  proof (cases y)
    case None
    then show ?thesis using acc sk l rep by (simp add: zsocket_accept_def pzsocket_check_def)
  next
    case (Some a)
    then have u: "err u = err s" using rep by simp
    from acc Some show ?thesis
      using sk l u by (auto simp: zsocket_accept_def pzsocket_check_def zsys_close_def dest!: cloexec_err new_from_fd_reports sys_callD(2)
          intro: reports_then split: op_splits)
  qed
qed (auto simp: zsocket_accept_def pzsocket_check_def split: option.splits)

lemma transfer_reports:
  "zsocket_receive e sp bp n s = Some (r, bf, t) \<Longrightarrow> reports e (0 \<le> r) s t"
  "zsocket_receive_from e sp ad bp n s = Some (r, ap', bf, t) \<Longrightarrow> reports e (0 \<le> r) s t"
  "zsocket_send e sp bp n s = Some (r, t) \<Longrightarrow> reports e (0 \<le> r) s t"
  "zsocket_send_to e sp ap bp n s = Some (r, t) \<Longrightarrow> reports e (0 \<le> r) s t"
  by (auto simp: zsocket_receive_def zsocket_receive_from_def zsocket_send_def zsocket_send_to_def pzsocket_check_def Let_def
      dest: loop_reports(1) loop_Some_reports split: op_splits bool.splits)

lemma bind_reports: "zsocket_bind e sp ap ru s = Some (ok, t) \<Longrightarrow> reports e ok s t"
  by (auto simp: zsocket_bind_def pzsocket_check_def dest!: sys_callD(2) split: op_splits bool.splits)

lemma listen_reports: "zsocket_listen e sp s = Some (ok, sp', t) \<Longrightarrow> reports e ok s t"
  by (auto simp: zsocket_listen_def pzsocket_check_def dest!: sys_callD(2) split: op_splits)

lemma shutdown_reports: "zsocket_shutdown e sp rd wr s = Some (ok, sp', t) \<Longrightarrow> reports e ok s t"
  by (auto simp: zsocket_shutdown_def pzsocket_check_def dest!: sys_callD(2) split: op_splits)

lemma buffer_size_reports: "zsocket_set_buffer_size e sp dir n s = Some (ok, t) \<Longrightarrow> reports e ok s t"
  by (auto simp: zsocket_set_buffer_size_def pzsocket_check_def dest!: sys_callD(2) split: op_splits)

lemma address_reports: "get_address e call m sp s = Some (a, t) \<Longrightarrow> reports e (a \<noteq> None) s t"
  by (auto simp: get_address_def dest!: sys_callD(2) split: op_splits)

lemma keepalive_err: "zsocket_set_keepalive sp k s = Some (sp', t) \<Longrightarrow> err t = err s"
  by (auto simp: zsocket_set_keepalive_def dest!: sys_callD(2) split: op_splits)

lemma apply_reports: "sk_apply e op sp s = Some (ok, sp', acc, t) \<Longrightarrow> reports e ok s t"
  by (cases op)
    (auto simp: zsocket_get_local_address_def zsocket_get_remote_address_def
      dest: bind_reports connect_reports listen_reports accept_reports transfer_reports close_reports shutdown_reports wait_reports
        check_connect_reports buffer_size_reports address_reports keepalive_err)

lemma set_err_new:
  assumes "err_mem e" "io_dom c"
  shows "\<exists>x. set_err e c n m (Some None) = Some (Some x) \<and> zerror_get_domain (Some x) = P_ERROR_DOMAIN_IO"
proof -
  have c: "0 \<le> c" "c < 2 ^ 31" using assms(2) by (simp_all add: io_dom_def error_code_defs)
  have "sint (word_of_int c :: pint) = c" using c by (rule sint_small)
  then show ?thesis
    using assms by (simp add: set_err_def zerror_set_error_p_def zerror_new_literal_def zerror_new_def zerror_get_domain_def io_dom_def error_code_defs)
qed

text \<open>
  An error pointer before and after: a null pointer and an error that is already set stay, success
  leaves the pointer empty, and failure puts an error of the input/output domain there.
\<close>

definition well_reported :: "PError option option \<Rightarrow> bool \<Rightarrow> PError option option \<Rightarrow> bool" where
  "well_reported before ok after \<longleftrightarrow>
     (case before of
        Some None \<Rightarrow> if ok then after = Some None else \<exists>x. after = Some (Some x) \<and> zerror_get_domain (Some x) = P_ERROR_DOMAIN_IO
      | _ \<Rightarrow> after = before)"

lemma reports_well: "err_mem e \<Longrightarrow> reports e ok s t \<Longrightarrow> well_reported (err s) ok (err t)"
  using set_err_new[of e]
  by (auto simp: reports_def well_reported_def set_err_def zerror_set_error_p_def split: option.splits if_splits)

text \<open>
  C31: failures of sockets are reported. For every operation on a socket, also on a null one, and for
  the two constructors, whatever the system answers: with memory for the report, an empty
  error pointer has an error of the input/output domain afterwards if and only if the operation
  failed, and an error that is already there is never replaced.
\<close>

theorem socket_failures_reported:
  assumes "err_mem e"
  shows "(case sk_apply e op sp s of None \<Rightarrow> True | Some (ok, sp', acc, t) \<Rightarrow> well_reported (err s) ok (err t)) \<and>
    (case zsocket_new e fam ty proto s of None \<Rightarrow> True | Some (sp', t) \<Rightarrow> well_reported (err s) (sp' \<noteq> None) (err t)) \<and>
    (case zsocket_new_from_fd e fd s of None \<Rightarrow> True | Some (sp', t) \<Rightarrow> well_reported (err s) (sp' \<noteq> None) (err t))"
  using assms by (auto split: option.splits dest: reports_well apply_reports new_reports new_from_fd_reports)

text \<open>A datagram socket that does not block and whose send buffer is full.\<close>

theorem socket_failures_reported_witness:
  "\<exists>t x. sk_apply env_sample (Op_Send (Some [7]) 1) (Some (socket_sample\<lparr>sk_blocking := False\<rparr>)) (sys_sample [ans (- 1) 11 []]) =
     Some (False, Some (socket_sample\<lparr>sk_blocking := False\<rparr>), None, t) \<and>
     err t = Some (Some x) \<and> zerror_get_domain (Some x) = P_ERROR_DOMAIN_IO"
proof -
  let ?sk = "socket_sample\<lparr>sk_blocking := False\<rparr>"
  let ?s = "sys_sample [ans (- 1) 11 []]"
  have mem: "err_mem env_sample" by (simp add: env_sample_def)
  have ev: "map_option (\<lambda>(ok, sp', acc, t). (ok, sp', acc, todo t)) (sk_apply env_sample (Op_Send (Some [7]) 1) (Some ?sk) ?s) =
      Some (False, Some ?sk, None, [])"
    by code_simp
  then obtain t where t: "sk_apply env_sample (Op_Send (Some [7]) 1) (Some ?sk) ?s = Some (False, Some ?sk, None, t)" by auto
  have "well_reported (err ?s) False (err t)"
    using socket_failures_reported[OF mem, where op = "Op_Send (Some [7]) 1" and sp = "Some ?sk" and s = ?s] by (simp only: t) auto
  then obtain x where "err t = Some (Some x)" "zerror_get_domain (Some x) = P_ERROR_DOMAIN_IO"
    by (auto simp: well_reported_def sys_sample_def)
  with t show ?thesis by blast
qed

end
