(* ===== verification/Resource_Log.thy ===== *)
theory Resource_Log
  imports System_Calls
begin

text \<open>
  Resources in the log of a program: which descriptors, names or mappings are held after an exchange
  with the system, what can be expected of the system, and what the program owes it. A component
  says what each call does to the set of resources; the composition of such effects is the
  same for all of them.
\<close>

definition after :: "('f \<Rightarrow> 'x \<Rightarrow> 'f) \<Rightarrow> 'f \<Rightarrow> 'x list \<Rightarrow> 'f" where
  "after step F l = foldl step F l"

text \<open>Every element has a property of the state in front of it.\<close>

fun each :: "('f \<Rightarrow> 'x \<Rightarrow> bool) \<Rightarrow> ('f \<Rightarrow> 'x \<Rightarrow> 'f) \<Rightarrow> 'f \<Rightarrow> 'x list \<Rightarrow> bool" where
  "each P step F [] \<longleftrightarrow> True"
| "each P step F (x # xs) \<longleftrightarrow> P F x \<and> each P step (step F x) xs"

lemma after_simps [simp]: "after step F [] = F" "after step F (x # xs) = after step (step F x) xs"
  by (simp_all add: after_def)

lemma after_append [simp]: "after step F (xs @ ys) = after step (after step F xs) ys"
  by (simp add: after_def)

lemma each_append [simp]: "each P step F (xs @ ys) \<longleftrightarrow> each P step F xs \<and> each P step (after step F xs) ys"
  by (induction xs arbitrary: F) auto

lemma each_True [simp]: "each (\<lambda>_ _. True) step F xs"
  by (induction xs arbitrary: F) auto

lemma consumes_unique: "consumes s l t \<Longrightarrow> consumes s k t \<Longrightarrow> l = k"
  by (simp add: consumes_def)

text \<open>
  The contract of a component: \<open>step\<close> is the effect of an exchange, \<open>sane\<close> what is expected of the
  system and \<open>proper\<close> what the program promises; calls that are \<open>quiet\<close> for a resource change nothing
  as long as it is \<open>live\<close>.
\<close>

locale resource_log =
  fixes step :: "'f \<Rightarrow> 'c \<times> answer \<Rightarrow> 'f"
    and sane :: "'f \<Rightarrow> 'c \<times> answer \<Rightarrow> bool"
    and proper :: "'f \<Rightarrow> 'c \<times> answer \<Rightarrow> bool"
    and quiet :: "'k \<Rightarrow> 'c \<Rightarrow> bool"
    and live :: "'k \<Rightarrow> 'f \<Rightarrow> bool"
  assumes quiet_step: "quiet k (fst x) \<Longrightarrow> live k F \<Longrightarrow> step F x = F"
    and quiet_proper: "quiet k (fst x) \<Longrightarrow> live k F \<Longrightarrow> proper F x"
begin

lemma quiet_steps: "\<forall>x \<in> set l. quiet k (fst x) \<Longrightarrow> live k F \<Longrightarrow> after step F l = F \<and> each proper step F l"
  by (induction l) (auto simp: quiet_step quiet_proper)

text \<open>Between two states only quiet calls were made.\<close>

definition talks :: "'k \<Rightarrow> 'c sys \<Rightarrow> 'c sys \<Rightarrow> bool" where
  "talks k s t \<longleftrightarrow> (\<exists>l. consumes s l t \<and> (\<forall>x \<in> set l. quiet k (fst x)))"

lemma talks_refl [simp, intro]: "talks k s s"
  unfolding talks_def by (intro exI[of _ "[]"]) simp

lemma talks_trans: "talks k s t \<Longrightarrow> talks k t u \<Longrightarrow> talks k s u"
  unfolding talks_def by (metis (no_types, lifting) Un_iff consumes_trans set_append)

lemma talks_err [simp]: "talks k s (t\<lparr>err := x\<rparr>) = talks k s t" "talks k (s\<lparr>err := x\<rparr>) t = talks k s t"
  by (simp_all add: talks_def)

lemma talks_call: "sys_call c s = Some (a, u) \<Longrightarrow> quiet k c \<Longrightarrow> talks k s u"
  unfolding talks_def by (intro exI[of _ "[(c, a)]"]) (simp add: sys_callD(1))

lemma talks_call_then: "sys_call c s = Some (a, u) \<Longrightarrow> quiet k c \<Longrightarrow> talks k u t \<Longrightarrow> talks k s t"
  using talks_call talks_trans by blast

lemma talks_call2: "sys_call c s = Some (a, u) \<Longrightarrow> sys_call d u = Some (b, v) \<Longrightarrow> quiet k c \<Longrightarrow> quiet k d \<Longrightarrow> talks k s v"
  using talks_call talks_call_then by blast

lemma talks_call3:
  "sys_call c s = Some (a, u) \<Longrightarrow> sys_call d u = Some (b, v) \<Longrightarrow> sys_call f v = Some (g, w) \<Longrightarrow>
   quiet k c \<Longrightarrow> quiet k d \<Longrightarrow> quiet k f \<Longrightarrow> talks k s w"
  using talks_call2 talks_call_then by blast

lemma talks_retry: "retry f c s = Some (a, u) \<Longrightarrow> quiet k c \<Longrightarrow> talks k s u"
  unfolding talks_def using retryD[of f c s a u] by fastforce

lemma talks_reach: "talks k s t \<Longrightarrow> \<exists>l. consumes s l t"
  by (auto simp: talks_def)

text \<open>The transition of an operation: on a system as expected, the resources go from \<open>F\<close> to some \<open>G\<close> with \<open>Q G\<close>.\<close>

definition effect :: "'f \<Rightarrow> 'c sys \<Rightarrow> 'c sys \<Rightarrow> ('f \<Rightarrow> bool) \<Rightarrow> bool" where
  "effect F s t Q \<longleftrightarrow>
     (\<exists>l. consumes s l t) \<and> (\<forall>l. consumes s l t \<and> each sane step F l \<longrightarrow> each proper step F l \<and> Q (after step F l))"

lemma effectI: "consumes s l t \<Longrightarrow> (each sane step F l \<Longrightarrow> each proper step F l \<and> Q (after step F l)) \<Longrightarrow> effect F s t Q"
  unfolding effect_def using consumes_unique by metis

lemma effect_call:
  "sys_call c s = Some (a, t) \<Longrightarrow> (sane F (c, a) \<Longrightarrow> proper F (c, a) \<and> Q (step F (c, a))) \<Longrightarrow> effect F s t Q"
  by (rule effectI[OF sys_callD(1)]) simp_all

lemma talks_effect:
  assumes "talks k s t" "live k F"
  shows "\<exists>l. consumes s l t \<and> after step F l = F \<and> each proper step F l"
  using assms quiet_steps[of _ k F] unfolding talks_def by blast

lemma effect_talks: "talks k s t \<Longrightarrow> live k F \<Longrightarrow> Q F \<Longrightarrow> effect F s t Q"
  using talks_effect[of k s t F] effectI by metis

lemma effect_trans:
  assumes "effect F s t Q" "\<And>G. Q G \<Longrightarrow> effect G t u R" "\<exists>k. consumes t k u"
  shows "effect F s u R"
proof -
  obtain l k where l: "consumes s l t" and k: "consumes t k u" using assms(1,3) by (auto simp: effect_def)
  show ?thesis
  proof (rule effectI[OF consumes_trans[OF l k]])
    assume sn: "each sane step F (l @ k)"
    then have "each proper step F l" and q: "Q (after step F l)" using assms(1) l by (auto simp: effect_def)
    moreover have "each proper step (after step F l) k" "R (after step (after step F l) k)"
      using assms(2)[OF q] k sn by (auto simp: effect_def)
    ultimately show "each proper step F (l @ k) \<and> R (after step F (l @ k))" by simp
  qed
qed

lemma effect_reach: "effect F s t Q \<Longrightarrow> \<exists>k. consumes s k t"
  by (simp add: effect_def)

lemma effect_seq: "effect F s t (\<lambda>G. G = H) \<Longrightarrow> effect H t u R \<Longrightarrow> effect F s u R"
  by (erule effect_trans) (auto dest: effect_reach)

lemma effect_mono: "effect F s t Q \<Longrightarrow> (\<And>G. Q G \<Longrightarrow> R G) \<Longrightarrow> effect F s t R"
  by (auto simp: effect_def)

lemma effect_refl: "Q F \<Longrightarrow> effect F s s Q"
  by (rule effectI[of s "[]"]) simp_all

lemma effect_err [simp]: "effect F (s\<lparr>err := x\<rparr>) t Q = effect F s t Q" "effect F s (t\<lparr>err := x\<rparr>) Q = effect F s t Q"
  by (simp_all add: effect_def)

lemma effect_report [simp]: "effect F s (report e c n m t) Q = effect F s t Q"
  by (simp add: effect_def)

text \<open>From a state with nothing logged, the whole log is what the operation exchanged.\<close>

lemma effect_log:
  assumes "effect F s t Q" "log s = []" "each sane step F (log t)"
  shows "each proper step F (log t)" "Q (after step F (log t))"
proof -
  obtain l where "consumes s l t" using assms(1) by (auto simp: effect_def)
  then have "consumes s (log t) t" using assms(2) by (auto simp: consumes_def)
  then show "each proper step F (log t)" "Q (after step F (log t))" using assms(1,3) by (auto simp: effect_def)
qed

end

end
