(* ===== verification/PSocket_Fds.thy ===== *)
theory PSocket_Fds
  imports PSocket_Ops Resource_Log
begin

text \<open>
  The descriptors that sockets own: which calls each operation makes on which descriptor, and what
  that means for programs with any number of sockets.
\<close>

section \<open>Descriptors in a log\<close>

fun call_fd :: "sock_call \<Rightarrow> int option" where
  "call_fd (C_socket f t p) = None"
| "call_fd (C_fcntl fd c a) = Some fd"
| "call_fd (C_getsockopt fd ov) = Some fd"
| "call_fd (C_setsockopt fd ov v) = Some fd"
| "call_fd (C_getsockname fd) = Some fd"
| "call_fd (C_getpeername fd) = Some fd"
| "call_fd (C_bind fd b n) = Some fd"
| "call_fd (C_connect fd b n) = Some fd"
| "call_fd (C_listen fd n) = Some fd"
| "call_fd (C_accept fd) = Some fd"
| "call_fd (C_recv fd n) = Some fd"
| "call_fd (C_recvfrom fd n) = Some fd"
| "call_fd (C_send fd b f) = Some fd"
| "call_fd (C_sendto fd b f m n) = Some fd"
| "call_fd (C_close fd) = Some fd"
| "call_fd (C_shutdown fd h) = Some fd"
| "call_fd (C_poll fd ev n) = Some fd"

fun creates :: "sock_call \<Rightarrow> bool" where
  "creates (C_socket f t p) \<longleftrightarrow> True"
| "creates (C_accept fd) \<longleftrightarrow> True"
| "creates c \<longleftrightarrow> False"

text \<open>The set of open descriptors after an exchange.\<close>

definition fd_step :: "int set \<Rightarrow> sock_call \<times> answer \<Rightarrow> int set" where
  "fd_step F x =
     (if creates (fst x) then (if a_ret (snd x) < 0 then F else insert (a_ret (snd x)) F)
      else case fst x of C_close fd \<Rightarrow> (if a_ret (snd x) = 0 then F - {fd} else F) | _ \<Rightarrow> F)"

abbreviation opened :: "int set \<Rightarrow> (sock_call \<times> answer) list \<Rightarrow> int set" where
  "opened \<equiv> after fd_step"

text \<open>
  A system that behaves: a new descriptor is not open yet, an open one can be closed, and other calls
  on a descriptor that is not open fail.
\<close>

definition sane_step :: "int set \<Rightarrow> sock_call \<times> answer \<Rightarrow> bool" where
  "sane_step F x \<longleftrightarrow>
     (creates (fst x) \<longrightarrow> a_ret (snd x) \<notin> F) \<and>
     (\<forall>fd. fst x = C_close fd \<and> fd \<in> F \<longrightarrow> a_ret (snd x) = 0) \<and>
     (\<forall>fd. call_fd (fst x) = Some fd \<and> fd \<notin> F \<longrightarrow> a_ret (snd x) < 0)"

abbreviation sane :: "int set \<Rightarrow> (sock_call \<times> answer) list \<Rightarrow> bool" where
  "sane \<equiv> each sane_step fd_step"

text \<open>
  A program that behaves: it closes only what is open, and makes other calls only on open descriptors
  or on -1, the descriptor of a closed socket.
\<close>

definition proper_step :: "int set \<Rightarrow> sock_call \<times> answer \<Rightarrow> bool" where
  "proper_step F x \<longleftrightarrow>
     (\<forall>fd. call_fd (fst x) = Some fd \<longrightarrow> fd \<in> F \<or> fd = - 1 \<and> fst x \<noteq> C_close fd)"

abbreviation proper :: "int set \<Rightarrow> (sock_call \<times> answer) list \<Rightarrow> bool" where
  "proper \<equiv> each proper_step fd_step"

section \<open>Operations that keep descriptors\<close>

definition quiet :: "int \<Rightarrow> sock_call \<Rightarrow> bool" where
  "quiet fd c \<longleftrightarrow> call_fd c = Some fd \<and> \<not> creates c \<and> c \<noteq> C_close fd"

lemma quiet_simps [simp, intro]:
  "quiet fd (C_fcntl fd c a)" "quiet fd (C_getsockopt fd ov)" "quiet fd (C_setsockopt fd ov v)" "quiet fd (C_getsockname fd)"
  "quiet fd (C_getpeername fd)" "quiet fd (C_bind fd b n)" "quiet fd (C_connect fd b n)" "quiet fd (C_listen fd i)"
  "quiet fd (C_recv fd n)" "quiet fd (C_recvfrom fd n)" "quiet fd (C_send fd b f)" "quiet fd (C_sendto fd b f m n)"
  "quiet fd (C_shutdown fd h)" "quiet fd (C_poll fd ev i)"
  by (simp_all add: quiet_def)

definition usable :: "int \<Rightarrow> int set \<Rightarrow> bool" where
  "usable fd F \<longleftrightarrow> fd \<in> F \<or> fd = - 1"

lemma usableI [simp, intro]: "fd \<in> F \<Longrightarrow> usable fd F" "usable fd (insert fd F)"
  by (simp_all add: usable_def)

interpretation fds: resource_log fd_step sane_step proper_step quiet usable
proof
  fix fd and x :: "sock_call \<times> answer" and F
  assume "quiet fd (fst x)" "usable fd F"
  then show "fd_step F x = F" "proper_step F x"
    by (cases "fst x"; auto simp: fd_step_def proper_step_def quiet_def usable_def)+
qed

abbreviation talks :: "int \<Rightarrow> sk_sys \<Rightarrow> sk_sys \<Rightarrow> bool" where
  "talks \<equiv> fds.talks"

abbreviation effect :: "int set \<Rightarrow> sk_sys \<Rightarrow> sk_sys \<Rightarrow> (int set \<Rightarrow> bool) \<Rightarrow> bool" where
  "effect \<equiv> fds.effect"

lemma talks_sk_report [simp]: "talks fd s (sk_report e c n m t) = talks fd s t" "talks fd s (sk_report_net e m t) = talks fd s t"
  by (simp_all add: sk_report_net_def sk_report_def report_def)

lemmas talks_reportI [intro!] = talks_sk_report(1)[THEN iffD2] talks_sk_report(2)[THEN iffD2]

lemma effect_sk_report [simp]: "effect F s (sk_report e c n m t) Q = effect F s t Q" "effect F s (sk_report_net e m t) Q = effect F s t Q"
  by (simp_all add: sk_report_net_def sk_report_def)

lemma blocking_talks: "pzsocket_set_fd_blocking e fd b s = Some (ok, t) \<Longrightarrow> talks fd s t"
  by (auto simp: pzsocket_set_fd_blocking_def Let_def intro: fds.talks_call fds.talks_call_then split: op_splits)

lemma cloexec_talks: "set_cloexec fd s = Some t \<Longrightarrow> talks fd s t"
  by (auto simp: set_cloexec_def intro: fds.talks_call fds.talks_call_then split: op_splits)

lemma details_talks:
  "details_type e sk s = Some (x, t) \<Longrightarrow> talks (sk_fd sk) s t \<and> (\<forall>k. x = Some k \<longrightarrow> sk_fd k = sk_fd sk \<and> sk_closed k = sk_closed sk)"
  "details_family e sk s = Some (x, t) \<Longrightarrow> talks (sk_fd sk) s t \<and> (\<forall>k. x = Some k \<longrightarrow> sk_fd k = sk_fd sk \<and> sk_closed k = sk_closed sk)"
  "details_state sk s = Some (k, t) \<Longrightarrow> talks (sk_fd sk) s t \<and> sk_fd k = sk_fd sk \<and> sk_closed k = sk_closed sk"
  "pzsocket_set_details_from_fd e sk s = Some (x, t) \<Longrightarrow> talks (sk_fd sk) s t \<and> (\<forall>k. x = Some k \<longrightarrow> sk_fd k = sk_fd sk \<and> sk_closed k = sk_closed sk)"
proof -
  show 1: "details_type e sk s = Some (x, t) \<Longrightarrow> talks (sk_fd sk) s t \<and> (\<forall>k. x = Some k \<longrightarrow> sk_fd k = sk_fd sk \<and> sk_closed k = sk_closed sk)" for sk s x t
    by (auto simp: details_type_def intro: fds.talks_call split: op_splits)
  show 2: "details_family e sk s = Some (x, t) \<Longrightarrow> talks (sk_fd sk) s t \<and> (\<forall>k. x = Some k \<longrightarrow> sk_fd k = sk_fd sk \<and> sk_closed k = sk_closed sk)" for sk s x t
    by (auto simp: details_family_def Let_def intro: fds.talks_call fds.talks_call_then split: op_splits)
  show 3: "details_state sk s = Some (k, t) \<Longrightarrow> talks (sk_fd sk) s t \<and> sk_fd k = sk_fd sk \<and> sk_closed k = sk_closed sk" for sk s k t
    by (auto simp: details_state_def intro: fds.talks_call fds.talks_call_then split: op_splits)
  assume d: "pzsocket_set_details_from_fd e sk s = Some (x, t)"
  then obtain x1 s1 where d1: "details_type e sk s = Some (x1, s1)" by (auto simp: pzsocket_set_details_from_fd_def split: Option.bind_splits)
  show "talks (sk_fd sk) s t \<and> (\<forall>k. x = Some k \<longrightarrow> sk_fd k = sk_fd sk \<and> sk_closed k = sk_closed sk)"
  proof (cases x1)
    case (Some k1)
    then obtain x2 s2 where d2: "details_family e k1 s1 = Some (x2, s2)"
      using d d1 by (auto simp: pzsocket_set_details_from_fd_def split: Option.bind_splits)
    then show ?thesis using d d1 Some 1[OF d1] 2[OF d2]
      by (cases x2) (auto simp: pzsocket_set_details_from_fd_def dest!: 3 intro: fds.talks_trans split: Option.bind_splits)
  qed (use d d1 1[OF d1] in \<open>auto simp: pzsocket_set_details_from_fd_def\<close>)
qed

lemma new_from_fd_talks:
  assumes "zsocket_new_from_fd e fd s = Some (x, t)"
  shows "talks fd s t \<and> (\<forall>k. x = Some k \<longrightarrow> sk_fd k = fd)"
  using assms
  by (auto simp: zsocket_new_from_fd_def zsocket_set_listen_backlog_def dest!: details_talks(4) blocking_talks
      intro: fds.talks_trans split: op_splits)

lemma wait_talks: "zsocket_io_condition_wait e (Some sk) cond s = Some (ok, t) \<Longrightarrow> talks (sk_fd sk) s t"
  by (auto simp: zsocket_io_condition_wait_def pzsocket_check_def Let_def intro: fds.talks_retry split: op_splits)

lemma loop_talks:
  assumes "io_loop e sk cond c m s = Some (x, t)" "\<not> sk_closed sk" "quiet (sk_fd sk) c" "c \<noteq> poll_call sk cond"
  shows "talks (sk_fd sk) s t"
proof -
  let ?p = "poll_call sk cond"
  obtain l y where con: "consumes s (l @ [y]) t" and l: "loop_ends e sk ?p c l y"
    using io_loop_trace[OF assms(2,4,1)] by auto
  have "fst z = c \<or> fst z = ?p" if "z \<in> set (l @ [y])" for z
    using that l by (auto simp: loop_ends_def leads_on_def goes_on_def first_call_def next_call_def split: if_splits)
  moreover have "quiet (sk_fd sk) ?p" by (simp add: poll_call_def)
  ultimately show ?thesis unfolding fds.talks_def using con assms(3) by metis
qed

section \<open>The object\<close>

definition sk_inv :: "PSocket \<Rightarrow> bool" where
  "sk_inv sk \<longleftrightarrow>
     (if sk_closed sk then sk_fd sk = - 1 \<and> \<not> sk_connected sk \<and> \<not> sk_listening sk else 0 \<le> sk_fd sk) \<and> 0 \<le> sk_timeout sk"

lemma new_from_fd_inv:
  assumes "zsocket_new_from_fd e fd s = Some (Some k, t)"
  shows "sk_inv k \<and> \<not> sk_closed k \<and> sk_fd k = fd"
proof -
  obtain sk s1 where d: "pzsocket_set_details_from_fd e (socket_zero\<lparr>sk_fd := fd\<rparr>) s = Some (Some sk, s1)" and fd: "0 \<le> fd"
    and k: "sk_closed k = sk_closed sk" "sk_timeout k = 0"
    using assms by (auto simp: zsocket_new_from_fd_def zsocket_set_listen_backlog_def split: op_splits)
  have "sk_closed sk = False" using details_talks(4)[OF d] by (simp add: socket_zero_def)
  then show ?thesis using k fd new_from_fd_talks[OF assms] by (simp add: sk_inv_def)
qed

text \<open>What an operation that neither creates nor closes does to the object.\<close>

definition keeps :: "PSocket \<Rightarrow> PSocket option \<Rightarrow> sk_sys \<Rightarrow> sk_sys \<Rightarrow> bool" where
  "keeps sk sp' s t \<longleftrightarrow> talks (sk_fd sk) s t \<and>
     (\<exists>k. sp' = Some k \<and> sk_fd k = sk_fd sk \<and> sk_closed k = sk_closed sk \<and> (0 \<le> sk_timeout sk \<longrightarrow> 0 \<le> sk_timeout k) \<and>
        (sk_closed sk \<longrightarrow> sk_listening k = sk_listening sk \<and>
          (sk_connected k = sk_connected sk \<or> (\<exists>a. consumes s [(C_getsockopt (sk_fd sk) SO_ERROR, a)] t \<and> \<not> a_ret a < 0))))"

lemma keeps_same: "talks (sk_fd sk) s t \<Longrightarrow> keeps sk (Some sk) s t"
  by (simp add: keeps_def)

lemma keeps_setters:
  "keeps sk (Some (sk\<lparr>sk_blocking := b\<rparr>)) s s" "0 \<le> n \<Longrightarrow> keeps sk (Some (sk\<lparr>sk_timeout := n\<rparr>)) s s"
  "keeps sk (Some (sk\<lparr>sk_listen_backlog := m\<rparr>)) s s"
  by (simp_all add: keeps_def)

lemma check_connect_keeps:
  assumes "zsocket_check_connect_result e (Some sk) s = Some (ok, sp', t)"
  shows "keeps sk sp' s t"
proof -
  obtain a u where c: "sys_call (C_getsockopt (sk_fd sk) SO_ERROR) s = Some (a, u)"
    using assms by (auto simp: zsocket_check_connect_result_def split: Option.bind_splits)
  have con: "consumes s [(C_getsockopt (sk_fd sk) SO_ERROR, a)] u" "talks (sk_fd sk) s u"
    using sys_callD(1)[OF c] fds.talks_call[OF c] by simp_all
  show ?thesis
  proof (cases "a_ret a < 0")
    case True
    then show ?thesis using assms c con by (auto simp: zsocket_check_connect_result_def keeps_def)
  next
    case False
    then have "consumes s [(C_getsockopt (sk_fd sk) SO_ERROR, a)] t" "talks (sk_fd sk) s t" "sp' = Some (sk\<lparr>sk_connected := (a_val a = 0)\<rparr>)"
      using assms c con by (auto simp: zsocket_check_connect_result_def Let_def split: if_splits)
    then show ?thesis using False unfolding keeps_def by auto
  qed
qed

lemma keeps_open:
  "\<not> sk_closed sk \<Longrightarrow> keeps sk sp' s t \<longleftrightarrow> talks (sk_fd sk) s t \<and>
     (\<exists>k. sp' = Some k \<and> sk_fd k = sk_fd sk \<and> \<not> sk_closed k \<and> (0 \<le> sk_timeout sk \<longrightarrow> 0 \<le> sk_timeout k))"
  by (auto simp: keeps_def)

lemma pending_keeps:
  assumes "connect_pending e sk n s = Some (ok, sp', t)" "\<not> sk_closed sk"
  shows "keeps sk sp' s t"
proof -
  have check: "talks (sk_fd sk) u t \<and> (\<exists>k. sp = Some k \<and> sk_fd k = sk_fd sk \<and> \<not> sk_closed k \<and> (0 \<le> sk_timeout sk \<longrightarrow> 0 \<le> sk_timeout k))"
    if "zsocket_check_connect_result e (Some sk) u = Some (r, sp, t)" for u r sp t
    using check_connect_keeps[OF that] assms(2) by (simp add: keeps_open)
  show ?thesis
    using assms unfolding keeps_open[OF assms(2)]
    by (auto simp: connect_pending_def Let_def dest!: wait_talks check intro: fds.talks_trans split: op_splits)
qed

lemma connect_keeps:
  assumes c: "zsocket_connect e (Some sk) ap s = Some (ok, sp', t)"
  shows "keeps sk sp' s t"
proof (cases "\<exists>a m. ap = Some a \<and> \<not> sk_closed sk \<and>
    zsocket_address_to_native (sk_cfg e) ap (Some (replicate 128 0)) 128 = (Some m, True)")
  case True
  then obtain a m where sk: "ap = Some a" "\<not> sk_closed sk"
      "zsocket_address_to_native (sk_cfg e) (Some a) (Some (replicate 128 0)) 128 = (Some m, True)" by auto
  let ?r = "retry (\<lambda>c. a_ret c \<noteq> 0 \<and> sk_eintr e (zerror_get_last_net (a_errno c)))
    (C_connect (sk_fd sk) m (unat (zsocket_address_get_native_size (Some a)))) s"
  obtain b u where r: "?r = Some (b, u)" using c sk by (auto simp: zsocket_connect_def pzsocket_check_def split: Option.bind_splits)
  have u: "talks (sk_fd sk) s u" using fds.talks_retry[OF r] by simp
  show ?thesis
  proof (cases "a_ret b = 0")
    case True
    then show ?thesis using c sk r u by (auto simp: zsocket_connect_def pzsocket_check_def keeps_open)
  next
    case False
    then have "connect_pending e sk (errno u) u = Some (ok, sp', t)" using c sk r by (simp add: zsocket_connect_def pzsocket_check_def)
    then show ?thesis using pending_keeps[OF _ sk(2)] u fds.talks_trans unfolding keeps_open[OF sk(2)] by blast
  qed
next
  case False
  then show ?thesis using c
    by (auto simp: zsocket_connect_def pzsocket_check_def keeps_def split: option.splits prod.splits bool.splits if_splits)
qed

lemma transfer_talks:
  "zsocket_receive e (Some sk) bp n s = Some (r, bf, t) \<Longrightarrow> talks (sk_fd sk) s t"
  "zsocket_receive_from e (Some sk) ad bp n s = Some (r, ap', bf, t) \<Longrightarrow> talks (sk_fd sk) s t"
  "zsocket_send e (Some sk) bp n s = Some (r, t) \<Longrightarrow> talks (sk_fd sk) s t"
  "zsocket_send_to e (Some sk) ap bp n s = Some (r, t) \<Longrightarrow> talks (sk_fd sk) s t"
  by (auto simp: zsocket_receive_def zsocket_receive_from_def zsocket_send_def zsocket_send_to_def pzsocket_check_def Let_def
      dest: loop_talks split: op_splits bool.splits)

lemma bind_talks: "zsocket_bind e (Some sk) ap ru s = Some (ok, t) \<Longrightarrow> talks (sk_fd sk) s t"
  by (auto simp: zsocket_bind_def pzsocket_check_def intro: fds.talks_call2 fds.talks_call3 split: op_splits bool.splits)

lemma buffer_size_talks: "zsocket_set_buffer_size e (Some sk) dir n s = Some (ok, t) \<Longrightarrow> talks (sk_fd sk) s t"
  by (auto simp: zsocket_set_buffer_size_def pzsocket_check_def intro: fds.talks_call split: op_splits)

lemma address_talks: "get_address e call m (Some sk) s = Some (a, t) \<Longrightarrow> quiet (sk_fd sk) (call (sk_fd sk)) \<Longrightarrow> talks (sk_fd sk) s t"
  by (auto simp: get_address_def intro: fds.talks_call split: op_splits)

lemma listen_keeps: "zsocket_listen e (Some sk) s = Some (ok, sp', t) \<Longrightarrow> keeps sk sp' s t"
  by (auto simp: zsocket_listen_def pzsocket_check_def keeps_def intro: fds.talks_call split: op_splits)

lemma shutdown_keeps: "zsocket_shutdown e (Some sk) rd wr s = Some (ok, sp', t) \<Longrightarrow> keeps sk sp' s t"
  by (auto simp: zsocket_shutdown_def pzsocket_check_def keeps_def intro: fds.talks_call split: op_splits)

lemma keepalive_keeps: "zsocket_set_keepalive (Some sk) k s = Some (sp', t) \<Longrightarrow> keeps sk sp' s t"
  by (auto simp: zsocket_set_keepalive_def keeps_def intro: fds.talks_call split: op_splits)

lemma apply_keeps:
  assumes "sk_apply e op (Some sk) s = Some (ok, sp', acc, t)" "op \<noteq> Op_Accept" "op \<noteq> Op_Close"
  shows "acc = None \<and> keeps sk sp' s t"
  using assms
  by (cases op)
    (auto simp: zsocket_get_local_address_def zsocket_get_remote_address_def zsocket_set_blocking_def zsocket_set_timeout_def
      zsocket_set_listen_backlog_def split: if_splits
      dest: connect_keeps listen_keeps shutdown_keeps keepalive_keeps check_connect_keeps
      intro: keeps_same keeps_setters transfer_talks bind_talks wait_talks buffer_size_talks address_talks)

section \<open>Programs\<close>

text \<open>
  A program keeps its sockets in numbered variables. A new socket, made or accepted, goes to a
  variable that holds none; an operation that would overwrite a socket is not done.
\<close>

datatype prog_op = Pr_New nat PSocketFamily PSocketType PSocketProtocol | Pr_Op nat sk_op nat | Pr_Free nat

type_synonym prog_state = "(nat \<rightharpoonup> PSocket) \<times> sk_sys"

fun prog_step :: "sk_env \<Rightarrow> prog_op \<Rightarrow> prog_state \<Rightarrow> prog_state option" where
  "prog_step e (Pr_New j fam ty proto) (objs, s) =
     (if objs j \<noteq> None then Some (objs, s) else map_option (\<lambda>(x, t). (objs(j := x), t)) (zsocket_new e fam ty proto s))"
| "prog_step e (Pr_Op i op j) (objs, s) =
     (if objs j \<noteq> None then Some (objs, s)
      else map_option (\<lambda>(ok, sp', acc, t). (objs(i := sp', j := acc), t)) (sk_apply e op (objs i) s))"
| "prog_step e (Pr_Free i) (objs, s) = map_option (\<lambda>t. (objs(i := None), t)) (zsocket_free e (objs i) s)"

fun prog_run :: "sk_env \<Rightarrow> prog_op list \<Rightarrow> prog_state \<Rightarrow> prog_state option" where
  "prog_run e [] st = Some st"
| "prog_run e (op # ops) st = (case prog_step e op st of None \<Rightarrow> None | Some st' \<Rightarrow> prog_run e ops st')"

text \<open>The descriptor that a variable owns.\<close>

definition fd_of :: "PSocket option \<Rightarrow> int option" where
  "fd_of x = (case x of None \<Rightarrow> None | Some k \<Rightarrow> if sk_closed k then None else Some (sk_fd k))"

definition owns :: "(nat \<rightharpoonup> int) \<Rightarrow> int set \<Rightarrow> bool" where
  "owns m F \<longleftrightarrow> F = ran m \<and> (\<forall>i j f. m i = Some f \<and> m j = Some f \<longrightarrow> i = j)"

definition objs_ok :: "(nat \<rightharpoonup> PSocket) \<Rightarrow> int set \<Rightarrow> bool" where
  "objs_ok objs F \<longleftrightarrow> (\<forall>i k. objs i = Some k \<longrightarrow> sk_inv k) \<and> owns (fd_of \<circ> objs) F"

lemma owns_new:
  assumes "owns m F" "m j = None" "f \<notin> F"
  shows "owns (m(j \<mapsto> f)) (insert f F)"
proof -
  have "insert f F = ran (m(j \<mapsto> f))" using assms(1,2) by (simp add: owns_def)
  moreover have "m i \<noteq> Some f" for i using assms(1,3) by (auto simp: owns_def ran_def)
  ultimately show ?thesis using assms(1) by (auto simp: owns_def)
qed

lemma owns_drop:
  assumes "owns m F" "m i = Some f"
  shows "owns (m(i := None)) (F - {f})"
proof -
  have inj: "\<And>i j f. m i = Some f \<Longrightarrow> m j = Some f \<Longrightarrow> i = j" using assms(1) unfolding owns_def by blast
  have "x \<in> F - {f} \<longleftrightarrow> (\<exists>j. j \<noteq> i \<and> m j = Some x)" for x
    using assms inj by (auto simp: owns_def ran_def) (metis option.inject)
  then have "F - {f} = ran (m(i := None))" by (auto simp: ran_def)
  then show ?thesis using inj by (auto simp: owns_def)
qed

lemma owns_mem: "owns m F \<Longrightarrow> m i = Some f \<Longrightarrow> f \<in> F"
  unfolding owns_def by (auto simp: ran_def)

lemma fd_of_upd: "fd_of \<circ> objs(i := x) = (fd_of \<circ> objs)(i := fd_of x)"
  by (auto simp: fun_eq_iff)

lemma fd_of_simps [simp]: "fd_of None = None" "fd_of (Some k) = (if sk_closed k then None else Some (sk_fd k))"
  by (simp_all add: fd_of_def)

text \<open>Creating and closing.\<close>

lemma effect_close:
  assumes "sys_call (C_close fd) s = Some (a, t)" "fd \<in> F"
  shows "effect F s t (\<lambda>G. G = F - {fd} \<and> a_ret a = 0)"
  using assms(2) by (intro fds.effectI[OF sys_callD(1)[OF assms(1)]]) (auto simp: sane_step_def proper_step_def fd_step_def)

lemma effect_create:
  assumes "sys_call c s = Some (a, t)" "creates c" "\<And>fd. call_fd c = Some fd \<Longrightarrow> fd \<in> F \<and> c \<noteq> C_close fd"
  shows "effect F s t (\<lambda>G. a_ret a \<notin> F \<and> G = (if a_ret a < 0 then F else insert (a_ret a) F))"
  using assms(2,3) by (intro fds.effectI[OF sys_callD(1)[OF assms(1)]]) (auto simp: sane_step_def proper_step_def fd_step_def)

lemma close_effect:
  assumes "zsocket_close e (Some sk) s = Some (r, sp', t)" "\<not> sk_closed sk" "sk_fd sk \<in> F" "sk_inv sk"
  shows "effect F s t (\<lambda>G. G = F - {sk_fd sk} \<and> (\<exists>k. sp' = Some k \<and> sk_closed k \<and> sk_inv k))"
proof -
  obtain a u where c: "sys_call (C_close (sk_fd sk)) s = Some (a, u)"
    using assms(1,2) by (auto simp: zsocket_close_def zsys_close_def split: Option.bind_splits)
  have t: "t = (if a_ret a = 0 then u else sk_report_net e M_Close u)"
    using assms(1,2) c by (simp add: zsocket_close_def zsys_close_def split: if_splits)
  let ?k = "sk\<lparr>sk_connected := False, sk_closed := True, sk_listening := False, sk_fd := - 1\<rparr>"
  have "a_ret a = 0 \<Longrightarrow> sp' = Some ?k"
    using assms(1,2) c by (simp add: zsocket_close_def zsys_close_def)
  moreover have "sk_closed ?k" "sk_inv ?k" using assms(4) by (simp_all add: sk_inv_def)
  ultimately have "effect F s u (\<lambda>G. G = F - {sk_fd sk} \<and> (\<exists>k. sp' = Some k \<and> sk_closed k \<and> sk_inv k))"
    by (intro fds.effect_mono[OF effect_close[OF c assms(3)]]) blast
  then show ?thesis by (simp add: t)
qed

lemma free_effect:
  assumes "zsocket_free e (Some sk) s = Some t" "sk_inv sk" "\<not> sk_closed sk \<Longrightarrow> sk_fd sk \<in> F"
  shows "effect F s t (\<lambda>G. G = (if sk_closed sk then F else F - {sk_fd sk}))"
proof -
  obtain r sp' u where c: "zsocket_close e (Some sk) (s\<lparr>err := None\<rparr>) = Some (r, sp', u)" and t: "t = u\<lparr>err := err s\<rparr>"
    using assms(1) by (auto simp: zsocket_free_def split: Option.bind_splits)
  show ?thesis
  proof (cases "sk_closed sk")
    case True
    then have "u = s\<lparr>err := None\<rparr>" using c by (simp add: zsocket_close_def)
    then show ?thesis using True by (simp add: t fds.effect_refl)
  next
    case False
    then show ?thesis using close_effect[OF c False assms(3)[OF False] assms(2)] by (auto simp: t intro: fds.effect_mono)
  qed
qed

text \<open>A constructor: the new object owns a new descriptor, or nothing has changed.\<close>

definition new_owner :: "int set \<Rightarrow> PSocket option \<Rightarrow> int set \<Rightarrow> bool" where
  "new_owner F x G \<longleftrightarrow>
     (case x of None \<Rightarrow> G = F | Some k \<Rightarrow> \<not> sk_closed k \<and> sk_inv k \<and> sk_fd k \<notin> F \<and> G = insert (sk_fd k) F)"

lemma new_effect:
  assumes "zsocket_new e fam ty proto s = Some (x, t)"
  shows "effect F s t (new_owner F x)"
proof (cases "\<exists>nt. native_type ty = Some nt \<and> fam \<noteq> P_SOCKET_FAMILY_UNKNOWN \<and> proto \<noteq> P_SOCKET_PROTOCOL_UNKNOWN \<and> obj_mem e")
  case False
  then have "x = None \<and> (\<exists>c n m. t = sk_report e c n m s)"
    using assms by (cases ty) (auto simp: zsocket_new_def split: if_splits)
  then show ?thesis by (auto simp: new_owner_def intro!: fds.effect_refl)
next
  case True
  then obtain nt where g: "native_type ty = Some nt" "fam \<noteq> P_SOCKET_FAMILY_UNKNOWN" "proto \<noteq> P_SOCKET_PROTOCOL_UNKNOWN" "obj_mem e"
      "ty \<noteq> P_SOCKET_TYPE_UNKNOWN" by (cases ty) auto
  then obtain a s1 where c: "sys_call (C_socket (family_number fam) (nt OR SOCK_CLOEXEC) (protocol_number proto)) s = Some (a, s1)"
    using assms by (auto simp: zsocket_new_def split: Option.bind_splits)
  note cre = effect_create[OF c, where F = F, simplified]
  show ?thesis
  proof (cases "a_ret a < 0")
    case True
    then have "x = None" "effect F s t (new_owner F x) = effect F s s1 (new_owner F x)" using assms g c by (auto simp: zsocket_new_def)
    then show ?thesis using cre True by (auto simp: new_owner_def intro: fds.effect_mono)
  next
    case False
    let ?fd = "a_ret a"
    obtain s2 ok s3 where m: "set_cloexec ?fd s1 = Some s2" "pzsocket_set_fd_blocking e ?fd False s2 = Some (ok, s3)"
      using assms g c False by (auto simp: zsocket_new_def Let_def split: Option.bind_splits)
    have tk: "talks ?fd s1 s3" using m cloexec_talks blocking_talks fds.talks_trans by blast
    have e3: "effect F s s3 (\<lambda>G. ?fd \<notin> F \<and> G = insert ?fd F)"
      by (rule fds.effect_trans[OF cre]) (use False tk in \<open>auto intro: fds.effect_talks fds.talks_reach\<close>)
    show ?thesis
    proof (cases ok)
      case True
      let ?k = "socket_zero\<lparr>sk_fd := ?fd, sk_timeout := 0, sk_blocking := True, sk_family := fam, sk_protocol := proto, sk_type := ty,
        sk_listen_backlog := P_SOCKET_DEFAULT_BACKLOG\<rparr>"
      have "t = s3" "x = Some ?k"
        using assms g c False m True by (auto simp: zsocket_new_def zsocket_set_listen_backlog_def socket_zero_def)
      moreover have "\<not> sk_closed ?k" "sk_inv ?k" "sk_fd ?k = ?fd" using False by (simp_all add: sk_inv_def socket_zero_def)
      ultimately show ?thesis using e3 by (auto simp: new_owner_def intro: fds.effect_mono)
    next
      case nok: False
      let ?sk = "socket_zero\<lparr>sk_fd := ?fd\<rparr>"
      have x: "x = None" and fr: "zsocket_free e (Some ?sk) s3 = Some t"
        using assms g c False m nok by (auto simp: zsocket_new_def split: Option.bind_splits)
      have sk: "sk_inv ?sk" "\<not> sk_closed ?sk" "sk_fd ?sk = ?fd" using False by (simp_all add: sk_inv_def socket_zero_def)
      have fe: "effect G s3 t (\<lambda>H. H = G - {?fd})" if "?fd \<in> G" for G
        using free_effect[OF fr sk(1), of G] sk(2,3) that by simp
      show ?thesis
      proof (rule fds.effect_trans[OF e3])
        show "effect G s3 t (new_owner F x)" if "?fd \<notin> F \<and> G = insert ?fd F" for G
          using fe[of G] that x by (auto simp: new_owner_def intro: fds.effect_mono)
        show "\<exists>k. consumes s3 k t" using fe[of "{?fd}"] by (auto intro: fds.effect_reach)
      qed
    qed
  qed
qed

lemma failed_accepts:
  "\<forall>x \<in> set l. quiet fd (fst x) \<or> fst x = C_accept fd \<and> a_ret (snd x) < 0 \<Longrightarrow> fd \<in> F \<Longrightarrow> opened F l = F \<and> proper F l"
proof (induction l)
  case (Cons x l)
  have "fd_step F x = F \<and> proper_step F x"
  proof (cases "quiet fd (fst x)")
    case True
    then show ?thesis using fds.quiet_steps[of "[x]" fd F] Cons.prems(2) by simp
  next
    case False
    then show ?thesis using Cons.prems by (auto simp: fd_step_def proper_step_def)
  qed
  then show ?case using Cons by simp
qed simp

lemma accept_loop_effect:
  assumes "io_loop e sk cond (C_accept (sk_fd sk)) m s = Some (y, u)" "\<not> sk_closed sk" "sk_fd sk \<in> F"
  shows "effect F s u (\<lambda>G. case y of None \<Rightarrow> G = F | Some a \<Rightarrow> 0 \<le> a_ret a \<and> a_ret a \<notin> F \<and> G = insert (a_ret a) F)"
proof -
  let ?p = "poll_call sk cond" and ?c = "C_accept (sk_fd sk)"
  obtain l x where con: "consumes s (l @ [x]) u" and ends: "loop_ends e sk ?p ?c l x" and res: "loop_result e ?p ?c m s x (y, u)"
    using io_loop_trace[OF assms(2) call_poll_ne(5) assms(1)] by auto
  have q: "quiet (sk_fd sk) ?p" by (simp add: poll_call_def)
  have "quiet (sk_fd sk) (fst z) \<or> fst z = ?c \<and> a_ret (snd z) < 0" if "z \<in> set l" for z
    using that ends q by (auto simp: loop_ends_def leads_on_def goes_on_def)
  then have l: "opened F l = F \<and> proper F l" using failed_accepts[of l "sk_fd sk" F] assms(3) by blast
  have x: "fst x = ?c \<or> fst x = ?p" using ends by (auto simp: loop_ends_def first_call_def next_call_def split: if_splits)
  show ?thesis
  proof (rule fds.effectI[OF con])
    assume "sane F (l @ [x])"
    then have "sane_step F x" using l by simp
    have "proper_step F x \<and> (case y of None \<Rightarrow> fd_step F x = F | Some a \<Rightarrow> 0 \<le> a_ret a \<and> a_ret a \<notin> F \<and> fd_step F x = insert (a_ret a) F)"
    proof (cases "fst x = ?c")
      case True
      have "y = (if 0 \<le> a_ret (snd x) then Some (snd x) else None)" using res True by (simp add: loop_result_def)
      moreover have "a_ret (snd x) \<notin> F" using \<open>sane_step F x\<close> True by (simp add: sane_step_def)
      ultimately show ?thesis using True assms(3) by (simp add: fd_step_def proper_step_def)
    next
      case False
      then have "y = None" using res by (simp add: loop_result_def)
      then show ?thesis using False x fds.quiet_steps[of "[x]" "sk_fd sk" F] q assms(3) by simp
    qed
    with l show "proper F (l @ [x]) \<and> (case y of None \<Rightarrow> opened F (l @ [x]) = F | Some a \<Rightarrow> 0 \<le> a_ret a \<and> a_ret a \<notin> F \<and> opened F (l @ [x]) = insert (a_ret a) F)"
      by (simp split: option.splits)
  qed
qed

lemma accept_effect:
  assumes acc: "zsocket_accept e (Some sk) s = Some (x, t)" and F: "\<not> sk_closed sk \<Longrightarrow> sk_fd sk \<in> F"
  shows "effect F s t (new_owner F x)"
proof (cases "sk_closed sk")
  case True
  then show ?thesis using acc by (auto simp: zsocket_accept_def pzsocket_check_def new_owner_def intro!: fds.effect_refl)
next
  case False
  obtain y u where l: "io_loop e sk P_SOCKET_IO_CONDITION_POLLIN (C_accept (sk_fd sk)) M_Accept s = Some (y, u)"
    using acc False by (auto simp: zsocket_accept_def pzsocket_check_def split: Option.bind_splits)
  note le = accept_loop_effect[OF l False F[OF False]]
  show ?thesis
  proof (cases y)
    case None
    then have "x = None" "t = u" using acc False l by (auto simp: zsocket_accept_def pzsocket_check_def)
    then show ?thesis using le None by (auto simp: new_owner_def intro: fds.effect_mono)
  next
    case (Some a)
    obtain v r w where m: "set_cloexec (a_ret a) u = Some v" "zsocket_new_from_fd e (a_ret a) v = Some (r, w)"
      using acc False l Some by (auto simp: zsocket_accept_def pzsocket_check_def split: Option.bind_splits)
    have tk: "talks (a_ret a) u w" using m cloexec_talks new_from_fd_talks fds.talks_trans by blast
    have ew: "effect F s w (\<lambda>G. 0 \<le> a_ret a \<and> a_ret a \<notin> F \<and> G = insert (a_ret a) F)"
      by (rule fds.effect_trans[OF le]) (use Some tk in \<open>auto intro: fds.effect_talks fds.talks_reach\<close>)
    show ?thesis
    proof (cases r)
      case (Some k)
      then have "t = w" and x: "x = Some (k\<lparr>sk_protocol := sk_protocol sk\<rparr>)"
        using acc False l \<open>y = Some a\<close> m by (auto simp: zsocket_accept_def pzsocket_check_def)
      moreover have "sk_inv (k\<lparr>sk_protocol := sk_protocol sk\<rparr>) \<and> \<not> sk_closed k \<and> sk_fd k = a_ret a"
        using new_from_fd_inv[of e "a_ret a" v k w] m(2) Some by (auto simp: sk_inv_def)
      ultimately show ?thesis using ew by (auto simp: new_owner_def intro: fds.effect_mono)
    next
      case None
      then obtain b where c: "sys_call (C_close (a_ret a)) w = Some (b, t)" and x: "x = None"
        using acc False l \<open>y = Some a\<close> m by (auto simp: zsocket_accept_def pzsocket_check_def zsys_close_def split: Option.bind_splits)
      show ?thesis
      proof (rule fds.effect_trans[OF ew])
        show "effect G w t (new_owner F x)" if "0 \<le> a_ret a \<and> a_ret a \<notin> F \<and> G = insert (a_ret a) F" for G
          using effect_close[OF c, of G] that x by (auto simp: new_owner_def intro: fds.effect_mono)
        show "\<exists>k. consumes w k t" using sys_callD(1)[OF c] by blast
      qed
    qed
  qed
qed

lemma apply_None: "sk_apply e op None s = Some (ok, sp', acc, t) \<Longrightarrow> sp' = None \<and> acc = None \<and> consumes s [] t"
  by (cases op)
    (auto simp: zsocket_bind_def zsocket_connect_def zsocket_listen_def zsocket_accept_def zsocket_receive_def zsocket_receive_from_def
      zsocket_send_def zsocket_send_to_def zsocket_close_def zsocket_shutdown_def zsocket_io_condition_wait_def
      zsocket_check_connect_result_def zsocket_set_buffer_size_def zsocket_get_local_address_def zsocket_get_remote_address_def
      get_address_def zsocket_set_keepalive_def zsocket_set_blocking_def zsocket_set_timeout_def zsocket_set_listen_backlog_def
      split: if_splits)

text \<open>An operation on an object that is in order, with its descriptor open.\<close>

definition op_outcome :: "int set \<Rightarrow> PSocket \<Rightarrow> PSocket option \<Rightarrow> PSocket option \<Rightarrow> int set \<Rightarrow> bool" where
  "op_outcome F sk sp' acc G \<longleftrightarrow>
     (\<exists>k. sp' = Some k \<and> sk_inv k \<and>
        (sk_closed k = sk_closed sk \<and> sk_fd k = sk_fd sk \<and> new_owner F acc G \<or>
         \<not> sk_closed sk \<and> sk_closed k \<and> acc = None \<and> G = F - {sk_fd sk}))"

lemma keeps_effect:
  assumes "keeps sk sp' s t" "sk_inv sk" "\<not> sk_closed sk \<Longrightarrow> sk_fd sk \<in> F" "- 1 \<notin> F"
  shows "effect F s t (op_outcome F sk sp' None)"
proof -
  obtain k where k: "sp' = Some k" "sk_fd k = sk_fd sk" "sk_closed k = sk_closed sk" "0 \<le> sk_timeout k"
    and cl: "sk_closed sk \<Longrightarrow> sk_listening k = sk_listening sk \<and>
        (sk_connected k = sk_connected sk \<or> (\<exists>a. consumes s [(C_getsockopt (sk_fd sk) SO_ERROR, a)] t \<and> \<not> a_ret a < 0))"
    using assms(1,2) by (auto simp: keeps_def sk_inv_def)
  have fd: "usable (sk_fd sk) F" using assms(2,3) by (auto simp: sk_inv_def usable_def split: if_splits)
  have "talks (sk_fd sk) s t" using assms(1) by (simp add: keeps_def)
  then obtain l where l: "consumes s l t" "opened F l = F" "proper F l" using fds.talks_effect[OF _ fd] by blast
  show ?thesis
  proof (rule fds.effectI[OF l(1)])
    assume sane: "sane F l"
    have "sk_connected k = sk_connected sk" if cls: "sk_closed sk"
    proof (rule ccontr)
      assume "sk_connected k \<noteq> sk_connected sk"
      then obtain a where a: "consumes s [(C_getsockopt (sk_fd sk) SO_ERROR, a)] t" "\<not> a_ret a < 0" using cl[OF cls] by blast
      have "l = [(C_getsockopt (sk_fd sk) SO_ERROR, a)]" by (rule consumes_unique[OF l(1) a(1)])
      moreover have "sk_fd sk = - 1" using cls assms(2) by (simp add: sk_inv_def)
      ultimately show False using sane a(2) assms(4) by (simp add: sane_step_def)
    qed
    then have "sk_inv k" using k cl assms(2) by (auto simp: sk_inv_def)
    then show "proper F l \<and> op_outcome F sk sp' None (opened F l)" using l k by (auto simp: op_outcome_def new_owner_def)
  qed
qed

lemma apply_effect:
  assumes "sk_apply e op (Some sk) s = Some (ok, sp', acc, t)" "sk_inv sk" "\<not> sk_closed sk \<Longrightarrow> sk_fd sk \<in> F" "- 1 \<notin> F"
  shows "effect F s t (op_outcome F sk sp' acc)"
proof -
  consider "op = Op_Accept" | "op = Op_Close" | "op \<noteq> Op_Accept" "op \<noteq> Op_Close" by blast
  then show ?thesis
  proof cases
    case 1
    then have "zsocket_accept e (Some sk) s = Some (acc, t)" "sp' = Some sk" using assms(1) by auto
    then show ?thesis using accept_effect[of e sk s acc t F] assms(2,3) by (auto simp: op_outcome_def intro: fds.effect_mono)
  next
    case 2
    then have c: "zsocket_close e (Some sk) s = Some (ok, sp', t)" "acc = None" using assms(1) by auto
    show ?thesis
    proof (cases "sk_closed sk")
      case True
      then show ?thesis using c assms(2) by (auto simp: zsocket_close_def op_outcome_def new_owner_def intro!: fds.effect_refl)
    next
      case False
      have "effect F s t (\<lambda>G. G = F - {sk_fd sk} \<and> (\<exists>k. sp' = Some k \<and> sk_closed k \<and> sk_inv k))"
        by (rule close_effect[OF c(1) False assms(3)[OF False] assms(2)])
      then show ?thesis by (rule fds.effect_mono) (use False c(2) in \<open>auto simp: op_outcome_def\<close>)
    qed
  next
    case 3
    then have "acc = None" "keeps sk sp' s t" using apply_keeps[OF assms(1)] by blast+
    then show ?thesis using keeps_effect[of sk sp' s t F] assms(2-4) by simp
  qed
qed

lemma objs_okD:
  assumes "objs_ok objs F"
  shows "objs i = Some k \<Longrightarrow> sk_inv k" "objs i = Some k \<Longrightarrow> \<not> sk_closed k \<Longrightarrow> sk_fd k \<in> F" "- 1 \<notin> F"
proof -
  have inv: "sk_inv k" if "objs i = Some k" for i k using assms that by (simp add: objs_ok_def)
  then show "objs i = Some k \<Longrightarrow> sk_inv k" .
  have ow: "owns (fd_of \<circ> objs) F" using assms by (simp add: objs_ok_def)
  then show "objs i = Some k \<Longrightarrow> \<not> sk_closed k \<Longrightarrow> sk_fd k \<in> F" by (auto intro: owns_mem[of _ _ i])
  show "- 1 \<notin> F"
  proof
    assume "- 1 \<in> F"
    then obtain i k where "objs i = Some k" "\<not> sk_closed k" "sk_fd k = - 1"
      using ow by (auto simp: owns_def ran_def fd_of_def split: option.splits if_splits)
    then show False using inv[of i k] by (simp add: sk_inv_def)
  qed
qed

text \<open>A new object in an empty variable, a new state of an object, and an object that is closed or freed.\<close>

lemma objs_ok_new:
  assumes "objs_ok objs F" "objs j = None" "new_owner F x G"
  shows "objs_ok (objs(j := x)) G"
proof (cases x)
  case None
  then show ?thesis using assms by (simp add: new_owner_def fun_upd_idem)
next
  case (Some k)
  then have k: "\<not> sk_closed k" "sk_inv k" "sk_fd k \<notin> F" "G = insert (sk_fd k) F" using assms(3) by (simp_all add: new_owner_def)
  have "owns ((fd_of \<circ> objs)(j \<mapsto> sk_fd k)) G"
    unfolding k(4) using assms(1,2) k(3) by (intro owns_new) (simp_all add: objs_ok_def)
  then show ?thesis using assms(1) Some k(1,2) unfolding objs_ok_def fd_of_upd by simp
qed

lemma objs_ok_upd:
  assumes "objs_ok objs F" "objs i = Some sk" "sk_inv k" "sk_closed k = sk_closed sk" "sk_fd k = sk_fd sk"
  shows "objs_ok (objs(i := Some k)) F"
proof -
  have "(fd_of \<circ> objs)(i := fd_of (Some k)) = fd_of \<circ> objs" using assms(2,4,5) by (intro fun_upd_idem) simp
  then show ?thesis using assms(1,3) unfolding objs_ok_def fd_of_upd by simp
qed

lemma objs_ok_drop:
  assumes "objs_ok objs F" "objs i = Some sk" "fd_of x = None" "\<And>k. x = Some k \<Longrightarrow> sk_inv k"
  shows "objs_ok (objs(i := x)) (if sk_closed sk then F else F - {sk_fd sk})"
proof -
  have ow: "owns (fd_of \<circ> objs) F" using assms(1) by (simp add: objs_ok_def)
  have "owns ((fd_of \<circ> objs)(i := None)) (if sk_closed sk then F else F - {sk_fd sk})"
    using ow owns_drop[OF ow, of i "sk_fd sk"] assms(2) by (simp add: fun_upd_idem)
  then show ?thesis using assms unfolding objs_ok_def fd_of_upd by simp
qed

lemma objs_ok_outcome:
  assumes "objs_ok objs F" "objs i = Some sk" "objs j = None" "op_outcome F sk sp' acc G"
  shows "objs_ok (objs(i := sp', j := acc)) G"
proof -
  obtain k where k: "sp' = Some k" "sk_inv k"
    and c: "sk_closed k = sk_closed sk \<and> sk_fd k = sk_fd sk \<and> new_owner F acc G \<or>
      \<not> sk_closed sk \<and> sk_closed k \<and> acc = None \<and> G = F - {sk_fd sk}"
    using assms(4) by (auto simp: op_outcome_def)
  have ne: "i \<noteq> j" using assms(2,3) by auto
  from c show ?thesis
  proof
    assume h: "sk_closed k = sk_closed sk \<and> sk_fd k = sk_fd sk \<and> new_owner F acc G"
    then have "objs_ok (objs(i := sp')) F" using objs_ok_upd[OF assms(1,2) k(2)] k(1) by simp
    then show ?thesis using objs_ok_new[of "objs(i := sp')" F j acc G] assms(3) ne h by simp
  next
    assume h: "\<not> sk_closed sk \<and> sk_closed k \<and> acc = None \<and> G = F - {sk_fd sk}"
    then have "objs_ok (objs(i := sp')) G" using objs_ok_drop[OF assms(1,2), of sp'] k by auto
    then show ?thesis using h assms(3) ne by (simp add: fun_upd_idem)
  qed
qed

lemma step_effect:
  assumes "prog_step e op (objs, s) = Some (objs', t)" "objs_ok objs F"
  shows "effect F s t (objs_ok objs')"
proof (cases op)
  case (Pr_New j fam ty proto)
  show ?thesis
  proof (cases "objs j")
    case None
    then obtain x where "zsocket_new e fam ty proto s = Some (x, t)" "objs' = objs(j := x)" using assms(1) Pr_New by auto
    then show ?thesis using new_effect[of e fam ty proto s x t F] objs_ok_new[OF assms(2) None] by (auto intro: fds.effect_mono)
  qed (use assms Pr_New in \<open>auto intro: fds.effect_refl\<close>)
next
  case (Pr_Op i op' j)
  show ?thesis
  proof (cases "objs j")
    case j: None
    then obtain ok sp' acc where a: "sk_apply e op' (objs i) s = Some (ok, sp', acc, t)" "objs' = objs(i := sp', j := acc)"
      using assms(1) Pr_Op by auto
    show ?thesis
    proof (cases "objs i")
      case None
      then have "objs' = objs" "consumes s [] t" using apply_None[of e op' s] a j by (auto simp: fun_upd_idem)
      then show ?thesis using assms(2) by (intro fds.effectI[of s "[]" t]) auto
    next
      case (Some sk)
      have "effect F s t (op_outcome F sk sp' acc)"
        using apply_effect[of e op' sk s ok sp' acc t F] a(1) Some objs_okD[OF assms(2)] by metis
      then show ?thesis using objs_ok_outcome[OF assms(2) Some j] a(2) by (auto intro: fds.effect_mono)
    qed
  qed (use assms Pr_Op in \<open>auto intro: fds.effect_refl\<close>)
next
  case (Pr_Free i)
  then have f: "zsocket_free e (objs i) s = Some t" "objs' = objs(i := None)" using assms(1) by auto
  show ?thesis
  proof (cases "objs i")
    case None
    then show ?thesis using f assms(2) by (auto simp: zsocket_free_def fun_upd_idem intro: fds.effect_refl)
  next
    case (Some sk)
    have "effect F s t (\<lambda>G. G = (if sk_closed sk then F else F - {sk_fd sk}))"
      using free_effect[of e sk s t F] f(1) Some objs_okD[OF assms(2)] by metis
    then show ?thesis using objs_ok_drop[OF assms(2) Some, of None] f(2) by (auto intro: fds.effect_mono)
  qed
qed

lemma apply_reach:
  assumes "sk_apply e op sp s = Some (ok, sp', acc, t)"
  shows "\<exists>l. consumes s l t"
proof (cases sp)
  case None
  then show ?thesis using apply_None[of e op s] assms by blast
next
  case (Some sk)
  consider "op = Op_Accept" | "op = Op_Close" | "op \<noteq> Op_Accept" "op \<noteq> Op_Close" by blast
  then show ?thesis
  proof cases
    case 1
    then show ?thesis using accept_effect[of e sk s acc t "{sk_fd sk}"] assms Some by (auto intro: fds.effect_reach)
  next
    case 2
    then show ?thesis using assms Some
      by (auto simp: zsocket_close_def zsys_close_def split: op_splits) (blast dest: sys_callD(1))+
  next
    case 3
    then show ?thesis using apply_keeps[of e op sk s] assms Some by (auto simp: keeps_def intro: fds.talks_reach)
  qed
qed

lemma step_reach: "prog_step e op (objs, s) = Some (objs', t) \<Longrightarrow> \<exists>l. consumes s l t"
proof (cases op)
  case (Pr_Free i)
  assume "prog_step e op (objs, s) = Some (objs', t)"
  then show ?thesis using Pr_Free
    by (auto simp: zsocket_free_def zsocket_close_def zsys_close_def split: op_splits)
      (metis consumes_err(1) sys_callD(1))+
qed (auto dest: apply_reach fds.effect_reach[OF new_effect[where F = "{}"]] split: if_splits)

lemma run_effect:
  "prog_run e ops (objs, s) = Some (objs', t) \<Longrightarrow>
   (\<exists>l. consumes s l t) \<and> (objs_ok objs F \<longrightarrow> effect F s t (objs_ok objs'))"
proof (induction ops arbitrary: objs s F)
  case (Cons op ops)
  obtain objs1 s1 where st: "prog_step e op (objs, s) = Some (objs1, s1)" and run: "prog_run e ops (objs1, s1) = Some (objs', t)"
    using Cons.prems by (auto split: option.splits)
  note IH = Cons.IH[OF run]
  have "\<exists>l. consumes s l t" using step_reach[OF st] IH consumes_trans by blast
  moreover have "objs_ok objs F \<Longrightarrow> effect F s t (objs_ok objs')"
    using fds.effect_trans[OF step_effect[OF st]] IH by blast
  ultimately show ?case by blast
qed (auto intro: fds.effect_refl)


text \<open>A socket is made, its descriptor cannot be made non-blocking and is closed; a second one is made, closed and freed.\<close>

definition answers_sample :: "answer list" where
  "answers_sample = [ans 3 0 [], ans 1 0 [], ans 2 0 [], ans (- 1) 9 [], ans 0 0 [],
     ans 3 0 [], ans 1 0 [], ans 2 0 [], ans 0 0 [], ans 0 0 []]"

definition prog_sample :: "prog_op list" where
  "prog_sample = [Pr_New 0 P_SOCKET_FAMILY_INET P_SOCKET_TYPE_STREAM P_SOCKET_PROTOCOL_TCP,
     Pr_New 0 P_SOCKET_FAMILY_INET P_SOCKET_TYPE_STREAM P_SOCKET_PROTOCOL_TCP, Pr_Op 0 Op_Close 1]"


end
