(* ===== verification/PSemaphore.thy ===== *)
theory PSemaphore
  imports PIPC Resource_Log
begin

text \<open>
  Named semaphores on POSIX systems, \<^verbatim>\<open>src/src/os/posix/psemaphore-posix.c\<close>: the object that opens or
  creates a semaphore of the system and removes what it owns. A semaphore of the system is the
  address that \<^verbatim>\<open>sem_open\<close> returns, null when it fails.
\<close>

section \<open>Types\<close>

text \<open>The calls of this file and of the shared memory segments; keys may be null after a failed allocation.\<close>

datatype ipc_call =
    I_sem_open "string option" bool int
  | I_sem_close int
  | I_sem_unlink "string option"
  | I_sem_wait int
  | I_sem_post int
  | I_shm_open "string option" bool
  | I_shm_unlink "string option"
  | I_fstat int
  | I_ftruncate int int
  | I_mmap int psize bool
  | I_munmap int psize
  | I_close int

type_synonym ip_sys = "ipc_call sys"

record ip_env = sys_env +
  name_mem :: bool
  ip_be :: bool
  ip_ipc :: ipc_env

datatype ip_msg = I_Argument | I_Sem_Open | I_Sem_Memory | I_Sem_Wait | I_Sem_Post | I_Shm_Open | I_Fstat | I_Ftruncate | I_Mmap
  | I_Shm_Memory | I_Shm_Name

primrec ip_text :: "ip_msg \<Rightarrow> string" where
  "ip_text I_Argument = ''Invalid input argument''"
| "ip_text I_Sem_Open = ''Failed to call sem_open() to create semaphore''"
| "ip_text I_Sem_Memory = ''Failed to allocate memory for semaphore''"
| "ip_text I_Sem_Wait = ''Failed to call sem_wait() on semaphore''"
| "ip_text I_Sem_Post = ''Failed to call sem_post() on semaphore''"
| "ip_text I_Shm_Open = ''Failed to call shm_open() to create memory segment''"
| "ip_text I_Fstat = ''Failed to call fstat() to get memory segment size''"
| "ip_text I_Ftruncate = ''Failed to call ftruncate() to set memory segment size''"
| "ip_text I_Mmap = ''Failed to call mmap() to map memory segment''"
| "ip_text I_Shm_Memory = ''Failed to allocate memory for shared segment''"
| "ip_text I_Shm_Name = ''Failed to allocate memory for segment name''"

definition ip_report :: "ip_env \<Rightarrow> int \<Rightarrow> ip_msg \<Rightarrow> ip_sys \<Rightarrow> ip_sys" where
  "ip_report e c m s = report (sys_env.truncate e) c 0 (ip_text m) s"

definition ip_report_last :: "ip_env \<Rightarrow> ip_msg \<Rightarrow> ip_sys \<Rightarrow> ip_sys" where
  "ip_report_last e m s =
     report (sys_env.truncate e) (zerror_get_last_ipc (names e) (errno s)) (zerror_get_last_system (errno s)) (ip_text m) s"

text \<open>A name of the error numbers, as in \<^verbatim>\<open>zerror_get_last_system () == EEXIST\<close>.\<close>

definition errno_is :: "ip_env \<Rightarrow> string \<Rightarrow> int \<Rightarrow> bool" where
  "errno_is e nm n \<longleftrightarrow> names e nm = Some (zerror_get_last_system n)"

datatype PSemaphoreAccessMode = P_SEM_ACCESS_OPEN | P_SEM_ACCESS_CREATE

record PSemaphore =
  sem_created :: bool
  sem_key :: "string option"
  sem_hdl :: int
  sem_mode :: PSemaphoreAccessMode
  sem_init :: int

definition P_SEM_INVALID_HDL :: int where "P_SEM_INVALID_HDL = 0"

section \<open>Operations\<close>

text \<open>A call that is made only under a condition and whose failure is only logged.\<close>

definition call_if :: "bool \<Rightarrow> ipc_call \<Rightarrow> ip_sys \<Rightarrow> ip_sys option" where
  "call_if b c s = (if b then map_option snd (sys_call c s) else Some s)"

definition pzsemaphore_clean_handle :: "PSemaphore \<Rightarrow> ip_sys \<Rightarrow> (PSemaphore \<times> ip_sys) option" where
  "pzsemaphore_clean_handle sem s = do {
     s1 \<leftarrow> call_if (sem_hdl sem \<noteq> P_SEM_INVALID_HDL) (I_sem_close (sem_hdl sem)) s;
     s2 \<leftarrow> call_if (sem_hdl sem \<noteq> P_SEM_INVALID_HDL \<and> sem_created sem) (I_sem_unlink (sem_key sem)) s1;
     Some (sem\<lparr>sem_created := False, sem_hdl := P_SEM_INVALID_HDL\<rparr>, s2)
   }"

text \<open>The loop around \<^verbatim>\<open>sem_open\<close>; the flag \<open>excl\<close> stands for \<^verbatim>\<open>O_CREAT | O_EXCL\<close>.\<close>

definition sem_open_loop :: "ip_env \<Rightarrow> string option \<Rightarrow> bool \<Rightarrow> int \<Rightarrow> ip_sys \<Rightarrow> (int \<times> ip_sys) option" where
  "sem_open_loop e key excl v s = do {
     (a, t) \<leftarrow> retry (\<lambda>a. a_ret a = P_SEM_INVALID_HDL \<and> errno_is e ''EINTR'' (a_errno a)) (I_sem_open key excl v) s;
     Some (a_ret a, t)
   }"

text \<open>The first part of the function: the semaphore is made, or the one that exists is opened.\<close>

definition sem_opened :: "ip_env \<Rightarrow> PSemaphore \<Rightarrow> ip_sys \<Rightarrow> (PSemaphore \<times> ip_sys) option" where
  "sem_opened e sem s = do {
     (h, s1) \<leftarrow> sem_open_loop e (sem_key sem) True (sem_init sem) s;
     if h = P_SEM_INVALID_HDL then
       (if errno_is e ''EEXIST'' (errno s1) then do {
          (v, t) \<leftarrow> (if sem_mode sem = P_SEM_ACCESS_CREATE
            then do { (a, u) \<leftarrow> sys_call (I_sem_unlink (sem_key sem)) s1; Some (sem_init sem, u) }
            else Some (0, s1));
          (h2, t2) \<leftarrow> sem_open_loop e (sem_key sem) False v t;
          Some (sem\<lparr>sem_hdl := h2\<rparr>, t2)
        }
        else Some (sem\<lparr>sem_hdl := h\<rparr>, s1))
     else Some (sem\<lparr>sem_hdl := h, sem_created := True\<rparr>, s1)
   }"

definition pzsemaphore_create_handle :: "ip_env \<Rightarrow> PSemaphore \<Rightarrow> ip_sys \<Rightarrow> (bool \<times> PSemaphore \<times> ip_sys) option" where
  "pzsemaphore_create_handle e sem s =
     (if sem_key sem = None then Some (False, sem, ip_report e P_ERROR_IPC_INVALID_ARGUMENT I_Argument s)
      else do {
        (sem1, s2) \<leftarrow> sem_opened e sem s;
        if sem_hdl sem1 = P_SEM_INVALID_HDL
        then do {
          (sem2, s3) \<leftarrow> pzsemaphore_clean_handle sem1 (ip_report_last e I_Sem_Open s2);
          Some (False, sem2, s3)
        }
        else Some (True, sem1, s2)
      })"

definition zsemaphore_free :: "PSemaphore option \<Rightarrow> ip_sys \<Rightarrow> ip_sys option" where
  "zsemaphore_free sp s =
     (case sp of None \<Rightarrow> Some s | Some sem \<Rightarrow> do { (sem', t) \<leftarrow> pzsemaphore_clean_handle sem s; Some t })"

definition P_SEM_SUFFIX :: string where "P_SEM_SUFFIX = ''_zsem_object''"

definition zsemaphore_new ::
    "ip_env \<Rightarrow> string option \<Rightarrow> int \<Rightarrow> PSemaphoreAccessMode \<Rightarrow> ip_sys \<Rightarrow> (PSemaphore option \<times> ip_sys) option" where
  "zsemaphore_new e name init_val mode s =
     (case name of
        None \<Rightarrow> Some (None, ip_report e P_ERROR_IPC_INVALID_ARGUMENT I_Argument s)
      | Some nm \<Rightarrow>
          if init_val < 0 then Some (None, ip_report e P_ERROR_IPC_INVALID_ARGUMENT I_Argument s)
          else if \<not> obj_mem e then Some (None, ip_report e P_ERROR_IPC_NO_RESOURCES I_Sem_Memory s)
          else if \<not> name_mem e then Some (None, ip_report e P_ERROR_IPC_NO_RESOURCES I_Sem_Memory s)
          else do {
            key \<leftarrow> zipc_get_platform_key (ip_be e) (ip_ipc e) (Some (nm @ P_SEM_SUFFIX)) True;
            (ok, sem, s1) \<leftarrow> pzsemaphore_create_handle e
              \<lparr>sem_created = False, sem_key = key, sem_hdl = 0, sem_mode = mode, sem_init = init_val\<rparr> s;
            if \<not> ok then do { s2 \<leftarrow> zsemaphore_free (Some sem) s1; Some (None, s2) }
            else Some (Some sem, s1)
          })"

definition zsemaphore_take_ownership :: "PSemaphore option \<Rightarrow> PSemaphore option" where
  "zsemaphore_take_ownership sp = map_option (\<lambda>sem. sem\<lparr>sem_created := True\<rparr>) sp"

definition zsemaphore_acquire :: "ip_env \<Rightarrow> PSemaphore option \<Rightarrow> ip_sys \<Rightarrow> (bool \<times> ip_sys) option" where
  "zsemaphore_acquire e sp s =
     (case sp of
        None \<Rightarrow> Some (False, ip_report e P_ERROR_IPC_INVALID_ARGUMENT I_Argument s)
      | Some sem \<Rightarrow> do {
          (a, t) \<leftarrow> retry (\<lambda>a. a_ret a = - 1 \<and> errno_is e ''EINTR'' (a_errno a)) (I_sem_wait (sem_hdl sem)) s;
          Some (a_ret a = 0, if a_ret a \<noteq> 0 then ip_report_last e I_Sem_Wait t else t)
        })"

definition zsemaphore_release :: "ip_env \<Rightarrow> PSemaphore option \<Rightarrow> ip_sys \<Rightarrow> (bool \<times> ip_sys) option" where
  "zsemaphore_release e sp s =
     (case sp of
        None \<Rightarrow> Some (False, ip_report e P_ERROR_IPC_INVALID_ARGUMENT I_Argument s)
      | Some sem \<Rightarrow> do {
          (a, t) \<leftarrow> sys_call (I_sem_post (sem_hdl sem)) s;
          Some (a_ret a = 0, if a_ret a \<noteq> 0 then ip_report_last e I_Sem_Post t else t)
        })"

section \<open>Resources\<close>

text \<open>
  What a process holds: handles of semaphores, descriptors, mappings with their size, and the names
  that it has put into the system.
\<close>

datatype resource = R_Sem int | R_Sem_Name "string option" | R_Fd int | R_Map int psize | R_Shm_Name "string option"

fun acquired :: "ipc_call \<Rightarrow> int \<Rightarrow> resource set" where
  "acquired (I_sem_open key excl v) r = (if r = 0 then {} else if excl then {R_Sem r, R_Sem_Name key} else {R_Sem r})"
| "acquired (I_shm_open key excl) r = (if r = - 1 then {} else if excl then {R_Fd r, R_Shm_Name key} else {R_Fd r})"
| "acquired (I_mmap fd n ro) r = (if r = - 1 then {} else {R_Map r n})"
| "acquired c r = {}"

fun released :: "ipc_call \<Rightarrow> resource set" where
  "released (I_sem_close h) = {R_Sem h}"
| "released (I_sem_unlink key) = {R_Sem_Name key}"
| "released (I_shm_unlink key) = {R_Shm_Name key}"
| "released (I_munmap a n) = {R_Map a n}"
| "released (I_close fd) = {R_Fd fd}"
| "released c = {}"

definition ip_step :: "resource set \<Rightarrow> ipc_call \<times> answer \<Rightarrow> resource set" where
  "ip_step F x = F \<union> acquired (fst x) (a_ret (snd x)) - (if a_ret (snd x) = 0 then released (fst x) else {})"

text \<open>A system that behaves: what is acquired was not held, and what is held can be released. A mapping is not at address 0.\<close>

definition ip_sane :: "resource set \<Rightarrow> ipc_call \<times> answer \<Rightarrow> bool" where
  "ip_sane F x \<longleftrightarrow>
     acquired (fst x) (a_ret (snd x)) \<inter> F = {} \<and> (released (fst x) \<inter> F \<noteq> {} \<longrightarrow> a_ret (snd x) = 0) \<and>
     (\<forall>fd n ro. fst x = I_mmap fd n ro \<longrightarrow> a_ret (snd x) \<noteq> 0)"

text \<open>
  A program that behaves gives back only handles, descriptors and mappings that it holds; unlinking a
  name that another process has made is allowed.
\<close>

definition sys_names :: "resource set" where
  "sys_names = range R_Sem_Name \<union> range R_Shm_Name"

lemma sys_names_simps [simp]:
  "R_Sem_Name key \<in> sys_names" "R_Shm_Name key \<in> sys_names" "R_Sem h \<notin> sys_names" "R_Fd fd \<notin> sys_names" "R_Map x n \<notin> sys_names"
  by (auto simp: sys_names_def)

definition ip_proper :: "resource set \<Rightarrow> ipc_call \<times> answer \<Rightarrow> bool" where
  "ip_proper F x \<longleftrightarrow> released (fst x) \<subseteq> F \<union> sys_names"

definition ip_quiet :: "unit \<Rightarrow> ipc_call \<Rightarrow> bool" where
  "ip_quiet k c \<longleftrightarrow> (\<forall>r. acquired c r = {}) \<and> released c = {}"

interpretation ipr: resource_log ip_step ip_sane ip_proper ip_quiet "\<lambda>k F. True"
  by unfold_locales (auto simp: ip_quiet_def ip_step_def ip_proper_def)

lemma ip_quiet_simps [simp]:
  "ip_quiet k (I_sem_wait h)" "ip_quiet k (I_sem_post h)" "ip_quiet k (I_fstat fd)" "ip_quiet k (I_ftruncate fd n)"
  by (simp_all add: ip_quiet_def)

abbreviation ip_effect :: "resource set \<Rightarrow> ip_sys \<Rightarrow> ip_sys \<Rightarrow> (resource set \<Rightarrow> bool) \<Rightarrow> bool" where
  "ip_effect \<equiv> ipr.effect"

lemma ip_effect_report [simp]:
  "ip_effect F s (ip_report e c m t) Q = ip_effect F s t Q" "ip_effect F s (ip_report_last e m t) Q = ip_effect F s t Q"
  "ip_effect F (ip_report e c m s) t Q = ip_effect F s t Q" "ip_effect F (ip_report_last e m s) t Q = ip_effect F s t Q"
  by (simp_all add: ip_report_def ip_report_last_def report_def)

text \<open>Single calls.\<close>

lemma effect_acquire:
  assumes "sys_call c s = Some (a, t)" "released c = {}"
  shows "ip_effect F s t (\<lambda>G. G = F \<union> acquired c (a_ret a) \<and> acquired c (a_ret a) \<inter> F = {} \<and>
    (\<forall>fd n ro. c = I_mmap fd n ro \<longrightarrow> a_ret a \<noteq> 0))"
  using assms(2) by (intro ipr.effect_call[OF assms(1)]) (auto simp: ip_sane_def ip_step_def ip_proper_def)

lemma effect_release:
  assumes "sys_call c s = Some (a, t)" "released c - sys_names \<subseteq> F" "\<And>r. acquired c r = {}"
  shows "ip_effect F s t (\<lambda>G. G = F - released c)"
proof (rule ipr.effect_call[OF assms(1)])
  assume sn: "ip_sane F (c, a)"
  have "released c \<inter> F = {} \<or> a_ret a = 0" using sn by (auto simp: ip_sane_def)
  then show "ip_proper F (c, a) \<and> ip_step F (c, a) = F - released c"
    using assms(2,3) by (auto simp: ip_step_def ip_proper_def)
qed

lemma effect_release_if:
  assumes "call_if b c s = Some t" "b \<Longrightarrow> released c - sys_names \<subseteq> F" "\<And>r. acquired c r = {}"
  shows "ip_effect F s t (\<lambda>G. G = F - (if b then released c else {}))"
proof (cases b)
  case True
  then obtain a where "sys_call c s = Some (a, t)" using assms(1) by (auto simp: call_if_def)
  then show ?thesis using effect_release[of c s a t F] assms(2,3) True by simp
qed (use assms(1) in \<open>auto simp: call_if_def intro: ipr.effect_refl\<close>)

lemma after_idle:
  "\<forall>x \<in> set l. acquired (fst x) (a_ret (snd x)) = {} \<and> released (fst x) = {} \<Longrightarrow> after ip_step F l = F \<and> each ip_proper ip_step F l"
  by (induction l) (auto simp: ip_step_def ip_proper_def)

lemma effect_retry:
  assumes "retry again c s = Some (a, t)" "\<And>b. again b \<Longrightarrow> acquired c (a_ret b) = {}" "released c = {}"
  shows "ip_effect F s t (\<lambda>G. G = F \<union> acquired c (a_ret a) \<and> acquired c (a_ret a) \<inter> F = {})"
proof -
  obtain as where as: "consumes s (map (Pair c) as @ [(c, a)]) t" "\<forall>b \<in> set as. again b" using retryD[OF assms(1)] by blast
  have idle: "after ip_step F (map (Pair c) as) = F \<and> each ip_proper ip_step F (map (Pair c) as)"
    by (rule after_idle) (use as(2) assms(2,3) in auto)
  show ?thesis
  proof (rule ipr.effectI[OF as(1)])
    assume "each ip_sane ip_step F (map (Pair c) as @ [(c, a)])"
    then have "ip_sane F (c, a)" using idle by simp
    then show "each ip_proper ip_step F (map (Pair c) as @ [(c, a)]) \<and>
        after ip_step F (map (Pair c) as @ [(c, a)]) = F \<union> acquired c (a_ret a) \<and> acquired c (a_ret a) \<inter> F = {}"
      using idle assms(3) by (simp add: ip_sane_def ip_step_def ip_proper_def)
  qed
qed

text \<open>What an object holds.\<close>

definition held_sem :: "PSemaphore \<Rightarrow> resource set" where
  "held_sem sem =
     (if sem_hdl sem = P_SEM_INVALID_HDL then {}
      else {R_Sem (sem_hdl sem)} \<union> (if sem_created sem then {R_Sem_Name (sem_key sem)} else {}))"

lemma sem_open_effect:
  assumes "sem_open_loop e key excl v s = Some (h, t)"
  shows "ip_effect F s t (\<lambda>G. G = F \<union> acquired (I_sem_open key excl v) h \<and> acquired (I_sem_open key excl v) h \<inter> F = {})"
proof -
  obtain a where r: "retry (\<lambda>a. a_ret a = P_SEM_INVALID_HDL \<and> errno_is e ''EINTR'' (a_errno a)) (I_sem_open key excl v) s = Some (a, t)"
    and h: "h = a_ret a" using assms by (auto simp: sem_open_loop_def split: Option.bind_splits)
  show ?thesis unfolding h by (rule effect_retry[OF r]) (simp_all add: P_SEM_INVALID_HDL_def)
qed

lemma clean_sem_effect:
  assumes "pzsemaphore_clean_handle sem s = Some (sem', t)" "held_sem sem - sys_names \<subseteq> F"
  shows "ip_effect F s t (\<lambda>G. G = F - held_sem sem)" "held_sem sem' = {}" "\<not> sem_created sem'"
proof -
  show "held_sem sem' = {}" "\<not> sem_created sem'"
    using assms(1) by (auto simp: pzsemaphore_clean_handle_def held_sem_def split: Option.bind_splits)
  obtain s1 where c: "call_if (sem_hdl sem \<noteq> P_SEM_INVALID_HDL) (I_sem_close (sem_hdl sem)) s = Some s1"
    and u: "call_if (sem_hdl sem \<noteq> P_SEM_INVALID_HDL \<and> sem_created sem) (I_sem_unlink (sem_key sem)) s1 = Some t"
    using assms(1) by (auto simp: pzsemaphore_clean_handle_def split: Option.bind_splits)
  have "ip_effect F s t (\<lambda>G. G = F - (if sem_hdl sem \<noteq> P_SEM_INVALID_HDL then {R_Sem (sem_hdl sem)} else {}) -
      (if sem_hdl sem \<noteq> P_SEM_INVALID_HDL \<and> sem_created sem then {R_Sem_Name (sem_key sem)} else {}))"
    using effect_release_if[OF c, of F] effect_release_if[OF u] assms(2) by (auto simp: held_sem_def intro: ipr.effect_seq)
  then show "ip_effect F s t (\<lambda>G. G = F - held_sem sem)" by (rule ipr.effect_mono) (auto simp: held_sem_def)
qed

text \<open>Opening: a name that is not held yet is held afterwards only when the call made it.\<close>

lemma sem_opened_effect:
  assumes "sem_opened e sem s = Some (sem', t)" "\<not> sem_created sem" "R_Sem_Name (sem_key sem) \<notin> F"
  shows "ip_effect F s t (\<lambda>G. G = F \<union> held_sem sem' \<and> held_sem sem' \<inter> F = {})" "sem_key sem' = sem_key sem"
proof -
  obtain h s1 where o1: "sem_open_loop e (sem_key sem) True (sem_init sem) s = Some (h, s1)"
    using assms(1) by (auto simp: sem_opened_def split: Option.bind_splits)
  note e1 = sem_open_effect[OF o1, of F]
  have "ip_effect F s t (\<lambda>G. G = F \<union> held_sem sem' \<and> held_sem sem' \<inter> F = {}) \<and> sem_key sem' = sem_key sem"
  proof (cases "h = P_SEM_INVALID_HDL \<and> errno_is e ''EEXIST'' (errno s1)")
    case False
    then have eq: "t = s1" "sem' = (if h = P_SEM_INVALID_HDL then sem\<lparr>sem_hdl := h\<rparr> else sem\<lparr>sem_hdl := h, sem_created := True\<rparr>)"
      using assms(1) o1 by (auto simp: sem_opened_def split: if_splits)
    have "held_sem sem' = acquired (I_sem_open (sem_key sem) True (sem_init sem)) h"
      using eq(2) by (auto simp: held_sem_def P_SEM_INVALID_HDL_def)
    then show ?thesis using e1 eq by auto
  next
    case True
    obtain v u where u: "(if sem_mode sem = P_SEM_ACCESS_CREATE
            then do { (a, u) \<leftarrow> sys_call (I_sem_unlink (sem_key sem)) s1; Some (sem_init sem, u) }
            else Some (0, s1)) = Some (v, u)" (is "?U = _")
      using assms(1) o1 True by (auto simp: sem_opened_def split: Option.bind_splits)
    obtain h2 where o2: "sem_open_loop e (sem_key sem) False v u = Some (h2, t)" and eq: "sem' = sem\<lparr>sem_hdl := h2\<rparr>"
      using assms(1) o1 True u by (auto simp: sem_opened_def split: Option.bind_splits)
    have "ip_effect F s s1 (\<lambda>G. G = F)" using e1 True by (auto simp: P_SEM_INVALID_HDL_def)
    moreover have eu: "ip_effect F s1 u (\<lambda>G. G = F)"
    proof (cases "sem_mode sem = P_SEM_ACCESS_CREATE")
      case True
      then obtain a where c: "sys_call (I_sem_unlink (sem_key sem)) s1 = Some (a, u)" using u by (auto split: Option.bind_splits)
      then show ?thesis using effect_release[OF c, of F] assms(3) by simp
    qed (use u in \<open>auto intro: ipr.effect_refl\<close>)
    ultimately have "ip_effect F s u (\<lambda>G. G = F)" by (rule ipr.effect_seq)
    moreover have e2: "ip_effect F u t (\<lambda>G. G = F \<union> held_sem sem' \<and> held_sem sem' \<inter> F = {})"
      using sem_open_effect[OF o2, of F] assms(2) by (auto simp: eq held_sem_def P_SEM_INVALID_HDL_def split: if_splits)
    ultimately have "ip_effect F s t (\<lambda>G. G = F \<union> held_sem sem' \<and> held_sem sem' \<inter> F = {})"
      by (rule ipr.effect_seq)
    then show ?thesis by (simp add: eq)
  qed
  then show "ip_effect F s t (\<lambda>G. G = F \<union> held_sem sem' \<and> held_sem sem' \<inter> F = {})" "sem_key sem' = sem_key sem" by auto
qed

lemma create_sem_effect:
  assumes "pzsemaphore_create_handle e sem s = Some (ok, sem', t)" "sem_hdl sem = 0" "\<not> sem_created sem"
    "R_Sem_Name (sem_key sem) \<notin> F"
  shows "ip_effect F s t (\<lambda>G. G = F \<union> held_sem sem' \<and> held_sem sem' \<inter> F = {})" "ok \<longleftrightarrow> sem_hdl sem' \<noteq> 0" 
proof -
  have "ip_effect F s t (\<lambda>G. G = F \<union> held_sem sem' \<and> held_sem sem' \<inter> F = {}) \<and> (ok \<longleftrightarrow> sem_hdl sem' \<noteq> 0)"
  proof (cases "sem_key sem")
    case None
    then show ?thesis using assms(1-3)
      by (auto simp: pzsemaphore_create_handle_def held_sem_def P_SEM_INVALID_HDL_def intro: ipr.effect_refl)
  next
    case (Some k)
    then obtain sem1 s2 where o: "sem_opened e sem s = Some (sem1, s2)"
      using assms(1) by (auto simp: pzsemaphore_create_handle_def split: Option.bind_splits)
    note e1 = sem_opened_effect(1)[OF o assms(3,4)]
    show ?thesis
    proof (cases "sem_hdl sem1 = P_SEM_INVALID_HDL")
      case True
      have "ok = False" "sem' = sem1\<lparr>sem_created := False\<rparr>" "t = ip_report_last e I_Sem_Open s2"
        using assms(1) o Some True by (auto simp: pzsemaphore_create_handle_def pzsemaphore_clean_handle_def call_if_def split: Option.bind_splits)
      then show ?thesis using e1 True by (simp add: held_sem_def P_SEM_INVALID_HDL_def)
    next
      case False
      then show ?thesis using assms(1) o Some e1 by (auto simp: pzsemaphore_create_handle_def P_SEM_INVALID_HDL_def)
    qed
  qed
  then show "ip_effect F s t (\<lambda>G. G = F \<union> held_sem sem' \<and> held_sem sem' \<inter> F = {})" "ok \<longleftrightarrow> sem_hdl sem' \<noteq> 0" by auto
qed

text \<open>The object: what \<open>zsemaphore_new\<close> returns holds all that it took, and \<open>zsemaphore_free\<close> gives it back.\<close>

definition held_sem_p :: "PSemaphore option \<Rightarrow> resource set" where
  "held_sem_p sp = (case sp of None \<Rightarrow> {} | Some sem \<Rightarrow> held_sem sem)"

lemma held_sem_p_simps [simp]: "held_sem_p None = {}" "held_sem_p (Some sem) = held_sem sem"
  by (simp_all add: held_sem_p_def)

lemma free_sem_effect:
  assumes "zsemaphore_free sp s = Some t" "held_sem_p sp - sys_names \<subseteq> F"
  shows "ip_effect F s t (\<lambda>G. G = F - held_sem_p sp)"
  using assms clean_sem_effect(1) by (auto simp: zsemaphore_free_def intro: ipr.effect_refl split: option.splits Option.bind_splits)

lemma new_sem_effect:
  assumes "zsemaphore_new e name v mode s = Some (sp, t)"
    "\<And>nm key. name = Some nm \<Longrightarrow> zipc_get_platform_key (ip_be e) (ip_ipc e) (Some (nm @ P_SEM_SUFFIX)) True = Some key \<Longrightarrow>
       R_Sem_Name key \<notin> F"
  shows "ip_effect F s t (\<lambda>G. G = F \<union> held_sem_p sp \<and> held_sem_p sp \<inter> F = {})" "\<forall>sem. sp = Some sem \<longrightarrow> sem_hdl sem \<noteq> 0"
proof -
  have "ip_effect F s t (\<lambda>G. G = F \<union> held_sem_p sp \<and> held_sem_p sp \<inter> F = {}) \<and> (\<forall>sem. sp = Some sem \<longrightarrow> sem_hdl sem \<noteq> 0)"
  proof (cases "\<exists>nm. name = Some nm \<and> 0 \<le> v \<and> obj_mem e \<and> name_mem e")
    case False
    then show ?thesis using assms(1) by (auto simp: zsemaphore_new_def intro: ipr.effect_refl split: option.splits if_splits)
  next
    case True
    then obtain nm where nm: "name = Some nm" "0 \<le> v" "obj_mem e" "name_mem e" by blast
    then obtain key where key: "zipc_get_platform_key (ip_be e) (ip_ipc e) (Some (nm @ P_SEM_SUFFIX)) True = Some key"
      using assms(1) by (auto simp: zsemaphore_new_def split: Option.bind_splits)
    then obtain ok sem s1 where h: "pzsemaphore_create_handle e
          \<lparr>sem_created = False, sem_key = key, sem_hdl = 0, sem_mode = mode, sem_init = v\<rparr> s = Some (ok, sem, s1)"
      using assms(1) nm by (auto simp: zsemaphore_new_def split: Option.bind_splits)
    note e1 = create_sem_effect[OF h _ _, of F, simplified, OF assms(2)[OF nm(1) key]]
    show ?thesis
    proof (cases ok)
      case True
      then have "sp = Some sem" "t = s1" using assms(1) nm key h by (auto simp: zsemaphore_new_def)
      then show ?thesis using e1 True by simp
    next
      case False
      then have "zsemaphore_free (Some sem) s1 = Some t" "sp = None"
        using assms(1) nm key h by (auto simp: zsemaphore_new_def split: Option.bind_splits)
      moreover have "held_sem sem = {}" using e1(2) False by (simp add: held_sem_def P_SEM_INVALID_HDL_def)
      moreover have "t = s1" using calculation e1(2) False
        by (auto simp: zsemaphore_free_def pzsemaphore_clean_handle_def call_if_def P_SEM_INVALID_HDL_def split: Option.bind_splits)
      ultimately show ?thesis using e1(1) by auto
    qed
  qed
  then show "ip_effect F s t (\<lambda>G. G = F \<union> held_sem_p sp \<and> held_sem_p sp \<inter> F = {})" "\<forall>sem. sp = Some sem \<longrightarrow> sem_hdl sem \<noteq> 0"
    by auto
qed

section \<open>Modes\<close>

text \<open>
  The names of semaphores in the system when no other process changes them: the set of names after an
  exchange, and the answers that fit it. Exclusive creation fails with \<^verbatim>\<open>EEXIST\<close> for a name that is
  there, opening fails for one that is not, and names can be removed.
\<close>

fun nm_step :: "string option set \<Rightarrow> ipc_call \<times> answer \<Rightarrow> string option set" where
  "nm_step N (I_sem_open key excl v, a) = (if excl \<and> a_ret a \<noteq> 0 then insert key N else N)"
| "nm_step N (I_sem_unlink key, a) = (if a_ret a = 0 then N - {key} else N)"
| "nm_step N x = N"

fun nm_sane :: "ip_env \<Rightarrow> string option set \<Rightarrow> ipc_call \<times> answer \<Rightarrow> bool" where
  "nm_sane e N (I_sem_open key excl v, a) \<longleftrightarrow>
     (if excl then key \<in> N \<longrightarrow> a_ret a = 0 \<and> (errno_is e ''EEXIST'' (a_errno a) \<or> errno_is e ''EINTR'' (a_errno a))
      else key \<notin> N \<longrightarrow> a_ret a = 0)"
| "nm_sane e N (I_sem_unlink key, a) \<longleftrightarrow> (key \<in> N \<longrightarrow> a_ret a = 0)"
| "nm_sane e N x \<longleftrightarrow> True"

lemma nm_retry:
  assumes "sem_open_loop e key excl v s = Some (h, t)" "consumes s l t" "each (nm_sane e) nm_step N l"
  shows "(if excl then key \<in> N \<longrightarrow> h = 0 \<and> errno_is e ''EEXIST'' (errno t) else key \<notin> N \<longrightarrow> h = 0) \<and>
    after nm_step N l = (if excl \<and> h \<noteq> 0 then insert key N else N)"
proof -
  obtain a where r: "retry (\<lambda>a. a_ret a = P_SEM_INVALID_HDL \<and> errno_is e ''EINTR'' (a_errno a)) (I_sem_open key excl v) s = Some (a, t)"
    and h: "h = a_ret a" using assms(1) by (auto simp: sem_open_loop_def split: Option.bind_splits)
  obtain as where as: "consumes s (map (Pair (I_sem_open key excl v)) as @ [(I_sem_open key excl v, a)]) t"
    "\<forall>b \<in> set as. a_ret b = 0" "\<not> (a_ret a = 0 \<and> errno_is e ''EINTR'' (a_errno a))" "errno t = a_errno a"
    using retryD[OF r] by (auto simp: P_SEM_INVALID_HDL_def consumes_def)
  have idle: "after nm_step N (map (Pair (I_sem_open key excl v)) as) = N" using as(2) by (induction as) auto
  have "l = map (Pair (I_sem_open key excl v)) as @ [(I_sem_open key excl v, a)]" by (rule consumes_unique[OF assms(2) as(1)])
  then show ?thesis using assms(3) idle as(3,4) h by auto
qed

lemma opened_names:
  assumes "sem_opened e sem s = Some (sem', t)" "\<not> sem_created sem" "consumes s l t" "each (nm_sane e) nm_step N l"
  shows "if sem_key sem \<notin> N
    then (if sem_hdl sem' = 0 then after nm_step N l = N else sem_created sem' \<and> after nm_step N l = insert (sem_key sem) N)
    else if sem_mode sem = P_SEM_ACCESS_CREATE then sem_hdl sem' = 0 \<and> after nm_step N l = N - {sem_key sem}
    else \<not> sem_created sem' \<and> after nm_step N l = N"
proof -
  obtain h s1 where o1: "sem_open_loop e (sem_key sem) True (sem_init sem) s = Some (h, s1)"
    using assms(1) by (auto simp: sem_opened_def split: Option.bind_splits)
  obtain l1 where l1: "consumes s l1 s1" using ipr.effect_reach[OF sem_open_effect[OF o1]] by blast
  show ?thesis
  proof (cases "h = P_SEM_INVALID_HDL \<and> errno_is e ''EEXIST'' (errno s1)")
    case False
    then have eq: "t = s1" "sem' = (if h = P_SEM_INVALID_HDL then sem\<lparr>sem_hdl := h\<rparr> else sem\<lparr>sem_hdl := h, sem_created := True\<rparr>)"
      using assms(1) o1 by (auto simp: sem_opened_def split: if_splits)
    then have "l1 = l" using consumes_unique[OF l1] assms(3) by blast
    then show ?thesis using nm_retry[OF o1 l1] assms(4) eq False by (auto simp: P_SEM_INVALID_HDL_def)
  next
    case True
    let ?c = "sem_mode sem = P_SEM_ACCESS_CREATE"
    obtain v u where u: "(if ?c then do { (a, u) \<leftarrow> sys_call (I_sem_unlink (sem_key sem)) s1; Some (sem_init sem, u) }
        else Some (0, s1)) = Some (v, u)" (is "?U = _")
      using assms(1) o1 True by (auto simp: sem_opened_def split: Option.bind_splits)
    obtain h2 where o2: "sem_open_loop e (sem_key sem) False v u = Some (h2, t)" and eq: "sem' = sem\<lparr>sem_hdl := h2\<rparr>"
      using assms(1) o1 True u by (auto simp: sem_opened_def split: Option.bind_splits)
    obtain l3 where l3: "consumes u l3 t" using ipr.effect_reach[OF sem_open_effect[OF o2]] by blast
    obtain l2 where l2: "consumes s1 l2 u" "if ?c then \<exists>a. l2 = [(I_sem_unlink (sem_key sem), a)] else l2 = []"
      using u by (auto dest!: sys_callD(1) split: if_splits Option.bind_splits)
    have "l = l1 @ l2 @ l3" using consumes_unique[OF assms(3)] l1 l2(1) l3 consumes_trans by metis
    then have sn: "each (nm_sane e) nm_step N l1" "each (nm_sane e) nm_step (after nm_step N l1) l2"
      "each (nm_sane e) nm_step (after nm_step (after nm_step N l1) l2) l3"
      and af: "after nm_step N l = after nm_step (after nm_step (after nm_step N l1) l2) l3"
      using assms(4) by auto
    have a1: "after nm_step N l1 = N" using nm_retry[OF o1 l1 sn(1)] True by (simp add: P_SEM_INVALID_HDL_def)
    have a2: "after nm_step N l2 = (if ?c then N - {sem_key sem} else N)"
      using sn(2) l2(2) unfolding a1 by (cases ?c) (auto split: if_splits)
    note a3 = nm_retry[OF o2 l3 sn(3), unfolded a1 a2, simplified]
    have "after nm_step N l = (if ?c then N - {sem_key sem} else N)" using a3 af a1 a2 by simp
    moreover have "sem_key sem \<notin> N \<or> ?c \<longrightarrow> h2 = 0" using a3 by (auto split: if_splits)
    ultimately show ?thesis using eq assms(2) by auto
  qed
qed

text \<open>
  The modes of \<open>zsemaphore_new\<close> on a system whose names of semaphores no other process changes. For a name
  that is not there the semaphore is made, and owned, or nothing changes. For a name that is there,
  \<^verbatim>\<open>P_SEM_ACCESS_OPEN\<close> opens it without owning it, or fails, and leaves the names as they are. But
  \<^verbatim>\<open>P_SEM_ACCESS_CREATE\<close>, which is to reset a semaphore that exists, removes it and then always fails, as the
  second call of \<^verbatim>\<open>sem_open\<close> opens the name that has just been removed.
\<close>

theorem semaphore_modes:
  assumes "zsemaphore_new e (Some nm) v mode s = Some (sp, t)" "0 \<le> v" "obj_mem e" "name_mem e"
    "zipc_get_platform_key (ip_be e) (ip_ipc e) (Some (nm @ P_SEM_SUFFIX)) True = Some (Some key)"
    "log s = []" "each (nm_sane e) nm_step N (log t)"
  shows "if Some key \<notin> N
    then (case sp of None \<Rightarrow> after nm_step N (log t) = N
          | Some sem \<Rightarrow> sem_created sem \<and> after nm_step N (log t) = insert (Some key) N)
    else if mode = P_SEM_ACCESS_CREATE then sp = None \<and> after nm_step N (log t) = N - {Some key}
    else (\<forall>sem. sp = Some sem \<longrightarrow> \<not> sem_created sem) \<and> after nm_step N (log t) = N"
proof -
  let ?s0 = "\<lparr>sem_created = False, sem_key = Some key, sem_hdl = 0, sem_mode = mode, sem_init = v\<rparr>"
  obtain ok sem s1 where h: "pzsemaphore_create_handle e ?s0 s = Some (ok, sem, s1)"
    using assms(1-5) by (auto simp: zsemaphore_new_def split: Option.bind_splits)
  then obtain sem1 s2 where o: "sem_opened e ?s0 s = Some (sem1, s2)"
    by (auto simp: pzsemaphore_create_handle_def split: Option.bind_splits)
  have res: "log t = log s2 \<and> sp = (if sem_hdl sem1 = 0 then None else Some sem1)"
    using assms(1-5) h o by (auto simp: zsemaphore_new_def pzsemaphore_create_handle_def zsemaphore_free_def
        pzsemaphore_clean_handle_def call_if_def P_SEM_INVALID_HDL_def ip_report_last_def report_def split: if_splits)
  obtain k where "consumes s k s2" using ipr.effect_reach[OF sem_opened_effect(1)[OF o, of "{}"]] by auto
  then have "consumes s (log t) s2" using assms(6) res by (auto simp: consumes_def)
  then show ?thesis using opened_names[OF o _ _ assms(7)] res by (auto split: if_splits)
qed

text \<open>A name that exists, first opened and then created: the second call removes it and fails.\<close>

definition ip_env_sample :: ip_env where
  "ip_env_sample = \<lparr>names = map_of [(''EINTR'', 4), (''EEXIST'', 17), (''ENOENT'', 2), (''ENOSPC'', 28)], err_mem = True, msg_mem = True,
     obj_mem = True, name_mem = True, ip_be = False, ip_ipc = ipc_env_linux\<rparr>"

definition reply :: "int \<Rightarrow> int \<Rightarrow> answer" where
  "reply r n = \<lparr>a_ret = r, a_errno = n, a_val = 0, a_len = 0, a_data = []\<rparr>"

definition ip_sys_sample :: "answer list \<Rightarrow> ip_sys" where
  "ip_sys_sample as = \<lparr>todo = as, log = [], errno = 0, err = Some None\<rparr>"

lemma sample_key:
  assumes "length s < 2 ^ 32"
  obtains k where "zipc_get_platform_key (ip_be ip_env_sample) (ip_ipc ip_env_sample) (Some s) True = Some (Some k)" "length k \<le> 14"
  using platform_key_posix[OF assms, of ipc_env_linux False] by (auto simp: ip_env_sample_def ipc_env_linux_def)

lemmas ip_sample_simps = reply_def ip_sys_sample_def errno_is_def zerror_get_last_system_def P_SEM_INVALID_HDL_def call_if_def
  ip_report_last_def report_def

lemma sample_env [simp]:
  "names ip_env_sample ''EINTR'' = Some 4" "names ip_env_sample ''EEXIST'' = Some 17" "obj_mem ip_env_sample" "name_mem ip_env_sample"
  by (simp_all add: ip_env_sample_def)

theorem semaphore_modes_witness:
  "\<exists>key t. zsemaphore_new ip_env_sample (Some ''lock'') 1 P_SEM_ACCESS_CREATE
       (ip_sys_sample [reply 0 17, reply 0 0, reply 0 2]) = Some (None, t) \<and>
     log t = [(I_sem_open (Some key) True 1, reply 0 17), (I_sem_unlink (Some key), reply 0 0), (I_sem_open (Some key) False 1, reply 0 2)] \<and>
     after nm_step {Some key} (log t) = {}"
proof -
  obtain key where key: "zipc_get_platform_key (ip_be ip_env_sample) (ip_ipc ip_env_sample) (Some (''lock'' @ P_SEM_SUFFIX)) True =
      Some (Some key)"
    by (rule sample_key[of "''lock'' @ P_SEM_SUFFIX"]) (auto simp: P_SEM_SUFFIX_def)
  let ?s = "ip_sys_sample [reply 0 17, reply 0 0, reply 0 2]"
  obtain t where run: "zsemaphore_new ip_env_sample (Some ''lock'') 1 P_SEM_ACCESS_CREATE ?s = Some (None, t)"
    and lg: "log t = [(I_sem_open (Some key) True 1, reply 0 17), (I_sem_unlink (Some key), reply 0 0), (I_sem_open (Some key) False 1, reply 0 2)]"
    using key by (simp add: zsemaphore_new_def pzsemaphore_create_handle_def sem_opened_def sem_open_loop_def retry.simps sys_call_def
        pzsemaphore_clean_handle_def zsemaphore_free_def ip_sample_simps)
  have "each (nm_sane ip_env_sample) nm_step {Some key} (log t)" by (simp add: lg ip_sample_simps)
  then have "after nm_step {Some key} (log t) = {}"
    using semaphore_modes[OF run _ _ _ key] by (simp add: ip_sys_sample_def)
  then show ?thesis using run lg by blast
qed

end
