(* ===== verification/PShm.thy ===== *)
theory PShm
  imports PSemaphore
begin

text \<open>
  Shared memory segments on POSIX systems, \<^verbatim>\<open>src/src/os/posix/pshm-posix.c\<close>: a named segment, its mapping and
  the semaphore that guards it, with the names, mappings and handles that the object holds.
\<close>

section \<open>Types\<close>

datatype PShmAccessPerms = P_SHM_ACCESS_READONLY | P_SHM_ACCESS_READWRITE

record PShm =
  shm_created :: bool
  shm_key :: "string option"
  shm_addr :: int
  seg_size :: psize
  shm_sem :: "PSemaphore option"
  shm_perms :: PShmAccessPerms

definition P_SHM_SUFFIX :: string where "P_SHM_SUFFIX = ''_zshm_object''"

definition P_SHM_INVALID_HDL :: int where "P_SHM_INVALID_HDL = - 1"

section \<open>Operations\<close>

definition pzshm_clean_handle :: "PShm \<Rightarrow> ip_sys \<Rightarrow> (PShm \<times> ip_sys) option" where
  "pzshm_clean_handle shm s = do {
     s1 \<leftarrow> call_if (shm_addr shm \<noteq> 0) (I_munmap (shm_addr shm) (seg_size shm)) s;
     s2 \<leftarrow> call_if (shm_created shm) (I_shm_unlink (shm_key shm)) s1;
     s3 \<leftarrow> zsemaphore_free (shm_sem shm) s2;
     Some (shm\<lparr>shm_sem := None, shm_created := False, shm_addr := 0, seg_size := 0\<rparr>, s3)
   }"

definition shm_open_loop :: "ip_env \<Rightarrow> string option \<Rightarrow> bool \<Rightarrow> ip_sys \<Rightarrow> (int \<times> ip_sys) option" where
  "shm_open_loop e key excl s = do {
     (a, t) \<leftarrow> retry (\<lambda>a. a_ret a = P_SHM_INVALID_HDL \<and> errno_is e ''EINTR'' (a_errno a)) (I_shm_open key excl) s;
     Some (a_ret a, t)
   }"

text \<open>\<^verbatim>\<open>zsys_close\<close>, whose failures are only logged.\<close>

definition shm_close :: "int \<Rightarrow> ip_sys \<Rightarrow> ip_sys option" where
  "shm_close fd s = do { (a, t) \<leftarrow> sys_call (I_close fd) s; Some t }"

text \<open>The first part of \<^verbatim>\<open>pzshm_create_handle\<close>: the descriptor, and whether the segment was there before.\<close>

definition shm_opened :: "ip_env \<Rightarrow> PShm \<Rightarrow> ip_sys \<Rightarrow> (int \<times> bool \<times> PShm \<times> ip_sys) option" where
  "shm_opened e shm s = do {
     (fd, s1) \<leftarrow> shm_open_loop e (shm_key shm) True s;
     if fd = P_SHM_INVALID_HDL then
       (if errno_is e ''EEXIST'' (errno s1) then do {
          (fd2, s2) \<leftarrow> shm_open_loop e (shm_key shm) False s1;
          Some (fd2, True, shm, s2)
        }
        else Some (fd, False, shm, s1))
     else Some (fd, False, shm\<lparr>shm_created := True\<rparr>, s1)
   }"

text \<open>The size of the segment: taken over when it existed, else set.\<close>

definition shm_sized :: "int \<Rightarrow> bool \<Rightarrow> PShm \<Rightarrow> ip_sys \<Rightarrow> ((ip_msg option \<times> PShm) \<times> ip_sys) option" where
  "shm_sized fd is_exists shm s =
     (if is_exists then do {
        (a, t) \<leftarrow> sys_call (I_fstat fd) s;
        if a_ret a = - 1 then Some ((Some I_Fstat, shm), t) else Some ((None, shm\<lparr>seg_size := word_of_int (a_val a)\<rparr>), t)
      }
      else do {
        (a, t) \<leftarrow> sys_call (I_ftruncate fd (sint (seg_size shm))) s;
        Some ((if a_ret a = - 1 then Some I_Ftruncate else None, shm), t)
      })"

text \<open>The failures with an open descriptor: the report, the descriptor and the object, in this order.\<close>

definition shm_abort :: "ip_env \<Rightarrow> ip_msg \<Rightarrow> int \<Rightarrow> PShm \<Rightarrow> ip_sys \<Rightarrow> (bool \<times> PShm \<times> ip_sys) option" where
  "shm_abort e m fd shm s = do {
     s1 \<leftarrow> shm_close fd (ip_report_last e m s);
     (shm1, s2) \<leftarrow> pzshm_clean_handle shm s1;
     Some (False, shm1, s2)
   }"

text \<open>The last part: the descriptor is not needed for the mapping, and the semaphore is made with the second environment.\<close>

definition shm_guarded :: "ip_env \<Rightarrow> ip_env \<Rightarrow> int \<Rightarrow> bool \<Rightarrow> PShm \<Rightarrow> ip_sys \<Rightarrow> (bool \<times> PShm \<times> ip_sys) option" where
  "shm_guarded e es fd is_exists shm s = do {
     s1 \<leftarrow> shm_close fd s;
     (sp, s2) \<leftarrow> zsemaphore_new es (shm_key shm) 1 (if is_exists then P_SEM_ACCESS_OPEN else P_SEM_ACCESS_CREATE) s1;
     if sp = None
     then do { (shm1, s3) \<leftarrow> pzshm_clean_handle (shm\<lparr>shm_sem := sp\<rparr>) s2; Some (False, shm1, s3) }
     else Some (True, shm\<lparr>shm_sem := sp\<rparr>, s2)
   }"

text \<open>Size, mapping and guard of an open segment.\<close>

definition shm_mapped :: "ip_env \<Rightarrow> ip_env \<Rightarrow> int \<Rightarrow> bool \<Rightarrow> PShm \<Rightarrow> ip_sys \<Rightarrow> (bool \<times> PShm \<times> ip_sys) option" where
  "shm_mapped e es fd is_exists shm s = do {
     ((m, shm1), s1) \<leftarrow> shm_sized fd is_exists shm s;
     case m of
       Some msg \<Rightarrow> shm_abort e msg fd shm1 s1
     | None \<Rightarrow> do {
         (a, s2) \<leftarrow> sys_call (I_mmap fd (seg_size shm1) (shm_perms shm1 = P_SHM_ACCESS_READONLY)) s1;
         if a_ret a = - 1 then shm_abort e I_Mmap fd (shm1\<lparr>shm_addr := 0\<rparr>) s2
         else shm_guarded e es fd is_exists (shm1\<lparr>shm_addr := a_ret a\<rparr>) s2
       }
   }"

definition pzshm_create_handle :: "ip_env \<Rightarrow> ip_env \<Rightarrow> PShm \<Rightarrow> ip_sys \<Rightarrow> (bool \<times> PShm \<times> ip_sys) option" where
  "pzshm_create_handle e es shm s =
     (if shm_key shm = None then Some (False, shm, ip_report e P_ERROR_IPC_INVALID_ARGUMENT I_Argument s)
      else do {
        (fd, is_exists, shm1, s1) \<leftarrow> shm_opened e shm s;
        if fd = P_SHM_INVALID_HDL
        then do {
          (shm2, s2) \<leftarrow> pzshm_clean_handle shm1 (ip_report_last e I_Shm_Open s1);
          Some (False, shm2, s2)
        }
        else shm_mapped e es fd is_exists shm1 s1
      })"

definition zshm_free :: "PShm option \<Rightarrow> ip_sys \<Rightarrow> ip_sys option" where
  "zshm_free shp s =
     (case shp of None \<Rightarrow> Some s | Some shm \<Rightarrow> do { (shm', t) \<leftarrow> pzshm_clean_handle shm s; Some t })"

definition zshm_new ::
    "ip_env \<Rightarrow> ip_env \<Rightarrow> string option \<Rightarrow> psize \<Rightarrow> PShmAccessPerms \<Rightarrow> ip_sys \<Rightarrow> (PShm option \<times> ip_sys) option" where
  "zshm_new e es name n perms s =
     (case name of
        None \<Rightarrow> Some (None, ip_report e P_ERROR_IPC_INVALID_ARGUMENT I_Argument s)
      | Some nm \<Rightarrow>
          if \<not> obj_mem e then Some (None, ip_report e P_ERROR_IPC_NO_RESOURCES I_Shm_Memory s)
          else if \<not> name_mem e then do {
            s1 \<leftarrow> zshm_free (Some \<lparr>shm_created = False, shm_key = None, shm_addr = 0, seg_size = 0, shm_sem = None,
              shm_perms = P_SHM_ACCESS_READONLY\<rparr>) (ip_report e P_ERROR_IPC_NO_RESOURCES I_Shm_Name s);
            Some (None, s1)
          }
          else do {
            key \<leftarrow> zipc_get_platform_key (ip_be e) (ip_ipc e) (Some (nm @ P_SHM_SUFFIX)) True;
            (ok, shm, s1) \<leftarrow> pzshm_create_handle e es
              \<lparr>shm_created = False, shm_key = key, shm_addr = 0, seg_size = n, shm_sem = None, shm_perms = perms\<rparr> s;
            if \<not> ok then do { s2 \<leftarrow> zshm_free (Some shm) s1; Some (None, s2) }
            else Some (Some (if n < seg_size shm \<and> n \<noteq> 0 then shm\<lparr>seg_size := n\<rparr> else shm), s1)
          })"

definition zshm_take_ownership :: "PShm option \<Rightarrow> PShm option" where
  "zshm_take_ownership shp =
     map_option (\<lambda>shm. shm\<lparr>shm_created := True, shm_sem := zsemaphore_take_ownership (shm_sem shm)\<rparr>) shp"

definition zshm_lock :: "ip_env \<Rightarrow> PShm option \<Rightarrow> ip_sys \<Rightarrow> (bool \<times> ip_sys) option" where
  "zshm_lock e shp s =
     (case shp of
        None \<Rightarrow> Some (False, ip_report e P_ERROR_IPC_INVALID_ARGUMENT I_Argument s)
      | Some shm \<Rightarrow> zsemaphore_acquire e (shm_sem shm) s)"

definition zshm_unlock :: "ip_env \<Rightarrow> PShm option \<Rightarrow> ip_sys \<Rightarrow> (bool \<times> ip_sys) option" where
  "zshm_unlock e shp s =
     (case shp of
        None \<Rightarrow> Some (False, ip_report e P_ERROR_IPC_INVALID_ARGUMENT I_Argument s)
      | Some shm \<Rightarrow> zsemaphore_release e (shm_sem shm) s)"

definition zshm_get_address :: "PShm option \<Rightarrow> int" where
  "zshm_get_address shp = (case shp of None \<Rightarrow> 0 | Some shm \<Rightarrow> shm_addr shm)"

definition zshm_get_size :: "PShm option \<Rightarrow> psize" where
  "zshm_get_size shp = (case shp of None \<Rightarrow> 0 | Some shm \<Rightarrow> seg_size shm)"

section \<open>Resources\<close>

text \<open>What an object holds: its mapping, the name that it owns, and its semaphore.\<close>

definition held_shm :: "PShm \<Rightarrow> resource set" where
  "held_shm shm =
     (if shm_addr shm \<noteq> 0 then {R_Map (shm_addr shm) (seg_size shm)} else {}) \<union>
     (if shm_created shm then {R_Shm_Name (shm_key shm)} else {}) \<union> held_sem_p (shm_sem shm)"

lemma held_sem_p_only: "x \<in> held_sem_p sp \<Longrightarrow> (\<exists>h. x = R_Sem h) \<or> (\<exists>key. x = R_Sem_Name key)"
  by (auto simp: held_sem_p_def held_sem_def split: option.splits if_splits)

lemma held_sem_p_not [simp]:
  "R_Map x n \<notin> held_sem_p sp" "R_Shm_Name key \<notin> held_sem_p sp" "R_Fd fd \<notin> held_sem_p sp"
  using held_sem_p_only by blast+

lemma clean_shm_effect:
  assumes "pzshm_clean_handle shm s = Some (shm', t)" "held_shm shm - sys_names \<subseteq> F"
  shows "ip_effect F s t (\<lambda>G. G = F - held_shm shm)" "held_shm shm' = {}"
proof -
  show "held_shm shm' = {}"
    using assms(1) by (auto simp: pzshm_clean_handle_def held_shm_def split: Option.bind_splits)
  obtain s1 s2 where s1: "call_if (shm_addr shm \<noteq> 0) (I_munmap (shm_addr shm) (seg_size shm)) s = Some s1"
    and s2: "call_if (shm_created shm) (I_shm_unlink (shm_key shm)) s1 = Some s2" and s3: "zsemaphore_free (shm_sem shm) s2 = Some t"
    using assms(1) by (auto simp: pzshm_clean_handle_def split: Option.bind_splits)
  let ?A = "F - (if shm_addr shm \<noteq> 0 then {R_Map (shm_addr shm) (seg_size shm)} else {})"
  let ?B = "?A - (if shm_created shm then {R_Shm_Name (shm_key shm)} else {})"
  have "ip_effect F s s1 (\<lambda>G. G = F - (if shm_addr shm \<noteq> 0 then released (I_munmap (shm_addr shm) (seg_size shm)) else {}))"
    by (rule effect_release_if[OF s1]) (use assms(2) in \<open>auto simp: held_shm_def\<close>)
  then have "ip_effect F s s1 (\<lambda>G. G = ?A)" by (rule ipr.effect_mono) simp
  moreover have "ip_effect ?A s1 s2 (\<lambda>G. G = ?B)" by (rule ipr.effect_mono[OF effect_release_if[OF s2]]) simp_all
  ultimately have "ip_effect F s s2 (\<lambda>G. G = ?B)" by (rule ipr.effect_seq)
  moreover have "ip_effect ?B s2 t (\<lambda>G. G = ?B - held_sem_p (shm_sem shm))"
    by (rule free_sem_effect[OF s3]) (use assms(2) in \<open>auto simp: held_shm_def\<close>)
  ultimately have "ip_effect F s t (\<lambda>G. G = ?B - held_sem_p (shm_sem shm))" by (rule ipr.effect_seq)
  then show "ip_effect F s t (\<lambda>G. G = F - held_shm shm)" by (rule ipr.effect_mono) (auto simp: held_shm_def)
qed

lemma shm_close_effect:
  assumes "shm_close fd s = Some t" "R_Fd fd \<in> F"
  shows "ip_effect F s t (\<lambda>G. G = F - {R_Fd fd})"
proof -
  obtain a where c: "sys_call (I_close fd) s = Some (a, t)" using assms(1) by (auto simp: shm_close_def split: Option.bind_splits)
  show ?thesis using effect_release[OF c, of F] assms(2) by auto
qed

lemma shm_open_effect:
  assumes "shm_open_loop e key excl s = Some (fd, t)"
  shows "ip_effect F s t (\<lambda>G. G = F \<union> acquired (I_shm_open key excl) fd \<and> acquired (I_shm_open key excl) fd \<inter> F = {})"
proof -
  obtain a where r: "retry (\<lambda>a. a_ret a = P_SHM_INVALID_HDL \<and> errno_is e ''EINTR'' (a_errno a)) (I_shm_open key excl) s = Some (a, t)"
    and h: "fd = a_ret a" using assms by (auto simp: shm_open_loop_def split: Option.bind_splits)
  show ?thesis unfolding h by (rule effect_retry[OF r]) (simp_all add: P_SHM_INVALID_HDL_def)
qed

lemma shm_opened_effect:
  assumes "shm_opened e shm s = Some (fd, ex, shm', t)" "\<not> shm_created shm" "shm_addr shm = 0" "shm_sem shm = None"
  shows "ip_effect F s t (\<lambda>G. G = F \<union> (if fd = - 1 then {} else {R_Fd fd}) \<union> held_shm shm' \<and>
      ((if fd = - 1 then {} else {R_Fd fd}) \<union> held_shm shm') \<inter> F = {})"
    "shm_key shm' = shm_key shm" "shm_addr shm' = 0" "shm_sem shm' = None" "fd = - 1 \<longrightarrow> \<not> shm_created shm'"
proof -
  obtain fd1 s1 where o1: "shm_open_loop e (shm_key shm) True s = Some (fd1, s1)"
    using assms(1) by (auto simp: shm_opened_def split: Option.bind_splits)
  let ?Q = "\<lambda>G. G = F \<union> (if fd = - 1 then {} else {R_Fd fd}) \<union> held_shm shm' \<and>
      ((if fd = - 1 then {} else {R_Fd fd}) \<union> held_shm shm') \<inter> F = {}"
  note e1 = shm_open_effect[OF o1, of F]
  have "ip_effect F s t ?Q \<and> shm_key shm' = shm_key shm \<and> shm_addr shm' = 0 \<and> shm_sem shm' = None \<and> (fd = - 1 \<longrightarrow> \<not> shm_created shm')"
  proof (cases "fd1 = P_SHM_INVALID_HDL \<and> errno_is e ''EEXIST'' (errno s1)")
    case False
    then have eq: "t = s1" "fd = fd1" "shm' = (if fd1 = P_SHM_INVALID_HDL then shm else shm\<lparr>shm_created := True\<rparr>)"
      using assms(1) o1 by (auto simp: shm_opened_def split: if_splits)
    then show ?thesis using e1 assms(2-4) by (auto simp: held_shm_def P_SHM_INVALID_HDL_def elim!: ipr.effect_mono)
  next
    case True
    then have o2: "shm_open_loop e (shm_key shm) False s1 = Some (fd, t)" and eq: "shm' = shm"
      using assms(1) o1 by (auto simp: shm_opened_def split: Option.bind_splits)
    have "ip_effect F s s1 (\<lambda>G. G = F)" using e1 True by (auto simp: P_SHM_INVALID_HDL_def)
    moreover have "ip_effect F s1 t ?Q"
      using shm_open_effect[OF o2, of F] assms(2-4) eq by (auto simp: held_shm_def elim!: ipr.effect_mono)
    ultimately have "ip_effect F s t ?Q" by (rule ipr.effect_seq)
    then show ?thesis using eq assms(2-4) by simp
  qed
  then show "ip_effect F s t ?Q"
    "shm_key shm' = shm_key shm" "shm_addr shm' = 0" "shm_sem shm' = None" "fd = - 1 \<longrightarrow> \<not> shm_created shm'" by blast+
qed

lemma seg_same: "\<exists>n. shm = shm\<lparr>seg_size := n\<rparr>"
  by (rule exI[of _ "seg_size shm"]) simp

lemma shm_sized_effect:
  assumes "shm_sized fd ex shm s = Some ((m, shm'), t)"
  shows "ip_effect F s t (\<lambda>G. G = F)" "\<exists>n. shm' = shm\<lparr>seg_size := n\<rparr>"
proof -
  show "\<exists>n. shm' = shm\<lparr>seg_size := n\<rparr>"
    using assms seg_same[of shm] by (auto simp: shm_sized_def split: Option.bind_splits if_splits)
  have "ipr.talks () s t"
    using assms by (auto simp: shm_sized_def split: Option.bind_splits if_splits intro: ipr.talks_call)
  then show "ip_effect F s t (\<lambda>G. G = F)" by (rule ipr.effect_talks) simp_all
qed

lemma shm_abort_effect:
  assumes "shm_abort e m fd shm s = Some (ok, shm', t)" "R_Fd fd \<in> F" "held_shm shm - sys_names \<subseteq> F"
  shows "ip_effect F s t (\<lambda>G. G = F - {R_Fd fd} - held_shm shm)" "held_shm shm' = {}" "\<not> ok"
proof -
  obtain s1 where c: "shm_close fd (ip_report_last e m s) = Some s1" and k: "pzshm_clean_handle shm s1 = Some (shm', t)" and "\<not> ok"
    using assms(1) by (auto simp: shm_abort_def split: Option.bind_splits)
  then show "\<not> ok" by blast
  show "held_shm shm' = {}" by (rule clean_shm_effect(2)[OF k assms(3)])
  have "held_shm shm - sys_names \<subseteq> F - {R_Fd fd}" using assms(3) by (auto simp: held_shm_def split: if_splits)
  with shm_close_effect[OF c assms(2)] clean_shm_effect(1)[OF k]
  show "ip_effect F s t (\<lambda>G. G = F - {R_Fd fd} - held_shm shm)" by (auto intro: ipr.effect_seq)
qed

text \<open>The name of the semaphore that guards the segment with name \<open>key\<close> is not held.\<close>

definition guard_fresh :: "ip_env \<Rightarrow> string option \<Rightarrow> resource set \<Rightarrow> bool" where
  "guard_fresh es key F \<longleftrightarrow>
     (\<forall>k sk. key = Some k \<and> zipc_get_platform_key (ip_be es) (ip_ipc es) (Some (k @ P_SEM_SUFFIX)) True = Some sk \<longrightarrow>
       R_Sem_Name sk \<notin> F)"

lemma guard_fresh_Diff [simp]: "guard_fresh es key F \<Longrightarrow> guard_fresh es key (F - A)"
  by (auto simp: guard_fresh_def)

lemma shm_guarded_effect:
  assumes "shm_guarded e es fd ex shm s = Some (ok, shm', t)" "R_Fd fd \<in> F" "held_shm shm - sys_names \<subseteq> F"
    "shm_sem shm = None" "guard_fresh es (shm_key shm) F"
  shows "ip_effect F s t (\<lambda>G. if ok then G = (F - {R_Fd fd}) \<union> held_sem_p (shm_sem shm') \<and> held_sem_p (shm_sem shm') \<inter> F = {}
      else G = F - {R_Fd fd} - held_shm shm)"
    "ok \<longrightarrow> (\<exists>sem. shm' = shm\<lparr>shm_sem := Some sem\<rparr>)" "\<not> ok \<longrightarrow> held_shm shm' = {}"
proof -
  obtain s1 sp s2 where c: "shm_close fd s = Some s1"
    and n: "zsemaphore_new es (shm_key shm) 1 (if ex then P_SEM_ACCESS_OPEN else P_SEM_ACCESS_CREATE) s1 = Some (sp, s2)"
    using assms(1) by (auto simp: shm_guarded_def split: Option.bind_splits)
  let ?G = "F - {R_Fd fd}"
  have e1: "ip_effect F s s2 (\<lambda>G. G = ?G \<union> held_sem_p sp \<and> held_sem_p sp \<inter> ?G = {})"
    using assms(5) by (intro ipr.effect_seq[OF shm_close_effect[OF c assms(2)] new_sem_effect(1)[OF n]]) (auto simp: guard_fresh_def)
  have sub: "held_shm shm - sys_names \<subseteq> ?G" using assms(3) by (auto simp: held_shm_def split: if_splits)
  show "ip_effect F s t (\<lambda>G. if ok then G = ?G \<union> held_sem_p (shm_sem shm') \<and> held_sem_p (shm_sem shm') \<inter> F = {}
      else G = ?G - held_shm shm)"
  proof (cases sp)
    case None
    then have k: "pzshm_clean_handle (shm\<lparr>shm_sem := sp\<rparr>) s2 = Some (shm', t)" "\<not> ok"
      using assms(1) c n by (auto simp: shm_guarded_def split: Option.bind_splits)
    have h: "held_shm (shm\<lparr>shm_sem := sp\<rparr>) = held_shm shm" using None assms(4) by (simp add: held_shm_def)
    have "ip_effect F s s2 (\<lambda>G. G = ?G)" using e1 None by simp
    moreover have "ip_effect ?G s2 t (\<lambda>G. G = ?G - held_shm shm)"
      using clean_shm_effect(1)[OF k(1), of ?G] sub h by simp
    ultimately have "ip_effect F s t (\<lambda>G. G = ?G - held_shm shm)" by (rule ipr.effect_seq)
    then show ?thesis using k(2) by simp
  next
    case (Some sem)
    then have "t = s2" "ok" "shm' = shm\<lparr>shm_sem := Some sem\<rparr>" using assms(1) c n by (auto simp: shm_guarded_def)
    moreover have "held_sem sem \<inter> F = held_sem sem \<inter> ?G" using held_sem_p_not(3)[of fd "Some sem"] by auto
    ultimately show ?thesis using e1 Some by simp
  qed
  show "ok \<longrightarrow> (\<exists>sem. shm' = shm\<lparr>shm_sem := Some sem\<rparr>)" "\<not> ok \<longrightarrow> held_shm shm' = {}"
    using assms(1) c n by (auto simp: shm_guarded_def pzshm_clean_handle_def held_shm_def split: Option.bind_splits if_splits)
qed

lemma shm_guard_step:
  assumes "shm_guarded e es fd ex (shm1\<lparr>shm_addr := x\<rparr>) s = Some (ok, shm', t)" "x \<noteq> 0"
    "({R_Fd fd, R_Map x (seg_size shm1)} \<union> held_shm shm1) \<inter> F = {}" "shm_addr shm1 = 0" "shm_sem shm1 = None"
    "guard_fresh es (shm_key shm1) F"
  shows "ip_effect (F \<union> {R_Fd fd} \<union> held_shm shm1 \<union> {R_Map x (seg_size shm1)}) s t
      (\<lambda>G. G = F \<union> held_shm shm' \<and> held_shm shm' \<inter> F = {} \<and> (ok \<longrightarrow> shm_addr shm' \<noteq> 0))"
proof -
  let ?H = "F \<union> {R_Fd fd} \<union> held_shm shm1 \<union> {R_Map x (seg_size shm1)}"
  let ?k = "shm1\<lparr>shm_addr := x\<rparr>"
  have h: "held_shm ?k = held_shm shm1 \<union> {R_Map x (seg_size shm1)}" using assms(2,4,5) by (simp add: held_shm_def)
  have only: "held_shm shm1 \<subseteq> {R_Shm_Name (shm_key shm1)}" using assms(4,5) by (simp add: held_shm_def)
  have fresh: "guard_fresh es (shm_key ?k) ?H" using assms(6) only by (auto simp: guard_fresh_def)
  have sub: "held_shm ?k - sys_names \<subseteq> ?H" using h by auto
  have "R_Fd fd \<in> ?H" "shm_sem ?k = None" using assms(5) by simp_all
  note g = shm_guarded_effect[OF assms(1) this(1) sub this(2) fresh]
  show ?thesis
  proof (cases ok)
    case True
    obtain sem where sem: "shm' = ?k\<lparr>shm_sem := Some sem\<rparr>" using g(2) True h assms(5) by auto
    have hs: "held_shm shm' = held_shm ?k \<union> held_sem sem" by (simp add: sem held_shm_def assms(5))
    have "?H - {R_Fd fd} = F \<union> held_shm ?k" using h only assms(3) by auto
    then have "ip_effect ?H s t (\<lambda>G. G = F \<union> held_shm ?k \<union> held_sem sem \<and> held_sem sem \<inter> ?H = {})"
      using g(1) True h assms(5) sem by simp
    then show ?thesis by (rule ipr.effect_mono) (use hs h assms(2,3) sem in auto)
  next
    case False
    have "?H - {R_Fd fd} - held_shm ?k = F" using h assms(3) by auto
    then have "ip_effect ?H s t (\<lambda>G. G = F)" using g(1) False h assms(5) by simp
    then show ?thesis using g(3) False h assms(5) by simp
  qed
qed

lemma shm_guard_reach:
  assumes "shm_guarded e es fd ex shm s = Some (ok, shm', t)" "shm_sem shm = None"
  shows "\<exists>k. consumes s k t"
  by (rule ipr.effect_reach[OF shm_guarded_effect(1)[OF assms(1) _ _ assms(2), of "{R_Fd fd} \<union> held_shm shm"]])
    (use assms(2) in \<open>auto simp: guard_fresh_def held_shm_def\<close>)

lemma abort_result:
  assumes "shm_abort e m fd shm s = Some (ok, shm', t)"
  shows "\<not> ok \<and> held_shm shm' = {}"
  using assms by (auto simp: shm_abort_def pzshm_clean_handle_def held_shm_def split: Option.bind_splits)

lemma guarded_result:
  assumes "shm_guarded e es fd ex shm s = Some (ok, shm', t)"
  shows "(\<not> ok \<longrightarrow> held_shm shm' = {}) \<and> (ok \<longrightarrow> shm_sem shm' \<noteq> None \<and> seg_size shm' = seg_size shm)"
  using assms by (auto simp: shm_guarded_def pzshm_clean_handle_def held_shm_def split: Option.bind_splits if_splits)

lemma shm_mapped_result:
  assumes "shm_mapped e es fd ex shm s = Some (ok, shm', t)" "shm_sem shm = None"
  shows "(\<not> ok \<longrightarrow> held_shm shm' = {}) \<and>
    (ok \<longrightarrow> shm_sem shm' \<noteq> None \<and> (\<exists>fd ro a. (I_mmap fd (seg_size shm') ro, a) \<in> set (log t)))"
proof -
  obtain m shm1 s1 where z: "shm_sized fd ex shm s = Some ((m, shm1), s1)"
    using assms(1) by (auto simp: shm_mapped_def split: Option.bind_splits)
  show ?thesis
  proof (cases m)
    case (Some msg)
    then have "shm_abort e msg fd shm1 s1 = Some (ok, shm', t)" using assms(1) z by (simp add: shm_mapped_def)
    then show ?thesis using abort_result by blast
  next
    case None
    then obtain a s2 where c: "sys_call (I_mmap fd (seg_size shm1) (shm_perms shm1 = P_SHM_ACCESS_READONLY)) s1 = Some (a, s2)"
      using assms(1) z by (auto simp: shm_mapped_def split: Option.bind_splits)
    show ?thesis
    proof (cases "a_ret a = - 1")
      case True
      then have "shm_abort e I_Mmap fd (shm1\<lparr>shm_addr := 0\<rparr>) s2 = Some (ok, shm', t)"
        using assms(1) z c None by (simp add: shm_mapped_def)
      then show ?thesis using abort_result by blast
    next
      case False
      then have g: "shm_guarded e es fd ex (shm1\<lparr>shm_addr := a_ret a\<rparr>) s2 = Some (ok, shm', t)"
        using assms(1) z c None by (simp add: shm_mapped_def)
      have "shm_sem (shm1\<lparr>shm_addr := a_ret a\<rparr>) = None" using shm_sized_effect(2)[OF z] assms(2) by auto
      then obtain k where "log t = log s2 @ k" using shm_guard_reach[OF g] by (auto simp: consumes_def)
      moreover have "(I_mmap fd (seg_size shm1) (shm_perms shm1 = P_SHM_ACCESS_READONLY), a) \<in> set (log s2)"
        using sys_callD(1)[OF c] by (simp add: consumes_def)
      ultimately show ?thesis using guarded_result[OF g] by auto
    qed
  qed
qed

lemma shm_mapped_effect:
  assumes "shm_mapped e es fd ex shm s = Some (ok, shm', t)" "({R_Fd fd} \<union> held_shm shm) \<inter> F = {}"
    "shm_addr shm = 0" "shm_sem shm = None" "guard_fresh es (shm_key shm) (F \<union> {R_Fd fd} \<union> held_shm shm)"
  shows "ip_effect (F \<union> {R_Fd fd} \<union> held_shm shm) s t
      (\<lambda>G. G = F \<union> held_shm shm' \<and> held_shm shm' \<inter> F = {} \<and> (ok \<longrightarrow> shm_addr shm' \<noteq> 0))"
proof -
  obtain m shm1 s1 where z: "shm_sized fd ex shm s = Some ((m, shm1), s1)"
    using assms(1) by (auto simp: shm_mapped_def split: Option.bind_splits)
  let ?F = "F \<union> {R_Fd fd} \<union> held_shm shm"
  let ?Q = "\<lambda>G. G = F \<union> held_shm shm' \<and> held_shm shm' \<inter> F = {} \<and> (ok \<longrightarrow> shm_addr shm' \<noteq> 0)"
  note z1 = shm_sized_effect[OF z]
  have h1: "held_shm shm1 = held_shm shm" "shm_addr shm1 = 0" "shm_sem shm1 = None" "shm_key shm1 = shm_key shm"
    using z1(2) assms(3,4) by (auto simp: held_shm_def)
  have same: "shm1\<lparr>shm_addr := 0\<rparr> = shm1" using h1(2) by simp
  have abort: "ip_effect ?F u t ?Q" if "shm_abort e msg fd shm1 u = Some (ok, shm', t)" for msg u
  proof -
    have "ip_effect ?F u t (\<lambda>G. G = ?F - {R_Fd fd} - held_shm shm1)" "held_shm shm' = {}" "\<not> ok"
      using shm_abort_effect[OF that, of ?F] h1(1) by auto
    moreover have "?F - {R_Fd fd} - held_shm shm1 = F" using assms(2) h1(1) by auto
    ultimately show ?thesis by simp
  qed
  have "ip_effect ?F s1 t ?Q"
  proof (cases m)
    case (Some msg)
    then have "shm_abort e msg fd shm1 s1 = Some (ok, shm', t)" using assms(1) z by (simp add: shm_mapped_def)
    then show ?thesis by (rule abort)
  next
    case None
    then obtain a s2 where c: "sys_call (I_mmap fd (seg_size shm1) (shm_perms shm1 = P_SHM_ACCESS_READONLY)) s1 = Some (a, s2)"
      using assms(1) z by (auto simp: shm_mapped_def split: Option.bind_splits)
    show ?thesis
    proof (cases "a_ret a = - 1")
      case True
      then have "shm_abort e I_Mmap fd shm1 s2 = Some (ok, shm', t)" using assms(1) z c None same by (simp add: shm_mapped_def)
      then have "ip_effect ?F s2 t ?Q" by (rule abort)
      moreover have "ip_effect ?F s1 s2 (\<lambda>G. G = ?F)" using effect_acquire[OF c, of ?F] True by simp
      ultimately show ?thesis using ipr.effect_seq by blast
    next
      case False
      then have g: "shm_guarded e es fd ex (shm1\<lparr>shm_addr := a_ret a\<rparr>) s2 = Some (ok, shm', t)"
        using assms(1) z c None by (simp add: shm_mapped_def)
      have fr: "guard_fresh es (shm_key shm1) F" using assms(5) h1(4) by (auto simp: guard_fresh_def)
      have e2: "ip_effect (?F \<union> {R_Map (a_ret a) (seg_size shm1)}) s2 t ?Q"
        if "a_ret a \<noteq> 0" "R_Map (a_ret a) (seg_size shm1) \<notin> ?F"
        using shm_guard_step[OF g that(1) _ h1(2,3) fr] that(2) assms(2) h1(1) by auto
      show ?thesis
        by (rule ipr.effect_trans[OF effect_acquire[OF c]]) (use e2 False shm_guard_reach[OF g] h1 in auto)
    qed
  qed
  with z1(1) show ?thesis by (rule ipr.effect_seq)
qed

lemma shm_mapped_reach:
  assumes "shm_mapped e es fd ex shm s = Some (ok, shm', t)" "shm_addr shm = 0" "shm_sem shm = None"
  shows "\<exists>k. consumes s k t"
  by (rule ipr.effect_reach[OF shm_mapped_effect[OF assms(1) _ assms(2,3), of "{}"]])
    (use assms(2,3) in \<open>auto simp: guard_fresh_def held_shm_def\<close>)

lemma create_shm_effect:
  assumes "pzshm_create_handle e es shm s = Some (ok, shm', t)" "\<not> shm_created shm" "shm_addr shm = 0" "shm_sem shm = None"
    "R_Shm_Name (shm_key shm) \<notin> F" "guard_fresh es (shm_key shm) F"
  shows "ip_effect F s t (\<lambda>G. G = F \<union> held_shm shm' \<and> held_shm shm' \<inter> F = {} \<and> (ok \<longrightarrow> shm_addr shm' \<noteq> 0))"
    "\<not> ok \<longrightarrow> held_shm shm' = {}"
    "ok \<longrightarrow> shm_sem shm' \<noteq> None \<and> (\<exists>fd ro a. (I_mmap fd (seg_size shm') ro, a) \<in> set (log t))"
proof -
  let ?Q = "\<lambda>ok shm' G. G = F \<union> held_shm shm' \<and> held_shm shm' \<inter> F = {} \<and> (ok \<longrightarrow> shm_addr shm' \<noteq> 0)"
  let ?R = "\<lambda>ok shm' t. (\<not> ok \<longrightarrow> held_shm shm' = {}) \<and>
    (ok \<longrightarrow> shm_sem shm' \<noteq> None \<and> (\<exists>fd ro a. (I_mmap fd (seg_size shm') ro, a) \<in> set (log t)))"
  have "ip_effect F s t (?Q ok shm') \<and> ?R ok shm' t"
  proof (cases "shm_key shm")
    case None
    then show ?thesis using assms(1-4) by (auto simp: pzshm_create_handle_def held_shm_def intro: ipr.effect_refl)
  next
    case (Some k)
    then obtain fd ex shm1 s1 where o: "shm_opened e shm s = Some (fd, ex, shm1, s1)"
      using assms(1) by (auto simp: pzshm_create_handle_def split: Option.bind_splits)
    note o1 = shm_opened_effect[OF o assms(2-4)]
    show ?thesis
    proof (cases "fd = P_SHM_INVALID_HDL")
      case True
      then obtain c: "pzshm_clean_handle shm1 (ip_report_last e I_Shm_Open s1) = Some (shm', t)" and nok: "\<not> ok"
        using assms(1) o Some by (auto simp: pzshm_create_handle_def split: Option.bind_splits)
      have h: "held_shm shm1 = {}" using o1(3-5) True by (simp add: held_shm_def P_SHM_INVALID_HDL_def)
      have "ip_effect F s s1 (\<lambda>G. G = F)" using o1(1) True h by (simp add: P_SHM_INVALID_HDL_def)
      moreover have "ip_effect F s1 t (\<lambda>G. G = F)" using clean_shm_effect(1)[OF c, of F] h by simp
      ultimately have "ip_effect F s t (\<lambda>G. G = F)" by (rule ipr.effect_seq)
      then show ?thesis using nok clean_shm_effect(2)[OF c, of F] h by simp
    next
      case False
      then have m: "shm_mapped e es fd ex shm1 s1 = Some (ok, shm', t)" using assms(1) o Some by (auto simp: pzshm_create_handle_def)
      have h: "R_Sem_Name sk \<notin> held_shm shm1" for sk using o1(3,4) by (auto simp: held_shm_def split: if_splits)
      have e2: "ip_effect G s1 t (?Q ok shm')"
        if "G = F \<union> {R_Fd fd} \<union> held_shm shm1 \<and> ({R_Fd fd} \<union> held_shm shm1) \<inter> F = {}" for G
        unfolding conjunct1[OF that]
        by (rule shm_mapped_effect[OF m conjunct2[OF that] o1(3,4)]) (use assms(6) o1(2) h in \<open>auto simp: guard_fresh_def\<close>)
      have "ip_effect F s t (?Q ok shm')"
        by (rule ipr.effect_trans[OF _ e2]) (use o1(1) False shm_mapped_reach[OF m o1(3,4)] in \<open>simp_all add: P_SHM_INVALID_HDL_def\<close>)
      then show ?thesis using shm_mapped_result[OF m o1(4)] by blast
    qed
  qed
  then show "ip_effect F s t (?Q ok shm')" "\<not> ok \<longrightarrow> held_shm shm' = {}"
    "ok \<longrightarrow> shm_sem shm' \<noteq> None \<and> (\<exists>fd ro a. (I_mmap fd (seg_size shm') ro, a) \<in> set (log t))" by blast+
qed

section \<open>Objects\<close>

text \<open>The names that a call with this name would make are not held.\<close>

definition names_fresh :: "ip_env \<Rightarrow> ip_env \<Rightarrow> string option \<Rightarrow> resource set \<Rightarrow> bool" where
  "names_fresh e es name F \<longleftrightarrow>
     (\<forall>nm key. name = Some nm \<and> zipc_get_platform_key (ip_be e) (ip_ipc e) (Some (nm @ P_SHM_SUFFIX)) True = Some key \<longrightarrow>
       R_Shm_Name key \<notin> F \<and> guard_fresh es key F)"

lemma clean_nothing:
  assumes "pzshm_clean_handle shm s = Some (shm', t)" "held_shm shm = {}"
  shows "ip_effect F s t (\<lambda>G. G = F)"
  using clean_shm_effect(1)[OF assms(1), of F] assms(2) by simp

text \<open>What \<open>zshm_new\<close> returns, with the length \<open>m\<close> that was mapped.\<close>

lemma new_shm_effect:
  assumes "zshm_new e es name n perms s = Some (shp, t)" "names_fresh e es name F"
  shows "case shp of
      None \<Rightarrow> ip_effect F s t (\<lambda>G. G = F)
    | Some shm \<Rightarrow> shm_sem shm \<noteq> None \<and> (\<exists>m. seg_size shm = (if n < m \<and> n \<noteq> 0 then n else m) \<and>
        (\<exists>fd ro a. (I_mmap fd m ro, a) \<in> set (log t)) \<and>
        ip_effect F s t (\<lambda>G. G = F \<union> held_shm (shm\<lparr>seg_size := m\<rparr>) \<and> held_shm (shm\<lparr>seg_size := m\<rparr>) \<inter> F = {} \<and> shm_addr shm \<noteq> 0))"
proof (cases "\<exists>nm. name = Some nm \<and> obj_mem e \<and> name_mem e")
  case False
  then show ?thesis using assms(1)
    by (auto simp: zshm_new_def zshm_free_def pzshm_clean_handle_def call_if_def zsemaphore_free_def
        intro: ipr.effect_refl split: option.splits if_splits)
next
  case True
  then obtain nm where nm: "name = Some nm" "obj_mem e" "name_mem e" by blast
  then obtain key where key: "zipc_get_platform_key (ip_be e) (ip_ipc e) (Some (nm @ P_SHM_SUFFIX)) True = Some key"
    using assms(1) by (auto simp: zshm_new_def split: Option.bind_splits)
  let ?k = "\<lparr>shm_created = False, shm_key = key, shm_addr = 0, seg_size = n, shm_sem = None, shm_perms = perms\<rparr>"
  obtain ok shm s1 where h: "pzshm_create_handle e es ?k s = Some (ok, shm, s1)"
    using assms(1) nm key by (auto simp: zshm_new_def split: Option.bind_splits)
  have "R_Shm_Name (shm_key ?k) \<notin> F" "guard_fresh es (shm_key ?k) F" using assms(2) nm key by (auto simp: names_fresh_def)
  note e1 = create_shm_effect[OF h _ _ _ this, simplified]
  show ?thesis
  proof (cases ok)
    case True
    then have "shp = Some (if n < seg_size shm \<and> n \<noteq> 0 then shm\<lparr>seg_size := n\<rparr> else shm)" "t = s1"
      using assms(1) nm key h by (auto simp: zshm_new_def)
    then show ?thesis using e1 True by (auto intro!: exI[of _ "seg_size shm"])
  next
    case False
    then obtain shm' where c: "pzshm_clean_handle shm s1 = Some (shm', t)" and n: "shp = None"
      using assms(1) nm key h by (auto simp: zshm_new_def zshm_free_def split: Option.bind_splits)
    have "ip_effect F s s1 (\<lambda>G. G = F)" using e1 False by simp
    moreover have "ip_effect F s1 t (\<lambda>G. G = F)" by (rule clean_nothing[OF c]) (use e1(2) False in simp)
    ultimately have "ip_effect F s t (\<lambda>G. G = F)" by (rule ipr.effect_seq)
    then show ?thesis using n by simp
  qed
qed

text \<open>The life of an object: it is made, locked, unlocked and taken over any number of times, and freed.\<close>

datatype shm_use = Use_Lock | Use_Unlock | Use_Own

fun shm_uses :: "ip_env \<Rightarrow> shm_use list \<Rightarrow> PShm option \<Rightarrow> ip_sys \<Rightarrow> (PShm option \<times> ip_sys) option" where
  "shm_uses e [] shp s = Some (shp, s)"
| "shm_uses e (Use_Lock # us) shp s = do { (r, t) \<leftarrow> zshm_lock e shp s; shm_uses e us shp t }"
| "shm_uses e (Use_Unlock # us) shp s = do { (r, t) \<leftarrow> zshm_unlock e shp s; shm_uses e us shp t }"
| "shm_uses e (Use_Own # us) shp s = shm_uses e us (zshm_take_ownership shp) s"

definition shm_session ::
    "ip_env \<Rightarrow> ip_env \<Rightarrow> string option \<Rightarrow> psize \<Rightarrow> PShmAccessPerms \<Rightarrow> shm_use list \<Rightarrow> ip_sys \<Rightarrow> ip_sys option" where
  "shm_session e es name n perms us s = do {
     (shp, s1) \<leftarrow> zshm_new e es name n perms s;
     (shp', s2) \<leftarrow> shm_uses e us shp s1;
     zshm_free shp' s2
   }"

definition held_shm_p :: "PShm option \<Rightarrow> resource set" where
  "held_shm_p shp = (case shp of None \<Rightarrow> {} | Some shm \<Rightarrow> held_shm shm)"

lemma held_shm_p_simps [simp]: "held_shm_p None = {}" "held_shm_p (Some shm) = held_shm shm"
  by (simp_all add: held_shm_p_def)

lemma free_shm_effect:
  assumes "zshm_free shp s = Some t" "held_shm_p shp - sys_names \<subseteq> F"
  shows "ip_effect F s t (\<lambda>G. G = F - held_shm_p shp)"
  using assms clean_shm_effect(1) by (auto simp: zshm_free_def intro: ipr.effect_refl split: option.splits Option.bind_splits)

lemma talks_report [simp]:
  "ipr.talks k s (ip_report e c m t) = ipr.talks k s t" "ipr.talks k s (ip_report_last e m t) = ipr.talks k s t"
  by (simp_all add: ip_report_def ip_report_last_def report_def)

lemma talks_wait: "retry again (I_sem_wait h) s = Some (a, t) \<Longrightarrow> ipr.talks () s t"
  by (erule ipr.talks_retry) simp

lemma talks_post: "sys_call (I_sem_post h) s = Some (a, t) \<Longrightarrow> ipr.talks () s t"
  by (erule ipr.talks_call) simp

lemma lock_quiet:
  "zshm_lock e shp s = Some (r, t) \<Longrightarrow> ipr.talks () s t" "zshm_unlock e shp s = Some (r, t) \<Longrightarrow> ipr.talks () s t"
  by (auto simp: zshm_lock_def zshm_unlock_def zsemaphore_acquire_def zsemaphore_release_def
      dest!: talks_wait talks_post split: option.splits Option.bind_splits if_splits)

lemma own_held:
  "held_shm_p shp \<subseteq> held_shm_p (zshm_take_ownership shp)" "held_shm_p (zshm_take_ownership shp) \<subseteq> held_shm_p shp \<union> sys_names"
  by (cases shp; auto simp: zshm_take_ownership_def zsemaphore_take_ownership_def held_shm_def held_sem_p_def held_sem_def
      split: option.splits)+

lemma uses_effect:
  "shm_uses e us shp s = Some (shp', t) \<Longrightarrow>
   ipr.talks () s t \<and> held_shm_p shp \<subseteq> held_shm_p shp' \<and> held_shm_p shp' \<subseteq> held_shm_p shp \<union> sys_names"
proof (induction us arbitrary: shp s)
  case (Cons u us)
  show ?case
  proof (cases u)
    case Use_Lock
    then obtain r b where st: "zshm_lock e shp s = Some (r, b)" "shm_uses e us shp b = Some (shp', t)"
      using Cons.prems by (auto split: Option.bind_splits)
    show ?thesis using Cons.IH[OF st(2)] ipr.talks_trans[OF lock_quiet(1)[OF st(1)]] by blast
  next
    case Use_Unlock
    then obtain r b where st: "zshm_unlock e shp s = Some (r, b)" "shm_uses e us shp b = Some (shp', t)"
      using Cons.prems by (auto split: Option.bind_splits)
    show ?thesis using Cons.IH[OF st(2)] ipr.talks_trans[OF lock_quiet(2)[OF st(1)]] by blast
  next
    case Use_Own
    then have "shm_uses e us (zshm_take_ownership shp) s = Some (shp', t)" using Cons.prems by simp
    from Cons.IH[OF this] show ?thesis using own_held[of shp] by blast
  qed
qed auto


text \<open>The size of a new segment cannot be set: the call fails, and the descriptor and the name are given back.\<close>

lemmas shm_run_simps = zshm_new_def pzshm_create_handle_def shm_opened_def shm_open_loop_def shm_mapped_def shm_sized_def shm_abort_def
  shm_guarded_def shm_close_def pzshm_clean_handle_def zshm_free_def zsemaphore_new_def pzsemaphore_create_handle_def sem_opened_def
  sem_open_loop_def pzsemaphore_clean_handle_def zsemaphore_free_def retry.simps sys_call_def P_SHM_INVALID_HDL_def ip_sample_simps




end
