(* ===== verification/PRWLock_Win.thy ===== *)
theory PRWLock_Win
  imports Thread_Counts
begin

text \<open>
  The read-write lock of \<^verbatim>\<open>src/src/os/win/prwlock-win.c\<close> for systems without the locks of Windows Vista: one word,
  changed by compare-and-exchange only, and an event on which threads wait that have tried in vain
  for long enough. Every function is given as the steps between its accesses to the shared word and
  the event; a step relation interleaves the steps of any number of threads.
\<close>

unbundle bit_operations_syntax

section \<open>The word\<close>

definition P_RWLOCK_XP_MAX_SPIN :: int where "P_RWLOCK_XP_MAX_SPIN = 4000"

definition P_RWLOCK_XP_IS_CLEAR :: "puint32 \<Rightarrow> bool" where
  "P_RWLOCK_XP_IS_CLEAR lock \<longleftrightarrow> lock AND 0x40007FFF = 0"

definition P_RWLOCK_XP_IS_WRITER :: "puint32 \<Rightarrow> bool" where
  "P_RWLOCK_XP_IS_WRITER lock \<longleftrightarrow> lock AND 0x40000000 \<noteq> 0"

definition P_RWLOCK_XP_SET_WRITER :: "puint32 \<Rightarrow> puint32" where
  "P_RWLOCK_XP_SET_WRITER lock = lock OR 0x40000000"

definition P_RWLOCK_XP_UNSET_WRITER :: "puint32 \<Rightarrow> puint32" where
  "P_RWLOCK_XP_UNSET_WRITER lock = lock AND NOT 0x40000000"

definition P_RWLOCK_XP_SET_READERS :: "puint32 \<Rightarrow> puint32 \<Rightarrow> puint32" where
  "P_RWLOCK_XP_SET_READERS lock readers = (lock AND NOT 0x00007FFF) OR readers"

definition P_RWLOCK_XP_READER_COUNT :: "puint32 \<Rightarrow> puint32" where
  "P_RWLOCK_XP_READER_COUNT lock = lock AND 0x00007FFF"

definition P_RWLOCK_XP_SET_WAITING :: "puint32 \<Rightarrow> puint32 \<Rightarrow> puint32" where
  "P_RWLOCK_XP_SET_WAITING lock waiting = (lock AND NOT 0x3FFF8000) OR push_bit 15 waiting"

definition P_RWLOCK_XP_WAITING_COUNT :: "puint32 \<Rightarrow> puint32" where
  "P_RWLOCK_XP_WAITING_COUNT lock = drop_bit 15 (lock AND 0x3FFF8000)"

section \<open>The functions\<close>

text \<open>The event resets itself when a waiting thread is released; \<open>xp_event\<close> says whether it is set.\<close>

record PRWLockXP =
  xp_lock :: puint32
  xp_event :: bool

definition cas :: "puint32 \<Rightarrow> puint32 \<Rightarrow> PRWLockXP \<Rightarrow> bool \<times> PRWLockXP" where
  "cas old new l = (if xp_lock l = old then (True, l\<lparr>xp_lock := new\<rparr>) else (False, l))"

datatype xp_kind = XP_Read | XP_Write

text \<open>
  Where a thread is: outside, in one of the functions in front of an access, with the local variables
  that are still used there, or inside the lock. The counter \<open>i\<close> of the loops is not bounded here.
\<close>

datatype xp_pc = Out | Inside xp_kind
  | Lock_Get xp_kind int | Lock_Cas xp_kind int puint32 | Wait_Cas xp_kind int puint32
  | Waiting xp_kind | Dec_Get xp_kind | Dec_Cas xp_kind puint32
  | Try_Get xp_kind | Try_Cas xp_kind puint32
  | Read_End_Get | Read_End_Set puint32 | Read_End_Cas puint32
  | Write_End_Get | Write_End_Set | Write_End_Cas puint32

text \<open>
  A step of a function, \<open>None\<close> where the thread is not in that function or has to wait. With \<open>fails\<close> the
  wait may return with an error, after which the functions go ahead; setting the event succeeds.
\<close>

definition counter_wait :: "puint32 \<Rightarrow> puint32" where
  "counter_wait t = P_RWLOCK_XP_SET_WAITING t (P_RWLOCK_XP_WAITING_COUNT t + 1)"

definition counter_awake :: "puint32 \<Rightarrow> puint32" where
  "counter_awake t = P_RWLOCK_XP_SET_WAITING t (P_RWLOCK_XP_WAITING_COUNT t - 1)"

definition wait_event :: "bool \<Rightarrow> xp_kind \<Rightarrow> PRWLockXP \<Rightarrow> (xp_pc \<times> PRWLockXP) option" where
  "wait_event fails k l =
     (if xp_event l then Some (Dec_Get k, l\<lparr>xp_event := False\<rparr>)
      else if fails then Some (Dec_Get k, l) else None)"

fun pzrwlock_start_read_xp :: "bool \<Rightarrow> xp_pc \<Rightarrow> PRWLockXP \<Rightarrow> (xp_pc \<times> PRWLockXP) option" where
  "pzrwlock_start_read_xp fails (Lock_Get XP_Read i) l =
     Some (if \<not> P_RWLOCK_XP_IS_WRITER (xp_lock l) then Lock_Cas XP_Read i (xp_lock l)
           else if i < P_RWLOCK_XP_MAX_SPIN then Lock_Get XP_Read (i + 1)
           else Wait_Cas XP_Read i (xp_lock l), l)"
| "pzrwlock_start_read_xp fails (Lock_Cas XP_Read i tmzlock) l =
     (let counter = P_RWLOCK_XP_SET_READERS tmzlock (P_RWLOCK_XP_READER_COUNT tmzlock + 1);
          (ok, l') = cas tmzlock counter l
      in Some (if ok then Inside XP_Read else Lock_Get XP_Read (i + 1), l'))"
| "pzrwlock_start_read_xp fails (Wait_Cas XP_Read i tmzlock) l =
     (let (ok, l') = cas tmzlock (counter_wait tmzlock) l
      in Some (if ok then Waiting XP_Read else Lock_Get XP_Read (i + 1), l'))"
| "pzrwlock_start_read_xp fails (Waiting XP_Read) l = wait_event fails XP_Read l"
| "pzrwlock_start_read_xp fails (Dec_Get XP_Read) l = Some (Dec_Cas XP_Read (xp_lock l), l)"
| "pzrwlock_start_read_xp fails (Dec_Cas XP_Read tmzlock) l =
     (let (ok, l') = cas tmzlock (counter_awake tmzlock) l
      in Some (if ok then Lock_Get XP_Read 1 else Dec_Get XP_Read, l'))"
| "pzrwlock_start_read_xp fails p l = None"

fun pzrwlock_start_read_try_xp :: "xp_pc \<Rightarrow> PRWLockXP \<Rightarrow> (xp_pc \<times> PRWLockXP) option" where
  "pzrwlock_start_read_try_xp (Try_Get XP_Read) l =
     Some (if P_RWLOCK_XP_IS_WRITER (xp_lock l) then Out else Try_Cas XP_Read (xp_lock l), l)"
| "pzrwlock_start_read_try_xp (Try_Cas XP_Read tmzlock) l =
     (let counter = P_RWLOCK_XP_SET_READERS tmzlock (P_RWLOCK_XP_READER_COUNT tmzlock + 1);
          (ok, l') = cas tmzlock counter l
      in Some (if ok then Inside XP_Read else Out, l'))"
| "pzrwlock_start_read_try_xp p l = None"

fun pzrwlock_end_read_xp :: "xp_pc \<Rightarrow> PRWLockXP \<Rightarrow> (xp_pc \<times> PRWLockXP) option" where
  "pzrwlock_end_read_xp Read_End_Get l =
     (let tmzlock = xp_lock l; counter = P_RWLOCK_XP_READER_COUNT tmzlock
      in Some (if counter = 0 then Out
               else if counter = 1 \<and> P_RWLOCK_XP_WAITING_COUNT tmzlock \<noteq> 0 then Read_End_Set tmzlock
               else Read_End_Cas tmzlock, l))"
| "pzrwlock_end_read_xp (Read_End_Set tmzlock) l = Some (Read_End_Cas tmzlock, l\<lparr>xp_event := True\<rparr>)"
| "pzrwlock_end_read_xp (Read_End_Cas tmzlock) l =
     (let counter = P_RWLOCK_XP_SET_READERS tmzlock (P_RWLOCK_XP_READER_COUNT tmzlock - 1);
          (ok, l') = cas tmzlock counter l
      in Some (if ok then Out else Read_End_Get, l'))"
| "pzrwlock_end_read_xp p l = None"

fun pzrwlock_start_write_xp :: "bool \<Rightarrow> xp_pc \<Rightarrow> PRWLockXP \<Rightarrow> (xp_pc \<times> PRWLockXP) option" where
  "pzrwlock_start_write_xp fails (Lock_Get XP_Write i) l =
     Some (if P_RWLOCK_XP_IS_CLEAR (xp_lock l) then Lock_Cas XP_Write i (xp_lock l)
           else if i < P_RWLOCK_XP_MAX_SPIN then Lock_Get XP_Write (i + 1)
           else Wait_Cas XP_Write i (xp_lock l), l)"
| "pzrwlock_start_write_xp fails (Lock_Cas XP_Write i tmzlock) l =
     (let (ok, l') = cas tmzlock (P_RWLOCK_XP_SET_WRITER tmzlock) l
      in Some (if ok then Inside XP_Write else Lock_Get XP_Write (i + 1), l'))"
| "pzrwlock_start_write_xp fails (Wait_Cas XP_Write i tmzlock) l =
     (let (ok, l') = cas tmzlock (counter_wait tmzlock) l
      in Some (if ok then Waiting XP_Write else Lock_Get XP_Write (i + 1), l'))"
| "pzrwlock_start_write_xp fails (Waiting XP_Write) l = wait_event fails XP_Write l"
| "pzrwlock_start_write_xp fails (Dec_Get XP_Write) l = Some (Dec_Cas XP_Write (xp_lock l), l)"
| "pzrwlock_start_write_xp fails (Dec_Cas XP_Write tmzlock) l =
     (let (ok, l') = cas tmzlock (counter_awake tmzlock) l
      in Some (if ok then Lock_Get XP_Write 1 else Dec_Get XP_Write, l'))"
| "pzrwlock_start_write_xp fails p l = None"

fun pzrwlock_start_write_try_xp :: "xp_pc \<Rightarrow> PRWLockXP \<Rightarrow> (xp_pc \<times> PRWLockXP) option" where
  "pzrwlock_start_write_try_xp (Try_Get XP_Write) l =
     Some (if P_RWLOCK_XP_IS_CLEAR (xp_lock l) then Try_Cas XP_Write (xp_lock l) else Out, l)"
| "pzrwlock_start_write_try_xp (Try_Cas XP_Write tmzlock) l =
     (let (ok, l') = cas tmzlock (P_RWLOCK_XP_SET_WRITER tmzlock) l
      in Some (if ok then Inside XP_Write else Out, l'))"
| "pzrwlock_start_write_try_xp p l = None"

fun pzrwlock_end_write_xp :: "xp_pc \<Rightarrow> PRWLockXP \<Rightarrow> (xp_pc \<times> PRWLockXP) option" where
  "pzrwlock_end_write_xp Write_End_Get l =
     Some (if \<not> P_RWLOCK_XP_IS_WRITER (xp_lock l) then Out
           else if P_RWLOCK_XP_WAITING_COUNT (xp_lock l) = 0 then Write_End_Cas (xp_lock l)
           else Write_End_Set, l)"
| "pzrwlock_end_write_xp Write_End_Set l = Some (Write_End_Get, l\<lparr>xp_event := True\<rparr>)"
| "pzrwlock_end_write_xp (Write_End_Cas tmzlock) l =
     (let (ok, l') = cas tmzlock (P_RWLOCK_XP_UNSET_WRITER tmzlock) l
      in Some (if ok then Out else Write_End_Get, l'))"
| "pzrwlock_end_write_xp p l = None"

text \<open>A new lock.\<close>

definition pzrwlock_init_xp :: "bool \<Rightarrow> bool \<Rightarrow> PRWLockXP option" where
  "pzrwlock_init_xp mem event_ok = (if \<not> mem then None else if \<not> event_ok then None else Some \<lparr>xp_lock = 0, xp_event = False\<rparr>)"

section \<open>Threads\<close>

record xp_sys =
  xp :: PRWLockXP
  at :: "nat \<Rightarrow> xp_pc"

text \<open>
  A step of one thread: it calls a function, which it does with the lock as the functions are to be
  used, or goes on in the one that it is in.
\<close>

inductive xp_step :: "nat \<Rightarrow> bool \<Rightarrow> xp_sys \<Rightarrow> xp_sys \<Rightarrow> bool" for N fails where
  call_lock: "i < N \<Longrightarrow> at s i = Out \<Longrightarrow> xp_step N fails s (s\<lparr>at := (at s)(i := Lock_Get k 0)\<rparr>)"
| call_try: "i < N \<Longrightarrow> at s i = Out \<Longrightarrow> xp_step N fails s (s\<lparr>at := (at s)(i := Try_Get k)\<rparr>)"
| call_unlock: "i < N \<Longrightarrow> at s i = Inside k \<Longrightarrow>
    xp_step N fails s (s\<lparr>at := (at s)(i := if k = XP_Read then Read_End_Get else Write_End_Get)\<rparr>)"
| in_start_read: "i < N \<Longrightarrow> pzrwlock_start_read_xp fails (at s i) (xp s) = Some (p, l) \<Longrightarrow>
    xp_step N fails s \<lparr>xp = l, at = (at s)(i := p)\<rparr>"
| in_read_try: "i < N \<Longrightarrow> pzrwlock_start_read_try_xp (at s i) (xp s) = Some (p, l) \<Longrightarrow>
    xp_step N fails s \<lparr>xp = l, at = (at s)(i := p)\<rparr>"
| in_end_read: "i < N \<Longrightarrow> pzrwlock_end_read_xp (at s i) (xp s) = Some (p, l) \<Longrightarrow>
    xp_step N fails s \<lparr>xp = l, at = (at s)(i := p)\<rparr>"
| in_start_write: "i < N \<Longrightarrow> pzrwlock_start_write_xp fails (at s i) (xp s) = Some (p, l) \<Longrightarrow>
    xp_step N fails s \<lparr>xp = l, at = (at s)(i := p)\<rparr>"
| in_write_try: "i < N \<Longrightarrow> pzrwlock_start_write_try_xp (at s i) (xp s) = Some (p, l) \<Longrightarrow>
    xp_step N fails s \<lparr>xp = l, at = (at s)(i := p)\<rparr>"
| in_end_write: "i < N \<Longrightarrow> pzrwlock_end_write_xp (at s i) (xp s) = Some (p, l) \<Longrightarrow>
    xp_step N fails s \<lparr>xp = l, at = (at s)(i := p)\<rparr>"

inductive xp_reachable :: "nat \<Rightarrow> bool \<Rightarrow> xp_sys \<Rightarrow> bool" for N fails where
  xp_start: "pzrwlock_init_xp True True = Some l \<Longrightarrow> xp_reachable N fails \<lparr>xp = l, at = (\<lambda>_. Out)\<rparr>"
| xp_next: "xp_reachable N fails s \<Longrightarrow> xp_step N fails s t \<Longrightarrow> xp_reachable N fails t"

section \<open>Counters in the word\<close>

definition xp_word :: "nat \<Rightarrow> nat \<Rightarrow> bool \<Rightarrow> puint32" where
  "xp_word r q w = pack r q OR (if w then 0x40000000 else 0)"

lemma bit_writer: "bit (0x40000000 :: puint32) n \<longleftrightarrow> n = 30"
proof -
  have "(0x40000000 :: puint32) = push_bit 30 1" by code_simp
  then have "bit (0x40000000 :: puint32) n = bit (push_bit 30 1 :: puint32) n" by (simp only:)
  then show ?thesis unfolding bit_push_bit_iff possible_bit_word bit_1_iff by auto
qed

lemma bit_clear: "bit (0x40007FFF :: puint32) n \<longleftrightarrow> n < 15 \<or> n = 30"
proof -
  have "(0x40007FFF :: puint32) = 0x40000000 OR 0x7FFF" by code_simp
  then have "bit (0x40007FFF :: puint32) n = bit (0x40000000 OR 0x7FFF :: puint32) n" by (simp only:)
  then show ?thesis unfolding bit_or_iff bit_writer mask_bits by auto
qed

lemma bit_flag: "bit (if w then 0x40000000 else 0 :: puint32) n \<longleftrightarrow> w \<and> n = 30"
proof (cases w)
  case True
  show ?thesis unfolding if_P[OF True] bit_writer using True by simp
qed simp

lemma bit_xp_word:
  assumes "r < 2 ^ 15" "q < 2 ^ 15"
  shows "bit (xp_word r q w) n \<longleftrightarrow> bit r n \<or> 15 \<le> n \<and> bit q (n - 15) \<or> n = 30 \<and> w"
  unfolding xp_word_def bit_or_iff bit_pack[OF assms] bit_flag by auto

lemmas xp_bits = bit_and_iff bit_or_iff bit_not_iff bit_push_bit_iff bit_drop_bit_eq mask_bits bit_writer bit_clear bit_flag bit_of_nat_iff
  possible_bit_word comp_def

lemma xp_word_read:
  assumes "r < 2 ^ 15" "q < 2 ^ 15"
  shows "P_RWLOCK_XP_READER_COUNT (xp_word r q w) = of_nat r" "P_RWLOCK_XP_WAITING_COUNT (xp_word r q w) = of_nat q"
    "P_RWLOCK_XP_IS_WRITER (xp_word r q w) \<longleftrightarrow> w" "P_RWLOCK_XP_IS_CLEAR (xp_word r q w) \<longleftrightarrow> r = 0 \<and> \<not> w"
proof -
  note b = bit_small[OF assms(1)] bit_small[OF assms(2)]
  show "P_RWLOCK_XP_READER_COUNT (xp_word r q w) = of_nat r"
    by (rule bit_word_eqI) (unfold P_RWLOCK_XP_READER_COUNT_def bit_xp_word[OF assms] xp_bits, use b in auto)
  show "P_RWLOCK_XP_WAITING_COUNT (xp_word r q w) = of_nat q"
    by (rule bit_word_eqI) (unfold P_RWLOCK_XP_WAITING_COUNT_def bit_xp_word[OF assms] xp_bits, use b in fastforce)
  have b30: "\<not> bit r 30" "\<not> bit q (30 - 15)" using b(1)[of 30] b(2)[of 15] by auto
  have "xp_word r q w AND 0x40000000 = (if w then 0x40000000 else 0)"
    by (rule bit_word_eqI) (unfold bit_xp_word[OF assms] xp_bits, use b30 in auto)
  then show "P_RWLOCK_XP_IS_WRITER (xp_word r q w) \<longleftrightarrow> w" by (simp add: P_RWLOCK_XP_IS_WRITER_def)
  have "xp_word r q w AND 0x40007FFF = of_nat r OR (if w then 0x40000000 else 0)"
    by (rule bit_word_eqI) (unfold bit_xp_word[OF assms] xp_bits, use b b30 in auto)
  moreover have "(of_nat r OR (if w then 0x40000000 else 0) = (0 :: puint32)) \<longleftrightarrow> r = 0 \<and> \<not> w"
    using of_nat_32_zero[OF assms(1)] by (auto simp: or_eq_0_iff)
  ultimately show "P_RWLOCK_XP_IS_CLEAR (xp_word r q w) \<longleftrightarrow> r = 0 \<and> \<not> w" by (simp add: P_RWLOCK_XP_IS_CLEAR_def)
qed

lemma xp_word_set:
  assumes "r < 2 ^ 15" "q < 2 ^ 15"
  shows "r' < 2 ^ 15 \<Longrightarrow> P_RWLOCK_XP_SET_READERS (xp_word r q w) (of_nat r') = xp_word r' q w"
    "q' < 2 ^ 15 \<Longrightarrow> P_RWLOCK_XP_SET_WAITING (xp_word r q w) (of_nat q') = xp_word r q' w"
    "P_RWLOCK_XP_SET_WRITER (xp_word r q w) = xp_word r q True" "P_RWLOCK_XP_UNSET_WRITER (xp_word r q w) = xp_word r q False"
proof -
  note b = bit_small[OF assms(1)] bit_small[OF assms(2)]
  show "P_RWLOCK_XP_SET_READERS (xp_word r q w) (of_nat r') = xp_word r' q w" if "r' < 2 ^ 15"
    by (rule bit_word_eqI)
      (unfold P_RWLOCK_XP_SET_READERS_def bit_xp_word[OF assms] bit_xp_word[OF that assms(2)] xp_bits, use b bit_small[OF that] in fastforce)
  show "P_RWLOCK_XP_SET_WAITING (xp_word r q w) (of_nat q') = xp_word r q' w" if "q' < 2 ^ 15"
    by (rule bit_word_eqI)
      (unfold P_RWLOCK_XP_SET_WAITING_def bit_xp_word[OF assms] bit_xp_word[OF assms(1) that] xp_bits, use b bit_small[OF that] in fastforce)
  have b30: "\<not> bit r 30" "\<not> bit q (30 - 15)" using b(1)[of 30] b(2)[of 15] by auto
  show "P_RWLOCK_XP_SET_WRITER (xp_word r q w) = xp_word r q True"
    by (rule bit_word_eqI) (unfold P_RWLOCK_XP_SET_WRITER_def bit_xp_word[OF assms] xp_bits, auto)
  show "P_RWLOCK_XP_UNSET_WRITER (xp_word r q w) = xp_word r q False"
    by (rule bit_word_eqI) (unfold P_RWLOCK_XP_UNSET_WRITER_def bit_xp_word[OF assms] xp_bits, use b30 in auto)
qed

lemma xp_word_counts:
  assumes "r < 2 ^ 15" "q < 2 ^ 15"
  shows "r + 1 < 2 ^ 15 \<Longrightarrow> P_RWLOCK_XP_SET_READERS (xp_word r q w) (P_RWLOCK_XP_READER_COUNT (xp_word r q w) + 1) = xp_word (r + 1) q w"
    "0 < r \<Longrightarrow> P_RWLOCK_XP_SET_READERS (xp_word r q w) (P_RWLOCK_XP_READER_COUNT (xp_word r q w) - 1) = xp_word (r - 1) q w"
    "q + 1 < 2 ^ 15 \<Longrightarrow> counter_wait (xp_word r q w) = xp_word r (q + 1) w"
    "0 < q \<Longrightarrow> counter_awake (xp_word r q w) = xp_word r (q - 1) w"
proof -
  note rd = xp_word_read(1,2)[OF assms, of w]
  have plus: "(of_nat n :: puint32) + 1 = of_nat (n + 1)" for n by simp
  show "P_RWLOCK_XP_SET_READERS (xp_word r q w) (P_RWLOCK_XP_READER_COUNT (xp_word r q w) + 1) = xp_word (r + 1) q w" if "r + 1 < 2 ^ 15"
    unfolding rd plus by (rule xp_word_set(1)[OF assms that])
  show "counter_wait (xp_word r q w) = xp_word r (q + 1) w" if "q + 1 < 2 ^ 15"
    unfolding counter_wait_def rd plus by (rule xp_word_set(2)[OF assms that])
  show "P_RWLOCK_XP_SET_READERS (xp_word r q w) (P_RWLOCK_XP_READER_COUNT (xp_word r q w) - 1) = xp_word (r - 1) q w" if "0 < r"
    unfolding rd of_nat_minus1[OF that] by (rule xp_word_set(1)[OF assms]) (use assms in simp)
  show "counter_awake (xp_word r q w) = xp_word r (q - 1) w" if "0 < q"
    unfolding counter_awake_def rd of_nat_minus1[OF that] by (rule xp_word_set(2)[OF assms]) (use assms in simp)
qed

section \<open>The invariant\<close>

text \<open>What a thread counts as: a reader until its unlocking has succeeded, and waiting until it has left the queue.\<close>

datatype xp_role = Free | Reader | Writer | Queued

fun xp_class :: "xp_pc \<Rightarrow> xp_role" where
  "xp_class (Inside k) = (if k = XP_Read then Reader else Writer)"
| "xp_class Read_End_Get = Reader" | "xp_class (Read_End_Set t) = Reader" | "xp_class (Read_End_Cas t) = Reader"
| "xp_class Write_End_Get = Writer" | "xp_class Write_End_Set = Writer" | "xp_class (Write_End_Cas t) = Writer"
| "xp_class (Waiting k) = Queued" | "xp_class (Dec_Get k) = Queued" | "xp_class (Dec_Cas k t) = Queued"
| "xp_class p = Free"

abbreviation xp_count :: "nat \<Rightarrow> (nat \<Rightarrow> xp_pc) \<Rightarrow> xp_role \<Rightarrow> nat" where
  "xp_count N f c \<equiv> threads N (xp_class \<circ> f) {c}"

text \<open>What a function knows of the value that it has read.\<close>

fun xp_known :: "xp_pc \<Rightarrow> bool" where
  "xp_known (Lock_Cas XP_Read i t) \<longleftrightarrow> \<not> P_RWLOCK_XP_IS_WRITER t"
| "xp_known (Lock_Cas XP_Write i t) \<longleftrightarrow> P_RWLOCK_XP_IS_CLEAR t"
| "xp_known (Try_Cas XP_Read t) \<longleftrightarrow> \<not> P_RWLOCK_XP_IS_WRITER t"
| "xp_known (Try_Cas XP_Write t) \<longleftrightarrow> P_RWLOCK_XP_IS_CLEAR t"
| "xp_known p \<longleftrightarrow> True"

definition xp_inv :: "nat \<Rightarrow> xp_sys \<Rightarrow> bool" where
  "xp_inv N s \<longleftrightarrow>
     xp_lock (xp s) = xp_word (xp_count N (at s) Reader) (xp_count N (at s) Queued) (xp_count N (at s) Writer = 1) \<and>
     (xp_count N (at s) Writer = 0 \<or> xp_count N (at s) Writer = 1 \<and> xp_count N (at s) Reader = 0) \<and>
     (\<forall>i < N. xp_known (at s i))"

lemma xp_count_upd:
  "i < N \<Longrightarrow> xp_count N (f(i := p)) c =
   (if xp_class p = c then (if xp_class (f i) = c then xp_count N f c else xp_count N f c + 1)
    else (if xp_class (f i) = c then xp_count N f c - 1 else xp_count N f c))"
proof -
  assume "i < N"
  moreover have "xp_class \<circ> f(i := p) = (xp_class \<circ> f)(i := xp_class p)" by auto
  ultimately show ?thesis using threads_upd_eq[of i N "xp_class \<circ> f" "xp_class p" "{c}"] by (simp cong: if_cong)
qed

abbreviation moved :: "xp_sys \<Rightarrow> nat \<Rightarrow> xp_pc \<Rightarrow> PRWLockXP \<Rightarrow> xp_sys" where
  "moved s i p l \<equiv> \<lparr>xp = l, at = (at s)(i := p)\<rparr>"

lemma xp_inv_same:
  assumes "xp_inv N s" "i < N" "xp_class p = xp_class (at s i)" "xp_known p" "xp_lock l = xp_lock (xp s)"
  shows "xp_inv N (moved s i p l)"
proof -
  have "xp_count N ((at s)(i := p)) c = xp_count N (at s) c" for c using xp_count_upd[OF assms(2), of "at s" p c] assms(3) by simp
  then show ?thesis using assms(1,4,5) by (simp add: xp_inv_def)
qed

lemma xp_inv_cas:
  assumes "xp_inv N s" "i < N" "cas t new (xp s) = (ok, l)" "xp_class p2 = xp_class (at s i)" "xp_known p2"
    "xp_lock (xp s) = t \<Longrightarrow> xp_inv N (moved s i p1 ((xp s)\<lparr>xp_lock := new\<rparr>))"
  shows "xp_inv N (moved s i (if ok then p1 else p2) l)"
  using assms xp_inv_same[of N s i p2 l] by (auto simp: cas_def split: if_splits)

text \<open>The six ways in which the word changes.\<close>

lemma xp_inv_counts:
  assumes "xp_inv N s" "N < 2 ^ 15"
  shows "xp_count N (at s) Reader < 2 ^ 15" "xp_count N (at s) Queued < 2 ^ 15"
  using threads_le[of N "xp_class \<circ> at s"] assms(2) by (auto intro: le_less_trans)

lemma xp_room: "i < N \<Longrightarrow> N < 2 ^ 15 \<Longrightarrow> xp_class (f i) \<noteq> c \<Longrightarrow> xp_count N f c + 1 < 2 ^ 15"
  using threads_room[of i N "xp_class \<circ> f" "{c}"] by simp

lemma xp_present: "i < N \<Longrightarrow> xp_class (f i) = c \<Longrightarrow> 0 < xp_count N f c"
  using threads_in_pos[of i N "xp_class \<circ> f" "{c}"] by simp

lemma enter_read:
  assumes "xp_inv N s" "N < 2 ^ 15" "i < N" "xp_class (at s i) = Free" "\<not> P_RWLOCK_XP_IS_WRITER (xp_lock (xp s))"
  shows "xp_inv N (moved s i (Inside XP_Read) ((xp s)\<lparr>xp_lock :=
    P_RWLOCK_XP_SET_READERS (xp_lock (xp s)) (P_RWLOCK_XP_READER_COUNT (xp_lock (xp s)) + 1)\<rparr>))"
proof -
  note b = xp_inv_counts[OF assms(1,2)]
  have lk: "xp_lock (xp s) = xp_word (xp_count N (at s) Reader) (xp_count N (at s) Queued) (xp_count N (at s) Writer = 1)"
    using assms(1) by (simp add: xp_inv_def)
  have w: "xp_count N (at s) Writer = 0" using assms(1,5) unfolding lk xp_word_read[OF b] by (auto simp: xp_inv_def)
  have r: "xp_count N (at s) Reader + 1 < 2 ^ 15" by (rule xp_room[OF assms(3,2)]) (use assms(4) in simp)
  show ?thesis using assms(1) w unfolding lk xp_word_counts(1)[OF b r] by (simp add: xp_inv_def xp_count_upd[OF assms(3)] assms(4))
qed

lemma enter_write:
  assumes "xp_inv N s" "N < 2 ^ 15" "i < N" "xp_class (at s i) = Free" "P_RWLOCK_XP_IS_CLEAR (xp_lock (xp s))"
  shows "xp_inv N (moved s i (Inside XP_Write) ((xp s)\<lparr>xp_lock := P_RWLOCK_XP_SET_WRITER (xp_lock (xp s))\<rparr>))"
proof -
  note b = xp_inv_counts[OF assms(1,2)]
  have lk: "xp_lock (xp s) = xp_word (xp_count N (at s) Reader) (xp_count N (at s) Queued) (xp_count N (at s) Writer = 1)"
    using assms(1) by (simp add: xp_inv_def)
  have w: "xp_count N (at s) Writer = 0" "xp_count N (at s) Reader = 0"
    using assms(1,5) unfolding lk xp_word_read[OF b] by (auto simp: xp_inv_def)
  show ?thesis using assms(1) w unfolding lk xp_word_set(3)[OF b] by (simp add: xp_inv_def xp_count_upd[OF assms(3)] assms(4))
qed

lemma enter_queue:
  assumes "xp_inv N s" "N < 2 ^ 15" "i < N" "xp_class (at s i) = Free"
  shows "xp_inv N (moved s i (Waiting k) ((xp s)\<lparr>xp_lock := counter_wait (xp_lock (xp s))\<rparr>))"
proof -
  note b = xp_inv_counts[OF assms(1,2)]
  have lk: "xp_lock (xp s) = xp_word (xp_count N (at s) Reader) (xp_count N (at s) Queued) (xp_count N (at s) Writer = 1)"
    using assms(1) by (simp add: xp_inv_def)
  have q: "xp_count N (at s) Queued + 1 < 2 ^ 15" by (rule xp_room[OF assms(3,2)]) (use assms(4) in simp)
  show ?thesis using assms(1) unfolding lk xp_word_counts(3)[OF b q] by (simp add: xp_inv_def xp_count_upd[OF assms(3)] assms(4))
qed

lemma leave_queue:
  assumes "xp_inv N s" "N < 2 ^ 15" "i < N" "xp_class (at s i) = Queued"
  shows "xp_inv N (moved s i (Lock_Get k n) ((xp s)\<lparr>xp_lock := counter_awake (xp_lock (xp s))\<rparr>))"
proof -
  note b = xp_inv_counts[OF assms(1,2)]
  have lk: "xp_lock (xp s) = xp_word (xp_count N (at s) Reader) (xp_count N (at s) Queued) (xp_count N (at s) Writer = 1)"
    using assms(1) by (simp add: xp_inv_def)
  show ?thesis using assms(1) unfolding lk xp_word_counts(4)[OF b xp_present[where f = "at s", OF assms(3,4)]]
    by (simp add: xp_inv_def xp_count_upd[OF assms(3)] assms(4))
qed

lemma leave_read:
  assumes "xp_inv N s" "N < 2 ^ 15" "i < N" "xp_class (at s i) = Reader"
  shows "xp_inv N (moved s i Out ((xp s)\<lparr>xp_lock :=
    P_RWLOCK_XP_SET_READERS (xp_lock (xp s)) (P_RWLOCK_XP_READER_COUNT (xp_lock (xp s)) - 1)\<rparr>))"
proof -
  note b = xp_inv_counts[OF assms(1,2)]
  have lk: "xp_lock (xp s) = xp_word (xp_count N (at s) Reader) (xp_count N (at s) Queued) (xp_count N (at s) Writer = 1)"
    using assms(1) by (simp add: xp_inv_def)
  show ?thesis using assms(1) unfolding lk xp_word_counts(2)[OF b xp_present[where f = "at s", OF assms(3,4)]]
    by (auto simp: xp_inv_def xp_count_upd[OF assms(3)] assms(4))
qed

lemma leave_write:
  assumes "xp_inv N s" "N < 2 ^ 15" "i < N" "xp_class (at s i) = Writer"
  shows "xp_inv N (moved s i Out ((xp s)\<lparr>xp_lock := P_RWLOCK_XP_UNSET_WRITER (xp_lock (xp s))\<rparr>))"
proof -
  note b = xp_inv_counts[OF assms(1,2)]
  have lk: "xp_lock (xp s) = xp_word (xp_count N (at s) Reader) (xp_count N (at s) Queued) (xp_count N (at s) Writer = 1)"
    using assms(1) by (simp add: xp_inv_def)
  show ?thesis using assms(1) xp_present[where f = "at s", OF assms(3,4)] unfolding lk xp_word_set(4)[OF b]
    by (auto simp: xp_inv_def xp_count_upd[OF assms(3)] assms(4))
qed

text \<open>The steps of the functions.\<close>

lemma wait_event_inv:
  assumes "wait_event fails k (xp s) = Some (p, l)" "xp_inv N s" "i < N" "at s i = Waiting k"
  shows "xp_inv N (moved s i p l)"
  using assms by (auto simp: wait_event_def intro!: xp_inv_same split: if_splits)

lemma queue_cas_inv:
  assumes "cas t (counter_wait t) (xp s) = (ok, l)" "xp_inv N s" "N < 2 ^ 15" "i < N" "xp_class (at s i) = Free"
  shows "xp_inv N (moved s i (if ok then Waiting k else Lock_Get k n) l)"
  by (rule xp_inv_cas[OF assms(2,4,1)]) (use enter_queue[OF assms(2-5)] assms(5) in auto)

lemma dequeue_cas_inv:
  assumes "cas t (counter_awake t) (xp s) = (ok, l)" "xp_inv N s" "N < 2 ^ 15" "i < N" "xp_class (at s i) = Queued"
  shows "xp_inv N (moved s i (if ok then Lock_Get k n else Dec_Get k) l)"
  by (rule xp_inv_cas[OF assms(2,4,1)]) (use leave_queue[OF assms(2-5)] assms(5) in auto)

lemma read_cas_inv:
  assumes "cas t (P_RWLOCK_XP_SET_READERS t (P_RWLOCK_XP_READER_COUNT t + 1)) (xp s) = (ok, l)" "xp_inv N s" "N < 2 ^ 15" "i < N"
    "xp_class (at s i) = Free" "\<not> P_RWLOCK_XP_IS_WRITER t" "xp_class p = Free" "xp_known p"
  shows "xp_inv N (moved s i (if ok then Inside XP_Read else p) l)"
  by (rule xp_inv_cas[OF assms(2,4,1)]) (use enter_read[OF assms(2-5)] assms(5-) in auto)

lemma write_cas_inv:
  assumes "cas t (P_RWLOCK_XP_SET_WRITER t) (xp s) = (ok, l)" "xp_inv N s" "N < 2 ^ 15" "i < N"
    "xp_class (at s i) = Free" "P_RWLOCK_XP_IS_CLEAR t" "xp_class p = Free" "xp_known p"
  shows "xp_inv N (moved s i (if ok then Inside XP_Write else p) l)"
  by (rule xp_inv_cas[OF assms(2,4,1)]) (use enter_write[OF assms(2-5)] assms(5-) in auto)

lemma start_read_inv:
  assumes st: "pzrwlock_start_read_xp fails (at s i) (xp s) = Some (p, l)" and inv: "xp_inv N s" "N < 2 ^ 15" "i < N"
  shows "xp_inv N (moved s i p l)"
proof -
  have kn: "xp_known (at s i)" using inv by (simp add: xp_inv_def)
  note same = xp_inv_same[OF inv(1,3)]
  consider n where "at s i = Lock_Get XP_Read n" | n t where "at s i = Lock_Cas XP_Read n t" | n t where "at s i = Wait_Cas XP_Read n t"
    | "at s i = Waiting XP_Read" | "at s i = Dec_Get XP_Read" | t where "at s i = Dec_Cas XP_Read t"
    using st by (auto elim: pzrwlock_start_read_xp.elims)
  then show ?thesis
  proof cases
    case 1
    then show ?thesis using st same[of p l] by (auto split: if_splits)
  next
    case (2 n t)
    then show ?thesis using st kn read_cas_inv[of t s _ _ N i] inv by (auto split: prod.splits)
  next
    case (3 n t)
    then show ?thesis using st queue_cas_inv[of t s _ _ N i] inv by (auto split: prod.splits)
  next
    case 4
    then show ?thesis using st wait_event_inv[of fails XP_Read s p l] inv by simp
  next
    case 5
    then show ?thesis using st same[of p l] by auto
  next
    case (6 t)
    then show ?thesis using st dequeue_cas_inv[of t s _ _ N i] inv by (auto split: prod.splits)
  qed
qed

lemma start_write_inv:
  assumes st: "pzrwlock_start_write_xp fails (at s i) (xp s) = Some (p, l)" and inv: "xp_inv N s" "N < 2 ^ 15" "i < N"
  shows "xp_inv N (moved s i p l)"
proof -
  have kn: "xp_known (at s i)" using inv by (simp add: xp_inv_def)
  note same = xp_inv_same[OF inv(1,3)]
  consider n where "at s i = Lock_Get XP_Write n" | n t where "at s i = Lock_Cas XP_Write n t" | n t where "at s i = Wait_Cas XP_Write n t"
    | "at s i = Waiting XP_Write" | "at s i = Dec_Get XP_Write" | t where "at s i = Dec_Cas XP_Write t"
    using st by (auto elim: pzrwlock_start_write_xp.elims)
  then show ?thesis
  proof cases
    case 1
    then show ?thesis using st same[of p l] by (auto split: if_splits)
  next
    case (2 n t)
    then show ?thesis using st kn write_cas_inv[of t s _ _ N i] inv by (auto split: prod.splits)
  next
    case (3 n t)
    then show ?thesis using st queue_cas_inv[of t s _ _ N i] inv by (auto split: prod.splits)
  next
    case 4
    then show ?thesis using st wait_event_inv[of fails XP_Write s p l] inv by simp
  next
    case 5
    then show ?thesis using st same[of p l] by auto
  next
    case (6 t)
    then show ?thesis using st dequeue_cas_inv[of t s _ _ N i] inv by (auto split: prod.splits)
  qed
qed

lemma try_inv:
  assumes inv: "xp_inv N s" "N < 2 ^ 15" "i < N"
  shows "pzrwlock_start_read_try_xp (at s i) (xp s) = Some (p, l) \<Longrightarrow> xp_inv N (moved s i p l)"
    "pzrwlock_start_write_try_xp (at s i) (xp s) = Some (p, l) \<Longrightarrow> xp_inv N (moved s i p l)"
proof -
  have kn: "xp_known (at s i)" using inv by (simp add: xp_inv_def)
  note same = xp_inv_same[OF inv(1,3)]
  show "xp_inv N (moved s i p l)" if st: "pzrwlock_start_read_try_xp (at s i) (xp s) = Some (p, l)"
  proof -
    consider "at s i = Try_Get XP_Read" | t where "at s i = Try_Cas XP_Read t" using st by (auto elim: pzrwlock_start_read_try_xp.elims)
    then show ?thesis
    proof cases
      case 1
      then show ?thesis using st same[of p l] by (auto split: if_splits)
    next
      case (2 t)
      then show ?thesis using st kn read_cas_inv[of t s _ _ N i Out] inv by (auto split: prod.splits)
    qed
  qed
  show "xp_inv N (moved s i p l)" if st: "pzrwlock_start_write_try_xp (at s i) (xp s) = Some (p, l)"
  proof -
    consider "at s i = Try_Get XP_Write" | t where "at s i = Try_Cas XP_Write t" using st by (auto elim: pzrwlock_start_write_try_xp.elims)
    then show ?thesis
    proof cases
      case 1
      then show ?thesis using st same[of p l] by (auto split: if_splits)
    next
      case (2 t)
      then show ?thesis using st kn write_cas_inv[of t s _ _ N i Out] inv by (auto split: prod.splits)
    qed
  qed
qed

lemma end_inv:
  assumes inv: "xp_inv N s" "N < 2 ^ 15" "i < N"
  shows "pzrwlock_end_read_xp (at s i) (xp s) = Some (p, l) \<Longrightarrow> xp_inv N (moved s i p l)"
    "pzrwlock_end_write_xp (at s i) (xp s) = Some (p, l) \<Longrightarrow> xp_inv N (moved s i p l)"
proof -
  note b = xp_inv_counts[OF inv(1,2)]
  have lk: "xp_lock (xp s) = xp_word (xp_count N (at s) Reader) (xp_count N (at s) Queued) (xp_count N (at s) Writer = 1)"
    using inv(1) by (simp add: xp_inv_def)
  note same = xp_inv_same[OF inv(1,3)]
  show "xp_inv N (moved s i p l)" if st: "pzrwlock_end_read_xp (at s i) (xp s) = Some (p, l)"
  proof -
    consider "at s i = Read_End_Get" | t where "at s i = Read_End_Set t" | t where "at s i = Read_End_Cas t"
      using st by (auto elim: pzrwlock_end_read_xp.elims)
    then show ?thesis
    proof cases
      case 1
      then have "P_RWLOCK_XP_READER_COUNT (xp_lock (xp s)) \<noteq> 0"
        using xp_present[of i N "at s" Reader] inv(3) of_nat_32_zero[OF b(1)] unfolding lk xp_word_read[OF b] by simp
      then show ?thesis using 1 st same[of p l] by (auto simp: Let_def split: if_splits)
    next
      case (2 t)
      then show ?thesis using st same[of p l] by auto
    next
      case (3 t)
      obtain ok where c: "cas t (P_RWLOCK_XP_SET_READERS t (P_RWLOCK_XP_READER_COUNT t - 1)) (xp s) = (ok, l)"
        and p: "p = (if ok then Out else Read_End_Get)" using st 3 by (auto split: prod.splits)
      show ?thesis unfolding p by (rule xp_inv_cas[OF inv(1,3) c]) (use leave_read[OF inv] 3 in auto)
    qed
  qed
  show "xp_inv N (moved s i p l)" if st: "pzrwlock_end_write_xp (at s i) (xp s) = Some (p, l)"
  proof -
    consider "at s i = Write_End_Get" | "at s i = Write_End_Set" | t where "at s i = Write_End_Cas t"
      using st by (auto elim: pzrwlock_end_write_xp.elims)
    then show ?thesis
    proof cases
      case 1
      then have "P_RWLOCK_XP_IS_WRITER (xp_lock (xp s))"
        using xp_present[of i N "at s" Writer] inv unfolding lk xp_word_read[OF b] by (auto simp: xp_inv_def)
      then show ?thesis using 1 st same[of p l] by (auto split: if_splits)
    next
      case 2
      then show ?thesis using st same[of p l] by auto
    next
      case (3 t)
      obtain ok where c: "cas t (P_RWLOCK_XP_UNSET_WRITER t) (xp s) = (ok, l)"
        and p: "p = (if ok then Out else Write_End_Get)" using st 3 by (auto split: prod.splits)
      show ?thesis unfolding p by (rule xp_inv_cas[OF inv(1,3) c]) (use leave_write[OF inv] 3 in auto)
    qed
  qed
qed

lemma xp_step_inv: "xp_step N fails s t \<Longrightarrow> xp_inv N s \<Longrightarrow> N < 2 ^ 15 \<Longrightarrow> xp_inv N t"
proof (induction rule: xp_step.induct)
  case (call_lock i s k)
  then show ?case using xp_inv_same[of N s i "Lock_Get k 0" "xp s"] by (cases s) simp
next
  case (call_try i s k)
  then show ?case using xp_inv_same[of N s i "Try_Get k" "xp s"] by (cases s) simp
next
  case (call_unlock i s k)
  then show ?case
    using xp_inv_same[of N s i "if k = XP_Read then Read_End_Get else Write_End_Get" "xp s"] by (cases s) auto
qed (auto intro: start_read_inv start_write_inv try_inv end_inv)

lemma xp_reachable_inv: "xp_reachable N fails s \<Longrightarrow> N < 2 ^ 15 \<Longrightarrow> xp_inv N s"
proof (induction rule: xp_reachable.induct)
  case (xp_start l)
  then show ?case by (auto simp: pzrwlock_init_xp_def xp_inv_def threads_def xp_word_def pack_def)
qed (blast intro: xp_step_inv)

section \<open>Properties\<close>

text \<open>A run of two threads: the first reads, the second waits for its turn to write.\<close>

definition pair_at :: "xp_pc \<Rightarrow> xp_pc \<Rightarrow> nat \<Rightarrow> xp_pc" where
  "pair_at p q i = (if i = 0 then p else if i = 1 then q else Out)"

lemma pair_at_simps [simp]:
  "pair_at p q 0 = p" "pair_at p q (Suc 0) = q" "(pair_at p q)(0 := p') = pair_at p' q" "(pair_at p q)(Suc 0 := q') = pair_at p q'"
  by (auto simp: pair_at_def)

abbreviation two :: "puint32 \<Rightarrow> bool \<Rightarrow> xp_pc \<Rightarrow> xp_pc \<Rightarrow> xp_sys" where
  "two w ev p q \<equiv> \<lparr>xp = \<lparr>xp_lock = w, xp_event = ev\<rparr>, at = pair_at p q\<rparr>"

lemma two_start: "xp_reachable 2 fails (two 0 False Out Out)"
  using xp_start[of "\<lparr>xp_lock = 0, xp_event = False\<rparr>" 2 fails] by (simp add: pzrwlock_init_xp_def pair_at_def[abs_def] cong: if_cong)

lemma two_call:
  assumes "xp_reachable 2 fails (two w ev p q)"
  shows "p = Out \<Longrightarrow> xp_reachable 2 fails (two w ev (Lock_Get k 0) q)" "q = Out \<Longrightarrow> xp_reachable 2 fails (two w ev p (Lock_Get k 0))"
    "p = Inside XP_Read \<Longrightarrow> xp_reachable 2 fails (two w ev Read_End_Get q)"
  using xp_next[OF assms call_lock[of 0 2 _ fails k]] xp_next[OF assms call_lock[of 1 2 _ fails k]]
    xp_next[OF assms call_unlock[of 0 2 _ XP_Read fails]] by simp_all

lemma two_end_read:
  assumes "xp_reachable 2 fails (two w ev p q)" "pzrwlock_end_read_xp p \<lparr>xp_lock = w, xp_event = ev\<rparr> = Some (p', \<lparr>xp_lock = w', xp_event = ev'\<rparr>)"
  shows "xp_reachable 2 fails (two w' ev' p' q)"
  using xp_next[OF assms(1) in_end_read[of 0]] assms(2) by simp

lemma two_start_read:
  assumes "xp_reachable 2 fails (two w ev p q)" "pzrwlock_start_read_xp fails p \<lparr>xp_lock = w, xp_event = ev\<rparr> = Some (p', \<lparr>xp_lock = w', xp_event = ev'\<rparr>)"
  shows "xp_reachable 2 fails (two w' ev' p' q)"
  using xp_next[OF assms(1) in_start_read[of 0]] assms(2) by simp

lemma two_start_write:
  assumes "xp_reachable 2 fails (two w ev p q)" "pzrwlock_start_write_xp fails q \<lparr>xp_lock = w, xp_event = ev\<rparr> = Some (q', \<lparr>xp_lock = w', xp_event = ev'\<rparr>)"
  shows "xp_reachable 2 fails (two w' ev' p q')"
  using xp_next[OF assms(1) in_start_write[of 1]] assms(2) by simp

lemma two_spins:
  assumes "xp_reachable 2 fails (two w ev p (Lock_Get XP_Write n))" "\<not> P_RWLOCK_XP_IS_CLEAR w" "n \<le> P_RWLOCK_XP_MAX_SPIN"
  shows "xp_reachable 2 fails (two w ev p (Wait_Cas XP_Write P_RWLOCK_XP_MAX_SPIN w))"
  using assms
proof (induction "nat (P_RWLOCK_XP_MAX_SPIN - n)" arbitrary: n)
  case 0
  then show ?case using two_start_write[of fails w ev p] by simp
next
  case (Suc k)
  then have "xp_reachable 2 fails (two w ev p (Lock_Get XP_Write (n + 1)))" using two_start_write[of fails w ev p] by simp
  moreover have "k = nat (P_RWLOCK_XP_MAX_SPIN - (n + 1))" "n + 1 \<le> P_RWLOCK_XP_MAX_SPIN" using Suc.hyps(2) Suc.prems(3) by linarith+
  ultimately show ?case using Suc.hyps(1) Suc.prems(2) by blast
qed

lemma words:
  "P_RWLOCK_XP_SET_READERS 0 (P_RWLOCK_XP_READER_COUNT 0 + 1) = 1" "\<not> P_RWLOCK_XP_IS_WRITER 0" "\<not> P_RWLOCK_XP_IS_CLEAR 1"
  "counter_wait 1 = 0x8001" "P_RWLOCK_XP_READER_COUNT 0x8001 = 1" "P_RWLOCK_XP_WAITING_COUNT 0x8001 = 1" "counter_awake 0x8001 = 1"
  "P_RWLOCK_XP_SET_READERS 0x8001 0 = 0x8000" "P_RWLOCK_XP_IS_CLEAR 0x8000"
  "P_RWLOCK_XP_WAITING_COUNT 0x8000 = 1"
  by code_simp+

lemma two_waiting: "xp_reachable 2 fails (two 0x8001 False (Inside XP_Read) (Waiting XP_Write))"
proof -
  have "xp_reachable 2 fails (two 0 False (Lock_Get XP_Read 0) Out)" by (rule two_call(1)[OF two_start]) simp
  then have "xp_reachable 2 fails (two 0 False (Lock_Cas XP_Read 0 0) Out)" by (rule two_start_read) (simp add: words)
  then have "xp_reachable 2 fails (two 1 False (Inside XP_Read) Out)" by (rule two_start_read) (simp add: words cas_def)
  then have "xp_reachable 2 fails (two 1 False (Inside XP_Read) (Lock_Get XP_Write 0))" by (rule two_call) simp
  then have "xp_reachable 2 fails (two 1 False (Inside XP_Read) (Wait_Cas XP_Write P_RWLOCK_XP_MAX_SPIN 1))"
    by (rule two_spins) (simp_all add: words P_RWLOCK_XP_MAX_SPIN_def)
  then show ?thesis by (rule two_start_write) (simp add: words cas_def)
qed

text \<open>
  C10: mutual exclusion of the lock for Windows XP. However fewer than 32768 threads interleave the accesses
  of their lock, trylock and unlock calls to the shared word, with waits that may fail, a thread in the
  lock as a writer is alone there; the fields of the word are the numbers of threads that have the lock
  for reading and that are in the queue, and its writer bit says whether a thread has the lock for
  writing. A thread has the lock until its unlocking has succeeded.
\<close>

theorem rwlock_xp_exclusion:
  assumes "xp_reachable N fails s" "N < 2 ^ 15"
  shows "(\<forall>i j. i < N \<and> j < N \<and> i \<noteq> j \<and> xp_class (at s i) = Writer \<longrightarrow> xp_class (at s j) \<noteq> Reader \<and> xp_class (at s j) \<noteq> Writer) \<and>
    unat (P_RWLOCK_XP_READER_COUNT (xp_lock (xp s))) = card {i. i < N \<and> xp_class (at s i) = Reader} \<and>
    unat (P_RWLOCK_XP_WAITING_COUNT (xp_lock (xp s))) = card {i. i < N \<and> xp_class (at s i) = Queued} \<and>
    (P_RWLOCK_XP_IS_WRITER (xp_lock (xp s)) \<longleftrightarrow> (\<exists>i < N. xp_class (at s i) = Writer))"
proof -
  have inv: "xp_inv N s" using assms by (rule xp_reachable_inv)
  note b = xp_inv_counts[OF inv assms(2)]
  have lk: "xp_lock (xp s) = xp_word (xp_count N (at s) Reader) (xp_count N (at s) Queued) (xp_count N (at s) Writer = 1)"
    using inv by (simp add: xp_inv_def)
  have w: "xp_count N (at s) Writer = 1 \<longleftrightarrow> (\<exists>i < N. xp_class (at s i) = Writer)"
    using inv threads_pos[of N "xp_class \<circ> at s" "{Writer}"] by (auto simp: xp_inv_def)
  have "xp_class (at s j) \<noteq> Reader \<and> xp_class (at s j) \<noteq> Writer" if "i < N" "j < N" "i \<noteq> j" "xp_class (at s i) = Writer" for i j
    using inv that xp_present[of i N "at s" Writer] xp_present[of j N "at s" Reader]
      threads_one_alone[of N "xp_class \<circ> at s" "{Writer}" i j]
    by (auto simp: xp_inv_def)
  then have alone: "\<forall>i j. i < N \<and> j < N \<and> i \<noteq> j \<and> xp_class (at s i) = Writer \<longrightarrow>
      xp_class (at s j) \<noteq> Reader \<and> xp_class (at s j) \<noteq> Writer" by blast
  show ?thesis using alone w unfolding lk xp_word_read[OF b] unat_of_nat_15[OF b(1)] unat_of_nat_15[OF b(2)]
    by (simp add: threads_def)
qed

theorem rwlock_xp_exclusion_witness:
  "xp_reachable 2 False (two 0x8001 False (Inside XP_Read) (Waiting XP_Write)) \<and> unat (P_RWLOCK_XP_READER_COUNT 0x8001) = 1 \<and>
   card {i. i < 2 \<and> xp_class (pair_at (Inside XP_Read) (Waiting XP_Write) i) = Reader} = 1"
  using rwlock_xp_exclusion[OF two_waiting[of False]] two_waiting[of False] by (simp add: words)

text \<open>
  A wake-up can be lost. There is a run of two threads after which the lock is free, the first thread is outside
  and the second, which wants to write, waits for an event that is not set: the reader sets the event before
  it gives up the lock, the writer wakes, tries again for as long as it may, and is back in the queue when the reader,
  which finds the word as it was before, gives up the lock. The writer then waits until another thread
  has used the lock.
\<close>

theorem rwlock_xp_lost_wakeup:
  "\<exists>s. xp_reachable 2 False s \<and> at s 0 = Out \<and> at s 1 = Waiting XP_Write \<and> P_RWLOCK_XP_IS_CLEAR (xp_lock (xp s)) \<and>
     P_RWLOCK_XP_WAITING_COUNT (xp_lock (xp s)) = 1 \<and> pzrwlock_start_write_xp False (at s 1) (xp s) = None"
proof -
  have "xp_reachable 2 False (two 0x8001 False Read_End_Get (Waiting XP_Write))" by (rule two_call(3)[OF two_waiting]) simp
  then have "xp_reachable 2 False (two 0x8001 False (Read_End_Set 0x8001) (Waiting XP_Write))"
    by (rule two_end_read) (simp add: words)
  then have "xp_reachable 2 False (two 0x8001 True (Read_End_Cas 0x8001) (Waiting XP_Write))" by (rule two_end_read) simp
  then have "xp_reachable 2 False (two 0x8001 False (Read_End_Cas 0x8001) (Dec_Get XP_Write))"
    by (rule two_start_write) (simp add: wait_event_def)
  then have "xp_reachable 2 False (two 0x8001 False (Read_End_Cas 0x8001) (Dec_Cas XP_Write 0x8001))" by (rule two_start_write) simp
  then have "xp_reachable 2 False (two 1 False (Read_End_Cas 0x8001) (Lock_Get XP_Write 1))"
    by (rule two_start_write) (simp add: words cas_def)
  then have "xp_reachable 2 False (two 1 False (Read_End_Cas 0x8001) (Wait_Cas XP_Write P_RWLOCK_XP_MAX_SPIN 1))"
    by (rule two_spins) (simp_all add: words P_RWLOCK_XP_MAX_SPIN_def)
  then have "xp_reachable 2 False (two 0x8001 False (Read_End_Cas 0x8001) (Waiting XP_Write))"
    by (rule two_start_write) (simp add: words cas_def)
  then have "xp_reachable 2 False (two 0x8000 False Out (Waiting XP_Write))" by (rule two_end_read) (simp add: words cas_def)
  then show ?thesis by (intro exI[of _ "two 0x8000 False Out (Waiting XP_Write)"]) (simp add: words wait_event_def)
qed

end
