(* ===== verification/PCondVariable.thy ===== *)
theory PCondVariable
  imports Linked_Nodes "HOL-Library.Monad_Syntax"
begin

text \<open>
  The condition variable of \<^verbatim>\<open>src/src/os/beos/pcondvariable-beos.c\<close>, a list of suspended threads behind a spin lock. A
  call of the wait function is cut at the point where it suspends itself. Whether an argument is
  null, the outcomes of the spin lock and of the mutex are parameters, as is what the system says about the state of a thread.
\<close>

section \<open>Types\<close>

record PCondThread =
  ct_thread :: int
  ct_next :: ppointer

text \<open>
  The object with the nodes on the heap, the threads that have been resumed so far, and the answers
  of \<^verbatim>\<open>get_thread_info\<close> to come: whether it succeeds and whether the thread is ready.
\<close>

record PCondVariable =
  cv_heap :: "PCondThread heap"
  wait_head :: ppointer
  wait_count :: pint
  resumed :: "int list"
  infos :: "(bool \<times> bool) list"

record cv_call =
  cv_null :: bool
  spin_lock_ok :: bool
  spin_unlock_ok :: bool
  cv_mutex_ok :: bool

datatype cv_progress = Cv_Returned bool | Cv_Suspended

section \<open>Operations\<close>

definition zcond_variable_new :: "bool \<Rightarrow> bool \<Rightarrow> PCondVariable option" where
  "zcond_variable_new mem spin =
     (if \<not> mem then None else if \<not> spin then None
      else Some \<lparr>cv_heap = Map.empty, wait_head = NULL, wait_count = 0, resumed = [], infos = []\<rparr>)"

text \<open>Putting the thread into the list, under the spin lock.\<close>

definition enqueue :: "ppointer \<Rightarrow> PCondVariable \<Rightarrow> PCondVariable option" where
  "enqueue p s =
     (if wait_head s \<noteq> NULL
      then (case cv_heap s (wait_head s) of
              None \<Rightarrow> None
            | Some n \<Rightarrow> Some (s\<lparr>cv_heap := (cv_heap s)(wait_head s \<mapsto> n\<lparr>ct_next := p\<rparr>), wait_count := wait_count s + 1\<rparr>))
      else Some (s\<lparr>wait_head := p, wait_count := wait_count s + 1\<rparr>))"

definition zcond_variable_wait ::
    "(PCondThread heap \<Rightarrow> ppointer) \<Rightarrow> cv_call \<Rightarrow> int \<Rightarrow> PCondVariable \<Rightarrow> (cv_progress \<times> PCondVariable) option" where
  "zcond_variable_wait alloc c me s =
     (let p = alloc (cv_heap s)
      in if cv_null c then Some (Cv_Returned False, s)
         else if p = NULL then Some (Cv_Returned False, s)
         else
           let s1 = s\<lparr>cv_heap := (cv_heap s)(p \<mapsto> \<lparr>ct_thread = me, ct_next = NULL\<rparr>)\<rparr>
           in if \<not> spin_lock_ok c then Some (Cv_Returned False, s1)
              else do {
                s2 \<leftarrow> enqueue p s1;
                if \<not> spin_unlock_ok c then Some (Cv_Returned False, s2)
                else if \<not> cv_mutex_ok c then Some (Cv_Returned False, s2)
                else Some (Cv_Suspended, s2)
              })"

text \<open>The rest of the call, once the thread has been resumed.\<close>

definition wait_resume :: "cv_call \<Rightarrow> bool" where
  "wait_resume c = cv_mutex_ok c"

text \<open>The loop that waits until the thread is not ready any more, that is, until it is suspended.\<close>

fun poll_ready :: "(bool \<times> bool) list \<Rightarrow> (bool \<times> bool) list option" where
  "poll_ready [] = None"
| "poll_ready ((ok, ready) # is) = (if ok \<and> ready then poll_ready is else Some is)"

definition zcond_variable_signal :: "cv_call \<Rightarrow> PCondVariable \<Rightarrow> (bool \<times> PCondVariable) option" where
  "zcond_variable_signal c s =
     (if cv_null c then Some (False, s)
      else if \<not> spin_lock_ok c then Some (False, s)
      else if wait_head s = NULL then Some (spin_unlock_ok c, s)
      else (case cv_heap s (wait_head s) of
              None \<Rightarrow> None
            | Some n \<Rightarrow>
                let s1 = s\<lparr>wait_head := ct_next n, wait_count := wait_count s - 1\<rparr>
                in if \<not> spin_unlock_ok c then Some (False, s1)
                   else do {
                     is \<leftarrow> poll_ready (infos s1);
                     Some (True, s1\<lparr>infos := is, resumed := resumed s1 @ [ct_thread n], cv_heap := (cv_heap s1)(wait_head s := None)\<rparr>)
                   }))"

partial_function (option) broadcast_loop :: "ppointer \<Rightarrow> PCondVariable \<Rightarrow> PCondVariable option" where
  "broadcast_loop cur s =
     (case cv_heap s cur of
        None \<Rightarrow> None
      | Some n \<Rightarrow> do {
          is \<leftarrow> poll_ready (infos s);
          let s1 = s\<lparr>infos := is, resumed := resumed s @ [ct_thread n], cv_heap := (cv_heap s)(cur := None)\<rparr>;
          if ct_next n \<noteq> NULL then broadcast_loop (ct_next n) s1 else Some s1
        })"

definition zcond_variable_broadcast :: "cv_call \<Rightarrow> PCondVariable \<Rightarrow> (bool \<times> PCondVariable) option" where
  "zcond_variable_broadcast c s =
     (if cv_null c then Some (False, s)
      else if \<not> spin_lock_ok c then Some (False, s)
      else if wait_head s = NULL then Some (spin_unlock_ok c, s)
      else do {
        s1 \<leftarrow> broadcast_loop (wait_head s) s;
        Some (spin_unlock_ok c, s1\<lparr>wait_head := NULL, wait_count := 0\<rparr>)
      })"

section \<open>Programs\<close>

datatype cv_op = Op_Wait int | Op_Signal | Op_Broadcast

abbreviation cv_ok :: cv_call where
  "cv_ok \<equiv> \<lparr>cv_null = False, spin_lock_ok = True, spin_unlock_ok = True, cv_mutex_ok = True\<rparr>"

fun cv_run :: "(PCondThread heap \<Rightarrow> ppointer) \<Rightarrow> cv_op list \<Rightarrow> PCondVariable \<Rightarrow> PCondVariable option" where
  "cv_run alloc [] s = Some s"
| "cv_run alloc (Op_Wait t # ops) s = do { (r, s1) \<leftarrow> zcond_variable_wait alloc cv_ok t s; cv_run alloc ops s1 }"
| "cv_run alloc (Op_Signal # ops) s = do { (r, s1) \<leftarrow> zcond_variable_signal cv_ok s; cv_run alloc ops s1 }"
| "cv_run alloc (Op_Broadcast # ops) s = do { (r, s1) \<leftarrow> zcond_variable_broadcast cv_ok s; cv_run alloc ops s1 }"

text \<open>What is expected of a condition variable: the waiting threads are a queue.\<close>

fun spec_step :: "cv_op \<Rightarrow> int list \<times> int list \<Rightarrow> int list \<times> int list" where
  "spec_step (Op_Wait t) (q, rs) = (q @ [t], rs)"
| "spec_step Op_Signal (q, rs) = (tl q, rs @ take 1 q)"
| "spec_step Op_Broadcast (q, rs) = ([], rs @ q)"

text \<open>At no time more than two threads wait.\<close>

fun at_most_two :: "cv_op list \<Rightarrow> int list \<times> int list \<Rightarrow> bool" where
  "at_most_two [] st \<longleftrightarrow> True"
| "at_most_two (x # ops) st \<longleftrightarrow> length (fst (spec_step x st)) \<le> 2 \<and> at_most_two ops (spec_step x st)"

text \<open>The number of answers that end a loop of polling.\<close>

definition ends :: "(bool \<times> bool) list \<Rightarrow> nat" where
  "ends is = length (filter (\<lambda>(ok, ready). \<not> (ok \<and> ready)) is)"

section \<open>The queue\<close>

interpretation cq: linked_node ct_next "\<lambda>q n. n\<lparr>ct_next := q\<rparr>" ct_thread
  by unfold_locales simp_all

text \<open>The nodes from the head on are the queue.\<close>

definition cv_chain :: "PCondVariable \<Rightarrow> ppointer list \<Rightarrow> int list \<times> int list \<Rightarrow> bool" where
  "cv_chain s ps st \<longleftrightarrow>
     cq.chain (cv_heap s) (wait_head s) ps \<and> cq.items (cv_heap s) ps = fst st \<and> resumed s = snd st"

text \<open>There are no other nodes, at most two, and the counter counts them.\<close>

definition cv_rel :: "PCondVariable \<Rightarrow> int list \<times> int list \<Rightarrow> bool" where
  "cv_rel s st \<longleftrightarrow> (\<exists>ps. cv_chain s ps st \<and> dom (cv_heap s) = set ps \<and> wait_count s = of_nat (length ps) \<and> length ps \<le> 2)"

lemma cv_chain_length: "cv_chain s ps (q, rs) \<Longrightarrow> length q = length ps"
  using cq.length_items[of "cv_heap s" ps] by (simp add: cv_chain_def)

lemma poll_ready_ends: "0 < ends is \<Longrightarrow> \<exists>js. poll_ready is = Some js \<and> ends js = ends is - 1"
  by (induction "is" rule: poll_ready.induct) (auto simp: ends_def)

lemma wait_rel:
  assumes "cv_rel s (q, rs)" "length q \<le> 1" "good_alloc alloc" "\<And>h. card (dom h) \<le> 1 \<Longrightarrow> alloc h \<noteq> NULL"
  shows "\<exists>s'. zcond_variable_wait alloc cv_ok t s = Some (Cv_Suspended, s') \<and> cv_rel s' (q @ [t], rs) \<and> infos s' = infos s"
proof -
  let ?p = "alloc (cv_heap s)"
  obtain ps where ch: "cv_chain s ps (q, rs)" and dom: "dom (cv_heap s) = set ps" and cnt: "wait_count s = of_nat (length ps)"
    using assms(1) by (auto simp: cv_rel_def)
  note ps = ch[unfolded cv_chain_def]
  have len: "length ps \<le> 1" using cv_chain_length[OF ch] assms(2) by simp
  then have nz: "?p \<noteq> NULL" using assms(4)[of "cv_heap s"] card_length[of ps] dom by simp
  have new: "cv_heap s ?p = None" by (rule good_allocD[OF assms(3) nz])
  show ?thesis
  proof (cases ps)
    case Nil
    then have "wait_head s = NULL" using ps by simp
    then show ?thesis using Nil ps nz dom cnt
      by (auto simp: zcond_variable_wait_def Let_def enqueue_def cv_rel_def cv_chain_def cq.chain_Cons intro!: exI[of _ "[?p]"])
  next
    case (Cons a qs)
    then have one: "ps = [a]" using len by simp
    then obtain n where n: "wait_head s = a" "a \<noteq> NULL" "cv_heap s a = Some n" using ps by (auto simp: cq.chain_Cons)
    then have ne: "a \<noteq> ?p" using new by auto
    then show ?thesis using one n ps nz dom cnt
      by (auto simp: zcond_variable_wait_def Let_def enqueue_def cv_rel_def cv_chain_def cq.chain_Cons intro!: exI[of _ "[a, ?p]"])
  qed
qed

lemma signal_chain:
  assumes "cv_chain s ps (q, rs)" "length q \<le> ends (infos s)"
  shows "\<exists>s'. zcond_variable_signal cv_ok s = Some (True, s') \<and> cv_chain s' (tl ps) (tl q, rs @ take 1 q) \<and>
    cv_heap s' = (\<lambda>x. if x \<in> set (take 1 ps) then None else cv_heap s x) \<and>
    wait_count s' = wait_count s - of_nat (length (take 1 ps)) \<and> ends (infos s') = ends (infos s) - length (take 1 q)"
proof -
  note ps = assms(1)[unfolded cv_chain_def]
  show ?thesis
  proof (cases ps)
    case Nil
    then show ?thesis using ps by (auto simp: zcond_variable_signal_def cv_chain_def)
  next
    case (Cons a qs)
    then obtain n where n: "wait_head s = a" "a \<noteq> NULL" "cv_heap s a = Some n" "cq.chain (cv_heap s) (ct_next n) qs"
      using ps by (auto simp: cq.chain_Cons)
    have dist: "a \<notin> set qs" using cq.chain_distinct ps Cons by fastforce
    have q: "q = ct_thread n # cq.items (cv_heap s) qs" using ps Cons n(3) by simp
    then obtain js where js: "poll_ready (infos s) = Some js" "ends js = ends (infos s) - 1"
      using poll_ready_ends[of "infos s"] assms(2) by auto
    have "(\<lambda>x. if x \<in> set (take 1 ps) then None else cv_heap s x) = (cv_heap s)(a := None)" using Cons by auto
    then show ?thesis using n ps Cons js q dist
      by (simp add: zcond_variable_signal_def Let_def cv_chain_def cq.chain_frame cq.items_frame)
  qed
qed

lemma signal_rel:
  assumes "cv_rel s (q, rs)" "length q \<le> ends (infos s)"
  shows "\<exists>s'. zcond_variable_signal cv_ok s = Some (True, s') \<and> cv_rel s' (tl q, rs @ take 1 q) \<and> ends (infos s') = ends (infos s) - length (take 1 q)"
proof -
  obtain ps where ch: "cv_chain s ps (q, rs)" and dom: "dom (cv_heap s) = set ps" and cnt: "wait_count s = of_nat (length ps)" "length ps \<le> 2"
    using assms(1) by (auto simp: cv_rel_def)
  obtain s' where s': "zcond_variable_signal cv_ok s = Some (True, s')" "cv_chain s' (tl ps) (tl q, rs @ take 1 q)"
    "cv_heap s' = (\<lambda>x. if x \<in> set (take 1 ps) then None else cv_heap s x)"
    "wait_count s' = wait_count s - of_nat (length (take 1 ps))" "ends (infos s') = ends (infos s) - length (take 1 q)"
    using signal_chain[OF ch assms(2)] by blast
  have "distinct ps" using ch cq.chain_distinct by (auto simp: cv_chain_def)
  then have "dom (cv_heap s') = set (tl ps)" using dom by (cases ps) (auto simp: s'(3) dom_def split: if_splits)
  moreover have "wait_count s' = of_nat (length (tl ps))" using s'(4) cnt by (cases ps) auto
  ultimately show ?thesis using s' cnt(2) by (auto simp: cv_rel_def intro!: exI[of _ "tl ps"])
qed

lemma broadcast_loop_rel:
  assumes "cq.chain (cv_heap s) p ps" "ps \<noteq> []" "length ps \<le> ends (infos s)"
  shows "\<exists>js. broadcast_loop p s = Some (s\<lparr>infos := js, resumed := resumed s @ cq.items (cv_heap s) ps,
      cv_heap := (\<lambda>x. if x \<in> set ps then None else cv_heap s x)\<rparr>) \<and> ends js = ends (infos s) - length ps"
  using assms
proof (induction ps arbitrary: p s)
  case (Cons a qs)
  then obtain n where n: "p = a" "a \<noteq> NULL" "cv_heap s a = Some n" "cq.chain (cv_heap s) (ct_next n) qs" by (auto simp: cq.chain_Cons)
  have dist: "a \<notin> set qs" using cq.chain_distinct[OF Cons.prems(1)] by simp
  obtain js where js: "poll_ready (infos s) = Some js" "ends js = ends (infos s) - 1"
    using poll_ready_ends[of "infos s"] Cons.prems(3) by auto
  let ?s = "s\<lparr>infos := js, resumed := resumed s @ [ct_thread n], cv_heap := (cv_heap s)(a := None)\<rparr>"
  show ?case
  proof (cases "qs = []")
    case Nil: True
    then have "ct_next n = NULL" using n(4) by simp
    moreover have "(\<lambda>x. if x = a then None else cv_heap s x) = (cv_heap s)(a := None)" by auto
    ultimately show ?thesis using n js Nil by (intro exI[of _ js]) (subst broadcast_loop.simps, simp)
  next
    case False
    then have nx: "ct_next n \<noteq> NULL" using n(4) by auto
    have "cq.chain (cv_heap ?s) (ct_next n) qs" using n(4) dist by (simp add: cq.chain_frame)
    moreover have "length qs \<le> ends (infos ?s)" using Cons.prems(3) js(2) by simp
    ultimately obtain ks where ks: "broadcast_loop (ct_next n) ?s = Some (?s\<lparr>infos := ks,
        resumed := resumed ?s @ cq.items (cv_heap ?s) qs, cv_heap := (\<lambda>x. if x \<in> set qs then None else cv_heap ?s x)\<rparr>)"
      "ends ks = ends (infos ?s) - length qs" using Cons.IH[of ?s "ct_next n"] False by blast
    have eq: "(\<lambda>x. if x \<in> set qs then None else cv_heap ?s x) = (\<lambda>x. if x \<in> set (a # qs) then None else cv_heap s x)"
      by auto
    show ?thesis using n js ks(1)[unfolded eq] ks(2) nx dist
      by (intro exI[of _ ks]) (subst broadcast_loop.simps, simp add: cq.items_frame)
  qed
qed simp

lemma broadcast_chain:
  assumes "cv_chain s ps (q, rs)" "length q \<le> ends (infos s)"
  shows "\<exists>s'. zcond_variable_broadcast cv_ok s = Some (True, s') \<and> cv_chain s' [] ([], rs @ q) \<and>
    cv_heap s' = (\<lambda>x. if x \<in> set ps then None else cv_heap s x) \<and> wait_count s' = (if ps = [] then wait_count s else 0) \<and>
    ends (infos s') = ends (infos s) - length q"
proof -
  note ps = assms(1)[unfolded cv_chain_def]
  have len: "length q = length ps" by (rule cv_chain_length[OF assms(1)])
  show ?thesis
  proof (cases "ps = []")
    case True
    then show ?thesis using ps by (auto simp: zcond_variable_broadcast_def cv_chain_def)
  next
    case False
    then have "wait_head s \<noteq> NULL" using ps by auto
    moreover obtain js where "broadcast_loop (wait_head s) s = Some (s\<lparr>infos := js, resumed := resumed s @ q,
        cv_heap := (\<lambda>x. if x \<in> set ps then None else cv_heap s x)\<rparr>)" "ends js = ends (infos s) - length q"
      using broadcast_loop_rel[of s "wait_head s" ps] assms(2) len ps False by auto
    ultimately show ?thesis using ps False by (auto simp: zcond_variable_broadcast_def cv_chain_def)
  qed
qed

lemma broadcast_rel:
  assumes "cv_rel s (q, rs)" "length q \<le> ends (infos s)"
  shows "\<exists>s'. zcond_variable_broadcast cv_ok s = Some (True, s') \<and> cv_rel s' ([], rs @ q) \<and> ends (infos s') = ends (infos s) - length q"
proof -
  obtain ps where ch: "cv_chain s ps (q, rs)" and dom: "dom (cv_heap s) = set ps" and cnt: "wait_count s = of_nat (length ps)"
    using assms(1) by (auto simp: cv_rel_def)
  obtain s' where s': "zcond_variable_broadcast cv_ok s = Some (True, s')" "cv_chain s' [] ([], rs @ q)"
    "cv_heap s' = (\<lambda>x. if x \<in> set ps then None else cv_heap s x)" "wait_count s' = (if ps = [] then wait_count s else 0)"
    "ends (infos s') = ends (infos s) - length q"
    using broadcast_chain[OF ch assms(2)] by blast
  have "cv_heap s' = Map.empty" unfolding s'(3) dom[symmetric] by (auto simp: fun_eq_iff domIff)
  then show ?thesis using s' cnt by (auto simp: cv_rel_def intro!: exI[of _ "[]"] split: if_splits)
qed

definition waits :: "cv_op list \<Rightarrow> nat" where
  "waits ops = length (filter (\<lambda>x. \<exists>t. x = Op_Wait t) ops)"

lemma cv_run_rel:
  assumes "cv_rel s (q, rs)" "at_most_two ops (q, rs)" "length q + waits ops \<le> ends (infos s)" "good_alloc alloc" "\<And>h. card (dom h) \<le> 1 \<Longrightarrow> alloc h \<noteq> NULL"
  shows "\<exists>s'. cv_run alloc ops s = Some s' \<and> cv_rel s' (fold spec_step ops (q, rs))"
  using assms(1-3)
proof (induction ops arbitrary: s q rs)
  case (Cons x ops)
  show ?case
  proof (cases x)
    case (Op_Wait t)
    then have "length q \<le> 1" using Cons.prems(2) by simp
    then obtain s1 where s1: "zcond_variable_wait alloc cv_ok t s = Some (Cv_Suspended, s1)" "cv_rel s1 (q @ [t], rs)" "infos s1 = infos s"
      using wait_rel[OF Cons.prems(1) _ assms(4,5)] by blast
    then show ?thesis using Op_Wait Cons.IH[OF s1(2)] Cons.prems by (simp add: waits_def)
  next
    case Op_Signal
    obtain s1 where s1: "zcond_variable_signal cv_ok s = Some (True, s1)" "cv_rel s1 (tl q, rs @ take 1 q)"
        "ends (infos s1) = ends (infos s) - length (take 1 q)"
      using signal_rel[OF Cons.prems(1)] Cons.prems(3) by auto
    moreover have "length (tl q) + waits ops \<le> ends (infos s1)" using s1(3) Cons.prems(3) Op_Signal by (cases q) (auto simp: waits_def)
    ultimately show ?thesis using Op_Signal Cons.IH[OF s1(2)] Cons.prems by simp
  next
    case Op_Broadcast
    obtain s1 where s1: "zcond_variable_broadcast cv_ok s = Some (True, s1)" "cv_rel s1 ([], rs @ q)"
        "ends (infos s1) = ends (infos s) - length q"
      using broadcast_rel[OF Cons.prems(1)] Cons.prems(3) by auto
    then show ?thesis using Op_Broadcast Cons.IH[OF s1(2)] Cons.prems by (simp add: waits_def)
  qed
qed simp

text \<open>A third thread takes the place of the second, whose node is not in the list any more.\<close>

lemma alloc_three_room: "card (dom h) \<le> 2 \<Longrightarrow> alloc_three h \<noteq> NULL"
proof
  assume c: "card (dom h) \<le> 2" and n: "alloc_three h = NULL"
  then have sub: "{1, 2, 3} \<subseteq> dom h" by (auto simp: alloc_three_def split: if_splits)
  have "finite (dom h)" by (rule finite_subset[of _ UNIV]) simp_all
  then have "card {1, 2, 3 :: ppointer} \<le> 2" using card_mono[OF _ sub] c by simp
  then show False by simp
qed

lemma three_waits:
  assumes "good_alloc alloc" "\<And>h. card (dom h) \<le> 2 \<Longrightarrow> alloc h \<noteq> NULL" "zcond_variable_new True True = Some s"
  shows "\<exists>s' p1 p2 p3. cv_run alloc [Op_Wait t1, Op_Wait t2, Op_Wait t3] (s\<lparr>infos := is\<rparr>) = Some s' \<and> infos s' = is \<and>
    cv_chain s' [p1, p3] ([t1, t3], []) \<and> p2 \<notin> {p1, p3} \<and> cv_heap s' p2 = Some \<lparr>ct_thread = t2, ct_next = NULL\<rparr>"
proof -
  define p1 where "p1 = alloc Map.empty"
  define h1 where "h1 = [p1 \<mapsto> \<lparr>ct_thread = t1, ct_next = NULL\<rparr>]"
  define p2 where "p2 = alloc h1"
  define h2 where "h2 = [p1 \<mapsto> \<lparr>ct_thread = t1, ct_next = p2\<rparr>, p2 \<mapsto> \<lparr>ct_thread = t2, ct_next = NULL\<rparr>]"
  define p3 where "p3 = alloc h2"
  have p1: "p1 \<noteq> NULL" using assms(2)[of Map.empty] by (simp add: p1_def)
  have p2: "p2 \<noteq> NULL" using assms(2)[of h1] by (simp add: p2_def h1_def)
  then have n12: "p2 \<noteq> p1" using good_allocD[OF assms(1), of h1] by (auto simp: p2_def h1_def)
  have p3: "p3 \<noteq> NULL" using assms(2)[of h2] by (simp add: p3_def h2_def card_insert_if)
  then have n13: "p3 \<noteq> p1" "p3 \<noteq> p2" using good_allocD[OF assms(1), of h2] n12 by (auto simp: p3_def h2_def)
  have s: "s = \<lparr>cv_heap = Map.empty, wait_head = NULL, wait_count = 0, resumed = [], infos = []\<rparr>"
    using assms(3) by (simp add: zcond_variable_new_def)
  let ?s1 = "\<lparr>cv_heap = h1, wait_head = p1, wait_count = 1, resumed = [], infos = is\<rparr>"
  let ?s2 = "\<lparr>cv_heap = h2, wait_head = p1, wait_count = 2, resumed = [], infos = is\<rparr>"
  have w1: "zcond_variable_wait alloc cv_ok t1 (s\<lparr>infos := is\<rparr>) = Some (Cv_Suspended, ?s1)"
    using p1 by (simp add: s zcond_variable_wait_def Let_def enqueue_def p1_def h1_def)
  have w2: "zcond_variable_wait alloc cv_ok t2 ?s1 = Some (Cv_Suspended, ?s2)"
    using p1 p2 n12 by (simp add: zcond_variable_wait_def Let_def enqueue_def p2_def[symmetric] h2_def) (simp add: h1_def fun_upd_twist)
  let ?h3 = "[p1 \<mapsto> \<lparr>ct_thread = t1, ct_next = p3\<rparr>, p2 \<mapsto> \<lparr>ct_thread = t2, ct_next = NULL\<rparr>, p3 \<mapsto> \<lparr>ct_thread = t3, ct_next = NULL\<rparr>]"
  have up: "h2(p3 \<mapsto> \<lparr>ct_thread = t3, ct_next = NULL\<rparr>, p1 \<mapsto> \<lparr>ct_thread = t1, ct_next = p3\<rparr>) = ?h3"
    using n12 n13 by (auto simp: h2_def)
  have w3: "zcond_variable_wait alloc cv_ok t3 ?s2 = Some (Cv_Suspended, ?s2\<lparr>cv_heap := ?h3, wait_count := 3\<rparr>)"
    using p1 p3 n13 n12 by (simp add: zcond_variable_wait_def Let_def enqueue_def p3_def[symmetric] up[symmetric]) (simp add: h2_def)
  show ?thesis using w1 w2 w3 p1 p3 n12 n13
    by (intro exI[of _ "?s2\<lparr>cv_heap := ?h3, wait_count := 3\<rparr>"] exI[of _ p1] exI[of _ p2] exI[of _ p3])
      (simp add: cv_chain_def cq.chain_Cons)
qed

lemma wake_only:
  assumes "cv_chain s ps (q, rs)" "length q \<le> ends (infos s)" "p \<notin> set ps" "\<forall>x \<in> set ops. x = Op_Signal \<or> x = Op_Broadcast"
  shows "\<exists>s' ps' q' rs'. cv_run alloc ops s = Some s' \<and> cv_chain s' ps' (q', rs') \<and> set rs' \<subseteq> set rs \<union> set q \<and> cv_heap s' p = cv_heap s p"
  using assms
proof (induction ops arbitrary: s ps q rs)
  case Nil
  then show ?case by auto
next
  case (Cons x ops)
  show ?case
  proof (cases "x = Op_Signal")
    case True
    obtain s1 where s1: "zcond_variable_signal cv_ok s = Some (True, s1)" "cv_chain s1 (tl ps) (tl q, rs @ take 1 q)"
      "cv_heap s1 = (\<lambda>x. if x \<in> set (take 1 ps) then None else cv_heap s x)" "ends (infos s1) = ends (infos s) - length (take 1 q)"
      using signal_chain[OF Cons.prems(1,2)] by blast
    have "p \<notin> set (tl ps)" "p \<notin> set (take 1 ps)" using Cons.prems(3) by (cases ps; simp)+
    moreover have "length (tl q) \<le> ends (infos s1)" using s1(4) Cons.prems(2) by (cases q) auto
    moreover have "set (take 1 q) \<union> set (tl q) \<subseteq> set q" by (cases q) auto
    ultimately show ?thesis using True s1 Cons.IH[OF s1(2)] Cons.prems(4) by (fastforce split: if_splits)
  next
    case False
    then have x: "x = Op_Broadcast" using Cons.prems(4) by simp
    obtain s1 where s1: "zcond_variable_broadcast cv_ok s = Some (True, s1)" "cv_chain s1 [] ([], rs @ q)"
      "cv_heap s1 = (\<lambda>x. if x \<in> set ps then None else cv_heap s x)"
      using broadcast_chain[OF Cons.prems(1,2)] by blast
    then show ?thesis using x Cons.IH[OF s1(2)] Cons.prems(3,4) by (fastforce split: if_splits)
  qed
qed

section \<open>Properties\<close>



text \<open>
  With three waiting threads one is lost. When a third thread waits, it takes the place of the second: however
  many signals and broadcasts follow, they all return and the second thread is never
  resumed, and its node is never freed.
\<close>

theorem cond_variable_loses_waiter:
  assumes "zcond_variable_new True True = Some s" "good_alloc alloc" "\<And>h. card (dom h) \<le> 2 \<Longrightarrow> alloc h \<noteq> NULL"
    "t2 \<noteq> t1" "t2 \<noteq> t3" "2 \<le> ends is" "\<forall>x \<in> set ops. x = Op_Signal \<or> x = Op_Broadcast"
  shows "\<exists>t. cv_run alloc (Op_Wait t1 # Op_Wait t2 # Op_Wait t3 # ops) (s\<lparr>infos := is\<rparr>) = Some t \<and> t2 \<notin> set (resumed t) \<and>
    (\<exists>p n. cv_heap t p = Some n \<and> ct_thread n = t2)"
proof -
  obtain s1 p1 p2 p3 where s1: "cv_run alloc [Op_Wait t1, Op_Wait t2, Op_Wait t3] (s\<lparr>infos := is\<rparr>) = Some s1" "infos s1 = is"
    "cv_chain s1 [p1, p3] ([t1, t3], [])" "p2 \<notin> {p1, p3}" "cv_heap s1 p2 = Some \<lparr>ct_thread = t2, ct_next = NULL\<rparr>"
    using three_waits[OF assms(2,3,1), of t1 t2 t3 "is"] by blast
  obtain t ps q rs where t: "cv_run alloc ops s1 = Some t" "cv_chain t ps (q, rs)" "set rs \<subseteq> {t1, t3}" "cv_heap t p2 = cv_heap s1 p2"
    using wake_only[OF s1(3), of p2 ops alloc] s1(2,4) assms(6,7) by auto
  have "cv_run alloc (Op_Wait t1 # Op_Wait t2 # Op_Wait t3 # ops) (s\<lparr>infos := is\<rparr>) = Some t"
    using s1(1) t(1) by (auto split: Option.bind_splits)
  moreover have "t2 \<notin> set (resumed t)" using t(2,3) assms(4,5) by (auto simp: cv_chain_def)
  moreover have "cv_heap t p2 = Some \<lparr>ct_thread = t2, ct_next = NULL\<rparr>" using t(4) s1(5) by simp
  ultimately show ?thesis by fastforce
qed

theorem cond_variable_loses_waiter_witness:
  "\<exists>s t. zcond_variable_new True True = Some s \<and>
     cv_run alloc_three [Op_Wait 7, Op_Wait 8, Op_Wait 9, Op_Signal, Op_Broadcast, Op_Broadcast] (s\<lparr>infos := [(True, False), (True, False)]\<rparr>) = Some t \<and>
     8 \<notin> set (resumed t)"
proof -
  obtain s where s: "zcond_variable_new True True = Some s" by (simp add: zcond_variable_new_def)
  show ?thesis
    using cond_variable_loses_waiter[OF s good_alloc_three, of 8 7 9 "[(True, False), (True, False)]" "[Op_Signal, Op_Broadcast, Op_Broadcast]"]
      alloc_three_room s by (auto simp: ends_def)
qed

end
