(* ===== verification/PUThread_Local.thy ===== *)
theory PUThread_Local
  imports Plibsys_Prelude "HOL-Library.Monad_Syntax"
begin

text \<open>
  Thread-local storage of POSIX systems, \<^verbatim>\<open>src/src/os/posix/puthread-posix.c\<close>. The key of the system behind a
  \<open>PUThreadKey\<close> is made by the first thread that needs it, without a lock: several threads may make
  one, and a compare and exchange decides which is kept. The threads run in any order, one access to
  shared memory or one call of the system at a time.
\<close>

section \<open>State\<close>

record PUThreadKey =
  key :: ppointer
  free_func :: bool

datatype tls_op = Get_Local | Set_Local ppointer | Replace_Local ppointer

text \<open>
  Where a thread is: outside, in front of the first read of the key, with no key, with a key of its
  own in front of the exchange, after losing it, in front of the second read, and with the key that it
  will use (in \<^verbatim>\<open>zuthread_replace_local\<close> also after the old value was read).
\<close>

datatype tls_pc = T_Out | T_Load tls_op | T_Make tls_op | T_Exchange tls_op ppointer | T_Lost tls_op ppointer
  | T_Reload tls_op | T_Use tls_op ppointer | T_Put ppointer ppointer

text \<open>
  The object, the cells of type \<^verbatim>\<open>pthread_key_t\<close> with the number of their key, the values of the keys that
  the system knows, the arguments of the calls of \<open>free_func\<close>, and what the calls returned.
\<close>

record tls_state =
  key_obj :: "PUThreadKey option"
  cells :: "ppointer \<rightharpoonup> nat"
  specific :: "nat \<rightharpoonup> nat \<Rightarrow> ppointer"
  destroyed :: "ppointer list"
  tls_pcs :: "nat \<Rightarrow> tls_pc"

text \<open>The answers of the system to a step: an address (null on failure), the number of a key and the outcome of the call.\<close>

record tls_choice =
  c_addr :: ppointer
  c_key :: nat
  c_ok :: bool

text \<open>What a step returns to the program, if it ends a call.\<close>

datatype tls_event = E_None | E_Got ppointer | E_Set | E_Failed

definition tls_goto :: "nat \<Rightarrow> tls_pc \<Rightarrow> tls_state \<Rightarrow> tls_state" where
  "tls_goto t p st = st\<lparr>tls_pcs := (tls_pcs st)(t := p)\<rparr>"

section \<open>Operations\<close>

definition zuthread_local_new :: "bool \<Rightarrow> bool \<Rightarrow> PUThreadKey option" where
  "zuthread_local_new mem ff = (if \<not> mem then None else Some \<lparr>key = NULL, free_func = ff\<rparr>)"

definition zuthread_local_free :: "tls_state \<Rightarrow> tls_state" where
  "zuthread_local_free st = st\<lparr>key_obj := None\<rparr>"

text \<open>
  The steps of \<^verbatim>\<open>pzuthread_get_tls_key\<close>. \<^verbatim>\<open>pthread_key_create\<close> gives a key with null in all threads. A thread
  that returns a null key leaves its call.
\<close>

fun pzuthread_get_tls_key :: "nat \<Rightarrow> tls_choice \<Rightarrow> tls_pc \<Rightarrow> tls_state \<Rightarrow> (tls_event \<times> tls_state) option" where
  "pzuthread_get_tls_key t c (T_Load op) st = do {
     k \<leftarrow> key_obj st;
     Some (E_None, tls_goto t (if key k \<noteq> NULL then T_Use op (key k) else T_Make op) st)
   }"
| "pzuthread_get_tls_key t c (T_Make op) st =
     (if c_addr c = NULL then Some (E_Failed, tls_goto t T_Out st)
      else if \<not> c_ok c then Some (E_Failed, tls_goto t T_Out st)
      else Some (E_None, tls_goto t (T_Exchange op (c_addr c))
             (st\<lparr>cells := (cells st)(c_addr c \<mapsto> c_key c), specific := (specific st)(c_key c \<mapsto> \<lambda>_. NULL)\<rparr>)))"
| "pzuthread_get_tls_key t c (T_Exchange op p) st = do {
     k \<leftarrow> key_obj st;
     if key k = NULL then Some (E_None, tls_goto t (T_Use op p) (st\<lparr>key_obj := Some (k\<lparr>key := p\<rparr>)\<rparr>))
     else Some (E_None, tls_goto t (T_Lost op p) st)
   }"
| "pzuthread_get_tls_key t c (T_Lost op p) st = do {
     n \<leftarrow> cells st p;
     let st1 = st\<lparr>cells := (cells st)(p := None)\<rparr>;
     if \<not> c_ok c then Some (E_Failed, tls_goto t T_Out st1)
     else Some (E_None, tls_goto t (T_Reload op) (st1\<lparr>specific := (specific st)(n := None)\<rparr>))
   }"
| "pzuthread_get_tls_key t c (T_Reload op) st = do {
     k \<leftarrow> key_obj st;
     Some (if key k = NULL then (E_Failed, tls_goto t T_Out st) else (E_None, tls_goto t (T_Use op (key k)) st))
   }"
| "pzuthread_get_tls_key t c _ st = None"

text \<open>The value of the calling thread under the key in a cell; using a key that was deleted, or a cell that was freed, has no result.\<close>

definition pthread_getspecific :: "nat \<Rightarrow> ppointer \<Rightarrow> tls_state \<Rightarrow> ppointer option" where
  "pthread_getspecific t p st = do { n \<leftarrow> cells st p; f \<leftarrow> specific st n; Some (f t) }"

definition pthread_setspecific :: "nat \<Rightarrow> bool \<Rightarrow> ppointer \<Rightarrow> ppointer \<Rightarrow> tls_state \<Rightarrow> (tls_event \<times> tls_state) option" where
  "pthread_setspecific t ok p v st = do {
     n \<leftarrow> cells st p;
     f \<leftarrow> specific st n;
     Some (if ok then (E_Set, st\<lparr>specific := (specific st)(n \<mapsto> f(t := v))\<rparr>) else (E_Failed, st))
   }"

definition zuthread_get_local :: "nat \<Rightarrow> ppointer \<Rightarrow> tls_state \<Rightarrow> (tls_event \<times> tls_state) option" where
  "zuthread_get_local t p st = do { v \<leftarrow> pthread_getspecific t p st; Some (E_Got v, tls_goto t T_Out st) }"

definition zuthread_set_local :: "nat \<Rightarrow> bool \<Rightarrow> ppointer \<Rightarrow> ppointer \<Rightarrow> tls_state \<Rightarrow> (tls_event \<times> tls_state) option" where
  "zuthread_set_local t ok p v st = do {
     (e, st1) \<leftarrow> pthread_setspecific t ok p v st;
     Some (e, tls_goto t T_Out st1)
   }"

text \<open>The old value is read and destroyed, and then the new one is set.\<close>

definition zuthread_replace_local :: "nat \<Rightarrow> ppointer \<Rightarrow> ppointer \<Rightarrow> tls_state \<Rightarrow> (tls_event \<times> tls_state) option" where
  "zuthread_replace_local t p v st = do {
     old \<leftarrow> pthread_getspecific t p st;
     k \<leftarrow> key_obj st;
     Some (E_None, tls_goto t (T_Put p v)
       (if old \<noteq> NULL \<and> free_func k then st\<lparr>destroyed := destroyed st @ [old]\<rparr> else st))
   }"

definition tls_step :: "nat \<Rightarrow> tls_choice \<Rightarrow> tls_op \<Rightarrow> tls_state \<Rightarrow> (tls_event \<times> tls_state) option" where
  "tls_step t c op st =
     (case tls_pcs st t of
        T_Out \<Rightarrow> Some (E_None, tls_goto t (T_Load op) st)
      | T_Use Get_Local p \<Rightarrow> zuthread_get_local t p st
      | T_Use (Set_Local v) p \<Rightarrow> zuthread_set_local t (c_ok c) p v st
      | T_Use (Replace_Local v) p \<Rightarrow> zuthread_replace_local t p v st
      | T_Put p v \<Rightarrow> zuthread_set_local t (c_ok c) p v st
      | pc \<Rightarrow> pzuthread_get_tls_key t c pc st)"

text \<open>New addresses and new keys are not in use.\<close>

definition fresh_choice :: "tls_choice \<Rightarrow> tls_state \<Rightarrow> bool" where
  "fresh_choice c st \<longleftrightarrow> cells st (c_addr c) = None \<and> specific st (c_key c) = None"

definition tls_start :: "PUThreadKey \<Rightarrow> tls_state" where
  "tls_start k = \<lparr>key_obj = Some k, cells = Map.empty, specific = Map.empty, destroyed = [], tls_pcs = \<lambda>_. T_Out\<rparr>"

text \<open>A run: which thread moves, what the system answers and, for a thread that is outside, what it calls.\<close>

inductive tls_reachable :: "bool \<Rightarrow> tls_state \<Rightarrow> bool" where
  tls_init: "zuthread_local_new True ff = Some k \<Longrightarrow> tls_reachable ff (tls_start k)"
| tls_next: "tls_reachable ff st \<Longrightarrow> fresh_choice c st \<Longrightarrow> tls_step t c op st = Some (e, st') \<Longrightarrow> tls_reachable ff st'"

section \<open>Invariant\<close>

text \<open>The cell that a thread made and has not given away, the key it will use, and whether it knows that there is one.\<close>

fun held :: "tls_pc \<Rightarrow> ppointer option" where
  "held (T_Exchange op p) = Some p"
| "held (T_Lost op p) = Some p"
| "held pc = None"

fun used :: "tls_pc \<Rightarrow> ppointer option" where
  "used (T_Use op p) = Some p"
| "used (T_Put p v) = Some p"
| "used pc = None"

fun knows :: "tls_pc \<Rightarrow> bool" where
  "knows (T_Lost op p) \<longleftrightarrow> True"
| "knows (T_Reload op) \<longleftrightarrow> True"
| "knows (T_Use op p) \<longleftrightarrow> True"
| "knows (T_Put p v) \<longleftrightarrow> True"
| "knows pc \<longleftrightarrow> False"

text \<open>
  The cells are that of the object and those that threads hold, all different and with different
  keys; a key that is not yet given to the object has no values; the key in use is that of the object.
\<close>

definition tls_cells :: "PUThreadKey \<Rightarrow> tls_state \<Rightarrow> bool" where
  "tls_cells k st \<longleftrightarrow>
     (\<forall>p. cells st p \<noteq> None \<longleftrightarrow> p \<noteq> NULL \<and> (p = key k \<or> (\<exists>t. held (tls_pcs st t) = Some p))) \<and>
     (\<forall>p q n. cells st p = Some n \<and> cells st q = Some n \<longrightarrow> p = q) \<and>
     (\<forall>p n. cells st p = Some n \<longrightarrow> (\<exists>f. specific st n = Some f \<and> (p \<noteq> key k \<longrightarrow> f = (\<lambda>_. NULL))))"

definition tls_threads :: "PUThreadKey \<Rightarrow> tls_state \<Rightarrow> bool" where
  "tls_threads k st \<longleftrightarrow>
     (\<forall>t p. held (tls_pcs st t) = Some p \<longrightarrow> p \<noteq> NULL \<and> p \<noteq> key k) \<and>
     (\<forall>t u p. held (tls_pcs st t) = Some p \<and> held (tls_pcs st u) = Some p \<longrightarrow> t = u) \<and>
     (\<forall>t. knows (tls_pcs st t) \<longrightarrow> key k \<noteq> NULL) \<and>
     (\<forall>t p. used (tls_pcs st t) = Some p \<longrightarrow> p = key k)"

definition tls_inv :: "bool \<Rightarrow> tls_state \<Rightarrow> bool" where
  "tls_inv ff st \<longleftrightarrow> (\<exists>k. key_obj st = Some k \<and> free_func k = ff \<and> tls_cells k st \<and> tls_threads k st)"

text \<open>The abstract variable: a value per thread.\<close>

definition local_value :: "tls_state \<Rightarrow> nat \<Rightarrow> ppointer" where
  "local_value st t =
     (case key_obj st of
        None \<Rightarrow> NULL
      | Some k \<Rightarrow> if key k = NULL then NULL else case pthread_getspecific t (key k) st of None \<Rightarrow> NULL | Some v \<Rightarrow> v)"

text \<open>What the step that comes next promises.\<close>

fun tls_promise :: "bool \<Rightarrow> nat \<Rightarrow> tls_pc \<Rightarrow> tls_event \<Rightarrow> tls_state \<Rightarrow> tls_state \<Rightarrow> bool" where
  "tls_promise ff t pc E_Set st st' \<longleftrightarrow>
     (\<exists>p v. (pc = T_Use (Set_Local v) p \<or> pc = T_Put p v) \<and> local_value st' = (local_value st)(t := v)) \<and>
     destroyed st' = destroyed st"
| "tls_promise ff t pc (E_Got v) st st' \<longleftrightarrow>
     v = local_value st t \<and> local_value st' = local_value st \<and> destroyed st' = destroyed st"
| "tls_promise ff t pc E_Failed st st' \<longleftrightarrow> local_value st' = local_value st \<and> destroyed st' = destroyed st"
| "tls_promise ff t pc E_None st st' \<longleftrightarrow>
     local_value st' = local_value st \<and>
     destroyed st' = destroyed st @
       (case pc of
          T_Use (Replace_Local v) p \<Rightarrow> if ff \<and> local_value st t \<noteq> NULL then [local_value st t] else []
        | _ \<Rightarrow> [])"

lemma tls_cellsD:
  assumes "tls_cells k st"
  shows "cells st p = None \<longleftrightarrow> p = NULL \<or> (p \<noteq> key k \<and> (\<forall>t. held (tls_pcs st t) \<noteq> Some p))"
    and "cells st p = Some n \<Longrightarrow> cells st q = Some n \<Longrightarrow> p = q"
    and "cells st p = Some n \<Longrightarrow> \<exists>f. specific st n = Some f \<and> (p \<noteq> key k \<longrightarrow> f = (\<lambda>_. NULL))"
  using assms unfolding tls_cells_def by metis+

lemma tls_cellsI:
  assumes "\<And>p. cells st p \<noteq> None \<longleftrightarrow> p \<noteq> NULL \<and> (p = key k \<or> (\<exists>t. held (tls_pcs st t) = Some p))"
    and "\<And>p q n. cells st p = Some n \<Longrightarrow> cells st q = Some n \<Longrightarrow> p = q"
    and "\<And>p n. cells st p = Some n \<Longrightarrow> \<exists>f. specific st n = Some f \<and> (p \<noteq> key k \<longrightarrow> f = (\<lambda>_. NULL))"
  shows "tls_cells k st"
  unfolding tls_cells_def using assms by simp

lemma tls_threadsD:
  assumes "tls_threads k st"
  shows "held (tls_pcs st t) = Some p \<Longrightarrow> p \<noteq> NULL \<and> p \<noteq> key k"
    and "held (tls_pcs st t) = Some p \<Longrightarrow> held (tls_pcs st u) = Some p \<Longrightarrow> u = t"
    and "knows (tls_pcs st t) \<Longrightarrow> key k \<noteq> NULL"
    and "used (tls_pcs st t) = Some p \<Longrightarrow> p = key k"
  using assms unfolding tls_threads_def by blast+

lemma used_knows: "used pc = Some p \<Longrightarrow> knows pc"
  by (cases pc) auto

lemma ex_if_thread: "(\<exists>u. (if u = t then x else f u) = Some q) \<longleftrightarrow> x = Some q \<or> (\<exists>u. u \<noteq> t \<and> f u = Some q)"
  by auto

text \<open>The key of the object can always be used.\<close>

lemma key_usable:
  assumes "tls_cells k st" "key k \<noteq> NULL"
  obtains n f where "cells st (key k) = Some n" "specific st n = Some f"
proof -
  obtain n where n: "cells st (key k) = Some n" using tls_cellsD(1)[OF assms(1), of "key k"] assms(2) by auto
  then show ?thesis using tls_cellsD(3)[OF assms(1) n] that by blast
qed

lemma local_value_null [simp]: "key_obj st = Some k \<Longrightarrow> key k = NULL \<Longrightarrow> local_value st t = NULL"
  by (simp add: local_value_def)

lemma local_value_some:
  "key_obj st = Some k \<Longrightarrow> key k \<noteq> NULL \<Longrightarrow> cells st (key k) = Some n \<Longrightarrow> specific st n = Some f \<Longrightarrow> local_value st t = f t"
  by (simp add: local_value_def pthread_getspecific_def)

text \<open>The values depend on the key of the object only.\<close>

lemma local_value_same:
  assumes "key_obj st = Some k" "key_obj st' = Some k" "tls_cells k st" "cells st' (key k) = cells st (key k)"
    and "\<And>n. cells st (key k) = Some n \<Longrightarrow> specific st' n = specific st n"
  shows "local_value st' = local_value st"
proof (cases "key k = NULL")
  case True
  then show ?thesis using assms(1,2) by (simp add: fun_eq_iff)
next
  case False
  obtain n f where "cells st (key k) = Some n" "specific st n = Some f" using key_usable[OF assms(3) False] by blast
  then show ?thesis using assms False local_value_some[of st k n f] local_value_some[of st' k n f] by (simp add: fun_eq_iff)
qed

lemma tls_goto_simps [simp]:
  "key_obj (tls_goto t p st) = key_obj st" "cells (tls_goto t p st) = cells st" "specific (tls_goto t p st) = specific st"
  "destroyed (tls_goto t p st) = destroyed st" "tls_pcs (tls_goto t p st) = (tls_pcs st)(t := p)"
  "local_value (tls_goto t p st) = local_value st"
  by (auto simp: tls_goto_def local_value_def pthread_getspecific_def fun_eq_iff split: option.splits)

lemma tls_update_simps [simp]:
  "tls_cells k (st\<lparr>destroyed := d\<rparr>) = tls_cells k st" "tls_threads k (st\<lparr>destroyed := d\<rparr>) = tls_threads k st"
  "tls_threads k (st\<lparr>specific := s\<rparr>) = tls_threads k st"
  by (simp_all add: tls_cells_def tls_threads_def)

text \<open>A thread that moves on without touching a cell, and to a place that knows no more than the state.\<close>

lemma tls_inv_goto:
  assumes "tls_cells k st" "tls_threads k st"
    and "held pc = held (tls_pcs st t)"
    and "knows pc \<longrightarrow> key k \<noteq> NULL" "\<forall>p. used pc = Some p \<longrightarrow> p = key k"
  shows "tls_cells k (tls_goto t pc st)" "tls_threads k (tls_goto t pc st)"
proof -
  have "held (((tls_pcs st)(t := pc)) u) = held (tls_pcs st u)" for u
    using assms(3) by simp
  with assms show "tls_cells k (tls_goto t pc st)" "tls_threads k (tls_goto t pc st)"
    unfolding tls_cells_def tls_threads_def tls_goto_simps by (simp only:, auto simp: fun_upd_apply)
qed

text \<open>The outcome of a step.\<close>

definition tls_step_ok :: "bool \<Rightarrow> nat \<Rightarrow> tls_state \<Rightarrow> (tls_event \<times> tls_state) option \<Rightarrow> bool" where
  "tls_step_ok ff t st r \<longleftrightarrow>
     (\<exists>e st'. r = Some (e, st') \<and> tls_inv ff st' \<and> tls_promise ff t (tls_pcs st t) e st st')"

lemma tls_goto_ok:
  assumes "key_obj st = Some k" "free_func k = ff" "tls_cells k st" "tls_threads k st" "held pc = held (tls_pcs st t)"
    and "knows pc \<longrightarrow> key k \<noteq> NULL" "\<forall>p. used pc = Some p \<longrightarrow> p = key k"
    and "tls_promise ff t (tls_pcs st t) e st (tls_goto t pc st)"
  shows "tls_step_ok ff t st (Some (e, tls_goto t pc st))"
  unfolding tls_step_ok_def tls_inv_def using assms tls_inv_goto[OF assms(3-7)] by auto

lemma tls_load_ok:
  assumes "tls_inv ff st" "tls_pcs st t = T_Load op"
  shows "tls_step_ok ff t st (pzuthread_get_tls_key t c (T_Load op) st)"
  using assms by (auto simp: tls_inv_def intro!: tls_goto_ok)

lemma tls_reload_ok:
  assumes "tls_inv ff st" "tls_pcs st t = T_Reload op"
  shows "tls_step_ok ff t st (pzuthread_get_tls_key t c (T_Reload op) st)"
  using assms by (auto simp: tls_inv_def intro!: tls_goto_ok)

text \<open>A thread that made a key holds the cell.\<close>

lemma tls_make_ok:
  assumes inv: "tls_inv ff st" and pc: "tls_pcs st t = T_Make op" and fresh: "fresh_choice c st"
  shows "tls_step_ok ff t st (pzuthread_get_tls_key t c (T_Make op) st)"
proof (cases "c_addr c \<noteq> NULL \<and> c_ok c")
  case False
  then show ?thesis using inv pc by (auto simp: tls_inv_def intro!: tls_goto_ok)
next
  case True
  obtain k where k: "key_obj st = Some k" "free_func k = ff" "tls_cells k st" "tls_threads k st"
    using inv by (auto simp: tls_inv_def)
  let ?p = "c_addr c" and ?n = "c_key c"
  let ?st = "tls_goto t (T_Exchange op ?p) (st\<lparr>cells := (cells st)(?p \<mapsto> ?n), specific := (specific st)(?n \<mapsto> \<lambda>_. NULL)\<rparr>)"
  have new: "cells st ?p = None" "specific st ?n = None" "?p \<noteq> NULL" using fresh True by (auto simp: fresh_choice_def)
  have nk: "?p \<noteq> key k" "held (tls_pcs st u) \<noteq> Some ?p" for u
    using tls_cellsD(1)[OF k(3), of ?p] new by auto
  have nn: "cells st q \<noteq> Some ?n" for q using tls_cellsD(3)[OF k(3), of q ?n] new(2) by auto
  have heldst: "held (tls_pcs ?st u) = (if u = t then Some ?p else held (tls_pcs st u))" for u by simp
  have ht: "held (tls_pcs st t) = None" using pc by simp
  have "tls_cells k ?st"
  proof (intro tls_cellsI, unfold heldst)
    show "(cells ?st q \<noteq> None) \<longleftrightarrow> q \<noteq> NULL \<and> (q = key k \<or> (\<exists>u. (if u = t then Some ?p else held (tls_pcs st u)) = Some q))" for q
      using tls_cellsD(1)[OF k(3), of q] new nk ht unfolding ex_if_thread by (cases "q = ?p") (simp, simp, metis option.distinct(1))
    show "q = r" if "cells ?st q = Some m" "cells ?st r = Some m" for q r m
      using tls_cellsD(2)[OF k(3), of q m r] nn that by (auto split: if_splits)
    show "\<exists>f. specific ?st m = Some f \<and> (q \<noteq> key k \<longrightarrow> f = (\<lambda>_. NULL))" if "cells ?st q = Some m" for q m
      using tls_cellsD(3)[OF k(3), of q m] nn that by (auto split: if_splits)
  qed
  moreover have "tls_threads k ?st"
    using k(4) nk new(3) ht unfolding tls_threads_def heldst by auto
  moreover have "local_value ?st = local_value st"
    using k nk nn by (intro local_value_same[of _ k]) auto
  ultimately show ?thesis
    using True k pc by (auto simp: tls_step_ok_def tls_inv_def)
qed

text \<open>The exchange gives the cell to the object, or leaves it with the thread.\<close>

lemma tls_exchange_ok:
  assumes inv: "tls_inv ff st" and pc: "tls_pcs st t = T_Exchange op p"
  shows "tls_step_ok ff t st (pzuthread_get_tls_key t c (T_Exchange op p) st)"
proof -
  obtain k where k: "key_obj st = Some k" "free_func k = ff" "tls_cells k st" "tls_threads k st"
    using inv by (auto simp: tls_inv_def)
  have ht: "held (tls_pcs st t) = Some p" using pc by simp
  then have p: "p \<noteq> NULL" "\<And>u. held (tls_pcs st u) = Some p \<Longrightarrow> u = t"
    using tls_threadsD(1,2)[OF k(4)] by blast+
  show ?thesis
  proof (cases "key k = NULL")
    case False
    then show ?thesis using k pc by (auto intro!: tls_goto_ok)
  next
    case True
    let ?k = "k\<lparr>key := p\<rparr>"
    let ?st = "tls_goto t (T_Use op p) (st\<lparr>key_obj := Some ?k\<rparr>)"
    have heldst: "held (tls_pcs ?st u) = (if u = t then None else held (tls_pcs st u))" for u by simp
    have "cells st q \<noteq> None \<longleftrightarrow> q \<noteq> NULL \<and> (q = p \<or> (\<exists>u. (if u = t then None else held (tls_pcs st u)) = Some q))" for q
      using tls_cellsD(1)[OF k(3), of q] True p ht unfolding ex_if_thread by (metis option.distinct(1) option.inject)
    then have "tls_cells ?k ?st"
    proof (intro tls_cellsI, unfold heldst)
      show "\<exists>f. specific ?st n = Some f \<and> (q \<noteq> key ?k \<longrightarrow> f = (\<lambda>_. NULL))" if "cells ?st q = Some n" for q n
        using tls_cellsD(3)[OF k(3), of q n] tls_cellsD(1)[OF k(3), of q] True that by auto
      show "q = r" if "cells ?st q = Some n" "cells ?st r = Some n" for q r n
        using tls_cellsD(2)[OF k(3), of q n r] that by simp
    qed simp
    moreover have "tls_threads ?k ?st"
      using k(4) p True unfolding tls_threads_def heldst by (auto dest: used_knows)
    moreover obtain n where n: "cells st p = Some n" using tls_cellsD(1)[OF k(3), of p] p(1) ht by auto
    then have "local_value ?st u = NULL" for u
      using tls_cellsD(3)[OF k(3) n] p(1) True local_value_some[of "st\<lparr>key_obj := Some ?k\<rparr>" ?k n "\<lambda>_. NULL"] by auto
    moreover have "local_value st u = NULL" for u using k True by (simp add: local_value_def)
    ultimately show ?thesis using True k pc by (auto simp: tls_step_ok_def tls_inv_def fun_eq_iff)
  qed
qed

text \<open>The loser gives its key back.\<close>

lemma tls_lost_ok:
  assumes inv: "tls_inv ff st" and pc: "tls_pcs st t = T_Lost op p"
  shows "tls_step_ok ff t st (pzuthread_get_tls_key t c (T_Lost op p) st)"
proof -
  obtain k where k: "key_obj st = Some k" "free_func k = ff" "tls_cells k st" "tls_threads k st"
    using inv by (auto simp: tls_inv_def)
  have ht: "held (tls_pcs st t) = Some p" using pc by simp
  then have p: "p \<noteq> NULL" "p \<noteq> key k" "\<And>u. held (tls_pcs st u) = Some p \<Longrightarrow> u = t" "key k \<noteq> NULL"
    using tls_threadsD(1,2)[OF k(4)] tls_threadsD(3)[OF k(4), of t] pc by (blast, blast, blast, simp)
  then obtain n where n: "cells st p = Some n" using tls_cellsD(1)[OF k(3), of p] ht by auto
  have keep: "tls_cells k st' \<and> tls_threads k st' \<and> local_value st' = local_value st"
    if st': "st' = tls_goto t pc' (st\<lparr>cells := (cells st)(p := None), specific := s\<rparr>)" "s = specific st \<or> s = (specific st)(n := None)"
      "pc' = T_Out \<or> pc' = T_Reload op" for st' pc' s
  proof -
    have heldst: "held (tls_pcs st' u) = (if u = t then None else held (tls_pcs st u))" for u using st' by auto
    have dom: "cells st' q \<noteq> None \<longleftrightarrow> q \<noteq> NULL \<and> (q = key k \<or> (\<exists>u. (if u = t then None else held (tls_pcs st u)) = Some q))" for q
    proof (cases "q = p")
      case True
      then show ?thesis using p(2,3) st'(1) by (auto simp: ex_if_thread)
    next
      case False
      then have "cells st' q = cells st q" "(\<exists>u. u \<noteq> t \<and> held (tls_pcs st u) = Some q) \<longleftrightarrow> (\<exists>u. held (tls_pcs st u) = Some q)"
        using st'(1) ht by (simp, metis option.inject)
      then show ?thesis using tls_cellsD(1)[OF k(3), of q] unfolding ex_if_thread by auto
    qed
    have spec: "s m = specific st m" if "cells st q = Some m" "q \<noteq> p" for q m
      using tls_cellsD(2)[OF k(3) that(1), of p] n that st'(2) by auto
    have "tls_cells k st'"
    proof (intro tls_cellsI, unfold heldst)
      show "q = r" if "cells st' q = Some m" "cells st' r = Some m" for q r m
        using tls_cellsD(2)[OF k(3), of q m r] that st'(1) by (simp split: if_splits)
      show "\<exists>f. specific st' m = Some f \<and> (q \<noteq> key k \<longrightarrow> f = (\<lambda>_. NULL))" if "cells st' q = Some m" for q m
        using tls_cellsD(3)[OF k(3), of q m] spec[of q m] that st'(1) by (simp split: if_splits)
    qed (rule dom)
    moreover have "tls_threads k st'"
      using k(4) p(4) st' unfolding tls_threads_def heldst by auto
    moreover have "local_value st' = local_value st"
      using k p spec st'(1) by (intro local_value_same[of _ k]) auto
    ultimately show ?thesis by simp
  qed
  show ?thesis
    using k n pc keep[OF refl, of "specific st" T_Out] keep[OF refl, of "(specific st)(n := None)" "T_Reload op"]
    by (auto simp: tls_step_ok_def tls_inv_def Let_def)
qed

text \<open>Using the key: the steps that read, set and replace the value.\<close>

lemma thread_uses_key:
  assumes "tls_inv ff st" "used (tls_pcs st t) = Some p"
  obtains k n f where "key_obj st = Some k" "free_func k = ff" "tls_cells k st" "tls_threads k st" "p = key k" "key k \<noteq> NULL"
    "cells st (key k) = Some n" "specific st n = Some f" "pthread_getspecific t p st = Some (local_value st t)"
proof -
  obtain k where k: "key_obj st = Some k" "free_func k = ff" "tls_cells k st" "tls_threads k st"
    using assms(1) by (auto simp: tls_inv_def)
  have p: "p = key k" "key k \<noteq> NULL"
    using tls_threadsD(3,4)[OF k(4), of t] assms(2) used_knows by blast+
  obtain n f where n: "cells st (key k) = Some n" "specific st n = Some f" using key_usable[OF k(3) p(2)] .
  then have "pthread_getspecific t p st = Some (local_value st t)"
    using local_value_some[OF k(1) p(2) n] p(1) by (simp add: pthread_getspecific_def)
  then show ?thesis using that k p n by blast
qed

lemma tls_get_ok:
  assumes "tls_inv ff st" "tls_pcs st t = T_Use op p"
  shows "tls_step_ok ff t st (zuthread_get_local t p st)"
proof -
  have "used (tls_pcs st t) = Some p" using assms(2) by simp
  then obtain k where k: "key_obj st = Some k" "free_func k = ff" "tls_cells k st" "tls_threads k st"
    "pthread_getspecific t p st = Some (local_value st t)"
    by (rule thread_uses_key[OF assms(1)]) blast
  then have "tls_step_ok ff t st (Some (E_Got (local_value st t), tls_goto t T_Out st))"
    using assms(2) by (intro tls_goto_ok) simp_all
  then show ?thesis unfolding zuthread_get_local_def using k(5) by simp
qed

lemma tls_replace_ok:
  assumes "tls_inv ff st" "tls_pcs st t = T_Use (Replace_Local v) p"
  shows "tls_step_ok ff t st (zuthread_replace_local t p v st)"
proof -
  have "used (tls_pcs st t) = Some p" using assms(2) by simp
  then obtain k where k: "key_obj st = Some k" "free_func k = ff" "tls_cells k st" "tls_threads k st" "p = key k" "key k \<noteq> NULL"
    "pthread_getspecific t p st = Some (local_value st t)"
    by (rule thread_uses_key[OF assms(1)]) blast
  have inv: "tls_inv ff (tls_goto t (T_Put p v) (st\<lparr>destroyed := d\<rparr>))" for d
  proof -
    have "tls_cells k (tls_goto t (T_Put p v) (st\<lparr>destroyed := d\<rparr>))" "tls_threads k (tls_goto t (T_Put p v) (st\<lparr>destroyed := d\<rparr>))"
      using k(3-6) assms(2) by (intro tls_inv_goto; simp)+
    then show ?thesis unfolding tls_inv_def using k(1,2) by simp
  qed
  have same: "local_value (st\<lparr>destroyed := d\<rparr>) = local_value st" for d
    using k(1,3) by (intro local_value_same[of _ k]) simp_all
  show ?thesis
    unfolding zuthread_replace_local_def tls_step_ok_def
    using k(1,2,7) inv[of "destroyed st"] inv[of "destroyed st @ [local_value st t]"] same assms(2) by (cases ff) simp_all
qed

lemma tls_set_ok:
  assumes "tls_inv ff st" "tls_pcs st t = T_Use (Set_Local v) p \<or> tls_pcs st t = T_Put p v"
  shows "tls_step_ok ff t st (zuthread_set_local t ok p v st)"
proof -
  have "used (tls_pcs st t) = Some p" using assms(2) by auto
  then obtain k n f where k: "key_obj st = Some k" "free_func k = ff" "tls_cells k st" "tls_threads k st"
      and p: "p = key k" "key k \<noteq> NULL" and n: "cells st (key k) = Some n" "specific st n = Some f"
    by (rule thread_uses_key[OF assms(1)])
  let ?st = "st\<lparr>specific := (specific st)(n \<mapsto> f(t := v))\<rparr>"
  have other: "m \<noteq> n" if "cells st q = Some m" "q \<noteq> key k" for q m
    using tls_cellsD(2)[OF k(3), of q m p] that n p by auto
  have cells: "tls_cells k ?st"
  proof (intro tls_cellsI)
    show "\<exists>g. specific ?st m = Some g \<and> (q \<noteq> key k \<longrightarrow> g = (\<lambda>_. NULL))" if "cells ?st q = Some m" for q m
      using tls_cellsD(3)[OF k(3), of q m] other[of q m] that by auto
    show "q = r" if "cells ?st q = Some m" "cells ?st r = Some m" for q r m
      using tls_cellsD(2)[OF k(3), of q m r] that by simp
    show "cells ?st q \<noteq> None \<longleftrightarrow> q \<noteq> NULL \<and> (q = key k \<or> (\<exists>u. held (tls_pcs ?st u) = Some q))" for q
      using tls_cellsD(1)[OF k(3), of q] by auto
  qed
  have held: "held (tls_pcs st t) = None" using assms(2) by auto
  have "tls_inv ff (tls_goto t T_Out ?st)" "tls_inv ff (tls_goto t T_Out st)"
    unfolding tls_inv_def
    using tls_inv_goto[OF cells, of T_Out t] tls_inv_goto[OF k(3,4), of T_Out t] k held by simp_all
  moreover have "local_value ?st = (local_value st)(t := v)"
    using local_value_some[of st k n f] local_value_some[of ?st k n "f(t := v)"] k(1) n p by (simp add: fun_eq_iff)
  ultimately show ?thesis
    unfolding zuthread_set_local_def pthread_setspecific_def tls_step_ok_def using n p(1) assms(2) by auto
qed

lemma tls_step_ok:
  assumes inv: "tls_inv ff st" and fresh: "fresh_choice c st"
  shows "tls_step_ok ff t st (tls_step t c op st)"
proof (cases "tls_pcs st t")
  case T_Out
  then show ?thesis using inv by (auto simp: tls_step_def tls_inv_def intro!: tls_goto_ok)
next
  case (T_Use o' p)
  then show ?thesis
    using inv by (cases o') (auto simp: tls_step_def intro!: tls_get_ok tls_set_ok tls_replace_ok)
next
  case (T_Put p v)
  then show ?thesis using inv by (auto simp: tls_step_def intro!: tls_set_ok)
qed (use inv fresh in \<open>simp_all add: tls_step_def tls_load_ok tls_make_ok tls_exchange_ok tls_lost_ok tls_reload_ok
       del: pzuthread_get_tls_key.simps\<close>)

lemma tls_reachable_inv: "tls_reachable ff st \<Longrightarrow> tls_inv ff st"
proof (induction rule: tls_reachable.induct)
  case (tls_init ff k)
  then show ?case by (auto simp: zuthread_local_new_def tls_start_def tls_inv_def tls_cells_def tls_threads_def split: if_splits)
next
  case (tls_next ff st c t op e st')
  then show ?case using tls_step_ok[of ff st c t op] by (auto simp: tls_step_ok_def)
qed

section \<open>Correctness\<close>


text \<open>A run with two threads at work: the first has given its key to the object, the second lost the exchange.\<close>

definition tls_act :: "nat \<Rightarrow> tls_choice \<Rightarrow> tls_op \<Rightarrow> tls_state option \<Rightarrow> tls_state option" where
  "tls_act t c op so =
     (case so of
        None \<Rightarrow> None
      | Some st \<Rightarrow> if fresh_choice c st then map_option snd (tls_step t c op st) else None)"

lemma tls_act_reachable:
  assumes "tls_reachable ff st" "tls_act t c op (Some st) = Some st'"
  shows "tls_reachable ff st'"
  using assms tls_next[of ff st c t op] by (auto simp: tls_act_def split: if_splits)

fun tls_runs :: "(nat \<times> tls_choice \<times> tls_op) list \<Rightarrow> tls_state option \<Rightarrow> tls_state option" where
  "tls_runs [] so = so"
| "tls_runs ((t, c, op) # xs) so = tls_runs xs (tls_act t c op so)"

lemma tls_runs_None [simp]: "tls_runs xs None = None"
  by (induction xs) (auto simp: tls_act_def)

lemma tls_runs_reachable: "tls_reachable ff st \<Longrightarrow> tls_runs xs (Some st) = Some st' \<Longrightarrow> tls_reachable ff st'"
proof (induction xs arbitrary: st)
  case (Cons x xs)
  obtain t c op where x: "x = (t, c, op)" by (cases x)
  then show ?case using Cons by (cases "tls_act t c op (Some st)") (auto dest: tls_act_reachable)
qed simp

abbreviation "tls_empty ff \<equiv> tls_start \<lparr>key = NULL, free_func = ff\<rparr>"

abbreviation "tls_c a n b \<equiv> \<lparr>c_addr = a, c_key = n, c_ok = b\<rparr>"

definition tls_race :: "(nat \<times> tls_choice \<times> tls_op) list" where
  "tls_race = (let c = tls_c 8 1 True; d = tls_c 16 2 True; f = tls_c 24 3 True
     in [(1, c, Set_Local 5), (2, c, Get_Local), (1, c, Get_Local), (2, c, Get_Local), (1, c, Get_Local), (2, d, Get_Local),
         (1, f, Get_Local), (2, f, Get_Local)])"

lemma tls_start_reachable: "tls_reachable ff (tls_empty ff)"
  by (rule tls_init) (simp add: zuthread_local_new_def)

lemmas tls_eval = tls_runs.simps tls_act_def tls_step_def fresh_choice_def tls_start_def tls_goto_def
  zuthread_get_local_def zuthread_set_local_def zuthread_replace_local_def pthread_setspecific_def pthread_getspecific_def


text \<open>
  \<^verbatim>\<open>zuthread_replace_local\<close> destroys the old value before it sets the new one, so when the system refuses the
  new value the thread goes on with a value that was destroyed, and that reading returns.
\<close>

theorem thread_local_dangling:
  "\<exists>st v. tls_reachable True st \<and> (\<forall>t. tls_pcs st t = T_Out) \<and> v \<noteq> NULL \<and> v \<in> set (destroyed st) \<and> local_value st 1 = v"
proof -
  let ?c = "tls_c 8 1 True" and ?d = "tls_c 16 2 True" and ?f = "tls_c 16 2 False"
  let ?run = "[(1, ?c, Set_Local 5), (1, ?c, Get_Local), (1, ?c, Get_Local), (1, ?d, Get_Local), (1, ?d, Get_Local),
     (1, ?d, Replace_Local 6), (1, ?d, Get_Local), (1, ?d, Get_Local), (1, ?f, Get_Local)]"
  obtain st where st: "tls_runs ?run (Some (tls_empty True)) = Some st" "\<forall>t. tls_pcs st t = T_Out" "destroyed st = [5]"
    "local_value st 1 = 5"
    by (simp add: tls_eval local_value_def)
  then show ?thesis using tls_runs_reachable[OF tls_start_reachable st(1)] by (intro exI[of _ st] exI[of _ 5]) simp
qed

end
