(* ===== verification/PUThread_Posix.thy ===== *)
theory PUThread_Posix
  imports Resource_Log "HOL-Library.Signed_Division"
begin

text \<open>
  Threads of POSIX systems, \<^verbatim>\<open>src/src/os/posix/puthread-posix.c\<close>: the priorities, the creation, the
  name and the end of a thread over the answers of the system.
\<close>

section \<open>Priorities\<close>

datatype PUThreadPriority = P_UTHREAD_PRIORITY_INHERIT | P_UTHREAD_PRIORITY_IDLE | P_UTHREAD_PRIORITY_LOWEST
  | P_UTHREAD_PRIORITY_LOW | P_UTHREAD_PRIORITY_NORMAL | P_UTHREAD_PRIORITY_HIGH | P_UTHREAD_PRIORITY_HIGHEST
  | P_UTHREAD_PRIORITY_TIMECRITICAL

primrec prio_number :: "PUThreadPriority \<Rightarrow> int" where
  "prio_number P_UTHREAD_PRIORITY_INHERIT = 0"
| "prio_number P_UTHREAD_PRIORITY_IDLE = 1"
| "prio_number P_UTHREAD_PRIORITY_LOWEST = 2"
| "prio_number P_UTHREAD_PRIORITY_LOW = 3"
| "prio_number P_UTHREAD_PRIORITY_NORMAL = 4"
| "prio_number P_UTHREAD_PRIORITY_HIGH = 5"
| "prio_number P_UTHREAD_PRIORITY_HIGHEST = 6"
| "prio_number P_UTHREAD_PRIORITY_TIMECRITICAL = 7"

datatype thread_call = T_attr_init | T_attr_destroy | T_setdetachstate bool | T_setinheritsched bool | T_getschedpolicy
  | T_prio_min int | T_prio_max int | T_setschedpolicy int | T_setschedparam int | T_stack_min | T_setstacksize psize
  | T_create | T_join int | T_getschedparam int | T_thread_setschedparam int int int | T_setname int string

type_synonym th_sys = "thread_call sys"

definition SCHED_IDLE :: int where "SCHED_IDLE = 5"

text \<open>The result is the policy and the priority, or nothing on failure.\<close>

definition clip_prio :: "int \<Rightarrow> int \<Rightarrow> PUThreadPriority \<Rightarrow> int" where
  "clip_prio prio_min prio_max prio =
     (let native_prio = (prio_number prio - prio_number P_UTHREAD_PRIORITY_LOWEST) * (prio_max - prio_min)
            sdiv prio_number P_UTHREAD_PRIORITY_TIMECRITICAL + prio_min;
          n1 = (if native_prio > prio_max then prio_max else native_prio)
      in if n1 < prio_min then prio_min else n1)"

definition pzuthread_get_unix_priority :: "PUThreadPriority \<Rightarrow> int \<Rightarrow> th_sys \<Rightarrow> ((int \<times> int) option \<times> th_sys) option" where
  "pzuthread_get_unix_priority prio policy s =
     (if prio = P_UTHREAD_PRIORITY_IDLE then Some (Some (SCHED_IDLE, 0), s)
      else do {
        (a, s1) \<leftarrow> sys_call (T_prio_min policy) s;
        (b, s2) \<leftarrow> sys_call (T_prio_max policy) s1;
        if a_ret a = - 1 \<or> a_ret b = - 1 then Some (None, s2)
        else Some (Some (policy, clip_prio (a_ret a) (a_ret b) prio), s2)
      })"

section \<open>Creation\<close>

record PUThread =
  th_joinable :: bool
  th_prio :: PUThreadPriority
  th_hdl :: int

text \<open>Scheduling: failures are only logged. The attributes are set one after the other until one fails.\<close>

definition apply_sched :: "int \<Rightarrow> int \<Rightarrow> th_sys \<Rightarrow> th_sys option" where
  "apply_sched policy native_prio s = do {
     (b, s3) \<leftarrow> sys_call (T_setinheritsched False) s;
     if a_ret b \<noteq> 0 then Some s3
     else do {
       (c, s4) \<leftarrow> sys_call (T_setschedpolicy policy) s3;
       if a_ret c \<noteq> 0 then Some s4
       else do { (d, s5) \<leftarrow> sys_call (T_setschedparam native_prio) s4; Some s5 }
     }
   }"

definition set_sched :: "PUThreadPriority \<Rightarrow> th_sys \<Rightarrow> th_sys option" where
  "set_sched prio s =
     (if prio = P_UTHREAD_PRIORITY_INHERIT then do { (a, t) \<leftarrow> sys_call (T_setinheritsched True) s; Some t }
      else do {
        (a, s1) \<leftarrow> sys_call T_getschedpolicy s;
        if a_ret a \<noteq> 0 then Some s1
        else do {
          (r, s2) \<leftarrow> pzuthread_get_unix_priority prio (a_val a) s1;
          case r of
            None \<Rightarrow> Some s2
          | Some (policy, native_prio) \<Rightarrow> apply_sched policy native_prio s2
        }
      })"

definition set_stack :: "psize \<Rightarrow> th_sys \<Rightarrow> th_sys option" where
  "set_stack stack_size s =
     (if stack_size = 0 then Some s
      else do {
        (a, s1) \<leftarrow> sys_call T_stack_min s;
        let n = (if a_ret a > 0 then (if stack_size < word_of_int (a_ret a) then word_of_int (a_ret a) else stack_size) else stack_size);
        (b, s2) \<leftarrow> sys_call (T_setstacksize n) s1;
        Some s2
      })"

text \<open>The call that starts the thread, again with the inherited priority when the first is not permitted.\<close>

definition start_thread :: "(string \<Rightarrow> int option) \<Rightarrow> th_sys \<Rightarrow> (answer \<times> th_sys) option" where
  "start_thread nm s = do {
     (a, s1) \<leftarrow> sys_call T_create s;
     if nm ''EPERM'' = Some (a_ret a)
     then do {
       (b, s2) \<leftarrow> sys_call (T_setinheritsched True) s1;
       sys_call T_create s2
     }
     else Some (a, s1)
   }"

definition zuthread_create_internal ::
    "(string \<Rightarrow> int option) \<Rightarrow> bool \<Rightarrow> bool \<Rightarrow> PUThreadPriority \<Rightarrow> psize \<Rightarrow> th_sys \<Rightarrow> (PUThread option \<times> th_sys) option" where
  "zuthread_create_internal nm mem joinable prio stack_size s =
     (if \<not> mem then Some (None, s)
      else do {
        (a, s1) \<leftarrow> sys_call T_attr_init s;
        if a_ret a \<noteq> 0 then Some (None, s1)
        else do {
          (b, s2) \<leftarrow> sys_call (T_setdetachstate joinable) s1;
          if a_ret b \<noteq> 0 then do { (c, s3) \<leftarrow> sys_call T_attr_destroy s2; Some (None, s3) }
          else do {
            s3 \<leftarrow> set_sched prio s2;
            s4 \<leftarrow> set_stack stack_size s3;
            (d, s5) \<leftarrow> start_thread nm s4;
            (f, s6) \<leftarrow> sys_call T_attr_destroy s5;
            if a_ret d \<noteq> 0 then Some (None, s6)
            else Some (Some \<lparr>th_joinable = joinable, th_prio = prio, th_hdl = a_val d\<rparr>, s6)
          }
        }
      })"

definition zuthread_set_priority :: "PUThread option \<Rightarrow> PUThreadPriority \<Rightarrow> th_sys \<Rightarrow> (bool \<times> PUThread option \<times> th_sys) option" where
  "zuthread_set_priority tp prio s =
     (case tp of
        None \<Rightarrow> Some (False, None, s)
      | Some th \<Rightarrow> do {
          (a, s1) \<leftarrow> sys_call (T_getschedparam (th_hdl th)) s;
          if a_ret a \<noteq> 0 then Some (False, tp, s1)
          else do {
            (r, s2) \<leftarrow> pzuthread_get_unix_priority prio (a_val a) s1;
            case r of
              None \<Rightarrow> Some (False, tp, s2)
            | Some (policy, native_prio) \<Rightarrow> do {
                (b, s3) \<leftarrow> sys_call (T_thread_setschedparam (th_hdl th) policy native_prio) s2;
                if a_ret b \<noteq> 0 then Some (False, tp, s3) else Some (True, Some (th\<lparr>th_prio := prio\<rparr>), s3)
              }
          }
        })"

definition PUTHREAD_MAX_NAME :: nat where "PUTHREAD_MAX_NAME = 16"

text \<open>A name that is too long is cut; the copy has a null character at the end of what is copied.\<close>

definition zuthread_set_name_internal :: "bool \<Rightarrow> PUThread \<Rightarrow> string \<Rightarrow> th_sys \<Rightarrow> th_sys option" where
  "zuthread_set_name_internal mem th name s =
     (if length name > PUTHREAD_MAX_NAME - 1
      then if \<not> mem then Some s
           else do { (a, t) \<leftarrow> sys_call (T_setname (th_hdl th) (take (PUTHREAD_MAX_NAME - 1) name)) s; Some t }
      else do { (a, t) \<leftarrow> sys_call (T_setname (th_hdl th) name) s; Some t })"

definition zuthread_wait_internal :: "PUThread \<Rightarrow> th_sys \<Rightarrow> th_sys option" where
  "zuthread_wait_internal th s = do { (a, t) \<leftarrow> sys_call (T_join (th_hdl th)) s; Some t }"

section \<open>Priorities are in the range of the system\<close>

lemma clip_prio_range: "a \<le> b \<Longrightarrow> a \<le> clip_prio a b prio \<and> clip_prio a b prio \<le> b"
  by (auto simp: clip_prio_def Let_def)

text \<open>On an ordinary range the division is that of the natural numbers, and negative quotients are cut off.\<close>

lemma clip_prio_eq:
  assumes "a \<le> b"
  shows "clip_prio a b prio = a + (if prio_number prio < 2 then 0 else (prio_number prio - 2) * (b - a) div 7)"
proof -
  have sdiv: "k * (b - a) sdiv 7 = k * (b - a) div 7" if "0 \<le> k" for k
  proof (cases "k * (b - a) = 0")
    case False
    then have "0 < k * (b - a)" using assms that by (simp add: less_le)
    then show ?thesis by (simp add: signed_divide_int_def)
  next
    case True
    then show ?thesis by (simp only: signed_divide_int_def) simp
  qed
  have neg: "- k * (b - a) sdiv 7 \<le> 0" if "0 \<le> k" for k
  proof (cases "k * (b - a) = 0")
    case False
    then have "0 < k * (b - a)" using assms that by (simp add: less_le)
    then show ?thesis by (simp add: signed_divide_int_def pos_imp_zdiv_nonneg_iff)
  next
    case True
    then show ?thesis by (auto simp: signed_divide_int_def)
  qed
  have "0 \<le> k * (b - a) div 7" "k * (b - a) div 7 \<le> b - a" if "0 \<le> k" "k \<le> 5" for k
  proof -
    show "0 \<le> k * (b - a) div 7" using assms that by (simp add: pos_imp_zdiv_nonneg_iff)
    have "k * (b - a) \<le> 7 * (b - a)" using assms that by (intro mult_right_mono) simp_all
    then have "k * (b - a) div 7 \<le> 7 * (b - a) div 7" by (rule zdiv_mono1) simp
    also have "\<dots> = b - a" by simp
    finally show "k * (b - a) div 7 \<le> b - a" .
  qed
  note range = this
  have k: "0 \<le> prio_number prio" "prio_number prio \<le> 7" by (cases prio; simp)+
  show ?thesis
  proof (cases "prio_number prio < 2")
    case True
    then have "(prio_number prio - 2) * (b - a) sdiv 7 \<le> 0" using neg[of "2 - prio_number prio"] by simp
    then show ?thesis using assms True by (simp add: clip_prio_def Let_def)
  next
    case False
    then show ?thesis
      using range[of "prio_number prio - 2"] sdiv[of "prio_number prio - 2"] k by (simp add: clip_prio_def Let_def)
  qed
qed

lemma clip_prio_mono:
  assumes "a \<le> b" "prio_number p \<le> prio_number q"
  shows "clip_prio a b p \<le> clip_prio a b q"
proof -
  have "(prio_number p - 2) * (b - a) div 7 \<le> (prio_number q - 2) * (b - a) div 7"
    using assms by (intro zdiv_mono1 mult_right_mono) simp_all
  moreover have "0 \<le> (prio_number q - 2) * (b - a) div 7" if "\<not> prio_number q < 2"
    using assms(1) that by (simp add: pos_imp_zdiv_nonneg_iff)
  ultimately show ?thesis using assms by (simp add: clip_prio_eq)
qed

section \<open>Attributes and threads\<close>

text \<open>What the creation holds: how many attribute objects are initialised, and the threads that were made.\<close>

type_synonym th_res = "nat \<times> int list"

fun th_step :: "th_res \<Rightarrow> thread_call \<times> answer \<Rightarrow> th_res" where
  "th_step (n, ts) (T_attr_init, a) = (if a_ret a = 0 then (n + 1, ts) else (n, ts))"
| "th_step (n, ts) (T_attr_destroy, a) = (n - 1, ts)"
| "th_step (n, ts) (T_create, a) = (if a_ret a = 0 then (n, ts @ [a_val a]) else (n, ts))"
| "th_step F x = F"

text \<open>Calls on attributes need one object that is initialised, and an object is not initialised twice.\<close>

fun th_proper :: "th_res \<Rightarrow> thread_call \<times> answer \<Rightarrow> bool" where
  "th_proper (n, ts) (T_attr_init, a) \<longleftrightarrow> n = 0"
| "th_proper (n, ts) (c, a) \<longleftrightarrow> n = 1"

fun th_quiet :: "unit \<Rightarrow> thread_call \<Rightarrow> bool" where
  "th_quiet u T_attr_init \<longleftrightarrow> False"
| "th_quiet u T_attr_destroy \<longleftrightarrow> False"
| "th_quiet u T_create \<longleftrightarrow> False"
| "th_quiet u c \<longleftrightarrow> True"

definition th_live :: "unit \<Rightarrow> th_res \<Rightarrow> bool" where
  "th_live u F \<longleftrightarrow> fst F = 1"

interpretation ta: resource_log th_step "\<lambda>_ _. True" th_proper th_quiet th_live
proof
  fix k :: unit and x :: "thread_call \<times> answer" and F :: th_res
  assume "th_quiet k (fst x)" "th_live k F"
  then show "th_step F x = F" "th_proper F x"
    by (cases F; cases x; cases "fst x"; auto simp: th_live_def)+
qed

lemma unix_priority_talks: "pzuthread_get_unix_priority prio policy s = Some (r, t) \<Longrightarrow> ta.talks () s t"
  by (auto simp: pzuthread_get_unix_priority_def bind_eq_Some_conv split: if_splits intro: ta.talks_call2)

lemma apply_sched_talks:
  assumes "apply_sched policy n s = Some t"
  shows "ta.talks () s t"
proof -
  obtain b s3 where b: "sys_call (T_setinheritsched False) s = Some (b, s3)"
    using assms by (auto simp: apply_sched_def bind_eq_Some_conv)
  then have 1: "ta.talks () s s3" by (rule ta.talks_call) simp
  show ?thesis
  proof (cases "a_ret b = 0")
    case True
    then obtain c s4 where c: "sys_call (T_setschedpolicy policy) s3 = Some (c, s4)"
      using assms b by (auto simp: apply_sched_def bind_eq_Some_conv)
    then have 2: "ta.talks () s s4" using ta.talks_trans[OF 1 ta.talks_call[OF c]] by simp
    have "t = s4 \<or> (\<exists>d. sys_call (T_setschedparam n) s4 = Some (d, t))"
      using assms b c True by (auto simp: apply_sched_def bind_eq_Some_conv split: if_split_asm)
    then show ?thesis using 2 ta.talks_trans[OF 2 ta.talks_call[of "T_setschedparam n"]] by auto
  next
    case False
    then show ?thesis using assms b 1 by (simp add: apply_sched_def)
  qed
qed

lemma set_sched_talks:
  assumes "set_sched prio s = Some t"
  shows "ta.talks () s t"
proof (cases "prio = P_UTHREAD_PRIORITY_INHERIT")
  case True
  then show ?thesis using assms by (auto simp: set_sched_def bind_eq_Some_conv intro: ta.talks_call)
next
  case False
  then obtain a s1 where a: "sys_call T_getschedpolicy s = Some (a, s1)"
    using assms by (auto simp: set_sched_def bind_eq_Some_conv)
  then have 1: "ta.talks () s s1" by (rule ta.talks_call) simp
  show ?thesis
  proof (cases "a_ret a = 0")
    case True
    then obtain r s2 where r: "pzuthread_get_unix_priority prio (a_val a) s1 = Some (r, s2)"
      using assms False a by (auto simp: set_sched_def bind_eq_Some_conv)
    then have 2: "ta.talks () s s2" using ta.talks_trans[OF 1 unix_priority_talks] by blast
    show ?thesis
    proof (cases r)
      case None
      then show ?thesis using assms False a r True 2 by (simp add: set_sched_def)
    next
      case (Some pn)
      then have "apply_sched (fst pn) (snd pn) s2 = Some t" using assms False a r True by (simp add: set_sched_def case_prod_beta)
      then show ?thesis using ta.talks_trans[OF 2 apply_sched_talks] by blast
    qed
  next
    case ret: False
    then show ?thesis using assms False a 1 by (simp add: set_sched_def)
  qed
qed

lemma set_stack_talks:
  assumes "set_stack n s = Some t"
  shows "ta.talks () s t"
proof (cases "n = 0")
  case False
  then obtain a b s1 m where "sys_call T_stack_min s = Some (a, s1)" "sys_call (T_setstacksize m) s1 = Some (b, t)"
    using assms by (fastforce simp: set_stack_def bind_eq_Some_conv Let_def)
  then show ?thesis by (rule ta.talks_call2) simp_all
qed (use assms in \<open>simp add: set_stack_def\<close>)

text \<open>The calls that start the thread: at most two, and no second after a success.\<close>

lemma start_thread_effect:
  assumes "start_thread nm s = Some (d, t)" "nm ''EPERM'' \<noteq> Some 0"
  shows "ta.effect (1, []) s t (\<lambda>G. G = (1, if a_ret d = 0 then [a_val d] else []))"
proof -
  obtain a s1 where a: "sys_call T_create s = Some (a, s1)"
    using assms(1) by (auto simp: start_thread_def bind_eq_Some_conv)
  show ?thesis
  proof (cases "nm ''EPERM'' = Some (a_ret a)")
    case True
    then obtain b s2 where b: "sys_call (T_setinheritsched True) s1 = Some (b, s2)" "sys_call T_create s2 = Some (d, t)"
      using assms(1) a by (auto simp: start_thread_def bind_eq_Some_conv)
    have "ta.effect (1, []) s s1 (\<lambda>G. G = (1, []))" using a True assms(2) by (intro ta.effect_call[OF a]) auto
    moreover have "ta.effect (1, []) s1 s2 (\<lambda>G. G = (1, []))"
      by (rule ta.effect_call[OF b(1)]) simp
    moreover have "ta.effect (1, []) s2 t (\<lambda>G. G = (1, if a_ret d = 0 then [a_val d] else []))"
      by (rule ta.effect_call[OF b(2)]) simp
    ultimately show ?thesis using ta.effect_seq by blast
  next
    case False
    then have "d = a" "t = s1" using assms(1) a by (simp_all add: start_thread_def)
    then show ?thesis using ta.effect_call[OF a, of "(1, [])"] by simp
  qed
qed

lemma create_effect:
  assumes "zuthread_create_internal nm mem jn prio n s = Some (r, t)" "nm ''EPERM'' \<noteq> Some 0"
  shows "ta.effect (0, []) s t (\<lambda>G. G = (0, case r of None \<Rightarrow> [] | Some th \<Rightarrow> [th_hdl th])) \<and>
    (\<forall>th. r = Some th \<longrightarrow> th_joinable th = jn \<and> th_prio th = prio)"
proof (cases mem)
  case False
  then show ?thesis using assms by (simp add: zuthread_create_internal_def ta.effect_refl)
next
  case True
  then obtain a s1 where a: "sys_call T_attr_init s = Some (a, s1)"
    using assms(1) by (auto simp: zuthread_create_internal_def bind_eq_Some_conv)
  show ?thesis
  proof (cases "a_ret a = 0")
    case False
    then have "r = None" "t = s1" using assms(1) True a by (simp_all add: zuthread_create_internal_def)
    then show ?thesis using False ta.effect_call[OF a, of "(0, [])"] by simp
  next
    case ok: True
    have 1: "ta.effect (0, []) s s1 (\<lambda>G. G = (1, []))" using ok by (intro ta.effect_call[OF a]) simp
    obtain b s2 where b: "sys_call (T_setdetachstate jn) s1 = Some (b, s2)"
      using assms(1) True a ok by (auto simp: zuthread_create_internal_def bind_eq_Some_conv)
    have 2: "ta.effect (1, []) s1 s2 (\<lambda>G. G = (1, []))" by (rule ta.effect_call[OF b]) simp
    note start = ta.effect_seq[OF 1 2]
    show ?thesis
    proof (cases "a_ret b = 0")
      case False
      then obtain c where c: "sys_call T_attr_destroy s2 = Some (c, t)" "r = None"
        using assms(1) True a ok b by (auto simp: zuthread_create_internal_def bind_eq_Some_conv)
      have "ta.effect (1, []) s2 t (\<lambda>G. G = (0, []))" by (rule ta.effect_call[OF c(1)]) simp
      then show ?thesis using ta.effect_seq[OF start] c(2) by simp
    next
      case det: True
      then obtain s3 s4 d s5 f where c: "set_sched prio s2 = Some s3" "set_stack n s3 = Some s4" "start_thread nm s4 = Some (d, s5)"
          "sys_call T_attr_destroy s5 = Some (f, t)"
          "r = (if a_ret d \<noteq> 0 then None else Some \<lparr>th_joinable = jn, th_prio = prio, th_hdl = a_val d\<rparr>)"
        using assms(1) True a ok b by (fastforce simp: zuthread_create_internal_def bind_eq_Some_conv split: if_split_asm)
      have "ta.effect (1, []) s2 s4 (\<lambda>G. G = (1, []))"
        by (rule ta.effect_talks[OF ta.talks_trans[OF set_sched_talks[OF c(1)] set_stack_talks[OF c(2)]]]) (simp_all add: th_live_def)
      note began = ta.effect_seq[OF ta.effect_seq[OF start this] start_thread_effect[OF c(3) assms(2)]]
      have "ta.effect (1, l) s5 t (\<lambda>G. G = (0, l))" for l by (rule ta.effect_call[OF c(4)]) simp
      from ta.effect_seq[OF began this] show ?thesis using c(5) by (cases "a_ret d = 0") simp_all
    qed
  qed
qed

section \<open>The creation returns\<close>

lemma apply_sched_returns: "k + 2 < length (todo s) \<Longrightarrow> returns (\<lambda>t. k \<le> length (todo t)) (apply_sched policy n s)"
  unfolding apply_sched_def by (intro returns_call_then[of "k + 2"]; simp; intro conjI impI returns_call_then[of "k + 1"]; simp;
      intro conjI impI returns_call_then[of k]; simp)

lemma unix_priority_returns:
  assumes "k + 1 < length (todo s)"
  shows "returns (\<lambda>(r, t). k \<le> length (todo t)) (pzuthread_get_unix_priority prio policy s)"
proof (cases "prio = P_UTHREAD_PRIORITY_IDLE")
  case True
  then show ?thesis using assms by (simp add: pzuthread_get_unix_priority_def)
next
  case False
  then show ?thesis
    using assms by (simp add: pzuthread_get_unix_priority_def)
      (rule returns_call_then[of "k + 1"], simp, rule returns_call_then[of k], simp_all)
qed

lemma set_sched_returns:
  assumes "k + 5 < length (todo s)"
  shows "returns (\<lambda>t. k \<le> length (todo t)) (set_sched prio s)"
proof (cases "prio = P_UTHREAD_PRIORITY_INHERIT")
  case True
  then show ?thesis using assms by (simp add: set_sched_def) (rule returns_call_then[of k], simp_all)
next
  case False
  have rest: "returns (\<lambda>t. k \<le> length (todo t))
      (pzuthread_get_unix_priority prio v s1 \<bind> (\<lambda>(r, s2). case r of None \<Rightarrow> Some s2 | Some (policy, n) \<Rightarrow> apply_sched policy n s2))"
    if "k + 5 \<le> length (todo s1)" for v s1
  proof (rule returns_bind)
    show "returns (\<lambda>(r, t). k + 3 \<le> length (todo t)) (pzuthread_get_unix_priority prio v s1)"
      using that by (intro unix_priority_returns) simp
  qed (auto intro!: apply_sched_returns split: option.splits)
  show ?thesis
    using False assms by (simp add: set_sched_def) (rule returns_call_then[of "k + 5"], simp, simp add: rest)
qed

lemma set_stack_returns: "k + 1 < length (todo s) \<Longrightarrow> returns (\<lambda>t. k \<le> length (todo t)) (set_stack n s)"
  by (cases "n = 0") (simp_all add: set_stack_def Let_def,
      rule returns_call_then[of "k + 1"], simp, rule returns_call_then[of k], simp_all)

lemma start_thread_returns: "k + 2 < length (todo s) \<Longrightarrow> returns (\<lambda>(a, t). k \<le> length (todo t)) (start_thread nm s)"
  unfolding start_thread_def
proof (rule returns_call_then)
  show "returns (\<lambda>(a, t). k \<le> length (todo t))
      (if nm ''EPERM'' = Some (a_ret a) then sys_call (T_setinheritsched True) s1 \<bind> (\<lambda>(b, s2). sys_call T_create s2) else Some (a, s1))"
    if "k + 2 \<le> length (todo s1)" for a s1
    using that by (auto intro!: returns_call_then[of "k + 1"] returns_call)
qed simp

lemma create_returns:
  assumes "14 \<le> length (todo s)"
  shows "returns (\<lambda>_. True) (zuthread_create_internal nm mem jn prio n s)"
proof (cases mem)
  case True
  have finish: "returns (\<lambda>_. True) (start_thread nm s4 \<bind> (\<lambda>(d, s5). sys_call T_attr_destroy s5 \<bind> (\<lambda>(f, s6). g d s6)))"
    if "4 \<le> length (todo s4)" "\<And>d s6. returns (\<lambda>_. True) (g d s6)" for s4 :: th_sys and g :: "answer \<Rightarrow> th_sys \<Rightarrow> 'x option"
    by (rule returns_bind[OF start_thread_returns[of 1]]) (use that in \<open>auto intro!: returns_call_then[of 0]\<close>)
  have middle: "returns (\<lambda>_. True) (set_sched prio s2 \<bind> (\<lambda>s3. set_stack n s3 \<bind> h))"
    if "12 \<le> length (todo s2)" "\<And>s4. 4 \<le> length (todo s4) \<Longrightarrow> returns (\<lambda>_. True) (h s4)"
    for s2 :: th_sys and h :: "th_sys \<Rightarrow> 'x option"
    by (rule returns_bind[OF set_sched_returns[of 6]], use that in simp, rule returns_bind[OF set_stack_returns[of 4]])
      (use that in simp_all)
  have nn: "\<not> \<not> mem" using True by simp
  show ?thesis
    unfolding zuthread_create_internal_def if_not_P[OF nn]
  proof (rule returns_call_then[of 13], use assms in simp)
    fix a s1
    assume s1: "13 \<le> length (todo (s1 :: th_sys))"
    let ?tail = "\<lambda>b s2. if a_ret b \<noteq> 0 then sys_call T_attr_destroy s2 \<bind> (\<lambda>(c, s3). Some (None, s3))
      else set_sched prio s2 \<bind> (\<lambda>s3. set_stack n s3 \<bind> (\<lambda>s4. start_thread nm s4 \<bind> (\<lambda>(d, s5).
        sys_call T_attr_destroy s5 \<bind> (\<lambda>(f, s6). if a_ret d \<noteq> 0 then Some (None, s6)
          else Some (Some \<lparr>th_joinable = jn, th_prio = prio, th_hdl = a_val d\<rparr>, s6)))))"
    have tail: "returns (\<lambda>_. True) (?tail b s2)" if "12 \<le> length (todo s2)" for b s2
      using that by (auto intro!: middle finish returns_call_then[of 0])
    have "returns (\<lambda>_. True) (sys_call (T_setdetachstate jn) s1 \<bind> (\<lambda>(b, s2). ?tail b s2))"
      by (rule returns_call_then[of 12]) (use s1 in simp, rule tail)
    then show "returns (\<lambda>_. True) (if a_ret a \<noteq> 0 then Some (None, s1) else sys_call (T_setdetachstate jn) s1 \<bind> (\<lambda>(b, s2). ?tail b s2))"
      by simp
  qed
qed (simp add: zuthread_create_internal_def)

section \<open>Correctness\<close>

text \<open>
  C37: the creation of a thread returns whatever the system answers, after at most 14 calls. The attribute object is initialised once,
  used only while it is initialised, and destroyed before the return on every path; a thread object is returned
  exactly when one thread was started, with its handle, and otherwise none was; a second attempt is made only when
  the first was not permitted. Success is the answer 0 and \<^verbatim>\<open>EPERM\<close> is another number.
\<close>

theorem thread_create_attributes:
  assumes "14 \<le> length (todo s)" "log s = []" "nm ''EPERM'' \<noteq> Some 0"
  shows "\<exists>r t. zuthread_create_internal nm mem jn prio n s = Some (r, t) \<and>
    each th_proper th_step (0, []) (log t) \<and>
    after th_step (0, []) (log t) = (0, case r of None \<Rightarrow> [] | Some th \<Rightarrow> [th_hdl th]) \<and>
    (\<forall>th. r = Some th \<longrightarrow> th_joinable th = jn \<and> th_prio th = prio)"
proof -
  obtain r t where r: "zuthread_create_internal nm mem jn prio n s = Some (r, t)"
    using create_returns[OF assms(1), of nm mem jn prio n] by (auto simp: returns_def)
  note eff = create_effect[OF r assms(3)]
  show ?thesis
    using ta.effect_log[OF conjunct1[OF eff] assms(2)] conjunct2[OF eff] r by (auto simp: each_True)
qed

text \<open>
  The priority that is given to the system lies between the lowest and the highest of the policy, follows the order of the
  priorities of the library, and is the lowest for \<^verbatim>\<open>P_UTHREAD_PRIORITY_LOWEST\<close> and below; the
  highest of the library is only five sevenths of the way up. Nothing is given when the system does not know
  one of the bounds.
\<close>

theorem thread_priority_native:
  assumes "todo s = lo # hi # rest" "a_ret lo \<le> a_ret hi" "prio \<noteq> P_UTHREAD_PRIORITY_IDLE"
  shows "\<exists>r t. pzuthread_get_unix_priority prio policy s = Some (r, t) \<and>
    (r = None \<longleftrightarrow> a_ret lo = - 1 \<or> a_ret hi = - 1) \<and>
    (\<forall>p m. r = Some (p, m) \<longrightarrow> p = policy \<and> a_ret lo \<le> m \<and> m \<le> a_ret hi \<and>
       (prio_number prio \<le> 2 \<longrightarrow> m = a_ret lo) \<and>
       (prio = P_UTHREAD_PRIORITY_TIMECRITICAL \<longrightarrow> m = a_ret lo + 5 * (a_ret hi - a_ret lo) div 7) \<and>
       (\<forall>q. prio_number q \<le> prio_number prio \<longrightarrow> clip_prio (a_ret lo) (a_ret hi) q \<le> m))"
proof -
  let ?m = "clip_prio (a_ret lo) (a_ret hi) prio"
  have "prio_number prio \<le> 2 \<longrightarrow> ?m = a_ret lo"
    "prio = P_UTHREAD_PRIORITY_TIMECRITICAL \<longrightarrow> ?m = a_ret lo + 5 * (a_ret hi - a_ret lo) div 7"
    by (auto simp: clip_prio_eq[OF assms(2)])
  then show ?thesis
    using assms clip_prio_range[OF assms(2), of prio] clip_prio_mono[OF assms(2), of _ prio]
    by (auto simp: pzuthread_get_unix_priority_def)
qed

text \<open>The witnesses: a thread that may not have its priority, and the priorities of a real-time policy of Linux.\<close>

abbreviation th_answer :: "int \<Rightarrow> int \<Rightarrow> answer" where
  "th_answer r v \<equiv> \<lparr>a_ret = r, a_errno = 0, a_val = v, a_len = 0, a_data = []\<rparr>"

definition th_example :: th_sys where
  "th_example = \<lparr>todo = [th_answer 0 0, th_answer 0 0, th_answer 0 1, th_answer 1 0, th_answer 99 0, th_answer 0 0, th_answer 0 0,
     th_answer 0 0, th_answer 1 0, th_answer 0 0, th_answer 0 77, th_answer 0 0, th_answer 0 0, th_answer 0 0],
     log = [], errno = 0, err = None\<rparr>"

theorem thread_create_attributes_witness:
  "\<exists>th t. zuthread_create_internal (\<lambda>x. if x = ''EPERM'' then Some 1 else None) True True P_UTHREAD_PRIORITY_HIGH 0 th_example = Some (Some th, t) \<and>
    th_hdl th = 77 \<and> after th_step (0, []) (log t) = (0, [77])"
  using thread_create_attributes[of th_example "\<lambda>x. if x = ''EPERM'' then Some 1 else None" True True P_UTHREAD_PRIORITY_HIGH 0]
  by (simp add: th_example_def zuthread_create_internal_def set_sched_def pzuthread_get_unix_priority_def apply_sched_def set_stack_def
      start_thread_def)

theorem thread_priority_native_witness:
  "\<exists>r t. pzuthread_get_unix_priority P_UTHREAD_PRIORITY_TIMECRITICAL 1
     \<lparr>todo = [th_answer 1 0, th_answer 99 0], log = [], errno = 0, err = None\<rparr> = Some (r, t) \<and> r = Some (1, 71)"
  using thread_priority_native[of "\<lparr>todo = [th_answer 1 0, th_answer 99 0], log = [], errno = 0, err = None\<rparr>"
      "th_answer 1 0" "th_answer 99 0" "[]" P_UTHREAD_PRIORITY_TIMECRITICAL 1]
  by auto

end
