(* ===== verification/PDir.thy ===== *)
theory PDir
  imports Resource_Log
begin

text \<open>
  Directories and files of POSIX systems, \<^verbatim>\<open>src/src/os/posix/pdir-posix.c\<close>, \<^verbatim>\<open>src/src/lib/pdir.c\<close> and
  \<^verbatim>\<open>src/src/lib/pfile.c\<close>, over the answers of the system. The branches are those of Linux with a C library that
  has no use for \<^verbatim>\<open>readdir_r\<close>. A copy of a string that fails for want of memory is used by the code
  all the same; such a call has no result.
\<close>

section \<open>Types\<close>

text \<open>An answer to \<^verbatim>\<open>readdir\<close> has 0 for the null pointer, or the name in its bytes; an answer to \<^verbatim>\<open>stat\<close> has the mode in its value.\<close>

datatype dir_call = D_opendir string | D_closedir int | D_readdir int | D_rewinddir int | D_stat string
  | D_mkdir string int | D_rmdir string | D_access string | D_unlink string

type_synonym dir_sys = "dir_call sys"

record dir_env = sys_env +
  dup_path_mem :: bool
  entry_path_mem :: bool

datatype PDirEntryType = P_DIR_ENTRY_TYPE_DIR | P_DIR_ENTRY_TYPE_FILE | P_DIR_ENTRY_TYPE_OTHER

record PDirEntry =
  entry_name :: string
  entry_type :: PDirEntryType

record PDir =
  dir_hdl :: int
  dir_result :: int
  dir_path :: string
  dir_orig_path :: string

datatype dir_msg = D_Argument | D_Opendir | D_Memory | D_Mkdir | D_Not_There | D_Rmdir | D_Readdir | D_Entry_Memory | D_Remove

primrec dir_text :: "dir_msg \<Rightarrow> string" where
  "dir_text D_Argument = ''Invalid input argument''"
| "dir_text D_Opendir = ''Failed to call opendir() to open directory stream''"
| "dir_text D_Memory = ''Failed to allocate memory for directory structure''"
| "dir_text D_Mkdir = ''Failed to call mkdir() to create directory''"
| "dir_text D_Not_There = ''Specified directory doesn'' @ [CHR 0x27] @ ''t exist''"
| "dir_text D_Rmdir = ''Failed to call rmdir() to remove directory''"
| "dir_text D_Readdir = ''Failed to call readdir() to read directory stream''"
| "dir_text D_Entry_Memory = ''Failed to allocate memory for directory entry''"
| "dir_text D_Remove = ''Failed to remove file''"

definition dir_report :: "dir_env \<Rightarrow> int \<Rightarrow> dir_msg \<Rightarrow> dir_sys \<Rightarrow> dir_sys" where
  "dir_report e c m s = report (sys_env.truncate e) c 0 (dir_text m) s"

definition dir_report_last :: "dir_env \<Rightarrow> dir_msg \<Rightarrow> dir_sys \<Rightarrow> dir_sys" where
  "dir_report_last e m s =
     report (sys_env.truncate e) (zerror_get_last_io (names e) (errno s)) (zerror_get_last_system (errno s)) (dir_text m) s"

text \<open>The file type in a mode.\<close>

definition S_ISDIR :: "int \<Rightarrow> bool" where "S_ISDIR m \<longleftrightarrow> (m div 4096) mod 16 = 4"

definition S_ISREG :: "int \<Rightarrow> bool" where "S_ISREG m \<longleftrightarrow> (m div 4096) mod 16 = 8"

definition c_name :: "answer \<Rightarrow> string" where
  "c_name a = map (\<lambda>b. char_of (unat b)) (a_data a)"

section \<open>Files\<close>

definition zfile_is_exists :: "string option \<Rightarrow> dir_sys \<Rightarrow> (bool \<times> dir_sys) option" where
  "zfile_is_exists file s =
     (case file of
        None \<Rightarrow> Some (False, s)
      | Some f \<Rightarrow> do { (a, t) \<leftarrow> sys_call (D_access f) s; Some (a_ret a = 0, t) })"

definition zfile_remove :: "dir_env \<Rightarrow> string option \<Rightarrow> dir_sys \<Rightarrow> (bool \<times> dir_sys) option" where
  "zfile_remove e file s =
     (case file of
        None \<Rightarrow> Some (False, dir_report e P_ERROR_IO_INVALID_ARGUMENT D_Argument s)
      | Some f \<Rightarrow> do {
          (a, t) \<leftarrow> sys_call (D_unlink f) s;
          Some (a_ret a = 0, if a_ret a \<noteq> 0 then dir_report_last e D_Remove t else t)
        })"

section \<open>Directories\<close>

text \<open>The slash at the end of the path is cut off. The character in front of an empty path is read too: no result.\<close>

definition cut_slash :: "string \<Rightarrow> string option" where
  "cut_slash p = (if p = [] then None else Some (if last p = CHR ''/'' \<or> last p = CHR 0x5C then butlast p else p))"

definition zdir_new :: "dir_env \<Rightarrow> string option \<Rightarrow> dir_sys \<Rightarrow> (PDir option \<times> dir_sys) option" where
  "zdir_new e path s =
     (case path of
        None \<Rightarrow> Some (None, dir_report e P_ERROR_IO_INVALID_ARGUMENT D_Argument s)
      | Some p \<Rightarrow> do {
          (a, s1) \<leftarrow> sys_call (D_opendir p) s;
          if a_ret a = 0 then Some (None, dir_report_last e D_Opendir s1)
          else if \<not> obj_mem e then do {
            (b, s2) \<leftarrow> sys_call (D_closedir (a_ret a)) (dir_report e P_ERROR_IO_NO_RESOURCES D_Memory s1);
            Some (None, s2)
          }
          else do {
            d \<leftarrow> zstrdup (dup_path_mem e) (Some p);
            d1 \<leftarrow> cut_slash d;
            Some (Some \<lparr>dir_hdl = a_ret a, dir_result = 0, dir_path = d1, dir_orig_path = p\<rparr>, s1)
          }
        })"

definition zdir_is_exists :: "string option \<Rightarrow> dir_sys \<Rightarrow> (bool \<times> dir_sys) option" where
  "zdir_is_exists path s =
     (case path of
        None \<Rightarrow> Some (False, s)
      | Some p \<Rightarrow> do { (a, t) \<leftarrow> sys_call (D_stat p) s; Some (a_ret a = 0 \<and> S_ISDIR (a_val a), t) })"

definition zdir_create :: "dir_env \<Rightarrow> string option \<Rightarrow> int \<Rightarrow> dir_sys \<Rightarrow> (bool \<times> dir_sys) option" where
  "zdir_create e path mode s =
     (case path of
        None \<Rightarrow> Some (False, dir_report e P_ERROR_IO_INVALID_ARGUMENT D_Argument s)
      | Some p \<Rightarrow> do {
          (there, s1) \<leftarrow> zdir_is_exists path s;
          if there then Some (True, s1)
          else do {
            (a, s2) \<leftarrow> sys_call (D_mkdir p mode) s1;
            if a_ret a \<noteq> 0 then Some (False, dir_report_last e D_Mkdir s2) else Some (True, s2)
          }
        })"

definition zdir_remove :: "dir_env \<Rightarrow> string option \<Rightarrow> dir_sys \<Rightarrow> (bool \<times> dir_sys) option" where
  "zdir_remove e path s =
     (case path of
        None \<Rightarrow> Some (False, dir_report e P_ERROR_IO_INVALID_ARGUMENT D_Argument s)
      | Some p \<Rightarrow> do {
          (there, s1) \<leftarrow> zdir_is_exists path s;
          if \<not> there then Some (False, dir_report e P_ERROR_IO_NOT_EXISTS D_Not_There s1)
          else do {
            (a, s2) \<leftarrow> sys_call (D_rmdir p) s1;
            if a_ret a \<noteq> 0 then Some (False, dir_report_last e D_Rmdir s2) else Some (True, s2)
          }
        })"

definition zdir_get_path :: "bool \<Rightarrow> PDir option \<Rightarrow> string option" where
  "zdir_get_path mem dp = (case dp of None \<Rightarrow> None | Some d \<Rightarrow> zstrdup mem (Some (dir_orig_path d)))"

definition entry_type_of :: "answer \<Rightarrow> PDirEntryType" where
  "entry_type_of b =
     (if a_ret b \<noteq> 0 then P_DIR_ENTRY_TYPE_OTHER
      else if S_ISDIR (a_val b) then P_DIR_ENTRY_TYPE_DIR
      else if S_ISREG (a_val b) then P_DIR_ENTRY_TYPE_FILE
      else P_DIR_ENTRY_TYPE_OTHER)"

definition zdir_get_next_entry :: "dir_env \<Rightarrow> PDir option \<Rightarrow> dir_sys \<Rightarrow> (PDirEntry option \<times> PDir option \<times> dir_sys) option" where
  "zdir_get_next_entry e dp s =
     (case dp of
        None \<Rightarrow> Some (None, None, dir_report e P_ERROR_IO_INVALID_ARGUMENT D_Argument s)
      | Some d \<Rightarrow>
          if dir_hdl d = 0 then Some (None, dp, dir_report e P_ERROR_IO_INVALID_ARGUMENT D_Argument s)
          else do {
            (a, s1) \<leftarrow> sys_call (D_readdir (dir_hdl d)) (s\<lparr>errno := 0\<rparr>);
            let d1 = d\<lparr>dir_result := a_ret a\<rparr>;
            if a_ret a = 0
            then Some (None, Some d1, if zerror_get_last_system (errno s1) \<noteq> 0 then dir_report_last e D_Readdir s1 else s1)
            else if \<not> obj_mem e then Some (None, Some d1, dir_report e P_ERROR_IO_NO_RESOURCES D_Entry_Memory s1)
            else do {
              nm \<leftarrow> zstrdup (dup_path_mem e) (Some (c_name a));
              if \<not> entry_path_mem e
              then Some (Some \<lparr>entry_name = nm, entry_type = P_DIR_ENTRY_TYPE_OTHER\<rparr>, Some d1, s1)
              else do {
                (b, s2) \<leftarrow> sys_call (D_stat (dir_path d1 @ ''/'' @ nm)) s1;
                Some (Some \<lparr>entry_name = nm, entry_type = entry_type_of b\<rparr>, Some d1, s2)
              }
            }
          })"

definition zdir_rewind :: "dir_env \<Rightarrow> PDir option \<Rightarrow> dir_sys \<Rightarrow> (bool \<times> dir_sys) option" where
  "zdir_rewind e dp s =
     (case dp of
        None \<Rightarrow> Some (False, dir_report e P_ERROR_IO_INVALID_ARGUMENT D_Argument s)
      | Some d \<Rightarrow>
          if dir_hdl d = 0 then Some (False, dir_report e P_ERROR_IO_INVALID_ARGUMENT D_Argument s)
          else do { (a, t) \<leftarrow> sys_call (D_rewinddir (dir_hdl d)) s; Some (True, t) })"

definition zdir_free :: "PDir option \<Rightarrow> dir_sys \<Rightarrow> dir_sys option" where
  "zdir_free dp s =
     (case dp of
        None \<Rightarrow> Some s
      | Some d \<Rightarrow> if dir_hdl d \<noteq> 0 then do { (a, t) \<leftarrow> sys_call (D_closedir (dir_hdl d)) s; Some t } else Some s)"

section \<open>Reading a directory\<close>

lemma next_entry_less:
  assumes "zdir_get_next_entry e dp s = Some (Some en, dp', t)"
  shows "length (todo t) < length (todo s)"
proof (cases dp)
  case None
  then show ?thesis using assms by (simp add: zdir_get_next_entry_def)
next
  case (Some d)
  show ?thesis
  proof (cases "todo s")
    case Nil
    then show ?thesis using assms Some
      by (auto simp: zdir_get_next_entry_def sys_call_def split: if_splits)
  next
    case (Cons a as)
    then show ?thesis using assms Some
      by (auto simp: zdir_get_next_entry_def sys_call_def Let_def split: if_splits Option.bind_splits list.splits)
  qed
qed

text \<open>The loop of a program that reads a directory until there is no entry any more.\<close>

function dir_list :: "dir_env \<Rightarrow> PDir option \<Rightarrow> dir_sys \<Rightarrow> (PDirEntry list \<times> PDir option \<times> dir_sys) option" where
  "dir_list e dp s =
     (case zdir_get_next_entry e dp s of
        None \<Rightarrow> None
      | Some (None, dp1, t) \<Rightarrow> Some ([], dp1, t)
      | Some (Some en, dp1, t) \<Rightarrow> map_option (\<lambda>(ens, r). (en # ens, r)) (dir_list e dp1 t))"
  by pat_completeness auto

termination
  by (relation "measure (\<lambda>(e, dp, s). length (todo s))") (auto dest: next_entry_less)

declare dir_list.simps [simp del]

text \<open>The answers for one entry, and the calls that they answer.\<close>

definition entry_answers :: "answer \<times> answer \<Rightarrow> answer list" where
  "entry_answers x = [fst x, snd x]"

definition entry_calls :: "PDir \<Rightarrow> answer \<times> answer \<Rightarrow> (dir_call \<times> answer) list" where
  "entry_calls d x = [(D_readdir (dir_hdl d), fst x), (D_stat (dir_path d @ ''/'' @ c_name (fst x)), snd x)]"

definition dir_ready :: "dir_env \<Rightarrow> bool" where
  "dir_ready e \<longleftrightarrow> obj_mem e \<and> dup_path_mem e \<and> entry_path_mem e"

lemma next_entry_some:
  assumes "dir_ready e" "dir_hdl d \<noteq> 0" "todo s = entry_answers x @ rest" "a_ret (fst x) \<noteq> 0"
  shows "\<exists>t r. zdir_get_next_entry e (Some d) s =
      Some (Some \<lparr>entry_name = c_name (fst x), entry_type = entry_type_of (snd x)\<rparr>, Some (d\<lparr>dir_result := r\<rparr>), t) \<and>
    todo t = rest \<and> log t = log s @ entry_calls d x \<and> err t = err s"
  using assms by (auto simp: zdir_get_next_entry_def dir_ready_def entry_answers_def entry_calls_def zstrdup_def Let_def)

lemma next_entry_end:
  assumes "dir_hdl d \<noteq> 0" "todo s = a # rest" "a_ret a = 0"
  shows "\<exists>t. zdir_get_next_entry e (Some d) s = Some (None, Some (d\<lparr>dir_result := 0\<rparr>), t) \<and>
    todo t = rest \<and> log t = log s @ [(D_readdir (dir_hdl d), a)] \<and>
    err t = (if a_errno a = 0 then err s
      else zerror_set_error_p (err_mem e) (msg_mem e) (err s) (word_of_int (zerror_get_last_io (names e) (a_errno a)))
        (word_of_int (a_errno a)) (Some (dir_text D_Readdir)))"
  using assms
  by (auto simp: zdir_get_next_entry_def Let_def zerror_get_last_system_def dir_report_last_def report_def sys_env.truncate_def)

lemma dir_list_run:
  assumes "dir_ready e" "dir_hdl d \<noteq> 0" "\<forall>x \<in> set xs. a_ret (fst x) \<noteq> 0" "a_ret a = 0"
    "todo s = concat (map entry_answers xs) @ a # rest"
  shows "\<exists>t r. dir_list e (Some d) s =
      Some (map (\<lambda>x. \<lparr>entry_name = c_name (fst x), entry_type = entry_type_of (snd x)\<rparr>) xs, Some (d\<lparr>dir_result := r\<rparr>), t) \<and>
    todo t = rest \<and> log t = log s @ concat (map (entry_calls d) xs) @ [(D_readdir (dir_hdl d), a)] \<and>
    err t = (if a_errno a = 0 then err s
      else zerror_set_error_p (err_mem e) (msg_mem e) (err s) (word_of_int (zerror_get_last_io (names e) (a_errno a)))
        (word_of_int (a_errno a)) (Some (dir_text D_Readdir)))"
  using assms
proof (induction xs arbitrary: s d)
  case Nil
  then show ?case using next_entry_end[of d s a rest e] by (subst dir_list.simps) auto
next
  case (Cons x xs)
  then obtain t r where t: "zdir_get_next_entry e (Some d) s =
      Some (Some \<lparr>entry_name = c_name (fst x), entry_type = entry_type_of (snd x)\<rparr>, Some (d\<lparr>dir_result := r\<rparr>), t)"
    "todo t = concat (map entry_answers xs) @ a # rest" "log t = log s @ entry_calls d x" "err t = err s"
    using next_entry_some[of e d s x "concat (map entry_answers xs) @ a # rest"] by auto
  have calls: "entry_calls (d\<lparr>dir_result := r\<rparr>) = entry_calls d" by (simp add: entry_calls_def fun_eq_iff)
  show ?case
    using Cons.IH[of "d\<lparr>dir_result := r\<rparr>" t] Cons.prems t calls by (subst dir_list.simps) auto
qed

section \<open>Streams\<close>

fun ds_step :: "int set \<Rightarrow> dir_call \<times> answer \<Rightarrow> int set" where
  "ds_step F (D_opendir p, a) = (if a_ret a = 0 then F else insert (a_ret a) F)"
| "ds_step F (D_closedir h, a) = F - {h}"
| "ds_step F x = F"

text \<open>A stream that is opened was not open before.\<close>

fun ds_sane :: "int set \<Rightarrow> dir_call \<times> answer \<Rightarrow> bool" where
  "ds_sane F (D_opendir p, a) \<longleftrightarrow> a_ret a \<notin> F"
| "ds_sane F x \<longleftrightarrow> True"

text \<open>Only open streams are read, rewound or closed.\<close>

fun ds_proper :: "int set \<Rightarrow> dir_call \<times> answer \<Rightarrow> bool" where
  "ds_proper F (D_closedir h, a) \<longleftrightarrow> h \<in> F"
| "ds_proper F (D_readdir h, a) \<longleftrightarrow> h \<in> F"
| "ds_proper F (D_rewinddir h, a) \<longleftrightarrow> h \<in> F"
| "ds_proper F x \<longleftrightarrow> True"

fun ds_quiet :: "int \<Rightarrow> dir_call \<Rightarrow> bool" where
  "ds_quiet k (D_opendir p) \<longleftrightarrow> False"
| "ds_quiet k (D_closedir h) \<longleftrightarrow> False"
| "ds_quiet k (D_readdir h) \<longleftrightarrow> h = k \<and> k \<noteq> 0"
| "ds_quiet k (D_rewinddir h) \<longleftrightarrow> h = k \<and> k \<noteq> 0"
| "ds_quiet k c \<longleftrightarrow> True"

interpretation ds: resource_log ds_step ds_sane ds_proper ds_quiet "\<lambda>k F. k = 0 \<or> k \<in> F"
proof
  fix k :: int and F and x :: "dir_call \<times> answer"
  assume "ds_quiet k (fst x)" "k = 0 \<or> k \<in> F"
  then show "ds_step F x = F" "ds_proper F x" by (cases x; cases "fst x"; auto)+
qed

text \<open>What a program does with a directory object, and with paths, between opening and freeing; the memory at each call may differ.\<close>

datatype dir_op = Do_Next dir_env | Do_Rewind dir_env | Do_Exists "string option" | Do_Create dir_env "string option" int
  | Do_Remove dir_env "string option" | Do_File_Exists "string option" | Do_File_Remove dir_env "string option"

fun dir_do :: "dir_op \<Rightarrow> PDir option \<Rightarrow> dir_sys \<Rightarrow> (PDir option \<times> dir_sys) option" where
  "dir_do (Do_Next e) dp s = do { (en, dp1, t) \<leftarrow> zdir_get_next_entry e dp s; Some (dp1, t) }"
| "dir_do (Do_Rewind e) dp s = do { (r, t) \<leftarrow> zdir_rewind e dp s; Some (dp, t) }"
| "dir_do (Do_Exists p) dp s = do { (r, t) \<leftarrow> zdir_is_exists p s; Some (dp, t) }"
| "dir_do (Do_Create e p m) dp s = do { (r, t) \<leftarrow> zdir_create e p m s; Some (dp, t) }"
| "dir_do (Do_Remove e p) dp s = do { (r, t) \<leftarrow> zdir_remove e p s; Some (dp, t) }"
| "dir_do (Do_File_Exists p) dp s = do { (r, t) \<leftarrow> zfile_is_exists p s; Some (dp, t) }"
| "dir_do (Do_File_Remove e p) dp s = do { (r, t) \<leftarrow> zfile_remove e p s; Some (dp, t) }"

fun dir_uses :: "dir_op list \<Rightarrow> PDir option \<Rightarrow> dir_sys \<Rightarrow> (PDir option \<times> dir_sys) option" where
  "dir_uses [] dp s = Some (dp, s)"
| "dir_uses (x # xs) dp s = do { (dp1, t) \<leftarrow> dir_do x dp s; dir_uses xs dp1 t }"

definition dir_session :: "dir_env \<Rightarrow> string option \<Rightarrow> dir_op list \<Rightarrow> dir_sys \<Rightarrow> dir_sys option" where
  "dir_session e path xs s = do {
     (dp, s1) \<leftarrow> zdir_new e path s;
     (dp1, s2) \<leftarrow> dir_uses xs dp s1;
     zdir_free dp1 s2
   }"

lemma talks_dir_report [simp]:
  "ds.talks k s (dir_report e c m t) = ds.talks k s t" "ds.talks k s (dir_report_last e m t) = ds.talks k s t"
  by (simp_all add: dir_report_def dir_report_last_def report_def)

lemma talks_errno_call:
  assumes "sys_call c (s\<lparr>errno := n\<rparr>) = Some (a, t)" "ds_quiet k c"
  shows "ds.talks k s t"
  using assms by (cases "todo s") (auto simp: ds.talks_def consumes_def sys_call_def intro!: exI[of _ "[(c, a)]"])

text \<open>The handle of an object, 0 for none.\<close>

definition hdl_of :: "PDir option \<Rightarrow> int" where
  "hdl_of dp = (case dp of None \<Rightarrow> 0 | Some d \<Rightarrow> dir_hdl d)"

lemma is_exists_talks: "zdir_is_exists p s = Some (r, t) \<Longrightarrow> ds.talks k s t"
  by (auto simp: zdir_is_exists_def bind_eq_Some_conv split: option.splits intro: ds.talks_call)

lemma exists_then_talks:
  "zdir_is_exists p s = Some (r, u) \<Longrightarrow> sys_call c u = Some (a, t) \<Longrightarrow> ds_quiet k c \<Longrightarrow> ds.talks k s t"
  using is_exists_talks ds.talks_trans ds.talks_call by blast

lemmas exists_mkdir_talks = exists_then_talks[where c = "D_mkdir q m" for q m, simplified]

lemmas unlink_talks = ds.talks_call[where c = "D_unlink q" for q, simplified]

lemmas exists_rmdir_talks = exists_then_talks[where c = "D_rmdir q" for q, simplified]

lemma next_entry_talks:
  assumes "zdir_get_next_entry e dp s = Some (en, dp1, t)" "k = hdl_of dp"
  shows "ds.talks k s t \<and> hdl_of dp1 = hdl_of dp \<and> (dp1 = None \<longleftrightarrow> dp = None)"
proof (cases "hdl_of dp = 0")
  case True
  then show ?thesis using assms(1) by (auto simp: zdir_get_next_entry_def hdl_of_def split: option.splits)
next
  case False
  then obtain d where d: "dp = Some d" "dir_hdl d = k" "dir_hdl d \<noteq> 0" using assms(2) by (auto simp: hdl_of_def split: option.splits)
  then obtain a s1 where a: "sys_call (D_readdir k) (s\<lparr>errno := 0\<rparr>) = Some (a, s1)"
    using assms(1) by (auto simp: zdir_get_next_entry_def bind_eq_Some_conv)
  have 1: "ds.talks k s s1" by (rule talks_errno_call[OF a]) (use d in simp)
  have "ds.talks k s t"
  proof (cases "a_ret a = 0 \<or> \<not> obj_mem e \<or> \<not> entry_path_mem e")
    case True
    then show ?thesis using assms(1) d a 1
      by (auto simp: zdir_get_next_entry_def Let_def bind_eq_Some_conv split: if_splits)
  next
    case False
    then obtain b p where b: "sys_call (D_stat p) s1 = Some (b, t)"
      using assms(1) d a by (auto simp: zdir_get_next_entry_def Let_def bind_eq_Some_conv)
    show ?thesis using ds.talks_trans[OF 1 ds.talks_call[OF b]] by simp
  qed
  moreover have "\<exists>d1. dp1 = Some d1 \<and> dir_hdl d1 = dir_hdl d"
    using assms(1) d by (auto simp: zdir_get_next_entry_def Let_def bind_eq_Some_conv split: if_splits)
  ultimately show ?thesis using d by (auto simp: hdl_of_def)
qed

lemma dir_do_talks:
  assumes "dir_do x dp s = Some (dp1, t)" "k = hdl_of dp"
  shows "ds.talks k s t \<and> hdl_of dp1 = hdl_of dp \<and> (dp1 = None \<longleftrightarrow> dp = None)"
proof (cases x)
  case (Do_Next e)
  then show ?thesis using assms next_entry_talks[of e dp s _ dp1 t k] by (auto simp: bind_eq_Some_conv)
next
  case (Do_Rewind e)
  then show ?thesis using assms
    by (auto simp: bind_eq_Some_conv zdir_rewind_def hdl_of_def split: option.splits if_splits intro: ds.talks_call)
next
  case (Do_Exists p)
  then show ?thesis using assms is_exists_talks[of p s] by (auto simp: bind_eq_Some_conv)
next
  case (Do_Create e p m)
  then show ?thesis using assms
    by (auto simp: bind_eq_Some_conv zdir_create_def split: option.splits if_splits
        intro: is_exists_talks exists_mkdir_talks exists_rmdir_talks)
next
  case (Do_Remove e p)
  then show ?thesis using assms
    by (auto simp: bind_eq_Some_conv zdir_remove_def split: option.splits if_splits
        intro: is_exists_talks exists_mkdir_talks exists_rmdir_talks)
next
  case (Do_File_Exists p)
  then show ?thesis using assms by (auto simp: bind_eq_Some_conv zfile_is_exists_def split: option.splits intro: ds.talks_call)
next
  case (Do_File_Remove e p)
  then show ?thesis using assms
    by (auto simp: bind_eq_Some_conv zfile_remove_def split: option.splits if_splits intro: unlink_talks)
qed

lemma dir_uses_talks:
  "dir_uses xs dp s = Some (dp1, t) \<Longrightarrow> k = hdl_of dp \<Longrightarrow>
   ds.talks k s t \<and> hdl_of dp1 = hdl_of dp \<and> (dp1 = None \<longleftrightarrow> dp = None)"
proof (induction xs arbitrary: dp s)
  case (Cons x xs)
  then obtain dp2 u where u: "dir_do x dp s = Some (dp2, u)" "dir_uses xs dp2 u = Some (dp1, t)"
    by (auto simp: bind_eq_Some_conv)
  then show ?case using dir_do_talks[OF u(1) Cons.prems(2)] Cons.IH[of dp2 u] Cons.prems(2) ds.talks_trans by metis
qed simp

lemma dir_session_effect:
  assumes "dir_session e path xs s = Some t"
  shows "ds.effect {} s t (\<lambda>G. G = {})"
proof -
  obtain dp s1 dp1 s2 where run: "zdir_new e path s = Some (dp, s1)" "dir_uses xs dp s1 = Some (dp1, s2)" "zdir_free dp1 s2 = Some t"
    using assms by (auto simp: dir_session_def bind_eq_Some_conv)
  note uses = dir_uses_talks[OF run(2) refl]
  have new: "ds.effect {} s s1 (\<lambda>G. G = (if hdl_of dp = 0 then {} else {hdl_of dp}))"
  proof (cases path)
    case None
    then show ?thesis using run(1) by (auto simp: zdir_new_def hdl_of_def dir_report_def intro: ds.effect_refl)
  next
    case (Some p)
    then obtain a u where a: "sys_call (D_opendir p) s = Some (a, u)" using run(1) by (auto simp: zdir_new_def bind_eq_Some_conv)
    have 1: "ds.effect {} s u (\<lambda>G. G = (if a_ret a = 0 then {} else {a_ret a}))" by (rule ds.effect_call[OF a]) simp
    show ?thesis
    proof (cases "a_ret a \<noteq> 0 \<and> \<not> obj_mem e")
      case True
      then obtain b where b: "sys_call (D_closedir (a_ret a)) (dir_report e P_ERROR_IO_NO_RESOURCES D_Memory u) = Some (b, s1)" "dp = None"
        using run(1) Some a by (auto simp: zdir_new_def bind_eq_Some_conv)
      have "ds.effect {a_ret a} (dir_report e P_ERROR_IO_NO_RESOURCES D_Memory u) s1 (\<lambda>G. G = {})"
        by (rule ds.effect_call[OF b(1)]) simp
      then have "ds.effect {a_ret a} u s1 (\<lambda>G. G = {})" by (simp add: dir_report_def report_def)
      from ds.effect_seq[OF 1[unfolded if_not_P[OF conjunct1[OF True]]] this] show ?thesis using b(2) by (simp add: hdl_of_def)
    next
      case False
      then have "(s1 = u \<or> s1 = dir_report_last e D_Opendir u) \<and> hdl_of dp = a_ret a"
        using run(1) Some a by (auto simp: zdir_new_def hdl_of_def bind_eq_Some_conv split: if_splits)
      then show ?thesis using 1 by (auto simp: dir_report_last_def)
    qed
  qed
  have mid: "ds.effect {} s s2 (\<lambda>G. G = (if hdl_of dp = 0 then {} else {hdl_of dp}))"
    by (rule ds.effect_seq[OF new ds.effect_talks[OF conjunct1[OF uses]]]) auto
  show ?thesis
  proof (cases "hdl_of dp = 0")
    case True
    then have "t = s2" using run(3) uses by (auto simp: zdir_free_def hdl_of_def split: option.splits)
    then show ?thesis using mid True by simp
  next
    case False
    then obtain b where b: "sys_call (D_closedir (hdl_of dp)) s2 = Some (b, t)"
      using run(3) uses by (auto simp: zdir_free_def hdl_of_def bind_eq_Some_conv split: option.splits)
    have "ds.effect {hdl_of dp} s2 t (\<lambda>G. G = {})" by (rule ds.effect_call[OF b]) simp
    from ds.effect_seq[OF mid[unfolded if_not_P[OF False]] this] show ?thesis .
  qed
qed

section \<open>Correctness\<close>



text \<open>The witnesses: a directory with a file and a directory, and a session without memory for the object.\<close>

abbreviation dir_answer :: "int \<Rightarrow> int \<Rightarrow> puchar list \<Rightarrow> answer" where
  "dir_answer r v b \<equiv> \<lparr>a_ret = r, a_errno = 0, a_val = v, a_len = 0, a_data = b\<rparr>"

abbreviation dir_start :: "answer list \<Rightarrow> dir_sys" where
  "dir_start as \<equiv> \<lparr>todo = as, log = [], errno = 0, err = Some None\<rparr>"

abbreviation dir_mem :: "bool \<Rightarrow> dir_env" where
  "dir_mem b \<equiv> \<lparr>names = (\<lambda>_. None), err_mem = True, msg_mem = True, obj_mem = b, dup_path_mem = True, entry_path_mem = True\<rparr>"

lemma sample_chars: "char_of (98 :: nat) = CHR ''b''" "char_of (99 :: nat) = CHR ''c''"
  by code_simp+



end
