(* ===== verification/PSemaphore_SysV.thy ===== *)
theory PSemaphore_SysV
  imports PSemaphore
begin

text \<open>
  System V semaphores, \<^verbatim>\<open>src/src/tmp/psemaphore-sysv.c\<close>. A file under the name of the semaphore gives the key of the system, under which a
  set of one semaphore is made or found; the object removes what it takes to be its own, and makes the
  semaphore again when it has disappeared.
\<close>

section \<open>Types\<close>

text \<open>The calls of this file and of the System V segments.\<close>

datatype sv_call = V_open string | V_close int | V_stat string | V_ftok string | V_unlink string
  | V_semget int bool | V_setval int int | V_rmid int | V_semop int int
  | V_shmget int psize bool bool | V_shmstat int | V_shmat int bool | V_shmdt int | V_shm_rmid int

type_synonym sv_sys = "sv_call sys"

record PSemaphoreSysV =
  sv_file_created :: bool
  sv_sem_created :: bool
  sv_unix_key :: int
  sv_key :: "string option"
  sv_hdl :: int
  sv_mode :: PSemaphoreAccessMode
  sv_init :: int

definition P_SEM_INVALID_HDL_sysv :: int where "P_SEM_INVALID_HDL_sysv = - 1"

datatype sv_msg = V_Argument | V_Key_File | V_Ftok | V_Semget | V_Setval | V_Memory | V_Semop

primrec sv_text :: "sv_msg \<Rightarrow> string" where
  "sv_text V_Argument = ''Invalid input argument''"
| "sv_text V_Key_File = ''Failed to create key file''"
| "sv_text V_Ftok = ''Failed to get unique IPC key''"
| "sv_text V_Semget = ''Failed to call semget() to create semaphore''"
| "sv_text V_Setval = ''Failed to set semaphore initial value with semctl()''"
| "sv_text V_Memory = ''Failed to allocate memory for semaphore''"
| "sv_text V_Semop = ''Failed to call semop() on semaphore''"

definition sv_report :: "ip_env \<Rightarrow> int \<Rightarrow> sv_msg \<Rightarrow> sv_sys \<Rightarrow> sv_sys" where
  "sv_report e c m s = report (sys_env.truncate e) c 0 (sv_text m) s"

definition sv_report_last :: "ip_env \<Rightarrow> sv_msg \<Rightarrow> sv_sys \<Rightarrow> sv_sys" where
  "sv_report_last e m s =
     report (sys_env.truncate e) (zerror_get_last_ipc (names e) (errno s)) (zerror_get_last_system (errno s)) (sv_text m) s"

section \<open>Operations\<close>

text \<open>The key file and the key, made with the functions of \<open>PIPC\<close> from the answers of the system.\<close>

definition sv_key_file :: "string option \<Rightarrow> sv_sys \<Rightarrow> (int \<times> sv_sys) option" where
  "sv_key_file k s =
     (case k of
        None \<Rightarrow> Some (zipc_unix_create_key_file (\<lambda>_. Inl 0) (\<lambda>_. 0) None, s)
      | Some f \<Rightarrow> do {
          (a, s1) \<leftarrow> sys_call (V_open f) s;
          if a_ret a = - 1 then Some (zipc_unix_create_key_file (\<lambda>_. Inl (a_errno a)) (\<lambda>_. 0) k, s1)
          else do {
            (b, s2) \<leftarrow> sys_call (V_close (a_ret a)) s1;
            Some (zipc_unix_create_key_file (\<lambda>_. Inr (a_ret a)) (\<lambda>_. a_ret b) k, s2)
          }
        })"

definition sv_ftok_key :: "string option \<Rightarrow> sv_sys \<Rightarrow> (int \<times> sv_sys) option" where
  "sv_ftok_key k s =
     (case k of
        None \<Rightarrow> Some (zipc_unix_get_ftok_key (\<lambda>_. False) (\<lambda>_ _. 0) None, s)
      | Some f \<Rightarrow> do {
          (a, s1) \<leftarrow> sys_call (V_stat f) s;
          if a_ret a = - 1 then Some (zipc_unix_get_ftok_key (\<lambda>_. False) (\<lambda>_ _. 0) k, s1)
          else do {
            (b, s2) \<leftarrow> sys_call (V_ftok f) s1;
            Some (zipc_unix_get_ftok_key (\<lambda>_. True) (\<lambda>_ _. a_ret b) k, s2)
          }
        })"

definition sv_call_if :: "bool \<Rightarrow> sv_call \<Rightarrow> sv_sys \<Rightarrow> sv_sys option" where
  "sv_call_if b c s = (if b then map_option snd (sys_call c s) else Some s)"

definition pzsemaphore_clean_handle_sysv :: "PSemaphoreSysV \<Rightarrow> sv_sys \<Rightarrow> (PSemaphoreSysV \<times> sv_sys) option" where
  "pzsemaphore_clean_handle_sysv sem s = do {
     s1 \<leftarrow> sv_call_if (sv_hdl sem \<noteq> P_SEM_INVALID_HDL_sysv \<and> sv_sem_created sem) (V_rmid (sv_hdl sem)) s;
     s2 \<leftarrow> (case sv_key sem of None \<Rightarrow> Some s1 | Some f \<Rightarrow> sv_call_if (sv_file_created sem) (V_unlink f) s1);
     Some (sem\<lparr>sv_file_created := False, sv_sem_created := False, sv_unix_key := - 1, sv_hdl := P_SEM_INVALID_HDL_sysv\<rparr>, s2)
   }"

text \<open>A failure after the check of the argument: it is reported and the handle is cleaned.\<close>

definition sv_abort :: "ip_env \<Rightarrow> sv_msg \<Rightarrow> PSemaphoreSysV \<Rightarrow> sv_sys \<Rightarrow> (bool \<times> PSemaphoreSysV \<times> sv_sys) option" where
  "sv_abort e m sem s = do {
     (sem1, s1) \<leftarrow> pzsemaphore_clean_handle_sysv sem (sv_report_last e m s);
     Some (False, sem1, s1)
   }"

text \<open>The set is made, or the one that exists is found; \<open>built\<close> says whether the key file was there (1) or was made (0).\<close>

definition sv_semget :: "ip_env \<Rightarrow> int \<Rightarrow> PSemaphoreSysV \<Rightarrow> sv_sys \<Rightarrow> (PSemaphoreSysV \<times> sv_sys) option" where
  "sv_semget e built sem s = do {
     (a, s1) \<leftarrow> sys_call (V_semget (sv_unix_key sem) True) s;
     if a_ret a = P_SEM_INVALID_HDL_sysv
     then if errno_is e ''EEXIST'' (errno s1)
          then do { (b, s2) \<leftarrow> sys_call (V_semget (sv_unix_key sem) False) s1; Some (sem\<lparr>sv_hdl := a_ret b\<rparr>, s2) }
          else Some (sem\<lparr>sv_hdl := a_ret a\<rparr>, s1)
     else Some (sem\<lparr>sv_hdl := a_ret a, sv_sem_created := True, sv_file_created := (built = 1)\<rparr>, s1)
   }"

definition sv_setval :: "ip_env \<Rightarrow> PSemaphoreSysV \<Rightarrow> sv_sys \<Rightarrow> (bool \<times> PSemaphoreSysV \<times> sv_sys) option" where
  "sv_setval e sem s =
     (if sv_sem_created sem \<or> sv_mode sem = P_SEM_ACCESS_CREATE
      then do {
        (a, s1) \<leftarrow> sys_call (V_setval (sv_hdl sem) (sv_init sem)) s;
        if a_ret a = - 1 then sv_abort e V_Setval sem s1 else Some (True, sem, s1)
      }
      else Some (True, sem, s))"

definition pzsemaphore_create_handle_sysv :: "ip_env \<Rightarrow> PSemaphoreSysV \<Rightarrow> sv_sys \<Rightarrow> (bool \<times> PSemaphoreSysV \<times> sv_sys) option" where
  "pzsemaphore_create_handle_sysv e sem s =
     (if sv_key sem = None then Some (False, sem, sv_report e P_ERROR_IPC_INVALID_ARGUMENT V_Argument s)
      else do {
        (built, s1) \<leftarrow> sv_key_file (sv_key sem) s;
        if built = - 1 then sv_abort e V_Key_File sem s1
        else do {
          let sem1 = (if built = 0 then sem\<lparr>sv_file_created := True\<rparr> else sem);
          (k, s2) \<leftarrow> sv_ftok_key (sv_key sem1) s1;
          let sem2 = sem1\<lparr>sv_unix_key := k\<rparr>;
          if k = - 1 then sv_abort e V_Ftok sem2 s2
          else do {
            (sem3, s3) \<leftarrow> sv_semget e built sem2 s2;
            if sv_hdl sem3 = P_SEM_INVALID_HDL_sysv then sv_abort e V_Semget sem3 s3 else sv_setval e sem3 s3
          }
        }
      })"

definition zsemaphore_free_sysv :: "PSemaphoreSysV option \<Rightarrow> sv_sys \<Rightarrow> sv_sys option" where
  "zsemaphore_free_sysv sp s =
     (case sp of None \<Rightarrow> Some s | Some sem \<Rightarrow> do { (sem', t) \<leftarrow> pzsemaphore_clean_handle_sysv sem s; Some t })"

definition zsemaphore_new_sysv ::
    "ip_env \<Rightarrow> string option \<Rightarrow> int \<Rightarrow> PSemaphoreAccessMode \<Rightarrow> sv_sys \<Rightarrow> (PSemaphoreSysV option \<times> sv_sys) option" where
  "zsemaphore_new_sysv e name init_val mode s =
     (case name of
        None \<Rightarrow> Some (None, sv_report e P_ERROR_IPC_INVALID_ARGUMENT V_Argument s)
      | Some nm \<Rightarrow>
          if init_val < 0 then Some (None, sv_report e P_ERROR_IPC_INVALID_ARGUMENT V_Argument s)
          else if \<not> obj_mem e then Some (None, sv_report e P_ERROR_IPC_NO_RESOURCES V_Memory s)
          else if \<not> name_mem e then Some (None, sv_report e P_ERROR_IPC_NO_RESOURCES V_Memory s)
          else do {
            key \<leftarrow> zipc_get_platform_key (ip_be e) (ip_ipc e) (Some (nm @ P_SEM_SUFFIX)) False;
            (ok, sem, s1) \<leftarrow> pzsemaphore_create_handle_sysv e
              \<lparr>sv_file_created = False, sv_sem_created = False, sv_unix_key = 0, sv_key = key, sv_hdl = 0, sv_mode = mode,
               sv_init = init_val\<rparr> s;
            if \<not> ok then do { s2 \<leftarrow> zsemaphore_free_sysv (Some sem) s1; Some (None, s2) }
            else Some (Some sem, s1)
          })"

definition zsemaphore_take_ownership_sysv :: "PSemaphoreSysV option \<Rightarrow> PSemaphoreSysV option" where
  "zsemaphore_take_ownership_sysv sp = map_option (\<lambda>sem. sem\<lparr>sv_sem_created := True\<rparr>) sp"

text \<open>The loop around \<^verbatim>\<open>semop\<close>, and the errors that say that the semaphore is gone.\<close>

definition sv_semop :: "ip_env \<Rightarrow> PSemaphoreSysV \<Rightarrow> int \<Rightarrow> sv_sys \<Rightarrow> (int \<times> sv_sys) option" where
  "sv_semop e sem n s = do {
     (a, t) \<leftarrow> retry (\<lambda>a. a_ret a = - 1 \<and> errno_is e ''EINTR'' (a_errno a)) (V_semop (sv_hdl sem) n) s;
     Some (a_ret a, t)
   }"

definition sv_gone :: "ip_env \<Rightarrow> int \<Rightarrow> sv_sys \<Rightarrow> bool" where
  "sv_gone e res s \<longleftrightarrow> res \<noteq> 0 \<and> (errno_is e ''EIDRM'' (errno s) \<or> errno_is e ''EINVAL'' (errno s))"

definition sv_result :: "ip_env \<Rightarrow> int \<Rightarrow> PSemaphoreSysV \<Rightarrow> sv_sys \<Rightarrow> bool \<times> PSemaphoreSysV option \<times> sv_sys" where
  "sv_result e res sem s = (res = 0, Some sem, if res \<noteq> 0 then sv_report_last e V_Semop s else s)"

definition zsemaphore_acquire_sysv :: "ip_env \<Rightarrow> PSemaphoreSysV option \<Rightarrow> sv_sys \<Rightarrow> (bool \<times> PSemaphoreSysV option \<times> sv_sys) option" where
  "zsemaphore_acquire_sysv e sp s =
     (case sp of
        None \<Rightarrow> Some (False, None, sv_report e P_ERROR_IPC_INVALID_ARGUMENT V_Argument s)
      | Some sem \<Rightarrow> do {
          (res, s1) \<leftarrow> sv_semop e sem (- 1) s;
          if sv_gone e res s1
          then do {
            (sem1, s2) \<leftarrow> pzsemaphore_clean_handle_sysv sem s1;
            (ok, sem2, s3) \<leftarrow> pzsemaphore_create_handle_sysv e sem1 s2;
            if \<not> ok then Some (False, Some sem2, s3)
            else do { (res2, s4) \<leftarrow> sv_semop e sem2 (- 1) s3; Some (sv_result e res2 sem2 s4) }
          }
          else Some (sv_result e res sem s1)
        })"

definition zsemaphore_release_sysv :: "ip_env \<Rightarrow> PSemaphoreSysV option \<Rightarrow> sv_sys \<Rightarrow> (bool \<times> PSemaphoreSysV option \<times> sv_sys) option" where
  "zsemaphore_release_sysv e sp s =
     (case sp of
        None \<Rightarrow> Some (False, None, sv_report e P_ERROR_IPC_INVALID_ARGUMENT V_Argument s)
      | Some sem \<Rightarrow> do {
          (res, s1) \<leftarrow> sv_semop e sem 1 s;
          if sv_gone e res s1
          then do {
            (sem1, s2) \<leftarrow> pzsemaphore_clean_handle_sysv sem s1;
            (ok, sem2, s3) \<leftarrow> pzsemaphore_create_handle_sysv e sem1 s2;
            Some (ok, Some sem2, s3)
          }
          else Some (sv_result e res sem s1)
        })"

section \<open>Resources\<close>

text \<open>
  What a process has put into the system: descriptors, key files and sets of semaphores; and whether it has made a key file and a
  set since the beginning.
\<close>

datatype sv_res = SV_Fd int | SV_File string | SV_Set int

type_synonym sv_held = "sv_res set \<times> bool \<times> bool"

fun sv_acquired :: "sv_call \<Rightarrow> int \<Rightarrow> sv_res set" where
  "sv_acquired (V_open f) r = (if r = - 1 then {} else {SV_Fd r, SV_File f})"
| "sv_acquired (V_semget k excl) r = (if r = - 1 \<or> \<not> excl then {} else {SV_Set r})"
| "sv_acquired c r = {}"

fun sv_released :: "sv_call \<Rightarrow> sv_res set" where
  "sv_released (V_close fd) = {SV_Fd fd}"
| "sv_released (V_unlink f) = {SV_File f}"
| "sv_released (V_rmid h) = {SV_Set h}"
| "sv_released c = {}"

fun sv_step :: "sv_held \<Rightarrow> sv_call \<times> answer \<Rightarrow> sv_held" where
  "sv_step (F, mf, ms) (c, a) =
     (F \<union> sv_acquired c (a_ret a) - (if a_ret a = 0 then sv_released c else {}),
      mf \<or> (a_ret a \<noteq> - 1 \<and> (case c of V_open f \<Rightarrow> True | _ \<Rightarrow> False)),
      ms \<or> (a_ret a \<noteq> - 1 \<and> (case c of V_semget k excl \<Rightarrow> excl | _ \<Rightarrow> False)))"

text \<open>What is made was not there before, and what the process has can be given back.\<close>

fun sv_sane :: "sv_held \<Rightarrow> sv_call \<times> answer \<Rightarrow> bool" where
  "sv_sane (F, ms) (c, a) \<longleftrightarrow> sv_acquired c (a_ret a) \<inter> F = {} \<and> (sv_released c \<inter> F \<noteq> {} \<longrightarrow> a_ret a = 0)"

text \<open>Only descriptors that are open are closed; files and sets of other processes may be removed.\<close>

fun sv_proper :: "sv_held \<Rightarrow> sv_call \<times> answer \<Rightarrow> bool" where
  "sv_proper (F, ms) (c, a) \<longleftrightarrow> sv_released c \<subseteq> F \<union> range SV_File \<union> range SV_Set"

definition sv_quiet :: "unit \<Rightarrow> sv_call \<Rightarrow> bool" where
  "sv_quiet k c \<longleftrightarrow> (\<forall>r. sv_acquired c r = {}) \<and> sv_released c = {} \<and> (\<forall>f. c \<noteq> V_open f) \<and> (\<forall>i. c \<noteq> V_semget i True)"

interpretation svr: resource_log sv_step sv_sane sv_proper sv_quiet "\<lambda>k F. True"
proof
  fix k F and x :: "sv_call \<times> answer"
  assume "sv_quiet k (fst x)"
  then show "sv_step F x = F" "sv_proper F x"
    by (cases F; cases x; auto simp: sv_quiet_def split: sv_call.splits)+
qed

lemma sv_quiet_simps [simp]:
  "sv_quiet k (V_stat f)" "sv_quiet k (V_ftok f)" "sv_quiet k (V_setval h n)" "sv_quiet k (V_semop h n)" "sv_quiet k (V_semget i False)"
  by (simp_all add: sv_quiet_def)

lemma sv_effect_report [simp]:
  "svr.effect F s (sv_report e c m t) Q = svr.effect F s t Q" "svr.effect F s (sv_report_last e m t) Q = svr.effect F s t Q"
  "svr.effect F (sv_report e c m s) t Q = svr.effect F s t Q" "svr.effect F (sv_report_last e m s) t Q = svr.effect F s t Q"
  by (simp_all add: sv_report_def sv_report_last_def report_def)

lemma sv_released_effect:
  assumes "sv_call_if b c s = Some t" "c = V_rmid h \<or> c = V_unlink f"
  shows "svr.effect (F, mf, ms) s t (\<lambda>G. G = (F - (if b then sv_released c else {}), mf, ms))"
proof (cases b)
  case True
  then obtain a where a: "sys_call c s = Some (a, t)" using assms(1) by (auto simp: sv_call_if_def)
  show ?thesis by (rule svr.effect_call[OF a]) (use True assms(2) in auto)
qed (use assms(1) in \<open>auto simp: sv_call_if_def intro: svr.effect_refl\<close>)

text \<open>What the object will remove.\<close>

definition held_sv :: "PSemaphoreSysV \<Rightarrow> sv_res set" where
  "held_sv sem =
     (if sv_hdl sem \<noteq> - 1 \<and> sv_sem_created sem then {SV_Set (sv_hdl sem)} else {}) \<union>
     (case sv_key sem of None \<Rightarrow> {} | Some f \<Rightarrow> if sv_file_created sem then {SV_File f} else {})"

lemma clean_sv_effect:
  assumes "pzsemaphore_clean_handle_sysv sem s = Some (sem', t)"
  shows "svr.effect (F, mf, ms) s t (\<lambda>G. G = (F - held_sv sem, mf, ms))" "held_sv sem' = {}" "sv_key sem' = sv_key sem"
proof -
  obtain s1 where c: "sv_call_if (sv_hdl sem \<noteq> - 1 \<and> sv_sem_created sem) (V_rmid (sv_hdl sem)) s = Some s1"
    and u: "(case sv_key sem of None \<Rightarrow> Some s1 | Some f \<Rightarrow> sv_call_if (sv_file_created sem) (V_unlink f) s1) = Some t"
    and sem': "sem' = sem\<lparr>sv_file_created := False, sv_sem_created := False, sv_unix_key := - 1, sv_hdl := - 1\<rparr>"
    using assms by (auto simp: pzsemaphore_clean_handle_sysv_def P_SEM_INVALID_HDL_sysv_def bind_eq_Some_conv)
  show "held_sv sem' = {}" "sv_key sem' = sv_key sem" by (auto simp: sem' held_sv_def split: option.splits)
  have 1: "svr.effect (F, mf, ms) s s1 (\<lambda>G. G = (F - (if sv_hdl sem \<noteq> - 1 \<and> sv_sem_created sem then {SV_Set (sv_hdl sem)} else {}), mf, ms))"
    using sv_released_effect[OF c disjI1[OF refl]] by (simp only: sv_released.simps)
  have 2: "svr.effect (A, mf, ms) s1 t
      (\<lambda>G. G = (A - (case sv_key sem of None \<Rightarrow> {} | Some f \<Rightarrow> if sv_file_created sem then {SV_File f} else {}), mf, ms))" for A
  proof (cases "sv_key sem")
    case (Some f)
    then have "sv_call_if (sv_file_created sem) (V_unlink f) s1 = Some t" using u by simp
    from sv_released_effect[OF this disjI2[OF refl], of A mf ms] show ?thesis unfolding Some sv_released.simps option.case .
  qed (use u in \<open>auto intro: svr.effect_refl\<close>)
  show "svr.effect (F, mf, ms) s t (\<lambda>G. G = (F - held_sv sem, mf, ms))"
    using svr.effect_seq[OF 1 2] by (rule svr.effect_mono) (simp add: held_sv_def Diff_Un Un_Diff Diff_eq Int_assoc)
qed

lemma key_file_effect:
  assumes "sv_key_file (Some f) s = Some (built, t)"
  shows "svr.effect (F, False, False) s t
    (\<lambda>G. G = (F \<union> (if built = 0 then {SV_File f} else {}), built = 0, False) \<and> (built = 0 \<longrightarrow> SV_File f \<notin> F))"
proof -
  obtain a s1 where a: "sys_call (V_open f) s = Some (a, s1)" using assms by (auto simp: sv_key_file_def bind_eq_Some_conv)
  show ?thesis
  proof (cases "a_ret a = - 1")
    case True
    then have t: "t = s1" and "built \<noteq> 0" using assms a by (auto simp: sv_key_file_def zipc_unix_create_key_file_def split: if_splits)
    then show ?thesis unfolding t using True by (intro svr.effect_call[OF a]) auto
  next
    case False
    then obtain b where b: "sys_call (V_close (a_ret a)) s1 = Some (b, t)" "built = a_ret b"
      using assms a by (auto simp: sv_key_file_def zipc_unix_create_key_file_def bind_eq_Some_conv)
    have 1: "svr.effect (F, False, False) s s1
        (\<lambda>G. G = (F \<union> {SV_Fd (a_ret a), SV_File f}, True, False) \<and> SV_Fd (a_ret a) \<notin> F \<and> SV_File f \<notin> F)"
      by (rule svr.effect_call[OF a]) (use False in auto)
    show ?thesis
    proof (rule svr.effect_trans[OF 1])
      fix G assume "G = (F \<union> {SV_Fd (a_ret a), SV_File f}, True, False) \<and> SV_Fd (a_ret a) \<notin> F \<and> SV_File f \<notin> F"
      then show "svr.effect G s1 t
          (\<lambda>G. G = (F \<union> (if built = 0 then {SV_File f} else {}), built = 0, False) \<and> (built = 0 \<longrightarrow> SV_File f \<notin> F))"
        by (intro svr.effect_call[OF b(1)]) (auto simp: b(2))
    qed (use sys_callD(1)[OF b(1)] in blast)
  qed
qed

lemma ftok_effect:
  assumes "sv_ftok_key (Some f) s = Some (k, t)"
  shows "svr.talks () s t"
proof -
  obtain a s1 where a: "sys_call (V_stat f) s = Some (a, s1)" using assms by (auto simp: sv_ftok_key_def bind_eq_Some_conv)
  then have 1: "svr.talks () s s1" by (rule svr.talks_call) simp
  show ?thesis
  proof (cases "a_ret a = - 1")
    case True
    then show ?thesis using assms a 1 by (simp add: sv_ftok_key_def)
  next
    case False
    then obtain b where "sys_call (V_ftok f) s1 = Some (b, t)" using assms a by (auto simp: sv_ftok_key_def bind_eq_Some_conv)
    then show ?thesis using svr.talks_trans[OF 1 svr.talks_call] by simp
  qed
qed

text \<open>
  The state while the object is being made, as it is when everything the object will remove has been removed: \<open>F\<close> as before,
  and the key file of a process that made both the file and the set.
\<close>

definition sv_left :: "string \<Rightarrow> sv_res set \<Rightarrow> PSemaphoreSysV \<Rightarrow> sv_held \<Rightarrow> bool" where
  "sv_left f F sem G \<longleftrightarrow>
     (case G of (A, mf, ms) \<Rightarrow> A - held_sv sem = F \<union> (if mf \<and> ms then {SV_File f} else {})) \<and> sv_key sem = Some f"

lemma semget_effect:
  assumes "sv_semget e built sem s = Some (sem', t)" "sv_key sem = Some f" "\<not> sv_sem_created sem" "sv_file_created sem = (built = 0)"
    "SV_File f \<notin> F"
  shows "svr.effect (F \<union> (if built = 0 then {SV_File f} else {}), built = 0, False) s t (sv_left f F sem')"
proof -
  let ?F = "F \<union> (if built = 0 then {SV_File f} else {})"
  obtain a s1 where a: "sys_call (V_semget (sv_unix_key sem) True) s = Some (a, s1)"
    using assms(1) by (auto simp: sv_semget_def bind_eq_Some_conv)
  show ?thesis
  proof (cases "a_ret a = - 1")
    case True
    have 1: "svr.effect (?F, built = 0, False) s s1 (\<lambda>G. G = (?F, built = 0, False))"
      by (rule svr.effect_call[OF a]) (use True in auto)
    have "svr.talks () s1 t" "\<exists>h. sem' = sem\<lparr>sv_hdl := h\<rparr>"
      using assms(1) a True by (auto simp: sv_semget_def P_SEM_INVALID_HDL_sysv_def bind_eq_Some_conv split: if_splits
          intro: svr.talks_call[where c = "V_semget i False" for i])
    moreover have "sv_left f F (sem\<lparr>sv_hdl := h\<rparr>) (?F, built = 0, False)" for h
      using assms(2-5) by (auto simp: sv_left_def held_sv_def)
    ultimately show ?thesis using svr.effect_seq[OF 1 svr.effect_talks] by blast
  next
    case False
    then have eq: "t = s1" "sem' = sem\<lparr>sv_hdl := a_ret a, sv_sem_created := True, sv_file_created := (built = 1)\<rparr>"
      using assms(1) a by (auto simp: sv_semget_def P_SEM_INVALID_HDL_sysv_def)
    show ?thesis unfolding eq(1)
      by (rule svr.effect_call[OF a]) (use False assms(2,5) in \<open>auto simp: eq(2) sv_left_def held_sv_def\<close>)
  qed
qed

lemma sv_left_clean:
  assumes "pzsemaphore_clean_handle_sysv sem s = Some (sem', t)" "sv_left f F sem G"
  shows "svr.effect G s t (sv_left f F sem')"
proof -
  obtain A mf ms where G: "G = (A, mf, ms)" by (cases G)
  show ?thesis unfolding G
    by (rule svr.effect_mono[OF clean_sv_effect(1)[OF assms(1)]]) (use assms(2) clean_sv_effect(2,3)[OF assms(1)] in \<open>auto simp: G sv_left_def\<close>)
qed

lemma abort_sv_effect:
  assumes "sv_abort e m sem s = Some (ok, sem', t)" "sv_left f F sem G"
  shows "svr.effect G s t (sv_left f F sem')" "\<not> ok"
proof -
  obtain "\<not> ok" "pzsemaphore_clean_handle_sysv sem (sv_report_last e m s) = Some (sem', t)"
    using assms(1) by (auto simp: sv_abort_def bind_eq_Some_conv)
  then show "svr.effect G s t (sv_left f F sem')" "\<not> ok" using sv_left_clean[OF _ assms(2)] by fastforce+
qed

lemma setval_effect:
  assumes "sv_setval e sem s = Some (ok, sem', t)" "sv_left f F sem G"
  shows "svr.effect G s t (sv_left f F sem')"
proof (cases "sv_sem_created sem \<or> sv_mode sem = P_SEM_ACCESS_CREATE")
  case True
  then obtain a s1 where a: "sys_call (V_setval (sv_hdl sem) (sv_init sem)) s = Some (a, s1)"
    using assms(1) by (auto simp: sv_setval_def bind_eq_Some_conv)
  have 1: "svr.effect G s s1 (\<lambda>H. H = G)" by (rule svr.effect_talks[OF svr.talks_call[OF a]]) simp_all
  have "svr.effect G s1 t (sv_left f F sem')"
  proof (cases "a_ret a = - 1")
    case fail: True
    then have "sv_abort e V_Setval sem s1 = Some (ok, sem', t)" using assms(1) True a by (simp add: sv_setval_def)
    then show ?thesis using abort_sv_effect(1)[OF _ assms(2)] by blast
  next
    case False
    then show ?thesis using assms True a by (auto simp: sv_setval_def intro: svr.effect_refl)
  qed
  then show ?thesis by (rule svr.effect_seq[OF 1])
next
  case False
  then show ?thesis using assms by (auto simp: sv_setval_def intro: svr.effect_refl)
qed

lemma abort_reach: "sv_abort e m sem s = Some (ok, sem', t) \<Longrightarrow> \<exists>l. consumes s l t"
  using clean_sv_effect(1)[of sem "sv_report_last e m s" sem' t "{}" False False]
  by (auto simp: sv_abort_def bind_eq_Some_conv dest: svr.effect_reach)

lemma setval_reach:
  assumes "sv_setval e sem s = Some (ok, sem', t)"
  shows "\<exists>l. consumes s l t"
proof (cases "sv_sem_created sem \<or> sv_mode sem = P_SEM_ACCESS_CREATE")
  case True
  then obtain a s1 where a: "sys_call (V_setval (sv_hdl sem) (sv_init sem)) s = Some (a, s1)"
    and r: "s1 = t \<or> sv_abort e V_Setval sem s1 = Some (ok, sem', t)"
    using assms by (auto simp: sv_setval_def bind_eq_Some_conv split: if_splits)
  show ?thesis using r abort_reach[of e V_Setval sem s1] sys_callD(1)[OF a] consumes_trans by blast
qed (use assms in \<open>auto simp: sv_setval_def\<close>)

lemma create_sv_effect:
  assumes "pzsemaphore_create_handle_sysv e sem s = Some (ok, sem', t)" "sv_key sem = Some f" "SV_File f \<notin> F"
    "\<not> sv_sem_created sem" "\<not> sv_file_created sem"
  shows "svr.effect (F, False, False) s t (sv_left f F sem')"
proof -
  obtain built s1 where b: "sv_key_file (Some f) s = Some (built, s1)"
    using assms(1,2) by (auto simp: pzsemaphore_create_handle_sysv_def bind_eq_Some_conv)
  have 1: "svr.effect (F, False, False) s s1 (\<lambda>G. G = (F \<union> (if built = 0 then {SV_File f} else {}), built = 0, False))"
    using key_file_effect[OF b, of F] by (rule svr.effect_mono) simp
  let ?G = "(F \<union> (if built = 0 then {SV_File f} else {}), built = 0, False)"
  have "svr.effect ?G s1 t (sv_left f F sem')"
  proof (cases "built = - 1")
    case True
    then have "sv_abort e V_Key_File sem s1 = Some (ok, sem', t)" using assms(1,2) b by (simp add: pzsemaphore_create_handle_sysv_def)
    moreover have "sv_left f F sem ?G" using assms(2,4,5) True by (simp add: sv_left_def held_sv_def)
    ultimately show ?thesis by (rule abort_sv_effect(1))
  next
    case False
    let ?sem1 = "if built = 0 then sem\<lparr>sv_file_created := True\<rparr> else sem"
    obtain k s2 where k: "sv_ftok_key (Some f) s1 = Some (k, s2)"
      using assms(1,2) b False by (auto simp: pzsemaphore_create_handle_sysv_def Let_def bind_eq_Some_conv split: if_splits)
    let ?sem2 = "?sem1\<lparr>sv_unix_key := k\<rparr>"
    have 2: "svr.effect ?G s1 s2 (\<lambda>G. G = ?G)" by (rule svr.effect_talks[OF ftok_effect[OF k]]) simp_all
    have key: "sv_key ?sem1 = Some f" using assms(2) by simp
    have "svr.effect ?G s2 t (sv_left f F sem')"
    proof (cases "k = - 1")
      case True
      then have "sv_abort e V_Ftok ?sem2 s2 = Some (ok, sem', t)"
        using assms(1,2) b False k by (simp add: pzsemaphore_create_handle_sysv_def Let_def split: if_splits)
      moreover have "sv_left f F ?sem2 ?G" using assms(2-5) by (auto simp: sv_left_def held_sv_def)
      ultimately show ?thesis by (rule abort_sv_effect(1))
    next
      case kok: False
      then obtain sem3 s3 where g: "sv_semget e built ?sem2 s2 = Some (sem3, s3)"
        and r: "(if sv_hdl sem3 = P_SEM_INVALID_HDL_sysv then sv_abort e V_Semget sem3 s3 else sv_setval e sem3 s3) = Some (ok, sem', t)"
        using assms(1,2) b False k by (auto simp: pzsemaphore_create_handle_sysv_def Let_def bind_eq_Some_conv key split: if_splits)
      have 3: "svr.effect ?G s2 s3 (sv_left f F sem3)"
        by (rule semget_effect[OF g]) (use assms(2-5) in auto)
      show ?thesis
      proof (rule svr.effect_trans[OF 3])
        fix G assume "sv_left f F sem3 G"
        then show "svr.effect G s3 t (sv_left f F sem')"
          using r abort_sv_effect(1) setval_effect by (auto split: if_splits)
      qed (use r abort_reach setval_reach in \<open>auto split: if_splits\<close>)
    qed
    then show ?thesis by (rule svr.effect_seq[OF 2])
  qed
  then show ?thesis by (rule svr.effect_seq[OF 1])
qed

lemma session_sv_effect:
  assumes "zsemaphore_new_sysv e (Some nm) v mode s = Some (sp, s1)" "zsemaphore_free_sysv sp s1 = Some t"
    "zipc_get_platform_key (ip_be e) (ip_ipc e) (Some (nm @ P_SEM_SUFFIX)) False = Some (Some f)" "SV_File f \<notin> F"
  shows "svr.effect (F, False, False) s t (\<lambda>(A, mf, ms). A = F \<union> (if mf \<and> ms then {SV_File f} else {}))"
proof (cases "v < 0 \<or> \<not> obj_mem e \<or> \<not> name_mem e")
  case True
  then have "sp = None" "t = s1" "\<exists>c m. s1 = sv_report e c m s"
    using assms(1,2) by (auto simp: zsemaphore_new_sysv_def zsemaphore_free_sysv_def split: if_splits)
  then show ?thesis by (auto intro: svr.effect_refl)
next
  case False
  then obtain ok sem u where c: "pzsemaphore_create_handle_sysv e
      \<lparr>sv_file_created = False, sv_sem_created = False, sv_unix_key = 0, sv_key = Some f, sv_hdl = 0, sv_mode = mode, sv_init = v\<rparr> s =
      Some (ok, sem, u)" and r: "zsemaphore_free_sysv (Some sem) u = Some t"
    using assms by (auto simp: zsemaphore_new_sysv_def zsemaphore_free_sysv_def bind_eq_Some_conv split: if_splits)
  have 1: "svr.effect (F, False, False) s u (sv_left f F sem)"
    by (rule create_sv_effect[OF c]) (use assms(4) in simp_all)
  obtain sem' where cl: "pzsemaphore_clean_handle_sysv sem u = Some (sem', t)"
    using r by (auto simp: zsemaphore_free_sysv_def bind_eq_Some_conv)
  have "svr.effect (F, False, False) s t (sv_left f F sem')"
    by (rule svr.effect_trans[OF 1 sv_left_clean[OF cl]])
      (use svr.effect_reach[OF clean_sv_effect(1)[OF cl, of "{}" False False]] in auto)
  then show ?thesis
    by (rule svr.effect_mono) (auto simp: sv_left_def clean_sv_effect(2)[OF cl])
qed

text \<open>Whether an acquisition or a release succeeds, and what was done last.\<close>

lemma semop_result:
  assumes "sv_semop e sem n s = Some (r, t)"
  shows "\<exists>a. last (log t) = (V_semop (sv_hdl sem) n, a) \<and> a_ret a = r" "err t = err s"
proof -
  let ?c = "V_semop (sv_hdl sem) n"
  obtain a where a: "retry (\<lambda>a. a_ret a = - 1 \<and> errno_is e ''EINTR'' (a_errno a)) ?c s = Some (a, t)" "r = a_ret a"
    using assms by (auto simp: sv_semop_def bind_eq_Some_conv)
  obtain as where "consumes s (map (Pair ?c) as @ [(?c, a)]) t" "err t = err s" using retryD[OF a(1)] by blast
  then show "\<exists>a. last (log t) = (?c, a) \<and> a_ret a = r" "err t = err s" using a(2) by (simp_all add: consumes_def)
qed

text \<open>Errors: a function that succeeds leaves the error alone, one that fails reports.\<close>

definition sv_reports :: "ip_env \<Rightarrow> bool \<Rightarrow> sv_sys \<Rightarrow> sv_sys \<Rightarrow> bool" where
  "sv_reports e ok s t \<longleftrightarrow>
     (if ok then err t = err s else \<exists>c n m. err t = zerror_set_error_p (err_mem e) (msg_mem e) (err s) c n (Some m))"

lemma sv_reports_simps [simp]:
  "sv_reports e True s t \<longleftrightarrow> err t = err s" "err u = err s \<Longrightarrow> sv_reports e False s (sv_report e c m u)"
  "err u = err s \<Longrightarrow> sv_reports e False s (sv_report_last e m u)"
  by (auto simp: sv_reports_def sv_report_def sv_report_last_def report_def sys_env.truncate_def)

lemma sv_reports_from: "sv_reports e ok s t \<Longrightarrow> err s = err u \<Longrightarrow> sv_reports e ok u t"
  unfolding sv_reports_def by (cases ok) simp_all

lemma call_if_err: "sv_call_if b c s = Some t \<Longrightarrow> err t = err s"
  by (auto simp: sv_call_if_def split: if_splits dest: sys_callD(2))

lemma clean_err: "pzsemaphore_clean_handle_sysv sem s = Some (sem', t) \<Longrightarrow> err t = err s"
  by (auto simp: pzsemaphore_clean_handle_sysv_def bind_eq_Some_conv split: option.splits dest!: call_if_err)

lemma abort_reports: "sv_abort e m sem s = Some (ok, sem', t) \<Longrightarrow> sv_reports e ok s t"
  using clean_err[of sem "sv_report_last e m s" sem' t] sv_reports_simps(3)[of s s e m]
  by (auto simp: sv_abort_def bind_eq_Some_conv sv_reports_def simp del: sv_reports_simps)

lemma setval_reports: "sv_setval e sem s = Some (ok, sem', t) \<Longrightarrow> sv_reports e ok s t"
  by (auto simp: sv_setval_def bind_eq_Some_conv split: if_splits dest: sys_callD(2) intro: sv_reports_from abort_reports)

lemma key_file_err: "sv_key_file k s = Some (b, t) \<Longrightarrow> err t = err s"
  by (auto simp: sv_key_file_def bind_eq_Some_conv split: option.splits if_splits dest!: sys_callD(2))

lemma ftok_err: "sv_ftok_key k s = Some (b, t) \<Longrightarrow> err t = err s"
  by (auto simp: sv_ftok_key_def bind_eq_Some_conv split: option.splits if_splits dest!: sys_callD(2))

lemma semget_err: "sv_semget e b sem s = Some (sem', t) \<Longrightarrow> err t = err s"
  by (auto simp: sv_semget_def bind_eq_Some_conv split: if_splits dest!: sys_callD(2))

lemma create_reports:
  assumes "pzsemaphore_create_handle_sysv e sem s = Some (ok, sem', t)"
  shows "sv_reports e ok s t"
proof (cases "sv_key sem")
  case None
  then show ?thesis using assms by (auto simp: pzsemaphore_create_handle_sysv_def)
next
  case (Some f)
  then obtain b s1 where b: "sv_key_file (Some f) s = Some (b, s1)"
    using assms by (auto simp: pzsemaphore_create_handle_sysv_def bind_eq_Some_conv)
  have "sv_reports e ok s1 t"
    using assms Some b
    by (auto simp: pzsemaphore_create_handle_sysv_def Let_def bind_eq_Some_conv split: if_splits dest!: abort_reports setval_reports
        intro: sv_reports_from dest: ftok_err semget_err)
  then show ?thesis using key_file_err[OF b] by (rule sv_reports_from)
qed

lemma sv_result_reports:
  assumes "sv_semop e sem n s = Some (res, t)" "err s = err s0" "sv_result e res sem t = (ok, sp, t')"
  shows "(ok \<longrightarrow> sp = Some sem \<and> (\<exists>a. last (log t') = (V_semop (sv_hdl sem) n, a) \<and> a_ret a = 0)) \<and> sv_reports e ok s0 t'"
proof (cases "res = 0")
  case True
  then have "ok" "sp = Some sem" "t' = t" using assms(3) by (auto simp: sv_result_def)
  then show ?thesis using semop_result[OF assms(1)] True assms(2) by simp
next
  case False
  then have "\<not> ok" "t' = sv_report_last e V_Semop t" using assms(3) by (auto simp: sv_result_def)
  then show ?thesis using semop_result(2)[OF assms(1)] assms(2) by simp
qed

lemma acquire_result:
  assumes "zsemaphore_acquire_sysv e (Some sem) s = Some (ok, sp, t)"
  shows "(ok \<longrightarrow> (\<exists>sem1 a. sp = Some sem1 \<and> last (log t) = (V_semop (sv_hdl sem1) (- 1), a) \<and> a_ret a = 0)) \<and> sv_reports e ok s t"
proof -
  obtain res s1 where o: "sv_semop e sem (- 1) s = Some (res, s1)"
    using assms by (auto simp: zsemaphore_acquire_sysv_def bind_eq_Some_conv)
  show ?thesis
  proof (cases "sv_gone e res s1")
    case False
    then have "sv_result e res sem s1 = (ok, sp, t)" using assms o by (simp add: zsemaphore_acquire_sysv_def)
    then show ?thesis using sv_result_reports[OF o refl] by blast
  next
    case True
    then obtain sem1 s2 ok2 sem2 s3 where c: "pzsemaphore_clean_handle_sysv sem s1 = Some (sem1, s2)"
        "pzsemaphore_create_handle_sysv e sem1 s2 = Some (ok2, sem2, s3)"
      using assms o by (auto simp: zsemaphore_acquire_sysv_def bind_eq_Some_conv)
    have same: "err s2 = err s" using clean_err[OF c(1)] semop_result(2)[OF o] by simp
    note rep = sv_reports_from[OF create_reports[OF c(2)] same]
    show ?thesis
    proof (cases ok2)
      case False
      then have "\<not> ok" "t = s3" using assms o True c by (auto simp: zsemaphore_acquire_sysv_def)
      then show ?thesis using rep False by simp
    next
      case ok2: True
      then obtain res2 s4 where o2: "sv_semop e sem2 (- 1) s3 = Some (res2, s4)" "sv_result e res2 sem2 s4 = (ok, sp, t)"
        using assms o True c by (auto simp: zsemaphore_acquire_sysv_def bind_eq_Some_conv)
      have "err s3 = err s" using rep ok2 by simp
      then show ?thesis using sv_result_reports[OF o2(1) _ o2(2)] by blast
    qed
  qed
qed

lemma release_result:
  assumes "zsemaphore_release_sysv e (Some sem) s = Some (ok, sp, t)"
  shows "(ok \<longrightarrow> (\<exists>sem1. sp = Some sem1 \<and> ((\<exists>a. sem1 = sem \<and> last (log t) = (V_semop (sv_hdl sem) 1, a) \<and> a_ret a = 0) \<or>
       (\<exists>sem0 u. pzsemaphore_create_handle_sysv e sem0 u = Some (True, sem1, t))))) \<and> sv_reports e ok s t"
proof -
  obtain res s1 where o: "sv_semop e sem 1 s = Some (res, s1)"
    using assms by (auto simp: zsemaphore_release_sysv_def bind_eq_Some_conv)
  show ?thesis
  proof (cases "sv_gone e res s1")
    case False
    then have "sv_result e res sem s1 = (ok, sp, t)" using assms o by (simp add: zsemaphore_release_sysv_def)
    from sv_result_reports[OF o refl this] show ?thesis by auto
  next
    case True
    then obtain sem1 s2 sem2 where c: "pzsemaphore_clean_handle_sysv sem s1 = Some (sem1, s2)"
        "pzsemaphore_create_handle_sysv e sem1 s2 = Some (ok, sem2, t)" "sp = Some sem2"
      using assms o by (auto simp: zsemaphore_release_sysv_def bind_eq_Some_conv)
    have "err s2 = err s" using clean_err[OF c(1)] semop_result(2)[OF o] by simp
    then show ?thesis using sv_reports_from[OF create_reports[OF c(2)]] c(2,3) by auto
  qed
qed

section \<open>Correctness\<close>


text \<open>
  An acquisition that finds its semaphore gone makes or opens it again. When it succeeds, the last thing that was done is a wait on the semaphore
  of the returned object that the system granted, and no error is reported; when it fails, be it in making the semaphore again, an error is
  reported. A release reports in the same way; it succeeds when the system granted it, or when the semaphore had to be made
  or opened again, and then without an operation on the new one.
\<close>

theorem semaphore_sysv_recovers:
  assumes "zsemaphore_acquire_sysv e (Some sem) s = Some (ok, sp, t)" "zsemaphore_release_sysv e (Some sem) s' = Some (ok', sp', t')"
  shows "(ok \<longrightarrow> (\<exists>sem1 a. sp = Some sem1 \<and> last (log t) = (V_semop (sv_hdl sem1) (- 1), a) \<and> a_ret a = 0)) \<and> sv_reports e ok s t \<and>
    (ok' \<longrightarrow> (\<exists>sem1. sp' = Some sem1 \<and> ((\<exists>a. sem1 = sem \<and> last (log t') = (V_semop (sv_hdl sem) 1, a) \<and> a_ret a = 0) \<or>
       (\<exists>sem0 u. pzsemaphore_create_handle_sysv e sem0 u = Some (True, sem1, t'))))) \<and> sv_reports e ok' s' t'"
  using acquire_result[OF assms(1)] release_result[OF assms(2)] by blast

text \<open>The witnesses: the first process to use a name leaves its key file; and a semaphore that another process removed.\<close>

definition sv_start :: "answer list \<Rightarrow> sv_sys" where
  "sv_start as = \<lparr>todo = as, log = [], errno = 0, err = Some None\<rparr>"

lemma sv_sample_key:
  assumes "length s < 2 ^ 32"
  obtains k where "zipc_get_platform_key (ip_be ip_env_sample) (ip_ipc ip_env_sample) (Some s) False = Some (Some k)"
  using ipc_platform_key[OF assms, of ipc_env_linux "''/tmp''" False] by (auto simp: ip_env_sample_def ipc_env_linux_def strip_end_def)


definition sv_env :: ip_env where
  "sv_env = ip_env_sample\<lparr>names := (\<lambda>x. if x = ''EIDRM'' then Some 43 else if x = ''EINTR'' then Some 4 else None)\<rparr>"

definition sv_example :: PSemaphoreSysV where
  "sv_example = \<lparr>sv_file_created = False, sv_sem_created = False, sv_unix_key = 42, sv_key = Some ''/k'', sv_hdl = 5,
     sv_mode = P_SEM_ACCESS_OPEN, sv_init = 1\<rparr>"

theorem semaphore_sysv_recovers_witness:
  "\<exists>sem1 t. zsemaphore_acquire_sysv sv_env (Some sv_example)
       (sv_start [reply (- 1) 4, reply (- 1) 43, reply (- 1) 17, reply 0 0, reply 42 0, reply 6 0, reply 0 0, reply 0 0]) = Some (True, Some sem1, t) \<and>
     sv_hdl sem1 = 6 \<and> (\<exists>a. last (log t) = (V_semop 6 (- 1), a) \<and> a_ret a = 0) \<and> err t = Some None"
proof -
  let ?s = "sv_start [reply (- 1) 4, reply (- 1) 43, reply (- 1) 17, reply 0 0, reply 42 0, reply 6 0, reply 0 0, reply 0 0]"
  let ?s' = "sv_start [reply 0 0]"
  note defs = sv_semop_def retry.simps sv_gone_def sv_result_def errno_is_def zerror_get_last_system_def sv_env_def sv_example_def sv_start_def
    reply_def P_SEM_INVALID_HDL_sysv_def
  obtain sem1 t where a: "zsemaphore_acquire_sysv sv_env (Some sv_example) ?s = Some (True, Some sem1, t)" "sv_hdl sem1 = 6"
    by (simp add: zsemaphore_acquire_sysv_def pzsemaphore_clean_handle_sysv_def sv_call_if_def pzsemaphore_create_handle_sysv_def sv_key_file_def
        zipc_unix_create_key_file_def EEXIST_def sv_ftok_key_def zipc_unix_get_ftok_key_def sv_semget_def sv_setval_def Let_def defs)
  obtain r where r: "zsemaphore_release_sysv sv_env (Some sv_example) ?s' = Some r"
    by (simp add: zsemaphore_release_sysv_def defs)
  obtain ok' sp' t' where r': "zsemaphore_release_sysv sv_env (Some sv_example) ?s' = Some (ok', sp', t')" using r by (cases r) auto
  from semaphore_sysv_recovers[OF a(1) r'] a show ?thesis by (auto simp: sv_start_def)
qed

end
