(* ===== verification/PShm_SysV.thy ===== *)
theory PShm_SysV
  imports PSemaphore_SysV PShm
begin

text \<open>
  System V segments of shared memory, \<^verbatim>\<open>src/src/tmp/pshm-sysv.c\<close>, with a System V semaphore in each object. Addresses are numbers, 0
  for null; \<^verbatim>\<open>shmat\<close> returns \<open>-1\<close> when it fails.
\<close>

section \<open>Types\<close>

record PShmSysV =
  sh_file_created :: bool
  sh_unix_key :: int
  sh_key :: "string option"
  sh_hdl :: int
  sh_addr :: int
  sh_size :: psize
  sh_sem :: "PSemaphoreSysV option"
  sh_perms :: PShmAccessPerms

definition P_SHM_INVALID_HDL_sysv :: int where "P_SHM_INVALID_HDL_sysv = - 1"

datatype sh_msg = H_Argument | H_Key_File | H_Ftok | H_Shmget | H_Shmctl | H_Shmat | H_Memory | H_Name

primrec sh_text :: "sh_msg \<Rightarrow> string" where
  "sh_text H_Argument = ''Invalid input argument''"
| "sh_text H_Key_File = ''Failed to create key file''"
| "sh_text H_Ftok = ''Failed to get unique IPC key''"
| "sh_text H_Shmget = ''Failed to call shmget() to create memory segment''"
| "sh_text H_Shmctl = ''Failed to call shmctl() to get memory segment size''"
| "sh_text H_Shmat = ''Failed to call shmat() to attach to the memory segment''"
| "sh_text H_Memory = ''Failed to allocate memory for shared segment''"
| "sh_text H_Name = ''Failed to allocate memory for segment name''"

definition sh_report :: "ip_env \<Rightarrow> int \<Rightarrow> sh_msg \<Rightarrow> sv_sys \<Rightarrow> sv_sys" where
  "sh_report e c m s = report (sys_env.truncate e) c 0 (sh_text m) s"

definition sh_report_last :: "ip_env \<Rightarrow> sh_msg \<Rightarrow> sv_sys \<Rightarrow> sv_sys" where
  "sh_report_last e m s =
     report (sys_env.truncate e) (zerror_get_last_ipc (names e) (errno s)) (zerror_get_last_system (errno s)) (sh_text m) s"

section \<open>Operations\<close>

text \<open>
  The number of attached processes is read from a structure that is not written when \<^verbatim>\<open>shmctl\<close> fails; the value of an answer is
  arbitrary then. A key file is removed only of an object that has a key: without one there is no result.
\<close>

definition sh_detach :: "PShmSysV \<Rightarrow> sv_sys \<Rightarrow> sv_sys option" where
  "sh_detach shm s =
     (if sh_addr shm \<noteq> 0
      then do {
        (a, s1) \<leftarrow> sys_call (V_shmdt (sh_addr shm)) s;
        (b, s2) \<leftarrow> sys_call (V_shmstat (sh_hdl shm)) s1;
        sv_call_if (a_val b = 0) (V_shm_rmid (sh_hdl shm)) s2
      }
      else Some s)"

definition pzshm_clean_handle_sysv :: "PShmSysV \<Rightarrow> sv_sys \<Rightarrow> (PShmSysV \<times> sv_sys) option" where
  "pzshm_clean_handle_sysv shm s = do {
     s1 \<leftarrow> sh_detach shm s;
     s2 \<leftarrow> (if sh_file_created shm then case sh_key shm of None \<Rightarrow> None | Some f \<Rightarrow> sv_call_if True (V_unlink f) s1 else Some s1);
     s3 \<leftarrow> zsemaphore_free_sysv (sh_sem shm) s2;
     Some (shm\<lparr>sh_sem := None, sh_file_created := False, sh_unix_key := - 1, sh_hdl := P_SHM_INVALID_HDL_sysv, sh_addr := 0, sh_size := 0\<rparr>, s3)
   }"

definition sh_abort :: "ip_env \<Rightarrow> sh_msg \<Rightarrow> PShmSysV \<Rightarrow> sv_sys \<Rightarrow> (bool \<times> PShmSysV \<times> sv_sys) option" where
  "sh_abort e m shm s = do {
     (shm1, s1) \<leftarrow> pzshm_clean_handle_sysv shm (sh_report_last e m s);
     Some (False, shm1, s1)
   }"

text \<open>The segment is made, or the one that exists is found; the flag of the result says that it existed.\<close>

definition sh_shmget :: "ip_env \<Rightarrow> int \<Rightarrow> PShmSysV \<Rightarrow> sv_sys \<Rightarrow> (bool \<times> PShmSysV \<times> sv_sys) option" where
  "sh_shmget e built shm s = do {
     let ro = (sh_perms shm = P_SHM_ACCESS_READONLY);
     (a, s1) \<leftarrow> sys_call (V_shmget (sh_unix_key shm) (sh_size shm) True ro) s;
     if a_ret a = P_SHM_INVALID_HDL_sysv
     then if errno_is e ''EEXIST'' (errno s1)
          then do { (b, s2) \<leftarrow> sys_call (V_shmget (sh_unix_key shm) 0 False ro) s1; Some (True, shm\<lparr>sh_hdl := a_ret b\<rparr>, s2) }
          else Some (False, shm\<lparr>sh_hdl := a_ret a\<rparr>, s1)
     else Some (False, shm\<lparr>sh_hdl := a_ret a, sh_file_created := (built = 1)\<rparr>, s1)
   }"

text \<open>From the size on; \<open>e2\<close> has the outcomes of the allocations for the semaphore.\<close>

definition sh_attach :: "ip_env \<Rightarrow> ip_env \<Rightarrow> bool \<Rightarrow> PShmSysV \<Rightarrow> sv_sys \<Rightarrow> (bool \<times> PShmSysV \<times> sv_sys) option" where
  "sh_attach e e2 is_exists shm s = do {
     (a, s1) \<leftarrow> sys_call (V_shmstat (sh_hdl shm)) s;
     if a_ret a = - 1 then sh_abort e H_Shmctl shm s1
     else do {
       let shm1 = shm\<lparr>sh_size := word_of_int (a_val a)\<rparr>;
       (b, s2) \<leftarrow> sys_call (V_shmat (sh_hdl shm1) (sh_perms shm1 = P_SHM_ACCESS_READONLY)) s1;
       let shm2 = shm1\<lparr>sh_addr := a_ret b\<rparr>;
       if a_ret b = - 1 then sh_abort e H_Shmat shm2 s2
       else do {
         (sp, s3) \<leftarrow> zsemaphore_new_sysv e2 (sh_key shm2) 1 (if is_exists then P_SEM_ACCESS_OPEN else P_SEM_ACCESS_CREATE) s2;
         let shm3 = shm2\<lparr>sh_sem := sp\<rparr>;
         if sp = None then do { (shm4, s4) \<leftarrow> pzshm_clean_handle_sysv shm3 s3; Some (False, shm4, s4) }
         else Some (True, shm3, s3)
       }
     }
   }"

definition pzshm_create_handle_sysv :: "ip_env \<Rightarrow> ip_env \<Rightarrow> PShmSysV \<Rightarrow> sv_sys \<Rightarrow> (bool \<times> PShmSysV \<times> sv_sys) option" where
  "pzshm_create_handle_sysv e e2 shm s =
     (if sh_key shm = None then Some (False, shm, sh_report e P_ERROR_IPC_INVALID_ARGUMENT H_Argument s)
      else do {
        (built, s1) \<leftarrow> sv_key_file (sh_key shm) s;
        if built = - 1 then sh_abort e H_Key_File shm s1
        else do {
          let shm1 = (if built = 0 then shm\<lparr>sh_file_created := True\<rparr> else shm);
          (k, s2) \<leftarrow> sv_ftok_key (sh_key shm1) s1;
          let shm2 = shm1\<lparr>sh_unix_key := k\<rparr>;
          if k = - 1 then sh_abort e H_Ftok shm2 s2
          else do {
            (is_exists, shm3, s3) \<leftarrow> sh_shmget e built shm2 s2;
            if sh_hdl shm3 = P_SHM_INVALID_HDL_sysv then sh_abort e H_Shmget shm3 s3 else sh_attach e e2 is_exists shm3 s3
          }
        }
      })"

definition zshm_free_sysv :: "PShmSysV option \<Rightarrow> sv_sys \<Rightarrow> sv_sys option" where
  "zshm_free_sysv sp s =
     (case sp of None \<Rightarrow> Some s | Some shm \<Rightarrow> do { (shm', t) \<leftarrow> pzshm_clean_handle_sysv shm s; Some t })"

definition zshm_new_sysv ::
    "ip_env \<Rightarrow> ip_env \<Rightarrow> string option \<Rightarrow> psize \<Rightarrow> PShmAccessPerms \<Rightarrow> sv_sys \<Rightarrow> (PShmSysV option \<times> sv_sys) option" where
  "zshm_new_sysv e e2 name size_arg perms s =
     (case name of
        None \<Rightarrow> Some (None, sh_report e P_ERROR_IPC_INVALID_ARGUMENT H_Argument s)
      | Some nm \<Rightarrow>
          if \<not> obj_mem e then Some (None, sh_report e P_ERROR_IPC_NO_RESOURCES H_Memory s)
          else do {
            let ret = \<lparr>sh_file_created = False, sh_unix_key = 0, sh_key = None, sh_hdl = 0, sh_addr = 0, sh_size = 0, sh_sem = None,
              sh_perms = P_SHM_ACCESS_READONLY\<rparr>;
            if \<not> name_mem e then do {
              s1 \<leftarrow> zshm_free_sysv (Some ret) (sh_report e P_ERROR_IPC_NO_RESOURCES H_Name s);
              Some (None, s1)
            }
            else do {
              key \<leftarrow> zipc_get_platform_key (ip_be e) (ip_ipc e) (Some (nm @ P_SHM_SUFFIX)) False;
              (ok, shm, s1) \<leftarrow> pzshm_create_handle_sysv e e2 (ret\<lparr>sh_key := key, sh_perms := perms, sh_size := size_arg\<rparr>) s;
              if \<not> ok then do { s2 \<leftarrow> zshm_free_sysv (Some shm) s1; Some (None, s2) }
              else Some (Some (if sh_size shm > size_arg \<and> size_arg \<noteq> 0 then shm\<lparr>sh_size := size_arg\<rparr> else shm), s1)
            }
          })"

definition zshm_take_ownership_sysv :: "PShmSysV option \<Rightarrow> PShmSysV option" where
  "zshm_take_ownership_sysv sp =
     map_option (\<lambda>shm. shm\<lparr>sh_file_created := True, sh_sem := zsemaphore_take_ownership_sysv (sh_sem shm)\<rparr>) sp"

definition zshm_lock_sysv :: "ip_env \<Rightarrow> PShmSysV option \<Rightarrow> sv_sys \<Rightarrow> (bool \<times> PShmSysV option \<times> sv_sys) option" where
  "zshm_lock_sysv e sp s =
     (case sp of
        None \<Rightarrow> Some (False, None, sh_report e P_ERROR_IPC_INVALID_ARGUMENT H_Argument s)
      | Some shm \<Rightarrow> do { (r, sem, t) \<leftarrow> zsemaphore_acquire_sysv e (sh_sem shm) s; Some (r, Some (shm\<lparr>sh_sem := sem\<rparr>), t) })"

definition zshm_unlock_sysv :: "ip_env \<Rightarrow> PShmSysV option \<Rightarrow> sv_sys \<Rightarrow> (bool \<times> PShmSysV option \<times> sv_sys) option" where
  "zshm_unlock_sysv e sp s =
     (case sp of
        None \<Rightarrow> Some (False, None, sh_report e P_ERROR_IPC_INVALID_ARGUMENT H_Argument s)
      | Some shm \<Rightarrow> do { (r, sem, t) \<leftarrow> zsemaphore_release_sysv e (sh_sem shm) s; Some (r, Some (shm\<lparr>sh_sem := sem\<rparr>), t) })"

definition zshm_get_address_sysv :: "PShmSysV option \<Rightarrow> int" where
  "zshm_get_address_sysv sp = (case sp of None \<Rightarrow> 0 | Some shm \<Rightarrow> sh_addr shm)"

definition zshm_get_size_sysv :: "PShmSysV option \<Rightarrow> psize" where
  "zshm_get_size_sysv sp = (case sp of None \<Rightarrow> 0 | Some shm \<Rightarrow> sh_size shm)"

section \<open>Attachments\<close>

text \<open>The addresses at which segments are attached, and whether an attachment has failed.\<close>

type_synonym at_state = "int set \<times> bool"

fun at_step :: "at_state \<Rightarrow> sv_call \<times> answer \<Rightarrow> at_state" where
  "at_step (F, bad) (V_shmat h ro, a) = (if a_ret a = - 1 then (F, True) else (insert (a_ret a) F, bad))"
| "at_step (F, bad) (V_shmdt x, a) = (if a_ret a = 0 then F - {x} else F, bad)"
| "at_step F x = F"

text \<open>A segment is attached at a new address, which is not null, and what is attached can be detached.\<close>

fun at_sane :: "at_state \<Rightarrow> sv_call \<times> answer \<Rightarrow> bool" where
  "at_sane (F, bad) (V_shmat h ro, a) \<longleftrightarrow> a_ret a \<notin> F \<and> a_ret a \<noteq> 0"
| "at_sane (F, bad) (V_shmdt x, a) \<longleftrightarrow> (x \<in> F \<longrightarrow> a_ret a = 0)"
| "at_sane F x \<longleftrightarrow> True"

text \<open>Only what is attached is detached; but after a failure also the address \<open>-1\<close>.\<close>

fun at_proper :: "at_state \<Rightarrow> sv_call \<times> answer \<Rightarrow> bool" where
  "at_proper (F, bad) (V_shmdt x, a) \<longleftrightarrow> x \<in> F \<or> bad \<and> x = - 1"
| "at_proper F x \<longleftrightarrow> True"

fun at_quiet :: "unit \<Rightarrow> sv_call \<Rightarrow> bool" where
  "at_quiet k (V_shmat h ro) \<longleftrightarrow> False"
| "at_quiet k (V_shmdt x) \<longleftrightarrow> False"
| "at_quiet k c \<longleftrightarrow> True"

interpretation at: resource_log at_step at_sane at_proper at_quiet "\<lambda>k F. True"
proof
  fix k F and x :: "sv_call \<times> answer"
  assume "at_quiet k (fst x)"
  then show "at_step F x = F" "at_proper F x" by (cases F; cases x; cases "fst x"; auto)+
qed

lemma at_report [simp]:
  "at.talks k s (sv_report e c m t) = at.talks k s t" "at.talks k s (sv_report_last e n t) = at.talks k s t"
  "at.talks k (sv_report_last e n s) t = at.talks k s t"
  "at.talks k s (sh_report e c i t) = at.talks k s t" "at.talks k (sh_report_last e i s) t = at.talks k s t"
  by (simp_all add: sv_report_def sv_report_last_def sh_report_def sh_report_last_def report_def)

lemma at_effect_report [simp]:
  "at.effect F s (sh_report e c m t) Q = at.effect F s t Q" "at.effect F (sh_report_last e m s) t Q = at.effect F s t Q"
  by (simp_all add: sh_report_def sh_report_last_def report_def)

text \<open>The key file and the semaphore have nothing to do with attachments.\<close>

lemma at_call_if: "sv_call_if b c s = Some t \<Longrightarrow> at_quiet k c \<Longrightarrow> at.talks k s t"
  by (auto simp: sv_call_if_def split: if_splits intro: at.talks_call)

lemma at_key_file:
  assumes "sv_key_file q s = Some (b, t)"
  shows "at.talks k s t"
proof (cases q)
  case (Some f)
  then obtain a s1 where a: "sys_call (V_open f) s = Some (a, s1)" "t = s1 \<or> (\<exists>b. sys_call (V_close (a_ret a)) s1 = Some (b, t))"
    using assms by (auto simp: sv_key_file_def bind_eq_Some_conv split: if_splits)
  then show ?thesis using at.talks_call[OF a(1), of k] at.talks_call2[OF a(1), of _ _ t k] by auto
qed (use assms in \<open>simp add: sv_key_file_def\<close>)

lemma at_ftok:
  assumes "sv_ftok_key q s = Some (b, t)"
  shows "at.talks k s t"
proof (cases q)
  case (Some f)
  then obtain a s1 where a: "sys_call (V_stat f) s = Some (a, s1)" "t = s1 \<or> (\<exists>b. sys_call (V_ftok f) s1 = Some (b, t))"
    using assms by (auto simp: sv_ftok_key_def bind_eq_Some_conv split: if_splits)
  then show ?thesis using at.talks_call[OF a(1), of k] at.talks_call2[OF a(1), of _ _ t k] by auto
qed (use assms in \<open>simp add: sv_ftok_key_def\<close>)

lemma at_semget:
  assumes "sv_semget e built sem s = Some (sem', t)"
  shows "at.talks k s t"
proof -
  obtain a s1 where a: "sys_call (V_semget (sv_unix_key sem) True) s = Some (a, s1)"
      "t = s1 \<or> (\<exists>b. sys_call (V_semget (sv_unix_key sem) False) s1 = Some (b, t))"
    using assms by (auto simp: sv_semget_def bind_eq_Some_conv split: if_splits)
  then show ?thesis using at.talks_call[OF a(1), of k] at.talks_call2[OF a(1), of _ _ t k] by auto
qed

lemma at_clean_sem:
  assumes "pzsemaphore_clean_handle_sysv sem s = Some (sem', t)"
  shows "at.talks k s t"
proof -
  obtain s1 where "sv_call_if (sv_hdl sem \<noteq> P_SEM_INVALID_HDL_sysv \<and> sv_sem_created sem) (V_rmid (sv_hdl sem)) s = Some s1"
      "(case sv_key sem of None \<Rightarrow> Some s1 | Some f \<Rightarrow> sv_call_if (sv_file_created sem) (V_unlink f) s1) = Some t"
    using assms by (auto simp: pzsemaphore_clean_handle_sysv_def bind_eq_Some_conv)
  then have "at.talks k s s1" "at.talks k s1 t" by (auto split: option.splits dest: at_call_if[of _ _ _ _ k])
  then show ?thesis by (rule at.talks_trans)
qed

lemma at_abort_sem: "sv_abort e m sem s = Some (ok, sem', t) \<Longrightarrow> at.talks k s t"
  by (auto simp: sv_abort_def bind_eq_Some_conv dest: at_clean_sem[where k = k])

lemma at_setval:
  assumes "sv_setval e sem s = Some (ok, sem', t)"
  shows "at.talks k s t"
proof (cases "sv_sem_created sem \<or> sv_mode sem = P_SEM_ACCESS_CREATE")
  case True
  then obtain a s1 where a: "sys_call (V_setval (sv_hdl sem) (sv_init sem)) s = Some (a, s1)"
      "t = s1 \<or> sv_abort e V_Setval sem s1 = Some (ok, sem', t)"
    using assms by (auto simp: sv_setval_def bind_eq_Some_conv split: if_splits)
  then show ?thesis using at.talks_call[OF a(1), of k] at.talks_trans at_abort_sem by auto
qed (use assms in \<open>simp add: sv_setval_def\<close>)

lemma at_create_sem:
  assumes "pzsemaphore_create_handle_sysv e sem s = Some (ok, sem', t)"
  shows "at.talks k s t"
proof (cases "sv_key sem = None")
  case False
  then obtain b s1 where b: "sv_key_file (sv_key sem) s = Some (b, s1)"
    using assms by (auto simp: pzsemaphore_create_handle_sysv_def bind_eq_Some_conv)
  have "at.talks k s1 t"
  proof (cases "b = - 1")
    case True
    then show ?thesis using assms False b at_abort_sem by (auto simp: pzsemaphore_create_handle_sysv_def)
  next
    case nb: False
    then obtain q s2 where q: "sv_ftok_key (sv_key sem) s1 = Some (q, s2)"
      using assms False b by (auto simp: pzsemaphore_create_handle_sysv_def Let_def bind_eq_Some_conv split: if_splits)
    have "at.talks k s2 t"
      using assms False b nb q at.talks_trans[OF at_semget] at_abort_sem at_setval
      by (fastforce simp: pzsemaphore_create_handle_sysv_def Let_def bind_eq_Some_conv split: if_splits)
    then show ?thesis by (rule at.talks_trans[OF at_ftok[OF q]])
  qed
  then show ?thesis by (rule at.talks_trans[OF at_key_file[OF b]])
qed (use assms in \<open>auto simp: pzsemaphore_create_handle_sysv_def\<close>)

lemma at_free_sem: "zsemaphore_free_sysv sp s = Some t \<Longrightarrow> at.talks k s t"
  by (auto simp: zsemaphore_free_sysv_def bind_eq_Some_conv split: option.splits dest: at_clean_sem[where k = k])

lemma at_new_sem:
  assumes "zsemaphore_new_sysv e name v mode s = Some (sp, t)"
  shows "at.talks k s t"
  using assms at_create_sem[where k = k] at.talks_trans[OF at_create_sem at_free_sem]
  by (fastforce simp: zsemaphore_new_sysv_def bind_eq_Some_conv split: option.splits if_splits)

text \<open>What the object will detach.\<close>

definition at_held :: "PShmSysV \<Rightarrow> int set" where
  "at_held shm = (if sh_addr shm = 0 then {} else {sh_addr shm})"

text \<open>The address is attached and nothing else is new, or it is \<open>-1\<close> after a failure.\<close>

definition at_ok :: "int set \<Rightarrow> PShmSysV \<Rightarrow> at_state \<Rightarrow> bool" where
  "at_ok F shm G \<longleftrightarrow>
     fst G = F \<union> (at_held shm - {- 1}) \<and> (at_held shm - {- 1}) \<inter> F = {} \<and> (sh_addr shm = - 1 \<longrightarrow> snd G)"

lemma at_ok_upd [simp]: "at_ok F (shm\<lparr>sh_sem := x\<rparr>) = at_ok F shm" "at_ok F (shm\<lparr>sh_size := m\<rparr>) = at_ok F shm"
  by (simp_all add: at_ok_def at_held_def fun_eq_iff)

lemma clean_addr: "pzshm_clean_handle_sysv shm s = Some (shm', t) \<Longrightarrow> sh_addr shm' = 0"
  by (auto simp: pzshm_clean_handle_sysv_def bind_eq_Some_conv)

lemma at_detach:
  assumes "sh_detach shm s = Some t" "at_ok F shm G" "- 1 \<notin> F"
  shows "at.effect G s t (\<lambda>H. fst H = F)"
proof (cases "sh_addr shm = 0")
  case True
  then show ?thesis using assms by (auto simp: sh_detach_def at_ok_def at_held_def intro: at.effect_refl)
next
  case False
  then obtain a s1 b s2 where a: "sys_call (V_shmdt (sh_addr shm)) s = Some (a, s1)" "sys_call (V_shmstat (sh_hdl shm)) s1 = Some (b, s2)"
      "sv_call_if (a_val b = 0) (V_shm_rmid (sh_hdl shm)) s2 = Some t"
    using assms(1) by (auto simp: sh_detach_def bind_eq_Some_conv)
  obtain A bad where G: "G = (A, bad)" by (cases G)
  have 1: "at.effect G s s1 (\<lambda>H. fst H = F)"
    by (rule at.effect_call[OF a(1)]) (use assms(2,3) False in \<open>auto simp: G at_ok_def at_held_def\<close>)
  have q: "at.talks () s1 t" by (rule at.talks_call_then[OF a(2) _ at_call_if[OF a(3)]]) simp_all
  show ?thesis
    by (rule at.effect_trans[OF 1]) (use at.effect_talks[OF q] at.talks_reach[OF q] in auto)
qed

lemma at_clean:
  assumes "pzshm_clean_handle_sysv shm s = Some (shm', t)" "at_ok F shm G" "- 1 \<notin> F"
  shows "at.effect G s t (at_ok F shm')" "sh_addr shm' = 0"
proof -
  obtain s1 s2 where d: "sh_detach shm s = Some s1"
      "(if sh_file_created shm then case sh_key shm of None \<Rightarrow> None | Some f \<Rightarrow> sv_call_if True (V_unlink f) s1 else Some s1) = Some s2"
      "zsemaphore_free_sysv (sh_sem shm) s2 = Some t" and z: "sh_addr shm' = 0"
    using assms(1) by (auto simp: pzshm_clean_handle_sysv_def bind_eq_Some_conv)
  show "sh_addr shm' = 0" by (rule z)
  have "at.talks () s1 s2" using d(2) by (auto split: if_splits option.splits intro: at_call_if)
  then have q: "at.talks () s1 t" by (rule at.talks_trans[OF _ at_free_sem[OF d(3)]])
  have "at.effect G s t (\<lambda>H. fst H = F)"
    by (rule at.effect_trans[OF at_detach[OF d(1) assms(2,3)]]) (use at.effect_talks[OF q] at.talks_reach[OF q] in auto)
  then show "at.effect G s t (at_ok F shm')" by (rule at.effect_mono) (simp add: at_ok_def at_held_def z)
qed

lemma at_clean_reach: "pzshm_clean_handle_sysv shm s = Some (shm', t) \<Longrightarrow> \<exists>l. consumes s l t"
  using at.effect_reach[OF at_clean(1)[of shm s shm' t "{}" "(at_held shm - {- 1}, True)"]] by (auto simp: at_ok_def)

lemma at_abort:
  assumes "sh_abort e m shm s = Some (ok, shm', t)" "at_ok F shm G" "- 1 \<notin> F"
  shows "at.effect G s t (at_ok F shm') \<and> (\<not> ok \<longrightarrow> sh_addr shm' = 0)"
proof -
  have "pzshm_clean_handle_sysv shm (sh_report_last e m s) = Some (shm', t)"
    using assms(1) by (auto simp: sh_abort_def bind_eq_Some_conv)
  then show ?thesis using at_clean[OF _ assms(2,3)] by fastforce
qed

lemma at_shmget:
  assumes "sh_shmget e built shm s = Some (x, shm', t)"
  shows "at.talks () s t" "sh_addr shm' = sh_addr shm"
proof -
  obtain a s1 where a: "sys_call (V_shmget (sh_unix_key shm) (sh_size shm) True (sh_perms shm = P_SHM_ACCESS_READONLY)) s = Some (a, s1)"
      "t = s1 \<or> (\<exists>b. sys_call (V_shmget (sh_unix_key shm) 0 False (sh_perms shm = P_SHM_ACCESS_READONLY)) s1 = Some (b, t))"
      "sh_addr shm' = sh_addr shm"
    using assms by (auto simp: sh_shmget_def Let_def bind_eq_Some_conv split: if_splits)
  show "sh_addr shm' = sh_addr shm" by (rule a(3))
  show "at.talks () s t" using at.talks_call[OF a(1), of "()"] at.talks_call2[OF a(1), of _ _ t "()"] a(2) by auto
qed

lemma at_attach:
  assumes "sh_attach e e2 x shm s = Some (ok, shm', t)" "sh_addr shm = 0" "- 1 \<notin> F" "fst G = F"
  shows "at.effect G s t (at_ok F shm')"
proof -
  obtain a s1 where a: "sys_call (V_shmstat (sh_hdl shm)) s = Some (a, s1)" using assms(1) by (auto simp: sh_attach_def bind_eq_Some_conv)
  have 1: "at.effect G s s1 (\<lambda>H. H = G)" by (rule at.effect_talks[OF at.talks_call[OF a]]) simp_all
  have "at.effect G s1 t (at_ok F shm')"
  proof (cases "a_ret a = - 1")
    case True
    then have "sh_abort e H_Shmctl shm s1 = Some (ok, shm', t)" using assms(1) a by (simp add: sh_attach_def)
    then show ?thesis using at_abort[of e H_Shmctl shm s1 ok shm' t F G] assms(2-4) by (simp add: at_ok_def at_held_def)
  next
    case False
    define shm1 where "shm1 = shm\<lparr>sh_size := word_of_int (a_val a)\<rparr>"
    obtain b s2 where b: "sys_call (V_shmat (sh_hdl shm1) (sh_perms shm1 = P_SHM_ACCESS_READONLY)) s1 = Some (b, s2)"
      using assms(1) a False by (auto simp: sh_attach_def shm1_def Let_def bind_eq_Some_conv)
    define shm2 where "shm2 = shm1\<lparr>sh_addr := a_ret b\<rparr>"
    have 2: "at.effect G s1 s2 (at_ok F shm2)"
      by (rule at.effect_call[OF b]) (use assms(3,4) in \<open>cases G; auto simp: at_ok_def at_held_def shm2_def\<close>)
    show ?thesis
    proof (cases "a_ret b = - 1")
      case True
      then have ab: "sh_abort e H_Shmat shm2 s2 = Some (ok, shm', t)"
        using assms(1) a False b by (simp add: sh_attach_def Let_def shm1_def shm2_def)
      then have "\<exists>l. consumes s2 l t" using at_clean_reach[of shm2 "sh_report_last e H_Shmat s2"]
        by (auto simp: sh_abort_def bind_eq_Some_conv sh_report_last_def)
      then show ?thesis using at.effect_trans[OF 2] at_abort[OF ab _ assms(3)] by blast
    next
      case ok: False
      obtain sp s3 where n: "zsemaphore_new_sysv e2 (sh_key shm2) 1 (if x then P_SEM_ACCESS_OPEN else P_SEM_ACCESS_CREATE) s2 = Some (sp, s3)"
        and r: "(if sp = None then do { (shm4, s4) \<leftarrow> pzshm_clean_handle_sysv (shm2\<lparr>sh_sem := sp\<rparr>) s3; Some (False, shm4, s4) }
           else Some (True, shm2\<lparr>sh_sem := sp\<rparr>, s3)) = Some (ok, shm', t)"
        using assms(1) a False b ok unfolding shm1_def shm2_def by (auto simp: sh_attach_def Let_def bind_eq_Some_conv)
      have 3: "at.effect H s2 s3 (at_ok F (shm2\<lparr>sh_sem := sp\<rparr>))" if "at_ok F shm2 H" for H
        using that by (intro at.effect_talks[OF at_new_sem[OF n]]) simp_all
      have 4: "at.effect H s3 t (at_ok F shm')" if "at_ok F (shm2\<lparr>sh_sem := sp\<rparr>) H" for H
        using r that at_clean(1)[OF _ that assms(3)] by (auto simp: bind_eq_Some_conv at.effect_refl split: if_splits)
      have reach: "\<exists>l. consumes s3 l t" using r at_clean_reach by (auto simp: bind_eq_Some_conv split: if_splits)
      show ?thesis
        by (rule at.effect_trans[OF at.effect_trans[OF 2 3 at.talks_reach[OF at_new_sem[OF n]]] 4 reach])
    qed
  qed
  then show ?thesis by (rule at.effect_seq[OF 1])
qed

lemma at_create:
  assumes "pzshm_create_handle_sysv e e2 shm s = Some (ok, shm', t)" "sh_addr shm = 0" "- 1 \<notin> F" "fst G = F"
  shows "at.effect G s t (at_ok F shm')"
proof (cases "sh_key shm = None")
  case True
  then show ?thesis using assms by (auto simp: pzshm_create_handle_sysv_def at_ok_def at_held_def at.effect_refl)
next
  case False
  have start: "at_ok F shm0 G" if "sh_addr shm0 = 0" for shm0 using that assms(4) by (simp add: at_ok_def at_held_def)
  obtain b s1 where b: "sv_key_file (sh_key shm) s = Some (b, s1)"
    using assms(1) False by (auto simp: pzshm_create_handle_sysv_def bind_eq_Some_conv)
  have 1: "at.effect G s s1 (\<lambda>H. H = G)" by (rule at.effect_talks[OF at_key_file[OF b]]) simp_all
  have "at.effect G s1 t (at_ok F shm')"
  proof (cases "b = - 1")
    case True
    then have "sh_abort e H_Key_File shm s1 = Some (ok, shm', t)" using assms(1) False b by (auto simp: pzshm_create_handle_sysv_def)
    then show ?thesis using at_abort[OF _ start assms(3)] assms(2) by blast
  next
    case nb: False
    let ?shm1 = "if b = 0 then shm\<lparr>sh_file_created := True\<rparr> else shm"
    have key: "sh_key ?shm1 = sh_key shm" "sh_addr ?shm1 = 0" using assms(2) by simp_all
    obtain q s2 where q: "sv_ftok_key (sh_key shm) s1 = Some (q, s2)"
      using assms(1) False b nb by (auto simp: pzshm_create_handle_sysv_def Let_def bind_eq_Some_conv key split: if_splits)
    have 2: "at.effect G s1 s2 (\<lambda>H. H = G)" by (rule at.effect_talks[OF at_ftok[OF q]]) simp_all
    let ?shm2 = "?shm1\<lparr>sh_unix_key := q\<rparr>"
    have "at.effect G s2 t (at_ok F shm')"
    proof (cases "q = - 1")
      case True
      then have "sh_abort e H_Ftok ?shm2 s2 = Some (ok, shm', t)"
        using assms(1) False b nb q by (auto simp: pzshm_create_handle_sysv_def Let_def key split: if_splits)
      then show ?thesis using at_abort[OF _ start assms(3)] key(2) by auto
    next
      case nq: False
      then obtain x shm3 s3 where g: "sh_shmget e b ?shm2 s2 = Some (x, shm3, s3)"
        and r: "(if sh_hdl shm3 = P_SHM_INVALID_HDL_sysv then sh_abort e H_Shmget shm3 s3 else sh_attach e e2 x shm3 s3) = Some (ok, shm', t)"
        using assms(1) False b nb q by (auto simp: pzshm_create_handle_sysv_def Let_def bind_eq_Some_conv key split: if_splits)
      have z: "sh_addr shm3 = 0" using at_shmget(2)[OF g] key(2) by simp
      have "at.effect G s3 t (at_ok F shm')"
        using r at_abort[OF _ start[OF z] assms(3)] at_attach[OF _ z assms(3,4)] by (auto split: if_splits)
      then show ?thesis by (rule at.effect_seq[OF at.effect_talks[OF at_shmget(1)[OF g]], rotated 2]) simp_all
    qed
    then show ?thesis by (rule at.effect_seq[OF 2])
  qed
  then show ?thesis by (rule at.effect_seq[OF 1])
qed

lemma at_session:
  assumes "zshm_new_sysv e e2 name n perms s = Some (sp, s1)" "zshm_free_sysv sp s1 = Some t" "- 1 \<notin> F" "fst G = F"
  shows "at.effect G s t (\<lambda>H. fst H = F)"
proof (cases "\<exists>nm. name = Some nm \<and> obj_mem e \<and> name_mem e")
  case False
  then have "sp = None" "\<exists>c m. s1 = sh_report e c m s"
    using assms(1) by (auto simp: zshm_new_sysv_def zshm_free_sysv_def pzshm_clean_handle_sysv_def sh_detach_def zsemaphore_free_sysv_def
        Let_def split: option.splits if_splits)
  then show ?thesis using assms(2,4) by (auto simp: zshm_free_sysv_def at.effect_refl)
next
  case True
  then obtain nm where nm: "name = Some nm" "obj_mem e" "name_mem e" by blast
  then obtain key where key: "zipc_get_platform_key (ip_be e) (ip_ipc e) (Some (nm @ P_SHM_SUFFIX)) False = Some key"
    using assms(1) by (auto simp: zshm_new_sysv_def Let_def bind_eq_Some_conv)
  define shm0 where "shm0 = \<lparr>sh_file_created = False, sh_unix_key = 0, sh_key = key, sh_hdl = 0, sh_addr = 0, sh_size = n, sh_sem = None,
    sh_perms = perms\<rparr>"
  obtain ok shm u where c: "pzshm_create_handle_sysv e e2 shm0 s = Some (ok, shm, u)"
    and r: "if ok then s1 = u \<and> sp = Some (if sh_size shm > n \<and> n \<noteq> 0 then shm\<lparr>sh_size := n\<rparr> else shm)
      else sp = None \<and> zshm_free_sysv (Some shm) u = Some s1"
    using assms(1) nm key unfolding shm0_def by (auto simp: zshm_new_sysv_def Let_def bind_eq_Some_conv split: if_splits)
  have 1: "at.effect G s u (at_ok F shm)" by (rule at_create[OF c _ assms(3,4)]) (simp add: shm0_def)
  have "\<exists>shm1. zshm_free_sysv (Some shm1) u = Some t \<and> at_ok F shm1 = at_ok F shm"
    using r assms(2) by (cases ok) (auto simp: zshm_free_sysv_def split: if_splits)
  then obtain shm1 shm2 where cl: "pzshm_clean_handle_sysv shm1 u = Some (shm2, t)" "at_ok F shm1 = at_ok F shm"
    by (auto simp: zshm_free_sysv_def bind_eq_Some_conv)
  have "at.effect G s t (at_ok F shm2)"
    by (rule at.effect_trans[OF 1]) (use at_clean(1)[OF cl(1) _ assms(3)] cl(2) at_clean_reach[OF cl(1)] in auto)
  then show ?thesis by (rule at.effect_mono) (simp add: at_ok_def at_held_def clean_addr[OF cl(1)])
qed

section \<open>Correctness\<close>

text \<open>
  C33: a process that makes or opens a System V segment and frees it, or whose constructor fails at any step, has attached at the end what it had attached before, and
  detaches only addresses that it has attached, with one exception: after an attachment that failed it also detaches the address \<open>-1\<close>, which
  \<^verbatim>\<open>shmat\<close> returned.
\<close>

theorem shm_sysv_attachments:
  assumes "zshm_new_sysv e e2 name n perms s = Some (sp, s1)" "zshm_free_sysv sp s1 = Some t" "log s = []" "- 1 \<notin> F"
    "each at_sane at_step (F, False) (log t)"
  shows "each at_proper at_step (F, False) (log t) \<and> fst (after at_step (F, False) (log t)) = F"
  using at.effect_log[OF at_session[OF assms(1,2,4), of "(F, False)"] assms(3,5)] by simp

text \<open>The witness: the attachment fails.\<close>

lemma sh_sample_key:
  obtains k where "zipc_get_platform_key (ip_be ip_env_sample) (ip_ipc ip_env_sample) (Some (''seg'' @ P_SHM_SUFFIX)) False = Some (Some k)"
  using sv_sample_key[of "''seg'' @ P_SHM_SUFFIX"] by (auto simp: P_SHM_SUFFIX_def)

theorem shm_sysv_attachments_witness:
  "\<exists>t. zshm_new_sysv ip_env_sample ip_env_sample (Some ''seg'') 64 P_SHM_ACCESS_READWRITE
       (sv_start [reply 3 0, reply 0 0, reply 0 0, reply 42 0, reply 7 0, reply 0 0, reply (- 1) 22, reply (- 1) 22, reply 0 0, reply 0 0]) = Some (None, t) \<and>
     (\<exists>a. (V_shmdt (- 1), a) \<in> set (log t)) \<and> each at_proper at_step ({}, False) (log t) \<and> fst (after at_step ({}, False) (log t)) = {}"
proof -
  let ?s = "sv_start [reply 3 0, reply 0 0, reply 0 0, reply 42 0, reply 7 0, reply 0 0, reply (- 1) 22, reply (- 1) 22, reply 0 0, reply 0 0]"
  obtain k where k: "zipc_get_platform_key (ip_be ip_env_sample) (ip_ipc ip_env_sample) (Some (''seg'' @ P_SHM_SUFFIX)) False = Some (Some k)"
    by (rule sh_sample_key)
  obtain t where t: "zshm_new_sysv ip_env_sample ip_env_sample (Some ''seg'') 64 P_SHM_ACCESS_READWRITE ?s = Some (None, t)"
      "\<exists>a. (V_shmdt (- 1), a) \<in> set (log t)" "each at_sane at_step ({}, False) (log t)" "zshm_free_sysv None t = Some t" "log ?s = []"
    using k
    by (auto simp: zshm_new_sysv_def pzshm_create_handle_sysv_def sv_key_file_def zipc_unix_create_key_file_def sv_ftok_key_def
        zipc_unix_get_ftok_key_def sh_shmget_def sh_attach_def sh_abort_def pzshm_clean_handle_sysv_def sh_detach_def zshm_free_sysv_def
        zsemaphore_free_sysv_def sv_call_if_def sv_start_def reply_def P_SHM_INVALID_HDL_sysv_def sh_report_last_def report_def Let_def)
  from shm_sysv_attachments[OF t(1,4,5) _ t(3)] t(1,2) show ?thesis by auto
qed

end
