(* ===== verification/PAtomic.thy ===== *)
theory PAtomic
  imports Plibsys_Prelude
begin

text \<open>
  The atomic operations of \<^verbatim>\<open>src/src/lib/patomic-c11.c\<close>. Every function is one access to the memory, as the
  builtins of the compiler with sequentially consistent order promise.
\<close>

unbundle bit_operations_syntax

section \<open>Memory\<close>

text \<open>The integers and the words of the size of a pointer, by address, and what a call returns.\<close>

record atomic_mem =
  ints :: "ppointer \<Rightarrow> pint"
  ptrs :: "ppointer \<Rightarrow> psize"

datatype atomic_result = R_Void | R_Int pint | R_Bool bool | R_Size psize

section \<open>Builtins\<close>

text \<open>Each takes the value of the cell and returns its result and the new value.\<close>

definition atomic_load :: "'w::len word \<Rightarrow> 'w word \<times> 'w word" where
  "atomic_load cell = (cell, cell)"

definition atomic_store :: "'w::len word \<Rightarrow> 'w word \<Rightarrow> unit \<times> 'w word" where
  "atomic_store val cell = ((), val)"

definition atomic_fetch_add :: "'w::len word \<Rightarrow> 'w word \<Rightarrow> 'w word \<times> 'w word" where
  "atomic_fetch_add val cell = (cell, cell + val)"

definition atomic_fetch_sub :: "'w::len word \<Rightarrow> 'w word \<Rightarrow> 'w word \<times> 'w word" where
  "atomic_fetch_sub val cell = (cell, cell - val)"

definition atomic_fetch_and :: "'w::len word \<Rightarrow> 'w word \<Rightarrow> 'w word \<times> 'w word" where
  "atomic_fetch_and val cell = (cell, cell AND val)"

definition atomic_fetch_or :: "'w::len word \<Rightarrow> 'w word \<Rightarrow> 'w word \<times> 'w word" where
  "atomic_fetch_or val cell = (cell, cell OR val)"

definition atomic_fetch_xor :: "'w::len word \<Rightarrow> 'w word \<Rightarrow> 'w word \<times> 'w word" where
  "atomic_fetch_xor val cell = (cell, cell XOR val)"

definition atomic_compare_exchange_n :: "'w::len word \<Rightarrow> 'w word \<Rightarrow> 'w word \<Rightarrow> bool \<times> 'w word" where
  "atomic_compare_exchange_n oldval newval cell = (if cell = oldval then (True, newval) else (False, cell))"

definition on_int :: "ppointer \<Rightarrow> (pint \<Rightarrow> 'r \<times> pint) \<Rightarrow> atomic_mem \<Rightarrow> 'r \<times> atomic_mem" where
  "on_int a f m = (let (r, v) = f (ints m a) in (r, m\<lparr>ints := (ints m)(a := v)\<rparr>))"

definition on_ptr :: "ppointer \<Rightarrow> (psize \<Rightarrow> 'r \<times> psize) \<Rightarrow> atomic_mem \<Rightarrow> 'r \<times> atomic_mem" where
  "on_ptr a f m = (let (r, v) = f (ptrs m a) in (r, m\<lparr>ptrs := (ptrs m)(a := v)\<rparr>))"

section \<open>Integers\<close>

definition zatomic_int_get :: "ppointer \<Rightarrow> atomic_mem \<Rightarrow> atomic_result \<times> atomic_mem" where
  "zatomic_int_get a m = apfst R_Int (on_int a atomic_load m)"

definition zatomic_int_set :: "ppointer \<Rightarrow> pint \<Rightarrow> atomic_mem \<Rightarrow> atomic_result \<times> atomic_mem" where
  "zatomic_int_set a val m = apfst (\<lambda>_. R_Void) (on_int a (atomic_store val) m)"

definition zatomic_int_inc :: "ppointer \<Rightarrow> atomic_mem \<Rightarrow> atomic_result \<times> atomic_mem" where
  "zatomic_int_inc a m = apfst (\<lambda>_. R_Void) (on_int a (atomic_fetch_add 1) m)"

definition zatomic_int_dec_and_test :: "ppointer \<Rightarrow> atomic_mem \<Rightarrow> atomic_result \<times> atomic_mem" where
  "zatomic_int_dec_and_test a m = apfst (\<lambda>old. R_Bool (old = 1)) (on_int a (atomic_fetch_sub 1) m)"

definition zatomic_int_compare_and_exchange :: "ppointer \<Rightarrow> pint \<Rightarrow> pint \<Rightarrow> atomic_mem \<Rightarrow> atomic_result \<times> atomic_mem" where
  "zatomic_int_compare_and_exchange a oldval newval m = apfst R_Bool (on_int a (atomic_compare_exchange_n oldval newval) m)"

definition zatomic_int_add :: "ppointer \<Rightarrow> pint \<Rightarrow> atomic_mem \<Rightarrow> atomic_result \<times> atomic_mem" where
  "zatomic_int_add a val m = apfst R_Int (on_int a (atomic_fetch_add val) m)"

definition zatomic_int_and :: "ppointer \<Rightarrow> pint \<Rightarrow> atomic_mem \<Rightarrow> atomic_result \<times> atomic_mem" where
  "zatomic_int_and a val m = apfst R_Int (on_int a (atomic_fetch_and val) m)"

definition zatomic_int_or :: "ppointer \<Rightarrow> pint \<Rightarrow> atomic_mem \<Rightarrow> atomic_result \<times> atomic_mem" where
  "zatomic_int_or a val m = apfst R_Int (on_int a (atomic_fetch_or val) m)"

definition zatomic_int_xor :: "ppointer \<Rightarrow> pint \<Rightarrow> atomic_mem \<Rightarrow> atomic_result \<times> atomic_mem" where
  "zatomic_int_xor a val m = apfst R_Int (on_int a (atomic_fetch_xor val) m)"

section \<open>Pointers\<close>

definition zatomic_pointer_get :: "ppointer \<Rightarrow> atomic_mem \<Rightarrow> atomic_result \<times> atomic_mem" where
  "zatomic_pointer_get a m = apfst R_Size (on_ptr a atomic_load m)"

definition zatomic_pointer_set :: "ppointer \<Rightarrow> psize \<Rightarrow> atomic_mem \<Rightarrow> atomic_result \<times> atomic_mem" where
  "zatomic_pointer_set a val m = apfst (\<lambda>_. R_Void) (on_ptr a (atomic_store val) m)"

definition zatomic_pointer_compare_and_exchange :: "ppointer \<Rightarrow> psize \<Rightarrow> psize \<Rightarrow> atomic_mem \<Rightarrow> atomic_result \<times> atomic_mem" where
  "zatomic_pointer_compare_and_exchange a oldval newval m = apfst R_Bool (on_ptr a (atomic_compare_exchange_n oldval newval) m)"

definition zatomic_pointer_add :: "ppointer \<Rightarrow> psize \<Rightarrow> atomic_mem \<Rightarrow> atomic_result \<times> atomic_mem" where
  "zatomic_pointer_add a val m = apfst R_Size (on_ptr a (atomic_fetch_add val) m)"

definition zatomic_pointer_and :: "ppointer \<Rightarrow> psize \<Rightarrow> atomic_mem \<Rightarrow> atomic_result \<times> atomic_mem" where
  "zatomic_pointer_and a val m = apfst R_Size (on_ptr a (atomic_fetch_and val) m)"

definition zatomic_pointer_or :: "ppointer \<Rightarrow> psize \<Rightarrow> atomic_mem \<Rightarrow> atomic_result \<times> atomic_mem" where
  "zatomic_pointer_or a val m = apfst R_Size (on_ptr a (atomic_fetch_or val) m)"

definition zatomic_pointer_xor :: "ppointer \<Rightarrow> psize \<Rightarrow> atomic_mem \<Rightarrow> atomic_result \<times> atomic_mem" where
  "zatomic_pointer_xor a val m = apfst R_Size (on_ptr a (atomic_fetch_xor val) m)"

definition zatomic_is_lock_free :: bool where
  "zatomic_is_lock_free = True"

section \<open>Calls\<close>

datatype atomic_call =
  Int_Get ppointer | Int_Set ppointer pint | Int_Inc ppointer | Int_Dec_And_Test ppointer
| Int_Compare_And_Exchange ppointer pint pint | Int_Add ppointer pint
| Int_And ppointer pint | Int_Or ppointer pint | Int_Xor ppointer pint
| Pointer_Get ppointer | Pointer_Set ppointer psize | Pointer_Compare_And_Exchange ppointer psize psize
| Pointer_Add ppointer psize | Pointer_And ppointer psize | Pointer_Or ppointer psize | Pointer_Xor ppointer psize

fun c11_call :: "atomic_call \<Rightarrow> atomic_mem \<Rightarrow> atomic_result \<times> atomic_mem" where
  "c11_call (Int_Get a) = zatomic_int_get a"
| "c11_call (Int_Set a v) = zatomic_int_set a v"
| "c11_call (Int_Inc a) = zatomic_int_inc a"
| "c11_call (Int_Dec_And_Test a) = zatomic_int_dec_and_test a"
| "c11_call (Int_Compare_And_Exchange a u v) = zatomic_int_compare_and_exchange a u v"
| "c11_call (Int_Add a v) = zatomic_int_add a v"
| "c11_call (Int_And a v) = zatomic_int_and a v"
| "c11_call (Int_Or a v) = zatomic_int_or a v"
| "c11_call (Int_Xor a v) = zatomic_int_xor a v"
| "c11_call (Pointer_Get a) = zatomic_pointer_get a"
| "c11_call (Pointer_Set a v) = zatomic_pointer_set a v"
| "c11_call (Pointer_Compare_And_Exchange a u v) = zatomic_pointer_compare_and_exchange a u v"
| "c11_call (Pointer_Add a v) = zatomic_pointer_add a v"
| "c11_call (Pointer_And a v) = zatomic_pointer_and a v"
| "c11_call (Pointer_Or a v) = zatomic_pointer_or a v"
| "c11_call (Pointer_Xor a v) = zatomic_pointer_xor a v"

text \<open>Calls of several threads one after the other, with the results.\<close>

fun c11_run :: "(nat \<times> atomic_call) list \<Rightarrow> atomic_mem \<Rightarrow> (nat \<times> atomic_result) list \<times> atomic_mem" where
  "c11_run [] m = ([], m)"
| "c11_run ((i, c) # cs) m =
     (let (r, m1) = c11_call c m; (rs, m2) = c11_run cs m1 in ((i, r) # rs, m2))"

text \<open>The entries of one thread.\<close>

definition of_thread :: "nat \<Rightarrow> (nat \<times> 'a) list \<Rightarrow> 'a list" where
  "of_thread i xs = map snd (filter (\<lambda>x. fst x = i) xs)"

lemma of_thread_simps [simp]:
  "of_thread i [] = []"
  "of_thread i ((k, x) # xs) = (if k = i then x # of_thread i xs else of_thread i xs)"
  "of_thread i (xs @ ys) = of_thread i xs @ of_thread i ys"
  by (auto simp: of_thread_def)

lemma c11_run_snoc:
  "c11_run (cs @ [(i, c)]) m =
     (fst (c11_run cs m) @ [(i, fst (c11_call c (snd (c11_run cs m))))], snd (c11_call c (snd (c11_run cs m))))"
  by (induction cs arbitrary: m) (auto simp: case_prod_beta Let_def)

lemmas c11_defs =
  zatomic_int_get_def zatomic_int_set_def zatomic_int_inc_def zatomic_int_dec_and_test_def
  zatomic_int_compare_and_exchange_def zatomic_int_add_def zatomic_int_and_def zatomic_int_or_def
  zatomic_int_xor_def zatomic_pointer_get_def zatomic_pointer_set_def
  zatomic_pointer_compare_and_exchange_def zatomic_pointer_add_def zatomic_pointer_and_def
  zatomic_pointer_or_def zatomic_pointer_xor_def on_int_def on_ptr_def atomic_load_def
  atomic_store_def atomic_fetch_add_def atomic_fetch_sub_def atomic_fetch_and_def
  atomic_fetch_or_def atomic_fetch_xor_def atomic_compare_exchange_n_def

end
