(* ===== verification/PAtomic_Sim.thy ===== *)
theory PAtomic_Sim
  imports PAtomic "HOL-Library.Sublist"
begin

text \<open>
  The atomic operations of \<^verbatim>\<open>src/src/tmp/patomic-sim.c\<close>, for compilers without builtins: loads and stores under one
  mutex of the library. The single accesses of any number of threads are interleaved; the theorem says
  that the threads cannot tell these operations from those of \<^verbatim>\<open>src/src/lib/patomic-c11.c\<close>.
\<close>

unbundle bit_operations_syntax

section \<open>The functions\<close>

text \<open>The local variables: the value loaded from the cell.\<close>

record sim_regs =
  r_int :: pint
  r_ptr :: psize

datatype sim_instr =
  Lock | Unlock
| Load_Int ppointer | Store_Int ppointer "sim_regs \<Rightarrow> pint"
| Load_Ptr ppointer | Store_Ptr ppointer "sim_regs \<Rightarrow> psize"
| If_Then "sim_regs \<Rightarrow> bool" sim_instr

record sim_fun =
  body :: "sim_instr list"
  result :: "sim_regs \<Rightarrow> atomic_result"

definition zatomic_int_get_sim :: "ppointer \<Rightarrow> sim_fun" where
  "zatomic_int_get_sim a = \<lparr>body = [Lock, Load_Int a, Unlock], result = \<lambda>r. R_Int (r_int r)\<rparr>"

definition zatomic_int_set_sim :: "ppointer \<Rightarrow> pint \<Rightarrow> sim_fun" where
  "zatomic_int_set_sim a val = \<lparr>body = [Lock, Store_Int a (\<lambda>r. val), Unlock], result = \<lambda>r. R_Void\<rparr>"

definition zatomic_int_inc_sim :: "ppointer \<Rightarrow> sim_fun" where
  "zatomic_int_inc_sim a = \<lparr>body = [Lock, Load_Int a, Store_Int a (\<lambda>r. r_int r + 1), Unlock], result = \<lambda>r. R_Void\<rparr>"

definition zatomic_int_dec_and_test_sim :: "ppointer \<Rightarrow> sim_fun" where
  "zatomic_int_dec_and_test_sim a =
     \<lparr>body = [Lock, Load_Int a, Store_Int a (\<lambda>r. r_int r - 1), Unlock], result = \<lambda>r. R_Bool (r_int r - 1 = 0)\<rparr>"

definition zatomic_int_compare_and_exchange_sim :: "ppointer \<Rightarrow> pint \<Rightarrow> pint \<Rightarrow> sim_fun" where
  "zatomic_int_compare_and_exchange_sim a oldval newval =
     \<lparr>body = [Lock, Load_Int a, If_Then (\<lambda>r. r_int r = oldval) (Store_Int a (\<lambda>r. newval)), Unlock],
      result = \<lambda>r. R_Bool (r_int r = oldval)\<rparr>"

definition zatomic_int_add_sim :: "ppointer \<Rightarrow> pint \<Rightarrow> sim_fun" where
  "zatomic_int_add_sim a val =
     \<lparr>body = [Lock, Load_Int a, Store_Int a (\<lambda>r. r_int r + val), Unlock], result = \<lambda>r. R_Int (r_int r)\<rparr>"

definition zatomic_int_and_sim :: "ppointer \<Rightarrow> pint \<Rightarrow> sim_fun" where
  "zatomic_int_and_sim a val =
     \<lparr>body = [Lock, Load_Int a, Store_Int a (\<lambda>r. r_int r AND val), Unlock], result = \<lambda>r. R_Int (r_int r)\<rparr>"

definition zatomic_int_or_sim :: "ppointer \<Rightarrow> pint \<Rightarrow> sim_fun" where
  "zatomic_int_or_sim a val =
     \<lparr>body = [Lock, Load_Int a, Store_Int a (\<lambda>r. r_int r OR val), Unlock], result = \<lambda>r. R_Int (r_int r)\<rparr>"

definition zatomic_int_xor_sim :: "ppointer \<Rightarrow> pint \<Rightarrow> sim_fun" where
  "zatomic_int_xor_sim a val =
     \<lparr>body = [Lock, Load_Int a, Store_Int a (\<lambda>r. r_int r XOR val), Unlock], result = \<lambda>r. R_Int (r_int r)\<rparr>"

definition zatomic_pointer_get_sim :: "ppointer \<Rightarrow> sim_fun" where
  "zatomic_pointer_get_sim a = \<lparr>body = [Lock, Load_Ptr a, Unlock], result = \<lambda>r. R_Size (r_ptr r)\<rparr>"

definition zatomic_pointer_set_sim :: "ppointer \<Rightarrow> psize \<Rightarrow> sim_fun" where
  "zatomic_pointer_set_sim a val = \<lparr>body = [Lock, Store_Ptr a (\<lambda>r. val), Unlock], result = \<lambda>r. R_Void\<rparr>"

definition zatomic_pointer_compare_and_exchange_sim :: "ppointer \<Rightarrow> psize \<Rightarrow> psize \<Rightarrow> sim_fun" where
  "zatomic_pointer_compare_and_exchange_sim a oldval newval =
     \<lparr>body = [Lock, Load_Ptr a, If_Then (\<lambda>r. r_ptr r = oldval) (Store_Ptr a (\<lambda>r. newval)), Unlock],
      result = \<lambda>r. R_Bool (r_ptr r = oldval)\<rparr>"

definition zatomic_pointer_add_sim :: "ppointer \<Rightarrow> psize \<Rightarrow> sim_fun" where
  "zatomic_pointer_add_sim a val =
     \<lparr>body = [Lock, Load_Ptr a, Store_Ptr a (\<lambda>r. r_ptr r + val), Unlock], result = \<lambda>r. R_Size (r_ptr r)\<rparr>"

definition zatomic_pointer_and_sim :: "ppointer \<Rightarrow> psize \<Rightarrow> sim_fun" where
  "zatomic_pointer_and_sim a val =
     \<lparr>body = [Lock, Load_Ptr a, Store_Ptr a (\<lambda>r. r_ptr r AND val), Unlock], result = \<lambda>r. R_Size (r_ptr r)\<rparr>"

definition zatomic_pointer_or_sim :: "ppointer \<Rightarrow> psize \<Rightarrow> sim_fun" where
  "zatomic_pointer_or_sim a val =
     \<lparr>body = [Lock, Load_Ptr a, Store_Ptr a (\<lambda>r. r_ptr r OR val), Unlock], result = \<lambda>r. R_Size (r_ptr r)\<rparr>"

definition zatomic_pointer_xor_sim :: "ppointer \<Rightarrow> psize \<Rightarrow> sim_fun" where
  "zatomic_pointer_xor_sim a val =
     \<lparr>body = [Lock, Load_Ptr a, Store_Ptr a (\<lambda>r. r_ptr r XOR val), Unlock], result = \<lambda>r. R_Size (r_ptr r)\<rparr>"

definition zatomic_is_lock_free_sim :: bool where
  "zatomic_is_lock_free_sim = False"

fun sim_call :: "atomic_call \<Rightarrow> sim_fun" where
  "sim_call (Int_Get a) = zatomic_int_get_sim a"
| "sim_call (Int_Set a v) = zatomic_int_set_sim a v"
| "sim_call (Int_Inc a) = zatomic_int_inc_sim a"
| "sim_call (Int_Dec_And_Test a) = zatomic_int_dec_and_test_sim a"
| "sim_call (Int_Compare_And_Exchange a u v) = zatomic_int_compare_and_exchange_sim a u v"
| "sim_call (Int_Add a v) = zatomic_int_add_sim a v"
| "sim_call (Int_And a v) = zatomic_int_and_sim a v"
| "sim_call (Int_Or a v) = zatomic_int_or_sim a v"
| "sim_call (Int_Xor a v) = zatomic_int_xor_sim a v"
| "sim_call (Pointer_Get a) = zatomic_pointer_get_sim a"
| "sim_call (Pointer_Set a v) = zatomic_pointer_set_sim a v"
| "sim_call (Pointer_Compare_And_Exchange a u v) = zatomic_pointer_compare_and_exchange_sim a u v"
| "sim_call (Pointer_Add a v) = zatomic_pointer_add_sim a v"
| "sim_call (Pointer_And a v) = zatomic_pointer_and_sim a v"
| "sim_call (Pointer_Or a v) = zatomic_pointer_or_sim a v"
| "sim_call (Pointer_Xor a v) = zatomic_pointer_xor_sim a v"

section \<open>Threads\<close>

text \<open>The mutex: there is none before the initialisation, else it has an owner or none.\<close>

datatype sim_mutex = No_Mutex | Free | Owned nat

definition zatomic_thread_init :: "bool \<Rightarrow> sim_mutex \<Rightarrow> sim_mutex" where
  "zatomic_thread_init created mx = (if mx = No_Mutex then (if created then Free else No_Mutex) else mx)"

definition zatomic_thread_shutdown :: "sim_mutex \<Rightarrow> sim_mutex" where
  "zatomic_thread_shutdown mx = (if mx \<noteq> No_Mutex then No_Mutex else mx)"

text \<open>Locking a mutex that is not there fails at once; the functions do not look at the outcome.\<close>

definition sim_lock :: "nat \<Rightarrow> sim_mutex \<Rightarrow> sim_mutex option" where
  "sim_lock i mx = (case mx of No_Mutex \<Rightarrow> Some No_Mutex | Free \<Rightarrow> Some (Owned i) | Owned k \<Rightarrow> None)"

definition sim_unlock :: "sim_mutex \<Rightarrow> sim_mutex" where
  "sim_unlock mx = (case mx of No_Mutex \<Rightarrow> No_Mutex | _ \<Rightarrow> Free)"

text \<open>
  A thread: the calls it still has to make, the first of them under way when \<open>code\<close> holds the rest of its
  body, and the results of the calls that have returned.
\<close>

record sim_thread =
  calls :: "atomic_call list"
  code :: "sim_instr list option"
  regs :: sim_regs
  returned :: "atomic_result list"

record sim_sys =
  s_mem :: atomic_mem
  s_mutex :: sim_mutex
  s_threads :: "nat \<Rightarrow> sim_thread"

fun sim_access :: "sim_instr \<Rightarrow> sim_regs \<times> atomic_mem \<Rightarrow> sim_regs \<times> atomic_mem" where
  "sim_access (Load_Int a) (r, m) = (r\<lparr>r_int := ints m a\<rparr>, m)"
| "sim_access (Store_Int a f) (r, m) = (r, m\<lparr>ints := (ints m)(a := f r)\<rparr>)"
| "sim_access (Load_Ptr a) (r, m) = (r\<lparr>r_ptr := ptrs m a\<rparr>, m)"
| "sim_access (Store_Ptr a f) (r, m) = (r, m\<lparr>ptrs := (ptrs m)(a := f r)\<rparr>)"
| "sim_access (If_Then b x) (r, m) = (if b r then sim_access x (r, m) else (r, m))"
| "sim_access Lock (r, m) = (r, m)"
| "sim_access Unlock (r, m) = (r, m)"

text \<open>One step of thread \<open>i\<close>: entering a call, one instruction, or returning; \<open>None\<close> when it cannot go on.\<close>

definition sim_step :: "nat \<Rightarrow> sim_sys \<Rightarrow> sim_sys option" where
  "sim_step i s =
     (let t = s_threads s i in
      case calls t of
        [] \<Rightarrow> None
      | c # cs \<Rightarrow>
          (case code t of
             None \<Rightarrow> Some (s\<lparr>s_threads := (s_threads s)(i := t\<lparr>code := Some (body (sim_call c)), regs := \<lparr>r_int = 0, r_ptr = 0\<rparr>\<rparr>)\<rparr>)
           | Some [] \<Rightarrow>
               Some (s\<lparr>s_threads := (s_threads s)(i := t\<lparr>calls := cs, code := None, returned := returned t @ [result (sim_call c) (regs t)]\<rparr>)\<rparr>)
           | Some (Lock # k) \<Rightarrow>
               (case sim_lock i (s_mutex s) of
                  None \<Rightarrow> None
                | Some mx \<Rightarrow> Some (s\<lparr>s_mutex := mx, s_threads := (s_threads s)(i := t\<lparr>code := Some k\<rparr>)\<rparr>))
           | Some (Unlock # k) \<Rightarrow>
               Some (s\<lparr>s_mutex := sim_unlock (s_mutex s), s_threads := (s_threads s)(i := t\<lparr>code := Some k\<rparr>)\<rparr>)
           | Some (x # k) \<Rightarrow>
               (let (r, m) = sim_access x (regs t, s_mem s)
                in Some (s\<lparr>s_mem := m, s_threads := (s_threads s)(i := t\<lparr>code := Some k, regs := r\<rparr>)\<rparr>))))"

text \<open>A schedule; the turn of a thread that cannot go on passes.\<close>

fun sim_exec :: "nat list \<Rightarrow> sim_sys \<Rightarrow> sim_sys" where
  "sim_exec [] s = s"
| "sim_exec (i # is) s = sim_exec is (case sim_step i s of None \<Rightarrow> s | Some s' \<Rightarrow> s')"

text \<open>The calls in the order in which they give the mutex back.\<close>

fun sim_order :: "nat list \<Rightarrow> sim_sys \<Rightarrow> (nat \<times> atomic_call) list" where
  "sim_order [] s = []"
| "sim_order (i # is) s =
     (case code (s_threads s i) of Some (Unlock # k) \<Rightarrow> [(i, hd (calls (s_threads s i)))] | _ \<Rightarrow> []) @
     sim_order is (case sim_step i s of None \<Rightarrow> s | Some s' \<Rightarrow> s')"

definition prog_of :: "atomic_call list list \<Rightarrow> nat \<Rightarrow> atomic_call list" where
  "prog_of progs i = (if i < length progs then progs ! i else [])"

definition sim_start :: "sim_mutex \<Rightarrow> atomic_mem \<Rightarrow> atomic_call list list \<Rightarrow> sim_sys" where
  "sim_start mx m progs =
     \<lparr>s_mem = m, s_mutex = mx,
      s_threads = \<lambda>i. \<lparr>calls = prog_of progs i, code = None, regs = \<lparr>r_int = 0, r_ptr = 0\<rparr>, returned = []\<rparr>\<rparr>"

definition sim_finished :: "nat \<Rightarrow> sim_sys \<Rightarrow> bool" where
  "sim_finished n s \<longleftrightarrow> (\<forall>i < n. calls (s_threads s i) = [])"

section \<open>One call\<close>

lemmas sim_defs =
  zatomic_int_get_sim_def zatomic_int_set_sim_def zatomic_int_inc_sim_def zatomic_int_dec_and_test_sim_def
  zatomic_int_compare_and_exchange_sim_def zatomic_int_add_sim_def zatomic_int_and_sim_def
  zatomic_int_or_sim_def zatomic_int_xor_sim_def zatomic_pointer_get_sim_def zatomic_pointer_set_sim_def
  zatomic_pointer_compare_and_exchange_sim_def zatomic_pointer_add_sim_def zatomic_pointer_and_sim_def
  zatomic_pointer_or_sim_def zatomic_pointer_xor_sim_def

text \<open>The accesses between locking and unlocking.\<close>

definition guarded :: "atomic_call \<Rightarrow> sim_instr list" where
  "guarded c = butlast (tl (body (sim_call c)))"

lemma body_guarded: "body (sim_call c) = Lock # guarded c @ [Unlock]"
  by (cases c) (simp_all add: guarded_def sim_defs)

lemma guarded_access: "x \<in> set (guarded c) \<Longrightarrow> x \<noteq> Lock \<and> x \<noteq> Unlock"
  by (cases c) (auto simp: guarded_def sim_defs)

lemma length_body: "length (body (sim_call c)) < 5"
  by (cases c) (simp_all add: sim_defs)

lemma guarded_c11:
  "fold sim_access (guarded c) (r, m) = (r', m') \<Longrightarrow> c11_call c m = (result (sim_call c) r', m')"
  by (cases c) (auto simp: guarded_def sim_defs c11_defs split: if_splits)

section \<open>The invariant\<close>

text \<open>
  A thread with the program \<open>p\<close>, of whose calls \<open>cs\<close> have happened with the results \<open>rs\<close>; \<open>mine\<close> says whether it
  has the mutex, \<open>m0\<close> is the memory after the calls that have happened and \<open>m\<close> the memory as it is.
\<close>

inductive thread_inv ::
    "atomic_mem \<Rightarrow> atomic_mem \<Rightarrow> atomic_call list \<Rightarrow> atomic_call list \<Rightarrow> atomic_result list \<Rightarrow> bool \<Rightarrow> sim_thread \<Rightarrow> bool"
  for m0 m p cs rs where
  outside: "\<lbrakk>code t = None; cs @ calls t = p; returned t = rs\<rbrakk> \<Longrightarrow> thread_inv m0 m p cs rs False t"
| entered: "\<lbrakk>code t = Some (body (sim_call c)); calls t = c # k; cs @ c # k = p; returned t = rs\<rbrakk> \<Longrightarrow> thread_inv m0 m p cs rs False t"
| inside: "\<lbrakk>code t = Some (ys @ [Unlock]); calls t = c # k; cs @ c # k = p; returned t = rs; guarded c = xs @ ys;
    fold sim_access xs (r, m0) = (regs t, m)\<rbrakk> \<Longrightarrow> thread_inv m0 m p cs rs True t"
| leaving: "\<lbrakk>code t = Some []; calls t = c # k; cs @ k = p; rs = returned t @ [result (sim_call c) (regs t)]\<rbrakk> \<Longrightarrow> thread_inv m0 m p cs rs False t"

lemma thread_inv_frame: "thread_inv m0 m p cs rs False t \<Longrightarrow> thread_inv m0' m' p cs rs False t"
  by (erule thread_inv.cases) (auto intro: thread_inv.intros)

definition sim_inv :: "atomic_mem \<Rightarrow> atomic_call list list \<Rightarrow> (nat \<times> atomic_call) list \<Rightarrow> sim_sys \<Rightarrow> bool" where
  "sim_inv m progs w s \<longleftrightarrow>
     s_mutex s \<noteq> No_Mutex \<and> (s_mutex s = Free \<longrightarrow> s_mem s = snd (c11_run w m)) \<and>
     (\<forall>i. thread_inv (snd (c11_run w m)) (s_mem s) (prog_of progs i) (of_thread i w) (of_thread i (fst (c11_run w m)))
        (s_mutex s = Owned i) (s_threads s i))"

lemma sim_invD:
  "sim_inv m progs w s \<Longrightarrow> thread_inv (snd (c11_run w m)) (s_mem s) (prog_of progs i) (of_thread i w)
     (of_thread i (fst (c11_run w m))) (s_mutex s = Owned i) (s_threads s i)"
  by (simp add: sim_inv_def)

text \<open>A step that does not touch what the threads share.\<close>

lemma sim_inv_local:
  "sim_inv m progs w s \<Longrightarrow>
   thread_inv (snd (c11_run w m)) (s_mem s) (prog_of progs i) (of_thread i w) (of_thread i (fst (c11_run w m))) (s_mutex s = Owned i) t \<Longrightarrow>
   sim_inv m progs w (s\<lparr>s_threads := (s_threads s)(i := t)\<rparr>)"
  by (simp add: sim_inv_def)

text \<open>A step of the thread that has, takes or gives back the mutex.\<close>

lemma sim_inv_shared:
  assumes inv: "sim_inv m progs w s" and mx: "s_mutex s \<in> {Free, Owned i}" "mx \<in> {Free, Owned i}"
    and mem: "mx = Free \<Longrightarrow> m' = snd (c11_run w' m)"
    and w: "\<And>k. k \<noteq> i \<Longrightarrow> of_thread k w' = of_thread k w \<and> of_thread k (fst (c11_run w' m)) = of_thread k (fst (c11_run w m))"
    and t: "thread_inv (snd (c11_run w' m)) m' (prog_of progs i) (of_thread i w') (of_thread i (fst (c11_run w' m))) (mx = Owned i) t"
  shows "sim_inv m progs w' (s\<lparr>s_mem := m', s_mutex := mx, s_threads := (s_threads s)(i := t)\<rparr>)"
proof -
  have "thread_inv (snd (c11_run w' m)) m' (prog_of progs k) (of_thread k w') (of_thread k (fst (c11_run w' m))) (mx = Owned k) (s_threads s k)"
    if "k \<noteq> i" for k
  proof -
    have "(mx = Owned k) = False" "(s_mutex s = Owned k) = False" using mx that by auto
    then show ?thesis using sim_invD[OF inv, of k] w[OF that] by (metis thread_inv_frame)
  qed
  then show ?thesis using mem mx(2) t by (auto simp: sim_inv_def)
qed

lemma sim_access_step:
  assumes "x \<noteq> Lock" "x \<noteq> Unlock" "calls (s_threads s i) = c # cs" "code (s_threads s i) = Some (x # k)"
    "sim_access x (regs (s_threads s i), s_mem s) = (r, m)"
  shows "sim_step i s = Some (s\<lparr>s_mem := m, s_threads := (s_threads s)(i := (s_threads s i)\<lparr>code := Some k, regs := r\<rparr>)\<rparr>)"
  using assms by (cases x) (auto simp: sim_step_def Let_def)

text \<open>What a step adds to the order of the calls.\<close>

definition happens :: "nat \<Rightarrow> sim_sys \<Rightarrow> (nat \<times> atomic_call) list" where
  "happens i s = (case code (s_threads s i) of Some (Unlock # k) \<Rightarrow> [(i, hd (calls (s_threads s i)))] | _ \<Rightarrow> [])"

lemma sim_step_inside:
  assumes inv: "sim_inv m progs w s" and own: "s_mutex s = Owned i"
    and t: "code (s_threads s i) = Some (ys @ [Unlock])" "calls (s_threads s i) = c # k" "of_thread i w @ c # k = prog_of progs i"
      "returned (s_threads s i) = of_thread i (fst (c11_run w m))" "guarded c = xs @ ys"
      "fold sim_access xs (r, snd (c11_run w m)) = (regs (s_threads s i), s_mem s)"
  shows "\<exists>s'. sim_step i s = Some s' \<and> sim_inv m progs (w @ happens i s) s'"
proof (cases ys)
  case Nil
  let ?t = "(s_threads s i)\<lparr>code := Some []\<rparr>"
  have c11: "c11_call c (snd (c11_run w m)) = (result (sim_call c) (regs (s_threads s i)), s_mem s)"
    using guarded_c11 t(5,6) Nil by simp
  have "sim_inv m progs (w @ [(i, c)]) (s\<lparr>s_mem := s_mem s, s_mutex := Free, s_threads := (s_threads s)(i := ?t)\<rparr>)"
    using c11 own t by (intro sim_inv_shared[OF inv]) (auto simp: c11_run_snoc intro!: thread_inv.leaving)
  then show ?thesis using t Nil own by (simp add: sim_step_def happens_def sim_unlock_def Let_def)
next
  case (Cons x zs)
  obtain r' m' where acc: "sim_access x (regs (s_threads s i), s_mem s) = (r', m')" by fastforce
  have x: "x \<noteq> Lock" "x \<noteq> Unlock" using guarded_access[of x c] t(5) Cons by auto
  then have hp: "happens i s = []" using t(1) Cons by (cases x) (auto simp: happens_def)
  let ?t = "(s_threads s i)\<lparr>code := Some (zs @ [Unlock]), regs := r'\<rparr>"
  have "thread_inv (snd (c11_run w m)) m' (prog_of progs i) (of_thread i w) (of_thread i (fst (c11_run w m))) True ?t"
    using t acc Cons by (intro thread_inv.inside[where xs = "xs @ [x]" and ys = zs and r = r]) auto
  then have "sim_inv m progs w (s\<lparr>s_mem := m', s_mutex := Owned i, s_threads := (s_threads s)(i := ?t)\<rparr>)"
    using own by (intro sim_inv_shared[OF inv]) auto
  moreover have "s\<lparr>s_mem := m', s_mutex := Owned i, s_threads := f\<rparr> = s\<lparr>s_mem := m', s_threads := f\<rparr>" for f
    using own by (cases s) simp
  ultimately show ?thesis using sim_access_step[OF x t(2) _ acc, of "zs @ [Unlock]"] t(1) Cons hp by simp
qed

lemma sim_step_inv:
  assumes inv: "sim_inv m progs w s" and st: "sim_step i s = Some s'"
  shows "sim_inv m progs (w @ happens i s) s'"
  using sim_invD[OF inv, of i]
proof (cases rule: thread_inv.cases)
  case outside
  then obtain c cs where c: "calls (s_threads s i) = c # cs" using st by (cases "calls (s_threads s i)") (auto simp: sim_step_def Let_def)
  then show ?thesis using outside st
    by (auto simp: sim_step_def Let_def happens_def intro!: sim_inv_local[OF inv] thread_inv.entered)
next
  case (entered c k)
  let ?t = "(s_threads s i)\<lparr>code := Some (guarded c @ [Unlock])\<rparr>"
  have free: "s_mutex s = Free" using entered st inv by (auto simp: sim_step_def Let_def body_guarded sim_lock_def sim_inv_def split: sim_mutex.splits)
  then have mem: "s_mem s = snd (c11_run w m)" using inv by (simp add: sim_inv_def)
  have "sim_inv m progs w (s\<lparr>s_mem := s_mem s, s_mutex := Owned i, s_threads := (s_threads s)(i := ?t)\<rparr>)"
    using entered free mem by (intro sim_inv_shared[OF inv]) (auto intro!: thread_inv.inside[where xs = "[]"])
  then show ?thesis using entered st free by (auto simp: sim_step_def Let_def body_guarded happens_def sim_lock_def)
next
  case (inside ys c k xs r)
  then show ?thesis using sim_step_inside[OF inv, of i] st by auto
next
  case (leaving c k)
  then show ?thesis using st
    by (auto simp: sim_step_def Let_def happens_def intro!: sim_inv_local[OF inv] thread_inv.outside)
qed

lemma sim_exec_inv:
  "sim_inv m progs w s \<Longrightarrow> sim_inv m progs (w @ sim_order is s) (sim_exec is s)"
proof (induction "is" arbitrary: w s)
  case (Cons i "is")
  have "calls (s_threads s i) \<noteq> [] \<or> code (s_threads s i) = None"
    using sim_invD[OF Cons.prems, of i] by (cases rule: thread_inv.cases) auto
  then have hp: "happens i s = []" if "sim_step i s = None"
    using that by (auto simp: sim_step_def happens_def Let_def split: list.splits option.splits sim_instr.splits prod.splits)
  show ?case
  proof (cases "sim_step i s")
    case None
    then show ?thesis using Cons hp by (auto simp: happens_def)
  next
    case (Some s')
    then show ?thesis using Cons.IH[OF sim_step_inv[OF Cons.prems Some]] by (simp add: happens_def)
  qed
qed simp

lemma sim_start_inv: "sim_inv m progs [] (sim_start Free m progs)"
  by (auto simp: sim_inv_def sim_start_def intro: thread_inv.outside)

section \<open>Progress\<close>

text \<open>The steps a thread has at most before it.\<close>

definition thread_work :: "sim_thread \<Rightarrow> nat" where
  "thread_work t = (case code t of None \<Rightarrow> 6 * length (calls t) | Some k \<Rightarrow> 6 * (length (calls t) - 1) + length k + 1)"

definition sim_work :: "nat \<Rightarrow> sim_sys \<Rightarrow> nat" where
  "sim_work n s = (\<Sum>i < n. thread_work (s_threads s i))"

lemma sim_step_work:
  assumes "sim_step i s = Some s'"
  shows "thread_work (s_threads s' i) < thread_work (s_threads s i) \<and> (\<forall>k. k \<noteq> i \<longrightarrow> s_threads s' k = s_threads s k)"
  using assms length_body
  by (auto simp: sim_step_def thread_work_def Let_def less_Suc_eq_le split: list.splits option.splits sim_instr.splits prod.splits)

lemma sim_work_step:
  assumes "sim_step i s = Some s'" "i < n"
  shows "sim_work n s' < sim_work n s"
  unfolding sim_work_def
proof (rule sum_strict_mono_ex1)
  show "\<forall>k \<in> {..<n}. thread_work (s_threads s' k) \<le> thread_work (s_threads s k)"
    using sim_step_work[OF assms(1)] by (metis less_imp_le order_refl)
qed (use sim_step_work[OF assms(1)] assms(2) in auto)

lemma sim_not_stuck:
  assumes inv: "sim_inv m progs w s" and "\<not> sim_finished (length progs) s"
  shows "\<exists>i < length progs. sim_step i s \<noteq> None"
proof (cases "s_mutex s")
  case No_Mutex
  then show ?thesis using inv by (simp add: sim_inv_def)
next
  case Free
  obtain i where i: "i < length progs" "calls (s_threads s i) \<noteq> []" using assms(2) by (auto simp: sim_finished_def)
  have "sim_step i s \<noteq> None" using i(2) Free
    by (auto simp: sim_step_def Let_def sim_lock_def split: list.splits option.splits sim_instr.splits prod.splits)
  then show ?thesis using i(1) by blast
next
  case (Owned i)
  from sim_invD[OF inv, of i] show ?thesis
  proof (cases rule: thread_inv.cases)
    case (inside ys c k xs r)
    then have "sim_step i s \<noteq> None" using sim_step_inside[OF inv Owned, of ys c k xs r] by auto
    moreover have "i < length progs" using inside by (auto simp: prog_of_def split: if_splits)
    ultimately show ?thesis by blast
  qed (use Owned in auto)
qed

lemma sim_exec_append: "sim_exec (is @ js) s = sim_exec js (sim_exec is s)"
  by (induction "is" arbitrary: s) simp_all

lemma sim_completes:
  "sim_inv m progs w s \<Longrightarrow> \<exists>more. sim_finished (length progs) (sim_exec more s)"
proof (induction "sim_work (length progs) s" arbitrary: s w rule: less_induct)
  case less
  show ?case
  proof (cases "sim_finished (length progs) s")
    case True
    then show ?thesis by (intro exI[of _ "[]"]) simp
  next
    case False
    then obtain i s' where i: "i < length progs" "sim_step i s = Some s'" using sim_not_stuck[OF less.prems] by blast
    then obtain more where "sim_finished (length progs) (sim_exec more s')"
      using less.hyps[OF sim_work_step sim_step_inv[OF less.prems]] by blast
    then show ?thesis using i(2) by (intro exI[of _ "i # more"]) simp
  qed
qed

lemma thread_inv_order:
  "thread_inv m0 m p cs rs b t \<Longrightarrow> length cs = length rs \<Longrightarrow>
   prefix cs p \<and> prefix (returned t) rs \<and> length cs \<le> length (returned t) + (if code t = None then 0 else 1) \<and>
   (calls t = [] \<longrightarrow> cs = p \<and> returned t = rs)"
  by (erule thread_inv.cases) auto

lemma length_of_thread_run: "length (of_thread i w) = length (of_thread i (fst (c11_run w m)))"
  by (induction w arbitrary: m) (auto simp: Let_def case_prod_beta)

section \<open>The theorem\<close>

text \<open>
  C9: Let any number of threads make any calls of the atomic functions, and let the loads, stores and
  operations on the mutex of all threads be interleaved in any way. Then the calls, in the order
  in which they give the mutex back, are what happens with the atomic functions of the
  compiler: for every thread they are the beginning of its program, they include all calls that have returned,
  at most one call that has not, and none that has not begun, and the calls have returned what the
  builtins return in that order. When no thread has a call left, the whole programs have happened and the
  memory is the one that the builtins leave. From every state the threads can get there, so no
  call is blocked for good.
\<close>

theorem atomic_sim_linearizable:
  fixes m :: atomic_mem and progs :: "atomic_call list list" and sched :: "nat list"
  defines "s0 \<equiv> sim_start (zatomic_thread_init True No_Mutex) m progs"
  defines "w \<equiv> sim_order sched s0" and "s \<equiv> sim_exec sched s0"
  defines "rs \<equiv> fst (c11_run w m)"
  shows "(\<forall>i. prefix (of_thread i w) (prog_of progs i) \<and> prefix (returned (s_threads s i)) (of_thread i rs) \<and>
            length (of_thread i w) \<le> length (returned (s_threads s i)) + (if code (s_threads s i) = None then 0 else 1)) \<and>
         (sim_finished (length progs) s \<longrightarrow>
            (\<forall>i < length progs. of_thread i w = progs ! i \<and> returned (s_threads s i) = of_thread i rs) \<and> s_mem s = snd (c11_run w m)) \<and>
         (\<exists>more. sim_finished (length progs) (sim_exec (sched @ more) s0))"
proof -
  have s0: "s0 = sim_start Free m progs" by (simp add: s0_def zatomic_thread_init_def)
  have inv: "sim_inv m progs w s" using sim_exec_inv[OF sim_start_inv, of m progs sched] by (simp add: w_def s_def s0)
  note ord = thread_inv_order[OF sim_invD[OF inv] length_of_thread_run[of _ w m], folded rs_def]
  have mem: "s_mem s = snd (c11_run w m)" if fin: "sim_finished (length progs) s"
  proof (cases "s_mutex s")
    case (Owned i)
    from sim_invD[OF inv, of i] Owned show ?thesis
      by (cases rule: thread_inv.cases) (use fin in \<open>auto simp: sim_finished_def prog_of_def split: if_splits\<close>)
  qed (use inv in \<open>auto simp: sim_inv_def\<close>)
  have fin: "of_thread i w = progs ! i \<and> returned (s_threads s i) = of_thread i rs"
    if "sim_finished (length progs) s" "i < length progs" for i
    using ord[of i] that by (simp add: sim_finished_def prog_of_def)
  obtain more where "sim_finished (length progs) (sim_exec more s)" using sim_completes[OF inv] by blast
  then have "\<exists>more. sim_finished (length progs) (sim_exec (sched @ more) s0)"
    by (auto simp: s_def sim_exec_append)
  then show ?thesis using ord mem fin by blast
qed

theorem atomic_sim_linearizable_witness:
  "let s0 = sim_start (zatomic_thread_init True No_Mutex) \<lparr>ints = \<lambda>_. 0, ptrs = \<lambda>_. 0\<rparr> [[Int_Inc 16], [Int_Inc 16]];
       sched = [0, 0, 0, 1, 1, 0, 1, 0, 1, 1, 1, 0, 1, 1] in
   ints (s_mem (sim_exec sched s0)) 16 = 2"
proof -
  let ?m = "\<lparr>ints = \<lambda>_. 0, ptrs = \<lambda>_. 0\<rparr>" and ?p = "[[Int_Inc 16], [Int_Inc 16]]"
    and ?sched = "[0, 0, 0, 1, 1, 0, 1, 0, 1, 1, 1, 0, 1, 1] :: nat list"
  let ?s0 = "sim_start (zatomic_thread_init True No_Mutex) ?m ?p"
  note eval = sim_finished_def sim_start_def zatomic_thread_init_def prog_of_def sim_step_def sim_defs sim_lock_def sim_unlock_def
  have "sim_finished (length ?p) (sim_exec ?sched ?s0)" by (auto simp: eval less_Suc_eq)
  moreover have "sim_order ?sched ?s0 = [(0, Int_Inc 16), (1, Int_Inc 16)]" by (simp add: eval)
  moreover have "ints (snd (c11_run [(0, Int_Inc 16), (1, Int_Inc 16)] ?m)) 16 = 2" by code_simp
  moreover note atomic_sim_linearizable[where m = ?m and progs = ?p and sched = ?sched, THEN conjunct2, THEN conjunct1]
  ultimately show ?thesis by (simp only: Let_def)
qed

text \<open>
  When the mutex could not be created, the functions work all the same, and an increment is lost:
  the outcome of locking is not looked at.
\<close>

lemma atomic_sim_without_mutex:
  "\<exists>sched. let s = sim_exec sched (sim_start (zatomic_thread_init False No_Mutex) \<lparr>ints = \<lambda>_. 0, ptrs = \<lambda>_. 0\<rparr> [[Int_Inc 16], [Int_Inc 16]])
     in sim_finished 2 s \<and> ints (s_mem s) 16 = 1"
  by (rule exI[of _ "[0, 0, 0, 1, 1, 1, 0, 0, 0, 1, 1, 1]"])
    (auto simp: sim_finished_def sim_start_def zatomic_thread_init_def prog_of_def sim_step_def sim_defs sim_lock_def sim_unlock_def less_Suc_eq)

end
