(* ===== verification/PTimeProfiler.thy ===== *)
theory PTimeProfiler
  imports Plibsys_Prelude
begin

text \<open>
  The time profiler, \<^verbatim>\<open>src/src/lib/ptimeprofiler.c\<close> with \<^verbatim>\<open>src/src/os/posix/ptimeprofiler-posix.c\<close>. What the clocks show at a call is a
  parameter; a clock may fail. A call through the null function pointer has no result.
\<close>

section \<open>Clocks\<close>

text \<open>The monotonic clock in seconds and nanoseconds, the time of day in seconds and microseconds.\<close>

record clocks =
  clock_gettime :: "(nat \<times> nat) option"
  gettimeofday :: "(nat \<times> nat) option"

datatype PPOSIXTicksFunc = Ticks_Clock | Ticks_Gtod

definition pztime_profiler_get_ticks_gtod :: "clocks \<Rightarrow> puint64" where
  "pztime_profiler_get_ticks_gtod k =
     (case gettimeofday k of
        None \<Rightarrow> 0
      | Some (tv_sec, tv_usec) \<Rightarrow> of_nat tv_sec * 1000000 + of_nat tv_usec)"

definition pztime_profiler_get_ticks_clock :: "clocks \<Rightarrow> puint64" where
  "pztime_profiler_get_ticks_clock k =
     (case clock_gettime k of
        None \<Rightarrow> pztime_profiler_get_ticks_gtod k
      | Some (tv_sec, tv_nsec) \<Rightarrow> of_nat tv_sec * 1000000 + of_nat (tv_nsec div 1000))"

definition ztime_profiler_get_ticks_internal :: "PPOSIXTicksFunc option \<Rightarrow> clocks \<Rightarrow> puint64 option" where
  "ztime_profiler_get_ticks_internal f k =
     map_option (\<lambda>g. case g of Ticks_Clock \<Rightarrow> pztime_profiler_get_ticks_clock k | Ticks_Gtod \<Rightarrow> pztime_profiler_get_ticks_gtod k) f"

text \<open>The branch for systems where the monotonic clock is optional; \<open>sysconf\<close> says whether there is one.\<close>

definition ztime_profiler_init :: "bool \<Rightarrow> PPOSIXTicksFunc option" where
  "ztime_profiler_init sysconf = Some (if sysconf then Ticks_Clock else Ticks_Gtod)"

definition ztime_profiler_shutdown :: "PPOSIXTicksFunc option" where
  "ztime_profiler_shutdown = None"

text \<open>The variant of \<^verbatim>\<open>src/src/tmp/ptimeprofiler-generic.c\<close>, on the time in seconds, which may fail.\<close>

definition ztime_profiler_get_ticks_internal_generic :: "int \<Rightarrow> puint64" where
  "ztime_profiler_get_ticks_internal_generic now = (if now = - 1 then 0 else word_of_int (now * 1000000))"

section \<open>The object\<close>

record PTimeProfiler =
  counter :: puint64

definition ztime_profiler_new :: "PPOSIXTicksFunc option \<Rightarrow> bool \<Rightarrow> clocks \<Rightarrow> PTimeProfiler option option" where
  "ztime_profiler_new f mem k =
     (if \<not> mem then Some None
      else map_option (\<lambda>v. Some \<lparr>counter = v\<rparr>) (ztime_profiler_get_ticks_internal f k))"

definition ztime_profiler_reset :: "PPOSIXTicksFunc option \<Rightarrow> clocks \<Rightarrow> PTimeProfiler option \<Rightarrow> PTimeProfiler option option" where
  "ztime_profiler_reset f k p =
     (case p of
        None \<Rightarrow> Some None
      | Some q \<Rightarrow> map_option (\<lambda>v. Some (q\<lparr>counter := v\<rparr>)) (ztime_profiler_get_ticks_internal f k))"

definition ztime_profiler_elapsed_usecs_internal :: "PPOSIXTicksFunc option \<Rightarrow> clocks \<Rightarrow> PTimeProfiler \<Rightarrow> puint64 option" where
  "ztime_profiler_elapsed_usecs_internal f k p = map_option (\<lambda>v. v - counter p) (ztime_profiler_get_ticks_internal f k)"

definition ztime_profiler_elapsed_usecs_internal_generic :: "int \<Rightarrow> PTimeProfiler \<Rightarrow> puint64" where
  "ztime_profiler_elapsed_usecs_internal_generic now p = ztime_profiler_get_ticks_internal_generic now - counter p"

definition ztime_profiler_elapsed_usecs :: "PPOSIXTicksFunc option \<Rightarrow> clocks \<Rightarrow> PTimeProfiler option \<Rightarrow> puint64 option" where
  "ztime_profiler_elapsed_usecs f k p =
     (case p of None \<Rightarrow> Some 0 | Some q \<Rightarrow> ztime_profiler_elapsed_usecs_internal f k q)"

section \<open>Elapsed time\<close>

text \<open>Microseconds of the clock that is used, when it works.\<close>

definition usecs :: "PPOSIXTicksFunc \<Rightarrow> clocks \<Rightarrow> nat option" where
  "usecs f k =
     (case f of
        Ticks_Clock \<Rightarrow> map_option (\<lambda>(s, n). s * 1000000 + n div 1000) (clock_gettime k)
      | Ticks_Gtod \<Rightarrow> map_option (\<lambda>(s, u). s * 1000000 + u) (gettimeofday k))"

lemma ticks_usecs: "usecs f k = Some u \<Longrightarrow> ztime_profiler_get_ticks_internal (Some f) k = Some (of_nat u)"
  by (cases f)
    (auto simp: usecs_def ztime_profiler_get_ticks_internal_def pztime_profiler_get_ticks_clock_def pztime_profiler_get_ticks_gtod_def)

text \<open>
  The time since the creation or the last reset is exact as long as the clock works and does not go back. When the clock
  fails at the end, the result is the negative of the counter, modulo \<open>2 ^ 64\<close>.
\<close>

theorem profiler_elapsed:
  assumes "usecs f k0 = Some u0" "ztime_profiler_new (Some f) True k0 = Some p \<or> ztime_profiler_reset (Some f) k0 (Some q) = Some p"
  shows "usecs f k1 = Some u1 \<Longrightarrow> u0 \<le> u1 \<Longrightarrow> u1 - u0 < 2 ^ 64 \<Longrightarrow>
      \<exists>v. ztime_profiler_elapsed_usecs (Some f) k1 p = Some v \<and> unat v = u1 - u0"
    "clock_gettime k1 = None \<Longrightarrow> gettimeofday k1 = None \<Longrightarrow> ztime_profiler_elapsed_usecs (Some f) k1 p = Some (- of_nat u0)"
proof -
  have p: "\<exists>r. p = Some r \<and> counter r = of_nat u0"
    using assms(2) ticks_usecs[OF assms(1)] by (auto simp: ztime_profiler_new_def ztime_profiler_reset_def)
  show "\<exists>v. ztime_profiler_elapsed_usecs (Some f) k1 p = Some v \<and> unat v = u1 - u0"
    if "usecs f k1 = Some u1" "u0 \<le> u1" "u1 - u0 < 2 ^ 64"
  proof -
    have "unat (of_nat u1 - of_nat u0 :: puint64) = u1 - u0"
      using that(3) by (simp add: of_nat_diff[OF that(2), symmetric] unat_of_nat del: of_nat_diff)
    then show ?thesis using p ticks_usecs[OF that(1)]
      by (auto simp: ztime_profiler_elapsed_usecs_def ztime_profiler_elapsed_usecs_internal_def)
  qed
  show "ztime_profiler_elapsed_usecs (Some f) k1 p = Some (- of_nat u0)" if "clock_gettime k1 = None" "gettimeofday k1 = None"
    using p that
    by (cases f) (auto simp: ztime_profiler_elapsed_usecs_def ztime_profiler_elapsed_usecs_internal_def ztime_profiler_get_ticks_internal_def
        pztime_profiler_get_ticks_clock_def pztime_profiler_get_ticks_gtod_def)
qed

text \<open>The generic variant counts whole seconds.\<close>

lemma len64: "LENGTH(64) = 64"
  by simp

lemma profiler_elapsed_generic:
  assumes "0 \<le> t0" "t0 \<le> t1" "(t1 - t0) * 1000000 < 2 ^ 64" "counter p = ztime_profiler_get_ticks_internal_generic t0"
  shows "uint (ztime_profiler_elapsed_usecs_internal_generic t1 p) = (t1 - t0) * 1000000"
proof -
  have "ztime_profiler_elapsed_usecs_internal_generic t1 p = word_of_int ((t1 - t0) * 1000000)"
    using assms(1,2,4) by (simp add: ztime_profiler_elapsed_usecs_internal_generic_def ztime_profiler_get_ticks_internal_generic_def algebra_simps)
  moreover have "take_bit 64 ((t1 - t0) * 1000000) = (t1 - t0) * 1000000" using assms(2,3) by (intro take_bit_int_eq_self) simp_all
  ultimately show ?thesis by (simp only: uint_word_of_int_eq len64)
qed

end
