(* ===== verification/PMain.thy ===== *)
theory PMain
  imports PMem PAtomic_Sim PTimeProfiler
begin

text \<open>
  Starting and stopping the library, \<^verbatim>\<open>src/src/lib/pmain.c\<close>. The static variables of the components that have a model with a start of their
  own are part of the state; for every component the calls of its two functions are logged.
\<close>

datatype lib_part = L_Mem | L_Atomic | L_Socket | L_UThread | L_Cond | L_RWLock | L_Time | L_Loader

datatype lib_call = Part_Init lib_part | Part_Shutdown lib_part

record 'h lib_state =
  pzplibsys_inited :: bool
  l_mem :: "'h mem_state"
  l_atomic :: sim_mutex
  l_ticks :: "PPOSIXTicksFunc option"
  l_log :: "lib_call list"

definition lib_start :: "'h lib_state" where
  "lib_start = \<lparr>pzplibsys_inited = False, l_mem = mem_start, l_atomic = No_Mutex, l_ticks = None, l_log = []\<rparr>"

text \<open>The allocator of the C library, whether a mutex can be created, whether there is a monotonic clock.\<close>

record 'h lib_env =
  le_libc :: "'h PMemVTable"
  le_mutex :: bool
  le_clock :: bool

fun part_call :: "'h lib_env \<Rightarrow> lib_call \<Rightarrow> 'h lib_state \<Rightarrow> 'h lib_state" where
  "part_call e (Part_Init L_Mem) s = s\<lparr>l_mem := zmem_init (le_libc e) (l_mem s), l_log := l_log s @ [Part_Init L_Mem]\<rparr>"
| "part_call e (Part_Shutdown L_Mem) s = s\<lparr>l_mem := zmem_shutdown (l_mem s), l_log := l_log s @ [Part_Shutdown L_Mem]\<rparr>"
| "part_call e (Part_Init L_Atomic) s = s\<lparr>l_atomic := zatomic_thread_init (le_mutex e) (l_atomic s), l_log := l_log s @ [Part_Init L_Atomic]\<rparr>"
| "part_call e (Part_Shutdown L_Atomic) s = s\<lparr>l_atomic := zatomic_thread_shutdown (l_atomic s), l_log := l_log s @ [Part_Shutdown L_Atomic]\<rparr>"
| "part_call e (Part_Init L_Time) s = s\<lparr>l_ticks := ztime_profiler_init (le_clock e), l_log := l_log s @ [Part_Init L_Time]\<rparr>"
| "part_call e (Part_Shutdown L_Time) s = s\<lparr>l_ticks := ztime_profiler_shutdown, l_log := l_log s @ [Part_Shutdown L_Time]\<rparr>"
| "part_call e c s = s\<lparr>l_log := l_log s @ [c]\<rparr>"

definition zlibsys_init :: "'h lib_env \<Rightarrow> 'h lib_state \<Rightarrow> 'h lib_state" where
  "zlibsys_init e s =
     (if pzplibsys_inited s then s
      else fold (part_call e)
        [Part_Init L_Mem, Part_Init L_Atomic, Part_Init L_Socket, Part_Init L_UThread, Part_Init L_Cond, Part_Init L_RWLock,
         Part_Init L_Time, Part_Init L_Loader]
        (s\<lparr>pzplibsys_inited := True\<rparr>))"

definition zlibsys_init_full :: "'h lib_env \<Rightarrow> 'h PMemVTable option \<Rightarrow> 'h lib_state \<Rightarrow> 'h lib_state" where
  "zlibsys_init_full e vtable s = zlibsys_init e (s\<lparr>l_mem := fst (zmem_set_vtable vtable (l_mem s))\<rparr>)"

definition zlibsys_shutdown :: "'h lib_env \<Rightarrow> 'h lib_state \<Rightarrow> 'h lib_state" where
  "zlibsys_shutdown e s =
     (if \<not> pzplibsys_inited s then s
      else fold (part_call e)
        [Part_Init L_Loader, Part_Shutdown L_Time, Part_Shutdown L_RWLock, Part_Shutdown L_Cond, Part_Shutdown L_UThread,
         Part_Shutdown L_Socket, Part_Shutdown L_Atomic, Part_Shutdown L_Mem]
        (s\<lparr>pzplibsys_inited := False\<rparr>))"

section \<open>Programs\<close>

datatype 'h lib_op = Lib_Init | Lib_Init_Full "'h PMemVTable option" | Lib_Shutdown

fun lib_step :: "'h lib_env \<Rightarrow> 'h lib_op \<Rightarrow> 'h lib_state \<Rightarrow> 'h lib_state" where
  "lib_step e Lib_Init s = zlibsys_init e s"
| "lib_step e (Lib_Init_Full t) s = zlibsys_init_full e t s"
| "lib_step e Lib_Shutdown s = zlibsys_shutdown e s"

definition lib_run :: "'h lib_env \<Rightarrow> 'h lib_op list \<Rightarrow> 'h lib_state" where
  "lib_run e ops = fold (lib_step e) ops lib_start"

text \<open>
  The calls of one life of the library: the parts are started in order and stopped in the reverse order, except that the
  last one is started again.
\<close>

definition lib_parts :: "lib_part list" where
  "lib_parts = [L_Mem, L_Atomic, L_Socket, L_UThread, L_Cond, L_RWLock, L_Time, L_Loader]"

definition lib_ups :: "lib_call list" where
  "lib_ups = map Part_Init lib_parts"

definition lib_downs :: "lib_call list" where
  "lib_downs = Part_Init (last lib_parts) # map Part_Shutdown (rev (butlast lib_parts))"

definition lib_inv :: "'h lib_env \<Rightarrow> 'h lib_state \<Rightarrow> bool" where
  "lib_inv e s \<longleftrightarrow>
     (if pzplibsys_inited s
      then zmem_table_inited (l_mem s) \<and> full_table (zmem_table (l_mem s)) \<and>
        l_atomic s = (if le_mutex e then Free else No_Mutex) \<and> l_ticks s = Some (if le_clock e then Ticks_Clock else Ticks_Gtod)
      else l_mem s = mem_start \<and> l_atomic s = No_Mutex \<and> l_ticks s = None) \<and>
     (\<exists>n. l_log s = concat (replicate n (lib_ups @ lib_downs)) @ (if pzplibsys_inited s then lib_ups else []))"

lemmas lib_defs = zmem_init_def zmem_restore_vtable_def zmem_shutdown_def zatomic_thread_init_def zatomic_thread_shutdown_def
  ztime_profiler_init_def ztime_profiler_shutdown_def mem_start_def lib_ups_def lib_downs_def lib_parts_def

lemma concat_replicate_snoc: "concat (replicate n xs) @ xs = concat (replicate (Suc n) xs)"
  by (induction n) simp_all

lemma zlibsys_init_inv:
  assumes "lib_inv e (s\<lparr>l_mem := m\<rparr>)" "full_table (le_libc e)" "m' = m \<or> (full_table (zmem_table m') \<and> zmem_table_inited m')"
  shows "lib_inv e (zlibsys_init e (s\<lparr>l_mem := m'\<rparr>))"
  using assms by (auto simp: lib_inv_def zlibsys_init_def lib_defs split: if_splits)

lemma set_vtable_full:
  "fst (zmem_set_vtable t m) = m \<or> (full_table (zmem_table (fst (zmem_set_vtable t m))) \<and> zmem_table_inited (fst (zmem_set_vtable t m)))"
  by (auto simp: zmem_set_vtable_def full_table_def split: option.splits)

lemma zlibsys_shutdown_inv:
  assumes "lib_inv e s"
  shows "lib_inv e (zlibsys_shutdown e s)"
proof (cases "pzplibsys_inited s")
  case True
  then obtain n where n: "l_log s = concat (replicate n (lib_ups @ lib_downs)) @ lib_ups" using assms by (auto simp: lib_inv_def)
  have "l_log (zlibsys_shutdown e s) = l_log s @ lib_downs" using True by (simp add: zlibsys_shutdown_def lib_downs_def lib_parts_def)
  then have log: "\<exists>k. l_log (zlibsys_shutdown e s) = concat (replicate k (lib_ups @ lib_downs))"
    using concat_replicate_snoc[of n "lib_ups @ lib_downs"] n by (intro exI[of _ "Suc n"]) simp
  have "\<not> pzplibsys_inited (zlibsys_shutdown e s) \<and> l_mem (zlibsys_shutdown e s) = mem_start \<and>
      l_atomic (zlibsys_shutdown e s) = No_Mutex \<and> l_ticks (zlibsys_shutdown e s) = None"
    using True assms by (auto simp: lib_inv_def zlibsys_shutdown_def lib_defs)
  then show ?thesis using log by (simp add: lib_inv_def)
qed (use assms in \<open>simp add: zlibsys_shutdown_def\<close>)

lemma lib_step_inv:
  assumes "lib_inv e s" "full_table (le_libc e)"
  shows "lib_inv e (lib_step e x s)"
proof -
  have init: "lib_inv e (zlibsys_init e (s\<lparr>l_mem := m'\<rparr>))"
    if "m' = l_mem s \<or> (full_table (zmem_table m') \<and> zmem_table_inited m')" for m'
    using zlibsys_init_inv[where s = s and m = "l_mem s", OF _ assms(2) that] assms(1) by simp
  show ?thesis
  proof (cases x)
    case Lib_Init
    then show ?thesis using init[of "l_mem s"] by simp
  next
    case (Lib_Init_Full t)
    then show ?thesis using init[OF set_vtable_full[of t "l_mem s"]] by (simp add: zlibsys_init_full_def)
  next
    case Lib_Shutdown
    then show ?thesis using zlibsys_shutdown_inv[OF assms(1)] by simp
  qed
qed

lemma lib_run_inv: "full_table (le_libc e) \<Longrightarrow> lib_inv e (lib_run e ops)"
proof (induction ops rule: rev_induct)
  case Nil
  then show ?case by (auto simp: lib_run_def lib_start_def lib_inv_def intro!: exI[of _ 0])
next
  case (snoc x xs)
  then show ?case using lib_step_inv by (simp add: lib_run_def)
qed

text \<open>With a full table every call has a result.\<close>

lemma full_table_calls:
  assumes "full_table (zmem_table st)"
  shows "zmalloc st n h \<noteq> None" "zmalloc0 st n h \<noteq> None" "zrealloc st p n h \<noteq> None" "zfree st p g \<noteq> None"
proof -
  obtain f g' k where t: "vt_malloc (zmem_table st) = Some f" "vt_realloc (zmem_table st) = Some g'" "vt_free (zmem_table st) = Some k"
    using assms by (auto simp: full_table_def)
  show "zmalloc st n h \<noteq> None" "zrealloc st p n h \<noteq> None" "zfree st p g \<noteq> None"
    using t by (simp_all add: zmalloc_def zrealloc_def zfree_def del: not_None_eq)
  show "zmalloc0 st n h \<noteq> None" using t by (cases "f n h") (simp add: zmalloc0_def del: not_None_eq)
qed

end
