(* ===== verification/PAtomic_Sync.thy ===== *)
theory PAtomic_Sync
  imports PAtomic
begin

text \<open>
  The atomic operations of \<^verbatim>\<open>src/src/tmp/patomic-sync.c\<close>, for compilers with the older builtins (not the one of Cray). Reading and writing are
  plain accesses with a barrier before or after. The functions are the same as those of \<^verbatim>\<open>src/src/lib/patomic-c11.c\<close>.
\<close>

unbundle bit_operations_syntax

section \<open>Builtins\<close>

definition sync_read :: "'w::len word \<Rightarrow> 'w word \<times> 'w word" where
  "sync_read cell = (cell, cell)"

definition sync_write :: "'w::len word \<Rightarrow> 'w word \<Rightarrow> unit \<times> 'w word" where
  "sync_write val cell = ((), val)"

definition sync_fetch_and_add :: "'w::len word \<Rightarrow> 'w word \<Rightarrow> 'w word \<times> 'w word" where
  "sync_fetch_and_add val cell = (cell, cell + val)"

definition sync_fetch_and_sub :: "'w::len word \<Rightarrow> 'w word \<Rightarrow> 'w word \<times> 'w word" where
  "sync_fetch_and_sub val cell = (cell, cell - val)"

definition sync_fetch_and_and :: "'w::len word \<Rightarrow> 'w word \<Rightarrow> 'w word \<times> 'w word" where
  "sync_fetch_and_and val cell = (cell, cell AND val)"

definition sync_fetch_and_or :: "'w::len word \<Rightarrow> 'w word \<Rightarrow> 'w word \<times> 'w word" where
  "sync_fetch_and_or val cell = (cell, cell OR val)"

definition sync_fetch_and_xor :: "'w::len word \<Rightarrow> 'w word \<Rightarrow> 'w word \<times> 'w word" where
  "sync_fetch_and_xor val cell = (cell, cell XOR val)"

definition sync_compare_and_swap :: "'w::len word \<Rightarrow> 'w word \<Rightarrow> 'w word \<Rightarrow> bool \<times> 'w word" where
  "sync_compare_and_swap oldval newval cell = (cell = oldval, if cell = oldval then newval else cell)"

section \<open>The functions\<close>

definition zatomic_int_get_sync :: "ppointer \<Rightarrow> atomic_mem \<Rightarrow> atomic_result \<times> atomic_mem" where
  "zatomic_int_get_sync a m = apfst R_Int (on_int a sync_read m)"

definition zatomic_int_set_sync :: "ppointer \<Rightarrow> pint \<Rightarrow> atomic_mem \<Rightarrow> atomic_result \<times> atomic_mem" where
  "zatomic_int_set_sync a val m = apfst (\<lambda>_. R_Void) (on_int a (sync_write val) m)"

definition zatomic_int_inc_sync :: "ppointer \<Rightarrow> atomic_mem \<Rightarrow> atomic_result \<times> atomic_mem" where
  "zatomic_int_inc_sync a m = apfst (\<lambda>_. R_Void) (on_int a (sync_fetch_and_add 1) m)"

definition zatomic_int_dec_and_test_sync :: "ppointer \<Rightarrow> atomic_mem \<Rightarrow> atomic_result \<times> atomic_mem" where
  "zatomic_int_dec_and_test_sync a m = apfst (\<lambda>old. R_Bool (old = 1)) (on_int a (sync_fetch_and_sub 1) m)"

definition zatomic_int_compare_and_exchange_sync :: "ppointer \<Rightarrow> pint \<Rightarrow> pint \<Rightarrow> atomic_mem \<Rightarrow> atomic_result \<times> atomic_mem" where
  "zatomic_int_compare_and_exchange_sync a oldval newval m = apfst R_Bool (on_int a (sync_compare_and_swap oldval newval) m)"

definition zatomic_int_add_sync :: "ppointer \<Rightarrow> pint \<Rightarrow> atomic_mem \<Rightarrow> atomic_result \<times> atomic_mem" where
  "zatomic_int_add_sync a val m = apfst R_Int (on_int a (sync_fetch_and_add val) m)"

definition zatomic_int_and_sync :: "ppointer \<Rightarrow> pint \<Rightarrow> atomic_mem \<Rightarrow> atomic_result \<times> atomic_mem" where
  "zatomic_int_and_sync a val m = apfst R_Int (on_int a (sync_fetch_and_and val) m)"

definition zatomic_int_or_sync :: "ppointer \<Rightarrow> pint \<Rightarrow> atomic_mem \<Rightarrow> atomic_result \<times> atomic_mem" where
  "zatomic_int_or_sync a val m = apfst R_Int (on_int a (sync_fetch_and_or val) m)"

definition zatomic_int_xor_sync :: "ppointer \<Rightarrow> pint \<Rightarrow> atomic_mem \<Rightarrow> atomic_result \<times> atomic_mem" where
  "zatomic_int_xor_sync a val m = apfst R_Int (on_int a (sync_fetch_and_xor val) m)"

definition zatomic_pointer_get_sync :: "ppointer \<Rightarrow> atomic_mem \<Rightarrow> atomic_result \<times> atomic_mem" where
  "zatomic_pointer_get_sync a m = apfst R_Size (on_ptr a sync_read m)"

definition zatomic_pointer_set_sync :: "ppointer \<Rightarrow> psize \<Rightarrow> atomic_mem \<Rightarrow> atomic_result \<times> atomic_mem" where
  "zatomic_pointer_set_sync a val m = apfst (\<lambda>_. R_Void) (on_ptr a (sync_write val) m)"

definition zatomic_pointer_compare_and_exchange_sync :: "ppointer \<Rightarrow> psize \<Rightarrow> psize \<Rightarrow> atomic_mem \<Rightarrow> atomic_result \<times> atomic_mem" where
  "zatomic_pointer_compare_and_exchange_sync a oldval newval m = apfst R_Bool (on_ptr a (sync_compare_and_swap oldval newval) m)"

definition zatomic_pointer_add_sync :: "ppointer \<Rightarrow> psize \<Rightarrow> atomic_mem \<Rightarrow> atomic_result \<times> atomic_mem" where
  "zatomic_pointer_add_sync a val m = apfst R_Size (on_ptr a (sync_fetch_and_add val) m)"

definition zatomic_pointer_and_sync :: "ppointer \<Rightarrow> psize \<Rightarrow> atomic_mem \<Rightarrow> atomic_result \<times> atomic_mem" where
  "zatomic_pointer_and_sync a val m = apfst R_Size (on_ptr a (sync_fetch_and_and val) m)"

definition zatomic_pointer_or_sync :: "ppointer \<Rightarrow> psize \<Rightarrow> atomic_mem \<Rightarrow> atomic_result \<times> atomic_mem" where
  "zatomic_pointer_or_sync a val m = apfst R_Size (on_ptr a (sync_fetch_and_or val) m)"

definition zatomic_pointer_xor_sync :: "ppointer \<Rightarrow> psize \<Rightarrow> atomic_mem \<Rightarrow> atomic_result \<times> atomic_mem" where
  "zatomic_pointer_xor_sync a val m = apfst R_Size (on_ptr a (sync_fetch_and_xor val) m)"

definition zatomic_is_lock_free_sync :: bool where
  "zatomic_is_lock_free_sync = True"

fun sync_call :: "atomic_call \<Rightarrow> atomic_mem \<Rightarrow> atomic_result \<times> atomic_mem" where
  "sync_call (Int_Get a) = zatomic_int_get_sync a"
| "sync_call (Int_Set a v) = zatomic_int_set_sync a v"
| "sync_call (Int_Inc a) = zatomic_int_inc_sync a"
| "sync_call (Int_Dec_And_Test a) = zatomic_int_dec_and_test_sync a"
| "sync_call (Int_Compare_And_Exchange a u v) = zatomic_int_compare_and_exchange_sync a u v"
| "sync_call (Int_Add a v) = zatomic_int_add_sync a v"
| "sync_call (Int_And a v) = zatomic_int_and_sync a v"
| "sync_call (Int_Or a v) = zatomic_int_or_sync a v"
| "sync_call (Int_Xor a v) = zatomic_int_xor_sync a v"
| "sync_call (Pointer_Get a) = zatomic_pointer_get_sync a"
| "sync_call (Pointer_Set a v) = zatomic_pointer_set_sync a v"
| "sync_call (Pointer_Compare_And_Exchange a u v) = zatomic_pointer_compare_and_exchange_sync a u v"
| "sync_call (Pointer_Add a v) = zatomic_pointer_add_sync a v"
| "sync_call (Pointer_And a v) = zatomic_pointer_and_sync a v"
| "sync_call (Pointer_Or a v) = zatomic_pointer_or_sync a v"
| "sync_call (Pointer_Xor a v) = zatomic_pointer_xor_sync a v"

lemmas sync_defs =
  zatomic_int_get_sync_def zatomic_int_set_sync_def zatomic_int_inc_sync_def zatomic_int_dec_and_test_sync_def
  zatomic_int_compare_and_exchange_sync_def zatomic_int_add_sync_def zatomic_int_and_sync_def zatomic_int_or_sync_def zatomic_int_xor_sync_def
  zatomic_pointer_get_sync_def zatomic_pointer_set_sync_def zatomic_pointer_compare_and_exchange_sync_def
  zatomic_pointer_add_sync_def zatomic_pointer_and_sync_def zatomic_pointer_or_sync_def zatomic_pointer_xor_sync_def
  sync_read_def sync_write_def sync_fetch_and_add_def sync_fetch_and_sub_def sync_fetch_and_and_def
  sync_fetch_and_or_def sync_fetch_and_xor_def sync_compare_and_swap_def

text \<open>Every call has the effect and the result that it has with the C11 builtins.\<close>

theorem sync_call_c11: "sync_call c = c11_call c"
  by (cases c) (auto simp: fun_eq_iff sync_defs c11_defs)

end
