(* ===== verification/PSpinLock.thy ===== *)
theory PSpinLock
  imports PAtomic_Sync
begin

text \<open>
  The spin locks of \<^verbatim>\<open>src/src/lib/pspinlock-c11.c\<close>, \<^verbatim>\<open>src/src/tmp/pspinlock-sync.c\<close>, \<^verbatim>\<open>src/src/tmp/pspinlock-sim.c\<close> and
  \<^verbatim>\<open>src/src/os/win/pspinlock-win.c\<close>. A
  call that waits is given by one round of its loop: no value means that the function has not
  returned yet. Threads that use a lock are a machine over these functions; what it needs of
  them is an interface.
\<close>

section \<open>With the builtins of the compiler\<close>

record PSpinLock =
  spin :: pint

definition zspinlock_new :: "bool \<Rightarrow> PSpinLock option" where
  "zspinlock_new mem = (if \<not> mem then None else Some \<lparr>spin = 0\<rparr>)"

definition zspinlock_lock :: "PSpinLock option \<Rightarrow> (bool \<times> PSpinLock option) option" where
  "zspinlock_lock lp =
     (case lp of
        None \<Rightarrow> Some (False, None)
      | Some l \<Rightarrow>
          let (ok, v) = atomic_compare_exchange_n 0 1 (spin l)
          in if ok = False then None else Some (True, Some (l\<lparr>spin := v\<rparr>)))"

definition zspinlock_trylock :: "PSpinLock option \<Rightarrow> bool \<times> PSpinLock option" where
  "zspinlock_trylock lp =
     (case lp of
        None \<Rightarrow> (False, None)
      | Some l \<Rightarrow> let (ok, v) = atomic_compare_exchange_n 0 1 (spin l) in (ok, Some (l\<lparr>spin := v\<rparr>)))"

definition zspinlock_unlock :: "PSpinLock option \<Rightarrow> bool \<times> PSpinLock option" where
  "zspinlock_unlock lp =
     (case lp of
        None \<Rightarrow> (False, None)
      | Some l \<Rightarrow> (True, Some (l\<lparr>spin := snd (atomic_store 0 (spin l))\<rparr>)))"

section \<open>With the older builtins\<close>

definition zspinlock_lock_sync :: "PSpinLock option \<Rightarrow> (bool \<times> PSpinLock option) option" where
  "zspinlock_lock_sync lp =
     (case lp of
        None \<Rightarrow> Some (False, None)
      | Some l \<Rightarrow>
          let (ok, v) = sync_compare_and_swap 0 1 (spin l)
          in if ok = False then None else Some (True, Some (l\<lparr>spin := v\<rparr>)))"

definition zspinlock_trylock_sync :: "PSpinLock option \<Rightarrow> bool \<times> PSpinLock option" where
  "zspinlock_trylock_sync lp =
     (case lp of
        None \<Rightarrow> (False, None)
      | Some l \<Rightarrow> let (ok, v) = sync_compare_and_swap 0 1 (spin l) in (ok, Some (l\<lparr>spin := v\<rparr>)))"

definition zspinlock_unlock_sync :: "PSpinLock option \<Rightarrow> bool \<times> PSpinLock option" where
  "zspinlock_unlock_sync lp =
     (case lp of
        None \<Rightarrow> (False, None)
      | Some l \<Rightarrow> (True, Some (l\<lparr>spin := 0\<rparr>)))"

section \<open>With a mutex\<close>

text \<open>The mutex and its functions are parameters.\<close>

record 'm PSpinLock_sim =
  sl_mutex :: 'm

definition zspinlock_new_sim :: "bool \<Rightarrow> 'm option \<Rightarrow> 'm PSpinLock_sim option" where
  "zspinlock_new_sim mem mutex_new =
     (if \<not> mem then None
      else (case mutex_new of None \<Rightarrow> None | Some mx \<Rightarrow> Some \<lparr>sl_mutex = mx\<rparr>))"

definition zspinlock_lock_sim ::
    "('m \<Rightarrow> (bool \<times> 'm) option) \<Rightarrow> 'm PSpinLock_sim option \<Rightarrow> (bool \<times> 'm PSpinLock_sim option) option" where
  "zspinlock_lock_sim mutex_lock lp =
     (case lp of
        None \<Rightarrow> Some (False, None)
      | Some l \<Rightarrow> map_option (\<lambda>(r, mx). (r, Some (l\<lparr>sl_mutex := mx\<rparr>))) (mutex_lock (sl_mutex l)))"

definition zspinlock_trylock_sim ::
    "('m \<Rightarrow> bool \<times> 'm) \<Rightarrow> 'm PSpinLock_sim option \<Rightarrow> bool \<times> 'm PSpinLock_sim option" where
  "zspinlock_trylock_sim mutex_trylock lp =
     (case lp of
        None \<Rightarrow> (False, None)
      | Some l \<Rightarrow> apsnd (\<lambda>mx. Some (l\<lparr>sl_mutex := mx\<rparr>)) (mutex_trylock (sl_mutex l)))"

definition zspinlock_unlock_sim ::
    "('m \<Rightarrow> bool \<times> 'm) \<Rightarrow> 'm PSpinLock_sim option \<Rightarrow> bool \<times> 'm PSpinLock_sim option" where
  "zspinlock_unlock_sim mutex_unlock lp =
     (case lp of
        None \<Rightarrow> (False, None)
      | Some l \<Rightarrow> apsnd (\<lambda>mx. Some (l\<lparr>sl_mutex := mx\<rparr>)) (mutex_unlock (sl_mutex l)))"

section \<open>With the atomic functions of the library\<close>

text \<open>The lock of Windows is an integer in memory, at the address of the object.\<close>

definition zspinlock_new_win :: "ppointer \<Rightarrow> atomic_mem \<Rightarrow> ppointer option \<times> atomic_mem" where
  "zspinlock_new_win p m = (if p = NULL then (None, m) else (Some p, m\<lparr>ints := (ints m)(p := 0)\<rparr>))"

definition zspinlock_lock_win :: "ppointer option \<times> atomic_mem \<Rightarrow> (bool \<times> ppointer option \<times> atomic_mem) option" where
  "zspinlock_lock_win l =
     (case l of
        (None, m) \<Rightarrow> Some (False, l)
      | (Some p, m) \<Rightarrow>
          let (r, m') = zatomic_int_compare_and_exchange p 0 1 m
          in if r = R_Bool False then None else Some (True, Some p, m'))"

definition zspinlock_trylock_win :: "ppointer option \<times> atomic_mem \<Rightarrow> bool \<times> ppointer option \<times> atomic_mem" where
  "zspinlock_trylock_win l =
     (case l of
        (None, m) \<Rightarrow> (False, l)
      | (Some p, m) \<Rightarrow> let (r, m') = zatomic_int_compare_and_exchange p 0 1 m in (r = R_Bool True, Some p, m'))"

definition zspinlock_unlock_win :: "ppointer option \<times> atomic_mem \<Rightarrow> bool \<times> ppointer option \<times> atomic_mem" where
  "zspinlock_unlock_win l =
     (case l of
        (None, m) \<Rightarrow> (False, l)
      | (Some p, m) \<Rightarrow> (True, Some p, snd (zatomic_int_set p 0 m)))"

section \<open>Threads that use a lock\<close>

datatype spin_pc = Outside | Locking | Critical

datatype spin_event = Call_Lock nat | Spin nat | Try_Lock nat | Release nat

type_synonym 'l spin_state = "'l \<times> (nat \<Rightarrow> spin_pc)"

text \<open>An event whose thread is not where it would have to be does not happen.\<close>

fun spin_step ::
    "('l \<Rightarrow> (bool \<times> 'l) option) \<Rightarrow> ('l \<Rightarrow> bool \<times> 'l) \<Rightarrow> ('l \<Rightarrow> bool \<times> 'l) \<Rightarrow> spin_event \<Rightarrow> 'l spin_state \<Rightarrow> 'l spin_state" where
  "spin_step lock trylock unlock (Call_Lock i) (l, pc) = (if pc i = Outside then (l, pc(i := Locking)) else (l, pc))"
| "spin_step lock trylock unlock (Spin i) (l, pc) =
     (if pc i = Locking
      then (case lock l of None \<Rightarrow> (l, pc) | Some (r, l') \<Rightarrow> (l', pc(i := if r then Critical else Outside)))
      else (l, pc))"
| "spin_step lock trylock unlock (Try_Lock i) (l, pc) =
     (if pc i = Outside then (case trylock l of (r, l') \<Rightarrow> (l', pc(i := if r then Critical else Outside))) else (l, pc))"
| "spin_step lock trylock unlock (Release i) (l, pc) =
     (if pc i = Critical then (snd (unlock l), pc(i := Outside)) else (l, pc))"

definition spin_run ::
    "('l \<Rightarrow> (bool \<times> 'l) option) \<Rightarrow> ('l \<Rightarrow> bool \<times> 'l) \<Rightarrow> ('l \<Rightarrow> bool \<times> 'l) \<Rightarrow> spin_event list \<Rightarrow> 'l \<Rightarrow> 'l spin_state" where
  "spin_run lock trylock unlock evs l = fold (spin_step lock trylock unlock) evs (l, \<lambda>_. Outside)"

section \<open>The interface\<close>

locale lock_contract =
  fixes lock :: "'l \<Rightarrow> (bool \<times> 'l) option" and trylock :: "'l \<Rightarrow> bool \<times> 'l" and unlock :: "'l \<Rightarrow> bool \<times> 'l"
    and valid :: "'l \<Rightarrow> bool" and held :: "'l \<Rightarrow> bool"
  assumes lock_free: "valid l \<Longrightarrow> \<not> held l \<Longrightarrow> \<exists>l'. lock l = Some (True, l') \<and> valid l' \<and> held l'"
    and lock_held: "valid l \<Longrightarrow> held l \<Longrightarrow> lock l = None"
    and try_free: "valid l \<Longrightarrow> \<not> held l \<Longrightarrow> \<exists>l'. trylock l = (True, l') \<and> valid l' \<and> held l'"
    and try_held: "valid l \<Longrightarrow> held l \<Longrightarrow> \<exists>l'. trylock l = (False, l') \<and> valid l' \<and> held l'"
    and unlock_held: "valid l \<Longrightarrow> held l \<Longrightarrow> \<exists>l'. unlock l = (True, l') \<and> valid l' \<and> \<not> held l'"
begin

text \<open>The lock is held when exactly one thread is inside.\<close>

definition spin_inv :: "'l spin_state \<Rightarrow> bool" where
  "spin_inv s \<longleftrightarrow> valid (fst s) \<and>
     (if held (fst s) then \<exists>i. \<forall>k. snd s k = Critical \<longleftrightarrow> k = i else \<forall>k. snd s k \<noteq> Critical)"

lemma spin_invI_held: "valid l \<Longrightarrow> held l \<Longrightarrow> (\<And>k. pc k = Critical \<longleftrightarrow> k = i) \<Longrightarrow> spin_inv (l, pc)"
  by (auto simp: spin_inv_def)

lemma spin_invI_free: "valid l \<Longrightarrow> \<not> held l \<Longrightarrow> (\<And>k. pc k \<noteq> Critical) \<Longrightarrow> spin_inv (l, pc)"
  by (auto simp: spin_inv_def)

lemma spin_step_inv:
  assumes "spin_inv (l, pc)"
  shows "spin_inv (spin_step lock trylock unlock e (l, pc))"
proof (cases "held l")
  case True
  obtain o' where o: "\<And>k. pc k = Critical \<longleftrightarrow> k = o'" and v: "valid l" using assms True by (auto simp: spin_inv_def)
  obtain l1 where l1: "trylock l = (False, l1)" "valid l1" "held l1" using try_held[OF v True] by blast
  obtain l2 where l2: "unlock l = (True, l2)" "valid l2" "\<not> held l2" using unlock_held[OF v True] by blast
  have stay: "spin_inv (l', pc(i := p))" if "valid l'" "held l'" "pc i \<noteq> Critical" "p \<noteq> Critical" for l' i p
    by (rule spin_invI_held[OF that(1,2), of _ o']) (use o that(3,4) in auto)
  show ?thesis
  proof (cases e)
    case (Release i)
    have "spin_inv (l2, pc(o' := Outside))" by (rule spin_invI_free[OF l2(2,3)]) (use o in auto)
    then show ?thesis using Release o l2(1) assms by simp
  qed (use v True l1 assms lock_held[OF v True] in \<open>simp_all add: stay\<close>)
next
  case False
  have n: "\<And>k. pc k \<noteq> Critical" and v: "valid l" using assms False by (auto simp: spin_inv_def)
  obtain l1 where l1: "lock l = Some (True, l1)" "valid l1" "held l1" using lock_free[OF v False] by blast
  obtain l2 where l2: "trylock l = (True, l2)" "valid l2" "held l2" using try_free[OF v False] by blast
  have take: "spin_inv (l', pc(i := Critical))" if "valid l'" "held l'" for l' i
    by (rule spin_invI_held[OF that, of _ i]) (use n in auto)
  have call: "spin_inv (l, pc(i := Locking))" for i by (rule spin_invI_free[OF v False]) (use n in auto)
  show ?thesis
    by (cases e) (use n v False l1 l2 assms in \<open>simp_all add: take call\<close>)
qed

lemma spin_run_inv: "valid l \<Longrightarrow> \<not> held l \<Longrightarrow> spin_inv (spin_run lock trylock unlock evs l)"
proof (induction evs rule: rev_induct)
  case Nil
  then show ?case by (simp add: spin_run_def spin_invI_free)
next
  case (snoc e es)
  then show ?case using spin_step_inv by (cases "spin_run lock trylock unlock es l") (simp add: spin_run_def)
qed

lemma exclusion:
  assumes "valid l0" "\<not> held l0" "spin_run lock trylock unlock evs l0 = (l, pc)"
  shows "(\<forall>i k. pc i = Critical \<and> pc k = Critical \<longrightarrow> i = k) \<and>
         (lock l = None \<longleftrightarrow> (\<exists>i. pc i = Critical)) \<and>
         (fst (trylock l) \<longleftrightarrow> (\<forall>i. pc i \<noteq> Critical)) \<and>
         ((\<exists>i. pc i = Critical) \<longrightarrow> fst (unlock l))"
proof -
  have inv: "spin_inv (l, pc)" using spin_run_inv[OF assms(1,2), of evs] assms(3) by simp
  then have v: "valid l" by (simp add: spin_inv_def)
  show ?thesis
  proof (cases "held l")
    case True
    then show ?thesis using inv lock_held[OF v True] try_held[OF v True] unlock_held[OF v True] by (auto simp: spin_inv_def)
  next
    case False
    then show ?thesis using inv lock_free[OF v False] try_free[OF v False] by (auto simp: spin_inv_def)
  qed
qed

end

section \<open>The implementations\<close>

definition spin_valid :: "PSpinLock option \<Rightarrow> bool" where
  "spin_valid lp \<longleftrightarrow> (case lp of None \<Rightarrow> False | Some l \<Rightarrow> spin l = 0 \<or> spin l = 1)"

definition spin_held :: "PSpinLock option \<Rightarrow> bool" where
  "spin_held lp \<longleftrightarrow> (case lp of None \<Rightarrow> False | Some l \<Rightarrow> spin l = 1)"

interpretation c11: lock_contract zspinlock_lock zspinlock_trylock zspinlock_unlock spin_valid spin_held
  by unfold_locales
    (auto simp: spin_valid_def spin_held_def zspinlock_lock_def zspinlock_trylock_def zspinlock_unlock_def
      atomic_compare_exchange_n_def atomic_store_def split: option.splits)

interpretation sync: lock_contract zspinlock_lock_sync zspinlock_trylock_sync zspinlock_unlock_sync spin_valid spin_held
  by unfold_locales
    (auto simp: spin_valid_def spin_held_def zspinlock_lock_sync_def zspinlock_trylock_sync_def zspinlock_unlock_sync_def
      sync_compare_and_swap_def split: option.splits)

definition win_valid :: "ppointer option \<times> atomic_mem \<Rightarrow> bool" where
  "win_valid l \<longleftrightarrow> (case fst l of None \<Rightarrow> False | Some p \<Rightarrow> ints (snd l) p = 0 \<or> ints (snd l) p = 1)"

definition win_held :: "ppointer option \<times> atomic_mem \<Rightarrow> bool" where
  "win_held l \<longleftrightarrow> (case fst l of None \<Rightarrow> False | Some p \<Rightarrow> ints (snd l) p = 1)"

interpretation win: lock_contract zspinlock_lock_win zspinlock_trylock_win zspinlock_unlock_win win_valid win_held
  by unfold_locales
    (auto simp: win_valid_def win_held_def zspinlock_lock_win_def zspinlock_trylock_win_def zspinlock_unlock_win_def c11_defs Let_def
      split: option.splits)

lemma spinlock_win_exclusion:
  assumes "p \<noteq> NULL" "spin_run zspinlock_lock_win zspinlock_trylock_win zspinlock_unlock_win evs (zspinlock_new_win p m) = (l, pc)"
    "pc i = Critical" "pc k = Critical"
  shows "i = k"
proof -
  have "win_valid (zspinlock_new_win p m)" "\<not> win_held (zspinlock_new_win p m)"
    using assms(1) by (simp_all add: win_valid_def win_held_def zspinlock_new_win_def)
  from win.exclusion[OF this assms(2)] show ?thesis using assms(3,4) by blast
qed

text \<open>The lock with a mutex is a lock when the mutex is one.\<close>

lemma lock_contract_sim:
  assumes "lock_contract mutex_lock mutex_trylock mutex_unlock valid held"
  shows "lock_contract (zspinlock_lock_sim mutex_lock) (zspinlock_trylock_sim mutex_trylock) (zspinlock_unlock_sim mutex_unlock)
    (\<lambda>lp. case lp of None \<Rightarrow> False | Some l \<Rightarrow> valid (sl_mutex l)) (\<lambda>lp. case lp of None \<Rightarrow> False | Some l \<Rightarrow> held (sl_mutex l))"
proof -
  note laws = lock_contract.lock_free[OF assms] lock_contract.lock_held[OF assms] lock_contract.try_free[OF assms]
    lock_contract.try_held[OF assms] lock_contract.unlock_held[OF assms]
  note defs = zspinlock_lock_sim_def zspinlock_trylock_sim_def zspinlock_unlock_sim_def
  show ?thesis
  proof (unfold_locales, goal_cases)
    case (1 lp)
    then show ?case using laws(1) by (cases lp) (auto simp: defs, fastforce)
  next
    case (2 lp)
    then show ?case using laws(2) by (cases lp) (auto simp: defs)
  next
    case (3 lp)
    then show ?case using laws(3) by (cases lp) (auto simp: defs, fastforce)
  next
    case (4 lp)
    then show ?case using laws(4) by (cases lp) (auto simp: defs, fastforce)
  next
    case (5 lp)
    then show ?case using laws(5) by (cases lp) (auto simp: defs, fastforce)
  qed
qed

text \<open>
  C12: However the threads that use a spin lock are interleaved, where a thread releases the lock only
  when it has it, at most one thread is between taking and releasing it. A round of the loop of the lock
  function fails, and the try function returns \<^verbatim>\<open>FALSE\<close>, exactly when some thread has the lock, so that a lock
  that no thread has is taken at the first attempt. This holds for the implementation with the C11 builtins and for the
  one with the older builtins.
\<close>

theorem spinlock_exclusion:
  assumes "(lock, trylock, unlock) \<in>
      {(zspinlock_lock, zspinlock_trylock, zspinlock_unlock), (zspinlock_lock_sync, zspinlock_trylock_sync, zspinlock_unlock_sync)}"
    and "spin_run lock trylock unlock evs (zspinlock_new True) = (l, pc)"
  shows "(\<forall>i k. pc i = Critical \<and> pc k = Critical \<longrightarrow> i = k) \<and>
         (lock l = None \<longleftrightarrow> (\<exists>i. pc i = Critical)) \<and>
         (fst (trylock l) \<longleftrightarrow> (\<forall>i. pc i \<noteq> Critical)) \<and>
         ((\<exists>i. pc i = Critical) \<longrightarrow> fst (unlock l))"
proof -
  have new: "spin_valid (zspinlock_new True)" "\<not> spin_held (zspinlock_new True)"
    by (simp_all add: spin_valid_def spin_held_def zspinlock_new_def)
  from assms(1) consider "lock = zspinlock_lock" "trylock = zspinlock_trylock" "unlock = zspinlock_unlock"
    | "lock = zspinlock_lock_sync" "trylock = zspinlock_trylock_sync" "unlock = zspinlock_unlock_sync" by blast
  then show ?thesis
  proof cases
    case 1
    show ?thesis using assms(2) unfolding 1 by (rule c11.exclusion[OF new])
  next
    case 2
    show ?thesis using assms(2) unfolding 2 by (rule sync.exclusion[OF new])
  qed
qed

theorem spinlock_exclusion_witness:
  "\<not> fst (zspinlock_trylock (fst (spin_run zspinlock_lock zspinlock_trylock zspinlock_unlock
     [Call_Lock 0, Call_Lock 1, Spin 1, Spin 0, Spin 0] (zspinlock_new True))))"
proof -
  let ?evs = "[Call_Lock 0, Call_Lock 1, Spin 1, Spin 0, Spin 0]"
  let ?s = "spin_run zspinlock_lock zspinlock_trylock zspinlock_unlock ?evs (zspinlock_new True)"
  have "snd ?s 1 = Critical"
    by (simp add: spin_run_def zspinlock_new_def zspinlock_lock_def atomic_compare_exchange_n_def)
  then show ?thesis
    using spinlock_exclusion[of zspinlock_lock zspinlock_trylock zspinlock_unlock ?evs "fst ?s" "snd ?s"] by auto
qed

end
