(* ===== verification/PCondVariable_Win.thy ===== *)
theory PCondVariable_Win
  imports Thread_Counts PAtomic
begin

text \<open>
  The condition variable of \<^verbatim>\<open>src/src/os/win/pcondvariable-win.c\<close> for systems without those of Windows Vista: a counter of
  waiting threads, changed by the atomic functions, and a semaphore. Every function is given as the steps
  between its accesses; a run interleaves the steps of any number of threads.
\<close>

section \<open>The object\<close>

record PCondVariableXP =
  waiters_sema :: nat
  waiters_count :: pint

definition MAXLONG :: nat where "MAXLONG = 0x7FFFFFFF"

definition pzcond_variable_init_xp :: "bool \<Rightarrow> bool \<Rightarrow> PCondVariableXP option" where
  "pzcond_variable_init_xp mem sema_ok =
     (if \<not> mem then None
      else if \<not> sema_ok then None
      else Some \<lparr>waiters_sema = 0, waiters_count = 0\<rparr>)"

definition zcond_variable_new_win :: "bool \<Rightarrow> bool \<Rightarrow> bool \<Rightarrow> PCondVariableXP option" where
  "zcond_variable_new_win obj_mem mem sema_ok = (if \<not> obj_mem then None else pzcond_variable_init_xp mem sema_ok)"

text \<open>The semaphore counts to \<^verbatim>\<open>MAXLONG\<close>; it does not change when it cannot be released as often as asked.\<close>

definition ReleaseSemaphore :: "nat \<Rightarrow> PCondVariableXP \<Rightarrow> bool \<times> PCondVariableXP" where
  "ReleaseSemaphore n c =
     (if waiters_sema c + n \<le> MAXLONG then (True, c\<lparr>waiters_sema := waiters_sema c + n\<rparr>) else (False, c))"

section \<open>The functions\<close>

text \<open>
  Where a thread is: without or with the mutex, or in one of the functions in front of an access. The functions
  that wake threads may be called with or without the mutex, which the flag remembers; \<open>W_Lock\<close> has the
  outcome of the wait. The object, the owner of the mutex and the threads make up the state.
\<close>

datatype cx_pc = Cx_Out | Cx_Hold
| W_Unlock | W_Wait | W_Lock bool | W_Sub
| S_Add bool | S_Release bool | B_Set bool pint | B_Release bool pint

record cx_state =
  cx_cv :: PCondVariableXP
  cx_mutex :: "nat option"
  cx_pc :: "nat \<Rightarrow> cx_pc"

definition at_home :: "bool \<Rightarrow> cx_pc" where
  "at_home h = (if h then Cx_Hold else Cx_Out)"

fun pzcond_variable_wait_xp :: "bool \<Rightarrow> nat \<Rightarrow> cx_pc \<Rightarrow> PCondVariableXP \<times> nat option \<Rightarrow> (cx_pc \<times> PCondVariableXP \<times> nat option) option" where
  "pzcond_variable_wait_xp wait_ok i Cx_Hold (c, mx) =
     Some (W_Unlock, c\<lparr>waiters_count := snd (atomic_fetch_add 1 (waiters_count c))\<rparr>, mx)"
| "pzcond_variable_wait_xp wait_ok i W_Unlock (c, mx) = Some (W_Wait, c, None)"
| "pzcond_variable_wait_xp wait_ok i W_Wait (c, mx) =
     (if \<not> wait_ok then Some (W_Lock False, c, mx)
      else if waiters_sema c > 0 then Some (W_Lock True, c\<lparr>waiters_sema := waiters_sema c - 1\<rparr>, mx)
      else None)"
| "pzcond_variable_wait_xp wait_ok i (W_Lock b) (c, mx) =
     (if mx \<noteq> None then None else Some (if \<not> b then W_Sub else Cx_Hold, c, Some i))"
| "pzcond_variable_wait_xp wait_ok i W_Sub (c, mx) =
     Some (Cx_Hold, c\<lparr>waiters_count := snd (atomic_fetch_add (- 1) (waiters_count c))\<rparr>, mx)"
| "pzcond_variable_wait_xp wait_ok i _ (c, mx) = None"

fun pzcond_variable_signal_xp :: "bool \<Rightarrow> cx_pc \<Rightarrow> PCondVariableXP \<Rightarrow> (cx_pc \<times> PCondVariableXP) option" where
  "pzcond_variable_signal_xp h (S_Add _) c = Some (S_Release h, c\<lparr>waiters_count := snd (atomic_fetch_add (- 1) (waiters_count c))\<rparr>)"
| "pzcond_variable_signal_xp h (S_Release _) c = Some (at_home h, snd (ReleaseSemaphore 1 c))"
| "pzcond_variable_signal_xp h _ c = Some (if 0 <s fst (atomic_load (waiters_count c)) then S_Add h else at_home h, c)"

fun pzcond_variable_broadcast_xp :: "bool \<Rightarrow> cx_pc \<Rightarrow> PCondVariableXP \<Rightarrow> (cx_pc \<times> PCondVariableXP) option" where
  "pzcond_variable_broadcast_xp h (B_Set _ waiters) c = Some (B_Release h waiters, c\<lparr>waiters_count := snd (atomic_store 0 (waiters_count c))\<rparr>)"
| "pzcond_variable_broadcast_xp h (B_Release _ waiters) c = Some (at_home h, snd (ReleaseSemaphore (unat waiters) c))"
| "pzcond_variable_broadcast_xp h _ c =
     (let waiters = fst (atomic_load (waiters_count c))
      in Some (if 0 <s waiters then B_Set h waiters else at_home h, c))"

section \<open>Threads\<close>

text \<open>What a thread does next: it takes or leaves the mutex, calls a function, or goes on in the one it is in.\<close>

datatype cx_event = Cx_Lock | Cx_Leave | Cx_Wait | Cx_Signal | Cx_Broadcast | Cx_Go bool

definition cx_wake :: "(bool \<Rightarrow> cx_pc \<Rightarrow> PCondVariableXP \<Rightarrow> (cx_pc \<times> PCondVariableXP) option) \<Rightarrow> bool \<Rightarrow> nat \<Rightarrow> cx_state \<Rightarrow> cx_state option" where
  "cx_wake f h i s =
     map_option (\<lambda>(p, c). s\<lparr>cx_cv := c, cx_pc := (cx_pc s)(i := p)\<rparr>) (f h (cx_pc s i) (cx_cv s))"

definition cx_wait :: "bool \<Rightarrow> nat \<Rightarrow> cx_state \<Rightarrow> cx_state option" where
  "cx_wait ok i s =
     map_option (\<lambda>(p, c, mx). \<lparr>cx_cv = c, cx_mutex = mx, cx_pc = (cx_pc s)(i := p)\<rparr>)
       (pzcond_variable_wait_xp ok i (cx_pc s i) (cx_cv s, cx_mutex s))"

text \<open>With \<open>strict\<close>, the functions that wake threads are called with the mutex only.\<close>

definition cx_next :: "bool \<Rightarrow> nat \<Rightarrow> cx_event \<Rightarrow> cx_state \<Rightarrow> cx_state option" where
  "cx_next strict i e s =
     (let p = cx_pc s i in
      case e of
        Cx_Lock \<Rightarrow> if p = Cx_Out \<and> cx_mutex s = None then Some (s\<lparr>cx_mutex := Some i, cx_pc := (cx_pc s)(i := Cx_Hold)\<rparr>) else None
      | Cx_Leave \<Rightarrow> if p = Cx_Hold then Some (s\<lparr>cx_mutex := None, cx_pc := (cx_pc s)(i := Cx_Out)\<rparr>) else None
      | Cx_Wait \<Rightarrow> if p = Cx_Hold then cx_wait True i s else None
      | Cx_Signal \<Rightarrow> if p = Cx_Hold \<or> (\<not> strict \<and> p = Cx_Out) then cx_wake pzcond_variable_signal_xp (p = Cx_Hold) i s else None
      | Cx_Broadcast \<Rightarrow> if p = Cx_Hold \<or> (\<not> strict \<and> p = Cx_Out) then cx_wake pzcond_variable_broadcast_xp (p = Cx_Hold) i s else None
      | Cx_Go ok \<Rightarrow>
          (case p of
             Cx_Out \<Rightarrow> None
           | Cx_Hold \<Rightarrow> None
           | S_Add h \<Rightarrow> cx_wake pzcond_variable_signal_xp h i s
           | S_Release h \<Rightarrow> cx_wake pzcond_variable_signal_xp h i s
           | B_Set h n \<Rightarrow> cx_wake pzcond_variable_broadcast_xp h i s
           | B_Release h n \<Rightarrow> cx_wake pzcond_variable_broadcast_xp h i s
           | _ \<Rightarrow> cx_wait ok i s))"

text \<open>An event that cannot happen is passed over, as is one of a thread that does not exist.\<close>

fun cx_run :: "bool \<Rightarrow> nat \<Rightarrow> (nat \<times> cx_event) list \<Rightarrow> cx_state \<Rightarrow> cx_state" where
  "cx_run strict N [] s = s"
| "cx_run strict N ((i, e) # es) s =
     cx_run strict N es (if i < N then (case cx_next strict i e s of None \<Rightarrow> s | Some s' \<Rightarrow> s') else s)"

definition cx_start :: "PCondVariableXP \<Rightarrow> cx_state" where
  "cx_start c = \<lparr>cx_cv = c, cx_mutex = None, cx_pc = \<lambda>_. Cx_Out\<rparr>"

section \<open>The invariant\<close>

text \<open>The threads that wait or are about to, and the releases that a thread with the mutex is about to make.\<close>

abbreviation cx_waiting :: "nat \<Rightarrow> cx_state \<Rightarrow> nat" where
  "cx_waiting N s \<equiv> threads N (cx_pc s) {W_Unlock, W_Wait}"

fun in_mutex :: "cx_pc \<Rightarrow> bool" where
  "in_mutex Cx_Out = False"
| "in_mutex W_Wait = False"
| "in_mutex (W_Lock _) = False"
| "in_mutex _ = True"

fun strict_pc :: "cx_pc \<Rightarrow> bool" where
  "strict_pc (W_Lock b) = b"
| "strict_pc W_Sub = False"
| "strict_pc (S_Add h) = h"
| "strict_pc (S_Release h) = h"
| "strict_pc (B_Set h n) = h"
| "strict_pc (B_Release h n) = h"
| "strict_pc _ = True"

fun flight_of :: "cx_pc \<Rightarrow> nat" where
  "flight_of (S_Release _) = 1"
| "flight_of (B_Release _ n) = unat n"
| "flight_of _ = 0"

fun owner_ok :: "pint \<Rightarrow> cx_pc \<Rightarrow> bool" where
  "owner_ok c (S_Add _) = (c \<noteq> 0)"
| "owner_ok c (B_Set _ n) = (n = c)"
| "owner_ok c (B_Release _ n) = (c = 0)"
| "owner_ok c _ = True"

definition in_flight :: "cx_state \<Rightarrow> nat" where
  "in_flight s = (case cx_mutex s of None \<Rightarrow> 0 | Some i \<Rightarrow> flight_of (cx_pc s i))"

definition cx_inv :: "nat \<Rightarrow> cx_state \<Rightarrow> bool" where
  "cx_inv N s \<longleftrightarrow>
     (\<forall>i. strict_pc (cx_pc s i) \<and> (in_mutex (cx_pc s i) \<longleftrightarrow> cx_mutex s = Some i) \<and> owner_ok (waiters_count (cx_cv s)) (cx_pc s i)) \<and>
     cx_waiting N s = unat (waiters_count (cx_cv s)) + waiters_sema (cx_cv s) + in_flight s"

lemma owner_ok_outside: "\<not> in_mutex p \<Longrightarrow> owner_ok c p \<and> flight_of p = 0"
  by (cases p) auto

text \<open>A step of a thread that has, takes or leaves the mutex.\<close>

lemma cx_inv_owner:
  assumes inv: "cx_inv N s" and mx: "cx_mutex s = None \<or> cx_mutex s = Some i"
    and p: "strict_pc p" "owner_ok (waiters_count c) p" and mx': "mx = (if in_mutex p then Some i else None)"
    and w: "threads N ((cx_pc s)(i := p)) {W_Unlock, W_Wait} = unat (waiters_count c) + waiters_sema c + flight_of p"
  shows "cx_inv N \<lparr>cx_cv = c, cx_mutex = mx, cx_pc = (cx_pc s)(i := p)\<rparr>"
proof -
  have out: "\<not> in_mutex (cx_pc s k)" "strict_pc (cx_pc s k)" if "k \<noteq> i" for k
    using inv mx that by (auto simp: cx_inv_def)
  have "flight_of p = (case mx of None \<Rightarrow> 0 | Some k \<Rightarrow> flight_of (((cx_pc s)(i := p)) k))"
    using mx' owner_ok_outside[of p] by simp
  moreover have "strict_pc (((cx_pc s)(i := p)) k) \<and> (in_mutex (((cx_pc s)(i := p)) k) \<longleftrightarrow> mx = Some k) \<and>
      owner_ok (waiters_count c) (((cx_pc s)(i := p)) k)" for k
    using out[of k] owner_ok_outside[of "cx_pc s k"] p mx' by (cases "k = i") simp_all
  ultimately show ?thesis using w by (simp add: cx_inv_def in_flight_def split: option.splits)
qed

lemma pint_pos: "unat c < 2 ^ 31 \<Longrightarrow> (0 :: pint) <s c \<longleftrightarrow> c \<noteq> 0"
proof -
  assume "unat c < 2 ^ 31"
  then have "uint c < 2 ^ 31" using nat_less_iff[OF uint_ge_0, of c "2 ^ 31"] unfolding unat_eq_nat_uint by simp
  moreover have "- (2 ^ 31) \<le> uint c" by (rule order_trans[OF _ uint_ge_0]) simp
  ultimately have "signed_take_bit 31 (uint c) = uint c" by (intro signed_take_bit_int_eq_self)
  then have "sint c = uint c" by (simp add: sint_uint)
  then have "0 <s c \<longleftrightarrow> 0 < uint c" by (simp add: word_sless_alt)
  also have "\<dots> \<longleftrightarrow> c \<noteq> 0" using uint_ge_0[of c] uint_0_iff[of c] by linarith
  finally show ?thesis .
qed

lemma cx_inv_count: "cx_inv N s \<Longrightarrow> N < 2 ^ 31 \<Longrightarrow> unat (waiters_count (cx_cv s)) < 2 ^ 31"
  using threads_le[of N "cx_pc s" "{W_Unlock, W_Wait}"] by (simp add: cx_inv_def)

lemma cx_inv_owned: "cx_inv N s \<Longrightarrow> in_mutex (cx_pc s i) \<Longrightarrow> cx_mutex s = Some i \<and> in_flight s = flight_of (cx_pc s i)"
  by (auto simp: cx_inv_def in_flight_def)

lemma unat_minus1: "c \<noteq> 0 \<Longrightarrow> unat (c + (- 1)) + 1 = unat c" for c :: pint
proof -
  assume "c \<noteq> 0"
  then have "1 \<le> c" by (metis word_le_less_eq word_gt_0 inc_le add_0)
  then have "unat (c - 1) = unat c - 1" by (simp add: unat_sub)
  then show ?thesis using \<open>c \<noteq> 0\<close> by (simp add: unat_gt_0)
qed

lemma unat_plus1: "unat c < 2 ^ 31 \<Longrightarrow> unat (c + 1) = unat c + 1" for c :: pint
  by (rule unat_add_lem[THEN iffD1, of c 1, unfolded unat_1]) simp

text \<open>The functions, called with the mutex.\<close>

lemma wake_inv:
  assumes inv: "cx_inv N s" and N: "N < 2 ^ 31" and i: "i < N" and own: "in_mutex (cx_pc s i)"
    and home: "cx_pc s i \<noteq> W_Unlock"
    and f: "f = pzcond_variable_signal_xp \<and> (cx_pc s i = Cx_Hold \<or> (\<exists>h. cx_pc s i = S_Add h \<or> cx_pc s i = S_Release h)) \<or>
      f = pzcond_variable_broadcast_xp \<and> (cx_pc s i = Cx_Hold \<or> (\<exists>h n. cx_pc s i = B_Set h n \<or> cx_pc s i = B_Release h n))"
    and st: "cx_wake f True i s = Some s'"
  shows "cx_inv N s'"
proof -
  let ?c = "cx_cv s" and ?W = "{W_Unlock, W_Wait}"
  have mx: "cx_mutex s = Some i" and fl: "in_flight s = flight_of (cx_pc s i)" using cx_inv_owned[OF inv own] by auto
  have cnt: "cx_waiting N s = unat (waiters_count ?c) + waiters_sema ?c + flight_of (cx_pc s i)" using inv fl by (simp add: cx_inv_def)
  have le: "cx_waiting N s \<le> MAXLONG" using threads_le[of N "cx_pc s" ?W] N by (simp add: MAXLONG_def)
  have ok: "owner_ok (waiters_count ?c) (cx_pc s i)" using inv by (simp add: cx_inv_def)
  have W: "cx_pc s i \<notin> ?W" using own home by auto
  have thr: "threads N ((cx_pc s)(i := p)) ?W = cx_waiting N s" if "p \<notin> ?W" for p
    using threads_upd[OF i, of "cx_pc s" p ?W] W that by simp
  obtain p c where pc: "f True (cx_pc s i) ?c = Some (p, c)" and s': "s' = \<lparr>cx_cv = c, cx_mutex = Some i, cx_pc = (cx_pc s)(i := p)\<rparr>"
    using st mx by (cases s) (auto simp: cx_wake_def)
  note defs = atomic_load_def atomic_fetch_add_def atomic_store_def ReleaseSemaphore_def at_home_def Let_def
  have "strict_pc p \<and> owner_ok (waiters_count c) p \<and> in_mutex p \<and> p \<notin> ?W \<and> cx_waiting N s = unat (waiters_count c) + waiters_sema c + flight_of p"
    using f pc cnt le ok pint_pos[OF cx_inv_count[OF inv N]] unat_minus1[of "waiters_count ?c"]
    by (elim disjE conjE exE) (auto simp: defs split: if_splits)
  then show ?thesis unfolding s' using mx thr by (intro cx_inv_owner[OF inv]) auto
qed

lemma wait_inv:
  assumes inv: "cx_inv N s" and N: "N < 2 ^ 31" and i: "i < N" and st: "cx_wait True i s = Some s'"
  shows "cx_inv N s'"
proof -
  let ?c = "cx_cv s" and ?W = "{W_Unlock, W_Wait}"
  obtain p c mx where pc: "pzcond_variable_wait_xp True i (cx_pc s i) (?c, cx_mutex s) = Some (p, c, mx)"
    and s': "s' = \<lparr>cx_cv = c, cx_mutex = mx, cx_pc = (cx_pc s)(i := p)\<rparr>"
    using st by (auto simp: cx_wait_def)
  have cnt: "cx_waiting N s = unat (waiters_count ?c) + waiters_sema ?c + in_flight s" using inv by (simp add: cx_inv_def)
  have loc: "strict_pc (cx_pc s i)" "in_mutex (cx_pc s i) \<longleftrightarrow> cx_mutex s = Some i" using inv by (simp_all add: cx_inv_def)
  note thr = threads_upd[OF i, of "cx_pc s" p ?W]
  note defs = atomic_fetch_add_def in_flight_def
  show ?thesis
  proof (cases "cx_pc s i")
    case W_Wait
    then have c: "p = W_Lock True" "c = ?c\<lparr>waiters_sema := waiters_sema ?c - 1\<rparr>" "mx = cx_mutex s" "0 < waiters_sema ?c"
      using pc by (auto split: if_splits)
    have mx: "cx_mutex s \<noteq> Some i" using loc W_Wait by simp
    then have "in_flight s' = in_flight s" by (auto simp: s' c in_flight_def split: option.splits)
    moreover have "cx_waiting N s' + 1 = cx_waiting N s" using thr W_Wait by (simp add: s' c)
    ultimately show ?thesis using inv cnt c mx W_Wait by (auto simp: cx_inv_def s')
  next
    case Cx_Hold
    then show ?thesis unfolding s' using pc loc cnt thr unat_plus1[OF cx_inv_count[OF inv N]]
      by (intro cx_inv_owner[OF inv]) (auto simp: defs)
  next
    case W_Unlock
    then show ?thesis unfolding s' using pc loc cnt thr by (intro cx_inv_owner[OF inv]) (auto simp: defs)
  next
    case (W_Lock b)
    then show ?thesis unfolding s' using pc loc cnt thr by (intro cx_inv_owner[OF inv]) (auto simp: defs split: if_splits)
  qed (use pc loc in auto)
qed

lemma cx_next_inv:
  assumes inv: "cx_inv N s" and N: "N < 2 ^ 31" and i: "i < N" and st: "cx_next True i e s = Some s'" and e: "e \<noteq> Cx_Go False"
  shows "cx_inv N s'"
proof -
  have loc: "strict_pc (cx_pc s i)" "in_mutex (cx_pc s i) \<longleftrightarrow> cx_mutex s = Some i" using inv by (simp_all add: cx_inv_def)
  have cnt: "cx_waiting N s = unat (waiters_count (cx_cv s)) + waiters_sema (cx_cv s) + in_flight s" using inv by (simp add: cx_inv_def)
  note thr = threads_upd[OF i, of "cx_pc s" _ "{W_Unlock, W_Wait}"]
  have rec: "s\<lparr>cx_mutex := mx, cx_pc := g\<rparr> = \<lparr>cx_cv = cx_cv s, cx_mutex = mx, cx_pc = g\<rparr>" for mx g by (cases s) simp
  show ?thesis
  proof (cases e)
    case Cx_Lock
    then show ?thesis using st cnt thr[of Cx_Hold]
      by (auto simp: cx_next_def rec in_flight_def split: if_splits intro!: cx_inv_owner[OF inv])
  next
    case Cx_Leave
    then show ?thesis using st cnt thr[of Cx_Out] loc
      by (auto simp: cx_next_def rec in_flight_def split: if_splits intro!: cx_inv_owner[OF inv])
  next
    case Cx_Wait
    then show ?thesis using st wait_inv[OF inv N i] by (auto simp: cx_next_def Let_def split: if_splits)
  next
    case Cx_Signal
    then show ?thesis using st wake_inv[OF inv N i, of pzcond_variable_signal_xp s'] by (auto simp: cx_next_def Let_def split: if_splits)
  next
    case Cx_Broadcast
    then show ?thesis using st wake_inv[OF inv N i, of pzcond_variable_broadcast_xp s'] by (auto simp: cx_next_def Let_def split: if_splits)
  next
    case (Cx_Go ok)
    then show ?thesis
      using st e loc wait_inv[OF inv N i] wake_inv[OF inv N i, of pzcond_variable_signal_xp s'] wake_inv[OF inv N i, of pzcond_variable_broadcast_xp s']
      by (cases "cx_pc s i") (auto simp: cx_next_def)
  qed
qed

lemma cx_run_inv:
  "cx_inv N s \<Longrightarrow> N < 2 ^ 31 \<Longrightarrow> Cx_Go False \<notin> snd ` set es \<Longrightarrow> cx_inv N (cx_run True N es s)"
proof (induction es arbitrary: s)
  case (Cons a es)
  obtain i e where a: "a = (i, e)" by (cases a)
  let ?s = "if i < N then (case cx_next True i e s of None \<Rightarrow> s | Some s' \<Rightarrow> s') else s"
  have "e \<noteq> Cx_Go False" using Cons.prems(3) a by auto
  then have "cx_inv N ?s" using cx_next_inv[OF Cons.prems(1,2)] Cons.prems(1) by (auto split: option.splits)
  then show ?case using Cons.IH Cons.prems(2,3) a by simp
qed simp

lemma cx_start_inv: "zcond_variable_new_win True True True = Some c \<Longrightarrow> cx_inv N (cx_start c)"
  by (auto simp: cx_inv_def cx_start_def zcond_variable_new_win_def pzcond_variable_init_xp_def in_flight_def threads_def)

section \<open>The theorem\<close>



text \<open>
  A thread can take the release that was meant for another: two threads wait, a broadcast releases the semaphore twice, the first thread wakes,
  waits again and takes the second release too, and the second thread still waits, with no release left.
\<close>

lemma cond_xp_stolen_wakeup:
  "\<exists>es es'. let s = cx_run True 3 es (cx_start \<lparr>waiters_sema = 0, waiters_count = 0\<rparr>); s' = cx_run True 3 es' s
     in cx_pc s 0 = W_Wait \<and> cx_pc s 1 = W_Wait \<and> cx_pc s 2 = B_Release True 2 \<and>
        cx_pc s' 0 = W_Lock True \<and> cx_pc s' 1 = W_Wait \<and> cx_pc s' 2 = Cx_Out \<and> waiters_sema (cx_cv s') = 0"
proof -
  let ?es = "[(0, Cx_Lock), (0, Cx_Wait), (0, Cx_Go True), (1, Cx_Lock), (1, Cx_Wait), (1, Cx_Go True), (2, Cx_Lock), (2, Cx_Broadcast), (2, Cx_Go True)]"
    and ?es' = "[(2, Cx_Go True), (2, Cx_Leave), (0, Cx_Go True), (0, Cx_Go True), (0, Cx_Wait), (0, Cx_Go True), (0, Cx_Go True)]"
  note defs = cx_start_def cx_next_def cx_wait_def cx_wake_def Let_def atomic_fetch_add_def atomic_load_def atomic_store_def
    word_sless_alt ReleaseSemaphore_def at_home_def MAXLONG_def
  obtain s where s: "s = cx_run True 3 ?es (cx_start \<lparr>waiters_sema = 0, waiters_count = 0\<rparr>)" by blast
  then have mid: "cx_pc s 0 = W_Wait" "cx_pc s 1 = W_Wait" "cx_pc s 2 = B_Release True 2" "cx_mutex s = Some 2"
    "cx_cv s = \<lparr>waiters_sema = 0, waiters_count = 0\<rparr>" by (simp_all add: defs)
  obtain s' where s': "s' = cx_run True 3 ?es' s" by blast
  then have "cx_pc s' 0 = W_Lock True" "cx_pc s' 1 = W_Wait" "cx_pc s' 2 = Cx_Out" "waiters_sema (cx_cv s') = 0"
    using mid by (simp_all add: defs)
  then show ?thesis using mid unfolding s s' Let_def by blast
qed

text \<open>
  Without the mutex a broadcast sets the counter to zero over a wait that began meanwhile: the thread waits, and
  a signal that follows does nothing.
\<close>

lemma cond_xp_unlocked_broadcast:
  "\<exists>es. let s = cx_run False 3 es (cx_start \<lparr>waiters_sema = 0, waiters_count = 0\<rparr>);
            s' = cx_run False 3 [(2, Cx_Signal)] s
        in cx_pc s 1 = W_Wait \<and> cx_pc s 2 = Cx_Hold \<and> cx_pc s' 1 = W_Wait \<and> cx_pc s' 2 = Cx_Hold \<and>
           waiters_sema (cx_cv s') = 0 \<and> waiters_count (cx_cv s') = 0"
  by (rule exI[of _ "[(0, Cx_Lock), (0, Cx_Wait), (0, Cx_Go True), (2, Cx_Broadcast), (1, Cx_Lock), (1, Cx_Wait), (1, Cx_Go True),
      (2, Cx_Go True), (2, Cx_Go True), (0, Cx_Go True), (0, Cx_Go True), (0, Cx_Leave), (2, Cx_Lock)]"])
    (simp add: cx_start_def cx_next_def cx_wait_def cx_wake_def Let_def atomic_fetch_add_def atomic_load_def atomic_store_def
      word_sless_alt ReleaseSemaphore_def at_home_def MAXLONG_def)

end
