(* ===== verification/PLibraryLoader.thy ===== *)
theory PLibraryLoader
  imports Resource_Log
begin

text \<open>
  Loading of libraries, \<^verbatim>\<open>src/src/os/posix/plibraryloader-posix.c\<close>, over the answers of the system; whether the file exists is what
  \<^verbatim>\<open>zfile_is_exists\<close> says. The system may give the same handle for the same library again and counts how often.
\<close>

section \<open>Operations\<close>

datatype ld_call = Ld_dlopen string | Ld_dlclose int | Ld_dlsym int string | Ld_dlerror

type_synonym ld_sys = "ld_call sys"

record PLibraryLoader =
  ld_handle :: int

definition pzlibrary_loader_clean_handle :: "int \<Rightarrow> ld_sys \<Rightarrow> ld_sys option" where
  "pzlibrary_loader_clean_handle h s = do { (a, t) \<leftarrow> sys_call (Ld_dlclose h) s; Some t }"

definition zlibrary_loader_new :: "bool \<Rightarrow> bool \<Rightarrow> string \<Rightarrow> ld_sys \<Rightarrow> (PLibraryLoader option \<times> ld_sys) option" where
  "zlibrary_loader_new exists mem path s =
     (if \<not> exists then Some (None, s)
      else do {
        (a, s1) \<leftarrow> sys_call (Ld_dlopen path) s;
        if a_ret a = 0 then Some (None, s1)
        else if \<not> mem then do { s2 \<leftarrow> pzlibrary_loader_clean_handle (a_ret a) s1; Some (None, s2) }
        else Some (Some \<lparr>ld_handle = a_ret a\<rparr>, s1)
      })"

definition zlibrary_loader_get_symbol :: "PLibraryLoader option \<Rightarrow> string option \<Rightarrow> ld_sys \<Rightarrow> (int \<times> ld_sys) option" where
  "zlibrary_loader_get_symbol loader symb s =
     (case (loader, symb) of
        (Some l, Some y) \<Rightarrow>
          if ld_handle l = 0 then Some (0, s)
          else do { (a, t) \<leftarrow> sys_call (Ld_dlsym (ld_handle l) y) s; Some (a_ret a, t) }
      | _ \<Rightarrow> Some (0, s))"

definition zlibrary_loader_free :: "PLibraryLoader option \<Rightarrow> ld_sys \<Rightarrow> ld_sys option" where
  "zlibrary_loader_free loader s = (case loader of None \<Rightarrow> Some s | Some l \<Rightarrow> pzlibrary_loader_clean_handle (ld_handle l) s)"

text \<open>The message, if there is one and memory for a copy of it.\<close>

definition zlibrary_loader_get_last_error :: "bool \<Rightarrow> ld_sys \<Rightarrow> (string option \<times> ld_sys) option" where
  "zlibrary_loader_get_last_error mem s = do {
     (a, t) \<leftarrow> sys_call Ld_dlerror s;
     Some (if a_ret a \<noteq> 0 then zstrdup mem (Some (map (\<lambda>b. char_of (unat b)) (a_data a))) else None, t)
   }"

section \<open>Handles\<close>

text \<open>How often each handle is open.\<close>

fun ld_step :: "(int \<Rightarrow> nat) \<Rightarrow> ld_call \<times> answer \<Rightarrow> int \<Rightarrow> nat" where
  "ld_step F (Ld_dlopen p, a) = (if a_ret a = 0 then F else F(a_ret a := F (a_ret a) + 1))"
| "ld_step F (Ld_dlclose h, a) = F(h := F h - 1)"
| "ld_step F x = F"

text \<open>Only open handles are used and closed.\<close>

fun ld_proper :: "(int \<Rightarrow> nat) \<Rightarrow> ld_call \<times> answer \<Rightarrow> bool" where
  "ld_proper F (Ld_dlclose h, a) \<longleftrightarrow> 0 < F h"
| "ld_proper F (Ld_dlsym h y, a) \<longleftrightarrow> 0 < F h"
| "ld_proper F x \<longleftrightarrow> True"

fun ld_quiet :: "int option \<Rightarrow> ld_call \<Rightarrow> bool" where
  "ld_quiet k (Ld_dlsym h y) \<longleftrightarrow> k = Some h"
| "ld_quiet k Ld_dlerror \<longleftrightarrow> True"
| "ld_quiet k c \<longleftrightarrow> False"

definition ld_live :: "int option \<Rightarrow> (int \<Rightarrow> nat) \<Rightarrow> bool" where
  "ld_live k F \<longleftrightarrow> (\<forall>h. k = Some h \<longrightarrow> 0 < F h)"

interpretation ld: resource_log ld_step "\<lambda>F x. True" ld_proper ld_quiet ld_live
proof
  fix k :: "int option" and F and x :: "ld_call \<times> answer"
  assume "ld_quiet k (fst x)" "ld_live k F"
  then show "ld_step F x = F" "ld_proper F x" by (cases x; cases "fst x"; auto simp: ld_live_def)+
qed

section \<open>Programs\<close>

text \<open>A program with any number of libraries: it loads one more, uses or frees one of those it has, or asks for the last error.\<close>

datatype ld_op = Do_Load bool bool string | Do_Symbol nat "string option" | Do_Unload nat | Do_Error bool

fun ld_do :: "ld_op \<Rightarrow> PLibraryLoader list \<times> ld_sys \<Rightarrow> (PLibraryLoader list \<times> ld_sys) option" where
  "ld_do (Do_Load ex mem path) (ls, s) =
     do { (r, t) \<leftarrow> zlibrary_loader_new ex mem path s; Some (case r of None \<Rightarrow> ls | Some l \<Rightarrow> ls @ [l], t) }"
| "ld_do (Do_Symbol i symb) (ls, s) =
     do { (r, t) \<leftarrow> zlibrary_loader_get_symbol (if i < length ls then Some (ls ! i) else None) symb s; Some (ls, t) }"
| "ld_do (Do_Unload i) (ls, s) =
     do { t \<leftarrow> zlibrary_loader_free (if i < length ls then Some (ls ! i) else None) s; Some (take i ls @ drop (Suc i) ls, t) }"
| "ld_do (Do_Error mem) (ls, s) = do { (r, t) \<leftarrow> zlibrary_loader_get_last_error mem s; Some (ls, t) }"

fun ld_prog :: "ld_op list \<Rightarrow> PLibraryLoader list \<times> ld_sys \<Rightarrow> (PLibraryLoader list \<times> ld_sys) option" where
  "ld_prog [] st = Some st"
| "ld_prog (x # xs) st = do { st1 \<leftarrow> ld_do x st; ld_prog xs st1 }"

definition opened :: "PLibraryLoader list \<Rightarrow> int \<Rightarrow> nat" where
  "opened ls h = count_list (map ld_handle ls) h"

lemma opened_Nil: "opened [] = (\<lambda>h. 0)"
  by (simp add: opened_def fun_eq_iff)

lemma opened_snoc: "opened (ls @ [l]) = (opened ls)(ld_handle l := opened ls (ld_handle l) + 1)"
  by (auto simp: opened_def fun_eq_iff)

lemma opened_remove:
  assumes "i < length ls"
  shows "0 < opened ls (ld_handle (ls ! i))"
    and "opened (take i ls @ drop (Suc i) ls) = (opened ls)(ld_handle (ls ! i) := opened ls (ld_handle (ls ! i)) - 1)"
proof -
  have ls: "ls = take i ls @ ls ! i # drop (Suc i) ls" using assms by (rule id_take_nth_drop)
  have o: "opened ls h = opened (take i ls @ drop (Suc i) ls) h + (if h = ld_handle (ls ! i) then 1 else 0)" for h
    by (subst ls) (auto simp: opened_def)
  show "0 < opened ls (ld_handle (ls ! i))" using o[of "ld_handle (ls ! i)"] by simp
  show "opened (take i ls @ drop (Suc i) ls) = (opened ls)(ld_handle (ls ! i) := opened ls (ld_handle (ls ! i)) - 1)"
    by (rule ext) (simp add: o)
qed

lemma loader_new_effect:
  assumes "zlibrary_loader_new ex mem path s = Some (r, t)"
  shows "ld.effect (opened ls) s t (\<lambda>G. G = opened (case r of None \<Rightarrow> ls | Some l \<Rightarrow> ls @ [l]))"
proof (cases ex)
  case False
  then show ?thesis using assms by (auto simp: zlibrary_loader_new_def intro: ld.effect_refl)
next
  case True
  then obtain a s1 where a: "sys_call (Ld_dlopen path) s = Some (a, s1)"
    using assms by (auto simp: zlibrary_loader_new_def bind_eq_Some_conv)
  let ?G = "ld_step (opened ls) (Ld_dlopen path, a)"
  have open': "ld.effect (opened ls) s s1 (\<lambda>G. G = ?G)" by (rule ld.effect_call[OF a]) simp
  show ?thesis
  proof (cases "a_ret a \<noteq> 0 \<and> \<not> mem")
    case True
    then obtain b where b: "sys_call (Ld_dlclose (a_ret a)) s1 = Some (b, t)" "r = None"
      using assms a \<open>ex\<close> by (auto simp: zlibrary_loader_new_def pzlibrary_loader_clean_handle_def bind_eq_Some_conv)
    have "ld.effect ?G s1 t (\<lambda>G. G = opened ls)" by (rule ld.effect_call[OF b(1)]) (use True in \<open>simp add: fun_upd_idem\<close>)
    then show ?thesis using ld.effect_seq[OF open'] b(2) by simp
  next
    case False
    then show ?thesis using assms a open' \<open>ex\<close>
      by (auto simp: zlibrary_loader_new_def opened_snoc split: if_splits)
  qed
qed

lemma ld_do_effect:
  assumes "ld_do x (ls, s) = Some (ls', t)"
  shows "ld.effect (opened ls) s t (\<lambda>G. G = opened ls')"
proof (cases x)
  case (Do_Load ex mem path)
  then show ?thesis using assms loader_new_effect[of ex mem path s] by (auto simp: bind_eq_Some_conv)
next
  case (Do_Symbol i symb)
  have "ld_live (Some (ld_handle (ls ! i))) (opened ls)" if "i < length ls" using opened_remove(1)[OF that] by (simp add: ld_live_def)
  then show ?thesis using assms Do_Symbol
    by (auto simp: bind_eq_Some_conv zlibrary_loader_get_symbol_def split: option.splits if_splits
        intro: ld.effect_refl ld.effect_talks[OF ld.talks_call, where k = "Some (ld_handle (ls ! i))"])
next
  case (Do_Unload i)
  show ?thesis
  proof (cases "i < length ls")
    case True
    then obtain a where a: "sys_call (Ld_dlclose (ld_handle (ls ! i))) s = Some (a, t)" "ls' = take i ls @ drop (Suc i) ls"
      using assms Do_Unload by (auto simp: bind_eq_Some_conv zlibrary_loader_free_def pzlibrary_loader_clean_handle_def)
    show ?thesis by (rule ld.effect_call[OF a(1)]) (use opened_remove[OF True] a(2) in simp)
  qed (use assms Do_Unload in \<open>auto simp: bind_eq_Some_conv zlibrary_loader_free_def intro: ld.effect_refl\<close>)
next
  case (Do_Error mem)
  then show ?thesis using assms
    by (auto simp: bind_eq_Some_conv zlibrary_loader_get_last_error_def ld_live_def intro: ld.effect_talks[OF ld.talks_call, where k = None])
qed

lemma ld_prog_effect: "ld_prog xs (ls, s) = Some (ls', t) \<Longrightarrow> ld.effect (opened ls) s t (\<lambda>G. G = opened ls')"
proof (induction xs arbitrary: ls s)
  case (Cons x xs)
  then obtain ls1 u where u: "ld_do x (ls, s) = Some (ls1, u)" "ld_prog xs (ls1, u) = Some (ls', t)"
    by (auto simp: bind_eq_Some_conv)
  show ?case by (rule ld.effect_seq[OF ld_do_effect[OF u(1)] Cons.IH[OF u(2)]])
qed (simp add: ld.effect_refl)

text \<open>
  A program that starts with no library only ever uses and closes open handles, and at every time has each handle open as often
  as it has objects for it: once all objects are freed, every library has been closed as often as it was opened.
\<close>

theorem loader_handles:
  assumes "ld_prog xs ([], s) = Some (ls, t)" "log s = []"
  shows "each ld_proper ld_step (\<lambda>h. 0) (log t) \<and> after ld_step (\<lambda>h. 0) (log t) = opened ls"
proof -
  have "ld.effect (\<lambda>h. 0) s t (\<lambda>G. G = opened ls)"
    using ld_prog_effect[OF assms(1)] opened_Nil by simp
  then show ?thesis using ld.effect_log[OF _ assms(2)] by simp
qed

end
