(* ===== verification/PMem_Map.thy ===== *)
theory PMem_Map
  imports Resource_Log
begin

text \<open>
  The two functions of \<^verbatim>\<open>src/src/lib/pmem.c\<close> that map memory, with the branches of POSIX systems, over the answers of the system. On systems
  that cannot map anonymous memory, \<open>anonymous\<close> is false and the zero device is mapped.
\<close>

section \<open>Operations\<close>

datatype map_call = M_open string | M_close int | M_mmap psize int | M_munmap int psize

type_synonym map_sys = "map_call sys"

datatype map_msg = M_Argument | M_Open | M_Mmap | M_Close | M_Munmap

primrec map_text :: "map_msg \<Rightarrow> string" where
  "map_text M_Argument = ''Invalid input argument''"
| "map_text M_Open = ''Failed to open /dev/zero for file mapping''"
| "map_text M_Mmap = ''Failed to call mmap() to create file mapping''"
| "map_text M_Close = ''Failed to close /dev/zero handle''"
| "map_text M_Munmap = ''Failed to call munmap() to remove file mapping''"

definition map_report_last :: "sys_env \<Rightarrow> map_msg \<Rightarrow> map_sys \<Rightarrow> map_sys" where
  "map_report_last e m s = report e (zerror_get_last_io (names e) (errno s)) (zerror_get_last_system (errno s)) (map_text m) s"

text \<open>From the call of \<^verbatim>\<open>mmap\<close> on.\<close>

definition mmap_fd :: "bool \<Rightarrow> sys_env \<Rightarrow> psize \<Rightarrow> int \<Rightarrow> map_sys \<Rightarrow> (int \<times> map_sys) option" where
  "mmap_fd anonymous e n_bytes fd s = do {
     (a, s1) \<leftarrow> sys_call (M_mmap n_bytes fd) s;
     if a_ret a = - 1 then
       (if \<not> anonymous
        then do { (b, s2) \<leftarrow> sys_call (M_close fd) (map_report_last e M_Mmap s1); Some (0, s2) }
        else Some (0, map_report_last e M_Mmap s1))
     else if \<not> anonymous then do {
       (b, s2) \<leftarrow> sys_call (M_close fd) s1;
       if a_ret b \<noteq> 0
       then do { (c, s3) \<leftarrow> sys_call (M_munmap (a_ret a) n_bytes) (map_report_last e M_Close s2); Some (0, s3) }
       else Some (a_ret a, s2)
     }
     else Some (a_ret a, s1)
   }"

definition zmem_mmap :: "bool \<Rightarrow> sys_env \<Rightarrow> psize \<Rightarrow> map_sys \<Rightarrow> (int \<times> map_sys) option" where
  "zmem_mmap anonymous e n_bytes s =
     (if n_bytes = 0 then Some (0, report e P_ERROR_IO_INVALID_ARGUMENT 0 (map_text M_Argument) s)
      else if \<not> anonymous then do {
        (a, s1) \<leftarrow> sys_call (M_open ''/dev/zero'') s;
        if a_ret a = - 1 then Some (0, map_report_last e M_Open s1)
        else mmap_fd anonymous e n_bytes (a_ret a) s1
      }
      else mmap_fd anonymous e n_bytes (- 1) s)"

definition zmem_munmap :: "sys_env \<Rightarrow> int \<Rightarrow> psize \<Rightarrow> map_sys \<Rightarrow> (bool \<times> map_sys) option" where
  "zmem_munmap e mem n_bytes s =
     (if mem = 0 \<or> n_bytes = 0 then Some (False, report e P_ERROR_IO_INVALID_ARGUMENT 0 (map_text M_Argument) s)
      else do {
        (a, s1) \<leftarrow> sys_call (M_munmap mem n_bytes) s;
        if a_ret a \<noteq> 0 then Some (False, map_report_last e M_Munmap s1) else Some (True, s1)
      })"

section \<open>What is held\<close>

datatype map_res = Map_Fd int | Map_Area int psize

text \<open>A descriptor is gone once it has been closed, whatever the outcome.\<close>

fun mm_step :: "map_res set \<Rightarrow> map_call \<times> answer \<Rightarrow> map_res set" where
  "mm_step F (M_open p, a) = (if a_ret a = - 1 then F else insert (Map_Fd (a_ret a)) F)"
| "mm_step F (M_close fd, a) = F - {Map_Fd fd}"
| "mm_step F (M_mmap n fd, a) = (if a_ret a = - 1 then F else insert (Map_Area (a_ret a) n) F)"
| "mm_step F (M_munmap p n, a) = (if a_ret a = 0 then F - {Map_Area p n} else F)"

text \<open>
  The system gives new descriptors and addresses, the address not null, and takes back an area that it has mapped.
\<close>

fun mm_sane :: "map_res set \<Rightarrow> map_call \<times> answer \<Rightarrow> bool" where
  "mm_sane F (M_open p, a) \<longleftrightarrow> Map_Fd (a_ret a) \<notin> F"
| "mm_sane F (M_mmap n fd, a) \<longleftrightarrow> a_ret a \<noteq> 0 \<and> Map_Area (a_ret a) n \<notin> F"
| "mm_sane F (M_munmap p n, a) \<longleftrightarrow> Map_Area p n \<in> F \<longrightarrow> a_ret a = 0"
| "mm_sane F x \<longleftrightarrow> True"

text \<open>Only open descriptors are closed, only mapped areas unmapped.\<close>

fun mm_proper :: "map_res set \<Rightarrow> map_call \<times> answer \<Rightarrow> bool" where
  "mm_proper F (M_close fd, a) \<longleftrightarrow> Map_Fd fd \<in> F"
| "mm_proper F (M_munmap p n, a) \<longleftrightarrow> Map_Area p n \<in> F"
| "mm_proper F x \<longleftrightarrow> True"

interpretation mm: resource_log mm_step mm_sane mm_proper "\<lambda>(k :: unit) c. False" "\<lambda>k F. True"
  by unfold_locales simp_all

lemma effect_map_report [simp]: "mm.effect F s (map_report_last e m t) Q = mm.effect F s t Q"
  by (simp add: map_report_last_def)

text \<open>Unfolding an operation into its calls.\<close>

lemma mm_calls:
  "sys_call c s = Some (a, t) \<Longrightarrow> consumes s [(c, a)] t"
  "sys_call c s = Some (a, u) \<Longrightarrow> sys_call d u = Some (b, t) \<Longrightarrow> consumes s [(c, a), (d, b)] t"
  "sys_call c s = Some (a, u) \<Longrightarrow> sys_call d (map_report_last e m u) = Some (b, t) \<Longrightarrow> consumes s [(c, a), (d, b)] t"
  "sys_call c s = Some (a, u) \<Longrightarrow> sys_call d u = Some (b, v) \<Longrightarrow> sys_call f (map_report_last e m v) = Some (g, t) \<Longrightarrow>
     consumes s [(c, a), (d, b), (f, g)] t"
proof -
  have rep: "consumes (map_report_last e m s) l t = consumes s l t" for e m s l and t :: map_sys
    by (simp add: map_report_last_def)
  note one = sys_callD(1)
  show "sys_call c s = Some (a, t) \<Longrightarrow> consumes s [(c, a)] t" by (rule one)
  show "sys_call c s = Some (a, u) \<Longrightarrow> sys_call d u = Some (b, t) \<Longrightarrow> consumes s [(c, a), (d, b)] t"
    using consumes_trans[OF one one] by fastforce
  show "sys_call c s = Some (a, u) \<Longrightarrow> sys_call d (map_report_last e m u) = Some (b, t) \<Longrightarrow> consumes s [(c, a), (d, b)] t"
    using consumes_trans[OF one, of c s a u] one[of d "map_report_last e m u"] unfolding rep by fastforce
  assume 1: "sys_call c s = Some (a, u)" "sys_call d u = Some (b, v)" "sys_call f (map_report_last e m v) = Some (g, t)"
  show "consumes s [(c, a), (d, b), (f, g)] t"
    using consumes_trans[OF consumes_trans[OF one[OF 1(1)] one[OF 1(2)]], of "[(f, g)]" t] one[OF 1(3)] unfolding rep by simp
qed

lemma mmap_fd_effect:
  assumes "mmap_fd anonymous e n fd s = Some (p, t)" "\<not> anonymous \<longrightarrow> Map_Fd fd \<in> F"
  shows "mm.effect F s t (\<lambda>G. let H = (if anonymous then F else F - {Map_Fd fd}) in G = (if p = 0 then H else insert (Map_Area p n) H))"
proof -
  obtain a s1 where a: "sys_call (M_mmap n fd) s = Some (a, s1)" using assms(1) by (auto simp: mmap_fd_def bind_eq_Some_conv)
  show ?thesis
  proof (cases anonymous)
    case True
    have "mm.effect F s s1 (\<lambda>G. G = (if a_ret a = - 1 then F else insert (Map_Area (a_ret a) n) F) \<and> a_ret a \<noteq> 0)"
      by (rule mm.effect_call[OF a]) simp
    then show ?thesis using assms(1) a True
      by (auto simp: mmap_fd_def Let_def split: if_splits elim!: mm.effect_mono)
  next
    case False
    show ?thesis
    proof (cases "a_ret a = - 1")
      case True
      then obtain b where "sys_call (M_close fd) (map_report_last e M_Mmap s1) = Some (b, t)" "p = 0"
        using assms(1) a False by (auto simp: mmap_fd_def bind_eq_Some_conv)
      then show ?thesis using assms(2) True False by (intro mm.effectI[OF mm_calls(3)[OF a]]) auto
    next
      case ok: False
      obtain b s2 where b: "sys_call (M_close fd) s1 = Some (b, s2)"
        using assms(1) a False ok by (auto simp: mmap_fd_def bind_eq_Some_conv)
      show ?thesis
      proof (cases "a_ret b = 0")
        case True
        then have "t = s2" "p = a_ret a" using assms(1) a False ok b by (auto simp: mmap_fd_def)
        then show ?thesis using assms(2) False ok by (intro mm.effectI[OF mm_calls(2)[OF a]]) (use b in auto)
      next
        case bad: False
        then obtain c where c: "sys_call (M_munmap (a_ret a) n) (map_report_last e M_Close s2) = Some (c, t)" "p = 0"
          using assms(1) a False ok b by (auto simp: mmap_fd_def bind_eq_Some_conv)
        show ?thesis using assms(2) False ok c(2) by (intro mm.effectI[OF mm_calls(4)[OF a b c(1)]]) auto
      qed
    qed
  qed
qed

text \<open>
  Mapping memory holds the new area and nothing else, whichever call fails, and returns null exactly when there is none; unmapping takes it away. Only what
  is held is closed or unmapped.
\<close>

lemma zmem_mmap_effect:
  assumes "zmem_mmap anonymous e n s = Some (p, t)"
  shows "mm.effect F s t (\<lambda>G. G = (if p = 0 then F else insert (Map_Area p n) F))"
proof (cases "n = 0 \<or> anonymous")
  case True
  then show ?thesis using assms mmap_fd_effect[of anonymous e n "- 1" s p t F]
    by (auto simp: zmem_mmap_def Let_def split: if_splits intro: mm.effect_refl)
next
  case False
  then obtain a s1 where a: "sys_call (M_open ''/dev/zero'') s = Some (a, s1)" using assms by (auto simp: zmem_mmap_def bind_eq_Some_conv)
  show ?thesis
  proof (cases "a_ret a = - 1")
    case True
    have "mm.effect F s s1 (\<lambda>G. G = F)" by (rule mm.effect_call[OF a]) (simp add: True)
    then show ?thesis using assms a False True by (auto simp: zmem_mmap_def)
  next
    case ok: False
    let ?F = "insert (Map_Fd (a_ret a)) F"
    have opened: "mm.effect F s s1 (\<lambda>G. G = ?F \<and> Map_Fd (a_ret a) \<notin> F)" by (rule mm.effect_call[OF a]) (use ok in simp)
    have "mmap_fd anonymous e n (a_ret a) s1 = Some (p, t)" using assms a False ok by (simp add: zmem_mmap_def)
    then have rest: "mm.effect ?F s1 t (\<lambda>G. G = (if p = 0 then ?F - {Map_Fd (a_ret a)} else insert (Map_Area p n) (?F - {Map_Fd (a_ret a)})))"
      by (rule mm.effect_mono[OF mmap_fd_effect[where F = ?F]]) (use False in \<open>auto simp: Let_def\<close>)
    show ?thesis
      by (rule mm.effect_trans[OF opened]) (use mm.effect_mono[OF rest] mm.effect_reach[OF rest] in auto)
  qed
qed

lemma zmem_munmap_effect:
  assumes "zmem_munmap e p n s = Some (r, t)" "p \<noteq> 0" "n \<noteq> 0" "Map_Area p n \<in> F"
  shows "mm.effect F s t (\<lambda>G. r \<and> G = F - {Map_Area p n})"
proof -
  obtain a u where a: "sys_call (M_munmap p n) s = Some (a, u)" using assms(1-3) by (auto simp: zmem_munmap_def bind_eq_Some_conv)
  then have r: "r \<longleftrightarrow> a_ret a = 0" "t = u \<or> t = map_report_last e M_Munmap u"
    using assms(1-3) by (auto simp: zmem_munmap_def split: if_splits)
  have "mm.effect F s u (\<lambda>G. r \<and> G = F - {Map_Area p n})" by (rule mm.effect_call[OF a]) (simp add: assms(4) r(1))
  then show ?thesis using r(2) by auto
qed

theorem mem_map_clean:
  assumes "zmem_mmap anonymous e n s = Some (p, t)" "log s = []" "each mm_sane mm_step {} (log t)"
  shows "each mm_proper mm_step {} (log t)" "after mm_step {} (log t) = (if p = 0 then {} else {Map_Area p n})"
    and "\<lbrakk>p \<noteq> 0; n \<noteq> 0; zmem_munmap e p n t = Some (r, u); each mm_sane mm_step {} (log u)\<rbrakk> \<Longrightarrow>
      r \<and> each mm_proper mm_step {} (log u) \<and> after mm_step {} (log u) = {}"
proof -
  note eff = zmem_mmap_effect[OF assms(1), of "{}"]
  show "each mm_proper mm_step {} (log t)" "after mm_step {} (log t) = (if p = 0 then {} else {Map_Area p n})"
    using mm.effect_log[OF eff assms(2,3)] by simp_all
  assume p: "p \<noteq> 0" "n \<noteq> 0" and u: "zmem_munmap e p n t = Some (r, u)" and sn: "each mm_sane mm_step {} (log u)"
  have "mm.effect {Map_Area p n} t u (\<lambda>G. r \<and> G = {})" using zmem_munmap_effect[OF u p, of "{Map_Area p n}"] by simp
  then have "mm.effect {} s u (\<lambda>G. r \<and> G = {})"
    using eff p(1) mm.effect_seq[of "{}" s t "{Map_Area p n}" u] by simp
  from mm.effect_log[OF this assms(2) sn] show "r \<and> each mm_proper mm_step {} (log u) \<and> after mm_step {} (log u) = {}" by simp
qed

end
