(* ===== verification/PProcess.thy ===== *)
theory PProcess
  imports Resource_Log
begin

text \<open>
  Processes, \<^verbatim>\<open>src/src/lib/pprocess.c\<close>, over the answers of the system, with the branches of POSIX and of Windows.
\<close>

datatype proc_call = Pr_getpid | Pr_kill int int | Pr_OpenProcess puint32 | Pr_WaitForSingleObject int | Pr_CloseHandle int

type_synonym proc_sys = "proc_call sys"

definition zprocess_get_current_pid :: "proc_sys \<Rightarrow> (puint32 \<times> proc_sys) option" where
  "zprocess_get_current_pid s = do { (a, t) \<leftarrow> sys_call Pr_getpid s; Some (word_of_int (a_ret a), t) }"

text \<open>The identifier is cast to the signed type of the system.\<close>

definition zprocess_is_running :: "puint32 \<Rightarrow> proc_sys \<Rightarrow> (bool \<times> proc_sys) option" where
  "zprocess_is_running pid s = do { (a, t) \<leftarrow> sys_call (Pr_kill (sint pid) 0) s; Some (a_ret a = 0, t) }"

definition WAIT_TIMEOUT :: int where "WAIT_TIMEOUT = 258"

definition zprocess_is_running_win :: "puint32 \<Rightarrow> proc_sys \<Rightarrow> (bool \<times> proc_sys) option" where
  "zprocess_is_running_win pid s = do {
     (a, s1) \<leftarrow> sys_call (Pr_OpenProcess pid) s;
     if a_ret a = 0 then Some (False, s1)
     else do {
       (b, s2) \<leftarrow> sys_call (Pr_WaitForSingleObject (a_ret a)) s1;
       (c, s3) \<leftarrow> sys_call (Pr_CloseHandle (a_ret a)) s2;
       Some (a_ret b = WAIT_TIMEOUT, s3)
     }
   }"

section \<open>Handles of Windows\<close>

fun ph_step :: "int set \<Rightarrow> proc_call \<times> answer \<Rightarrow> int set" where
  "ph_step F (Pr_OpenProcess p, a) = (if a_ret a = 0 then F else insert (a_ret a) F)"
| "ph_step F (Pr_CloseHandle h, a) = F - {h}"
| "ph_step F x = F"

fun ph_sane :: "int set \<Rightarrow> proc_call \<times> answer \<Rightarrow> bool" where
  "ph_sane F (Pr_OpenProcess p, a) \<longleftrightarrow> a_ret a \<notin> F"
| "ph_sane F x \<longleftrightarrow> True"

fun ph_proper :: "int set \<Rightarrow> proc_call \<times> answer \<Rightarrow> bool" where
  "ph_proper F (Pr_CloseHandle h, a) \<longleftrightarrow> h \<in> F"
| "ph_proper F (Pr_WaitForSingleObject h, a) \<longleftrightarrow> h \<in> F"
| "ph_proper F x \<longleftrightarrow> True"

fun ph_quiet :: "int \<Rightarrow> proc_call \<Rightarrow> bool" where
  "ph_quiet k (Pr_WaitForSingleObject h) \<longleftrightarrow> h = k"
| "ph_quiet k (Pr_OpenProcess p) \<longleftrightarrow> False"
| "ph_quiet k (Pr_CloseHandle h) \<longleftrightarrow> False"
| "ph_quiet k c \<longleftrightarrow> True"

interpretation ph: resource_log ph_step ph_sane ph_proper ph_quiet "\<lambda>k F. k \<in> F"
proof
  fix k :: int and F and x :: "proc_call \<times> answer"
  assume "ph_quiet k (fst x)" "k \<in> F"
  then show "ph_step F x = F" "ph_proper F x" by (cases x; cases "fst x"; auto)+
qed

text \<open>The test on Windows waits for and closes the handle that it opened, and leaves none.\<close>

theorem process_handles:
  assumes "zprocess_is_running_win pid s = Some (r, t)"
  shows "ph.effect F s t (\<lambda>G. G = F)"
proof -
  obtain a s1 where a: "sys_call (Pr_OpenProcess pid) s = Some (a, s1)"
    using assms by (auto simp: zprocess_is_running_win_def bind_eq_Some_conv)
  show ?thesis
  proof (cases "a_ret a = 0")
    case True
    have "ph.effect F s s1 (\<lambda>G. G = F)" by (rule ph.effect_call[OF a]) (simp add: True)
    then show ?thesis using assms a True by (simp add: zprocess_is_running_win_def)
  next
    case False
    then obtain b s2 c where b: "sys_call (Pr_WaitForSingleObject (a_ret a)) s1 = Some (b, s2)"
      and c: "sys_call (Pr_CloseHandle (a_ret a)) s2 = Some (c, t)"
      using assms a by (auto simp: zprocess_is_running_win_def bind_eq_Some_conv)
    have "consumes s [(Pr_OpenProcess pid, a), (Pr_WaitForSingleObject (a_ret a), b), (Pr_CloseHandle (a_ret a), c)] t"
      using consumes_trans[OF consumes_trans[OF sys_callD(1)[OF a] sys_callD(1)[OF b]] sys_callD(1)[OF c]] by simp
    then show ?thesis using False by (intro ph.effectI) auto
  qed
qed

text \<open>Identifiers from \<open>2 ^ 31\<close> on ask a POSIX system about a group of processes, and 0 about that of the caller.\<close>

lemma process_group:
  assumes "zprocess_is_running pid s = Some (r, t)" "2 ^ 31 \<le> unat pid \<or> pid = 0"
  shows "\<exists>n a. log t = log s @ [(Pr_kill n 0, a)] \<and> n \<le> 0"
proof -
  have "sint pid \<le> 0"
  proof (cases "pid = 0")
    case False
    then have "2 ^ 31 \<le> unat pid" using assms(2) by simp
    then have "2 ^ 31 \<le> uint pid" using le_nat_iff[OF uint_ge_0, of "2 ^ 31" pid] unfolding unat_eq_nat_uint by simp
    then have "bit (uint pid) 31" using uint_lt2p[of pid] by (simp add: bit_iff_odd div_pos_geq)
    then have "sint pid < 0" by (simp add: sint_uint signed_take_bit_negative_iff)
    then show ?thesis by simp
  qed simp
  moreover obtain a where "sys_call (Pr_kill (sint pid) 0) s = Some (a, t)"
    using assms(1) by (auto simp: zprocess_is_running_def bind_eq_Some_conv)
  ultimately show ?thesis using sys_callD(1)[of "Pr_kill (sint pid) 0" s a t] by (auto simp: consumes_def)
qed

end
