(* ===== verification/Spec2Isabelle.thy ===== *)
theory Spec2Isabelle
  imports PTree PTree_Heap PCryptoHash PHashTable PShmBuffer PIniFile PSocketAddress PRWLock
    PError PIPC PMem PUThread PSocket_Fds PShm PRWLock_Win PCondVariable PUThread_Local PUThread_Posix PDir PShm_SysV
    PMain PSpinLock PCondVariable_Win PLibraryLoader PMem_Map PProcess
begin

text \<open>
  plibsys is a portable C library of system primitives. This development models the parts of it that
  carry logic of their own: the containers, the cryptographic hashes, the strings and the INI
  files, the ring buffer in shared memory, sockets and their addresses, named semaphores and
  shared memory segments, the read-write lock, the life of thread objects, errors, the
  allocation table and the names of interprocess objects. All paths below are relative to
  \<^verbatim>\<open>src/src\<close>.

  \<^bold>\<open>Conventions.\<close> \<open>Plibsys_Prelude\<close> has the fixed-width types of \<^verbatim>\<open>include/ptypes.h\<close> on the
  64-bit configuration of \<^verbatim>\<open>include/plibsysconfig.h\<close>, comparison callbacks and ordered
  association lists. A null pointer argument is \<open>None\<close>. Whether an allocation succeeds is a flag
  \<open>mem\<close> or the result of an allocator \<open>alloc\<close> that may return null, so every out-of-memory branch
  of the code is a branch of the model (\<open>PIniFile\<close> excepted, where allocations succeed). Calls
  into the operating system or the C library are parameters. Where the code dereferences pointers,
  the model is a partial function on an explicit heap: a dangling access and an endless loop both
  have no result, and the theorems state that there is one. Where the byte order of the host
  matters it is a parameter. Every theorem has a witness on concrete inputs where it has
  hypotheses.

  \<^bold>\<open>Trees\<close> (\<^verbatim>\<open>lib/ptree.c\<close>, \<^verbatim>\<open>lib/ptree-bst.c\<close>, \<^verbatim>\<open>lib/ptree-avl.c\<close>, \<^verbatim>\<open>lib/ptree-rb.c\<close>). \<open>PTree_Base\<close> has the nodes,
  the search loop and the paths that stand for the parent pointers; \<open>PTree_BST\<close>, \<open>PTree_AVL\<close> and
  \<open>PTree_RB\<close> the insertion, removal, rotations and rebalancing loops of each variant, in the
  cases of the code; \<open>PTree\<close> the container with its counter and destroy callbacks over a locale
  for the variants, interpreted for all three; \<open>PTree_Heap\<close> the traversal and the clearing, which
  thread the tree through its own pointers, on a heap of nodes. Shown: every sequence of
  operations refines an ordered map, keeps the AVL or red-black invariant and so a logarithmic
  height, and the walks end, visit in order, and restore or free the tree completely.

  \<^bold>\<open>Hashes\<close> (\<^verbatim>\<open>lib/pcryptohash.c\<close> and one file for each algorithm). \<open>PBytes\<close> has words in memory and
  the swapping macros; \<open>Hash_Block\<close>, \<open>Hash_SHA2\<close> and \<open>Hash_Buffer\<close> the buffering that the files share
  and the padding of the standards; \<open>PCryptoHash_MD5\<close>, \<open>PCryptoHash_SHA1\<close>, \<open>PCryptoHash_SHA256\<close>,
  \<open>PCryptoHash_SHA512\<close>, \<open>PCryptoHash_SHA3\<close> and \<open>PCryptoHash_GOST\<close> the compression functions with
  their contexts; \<open>PCryptoHash\<close> the object with its table of functions over a locale
  interpreted for the eleven types. Shown: hashing in pieces equals a reference definition of the
  standard on the whole message, and the object behaves as a message with a closed flag. Each
  piece is shorter than \<open>2 ^ 32\<close> bytes, since the code counts a piece with 32 bits.

  \<^bold>\<open>Lists and hash tables\<close> (\<^verbatim>\<open>lib/plist.c\<close>, \<^verbatim>\<open>lib/phashtable.c\<close>). \<open>Linked_Nodes\<close> has heaps, allocators and a
  locale for nodes with a next pointer, interpreted for list nodes in \<open>PList\<close> and for table
  nodes in \<open>PHashTable\<close>. Shown: the operations refine HOL lists and finite maps, touch no other
  memory, and free every node once; the listings of the table are built with the list operations.

  \<^bold>\<open>Ring buffer\<close> (\<^verbatim>\<open>lib/pshmbuffer.c\<close>). \<open>PShmBuffer\<close> works on the bytes of the segment with its two
  positions in front. Shown: reads and writes refine a bounded queue, what each failure leaves
  behind, and the capacity of a new buffer. The segment is smaller than 2 GiB, so that the 32-bit
  loop counters and results of the code are exact.

  \<^bold>\<open>Strings and INI files\<close> (\<^verbatim>\<open>lib/pstring.c\<close>, \<^verbatim>\<open>lib/pinifile.c\<close>). \<open>PString\<close> has duplication, trimming and
  tokens; \<open>PIniFile\<close> the lines of at most 1024 characters, the scan formats, the sections and
  the queries. Shown: a written file is read back, what is stored of any file is bounded and
  trimmed, and the list query stays inside its buffer.

  \<^bold>\<open>Socket addresses\<close> (\<^verbatim>\<open>lib/psocketaddress.c\<close>). \<open>PSocketAddress\<close> has the addresses and their native
  forms as bytes. Shown: an invariant, the round trip through the native form, and the tests for
  special addresses.

  \<^bold>\<open>Calls of the system.\<close> \<open>System_Calls\<close> models a program that talks to the operating system: the state
  has the list of the answers that the system will give, the log of the calls with their answers,
  the error number and the caller's error pointer. A call takes the next answer, whatever it is;
  a function that asks for more answers than there are has no result. So a theorem about all
  answers is about all behaviours of the system, and no bound or fuel is needed for the loops that
  repeat interrupted calls. \<open>Resource_Log\<close> has the locale for what such a program holds: a component says what
  each call acquires and releases, what it expects of the system and what it owes it, and the
  composition of operations follows.

  \<^bold>\<open>Sockets\<close> (\<^verbatim>\<open>lib/psocket.c\<close>, \<^verbatim>\<open>lib/psysclose-unix.c\<close>). \<open>PSocket\<close> has the object and all its operations with the branches of
  Linux; \<open>PSocket_Props\<close> the transfers, \<open>PSocket_Ops\<close> the reports of errors, \<open>PSocket_Fds\<close> the
  descriptors, with an interpretation of the locale. Shown: transfers repeat interrupted and
  blocked calls and return as soon as the system answers otherwise; failures and only failures are
  reported; programs with any number of sockets neither leak descriptors nor close them twice.

  \<^bold>\<open>Semaphores and shared memory\<close> (\<^verbatim>\<open>os/posix/psemaphore-posix.c\<close>, \<^verbatim>\<open>os/posix/pshm-posix.c\<close>). \<open>PSemaphore\<close> and \<open>PShm\<close> have the
  objects, whose names come from \<open>PIPC\<close>, with a second interpretation of the locale for handles,
  descriptors, mappings and names; the allocations of the semaphore inside a segment have an
  environment of their own. Shown: a constructor that fails gives everything back, a segment that is made,
  used and freed leaves nothing behind, and what the two modes of a semaphore do to its name.

  \<^bold>\<open>System V variants\<close> (\<^verbatim>\<open>tmp/psemaphore-sysv.c\<close>, \<^verbatim>\<open>tmp/pshm-sysv.c\<close>). \<open>PSemaphore_SysV\<close> and \<open>PShm_SysV\<close> have the same objects over key files, sets of
  semaphores and attached segments, with interpretations of the locale for what is put into the system and for attachments. Shown: which key
  file stays behind, that attachments are undone, and that an acquisition survives the removal of its semaphore.

  \<^bold>\<open>Directories and files\<close> (\<^verbatim>\<open>os/posix/pdir-posix.c\<close>, \<^verbatim>\<open>lib/pdir.c\<close>, \<^verbatim>\<open>lib/pfile.c\<close>). \<open>PDir\<close> has their operations over the answers of the
  system, with an interpretation of the locale for open streams. Shown: a directory is read completely and in order, and no stream
  stays open.

  \<^bold>\<open>Read-write lock\<close> (\<^verbatim>\<open>tmp/prwlock-general.c\<close>). \<open>PRWLock\<close> has each critical section as a function, and a
  step relation that interleaves the sections of any number of threads, with spurious wake-ups
  and failing waits. Shown: mutual exclusion and exact counters for fewer than 32768 threads, and
  that no wake-up is lost while waits do not fail.

  \<^bold>\<open>Read-write lock of Windows XP\<close> (\<^verbatim>\<open>os/win/prwlock-win.c\<close>). \<open>PRWLock_Win\<close> has the emulation with one shared word, each
  function as the steps between its accesses to the word and the event; \<open>Thread_Counts\<close> has what the
  two locks share, packed counters and the counting of threads. Shown: mutual exclusion and exact counters,
  and a run in which a wake-up is lost.

  \<^bold>\<open>Condition variable of BeOS\<close> (\<^verbatim>\<open>os/beos/pcondvariable-beos.c\<close>). \<open>PCondVariable\<close> has the list of suspended threads as
  linked nodes, with an interpretation of the locale of \<open>Linked_Nodes\<close>. Shown: with two waiting threads it is a
  queue, and with three a thread is lost.

  \<^bold>\<open>Condition variable of Windows XP\<close> (\<^verbatim>\<open>os/win/pcondvariable-win.c\<close>). \<open>PCondVariable_Win\<close> has the emulation with a counter and a
  semaphore, each function as the steps between its accesses. Shown: while threads are woken under the mutex and waits do not fail, counter, semaphore and
  releases under way are exactly the waiting threads, for fewer than \<open>2 ^ 31\<close> of them, so that no wake-up is dropped; and runs in which a thread takes the
  release meant for another, and in which a broadcast without the mutex makes a later signal useless.

  \<^bold>\<open>Atomic operations and spin locks\<close> (\<^verbatim>\<open>lib/patomic-c11.c\<close>, \<^verbatim>\<open>tmp/patomic-sync.c\<close>, \<^verbatim>\<open>tmp/patomic-sim.c\<close>,
  \<^verbatim>\<open>lib/pspinlock-c11.c\<close>, \<^verbatim>\<open>tmp/pspinlock-sync.c\<close>, \<^verbatim>\<open>tmp/pspinlock-sim.c\<close>, \<^verbatim>\<open>os/win/pspinlock-win.c\<close>). \<open>PAtomic\<close> and \<open>PAtomic_Sync\<close> have the functions
  that are one builtin of the compiler each, \<open>PAtomic_Sim\<close>
  those that make their loads and stores under a mutex, with a machine that interleaves the single accesses of any number of threads;
  \<open>PSpinLock\<close> the locks with a locale for what their users rely on, interpreted for both kinds of builtins and for the
  atomic functions. Memory is sequentially
  consistent. Shown: the simulated functions are linearizable to the builtins and every call can return; a spin lock excludes, and is
  refused only while it is held.

  \<^bold>\<open>Thread-local storage\<close> (\<^verbatim>\<open>os/posix/puthread-posix.c\<close>). \<open>PUThread_Local\<close> has the keys, made on first use without a lock,
  and a step relation for any number of threads. Shown: a key is one variable per thread, and no key of the system is
  used after its deletion or left behind by a thread that lost the race to make it.

  \<^bold>\<open>Threads of the system\<close> (\<^verbatim>\<open>os/posix/puthread-posix.c\<close>). \<open>PUThread_Posix\<close> has priorities, creation, names and joining over the
  answers of the system, with a third interpretation of the locale for attribute objects and threads. Shown: the creation returns, leaves no
  attribute object behind and returns an object for every thread it started; priorities stay in the range of the policy.

  \<^bold>\<open>Thread objects\<close> (\<^verbatim>\<open>lib/puthread.c\<close>). \<open>PUThread\<close> has the objects with their counters and the thread-local
  slots. Shown: in runs of fewer than \<open>2 ^ 31\<close> operations, threads and program in any order, no freed
  object is touched and an object lives exactly as long as it is referenced.

  \<^bold>\<open>Processes, time, libraries, start and stop\<close> (\<^verbatim>\<open>lib/ptimeprofiler.c\<close>, \<^verbatim>\<open>os/posix/ptimeprofiler-posix.c\<close>, \<^verbatim>\<open>tmp/ptimeprofiler-generic.c\<close>, \<^verbatim>\<open>os/posix/plibraryloader-posix.c\<close>,
  \<^verbatim>\<open>lib/pprocess.c\<close>, \<^verbatim>\<open>lib/pmain.c\<close>). \<open>PProcess\<close> has the test for a running process; \<open>PTimeProfiler\<close> has the ticks of the two clocks and the object, \<open>PLibraryLoader\<close> the handles of loaded libraries with an
  interpretation of the locale in which a handle may be open several times, \<open>PMain\<close> the start and stop of the library over the states of the
  allocation table, the atomic functions and the clock. Shown: elapsed time is exact while the clock works; libraries are closed as often as
  opened; and, in this theory, what works between a start and a stop, in any order of starts and stops.

  \<^bold>\<open>Errors, memory and names\<close> (\<^verbatim>\<open>lib/perror.c\<close>, \<^verbatim>\<open>lib/pmem.c\<close>, \<^verbatim>\<open>lib/pipc.c\<close>). \<open>PError\<close> has the codes, used by
  \<open>PShmBuffer\<close>, the tables for POSIX systems and the error object; \<open>PMem\<close> the table of allocation
  functions and the calls through it, \<open>PMem_Map\<close> the mapping of memory with an interpretation of the locale for areas and descriptors; \<open>PIPC\<close> the keys of interprocess objects, made with the hash
  object of \<open>PCryptoHash\<close>. Shown: what a report stores, which allocator is called, that mapping and
  unmapping leave nothing behind, and the form of the keys.

  \<^bold>\<open>Not modelled.\<close> Floating point (\<^verbatim>\<open>zstrtod\<close> and the query that uses it); functions that only
  release memory, except where the release is the point; mutexes, the condition variables of POSIX and
  Windows Vista, and the parts of threads that pass
  arguments to the operating system; the error tables of Windows and OS/2; the
  atomic functions of other compilers; and the variants for other systems under \<^verbatim>\<open>os\<close>.
\<close>

section \<open>The life of the library\<close>

text \<open>
  C13: Whatever the program does with the functions that start and stop the library, with memory tables
  of its own or without, between a start and the next stop the allocation functions have an allocator to call, the time profiler a
  clock, and the simulated atomic functions their mutex if it could be created; otherwise all of these are as
  before the first start. The parts are started and stopped in turn, in the order of the code and its reverse; only the loader of
  libraries is started once more where it should be stopped.
\<close>

theorem library_lifecycle:
  fixes e :: "'h lib_env" and ops :: "'h lib_op list"
  assumes "full_table (le_libc e)"
  defines "s \<equiv> lib_run e ops"
  shows "(if pzplibsys_inited s
          then (\<forall>n h. zmalloc (l_mem s) n h \<noteq> None \<and> zmalloc0 (l_mem s) n h \<noteq> None) \<and>
            (\<forall>p n h. zrealloc (l_mem s) p n h \<noteq> None) \<and> (\<forall>p h. zfree (l_mem s) p h \<noteq> None) \<and>
            (\<forall>mem k. ztime_profiler_new (l_ticks s) mem k \<noteq> None) \<and> (le_mutex e \<longrightarrow> l_atomic s = Free)
          else l_mem s = mem_start \<and> l_ticks s = None \<and> l_atomic s = No_Mutex) \<and>
         (\<exists>n. l_log s = concat (replicate n (lib_ups @ lib_downs)) @ (if pzplibsys_inited s then lib_ups else []))"
proof -
  have inv: "lib_inv e s" unfolding s_def by (rule lib_run_inv[OF assms(1)])
  show ?thesis
  proof (cases "pzplibsys_inited s")
    case True
    then have "full_table (zmem_table (l_mem s))" and t: "l_ticks s \<noteq> None" "le_mutex e \<longrightarrow> l_atomic s = Free"
      using inv by (auto simp: lib_inv_def)
    note calls = full_table_calls[OF this(1)]
    have "ztime_profiler_new (l_ticks s) mem k \<noteq> None" for mem k
      using t(1) by (auto simp: ztime_profiler_new_def ztime_profiler_get_ticks_internal_def)
    then show ?thesis using True inv t(2) calls by (simp add: lib_inv_def del: not_None_eq)
  next
    case False
    then show ?thesis using inv by (simp add: lib_inv_def)
  qed
qed

theorem library_lifecycle_witness:
  "let libc = \<lparr>vt_malloc = Some (\<lambda>n (h :: nat, m). (64, h + 1, m)), vt_realloc = Some (\<lambda>p n h. (p, h)), vt_free = Some (\<lambda>p h. h)\<rparr>;
       e = \<lparr>le_libc = libc, le_mutex = True, le_clock = True\<rparr>
   in zmalloc (l_mem (lib_run e [Lib_Init, Lib_Init, Lib_Shutdown, Lib_Init_Full None])) 8 (0, \<lambda>_. 0) \<noteq> None"
proof -
  let ?libc = "\<lparr>vt_malloc = Some (\<lambda>n (h :: nat, m). (64, h + 1, m)), vt_realloc = Some (\<lambda>p n h. (p, h)), vt_free = Some (\<lambda>p h. h)\<rparr> :: nat PMemVTable"
  let ?e = "\<lparr>le_libc = ?libc, le_mutex = True, le_clock = True\<rparr>" and ?ops = "[Lib_Init, Lib_Init, Lib_Shutdown, Lib_Init_Full None]"
  have "full_table (le_libc ?e)" by (simp add: full_table_def)
  moreover have "pzplibsys_inited (lib_run ?e ?ops)"
    by (simp add: lib_run_def lib_start_def zlibsys_init_def zlibsys_init_full_def zlibsys_shutdown_def)
  ultimately show ?thesis unfolding Let_def using library_lifecycle[of ?e ?ops] by auto
qed

end
